(* ===== verification/VF_Prelude.thy ===== *)
theory VF_Prelude
  imports Main "HOL-Library.Word" "HOL-Library.Multiset"
begin

text \<open>
  Shared vocabulary of the development: the widths of the machine integers, decimal
  printing (\<^verbatim>\<open>std::to_string\<close> of an unsigned integer), and the generic list and word
  lemmas that several components use.
\<close>

type_synonym u8 = "8 word"
type_synonym u16 = "16 word"
type_synonym u32 = "32 word"
type_synonym u64 = "64 word"

named_theorems vf_status \<open>simplification rules of statuses and results\<close>
named_theorems vf_inv \<open>preservation of component invariants\<close>

subsection \<open>Decimal printing\<close>

fun show_nat :: "nat \<Rightarrow> string" where
  "show_nat n =
     (if n < 10 then [char_of (48 + n)] else show_nat (n div 10) @ [char_of (48 + n mod 10)])"

declare show_nat.simps [simp del]

lemma show_nat_nonempty [simp]: "show_nat n \<noteq> []"
  by (subst show_nat.simps) simp

subsection \<open>Words\<close>

lemma word_one_le_iff [simp]: "(1 :: 'a::len word) \<le> w \<longleftrightarrow> w \<noteq> 0"
  by (metis linorder_not_less word_gt_0 word_less_1)

text \<open>
  What a call may do besides returning: throw an exception (allocation failure), or abort the
  process at a failed assertion.
\<close>

datatype 'a outcome = Returned 'a | Thrown | Aborted

end
