(* ===== verification/VF_Status.thy ===== *)
theory VF_Status
  imports VF_Prelude
begin

text \<open>
  Error handling primitives (\<^verbatim>\<open>include/vectorforge/status.hpp\<close>, \<^verbatim>\<open>src/core/status.cpp\<close>):
  \<open>error_code\<close> is the enumeration, \<open>status\<close> a code with a message, and \<open>'a result\<close>
  either an error status (\<open>Inl\<close>) or a value (\<open>Inr\<close>). \<open>Result(Status)\<close> aborts the process
  when it is given an OK status; that abort is the value \<open>None\<close> of \<open>result_of_status\<close>.
\<close>

datatype error_code =
    Ok | InvalidArgument | DimensionMismatch | NotFound | AlreadyExists | CorruptData
  | UnsupportedVersion | IoError | ResourceExhausted | FailedPrecondition | Unavailable | Internal

fun code_to_string :: "error_code \<Rightarrow> string" where
  "code_to_string Ok = ''OK''"
| "code_to_string InvalidArgument = ''INVALID_ARGUMENT''"
| "code_to_string DimensionMismatch = ''DIMENSION_MISMATCH''"
| "code_to_string NotFound = ''NOT_FOUND''"
| "code_to_string AlreadyExists = ''ALREADY_EXISTS''"
| "code_to_string CorruptData = ''CORRUPT_DATA''"
| "code_to_string UnsupportedVersion = ''UNSUPPORTED_VERSION''"
| "code_to_string IoError = ''IO_ERROR''"
| "code_to_string ResourceExhausted = ''RESOURCE_EXHAUSTED''"
| "code_to_string FailedPrecondition = ''FAILED_PRECONDITION''"
| "code_to_string Unavailable = ''UNAVAILABLE''"
| "code_to_string Internal = ''INTERNAL''"

text \<open>
  \<open>message_\<close> is a nullable pointer: null exactly for an OK status built without a message.
\<close>

record status =
  code :: error_code
  message_ptr :: "string option"

definition make_status :: "error_code \<Rightarrow> string \<Rightarrow> status" where
  "make_status c m =
     \<lparr>code = c, message_ptr = (if c = Ok \<and> m = [] then None else Some m)\<rparr>"

definition ok_status :: status where
  "ok_status = \<lparr>code = Ok, message_ptr = None\<rparr>"

definition status_ok :: "status \<Rightarrow> bool" where
  "status_ok s \<longleftrightarrow> code s = Ok"

definition status_message :: "status \<Rightarrow> string" where
  "status_message s = (case message_ptr s of None \<Rightarrow> [] | Some m \<Rightarrow> m)"

definition status_to_string :: "status \<Rightarrow> string" where
  "status_to_string s =
     (if status_ok s then ''OK''
      else code_to_string (code s) @
        (if status_message s \<noteq> [] then '': '' @ status_message s else []))"

definition status_equal :: "status \<Rightarrow> status \<Rightarrow> bool" where
  "status_equal s t \<longleftrightarrow> code s = code t \<and> status_message s = status_message t"

definition invalid_argument :: "string \<Rightarrow> status" where
  "invalid_argument m = make_status InvalidArgument m"
definition dimension_mismatch :: "string \<Rightarrow> status" where
  "dimension_mismatch m = make_status DimensionMismatch m"
definition not_found :: "string \<Rightarrow> status" where
  "not_found m = make_status NotFound m"
definition already_exists :: "string \<Rightarrow> status" where
  "already_exists m = make_status AlreadyExists m"
definition corrupt_data :: "string \<Rightarrow> status" where
  "corrupt_data m = make_status CorruptData m"
definition unsupported_version :: "string \<Rightarrow> status" where
  "unsupported_version m = make_status UnsupportedVersion m"
definition io_error :: "string \<Rightarrow> status" where
  "io_error m = make_status IoError m"
definition resource_exhausted :: "string \<Rightarrow> status" where
  "resource_exhausted m = make_status ResourceExhausted m"
definition internal_error :: "string \<Rightarrow> status" where
  "internal_error m = make_status Internal m"

subsection \<open>Results\<close>

type_synonym 'a result = "status + 'a"

definition result_of_status :: "status \<Rightarrow> ('a result) option" where
  "result_of_status s = (if status_ok s then None else Some (Inl s))"

definition has_value :: "'a result \<Rightarrow> bool" where
  "has_value r \<longleftrightarrow> (case r of Inl _ \<Rightarrow> False | Inr _ \<Rightarrow> True)"

definition result_value :: "'a result \<Rightarrow> 'a option" where
  "result_value r = (case r of Inl _ \<Rightarrow> None | Inr v \<Rightarrow> Some v)"

definition value_or :: "'a result \<Rightarrow> 'a \<Rightarrow> 'a" where
  "value_or r d = (case r of Inl _ \<Rightarrow> d | Inr v \<Rightarrow> v)"

definition result_status :: "'a result \<Rightarrow> status" where
  "result_status r = (case r of Inl s \<Rightarrow> s | Inr _ \<Rightarrow> ok_status)"

text \<open>\<^verbatim>\<open>VF_RETURN_IF_ERROR(expr)\<close> followed by the rest of the function, and the same for a
  \<open>Result\<close> whose value the rest uses.\<close>

definition return_if_error :: "status \<Rightarrow> 'a result \<Rightarrow> 'a result" where
  "return_if_error s k = (if status_ok s then k else Inl s)"

definition result_bind :: "'a result \<Rightarrow> ('a \<Rightarrow> 'b result) \<Rightarrow> 'b result" where
  "result_bind r k = (case r of Inl s \<Rightarrow> Inl s | Inr v \<Rightarrow> k v)"

lemmas status_constructors = invalid_argument_def dimension_mismatch_def not_found_def
  already_exists_def corrupt_data_def unsupported_version_def io_error_def
  resource_exhausted_def internal_error_def

lemma make_status_ok [simp]: "status_ok (make_status c m) \<longleftrightarrow> c = Ok"
  by (simp add: status_ok_def make_status_def)

lemma make_status_code [simp]: "code (make_status c m) = c"
  by (simp add: make_status_def)

lemma make_status_message [simp]: "status_message (make_status c m) = m"
  by (auto simp: make_status_def status_message_def)

lemma ok_status_ok [simp]: "status_ok ok_status"
  by (simp add: status_ok_def ok_status_def)

lemma error_statuses_not_ok [simp]:
  "\<not> status_ok (invalid_argument m)" "\<not> status_ok (dimension_mismatch m)"
  "\<not> status_ok (not_found m)" "\<not> status_ok (already_exists m)"
  "\<not> status_ok (corrupt_data m)" "\<not> status_ok (unsupported_version m)"
  "\<not> status_ok (io_error m)" "\<not> status_ok (resource_exhausted m)"
  "\<not> status_ok (internal_error m)"
  by (simp_all add: status_constructors)

lemma error_status_codes [simp]:
  "code (invalid_argument m) = InvalidArgument" "code (dimension_mismatch m) = DimensionMismatch"
  "code (not_found m) = NotFound" "code (already_exists m) = AlreadyExists"
  "code (corrupt_data m) = CorruptData" "code (unsupported_version m) = UnsupportedVersion"
  "code (io_error m) = IoError" "code (resource_exhausted m) = ResourceExhausted"
  "code (internal_error m) = Internal"
  by (simp_all add: status_constructors)

lemma result_bind_simps [simp]:
  "result_bind (Inl s) k = Inl s" "result_bind (Inr v) k = k v"
  by (simp_all add: result_bind_def)

lemma result_bind_Inr: "result_bind r k = Inr y \<longleftrightarrow> (\<exists>v. r = Inr v \<and> k v = Inr y)"
  by (cases r) auto

lemma return_if_error_Inr [simp]: "return_if_error s k = Inr y \<longleftrightarrow> status_ok s \<and> k = Inr y"
  by (simp add: return_if_error_def)

text \<open>The default-constructed status is the one \<^verbatim>\<open>Status(Ok, "")\<close> builds: no message is allocated.\<close>

lemma ok_status_make: "ok_status = make_status Ok []"
  by (simp add: ok_status_def make_status_def)

lemma code_to_string_inj: "code_to_string a = code_to_string b \<longleftrightarrow> a = b"
  by (cases a; cases b) simp_all

end
