(* ===== verification/VF_Types.thy ===== *)
theory VF_Types
  imports VF_Status
begin

text \<open>
  Vocabulary types and configuration (\<^verbatim>\<open>include/vectorforge/types.hpp\<close>,
  \<^verbatim>\<open>include/vectorforge/config.hpp\<close>, \<^verbatim>\<open>src/core/types.cpp\<close>, \<^verbatim>\<open>src/core/config.cpp\<close>).
  A scoped enumeration over \<^verbatim>\<open>std::uint8_t\<close> can hold any byte, so each datatype has one more
  constructor for the bytes that name no enumerator; \<open>is_valid\<close> is what rejects them.
  Row numbers (\<open>InternalId\<close>, 32 bits) are natural numbers in the models; the reserved value is
  \<open>kInvalidInternalId\<close> and the stores bound every row number below it.
\<close>

datatype metric = L2 | InnerProduct | Cosine | BadMetric u8
datatype index_type = Flat | Hnsw | BadIndexType u8
datatype concurrency = Coarse | Concurrent | BadConcurrency u8

type_synonym external_id = u64
type_synonym internal_id = nat

definition kInvalidExternalId :: external_id where "kInvalidExternalId = - 1"
definition kInvalidInternalId :: internal_id where "kInvalidInternalId = 2 ^ 32 - 1"
definition kMaxDim :: u32 where "kMaxDim = 65536"
definition kMaxVectorsPerCollection :: nat where
  "kMaxVectorsPerCollection = kInvalidInternalId"

fun metric_of_u8 :: "u8 \<Rightarrow> metric" where
  "metric_of_u8 b = (if b = 0 then L2 else if b = 1 then InnerProduct else if b = 2 then Cosine
     else BadMetric b)"

fun u8_of_metric :: "metric \<Rightarrow> u8" where
  "u8_of_metric L2 = 0" | "u8_of_metric InnerProduct = 1" | "u8_of_metric Cosine = 2"
| "u8_of_metric (BadMetric b) = b"

fun index_type_of_u8 :: "u8 \<Rightarrow> index_type" where
  "index_type_of_u8 b = (if b = 0 then Flat else if b = 1 then Hnsw else BadIndexType b)"

fun u8_of_index_type :: "index_type \<Rightarrow> u8" where
  "u8_of_index_type Flat = 0" | "u8_of_index_type Hnsw = 1"
| "u8_of_index_type (BadIndexType b) = b"

fun u8_of_concurrency :: "concurrency \<Rightarrow> u8" where
  "u8_of_concurrency Coarse = 0" | "u8_of_concurrency Concurrent = 1"
| "u8_of_concurrency (BadConcurrency b) = b"

fun metric_is_valid :: "metric \<Rightarrow> bool" where
  "metric_is_valid L2 = True" | "metric_is_valid InnerProduct = True"
| "metric_is_valid Cosine = True" | "metric_is_valid (BadMetric _) = False"

fun index_type_is_valid :: "index_type \<Rightarrow> bool" where
  "index_type_is_valid Flat = True" | "index_type_is_valid Hnsw = True"
| "index_type_is_valid (BadIndexType _) = False"

fun metric_to_string :: "metric \<Rightarrow> string" where
  "metric_to_string L2 = ''l2''" | "metric_to_string InnerProduct = ''ip''"
| "metric_to_string Cosine = ''cosine''" | "metric_to_string (BadMetric _) = ''invalid''"

fun index_type_to_string :: "index_type \<Rightarrow> string" where
  "index_type_to_string Flat = ''flat''" | "index_type_to_string Hnsw = ''hnsw''"
| "index_type_to_string (BadIndexType _) = ''invalid''"

fun concurrency_to_string :: "concurrency \<Rightarrow> string" where
  "concurrency_to_string Coarse = ''coarse''" | "concurrency_to_string Concurrent = ''concurrent''"
| "concurrency_to_string (BadConcurrency _) = ''invalid''"

definition parse_metric :: "string \<Rightarrow> metric result" where
  "parse_metric text =
     (if text = ''l2'' then Inr L2
      else if text = ''ip'' \<or> text = ''inner_product'' then Inr InnerProduct
      else if text = ''cosine'' then Inr Cosine
      else Inl (invalid_argument (''unknown metric '' @ [CHR 0x27] @ text @ [CHR 0x27] @
             '' (expected l2, ip, inner_product or cosine)'')))"

definition parse_index_type :: "string \<Rightarrow> index_type result" where
  "parse_index_type text =
     (if text = ''flat'' then Inr Flat
      else if text = ''hnsw'' then Inr Hnsw
      else Inl (invalid_argument (''unknown index type '' @ [CHR 0x27] @ text @ [CHR 0x27] @
             '' (expected flat or hnsw)'')))"

definition parse_concurrency :: "string \<Rightarrow> concurrency result" where
  "parse_concurrency text =
     (if text = ''coarse'' then Inr Coarse
      else if text = ''concurrent'' then Inr Concurrent
      else Inl (invalid_argument (''unknown concurrency mode '' @ [CHR 0x27] @ text @ [CHR 0x27] @
             '' (expected coarse or concurrent)'')))"

subsection \<open>Configuration\<close>

record hnsw_params =
  hp_M :: u32
  hp_ef_construction :: u32
  hp_ef_search :: u32
  hp_max_level :: u8
  hp_seed :: u64

definition kMinM :: u32 where "kMinM = 2"
definition kMaxM :: u32 where "kMaxM = 512"
definition kMaxEf :: u32 where "kMaxEf = push_bit 20 1"
definition kMaxLevelCap :: u8 where "kMaxLevelCap = 32"
definition kMaxK :: u32 where "kMaxK = push_bit 20 1"

definition default_hnsw_params :: hnsw_params where
  "default_hnsw_params = \<lparr>hp_M = 16, hp_ef_construction = 200, hp_ef_search = 50,
     hp_max_level = 16, hp_seed = 0x5EEDF0A6E\<rparr>"

definition range_message :: "string \<Rightarrow> nat \<Rightarrow> nat \<Rightarrow> nat \<Rightarrow> string" where
  "range_message name v lo hi = name @ '' = '' @ show_nat v @ '' is outside ['' @ show_nat lo @
     '', '' @ show_nat hi @ '']''"

definition hnsw_params_validate :: "hnsw_params \<Rightarrow> status" where
  "hnsw_params_validate p =
     (if hp_M p < kMinM \<or> hp_M p > kMaxM
      then invalid_argument (range_message ''hnsw.M'' (unat (hp_M p)) (unat kMinM) (unat kMaxM))
      else if hp_ef_construction p < hp_M p \<or> hp_ef_construction p > kMaxEf
      then invalid_argument (range_message ''hnsw.ef_construction'' (unat (hp_ef_construction p))
             (unat (hp_M p)) (unat kMaxEf) @ '' (must be >= M)'')
      else if hp_ef_search p < 1 \<or> hp_ef_search p > kMaxEf
      then invalid_argument (range_message ''hnsw.ef_search'' (unat (hp_ef_search p)) 1 (unat kMaxEf))
      else if hp_max_level p < 1 \<or> hp_max_level p > kMaxLevelCap
      then invalid_argument (range_message ''hnsw.max_level'' (unat (hp_max_level p)) 1
             (unat kMaxLevelCap))
      else ok_status)"

definition max_links_level0 :: "hnsw_params \<Rightarrow> u32" where
  "max_links_level0 p = 2 * hp_M p"

definition max_links_upper :: "hnsw_params \<Rightarrow> u32" where
  "max_links_upper p = hp_M p"

record collection_config =
  cc_dim :: u32
  cc_metric :: metric
  cc_normalize :: bool
  cc_index :: index_type
  cc_hnsw :: hnsw_params
  cc_concurrency :: concurrency

definition collection_config_validate :: "collection_config \<Rightarrow> status" where
  "collection_config_validate c =
     (if cc_dim c < 1 \<or> cc_dim c > kMaxDim
      then invalid_argument (range_message ''dim'' (unat (cc_dim c)) 1 (unat kMaxDim))
      else if \<not> metric_is_valid (cc_metric c)
      then invalid_argument (''metric has invalid value '' @
             show_nat (unat (u8_of_metric (cc_metric c))))
      else if \<not> index_type_is_valid (cc_index c)
      then invalid_argument (''index type has invalid value '' @
             show_nat (unat (u8_of_index_type (cc_index c))))
      else if cc_concurrency c \<noteq> Coarse \<and> cc_concurrency c \<noteq> Concurrent
      then invalid_argument (''concurrency has invalid value '' @
             show_nat (unat (u8_of_concurrency (cc_concurrency c))))
      else if cc_index c = Hnsw then hnsw_params_validate (cc_hnsw c)
      else ok_status)"

definition effective_normalize :: "collection_config \<Rightarrow> bool" where
  "effective_normalize c \<longleftrightarrow> cc_normalize c \<or> cc_metric c = Cosine"

record search_params =
  sp_k :: u32
  sp_ef_search :: "u32 option"

definition search_params_validate :: "search_params \<Rightarrow> status" where
  "search_params_validate p =
     (if sp_k p < 1 \<or> sp_k p > kMaxK
      then invalid_argument (range_message ''k'' (unat (sp_k p)) 1 (unat kMaxK))
      else (case sp_ef_search p of
              None \<Rightarrow> ok_status
            | Some ef \<Rightarrow>
                if ef < 1 \<or> ef > kMaxEf
                then invalid_argument (range_message ''ef_search'' (unat ef) 1 (unat kMaxEf))
                else ok_status))"

datatype verify_level = VerifyAuto | VerifyNone | VerifyMetadata | VerifyFull

record insert_options =
  io_upsert :: bool

subsection \<open>Facts\<close>

lemma parse_metric_to_string:
  "metric_is_valid m \<Longrightarrow> parse_metric (metric_to_string m) = Inr m"
  by (cases m) (simp_all add: parse_metric_def)

lemma parse_index_type_to_string:
  "index_type_is_valid t \<Longrightarrow> parse_index_type (index_type_to_string t) = Inr t"
  by (cases t) (simp_all add: parse_index_type_def)

lemma metric_u8_roundtrip: "metric_of_u8 (u8_of_metric m) = m \<longleftrightarrow>
    (\<forall>b. m = BadMetric b \<longrightarrow> b \<noteq> 0 \<and> b \<noteq> 1 \<and> b \<noteq> 2)"
  by (cases m) auto

lemma u8_metric_roundtrip [simp]: "u8_of_metric (metric_of_u8 b) = b"
  by simp

lemma metric_of_u8_valid: "metric_is_valid (metric_of_u8 b) \<longleftrightarrow> b < 3"
  by (auto simp: word_less_nat_alt unat_eq_zero) (unat_arith; auto)+

lemma hnsw_params_validate_ok:
  "status_ok (hnsw_params_validate p) \<longleftrightarrow>
     kMinM \<le> hp_M p \<and> hp_M p \<le> kMaxM \<and> hp_M p \<le> hp_ef_construction p \<and>
     hp_ef_construction p \<le> kMaxEf \<and> 1 \<le> hp_ef_search p \<and> hp_ef_search p \<le> kMaxEf \<and>
     1 \<le> hp_max_level p \<and> hp_max_level p \<le> kMaxLevelCap"
  by (auto simp: hnsw_params_validate_def)

lemma search_params_validate_ok:
  "status_ok (search_params_validate p) \<longleftrightarrow>
     1 \<le> sp_k p \<and> sp_k p \<le> kMaxK \<and>
     (\<forall>ef. sp_ef_search p = Some ef \<longrightarrow> 1 \<le> ef \<and> ef \<le> kMaxEf)"
  by (auto simp: search_params_validate_def split: option.splits)

lemma collection_config_validate_ok:
  "status_ok (collection_config_validate c) \<longleftrightarrow>
     1 \<le> cc_dim c \<and> cc_dim c \<le> kMaxDim \<and> metric_is_valid (cc_metric c) \<and>
     index_type_is_valid (cc_index c) \<and> cc_concurrency c \<in> {Coarse, Concurrent} \<and>
     (cc_index c = Hnsw \<longrightarrow> status_ok (hnsw_params_validate (cc_hnsw c)))"
  by (auto simp: collection_config_validate_def)

text \<open>Validated link capacities do not wrap: \<open>2 * M\<close> fits 32 bits.\<close>

lemma max_links_level0_no_wrap:
  assumes "status_ok (hnsw_params_validate p)"
  shows "unat (max_links_level0 p) = 2 * unat (hp_M p)"
proof -
  from assms have "unat (hp_M p) \<le> 512"
    by (simp add: hnsw_params_validate_ok kMaxM_def word_le_nat_alt)
  then show ?thesis by (simp add: max_links_level0_def unat_word_ariths)
qed

end
