(* ===== verification/VF_Rng.thy ===== *)
theory VF_Rng
  imports VF_Types
begin

unbundle bit_operations_syntax

text \<open>
  Pseudo-random numbers (\<^verbatim>\<open>src/core/rng.hpp\<close>) and the HNSW level generator
  (\<^verbatim>\<open>src/index/hnsw/level_generator.hpp\<close>), with 64-bit wrap-around throughout. A generator
  object is a state-passing function. The rejection loop of \<open>uniform_below\<close> may run for as
  long as the generator returns rejected values, so it is a partial function: \<open>None\<close> means it
  does not return.
\<close>

definition kSplitMix64Increment :: u64 where
  "kSplitMix64Increment = 0x9E3779B97F4A7C15"

definition splitmix64 :: "u64 \<Rightarrow> u64" where
  "splitmix64 x =
     (let z = x + kSplitMix64Increment;
          z = (z XOR drop_bit 30 z) * 0xBF58476D1CE4E5B9;
          z = (z XOR drop_bit 27 z) * 0x94D049BB133111EB
      in z XOR drop_bit 31 z)"

definition split_mix_next :: "u64 \<Rightarrow> u64 \<times> u64" where
  "split_mix_next state = (splitmix64 state, state + kSplitMix64Increment)"

type_synonym xoshiro = "u64 \<times> u64 \<times> u64 \<times> u64"

definition xoshiro_seed :: "u64 \<Rightarrow> xoshiro" where
  "xoshiro_seed seed =
     (let (w0, s) = split_mix_next seed; (w1, s) = split_mix_next s;
          (w2, s) = split_mix_next s; (w3, s) = split_mix_next s
      in (w0, w1, w2, w3))"

fun xoshiro_next :: "xoshiro \<Rightarrow> u64 \<times> xoshiro" where
  "xoshiro_next (s0, s1, s2, s3) =
     (let result = word_rotl 7 (s1 * 5) * 9;
          t = push_bit 17 s1;
          s2 = s2 XOR s0;
          s3 = s3 XOR s1;
          s1 = s1 XOR s2;
          s0 = s0 XOR s3;
          s2 = s2 XOR t;
          s3 = word_rotl 45 s3
      in (result, (s0, s1, s2, s3)))"

definition mul_high_u64 :: "u64 \<Rightarrow> u64 \<Rightarrow> u64" where
  "mul_high_u64 a b =
     (let a_lo = a AND 0xFFFFFFFF; a_hi = drop_bit 32 a;
          b_lo = b AND 0xFFFFFFFF; b_hi = drop_bit 32 b;
          lo_lo = a_lo * b_lo; hi_lo = a_hi * b_lo;
          lo_hi = a_lo * b_hi; hi_hi = a_hi * b_hi;
          cross = drop_bit 32 lo_lo + (hi_lo AND 0xFFFFFFFF) + lo_hi
      in hi_hi + drop_bit 32 hi_lo + drop_bit 32 cross)"

partial_function (option) reject_below ::
    "('g \<Rightarrow> u64 \<times> 'g) \<Rightarrow> u64 \<Rightarrow> u64 \<Rightarrow> u64 \<Rightarrow> 'g \<Rightarrow> (u64 \<times> 'g) option" where
  "reject_below gen bound threshold x g =
     (if x * bound < threshold
      then (let (x', g') = gen g in reject_below gen bound threshold x' g')
      else Some (x, g))"

definition uniform_below :: "('g \<Rightarrow> u64 \<times> 'g) \<Rightarrow> u64 \<Rightarrow> 'g \<Rightarrow> (u64 \<times> 'g) option" where
  "uniform_below gen bound g =
     (let (x, g1) = gen g
      in if x * bound < bound
         then (case reject_below gen bound ((0 - bound) mod bound) x g1 of
                 None \<Rightarrow> None
               | Some (y, g2) \<Rightarrow> Some (mul_high_u64 y bound, g2))
         else Some (mul_high_u64 x bound, g1))"

subsection \<open>Level generator\<close>

record level_generator =
  lg_seed :: u64
  lg_m :: u64
  lg_max_level :: u8

definition kTwoPow53 :: u64 where "kTwoPow53 = push_bit 53 1"

text \<open>
  The loop of \<open>level_for\<close>; \<open>level\<close> is an 8-bit counter that stays below \<open>max_level\<close> while the
  loop runs, so it is the natural number \<open>level\<close> with \<open>max_level - level\<close> iterations left.
\<close>

function level_loop :: "u64 \<Rightarrow> u64 \<Rightarrow> nat \<Rightarrow> u64 \<Rightarrow> nat \<Rightarrow> nat" where
  "level_loop m bound max_level pow level =
     (if level < max_level
      then (let nxt = pow * m
            in if bound < nxt then level else level_loop m bound max_level nxt (Suc level))
      else level)"
  by pat_completeness auto
termination
  by (relation "measure (\<lambda>(m, bound, max_level, pow, level). max_level - level)") auto

declare level_loop.simps [simp del]

definition level_bound :: "level_generator \<Rightarrow> internal_id \<Rightarrow> u64" where
  "level_bound lg i =
     (let bits = splitmix64 (lg_seed lg XOR splitmix64 (word_of_nat i));
          v = drop_bit 11 bits + 1
      in kTwoPow53 div v)"

definition level_for :: "level_generator \<Rightarrow> internal_id \<Rightarrow> nat" where
  "level_for lg i =
     level_loop (lg_m lg) (level_bound lg i) (unat (lg_max_level lg)) 1 0"

definition make_level_generator :: "u64 \<Rightarrow> u32 \<Rightarrow> u8 \<Rightarrow> level_generator" where
  "make_level_generator seed m max_level =
     \<lparr>lg_seed = seed, lg_m = ucast m, lg_max_level = max_level\<rparr>"

subsection \<open>Facts\<close>

lemma unat_drop_bit: "unat (drop_bit n (w :: 'a::len word)) = unat w div 2 ^ n"
  by (simp add: unsigned_drop_bit_eq take_bit_nat_eq_self flip: drop_bit_eq_div)

lemma unat_and_mask32: "unat (w AND (0xFFFFFFFF :: u64)) = unat w mod 2 ^ 32"
proof -
  have "w AND (0xFFFFFFFF :: u64) = take_bit 32 w"
    by (simp add: take_bit_eq_mask mask_eq_exp_minus_1)
  then show ?thesis by (simp only: unsigned_take_bit_eq) (simp only: take_bit_eq_mod)
qed

lemma unat_add_small:
  "unat (a :: u64) + unat b < 2 ^ 64 \<Longrightarrow> unat (a + b) = unat a + unat b"
  by (simp add: unat_word_ariths)

lemma unat_mult_small:
  "unat (a :: u64) < 2 ^ 32 \<Longrightarrow> unat b < 2 ^ 32 \<Longrightarrow> unat (a * b) = unat a * unat b"
proof -
  assume "unat a < 2 ^ 32" "unat b < 2 ^ 32"
  then have "unat a * unat b \<le> (2 ^ 32 - 1) * (2 ^ 32 - 1)" by (intro mult_mono) simp_all
  then show ?thesis by (simp add: unat_word_ariths)
qed


lemma high_half_nat:
  fixes hh hl lh ll :: nat
  shows "(hh * 2 ^ 64 + (hl + lh) * 2 ^ 32 + ll) div 2 ^ 64 =
    hh + hl div 2 ^ 32 + (ll div 2 ^ 32 + hl mod 2 ^ 32 + lh) div 2 ^ 32"
proof -
  have a: "(hh * 2 ^ 64 + (hl + lh) * 2 ^ 32 + ll) div 2 ^ 32 = hh * 2 ^ 32 + (hl + lh) + ll div 2 ^ 32"
  proof -
    have "hh * 2 ^ 64 + (hl + lh) * 2 ^ 32 + ll = ll + (hh * 2 ^ 32 + (hl + lh)) * 2 ^ 32"
      by (simp add: algebra_simps)
    then show ?thesis by simp
  qed
  have b: "hh * 2 ^ 32 + (hl + lh) + ll div 2 ^ 32 =
      (ll div 2 ^ 32 + hl mod 2 ^ 32 + lh) + (hh + hl div 2 ^ 32) * 2 ^ 32"
  proof -
    have "hl = hl mod 2 ^ 32 + hl div 2 ^ 32 * 2 ^ 32" by simp
    then show ?thesis by (simp only: add_mult_distrib)
  qed
  have "(2 :: nat) ^ 64 = 2 ^ 32 * 2 ^ 32" by simp
  then have "(hh * 2 ^ 64 + (hl + lh) * 2 ^ 32 + ll) div 2 ^ 64 =
      (hh * 2 ^ 64 + (hl + lh) * 2 ^ 32 + ll) div 2 ^ 32 div 2 ^ 32"
    by (simp only: div_mult2_eq)
  also have "\<dots> = (hh + hl div 2 ^ 32) + (ll div 2 ^ 32 + hl mod 2 ^ 32 + lh) div 2 ^ 32"
    unfolding a b by (rule div_mult_self1) simp
  finally show ?thesis by simp
qed

lemma u64_halves: "unat (a :: u64) = unat (drop_bit 32 a) * 2 ^ 32 + unat (a AND 0xFFFFFFFF)"
  by (simp add: unat_drop_bit unat_and_mask32)

lemma u64_halves_small: "unat (drop_bit 32 (a :: u64)) < 2 ^ 32" "unat (a AND 0xFFFFFFFF) < 2 ^ 32"
  using unsigned_less [of a] by (simp_all add: unat_drop_bit unat_and_mask32 div_less_iff_less_mult)

lemma unat_mul_high_u64: "unat (mul_high_u64 a b) = unat a * unat b div 2 ^ 64"
proof -
  define a0 a1 b0 b1 where ab: "a0 = a AND 0xFFFFFFFF" "a1 = drop_bit 32 a"
    "b0 = b AND 0xFFFFFFFF" "b1 = drop_bit 32 b"
  have small: "unat a0 < 2 ^ 32" "unat a1 < 2 ^ 32" "unat b0 < 2 ^ 32" "unat b1 < 2 ^ 32"
    unfolding ab by (rule u64_halves_small)+
  note p = unat_mult_small [OF small(1) small(3)] unat_mult_small [OF small(2) small(3)]
    unat_mult_small [OF small(1) small(4)] unat_mult_small [OF small(2) small(4)]
  define cross where "cross = drop_bit 32 (a0 * b0) + (a1 * b0 AND 0xFFFFFFFF) + a0 * b1"
  have "unat a0 * unat b1 \<le> (2 ^ 32 - 1) * (2 ^ 32 - 1)" using small by (intro mult_mono) simp_all
  then have sum: "unat (drop_bit 32 (a0 * b0)) + unat (a1 * b0 AND 0xFFFFFFFF) + unat (a0 * b1) < 2 ^ 64"
    using u64_halves_small [of "a0 * b0"] u64_halves_small [of "a1 * b0"] p(3) by simp
  then have cross: "unat cross = unat a0 * unat b0 div 2 ^ 32 + unat a1 * unat b0 mod 2 ^ 32 +
      unat a0 * unat b1"
    unfolding cross_def by (simp add: unat_add_small unat_drop_bit unat_and_mask32 p)
  have split: "unat a * unat b = unat a1 * unat b1 * 2 ^ 64 +
      (unat a1 * unat b0 + unat a0 * unat b1) * 2 ^ 32 + unat a0 * unat b0"
    unfolding u64_halves [of a] u64_halves [of b] ab by (simp add: algebra_simps)
  have q: "unat a * unat b div 2 ^ 64 =
      unat a1 * unat b1 + unat a1 * unat b0 div 2 ^ 32 + unat cross div 2 ^ 32"
    unfolding split cross by (rule high_half_nat)
  have "unat a * unat b div 2 ^ 64 < 2 ^ 64"
  proof -
    have "unat a * unat b < 2 ^ 64 * 2 ^ 64"
      using unsigned_less [of a] unsigned_less [of b] by (intro mult_strict_mono) simp_all
    then show ?thesis by (simp add: div_less_iff_less_mult)
  qed
  then show ?thesis
    unfolding q mul_high_u64_def Let_def ab [symmetric] cross_def [symmetric]
    by (simp add: unat_add_small unat_drop_bit p)
qed

lemma mul_high_less:
  assumes "0 < bound"
  shows "mul_high_u64 x bound < bound"
proof -
  have "unat x * unat bound < 2 ^ 64 * unat bound"
    using assms unsigned_less [of x] by (simp add: unat_gt_0 word_neq_0_conv)
  then show ?thesis
    by (simp add: word_less_nat_alt unat_mul_high_u64 div_less_iff_less_mult mult.commute)
qed

lemma uniform_below_in_range:
  assumes "uniform_below gen bound g = Some (r, g')" "0 < bound"
  shows "r < bound"
  using assms mul_high_less
  by (auto simp: uniform_below_def Let_def split: prod.splits if_splits option.splits)

text \<open>The loop returns as soon as the generator produces an accepted value.\<close>

primrec gen_iter :: "('g \<Rightarrow> u64 \<times> 'g) \<Rightarrow> nat \<Rightarrow> u64 \<times> 'g \<Rightarrow> u64 \<times> 'g" where
  "gen_iter gen 0 s = s"
| "gen_iter gen (Suc n) s = gen_iter gen n (gen (snd s))"

lemma reject_below_returns:
  "\<not> fst (gen_iter gen n (x, g)) * bound < threshold \<Longrightarrow> \<exists>r. reject_below gen bound threshold x g = Some r"
proof (induction n arbitrary: x g)
  case 0
  then show ?case by (subst reject_below.simps) simp
next
  case (Suc n)
  obtain x' g' where "gen g = (x', g')" by (cases "gen g")
  with Suc show ?case by (subst reject_below.simps) auto
qed

subsection \<open>Levels\<close>

lemma level_loop_spec:
  assumes "unat pow = unat m ^ level" "unat m ^ level \<le> unat bound" "unat bound \<le> 2 ^ 53"
    "unat m \<le> 512" "level \<le> max_level"
  shows "let r = level_loop m bound max_level pow level in
    level \<le> r \<and> r \<le> max_level \<and> unat m ^ r \<le> unat bound \<and>
    (r = max_level \<or> unat bound < unat m ^ Suc r)"
  using assms
proof (induction m bound max_level pow level rule: level_loop.induct)
  case (1 m bound max_level pow level)
  have nxt: "unat (pow * m) = unat m ^ Suc level"
  proof -
    have "unat pow * unat m \<le> 2 ^ 53 * 512"
      using "1.prems" by (intro mult_mono) linarith+
    then show ?thesis using "1.prems"(1) by (simp add: unat_word_ariths mult.commute)
  qed
  show ?case
  proof (cases "level < max_level \<and> \<not> bound < pow * m")
    case True
    then have "unat m ^ Suc level \<le> unat bound"
      using nxt by (simp add: word_less_nat_alt not_less)
    then show ?thesis
      using "1.IH" True "1.prems" nxt
      by (subst level_loop.simps) (fastforce simp: Let_def)
  next
    case False
    then show ?thesis
      using "1.prems" nxt by (subst level_loop.simps) (auto simp: Let_def word_less_nat_alt)
  qed
qed

lemma level_bound_le: "unat (level_bound lg i) \<le> 2 ^ 53" "1 \<le> unat (level_bound lg i)"
proof -
  define w where "w = splitmix64 (lg_seed lg XOR splitmix64 (word_of_nat i))"
  define v where "v = drop_bit 11 w + 1"
  have d: "unat (drop_bit 11 w) < 2 ^ 53"
    using unsigned_less [of w] by (simp add: unat_drop_bit div_less_iff_less_mult)
  then have "unat v = unat (drop_bit 11 w) + 1" unfolding v_def by (subst unat_add_small) simp_all
  then have v: "1 \<le> unat v" "unat v \<le> 2 ^ 53" using d by simp_all
  have b: "unat (level_bound lg i) = 2 ^ 53 div unat v"
    by (simp add: level_bound_def Let_def v_def [symmetric] w_def [symmetric] unat_div kTwoPow53_def)
  then show "unat (level_bound lg i) \<le> 2 ^ 53" by simp
  show "1 \<le> unat (level_bound lg i)"
    unfolding b using v by (simp add: Suc_le_eq div_greater_zero_iff)
qed

lemma level_for_spec:
  assumes "unat (lg_m lg) \<le> 512"
  shows "level_for lg i \<le> unat (lg_max_level lg)"
    and "unat (lg_m lg) ^ level_for lg i \<le> unat (level_bound lg i)"
    and "level_for lg i = unat (lg_max_level lg) \<or>
      unat (level_bound lg i) < unat (lg_m lg) ^ Suc (level_for lg i)"
  using level_loop_spec [of 1 "lg_m lg" 0 "level_bound lg i" "unat (lg_max_level lg)"]
    level_bound_le [of lg i] assms
  by (simp_all add: level_for_def Let_def)

text \<open>The level of a node is \<open>floor (log\<^sub>M bound)\<close> capped at \<open>max_level\<close>: for every
  accepted M it is the only number below the cap whose power of M is at most the drawn bound while
  the next power exceeds it.\<close>

lemma level_for_is_log:
  assumes "2 \<le> unat (lg_m lg)" "unat (lg_m lg) \<le> 512" "l < unat (lg_max_level lg)"
  shows "level_for lg i = l \<longleftrightarrow>
    unat (lg_m lg) ^ l \<le> unat (level_bound lg i) \<and> unat (level_bound lg i) < unat (lg_m lg) ^ Suc l"
  (is "_ \<longleftrightarrow> ?m ^ l \<le> ?b \<and> _")
proof
  assume "level_for lg i = l"
  then show "?m ^ l \<le> ?b \<and> ?b < ?m ^ Suc l"
    using level_for_spec [OF assms(2), of i] assms(3) by auto
next
  assume l: "?m ^ l \<le> ?b \<and> ?b < ?m ^ Suc l"
  define r where "r = level_for lg i"
  have r: "?m ^ r \<le> ?b" "r = unat (lg_max_level lg) \<or> ?b < ?m ^ Suc r"
    using level_for_spec [OF assms(2), of i] by (simp_all add: r_def)
  have mono: "?m ^ a < ?m ^ b \<Longrightarrow> a < b" for a b
    using power_increasing [of b a ?m] assms(1) by (cases "a < b") auto
  have "r < Suc l" by (rule mono, rule le_less_trans [OF r(1) conjunct2 [OF l]])
  moreover have "l < Suc r"
  proof (cases "r = unat (lg_max_level lg)")
    case False
    then have "?b < ?m ^ Suc r" using r(2) by blast
    from le_less_trans [OF conjunct1 [OF l] this] show ?thesis by (rule mono)
  qed (use assms(3) in simp)
  ultimately show "level_for lg i = l" by (simp add: r_def)
qed

end
