(* ===== verification/VF_Float.thy ===== *)
theory VF_Float
  imports VF_Prelude
begin

text \<open>
  The \<^verbatim>\<open>float\<close> type of the program: IEEE-754 binary32 with round-to-nearest-even, the
  arithmetic every supported compiler uses for the scalar kernels (contraction is disabled
  for them). A float is its bit pattern, a 32-bit word. Every finite float is an integer
  multiple of \<open>2\<^sup>-\<^sup>1\<^sup>4\<^sup>9\<close>, the smallest positive subnormal, so exact values are integers in
  that unit (\<open>f32_val\<close>), and an operation is the exact integer or rational result followed by
  one rounding (\<open>f32_round\<close>). Infinity has the value \<open>2\<^sup>2\<^sup>7\<^sup>7\<close> that its bit pattern decodes to,
  which is above every finite value, so comparisons read values only. Every invalid
  operation yields the same quiet NaN; the program never looks at a NaN's payload.
\<close>

type_synonym f32 = "32 word"

subsection \<open>Bit patterns\<close>

definition f32_sign :: "f32 \<Rightarrow> bool" where
  "f32_sign w \<longleftrightarrow> 2 ^ 31 \<le> unat w"

definition f32_mag :: "f32 \<Rightarrow> nat" where
  "f32_mag w = unat w mod 2 ^ 31"

definition f32_make :: "bool \<Rightarrow> nat \<Rightarrow> f32" where
  "f32_make neg m = word_of_nat (if neg then 2 ^ 31 + m else m)"

abbreviation f32_inf_mag :: nat where
  "f32_inf_mag \<equiv> 0x7F800000"

definition f32_is_nan :: "f32 \<Rightarrow> bool" where
  "f32_is_nan w \<longleftrightarrow> f32_inf_mag < f32_mag w"

definition f32_is_inf :: "f32 \<Rightarrow> bool" where
  "f32_is_inf w \<longleftrightarrow> f32_mag w = f32_inf_mag"

definition f32_is_finite :: "f32 \<Rightarrow> bool" where
  "f32_is_finite w \<longleftrightarrow> f32_mag w < f32_inf_mag"

text \<open>Exponent field 0 is a subnormal; otherwise the significand has an implicit leading 1.\<close>

definition units_of_mag :: "nat \<Rightarrow> nat" where
  "units_of_mag m =
     (let e = m div 2 ^ 23; f = m mod 2 ^ 23
      in if e = 0 then f else (2 ^ 23 + f) * 2 ^ (e - 1))"

definition f32_units :: "f32 \<Rightarrow> nat" where
  "f32_units w = units_of_mag (f32_mag w)"

definition f32_val :: "f32 \<Rightarrow> int" where
  "f32_val w = (if f32_sign w then - int (f32_units w) else int (f32_units w))"

definition f32_zero :: f32 where "f32_zero = 0"
definition f32_one :: f32 where "f32_one = 0x3F800000"
definition f32_two :: f32 where "f32_two = 0x40000000"
definition f32_infinity :: f32 where "f32_infinity = 0x7F800000"
definition f32_qnan :: f32 where "f32_qnan = 0x7FC00000"

subsection \<open>Rounding\<close>

fun bitlen :: "nat \<Rightarrow> nat" where
  "bitlen n = (if n = 0 then 0 else Suc (bitlen (n div 2)))"

declare bitlen.simps [simp del]

text \<open>\<open>n / d\<close> to the nearest integer, ties to even.\<close>

definition rne_div :: "nat \<Rightarrow> nat \<Rightarrow> nat" where
  "rne_div n d =
     (let q = n div d; r = n mod d
      in if 2 * r < d \<or> (2 * r = d \<and> even q) then q else Suc q)"

text \<open>\<open>n / d\<close> to the nearest integer with at most \<open>p\<close> significant bits.\<close>

definition round_sig :: "nat \<Rightarrow> nat \<Rightarrow> nat \<Rightarrow> nat" where
  "round_sig p n d =
     (let k = bitlen (n div d) - p in rne_div n (d * 2 ^ k) * 2 ^ k)"

text \<open>The magnitude bits of a value that has at most 24 significant bits, saturating at infinity.\<close>

definition mag_of_units :: "nat \<Rightarrow> nat" where
  "mag_of_units v = (let k = bitlen v - 24 in min f32_inf_mag (k * 2 ^ 23 + v div 2 ^ k))"

definition f32_round :: "bool \<Rightarrow> nat \<Rightarrow> nat \<Rightarrow> f32" where
  "f32_round neg n d = f32_make neg (mag_of_units (round_sig 24 n d))"

subsection \<open>Operations\<close>

definition f32_lt :: "f32 \<Rightarrow> f32 \<Rightarrow> bool" where
  "f32_lt a b \<longleftrightarrow> \<not> f32_is_nan a \<and> \<not> f32_is_nan b \<and> f32_val a < f32_val b"

definition f32_le :: "f32 \<Rightarrow> f32 \<Rightarrow> bool" where
  "f32_le a b \<longleftrightarrow> \<not> f32_is_nan a \<and> \<not> f32_is_nan b \<and> f32_val a \<le> f32_val b"

definition f32_eq :: "f32 \<Rightarrow> f32 \<Rightarrow> bool" where
  "f32_eq a b \<longleftrightarrow> \<not> f32_is_nan a \<and> \<not> f32_is_nan b \<and> f32_val a = f32_val b"

definition f32_neg :: "f32 \<Rightarrow> f32" where
  "f32_neg w = f32_make (\<not> f32_sign w) (f32_mag w)"

definition f32_abs :: "f32 \<Rightarrow> f32" where
  "f32_abs w = f32_make False (f32_mag w)"

definition f32_add :: "f32 \<Rightarrow> f32 \<Rightarrow> f32" where
  "f32_add a b =
     (if f32_is_nan a \<or> f32_is_nan b then f32_qnan
      else if f32_is_inf a then (if f32_is_inf b \<and> f32_sign a \<noteq> f32_sign b then f32_qnan else a)
      else if f32_is_inf b then b
      else (let s = f32_val a + f32_val b
            in if s = 0 then f32_make (f32_sign a \<and> f32_sign b) 0
               else f32_round (s < 0) (nat \<bar>s\<bar>) 1))"

definition f32_sub :: "f32 \<Rightarrow> f32 \<Rightarrow> f32" where
  "f32_sub a b = f32_add a (f32_neg b)"

definition f32_mul :: "f32 \<Rightarrow> f32 \<Rightarrow> f32" where
  "f32_mul a b =
     (let neg = (f32_sign a \<noteq> f32_sign b)
      in if f32_is_nan a \<or> f32_is_nan b then f32_qnan
         else if f32_is_inf a \<or> f32_is_inf b
         then (if f32_mag a = 0 \<or> f32_mag b = 0 then f32_qnan else f32_make neg f32_inf_mag)
         else f32_round neg (f32_units a * f32_units b) (2 ^ 149))"

text \<open>\<^verbatim>\<open>std::max(a, b)\<close> is \<^verbatim>\<open>(a < b) ? b : a\<close>.\<close>

definition f32_max :: "f32 \<Rightarrow> f32 \<Rightarrow> f32" where
  "f32_max a b = (if f32_lt a b then b else a)"

subsection \<open>Signs and magnitudes\<close>

lemma f32_mag_bound: "f32_mag w < 2 ^ 31"
  by (simp add: f32_mag_def)

lemma unat_f32_make: "m < 2 ^ 31 \<Longrightarrow> unat (f32_make s m) = (if s then 2 ^ 31 + m else m)"
  by (simp add: f32_make_def unat_of_nat)

lemma f32_make_sign [simp]: "m < 2 ^ 31 \<Longrightarrow> f32_sign (f32_make s m) = s"
  by (simp add: f32_sign_def unat_f32_make)

lemma f32_make_mag [simp]: "m < 2 ^ 31 \<Longrightarrow> f32_mag (f32_make s m) = m"
  by (simp add: f32_mag_def unat_f32_make)

lemma f32_make_sign_mag [simp]: "f32_make (f32_sign w) (f32_mag w) = w"
proof -
  have "unat w < 2 ^ 32" using unsigned_less [of w] by simp
  then have "unat w = (if f32_sign w then 2 ^ 31 + f32_mag w else f32_mag w)"
    by (auto simp: f32_sign_def f32_mag_def mod_if le_mod_geq)
  then have "f32_make (f32_sign w) (f32_mag w) = word_of_nat (unat w)"
    by (simp add: f32_make_def)
  then show ?thesis by simp
qed

lemma f32_neg_sign [simp]: "f32_sign (f32_neg w) = (\<not> f32_sign w)"
  and f32_neg_mag [simp]: "f32_mag (f32_neg w) = f32_mag w"
  using f32_mag_bound [of w] by (simp_all add: f32_neg_def)

lemma f32_neg_neg [simp]: "f32_neg (f32_neg w) = w"
  by (simp add: f32_neg_def [of "f32_neg w"])

lemma f32_neg_classes [simp]:
  "f32_is_nan (f32_neg w) = f32_is_nan w" "f32_is_inf (f32_neg w) = f32_is_inf w"
  "f32_is_finite (f32_neg w) = f32_is_finite w" "f32_units (f32_neg w) = f32_units w"
  by (simp_all add: f32_is_nan_def f32_is_inf_def f32_is_finite_def f32_units_def)

lemma f32_val_neg [simp]: "f32_val (f32_neg w) = - f32_val w"
  by (simp add: f32_val_def)

lemma f32_abs_val [simp]: "f32_val (f32_abs w) = \<bar>f32_val w\<bar>"
  using f32_mag_bound [of w] by (simp add: f32_val_def f32_abs_def f32_units_def)

lemma f32_abs_nan [simp]: "f32_is_nan (f32_abs w) = f32_is_nan w"
  using f32_mag_bound [of w] by (simp add: f32_is_nan_def f32_abs_def)

lemma f32_abs_f32_val: "\<bar>f32_val w\<bar> = int (f32_units w)"
  by (simp add: f32_val_def)

lemma f32_finite_not: "f32_is_finite w \<longleftrightarrow> \<not> f32_is_nan w \<and> \<not> f32_is_inf w"
  by (auto simp: f32_is_finite_def f32_is_nan_def f32_is_inf_def)

lemma f32_qnan_nan [simp]: "f32_is_nan f32_qnan"
  by (simp add: f32_is_nan_def f32_mag_def f32_qnan_def)

subsection \<open>Rounding facts\<close>

lemma bitlen_0 [simp]: "bitlen 0 = 0"
  by (simp add: bitlen.simps)

lemma bitlen_le_iff: "bitlen n \<le> k \<longleftrightarrow> n < 2 ^ k"
proof (induction n arbitrary: k rule: bitlen.induct)
  case (1 n)
  show ?case
  proof (cases "n = 0")
    case False
    show ?thesis
    proof (cases k)
      case 0
      with False show ?thesis by (simp add: bitlen.simps [of n])
    next
      case (Suc j)
      have "bitlen n \<le> k \<longleftrightarrow> n div 2 < 2 ^ j"
        using 1 False Suc by (simp add: bitlen.simps [of n])
      also have "\<dots> \<longleftrightarrow> n < 2 ^ k"
        using Suc by (auto simp: less_mult_imp_div_less div_less_iff_less_mult mult.commute)
      finally show ?thesis .
    qed
  qed simp
qed

lemma bitlen_mono: "m \<le> n \<Longrightarrow> bitlen m \<le> bitlen n"
  by (meson bitlen_le_iff le_trans not_le order_refl order.strict_trans2)

lemma bitlen_pos_lower: "0 < bitlen n \<Longrightarrow> 2 ^ (bitlen n - 1) \<le> n"
  using bitlen_le_iff [of n "bitlen n - 1"] by (simp add: not_less [symmetric])

lemma bitlen_upper: "n < 2 ^ bitlen n"
  using bitlen_le_iff [of n "bitlen n"] by simp

lemma rne_div_mono:
  assumes "m \<le> n" "0 < d"
  shows "rne_div m d \<le> rne_div n d"
proof -
  have le: "m div d \<le> n div d" using assms by (simp add: div_le_mono)
  have up: "rne_div m d \<le> Suc (m div d)" by (simp add: rne_div_def Let_def)
  have lo: "n div d \<le> rne_div n d" by (simp add: rne_div_def Let_def)
  show ?thesis
  proof (cases "m div d = n div d")
    case True
    then have "m mod d \<le> n mod d"
      using assms by (metis add_le_cancel_left div_mult_mod_eq)
    with True show ?thesis by (auto simp: rne_div_def Let_def)
  next
    case False
    with le have "Suc (m div d) \<le> n div d" by simp
    with up lo show ?thesis by linarith
  qed
qed

lemma rne_div_exact [simp]: "0 < d \<Longrightarrow> rne_div (v * d) d = v"
  by (simp add: rne_div_def)

lemma rne_div_upper: "0 < d \<Longrightarrow> n \<le> v * d \<Longrightarrow> rne_div n d \<le> v"
  using rne_div_mono [of n "v * d" d] by simp

lemma rne_div_lower: "0 < d \<Longrightarrow> v * d \<le> n \<Longrightarrow> v \<le> rne_div n d"
  using rne_div_mono [of "v * d" n d] by simp

text \<open>A number with at most \<open>p\<close> significant bits.\<close>

definition representable :: "nat \<Rightarrow> nat \<Rightarrow> bool" where
  "representable p v \<longleftrightarrow> (\<exists>m k. v = m * 2 ^ k \<and> m \<le> 2 ^ p)"

lemma representableI: "v = m * 2 ^ k \<Longrightarrow> m \<le> 2 ^ p \<Longrightarrow> representable p v"
  by (auto simp: representable_def)

lemma representable_scale:
  assumes "representable p v" "0 < p"
  obtains m where "v = m * 2 ^ (bitlen v - p)"
proof -
  from assms obtain m k where v: "v = m * 2 ^ k" and m: "m \<le> 2 ^ p"
    by (auto simp: representable_def)
  show ?thesis
  proof (cases "bitlen v - p \<le> k")
    case True
    then have "v = (m * 2 ^ (k - (bitlen v - p))) * 2 ^ (bitlen v - p)"
      using v by (simp add: mult.assoc flip: power_add)
    then show ?thesis by (rule that)
  next
    case False
    then have "Suc (p + k) \<le> bitlen v" by simp
    then have "2 ^ (p + k) \<le> v"
      using bitlen_le_iff [of v "p + k"] by simp
    moreover have "v \<le> 2 ^ (p + k)" using v m by (simp add: power_add)
    ultimately have eq: "v = 2 ^ (p + k)" by simp
    then have "bitlen v = Suc (p + k)"
      using bitlen_le_iff [of v "Suc (p + k)"] \<open>Suc (p + k) \<le> bitlen v\<close> by simp
    then have "v = 2 ^ (p - 1) * 2 ^ (bitlen v - p)"
      using eq assms(2) by (cases p) (simp_all add: power_add)
    then show ?thesis by (rule that)
  qed
qed

lemma round_sig_bounds:
  fixes n d p defines "k \<equiv> bitlen (n div d) - p"
  assumes "0 < d" "0 < p"
  shows "round_sig p n d \<le> 2 ^ (p + k)"
    and "0 < k \<Longrightarrow> 2 ^ (p - 1 + k) \<le> round_sig p n d"
proof -
  have q: "n div d < 2 ^ (p + k)"
  proof -
    have "n div d < 2 ^ bitlen (n div d)" by (rule bitlen_upper)
    also have "(2::nat) ^ bitlen (n div d) \<le> 2 ^ (p + k)"
      by (rule power_increasing) (simp_all add: k_def)
    finally show ?thesis .
  qed
  then have "n \<le> 2 ^ p * (d * 2 ^ k)"
    using assms(2) by (simp add: div_less_iff_less_mult power_add ac_simps)
  then have "rne_div n (d * 2 ^ k) \<le> 2 ^ p"
    using assms(2) by (intro rne_div_upper) simp_all
  then show "round_sig p n d \<le> 2 ^ (p + k)"
    by (simp add: round_sig_def Let_def k_def [symmetric] power_add)
  assume "0 < k"
  then have b: "bitlen (n div d) = p + k" by (simp add: k_def)
  have e: "(2::nat) ^ (p + k - 1) = 2 ^ (p - 1) * 2 ^ k"
    using assms(3) by (simp flip: power_add)
  have "2 ^ (p + k - 1) \<le> n div d"
    using bitlen_pos_lower [of "n div d"] b \<open>0 < k\<close> by simp
  then have "2 ^ (p - 1) * 2 ^ k * d \<le> n"
    using e assms(2) by (simp add: less_eq_div_iff_mult_less_eq)
  then have "2 ^ (p - 1) * (d * 2 ^ k) \<le> n" by (simp add: ac_simps)
  then have "2 ^ (p - 1) \<le> rne_div n (d * 2 ^ k)"
    using assms(2) by (intro rne_div_lower) simp_all
  then show "2 ^ (p - 1 + k) \<le> round_sig p n d"
    by (simp add: round_sig_def Let_def k_def [symmetric] power_add)
qed

lemma round_sig_mono:
  assumes "m \<le> n" "0 < d" "0 < p"
  shows "round_sig p m d \<le> round_sig p n d"
proof -
  let ?j = "bitlen (m div d) - p" and ?k = "bitlen (n div d) - p"
  have "?j \<le> ?k" using assms by (simp add: bitlen_mono div_le_mono diff_le_mono)
  then consider "?j = ?k" | "?j < ?k" by linarith
  then show ?thesis
  proof cases
    case 1
    then show ?thesis
      using assms by (simp add: round_sig_def Let_def rne_div_mono)
  next
    case 2
    have "round_sig p m d \<le> 2 ^ (p + ?j)" using round_sig_bounds(1) assms by blast
    also have "(2::nat) ^ (p + ?j) \<le> 2 ^ (p - 1 + ?k)"
      using 2 assms(3) by (intro power_increasing) simp_all
    also have "\<dots> \<le> round_sig p n d"
      using round_sig_bounds(2) [of d p n] assms 2 by simp
    finally show ?thesis .
  qed
qed

lemma round_sig_representable:
  assumes "representable p v" "0 < d" "0 < p"
  shows "round_sig p (v * d) d = v"
proof -
  obtain m where m: "v = m * 2 ^ (bitlen v - p)"
    using representable_scale assms by blast
  let ?k = "bitlen v - p"
  have "rne_div (v * d) (d * 2 ^ ?k) * 2 ^ ?k = rne_div (m * (d * 2 ^ ?k)) (d * 2 ^ ?k) * 2 ^ ?k"
    using m by (metis mult.assoc mult.commute)
  also have "\<dots> = v" using assms(2) m by simp
  finally show ?thesis using assms(2) by (simp add: round_sig_def Let_def)
qed

lemma round_sig_upper:
  assumes "n \<le> v * d" "representable p v" "0 < d" "0 < p"
  shows "round_sig p n d \<le> v"
  using round_sig_mono [OF assms(1,3,4)] round_sig_representable [OF assms(2-4)] by simp

lemma round_sig_lower:
  assumes "v * d \<le> n" "representable p v" "0 < d" "0 < p"
  shows "v \<le> round_sig p n d"
  using round_sig_mono [OF assms(1,3,4)] round_sig_representable [OF assms(2-4)] by simp

lemma representable_round_sig: "0 < d \<Longrightarrow> 0 < p \<Longrightarrow> representable p (round_sig p n d)"
proof -
  assume "0 < d" "0 < p"
  let ?k = "bitlen (n div d) - p"
  have "rne_div n (d * 2 ^ ?k) * 2 ^ ?k \<le> 2 ^ p * 2 ^ ?k"
    using round_sig_bounds(1) [of d p n] \<open>0 < d\<close> \<open>0 < p\<close>
    by (simp add: round_sig_def Let_def power_add)
  then show ?thesis
    by (intro representableI [of _ "rne_div n (d * 2 ^ ?k)" ?k])
      (simp_all add: round_sig_def Let_def)
qed


subsection \<open>Values of rounded results\<close>

lemma mag_of_units_scaled:
  assumes k: "k = bitlen v - 24" and v: "v = m * 2 ^ k" "v < 2 ^ 277"
  shows "mag_of_units v = k * 2 ^ 23 + m" "mag_of_units v < f32_inf_mag"
    and "k = 0 \<longrightarrow> m < 2 ^ 24" "k > 0 \<longrightarrow> 2 ^ 23 \<le> m \<and> m < 2 ^ 24"
proof -
  have "bitlen v \<le> 277" using v(2) by (simp add: bitlen_le_iff)
  then have "k \<le> 253" using k by simp
  have "bitlen v \<le> 24 + k" using k by simp
  then have "m * 2 ^ k < 2 ^ 24 * 2 ^ k"
    using v(1) by (simp only: bitlen_le_iff power_add)
  then have m: "m < 2 ^ 24" by (simp only: nat_mult_less_cancel_disj mult.commute [of _ "2 ^ k"])
  have lo: "2 ^ 23 \<le> m" if "k > 0"
  proof -
    from that k have b: "bitlen v - 1 = 23 + k" "0 < bitlen v" by simp_all
    have "2 ^ 23 * 2 ^ k \<le> m * 2 ^ k"
      using bitlen_pos_lower [of v] b v(1) by (simp only: power_add)
    then show ?thesis by (simp only: mult_le_cancel2) simp
  qed
  have d: "v div 2 ^ k = m" using v(1) by simp
  have lt: "k * 2 ^ 23 + m < f32_inf_mag" using m \<open>k \<le> 253\<close> by simp
  then show "mag_of_units v = k * 2 ^ 23 + m"
    by (simp add: mag_of_units_def Let_def d flip: k)
  with lt show "mag_of_units v < f32_inf_mag" by simp
  show "k = 0 \<longrightarrow> m < 2 ^ 24" "k > 0 \<longrightarrow> 2 ^ 23 \<le> m \<and> m < 2 ^ 24"
    using m lo by simp_all
qed

lemma units_of_mag_scaled:
  assumes "k = 0 \<longrightarrow> m < 2 ^ 24" "k > 0 \<longrightarrow> 2 ^ 23 \<le> m \<and> m < (2 ^ 24 :: nat)"
  shows "units_of_mag (k * 2 ^ 23 + m) = m * 2 ^ k"
proof (cases "m < 2 ^ 23")
  case True
  with assms have "k = 0" by auto
  with True show ?thesis by (simp add: units_of_mag_def)
next
  case False
  with assms have m: "2 ^ 23 \<le> m" "m < 2 ^ 24" by (cases "k = 0"; simp)+
  have "k * 2 ^ 23 + m = (m - 2 ^ 23) + (k + 1) * 2 ^ 23"
    using m by (simp add: algebra_simps)
  moreover have "m - 2 ^ 23 < 2 ^ 23" using m by simp
  ultimately have "(k * 2 ^ 23 + m) div 2 ^ 23 = k + 1" "(k * 2 ^ 23 + m) mod 2 ^ 23 = m - 2 ^ 23"
    by (simp_all only: div_mult_self1 mod_mult_self1 div_less mod_less)
  then show ?thesis using m by (simp add: units_of_mag_def Let_def)
qed

lemma mag_of_units_finite:
  assumes "representable 24 v" "v < 2 ^ 277"
  shows "mag_of_units v < f32_inf_mag \<and> units_of_mag (mag_of_units v) = v"
proof -
  obtain m where v: "v = m * 2 ^ (bitlen v - 24)"
    using representable_scale [OF assms(1)] by auto
  note s = mag_of_units_scaled [OF refl v assms(2)]
  have "units_of_mag (mag_of_units v) = v"
    using units_of_mag_scaled [OF s(3,4)] s(1) v by simp
  with s(2) show ?thesis by simp
qed

lemma mag_of_units_le: "mag_of_units v \<le> f32_inf_mag"
  by (simp add: mag_of_units_def Let_def)

lemma f32_round_not_nan [simp]: "\<not> f32_is_nan (f32_round s n d)"
proof -
  have "mag_of_units (round_sig 24 n d) < 2 ^ 31"
    using mag_of_units_le [of "round_sig 24 n d"] by simp
  then show ?thesis
    using mag_of_units_le [of "round_sig 24 n d"]
    by (simp add: f32_round_def f32_is_nan_def)
qed

lemma f32_round_mag: "f32_mag (f32_round s n d) = mag_of_units (round_sig 24 n d)"
  and f32_round_sign: "f32_sign (f32_round s n d) = s"
  using mag_of_units_le [of "round_sig 24 n d"] by (simp_all add: f32_round_def)

lemma f32_round_finite:
  assumes "0 < d" "round_sig 24 n d < 2 ^ 277"
  shows "f32_is_finite (f32_round s n d) \<and> f32_units (f32_round s n d) = round_sig 24 n d"
  using mag_of_units_finite [OF representable_round_sig [of d 24 n] assms(2)] assms(1)
  by (simp add: f32_is_finite_def f32_units_def f32_round_mag)

text \<open>Bounds through an operation: a bound with at most 24 significant bits survives rounding.\<close>

lemma f32_round_bound:
  assumes "n \<le> v * d" "representable 24 v" "v < 2 ^ 277" "0 < d"
  shows "f32_is_finite (f32_round s n d) \<and> f32_units (f32_round s n d) \<le> v"
proof -
  have "round_sig 24 n d \<le> v" using round_sig_upper [OF assms(1,2,4)] by simp
  with assms(3,4) f32_round_finite [of d n s] show ?thesis by auto
qed

lemma f32_make_zero [simp]: "f32_mag (f32_make s 0) = 0" "f32_units (f32_make s 0) = 0"
  "f32_is_finite (f32_make s 0)" "\<not> f32_is_nan (f32_make s 0)" "\<not> f32_is_inf (f32_make s 0)"
  by (simp_all add: f32_units_def units_of_mag_def f32_is_finite_def f32_is_nan_def f32_is_inf_def)

lemma f32_add_bound:
  assumes "f32_is_finite a" "f32_is_finite b"
    and "f32_units a + f32_units b \<le> v" "representable 24 v" "v < 2 ^ 277"
  shows "f32_is_finite (f32_add a b) \<and> f32_units (f32_add a b) \<le> v"
proof (cases "f32_val a + f32_val b = 0")
  case True
  with assms show ?thesis by (simp add: f32_add_def f32_finite_not Let_def)
next
  case False
  have "\<bar>f32_val a + f32_val b\<bar> \<le> int (f32_units a) + int (f32_units b)"
    using abs_triangle_ineq [of "f32_val a" "f32_val b"] by (simp only: f32_abs_f32_val)
  then have "nat \<bar>f32_val a + f32_val b\<bar> \<le> v * 1" using assms(3) by linarith
  from f32_round_bound [OF this assms(4,5)] False assms(1,2) show ?thesis
    by (simp add: f32_add_def f32_finite_not Let_def)
qed

lemma f32_mul_bound:
  assumes "f32_is_finite a" "f32_is_finite b"
    and "f32_units a * f32_units b \<le> v * 2 ^ 149" "representable 24 v" "v < 2 ^ 277"
  shows "f32_is_finite (f32_mul a b) \<and> f32_units (f32_mul a b) \<le> v"
  using f32_round_bound [OF assms(3-5)] assms(1,2)
  by (simp add: f32_mul_def f32_finite_not Let_def)

lemma f32_sub_bound:
  assumes "f32_is_finite a" "f32_is_finite b"
    and "f32_units a + f32_units b \<le> v" "representable 24 v" "v < 2 ^ 277"
  shows "f32_is_finite (f32_sub a b) \<and> f32_units (f32_sub a b) \<le> v"
  using f32_add_bound [of a "f32_neg b" v] assms by (simp add: f32_sub_def)

subsection \<open>Algebraic facts\<close>

lemma f32_mul_commute: "f32_mul a b = f32_mul b a"
proof -
  have "(f32_sign a \<noteq> f32_sign b) = (f32_sign b \<noteq> f32_sign a)" by auto
  then show ?thesis by (auto simp: f32_mul_def Let_def mult.commute)
qed

lemma f32_mul_self: "f32_mag a = f32_mag b \<Longrightarrow> f32_mul a a = f32_mul b b"
  by (simp add: f32_mul_def Let_def f32_is_nan_def f32_is_inf_def f32_units_def)

lemma f32_sub_mag_commute: "f32_mag (f32_sub a b) = f32_mag (f32_sub b a)"
proof -
  have s: "f32_val a - f32_val b = 0 \<longleftrightarrow> f32_val b - f32_val a = 0"
    "\<bar>f32_val a - f32_val b\<bar> = \<bar>f32_val b - f32_val a\<bar>" by linarith+
  show ?thesis
    by (auto simp: f32_sub_def f32_add_def Let_def f32_round_mag s(2) f32_is_inf_def)
qed

lemma f32_mul_not_nan:
  "f32_is_finite a \<Longrightarrow> f32_is_finite b \<Longrightarrow> \<not> f32_is_nan (f32_mul a b)"
  by (simp add: f32_mul_def Let_def f32_finite_not)

lemma f32_add_not_nan:
  "f32_is_finite a \<Longrightarrow> \<not> f32_is_nan b \<Longrightarrow> \<not> f32_is_nan (f32_add a b)"
  by (auto simp: f32_add_def Let_def f32_finite_not)

lemma f32_sub_not_nan:
  "f32_is_finite a \<Longrightarrow> \<not> f32_is_nan b \<Longrightarrow> \<not> f32_is_nan (f32_sub a b)"
  by (simp add: f32_sub_def f32_add_not_nan)

lemma f32_max_not_nan: "\<not> f32_is_nan a \<Longrightarrow> \<not> f32_is_nan (f32_max a b)"
  by (simp add: f32_max_def f32_lt_def)

lemma f32_constants_finite [simp]:
  "f32_is_finite f32_zero" "f32_is_finite f32_one" "f32_is_finite f32_two"
  by (simp_all add: f32_is_finite_def f32_mag_def f32_zero_def f32_one_def f32_two_def)

subsection \<open>Evaluation on literals\<close>

lemma bitlen_one [simp]: "bitlen (Suc 0) = Suc 0"
  by (simp add: bitlen.simps)

lemma bitlen_numeral [simp]:
  "bitlen (numeral num.One) = 1"
  "bitlen (numeral (num.Bit0 n)) = Suc (bitlen (numeral n))"
  "bitlen (numeral (num.Bit1 n)) = Suc (bitlen (numeral n))"
  by (simp_all add: bitlen.simps [of "numeral (num.Bit0 n)"] bitlen.simps [of "numeral (num.Bit1 n)"])

lemmas f32_eval = f32_mul_def f32_add_def f32_sub_def f32_neg_def f32_abs_def f32_max_def f32_lt_def
  f32_le_def f32_eq_def f32_val_def f32_units_def units_of_mag_def f32_is_nan_def f32_is_inf_def
  f32_is_finite_def f32_mag_def f32_sign_def f32_round_def round_sig_def rne_div_def mag_of_units_def
  f32_make_def f32_one_def f32_zero_def f32_two_def f32_infinity_def f32_qnan_def Let_def

lemma f32_small_literals:
  "f32_mul f32_one f32_one = f32_one" "f32_add f32_zero f32_one = f32_one"
  "f32_lt f32_zero f32_one" "f32_sub f32_one f32_one = f32_zero" "f32_add f32_one f32_one = f32_two"
  "f32_mul f32_zero f32_zero = f32_zero" "f32_add f32_zero f32_zero = f32_zero"
  "\<not> f32_is_nan f32_zero" "\<not> f32_is_nan f32_one" "\<not> f32_is_nan f32_two"
  by (simp_all add: f32_eval)

end
