(* ===== verification/VF_Heaps.thy ===== *)
theory VF_Heaps
  imports VF_Float VF_Types "HOL-Library.Product_Lexorder"
begin

text \<open>
  Priority queues for search candidates (\<^verbatim>\<open>src/search/heaps.hpp\<close>): \<open>BoundedMaxHeap\<close>, a max-heap
  of at most \<open>capacity\<close> elements in caller storage, and \<open>MinHeap\<close> over a growing vector. The
  storage is a list; \<open>bh_size\<close> elements of it are live. The comparison is a parameter of the
  array loops because the min-heap runs the same loops with the arguments of \<open>candidate_less\<close>
  exchanged. \<open>top\<close> and \<open>pop\<close> on an empty heap are asserted away in the source; here \<open>top\<close> is
  \<open>None\<close> there.
\<close>

record 'i scored =
  sc_distance :: f32
  sc_id :: 'i

type_synonym scored_id = "internal_id scored"

abbreviation mk_scored :: "f32 \<Rightarrow> 'i \<Rightarrow> 'i scored" where
  "mk_scored d i \<equiv> \<lparr>sc_distance = d, sc_id = i\<rparr>"

definition candidate_less :: "'i::linorder scored \<Rightarrow> 'i scored \<Rightarrow> bool" where
  "candidate_less a b \<longleftrightarrow>
     f32_lt (sc_distance a) (sc_distance b) \<or>
     (f32_eq (sc_distance a) (sc_distance b) \<and> sc_id a < sc_id b)"

subsection \<open>Array loops\<close>

definition swap_at :: "'a list \<Rightarrow> nat \<Rightarrow> nat \<Rightarrow> 'a list" where
  "swap_at xs i j = xs[i := xs ! j, j := xs ! i]"

function sift_up :: "('a \<Rightarrow> 'a \<Rightarrow> bool) \<Rightarrow> 'a list \<Rightarrow> nat \<Rightarrow> 'a list" where
  "sift_up lt xs i =
     (if i = 0 then xs
      else (let parent = (i - 1) div 2
            in if \<not> lt (xs ! parent) (xs ! i) then xs
               else sift_up lt (swap_at xs parent i) parent))"
  by pat_completeness auto
termination
  by (relation "measure (\<lambda>(lt, xs, i). i)") auto

function sift_down :: "('a \<Rightarrow> 'a \<Rightarrow> bool) \<Rightarrow> 'a list \<Rightarrow> nat \<Rightarrow> nat \<Rightarrow> 'a list" where
  "sift_down lt xs i cnt =
     (let left = 2 * i + 1
      in if cnt \<le> left then xs
         else (let right = left + 1;
                   largest = (if right < cnt \<and> lt (xs ! left) (xs ! right) then right else left)
               in if \<not> lt (xs ! i) (xs ! largest) then xs
                  else sift_down lt (swap_at xs i largest) largest cnt))"
  by pat_completeness auto
termination
  by (relation "measure (\<lambda>(lt, xs, i, cnt). cnt - i)") auto

declare sift_up.simps [simp del] sift_down.simps [simp del]

text \<open>The heapsort loop of \<open>sort_ascending\<close>: \<open>end\<close> runs down from \<open>cnt\<close> while it exceeds 1.\<close>

fun sort_loop :: "('a \<Rightarrow> 'a \<Rightarrow> bool) \<Rightarrow> 'a list \<Rightarrow> nat \<Rightarrow> 'a list" where
  "sort_loop lt xs bound =
     (if 1 < bound
      then sort_loop lt (sift_down lt (swap_at xs 0 (bound - 1)) 0 (bound - 1)) (bound - 1)
      else xs)"

declare sort_loop.simps [simp del]

subsection \<open>BoundedMaxHeap\<close>

record 'a bounded_heap =
  bh_data :: "'a list"
  bh_size :: nat

definition bh_make :: "'a list \<Rightarrow> 'a bounded_heap" where
  "bh_make storage = \<lparr>bh_data = storage, bh_size = 0\<rparr>"

definition bh_full :: "'a bounded_heap \<Rightarrow> bool" where
  "bh_full h \<longleftrightarrow> bh_size h = length (bh_data h)"

definition bh_top :: "'a bounded_heap \<Rightarrow> 'a option" where
  "bh_top h = (if 0 < bh_size h then Some (bh_data h ! 0) else None)"

definition bh_push :: "('a \<Rightarrow> 'a \<Rightarrow> bool) \<Rightarrow> 'a bounded_heap \<Rightarrow> 'a \<Rightarrow> bool \<times> 'a bounded_heap" where
  "bh_push lt h c =
     (if bh_size h < length (bh_data h)
      then (True, \<lparr>bh_data = sift_up lt ((bh_data h)[bh_size h := c]) (bh_size h),
                   bh_size = bh_size h + 1\<rparr>)
      else if bh_size h = 0 \<or> \<not> lt c (bh_data h ! 0) then (False, h)
      else (True, h\<lparr>bh_data := sift_down lt ((bh_data h)[0 := c]) 0 (bh_size h)\<rparr>))"

definition bh_pop :: "('a \<Rightarrow> 'a \<Rightarrow> bool) \<Rightarrow> 'a bounded_heap \<Rightarrow> 'a bounded_heap" where
  "bh_pop lt h =
     (let n = bh_size h - 1
      in if 0 < n
         then \<lparr>bh_data = sift_down lt ((bh_data h)[0 := bh_data h ! n]) 0 n, bh_size = n\<rparr>
         else h\<lparr>bh_size := n\<rparr>)"

definition bh_sort_ascending :: "('a \<Rightarrow> 'a \<Rightarrow> bool) \<Rightarrow> 'a bounded_heap \<Rightarrow> nat \<times> 'a bounded_heap" where
  "bh_sort_ascending lt h =
     (bh_size h, \<lparr>bh_data = sort_loop lt (bh_data h) (bh_size h), bh_size = 0\<rparr>)"

definition bh_clear :: "'a bounded_heap \<Rightarrow> 'a bounded_heap" where
  "bh_clear h = h\<lparr>bh_size := 0\<rparr>"

subsection \<open>MinHeap\<close>

definition mh_top :: "'a list \<Rightarrow> 'a option" where
  "mh_top h = (case h of [] \<Rightarrow> None | x # _ \<Rightarrow> Some x)"

definition mh_push :: "('a \<Rightarrow> 'a \<Rightarrow> bool) \<Rightarrow> 'a list \<Rightarrow> 'a \<Rightarrow> 'a list" where
  "mh_push lt h c = sift_up (\<lambda>a b. lt b a) (h @ [c]) (length h)"

definition mh_pop :: "('a \<Rightarrow> 'a \<Rightarrow> bool) \<Rightarrow> 'a list \<Rightarrow> 'a list" where
  "mh_pop lt h =
     (let h' = butlast (h[0 := last h]) in sift_down (\<lambda>a b. lt b a) h' 0 (length h'))"

subsection \<open>Swapping and permutations\<close>

lemma length_swap_at [simp]: "length (swap_at xs i j) = length xs"
  by (simp add: swap_at_def)

lemma nth_swap_at:
  "i < length xs \<Longrightarrow> j < length xs \<Longrightarrow>
     swap_at xs i j ! k = (if k = j then xs ! i else if k = i then xs ! j else xs ! k)"
  by (auto simp: swap_at_def nth_list_update)

lemma mset_swap_at: "i < length xs \<Longrightarrow> j < length xs \<Longrightarrow> mset (swap_at xs i j) = mset xs"
  using mset_swap [of j xs i] by (simp add: swap_at_def)

lemma take_swap_at:
  assumes "i < n" "j < n" "n \<le> length xs"
  shows "take n (swap_at xs i j) = swap_at (take n xs) i j"
  using assms by (simp add: swap_at_def take_update_swap)

lemma drop_swap_at:
  "i < n \<Longrightarrow> j < n \<Longrightarrow> drop n (swap_at xs i j) = drop n xs"
  by (simp add: swap_at_def drop_update_cancel)

lemma mset_take_swap_at:
  "i < n \<Longrightarrow> j < n \<Longrightarrow> n \<le> length xs \<Longrightarrow> mset (take n (swap_at xs i j)) = mset (take n xs)"
  by (simp add: take_swap_at mset_swap_at)

lemma sift_up_perm:
  "i < n \<Longrightarrow> n \<le> length xs \<Longrightarrow>
     length (sift_up lt xs i) = length xs \<and>
     mset (take n (sift_up lt xs i)) = mset (take n xs) \<and>
     drop n (sift_up lt xs i) = drop n xs"
proof (induction lt xs i rule: sift_up.induct)
  case (1 lt xs i)
  show ?case
  proof (cases "i = 0 \<or> \<not> lt (xs ! ((i - 1) div 2)) (xs ! i)")
    case True
    then show ?thesis by (subst (1 2 3) sift_up.simps) (auto simp: Let_def)
  next
    case False
    with 1 have "(i - 1) div 2 < n" by auto
    with False 1 show ?thesis
      by (subst (1 2 3) sift_up.simps) (simp add: Let_def mset_take_swap_at drop_swap_at)
  qed
qed

lemma sift_down_perm:
  "i < n \<Longrightarrow> n \<le> length xs \<Longrightarrow>
     length (sift_down lt xs i n) = length xs \<and>
     mset (take n (sift_down lt xs i n)) = mset (take n xs) \<and>
     drop n (sift_down lt xs i n) = drop n xs"
proof (induction lt xs i n rule: sift_down.induct)
  case (1 lt xs i n)
  define m where "m = (if 2 * i + 2 < n \<and> lt (xs ! (2 * i + 1)) (xs ! (2 * i + 2)) then 2 * i + 2
    else 2 * i + 1)"
  have eq: "sift_down lt xs i n = (if n \<le> 2 * i + 1 \<or> \<not> lt (xs ! i) (xs ! m) then xs
      else sift_down lt (swap_at xs i m) m n)"
    by (subst sift_down.simps) (simp add: m_def Let_def)
  show ?case
  proof (cases "n \<le> 2 * i + 1 \<or> \<not> lt (xs ! i) (xs ! m)")
    case True
    then show ?thesis by (simp add: eq)
  next
    case False
    then have m: "m < n" by (auto simp: m_def)
    have "length (sift_down lt (swap_at xs i m) m n) = length (swap_at xs i m) \<and>
      mset (take n (sift_down lt (swap_at xs i m) m n)) = mset (take n (swap_at xs i m)) \<and>
      drop n (sift_down lt (swap_at xs i m) m n) = drop n (swap_at xs i m)"
      using False m "1.prems" by (intro "1.IH" [OF refl _ refl]) (auto simp: m_def)
    with False m "1.prems" show ?thesis by (simp add: eq mset_take_swap_at drop_swap_at)
  qed
qed


lemmas sift_up_length [simp] = sift_up_perm [THEN conjunct1]
lemmas sift_down_length [simp] = sift_down_perm [THEN conjunct1]

subsection \<open>The heap order\<close>

text \<open>
  Both heaps need of the comparison only that it is a strict weak order on the elements stored
  (\<open>ok\<close>): the laws of the locale. They fail for NaN distances, which is why inputs are validated
  at the API boundary.
\<close>

definition heap_ord :: "('a \<Rightarrow> 'a \<Rightarrow> bool) \<Rightarrow> 'a list \<Rightarrow> nat \<Rightarrow> bool" where
  "heap_ord lt xs n \<longleftrightarrow> (\<forall>j<n. 0 < j \<longrightarrow> \<not> lt (xs ! ((j - 1) div 2)) (xs ! j))"

definition up_ord :: "('a \<Rightarrow> 'a \<Rightarrow> bool) \<Rightarrow> 'a list \<Rightarrow> nat \<Rightarrow> nat \<Rightarrow> bool" where
  "up_ord lt xs i n \<longleftrightarrow>
     (\<forall>j<n. 0 < j \<longrightarrow> j \<noteq> i \<longrightarrow> \<not> lt (xs ! ((j - 1) div 2)) (xs ! j)) \<and>
     (\<forall>j<n. 0 < i \<longrightarrow> 0 < j \<longrightarrow> (j - 1) div 2 = i \<longrightarrow> \<not> lt (xs ! ((i - 1) div 2)) (xs ! j))"

definition down_ord :: "('a \<Rightarrow> 'a \<Rightarrow> bool) \<Rightarrow> 'a list \<Rightarrow> nat \<Rightarrow> nat \<Rightarrow> bool" where
  "down_ord lt xs i n \<longleftrightarrow>
     (\<forall>j<n. 0 < j \<longrightarrow> (j - 1) div 2 \<noteq> i \<longrightarrow> \<not> lt (xs ! ((j - 1) div 2)) (xs ! j)) \<and>
     (\<forall>j<n. 0 < i \<longrightarrow> 0 < j \<longrightarrow> (j - 1) div 2 = i \<longrightarrow> \<not> lt (xs ! ((i - 1) div 2)) (xs ! j))"

lemma parent_cases:
  fixes i j :: nat
  assumes "0 < j" "(j - 1) div 2 = i"
  shows "j = 2 * i + 1 \<or> j = 2 * i + 2"
  using assms by arith

definition bh_elems :: "'a bounded_heap \<Rightarrow> 'a list" where
  "bh_elems h = take (bh_size h) (bh_data h)"

definition bh_wf :: "('a \<Rightarrow> 'a \<Rightarrow> bool) \<Rightarrow> ('a \<Rightarrow> bool) \<Rightarrow> 'a bounded_heap \<Rightarrow> bool" where
  "bh_wf lt ok h \<longleftrightarrow>
     bh_size h \<le> length (bh_data h) \<and> heap_ord lt (bh_data h) (bh_size h) \<and>
     (\<forall>x\<in>set (bh_elems h). ok x)"

definition mh_wf :: "('a \<Rightarrow> 'a \<Rightarrow> bool) \<Rightarrow> ('a \<Rightarrow> bool) \<Rightarrow> 'a list \<Rightarrow> bool" where
  "mh_wf lt ok h \<longleftrightarrow> heap_ord (\<lambda>a b. lt b a) h (length h) \<and> (\<forall>x\<in>set h. ok x)"

text \<open>
  The contract of top-k selection: of the candidates \<open>cs\<close> seen so far, \<open>es\<close> keeps \<open>k\<close> (or all of
  them), and nothing left out is better than anything kept.
\<close>

definition keeps_best :: "('a \<Rightarrow> 'a \<Rightarrow> bool) \<Rightarrow> nat \<Rightarrow> 'a multiset \<Rightarrow> 'a multiset \<Rightarrow> bool" where
  "keeps_best lt k cs es \<longleftrightarrow>
     es \<subseteq># cs \<and> size es = min k (size cs) \<and> (\<forall>x\<in>#es. \<forall>y\<in>#cs - es. \<not> lt y x)"

lemma keeps_best_empty [simp]: "keeps_best lt k {#} {#}"
  by (simp add: keeps_best_def)

lemma keeps_best_all: "size cs \<le> k \<Longrightarrow> keeps_best lt k cs es \<longleftrightarrow> es = cs"
  by (auto simp: keeps_best_def mset_subset_size subset_mset.le_less
      dest: mset_subset_size)

lemma length_bh_elems: "bh_size h \<le> length (bh_data h) \<Longrightarrow> length (bh_elems h) = bh_size h"
  by (simp add: bh_elems_def)

lemma set_take_nth: "n \<le> length xs \<Longrightarrow> (\<forall>x\<in>set (take n xs). P x) \<longleftrightarrow> (\<forall>j<n. P (xs ! j))"
  by (auto simp: set_conv_nth)

lemma heap_ord_down:
  assumes "heap_ord lt xs n" "m \<le> n" "\<And>j. 0 < j \<Longrightarrow> j < m \<Longrightarrow> ys ! j = xs ! j"
  shows "down_ord lt ys 0 m"
  using assms by (auto simp: heap_ord_def down_ord_def)

lemma heap_ord_up:
  assumes "heap_ord lt xs n" "\<And>j. j < n \<Longrightarrow> ys ! j = xs ! j"
  shows "up_ord lt ys n (Suc n)"
  unfolding up_ord_def
proof (intro conjI allI impI)
  fix j assume "j < Suc n" "0 < j" "j \<noteq> n"
  moreover from this have "(j - 1) div 2 < n" by auto
  ultimately show "\<not> lt (ys ! ((j - 1) div 2)) (ys ! j)" using assms by (simp add: heap_ord_def)
next
  fix j assume "j < Suc n" "0 < n" "0 < j" "(j - 1) div 2 = n"
  then show "\<not> lt (ys ! ((n - 1) div 2)) (ys ! j)" by auto
qed

locale weak_order =
  fixes lt :: "'a \<Rightarrow> 'a \<Rightarrow> bool" and ok :: "'a \<Rightarrow> bool"
  assumes asym: "ok a \<Longrightarrow> ok b \<Longrightarrow> lt a b \<Longrightarrow> \<not> lt b a"
    and not_trans: "ok a \<Longrightarrow> ok b \<Longrightarrow> ok c \<Longrightarrow> \<not> lt a b \<Longrightarrow> \<not> lt b c \<Longrightarrow> \<not> lt a c"
begin

lemma lt_trans: "ok a \<Longrightarrow> ok b \<Longrightarrow> ok c \<Longrightarrow> lt a b \<Longrightarrow> lt b c \<Longrightarrow> lt a c"
  using asym not_trans by meson

lemma up_step:
  assumes "up_ord lt xs i n" "0 < i" "i < n" "n \<le> length xs" "\<forall>j<n. ok (xs ! j)"
    and lt: "lt (xs ! ((i - 1) div 2)) (xs ! i)"
  shows "up_ord lt (swap_at xs ((i - 1) div 2) i) ((i - 1) div 2) n"
proof -
  define p where "p = (i - 1) div 2"
  have p: "p < i" "p < n" "p < length xs" "i < length xs" using assms by (auto simp: p_def)
  note nth = nth_swap_at [OF p(3,4)]
  have A: "\<not> lt (xs ! ((j - 1) div 2)) (xs ! j)" if "j < n" "0 < j" "j \<noteq> i" for j
    using assms(1) that by (auto simp: up_ord_def)
  have B: "\<not> lt (xs ! p) (xs ! j)" if "j < n" "0 < j" "(j - 1) div 2 = i" for j
    using assms(1,2) that by (auto simp: up_ord_def p_def)
  have oks: "ok (xs ! j)" if "j < n" for j using assms(5) that by blast
  have Ap: "\<not> lt (xs ! i) (xs ! p)"
    using asym [OF oks [OF p(2)] oks [OF assms(3)]] lt by (simp add: p_def)
  have sib: "\<not> lt (xs ! i) (xs ! j)" if "j < n" "0 < j" "(j - 1) div 2 = p" "j \<noteq> i" for j
    using not_trans [OF oks [OF assms(3)] oks [OF p(2)] oks [OF that(1)] Ap] A [OF that(1,2,4)] that(3)
    by simp
  have anc: "\<not> lt (xs ! ((p - 1) div 2)) (xs ! j)" if "j < n" "0 < j" "(j - 1) div 2 = p" "j \<noteq> i" "0 < p" for j
  proof -
    have "(p - 1) div 2 < n" using p by auto
    from not_trans [OF oks [OF this] oks [OF p(2)] oks [OF that(1)]] show ?thesis
      using A [OF that(1,2,4)] A [OF p(2) that(5)] that(3) p(1) by auto
  qed
  have up: "up_ord lt (swap_at xs p i) p n"
    unfolding up_ord_def
  proof (intro conjI allI impI)
    fix j assume j: "j < n" "0 < j" "j \<noteq> p"
    show "\<not> lt (swap_at xs p i ! ((j - 1) div 2)) (swap_at xs p i ! j)"
    proof (cases "j = i")
      case True
      then have "(j - 1) div 2 = p" by (simp add: p_def)
      then show ?thesis using True p(1) Ap by (simp add: nth)
    next
      case False
      have "j \<noteq> (j - 1) div 2" using j by auto
      then show ?thesis using False j A B sib by (auto simp: nth)
    qed
  next
    fix j assume j: "j < n" "0 < p" "0 < j" "(j - 1) div 2 = p"
    have "(p - 1) div 2 \<noteq> p" "(p - 1) div 2 \<noteq> i" "j \<noteq> p" using j p(1) by auto
    moreover have "\<not> lt (xs ! ((p - 1) div 2)) (xs ! p)" using A [OF p(2) j(2)] p(1) by auto
    ultimately show "\<not> lt (swap_at xs p i ! ((p - 1) div 2)) (swap_at xs p i ! j)"
      using anc j by (cases "j = i") (simp_all add: nth)
  qed
  then show ?thesis by (simp add: p_def)
qed

lemma sift_up_heap:
  assumes "up_ord lt xs i n" "i < n" "n \<le> length xs" "\<forall>j<n. ok (xs ! j)"
  shows "heap_ord lt (sift_up lt xs i) n"
  using assms
proof (induction i arbitrary: xs rule: less_induct)
  case (less i)
  show ?case
  proof (cases "0 < i \<and> lt (xs ! ((i - 1) div 2)) (xs ! i)")
    case True
    have oks: "\<forall>j<n. ok (swap_at xs ((i - 1) div 2) i ! j)"
      using less.prems by (auto simp: nth_swap_at)
    have "heap_ord lt (sift_up lt (swap_at xs ((i - 1) div 2) i) ((i - 1) div 2)) n"
      using True less.prems oks by (intro less.IH up_step) auto
    then show ?thesis using True by (subst sift_up.simps) (simp add: Let_def)
  next
    case False
    then have "sift_up lt xs i = xs" by (subst sift_up.simps) (auto simp: Let_def)
    with False less.prems show ?thesis by (auto simp: heap_ord_def up_ord_def)
  qed
qed

lemma down_step:
  assumes "down_ord lt xs i n" "m < n" "n \<le> length xs" "\<forall>j<n. ok (xs ! j)"
    and m: "0 < m" "(m - 1) div 2 = i" and lt: "lt (xs ! i) (xs ! m)"
    and best: "\<forall>j<n. 0 < j \<longrightarrow> (j - 1) div 2 = i \<longrightarrow> \<not> lt (xs ! m) (xs ! j)"
  shows "down_ord lt (swap_at xs i m) m n"
proof -
  have i: "i < m" "i < n" "i < length xs" "m < length xs" using assms by auto
  note nth = nth_swap_at [OF i(3,4)]
  have oks: "ok (xs ! j)" if "j < n" for j using assms(4) that by blast
  have A: "\<not> lt (xs ! ((j - 1) div 2)) (xs ! j)" if "j < n" "0 < j" "(j - 1) div 2 \<noteq> i" for j
    using assms(1) that by (auto simp: down_ord_def)
  have B: "\<not> lt (xs ! ((i - 1) div 2)) (xs ! j)" if "j < n" "0 < i" "0 < j" "(j - 1) div 2 = i" for j
    using assms(1) that by (auto simp: down_ord_def)
  have nlt: "\<not> lt (xs ! m) (xs ! i)" using asym lt oks assms(2) i by blast
  show ?thesis
    unfolding down_ord_def
  proof (intro conjI allI impI)
    fix j assume j: "j < n" "0 < j" "(j - 1) div 2 \<noteq> m"
    consider "j = i" | "j = m" | "j \<noteq> i" "j \<noteq> m" "(j - 1) div 2 = i"
      | "j \<noteq> i" "j \<noteq> m" "(j - 1) div 2 \<noteq> i" by blast
    then show "\<not> lt (swap_at xs i m ! ((j - 1) div 2)) (swap_at xs i m ! j)"
    proof cases
      case 1
      have "(i - 1) div 2 \<noteq> i" "(i - 1) div 2 \<noteq> m" using j 1 i by auto
      then show ?thesis using 1 j B [OF assms(2) _ m] i by (simp add: nth)
    next
      case 2
      then show ?thesis using nlt m i by (simp add: nth)
    next
      case 3
      then show ?thesis using best j i by (simp add: nth)
    next
      case 4
      then show ?thesis using A j by (simp add: nth)
    qed
  next
    fix j assume j: "j < n" "0 < m" "0 < j" "(j - 1) div 2 = m"
    have "j \<noteq> m" "j \<noteq> i" using j i by auto
    moreover have "(j - 1) div 2 \<noteq> i" using j i by simp
    then have "\<not> lt (xs ! m) (xs ! j)" using A [OF j(1) j(3)] j(4) by auto
    ultimately show "\<not> lt (swap_at xs i m ! ((m - 1) div 2)) (swap_at xs i m ! j)"
      using m i by (simp add: nth)
  qed
qed

lemma sift_down_heap:
  assumes "down_ord lt xs i n" "i < n" "n \<le> length xs" "\<forall>j<n. ok (xs ! j)"
  shows "heap_ord lt (sift_down lt xs i n) n"
  using assms
proof (induction "n - i" arbitrary: i xs rule: less_induct)
  case less
  define m where "m = (if 2 * i + 2 < n \<and> lt (xs ! (2 * i + 1)) (xs ! (2 * i + 2)) then 2 * i + 2
    else 2 * i + 1)"
  have eq: "sift_down lt xs i n = (if n \<le> 2 * i + 1 \<or> \<not> lt (xs ! i) (xs ! m) then xs
      else sift_down lt (swap_at xs i m) m n)"
    by (subst sift_down.simps) (simp add: m_def Let_def)
  have m: "0 < m" "(m - 1) div 2 = i" by (auto simp: m_def)
  have best: "\<not> lt (xs ! m) (xs ! j)" if "j < n" "0 < j" "(j - 1) div 2 = i" for j
  proof -
    have "ok (xs ! j)" "\<not> lt (xs ! j) (xs ! j)" using that less.prems asym by blast+
    moreover have "\<not> lt (xs ! (2 * i + 2)) (xs ! (2 * i + 1))"
      if "2 * i + 2 < n" "lt (xs ! (2 * i + 1)) (xs ! (2 * i + 2))"
      using that less.prems(4) by (intro asym) auto
    ultimately show ?thesis using parent_cases [OF that(2,3)] that(1) by (auto simp: m_def)
  qed
  show ?case
  proof (cases "n \<le> 2 * i + 1 \<or> \<not> lt (xs ! i) (xs ! m)")
    case True
    have "\<not> lt (xs ! i) (xs ! j)" if j: "j < n" "0 < j" "(j - 1) div 2 = i" for j
    proof -
      have "\<not> n \<le> 2 * i + 1" using parent_cases [OF j(2,3)] j(1) by auto
      moreover from this have "m < n" by (auto simp: m_def)
      ultimately show ?thesis
        using True best [OF j] not_trans less.prems(2,4) j(1) by blast
    qed
    with True less.prems(1) show ?thesis by (auto simp: eq heap_ord_def down_ord_def)
  next
    case False
    then have mn: "m < n" by (auto simp: m_def)
    have im: "i < m" using m by auto
    have "\<forall>j<n. ok (swap_at xs i m ! j)" using less.prems mn by (auto simp: nth_swap_at)
    moreover have "down_ord lt (swap_at xs i m) m n"
      using False mn m best less.prems by (intro down_step) auto
    ultimately have "heap_ord lt (sift_down lt (swap_at xs i m) m n) n"
      using less.prems mn im by (intro less.hyps) auto
    then show ?thesis using False by (simp add: eq)
  qed
qed

lemma heap_top:
  assumes "heap_ord lt xs n" "j < n" "\<forall>j<n. ok (xs ! j)"
  shows "\<not> lt (xs ! 0) (xs ! j)"
  using assms(2)
proof (induction j rule: less_induct)
  case (less j)
  show ?case
  proof (cases "j = 0")
    case True
    then show ?thesis using asym assms(3) less.prems by blast
  next
    case False
    then have "\<not> lt (xs ! 0) (xs ! ((j - 1) div 2))" using less by auto
    moreover have "\<not> lt (xs ! ((j - 1) div 2)) (xs ! j)" using assms(1) less.prems False
      by (auto simp: heap_ord_def)
    ultimately show ?thesis
      using not_trans [of "xs ! 0" "xs ! ((j - 1) div 2)" "xs ! j"] assms(3) less.prems False by auto
  qed
qed


lemma sift_down_top:
  assumes "heap_ord lt xs n" "m \<le> n" "0 < m" "m \<le> length ys" "length ys = length xs"
    and "\<And>j. 0 < j \<Longrightarrow> j < m \<Longrightarrow> ys ! j = xs ! j" and "\<forall>j<m. ok (ys ! j)"
  shows "heap_ord lt (sift_down lt ys 0 m) m"
  using assms by (intro sift_down_heap heap_ord_down [of lt xs n]) auto

lemma sort_step_ok:
  assumes e: "1 < e" "e \<le> cnt" "cnt \<le> length xs" and oks: "\<forall>j<cnt. ok (xs ! j)"
    and heap: "heap_ord lt xs e"
    and tl: "\<forall>j<cnt. e \<le> j \<longrightarrow> (\<forall>i<j. \<not> lt (xs ! j) (xs ! i))"
  defines "ys \<equiv> sift_down lt (swap_at xs 0 (e - 1)) 0 (e - 1)"
  shows "heap_ord lt ys (e - 1)"
    and "\<forall>j<cnt. e - 1 \<le> j \<longrightarrow> (\<forall>i<j. \<not> lt (ys ! j) (ys ! i))"
    and "mset (take cnt ys) = mset (take cnt xs)" and "drop cnt ys = drop cnt xs"
    and "length ys = length xs"
proof -
  define zs where "zs = swap_at xs 0 (e - 1)"
  have perm: "length ys = length zs" "mset (take (e - 1) ys) = mset (take (e - 1) zs)"
    "drop (e - 1) ys = drop (e - 1) zs"
    using sift_down_perm [of 0 "e - 1" zs lt] e by (auto simp: ys_def zs_def)
  have len: "length zs = length xs" by (simp add: zs_def)
  then show "length ys = length xs" by (simp add: perm)
  have "mset (take (e - 1) ys @ drop (e - 1) (take cnt ys)) =
      mset (take (e - 1) zs @ drop (e - 1) (take cnt zs))"
    using perm by (simp add: drop_take)
  moreover have "take (e - 1) as @ drop (e - 1) (take cnt as) = take cnt as" for as :: "'a list"
    using append_take_drop_id [of "e - 1" "take cnt as"] e by (simp add: min_absorb1)
  ultimately have "mset (take cnt ys) = mset (take cnt zs)" by metis
  also have "\<dots> = mset (take cnt xs)" unfolding zs_def using e by (intro mset_take_swap_at) auto
  finally show "mset (take cnt ys) = mset (take cnt xs)" .
  have "drop cnt ys = drop (cnt - (e - 1)) (drop (e - 1) ys)" using e by simp
  also have "\<dots> = drop cnt zs" using e perm by simp
  also have "\<dots> = drop cnt xs" unfolding zs_def using e by (intro drop_swap_at) auto
  finally show "drop cnt ys = drop cnt xs" .
  have hi: "ys ! j = zs ! j" if "e - 1 \<le> j" "j < cnt" for j
    using arg_cong [OF perm(3), of "\<lambda>as. as ! (j - (e - 1))"] that e perm(1) len by simp
  have znth: "zs ! j = (if j = e - 1 then xs ! 0 else if j = 0 then xs ! (e - 1) else xs ! j)" for j
  proof -
    have "0 < length xs" "e - 1 < length xs" using e by linarith+
    from nth_swap_at [OF this] show ?thesis by (simp only: zs_def)
  qed
  have lo: "\<exists>k<e. ys ! j = xs ! k" if "j < e - 1" for j
  proof -
    have "take (e - 1) ys ! j \<in> set (take (e - 1) ys)" using that e perm(1) len by (intro nth_mem) simp
    then have "ys ! j \<in> set (take (e - 1) ys)" using that by simp
    then have "ys ! j \<in> set (take (e - 1) zs)" using perm(2) by (metis set_mset_mset)
    then obtain k where "k < e - 1" "ys ! j = zs ! k" by (auto simp: set_conv_nth)
    then show ?thesis using e
      by (intro exI [of _ "if k = 0 then e - 1 else k"]) (auto simp: znth)
  qed
  show "heap_ord lt ys (e - 1)"
    unfolding ys_def zs_def [symmetric] using e oks heap len
    by (intro sift_down_top [of xs e]) (auto simp: znth)
  show "\<forall>j<cnt. e - 1 \<le> j \<longrightarrow> (\<forall>i<j. \<not> lt (ys ! j) (ys ! i))"
  proof (intro allI impI)
    fix j i assume j: "j < cnt" "e - 1 \<le> j" "i < j"
    obtain k where k: "ys ! i = xs ! k" "j = e - 1 \<Longrightarrow> k < e" "e \<le> j \<Longrightarrow> k < j"
    proof (cases "i < e - 1")
      case True
      then obtain k where "k < e" "ys ! i = xs ! k" using lo by blast
      then show ?thesis using that [of k] by auto
    next
      case False
      then have "ys ! i = zs ! i" using hi j by auto
      then show ?thesis using that [of "if i = e - 1 then 0 else i"] False j e by (auto simp: znth)
    qed
    have yj: "ys ! j = zs ! j" using hi j by simp
    show "\<not> lt (ys ! j) (ys ! i)"
    proof (cases "j = e - 1")
      case True
      then show ?thesis using heap_top [OF heap, of k] k(1,2) oks e yj by (auto simp: znth)
    next
      case False
      then have "e \<le> j" using j by auto
      then show ?thesis using tl k(1,3) j yj e by (auto simp: znth)
    qed
  qed
qed

lemma sort_loop_ok:
  assumes "e \<le> cnt" "cnt \<le> length xs" "\<forall>j<cnt. ok (xs ! j)" "heap_ord lt xs e"
    "\<forall>j<cnt. e \<le> j \<longrightarrow> (\<forall>i<j. \<not> lt (xs ! j) (xs ! i))"
  shows "sorted_wrt (\<lambda>a b. \<not> lt b a) (take cnt (sort_loop lt xs e)) \<and>
    mset (take cnt (sort_loop lt xs e)) = mset (take cnt xs) \<and>
    drop cnt (sort_loop lt xs e) = drop cnt xs \<and> length (sort_loop lt xs e) = length xs"
  using assms
proof (induction e arbitrary: xs rule: less_induct)
  case (less e)
  show ?case
  proof (cases "1 < e")
    case True
    define ys where "ys = sift_down lt (swap_at xs 0 (e - 1)) 0 (e - 1)"
    note step = sort_step_ok [OF True less.prems(1,2,3,4,5), folded ys_def]
    have "\<forall>x\<in>set (take cnt ys). ok x"
      using less.prems(2,3) step(3) set_take_nth [of cnt xs ok] by (metis set_mset_mset)
    then have "\<forall>j<cnt. ok (ys ! j)" using set_take_nth [of cnt ys ok] less.prems(2) step(5) by simp
    then have "sorted_wrt (\<lambda>a b. \<not> lt b a) (take cnt (sort_loop lt ys (e - 1))) \<and>
      mset (take cnt (sort_loop lt ys (e - 1))) = mset (take cnt ys) \<and>
      drop cnt (sort_loop lt ys (e - 1)) = drop cnt ys \<and> length (sort_loop lt ys (e - 1)) = length ys"
      using less.prems True step by (intro less.IH) auto
    moreover have "sort_loop lt xs e = sort_loop lt ys (e - 1)"
      using True by (subst sort_loop.simps) (simp add: ys_def)
    ultimately show ?thesis using step by simp
  next
    case False
    then have eq: "sort_loop lt xs e = xs" by (subst sort_loop.simps) simp
    have "\<not> lt (xs ! j) (xs ! i)" if "i < j" "j < cnt" for i j
      using less.prems(5) that False by (cases "e \<le> j") auto
    then show ?thesis using less.prems(2) by (simp add: eq sorted_wrt_iff_nth_less)
  qed
qed

text \<open>\<open>sort_ascending\<close> leaves the retained elements sorted in the first cells of the storage.\<close>

lemma bh_sort_ascending_ok:
  assumes "bh_wf lt ok h" "bh_sort_ascending lt h = (n, h')"
  shows "n = bh_size h" "sorted_wrt (\<lambda>a b. \<not> lt b a) (take n (bh_data h'))"
    "mset (take n (bh_data h')) = mset (bh_elems h)" "length (bh_data h') = length (bh_data h)"
  using sort_loop_ok [of "bh_size h" "bh_size h" "bh_data h"] assms
    set_take_nth [of "bh_size h" "bh_data h" ok]
  by (auto simp: bh_sort_ascending_def bh_wf_def bh_elems_def)

lemma bh_push_room:
  assumes "bh_wf lt ok h" "ok c" "bh_size h < length (bh_data h)" "bh_push lt h c = (b, h')"
  shows "b \<and> bh_wf lt ok h' \<and> mset (bh_elems h') = add_mset c (mset (bh_elems h)) \<and>
    length (bh_data h') = length (bh_data h) \<and> bh_size h' = bh_size h + 1"
proof -
  define n xs where "n = bh_size h" and "xs = (bh_data h)[n := c]"
  have n: "n < length xs" using assms by (simp add: n_def xs_def)
  have h': "h' = \<lparr>bh_data = sift_up lt xs n, bh_size = Suc n\<rparr>" "b"
    using assms by (auto simp: bh_push_def n_def xs_def)
  have tk: "take (Suc n) xs = bh_elems h @ [c]"
    using n by (simp add: take_Suc_conv_app_nth xs_def bh_elems_def n_def)
  have okx: "\<forall>x\<in>set (take (Suc n) xs). ok x" using assms(1,2) by (simp add: tk bh_wf_def)
  have perm: "length (sift_up lt xs n) = length xs"
    "mset (take (Suc n) (sift_up lt xs n)) = mset (take (Suc n) xs)"
    using sift_up_perm [of n "Suc n" xs lt] n by auto
  have "heap_ord lt (sift_up lt xs n) (Suc n)"
    using n okx assms(1) set_take_nth [of "Suc n" xs ok]
    by (intro sift_up_heap heap_ord_up [of lt "bh_data h"]) (auto simp: bh_wf_def n_def xs_def)
  moreover have "\<forall>x\<in>set (take (Suc n) (sift_up lt xs n)). ok x"
    using okx perm(2) by (metis set_mset_mset)
  ultimately have "bh_wf lt ok h'" using n perm(1) by (simp add: bh_wf_def bh_elems_def h')
  moreover have "mset (bh_elems h') = add_mset c (mset (bh_elems h))"
    using perm(2) by (simp add: h' bh_elems_def [of "\<lparr>bh_data = _, bh_size = _\<rparr>"] tk)
  moreover have "length (bh_data h') = length (bh_data h)" using perm(1) by (simp add: h' xs_def)
  ultimately show ?thesis using h' by (simp add: n_def)
qed

lemma bh_push_reject:
  assumes "\<not> bh_size h < length (bh_data h)" "bh_size h = 0 \<or> \<not> lt c (bh_data h ! 0)"
  shows "bh_push lt h c = (False, h)"
  using assms by (simp add: bh_push_def)

lemma bh_push_replace:
  assumes "bh_wf lt ok h" "ok c" "\<not> bh_size h < length (bh_data h)" "0 < bh_size h"
    "lt c (bh_data h ! 0)" "bh_push lt h c = (b, h')"
  shows "b \<and> bh_wf lt ok h' \<and>
    add_mset (bh_data h ! 0) (mset (bh_elems h')) = add_mset c (mset (bh_elems h)) \<and>
    length (bh_data h') = length (bh_data h) \<and> bh_size h' = bh_size h"
proof -
  define n xs where "n = bh_size h" and "xs = (bh_data h)[0 := c]"
  have n: "n = length (bh_data h)" "n = length xs" "0 < n" using assms by (auto simp: n_def xs_def bh_wf_def)
  have h': "h' = h\<lparr>bh_data := sift_down lt xs 0 n\<rparr>" "b"
    using assms by (auto simp: bh_push_def n_def xs_def)
  obtain y ys where d: "bh_data h = y # ys" using n by (cases "bh_data h") auto
  have el: "bh_elems h = y # ys" using d n by (simp add: bh_elems_def n_def [symmetric])
  have xs: "xs = c # ys" by (simp add: xs_def d)
  have perm: "length (sift_down lt xs 0 n) = length xs" "mset (sift_down lt xs 0 n) = mset xs"
    using sift_down_perm [of 0 n xs lt] n by auto
  have okx: "\<forall>x\<in>set xs. ok x" using assms(1,2) by (simp add: bh_wf_def el xs)
  have "heap_ord lt (sift_down lt xs 0 n) n"
    using n okx assms(1)
    by (intro sift_down_top [of "bh_data h" n]) (auto simp: bh_wf_def n_def xs_def)
  moreover have "\<forall>x\<in>set (sift_down lt xs 0 n). ok x"
    using okx perm(2) by (metis set_mset_mset)
  ultimately have "bh_wf lt ok h'" using n perm(1)
    by (simp add: bh_wf_def bh_elems_def h' n_def [symmetric])
  moreover have "bh_elems h' = sift_down lt xs 0 n"
    using n perm(1) by (simp add: bh_elems_def h' n_def [symmetric])
  ultimately show ?thesis using h' perm n by (simp add: el xs d n_def [symmetric])
qed

lemma bh_pop_ok:
  assumes "bh_wf lt ok h" "0 < bh_size h"
  shows "bh_wf lt ok (bh_pop lt h) \<and>
    add_mset (bh_data h ! 0) (mset (bh_elems (bh_pop lt h))) = mset (bh_elems h) \<and>
    bh_size (bh_pop lt h) = bh_size h - 1 \<and> length (bh_data (bh_pop lt h)) = length (bh_data h)"
proof -
  define n xs where "n = bh_size h - 1" and "xs = (bh_data h)[0 := bh_data h ! n]"
  have n: "n < length (bh_data h)" "bh_size h = Suc n" using assms by (auto simp: n_def bh_wf_def)
  have okd: "\<forall>j<Suc n. ok (bh_data h ! j)"
    using assms(1) set_take_nth [of "Suc n" "bh_data h" ok] n by (simp add: bh_wf_def bh_elems_def)
  have el: "bh_elems h = take (Suc n) (bh_data h)" by (simp add: bh_elems_def n)
  show ?thesis
  proof (cases "0 < n")
    case False
    then have "bh_elems h = [bh_data h ! 0]" using n el by (cases "bh_data h") auto
    then show ?thesis using False n by (simp add: bh_pop_def bh_wf_def bh_elems_def heap_ord_def)
  next
    case True
    have p: "bh_pop lt h = \<lparr>bh_data = sift_down lt xs 0 n, bh_size = n\<rparr>"
      using True by (simp add: bh_pop_def n_def xs_def Let_def)
    have perm: "length (sift_down lt xs 0 n) = length xs"
      "mset (take n (sift_down lt xs 0 n)) = mset (take n xs)"
      using sift_down_perm [of 0 n xs lt] n True by (auto simp: xs_def)
    have okx: "\<forall>j<n. ok (xs ! j)"
    proof (intro allI impI)
      fix j assume "j < n"
      then have "ok (bh_data h ! (if j = 0 then n else j))" using okd by simp
      moreover have "xs ! j = bh_data h ! (if j = 0 then n else j)"
        using n by (cases "bh_data h") (auto simp: xs_def nth_list_update)
      ultimately show "ok (xs ! j)" by (simp only:)
    qed
    have "heap_ord lt (sift_down lt xs 0 n) n"
      using n okx assms(1) True
      by (intro sift_down_top [of "bh_data h" "Suc n"]) (auto simp: bh_wf_def xs_def)
    moreover have "\<forall>x\<in>set (take n (sift_down lt xs 0 n)). ok x"
      using okx perm(2) set_take_nth [of n xs ok] n by (metis set_mset_mset length_list_update less_imp_le xs_def)
    ultimately have wf: "bh_wf lt ok (bh_pop lt h)" using n perm(1) by (simp add: bh_wf_def bh_elems_def p xs_def)
    obtain y ys where d: "bh_data h = y # ys" using n by (cases "bh_data h") auto
    obtain k where k: "n = Suc k" using True by (cases n) auto
    have "take n xs = ys ! k # take k ys" "take (Suc n) (bh_data h) = y # take k ys @ [ys ! k]"
      using n by (auto simp: xs_def d k take_Suc_conv_app_nth)
    then show ?thesis using wf perm n by (simp add: p el d bh_elems_def [of "\<lparr>bh_data = _, bh_size = _\<rparr>"] xs_def)
  qed
qed

text \<open>The top of the heap is the worst retained candidate.\<close>

lemma bh_top_worst:
  assumes "bh_wf lt ok h" "x \<in> set (bh_elems h)"
  shows "0 < bh_size h" "\<not> lt (bh_data h ! 0) x"
proof -
  obtain j where j: "j < bh_size h" "x = bh_data h ! j"
    using assms by (auto simp: bh_elems_def set_conv_nth)
  then show "0 < bh_size h" by simp
  show "\<not> lt (bh_data h ! 0) x"
    using heap_top [of "bh_data h" "bh_size h" j] j assms(1) set_take_nth [of "bh_size h" "bh_data h" ok]
    by (simp add: bh_wf_def bh_elems_def)
qed


lemma push_best_room:
  assumes "keeps_best lt k cs es" "size es < k"
  shows "keeps_best lt k (add_mset c cs) (add_mset c es)"
proof -
  have "size es = min k (size cs)" using assms(1) by (simp add: keeps_best_def)
  then have k: "size cs < k" using assms(2) by linarith
  then have "es = cs" using assms(1) by (intro iffD1 [OF keeps_best_all]) auto
  moreover have "size (add_mset c cs) \<le> k" using k by simp
  ultimately show ?thesis by (intro iffD2 [OF keeps_best_all]) auto
qed

lemma push_best_reject:
  assumes "keeps_best lt k cs es" "size es = k" "\<forall>y\<in>#es. \<not> lt c y"
  shows "keeps_best lt k (add_mset c cs) es"
proof -
  obtain rs where cs: "cs = es + rs" using assms(1) by (auto simp: keeps_best_def subset_mset.le_iff_add)
  have "add_mset c cs - es = add_mset c rs" "es \<subseteq># add_mset c cs"
    by (simp_all add: cs subset_mset.le_iff_add exI [of _ "add_mset c rs"] flip: union_mset_add_mset_right)
  then show ?thesis using assms by (auto simp: keeps_best_def cs)
qed

lemma push_best_replace:
  assumes kb: "keeps_best lt k cs (add_mset t es)" and full: "size (add_mset t es) = k"
    and oks: "\<forall>x\<in>#cs. ok x" "ok c" and lt: "lt c t" and top: "\<forall>x\<in>#es. \<not> lt t x"
  shows "keeps_best lt k (add_mset c cs) (add_mset c es)"
proof -
  have sub: "add_mset t es \<subseteq># cs" using kb by (simp add: keeps_best_def)
  then obtain rs where cs: "cs = add_mset t es + rs" by (auto simp: subset_mset.le_iff_add)
  have "\<not> lt y x" if "x \<in># add_mset c es" "y \<in># add_mset t rs" for x y
  proof (cases "x \<in># es")
    case True
    then show ?thesis using that kb top by (auto simp: keeps_best_def cs)
  next
    case False
    then have x: "x = c" using that by simp
    have "ok t" "ok y" "\<not> lt y t \<or> y = t" using that oks kb by (auto simp: cs keeps_best_def)
    then show ?thesis using lt asym lt_trans x oks(2) by blast
  qed
  moreover have "add_mset c cs - add_mset c es = add_mset t rs" by (simp add: cs)
  ultimately show ?thesis using kb full by (auto simp: keeps_best_def cs)
qed

text \<open>\<open>push\<close> keeps the best \<open>capacity\<close> candidates seen so far.\<close>

lemma bh_push_best:
  assumes wf: "bh_wf lt ok h" and ok: "ok c" "\<forall>x\<in>#cs. ok x"
    and kb: "keeps_best lt (length (bh_data h)) cs (mset (bh_elems h))"
    and push: "bh_push lt h c = (b, h')"
  shows "bh_wf lt ok h' \<and> length (bh_data h') = length (bh_data h) \<and>
    keeps_best lt (length (bh_data h)) (add_mset c cs) (mset (bh_elems h'))"
proof -
  have size: "size (mset (bh_elems h)) = bh_size h" "bh_size h \<le> length (bh_data h)"
    using wf by (auto simp: bh_wf_def bh_elems_def)
  consider "bh_size h < length (bh_data h)"
    | "bh_size h = length (bh_data h)" "bh_size h = 0 \<or> \<not> lt c (bh_data h ! 0)"
    | "bh_size h = length (bh_data h)" "0 < bh_size h" "lt c (bh_data h ! 0)"
    using size(2) by linarith
  then show ?thesis
  proof cases
    case 1
    then show ?thesis using bh_push_room [OF wf ok(1) 1 push] push_best_room [OF kb] size by simp
  next
    case 2
    have "\<not> lt c y" if "y \<in># mset (bh_elems h)" for y
    proof -
      have y: "y \<in> set (bh_elems h)" using that by simp
      have "bh_data h ! 0 \<in> set (bh_elems h)"
        using bh_top_worst(1) [OF wf y] size by (auto simp: bh_elems_def set_conv_nth intro!: exI [of _ 0])
      then have "ok (bh_data h ! 0)" "ok y" using wf y by (auto simp: bh_wf_def)
      then show ?thesis using not_trans [of c "bh_data h ! 0" y] bh_top_worst [OF wf y] 2 ok(1) by auto
    qed
    then show ?thesis
      using bh_push_reject [of h c] 2 push wf push_best_reject [OF kb] size by simp
  next
    case 3
    obtain t es where d: "bh_elems h = t # es" "t = bh_data h ! 0"
      using 3 by (cases "bh_data h") (auto simp: bh_elems_def)
    note r = bh_push_replace [OF wf ok(1) _ 3(2,3) push]
    have "mset (bh_elems h') = add_mset c (mset es)" using r 3(1) d by auto
    moreover have "\<forall>x\<in>#mset es. \<not> lt t x" using bh_top_worst(2) [OF wf] d by auto
    ultimately show ?thesis
      using push_best_replace [of "length (bh_data h)" cs t "mset es" c] kb r 3 ok d size by simp
  qed
qed

end

sublocale weak_order \<subseteq> flip: weak_order "\<lambda>a b. lt b a" ok
  by unfold_locales (use asym not_trans in blast)+

context weak_order
begin

lemma mh_push_ok:
  assumes "mh_wf lt ok h" "ok c"
  shows "mh_wf lt ok (mh_push lt h c) \<and> mset (mh_push lt h c) = add_mset c (mset h)"
proof -
  have perm: "mset (mh_push lt h c) = mset (h @ [c])" "length (mh_push lt h c) = Suc (length h)"
    using sift_up_perm [of "length h" "Suc (length h)" "h @ [c]" "\<lambda>a b. lt b a"]
    by (auto simp: mh_push_def)
  have "heap_ord (\<lambda>a b. lt b a) (mh_push lt h c) (Suc (length h))"
    unfolding mh_push_def using assms
    by (intro flip.sift_up_heap heap_ord_up [of _ h]) (auto simp: mh_wf_def nth_append)
  moreover have "set (mh_push lt h c) = set (h @ [c])" using perm(1) by (metis set_mset_mset)
  ultimately show ?thesis using assms perm by (simp add: mh_wf_def)
qed

lemma mh_top_best:
  assumes "mh_wf lt ok h" "x \<in> set h"
  shows "\<not> lt x (h ! 0)"
proof -
  obtain j where "j < length h" "x = h ! j" using assms(2) by (auto simp: in_set_conv_nth)
  then show ?thesis using flip.heap_top [of h "length h" j] assms(1) by (simp add: mh_wf_def)
qed

lemma mh_pop_ok:
  assumes "mh_wf lt ok h" "h \<noteq> []"
  shows "mh_wf lt ok (mh_pop lt h) \<and> add_mset (h ! 0) (mset (mh_pop lt h)) = mset h"
proof -
  define ys where "ys = butlast (h[0 := last h])"
  have pop: "mh_pop lt h = sift_down (\<lambda>a b. lt b a) ys 0 (length ys)"
    by (simp add: mh_pop_def ys_def Let_def)
  obtain y zs where h: "h = y # zs" using assms(2) by (cases h) auto
  show ?thesis
  proof (cases "zs = []")
    case True
    then have "ys = []" by (simp add: ys_def h)
    then have "mh_pop lt h = []" by (subst pop) (subst sift_down.simps, simp)
    then show ?thesis using True h by (simp add: mh_wf_def heap_ord_def)
  next
    case False
    have ys: "ys = last zs # butlast zs" using False by (simp add: ys_def h)
    have perm: "mset (mh_pop lt h) = mset ys" "length (mh_pop lt h) = length ys"
      using sift_down_perm [of 0 "length ys" ys "\<lambda>a b. lt b a"] by (auto simp: pop ys)
    have okh: "\<forall>x\<in>set h. ok x" using assms(1) by (simp add: mh_wf_def)
    have oky: "\<forall>x\<in>set ys. ok x" using okh False by (auto simp: ys h dest: in_set_butlastD)
    have "heap_ord (\<lambda>a b. lt b a) (mh_pop lt h) (length ys)"
      unfolding pop
    proof (rule flip.sift_down_heap)
      show "down_ord (\<lambda>a b. lt b a) ys 0 (length ys)"
        using assms(1) False
        by (intro heap_ord_down [of _ h "length h"])
          (auto simp: mh_wf_def ys h nth_Cons' nth_butlast)
      show "\<forall>j<length ys. ok (ys ! j)" using oky nth_mem by blast
    qed (use False in \<open>auto simp: ys\<close>)
    moreover have "set (mh_pop lt h) = set ys" using perm(1) by (metis set_mset_mset)
    moreover have "mset ys = mset zs"
      using arg_cong [OF append_butlast_last_id [OF False], of mset] by (simp add: ys)
    ultimately show ?thesis using perm oky by (simp add: mh_wf_def h)
  qed
qed

end

subsection \<open>The order of candidates\<close>

definition cand_ok :: "'i scored \<Rightarrow> bool" where
  "cand_ok c \<longleftrightarrow> \<not> f32_is_nan (sc_distance c)"

definition cand_key :: "'i scored \<Rightarrow> int \<times> 'i" where
  "cand_key c = (f32_val (sc_distance c), sc_id c)"

lemma candidate_less_key:
  "cand_ok a \<Longrightarrow> cand_ok b \<Longrightarrow> candidate_less a b \<longleftrightarrow> cand_key a < cand_key b"
  by (auto simp: candidate_less_def cand_ok_def cand_key_def f32_lt_def f32_eq_def)

interpretation cand: weak_order "candidate_less :: 'i::linorder scored \<Rightarrow> _" cand_ok
  by unfold_locales (auto simp: candidate_less_key)

text \<open>With distinct keys, the best \<open>k\<close> in ascending order is a prefix of the sorted list.\<close>

lemma keeps_best_sorted_prefix:
  fixes cs :: "'i::linorder scored list"
  assumes kb: "keeps_best candidate_less k (mset cs) (mset es)"
    and sorted: "sorted_wrt (\<lambda>a b. \<not> candidate_less b a) es"
    and ok: "\<forall>c\<in>set cs. cand_ok c" and inj: "inj_on cand_key (set cs)"
  shows "es = take k (sort_key cand_key cs)"
proof -
  obtain rm where "mset cs = mset es + rm"
    using kb by (auto simp: keeps_best_def subset_mset.le_iff_add)
  moreover obtain rs where "mset rs = rm" using ex_mset by blast
  ultimately have cs: "mset cs = mset es + mset rs" by simp
  then have sets: "set cs = set es \<union> set rs" by (metis set_mset_mset set_mset_union)
  define ss where "ss = sort_key cand_key rs"
  have "sorted_wrt (\<lambda>a b. cand_key a \<le> cand_key b) es"
    using sorted_wrt_mono_rel [OF _ sorted, of "\<lambda>a b. cand_key a \<le> cand_key b"] ok sets
    by (auto simp: candidate_less_key)
  moreover have "cand_key a \<le> cand_key b" if "a \<in> set es" "b \<in> set rs" for a b
    using kb that ok sets candidate_less_key [of b a] by (auto simp: keeps_best_def cs)
  moreover have "sorted_wrt (\<lambda>a b. cand_key a \<le> cand_key b) ss"
    using sorted_sort_key [of cand_key rs] by (simp add: ss_def sorted_wrt_map)
  ultimately have "sorted (map cand_key (es @ ss))"
    by (simp add: sorted_wrt_map sorted_wrt_append ss_def)
  then have eq: "sort_key cand_key cs = es @ ss"
    using cs inj by (intro sort_key_inj_key_eq) (simp_all add: ss_def)
  have "length es = min k (length cs)" using kb by (simp add: keeps_best_def)
  moreover have "length cs = length es + length ss"
    using arg_cong [OF cs, of size] by (simp add: ss_def)
  ultimately show ?thesis by (cases "ss = []") (auto simp: eq min_def split: if_splits)
qed

lemma push_all_ok:
  fixes cs storage :: "'i::linorder scored list"
  assumes "\<forall>c\<in>set cs. cand_ok c"
  defines "h \<equiv> fold (\<lambda>c h. snd (bh_push candidate_less h c)) cs (bh_make storage)"
  shows "bh_wf candidate_less cand_ok h \<and> length (bh_data h) = length storage \<and>
    keeps_best candidate_less (length storage) (mset cs) (mset (bh_elems h))"
  unfolding h_def using assms(1)
proof (induction cs rule: rev_induct)
  case Nil
  then show ?case by (simp add: bh_make_def bh_wf_def heap_ord_def bh_elems_def)
next
  case (snoc c cs)
  define h where "h = fold (\<lambda>c h. snd (bh_push candidate_less h c)) cs (bh_make storage)"
  obtain b h' where p: "bh_push candidate_less h c = (b, h')" by fastforce
  from snoc cand.bh_push_best [of h c "mset cs" b h'] p show ?case by (simp add: h_def)
qed

text \<open>C27. Pushing any sequence of candidates with distinct ids into a \<open>BoundedMaxHeap\<close> over
  storage of size k and sorting it leaves, in the first cells of the storage, exactly the k first
  elements of the sequence sorted by (distance, id): top-k selection is exact and deterministic.\<close>

theorem bounded_heap_selects_top_k:
  fixes cs :: "scored_id list"
  assumes "\<forall>c\<in>set cs. \<not> f32_is_nan (sc_distance c)" "distinct (map sc_id cs)"
    and "bh_sort_ascending candidate_less
      (fold (\<lambda>c h. snd (bh_push candidate_less h c)) cs (bh_make storage)) = (n, h')"
  shows "n = min (length storage) (length cs) \<and>
    take n (bh_data h') = take (length storage) (sort_key (\<lambda>c. (f32_val (sc_distance c), sc_id c)) cs)"
proof -
  have ok: "\<forall>c\<in>set cs. cand_ok c" using assms(1) by (simp add: cand_ok_def)
  note p = push_all_ok [OF ok, of storage]
  note s = cand.bh_sort_ascending_ok [OF p [THEN conjunct1] assms(3)]
  have "inj_on cand_key (set cs)"
    using assms(2) by (auto simp: inj_on_def cand_key_def distinct_map)
  moreover have kb: "keeps_best candidate_less (length storage) (mset cs) (mset (take n (bh_data h')))"
    using p s(3) by simp
  ultimately have "take n (bh_data h') = take (length storage) (sort_key cand_key cs)"
    using s(2) ok by (intro keeps_best_sorted_prefix)
  then have "take n (bh_data h') = take (length storage) (sort_key (\<lambda>c. (f32_val (sc_distance c), sc_id c)) cs)"
    by (simp add: cand_key_def [abs_def])
  moreover have "size (mset (bh_elems (fold (\<lambda>c h. snd (bh_push candidate_less h c)) cs (bh_make storage)))) = n"
    using s(1) p by (simp add: bh_wf_def bh_elems_def)
  then have "n = min (length storage) (length cs)" using p by (simp add: keeps_best_def)
  ultimately show ?thesis by simp
qed

theorem bounded_heap_selects_top_k_witness:
  "let cs = [mk_scored f32_one 7, mk_scored f32_zero 9, mk_scored f32_one 3] :: scored_id list;
       (n, h') = bh_sort_ascending candidate_less
         (fold (\<lambda>c h. snd (bh_push candidate_less h c)) cs (bh_make (take 2 cs)))
   in n = 2 \<and> take n (bh_data h') = take 2 (sort_key (\<lambda>c. (f32_val (sc_distance c), sc_id c)) cs)"
proof -
  define cs where "cs = ([mk_scored f32_one 7, mk_scored f32_zero 9, mk_scored f32_one 3] :: scored_id list)"
  have "\<forall>x\<in>set cs. \<not> f32_is_nan (sc_distance x)" "distinct (map sc_id cs)"
    by (simp_all add: cs_def f32_small_literals)
  note t = bounded_heap_selects_top_k [OF this, of "take 2 cs"]
  have l: "length cs = 3" by (simp add: cs_def)
  show ?thesis
    unfolding cs_def [symmetric] Let_def using t
    by (simp add: l split: prod.split)
qed

end
