(* ===== verification/VF_Context.thy ===== *)
theory VF_Context
  imports VF_Heaps
begin

text \<open>
  Search scratch state: \<open>VisitedSet\<close> (\<^verbatim>\<open>src/search/visited_set.hpp\<close>), \<open>SearchContext\<close>
  (\<^verbatim>\<open>search_context.hpp\<close>) and \<open>ContextPool\<close> (\<^verbatim>\<open>context_pool.hpp\<close>). The epoch is a 16-bit word, so its
  wrap-around is part of the model. An out-of-range \<open>visit\<close> (an assertion in the source) is \<open>None\<close>.
  The pool is a step relation whose steps are its critical sections, so that concurrent leases
  interleave as they do under the mutex.
\<close>

section \<open>Visited set\<close>

record visited_set =
  vs_marks :: "u16 list"
  vs_epoch :: u16

definition vs_empty :: visited_set where
  "vs_empty = \<lparr>vs_marks = [], vs_epoch = 1\<rparr>"

definition vs_ensure_capacity :: "visited_set \<Rightarrow> nat \<Rightarrow> visited_set" where
  "vs_ensure_capacity v n =
     (if length (vs_marks v) < n then v\<lparr>vs_marks := vs_marks v @ replicate (n - length (vs_marks v)) 0\<rparr>
      else v)"

definition vs_reset :: "visited_set \<Rightarrow> visited_set" where
  "vs_reset v =
     (if vs_epoch v = - 1 then \<lparr>vs_marks = map (\<lambda>_. 0) (vs_marks v), vs_epoch = 1\<rparr>
      else v\<lparr>vs_epoch := vs_epoch v + 1\<rparr>)"

definition vs_visit :: "visited_set \<Rightarrow> nat \<Rightarrow> (bool \<times> visited_set) option" where
  "vs_visit v i =
     (if i < length (vs_marks v)
      then Some (vs_marks v ! i \<noteq> vs_epoch v, v\<lparr>vs_marks := (vs_marks v)[i := vs_epoch v]\<rparr>)
      else None)"

definition vs_visited :: "visited_set \<Rightarrow> nat \<Rightarrow> bool" where
  "vs_visited v i \<longleftrightarrow> i < length (vs_marks v) \<and> vs_marks v ! i = vs_epoch v"

definition vs_capacity :: "visited_set \<Rightarrow> nat" where
  "vs_capacity v = length (vs_marks v)"

text \<open>The invariant: the epoch is never 0 and no mark lies ahead of it.\<close>

definition vs_inv :: "visited_set \<Rightarrow> bool" where
  "vs_inv v \<longleftrightarrow> vs_epoch v \<noteq> 0 \<and> (\<forall>m\<in>set (vs_marks v). m \<le> vs_epoch v)"

text \<open>The contract graph search relies on: a set of visited ids below a capacity.\<close>

locale visited_laws =
  fixes inv :: "'v \<Rightarrow> bool" and cap :: "'v \<Rightarrow> nat" and seen :: "'v \<Rightarrow> nat \<Rightarrow> bool"
    and ensure :: "'v \<Rightarrow> nat \<Rightarrow> 'v" and reset :: "'v \<Rightarrow> 'v" and visit :: "'v \<Rightarrow> nat \<Rightarrow> (bool \<times> 'v) option"
  assumes ensure_law: "inv v \<Longrightarrow> inv (ensure v n) \<and> cap (ensure v n) = max (cap v) n \<and> seen (ensure v n) i = seen v i"
    and reset_law: "inv v \<Longrightarrow> inv (reset v) \<and> cap (reset v) = cap v \<and> \<not> seen (reset v) i"
    and visit_law: "inv v \<Longrightarrow> i < cap v \<Longrightarrow>
      \<exists>v'. visit v i = Some (\<not> seen v i, v') \<and> inv v' \<and> cap v' = cap v \<and>
        (\<forall>j. seen v' j \<longleftrightarrow> j = i \<or> seen v j)"
    and visit_range: "\<not> i < cap v \<Longrightarrow> visit v i = None"
    and seen_range: "seen v i \<Longrightarrow> i < cap v"
begin

text \<open>Visiting a list of ids in turn reports as fresh exactly the first occurrences of unseen ids.\<close>

fun visit_all :: "'v \<Rightarrow> nat list \<Rightarrow> (nat list \<times> 'v) option" where
  "visit_all v [] = Some ([], v)"
| "visit_all v (i # is) =
     (case visit v i of None \<Rightarrow> None
      | Some (fresh, v') \<Rightarrow> (case visit_all v' is of None \<Rightarrow> None
          | Some (fs, v'') \<Rightarrow> Some (if fresh then i # fs else fs, v'')))"

lemma visit_all_fresh:
  assumes "inv v" "\<forall>i\<in>set is. i < cap v"
  shows "\<exists>fs v'. visit_all v is = Some (fs, v') \<and> inv v' \<and> cap v' = cap v \<and> distinct fs \<and>
    set fs = {i \<in> set is. \<not> seen v i} \<and> (\<forall>j. seen v' j \<longleftrightarrow> j \<in> set is \<or> seen v j)"
  using assms
proof (induction "is" arbitrary: v)
  case (Cons i "is")
  obtain v1 where v1: "visit v i = Some (\<not> seen v i, v1)" "inv v1" "cap v1 = cap v"
    "\<forall>j. seen v1 j \<longleftrightarrow> j = i \<or> seen v j"
    using visit_law [of v i] Cons.prems by auto
  obtain fs v2 where v2: "visit_all v1 is = Some (fs, v2)" "inv v2" "cap v2 = cap v1" "distinct fs"
    "set fs = {i \<in> set is. \<not> seen v1 i}" "\<forall>j. seen v2 j \<longleftrightarrow> j \<in> set is \<or> seen v1 j"
    using Cons.IH [of v1] Cons.prems v1 by auto
  have "i \<notin> set fs" using v1 v2 by simp
  then show ?case using v1 v2 by (auto simp: v1(3))
qed auto

end

lemma vs_visit_inv:
  assumes "vs_inv v" "i < length (vs_marks v)"
  shows "vs_inv (v\<lparr>vs_marks := (vs_marks v)[i := vs_epoch v]\<rparr>)"
  using assms set_update_subset_insert [of "vs_marks v" i "vs_epoch v"] by (auto simp: vs_inv_def)

lemma vs_reset_inv:
  assumes "vs_inv v"
  shows "vs_inv (vs_reset v) \<and> (\<forall>m\<in>set (vs_marks (vs_reset v)). m < vs_epoch (vs_reset v))"
proof (cases "vs_epoch v = - 1")
  case True
  then show ?thesis by (auto simp: vs_inv_def vs_reset_def)
next
  case False
  have nz: "1 + vs_epoch v \<noteq> 0" using False by (metis add.commute eq_neg_iff_add_eq_0)
  from unatSuc [OF nz] have "unat (vs_epoch v + 1) = Suc (unat (vs_epoch v))" by (simp add: add.commute)
  then have "vs_epoch v < vs_epoch v + 1" by (simp add: word_less_nat_alt)
  then have "m < vs_epoch v + 1" if "m \<le> vs_epoch v" for m using that by simp
  moreover have "vs_epoch v + 1 \<noteq> 0" using nz by (simp add: add.commute)
  ultimately show ?thesis using False assms by (auto simp: vs_inv_def vs_reset_def order.strict_implies_order)
qed

interpretation visited: visited_laws vs_inv vs_capacity vs_visited vs_ensure_capacity vs_reset vs_visit
proof
  fix v n i
  assume inv: "vs_inv v"
  show "vs_inv (vs_ensure_capacity v n) \<and> vs_capacity (vs_ensure_capacity v n) = max (vs_capacity v) n \<and>
    vs_visited (vs_ensure_capacity v n) i = vs_visited v i"
    using inv
    by (auto simp: vs_inv_def vs_ensure_capacity_def vs_capacity_def vs_visited_def nth_append)
  show "vs_inv (vs_reset v) \<and> vs_capacity (vs_reset v) = vs_capacity v \<and> \<not> vs_visited (vs_reset v) i"
  proof (intro conjI)
    show "\<not> vs_visited (vs_reset v) i"
      using vs_reset_inv [OF inv] nth_mem less_irrefl unfolding vs_visited_def by metis
  qed (use vs_reset_inv [OF inv] in \<open>simp_all add: vs_capacity_def vs_reset_def\<close>)
  show "\<exists>v'. vs_visit v i = Some (\<not> vs_visited v i, v') \<and> vs_inv v' \<and> vs_capacity v' = vs_capacity v \<and>
      (\<forall>j. vs_visited v' j \<longleftrightarrow> j = i \<or> vs_visited v j)" if "i < vs_capacity v"
    using vs_visit_inv [OF inv] that
    by (auto simp: vs_visit_def vs_visited_def vs_capacity_def nth_list_update)
next
  fix v i
  show "\<not> i < vs_capacity v \<Longrightarrow> vs_visit v i = None" by (simp add: vs_visit_def vs_capacity_def)
  show "vs_visited v i \<Longrightarrow> i < vs_capacity v" by (simp add: vs_visited_def vs_capacity_def)
qed

lemma vs_empty_inv [simp]: "vs_inv vs_empty"
  by (simp add: vs_empty_def vs_inv_def)

section \<open>Search context\<close>

record search_context =
  sx_visited :: visited_set
  sx_candidates :: "scored_id list"
  sx_results :: "scored_id list"
  sx_distance_computations :: nat

definition default_scored :: scored_id where
  "default_scored = \<lparr>sc_distance = f32_zero, sc_id = kInvalidInternalId\<rparr>"

definition new_search_context :: search_context where
  "new_search_context =
     \<lparr>sx_visited = vs_empty, sx_candidates = [], sx_results = [], sx_distance_computations = 0\<rparr>"

definition sx_prepare :: "search_context \<Rightarrow> nat \<Rightarrow> nat \<Rightarrow> search_context" where
  "sx_prepare c nodes ef =
     c\<lparr>sx_visited := vs_ensure_capacity (sx_visited c) nodes,
       sx_results := (if length (sx_results c) < ef
                      then sx_results c @ replicate (ef - length (sx_results c)) default_scored
                      else sx_results c)\<rparr>"

lemma sx_prepare_ok:
  assumes "vs_inv (sx_visited c)"
  shows "vs_inv (sx_visited (sx_prepare c nodes ef))"
    "nodes \<le> vs_capacity (sx_visited (sx_prepare c nodes ef))"
    "ef \<le> length (sx_results (sx_prepare c nodes ef))"
  using visited.ensure_law [OF assms, of nodes] by (simp_all add: sx_prepare_def)

section \<open>Context pool\<close>

text \<open>
  Contexts are named by numbers. \<open>cs_creating\<close> are contexts constructed by threads that found the
  free list empty and have not entered their second critical section yet.
\<close>

record context_pool =
  cp_free :: "nat list"
  cp_capacity :: nat
  cp_created :: nat

record pool_system =
  cs_pool :: context_pool
  cs_leased :: "nat list"
  cs_creating :: "nat list"

definition cp_init :: pool_system where
  "cp_init = \<lparr>cs_pool = \<lparr>cp_free = [], cp_capacity = 0, cp_created = 0\<rparr>, cs_leased = [], cs_creating = []\<rparr>"

definition cp_take :: "context_pool \<Rightarrow> (nat \<times> context_pool) option" where
  "cp_take p = (if cp_free p \<noteq> [] then Some (last (cp_free p), p\<lparr>cp_free := butlast (cp_free p)\<rparr>) else None)"

definition cp_register :: "context_pool \<Rightarrow> context_pool" where
  "cp_register p = p\<lparr>cp_capacity := max (cp_capacity p) (cp_created p + 1), cp_created := cp_created p + 1\<rparr>"

text \<open>\<open>release\<close> pushes without allocating when the reserved capacity suffices; \<open>None\<close> would be an
  allocation inside a \<open>noexcept\<close> function.\<close>

definition cp_release :: "context_pool \<Rightarrow> nat \<Rightarrow> context_pool option" where
  "cp_release p c =
     (if length (cp_free p) < cp_capacity p then Some (p\<lparr>cp_free := cp_free p @ [c]\<rparr>) else None)"

inductive pool_step :: "pool_system \<Rightarrow> pool_system \<Rightarrow> bool" where
  acquire_pooled: "cp_take (cs_pool s) = Some (c, p) \<Longrightarrow>
     pool_step s (s\<lparr>cs_pool := p, cs_leased := c # cs_leased s\<rparr>)"
| acquire_construct: "cp_take (cs_pool s) = None \<Longrightarrow>
     c \<notin> set (cp_free (cs_pool s)) \<union> set (cs_leased s) \<union> set (cs_creating s) \<Longrightarrow>
     pool_step s (s\<lparr>cs_creating := c # cs_creating s\<rparr>)"
| acquire_register: "c \<in> set (cs_creating s) \<Longrightarrow>
     pool_step s (s\<lparr>cs_pool := cp_register (cs_pool s), cs_leased := c # cs_leased s,
                    cs_creating := remove1 c (cs_creating s)\<rparr>)"
| release: "c \<in> set (cs_leased s) \<Longrightarrow> cp_release (cs_pool s) c = Some p \<Longrightarrow>
     pool_step s (s\<lparr>cs_pool := p, cs_leased := remove1 c (cs_leased s)\<rparr>)"

inductive_cases pool_stepE: "pool_step s s'"

definition pool_inv :: "pool_system \<Rightarrow> bool" where
  "pool_inv s \<longleftrightarrow>
     distinct (cp_free (cs_pool s) @ cs_leased s @ cs_creating s) \<and>
     length (cp_free (cs_pool s)) + length (cs_leased s) = cp_created (cs_pool s) \<and>
     cp_created (cs_pool s) \<le> cp_capacity (cs_pool s)"

lemma pool_inv_init: "pool_inv cp_init"
  by (simp add: pool_inv_def cp_init_def)

lemma cp_take_Some:
  "cp_take p = Some (c, p') \<Longrightarrow> cp_free p = cp_free p' @ [c] \<and> cp_capacity p' = cp_capacity p \<and>
     cp_created p' = cp_created p"
  by (auto simp: cp_take_def split: if_splits)

lemma pool_inv_step:
  assumes "pool_step s s'" "pool_inv s"
  shows "pool_inv s'"
  using assms
proof cases
  case (acquire_pooled c p)
  then show ?thesis using assms(2) cp_take_Some [of "cs_pool s" c p] by (auto simp: pool_inv_def)
next
  case (acquire_construct c)
  then show ?thesis using assms(2) by (auto simp: pool_inv_def)
next
  case (acquire_register c)
  then show ?thesis using assms(2) by (auto simp: pool_inv_def cp_register_def dest: notin_set_remove1)
next
  case (release c p)
  then have "Suc (length (cs_leased s) - 1) = length (cs_leased s)" by (cases "cs_leased s") auto
  with release assms(2) show ?thesis
    by (auto simp: pool_inv_def cp_release_def length_remove1 split: if_splits dest: notin_set_remove1)
qed

lemma pool_inv_reachable: "pool_step\<^sup>*\<^sup>* cp_init s \<Longrightarrow> pool_inv s"
  by (induction rule: rtranclp_induct) (auto intro: pool_inv_step pool_inv_init)

subsection \<open>Properties\<close>

text \<open>Whatever the epoch, \<open>reset\<close> makes every id unvisited, and from then on visiting a list of
  ids reports as fresh exactly the distinct ids of that list: the 16-bit epoch wrap-around never makes
  an unvisited node look visited.\<close>

lemma visited_reset_then_visit:
  assumes "vs_inv v" "\<forall>i\<in>set is. i < vs_capacity v"
  shows "\<exists>fs v'. visited.visit_all (vs_reset v) is = Some (fs, v') \<and> vs_inv v' \<and> distinct fs \<and>
    set fs = set is \<and> (\<forall>j. vs_visited v' j \<longleftrightarrow> j \<in> set is)"
  using visited.visit_all_fresh [of "vs_reset v" "is"] visited.reset_law [OF assms(1)] assms(2)
  by auto

text \<open>C40. In every interleaving of leases, a context is held by at most one lease, and returning a
  leased context always finds reserved capacity, so \<open>release\<close> (which is noexcept) never allocates.\<close>

theorem context_pool_exclusive:
  assumes "pool_step\<^sup>*\<^sup>* cp_init s"
  shows "distinct (cs_leased s) \<and> set (cs_leased s) \<inter> set (cp_free (cs_pool s)) = {} \<and>
    (\<forall>c\<in>set (cs_leased s). \<exists>p. cp_release (cs_pool s) c = Some p)"
proof -
  have inv: "pool_inv s" using assms by (rule pool_inv_reachable)
  have "length (cp_free (cs_pool s)) < cp_capacity (cs_pool s)" if "c \<in> set (cs_leased s)" for c
    using inv length_pos_if_in_set [OF that] unfolding pool_inv_def by linarith
  then show ?thesis using inv by (auto simp: pool_inv_def cp_release_def)
qed

theorem context_pool_exclusive_witness:
  "let s = \<lparr>cs_pool = \<lparr>cp_free = [], cp_capacity = 1, cp_created = 1\<rparr>, cs_leased = [5], cs_creating = []\<rparr>
   in pool_step\<^sup>*\<^sup>* cp_init s \<and> (\<forall>c\<in>set (cs_leased s). \<exists>p. cp_release (cs_pool s) c = Some p)"
proof -
  define s1 where "s1 = cp_init\<lparr>cs_creating := [5]\<rparr>"
  define s where "s = \<lparr>cs_pool = \<lparr>cp_free = [], cp_capacity = 1, cp_created = 1\<rparr>, cs_leased = [5], cs_creating = []\<rparr>"
  have 1: "pool_step cp_init s1"
    using pool_step.acquire_construct [of cp_init 5] by (simp add: s1_def cp_init_def cp_take_def)
  have 2: "pool_step s1 s"
    using pool_step.acquire_register [of 5 s1] by (simp add: s_def s1_def cp_init_def cp_register_def)
  have 3: "pool_step\<^sup>*\<^sup>* cp_init s" using 1 2 by (meson rtranclp.rtrancl_into_rtrancl rtranclp.rtrancl_refl)
  show ?thesis unfolding Let_def s_def [symmetric] using 3 context_pool_exclusive [OF 3] by blast
qed

end
