(* ===== verification/VF_Select.thy ===== *)
theory VF_Select
  imports VF_Heaps "HOL-Library.Sublist"
begin

text \<open>
  HNSW neighbour selection (\<^verbatim>\<open>src/index/hnsw/neighbor_select.hpp\<close>): the loop over the sorted
  candidates, the inner scan of the neighbours already selected and the refill with pruned
  candidates. \<open>distance\<close> is the node-to-node distance the caller passes in.
\<close>

datatype neighbor_selection = Heuristic | Simple

fun good_candidate :: "('i \<Rightarrow> 'i \<Rightarrow> f32) \<Rightarrow> 'i scored \<Rightarrow> 'i scored list \<Rightarrow> bool" where
  "good_candidate distance c [] = True"
| "good_candidate distance c (s # ss) =
     (if f32_lt (distance (sc_id c) (sc_id s)) (sc_distance c) then False else good_candidate distance c ss)"

fun select_loop :: "nat \<Rightarrow> bool \<Rightarrow> ('i \<Rightarrow> 'i \<Rightarrow> f32) \<Rightarrow> 'i scored list \<Rightarrow> 'i scored list \<Rightarrow> 'i scored list
    \<Rightarrow> 'i scored list \<times> 'i scored list" where
  "select_loop m keep distance [] out discarded = (out, discarded)"
| "select_loop m keep distance (c # cs) out discarded =
     (if length out = m then (out, discarded)
      else if good_candidate distance c out then select_loop m keep distance cs (out @ [c]) discarded
      else if keep then select_loop m keep distance cs out (discarded @ [c])
      else select_loop m keep distance cs out discarded)"

fun refill_loop :: "nat \<Rightarrow> 'i scored list \<Rightarrow> 'i scored list \<Rightarrow> 'i scored list" where
  "refill_loop m [] out = out"
| "refill_loop m (c # cs) out = (if length out = m then out else refill_loop m cs (out @ [c]))"

definition select_neighbors :: "'i scored list \<Rightarrow> nat \<Rightarrow> neighbor_selection \<Rightarrow> bool
    \<Rightarrow> ('i \<Rightarrow> 'i \<Rightarrow> f32) \<Rightarrow> 'i scored list" where
  "select_neighbors cands m selection keep_pruned distance =
     (if selection = Simple
      then take (if length cands < m then length cands else m) cands
      else (case select_loop m keep_pruned distance cands [] [] of
              (out, discarded) \<Rightarrow> if keep_pruned then refill_loop m discarded out else out))"

lemma good_candidate_all:
  "good_candidate distance c ss \<longleftrightarrow> (\<forall>s\<in>set ss. \<not> f32_lt (distance (sc_id c) (sc_id s)) (sc_distance c))"
  by (induction ss) auto

lemma refill_loop_eq: "length out \<le> m \<Longrightarrow> refill_loop m cs out = out @ take (m - length out) cs"
  by (induction m cs out rule: refill_loop.induct) (auto simp: take_Cons')

text \<open>The loop only ever extends \<open>out\<close> and \<open>discarded\<close> by disjoint subsequences of the input.\<close>

lemma select_loop_spec:
  assumes "select_loop m keep distance cs out disc = (out', disc')" "length out \<le> m"
  shows "\<exists>a d. out' = out @ a \<and> disc' = disc @ d \<and> subseq a cs \<and> subseq d cs \<and>
    mset a + mset d \<subseteq># mset cs \<and> length out' \<le> m \<and>
    (length out' < m \<longrightarrow> keep \<longrightarrow> mset a + mset d = mset cs) \<and> (\<not> keep \<longrightarrow> d = [])"
  using assms
proof (induction m keep distance cs out disc rule: select_loop.induct)
  case (2 m keep distance c cs out disc)
  consider (full) "length out = m" | (good) "length out \<noteq> m" "good_candidate distance c out"
    | (keep) "length out \<noteq> m" "\<not> good_candidate distance c out" "keep"
    | (drop) "length out \<noteq> m" "\<not> good_candidate distance c out" "\<not> keep" by blast
  then show ?case
  proof cases
    case full
    then show ?thesis using "2.prems" by simp
  next
    case good
    then have s: "select_loop m keep distance cs (out @ [c]) disc = (out', disc')" "length (out @ [c]) \<le> m"
      using "2.prems" by auto
    from "2.IH"(1) [OF good s] obtain a d where ad: "out' = (out @ [c]) @ a" "disc' = disc @ d" "subseq a cs" "subseq d cs"
      "mset a + mset d \<subseteq># mset cs" "length out' \<le> m"
      "length out' < m \<longrightarrow> keep \<longrightarrow> mset a + mset d = mset cs" "\<not> keep \<longrightarrow> d = []"
      by blast
    then show ?thesis by (intro exI [of _ "c # a"] exI [of _ d]) auto
  next
    case keep
    then have s: "select_loop m keep distance cs out (disc @ [c]) = (out', disc')" "length out \<le> m"
      using "2.prems" by auto
    from "2.IH"(2) [OF keep s] obtain a d where ad: "out' = out @ a" "disc' = (disc @ [c]) @ d" "subseq a cs" "subseq d cs"
      "mset a + mset d \<subseteq># mset cs" "length out' \<le> m"
      "length out' < m \<longrightarrow> keep \<longrightarrow> mset a + mset d = mset cs" "\<not> keep \<longrightarrow> d = []"
      by blast
    then show ?thesis using keep by (intro exI [of _ a] exI [of _ "c # d"]) auto
  next
    case drop
    then have s: "select_loop m keep distance cs out disc = (out', disc')" "length out \<le> m"
      using "2.prems" by auto
    from "2.IH"(3) [OF drop s] obtain a d where ad: "out' = out @ a" "disc' = disc @ d" "subseq a cs" "subseq d cs"
      "mset a + mset d \<subseteq># mset cs" "length out' \<le> m" "\<not> keep \<longrightarrow> d = []"
      by blast
    then show ?thesis using drop
      by (intro exI [of _ a] exI [of _ d]) (auto intro: subset_mset.order_trans)
  qed
qed auto

text \<open>What the heuristic accepts is diverse: nothing accepted later is closer to an accepted
  neighbour than to the base.\<close>

definition diverse :: "('i \<Rightarrow> 'i \<Rightarrow> f32) \<Rightarrow> 'i scored list \<Rightarrow> bool" where
  "diverse distance = sorted_wrt (\<lambda>s c. \<not> f32_lt (distance (sc_id c) (sc_id s)) (sc_distance c))"

lemma select_loop_diverse:
  "select_loop m keep distance cs out disc = (out', disc') \<Longrightarrow> diverse distance out \<Longrightarrow> diverse distance out'"
  by (induction m keep distance cs out disc rule: select_loop.induct)
    (auto simp: diverse_def sorted_wrt_append good_candidate_all split: if_splits)

lemma select_loop_first:
  assumes "0 < m" "select_loop m keep distance (c # cs) [] [] = (out', disc')"
  shows "\<exists>r. out' = c # r"
  using assms select_loop_spec [of m keep distance cs "[c]" "[]" out' disc'] by (auto split: if_splits)

lemma mset_take_sub: "mset (take n xs) \<subseteq># mset xs"
  using append_take_drop_id [of n xs] by (metis mset_append mset_subset_eq_add_left)

lemma select_neighbors_subset:
  "mset (select_neighbors cs m sel keep distance) \<subseteq># mset cs \<and> length (select_neighbors cs m sel keep distance) \<le> m"
proof (cases "sel = Simple")
  case True
  then show ?thesis by (simp add: select_neighbors_def mset_take_sub)
next
  case False
  obtain out disc where sl: "select_loop m keep distance cs [] [] = (out, disc)" by fastforce
  note sp = select_loop_spec [OF sl]
  have "mset out + mset (take (m - length out) disc) \<subseteq># mset out + mset disc"
    by (simp add: mset_take_sub)
  moreover have "mset out \<subseteq># mset out + mset disc" by simp
  moreover have "mset out + mset disc \<subseteq># mset cs" using sp by auto
  ultimately have "mset out + mset (take (m - length out) disc) \<subseteq># mset cs" "mset out \<subseteq># mset cs"
    using subset_mset.order_trans by blast+
  then show ?thesis using False sp sl by (auto simp: select_neighbors_def refill_loop_eq)
qed

lemma select_neighbors_count:
  assumes "keep \<or> sel = Simple"
  shows "length (select_neighbors cs m sel keep distance) = min m (length cs)"
proof (cases "sel = Simple")
  case False
  obtain out disc where sl: "select_loop m keep distance cs [] [] = (out, disc)" by fastforce
  note sp = select_loop_spec [OF sl]
  have le: "length out + length disc \<le> length cs" "length out \<le> m"
    using sp size_mset_mono [of "mset out + mset disc" "mset cs"] by auto
  have "length out + length disc = length cs" if "length out < m"
  proof -
    have "mset out + mset disc = mset cs" using sp that False assms by auto
    from arg_cong [OF this, of size] show ?thesis by simp
  qed
  then show ?thesis using False assms sl le by (cases "length out < m") (auto simp: select_neighbors_def refill_loop_eq)
qed (simp add: select_neighbors_def min_def)

lemma select_neighbors_distinct:
  assumes "distinct (map sc_id cs)"
  shows "distinct (map sc_id (select_neighbors cs m sel keep distance))"
    and "set (select_neighbors cs m sel keep distance) \<subseteq> set cs"
proof -
  let ?r = "select_neighbors cs m sel keep distance"
  have sub: "mset ?r \<subseteq># mset cs" using select_neighbors_subset by blast
  then have "image_mset sc_id (mset ?r) \<subseteq># image_mset sc_id (mset cs)" by (rule image_mset_subseteq_mono)
  then have "mset (map sc_id ?r) \<subseteq># mset (map sc_id cs)" by simp
  then show "distinct (map sc_id ?r)" using assms
    by (metis distinct_append ex_mset mset_append mset_eq_imp_distinct_iff subset_mset.le_iff_add)
  show "set ?r \<subseteq> set cs" using set_mset_mono [OF sub] by simp
qed

text \<open>The loop seen from the end of the candidate list: the last candidate meets what the prefix
  before it selected.\<close>

lemma select_loop_snoc:
  "select_loop m keep distance (cs @ [c]) out disc =
     (case select_loop m keep distance cs out disc of (out', disc') \<Rightarrow>
        if length out' = m then (out', disc')
        else if good_candidate distance c out' then (out' @ [c], disc')
        else if keep then (out', disc' @ [c]) else (out', disc'))"
  by (induction m keep distance cs out disc rule: select_loop.induct) auto

lemma select_loop_keep: "fst (select_loop m True distance cs out disc) = fst (select_loop m False distance cs out [])"
  by (induction cs arbitrary: out disc) simp_all

text \<open>Unless the selection filled up, the discarded candidates are those not selected, in order.\<close>

lemma select_loop_discarded:
  assumes "distinct cs" "select_loop m True distance cs [] [] = (out, disc)" "length out < m"
  shows "disc = filter (\<lambda>c. c \<notin> set out) cs"
  using assms
proof (induction cs arbitrary: out disc rule: rev_induct)
  case (snoc c cs)
  obtain o1 d1 where p: "select_loop m True distance cs [] [] = (o1, d1)" by fastforce
  have o1: "length o1 < m" using snoc.prems p by (auto simp: select_loop_snoc split: if_splits)
  have d1: "d1 = filter (\<lambda>c. c \<notin> set o1) cs" using snoc.IH [OF _ p o1] snoc.prems(1) by simp
  have "subseq o1 cs" using select_loop_spec [OF p] by auto
  then have "c \<notin> set o1" using snoc.prems(1) by (auto dest: list_emb_set)
  moreover have f: "filter (\<lambda>x. x \<notin> set (o1 @ [c])) cs = filter (\<lambda>x. x \<notin> set o1) cs"
    using snoc.prems(1) by (intro filter_cong) auto
  moreover have "(out, disc) = (if good_candidate distance c o1 then (o1 @ [c], d1) else (o1, d1 @ [c]))"
    using snoc.prems(2) o1 unfolding select_loop_snoc p by (simp split: if_splits)
  ultimately show ?case unfolding d1 by (cases "good_candidate distance c o1") simp_all
qed simp

lemma select_neighbors_False:
  "select_neighbors cs m Heuristic False distance = fst (select_loop m False distance cs [] [])"
  by (simp add: select_neighbors_def split: prod.splits)

lemma select_neighbors_snoc:
  "select_neighbors (cs @ [c]) m Heuristic False distance =
     select_neighbors cs m Heuristic False distance @
       (if length (select_neighbors cs m Heuristic False distance) < m \<and>
           good_candidate distance c (select_neighbors cs m Heuristic False distance) then [c] else [])"
  using select_neighbors_subset [of cs m Heuristic False distance]
  by (auto simp: select_neighbors_False select_loop_snoc split: prod.splits)

lemma select_neighbors_refill:
  assumes "distinct cs"
  shows "select_neighbors cs m Heuristic True distance =
    (let a = select_neighbors cs m Heuristic False distance in a @ take (m - length a) (filter (\<lambda>c. c \<notin> set a) cs))"
proof -
  obtain out disc where sl: "select_loop m True distance cs [] [] = (out, disc)" by fastforce
  have a: "select_neighbors cs m Heuristic False distance = out"
    using select_loop_keep [of m distance cs "[]" "[]"] sl by (simp add: select_neighbors_False)
  have "length out \<le> m" using select_loop_spec [OF sl] by simp
  then have "select_neighbors cs m Heuristic True distance = out @ take (m - length out) disc"
    using sl by (simp add: select_neighbors_def refill_loop_eq)
  then show ?thesis using select_loop_discarded [OF assms sl] \<open>length out \<le> m\<close>
    by (cases "length out < m") (simp_all add: a Let_def)
qed

lemma select_neighbors_pruned:
  assumes "x \<in> set cs" "x \<notin> set (select_neighbors cs m Heuristic False distance)"
  shows "length (select_neighbors cs m Heuristic False distance) = m \<or>
    (\<exists>s\<in>set (select_neighbors cs m Heuristic False distance). f32_lt (distance (sc_id x) (sc_id s)) (sc_distance x))"
  using assms
proof (induction cs rule: rev_induct)
  case (snoc c cs)
  let ?a = "select_neighbors cs m Heuristic False distance"
  have "length ?a \<le> m" using select_neighbors_subset by blast
  then show ?case using snoc by (auto simp: select_neighbors_snoc good_candidate_all split: if_splits)
qed simp

subsection \<open>Properties\<close>

text \<open>C38. The heuristic is the greedy selection it means to be. Candidate by candidate, in sorted order,
  what is selected from a prefix grows by the next candidate exactly when there is room and no selected
  neighbour is strictly closer to it than the base is; so a candidate is left out only when the
  selection is full or for such a neighbour. With refill the pruned candidates follow, in order, up
  to m in all; the simple rule takes the first m. Hence the result is a subsequence of at most m
  candidates that always has the nearest one, no two of them closer to each other than the later one
  is to the base, and with refill exactly min(m, candidates) of them.\<close>

theorem select_neighbors_heuristic:
  fixes cs :: "scored_id list" and c :: scored_id and distance :: "nat \<Rightarrow> nat \<Rightarrow> f32" and m :: nat
  defines "sel \<equiv> (\<lambda>xs. select_neighbors xs m Heuristic False distance)"
  assumes "0 < m" "distinct (c # cs)"
  shows "sel [] = [] \<and>
    (\<forall>p < length (c # cs). sel (take (Suc p) (c # cs)) = sel (take p (c # cs)) @
       (if length (sel (take p (c # cs))) < m \<and>
           (\<forall>s\<in>set (sel (take p (c # cs))). \<not> f32_lt (distance (sc_id ((c # cs) ! p)) (sc_id s)) (sc_distance ((c # cs) ! p)))
        then [(c # cs) ! p] else [])) \<and>
    (\<forall>x\<in>set (c # cs). x \<notin> set (sel (c # cs)) \<longrightarrow> length (sel (c # cs)) = m \<or>
       (\<exists>s\<in>set (sel (c # cs)). f32_lt (distance (sc_id x) (sc_id s)) (sc_distance x))) \<and>
    select_neighbors (c # cs) m Heuristic True distance =
      sel (c # cs) @ take (m - length (sel (c # cs))) (filter (\<lambda>x. x \<notin> set (sel (c # cs))) (c # cs)) \<and>
    select_neighbors (c # cs) m Simple keep distance = take m (c # cs) \<and>
    subseq (sel (c # cs)) (c # cs) \<and> diverse distance (sel (c # cs)) \<and> (\<exists>r. sel (c # cs) = c # r) \<and>
    length (sel (c # cs)) \<le> m \<and> length (select_neighbors (c # cs) m Heuristic True distance) = min m (Suc (length cs))"
proof -
  obtain out disc where sl: "select_loop m False distance (c # cs) [] [] = (out, disc)" by fastforce
  have out: "sel (c # cs) = out" using sl by (simp add: sel_def select_neighbors_False del: select_loop.simps)
  have "subseq out (c # cs) \<and> diverse distance out \<and> (\<exists>r. out = c # r) \<and> length out \<le> m"
    using select_loop_spec [OF sl] select_loop_diverse [OF sl] select_loop_first [OF assms(2) sl] by (auto simp: diverse_def)
  moreover have "sel (take (Suc p) (c # cs)) = sel (take p (c # cs)) @
       (if length (sel (take p (c # cs))) < m \<and>
           (\<forall>s\<in>set (sel (take p (c # cs))). \<not> f32_lt (distance (sc_id ((c # cs) ! p)) (sc_id s)) (sc_distance ((c # cs) ! p)))
        then [(c # cs) ! p] else [])" if "p < length (c # cs)" for p
    unfolding sel_def take_Suc_conv_app_nth [OF that] select_neighbors_snoc good_candidate_all by (rule refl)
  moreover have "sel [] = []" by (simp add: sel_def select_neighbors_def)
  moreover have "select_neighbors (c # cs) m Simple keep distance = take m (c # cs)" by (simp add: select_neighbors_def)
  ultimately show ?thesis
    using select_neighbors_pruned [of _ "c # cs" m distance] select_neighbors_refill [OF assms(3), of m distance]
      select_neighbors_count [of True Heuristic "c # cs" m distance]
    unfolding out [symmetric] sel_def by (simp only: Let_def) auto
qed

theorem select_neighbors_heuristic_witness:
  "\<exists>r. select_neighbors [mk_scored f32_zero 3, mk_scored f32_one (4::nat)] 1 Heuristic False (\<lambda>_ _. f32_zero) =
     mk_scored f32_zero 3 # r"
  using select_neighbors_heuristic [of 1 "mk_scored f32_zero 3" "[mk_scored f32_one (4::nat)]" "\<lambda>_ _. f32_zero" True]
  by simp

end
