(* ===== verification/VF_Tombstones.thy ===== *)
theory VF_Tombstones
  imports VF_Types
begin

unbundle bit_operations_syntax

text \<open>
  Deletion markers (\<^verbatim>\<open>src/storage/tombstones.hpp\<close>): a bitset in 64-bit words with a population count.
  \<open>set\<close> and \<open>clear\<close> out of range are assertion failures (\<open>None\<close>). The refinement is to the finite
  set of marked rows; the invariant is that \<open>count\<close> is its cardinality.
\<close>

record tombstone_set =
  tb_words :: "u64 list"
  tb_count :: nat

definition tb_empty :: tombstone_set where
  "tb_empty = \<lparr>tb_words = [], tb_count = 0\<rparr>"

definition tb_ensure_size :: "tombstone_set \<Rightarrow> nat \<Rightarrow> tombstone_set" where
  "tb_ensure_size t rows =
     (let words = (rows + 63) div 64
      in if length (tb_words t) < words
         then t\<lparr>tb_words := tb_words t @ replicate (words - length (tb_words t)) 0\<rparr> else t)"

definition tb_set :: "tombstone_set \<Rightarrow> internal_id \<Rightarrow> (bool \<times> tombstone_set) option" where
  "tb_set t i =
     (if i div 64 < length (tb_words t)
      then (let word = tb_words t ! (i div 64); mask = push_bit (i mod 64) 1
            in if word AND mask \<noteq> 0 then Some (False, t)
               else Some (True, \<lparr>tb_words = (tb_words t)[i div 64 := word OR mask], tb_count = tb_count t + 1\<rparr>))
      else None)"

definition tb_clear :: "tombstone_set \<Rightarrow> internal_id \<Rightarrow> (bool \<times> tombstone_set) option" where
  "tb_clear t i =
     (if i div 64 < length (tb_words t)
      then (let word = tb_words t ! (i div 64); mask = push_bit (i mod 64) 1
            in if word AND mask = 0 then Some (False, t)
               else Some (True, \<lparr>tb_words = (tb_words t)[i div 64 := word AND NOT mask], tb_count = tb_count t - 1\<rparr>))
      else None)"

definition tb_test :: "tombstone_set \<Rightarrow> internal_id \<Rightarrow> bool" where
  "tb_test t i \<longleftrightarrow> i div 64 < length (tb_words t) \<and> drop_bit (i mod 64) (tb_words t ! (i div 64)) AND 1 \<noteq> 0"

definition tb_any :: "tombstone_set \<Rightarrow> bool" where
  "tb_any t \<longleftrightarrow> tb_count t \<noteq> 0"

definition popcount :: "u64 \<Rightarrow> nat" where
  "popcount w = length (filter (bit w) [0..<64])"

definition tb_restore :: "u64 list \<Rightarrow> nat \<Rightarrow> tombstone_set option" where
  "tb_restore words rows =
     (if length words \<noteq> (rows + 63) div 64 then None
      else (let tail_bits = rows mod 64
            in if tail_bits \<noteq> 0 \<and> drop_bit tail_bits (last words) \<noteq> 0 then None
               else Some \<lparr>tb_words = words, tb_count = sum_list (map popcount words)\<rparr>))"

subsection \<open>The set of marked rows\<close>

definition tb_rows :: "tombstone_set \<Rightarrow> internal_id set" where
  "tb_rows t = {i. tb_test t i}"

definition tb_inv :: "tombstone_set \<Rightarrow> bool" where
  "tb_inv t \<longleftrightarrow> tb_count t = card (tb_rows t)"

lemma and_one_neq_0: "(w :: 'a::len word) AND 1 \<noteq> 0 \<longleftrightarrow> bit w 0"
  by (simp add: and_one_eq bit_0 odd_iff_mod_2_eq_one)

lemma tb_test_bit: "tb_test t i \<longleftrightarrow> i div 64 < length (tb_words t) \<and> bit (tb_words t ! (i div 64)) (i mod 64)"
  by (simp add: tb_test_def and_one_neq_0 bit_drop_bit_eq)

lemma and_mask_neq_0: "n < 64 \<Longrightarrow> (w :: u64) AND push_bit n 1 \<noteq> 0 \<longleftrightarrow> bit w n"
proof -
  assume n: "n < 64"
  have "w AND push_bit n 1 = (if bit w n then push_bit n 1 else 0)"
    by (rule bit_word_eqI) (auto simp: bit_simps)
  moreover have "push_bit n (1::u64) \<noteq> 0" using n by (auto simp: bit_eq_iff bit_simps intro!: exI [of _ n])
  ultimately show ?thesis by simp
qed

lemma finite_tb_rows: "finite (tb_rows t)"
proof (rule finite_subset)
  show "tb_rows t \<subseteq> {..< 64 * length (tb_words t)}"
    by (auto simp: tb_rows_def tb_test_bit div_less_iff_less_mult mult.commute)
qed simp

lemma div_mod_64_eq: "i div 64 = j div 64 \<Longrightarrow> i mod 64 = j mod 64 \<Longrightarrow> i = (j::nat)"
  by (metis mult_div_mod_eq)

lemma tb_set_rows:
  assumes "i div 64 < length (tb_words t)"
  shows "\<exists>t'. tb_set t i = Some (\<not> tb_test t i, t') \<and> tb_rows t' = insert i (tb_rows t) \<and>
    length (tb_words t') = length (tb_words t) \<and> (tb_inv t \<longrightarrow> tb_inv t')"
proof (cases "tb_test t i")
  case True
  then show ?thesis using assms and_mask_neq_0 [of "i mod 64" "tb_words t ! (i div 64)"]
    by (auto simp: tb_set_def tb_test_bit tb_rows_def)
next
  case False
  define t' where "t' = \<lparr>tb_words = (tb_words t)[i div 64 := tb_words t ! (i div 64) OR push_bit (i mod 64) 1],
    tb_count = tb_count t + 1\<rparr>"
  have s: "tb_set t i = Some (True, t')"
    using False assms and_mask_neq_0 [of "i mod 64" "tb_words t ! (i div 64)"]
    by (simp add: tb_set_def tb_test_bit t'_def)
  have "tb_test t' j \<longleftrightarrow> j = i \<or> tb_test t j" for j
    using assms div_mod_64_eq [of j i]
    by (auto simp: tb_test_bit t'_def nth_list_update bit_simps)
  then have r: "tb_rows t' = insert i (tb_rows t)" by (auto simp: tb_rows_def)
  have "tb_inv t \<Longrightarrow> tb_inv t'"
    using False finite_tb_rows [of t] by (simp add: tb_inv_def r) (simp add: tb_rows_def t'_def)
  then show ?thesis using s r False by (simp add: t'_def)
qed

lemma tb_clear_rows:
  assumes "i div 64 < length (tb_words t)"
  shows "\<exists>t'. tb_clear t i = Some (tb_test t i, t') \<and> tb_rows t' = tb_rows t - {i} \<and>
    length (tb_words t') = length (tb_words t) \<and> (tb_inv t \<longrightarrow> tb_inv t')"
proof (cases "tb_test t i")
  case False
  then show ?thesis using assms and_mask_neq_0 [of "i mod 64" "tb_words t ! (i div 64)"]
    by (auto simp: tb_clear_def tb_test_bit tb_rows_def)
next
  case True
  define t' where "t' = \<lparr>tb_words = (tb_words t)[i div 64 := tb_words t ! (i div 64) AND NOT (push_bit (i mod 64) 1)],
    tb_count = tb_count t - 1\<rparr>"
  have s: "tb_clear t i = Some (True, t')"
    using True assms and_mask_neq_0 [of "i mod 64" "tb_words t ! (i div 64)"]
    by (simp add: tb_clear_def tb_test_bit t'_def)
  have "tb_test t' j \<longleftrightarrow> j \<noteq> i \<and> tb_test t j" for j
    using assms div_mod_64_eq [of j i]
    by (auto simp: tb_test_bit t'_def nth_list_update bit_simps)
  then have r: "tb_rows t' = tb_rows t - {i}" by (auto simp: tb_rows_def)
  have "i \<in> tb_rows t" using True by (simp add: tb_rows_def)
  then have "tb_inv t \<Longrightarrow> tb_inv t'" using finite_tb_rows [of t] by (simp add: tb_inv_def r) (simp add: t'_def)
  then show ?thesis using s r True by (simp add: t'_def)
qed

lemma tb_ensure_size_rows:
  "tb_rows (tb_ensure_size t n) = tb_rows t" "i < n \<Longrightarrow> i div 64 < length (tb_words (tb_ensure_size t n))"
  "length (tb_words t) \<le> length (tb_words (tb_ensure_size t n))" "tb_inv t \<Longrightarrow> tb_inv (tb_ensure_size t n)"
proof -
  have "tb_test (tb_ensure_size t n) j = tb_test t j" for j
    by (auto simp: tb_test_bit tb_ensure_size_def Let_def nth_append)
  then show r: "tb_rows (tb_ensure_size t n) = tb_rows t" by (simp add: tb_rows_def)
  then show "tb_inv t \<Longrightarrow> tb_inv (tb_ensure_size t n)"
    unfolding tb_inv_def by (simp add: tb_ensure_size_def Let_def)
  show "length (tb_words t) \<le> length (tb_words (tb_ensure_size t n))"
    by (auto simp: tb_ensure_size_def Let_def)
  show "i div 64 < length (tb_words (tb_ensure_size t n))" if "i < n"
  proof -
    have "i div 64 < (n + 63) div 64" using that by linarith
    then show ?thesis by (auto simp: tb_ensure_size_def Let_def)
  qed
qed

lemma tb_any_iff: "tb_inv t \<Longrightarrow> tb_any t \<longleftrightarrow> tb_rows t \<noteq> {}"
  using finite_tb_rows [of t] by (simp add: tb_inv_def tb_any_def)

subsection \<open>Restoring persisted words\<close>

lemma popcount_card: "popcount w = card {n. n < 64 \<and> bit w n}"
proof -
  have "{n. n < 64 \<and> bit w n} = set (filter (bit w) [0..<64])" by auto
  then show ?thesis by (simp add: popcount_def distinct_card del: set_filter)
qed

lemma tb_rows_snoc:
  "tb_rows \<lparr>tb_words = ws @ [w], tb_count = c\<rparr> =
     tb_rows \<lparr>tb_words = ws, tb_count = c'\<rparr> \<union> (\<lambda>n. 64 * length ws + n) ` {n. n < 64 \<and> bit w n}"
proof -
  have "tb_test \<lparr>tb_words = ws @ [w], tb_count = c\<rparr> j \<longleftrightarrow> tb_test \<lparr>tb_words = ws, tb_count = c'\<rparr> j \<or>
      j \<in> (\<lambda>n. 64 * length ws + n) ` {n. n < 64 \<and> bit w n}" for j
  proof (cases "j div 64 = length ws")
    case True
    then have "j = 64 * length ws + j mod 64" by (metis mult_div_mod_eq)
    then show ?thesis using True by (auto simp: tb_test_bit nth_append intro!: image_eqI [of _ _ "j mod 64"])
  next
    case False
    then show ?thesis by (auto simp: tb_test_bit nth_append)
  qed
  then show ?thesis by (auto simp: tb_rows_def)
qed

lemma sum_popcount_card: "sum_list (map popcount ws) = card (tb_rows \<lparr>tb_words = ws, tb_count = c\<rparr>)"
proof (induction ws rule: rev_induct)
  case Nil
  then show ?case by (simp add: tb_rows_def tb_test_bit)
next
  case (snoc w ws)
  let ?new = "(\<lambda>n. 64 * length ws + n) ` {n. n < 64 \<and> bit w n}"
  have "tb_rows \<lparr>tb_words = ws, tb_count = c\<rparr> \<inter> ?new = {}" by (auto simp: tb_rows_def tb_test_bit)
  moreover have "card ?new = popcount w" by (simp add: popcount_card card_image)
  ultimately show ?case
    using snoc by (simp add: tb_rows_snoc [of ws w c c] card_Un_disjoint finite_tb_rows)
qed

lemma drop_bit_zero_iff: "drop_bit k (w :: u64) = 0 \<longleftrightarrow> (\<forall>n. k \<le> n \<longrightarrow> \<not> bit w n)"
proof
  assume "drop_bit k w = 0"
  then have "\<not> bit (drop_bit k w) m" for m by simp
  then show "\<forall>n. k \<le> n \<longrightarrow> \<not> bit w n" by (metis bit_drop_bit_eq comp_apply le_add_diff_inverse)
next
  assume "\<forall>n. k \<le> n \<longrightarrow> \<not> bit w n"
  then show "drop_bit k w = 0" by (intro bit_word_eqI) (simp add: bit_drop_bit_eq)
qed

lemma words_partial: "(rows + 63) div 64 = Suc (rows div 64)" if "rows mod 64 \<noteq> 0" for rows :: nat
proof -
  obtain q r where qr: "rows = 64 * q + r" "r < 64" by (metis mult_div_mod_eq mod_less_divisor zero_less_numeral)
  then have "0 < r" using that by (cases r) auto
  then have "rows + 63 = (r - 1) + Suc q * 64" using qr by simp
  moreover have "((r - 1) + Suc q * 64) div 64 = Suc q" using qr(2) by (subst div_mult_self1) auto
  ultimately show ?thesis using qr by simp
qed

text \<open>Restoring accepts exactly the word lists of the right length that mark only existing rows.\<close>

lemma tb_restore_Some:
  "tb_restore words rows = Some t \<longleftrightarrow>
     length words = (rows + 63) div 64 \<and> t = \<lparr>tb_words = words, tb_count = sum_list (map popcount words)\<rparr> \<and>
     (\<forall>i\<in>tb_rows t. i < rows)"
proof (cases "length words = (rows + 63) div 64")
  case True
  define u where "u = \<lparr>tb_words = words, tb_count = sum_list (map popcount words)\<rparr>"
  have rng: "i \<in> tb_rows u \<longleftrightarrow> i div 64 < length words \<and> bit (words ! (i div 64)) (i mod 64)" for i
    by (simp add: tb_rows_def tb_test_bit u_def)
  have "(rows mod 64 \<noteq> 0 \<and> drop_bit (rows mod 64) (last words) \<noteq> 0) \<longleftrightarrow> \<not> (\<forall>i\<in>tb_rows u. i < rows)"
  proof (cases "rows mod 64 = 0")
    case z: True
    then have "64 * length words = rows" using True by (auto simp: algebra_simps elim!: dvdE simp flip: dvd_eq_mod_eq_0)
    then have "i \<in> tb_rows u \<Longrightarrow> i < rows" for i unfolding rng by auto
    then show ?thesis using z by blast
  next
    case nz: False
    then have len: "length words = Suc (rows div 64)" using True by (simp add: words_partial)
    then have last: "last words = words ! (rows div 64)" by (subst last_conv_nth) auto
    have "(\<exists>n\<ge>rows mod 64. bit (last words) n) \<longleftrightarrow> (\<exists>i\<in>tb_rows u. \<not> i < rows)"
    proof
      assume "\<exists>n\<ge>rows mod 64. bit (last words) n"
      then obtain n where n: "rows mod 64 \<le> n" "bit (last words) n" by blast
      then have "n < 64" using bit_imp_le_length by fastforce
      then have "64 * (rows div 64) + n \<in> tb_rows u" using n len last by (simp add: rng)
      moreover have "\<not> 64 * (rows div 64) + n < rows" using n mult_div_mod_eq [of 64 rows] by linarith
      ultimately show "\<exists>i\<in>tb_rows u. \<not> i < rows" by blast
    next
      assume "\<exists>i\<in>tb_rows u. \<not> i < rows"
      then obtain i where i: "i \<in> tb_rows u" "rows \<le> i" by auto
      then have "i div 64 = rows div 64" using len div_le_mono [of rows i 64] by (simp add: rng)
      moreover from this have "rows mod 64 \<le> i mod 64"
        using i(2) mult_div_mod_eq [of 64 rows] mult_div_mod_eq [of 64 i] by linarith
      ultimately have "bit (last words) (i mod 64)" "rows mod 64 \<le> i mod 64"
        using i last by (auto simp: rng)
      then show "\<exists>n\<ge>rows mod 64. bit (last words) n" by blast
    qed
    then show ?thesis using nz by (auto simp: drop_bit_zero_iff)
  qed
  then show ?thesis using True by (auto simp: tb_restore_def Let_def u_def)
qed (auto simp: tb_restore_def)

lemma tb_restore_inv: "tb_restore words rows = Some t \<Longrightarrow> tb_inv t"
  using sum_popcount_card [of words "sum_list (map popcount words)"]
  by (auto simp: tb_restore_Some tb_inv_def)

lemma tb_empty_facts [simp]: "tb_rows tb_empty = {}" "tb_inv tb_empty"
  by (simp_all add: tb_rows_def tb_inv_def tb_test_def tb_empty_def)

end
