(* ===== verification/VF_IdMap.thy ===== *)
theory VF_IdMap
  imports VF_Tombstones
begin

text \<open>
  The mapping between external ids and rows (\<^verbatim>\<open>src/storage/id_map.hpp\<close>, \<^verbatim>\<open>id_map.cpp\<close>). The hash map
  is a finite map; the label array is a list. \<open>commit\<close>, \<open>rollback\<close> and \<open>revert\<close> abort the process
  when their precondition fails: \<open>None\<close>. The two-step protocol is refined to the abstract map from
  external ids to rows that \<open>find\<close> shows.
\<close>

record id_entry =
  en_current :: internal_id
  en_pending :: bool

record id_map =
  im_map :: "external_id \<rightharpoonup> id_entry"
  im_labels :: "external_id list"
  im_live :: nat

record reservation =
  rv_external :: external_id
  rv_previous :: internal_id

definition im_empty :: id_map where
  "im_empty = \<lparr>im_map = Map.empty, im_labels = [], im_live = 0\<rparr>"

definition default_entry :: id_entry where
  "default_entry = \<lparr>en_current = kInvalidInternalId, en_pending = False\<rparr>"

definition im_reserve :: "id_map \<Rightarrow> external_id \<Rightarrow> bool \<Rightarrow> reservation result \<times> id_map" where
  "im_reserve m x upsert =
     (if x = kInvalidExternalId
      then (Inl (invalid_argument (''external id '' @ show_nat (unat x) @ '' is reserved'')), m)
      else case im_map m x of
        None \<Rightarrow> (Inr \<lparr>rv_external = x, rv_previous = kInvalidInternalId\<rparr>,
                 m\<lparr>im_map := (im_map m)(x \<mapsto> default_entry\<lparr>en_pending := True\<rparr>)\<rparr>)
      | Some e \<Rightarrow>
          if en_pending e
          then (Inl (already_exists (''id '' @ show_nat (unat x) @ '' has an insert in progress'')), m)
          else if \<not> upsert
          then (Inl (already_exists (''id '' @ show_nat (unat x) @ '' already exists'')), m)
          else (Inr \<lparr>rv_external = x, rv_previous = en_current e\<rparr>,
                m\<lparr>im_map := (im_map m)(x \<mapsto> e\<lparr>en_pending := True\<rparr>)\<rparr>))"

definition im_commit :: "id_map \<Rightarrow> reservation \<Rightarrow> internal_id \<Rightarrow> (internal_id \<times> id_map) option" where
  "im_commit m r internal =
     (if internal \<noteq> length (im_labels m) then None
      else case im_map m (rv_external r) of
        None \<Rightarrow> None
      | Some e \<Rightarrow>
          if \<not> en_pending e then None
          else Some (en_current e,
            \<lparr>im_map = (im_map m)(rv_external r \<mapsto> \<lparr>en_current = internal, en_pending = False\<rparr>),
             im_labels = im_labels m @ [rv_external r],
             im_live = (if en_current e = kInvalidInternalId then im_live m + 1 else im_live m)\<rparr>))"

definition im_rollback :: "id_map \<Rightarrow> reservation \<Rightarrow> id_map option" where
  "im_rollback m r =
     (case im_map m (rv_external r) of
        None \<Rightarrow> None
      | Some e \<Rightarrow>
          if \<not> en_pending e then None
          else if rv_previous r = kInvalidInternalId
          then Some (m\<lparr>im_map := (im_map m)(rv_external r := None)\<rparr>)
          else Some (m\<lparr>im_map := (im_map m)(rv_external r \<mapsto> e\<lparr>en_pending := False\<rparr>)\<rparr>))"

definition im_erase :: "id_map \<Rightarrow> external_id \<Rightarrow> internal_id result \<times> id_map" where
  "im_erase m x =
     (case im_map m x of
        None \<Rightarrow> (Inl (not_found (''id '' @ show_nat (unat x) @ '' not found'')), m)
      | Some e \<Rightarrow>
          if en_current e = kInvalidInternalId
          then (Inl (not_found (''id '' @ show_nat (unat x) @ '' not found'')), m)
          else if en_pending e
          then (Inl (already_exists (''id '' @ show_nat (unat x) @ '' has an insert in progress'')), m)
          else (Inr (en_current e), m\<lparr>im_map := (im_map m)(x := None), im_live := im_live m - 1\<rparr>))"

definition im_revert :: "id_map \<Rightarrow> reservation \<Rightarrow> internal_id \<Rightarrow> id_map option" where
  "im_revert m r internal =
     (case im_map m (rv_external r) of
        None \<Rightarrow> None
      | Some e \<Rightarrow>
          if en_pending e \<or> en_current e \<noteq> internal then None
          else if rv_previous r \<noteq> kInvalidInternalId
          then Some (m\<lparr>im_map := (im_map m)(rv_external r \<mapsto> e\<lparr>en_current := rv_previous r\<rparr>)\<rparr>)
          else Some (m\<lparr>im_map := (im_map m)(rv_external r := None), im_live := im_live m - 1\<rparr>))"

definition im_find :: "id_map \<Rightarrow> external_id \<Rightarrow> internal_id option" where
  "im_find m x =
     (case im_map m x of
        None \<Rightarrow> None
      | Some e \<Rightarrow> if en_current e = kInvalidInternalId then None else Some (en_current e))"

definition im_contains :: "id_map \<Rightarrow> external_id \<Rightarrow> bool" where
  "im_contains m x \<longleftrightarrow> im_find m x \<noteq> None"

definition im_label :: "id_map \<Rightarrow> internal_id \<Rightarrow> external_id option" where
  "im_label m i = (if i < length (im_labels m) then Some (im_labels m ! i) else None)"

definition im_size :: "id_map \<Rightarrow> nat" where
  "im_size m = im_live m"

text \<open>The loop of \<open>restore\<close>: rows from \<open>i\<close> on; the number of keys emplaced so far is \<open>n\<close>.\<close>

fun restore_loop :: "external_id list \<Rightarrow> nat \<Rightarrow> tombstone_set \<Rightarrow> (external_id \<rightharpoonup> id_entry) \<Rightarrow> nat
    \<Rightarrow> ((external_id \<rightharpoonup> id_entry) \<times> nat) result" where
  "restore_loop [] i deleted m n = Inr (m, n)"
| "restore_loop (x # xs) i deleted m n =
     (if tb_test deleted i then restore_loop xs (Suc i) deleted m n
      else if x = kInvalidExternalId
      then Inl (corrupt_data (''LABELS: live row '' @ show_nat i @ '' has the reserved external id''))
      else case m x of
        Some e \<Rightarrow> Inl (corrupt_data (''LABELS: external id '' @ show_nat (unat x) @ '' labels live rows '' @
                     show_nat (en_current e) @ '' and '' @ show_nat i))
      | None \<Rightarrow> restore_loop xs (Suc i) deleted (m(x \<mapsto> \<lparr>en_current = i, en_pending = False\<rparr>)) (Suc n))"

definition im_restore :: "external_id list \<Rightarrow> tombstone_set \<Rightarrow> id_map result" where
  "im_restore labels deleted =
     result_bind (restore_loop labels 0 deleted Map.empty 0)
       (\<lambda>(m, n). Inr \<lparr>im_map = m, im_labels = labels, im_live = n\<rparr>)"

subsection \<open>Invariant\<close>

definition im_pending :: "id_map \<Rightarrow> external_id set" where
  "im_pending m = {x. \<exists>e. im_map m x = Some e \<and> en_pending e}"

definition entry_ok :: "external_id list \<Rightarrow> external_id \<Rightarrow> id_entry \<Rightarrow> bool" where
  "entry_ok labels x e \<longleftrightarrow>
     (if en_current e = kInvalidInternalId then en_pending e
      else en_current e < length labels \<and> labels ! en_current e = x)"

definition im_inv :: "id_map \<Rightarrow> bool" where
  "im_inv m \<longleftrightarrow>
     finite (dom (im_map m)) \<and> im_live m = card (dom (im_find m)) \<and>
     im_map m kInvalidExternalId = None \<and>
     (\<forall>x e. im_map m x = Some e \<longrightarrow> entry_ok (im_labels m) x e) \<and>
     length (im_labels m) \<le> kInvalidInternalId"

lemma im_invD:
  assumes "im_inv m"
  shows "finite (dom (im_map m))" "im_live m = card (dom (im_find m))" "im_map m kInvalidExternalId = None"
    "im_map m x = Some e \<Longrightarrow> entry_ok (im_labels m) x e" "length (im_labels m) \<le> kInvalidInternalId"
  using assms by (auto simp: im_inv_def)

lemma entry_ok_append: "entry_ok labels x e \<Longrightarrow> entry_ok (labels @ l) x e"
  by (auto simp: entry_ok_def nth_append split: if_splits)

lemma im_find_Some: "im_find m x = Some i \<longleftrightarrow> (\<exists>e. im_map m x = Some e \<and> en_current e = i \<and> i \<noteq> kInvalidInternalId)"
  by (auto simp: im_find_def split: option.splits)

lemma dom_im_find: "dom (im_find m) \<subseteq> dom (im_map m)"
  by (auto simp: im_find_Some)

lemma im_inv_empty [simp]: "im_inv im_empty" "im_find im_empty = Map.empty"
proof -
  show "im_find im_empty = Map.empty" by (rule ext) (simp add: im_find_def im_empty_def)
  then show "im_inv im_empty" by (simp add: im_inv_def) (simp add: im_empty_def)
qed

text \<open>Distinct visible ids name distinct rows, and a row carries the label of the id that names it.\<close>

lemma im_find_label:
  assumes "im_inv m" "im_find m x = Some i"
  shows "i < length (im_labels m)" "im_labels m ! i = x"
proof -
  obtain e where "im_map m x = Some e" "en_current e = i" "i \<noteq> kInvalidInternalId"
    using assms(2) by (auto simp: im_find_Some)
  with im_invD(4) [OF assms(1) this(1)] show "i < length (im_labels m)" "im_labels m ! i = x"
    by (simp_all add: entry_ok_def)
qed

lemma finite_im_find: "im_inv m \<Longrightarrow> finite (dom (im_find m))"
  by (rule finite_subset [OF dom_im_find im_invD(1)])

lemma im_find_inj: "im_inv m \<Longrightarrow> im_find m x = Some i \<Longrightarrow> im_find m y = Some i \<Longrightarrow> x = y"
  using im_find_label(2) [of m x i] im_find_label(2) [of m y i] by simp

subsection \<open>The two-step insert\<close>

lemma im_find_upd:
  "im_find (m\<lparr>im_map := (im_map m)(x \<mapsto> e)\<rparr>) =
     (if en_current e = kInvalidInternalId then (im_find m)(x := None) else (im_find m)(x \<mapsto> en_current e))"
  by (rule ext) (simp add: im_find_def)

lemma im_find_del: "im_find (m\<lparr>im_map := (im_map m)(x := None)\<rparr>) = (im_find m)(x := None)"
  by (rule ext) (simp add: im_find_def)

lemma im_find_live [simp]: "im_find (m\<lparr>im_live := n\<rparr>) = im_find m" "im_find (m\<lparr>im_labels := l\<rparr>) = im_find m"
  by (rule ext, simp add: im_find_def)+

lemma im_reserve_error:
  "im_reserve m x upsert = (Inl s, m') \<Longrightarrow> m' = m \<and> \<not> status_ok s \<and>
     (if x = kInvalidExternalId then code s = InvalidArgument
      else code s = AlreadyExists \<and> (x \<in> im_pending m \<or> x \<in> dom (im_map m) \<and> \<not> upsert))"
  by (auto simp: im_reserve_def im_pending_def split: if_splits option.splits)

lemma im_reserve_ok:
  assumes "im_reserve m x upsert = (Inr r, m')"
  shows "x \<noteq> kInvalidExternalId" "rv_external r = x"
    "im_find m' = im_find m" "im_pending m' = insert x (im_pending m)" "x \<notin> im_pending m"
    "im_labels m' = im_labels m" "im_live m' = im_live m"
    "rv_previous r = (case im_map m x of None \<Rightarrow> kInvalidInternalId | Some e \<Rightarrow> en_current e)"
    "im_map m' = (im_map m)(x \<mapsto> \<lparr>en_current = rv_previous r, en_pending = True\<rparr>)"
    "im_map m x = None \<or> im_map m x = Some \<lparr>en_current = rv_previous r, en_pending = False\<rparr>"
proof -
  define prev where "prev = (case im_map m x of None \<Rightarrow> kInvalidInternalId | Some e \<Rightarrow> en_current e)"
  have a: "x \<noteq> kInvalidExternalId \<and> r = \<lparr>rv_external = x, rv_previous = prev\<rparr> \<and>
      m' = m\<lparr>im_map := (im_map m)(x \<mapsto> \<lparr>en_current = prev, en_pending = True\<rparr>)\<rparr> \<and>
      (im_map m x = None \<or> im_map m x = Some \<lparr>en_current = prev, en_pending = False\<rparr>)"
    using assms
  proof (cases "im_map m x")
    case (Some e)
    then show ?thesis using assms by (cases e) (auto simp: im_reserve_def prev_def split: if_splits)
  qed (auto simp: im_reserve_def prev_def default_entry_def split: if_splits)
  then show "x \<noteq> kInvalidExternalId" "rv_external r = x" "im_labels m' = im_labels m" "im_live m' = im_live m"
    "rv_previous r = (case im_map m x of None \<Rightarrow> kInvalidInternalId | Some e \<Rightarrow> en_current e)"
    "im_map m' = (im_map m)(x \<mapsto> \<lparr>en_current = rv_previous r, en_pending = True\<rparr>)"
    "im_map m x = None \<or> im_map m x = Some \<lparr>en_current = rv_previous r, en_pending = False\<rparr>"
    by (simp_all add: prev_def [symmetric])
  show "im_pending m' = insert x (im_pending m)" "x \<notin> im_pending m" using a by (auto simp: im_pending_def)
  have "im_find m x = (if prev = kInvalidInternalId then None else Some prev)"
    by (simp add: im_find_def prev_def split: option.splits)
  then show "im_find m' = im_find m" using a by (auto simp: im_find_upd fun_eq_iff)
qed

lemma im_reserve_inv:
  assumes "im_reserve m x upsert = (Inr r, m')" "im_inv m"
  shows "im_inv m'"
proof -
  note r = im_reserve_ok [OF assms(1)] and inv = im_invD [OF assms(2)]
  have "entry_ok (im_labels m) x \<lparr>en_current = rv_previous r, en_pending = True\<rparr>"
    using r(8,10) inv(4) [of x] by (cases "im_map m x") (auto simp: entry_ok_def)
  then show ?thesis using r inv by (simp add: im_inv_def)
qed

lemma im_reserve_previous:
  assumes "im_reserve m x upsert = (Inr r, m')" "im_inv m"
  shows "im_find m x = (if rv_previous r = kInvalidInternalId then None else Some (rv_previous r))"
  using im_reserve_ok(8,10) [OF assms(1)] assms(2) by (auto simp: im_find_def split: option.splits)

text \<open>Rolling back a reservation restores exactly the map it was taken from.\<close>

lemma im_rollback_reserve:
  assumes "im_reserve m x upsert = (Inr r, m')" "im_inv m"
  shows "im_rollback m' r = Some m"
proof -
  note r = im_reserve_ok [OF assms(1)]
  show ?thesis
  proof (cases "im_map m x")
    case None
    then have "(im_map m)(x := None) = im_map m" by auto
    then show ?thesis using None r assms(1) by (cases m) (auto simp: im_rollback_def im_reserve_def)
  next
    case (Some e)
    then have "rv_previous r \<noteq> kInvalidInternalId" using r(10) im_invD(4) [OF assms(2), of x] by (auto simp: entry_ok_def)
    moreover have "(im_map m)(x \<mapsto> \<lparr>en_current = rv_previous r, en_pending = False\<rparr>) = im_map m"
      using Some r(10) by auto
    ultimately show ?thesis using Some r assms(1)
      by (cases m) (auto simp: im_rollback_def im_reserve_def split: if_splits)
  qed
qed

lemma im_commit_ok:
  assumes "im_commit m r i = Some (replaced, m')" "im_inv m" "i < kInvalidInternalId"
  shows "im_inv m'" "im_find m' = (im_find m)(rv_external r \<mapsto> i)"
    "im_labels m' = im_labels m @ [rv_external r]" "im_pending m' = im_pending m - {rv_external r}"
    "i = length (im_labels m)"
    "replaced = (case im_find m (rv_external r) of None \<Rightarrow> kInvalidInternalId | Some j \<Rightarrow> j)"
proof -
  obtain e where e: "im_map m (rv_external r) = Some e" "en_pending e" "i = length (im_labels m)"
    "replaced = en_current e" and m': "m' = \<lparr>im_map = (im_map m)(rv_external r \<mapsto> \<lparr>en_current = i, en_pending = False\<rparr>),
      im_labels = im_labels m @ [rv_external r],
      im_live = (if en_current e = kInvalidInternalId then im_live m + 1 else im_live m)\<rparr>"
    using assms(1) by (auto simp: im_commit_def split: if_splits option.splits)
  show f: "im_find m' = (im_find m)(rv_external r \<mapsto> i)"
    using assms(3) by (auto simp: m' im_find_def fun_eq_iff)
  show "im_labels m' = im_labels m @ [rv_external r]" "im_pending m' = im_pending m - {rv_external r}"
    by (auto simp: m' im_pending_def)
  show "i = length (im_labels m)" by (rule e)
  show "replaced = (case im_find m (rv_external r) of None \<Rightarrow> kInvalidInternalId | Some j \<Rightarrow> j)"
    using e by (auto simp: im_find_def)
  have fin: "finite (dom (im_find m))" using assms(2) by (rule finite_im_find)
  have "rv_external r \<in> dom (im_find m) \<longleftrightarrow> en_current e \<noteq> kInvalidInternalId"
    using e by (auto simp: im_find_def split: if_splits)
  then have "im_live m' = card (dom (im_find m'))"
    using im_invD(2) [OF assms(2)] fin unfolding f by (simp add: m' insert_absorb)
  moreover have "rv_external r \<noteq> kInvalidExternalId" using e(1) im_invD(3) [OF assms(2)] by auto
  moreover have "entry_ok (im_labels m') (rv_external r) \<lparr>en_current = i, en_pending = False\<rparr>"
    using e(3) assms(3) by (simp add: entry_ok_def m')
  ultimately show "im_inv m'"
    using im_invD [OF assms(2)] assms(3) e(3) entry_ok_append by (auto simp: im_inv_def m')
qed

lemma im_commit_reserve:
  assumes "im_reserve m x upsert = (Inr r, m')" "i = length (im_labels m)"
  shows "\<exists>replaced m''. im_commit m' r i = Some (replaced, m'') \<and> replaced = rv_previous r"
  using im_reserve_ok [OF assms(1)] assms(2) by (auto simp: im_commit_def)

lemma im_erase_ok:
  assumes "im_erase m x = (Inr i, m')" "im_inv m"
  shows "im_inv m'" "im_find m x = Some i" "im_find m' = (im_find m)(x := None)"
    "im_labels m' = im_labels m" "im_pending m' = im_pending m" "x \<notin> im_pending m"
proof -
  obtain e where e: "im_map m x = Some e" "\<not> en_pending e" "en_current e \<noteq> kInvalidInternalId" "i = en_current e"
    and m': "m' = m\<lparr>im_map := (im_map m)(x := None), im_live := im_live m - 1\<rparr>"
    using assms(1) by (auto simp: im_erase_def split: if_splits option.splits)
  show fx: "im_find m x = Some i" using e by (auto simp: im_find_Some)
  show f: "im_find m' = (im_find m)(x := None)" by (simp add: m' im_find_del)
  show "im_labels m' = im_labels m" "im_pending m' = im_pending m" "x \<notin> im_pending m"
    using e by (auto simp: m' im_pending_def)
  have fin: "finite (dom (im_find m))" using assms(2) by (rule finite_im_find)
  have "x \<in> dom (im_find m)" using fx by auto
  then have "im_live m' = card (dom (im_find m'))"
    using im_invD(2) [OF assms(2)] fin unfolding f by (simp add: m')
  then show "im_inv m'" using im_invD [OF assms(2)] by (simp add: im_inv_def m')
qed

lemma im_erase_error:
  assumes "im_erase m x = (Inl s, m')"
  shows "m' = m" "\<not> status_ok s" "code s = NotFound \<and> im_find m x = None \<or> code s = AlreadyExists \<and> x \<in> im_pending m"
  using assms by (auto simp: im_erase_def im_find_def im_pending_def split: if_splits option.splits)

lemma im_revert_ok:
  assumes "im_find m (rv_external r) = Some i" "rv_external r \<notin> im_pending m" "im_inv m"
    and "rv_previous r \<noteq> kInvalidInternalId \<Longrightarrow>
      rv_previous r < length (im_labels m) \<and> im_labels m ! rv_previous r = rv_external r"
  shows "\<exists>m'. im_revert m r i = Some m' \<and> im_inv m' \<and> im_labels m' = im_labels m \<and> im_pending m' = im_pending m \<and>
    im_find m' = (im_find m)(rv_external r :=
      (if rv_previous r = kInvalidInternalId then None else Some (rv_previous r)))"
proof -
  obtain e where e: "im_map m (rv_external r) = Some e" "en_current e = i" "i \<noteq> kInvalidInternalId"
    "\<not> en_pending e"
    using assms(1,2) by (auto simp: im_find_Some im_pending_def)
  have fin: "finite (dom (im_find m))" using assms(3) by (rule finite_im_find)
  have d: "rv_external r \<in> dom (im_find m)" using assms(1) by auto
  show ?thesis
  proof (cases "rv_previous r = kInvalidInternalId")
    case True
    let ?m' = "m\<lparr>im_map := (im_map m)(rv_external r := None), im_live := im_live m - 1\<rparr>"
    have f: "im_find ?m' = (im_find m)(rv_external r := None)" by (simp add: im_find_del)
    have "im_revert m r i = Some ?m'" using e True by (simp add: im_revert_def)
    moreover have "im_inv ?m'" using im_invD [OF assms(3)] fin d unfolding im_inv_def f by simp
    moreover have "im_pending ?m' = im_pending m" using assms(2) by (auto simp: im_pending_def)
    ultimately show ?thesis using True f by auto
  next
    case False
    let ?m' = "m\<lparr>im_map := (im_map m)(rv_external r \<mapsto> e\<lparr>en_current := rv_previous r\<rparr>)\<rparr>"
    have f: "im_find ?m' = (im_find m)(rv_external r \<mapsto> rv_previous r)" using False by (simp add: im_find_upd)
    have "im_revert m r i = Some ?m'" using e False by (simp add: im_revert_def)
    moreover have "im_inv ?m'"
      using im_invD [OF assms(3)] assms(4) [OF False] d False e(1) unfolding im_inv_def f
      by (auto simp: insert_absorb entry_ok_def)
    moreover have "im_pending ?m' = im_pending m" using e by (auto simp: im_pending_def)
    ultimately show ?thesis using False f by auto
  qed
qed

subsection \<open>Restoring from labels\<close>

definition live_labels :: "external_id list \<Rightarrow> nat \<Rightarrow> tombstone_set \<Rightarrow> (external_id \<times> nat) list" where
  "live_labels xs i deleted = filter (\<lambda>(x, j). \<not> tb_test deleted j) (zip xs [i..<i + length xs])"

lemma live_labels_simps [simp]:
  "live_labels [] i d = []"
  "live_labels (x # xs) i d = (if tb_test d i then live_labels xs (Suc i) d else (x, i) # live_labels xs (Suc i) d)"
  by (simp_all add: live_labels_def upt_conv_Cons del: upt_Suc)

lemma restore_loop_Inr:
  "restore_loop xs i d m n = Inr (m', n') \<longleftrightarrow>
     distinct (map fst (live_labels xs i d)) \<and>
     (\<forall>x\<in>fst ` set (live_labels xs i d). x \<noteq> kInvalidExternalId \<and> m x = None) \<and>
     n' = n + length (live_labels xs i d) \<and>
     m' = (\<lambda>x. case map_of (live_labels xs i d) x of
                 Some j \<Rightarrow> Some \<lparr>en_current = j, en_pending = False\<rparr> | None \<Rightarrow> m x)"
proof (induction xs i d m n rule: restore_loop.induct)
  case (2 x xs i d m n)
  show ?case
  proof (cases "tb_test d i \<or> x = kInvalidExternalId \<or> m x \<noteq> None")
    case True
    then show ?thesis using 2 by (auto split: option.splits)
  next
    case False
    then have "m x = None" by simp
    let ?L = "live_labels xs (Suc i) d"
    let ?e = "\<lambda>j. \<lparr>en_current = j, en_pending = False\<rparr>"
    let ?m = "m(x \<mapsto> ?e i)"
    have fresh: "(\<forall>y\<in>fst ` set ?L. y \<noteq> kInvalidExternalId \<and> ?m y = None) \<longleftrightarrow>
        x \<notin> fst ` set ?L \<and> (\<forall>y\<in>fst ` set ?L. y \<noteq> kInvalidExternalId \<and> m y = None)"
      by (metis fun_upd_apply option.distinct(1))
    have fn: "(\<lambda>y. case map_of ?L y of Some j \<Rightarrow> Some (?e j) | None \<Rightarrow> ?m y) =
        (\<lambda>y. case map_of ((x, i) # ?L) y of Some j \<Rightarrow> Some (?e j) | None \<Rightarrow> m y)" if "x \<notin> fst ` set ?L"
    proof -
      have "map_of ?L x = None" using that by (simp add: map_of_eq_None_iff)
      then show ?thesis by (auto simp: fun_eq_iff split: option.splits)
    qed
    have step: "restore_loop (x # xs) i d m n = restore_loop xs (Suc i) d ?m (Suc n)" using False by simp
    have ll: "live_labels (x # xs) i d = (x, i) # ?L" using False by simp
    have nt: "\<not> tb_test d i" "x \<noteq> kInvalidExternalId" using False by simp_all
    note IH = "2.IH"(2) [OF nt \<open>m x = None\<close>, unfolded fresh]
    show ?thesis
    proof (cases "x \<in> fst ` set ?L")
      case True
      then have "\<not> distinct (map fst ((x, i) # ?L))" by simp
      with True show ?thesis unfolding step ll IH by blast
    next
      case notin: False
      have q: "(\<forall>y\<in>fst ` set ((x, i) # ?L). y \<noteq> kInvalidExternalId \<and> m y = None) \<longleftrightarrow>
          (\<forall>y\<in>fst ` set ?L. y \<noteq> kInvalidExternalId \<and> m y = None)" using False by simp
      have dd: "distinct (map fst ((x, i) # ?L)) \<longleftrightarrow> distinct (map fst ?L)" using notin by simp
      have nn: "n + length ((x, i) # ?L) = Suc n + length ?L" by simp
      show ?thesis unfolding step ll IH fn [OF notin] q dd nn using notin by (simp only: simp_thms)
    qed
  qed
qed auto

lemma live_labels_nth:
  "(x, j) \<in> set (live_labels xs 0 d) \<longleftrightarrow> j < length xs \<and> xs ! j = x \<and> \<not> tb_test d j"
  by (auto simp: live_labels_def in_set_zip)

text \<open>A restored map shows exactly the live rows under their labels.\<close>

lemma im_restore_ok:
  assumes "im_restore labels d = Inr m" "length labels \<le> kInvalidInternalId"
  shows "im_inv m" "im_labels m = labels" "im_pending m = {}"
    "im_find m x = Some i \<longleftrightarrow> i < length labels \<and> labels ! i = x \<and> \<not> tb_test d i"
proof -
  let ?L = "live_labels labels 0 d"
  obtain m1 n1 where r: "restore_loop labels 0 d Map.empty 0 = Inr (m1, n1)"
    and m: "m = \<lparr>im_map = m1, im_labels = labels, im_live = n1\<rparr>"
    using assms(1) by (auto simp: im_restore_def result_bind_Inr)
  note r = r [unfolded restore_loop_Inr]
  have map1: "im_map m x = Some e \<longleftrightarrow> (x, en_current e) \<in> set ?L \<and> \<not> en_pending e" for x e
  proof -
    have "im_map m x = Some e \<longleftrightarrow> map_of ?L x = Some (en_current e) \<and> \<not> en_pending e"
      using r by (cases e, cases "map_of ?L x") (simp_all add: m del: map_of_eq_Some_iff, blast?)
    then show ?thesis using r by (simp add: map_of_eq_Some_iff)
  qed
  have f: "im_find m x = Some i \<longleftrightarrow> (x, i) \<in> set ?L" for x i
  proof -
    have "(x, i) \<in> set ?L \<Longrightarrow> i \<noteq> kInvalidInternalId" using assms(2) by (auto simp: live_labels_nth)
    then show ?thesis unfolding im_find_Some map1
      by (auto intro!: exI [of _ "\<lparr>en_current = i, en_pending = False\<rparr>"])
  qed
  then show "im_find m x = Some i \<longleftrightarrow> i < length labels \<and> labels ! i = x \<and> \<not> tb_test d i"
    by (simp add: live_labels_nth)
  show "im_labels m = labels" "im_pending m = {}" using map1 by (auto simp: m im_pending_def)
  have dom: "dom (im_find m) = fst ` set ?L" using f by (force simp: dom_def)
  have "dom (im_map m) = fst ` set ?L" using r by (auto simp: m dom_def map_of_eq_None_iff split: option.splits)
  then have "finite (dom (im_map m))" by simp
  moreover have "im_live m = card (dom (im_find m))"
    unfolding dom using r distinct_card [of "map fst ?L"] by (simp add: m)
  moreover have "im_map m kInvalidExternalId = None" using r by (auto simp: m map_of_eq_None_iff split: option.splits)
  moreover have "entry_ok labels x e" if "im_map m x = Some e" for x e
    using that assms(2) unfolding map1 by (auto simp: live_labels_nth entry_ok_def)
  ultimately show "im_inv m" using assms(2) by (simp add: im_inv_def) (simp add: m)
qed

lemma im_restore_total:
  "(\<exists>m. im_restore labels d = Inr m) \<longleftrightarrow>
     distinct (map fst (live_labels labels 0 d)) \<and> kInvalidExternalId \<notin> fst ` set (live_labels labels 0 d)"
proof -
  have "(\<exists>m. im_restore labels d = Inr m) \<longleftrightarrow> (\<exists>m n. restore_loop labels 0 d Map.empty 0 = Inr (m, n))"
    by (auto simp: im_restore_def result_bind_Inr)
  also have "\<dots> \<longleftrightarrow> distinct (map fst (live_labels labels 0 d)) \<and> kInvalidExternalId \<notin> fst ` set (live_labels labels 0 d)"
    unfolding restore_loop_Inr by (intro iffI; (elim exE conjE)?; (intro exI conjI)?; (rule refl | blast))
  finally show ?thesis .
qed

subsection \<open>Properties\<close>

text \<open>An insert protocol leaves no trace when it is rolled back: after a successful
  \<open>reserve\<close>, lookups are unchanged, \<open>rollback\<close> gives back exactly the previous map, and
  \<open>commit\<close> of the next row publishes the mapping for this id only, returning the row it replaced.\<close>

lemma id_map_two_step_insert:
  assumes "im_inv m" "im_reserve m x upsert = (Inr r, m')" "length (im_labels m) < kInvalidInternalId"
  shows "im_find m' = im_find m \<and> im_rollback m' r = Some m \<and>
    (\<exists>m''. im_commit m' r (length (im_labels m)) = Some (rv_previous r, m'') \<and> im_inv m'' \<and>
      im_find m'' = (im_find m)(x \<mapsto> length (im_labels m)) \<and> im_labels m'' = im_labels m @ [x] \<and>
      im_find m x = (if rv_previous r = kInvalidInternalId then None else Some (rv_previous r)))"
proof -
  obtain m'' where c: "im_commit m' r (length (im_labels m)) = Some (rv_previous r, m'')"
    using im_commit_reserve [OF assms(2) refl] by blast
  note k = im_commit_ok [OF c im_reserve_inv [OF assms(2,1)] assms(3)]
  note r = im_reserve_ok(2,3,6) [OF assms(2)]
  have "im_find m'' = (im_find m)(x \<mapsto> length (im_labels m))" using k(2) unfolding r .
  moreover have "im_labels m'' = im_labels m @ [x]" using k(3) unfolding r .
  ultimately show ?thesis
    using c k(1) r(2) im_rollback_reserve [OF assms(2,1)] im_reserve_previous [OF assms(2,1)] by blast
qed

end
