(* ===== verification/VF_Kernels.thy ===== *)
theory VF_Kernels
  imports VF_Float VF_Types
begin

text \<open>
  Distance kernels and what is built on them: \<^verbatim>\<open>src/simd/kernels.hpp\<close> (the table of function
  pointers), \<^verbatim>\<open>src/simd/kernels_scalar.cpp\<close>, \<^verbatim>\<open>src/simd/metric_distance.hpp\<close>,
  \<^verbatim>\<open>src/core/validation.cpp\<close>, \<^verbatim>\<open>src/core/vector_ops.cpp\<close> and \<^verbatim>\<open>src/index/query_distance.hpp\<close>.
  A pointer to floats is the list of the floats from that address on; a kernel reads the
  first \<open>dim\<close> of them.
\<close>

datatype simd_level = Scalar | Avx2

record kernel_table =
  kt_dot :: "f32 list \<Rightarrow> f32 list \<Rightarrow> nat \<Rightarrow> f32"
  kt_l2sq :: "f32 list \<Rightarrow> f32 list \<Rightarrow> nat \<Rightarrow> f32"
  kt_norm2 :: "f32 list \<Rightarrow> nat \<Rightarrow> f32"
  kt_dot_1_to_n :: "f32 list \<Rightarrow> f32 list \<Rightarrow> nat \<Rightarrow> nat \<Rightarrow> f32 list"
  kt_l2sq_1_to_n :: "f32 list \<Rightarrow> f32 list \<Rightarrow> nat \<Rightarrow> nat \<Rightarrow> f32 list"
  kt_level :: simd_level
  kt_name :: string

subsection \<open>Scalar kernels\<close>

definition scalar_dot :: "f32 list \<Rightarrow> f32 list \<Rightarrow> nat \<Rightarrow> f32" where
  "scalar_dot a b dim =
     fold (\<lambda>i sum. f32_add sum (f32_mul (a ! i) (b ! i))) [0..<dim] f32_zero"

definition scalar_l2sq :: "f32 list \<Rightarrow> f32 list \<Rightarrow> nat \<Rightarrow> f32" where
  "scalar_l2sq a b dim =
     fold (\<lambda>i sum. let diff = f32_sub (a ! i) (b ! i) in f32_add sum (f32_mul diff diff))
       [0..<dim] f32_zero"

definition scalar_norm2 :: "f32 list \<Rightarrow> nat \<Rightarrow> f32" where
  "scalar_norm2 a dim =
     fold (\<lambda>i sum. f32_add sum (f32_mul (a ! i) (a ! i))) [0..<dim] f32_zero"

definition scalar_dot_1_to_n :: "f32 list \<Rightarrow> f32 list \<Rightarrow> nat \<Rightarrow> nat \<Rightarrow> f32 list" where
  "scalar_dot_1_to_n query rows n dim =
     map (\<lambda>r. scalar_dot query (drop (r * dim) rows) dim) [0..<n]"

definition scalar_l2sq_1_to_n :: "f32 list \<Rightarrow> f32 list \<Rightarrow> nat \<Rightarrow> nat \<Rightarrow> f32 list" where
  "scalar_l2sq_1_to_n query rows n dim =
     map (\<lambda>r. scalar_l2sq query (drop (r * dim) rows) dim) [0..<n]"

definition scalar_kernel_table :: kernel_table where
  "scalar_kernel_table = \<lparr>kt_dot = scalar_dot, kt_l2sq = scalar_l2sq, kt_norm2 = scalar_norm2,
     kt_dot_1_to_n = scalar_dot_1_to_n, kt_l2sq_1_to_n = scalar_l2sq_1_to_n,
     kt_level = Scalar, kt_name = ''scalar''\<rparr>"

subsection \<open>Validation of components\<close>

definition kMaxAbsComponent :: f32 where "kMaxAbsComponent = 0x5A0E1BCA"

definition component_ok :: "f32 \<Rightarrow> bool" where
  "component_ok x \<longleftrightarrow> f32_le (f32_abs x) kMaxAbsComponent"

fun find_invalid_from :: "f32 list \<Rightarrow> nat \<Rightarrow> nat" where
  "find_invalid_from [] i = i"
| "find_invalid_from (x # xs) i = (if \<not> component_ok x then i else find_invalid_from xs (Suc i))"

definition find_invalid_component :: "f32 list \<Rightarrow> nat" where
  "find_invalid_component vs = find_invalid_from vs 0"

text \<open>\<^verbatim>\<open>std::to_string(float)\<close> prints the value with six decimals, correctly rounded.\<close>

definition show_f32 :: "f32 \<Rightarrow> string" where
  "show_f32 x =
     (let t = rne_div (f32_units x * 10 ^ 6) (2 ^ 149); f = show_nat (t mod 10 ^ 6)
      in (if f32_sign x then ''-'' else []) @ show_nat (t div 10 ^ 6) @ ''.'' @
         replicate (6 - length f) CHR ''0'' @ f)"

definition invalid_component_status :: "f32 list \<Rightarrow> nat \<Rightarrow> nat \<Rightarrow> status" where
  "invalid_component_status vs index row_dim =
     (let x = vs ! index;
          place = (if row_dim \<noteq> 0
                    then ''row '' @ show_nat (index div row_dim) @ '' component '' @
                         show_nat (index mod row_dim)
                    else ''component '' @ show_nat index)
      in if f32_is_nan x then invalid_argument (place @ '' is NaN'')
         else if f32_is_inf x then invalid_argument (place @ '' is infinite'')
         else invalid_argument (place @ '' = '' @ show_f32 x @
                '' exceeds the supported magnitude 1e16''))"

definition validate_vector :: "f32 list \<Rightarrow> nat \<Rightarrow> status" where
  "validate_vector v expected_dim =
     (if length v \<noteq> expected_dim
      then dimension_mismatch (''expected dimension '' @ show_nat expected_dim @ '', got '' @
             show_nat (length v))
      else (let bad = find_invalid_component v
            in if bad \<noteq> length v then invalid_component_status v bad 0 else ok_status))"

text \<open>\<^verbatim>\<open>checked_mul(std::size_t)\<close>: the product unless it exceeds 64 bits.\<close>

definition checked_mul_size :: "nat \<Rightarrow> nat \<Rightarrow> nat option" where
  "checked_mul_size a b = (if a \<noteq> 0 \<and> b > (2 ^ 64 - 1) div a then None else Some (a * b))"

definition validate_batch :: "f32 list \<Rightarrow> nat \<Rightarrow> nat \<Rightarrow> status" where
  "validate_batch values rows dim =
     (if checked_mul_size rows dim \<noteq> Some (length values)
      then dimension_mismatch (''expected '' @ show_nat rows @ '' rows of dimension '' @
             show_nat dim @ '', got '' @ show_nat (length values) @ '' values'')
      else (let bad = find_invalid_component values
            in if bad \<noteq> length values then invalid_component_status values bad dim
               else ok_status))"

subsection \<open>Normalisation\<close>

text \<open>
  \<open>inverse_norm\<close> computes \<^verbatim>\<open>1.0 / std::sqrt(double)\<close> and rounds to float. A positive finite
  double is its value in units of \<open>2\<^sup>-\<^sup>1\<^sup>0\<^sup>7\<^sup>4\<close>; square root and division are correctly rounded to
  53 significant bits.
\<close>

fun isqrt :: "nat \<Rightarrow> nat" where
  "isqrt n = (if n = 0 then 0 else
     (let r = 2 * isqrt (n div 4) in if (r + 1) * (r + 1) \<le> n then r + 1 else r))"

declare isqrt.simps [simp del]

definition round_sqrt :: "nat \<Rightarrow> nat \<Rightarrow> nat" where
  "round_sqrt p n =
     (let s = isqrt n; k = bitlen s - p; q = s div 2 ^ k; h = (2 * q + 1) * 2 ^ k
      in (if 4 * n < h * h \<or> (4 * n = h * h \<and> even q) then q else Suc q) * 2 ^ k)"

definition f64_of_f32 :: "f32 \<Rightarrow> nat" where
  "f64_of_f32 x = f32_units x * 2 ^ 925"

definition f64_sqrt :: "nat \<Rightarrow> nat" where
  "f64_sqrt u = round_sqrt 53 (u * 2 ^ 1074)"

definition f64_recip :: "nat \<Rightarrow> nat" where
  "f64_recip u = round_sig 53 (2 ^ 2148) u"

definition f32_of_f64 :: "nat \<Rightarrow> f32" where
  "f32_of_f64 u = f32_round False u (2 ^ 925)"

definition inverse_norm :: "f32 list \<Rightarrow> kernel_table \<Rightarrow> f32 result" where
  "inverse_norm v table =
     (if v = [] then Inl (invalid_argument ''cannot normalize an empty vector'')
      else (let norm_sq = kt_norm2 table v (length v)
            in if \<not> f32_lt f32_zero norm_sq \<or> \<not> f32_is_finite norm_sq
               then Inl (invalid_argument ''cannot normalize a vector with zero or non-finite norm'')
               else (let scale = f32_of_f64 (f64_recip (f64_sqrt (f64_of_f32 norm_sq)))
                     in if \<not> f32_is_finite scale
                        then Inl (invalid_argument ''vector norm is too small to normalize'')
                        else Inr scale)))"

definition normalize_inplace :: "f32 list \<Rightarrow> kernel_table \<Rightarrow> status \<times> f32 list" where
  "normalize_inplace v table =
     (case inverse_norm v table of
        Inl s \<Rightarrow> (s, v)
      | Inr scale \<Rightarrow> (ok_status, map (\<lambda>x. f32_mul x scale) v))"

subsection \<open>Distances\<close>

fun metric_distance :: "kernel_table \<Rightarrow> metric \<Rightarrow> f32 list \<Rightarrow> f32 list \<Rightarrow> nat \<Rightarrow> f32" where
  "metric_distance t L2 a b dim = kt_l2sq t a b dim"
| "metric_distance t InnerProduct a b dim = f32_neg (kt_dot t a b dim)"
| "metric_distance t Cosine a b dim = f32_sub f32_one (kt_dot t a b dim)"
| "metric_distance t (BadMetric _) a b dim = kt_l2sq t a b dim"

record query_view =
  qv_data :: "f32 list"
  qv_inv_norm :: f32

datatype score_mode = ModeL2 | NegDot | NormalizedCos | NormalizedL2 | NormalizedIp

definition score_mode_of :: "metric \<Rightarrow> bool \<Rightarrow> score_mode" where
  "score_mode_of m normalized =
     (if \<not> normalized then (if m = L2 then ModeL2 else NegDot)
      else (case m of L2 \<Rightarrow> NormalizedL2 | InnerProduct \<Rightarrow> NormalizedIp
                    | Cosine \<Rightarrow> NormalizedCos | BadMetric _ \<Rightarrow> NormalizedCos))"

fun query_distance :: "kernel_table \<Rightarrow> score_mode \<Rightarrow> query_view \<Rightarrow> f32 list \<Rightarrow> nat \<Rightarrow> f32" where
  "query_distance t ModeL2 q row dim = kt_l2sq t (qv_data q) row dim"
| "query_distance t NegDot q row dim = f32_neg (kt_dot t (qv_data q) row dim)"
| "query_distance t NormalizedCos q row dim =
     f32_max f32_zero (f32_sub f32_one (f32_mul (kt_dot t (qv_data q) row dim) (qv_inv_norm q)))"
| "query_distance t NormalizedL2 q row dim =
     f32_max f32_zero (f32_sub f32_two
       (f32_mul (f32_mul f32_two (kt_dot t (qv_data q) row dim)) (qv_inv_norm q)))"
| "query_distance t NormalizedIp q row dim =
     f32_neg (f32_mul (kt_dot t (qv_data q) row dim) (qv_inv_norm q))"

subsection \<open>Validation accepts exactly the bounded components\<close>

lemma kMaxAbsComponent_facts:
  "\<not> f32_is_nan kMaxAbsComponent" "f32_val kMaxAbsComponent = 10000000272564224 * 2 ^ 149"
  by (simp_all add: kMaxAbsComponent_def f32_is_nan_def f32_val_def f32_units_def units_of_mag_def
      f32_mag_def f32_sign_def)

lemma units_of_mag_inf: "f32_is_inf x \<Longrightarrow> f32_units x = 2 ^ 277"
  by (simp add: f32_is_inf_def f32_units_def units_of_mag_def)

lemma component_ok_iff:
  "component_ok x \<longleftrightarrow> f32_is_finite x \<and> f32_units x \<le> 10000000272564224 * 2 ^ 149"
proof -
  have "component_ok x \<longleftrightarrow> \<not> f32_is_nan x \<and> int (f32_units x) \<le> 10000000272564224 * 2 ^ 149"
    by (simp add: component_ok_def f32_le_def kMaxAbsComponent_facts f32_abs_f32_val
        del: of_nat_le_numeral_iff)
  also have "\<dots> \<longleftrightarrow> \<not> f32_is_nan x \<and> f32_units x \<le> 10000000272564224 * 2 ^ 149" by simp
  finally show ?thesis using units_of_mag_inf [of x] by (auto simp: f32_finite_not)
qed

lemma find_invalid_from_spec:
  "find_invalid_from vs i = i + length (takeWhile component_ok vs)"
  by (induction vs arbitrary: i) auto

lemma find_invalid_component_spec:
  "find_invalid_component vs = length (takeWhile component_ok vs)"
  by (simp add: find_invalid_component_def find_invalid_from_spec)

lemma find_invalid_component_all:
  "find_invalid_component vs = length vs \<longleftrightarrow> (\<forall>x \<in> set vs. component_ok x)"
  by (induction vs) (auto simp: find_invalid_component_spec)

lemma invalid_component_status_not_ok [simp]: "\<not> status_ok (invalid_component_status vs i d)"
  by (simp add: invalid_component_status_def Let_def)

lemma validate_vector_ok:
  "status_ok (validate_vector v dim) \<longleftrightarrow> length v = dim \<and> (\<forall>x \<in> set v. component_ok x)"
  by (simp add: validate_vector_def Let_def flip: find_invalid_component_all)

lemma checked_mul_size_Some:
  "checked_mul_size a b = Some c \<longleftrightarrow> c = a * b \<and> a * b < 2 ^ 64"
proof (cases "a = 0")
  case False
  have "b > (2 ^ 64 - 1) div a \<longleftrightarrow> 2 ^ 64 - 1 < b * a"
    using False by (simp add: div_less_iff_less_mult)
  then show ?thesis using False by (auto simp: checked_mul_size_def mult.commute)
qed (auto simp: checked_mul_size_def)

lemma validate_batch_ok:
  "status_ok (validate_batch vs rows dim) \<longleftrightarrow>
     length vs = rows * dim \<and> rows * dim < 2 ^ 64 \<and> (\<forall>x \<in> set vs. component_ok x)"
  by (auto simp: validate_batch_def Let_def checked_mul_size_Some
      simp flip: find_invalid_component_all)


subsection \<open>Validated input never overflows the scalar kernels\<close>

text \<open>
  One accumulation step keeps a bound of the form \<open>i * 2\<^sup>e\<close> units while \<open>i\<close> is at most \<open>2\<^sup>2\<^sup>4\<close>.
\<close>

lemma accumulate_bound:
  assumes tb: "\<And>i. i < dim \<Longrightarrow> f32_is_finite (t i) \<and> f32_units (t i) \<le> 2 ^ e"
    and dim: "dim \<le> 65536" and e: "e \<le> 260"
  shows "n \<le> dim \<Longrightarrow> f32_is_finite (fold (\<lambda>i sum. f32_add sum (t i)) [0..<n] f32_zero) \<and>
    f32_units (fold (\<lambda>i sum. f32_add sum (t i)) [0..<n] f32_zero) \<le> n * 2 ^ e"
proof (induction n)
  case 0
  have "f32_units f32_zero = 0"
    by (simp add: f32_units_def units_of_mag_def f32_mag_def f32_zero_def)
  then show ?case by simp
next
  case (Suc n)
  let ?s = "fold (\<lambda>i sum. f32_add sum (t i)) [0..<n] f32_zero"
  have IH: "f32_is_finite ?s" "f32_units ?s \<le> n * 2 ^ e" using Suc by simp_all
  have T: "f32_is_finite (t n)" "f32_units (t n) \<le> 2 ^ e" using tb Suc.prems by simp_all
  have "Suc n \<le> 2 ^ 16" using Suc.prems dim by simp
  then have "representable 24 (Suc n * 2 ^ e)"
    by (intro representableI [OF refl]) simp
  moreover have "Suc n * 2 ^ e < 2 ^ 277"
  proof -
    have "Suc n * 2 ^ e \<le> 2 ^ 16 * 2 ^ 260"
      using \<open>Suc n \<le> 2 ^ 16\<close> e by (intro mult_mono power_increasing) simp_all
    also have "\<dots> < (2 :: nat) ^ 277" by simp
    finally show ?thesis .
  qed
  moreover have "f32_units ?s + f32_units (t n) \<le> Suc n * 2 ^ e" using IH T by simp
  ultimately show ?case using f32_add_bound [OF IH(1) T(1)] by simp
qed

lemma component_product_bound:
  assumes "component_ok x" "component_ok y"
  shows "f32_is_finite (f32_mul x y) \<and> f32_units (f32_mul x y) \<le> 2 ^ 256"
proof -
  have "f32_units x * f32_units y \<le> (10000000272564224 * 2 ^ 149) * (10000000272564224 * 2 ^ 149)"
    using assms by (intro mult_mono) (simp_all only: component_ok_iff)
  also have "\<dots> \<le> 2 ^ 256 * 2 ^ 149" by simp
  finally show ?thesis
    using assms by (intro f32_mul_bound representableI [of _ 1 256]) (simp_all add: component_ok_iff)
qed

lemma component_diff_bound:
  assumes "component_ok x" "component_ok y"
  shows "f32_is_finite (f32_sub x y) \<and> f32_units (f32_sub x y) \<le> 2 ^ 204"
proof -
  have "f32_units x + f32_units y \<le> 10000000272564224 * 2 ^ 149 + 10000000272564224 * 2 ^ 149"
    using assms by (intro add_mono) (simp_all only: component_ok_iff)
  also have "\<dots> \<le> 2 ^ 204" by simp
  finally show ?thesis
    using assms by (intro f32_sub_bound representableI [of _ 1 204]) (simp_all add: component_ok_iff)
qed

lemma component_diff_square_bound:
  assumes "component_ok x" "component_ok y"
  shows "f32_is_finite (f32_mul (f32_sub x y) (f32_sub x y)) \<and>
    f32_units (f32_mul (f32_sub x y) (f32_sub x y)) \<le> 2 ^ 259"
proof -
  note d = component_diff_bound [OF assms]
  then have "f32_units (f32_sub x y) * f32_units (f32_sub x y) \<le> 2 ^ 204 * 2 ^ 204"
    by (intro mult_mono) simp_all
  also have "\<dots> \<le> 2 ^ 259 * 2 ^ 149" by simp
  finally show ?thesis
    using d by (intro f32_mul_bound representableI [of _ 1 259]) simp_all
qed

lemma scalar_dot_finite:
  assumes "\<And>i. i < dim \<Longrightarrow> component_ok (a ! i)" "\<And>i. i < dim \<Longrightarrow> component_ok (b ! i)"
    and "dim \<le> 65536"
  shows "f32_is_finite (scalar_dot a b dim) \<and> f32_units (scalar_dot a b dim) \<le> dim * 2 ^ 256"
  unfolding scalar_dot_def
  by (rule accumulate_bound [OF component_product_bound assms(3)]) (use assms in auto)

lemma scalar_l2sq_finite:
  assumes "\<And>i. i < dim \<Longrightarrow> component_ok (a ! i)" "\<And>i. i < dim \<Longrightarrow> component_ok (b ! i)"
    and "dim \<le> 65536"
  shows "f32_is_finite (scalar_l2sq a b dim) \<and> f32_units (scalar_l2sq a b dim) \<le> dim * 2 ^ 259"
  unfolding scalar_l2sq_def Let_def
  by (rule accumulate_bound [OF component_diff_square_bound assms(3)]) (use assms in auto)

lemma scalar_norm2_eq_dot: "scalar_norm2 a dim = scalar_dot a a dim"
  by (simp add: scalar_norm2_def scalar_dot_def)

subsection \<open>Symmetry of the kernels\<close>

lemma scalar_dot_commute: "scalar_dot a b dim = scalar_dot b a dim"
  by (simp add: scalar_dot_def f32_mul_commute)

lemma scalar_l2sq_commute: "scalar_l2sq a b dim = scalar_l2sq b a dim"
proof -
  have "f32_mul (f32_sub x y) (f32_sub x y) = f32_mul (f32_sub y x) (f32_sub y x)" for x y
    by (rule f32_mul_self) (rule f32_sub_mag_commute)
  then show ?thesis by (simp add: scalar_l2sq_def Let_def)
qed

text \<open>Kernels read no further than \<open>dim\<close> floats.\<close>

lemma scalar_dot_cong:
  "(\<And>i. i < dim \<Longrightarrow> a ! i = a' ! i \<and> b ! i = b' ! i) \<Longrightarrow> scalar_dot a b dim = scalar_dot a' b' dim"
  by (auto simp: scalar_dot_def intro!: fold_cong)

lemma scalar_l2sq_cong:
  "(\<And>i. i < dim \<Longrightarrow> a ! i = a' ! i \<and> b ! i = b' ! i) \<Longrightarrow> scalar_l2sq a b dim = scalar_l2sq a' b' dim"
  by (auto simp: scalar_l2sq_def intro!: fold_cong)


subsection \<open>The laws every kernel table promises\<close>

text \<open>
  What the index code relies on (\<^verbatim>\<open>kernels.hpp\<close>, \<^verbatim>\<open>query_distance.hpp\<close>): the pair kernels are
  symmetric, the batch kernels return the per-pair results, a kernel reads only the first
  \<open>dim\<close> floats, and validated input gives a finite result.
\<close>

definition components_ok :: "f32 list \<Rightarrow> nat \<Rightarrow> bool" where
  "components_ok v dim \<longleftrightarrow> dim \<le> 65536 \<and> (\<forall>i < dim. component_ok (v ! i))"

locale kernel_laws =
  fixes table :: kernel_table
  assumes dot_sym: "kt_dot table a b dim = kt_dot table b a dim"
    and l2sq_sym: "kt_l2sq table a b dim = kt_l2sq table b a dim"
    and norm2_dot: "kt_norm2 table a dim = kt_dot table a a dim"
    and dot_batch: "kt_dot_1_to_n table q rows n dim =
      map (\<lambda>r. kt_dot table q (drop (r * dim) rows) dim) [0..<n]"
    and l2sq_batch: "kt_l2sq_1_to_n table q rows n dim =
      map (\<lambda>r. kt_l2sq table q (drop (r * dim) rows) dim) [0..<n]"
    and dot_local: "(\<And>i. i < dim \<Longrightarrow> b ! i = b' ! i) \<Longrightarrow> kt_dot table a b dim = kt_dot table a b' dim"
    and l2sq_local: "(\<And>i. i < dim \<Longrightarrow> b ! i = b' ! i) \<Longrightarrow> kt_l2sq table a b dim = kt_l2sq table a b' dim"
    and dot_finite: "components_ok a dim \<Longrightarrow> components_ok b dim \<Longrightarrow> f32_is_finite (kt_dot table a b dim)"
    and l2sq_finite: "components_ok a dim \<Longrightarrow> components_ok b dim \<Longrightarrow> f32_is_finite (kt_l2sq table a b dim)"
begin

lemma query_distance_sym:
  "query_distance table mode \<lparr>qv_data = a, qv_inv_norm = f32_one\<rparr> b dim =
   query_distance table mode \<lparr>qv_data = b, qv_inv_norm = f32_one\<rparr> a dim"
  by (cases mode) (simp_all add: dot_sym [of a b] l2sq_sym [of a b])

lemma query_distance_not_nan:
  assumes "components_ok (qv_data q) dim" "components_ok row dim" "f32_is_finite (qv_inv_norm q)"
  shows "\<not> f32_is_nan (query_distance table mode q row dim)"
proof -
  have d: "f32_is_finite (kt_dot table (qv_data q) row dim)" using assms dot_finite by simp
  have l: "f32_is_finite (kt_l2sq table (qv_data q) row dim)" using assms l2sq_finite by simp
  have "\<not> f32_is_nan f32_zero" using f32_constants_finite(1) by (metis f32_finite_not)
  then show ?thesis
    using d l assms(3) by (cases mode) (simp_all add: f32_max_not_nan f32_mul_not_nan f32_finite_not)
qed

lemma query_distance_local:
  assumes "\<And>i. i < dim \<Longrightarrow> row ! i = row' ! i"
  shows "query_distance table mode q row dim = query_distance table mode q row' dim"
  using dot_local [OF assms] l2sq_local [OF assms] by (cases mode) simp_all

end

interpretation scalar: kernel_laws scalar_kernel_table
proof
  fix a b b' q rows dim n
  show "kt_dot scalar_kernel_table a b dim = kt_dot scalar_kernel_table b a dim"
    "kt_l2sq scalar_kernel_table a b dim = kt_l2sq scalar_kernel_table b a dim"
    by (simp_all add: scalar_kernel_table_def scalar_dot_commute [of a] scalar_l2sq_commute [of a])
  show "kt_norm2 scalar_kernel_table a dim = kt_dot scalar_kernel_table a a dim"
    by (simp add: scalar_kernel_table_def scalar_norm2_eq_dot)
  show "kt_dot_1_to_n scalar_kernel_table q rows n dim =
      map (\<lambda>r. kt_dot scalar_kernel_table q (drop (r * dim) rows) dim) [0..<n]"
    "kt_l2sq_1_to_n scalar_kernel_table q rows n dim =
      map (\<lambda>r. kt_l2sq scalar_kernel_table q (drop (r * dim) rows) dim) [0..<n]"
    by (simp_all add: scalar_kernel_table_def scalar_dot_1_to_n_def scalar_l2sq_1_to_n_def)
  show "kt_dot scalar_kernel_table a b dim = kt_dot scalar_kernel_table a b' dim"
    "kt_l2sq scalar_kernel_table a b dim = kt_l2sq scalar_kernel_table a b' dim"
    if "\<And>i. i < dim \<Longrightarrow> b ! i = b' ! i"
    using that scalar_dot_cong [of dim a a b b'] scalar_l2sq_cong [of dim a a b b']
    by (simp_all add: scalar_kernel_table_def)
  show "f32_is_finite (kt_dot scalar_kernel_table a b dim)"
    "f32_is_finite (kt_l2sq scalar_kernel_table a b dim)"
    if "components_ok a dim" "components_ok b dim"
    using that scalar_dot_finite [of dim a b] scalar_l2sq_finite [of dim a b]
    by (simp_all add: scalar_kernel_table_def components_ok_def)
qed

subsection \<open>The inverse norm is always finite\<close>

lemma isqrt_bounds: "isqrt n * isqrt n \<le> n \<and> n < (isqrt n + 1) * (isqrt n + 1)"
proof (induction n rule: isqrt.induct)
  case (1 n)
  show ?case
  proof (cases "n = 0")
    case False
    define s where "s = isqrt (n div 4)"
    have IH: "s * s \<le> n div 4" "n div 4 < (s + 1) * (s + 1)"
      using 1 False by (simp_all add: s_def)
    then have lo: "(2 * s) * (2 * s) \<le> n" by (simp add: algebra_simps)
    from IH(2) have "n < 4 * ((s + 1) * (s + 1))" by linarith
    then have hi: "n < (2 * s + 2) * (2 * s + 2)" by (simp add: algebra_simps)
    show ?thesis
      using lo hi False by (auto simp: isqrt.simps [of n] Let_def simp flip: s_def)
  qed (simp add: isqrt.simps)
qed

lemma isqrt_lower:
  assumes "v * v \<le> n"
  shows "v \<le> isqrt n"
proof (rule ccontr)
  assume "\<not> v \<le> isqrt n"
  then have "(isqrt n + 1) * (isqrt n + 1) \<le> v * v" by (intro mult_mono) simp_all
  with isqrt_bounds [of n] assms show False by linarith
qed

lemma round_sqrt_lower:
  assumes "2 ^ j \<le> isqrt n" "0 < p"
  shows "2 ^ j \<le> round_sqrt p n"
proof -
  let ?s = "isqrt n" and ?k = "bitlen (isqrt n) - p"
  have "2 ^ j \<le> ?s div 2 ^ ?k * 2 ^ ?k"
  proof (cases "?k = 0")
    case False
    have "Suc j \<le> bitlen ?s" using assms(1) bitlen_le_iff [of ?s j] by simp
    moreover from False have b: "bitlen ?s - 1 = (p - 1) + ?k" "0 < bitlen ?s"
      using assms(2) by simp_all
    ultimately have "j \<le> (p - 1) + ?k" by linarith
    then have j: "(2::nat) ^ j \<le> 2 ^ (p - 1) * 2 ^ ?k"
      by (simp only: power_add [symmetric]) (rule power_increasing, simp_all)
    have "2 ^ (p - 1) * 2 ^ ?k \<le> ?s"
      using bitlen_pos_lower [OF b(2)] by (simp only: b(1) power_add)
    then have "2 ^ (p - 1) \<le> ?s div 2 ^ ?k" by (simp add: less_eq_div_iff_mult_less_eq)
    then have "2 ^ (p - 1) * 2 ^ ?k \<le> ?s div 2 ^ ?k * 2 ^ ?k" by (rule mult_le_mono1)
    with j show ?thesis by (rule le_trans)
  qed (use assms in simp)
  also have "\<dots> \<le> round_sqrt p n" by (simp add: round_sqrt_def Let_def)
  finally show ?thesis .
qed

lemma f32_pos_units: "f32_lt f32_zero x \<Longrightarrow> 1 \<le> f32_units x"
  by (auto simp: f32_lt_def f32_val_def f32_zero_def f32_units_def units_of_mag_def f32_mag_def
      f32_sign_def split: if_splits)

lemma two_power_prod_le: "a + b \<le> c + d \<Longrightarrow> (2::nat) ^ a * 2 ^ b \<le> 2 ^ c * 2 ^ d"
  by (simp only: power_add [symmetric]) (rule power_increasing, simp_all)

lemma inverse_norm_scale_le:
  assumes "2 ^ a * 2 ^ a \<le> f32_units x * (2 ^ 925 * 2 ^ 1074)" "946 < a" "a \<le> 1223"
  shows "f32_is_finite (f32_of_f64 (f64_recip (f64_sqrt (f64_of_f32 x)))) \<and>
    f32_units (f32_of_f64 (f64_recip (f64_sqrt (f64_of_f32 x)))) \<le> 2 ^ (1223 - a)"
proof -
  define s where "s = f64_sqrt (f64_of_f32 x)"
  have "2 ^ a * 2 ^ a \<le> (f32_units x * 2 ^ 925) * 2 ^ 1074" using assms(1) by (simp only: mult.assoc)
  then have "2 ^ a \<le> isqrt (f64_of_f32 x * 2 ^ 1074)" unfolding f64_of_f32_def by (rule isqrt_lower)
  then have s: "2 ^ a \<le> s" unfolding s_def f64_sqrt_def by (rule round_sqrt_lower) simp
  have pos: "0 < s" by (rule less_le_trans [OF zero_less_power s]) simp
  have "(2::nat) ^ 2148 = 2 ^ (2148 - a) * 2 ^ a" using assms(3) by (simp only: power_add [symmetric]) simp
  also have "\<dots> \<le> 2 ^ (2148 - a) * s" using s by (rule mult_le_mono2)
  finally have b: "(2::nat) ^ 2148 \<le> 2 ^ (2148 - a) * s" .
  have "representable 53 (2 ^ (2148 - a))"
    unfolding representable_def by (rule exI [of _ 1], rule exI [of _ "2148 - a"]) simp
  from round_sig_upper [OF b this pos] have "f64_recip s \<le> 2 ^ (2148 - a)"
    unfolding f64_recip_def by simp
  also have "(2::nat) ^ (2148 - a) = 2 ^ (1223 - a) * 2 ^ 925" using assms(3) by (simp only: power_add [symmetric]) simp
  finally have r: "f64_recip s \<le> 2 ^ (1223 - a) * 2 ^ 925" .
  have "(2::nat) ^ (1223 - a) < 2 ^ 277" using assms(2,3) by (intro power_strict_increasing) simp_all
  moreover have "representable 24 (2 ^ (1223 - a))" by (rule representableI [of _ 1 "1223 - a"]) simp_all
  ultimately show ?thesis using f32_round_bound [OF r] unfolding f32_of_f64_def s_def [symmetric] by simp
qed

lemma inverse_norm_scale_finite:
  assumes "1 \<le> f32_units x"
  shows "f32_is_finite (f32_of_f64 (f64_recip (f64_sqrt (f64_of_f32 x))))"
    "f32_units (f32_of_f64 (f64_recip (f64_sqrt (f64_of_f32 x)))) \<le> 2 ^ 224"
proof -
  have "(2::nat) ^ 999 * 2 ^ 999 \<le> 2 ^ 925 * 2 ^ 1074" by (rule two_power_prod_le) simp
  also have "\<dots> \<le> f32_units x * (2 ^ 925 * 2 ^ 1074)" using mult_le_mono1 [OF assms] by (simp only: mult_1)
  finally show "f32_is_finite (f32_of_f64 (f64_recip (f64_sqrt (f64_of_f32 x))))"
    "f32_units (f32_of_f64 (f64_recip (f64_sqrt (f64_of_f32 x)))) \<le> 2 ^ 224"
    using inverse_norm_scale_le [of 999 x] by simp_all
qed

subsection \<open>Properties\<close>

text \<open>C16. A row that passed \<open>validate_vector\<close> at a supported dimension never makes a scalar
  score NaN, whatever the score mode: with both operands validated and a finite query scale, no
  kernel overflows to an infinity and no difference of infinities arises.\<close>

theorem validated_distance_not_nan:
  assumes "status_ok (validate_vector (qv_data q) dim)" "status_ok (validate_vector row dim)"
    and "dim \<le> unat kMaxDim" "f32_is_finite (qv_inv_norm q)"
  shows "\<not> f32_is_nan (query_distance scalar_kernel_table mode q row dim)"
  using assms
  by (intro scalar.query_distance_not_nan)
    (auto simp: validate_vector_ok components_ok_def kMaxDim_def all_set_conv_all_nth)

theorem validated_distance_not_nan_witness:
  "\<not> f32_is_nan (query_distance scalar_kernel_table NormalizedCos
      \<lparr>qv_data = [f32_one, kMaxAbsComponent], qv_inv_norm = f32_one\<rparr> [kMaxAbsComponent, f32_zero] 2)"
proof -
  have "component_ok kMaxAbsComponent" "component_ok f32_one" "component_ok f32_zero"
    by (simp_all add: component_ok_def kMaxAbsComponent_def f32_eval)
  then show ?thesis
    by (intro validated_distance_not_nan)
      (simp_all add: validate_vector_ok kMaxDim_def f32_constants_finite)
qed

text \<open>\<open>inverse_norm\<close> succeeds on every non-empty vector whose squared norm is positive and
  finite: its "norm is too small" branch cannot be taken, because the reciprocal of a square root
  of a binary32 value is always in range.\<close>

lemma inverse_norm_total:
  assumes "v \<noteq> []" "f32_lt f32_zero (kt_norm2 table v (length v))"
    and "f32_is_finite (kt_norm2 table v (length v))"
  shows "\<exists>scale. inverse_norm v table = Inr scale \<and> f32_is_finite scale"
  using inverse_norm_scale_finite(1) [OF f32_pos_units [OF assms(2)]] assms
  by (simp add: inverse_norm_def Let_def)

end
