(* ===== verification/VF_VectorStore.thy ===== *)
theory VF_VectorStore
  imports VF_Kernels
begin

unbundle bit_operations_syntax

text \<open>
  Chunked row storage (\<^verbatim>\<open>src/storage/vector_store.hpp\<close>, \<^verbatim>\<open>vector_store.cpp\<close>). The chunk directory holds
  pointers: into the mapped file image (\<open>MappedAt\<close>, an offset in floats) or to an owned heap chunk
  (\<open>HeapChunk\<close>, its position in \<open>owned_chunks_\<close>). Allocation is a parameter: for a request of n
  floats it gives uninitialised memory or nothing, in which case \<^verbatim>\<open>std::bad_alloc\<close> is thrown.
  The store refines a list of rows.
\<close>

datatype chunk_ptr = MappedAt nat | HeapChunk nat

record vector_store =
  st_dim :: nat
  st_rows_per_chunk :: nat
  st_chunk_shift :: nat
  st_chunk_mask :: nat
  st_max_rows :: nat
  st_chunk_bytes :: nat
  st_size :: nat
  st_mapped_rows :: nat
  st_chunk_ptrs :: "chunk_ptr list"
  st_owned_chunks :: "f32 list list"
  st_owner :: "f32 list"

record store_options =
  so_dim :: nat
  so_rows_per_chunk :: nat
  so_max_rows :: nat

definition kTargetChunkBytes :: nat where "kTargetChunkBytes = 16 * 2 ^ 20"
definition kMaxDefaultRowsPerChunk :: nat where "kMaxDefaultRowsPerChunk = 2 ^ 16"

definition bit_floor :: "nat \<Rightarrow> nat" where
  "bit_floor n = (if n = 0 then 0 else 2 ^ (bitlen n - 1))"

definition has_single_bit :: "nat \<Rightarrow> bool" where
  "has_single_bit n \<longleftrightarrow> n \<noteq> 0 \<and> bit_floor n = n"

definition countr_zero :: "nat \<Rightarrow> nat" where
  "countr_zero n = length (takeWhile (\<lambda>i. \<not> bit n i) [0..<64])"

definition default_rows_per_chunk :: "nat \<Rightarrow> nat" where
  "default_rows_per_chunk dim =
     (if dim = 0 then 1
      else (let row_bytes = dim * 4; rows = max 1 (kTargetChunkBytes div row_bytes)
            in min (bit_floor rows) kMaxDefaultRowsPerChunk))"

definition checked_mul3 :: "nat \<Rightarrow> nat \<Rightarrow> nat \<Rightarrow> nat option" where
  "checked_mul3 a b c = (case checked_mul_size a b of None \<Rightarrow> None | Some ab \<Rightarrow> checked_mul_size ab c)"

definition make_store :: "nat \<Rightarrow> nat \<Rightarrow> nat \<Rightarrow> nat \<Rightarrow> vector_store" where
  "make_store dim rows_per_chunk max_rows chunk_bytes =
     \<lparr>st_dim = dim, st_rows_per_chunk = rows_per_chunk, st_chunk_shift = countr_zero rows_per_chunk,
      st_chunk_mask = rows_per_chunk - 1, st_max_rows = max_rows, st_chunk_bytes = chunk_bytes,
      st_size = 0, st_mapped_rows = 0, st_chunk_ptrs = [], st_owned_chunks = [], st_owner = []\<rparr>"

definition st_create :: "store_options \<Rightarrow> vector_store result" where
  "st_create opts =
     (if so_dim opts < 1 \<or> so_dim opts > unat kMaxDim
      then Inl (invalid_argument (''VectorStore: dim '' @ show_nat (so_dim opts) @ '' is outside [1, '' @
             show_nat (unat kMaxDim) @ '']''))
      else (let rpc = (if so_rows_per_chunk opts = 0 then default_rows_per_chunk (so_dim opts) else so_rows_per_chunk opts)
            in if \<not> has_single_bit rpc
               then Inl (invalid_argument (''VectorStore: rows_per_chunk '' @ show_nat rpc @ '' is not a power of two''))
               else if so_max_rows opts < 1 \<or> so_max_rows opts > kMaxVectorsPerCollection
               then Inl (invalid_argument (''VectorStore: max_rows '' @ show_nat (so_max_rows opts) @ '' is outside [1, '' @
                      show_nat kMaxVectorsPerCollection @ '']''))
               else case checked_mul3 rpc (so_dim opts) 4 of
                 None \<Rightarrow> Inl (invalid_argument ''VectorStore: chunk size overflows size_t'')
               | Some chunk_bytes \<Rightarrow> Inr (make_store (so_dim opts) rpc (so_max_rows opts) chunk_bytes)))"

definition st_capacity :: "vector_store \<Rightarrow> nat" where
  "st_capacity s = length (st_chunk_ptrs s) * st_rows_per_chunk s"

type_synonym allocator = "nat \<Rightarrow> f32 list option"

definition st_add_chunk :: "allocator \<Rightarrow> vector_store \<Rightarrow> vector_store option" where
  "st_add_chunk alloc s =
     (case alloc (st_chunk_bytes s div 4) of
        None \<Rightarrow> None
      | Some chunk \<Rightarrow> Some (s\<lparr>st_chunk_ptrs := st_chunk_ptrs s @ [HeapChunk (length (st_owned_chunks s))],
                             st_owned_chunks := st_owned_chunks s @ [chunk]\<rparr>))"

text \<open>Writing a row through \<open>heap_row_ptr\<close>; its assertion is the \<open>None\<close> branch.\<close>

definition st_write_row :: "vector_store \<Rightarrow> internal_id \<Rightarrow> f32 list \<Rightarrow> vector_store option" where
  "st_write_row s i row =
     (if st_mapped_rows s \<le> i \<and> i < st_capacity s
      then (let h = drop_bit (st_chunk_shift s) i - drop_bit (st_chunk_shift s) (st_mapped_rows s);
                off = (i AND st_chunk_mask s) * st_dim s; chunk = st_owned_chunks s ! h
            in Some (s\<lparr>st_owned_chunks := (st_owned_chunks s)
                 [h := take off chunk @ take (st_dim s) row @ drop (off + st_dim s) chunk]\<rparr>))
      else None)"

definition st_append :: "allocator \<Rightarrow> vector_store \<Rightarrow> f32 list \<Rightarrow> internal_id result outcome \<times> vector_store" where
  "st_append alloc s row =
     (if length row \<noteq> st_dim s
      then (Returned (Inl (dimension_mismatch (''VectorStore: expected dimension '' @ show_nat (st_dim s) @
              '', got '' @ show_nat (length row)))), s)
      else if st_size s \<ge> st_max_rows s
      then (Returned (Inl (resource_exhausted (''VectorStore: capacity limit of '' @ show_nat (st_max_rows s) @
              '' rows reached''))), s)
      else case (if st_size s = st_capacity s then st_add_chunk alloc s else Some s) of
        None \<Rightarrow> (Thrown, s)
      | Some s1 \<Rightarrow>
          (case st_write_row (s1\<lparr>st_size := st_size s1 + 1\<rparr>) (st_size s1) row of
             None \<Rightarrow> (Aborted, s)
           | Some s2 \<Rightarrow> (Returned (Inr (st_size s1)), s2)))"

definition st_pop_back :: "vector_store \<Rightarrow> vector_store option" where
  "st_pop_back s = (if st_mapped_rows s < st_size s then Some (s\<lparr>st_size := st_size s - 1\<rparr>) else None)"

text \<open>The loop of \<open>reserve\<close> runs at most once per missing chunk: \<open>fuel\<close> is the row cnt asked for.\<close>

fun reserve_loop :: "allocator \<Rightarrow> nat \<Rightarrow> vector_store \<Rightarrow> nat \<Rightarrow> bool \<times> vector_store" where
  "reserve_loop alloc 0 s rows = (True, s)"
| "reserve_loop alloc (Suc fuel) s rows =
     (if st_capacity s < rows
      then (case st_add_chunk alloc s of None \<Rightarrow> (False, s) | Some s1 \<Rightarrow> reserve_loop alloc fuel s1 rows)
      else (True, s))"

definition st_reserve :: "allocator \<Rightarrow> vector_store \<Rightarrow> nat \<Rightarrow> status outcome \<times> vector_store" where
  "st_reserve alloc s rows =
     (if rows > st_max_rows s
      then (Returned (resource_exhausted (''VectorStore: cannot reserve '' @ show_nat rows @ '' rows (max_rows '' @
              show_nat (st_max_rows s) @ '')'')), s)
      else (case reserve_loop alloc rows s rows of
              (done, s1) \<Rightarrow> (if done then Returned ok_status else Thrown, s1)))"

definition deref_chunk :: "vector_store \<Rightarrow> chunk_ptr \<Rightarrow> f32 list" where
  "deref_chunk s p = (case p of MappedAt off \<Rightarrow> drop off (st_owner s) | HeapChunk h \<Rightarrow> st_owned_chunks s ! h)"

definition st_row_ptr :: "vector_store \<Rightarrow> internal_id \<Rightarrow> f32 list option" where
  "st_row_ptr s i =
     (if i < st_size s
      then Some (drop ((i AND st_chunk_mask s) * st_dim s)
                  (deref_chunk s (st_chunk_ptrs s ! drop_bit (st_chunk_shift s) i)))
      else None)"

definition st_row :: "vector_store \<Rightarrow> internal_id \<Rightarrow> f32 list" where
  "st_row s i = (case st_row_ptr s i of None \<Rightarrow> [] | Some p \<Rightarrow> take (st_dim s) p)"

definition st_chunk_data :: "vector_store \<Rightarrow> nat \<Rightarrow> f32 list option" where
  "st_chunk_data s c = (if c < length (st_chunk_ptrs s) then Some (deref_chunk s (st_chunk_ptrs s ! c)) else None)"

definition st_rows_in_chunk :: "vector_store \<Rightarrow> nat \<Rightarrow> nat" where
  "st_rows_in_chunk s c =
     (let start = c * st_rows_per_chunk s
      in if start \<ge> st_size s then 0
         else (let remaining = st_size s - start
               in if remaining < st_rows_per_chunk s then remaining else st_rows_per_chunk s))"

text \<open>The tail loop of \<open>create_mapped\<close>: rows \<open>r .. tail\<close> are appended from the image.\<close>

fun mapped_tail :: "allocator \<Rightarrow> f32 list \<Rightarrow> nat \<Rightarrow> nat \<Rightarrow> vector_store \<Rightarrow> vector_store result outcome" where
  "mapped_tail alloc rows r 0 s = Returned (Inr s)"
| "mapped_tail alloc rows r (Suc n) s =
     (case st_append alloc s (take (st_dim s) (drop ((st_mapped_rows s + r) * st_dim s) rows)) of
        (Returned (Inr i), s1) \<Rightarrow> mapped_tail alloc rows (Suc r) n s1
      | (Returned (Inl e), s1) \<Rightarrow> Returned (Inl e)
      | (Thrown, s1) \<Rightarrow> Thrown
      | (Aborted, s1) \<Rightarrow> Aborted)"

definition st_create_mapped :: "allocator \<Rightarrow> store_options \<Rightarrow> f32 list \<Rightarrow> nat \<Rightarrow> vector_store result outcome" where
  "st_create_mapped alloc opts rows cnt =
     (case st_create opts of
        Inl e \<Rightarrow> Returned (Inl e)
      | Inr s \<Rightarrow>
          if cnt > st_max_rows s
          then Returned (Inl (resource_exhausted (''VectorStore: '' @ show_nat cnt @
                 '' mapped rows exceed max_rows '' @ show_nat (st_max_rows s))))
          else (let full = cnt div st_rows_per_chunk s; mapped = full * st_rows_per_chunk s;
                    s1 = s\<lparr>st_chunk_ptrs := map (\<lambda>c. MappedAt (c * st_chunk_bytes s div 4)) [0..<full],
                           st_mapped_rows := mapped, st_size := mapped, st_owner := rows\<rparr>
                in mapped_tail alloc rows 0 (cnt - mapped) s1))"


subsection \<open>Powers of two\<close>

lemma has_single_bit_power: "has_single_bit n \<Longrightarrow> n = 2 ^ (bitlen n - 1)"
  by (auto simp: has_single_bit_def bit_floor_def)

lemma countr_zero_power: "k < 64 \<Longrightarrow> countr_zero (2 ^ k) = k"
proof -
  assume k: "k < 64"
  have "[0..<64] = [0..<k] @ k # [Suc k..<64]"
    using k upt_add_eq_append [of 0 k "64 - k"] upt_conv_Cons [of k 64] by simp
  moreover have "takeWhile (\<lambda>i. \<not> bit (2 ^ k :: nat) i) ([0..<k] @ k # [Suc k..<64]) = [0..<k]"
    by (subst takeWhile_append2) (auto simp: bit_exp_iff)
  ultimately show ?thesis by (simp add: countr_zero_def)
qed

lemma and_mask_mod: "i AND (2 ^ k - Suc 0) = i mod (2 ^ k :: nat)"
  using take_bit_eq_mask [of k i] by (simp add: take_bit_eq_mod mask_eq_exp_minus_1)

subsection \<open>Rows inside a chunk\<close>

lemma take_drop_write_same:
  "length row = dim \<Longrightarrow> off \<le> length c \<Longrightarrow> take dim (drop off (take off c @ row @ rest)) = row"
  by simp

lemma take_drop_prefix:
  "x + n \<le> y \<Longrightarrow> y \<le> length c \<Longrightarrow> take n (drop x (take y c @ rest)) = take n (drop x c)"
  by (auto simp: drop_take min_def)

lemma take_drop_write_before:
  assumes "a < b" "b * dim \<le> length c"
  shows "take dim (drop (a * dim) (take (b * dim) c @ rest)) = take dim (drop (a * dim) c)"
proof (rule take_drop_prefix [OF _ assms(2)])
  show "a * dim + dim \<le> b * dim" using mult_le_mono1 [of "Suc a" b dim] assms(1) by simp
qed

subsection \<open>Invariant and abstraction\<close>

definition st_inv :: "vector_store \<Rightarrow> bool" where
  "st_inv s \<longleftrightarrow>
     0 < st_dim s \<and> st_dim s \<le> 65536 \<and>
     st_rows_per_chunk s = 2 ^ st_chunk_shift s \<and> st_chunk_mask s = 2 ^ st_chunk_shift s - 1 \<and>
     st_chunk_bytes s = st_rows_per_chunk s * st_dim s * 4 \<and>
     st_max_rows s \<le> kMaxVectorsPerCollection \<and> st_size s \<le> st_max_rows s \<and>
     st_mapped_rows s \<le> st_size s \<and> st_size s \<le> st_capacity s \<and>
     (\<exists>k. st_mapped_rows s = k * st_rows_per_chunk s \<and> st_mapped_rows s * st_dim s \<le> length (st_owner s) \<and>
        st_chunk_ptrs s = map (\<lambda>c. MappedAt (c * (st_rows_per_chunk s * st_dim s))) [0..<k] @
          map HeapChunk [0..<length (st_owned_chunks s)]) \<and>
     (\<forall>c\<in>set (st_owned_chunks s). length c = st_rows_per_chunk s * st_dim s)"

lemma st_invD:
  assumes "st_inv s"
  shows "0 < st_dim s" "st_dim s \<le> 65536" "st_rows_per_chunk s = 2 ^ st_chunk_shift s"
    "st_chunk_mask s = 2 ^ st_chunk_shift s - 1" "st_chunk_bytes s = st_rows_per_chunk s * st_dim s * 4"
    "st_max_rows s \<le> kMaxVectorsPerCollection" "st_size s \<le> st_max_rows s" "st_mapped_rows s \<le> st_size s"
    "st_size s \<le> st_capacity s" "\<forall>c\<in>set (st_owned_chunks s). length c = st_rows_per_chunk s * st_dim s"
  using assms by (simp_all add: st_inv_def)

text \<open>The number of mapped chunks.\<close>

definition st_mapped_chunks :: "vector_store \<Rightarrow> nat" where
  "st_mapped_chunks s = st_mapped_rows s div st_rows_per_chunk s"

lemma st_inv_ptrs:
  assumes "st_inv s"
  shows "st_mapped_rows s = st_mapped_chunks s * st_rows_per_chunk s"
    "st_mapped_rows s * st_dim s \<le> length (st_owner s)"
    "st_chunk_ptrs s = map (\<lambda>c. MappedAt (c * (st_rows_per_chunk s * st_dim s))) [0..<st_mapped_chunks s] @
      map HeapChunk [0..<length (st_owned_chunks s)]"
    "length (st_chunk_ptrs s) = st_mapped_chunks s + length (st_owned_chunks s)"
proof -
  have pos: "0 < st_rows_per_chunk s" using st_invD(3) [OF assms] by simp
  obtain k where k: "st_mapped_rows s = k * st_rows_per_chunk s" "st_mapped_rows s * st_dim s \<le> length (st_owner s)"
    "st_chunk_ptrs s = map (\<lambda>c. MappedAt (c * (st_rows_per_chunk s * st_dim s))) [0..<k] @
          map HeapChunk [0..<length (st_owned_chunks s)]"
    using assms by (auto simp: st_inv_def)
  then have "st_mapped_chunks s = k" using pos by (simp add: st_mapped_chunks_def)
  with k show "st_mapped_rows s = st_mapped_chunks s * st_rows_per_chunk s"
    "st_mapped_rows s * st_dim s \<le> length (st_owner s)"
    "st_chunk_ptrs s = map (\<lambda>c. MappedAt (c * (st_rows_per_chunk s * st_dim s))) [0..<st_mapped_chunks s] @
      map HeapChunk [0..<length (st_owned_chunks s)]"
    "length (st_chunk_ptrs s) = st_mapped_chunks s + length (st_owned_chunks s)" by simp_all
qed

definition st_chunk :: "vector_store \<Rightarrow> nat \<Rightarrow> f32 list" where
  "st_chunk s c =
     (if c < st_mapped_chunks s then drop (c * (st_rows_per_chunk s * st_dim s)) (st_owner s)
      else st_owned_chunks s ! (c - st_mapped_chunks s))"

lemma deref_chunk_nth:
  assumes "st_inv s" "c < length (st_chunk_ptrs s)"
  shows "deref_chunk s (st_chunk_ptrs s ! c) = st_chunk s c"
  using assms(2) st_inv_ptrs(4) [OF assms(1)] unfolding st_inv_ptrs(3) [OF assms(1)]
  by (auto simp: deref_chunk_def st_chunk_def nth_append)

lemma chunk_index_less:
  assumes "st_inv s" "i < st_capacity s"
  shows "i div st_rows_per_chunk s < length (st_chunk_ptrs s)"
  using assms st_invD(3) [OF assms(1)] by (simp add: st_capacity_def div_less_iff_less_mult)

lemma st_row_eq:
  assumes "st_inv s" "i < st_size s"
  shows "st_row s i = take (st_dim s) (drop ((i mod st_rows_per_chunk s) * st_dim s) (st_chunk s (i div st_rows_per_chunk s)))"
proof -
  have "i < st_capacity s" using assms st_invD(9) [OF assms(1)] by simp
  from deref_chunk_nth [OF assms(1) chunk_index_less [OF assms(1) this]] show ?thesis
    using assms st_invD(3,4) [OF assms(1)]
    by (simp add: st_row_def st_row_ptr_def and_mask_mod drop_bit_eq_div)
qed

definition st_rows :: "vector_store \<Rightarrow> f32 list list" where
  "st_rows s = map (st_row s) [0..<st_size s]"

lemma length_st_rows [simp]: "length (st_rows s) = st_size s"
  by (simp add: st_rows_def)

lemma nth_st_rows [simp]: "i < st_size s \<Longrightarrow> st_rows s ! i = st_row s i"
  by (simp add: st_rows_def)

lemma st_chunk_length:
  assumes "st_inv s" "i < st_capacity s"
  shows "Suc (i mod st_rows_per_chunk s) * st_dim s \<le> length (st_chunk s (i div st_rows_per_chunk s))"
proof -
  let ?F = "st_rows_per_chunk s * st_dim s" and ?c = "i div st_rows_per_chunk s"
  have pos: "0 < st_rows_per_chunk s" using st_invD(3) [OF assms(1)] by simp
  then have "Suc (i mod st_rows_per_chunk s) \<le> st_rows_per_chunk s" by (simp add: Suc_leI)
  then have "Suc (i mod st_rows_per_chunk s) * st_dim s \<le> ?F" by (rule mult_le_mono1)
  moreover have "?F \<le> length (st_chunk s ?c)"
  proof (cases "?c < st_mapped_chunks s")
    case True
    then have "Suc ?c * ?F \<le> st_mapped_chunks s * ?F" by (intro mult_le_mono1) simp
    also have "\<dots> \<le> length (st_owner s)" using st_inv_ptrs(1,2) [OF assms(1)] by (simp add: mult.assoc)
    finally show ?thesis using True by (simp add: st_chunk_def)
  next
    case False
    then have "?c - st_mapped_chunks s < length (st_owned_chunks s)"
      using chunk_index_less [OF assms] st_inv_ptrs(4) [OF assms(1)] by simp
    then show ?thesis using False st_invD(10) [OF assms(1)] by (simp add: st_chunk_def)
  qed
  ultimately show ?thesis by simp
qed

lemma length_st_row: "st_inv s \<Longrightarrow> i < st_size s \<Longrightarrow> length (st_row s i) = st_dim s"
proof -
  assume a: "st_inv s" "i < st_size s"
  then have "i < st_capacity s" using st_invD(9) [OF a(1)] by simp
  from st_chunk_length [OF a(1) this] show ?thesis by (simp add: st_row_eq [OF a])
qed


subsection \<open>Operations\<close>

definition alloc_fits :: "allocator \<Rightarrow> bool" where
  "alloc_fits alloc \<longleftrightarrow> (\<forall>n c. alloc n = Some c \<longrightarrow> length c = n)"

lemma st_add_chunk_ok:
  assumes "st_inv s" "alloc_fits alloc" "st_add_chunk alloc s = Some s'"
  shows "st_inv s' \<and> st_size s' = st_size s \<and> st_capacity s' = st_capacity s + st_rows_per_chunk s \<and>
    st_dim s' = st_dim s \<and> st_max_rows s' = st_max_rows s \<and> st_rows_per_chunk s' = st_rows_per_chunk s \<and>
    st_mapped_rows s' = st_mapped_rows s \<and>
    (\<forall>c < length (st_chunk_ptrs s). st_chunk s' c = st_chunk s c)"
proof -
  obtain c where c: "alloc (st_chunk_bytes s div 4) = Some c"
    and s': "s' = s\<lparr>st_chunk_ptrs := st_chunk_ptrs s @ [HeapChunk (length (st_owned_chunks s))],
      st_owned_chunks := st_owned_chunks s @ [c]\<rparr>"
    using assms(3) by (auto simp: st_add_chunk_def split: option.splits)
  have len: "length c = st_rows_per_chunk s * st_dim s"
    using c assms(2) st_invD(5) [OF assms(1)] by (auto simp: alloc_fits_def)
  note d = st_invD [OF assms(1)] and p = st_inv_ptrs [OF assms(1)]
  have "st_inv s'"
    unfolding st_inv_def
    using d p(1,2,3) len by (auto simp: s' st_capacity_def intro!: exI [of _ "st_mapped_chunks s"])
  moreover have "\<forall>c < length (st_chunk_ptrs s). st_chunk s' c = st_chunk s c"
    using p(4) by (auto simp: s' st_chunk_def st_mapped_chunks_def nth_append)
  ultimately show ?thesis by (simp add: s' st_capacity_def)
qed

lemma st_write_row_ok:
  assumes inv: "st_inv s" and len: "length row = st_dim s" and room: "st_size s < st_capacity s"
    and max: "st_size s < st_max_rows s"
  shows "\<exists>s'. st_write_row (s\<lparr>st_size := st_size s + 1\<rparr>) (st_size s) row = Some s' \<and> st_inv s' \<and>
    st_rows s' = st_rows s @ [row] \<and> st_capacity s' = st_capacity s \<and> st_dim s' = st_dim s \<and>
    st_max_rows s' = st_max_rows s \<and> st_rows_per_chunk s' = st_rows_per_chunk s \<and>
    st_mapped_rows s' = st_mapped_rows s"
proof -
  define i r k where "i = st_size s" and "r = st_rows_per_chunk s" and "k = st_mapped_chunks s"
  note d = st_invD [OF inv] and p = st_inv_ptrs [OF inv]
  have pos: "0 < r" using d(3) by (simp add: r_def)
  have mi: "k * r \<le> i" using d(8) p(1) by (simp add: i_def r_def k_def)
  then have ki: "k \<le> i div r" using pos by (simp add: less_eq_div_iff_mult_less_eq)
  define h chunk where "h = i div r - k" and "chunk = st_owned_chunks s ! h"
  define off where "off = (i mod r) * st_dim s"
  have h: "h < length (st_owned_chunks s)"
    using chunk_index_less [OF inv room] p(4) ki by (simp add: h_def i_def r_def k_def)
  have ch: "st_chunk s (i div r) = chunk" using ki by (simp add: st_chunk_def chunk_def h_def k_def)
  have off: "off + st_dim s \<le> length chunk"
    using st_chunk_length [OF inv room] ch by (simp add: off_def i_def r_def)
  define chunk' where "chunk' = take off chunk @ row @ drop (off + st_dim s) chunk"
  define s' where "s' = s\<lparr>st_size := i + 1, st_owned_chunks := (st_owned_chunks s)[h := chunk']\<rparr>"
  have "st_mapped_rows s div r = k" by (simp add: r_def k_def st_mapped_chunks_def)
  then have w: "st_write_row (s\<lparr>st_size := st_size s + 1\<rparr>) (st_size s) row = Some s'"
    using room d(3,4,8) len
    by (simp add: st_write_row_def st_capacity_def s'_def chunk'_def chunk_def h_def off_def i_def r_def
        and_mask_mod drop_bit_eq_div Let_def)
  have len': "length chunk' = r * st_dim s"
  proof -
    have "length chunk = r * st_dim s" using d(10) h by (simp add: chunk_def r_def)
    then show ?thesis using off len by (simp add: chunk'_def)
  qed
  have "set ((st_owned_chunks s)[h := chunk']) \<subseteq> insert chunk' (set (st_owned_chunks s))"
    by (rule set_update_subset_insert)
  then have "\<forall>c\<in>set ((st_owned_chunks s)[h := chunk']). length c = r * st_dim s"
    using d(10) len' by (auto simp: r_def)
  then have inv': "st_inv s'"
    unfolding st_inv_def using d p(1,2,3) room max
    by (auto simp: s'_def st_capacity_def i_def r_def intro!: exI [of _ "st_mapped_chunks s"])
  have chunks: "st_chunk s' c = (if c = i div r then chunk' else st_chunk s c)"
    if "c < length (st_chunk_ptrs s)" for c
    using that h ki p(4)
    by (auto simp: st_chunk_def s'_def st_mapped_chunks_def h_def k_def r_def nth_list_update)
  have old: "st_row s' j = st_row s j" if j: "j < i" for j
  proof -
    have jc: "j div r < length (st_chunk_ptrs s)"
      using chunk_index_less [OF inv, of j] j room by (simp add: i_def r_def)
    have js: "j < st_size s" "j < st_size s'" using j by (simp_all add: i_def s'_def)
    have dr: "st_rows_per_chunk s' = r" "st_dim s' = st_dim s" by (simp_all add: s'_def r_def)
    show ?thesis
    proof (cases "j div r = i div r")
      case True
      have "j mod r < i mod r"
        using j True mult_div_mod_eq [of r j] mult_div_mod_eq [of r i] by (metis add_less_cancel_left)
      then have "take (st_dim s) (drop ((j mod r) * st_dim s) chunk') = take (st_dim s) (drop ((j mod r) * st_dim s) chunk)"
        unfolding chunk'_def off_def using off by (intro take_drop_write_before) (simp_all add: off_def)
      moreover have "st_chunk s' (j div r) = chunk'" "st_chunk s (j div r) = chunk"
        using True ch chunks [OF jc] by simp_all
      ultimately show ?thesis
        unfolding st_row_eq [OF inv' js(2)] st_row_eq [OF inv js(1)] dr r_def [symmetric] by simp
    next
      case False
      then show ?thesis
        using chunks [OF jc] st_row_eq [OF inv' js(2)] st_row_eq [OF inv js(1)]
        by (simp add: dr r_def [symmetric])
    qed
  qed
  have ic: "i div r < length (st_chunk_ptrs s)" using chunk_index_less [OF inv room] by (simp add: i_def r_def)
  have is': "i < st_size s'" "st_rows_per_chunk s' = r" "st_dim s' = st_dim s" by (simp_all add: s'_def r_def)
  have "st_row s' i = row"
    using st_row_eq [OF inv' is'(1)] chunks [OF ic] off len
    by (simp add: is' chunk'_def off_def [symmetric])
  then have "st_rows s' = st_rows s @ [row]"
    using old by (simp add: st_rows_def s'_def i_def)
  then show ?thesis using w inv' by (auto simp: s'_def st_capacity_def)
qed

lemma st_append_ok:
  assumes "st_inv s" "alloc_fits alloc" "length row = st_dim s" "st_size s < st_max_rows s"
    "st_append alloc s row = (res, s')"
  shows "(res = Thrown \<and> s' = s \<and> st_size s = st_capacity s) \<or>
    (res = Returned (Inr (st_size s)) \<and> st_inv s' \<and> st_rows s' = st_rows s @ [row] \<and>
      st_dim s' = st_dim s \<and> st_max_rows s' = st_max_rows s \<and> st_mapped_rows s' = st_mapped_rows s \<and>
      st_capacity s \<le> st_capacity s')"
proof (cases "st_size s = st_capacity s")
  case False
  then have "st_size s < st_capacity s" using st_invD(9) [OF assms(1)] by simp
  from st_write_row_ok [OF assms(1,3) this assms(4)] show ?thesis
    using False assms(3,4,5) by (auto simp: st_append_def)
next
  case True
  show ?thesis
  proof (cases "st_add_chunk alloc s")
    case None
    then show ?thesis using True assms(3,4,5) by (simp add: st_append_def)
  next
    case (Some s1)
    note a = st_add_chunk_ok [OF assms(1,2) Some]
    have "0 < st_rows_per_chunk s" using st_invD(3) [OF assms(1)] by simp
    then have room: "st_size s1 < st_capacity s1" using a True by simp
    have "st_rows s1 = st_rows s"
    proof (rule nth_equalityI)
      fix i assume "i < length (st_rows s1)"
      then have i: "i < st_size s1" "i < st_size s" "i < st_capacity s" using a True by simp_all
      have "i div st_rows_per_chunk s < length (st_chunk_ptrs s)" using chunk_index_less [OF assms(1) i(3)] .
      then show "st_rows s1 ! i = st_rows s ! i"
        using a i st_row_eq [of s1 i] st_row_eq [OF assms(1) i(2)] by simp
    qed (use a in simp)
    then show ?thesis
      using st_write_row_ok [of s1 row] a room assms(3,4,5) True Some by (auto simp: st_append_def)
  qed
qed

lemma st_append_errors:
  "length row \<noteq> st_dim s \<Longrightarrow> \<exists>e. st_append alloc s row = (Returned (Inl e), s) \<and> code e = DimensionMismatch"
  "length row = st_dim s \<Longrightarrow> st_max_rows s \<le> st_size s \<Longrightarrow>
     \<exists>e. st_append alloc s row = (Returned (Inl e), s) \<and> code e = ResourceExhausted"
  by (simp_all add: st_append_def)

lemma st_pop_back_ok:
  assumes "st_inv s" "st_pop_back s = Some s'"
  shows "st_inv s'" "st_rows s' = butlast (st_rows s)" "st_capacity s' = st_capacity s" "st_dim s' = st_dim s"
    "st_max_rows s' = st_max_rows s" "st_mapped_rows s' = st_mapped_rows s"
proof -
  have s': "s' = s\<lparr>st_size := st_size s - 1\<rparr>" "st_mapped_rows s < st_size s"
    using assms(2) by (auto simp: st_pop_back_def split: if_splits)
  show inv': "st_inv s'"
    using st_invD [OF assms(1)] st_inv_ptrs [OF assms(1)] s'(2)
    unfolding st_inv_def by (auto simp: s' st_capacity_def intro!: exI [of _ "st_mapped_chunks s"])
  have "st_row s' i = st_row s i" if "i < st_size s - 1" for i
    using that s'(2) by (auto simp: st_row_def st_row_ptr_def s' deref_chunk_def split: chunk_ptr.split)
  then show "st_rows s' = butlast (st_rows s)"
    using s'(2) by (simp add: st_rows_def s' butlast_conv_take take_map take_upt)
  show "st_capacity s' = st_capacity s" "st_dim s' = st_dim s" "st_max_rows s' = st_max_rows s"
    "st_mapped_rows s' = st_mapped_rows s" by (simp_all add: s' st_capacity_def)
qed


lemma add_chunk_rows:
  assumes "st_inv s" "alloc_fits alloc" "st_add_chunk alloc s = Some s1"
  shows "st_rows s1 = st_rows s"
proof (rule nth_equalityI)
  note a = st_add_chunk_ok [OF assms]
  show "length (st_rows s1) = length (st_rows s)" using a by simp
  fix i assume "i < length (st_rows s1)"
  then have i: "i < st_size s1" "i < st_size s" "i < st_capacity s"
    using a st_invD(9) [OF assms(1)] by simp_all
  have "i div st_rows_per_chunk s < length (st_chunk_ptrs s)" using chunk_index_less [OF assms(1) i(3)] .
  then show "st_rows s1 ! i = st_rows s ! i"
    using a i st_row_eq [of s1 i] st_row_eq [OF assms(1) i(2)] by simp
qed

lemma reserve_loop_ok:
  assumes "st_inv s" "alloc_fits alloc" "rows \<le> st_capacity s + fuel" "reserve_loop alloc fuel s rows = (fin, s')"
  shows "st_inv s' \<and> st_rows s' = st_rows s \<and> (fin \<longrightarrow> rows \<le> st_capacity s') \<and> st_dim s' = st_dim s \<and>
    st_max_rows s' = st_max_rows s \<and> st_mapped_rows s' = st_mapped_rows s"
  using assms
proof (induction alloc fuel s rows rule: reserve_loop.induct)
  case (2 alloc fuel s rows)
  show ?case
  proof (cases "st_capacity s < rows")
    case True
    show ?thesis
    proof (cases "st_add_chunk alloc s")
      case None
      then show ?thesis using True "2.prems" by simp
    next
      case (Some s1)
      note a = st_add_chunk_ok [OF "2.prems"(1,2) Some]
      have "0 < st_rows_per_chunk s" using st_invD(3) [OF "2.prems"(1)] by simp
      then have "rows \<le> st_capacity s1 + fuel" using a "2.prems"(3) by simp
      then show ?thesis
        using "2.IH" [OF True Some] a "2.prems" True Some add_chunk_rows [OF "2.prems"(1,2) Some] by simp
    qed
  qed (use "2.prems" in simp)
qed simp

lemma st_reserve_ok:
  assumes "st_inv s" "alloc_fits alloc" "st_reserve alloc s rows = (res, s')"
  shows "st_inv s' \<and> st_rows s' = st_rows s \<and> st_dim s' = st_dim s \<and> st_max_rows s' = st_max_rows s \<and>
    st_mapped_rows s' = st_mapped_rows s \<and>
    (case res of Returned st \<Rightarrow> if status_ok st then rows \<le> st_capacity s'
       else code st = ResourceExhausted \<and> st_max_rows s < rows \<and> s' = s
     | Thrown \<Rightarrow> True | Aborted \<Rightarrow> False)"
proof (cases "st_max_rows s < rows")
  case True
  then show ?thesis using assms by (auto simp: st_reserve_def)
next
  case False
  obtain fin s1 where l: "reserve_loop alloc rows s rows = (fin, s1)" by fastforce
  show ?thesis using reserve_loop_ok [OF assms(1,2) _ l] False assms(3) l by (auto simp: st_reserve_def)
qed

lemma bit_floor_power: "n \<noteq> 0 \<Longrightarrow> bit_floor n = 2 ^ (bitlen n - 1)"
  by (simp add: bit_floor_def)

lemma bitlen_power: "bitlen (2 ^ k) = Suc k"
proof (rule antisym)
  show "bitlen (2 ^ k) \<le> Suc k" by (simp add: bitlen_le_iff)
  show "Suc k \<le> bitlen (2 ^ k)" using bitlen_le_iff [of "2 ^ k" k] by linarith
qed

lemma has_single_bit_of_power: "has_single_bit (2 ^ k)"
  by (simp add: has_single_bit_def bit_floor_def bitlen_power)

lemma default_rows_per_chunk_single: "has_single_bit (default_rows_per_chunk dim)"
proof -
  have "has_single_bit (min (2 ^ a) (2 ^ b))" for a b :: nat
    using has_single_bit_of_power [of a] has_single_bit_of_power [of b] by (simp add: min_def)
  moreover have "max 1 (kTargetChunkBytes div (dim * 4)) \<noteq> 0" by simp
  ultimately show ?thesis
    using has_single_bit_of_power [of 0]
    by (simp add: default_rows_per_chunk_def Let_def bit_floor_power kMaxDefaultRowsPerChunk_def
        del: power_numeral)
qed

lemma st_create_ok:
  assumes "st_create opts = Inr s"
  shows "st_inv s" "st_rows s = []" "st_dim s = so_dim opts" "st_max_rows s = so_max_rows opts"
    "st_mapped_rows s = 0" "st_size s = 0" "st_chunk_ptrs s = []" "st_owned_chunks s = []"
proof -
  define rpc where "rpc = (if so_rows_per_chunk opts = 0 then default_rows_per_chunk (so_dim opts)
    else so_rows_per_chunk opts)"
  obtain cb where d: "1 \<le> so_dim opts" "so_dim opts \<le> 65536" and sb: "has_single_bit rpc"
    and mx: "so_max_rows opts \<le> kMaxVectorsPerCollection" and cm: "checked_mul3 rpc (so_dim opts) 4 = Some cb"
    and s: "s = make_store (so_dim opts) rpc (so_max_rows opts) cb"
    using assms by (auto simp: st_create_def Let_def rpc_def kMaxDim_def split: if_splits option.splits)
  have cb: "cb = rpc * so_dim opts * 4" "rpc * so_dim opts * 4 < 2 ^ 64"
    using cm by (auto simp: checked_mul3_def checked_mul_size_Some split: option.splits)
  define k where "k = bitlen rpc - 1"
  have rpc: "rpc = 2 ^ k" using has_single_bit_power [OF sb] by (simp add: k_def)
  have "rpc * 1 \<le> rpc * (so_dim opts * 4)" using d by (intro mult_le_mono2) simp
  then have "rpc < 2 ^ 64" using cb(2) by (simp only: mult.assoc mult_1_right)
  then have "k < 64" unfolding rpc by (rule power_less_imp_less_exp [rotated]) simp
  then have "countr_zero rpc = k" by (simp add: rpc countr_zero_power)
  then show "st_inv s" using d mx cb rpc by (simp add: s make_store_def st_inv_def st_capacity_def)
  show "st_rows s = []" "st_dim s = so_dim opts" "st_max_rows s = so_max_rows opts"
    "st_mapped_rows s = 0" "st_size s = 0" "st_chunk_ptrs s = []" "st_owned_chunks s = []"
    by (simp_all add: s make_store_def st_rows_def)
qed

lemma mapped_tail_ok:
  assumes "st_inv s" "alloc_fits alloc" "st_size s = st_mapped_rows s + r"
    "st_size s + n \<le> st_max_rows s" "(st_size s + n) * st_dim s \<le> length rows"
    "mapped_tail alloc rows r n s = Returned (Inr s')"
  shows "st_inv s' \<and> st_dim s' = st_dim s \<and> st_max_rows s' = st_max_rows s \<and>
    st_rows s' = st_rows s @ map (\<lambda>i. take (st_dim s) (drop (i * st_dim s) rows)) [st_size s..<st_size s + n]"
  using assms
proof (induction alloc rows r n s rule: mapped_tail.induct)
  case (2 alloc rows r n s)
  let ?row = "take (st_dim s) (drop (st_size s * st_dim s) rows)"
  have len: "length ?row = st_dim s"
    using "2.prems"(5) by (simp add: algebra_simps)
  obtain res s1 where ap: "st_append alloc s ?row = (res, s1)" by fastforce
  have "st_size s < st_max_rows s" using "2.prems"(4) by simp
  from st_append_ok [OF "2.prems"(1,2) len this ap]
  have a: "res = Returned (Inr (st_size s)) \<and> st_inv s1 \<and> st_rows s1 = st_rows s @ [?row] \<and> st_dim s1 = st_dim s \<and>
      st_max_rows s1 = st_max_rows s \<and> st_mapped_rows s1 = st_mapped_rows s"
    using "2.prems"(3,6) ap by auto
  have "length (st_rows s1) = length (st_rows s @ [?row])" using a by simp
  then have sz: "st_size s1 = Suc (st_size s)" by simp
  have "mapped_tail alloc rows (Suc r) n s1 = Returned (Inr s')"
    using "2.prems"(3,6) ap a by simp
  then show ?case
    using "2.IH" [OF ap [symmetric, unfolded "2.prems"(3)]] "2.prems" a sz
    by (simp add: upt_conv_Cons del: upt_Suc)
qed simp


lemma mapped_tail_returns:
  assumes "st_inv s" "alloc_fits alloc" "st_size s = st_mapped_rows s + r"
    "st_size s + n \<le> st_max_rows s" "(st_size s + n) * st_dim s \<le> length rows"
  shows "mapped_tail alloc rows r n s = Thrown \<or> (\<exists>s'. mapped_tail alloc rows r n s = Returned (Inr s'))"
  using assms
proof (induction alloc rows r n s rule: mapped_tail.induct)
  case (2 alloc rows r n s)
  let ?row = "take (st_dim s) (drop ((st_mapped_rows s + r) * st_dim s) rows)"
  have len: "length ?row = st_dim s"
    using "2.prems"(3,5) by (simp add: algebra_simps)
  obtain res s1 where ap: "st_append alloc s ?row = (res, s1)" by fastforce
  have "st_size s < st_max_rows s" using "2.prems"(4) by simp
  note A = st_append_ok [OF "2.prems"(1,2) len this ap]
  show ?case
  proof (cases "res = Thrown")
    case False
    with A have a: "res = Returned (Inr (st_size s))" "st_inv s1" "st_rows s1 = st_rows s @ [?row]" "st_dim s1 = st_dim s"
      "st_max_rows s1 = st_max_rows s" "st_mapped_rows s1 = st_mapped_rows s" by auto
    have "st_size s1 = Suc (st_size s)" using arg_cong [OF a(3), of length] by simp
    then show ?thesis using "2.IH" [OF ap [symmetric] a(1)] "2.prems" a ap by simp
  qed (use ap in simp)
qed simp

text \<open>The mapped part of a store: whole chunks of the image by reference.\<close>

definition mapped_base :: "vector_store \<Rightarrow> f32 list \<Rightarrow> nat \<Rightarrow> vector_store" where
  "mapped_base s rows cnt =
     s\<lparr>st_chunk_ptrs := map (\<lambda>c. MappedAt (c * st_chunk_bytes s div 4)) [0..<cnt div st_rows_per_chunk s],
       st_mapped_rows := cnt div st_rows_per_chunk s * st_rows_per_chunk s,
       st_size := cnt div st_rows_per_chunk s * st_rows_per_chunk s, st_owner := rows\<rparr>"

lemma mapped_base_inv:
  assumes "st_create opts = Inr s" "cnt \<le> st_max_rows s" "cnt * so_dim opts \<le> length rows"
  shows "st_inv (mapped_base s rows cnt)"
proof -
  note c0 = st_create_ok [OF assms(1)] and d0 = st_invD [OF st_create_ok(1) [OF assms(1)]]
  define full where "full = cnt div st_rows_per_chunk s"
  have mc: "full * st_rows_per_chunk s \<le> cnt" by (simp add: full_def)
  have md: "full * st_rows_per_chunk s * st_dim s \<le> length rows"
    using le_trans [OF mult_le_mono1 [OF mc, of "so_dim opts"] assms(3)] by (simp only: c0(3))
  have ptr: "c * st_chunk_bytes s div 4 = c * (st_rows_per_chunk s * st_dim s)" for c
    using d0(5) by (simp add: mult.assoc [symmetric])
  note base = mapped_base_def [of s rows cnt, folded full_def]
  show ?thesis
    using d0 c0 mc assms(2) md by (auto simp: st_inv_def base st_capacity_def ptr intro!: exI [of _ full])
qed

lemma st_create_mapped_eq:
  assumes "st_create opts = Inr s" "cnt \<le> st_max_rows s"
  shows "st_create_mapped alloc opts rows cnt =
    mapped_tail alloc rows 0 (cnt - cnt div st_rows_per_chunk s * st_rows_per_chunk s) (mapped_base s rows cnt)"
  using assms by (simp add: st_create_mapped_def mapped_base_def Let_def)

lemma st_create_mapped_returns:
  assumes "st_create opts = Inr s" "cnt \<le> so_max_rows opts" "alloc_fits alloc" "cnt * so_dim opts \<le> length rows"
  shows "st_create_mapped alloc opts rows cnt = Thrown \<or> (\<exists>s'. st_create_mapped alloc opts rows cnt = Returned (Inr s'))"
proof -
  have le: "cnt \<le> st_max_rows s" using assms(2) st_create_ok(4) [OF assms(1)] by simp
  show ?thesis
    unfolding st_create_mapped_eq [OF assms(1) le] using le assms(4) st_create_ok(3) [OF assms(1)]
    by (intro mapped_tail_returns [OF mapped_base_inv [OF assms(1) le assms(4)] assms(3)]) (simp_all add: mapped_base_def)
qed

lemma st_create_mapped_ok:
  assumes "st_create_mapped alloc opts rows cnt = Returned (Inr s)" "alloc_fits alloc"
    "cnt * so_dim opts \<le> length rows"
  shows "st_inv s \<and> st_dim s = so_dim opts \<and> st_max_rows s = so_max_rows opts \<and>
    st_rows s = map (\<lambda>i. take (so_dim opts) (drop (i * so_dim opts) rows)) [0..<cnt]"
proof -
  obtain s0 where c: "st_create opts = Inr s0"
    using assms(1) by (auto simp: st_create_mapped_def split: sum.splits)
  note c0 = st_create_ok [OF c] and d0 = st_invD [OF st_create_ok(1) [OF c]]
  define full where "full = cnt div st_rows_per_chunk s0"
  define mapped where "mapped = full * st_rows_per_chunk s0"
  define s1 where "s1 = mapped_base s0 rows cnt"
  note b1 = s1_def [unfolded mapped_base_def, folded full_def, folded mapped_def]
  have le: "cnt \<le> st_max_rows s0"
    using assms(1) by (auto simp: st_create_mapped_def c Let_def split: if_splits)
  have t: "mapped_tail alloc rows 0 (cnt - mapped) s1 = Returned (Inr s)"
    using assms(1) st_create_mapped_eq [OF c le, of alloc rows] by (simp add: s1_def full_def mapped_def)
  have mc: "mapped \<le> cnt" by (simp add: mapped_def full_def)
  have ptr: "c * st_chunk_bytes s0 div 4 = c * (st_rows_per_chunk s0 * st_dim s0)" for c
    using d0(5) by (simp add: mult.assoc [symmetric])
  have inv1: "st_inv s1" unfolding s1_def by (rule mapped_base_inv [OF c le assms(3)])
  have pos: "0 < st_rows_per_chunk s0" using d0(3) by simp
  have row1: "st_row s1 i = take (st_dim s0) (drop (i * st_dim s0) rows)" if i: "i < mapped" for i
  proof -
    let ?r = "st_rows_per_chunk s0" and ?d = "st_dim s0"
    have "i div ?r < full" using i pos by (simp add: mapped_def div_less_iff_less_mult)
    then have "st_chunk s1 (i div ?r) = drop (i div ?r * (?r * ?d)) rows"
      using pos by (simp add: st_chunk_def st_mapped_chunks_def b1 mapped_def ptr)
    moreover have "(i mod ?r) * ?d + i div ?r * (?r * ?d) = i * ?d"
      by (metis add.commute distrib_right div_mult_mod_eq mult.assoc)
    moreover have "i < st_size s1" using i by (simp add: b1)
    ultimately show ?thesis using st_row_eq [OF inv1, of i] by (simp add: b1)
  qed
  have "st_inv s \<and> st_dim s = st_dim s1 \<and> st_max_rows s = st_max_rows s1 \<and>
    st_rows s = st_rows s1 @ map (\<lambda>i. take (st_dim s1) (drop (i * st_dim s1) rows)) [st_size s1..<st_size s1 + (cnt - mapped)]"
    using mc le assms(3) c0(3)
    by (intro mapped_tail_ok [OF inv1 assms(2) _ _ _ t]) (simp_all add: b1)
  moreover have "st_rows s1 = map (\<lambda>i. take (so_dim opts) (drop (i * so_dim opts) rows)) [0..<mapped]"
    using row1 c0(3) by (simp add: st_rows_def b1)
  moreover have "[0..<cnt] = [0..<mapped] @ [mapped..<cnt]" using mc upt_add_eq_append [of 0 mapped "cnt - mapped"] by simp
  ultimately show ?thesis using mc c0(3,4) by (simp add: b1)
qed

subsection \<open>Properties\<close>

text \<open>Appending refines list append: on a store that satisfies its invariant, \<open>append\<close> of a
  row of the right dimension below the row limit either throws because a chunk could not be
  allocated, leaving the store unchanged, or returns the previous size as the new id, keeps the
  invariant and every stored row, and the row read back is the row written. The internal address
  assertion never fires.\<close>

lemma vector_store_append_refines:
  assumes "st_inv s" "alloc_fits alloc" "length row = st_dim s" "st_size s < st_max_rows s"
  shows "st_append alloc s row = (Thrown, s) \<or>
    (\<exists>s'. st_append alloc s row = (Returned (Inr (st_size s)), s') \<and> st_inv s' \<and> st_rows s' = st_rows s @ [row])"
  using st_append_ok [OF assms] by (cases "st_append alloc s row") auto

text \<open>A store created over a file image serves exactly the first \<open>count\<close> rows of the image:
  full chunks by reference, the trailing partial chunk copied.\<close>

lemma vector_store_mapped_rows:
  assumes "st_create_mapped alloc opts img cnt = Returned (Inr s)" "alloc_fits alloc"
    "cnt * so_dim opts \<le> length img"
  shows "st_inv s \<and> st_rows s = map (\<lambda>i. take (so_dim opts) (drop (i * so_dim opts) img)) [0..<cnt]"
  using st_create_mapped_ok [OF assms] by blast

end
