(* ===== verification/VF_Flat.thy ===== *)
theory VF_Flat
  imports VF_VectorStore VF_Tombstones VF_Heaps
begin

text \<open>
  The exact backend (\<^verbatim>\<open>src/index/flat_backend.cpp\<close>): block distances with the 1-to-N kernels, the
  three nested loops over chunks, blocks and rows, the cheap pre-test on the worst retained distance
  and the final heapsort. The main result is that the search is the exact top-k of the live rows
  under the (distance, id) order.
\<close>

type_synonym neighbor = "external_id scored"

record search_knobs =
  kn_k :: nat
  kn_ef :: nat

definition kBlockRows :: nat where "kBlockRows = 1024"

definition flat_add :: "vector_store \<Rightarrow> internal_id \<Rightarrow> status option" where
  "flat_add s i = (if i + 1 = st_size s then Some ok_status else None)"

definition block_distances :: "kernel_table \<Rightarrow> metric \<Rightarrow> bool \<Rightarrow> nat \<Rightarrow> query_view \<Rightarrow> f32 list \<Rightarrow> nat \<Rightarrow> f32 list" where
  "block_distances table metric normalized dim q rows n =
     (if \<not> normalized
      then (if metric = L2 then kt_l2sq_1_to_n table (qv_data q) rows n dim
            else map f32_neg (kt_dot_1_to_n table (qv_data q) rows n dim))
      else (let out = kt_dot_1_to_n table (qv_data q) rows n dim; s = qv_inv_norm q
            in case metric of
                 Cosine \<Rightarrow> map (\<lambda>d. f32_max f32_zero (f32_sub f32_one (f32_mul d s))) out
               | L2 \<Rightarrow> map (\<lambda>d. f32_max f32_zero (f32_sub f32_two (f32_mul (f32_mul f32_two d) s))) out
               | InnerProduct \<Rightarrow> map (\<lambda>d. f32_neg (f32_mul d s)) out
               | BadMetric _ \<Rightarrow> out))"

text \<open>One row of the innermost loop: skip tombstoned rows and rows no better than the worst.\<close>

definition flat_offer :: "bool \<Rightarrow> tombstone_set \<Rightarrow> internal_id \<Rightarrow> f32 \<Rightarrow> neighbor bounded_heap \<Rightarrow> neighbor bounded_heap" where
  "flat_offer has_deleted deleted i d h =
     (if has_deleted \<and> tb_test deleted i then h
      else if bh_full h \<and> \<not> f32_lt d (sc_distance (bh_data h ! 0)) then h
      else snd (bh_push candidate_less h (mk_scored d (word_of_nat i))))"

definition flat_block :: "bool \<Rightarrow> tombstone_set \<Rightarrow> nat \<Rightarrow> f32 list \<Rightarrow> nat \<Rightarrow> neighbor bounded_heap \<Rightarrow> neighbor bounded_heap" where
  "flat_block has_deleted deleted first distances n h =
     fold (\<lambda>r. flat_offer has_deleted deleted (first + r) (distances ! r)) [0..<n] h"

function flat_chunk :: "kernel_table \<Rightarrow> metric \<Rightarrow> bool \<Rightarrow> nat \<Rightarrow> query_view \<Rightarrow> bool \<Rightarrow> tombstone_set \<Rightarrow> f32 list
    \<Rightarrow> nat \<Rightarrow> nat \<Rightarrow> nat \<Rightarrow> neighbor bounded_heap \<Rightarrow> neighbor bounded_heap" where
  "flat_chunk table metric normalized dim q has_deleted deleted data base_id rows start h =
     (if start < rows
      then (let n = min kBlockRows (rows - start);
                distances = block_distances table metric normalized dim q (drop (start * dim) data) n
            in flat_chunk table metric normalized dim q has_deleted deleted data base_id rows (start + kBlockRows)
                 (flat_block has_deleted deleted (base_id + start) distances n h))
      else h)"
  by pat_completeness auto
termination
  by (relation "measure (\<lambda>(table, metric, normalized, dim, q, has_del, del, data, base_id, rows, start, h). rows - start)")
    (auto simp: kBlockRows_def)

declare flat_chunk.simps [simp del]

text \<open>The chunk loop from chunk \<open>c\<close> on; reading a chunk past the directory would be an assertion
  failure.\<close>

fun flat_chunks :: "kernel_table \<Rightarrow> metric \<Rightarrow> bool \<Rightarrow> vector_store \<Rightarrow> query_view \<Rightarrow> bool \<Rightarrow> tombstone_set
    \<Rightarrow> nat list \<Rightarrow> nat \<Rightarrow> neighbor bounded_heap \<Rightarrow> neighbor bounded_heap option" where
  "flat_chunks table metric normalized s q has_deleted deleted [] base_id h = Some h"
| "flat_chunks table metric normalized s q has_deleted deleted (c # cs) base_id h =
     (case st_chunk_data s c of
        None \<Rightarrow> None
      | Some data \<Rightarrow>
          (let rows = st_rows_in_chunk s c
           in flat_chunks table metric normalized s q has_deleted deleted cs (base_id + rows)
                (flat_chunk table metric normalized (st_dim s) q has_deleted deleted data base_id rows 0 h)))"

definition flat_search :: "kernel_table \<Rightarrow> metric \<Rightarrow> bool \<Rightarrow> vector_store \<Rightarrow> tombstone_set \<Rightarrow> query_view
    \<Rightarrow> search_knobs \<Rightarrow> neighbor list \<Rightarrow> (nat \<times> neighbor list) option" where
  "flat_search table metric normalized s deleted q knobs out =
     (if \<not> (1 \<le> kn_k knobs \<and> kn_k knobs \<le> length out) then None
      else case flat_chunks table metric normalized s q (tb_any deleted) deleted
             [0..<length (st_chunk_ptrs s)] 0 (bh_make (take (kn_k knobs) out)) of
        None \<Rightarrow> None
      | Some h \<Rightarrow>
          (case bh_sort_ascending candidate_less h of
             (n, h') \<Rightarrow> Some (n, bh_data h' @ drop (kn_k knobs) out)))"

subsection \<open>Block distances are the per-row distances\<close>

context kernel_laws
begin

lemma block_distances_nth:
  assumes "metric_is_valid metric" "normalized \<or> metric \<noteq> Cosine" "r < n"
  shows "block_distances table metric normalized dim q rows n ! r =
    query_distance table (score_mode_of metric normalized) q (drop (r * dim) rows) dim"
  using assms
  by (cases metric; cases normalized)
    (simp_all add: block_distances_def dot_batch l2sq_batch score_mode_of_def Let_def)


text \<open>The three loops scan the rows in order of their ids.\<close>

definition row_distance :: "score_mode \<Rightarrow> query_view \<Rightarrow> vector_store \<Rightarrow> internal_id \<Rightarrow> f32" where
  "row_distance mode q s i = query_distance table mode q (st_row s i) (st_dim s)"

lemma flat_block_scan:
  assumes "\<forall>r<n. distances ! r = f (first + r)"
  shows "flat_block has_deleted deleted first distances n h =
    fold (\<lambda>i. flat_offer has_deleted deleted i (f i)) [first..<first + n] h"
proof -
  have "map (\<lambda>r. first + r) [0..<n] = [first..<first + n]"
    using map_add_upt [of first n] by (simp add: add.commute)
  then have "fold (\<lambda>i. flat_offer has_deleted deleted i (f i)) [first..<first + n] h =
      fold (\<lambda>r. flat_offer has_deleted deleted (first + r) (f (first + r))) [0..<n] h"
    by (subst (asm) eq_commute) (simp only: fold_map comp_def)
  also have "\<dots> = flat_block has_deleted deleted first distances n h"
    unfolding flat_block_def using assms by (intro fold_cong) auto
  finally show ?thesis by simp
qed

lemma flat_chunk_scan:
  assumes "metric_is_valid metric" "normalized \<or> metric \<noteq> Cosine"
    and "\<forall>r<rows. query_distance table (score_mode_of metric normalized) q (drop (r * dim) data) dim = f (base_id + r)"
    and "start \<le> rows"
  shows "flat_chunk table metric normalized dim q has_deleted deleted data base_id rows start h =
    fold (\<lambda>i. flat_offer has_deleted deleted i (f i)) [base_id + start..<base_id + rows] h"
  using assms(4)
proof (induction "rows - start" arbitrary: start h rule: less_induct)
  case less
  show ?case
  proof (cases "start < rows")
    case False
    then show ?thesis using less.prems by (subst flat_chunk.simps) simp
  next
    case True
    define n where "n = min kBlockRows (rows - start)"
    let ?ds = "block_distances table metric normalized dim q (drop (start * dim) data) n"
    have n: "0 < n" "start + n \<le> rows" "start + n = min (start + kBlockRows) rows"
      using True by (auto simp: n_def kBlockRows_def)
    have "?ds ! r = f (base_id + start + r)" if "r < n" for r
      using block_distances_nth [OF assms(1,2) that] assms(3) [rule_format, of "start + r"] that n
      by (simp add: algebra_simps)
    then have block: "flat_block has_deleted deleted (base_id + start) ?ds n h =
        fold (\<lambda>i. flat_offer has_deleted deleted i (f i)) [base_id + start..<base_id + start + n] h"
      by (intro flat_block_scan) simp
    have rest: "flat_chunk table metric normalized dim q has_deleted deleted data base_id rows (start + kBlockRows) h' =
        fold (\<lambda>i. flat_offer has_deleted deleted i (f i)) [base_id + (start + n)..<base_id + rows] h'" for h'
    proof (cases "start + kBlockRows \<le> rows")
      case True
      then show ?thesis using less.hyps [of "start + kBlockRows"] \<open>start < rows\<close> n
        by (simp add: kBlockRows_def min_def)
    next
      case False
      then show ?thesis using n by (subst flat_chunk.simps) simp
    qed
    have "[base_id + start..<base_id + rows] = [base_id + start..<base_id + start + n] @ [base_id + (start + n)..<base_id + rows]"
      using n(2) upt_add_eq_append [of "base_id + start" "base_id + start + n" "rows - (start + n)"] by (simp add: add.assoc)
    then show ?thesis
      using True block rest by (subst flat_chunk.simps) (simp add: Let_def n_def [symmetric])
  qed
qed

lemma chunk_row_distance:
  assumes "st_inv s" "c < length (st_chunk_ptrs s)" "c * st_rows_per_chunk s + r < st_size s" "r < st_rows_per_chunk s"
  shows "query_distance table mode q (drop (r * st_dim s) (st_chunk s c)) (st_dim s) =
    row_distance mode q s (c * st_rows_per_chunk s + r)"
proof -
  let ?i = "c * st_rows_per_chunk s + r"
  have "?i div st_rows_per_chunk s = c" "?i mod st_rows_per_chunk s = r" using assms(4) by simp_all
  then have row: "st_row s ?i = take (st_dim s) (drop (r * st_dim s) (st_chunk s c))"
    using st_row_eq [OF assms(1,3)] by simp
  then have len: "st_dim s \<le> length (drop (r * st_dim s) (st_chunk s c))"
    using length_st_row [OF assms(1,3)] by (simp add: min_def split: if_splits)
  show ?thesis
    unfolding row_distance_def row using len by (intro query_distance_local) simp
qed

lemma flat_chunks_scan:
  assumes "metric_is_valid metric" "normalized \<or> metric \<noteq> Cosine" "st_inv s" "c \<le> length (st_chunk_ptrs s)"
  shows "flat_chunks table metric normalized s q has_deleted deleted [c..<length (st_chunk_ptrs s)]
      (min (c * st_rows_per_chunk s) (st_size s)) h =
    Some (fold (\<lambda>i. flat_offer has_deleted deleted i (row_distance (score_mode_of metric normalized) q s i))
      [min (c * st_rows_per_chunk s) (st_size s)..<st_size s] h)"
  using assms(4)
proof (induction "length (st_chunk_ptrs s) - c" arbitrary: c h)
  case 0
  then have "st_size s \<le> c * st_rows_per_chunk s" using st_invD(9) [OF assms(3)] by (simp add: st_capacity_def)
  then show ?case using 0 by (simp add: min_def)
next
  case (Suc k)
  let ?r = "st_rows_per_chunk s" and ?n = "st_size s"
  let ?f = "row_distance (score_mode_of metric normalized) q s"
  let ?base = "min (c * ?r) ?n"
  have c: "c < length (st_chunk_ptrs s)" using Suc by simp
  have data: "st_chunk_data s c = Some (st_chunk s c)" using c deref_chunk_nth [OF assms(3)] by (simp add: st_chunk_data_def)
  have rows: "?base + st_rows_in_chunk s c = min (Suc c * ?r) ?n"
    by (auto simp: st_rows_in_chunk_def Let_def min_def)
  have dist: "\<forall>r < st_rows_in_chunk s c.
      query_distance table (score_mode_of metric normalized) q (drop (r * st_dim s) (st_chunk s c)) (st_dim s) = ?f (?base + r)"
  proof (intro allI impI)
    fix r assume r: "r < st_rows_in_chunk s c"
    then have b: "?base = c * ?r" "c * ?r + r < ?n" "r < ?r"
      by (auto simp: st_rows_in_chunk_def Let_def split: if_splits)
    from chunk_row_distance [OF assms(3) c b(2,3)] show
      "query_distance table (score_mode_of metric normalized) q (drop (r * st_dim s) (st_chunk s c)) (st_dim s) = ?f (?base + r)"
      unfolding b(1) .
  qed
  have "[c..<length (st_chunk_ptrs s)] = c # [Suc c..<length (st_chunk_ptrs s)]" using c by (simp add: upt_conv_Cons)
  moreover have "[?base..<?n] = [?base..<?base + st_rows_in_chunk s c] @ [min (Suc c * ?r) ?n..<?n]"
  proof -
    have le: "?base + st_rows_in_chunk s c \<le> ?n" using rows by linarith
    have "[?base..<?base + st_rows_in_chunk s c + (?n - (?base + st_rows_in_chunk s c))] =
        [?base..<?base + st_rows_in_chunk s c] @ [?base + st_rows_in_chunk s c..<?n]"
      using upt_add_eq_append [of ?base "?base + st_rows_in_chunk s c" "?n - (?base + st_rows_in_chunk s c)"] le by simp
    then show ?thesis using le rows by simp
  qed
  ultimately show ?case
    using Suc.hyps(1) [of "Suc c"] Suc.hyps(2) c
      flat_chunk_scan [OF assms(1,2) dist, of 0 has_deleted deleted h]
    by (simp add: data rows del: upt_Suc)
qed

end

subsection \<open>The pre-test on the worst distance is exact\<close>

definition offers :: "(internal_id \<Rightarrow> f32) \<Rightarrow> tombstone_set \<Rightarrow> nat \<Rightarrow> neighbor list" where
  "offers f deleted n = map (\<lambda>i. mk_scored (f i) (word_of_nat i)) (filter (\<lambda>i. \<not> tb_test deleted i) [0..<n])"

lemma offers_Suc:
  "offers f deleted (Suc n) = offers f deleted n @ (if tb_test deleted n then [] else [mk_scored (f n) (word_of_nat n)])"
  by (simp add: offers_def)

lemma word_of_nat_less_u64: "i < j \<Longrightarrow> j < 2 ^ 64 \<Longrightarrow> (word_of_nat i :: u64) < word_of_nat j"
  by (simp add: word_less_nat_alt unat_of_nat)

lemma offer_scan:
  assumes "0 < length storage" "n \<le> 2 ^ 64" "tb_inv deleted" "\<forall>i<n. \<not> f32_is_nan (f i)"
  shows "fold (\<lambda>i. flat_offer (tb_any deleted) deleted i (f i)) [0..<n] (bh_make storage) =
    fold (\<lambda>c h. snd (bh_push candidate_less h c)) (offers f deleted n) (bh_make storage)"
  using assms(2,4)
proof (induction n)
  case (Suc n)
  define h where "h = fold (\<lambda>c h. snd (bh_push candidate_less h c)) (offers f deleted n) (bh_make storage)"
  have IH: "fold (\<lambda>i. flat_offer (tb_any deleted) deleted i (f i)) [0..<n] (bh_make storage) = h"
    using Suc by (simp add: h_def)
  have del: "tb_any deleted \<and> tb_test deleted n \<longleftrightarrow> tb_test deleted n"
    using tb_any_iff [OF assms(3)] by (auto simp: tb_rows_def)
  have ok: "\<forall>c\<in>set (offers f deleted n). cand_ok c"
    using Suc.prems by (auto simp: offers_def cand_ok_def)
  note p = push_all_ok [OF ok, of storage, folded h_def]
  let ?c = "mk_scored (f n) (word_of_nat n) :: neighbor"
  have skip: "bh_push candidate_less h ?c = (False, h)" if "bh_full h" "\<not> f32_lt (f n) (sc_distance (bh_data h ! 0))"
  proof -
    have size: "bh_size h = length (bh_data h)" "0 < length (bh_data h)"
      using that p assms(1) by (auto simp: bh_full_def)
    then have "bh_data h ! 0 \<in> set (bh_elems h)" by (simp add: bh_elems_def)
    moreover have "mset (bh_elems h) \<subseteq># mset (offers f deleted n)" using p by (simp add: keeps_best_def)
    ultimately have "bh_data h ! 0 \<in> set (offers f deleted n)" by (metis mset_subset_eqD set_mset_mset)
    then obtain j where j: "j < n" "bh_data h ! 0 = mk_scored (f j) (word_of_nat j)" by (auto simp: offers_def)
    have "\<not> (word_of_nat n :: u64) < word_of_nat j"
      using word_of_nat_less_u64 [OF j(1)] Suc.prems(1) by (simp add: order.asym)
    then have "\<not> candidate_less ?c (bh_data h ! 0)" using that(2) by (simp add: candidate_less_def j(2))
    then show ?thesis using size by (simp add: bh_push_def)
  qed
  have "flat_offer (tb_any deleted) deleted n (f n) h =
      fold (\<lambda>c h. snd (bh_push candidate_less h c)) (if tb_test deleted n then [] else [?c]) h"
    unfolding flat_offer_def del using skip by simp
  then show ?case
    unfolding offers_Suc fold_append comp_apply h_def [symmetric] by (simp add: IH)
qed (simp add: offers_def)

context kernel_laws
begin

lemma flat_search_top_k:
  assumes "metric_is_valid metric" "normalized \<or> metric \<noteq> Cosine" "st_inv s" "tb_inv deleted"
    "1 \<le> kn_k knobs" "kn_k knobs \<le> length out"
    and nan: "\<forall>i < st_size s. \<not> f32_is_nan (row_distance (score_mode_of metric normalized) q s i)"
  defines "cs \<equiv> offers (row_distance (score_mode_of metric normalized) q s) deleted (st_size s)"
  shows "\<exists>out'. flat_search table metric normalized s deleted q knobs out = Some (min (kn_k knobs) (length cs), out') \<and>
    length out' = length out \<and>
    take (min (kn_k knobs) (length cs)) out' = take (kn_k knobs) (sort_key cand_key cs)"
proof -
  let ?st = "take (kn_k knobs) out"
  have len: "length ?st = kn_k knobs" using assms(6) by simp
  have st0: "0 < length ?st" using len assms(5) by simp
  have sz: "st_size s \<le> 2 ^ 64"
    using st_invD(6,7) [OF assms(3)] by (simp add: kMaxVectorsPerCollection_def kInvalidInternalId_def)
  define h where "h = fold (\<lambda>c h. snd (bh_push candidate_less h c)) cs (bh_make ?st)"
  have fc: "flat_chunks table metric normalized s q (tb_any deleted) deleted [0..<length (st_chunk_ptrs s)] 0 (bh_make ?st) = Some h"
    using flat_chunks_scan [OF assms(1-3), of 0 q "tb_any deleted" deleted "bh_make ?st"]
      offer_scan [OF _ sz assms(4) nan, of ?st] st0 by (simp add: h_def cs_def)
  have ok: "\<forall>c\<in>set cs. cand_ok c" using nan by (auto simp: cs_def offers_def cand_ok_def)
  note p = push_all_ok [OF ok, of ?st, folded h_def]
  obtain n h' where so: "bh_sort_ascending candidate_less h = (n, h')" by fastforce
  note so' = cand.bh_sort_ascending_ok [OF p [THEN conjunct1] so]
  have "sc_id a = sc_id b \<Longrightarrow> a = b" if "a \<in> set cs" "b \<in> set cs" for a b
  proof -
    obtain i j where ij: "i < st_size s" "j < st_size s" "a = mk_scored (row_distance (score_mode_of metric normalized) q s i) (word_of_nat i)"
      "b = mk_scored (row_distance (score_mode_of metric normalized) q s j) (word_of_nat j)"
      using \<open>a \<in> set cs\<close> \<open>b \<in> set cs\<close> by (auto simp: cs_def offers_def)
    assume "sc_id a = sc_id b"
    then have "i = j"
      using ij sz word_of_nat_less_u64 [of i j] word_of_nat_less_u64 [of j i] by (cases i j rule: linorder_cases) auto
    then show ?thesis using ij by simp
  qed
  then have inj: "inj_on cand_key (set cs)" by (auto simp: inj_on_def cand_key_def)
  have tk: "take n (bh_data h') = take (kn_k knobs) (sort_key cand_key cs)"
    using p so' ok inj len by (intro keeps_best_sorted_prefix) auto
  have "bh_size h \<le> length (bh_data h)" using p [THEN conjunct1] by (simp only: bh_wf_def)
  then have "size (mset (bh_elems h)) = n" using so'(1) by (simp add: bh_elems_def)
  then have n: "n = min (kn_k knobs) (length cs)" using p len by (simp add: keeps_best_def)
  have ld: "length (bh_data h') = kn_k knobs" using so'(4) p len by simp
  then have "take n (bh_data h' @ drop (kn_k knobs) out) = take n (bh_data h')" using n by simp
  then show ?thesis
    using fc so tk n ld assms(5,6) by (auto simp: flat_search_def)
qed

end

subsection \<open>Properties\<close>

text \<open>C28. Flat search is exact: for a validated query over validated rows, with the scalar kernels,
  the search fills the first cells of the output with the \<open>k\<close> best live rows under the (distance, id)
  order, sorted ascending, for every chunk layout, block boundary and set of tombstones; no index
  assertion fires.\<close>

theorem flat_search_exact:
  assumes "metric_is_valid metric" "normalized \<or> metric \<noteq> Cosine" "st_inv s" "tb_inv deleted"
    and "1 \<le> kn_k knobs" "kn_k knobs \<le> length out"
    and "status_ok (validate_vector (qv_data q) (st_dim s))" "f32_is_finite (qv_inv_norm q)"
    and "\<forall>i < st_size s. status_ok (validate_vector (st_row s i) (st_dim s))"
  shows "let cs = map (\<lambda>i. mk_scored (query_distance scalar_kernel_table (score_mode_of metric normalized) q (st_row s i) (st_dim s)) (word_of_nat i))
             (filter (\<lambda>i. \<not> tb_test deleted i) [0..<st_size s]);
           best = take (kn_k knobs) (sort_key (\<lambda>c. (f32_val (sc_distance c), sc_id c)) cs)
         in \<exists>out'. flat_search scalar_kernel_table metric normalized s deleted q knobs out = Some (length best, out') \<and>
              take (length best) out' = best"
proof -
  have nan: "\<forall>i < st_size s. \<not> f32_is_nan (scalar.row_distance (score_mode_of metric normalized) q s i)"
    unfolding scalar.row_distance_def using assms(7-9) st_invD(2) [OF assms(3)]
    by (intro allI impI scalar.query_distance_not_nan)
      (auto simp: validate_vector_ok components_ok_def all_set_conv_all_nth)
  show ?thesis
    using scalar.flat_search_top_k [OF assms(1-6) nan]
    by (auto simp: Let_def offers_def scalar.row_distance_def cand_key_def [abs_def] min.commute)
qed

theorem flat_search_exact_witness:
  "let s = snd (st_append (\<lambda>n. Some (replicate n f32_one)) (projr (st_create \<lparr>so_dim = 1, so_rows_per_chunk = 1, so_max_rows = 2\<rparr>)) [f32_one]);
       cs = map (\<lambda>i. mk_scored (query_distance scalar_kernel_table (score_mode_of L2 False)
              \<lparr>qv_data = [f32_zero], qv_inv_norm = f32_one\<rparr> (st_row s i) (st_dim s)) (word_of_nat i)) [0..<st_size s]
   in \<exists>out'. flat_search scalar_kernel_table L2 False s tb_empty \<lparr>qv_data = [f32_zero], qv_inv_norm = f32_one\<rparr>
          \<lparr>kn_k = 1, kn_ef = 0\<rparr> [mk_scored f32_zero 0] = Some (1, out') \<and> take 1 out' = cs"
proof -
  have "has_single_bit 1" using has_single_bit_of_power [of 0] by simp
  then obtain s0 where c: "st_create \<lparr>so_dim = 1, so_rows_per_chunk = 1, so_max_rows = 2\<rparr> = Inr s0"
    by (simp add: st_create_def kMaxDim_def kMaxVectorsPerCollection_def kInvalidInternalId_def
        checked_mul3_def checked_mul_size_def)
  note c0 = st_create_ok [OF c]
  obtain res s where ap: "st_append (\<lambda>n. Some (replicate n f32_one)) s0 [f32_one] = (res, s)" by fastforce
  have "res \<noteq> Thrown" using ap c0 by (auto simp: st_append_def st_add_chunk_def split: option.splits if_splits)
  then have s: "st_inv s" "st_rows s = [[f32_one]]" "st_dim s = 1"
    using st_append_ok [OF c0(1) _ _ _ ap] c0 by (auto simp: alloc_fits_def)
  have sz: "st_size s = 1" using arg_cong [OF s(2), of length] by simp
  have r: "st_row s 0 = [f32_one]" using nth_st_rows [of 0 s] s(2) sz by simp
  have ok: "component_ok f32_one" "component_ok f32_zero"
    by (simp_all add: component_ok_def kMaxAbsComponent_def f32_eval)
  have t: "tb_test tb_empty i = False" for i by (simp add: tb_test_def tb_empty_def)
  have "let cs = map (\<lambda>i. mk_scored (query_distance scalar_kernel_table (score_mode_of L2 False)
             \<lparr>qv_data = [f32_zero], qv_inv_norm = f32_one\<rparr> (st_row s i) (st_dim s)) (word_of_nat i))
             (filter (\<lambda>i. \<not> tb_test tb_empty i) [0..<st_size s]);
           best = take (kn_k \<lparr>kn_k = 1, kn_ef = 0\<rparr>) (sort_key (\<lambda>c. (f32_val (sc_distance c), sc_id c)) cs)
         in \<exists>out'. flat_search scalar_kernel_table L2 False s tb_empty \<lparr>qv_data = [f32_zero], qv_inv_norm = f32_one\<rparr>
             \<lparr>kn_k = 1, kn_ef = 0\<rparr> [mk_scored f32_zero 0] = Some (length best, out') \<and> take (length best) out' = best"
    by (rule flat_search_exact) (use s sz r ok in \<open>simp_all add: validate_vector_ok f32_constants_finite\<close>)
  then show ?thesis unfolding Let_def c sum.sel ap snd_conv by (simp add: t sz)
qed

end
