(* ===== verification/VF_Graph.thy ===== *)
theory VF_Graph
  imports VF_VectorStore
begin

unbundle bit_operations_syntax

text \<open>
  HNSW graph storage (\<^verbatim>\<open>src/index/hnsw/hnsw_graph.hpp\<close>, \<^verbatim>\<open>hnsw_graph.cpp\<close>), down to the words of the
  level-0 chunks and of the upper-level arena. A list is a count word followed by ids at the address
  \<open>list_ptr\<close> computes; an address outside the assertion of \<open>list_ptr\<close> is \<open>None\<close>. The locale
  \<open>link_store\<close> states what search and insertion rely on (lists are independent of each other); its
  interpretation proves it of the memory layout.
\<close>

record graph_entry =
  he_id :: internal_id
  he_level :: nat

record hnsw_graph =
  hg_m :: nat
  hg_m0 :: nat
  hg_max_level :: nat
  hg_stride0 :: nat
  hg_stride_upper :: nat
  hg_nodes_per_chunk :: nat
  hg_chunk_shift :: nat
  hg_chunk_mask :: nat
  hg_arena_chunk_words :: nat
  hg_arena_shift :: nat
  hg_arena_mask :: nat
  hg_arena_used :: nat
  hg_levels :: "nat list"
  hg_upper :: "nat list"
  hg_l0_chunks :: "nat list list"
  hg_arena_chunks :: "nat list list"
  hg_entry :: u64

record graph_options =
  go_m :: nat
  go_max_level :: nat
  go_nodes_per_chunk :: nat
  go_arena_chunk_words :: nat

definition kDefaultArenaChunkWords :: nat where "kDefaultArenaChunkWords = 2 ^ 16"
definition kMaxNodesPerChunk :: nat where "kMaxNodesPerChunk = 2 ^ 16"

definition entry_valid :: "graph_entry \<Rightarrow> bool" where
  "entry_valid e \<longleftrightarrow> he_id e \<noteq> kInvalidInternalId"

definition pack_entry :: "graph_entry \<Rightarrow> u64" where
  "pack_entry e = push_bit 32 (word_of_nat (he_level e)) OR word_of_nat (he_id e)"

definition no_entry :: graph_entry where
  "no_entry = \<lparr>he_id = kInvalidInternalId, he_level = 0\<rparr>"

definition make_graph :: "graph_options \<Rightarrow> nat \<Rightarrow> nat \<Rightarrow> hnsw_graph" where
  "make_graph opts nodes_per_chunk arena_words =
     \<lparr>hg_m = go_m opts, hg_m0 = 2 * go_m opts mod 2 ^ 32, hg_max_level = go_max_level opts,
      hg_stride0 = 1 + 2 * go_m opts, hg_stride_upper = 1 + go_m opts,
      hg_nodes_per_chunk = nodes_per_chunk, hg_chunk_shift = countr_zero nodes_per_chunk,
      hg_chunk_mask = nodes_per_chunk - 1, hg_arena_chunk_words = arena_words,
      hg_arena_shift = countr_zero arena_words, hg_arena_mask = arena_words - 1, hg_arena_used = arena_words,
      hg_levels = [], hg_upper = [], hg_l0_chunks = [], hg_arena_chunks = [], hg_entry = pack_entry no_entry\<rparr>"

definition graph_create :: "graph_options \<Rightarrow> hnsw_graph result" where
  "graph_create opts =
     (if go_m opts < 2 then Inl (invalid_argument ''hnsw graph: m must be >= 2'')
      else if go_max_level opts < 1 then Inl (invalid_argument ''hnsw graph: max_level must be >= 1'')
      else (let stride0 = 1 + 2 * go_m opts; npc0 = go_nodes_per_chunk opts
            in if npc0 \<noteq> 0 \<and> (\<not> has_single_bit npc0 \<or> npc0 > 2 ^ 31)
               then Inl (invalid_argument ''hnsw graph: nodes_per_chunk must be a power of two <= 2^31'')
               else (let npc = (if npc0 = 0
                                then max 1 (min (bit_floor (max (kTargetChunkBytes div (stride0 * 4)) 1)) kMaxNodesPerChunk)
                                else npc0);
                         aw = (if go_arena_chunk_words opts = 0 then kDefaultArenaChunkWords else go_arena_chunk_words opts);
                         max_block = go_max_level opts * ((1 + go_m opts) mod 2 ^ 32)
                     in if \<not> has_single_bit aw \<or> aw < max_block \<or> aw > 2 ^ 31
                        then Inl (invalid_argument (''hnsw graph: arena_chunk_words must be a power of two in [max_level * (1 + m), 2^31], got '' @ show_nat aw))
                        else Inr (make_graph opts npc aw))))"

definition node_count :: "hnsw_graph \<Rightarrow> nat" where
  "node_count g = length (hg_levels g)"

definition link_capacity :: "hnsw_graph \<Rightarrow> nat \<Rightarrow> nat" where
  "link_capacity g level = (if level = 0 then hg_m0 g else hg_m g)"

definition node_level :: "hnsw_graph \<Rightarrow> internal_id \<Rightarrow> nat option" where
  "node_level g i = (if i < length (hg_levels g) then Some (hg_levels g ! i) else None)"

definition read_entry :: "hnsw_graph \<Rightarrow> graph_entry" where
  "read_entry g = \<lparr>he_id = unat (take_bit 32 (hg_entry g)), he_level = unat (take_bit 8 (drop_bit 32 (hg_entry g)))\<rparr>"

definition set_entry :: "hnsw_graph \<Rightarrow> graph_entry \<Rightarrow> hnsw_graph" where
  "set_entry g e = g\<lparr>hg_entry := pack_entry e\<rparr>"

datatype list_addr = L0Addr nat nat | ArenaAddr nat nat

definition list_ptr :: "hnsw_graph \<Rightarrow> internal_id \<Rightarrow> nat \<Rightarrow> list_addr option" where
  "list_ptr g i level =
     (if i < length (hg_levels g) \<and> level \<le> hg_levels g ! i
      then Some (if level = 0
                 then L0Addr (drop_bit (hg_chunk_shift g) i) ((i AND hg_chunk_mask g) * hg_stride0 g)
                 else (let offset = hg_upper g ! i
                       in ArenaAddr (drop_bit (hg_arena_shift g) offset)
                            ((offset AND hg_arena_mask g) + (level - 1) * hg_stride_upper g)))
      else None)"

definition read_word :: "hnsw_graph \<Rightarrow> list_addr \<Rightarrow> nat \<Rightarrow> nat" where
  "read_word g a k =
     (case a of L0Addr c off \<Rightarrow> hg_l0_chunks g ! c ! (off + k) | ArenaAddr c off \<Rightarrow> hg_arena_chunks g ! c ! (off + k))"

definition write_word :: "hnsw_graph \<Rightarrow> list_addr \<Rightarrow> nat \<Rightarrow> nat \<Rightarrow> hnsw_graph" where
  "write_word g a k v =
     (case a of
        L0Addr c off \<Rightarrow> g\<lparr>hg_l0_chunks := (hg_l0_chunks g)[c := (hg_l0_chunks g ! c)[off + k := v]]\<rparr>
      | ArenaAddr c off \<Rightarrow> g\<lparr>hg_arena_chunks := (hg_arena_chunks g)[c := (hg_arena_chunks g ! c)[off + k := v]]\<rparr>)"

text \<open>A \<open>LinkView\<close>: the count read once, then the ids.\<close>

definition view_ids :: "hnsw_graph \<Rightarrow> list_addr \<Rightarrow> internal_id list" where
  "view_ids g a = map (\<lambda>k. read_word g a (1 + k)) [0..<read_word g a 0]"

definition graph_links :: "hnsw_graph \<Rightarrow> internal_id \<Rightarrow> nat \<Rightarrow> internal_id list option" where
  "graph_links g i level = map_option (view_ids g) (list_ptr g i level)"

fun store_ids :: "hnsw_graph \<Rightarrow> list_addr \<Rightarrow> nat \<Rightarrow> internal_id list \<Rightarrow> hnsw_graph" where
  "store_ids g a k [] = g"
| "store_ids g a k (x # xs) = store_ids (write_word g a (1 + k) x) a (Suc k) xs"

definition set_links :: "hnsw_graph \<Rightarrow> internal_id \<Rightarrow> nat \<Rightarrow> internal_id list \<Rightarrow> hnsw_graph option" where
  "set_links g i level ids =
     (if length ids > link_capacity g level then None
      else case list_ptr g i level of
        None \<Rightarrow> None
      | Some a \<Rightarrow> Some (write_word (store_ids g a 0 ids) a 0 (length ids)))"

definition try_append_link :: "hnsw_graph \<Rightarrow> internal_id \<Rightarrow> nat \<Rightarrow> internal_id \<Rightarrow> (bool \<times> hnsw_graph) option" where
  "try_append_link g i level neighbor =
     (case list_ptr g i level of
        None \<Rightarrow> None
      | Some a \<Rightarrow>
          (let n = read_word g a 0
           in if n \<ge> link_capacity g level then Some (False, g)
              else Some (True, write_word (write_word g a (1 + n) neighbor) a 0 (n + 1))))"

text \<open>
  \<open>add_node\<close>. \<open>mem_l0\<close> and \<open>mem_arena\<close> say whether the allocations before and after the arena
  check succeed.
\<close>

definition add_node :: "bool \<Rightarrow> bool \<Rightarrow> hnsw_graph \<Rightarrow> nat \<Rightarrow> status outcome \<times> hnsw_graph" where
  "add_node mem_l0 mem_arena g level =
     (if level > hg_max_level g
      then (Returned (invalid_argument (''hnsw graph: level '' @ show_nat level @ '' exceeds max_level '' @
              show_nat (hg_max_level g))), g)
      else (let i = length (hg_levels g)
            in if i \<ge> kMaxVectorsPerCollection
               then (Returned (resource_exhausted ''hnsw graph: node id space exhausted''), g)
               else if \<not> mem_l0 then (Thrown, g)
               else (let block_words = level * hg_stride_upper g;
                         opens = (level > 0 \<and> hg_arena_used g + block_words > hg_arena_chunk_words g)
                     in if opens \<and> length (hg_arena_chunks g) \<ge> 2 ^ (32 - hg_arena_shift g)
                        then (Returned (resource_exhausted ''hnsw graph: upper-level arena exhausted''), g)
                        else if opens \<and> \<not> mem_arena then (Thrown, g)
                        else (let l0 = (if i AND hg_chunk_mask g = 0
                                        then hg_l0_chunks g @ [replicate (hg_nodes_per_chunk g * hg_stride0 g) 0]
                                        else hg_l0_chunks g);
                                  arena = (if opens then hg_arena_chunks g @ [replicate (hg_arena_chunk_words g) 0]
                                           else hg_arena_chunks g);
                                  used = (if opens then 0 else hg_arena_used g);
                                  offset = (if level > 0
                                            then (push_bit (hg_arena_shift g) (length arena - 1) + used) mod 2 ^ 32
                                            else 0)
                              in (Returned ok_status,
                                  g\<lparr>hg_l0_chunks := l0, hg_arena_chunks := arena,
                                    hg_arena_used := (if level > 0 then used + block_words else hg_arena_used g),
                                    hg_levels := hg_levels g @ [level], hg_upper := hg_upper g @ [offset]\<rparr>)))))"

subsection \<open>Uniform chunks as one array\<close>

definition uniform :: "nat \<Rightarrow> 'a list list \<Rightarrow> bool" where
  "uniform n xss \<longleftrightarrow> (\<forall>xs\<in>set xss. length xs = n)"

lemma uniform_length: "uniform n xss \<Longrightarrow> length (concat xss) = length xss * n"
  by (induction xss) (auto simp: uniform_def)

lemma uniform_nth:
  assumes "uniform n xss" "c < length xss" "off < n"
  shows "xss ! c ! off = concat xss ! (c * n + off)"
  using assms
proof (induction xss arbitrary: c)
  case (Cons xs xss)
  then show ?case by (cases c) (auto simp: uniform_def nth_append)
qed simp

lemma uniform_update:
  assumes "uniform n xss" "c < length xss" "off < n"
  shows "concat (xss[c := (xss ! c)[off := v]]) = (concat xss)[c * n + off := v]"
    and "uniform n (xss[c := (xss ! c)[off := v]])"
proof -
  show "concat (xss[c := (xss ! c)[off := v]]) = (concat xss)[c * n + off := v]"
    using assms
  proof (induction xss arbitrary: c)
    case (Cons xs xss)
    then show ?case by (cases c) (auto simp: uniform_def list_update_append)
  qed simp
  show "uniform n (xss[c := (xss ! c)[off := v]])"
    using assms set_update_subset_insert [of xss c "(xss ! c)[off := v]"] by (auto simp: uniform_def)
qed


subsection \<open>Layout invariant\<close>

definition valid_list :: "hnsw_graph \<Rightarrow> internal_id \<Rightarrow> nat \<Rightarrow> bool" where
  "valid_list g i l \<longleftrightarrow> i < length (hg_levels g) \<and> l \<le> hg_levels g ! i"

definition gmem :: "hnsw_graph \<Rightarrow> nat \<Rightarrow> nat list" where
  "gmem g l = concat (if l = 0 then hg_l0_chunks g else hg_arena_chunks g)"

definition gbase :: "hnsw_graph \<Rightarrow> internal_id \<Rightarrow> nat \<Rightarrow> nat" where
  "gbase g i l = (if l = 0 then i * hg_stride0 g else hg_upper g ! i + (l - 1) * hg_stride_upper g)"

definition gstride :: "hnsw_graph \<Rightarrow> nat \<Rightarrow> nat" where
  "gstride g l = (if l = 0 then hg_stride0 g else hg_stride_upper g)"

definition params_ok :: "hnsw_graph \<Rightarrow> bool" where
  "params_ok g \<longleftrightarrow>
     2 \<le> hg_m g \<and> hg_m0 g = 2 * hg_m g \<and> 1 \<le> hg_max_level g \<and>
     hg_stride0 g = 1 + hg_m0 g \<and> hg_stride_upper g = 1 + hg_m g \<and>
     hg_nodes_per_chunk g = 2 ^ hg_chunk_shift g \<and> hg_chunk_mask g = 2 ^ hg_chunk_shift g - 1 \<and>
     hg_arena_chunk_words g = 2 ^ hg_arena_shift g \<and> hg_arena_mask g = 2 ^ hg_arena_shift g - 1 \<and>
     hg_max_level g * hg_stride_upper g \<le> hg_arena_chunk_words g \<and> hg_arena_shift g \<le> 32"

definition arena_ok :: "hnsw_graph \<Rightarrow> bool" where
  "arena_ok g \<longleftrightarrow>
     uniform (hg_arena_chunk_words g) (hg_arena_chunks g) \<and>
     length (hg_arena_chunks g) \<le> 2 ^ (32 - hg_arena_shift g) \<and> hg_arena_used g \<le> hg_arena_chunk_words g \<and>
     (hg_arena_chunks g = [] \<longrightarrow> hg_arena_used g = hg_arena_chunk_words g) \<and>
     (\<forall>i < length (hg_levels g). 0 < hg_levels g ! i \<longrightarrow>
        hg_upper g ! i mod hg_arena_chunk_words g + hg_levels g ! i * hg_stride_upper g \<le> hg_arena_chunk_words g \<and>
        hg_upper g ! i + hg_levels g ! i * hg_stride_upper g + hg_arena_chunk_words g \<le>
          length (hg_arena_chunks g) * hg_arena_chunk_words g + hg_arena_used g) \<and>
     (\<forall>i j. i < j \<longrightarrow> j < length (hg_levels g) \<longrightarrow> 0 < hg_levels g ! i \<longrightarrow> 0 < hg_levels g ! j \<longrightarrow>
        hg_upper g ! i + hg_levels g ! i * hg_stride_upper g \<le> hg_upper g ! j)"

definition layout_ok :: "hnsw_graph \<Rightarrow> bool" where
  "layout_ok g \<longleftrightarrow>
     params_ok g \<and> arena_ok g \<and>
     length (hg_upper g) = length (hg_levels g) \<and> (\<forall>v\<in>set (hg_levels g). v \<le> hg_max_level g) \<and>
     length (hg_levels g) \<le> kMaxVectorsPerCollection \<and>
     uniform (hg_nodes_per_chunk g * hg_stride0 g) (hg_l0_chunks g) \<and>
     length (hg_l0_chunks g) = (length (hg_levels g) + hg_nodes_per_chunk g - 1) div hg_nodes_per_chunk g"

text \<open>Memory that no list owns yet still holds the zeros of its allocation.\<close>

definition free_zero :: "hnsw_graph \<Rightarrow> bool" where
  "free_zero g \<longleftrightarrow>
     (\<forall>k < length (gmem g 0). length (hg_levels g) * hg_stride0 g \<le> k \<longrightarrow> gmem g 0 ! k = 0) \<and>
     (\<forall>k < length (gmem g 1). length (hg_arena_chunks g) * hg_arena_chunk_words g + hg_arena_used g \<le> k + hg_arena_chunk_words g \<longrightarrow>
        gmem g 1 ! k = 0)"

definition hg_inv :: "hnsw_graph \<Rightarrow> bool" where
  "hg_inv g \<longleftrightarrow> layout_ok g \<and> free_zero g \<and>
     (\<forall>i l. valid_list g i l \<longrightarrow> gmem g l ! gbase g i l \<le> link_capacity g l)"

definition hg_lists :: "hnsw_graph \<Rightarrow> internal_id \<Rightarrow> nat \<Rightarrow> internal_id list" where
  "hg_lists g i l = take (gmem g l ! gbase g i l) (drop (gbase g i l + 1) (gmem g l))"

lemma params_okD:
  assumes "layout_ok g"
  shows "2 \<le> hg_m g" "hg_m0 g = 2 * hg_m g" "hg_stride0 g = 1 + hg_m0 g" "hg_stride_upper g = 1 + hg_m g"
    "hg_nodes_per_chunk g = 2 ^ hg_chunk_shift g" "hg_chunk_mask g = 2 ^ hg_chunk_shift g - 1"
    "hg_arena_chunk_words g = 2 ^ hg_arena_shift g" "hg_arena_mask g = 2 ^ hg_arena_shift g - 1"
    "0 < hg_nodes_per_chunk g" "0 < hg_arena_chunk_words g" "0 < hg_stride0 g" "0 < hg_stride_upper g"
    "hg_arena_shift g \<le> 32" "hg_max_level g * hg_stride_upper g \<le> hg_arena_chunk_words g"
proof -
  have p: "params_ok g" using assms by (simp add: layout_ok_def)
  then show "2 \<le> hg_m g" "hg_m0 g = 2 * hg_m g" "hg_stride0 g = 1 + hg_m0 g" "hg_stride_upper g = 1 + hg_m g"
    "hg_nodes_per_chunk g = 2 ^ hg_chunk_shift g" "hg_chunk_mask g = 2 ^ hg_chunk_shift g - 1"
    "hg_arena_chunk_words g = 2 ^ hg_arena_shift g" "hg_arena_mask g = 2 ^ hg_arena_shift g - 1"
    "hg_arena_shift g \<le> 32" "hg_max_level g * hg_stride_upper g \<le> hg_arena_chunk_words g"
    unfolding params_ok_def by blast+
  from p show "0 < hg_nodes_per_chunk g" "0 < hg_arena_chunk_words g" "0 < hg_stride0 g" "0 < hg_stride_upper g"
    by (simp_all add: params_ok_def)
qed

lemma gstride_capacity: "layout_ok g \<Longrightarrow> gstride g l = 1 + link_capacity g l"
  by (simp add: gstride_def link_capacity_def params_okD)

lemma l0_chunk_bound:
  assumes "layout_ok g" "i < length (hg_levels g)"
  shows "i div hg_nodes_per_chunk g < length (hg_l0_chunks g)"
proof -
  have pos: "0 < hg_nodes_per_chunk g" using params_okD(9) [OF assms(1)] .
  have "i div hg_nodes_per_chunk g * hg_nodes_per_chunk g < length (hg_levels g)"
    using assms(2) le_less_trans [OF div_times_less_eq_dividend] by blast
  then have "Suc (i div hg_nodes_per_chunk g) * hg_nodes_per_chunk g \<le> length (hg_levels g) + hg_nodes_per_chunk g - 1"
    by simp
  then have "Suc (i div hg_nodes_per_chunk g) \<le> (length (hg_levels g) + hg_nodes_per_chunk g - 1) div hg_nodes_per_chunk g"
    using pos by (simp add: less_eq_div_iff_mult_less_eq)
  then show ?thesis using assms(1) by (simp add: layout_ok_def)
qed

text \<open>The chunk and offset of a list are its linear address split by the chunk length.\<close>

lemma list_ptr_l0:
  assumes "layout_ok g" "i < length (hg_levels g)" "k < hg_stride0 g"
  defines "c \<equiv> i div hg_nodes_per_chunk g" and "off \<equiv> (i mod hg_nodes_per_chunk g) * hg_stride0 g"
  shows "list_ptr g i 0 = Some (L0Addr c off)" "c < length (hg_l0_chunks g)"
    "off + k < hg_nodes_per_chunk g * hg_stride0 g" "c * (hg_nodes_per_chunk g * hg_stride0 g) + (off + k) = gbase g i 0 + k"
proof -
  note p = params_okD [OF assms(1)]
  show "list_ptr g i 0 = Some (L0Addr c off)"
    using assms(2) p(5,6) by (simp add: list_ptr_def c_def off_def and_mask_mod drop_bit_eq_div)
  show "c < length (hg_l0_chunks g)" unfolding c_def using l0_chunk_bound [OF assms(1,2)] .
  have "Suc (i mod hg_nodes_per_chunk g) \<le> hg_nodes_per_chunk g" using p(9) by (simp add: Suc_leI)
  from mult_le_mono1 [OF this, of "hg_stride0 g"] show "off + k < hg_nodes_per_chunk g * hg_stride0 g"
    using assms(3) by (simp add: off_def)
  have "(i div hg_nodes_per_chunk g * hg_nodes_per_chunk g + i mod hg_nodes_per_chunk g) * hg_stride0 g = i * hg_stride0 g"
    by simp
  then show "c * (hg_nodes_per_chunk g * hg_stride0 g) + (off + k) = gbase g i 0 + k"
    by (simp only: c_def off_def gbase_def distrib_right mult.assoc add.assoc) simp
qed

lemma list_ptr_upper:
  assumes "layout_ok g" "valid_list g i l" "0 < l" "k < hg_stride_upper g"
  defines "c \<equiv> hg_upper g ! i div hg_arena_chunk_words g"
    and "off \<equiv> hg_upper g ! i mod hg_arena_chunk_words g + (l - 1) * hg_stride_upper g"
  shows "list_ptr g i l = Some (ArenaAddr c off)" "c < length (hg_arena_chunks g)"
    "off + k < hg_arena_chunk_words g" "c * hg_arena_chunk_words g + (off + k) = gbase g i l + k"
proof -
  note p = params_okD [OF assms(1)]
  have i: "i < length (hg_levels g)" "l \<le> hg_levels g ! i" "0 < hg_levels g ! i"
    using assms(2,3) by (auto simp: valid_list_def)
  have ar: "hg_upper g ! i mod hg_arena_chunk_words g + hg_levels g ! i * hg_stride_upper g \<le> hg_arena_chunk_words g"
    "hg_upper g ! i + hg_levels g ! i * hg_stride_upper g + hg_arena_chunk_words g \<le>
      length (hg_arena_chunks g) * hg_arena_chunk_words g + hg_arena_used g" "hg_arena_used g \<le> hg_arena_chunk_words g"
    using assms(1) i(1,3) by (simp_all add: layout_ok_def arena_ok_def)
  show "list_ptr g i l = Some (ArenaAddr c off)"
    using i(1,2) assms(3) p(7,8) by (simp add: list_ptr_def c_def off_def and_mask_mod drop_bit_eq_div Let_def)
  have blk: "l * hg_stride_upper g \<le> hg_levels g ! i * hg_stride_upper g" using i(2) by (rule mult_le_mono1)
  have "(l - 1) * hg_stride_upper g + hg_stride_upper g = l * hg_stride_upper g"
    using assms(3) by (cases l) simp_all
  then show "off + k < hg_arena_chunk_words g" unfolding off_def using ar(1) blk assms(4) by linarith
  have "0 < hg_levels g ! i * hg_stride_upper g" using i(3) p(12) by simp
  then have "hg_upper g ! i < length (hg_arena_chunks g) * hg_arena_chunk_words g" using ar(2,3) by linarith
  then show "c < length (hg_arena_chunks g)" unfolding c_def using p(10) by (simp add: div_less_iff_less_mult)
  show "c * hg_arena_chunk_words g + (off + k) = gbase g i l + k"
    using div_mult_mod_eq [of "hg_upper g ! i" "hg_arena_chunk_words g"] assms(3)
    by (simp add: c_def off_def gbase_def)
qed

lemma list_ptr_None: "list_ptr g i l = None \<longleftrightarrow> \<not> valid_list g i l"
  by (auto simp: list_ptr_def valid_list_def)

lemma uniform_l0: "layout_ok g \<Longrightarrow> uniform (hg_nodes_per_chunk g * hg_stride0 g) (hg_l0_chunks g)"
  by (simp add: layout_ok_def)

lemma uniform_arena: "layout_ok g \<Longrightarrow> uniform (hg_arena_chunk_words g) (hg_arena_chunks g)"
  by (simp add: layout_ok_def arena_ok_def)

text \<open>Both kinds of list at once.\<close>

definition gchunks :: "hnsw_graph \<Rightarrow> nat \<Rightarrow> nat list list" where
  "gchunks g l = (if l = 0 then hg_l0_chunks g else hg_arena_chunks g)"

definition gclen :: "hnsw_graph \<Rightarrow> nat \<Rightarrow> nat" where
  "gclen g l = (if l = 0 then hg_nodes_per_chunk g * hg_stride0 g else hg_arena_chunk_words g)"

lemma gmem_gchunks: "gmem g l = concat (gchunks g l)"
  by (simp add: gmem_def gchunks_def)

lemma uniform_gchunks: "layout_ok g \<Longrightarrow> uniform (gclen g l) (gchunks g l)"
  by (simp add: gclen_def gchunks_def uniform_l0 uniform_arena)

lemma list_ptr_split:
  assumes "layout_ok g" "valid_list g i l" "k < gstride g l"
  obtains c off where "list_ptr g i l = Some (if l = 0 then L0Addr c off else ArenaAddr c off)"
    "c < length (gchunks g l)" "off + k < gclen g l" "c * gclen g l + (off + k) = gbase g i l + k"
proof (cases "l = 0")
  case True
  have i: "i < length (hg_levels g)" using assms(2) by (simp add: valid_list_def)
  have k: "k < hg_stride0 g" using assms(3) True by (simp add: gstride_def)
  show ?thesis using that list_ptr_l0 [OF assms(1) i k] True by (simp add: gchunks_def gclen_def)
next
  case False
  then have k: "0 < l" "k < hg_stride_upper g" using assms(3) by (simp_all add: gstride_def)
  show ?thesis using that list_ptr_upper [OF assms(1,2) k] False by (simp add: gchunks_def gclen_def)
qed

lemma gbase_bound:
  assumes "layout_ok g" "valid_list g i l" "k < gstride g l"
  shows "gbase g i l + k < length (gmem g l)"
proof -
  obtain c off where a: "c < length (gchunks g l)" "off + k < gclen g l" "c * gclen g l + (off + k) = gbase g i l + k"
    using list_ptr_split [OF assms] by blast
  have "Suc c * gclen g l \<le> length (gchunks g l) * gclen g l" using a(1) by (intro mult_le_mono1) simp
  moreover have "length (gmem g l) = length (gchunks g l) * gclen g l"
    unfolding gmem_gchunks using uniform_length [OF uniform_gchunks [OF assms(1)]] .
  ultimately show ?thesis using a(2,3) by simp
qed

lemma read_word_gmem:
  assumes "layout_ok g" "list_ptr g i l = Some a" "k < gstride g l"
  shows "read_word g a k = gmem g l ! (gbase g i l + k)"
proof -
  have v: "valid_list g i l" using assms(2) list_ptr_None [of g i l] by auto
  obtain c off where x: "list_ptr g i l = Some (if l = 0 then L0Addr c off else ArenaAddr c off)"
    "c < length (gchunks g l)" "off + k < gclen g l" "c * gclen g l + (off + k) = gbase g i l + k"
    using list_ptr_split [OF assms(1) v assms(3)] by blast
  have "gchunks g l ! c ! (off + k) = gmem g l ! (gbase g i l + k)"
    unfolding gmem_gchunks uniform_nth [OF uniform_gchunks [OF assms(1)] x(2,3)] x(4) ..
  then show ?thesis using assms(2) x(1) by (cases "l = 0") (auto simp: read_word_def gchunks_def)
qed

text \<open>Writing one word changes that word of one memory and nothing else.\<close>

definition same_shape :: "hnsw_graph \<Rightarrow> hnsw_graph \<Rightarrow> bool" where
  "same_shape g g' \<longleftrightarrow>
     (\<exists>l0 ar. g' = g\<lparr>hg_l0_chunks := l0, hg_arena_chunks := ar\<rparr> \<and>
        length l0 = length (hg_l0_chunks g) \<and> length ar = length (hg_arena_chunks g) \<and>
        (uniform (gclen g 0) (hg_l0_chunks g) \<longrightarrow> uniform (gclen g 0) l0) \<and>
        (uniform (hg_arena_chunk_words g) (hg_arena_chunks g) \<longrightarrow> uniform (hg_arena_chunk_words g) ar))"

lemma same_shape_refl [simp]: "same_shape g g"
  unfolding same_shape_def by (intro exI [of _ "hg_l0_chunks g"] exI [of _ "hg_arena_chunks g"]) simp

lemma same_shape_trans:
  assumes "same_shape g g'" "same_shape g' g''"
  shows "same_shape g g''"
proof -
  obtain l0 ar where 1: "g' = g\<lparr>hg_l0_chunks := l0, hg_arena_chunks := ar\<rparr>" "length l0 = length (hg_l0_chunks g)"
    "length ar = length (hg_arena_chunks g)" "uniform (gclen g 0) (hg_l0_chunks g) \<longrightarrow> uniform (gclen g 0) l0"
    "uniform (hg_arena_chunk_words g) (hg_arena_chunks g) \<longrightarrow> uniform (hg_arena_chunk_words g) ar"
    using assms(1) unfolding same_shape_def by blast
  obtain l1 ar1 where 2: "g'' = g'\<lparr>hg_l0_chunks := l1, hg_arena_chunks := ar1\<rparr>" "length l1 = length (hg_l0_chunks g')"
    "length ar1 = length (hg_arena_chunks g')" "uniform (gclen g' 0) (hg_l0_chunks g') \<longrightarrow> uniform (gclen g' 0) l1"
    "uniform (hg_arena_chunk_words g') (hg_arena_chunks g') \<longrightarrow> uniform (hg_arena_chunk_words g') ar1"
    using assms(2) unfolding same_shape_def by blast
  have c: "gclen g' 0 = gclen g 0" "hg_arena_chunk_words g' = hg_arena_chunk_words g" "hg_l0_chunks g' = l0"
    "hg_arena_chunks g' = ar" by (simp_all add: 1(1) gclen_def)
  have e: "g'' = g\<lparr>hg_l0_chunks := l1, hg_arena_chunks := ar1\<rparr>" by (simp add: 2(1) 1(1))
  have n: "length l1 = length (hg_l0_chunks g)" "length ar1 = length (hg_arena_chunks g)"
    using 2(2,3) 1(2,3) by (simp_all only: c)
  have u: "uniform (gclen g 0) (hg_l0_chunks g) \<longrightarrow> uniform (gclen g 0) l1"
    "uniform (hg_arena_chunk_words g) (hg_arena_chunks g) \<longrightarrow> uniform (hg_arena_chunk_words g) ar1"
    using 1(4,5) 2(4,5) [unfolded c] by simp_all
  show ?thesis
    unfolding same_shape_def by (rule exI [of _ l1], rule exI [of _ ar1], intro conjI e n u)
qed

lemma same_shapeD:
  assumes "same_shape g g'"
  shows "hg_levels g' = hg_levels g" "hg_m g' = hg_m g" "hg_max_level g' = hg_max_level g" "hg_entry g' = hg_entry g"
    "list_ptr g' i l = list_ptr g i l" "valid_list g' i l = valid_list g i l" "gbase g' i l = gbase g i l"
    "gstride g' l = gstride g l" "link_capacity g' l = link_capacity g l" "gclen g' l = gclen g l"
    "read_entry g' = read_entry g" "node_count g' = node_count g"
    "layout_ok g \<Longrightarrow> layout_ok g'"
proof -
  obtain l0 ar where g': "g' = g\<lparr>hg_l0_chunks := l0, hg_arena_chunks := ar\<rparr>" and u: "length l0 = length (hg_l0_chunks g)"
    "length ar = length (hg_arena_chunks g)" "uniform (gclen g 0) (hg_l0_chunks g) \<longrightarrow> uniform (gclen g 0) l0"
    "uniform (hg_arena_chunk_words g) (hg_arena_chunks g) \<longrightarrow> uniform (hg_arena_chunk_words g) ar"
    using assms unfolding same_shape_def by blast
  show "hg_levels g' = hg_levels g" "hg_m g' = hg_m g" "hg_max_level g' = hg_max_level g" "hg_entry g' = hg_entry g"
    "list_ptr g' i l = list_ptr g i l" "valid_list g' i l = valid_list g i l" "gbase g' i l = gbase g i l"
    "gstride g' l = gstride g l" "link_capacity g' l = link_capacity g l" "gclen g' l = gclen g l"
    "read_entry g' = read_entry g" "node_count g' = node_count g"
    by (simp_all add: g' list_ptr_def valid_list_def gbase_def gstride_def link_capacity_def gclen_def
      read_entry_def node_count_def)
  have e: "ar = [] \<longleftrightarrow> hg_arena_chunks g = []" using u(2) by (metis length_0_conv)
  have "params_ok g' = params_ok g" by (simp add: g' params_ok_def)
  moreover have "arena_ok g'" if "arena_ok g" using that u(2,4) e by (simp add: arena_ok_def g')
  ultimately show "layout_ok g'" if "layout_ok g"
    using that u(1,3) by (simp add: layout_ok_def gclen_def) (simp add: g')
qed

lemma write_word_gmem:
  assumes "layout_ok g" "list_ptr g i l = Some a" "k < gstride g l"
  shows "same_shape g (write_word g a k v)"
    "gmem (write_word g a k v) l' = (if (l' = 0) = (l = 0) then (gmem g l')[gbase g i l + k := v] else gmem g l')"
proof -
  have vl: "valid_list g i l" using assms(2) list_ptr_None [of g i l] by auto
  obtain c off where x: "list_ptr g i l = Some (if l = 0 then L0Addr c off else ArenaAddr c off)"
    "c < length (gchunks g l)" "off + k < gclen g l" "c * gclen g l + (off + k) = gbase g i l + k"
    using list_ptr_split [OF assms(1) vl assms(3)] by blast
  define cs where "cs = (gchunks g l)[c := (gchunks g l ! c)[off + k := v]]"
  note u = uniform_update [OF uniform_gchunks [OF assms(1)] x(2,3), of v, folded cs_def]
  have w: "write_word g a k v = (if l = 0 then g\<lparr>hg_l0_chunks := cs\<rparr> else g\<lparr>hg_arena_chunks := cs\<rparr>)"
    using assms(2) x(1) by (auto simp: write_word_def cs_def gchunks_def)
  have len: "length cs = length (gchunks g l)" by (simp add: cs_def)
  show "same_shape g (write_word g a k v)"
  proof (cases "l = 0")
    case True
    then show ?thesis unfolding same_shape_def w using u(2) len
      by (intro exI [of _ cs] exI [of _ "hg_arena_chunks g"]) (simp add: gclen_def gchunks_def)
  next
    case False
    then show ?thesis unfolding same_shape_def w using u(2) len
      by (intro exI [of _ "hg_l0_chunks g"] exI [of _ cs]) (simp add: gclen_def gchunks_def)
  qed
  have gm: "gmem g l'' = gmem g l" if "(l'' = 0) = (l = 0)" for l'' using that by (auto simp: gmem_def)
  have "concat cs = (gmem g l)[gbase g i l + k := v]" using u(1) x(4) by (simp add: gmem_gchunks)
  then show "gmem (write_word g a k v) l' = (if (l' = 0) = (l = 0) then (gmem g l')[gbase g i l + k := v] else gmem g l')"
    unfolding w using gm [of l'] by (auto simp: gmem_def)
qed


subsection \<open>Lists are disjoint\<close>

lemma lists_disjoint:
  assumes "layout_ok g" "valid_list g i l" "valid_list g j l'" "(i, l) \<noteq> (j, l')" "(l = 0) = (l' = 0)"
  shows "gbase g i l + gstride g l \<le> gbase g j l' \<or> gbase g j l' + gstride g l' \<le> gbase g i l"
proof (cases "l = 0")
  case True
  then have ij: "i \<noteq> j" "l' = 0" using assms(4,5) by auto
  have "a < b \<Longrightarrow> a * hg_stride0 g + hg_stride0 g \<le> b * hg_stride0 g" for a b
    using mult_le_mono1 [of "Suc a" b "hg_stride0 g"] by simp
  then show ?thesis using ij True by (cases i j rule: linorder_cases) (auto simp: gbase_def gstride_def)
next
  case False
  let ?s = "hg_stride_upper g"
  have l: "0 < l" "0 < l'" using False assms(5) by auto
  have blk: "(a - 1) * ?s + ?s = a * ?s" if "0 < a" for a using that by (cases a) simp_all
  have within: "gbase g a b + ?s \<le> hg_upper g ! a + hg_levels g ! a * ?s" if "valid_list g a b" "0 < b" for a b
  proof -
    have "b * ?s \<le> hg_levels g ! a * ?s" using that by (intro mult_le_mono1) (simp add: valid_list_def)
    then show ?thesis using blk [OF that(2)] that(2) by (simp add: gbase_def)
  qed
  have start: "hg_upper g ! a \<le> gbase g a b" if "0 < b" for a b using that by (simp add: gbase_def)
  have ord: "hg_upper g ! a + hg_levels g ! a * ?s \<le> hg_upper g ! b"
    if "a < b" "valid_list g a x" "valid_list g b y" "0 < x" "0 < y" for a b x y
    using that assms(1) by (auto simp: layout_ok_def arena_ok_def valid_list_def)
  have same: "a < b \<Longrightarrow> 0 < a \<Longrightarrow> (a - 1) * ?s + ?s \<le> (b - 1) * ?s" for a b
    using mult_le_mono1 [of "Suc (a - 1)" "b - 1" ?s] by (cases a; cases b) simp_all
  have gs: "gstride g l = ?s" "gstride g l' = ?s" using l by (simp_all add: gstride_def)
  show ?thesis
  proof (cases i j rule: linorder_cases)
    case less
    then show ?thesis using ord [OF less assms(2,3) l] within [OF assms(2) l(1)] start [OF l(2), of j] gs by linarith
  next
    case greater
    then show ?thesis using ord [OF greater assms(3,2) l(2,1)] within [OF assms(3) l(2)] start [OF l(1), of i] gs by linarith
  next
    case equal
    then have "l < l' \<or> l' < l" using assms(4) by auto
    then show ?thesis using same [of l l'] same [of l' l] l equal gs by (auto simp: gbase_def)
  qed
qed

definition outside :: "hnsw_graph \<Rightarrow> internal_id \<Rightarrow> nat \<Rightarrow> nat \<Rightarrow> nat \<Rightarrow> bool" where
  "outside g i l l' k \<longleftrightarrow>
     (l' = 0) \<noteq> (l = 0) \<or> k < gbase g i l \<or> gbase g i l + gstride g l \<le> k"

lemma outside_other_list:
  assumes "layout_ok g" "valid_list g i l" "valid_list g j l'" "(i, l) \<noteq> (j, l')" "m < gstride g l'"
  shows "outside g i l l' (gbase g j l' + m)"
proof (cases "(l = 0) = (l' = 0)")
  case True
  then show ?thesis using lists_disjoint [OF assms(1-4)] assms(5) by (auto simp: outside_def)
qed (auto simp: outside_def)

lemma write_word_outside:
  assumes "layout_ok g" "list_ptr g i l = Some a" "k < gstride g l" "outside g i l l' m"
  shows "gmem (write_word g a k v) l' ! m = gmem g l' ! m"
  using write_word_gmem(2) [OF assms(1-3), of v l'] assms(3,4) by (auto simp: outside_def)

lemma write_word_same:
  assumes "layout_ok g" "list_ptr g i l = Some a" "k < gstride g l" "m < gstride g l"
  shows "gmem (write_word g a k v) l ! (gbase g i l + m) = (if m = k then v else gmem g l ! (gbase g i l + m))"
proof -
  have vl: "valid_list g i l" using assms(2) list_ptr_None [of g i l] by auto
  show ?thesis
    using write_word_gmem(2) [OF assms(1-3), of v l] gbase_bound [OF assms(1) vl assms(4)] by auto
qed

lemma same_shape_outside:
  assumes "same_shape g g'"
  shows "outside g' i l l' k = outside g i l l' k"
  by (simp add: outside_def same_shapeD [OF assms])

lemma store_ids_ok:
  assumes "layout_ok g" "list_ptr g i l = Some a" "k + length ids < gstride g l"
  shows "same_shape g (store_ids g a k ids) \<and>
    (\<forall>m < gstride g l. gmem (store_ids g a k ids) l ! (gbase g i l + m) =
       (if k < m \<and> m \<le> k + length ids then ids ! (m - Suc k) else gmem g l ! (gbase g i l + m))) \<and>
    (\<forall>l' m. outside g i l l' m \<longrightarrow> gmem (store_ids g a k ids) l' ! m = gmem g l' ! m)"
  using assms
proof (induction g a k ids rule: store_ids.induct)
  case (1 g a k)
  then show ?case by simp
next
  case (2 g a k x xs)
  define g1 where "g1 = write_word g a (1 + k) x"
  have k: "1 + k < gstride g l" using "2.prems"(3) by simp
  have sh: "same_shape g g1" unfolding g1_def by (rule write_word_gmem(1) [OF "2.prems"(1,2) k])
  note d = same_shapeD [OF sh] same_shape_outside [OF sh]
  have "same_shape g1 (store_ids g1 a (Suc k) xs) \<and>
    (\<forall>m < gstride g1 l. gmem (store_ids g1 a (Suc k) xs) l ! (gbase g1 i l + m) =
       (if Suc k < m \<and> m \<le> Suc k + length xs then xs ! (m - Suc (Suc k)) else gmem g1 l ! (gbase g1 i l + m))) \<and>
    (\<forall>l' m. outside g1 i l l' m \<longrightarrow> gmem (store_ids g1 a (Suc k) xs) l' ! m = gmem g1 l' ! m)"
    unfolding g1_def
    by (rule "2.IH") (use "2.prems" d in \<open>simp_all add: g1_def\<close>)
  note IH = this [unfolded d]
  have own: "gmem g1 l ! (gbase g i l + m) = (if m = 1 + k then x else gmem g l ! (gbase g i l + m))"
    if "m < gstride g l" for m unfolding g1_def by (rule write_word_same [OF "2.prems"(1,2) k that])
  have oth: "gmem g1 l' ! m = gmem g l' ! m" if "outside g i l l' m" for l' m
    unfolding g1_def by (rule write_word_outside [OF "2.prems"(1,2) k that])
  have nth: "(if Suc k < m \<and> m \<le> Suc k + length xs then xs ! (m - Suc (Suc k)) else if m = 1 + k then x else w) =
      (if k < m \<and> m \<le> k + length (x # xs) then (x # xs) ! (m - Suc k) else w)" for m w
    by (auto simp: nth_Cons' Suc_diff_Suc)
  show ?case
    unfolding store_ids.simps g1_def [symmetric]
  proof (intro conjI allI impI)
    show "same_shape g (store_ids g1 a (Suc k) xs)" using same_shape_trans [OF sh] IH by blast
    fix m assume m: "m < gstride g l"
    then have "gmem (store_ids g1 a (Suc k) xs) l ! (gbase g i l + m) =
       (if Suc k < m \<and> m \<le> Suc k + length xs then xs ! (m - Suc (Suc k)) else gmem g1 l ! (gbase g i l + m))"
      using IH by blast
    then show "gmem (store_ids g1 a (Suc k) xs) l ! (gbase g i l + m) =
       (if k < m \<and> m \<le> k + length (x # xs) then (x # xs) ! (m - Suc k) else gmem g l ! (gbase g i l + m))"
      unfolding own [OF m] nth .
  next
    fix l' m assume "outside g i l l' m"
    then show "gmem (store_ids g1 a (Suc k) xs) l' ! m = gmem g l' ! m"
      using IH oth by simp
  qed
qed


subsection \<open>Link lists\<close>

lemma hg_lists_nth:
  assumes "layout_ok g" "valid_list g i l" "gmem g l ! gbase g i l \<le> link_capacity g l"
  shows "length (hg_lists g i l) = gmem g l ! gbase g i l"
    "k < gmem g l ! gbase g i l \<Longrightarrow> hg_lists g i l ! k = gmem g l ! (gbase g i l + Suc k)"
proof -
  have "gbase g i l + link_capacity g l < length (gmem g l)"
    using gbase_bound [OF assms(1,2), of "link_capacity g l"] gstride_capacity [OF assms(1), of l] by simp
  then show "length (hg_lists g i l) = gmem g l ! gbase g i l"
    "k < gmem g l ! gbase g i l \<Longrightarrow> hg_lists g i l ! k = gmem g l ! (gbase g i l + Suc k)"
    using assms(3) by (simp_all add: hg_lists_def)
qed

lemma hg_lists_eqI:
  assumes "layout_ok g" "layout_ok g'" "valid_list g i l" "valid_list g' i l'" "gmem g l ! gbase g i l \<le> link_capacity g l"
    "gmem g' l' ! gbase g' i l' = gmem g l ! gbase g i l" "link_capacity g' l' = link_capacity g l"
    "\<And>k. k < gmem g l ! gbase g i l \<Longrightarrow> gmem g' l' ! (gbase g' i l' + Suc k) = gmem g l ! (gbase g i l + Suc k)"
  shows "hg_lists g' i l' = hg_lists g i l"
  using hg_lists_nth [OF assms(1,3,5)] hg_lists_nth [OF assms(2,4)] assms(5-8)
  by (intro nth_equalityI) simp_all

lemma graph_links_eq:
  assumes "hg_inv g" "valid_list g i l"
  shows "graph_links g i l = Some (hg_lists g i l)"
proof -
  have lay: "layout_ok g" and cnt: "gmem g l ! gbase g i l \<le> link_capacity g l"
    using assms by (auto simp: hg_inv_def)
  obtain a where a: "list_ptr g i l = Some a" using assms(2) list_ptr_None [of g i l] by (cases "list_ptr g i l") auto
  have c: "read_word g a 0 = gmem g l ! gbase g i l"
    using read_word_gmem [OF lay a, of 0] gstride_capacity [OF lay, of l] by simp
  have "view_ids g a = hg_lists g i l"
  proof (rule nth_equalityI)
    fix k assume "k < length (view_ids g a)"
    then have k: "k < gmem g l ! gbase g i l" by (simp add: view_ids_def c)
    then show "view_ids g a ! k = hg_lists g i l ! k"
      using read_word_gmem [OF lay a, of "1 + k"] gstride_capacity [OF lay, of l] hg_lists_nth(2) [OF lay assms(2) cnt k] cnt
      by (simp add: view_ids_def c)
  qed (simp add: view_ids_def c hg_lists_nth(1) [OF lay assms(2) cnt])
  then show ?thesis by (simp add: graph_links_def a)
qed

lemma graph_links_None: "graph_links g i l = None \<longleftrightarrow> \<not> valid_list g i l"
  by (simp add: graph_links_def list_ptr_None)

lemma valid_list_end:
  assumes "layout_ok g" "valid_list g i l"
  shows "l = 0 \<Longrightarrow> gbase g i l + gstride g l \<le> length (hg_levels g) * hg_stride0 g"
    "l \<noteq> 0 \<Longrightarrow> gbase g i l + gstride g l + hg_arena_chunk_words g \<le>
       length (hg_arena_chunks g) * hg_arena_chunk_words g + hg_arena_used g"
proof -
  show "gbase g i l + gstride g l \<le> length (hg_levels g) * hg_stride0 g" if "l = 0"
    using that assms(2) mult_le_mono1 [of "Suc i" "length (hg_levels g)" "hg_stride0 g"]
    by (simp add: gbase_def gstride_def valid_list_def)
  show "gbase g i l + gstride g l + hg_arena_chunk_words g \<le>
      length (hg_arena_chunks g) * hg_arena_chunk_words g + hg_arena_used g" if l: "l \<noteq> 0"
  proof -
    have i: "i < length (hg_levels g)" "l \<le> hg_levels g ! i" using assms(2) by (auto simp: valid_list_def)
    have "hg_upper g ! i + hg_levels g ! i * hg_stride_upper g + hg_arena_chunk_words g \<le>
        length (hg_arena_chunks g) * hg_arena_chunk_words g + hg_arena_used g"
      using assms(1) i l by (simp add: layout_ok_def arena_ok_def)
    moreover have "l * hg_stride_upper g \<le> hg_levels g ! i * hg_stride_upper g" using i(2) by (rule mult_le_mono1)
    moreover have "(l - 1) * hg_stride_upper g + hg_stride_upper g = l * hg_stride_upper g" using l by (cases l) simp_all
    moreover have "gbase g i l = hg_upper g ! i + (l - 1) * hg_stride_upper g" "gstride g l = hg_stride_upper g"
      using l by (simp_all add: gbase_def gstride_def)
    ultimately show ?thesis by linarith
  qed
qed

lemma free_zero_outside:
  assumes "layout_ok g" "valid_list g i l" "same_shape g g'" "free_zero g"
    and out: "\<And>l' m. outside g i l l' m \<Longrightarrow> gmem g' l' ! m = gmem g l' ! m"
  shows "free_zero g'"
proof -
  obtain l0 ar where g': "g' = g\<lparr>hg_l0_chunks := l0, hg_arena_chunks := ar\<rparr>"
    and la: "length ar = length (hg_arena_chunks g)"
    using assms(3) unfolding same_shape_def by blast
  note e = valid_list_end [OF assms(1,2)]
  have len: "length (gmem g' l') = length (gmem g l')" for l'
    using uniform_length [OF uniform_gchunks [OF assms(1)], of l'] uniform_length [OF uniform_gchunks, of g' l']
      same_shapeD(10,13) [OF assms(3)] assms(1,3)
    by (auto simp: gmem_gchunks) (auto simp: gchunks_def same_shape_def)
  have 0: "gmem g' 0 ! k = 0" if "k < length (gmem g' 0)" "length (hg_levels g) * hg_stride0 g \<le> k" for k
  proof -
    have "outside g i l 0 k" using e(1) that(2) by (auto simp: outside_def)
    then show ?thesis using out assms(4) that len by (simp add: free_zero_def)
  qed
  have 1: "gmem g' 1 ! k = 0" if "k < length (gmem g' 1)"
    "length (hg_arena_chunks g) * hg_arena_chunk_words g + hg_arena_used g \<le> k + hg_arena_chunk_words g" for k
  proof -
    have "outside g i l 1 k" using e(2) that(2) by (auto simp: outside_def)
    then show ?thesis using out [of 1 k] assms(4) that len by (simp add: free_zero_def)
  qed
  show ?thesis using 0 1 la by (simp add: free_zero_def) (simp add: g')
qed

text \<open>Rewriting the words of one list keeps the invariant and every other list.\<close>

lemma rewrite_list:
  assumes inv: "hg_inv g" and v: "valid_list g i l" and sh: "same_shape g g'"
    and cnt: "gmem g' l ! gbase g i l = length ids" "length ids \<le> link_capacity g l"
    and own: "\<And>k. k < length ids \<Longrightarrow> gmem g' l ! (gbase g i l + Suc k) = ids ! k"
    and out: "\<And>l' m. outside g i l l' m \<Longrightarrow> gmem g' l' ! m = gmem g l' ! m"
  shows "hg_inv g'" "hg_lists g' i l = ids"
    "\<And>j l'. valid_list g j l' \<Longrightarrow> (i, l) \<noteq> (j, l') \<Longrightarrow> hg_lists g' j l' = hg_lists g j l'"
proof -
  note d = same_shapeD [OF sh]
  have lay: "layout_ok g" and lay': "layout_ok g'" using inv d(13) by (auto simp: hg_inv_def)
  have pos: "0 < gstride g l'" for l' using gstride_capacity [OF lay] by simp
  have cap: "gmem g l' ! gbase g j l' \<le> link_capacity g l'" if "valid_list g j l'" for j l'
    using inv that by (simp add: hg_inv_def)
  have oth: "gmem g' l' ! (gbase g j l' + m) = gmem g l' ! (gbase g j l' + m)"
    if "valid_list g j l'" "(i, l) \<noteq> (j, l')" "m < gstride g l'" for j l' m
    by (rule out [OF outside_other_list [OF lay v that]])
  have oth0: "gmem g' l' ! gbase g j l' = gmem g l' ! gbase g j l'" if "valid_list g j l'" "(i, l) \<noteq> (j, l')" for j l'
    using oth [OF that pos] by simp
  have "gmem g' l' ! gbase g j l' \<le> link_capacity g l'" if "valid_list g j l'" for j l'
  proof (cases "(i, l) = (j, l')")
    case True
    then show ?thesis using cnt by simp
  next
    case False
    then show ?thesis using oth0 [OF that] cap [OF that] by simp
  qed
  moreover have "free_zero g'" by (rule free_zero_outside [OF lay v sh _ out]) (use inv in \<open>simp add: hg_inv_def\<close>)
  ultimately show inv': "hg_inv g'" using lay' unfolding hg_inv_def d by blast
  note n' = hg_lists_nth [OF lay' , of i l, unfolded d, OF v]
  show "hg_lists g' i l = ids" using n' cnt own by (intro nth_equalityI) simp_all
  show "hg_lists g' j l' = hg_lists g j l'" if "valid_list g j l'" "(i, l) \<noteq> (j, l')" for j l'
  proof (rule hg_lists_eqI [OF lay lay' that(1) _ cap [OF that(1)]])
    show "valid_list g' j l'" "link_capacity g' l' = link_capacity g l'" using that(1) by (simp_all add: d)
    show "gmem g' l' ! gbase g' j l' = gmem g l' ! gbase g j l'" unfolding d by (rule oth0 [OF that])
    show "gmem g' l' ! (gbase g' j l' + Suc k) = gmem g l' ! (gbase g j l' + Suc k)"
      if "k < gmem g l' ! gbase g j l'" for k
    proof -
      have "Suc k < gstride g l'" using that cap [OF \<open>valid_list g j l'\<close>] gstride_capacity [OF lay] by simp
      then show ?thesis unfolding d by (rule oth [OF \<open>valid_list g j l'\<close> \<open>(i, l) \<noteq> (j, l')\<close>])
    qed
  qed
qed

lemma set_links_ok:
  assumes inv: "hg_inv g" and v: "valid_list g i l" and len: "length ids \<le> link_capacity g l"
  shows "\<exists>g'. set_links g i l ids = Some g' \<and> hg_inv g' \<and> same_shape g g' \<and> hg_lists g' i l = ids \<and>
    (\<forall>j l'. valid_list g j l' \<longrightarrow> (i, l) \<noteq> (j, l') \<longrightarrow> hg_lists g' j l' = hg_lists g j l')"
proof -
  have lay: "layout_ok g" using inv by (simp add: hg_inv_def)
  obtain a where a: "list_ptr g i l = Some a" using v list_ptr_None [of g i l] by (cases "list_ptr g i l") auto
  have gs: "length ids < gstride g l" "0 < gstride g l" using len gstride_capacity [OF lay] by simp_all
  define g1 where "g1 = store_ids g a 0 ids"
  define g' where "g' = write_word g1 a 0 (length ids)"
  have s: "same_shape g g1"
    "\<And>m. m < gstride g l \<Longrightarrow> gmem g1 l ! (gbase g i l + m) =
       (if 0 < m \<and> m \<le> length ids then ids ! (m - 1) else gmem g l ! (gbase g i l + m))"
    "\<And>l' m. outside g i l l' m \<Longrightarrow> gmem g1 l' ! m = gmem g l' ! m"
    using store_ids_ok [OF lay a, of 0 ids] gs(1) by (simp_all add: g1_def)
  note d = same_shapeD [OF s(1)]
  have lay1: "layout_ok g1" using d(13) lay by blast
  have a1: "list_ptr g1 i l = Some a" using a by (simp add: d)
  have gs1: "0 < gstride g1 l" using gs by (simp add: d)
  have sh: "same_shape g g'" unfolding g'_def
    by (rule same_shape_trans [OF s(1) write_word_gmem(1) [OF lay1 a1 gs1]])
  have own: "gmem g' l ! (gbase g i l + m) = (if m = 0 then length ids else gmem g1 l ! (gbase g i l + m))"
    if "m < gstride g l" for m
    using write_word_same [OF lay1 a1 gs1, of m "length ids"] that by (simp add: d g'_def)
  have oth: "gmem g' l' ! m = gmem g l' ! m" if "outside g i l l' m" for l' m
    using write_word_outside [OF lay1 a1 gs1, of l' m "length ids"] s(3) [OF that] that
    by (simp add: same_shape_outside [OF s(1)] g'_def)
  have ids: "gmem g' l ! (gbase g i l + Suc k) = ids ! k" if "k < length ids" for k
    using own [of "Suc k"] s(2) [of "Suc k"] that gs(1) by simp
  have c: "gmem g' l ! gbase g i l = length ids" using own [of 0] gs(2) by simp
  note r = rewrite_list [OF inv v sh c len ids oth]
  have "set_links g i l ids = Some g'" using len a by (simp add: set_links_def g'_def g1_def)
  then show ?thesis using r sh by blast
qed

lemma try_append_link_ok:
  assumes inv: "hg_inv g" and v: "valid_list g i l"
  shows "if length (hg_lists g i l) < link_capacity g l
    then \<exists>g'. try_append_link g i l x = Some (True, g') \<and> hg_inv g' \<and> same_shape g g' \<and>
      hg_lists g' i l = hg_lists g i l @ [x] \<and>
      (\<forall>j l'. valid_list g j l' \<longrightarrow> (i, l) \<noteq> (j, l') \<longrightarrow> hg_lists g' j l' = hg_lists g j l')
    else try_append_link g i l x = Some (False, g)"
proof -
  have lay: "layout_ok g" and cnt: "gmem g l ! gbase g i l \<le> link_capacity g l" using inv v by (auto simp: hg_inv_def)
  obtain a where a: "list_ptr g i l = Some a" using v list_ptr_None [of g i l] by (cases "list_ptr g i l") auto
  note nn = hg_lists_nth [OF lay v cnt]
  define n where "n = length (hg_lists g i l)"
  have gs: "gstride g l = 1 + link_capacity g l" by (rule gstride_capacity [OF lay])
  have n: "n = gmem g l ! gbase g i l" by (simp add: n_def nn)
  have rd: "read_word g a 0 = n" using read_word_gmem [OF lay a, of 0] gs n by simp
  show ?thesis
  proof (cases "n < link_capacity g l")
    case False
    then show ?thesis using a rd by (simp add: try_append_link_def n_def)
  next
    case True
    have k: "1 + n < gstride g l" using True gs by simp
    define g1 where "g1 = write_word g a (1 + n) x"
    define g' where "g' = write_word g1 a 0 (n + 1)"
    have s1: "same_shape g g1" unfolding g1_def by (rule write_word_gmem(1) [OF lay a k])
    note d = same_shapeD [OF s1]
    have lay1: "layout_ok g1" using d(13) lay by blast
    have a1: "list_ptr g1 i l = Some a" "0 < gstride g1 l" using a gs by (simp_all add: d)
    have sh: "same_shape g g'" unfolding g'_def by (rule same_shape_trans [OF s1 write_word_gmem(1) [OF lay1 a1]])
    have own: "gmem g' l ! (gbase g i l + m) = (if m = 0 then n + 1 else if m = 1 + n then x else gmem g l ! (gbase g i l + m))"
      if "m < gstride g l" for m
    proof -
      have 1: "gmem g1 l ! (gbase g i l + m) = (if m = 1 + n then x else gmem g l ! (gbase g i l + m))"
        unfolding g1_def by (rule write_word_same [OF lay a k that])
      have "gmem g' l ! (gbase g1 i l + m) = (if m = 0 then n + 1 else gmem g1 l ! (gbase g1 i l + m))"
        unfolding g'_def by (rule write_word_same [OF lay1 a1]) (simp add: d that)
      then show ?thesis unfolding d 1 .
    qed
    have oth: "gmem g' l' ! m = gmem g l' ! m" if "outside g i l l' m" for l' m
    proof -
      have "outside g1 i l l' m" using that by (simp add: same_shape_outside [OF s1])
      from write_word_outside [OF lay1 a1 this] show ?thesis
        using write_word_outside [OF lay a k that, of x] by (simp add: g'_def g1_def)
    qed
    have ids: "gmem g' l ! (gbase g i l + Suc q) = (hg_lists g i l @ [x]) ! q" if "q < length (hg_lists g i l @ [x])" for q
    proof -
      have q: "q \<le> n" "Suc q < gstride g l" using that gs True by (simp_all add: n_def [symmetric])
      then show ?thesis using own [OF q(2)] nn(2) [of q] by (cases "q = n") (simp_all add: nth_append n_def [symmetric] n)
    qed
    have c: "gmem g' l ! gbase g i l = length (hg_lists g i l @ [x])" using own [of 0] gs by (simp add: n_def)
    have len: "length (hg_lists g i l @ [x]) \<le> link_capacity g l" using True by (simp add: n_def)
    note r = rewrite_list [OF inv v sh c len ids oth]
    have "try_append_link g i l x = Some (True, g')"
      using True a rd by (simp add: try_append_link_def g'_def g1_def Let_def)
    then show ?thesis using r sh True by (auto simp: n_def [symmetric])
  qed
qed


subsection \<open>Adding a node\<close>

lemma graph_mem_append:
  assumes "layout_ok g" "valid_list g i l" "k < gstride g l" "gchunks g' l = gchunks g l \<or> (\<exists>c. gchunks g' l = gchunks g l @ [c])"
    "gbase g' i l = gbase g i l"
  shows "gmem g' l ! (gbase g' i l + k) = gmem g l ! (gbase g i l + k)"
  using gbase_bound [OF assms(1-3)] assms(4,5) by (auto simp: gmem_gchunks nth_append)


lemma ceil_div_Suc:
  fixes n c :: nat
  assumes "0 < c"
  shows "(Suc n + c - 1) div c = (if n mod c = 0 then Suc ((n + c - 1) div c) else (n + c - 1) div c)"
proof -
  obtain q r where qr: "n = q * c + r" "r < c" using assms by (metis div_mult_mod_eq mod_less_divisor)
  have 1: "(Suc n + c - 1) div c = Suc q" using qr assms by (simp add: div_nat_eqI)
  have "(n + c - 1) div c = (if r = 0 then q else Suc q)"
  proof (cases "r = 0")
    case True
    then have "n + c - 1 = (c - 1) + c * q" using qr assms by (simp add: mult.commute)
    moreover have "((c - 1) + c * q) div c = q" using assms by (subst div_mult_self2) simp_all
    ultimately show ?thesis using True by simp
  next
    case False
    then have "n + c - 1 = (r - 1) + c * Suc q" using qr assms by (simp add: mult.commute)
    moreover have "((r - 1) + c * Suc q) div c = Suc q" using assms qr(2) by (subst div_mult_self2) simp_all
    ultimately show ?thesis using False by simp
  qed
  moreover have "n mod c = r" using qr by simp
  ultimately show ?thesis unfolding 1 by simp
qed

text \<open>What a successful \<open>add_node\<close> does to the fields.\<close>

definition opens_chunk :: "hnsw_graph \<Rightarrow> nat \<Rightarrow> bool" where
  "opens_chunk g level \<longleftrightarrow>
     0 < level \<and> hg_arena_chunk_words g < hg_arena_used g + level * hg_stride_upper g"

lemma add_node_cases:
  assumes "add_node mem_l0 mem_arena g level = (res, g')"
  obtains (fail) "g' = g" "res = Thrown \<or> (\<exists>st. res = Returned st \<and> \<not> status_ok st)"
  | (added) "res = Returned ok_status" "level \<le> hg_max_level g" "length (hg_levels g) < kMaxVectorsPerCollection"
    "opens_chunk g level \<Longrightarrow> length (hg_arena_chunks g) < 2 ^ (32 - hg_arena_shift g)"
    "hg_levels g' = hg_levels g @ [level]"
    "hg_l0_chunks g' = (if length (hg_levels g) AND hg_chunk_mask g = 0
       then hg_l0_chunks g @ [replicate (hg_nodes_per_chunk g * hg_stride0 g) 0] else hg_l0_chunks g)"
    "hg_arena_chunks g' = (if opens_chunk g level then hg_arena_chunks g @ [replicate (hg_arena_chunk_words g) 0]
       else hg_arena_chunks g)"
    "hg_arena_used g' = (if 0 < level then (if opens_chunk g level then 0 else hg_arena_used g) + level * hg_stride_upper g
       else hg_arena_used g)"
    "hg_upper g' = hg_upper g @ [if 0 < level
       then (push_bit (hg_arena_shift g) (length (hg_arena_chunks g') - 1) +
             (if opens_chunk g level then 0 else hg_arena_used g)) mod 2 ^ 32 else 0]"
    "\<exists>l0 ar us ls up. g' = g\<lparr>hg_l0_chunks := l0, hg_arena_chunks := ar, hg_arena_used := us, hg_levels := ls, hg_upper := up\<rparr>"
proof -
  let ?ok = "level \<le> hg_max_level g \<and> length (hg_levels g) < kMaxVectorsPerCollection \<and> mem_l0 \<and>
    (opens_chunk g level \<longrightarrow> length (hg_arena_chunks g) < 2 ^ (32 - hg_arena_shift g) \<and> mem_arena)"
  show ?thesis
  proof (cases ?ok)
    case False
    then show ?thesis using assms fail unfolding add_node_def Let_def opens_chunk_def [symmetric]
      by (auto simp: not_le not_less split: if_splits)
  next
    case True
    let ?opens = "opens_chunk g level"
    let ?arena = "if ?opens then hg_arena_chunks g @ [replicate (hg_arena_chunk_words g) 0] else hg_arena_chunks g"
    let ?l0 = "if length (hg_levels g) AND hg_chunk_mask g = 0
       then hg_l0_chunks g @ [replicate (hg_nodes_per_chunk g * hg_stride0 g) 0] else hg_l0_chunks g"
    let ?used = "if ?opens then 0 else hg_arena_used g"
    let ?g' = "g\<lparr>hg_l0_chunks := ?l0, hg_arena_chunks := ?arena,
        hg_arena_used := (if 0 < level then ?used + level * hg_stride_upper g else hg_arena_used g),
        hg_levels := hg_levels g @ [level],
        hg_upper := hg_upper g @ [if 0 < level then (push_bit (hg_arena_shift g) (length ?arena - 1) + ?used) mod 2 ^ 32 else 0]\<rparr>"
    have c: "(level > hg_max_level g) = False" "(length (hg_levels g) \<ge> kMaxVectorsPerCollection) = False"
      "(\<not> mem_l0) = False" "(?opens \<and> length (hg_arena_chunks g) \<ge> 2 ^ (32 - hg_arena_shift g)) = False"
      "(?opens \<and> \<not> mem_arena) = False" using True by auto
    have "add_node mem_l0 mem_arena g level = (Returned ok_status, ?g')"
      unfolding add_node_def Let_def opens_chunk_def [symmetric] c if_False ..
    then have g': "res = Returned ok_status" "g' = ?g'" using assms by simp_all
    show ?thesis
    proof (rule added)
      show "\<exists>l0 ar us ls up. g' = g\<lparr>hg_l0_chunks := l0, hg_arena_chunks := ar, hg_arena_used := us, hg_levels := ls, hg_upper := up\<rparr>"
        unfolding g'(2) by (intro exI) (rule refl)
    qed (use True in \<open>simp_all only: g'\<close>, simp_all)
  qed
qed


lemma add_node_params:
  assumes "g' = g\<lparr>hg_l0_chunks := l0, hg_arena_chunks := ar, hg_arena_used := us, hg_levels := ls, hg_upper := up\<rparr>"
  shows "params_ok g' = params_ok g" "hg_stride0 g' = hg_stride0 g" "hg_stride_upper g' = hg_stride_upper g"
    "hg_arena_chunk_words g' = hg_arena_chunk_words g" "hg_nodes_per_chunk g' = hg_nodes_per_chunk g"
    "hg_max_level g' = hg_max_level g" "hg_arena_shift g' = hg_arena_shift g" "hg_entry g' = hg_entry g" "hg_m g' = hg_m g"
    "link_capacity g' l = link_capacity g l" "read_entry g' = read_entry g" "gclen g' l = gclen g l" "gstride g' l = gstride g l"
  by (simp_all add: assms params_ok_def link_capacity_def read_entry_def gclen_def gstride_def)

lemma add_node_offset:
  assumes lay: "layout_ok g" and lv: "0 < level" "level \<le> hg_max_level g"
    and room: "opens_chunk g level \<Longrightarrow> length (hg_arena_chunks g) < 2 ^ (32 - hg_arena_shift g)"
  defines "ar \<equiv> (if opens_chunk g level then hg_arena_chunks g @ [replicate (hg_arena_chunk_words g) 0] else hg_arena_chunks g)"
    and "used \<equiv> (if opens_chunk g level then 0 else hg_arena_used g)"
  defines "offset \<equiv> (push_bit (hg_arena_shift g) (length ar - 1) + used) mod 2 ^ 32"
  shows "ar \<noteq> []" "length ar \<le> 2 ^ (32 - hg_arena_shift g)" "used + level * hg_stride_upper g \<le> hg_arena_chunk_words g"
    "offset = (length ar - 1) * hg_arena_chunk_words g + used" "offset mod hg_arena_chunk_words g = used"
    "length (hg_arena_chunks g) * hg_arena_chunk_words g + hg_arena_used g \<le> offset + hg_arena_chunk_words g"
proof -
  define W n where "W = hg_arena_chunk_words g" and "n = length (hg_arena_chunks g)"
  note p = params_okD [OF lay]
  have ao: "hg_arena_used g \<le> W" "n \<le> 2 ^ (32 - hg_arena_shift g)" "hg_arena_chunks g = [] \<longrightarrow> hg_arena_used g = W"
    using lay by (simp_all add: layout_ok_def arena_ok_def W_def n_def)
  have blk: "level * hg_stride_upper g \<le> W"
    using mult_le_mono1 [OF lv(2), of "hg_stride_upper g"] p(14) unfolding W_def by (rule le_trans)
  have bpos: "0 < level * hg_stride_upper g" using lv p(12) by simp
  show ub: "used + level * hg_stride_upper g \<le> hg_arena_chunk_words g"
    using blk lv(1) by (auto simp: used_def opens_chunk_def W_def)
  then have ulW: "used < W" using bpos unfolding W_def by linarith
  have ne: "n \<noteq> 0" if "\<not> opens_chunk g level" using that ulW ao(3) by (auto simp: used_def n_def)
  then show arne: "ar \<noteq> []" by (auto simp: ar_def n_def)
  show len: "length ar \<le> 2 ^ (32 - hg_arena_shift g)" using room ao(2) by (auto simp: ar_def n_def)
  have W2: "W = 2 ^ hg_arena_shift g" using p(7) by (simp add: W_def)
  obtain c where c: "length ar = Suc c" using arne by (cases ar) auto
  have "Suc c * W \<le> 2 ^ (32 - hg_arena_shift g) * W" using len c by (intro mult_le_mono1) simp
  also have "\<dots> = 2 ^ 32" unfolding W2 power_add [symmetric] using p(13) by simp
  finally have "c * W + used < 2 ^ 32" using ulW by simp
  then show off: "offset = (length ar - 1) * hg_arena_chunk_words g + used"
    by (simp add: offset_def c push_bit_eq_mult W_def [symmetric] W2 [symmetric])
  show "offset mod hg_arena_chunk_words g = used" unfolding off W_def [symmetric] using ulW by simp
  show "length (hg_arena_chunks g) * hg_arena_chunk_words g + hg_arena_used g \<le> offset + hg_arena_chunk_words g"
  proof (cases "opens_chunk g level")
    case True
    then have "c = n" "used = 0" using c by (simp_all add: ar_def n_def used_def)
    then show ?thesis unfolding off using ao(1) c by (simp add: W_def [symmetric] n_def [symmetric])
  next
    case False
    then have "n = Suc c" "used = hg_arena_used g" using c by (simp_all add: ar_def n_def used_def)
    then show ?thesis unfolding off c W_def [symmetric] n_def [symmetric] by simp
  qed
qed


lemma uniform_snoc: "uniform n xss \<Longrightarrow> length xs = n \<Longrightarrow> uniform n (xss @ [xs])"
  by (auto simp: uniform_def)

lemma add_node_arena_ok:
  assumes "layout_ok g" "add_node a b g level = (Returned ok_status, g')"
  shows "arena_ok g'"
  using assms(2)
proof (cases rule: add_node_cases)
  case fail
  then show ?thesis by simp
next
  case added
  note A = added
  obtain l0 ar us ls up where g': "g' = g\<lparr>hg_l0_chunks := l0, hg_arena_chunks := ar, hg_arena_used := us, hg_levels := ls, hg_upper := up\<rparr>"
    using A(10) by blast
  note q = add_node_params [OF g']
  let ?W = "hg_arena_chunk_words g" and ?s = "hg_stride_upper g" and ?n = "length (hg_levels g)"
  have up: "length (hg_upper g) = ?n" using assms(1) by (simp add: layout_ok_def)
  have ao: "arena_ok g" using assms(1) by (simp add: layout_ok_def)
  show ?thesis
  proof (cases "0 < level")
    case False
    then have e: "hg_arena_chunks g' = hg_arena_chunks g" "hg_arena_used g' = hg_arena_used g"
      using A(7,8) by (simp_all add: opens_chunk_def)
    show ?thesis using ao False unfolding arena_ok_def q e A(5,9) by (auto simp: nth_append up less_Suc_eq)
  next
    case True
    note off = add_node_offset [OF assms(1) True A(2) A(4)]
    define offset where "offset = hg_upper g' ! ?n"
    have offset: "offset = (push_bit (hg_arena_shift g) (length (hg_arena_chunks g') - 1) +
        (if opens_chunk g level then 0 else hg_arena_used g)) mod 2 ^ 32"
      unfolding offset_def A(9) using True by (simp add: nth_append up)
    note off = off [folded A(7), folded offset]
    have us: "hg_arena_used g' = (if opens_chunk g level then 0 else hg_arena_used g) + level * ?s" using A(8) True by simp
    have lv: "hg_levels g' ! i = (if i = ?n then level else hg_levels g ! i)" if "i \<le> ?n" for i
      using that by (simp add: A(5) nth_append)
    have upn: "hg_upper g' ! i = (if i = ?n then offset else hg_upper g ! i)" if "i \<le> ?n" for i
      using that up unfolding offset_def A(9) by (simp add: nth_append)
    have old: "hg_upper g ! i mod ?W + hg_levels g ! i * ?s \<le> ?W \<and>
        hg_upper g ! i + hg_levels g ! i * ?s + ?W \<le> length (hg_arena_chunks g) * ?W + hg_arena_used g"
      if "i < ?n" "0 < hg_levels g ! i" for i using ao that by (simp add: arena_ok_def)
    have top: "offset + level * ?s + ?W = length (hg_arena_chunks g') * ?W + hg_arena_used g'"
      using off(1,4) us by (cases "hg_arena_chunks g'") auto
    have lenlev: "length (hg_levels g') = Suc ?n" by (simp add: A(5))
    show ?thesis
      unfolding arena_ok_def q lenlev
    proof (intro conjI allI impI)
      show "uniform ?W (hg_arena_chunks g')"
        using ao A(7) uniform_snoc [of ?W "hg_arena_chunks g" "replicate ?W 0"] by (simp add: arena_ok_def)
      show "length (hg_arena_chunks g') \<le> 2 ^ (32 - hg_arena_shift g)" by (rule off(2))
      show "hg_arena_used g' \<le> ?W" unfolding us by (rule off(3))
      show "hg_arena_used g' = ?W" if "hg_arena_chunks g' = []" using off(1) that by simp
    next
      fix i assume i: "i < Suc ?n" "0 < hg_levels g' ! i"
      show "hg_upper g' ! i mod ?W + hg_levels g' ! i * ?s \<le> ?W"
        using old [of i] i off(3,5) by (cases "i = ?n") (simp_all add: lv upn)
      show "hg_upper g' ! i + hg_levels g' ! i * ?s + ?W \<le> length (hg_arena_chunks g') * ?W + hg_arena_used g'"
        using old [of i] i top off(6) by (cases "i = ?n") (simp_all add: lv upn)
    next
      fix i j assume ij: "i < j" "j < Suc ?n" "0 < hg_levels g' ! i" "0 < hg_levels g' ! j"
      show "hg_upper g' ! i + hg_levels g' ! i * ?s \<le> hg_upper g' ! j"
      proof (cases "j = ?n")
        case True
        then show ?thesis using old [of i] ij off(6) by (simp add: lv upn)
      next
        case False
        then show ?thesis using ao ij by (simp add: lv upn arena_ok_def)
      qed
    qed
  qed
qed

lemma add_node_layout:
  assumes "layout_ok g" "add_node a b g level = (Returned ok_status, g')"
  shows "layout_ok g'"
  using assms(2)
proof (cases rule: add_node_cases)
  case fail
  then show ?thesis by simp
next
  case added
  note A = added
  obtain l0 ar us ls up where g': "g' = g\<lparr>hg_l0_chunks := l0, hg_arena_chunks := ar, hg_arena_used := us, hg_levels := ls, hg_upper := up\<rparr>"
    using A(10) by blast
  note q = add_node_params [OF g'] and p = params_okD [OF assms(1)]
  let ?n = "length (hg_levels g)" and ?c = "hg_nodes_per_chunk g"
  have m: "?n AND hg_chunk_mask g = ?n mod ?c" using p(5,6) by (simp add: and_mask_mod)
  have "uniform (?c * hg_stride0 g) (hg_l0_chunks g')"
    using uniform_l0 [OF assms(1)] uniform_snoc [OF uniform_l0 [OF assms(1)], of "replicate (?c * hg_stride0 g) 0"]
    unfolding A(6) by simp
  moreover have "length (hg_l0_chunks g') = (Suc ?n + ?c - 1) div ?c"
    using assms(1) unfolding A(6) m ceil_div_Suc [OF p(9)] by (simp add: layout_ok_def)
  moreover have "length (hg_upper g') = length (hg_levels g')"
    using assms(1) unfolding A(5,9) by (simp add: layout_ok_def)
  moreover have "\<forall>v\<in>set (hg_levels g'). v \<le> hg_max_level g" using assms(1) A(2) unfolding A(5) by (auto simp: layout_ok_def)
  moreover have "params_ok g" using assms(1) by (simp add: layout_ok_def)
  ultimately show ?thesis
    using add_node_arena_ok [OF assms] A(3) unfolding layout_ok_def q by (simp add: A(5))
qed


text \<open>Words that were free before, and words of a chunk that was just allocated, are zero.\<close>

lemma fresh_word_zero:
  assumes "gchunks g' l = gchunks g l \<or> (\<exists>w. gchunks g' l = gchunks g l @ [replicate w 0])" "k < length (gmem g' l)"
    "k < length (gmem g l) \<Longrightarrow> gmem g l ! k = 0"
  shows "gmem g' l ! k = 0"
  using assms by (auto simp: gmem_gchunks nth_append)

lemma add_node_chunks:
  assumes "add_node a b g level = (Returned ok_status, g')"
  shows "gchunks g' l = gchunks g l \<or> (\<exists>w. gchunks g' l = gchunks g l @ [replicate w 0])"
  using assms
proof (cases rule: add_node_cases)
  case fail
  then show ?thesis by simp
next
  case added
  then show ?thesis by (cases "l = 0") (auto simp: gchunks_def)
qed

lemma add_node_free:
  assumes inv: "hg_inv g" and add: "add_node a b g level = (Returned ok_status, g')"
    and l: "l \<le> level" and k: "gbase g' (length (hg_levels g)) l \<le> k" "k < length (gmem g' l)"
  shows "gmem g' l ! k = 0"
  using add
proof (cases rule: add_node_cases)
  case fail
  then show ?thesis by simp
next
  case added
  note A = added
  have lay: "layout_ok g" and fz: "free_zero g" using inv by (auto simp: hg_inv_def)
  have up: "length (hg_upper g) = length (hg_levels g)" using lay by (simp add: layout_ok_def)
  obtain l0 ar us ls ups where g': "g' = g\<lparr>hg_l0_chunks := l0, hg_arena_chunks := ar, hg_arena_used := us, hg_levels := ls, hg_upper := ups\<rparr>"
    using A(10) by blast
  note q = add_node_params [OF g']
  show ?thesis
  proof (rule fresh_word_zero [OF add_node_chunks [OF add] k(2)])
    assume old: "k < length (gmem g l)"
    show "gmem g l ! k = 0"
    proof (cases "l = 0")
      case True
      then show ?thesis using fz k(1) old q(2) by (simp add: free_zero_def gbase_def)
    next
      case False
      then have lv: "0 < level" using l by simp
      note off = add_node_offset [OF lay lv A(2) A(4), folded A(7)]
      have "hg_upper g' ! length (hg_levels g) \<le> k" using k(1) False by (simp add: gbase_def)
      then have "length (hg_arena_chunks g) * hg_arena_chunk_words g + hg_arena_used g \<le> k + hg_arena_chunk_words g"
        using off(6) lv unfolding A(9) by (simp add: nth_append up)
      moreover have "gmem g l = gmem g 1" using False by (simp add: gmem_def)
      ultimately show ?thesis using fz old by (simp add: free_zero_def)
    qed
  qed
qed

lemma add_node_free_zero:
  assumes inv: "hg_inv g" and add: "add_node a b g level = (Returned ok_status, g')"
  shows "free_zero g'"
  using add
proof (cases rule: add_node_cases)
  case fail
  then show ?thesis by simp
next
  case added
  note A = added
  have lay: "layout_ok g" and fz: "free_zero g" using inv by (auto simp: hg_inv_def)
  obtain l0 ar us ls ups where g': "g' = g\<lparr>hg_l0_chunks := l0, hg_arena_chunks := ar, hg_arena_used := us, hg_levels := ls, hg_upper := ups\<rparr>"
    using A(10) by blast
  note q = add_node_params [OF g']
  have 0: "gmem g' 0 ! k = 0" if "k < length (gmem g' 0)" "length (hg_levels g') * hg_stride0 g \<le> k" for k
    by (rule add_node_free [OF inv add _ _ that(1)]) (use that(2) in \<open>simp_all add: gbase_def A(5) q\<close>)
  let ?W = "hg_arena_chunk_words g"
  have 1: "gmem g' 1 ! k = 0" if k: "k < length (gmem g' 1)" "length (hg_arena_chunks g') * ?W + hg_arena_used g' \<le> k + ?W" for k
  proof (rule fresh_word_zero [OF add_node_chunks [OF add] k(1)])
    assume old: "k < length (gmem g 1)"
    have "length (gmem g 1) = length (hg_arena_chunks g) * ?W"
      using uniform_length [OF uniform_arena [OF lay]] by (simp add: gmem_def)
    moreover have "hg_arena_used g \<le> hg_arena_used g'" if "\<not> opens_chunk g level" using A(8) that by auto
    ultimately have "length (hg_arena_chunks g) * ?W + hg_arena_used g \<le> k + ?W"
      using k(2) old A(7) by (cases "opens_chunk g level") auto
    then show "gmem g 1 ! k = 0" using fz old by (simp add: free_zero_def)
  qed
  show ?thesis using 0 1 unfolding free_zero_def q by blast
qed

lemma add_node_old_list:
  assumes inv: "hg_inv g" and add: "add_node a b g level = (Returned ok_status, g')" and v: "valid_list g i l"
  shows "valid_list g' i l" "gmem g' l ! gbase g' i l = gmem g l ! gbase g i l" "hg_lists g' i l = hg_lists g i l"
  using add
proof (atomize (full), cases rule: add_node_cases)
  case fail
  then show "valid_list g' i l \<and> gmem g' l ! gbase g' i l = gmem g l ! gbase g i l \<and> hg_lists g' i l = hg_lists g i l"
    using v by simp
next
  case added
  note A = added
  have lay: "layout_ok g" and cap: "gmem g l ! gbase g i l \<le> link_capacity g l" using inv v by (auto simp: hg_inv_def)
  have up: "length (hg_upper g) = length (hg_levels g)" using lay by (simp add: layout_ok_def)
  obtain l0 ar us ls ups where g': "g' = g\<lparr>hg_l0_chunks := l0, hg_arena_chunks := ar, hg_arena_used := us, hg_levels := ls, hg_upper := ups\<rparr>"
    using A(10) by blast
  note q = add_node_params [OF g']
  have v': "valid_list g' i l" using v by (simp add: valid_list_def A(5) nth_append)
  have gb: "gbase g' i l = gbase g i l" using v up by (simp add: gbase_def valid_list_def A(9) nth_append q)
  have ch: "gchunks g' l = gchunks g l \<or> (\<exists>c. gchunks g' l = gchunks g l @ [c])" using add_node_chunks [OF add] by blast
  have mem: "gmem g' l ! (gbase g' i l + k) = gmem g l ! (gbase g i l + k)" if "k < gstride g l" for k
    by (rule graph_mem_append [OF lay v that ch gb])
  have gs: "gstride g l = 1 + link_capacity g l" by (rule gstride_capacity [OF lay])
  have c: "gmem g' l ! gbase g' i l = gmem g l ! gbase g i l" using mem [of 0] gs by simp
  have "hg_lists g' i l = hg_lists g i l"
    by (rule hg_lists_eqI [OF lay add_node_layout [OF lay add] v v' cap c q(10)], rule mem) (use cap gs in simp)
  then show "valid_list g' i l \<and> gmem g' l ! gbase g' i l = gmem g l ! gbase g i l \<and> hg_lists g' i l = hg_lists g i l"
    using v' c by simp
qed

lemma add_node_levels:
  assumes "add_node a b g level = (Returned ok_status, g')"
  shows "hg_levels g' = hg_levels g @ [level]" "hg_entry g' = hg_entry g" "hg_m g' = hg_m g" "hg_max_level g' = hg_max_level g"
    "link_capacity g' l = link_capacity g l" "read_entry g' = read_entry g" "level \<le> hg_max_level g"
    "length (hg_levels g) < kMaxVectorsPerCollection"
proof -
  from assms have "hg_levels g' = hg_levels g @ [level] \<and> level \<le> hg_max_level g \<and> length (hg_levels g) < kMaxVectorsPerCollection \<and>
    (\<exists>l0 ar us ls up. g' = g\<lparr>hg_l0_chunks := l0, hg_arena_chunks := ar, hg_arena_used := us, hg_levels := ls, hg_upper := up\<rparr>)"
  proof (cases rule: add_node_cases)
    case fail
    then show ?thesis by simp
  next
    case added
    then show ?thesis by blast
  qed
  then obtain l0 ar us ls ups where l: "hg_levels g' = hg_levels g @ [level]" "level \<le> hg_max_level g"
    "length (hg_levels g) < kMaxVectorsPerCollection"
    and g': "g' = g\<lparr>hg_l0_chunks := l0, hg_arena_chunks := ar, hg_arena_used := us, hg_levels := ls, hg_upper := ups\<rparr>"
    by blast
  note q = add_node_params [OF g']
  show "hg_levels g' = hg_levels g @ [level]" "hg_entry g' = hg_entry g" "hg_m g' = hg_m g" "hg_max_level g' = hg_max_level g"
    "link_capacity g' l = link_capacity g l" "read_entry g' = read_entry g" "level \<le> hg_max_level g"
    "length (hg_levels g) < kMaxVectorsPerCollection" using l q by simp_all
qed

lemma valid_list_snoc:
  assumes "hg_levels g' = hg_levels g @ [level]"
  shows "valid_list g' i l \<longleftrightarrow> valid_list g i l \<or> i = length (hg_levels g) \<and> l \<le> level"
  using assms by (auto simp: valid_list_def nth_append less_Suc_eq)

lemma add_node_ok:
  assumes inv: "hg_inv g" and add: "add_node a b g level = (Returned ok_status, g')"
  shows "hg_inv g'" "\<And>l. l \<le> level \<Longrightarrow> hg_lists g' (length (hg_levels g)) l = []"
proof -
  note lv = add_node_levels [OF add]
  have lay': "layout_ok g'" using add_node_layout [OF _ add] inv by (simp add: hg_inv_def)
  have pos: "0 < gstride g' l" for l using gstride_capacity [OF lay'] by simp
  have new: "gmem g' l ! gbase g' (length (hg_levels g)) l = 0" if "l \<le> level" for l
  proof (rule add_node_free [OF inv add that order.refl])
    have "valid_list g' (length (hg_levels g)) l" using that by (simp add: valid_list_snoc [OF lv(1)])
    from gbase_bound [OF lay' this pos] show "gbase g' (length (hg_levels g)) l < length (gmem g' l)" by simp
  qed
  then show "hg_lists g' (length (hg_levels g)) l = []" if "l \<le> level" for l using that by (simp add: hg_lists_def)
  have "gmem g' l ! gbase g' i l \<le> link_capacity g' l" if "valid_list g' i l" for i l
  proof (cases "valid_list g i l")
    case True
    then show ?thesis using add_node_old_list(2) [OF inv add True] inv lv(5) by (simp add: hg_inv_def)
  next
    case False
    then show ?thesis using new that by (auto simp: valid_list_snoc [OF lv(1)])
  qed
  then show "hg_inv g'" using lay' add_node_free_zero [OF inv add] by (simp add: hg_inv_def)
qed


subsection \<open>A new graph and the entry point\<close>

text \<open>\<open>1 + m\<close> wraps to 0 in 32 bits only for the last value of \<open>m\<close>; below it the arena bound keeps \<open>2 * m\<close> exact.\<close>

lemma single_bit_countr_zero:
  assumes "has_single_bit n" "n \<le> 2 ^ 31"
  shows "n = 2 ^ countr_zero n" "countr_zero n \<le> 31"
proof -
  define k where "k = bitlen n - 1"
  have n: "n = 2 ^ k" using has_single_bit_power [OF assms(1)] by (simp add: k_def)
  have k: "k \<le> 31"
  proof (rule ccontr)
    assume "\<not> k \<le> 31"
    then have "(2::nat) ^ 32 \<le> 2 ^ k" by (intro power_increasing) simp_all
    then show False using assms(2) n by simp
  qed
  then have "countr_zero n = k" by (simp add: n countr_zero_power)
  then show "n = 2 ^ countr_zero n" "countr_zero n \<le> 31" using n k by simp_all
qed

lemma make_graph_ok:
  assumes "2 \<le> go_m opts" "1 \<le> go_max_level opts" "2 * go_m opts < 2 ^ 32"
    and npc: "has_single_bit npc" "npc \<le> 2 ^ 31" and aw: "has_single_bit aw" "aw \<le> 2 ^ 31"
    and blk: "go_max_level opts * (1 + go_m opts) \<le> aw"
  shows "hg_inv (make_graph opts npc aw)"
proof -
  note k = single_bit_countr_zero [OF npc] single_bit_countr_zero [OF aw]
  have p: "params_ok (make_graph opts npc aw)"
    using assms(1-3) k blk unfolding params_ok_def make_graph_def by simp
  have a: "arena_ok (make_graph opts npc aw)" by (simp add: arena_ok_def make_graph_def uniform_def)
  have "0 < npc" using npc(1) by (simp add: has_single_bit_def)
  then have "layout_ok (make_graph opts npc aw)"
    unfolding layout_ok_def using p a by (simp add: make_graph_def uniform_def)
  then show ?thesis
    by (simp add: hg_inv_def free_zero_def valid_list_def) (simp add: make_graph_def gmem_def)
qed

lemma default_nodes_per_chunk:
  "has_single_bit (max 1 (min (bit_floor (max n 1)) kMaxNodesPerChunk))" "max 1 (min (bit_floor (max n 1)) kMaxNodesPerChunk) \<le> 2 ^ 31"
proof -
  have "has_single_bit (max 1 (min (2 ^ a) (2 ^ b)))" for a b :: nat
    using has_single_bit_of_power [of a] has_single_bit_of_power [of b] has_single_bit_of_power [of 0]
    by (simp add: min_def max_def)
  from this [of "bitlen (max n 1) - 1" 16] show "has_single_bit (max 1 (min (bit_floor (max n 1)) kMaxNodesPerChunk))"
    unfolding kMaxNodesPerChunk_def bit_floor_def by simp
  show "max 1 (min (bit_floor (max n 1)) kMaxNodesPerChunk) \<le> 2 ^ 31" by (simp add: kMaxNodesPerChunk_def)
qed

lemma graph_create_Inr:
  assumes "graph_create opts = Inr g"
  obtains npc aw where "g = make_graph opts npc aw" "2 \<le> go_m opts" "1 \<le> go_max_level opts" "has_single_bit npc" "npc \<le> 2 ^ 31"
    "has_single_bit aw" "aw \<le> 2 ^ 31" "go_max_level opts * ((1 + go_m opts) mod 2 ^ 32) \<le> aw"
proof -
  define D where "D = max 1 (min (bit_floor (max (kTargetChunkBytes div ((1 + 2 * go_m opts) * 4)) 1)) kMaxNodesPerChunk)"
  define M where "M = (2::nat) ^ 31"
  define B where "B = go_max_level opts * ((1 + go_m opts) mod 2 ^ 32)"
  define npc where "npc = (if go_nodes_per_chunk opts = 0 then D else go_nodes_per_chunk opts)"
  define aw where "aw = (if go_arena_chunk_words opts = 0 then kDefaultArenaChunkWords else go_arena_chunk_words opts)"
  note c = assms [unfolded graph_create_def Let_def, folded D_def M_def B_def npc_def aw_def]
  have D: "has_single_bit D" "D \<le> M" unfolding D_def M_def by (rule default_nodes_per_chunk)+
  have g: "2 \<le> go_m opts" "1 \<le> go_max_level opts" using c by (simp_all split: if_splits)
  have n: "has_single_bit npc" "npc \<le> M" using c D unfolding npc_def by (simp_all split: if_splits)
  have a: "has_single_bit aw" "aw \<le> M" "B \<le> aw" "g = make_graph opts npc aw" using c by (simp_all split: if_splits)
  show ?thesis using that [of npc aw] g n a unfolding M_def B_def by blast
qed

lemma graph_create_ok:
  assumes "graph_create opts = Inr g" "go_m opts < 2 ^ 32 - 1"
  shows "hg_inv g" "hg_levels g = []" "hg_entry g = pack_entry no_entry" "hg_m g = go_m opts" "hg_max_level g = go_max_level opts"
proof -
  obtain npc aw where g: "g = make_graph opts npc aw" and b: "2 \<le> go_m opts" "1 \<le> go_max_level opts"
    and npc: "has_single_bit npc" "npc \<le> 2 ^ 31" and aw: "has_single_bit aw" "aw \<le> 2 ^ 31"
    and blk: "go_max_level opts * ((1 + go_m opts) mod 2 ^ 32) \<le> aw"
    using graph_create_Inr [OF assms(1)] .
  have m: "(1 + go_m opts) mod 2 ^ 32 = 1 + go_m opts" using assms(2) by simp
  have "1 * (1 + go_m opts) \<le> go_max_level opts * (1 + go_m opts)" using b(2) by (rule mult_le_mono1)
  also have "\<dots> \<le> 2 ^ 31" using blk aw(2) unfolding m by (rule le_trans)
  finally have "2 * go_m opts < 2 ^ 32" by simp
  then show "hg_inv g" unfolding g using b npc aw blk [unfolded m] by (intro make_graph_ok)
  show "hg_levels g = []" "hg_entry g = pack_entry no_entry" "hg_m g = go_m opts" "hg_max_level g = go_max_level opts"
    by (simp_all add: g make_graph_def)
qed

lemma small_nat_bit:
  fixes n :: nat
  assumes "n < 2 ^ k"
  shows "bit n i \<longleftrightarrow> i < k \<and> bit n i"
  using assms bit_take_bit_iff [of k n i] by (simp add: take_bit_nat_eq_self)

lemma entry_round_trip:
  assumes "he_id e < 2 ^ 32" "he_level e < 256"
  shows "read_entry (set_entry g e) = e"
proof -
  have id: "unat (word_of_nat (he_id e) :: u64) = he_id e" "unat (word_of_nat (he_level e) :: u64) = he_level e"
    using assms by (simp_all add: unat_of_nat take_bit_nat_eq_self)
  have b: "bit (he_id e) i \<longleftrightarrow> i < 32 \<and> bit (he_id e) i" "bit (he_level e) i \<longleftrightarrow> i < 8 \<and> bit (he_level e) i" for i
    using small_nat_bit [of "he_id e" 32 i] small_nat_bit [of "he_level e" 8 i] assms by simp_all
  have "take_bit 32 (pack_entry e) = word_of_nat (he_id e)"
  proof (rule bit_word_eqI)
    fix i assume "i < LENGTH(64)"
    then show "bit (take_bit 32 (pack_entry e)) i = bit (word_of_nat (he_id e) :: u64) i"
      using b(1) [of i] by (auto simp: pack_entry_def bit_simps)
  qed
  moreover have "take_bit 8 (drop_bit 32 (pack_entry e)) = word_of_nat (he_level e)"
  proof (rule bit_word_eqI)
    fix i assume "i < LENGTH(64)"
    then show "bit (take_bit 8 (drop_bit 32 (pack_entry e))) i = bit (word_of_nat (he_level e) :: u64) i"
      using b(1) [of "32 + i"] b(2) [of i] by (auto simp: pack_entry_def bit_simps)
  qed
  ultimately show ?thesis by (simp add: read_entry_def set_entry_def id)
qed


subsection \<open>The contract of the link lists\<close>

text \<open>The abstract graph: node \<open>i\<close> of level \<open>L\<close> owns one list for each level up to \<open>L\<close>.\<close>

definition link_map :: "hnsw_graph \<Rightarrow> internal_id \<times> nat \<rightharpoonup> internal_id list" where
  "link_map g = (\<lambda>(i, l). graph_links g i l)"

lemma link_map_eq:
  assumes "hg_inv g"
  shows "link_map g (i, l) = (if valid_list g i l then Some (hg_lists g i l) else None)"
  using graph_links_eq [OF assms] graph_links_None [of g i l] by (simp add: link_map_def)

lemma link_map_update:
  assumes "hg_inv g" "hg_inv g'" "same_shape g g'" "valid_list g i l" "hg_lists g' i l = ids"
    "\<forall>j l'. valid_list g j l' \<longrightarrow> (i, l) \<noteq> (j, l') \<longrightarrow> hg_lists g' j l' = hg_lists g j l'"
  shows "link_map g' = (link_map g)((i, l) \<mapsto> ids)"
proof
  fix x :: "nat \<times> nat"
  obtain j k where x: "x = (j, k)" by (cases x)
  show "link_map g' x = ((link_map g)((i, l) \<mapsto> ids)) x"
    using assms(4-6) same_shapeD(6) [OF assms(3), of j k]
    unfolding x link_map_eq [OF assms(1)] fun_upd_apply link_map_eq [OF assms(2)] by auto
qed

lemma link_map_add_node:
  assumes "hg_inv g" "add_node a b g level = (Returned ok_status, g')"
  shows "link_map g' = (\<lambda>(i, l). if i = node_count g then if l \<le> level then Some [] else None else link_map g (i, l))"
proof
  fix x :: "nat \<times> nat"
  obtain j k where x: "x = (j, k)" by (cases x)
  note n = add_node_ok [OF assms]
  have v: "valid_list g' j k \<longleftrightarrow> valid_list g j k \<or> j = node_count g \<and> k \<le> level"
    using valid_list_snoc [OF add_node_levels(1) [OF assms(2)]] by (simp add: node_count_def)
  have "\<not> valid_list g (node_count g) k" by (simp add: valid_list_def node_count_def)
  then show "link_map g' x = (case x of (i, l) \<Rightarrow> if i = node_count g then if l \<le> level then Some [] else None else link_map g (i, l))"
    using v n(2) [of k] add_node_old_list(3) [OF assms, of j k]
    unfolding x prod.case link_map_eq [OF assms(1)] link_map_eq [OF n(1)] by (auto simp: node_count_def)
qed

text \<open>
  What search, insertion and validation rely on. \<open>frame\<close> is everything of the graph but its
  levels and its lists.
\<close>

definition links_wf :: "nat list \<Rightarrow> (nat \<times> nat \<rightharpoonup> nat list) \<Rightarrow> bool" where
  "links_wf lv lk \<longleftrightarrow>
     (\<forall>i l xs. lk (i, l) = Some xs \<longrightarrow>
        distinct xs \<and> i \<notin> set xs \<and> (\<forall>x\<in>set xs. x < length lv \<and> l \<le> lv ! x))"

locale link_store =
  fixes inv :: "'g \<Rightarrow> bool" and levels :: "'g \<Rightarrow> nat list" and frame :: "'g \<Rightarrow> 'f" and cap :: "'g \<Rightarrow> nat \<Rightarrow> nat"
    and lists :: "'g \<Rightarrow> nat \<times> nat \<rightharpoonup> nat list"
    and put :: "'g \<Rightarrow> nat \<Rightarrow> nat \<Rightarrow> nat list \<Rightarrow> 'g option"
    and app :: "'g \<Rightarrow> nat \<Rightarrow> nat \<Rightarrow> nat \<Rightarrow> (bool \<times> 'g) option"
  assumes dom_law: "inv g \<Longrightarrow> (i, l) \<in> dom (lists g) \<longleftrightarrow> i < length (levels g) \<and> l \<le> levels g ! i"
    and cap_law: "inv g \<Longrightarrow> lists g (i, l) = Some xs \<Longrightarrow> length xs \<le> cap g l"
    and put_law: "inv g \<Longrightarrow> (i, l) \<in> dom (lists g) \<Longrightarrow> length ids \<le> cap g l \<Longrightarrow>
      \<exists>g'. put g i l ids = Some g' \<and> inv g' \<and> levels g' = levels g \<and> frame g' = frame g \<and> cap g' = cap g \<and>
        lists g' = (lists g)((i, l) \<mapsto> ids)"
    and app_law: "inv g \<Longrightarrow> lists g (i, l) = Some xs \<Longrightarrow>
      if length xs < cap g l
      then \<exists>g'. app g i l x = Some (True, g') \<and> inv g' \<and> levels g' = levels g \<and> frame g' = frame g \<and> cap g' = cap g \<and>
        lists g' = (lists g)((i, l) \<mapsto> xs @ [x])
      else app g i l x = Some (False, g)"
begin

lemma list_of_node: "inv g \<Longrightarrow> i < length (levels g) \<Longrightarrow> l \<le> levels g ! i \<Longrightarrow> \<exists>xs. lists g (i, l) = Some xs"
  using dom_law [of g i l] by auto

lemma put_wf:
  assumes "inv g" "links_wf (levels g) (lists g)" "i < length (levels g)" "l \<le> levels g ! i" "length ids \<le> cap g l"
    "distinct ids" "i \<notin> set ids" "\<And>x. x \<in> set ids \<Longrightarrow> x < length (levels g) \<and> l \<le> levels g ! x"
  obtains g' where "put g i l ids = Some g'" "inv g'" "levels g' = levels g" "frame g' = frame g" "cap g' = cap g"
    "lists g' = (lists g)((i, l) \<mapsto> ids)" "links_wf (levels g') (lists g')"
proof -
  have "(i, l) \<in> dom (lists g)" using dom_law [OF assms(1)] assms(3,4) by simp
  from put_law [OF assms(1) this assms(5)] obtain g' where g': "put g i l ids = Some g'" "inv g'" "levels g' = levels g"
    "frame g' = frame g" "cap g' = cap g" "lists g' = (lists g)((i, l) \<mapsto> ids)" by blast
  have "links_wf (levels g') (lists g')" using assms(2,6-8) unfolding links_wf_def g'(3,6) by simp
  then show ?thesis using that g' by blast
qed

lemma app_wf:
  assumes "inv g" "links_wf (levels g) (lists g)" "lists g (i, l) = Some xs" "length xs < cap g l"
    "x \<notin> set xs" "x \<noteq> i" "x < length (levels g)" "l \<le> levels g ! x"
  obtains g' where "app g i l x = Some (True, g')" "inv g'" "levels g' = levels g" "frame g' = frame g" "cap g' = cap g"
    "lists g' = (lists g)((i, l) \<mapsto> xs @ [x])" "links_wf (levels g') (lists g')"
proof -
  obtain g' where g': "app g i l x = Some (True, g')" "inv g'" "levels g' = levels g"
    "frame g' = frame g" "cap g' = cap g" "lists g' = (lists g)((i, l) \<mapsto> xs @ [x])"
    using app_law [OF assms(1,3), of x] assms(4) by auto
  have "links_wf (levels g') (lists g')" using assms(2,3,5-8) unfolding links_wf_def g'(3,6) by simp
  then show ?thesis using that g' by blast
qed

end

definition graph_frame :: "hnsw_graph \<Rightarrow> u64 \<times> nat \<times> nat" where
  "graph_frame g = (hg_entry g, hg_m g, hg_max_level g)"

interpretation glinks: link_store hg_inv hg_levels graph_frame link_capacity link_map set_links try_append_link
proof
  fix g i l assume inv: "hg_inv g"
  show "(i, l) \<in> dom (link_map g) \<longleftrightarrow> i < length (hg_levels g) \<and> l \<le> hg_levels g ! i"
    using link_map_eq [OF inv, of i l] by (simp add: dom_def valid_list_def)
next
  fix g i l xs assume inv: "hg_inv g" "link_map g (i, l) = Some xs"
  then have v: "valid_list g i l" "xs = hg_lists g i l" using link_map_eq [OF inv(1), of i l] by (auto split: if_splits)
  have "gmem g l ! gbase g i l \<le> link_capacity g l" "layout_ok g" using inv(1) v(1) by (auto simp: hg_inv_def)
  then show "length xs \<le> link_capacity g l" using hg_lists_nth(1) [OF _ v(1)] v(2) by simp
next
  fix g i l and ids :: "nat list"
  assume inv: "hg_inv g" and d: "(i, l) \<in> dom (link_map g)" and len: "length ids \<le> link_capacity g l"
  have v: "valid_list g i l" using d link_map_eq [OF inv, of i l] by (auto split: if_splits)
  obtain g' where g': "set_links g i l ids = Some g'" "hg_inv g'" "same_shape g g'" "hg_lists g' i l = ids"
    "\<forall>j l'. valid_list g j l' \<longrightarrow> (i, l) \<noteq> (j, l') \<longrightarrow> hg_lists g' j l' = hg_lists g j l'"
    using set_links_ok [OF inv v len] by blast
  show "\<exists>g'. set_links g i l ids = Some g' \<and> hg_inv g' \<and> hg_levels g' = hg_levels g \<and> graph_frame g' = graph_frame g \<and>
      link_capacity g' = link_capacity g \<and> link_map g' = (link_map g)((i, l) \<mapsto> ids)"
    using g'(1,2) link_map_update [OF inv g'(2,3) v g'(4,5)] same_shapeD [OF g'(3)]
    by (intro exI [of _ g']) (simp add: graph_frame_def fun_eq_iff)
next
  fix g i l xs x assume inv: "hg_inv g" and l: "link_map g (i, l) = Some xs"
  have v: "valid_list g i l" "hg_lists g i l = xs" using l link_map_eq [OF inv, of i l] by (auto split: if_splits)
  show "if length xs < link_capacity g l
    then \<exists>g'. try_append_link g i l x = Some (True, g') \<and> hg_inv g' \<and> hg_levels g' = hg_levels g \<and>
      graph_frame g' = graph_frame g \<and> link_capacity g' = link_capacity g \<and> link_map g' = (link_map g)((i, l) \<mapsto> xs @ [x])
    else try_append_link g i l x = Some (False, g)"
  proof (cases "length xs < link_capacity g l")
    case True
    obtain g' where g': "try_append_link g i l x = Some (True, g')" "hg_inv g'" "same_shape g g'" "hg_lists g' i l = xs @ [x]"
      "\<forall>j l'. valid_list g j l' \<longrightarrow> (i, l) \<noteq> (j, l') \<longrightarrow> hg_lists g' j l' = hg_lists g j l'"
      using try_append_link_ok [OF inv v(1), of x] True v(2) by auto
    show ?thesis
      using True g'(1,2) link_map_update [OF inv g'(2,3) v(1) g'(4,5)] same_shapeD [OF g'(3)]
      by (simp add: graph_frame_def fun_eq_iff)
  next
    case False
    then show ?thesis using try_append_link_ok [OF inv v(1), of x] v(2) by simp
  qed
qed

lemma add_node_fails:
  assumes "add_node a b g level = (res, g')" "res \<noteq> Returned ok_status"
  shows "g' = g" "res \<noteq> Aborted" "\<And>st. res = Returned st \<Longrightarrow> \<not> status_ok st"
proof -
  have "g' = g \<and> res \<noteq> Aborted \<and> (\<forall>st. res = Returned st \<longrightarrow> \<not> status_ok st)"
    using assms(1)
  proof (cases rule: add_node_cases)
    case fail
    then show ?thesis by auto
  next
    case added
    then show ?thesis using assms(2) by simp
  qed
  then show "g' = g" "res \<noteq> Aborted" "\<And>st. res = Returned st \<Longrightarrow> \<not> status_ok st" by auto
qed

text \<open>The node the source counts on: what \<open>add_node\<close> does on every path, over the abstract graph.\<close>

definition adds_node :: "hnsw_graph \<Rightarrow> nat \<Rightarrow> status outcome \<times> hnsw_graph \<Rightarrow> bool" where
  "adds_node g level r \<longleftrightarrow>
     (case r of
        (Returned st, g') \<Rightarrow>
          if status_ok st
          then hg_inv g' \<and> hg_levels g' = hg_levels g @ [level] \<and> graph_frame g' = graph_frame g \<and>
            link_map g' = (\<lambda>(i, l). if i = node_count g then if l \<le> level then Some [] else None else link_map g (i, l))
          else g' = g
      | (Thrown, g') \<Rightarrow> g' = g
      | (Aborted, g') \<Rightarrow> False)"

lemma add_node_adds:
  assumes "hg_inv g"
  shows "adds_node g level (add_node a b g level)"
proof -
  obtain res g' where r: "add_node a b g level = (res, g')" by (cases "add_node a b g level")
  show ?thesis
  proof (cases "res = Returned ok_status")
    case True
    have "hg_inv g'" using add_node_ok(1) [OF assms] r True by simp
    moreover have "graph_frame g' = graph_frame g" using add_node_levels(2-4) r True by (simp add: graph_frame_def)
    moreover have "hg_levels g' = hg_levels g @ [level]" using add_node_levels(1) r True by simp
    ultimately show ?thesis
      using link_map_add_node [OF assms, of a b level g'] r True by (simp add: adds_node_def)
  next
    case False
    then show ?thesis using add_node_fails [OF r False] r by (cases res) (auto simp: adds_node_def)
  qed
qed

text \<open>
  C37. The chunked graph implements a map from (node, level) to link lists. In any state that
  satisfies the layout invariant: \<open>set_links\<close> of a list within its capacity replaces exactly the
  named list; \<open>try_append_link\<close> appends to exactly the named list, or reports it full and changes
  nothing; \<open>add_node\<close> either adds exactly the empty lists of the new node, all other lists and the
  entry point kept, or (bad level, id space or arena exhausted, failed allocation) leaves the graph
  untouched.
\<close>

theorem hnsw_graph_refines_link_map:
  assumes "hg_inv g" "link_map g (i, l) = Some xs" "length ids \<le> link_capacity g l"
  shows "(\<exists>g'. set_links g i l ids = Some g' \<and> hg_inv g' \<and> hg_levels g' = hg_levels g \<and> graph_frame g' = graph_frame g \<and>
        link_map g' = (link_map g)((i, l) \<mapsto> ids)) \<and>
    (if length xs < link_capacity g l
     then \<exists>g'. try_append_link g i l x = Some (True, g') \<and> hg_inv g' \<and> hg_levels g' = hg_levels g \<and>
       graph_frame g' = graph_frame g \<and> link_map g' = (link_map g)((i, l) \<mapsto> xs @ [x])
     else try_append_link g i l x = Some (False, g)) \<and>
    adds_node g level (add_node mem_l0 mem_arena g level)"
proof (intro conjI)
  show "\<exists>g'. set_links g i l ids = Some g' \<and> hg_inv g' \<and> hg_levels g' = hg_levels g \<and> graph_frame g' = graph_frame g \<and>
        link_map g' = (link_map g)((i, l) \<mapsto> ids)"
    using glinks.put_law [OF assms(1) _ assms(3), of i] assms(2) by blast
  show "if length xs < link_capacity g l
     then \<exists>g'. try_append_link g i l x = Some (True, g') \<and> hg_inv g' \<and> hg_levels g' = hg_levels g \<and>
       graph_frame g' = graph_frame g \<and> link_map g' = (link_map g)((i, l) \<mapsto> xs @ [x])
     else try_append_link g i l x = Some (False, g)"
    using glinks.app_law [OF assms(1,2), of x] by (auto split: if_splits)
  show "adds_node g level (add_node mem_l0 mem_arena g level)" by (rule add_node_adds [OF assms(1)])
qed

text \<open>A graph of two nodes (levels 1 and 0), one list of each kind written.\<close>

definition sample_graph :: hnsw_graph where
  "sample_graph =
     snd (add_node True True (snd (add_node True True
       (make_graph \<lparr>go_m = 2, go_max_level = 2, go_nodes_per_chunk = 1, go_arena_chunk_words = 8\<rparr> 1 8) 1)) 0)"

lemma sample_graph_facts: "hg_inv sample_graph" "link_map sample_graph (0, 1) = Some []" "link_capacity sample_graph 1 = 2"
  "hg_levels sample_graph = [1, 0]" "hg_m sample_graph = 2"
  "link_map sample_graph = (\<lambda>(i, l). if i = 1 then if l = 0 then Some [] else None else if i = 0 \<and> l \<le> 1 then Some [] else None)"
proof -
  have sb: "has_single_bit 1" "has_single_bit 8" using has_single_bit_of_power [of 0] has_single_bit_of_power [of 3] by simp_all
  let ?g0 = "make_graph \<lparr>go_m = 2, go_max_level = 2, go_nodes_per_chunk = 1, go_arena_chunk_words = 8\<rparr> 1 8"
  have inv: "hg_inv ?g0" using sb by (intro make_graph_ok) simp_all
  have a: "add_node True True ?g0 1 = (Returned ok_status, snd (add_node True True ?g0 1))"
    by (simp add: add_node_def make_graph_def kMaxVectorsPerCollection_def kInvalidInternalId_def Let_def)
  note i1 = add_node_ok(1) [OF inv a] and l1 = add_node_levels [OF a]
  have b: "add_node True True (snd (add_node True True ?g0 1)) 0 = (Returned ok_status, sample_graph)"
    unfolding sample_graph_def using l1(1) by (simp add: add_node_def kMaxVectorsPerCollection_def kInvalidInternalId_def Let_def) (simp add: make_graph_def)
  show "hg_inv sample_graph" by (rule add_node_ok(1) [OF i1 b])
  have "link_map (snd (add_node True True ?g0 1)) (0, 1) = Some []"
    unfolding link_map_add_node [OF inv a] by (simp add: node_count_def make_graph_def)
  then show "link_map sample_graph (0, 1) = Some []"
    unfolding link_map_add_node [OF i1 b] using l1(1) by (simp add: node_count_def)
  show "link_capacity sample_graph 1 = 2" using add_node_levels(3) [OF b] l1(3) by (simp add: link_capacity_def make_graph_def)
  show "hg_levels sample_graph = [1, 0]" using add_node_levels(1) [OF b] l1(1) by (simp add: make_graph_def)
  show "hg_m sample_graph = 2" using add_node_levels(3) [OF b] l1(3) by (simp add: make_graph_def)
  have "link_map ?g0 = Map.empty" using link_map_eq [OF inv] by (intro ext) (auto simp: valid_list_def make_graph_def)
  then show "link_map sample_graph = (\<lambda>(i, l). if i = 1 then if l = 0 then Some [] else None else if i = 0 \<and> l \<le> 1 then Some [] else None)"
    unfolding link_map_add_node [OF i1 b] link_map_add_node [OF inv a] using l1(1)
    by (auto simp: node_count_def make_graph_def fun_eq_iff)
qed

theorem hnsw_graph_refines_link_map_witness:
  "hg_inv sample_graph \<and> link_map sample_graph (0, 1) = Some [] \<and>
   (\<exists>g'. set_links sample_graph 0 1 [1] = Some g' \<and> link_map g' (0, 1) = Some [1] \<and>
      link_map g' (1, 0) = link_map sample_graph (1, 0))"
proof -
  have "length [1 :: nat] \<le> link_capacity sample_graph 1" unfolding sample_graph_facts by simp
  from hnsw_graph_refines_link_map [OF sample_graph_facts(1,2) this]
  obtain g' where "set_links sample_graph 0 1 [1] = Some g'" "link_map g' = (link_map sample_graph)((0, 1) \<mapsto> [1])" by blast
  then show ?thesis using sample_graph_facts by (intro conjI exI [of _ g']) simp_all
qed

text \<open>
  \<open>HnswGraph::create\<close> either rejects its options or returns an empty graph in the layout
  invariant with no entry point, whatever the chunk sizes, as long as \<open>m\<close> is not the one value
  at which \<open>1 + m\<close> wraps to 0 in 32 bits; and the packed entry point reads back as it was stored.
\<close>

lemma hnsw_graph_create_ok:
  assumes "go_m opts < 2 ^ 32 - 1" "he_id e < 2 ^ 32" "he_level e < 256"
  shows "(case graph_create opts of
       Inl err \<Rightarrow> \<not> status_ok err
     | Inr g \<Rightarrow> hg_inv g \<and> node_count g = 0 \<and> link_map g = Map.empty \<and> \<not> entry_valid (read_entry g)) \<and>
    read_entry (set_entry g0 e) = e"
proof
  show "read_entry (set_entry g0 e) = e" by (rule entry_round_trip [OF assms(2,3)])
  show "case graph_create opts of
       Inl err \<Rightarrow> \<not> status_ok err
     | Inr g \<Rightarrow> hg_inv g \<and> node_count g = 0 \<and> link_map g = Map.empty \<and> \<not> entry_valid (read_entry g)"
  proof (cases "graph_create opts")
    case (Inl err)
    then show ?thesis by (auto simp: graph_create_def Let_def split: if_splits)
  next
    case (Inr g)
    note c = graph_create_ok [OF Inr assms(1)]
    have "g = set_entry g no_entry" using c(3) by (simp add: set_entry_def)
    moreover have "read_entry (set_entry g no_entry) = no_entry"
      by (rule entry_round_trip) (simp_all add: no_entry_def kInvalidInternalId_def)
    ultimately have "read_entry g = no_entry" by simp
    moreover have "link_map g = Map.empty"
      using link_map_eq [OF c(1)] c(2) by (intro ext) (auto simp: valid_list_def)
    ultimately show ?thesis using c(1,2) Inr by (simp add: node_count_def entry_valid_def no_entry_def)
  qed
qed

end
