(* ===== verification/VF_HnswSearch.thy ===== *)
theory VF_HnswSearch
  imports VF_Graph VF_Context VF_Select VF_Flat VF_Rng
begin

text \<open>
  The HNSW backend (\<^verbatim>\<open>src/index/hnsw/hnsw_backend.hpp\<close>, \<^verbatim>\<open>hnsw_backend.cpp\<close>) and its query path
  (\<^verbatim>\<open>hnsw_search.cpp\<close>). The vector store and the tombstones belong to the collection and are
  arguments. \<open>None\<close> is a failed assertion or a loop that does not end; the lemmas show that it does
  not occur. The main result specifies the beam search: it returns the best \<open>ef\<close> live nodes of a
  set of visited nodes that is closed under the links of every node better than the worst result.
\<close>

subsection \<open>The backend\<close>

record hnsw_build_options =
  ho_selection :: neighbor_selection
  ho_keep_pruned :: bool
  ho_repair_orphans :: bool
  ho_nodes_per_chunk :: nat
  ho_arena_chunk_words :: nat

record hnsw_build_stats =
  bs_distance_computations :: nat
  bs_orphan_repairs :: nat
  bs_orphans_unrepaired :: nat

text \<open>
  Of \<open>InsertScratch\<close>, the vectors that are dead between calls (\<open>shrink_candidates\<close>,
  \<open>shrink_selected\<close>, \<open>discarded\<close>, \<open>id_buffer\<close>) are local to the operations that fill them.
\<close>

record insert_scratch =
  is_context :: search_context
  is_layer_candidates :: "scored_id list list"
  is_layer_selected :: "scored_id list list"
  is_stats :: hnsw_build_stats

record insert_scratch_pool =
  sp_free :: "insert_scratch list"
  sp_created :: nat

record hnsw_backend =
  hb_kernels :: kernel_table
  hb_dim :: nat
  hb_mode :: score_mode
  hb_params :: hnsw_params
  hb_options :: hnsw_build_options
  hb_prefetch :: bool
  hb_levels :: level_generator
  hb_graph :: hnsw_graph
  hb_scratch :: insert_scratch_pool
  hb_stats :: hnsw_build_stats

definition default_build_options :: hnsw_build_options where
  "default_build_options =
     \<lparr>ho_selection = Heuristic, ho_keep_pruned = True, ho_repair_orphans = True, ho_nodes_per_chunk = 0,
      ho_arena_chunk_words = 0\<rparr>"

definition no_stats :: hnsw_build_stats where
  "no_stats = \<lparr>bs_distance_computations = 0, bs_orphan_repairs = 0, bs_orphans_unrepaired = 0\<rparr>"

definition make_backend :: "vector_store \<Rightarrow> metric \<Rightarrow> bool \<Rightarrow> kernel_table \<Rightarrow> hnsw_params \<Rightarrow> hnsw_build_options \<Rightarrow> hnsw_graph
    \<Rightarrow> hnsw_backend" where
  "make_backend vectors metric normalized kernels params opts g =
     \<lparr>hb_kernels = kernels, hb_dim = st_dim vectors, hb_mode = score_mode_of metric normalized, hb_params = params,
      hb_options = opts, hb_prefetch = True,
      hb_levels = make_level_generator (hp_seed params) (hp_M params) (hp_max_level params), hb_graph = g,
      hb_scratch = \<lparr>sp_free = [], sp_created = 0\<rparr>, hb_stats = no_stats\<rparr>"

definition hnsw_create :: "vector_store \<Rightarrow> metric \<Rightarrow> bool \<Rightarrow> kernel_table \<Rightarrow> hnsw_params \<Rightarrow> hnsw_build_options
    \<Rightarrow> hnsw_backend result" where
  "hnsw_create vectors metric normalized kernels params opts =
     return_if_error (hnsw_params_validate params)
       (result_bind (graph_create \<lparr>go_m = unat (hp_M params), go_max_level = unat (hp_max_level params),
           go_nodes_per_chunk = ho_nodes_per_chunk opts, go_arena_chunk_words = ho_arena_chunk_words opts\<rparr>)
         (\<lambda>g. Inr (make_backend vectors metric normalized kernels params opts g)))"

definition hnsw_create_loaded :: "vector_store \<Rightarrow> metric \<Rightarrow> bool \<Rightarrow> kernel_table \<Rightarrow> hnsw_params \<Rightarrow> hnsw_graph
    \<Rightarrow> hnsw_backend result outcome" where
  "hnsw_create_loaded vectors metric normalized kernels params g =
     (if \<not> status_ok (hnsw_params_validate params) then Returned (Inl (hnsw_params_validate params))
      else if \<not> (hg_m g = unat (hp_M params) \<and> node_count g = st_size vectors) then Aborted
      else Returned (Inr (make_backend vectors metric normalized kernels params default_build_options g)))"

subsection \<open>Greedy descent\<close>

definition hb_distance :: "hnsw_backend \<Rightarrow> vector_store \<Rightarrow> search_context \<Rightarrow> query_view \<Rightarrow> internal_id \<Rightarrow> (f32 \<times> search_context) option" where
  "hb_distance b s ctx q i =
     (case st_row_ptr s i of
        None \<Rightarrow> None
      | Some row \<Rightarrow> Some (query_distance (hb_kernels b) (hb_mode b) q row (hb_dim b),
          ctx\<lparr>sx_distance_computations := sx_distance_computations ctx + 1\<rparr>))"

fun greedy_scan :: "hnsw_backend \<Rightarrow> vector_store \<Rightarrow> query_view \<Rightarrow> internal_id list \<Rightarrow> scored_id \<Rightarrow> bool \<Rightarrow> search_context
    \<Rightarrow> (scored_id \<times> bool \<times> search_context) option" where
  "greedy_scan b s q [] current changed ctx = Some (current, changed, ctx)"
| "greedy_scan b s q (n # ns) current changed ctx =
     (case hb_distance b s ctx q n of
        None \<Rightarrow> None
      | Some (d, ctx1) \<Rightarrow>
          if candidate_less (mk_scored d n) current then greedy_scan b s q ns (mk_scored d n) True ctx1
          else greedy_scan b s q ns current changed ctx1)"

partial_function (option) greedy_search :: "hnsw_backend \<Rightarrow> vector_store \<Rightarrow> query_view \<Rightarrow> nat \<Rightarrow> scored_id \<Rightarrow> search_context
    \<Rightarrow> (scored_id \<times> search_context) option" where
  "greedy_search b s q level current ctx =
     (case graph_links (hb_graph b) (sc_id current) level of
        None \<Rightarrow> None
      | Some links \<Rightarrow>
          (case greedy_scan b s q links current False ctx of
             None \<Rightarrow> None
           | Some (current1, changed, ctx1) \<Rightarrow>
               if changed then greedy_search b s q level current1 ctx1 else Some (current1, ctx1)))"

text \<open>The descent from level \<open>l\<close> down to, but not including, level \<open>low\<close>.\<close>

fun descend :: "hnsw_backend \<Rightarrow> vector_store \<Rightarrow> query_view \<Rightarrow> nat \<Rightarrow> nat \<Rightarrow> scored_id \<Rightarrow> search_context
    \<Rightarrow> (scored_id \<times> search_context) option" where
  "descend b s q low 0 current ctx = Some (current, ctx)"
| "descend b s q low (Suc l) current ctx =
     (if Suc l > low
      then (case greedy_search b s q (Suc l) current ctx of
              None \<Rightarrow> None
            | Some (current1, ctx1) \<Rightarrow> descend b s q low l current1 ctx1)
      else Some (current, ctx))"

subsection \<open>Beam search\<close>

text \<open>\<open>results.full() && candidate_less(results.top(), c)\<close> and \<open>!results.full() || candidate_less(c, results.top())\<close>.\<close>

definition beam_done :: "scored_id bounded_heap \<Rightarrow> scored_id \<Rightarrow> bool option" where
  "beam_done h c = (if bh_full h then map_option (\<lambda>t. candidate_less t c) (bh_top h) else Some False)"

definition beam_admits :: "scored_id bounded_heap \<Rightarrow> scored_id \<Rightarrow> bool option" where
  "beam_admits h c = (if bh_full h then map_option (candidate_less c) (bh_top h) else Some True)"

fun layer_entries :: "tombstone_set \<Rightarrow> bool \<Rightarrow> scored_id list \<Rightarrow> scored_id bounded_heap \<Rightarrow> search_context
    \<Rightarrow> (scored_id bounded_heap \<times> search_context) option" where
  "layer_entries deleted check [] h ctx = Some (h, ctx)"
| "layer_entries deleted check (e # es) h ctx =
     (case vs_visit (sx_visited ctx) (sc_id e) of
        None \<Rightarrow> None
      | Some (fresh, v) \<Rightarrow>
          if \<not> fresh then layer_entries deleted check es h (ctx\<lparr>sx_visited := v\<rparr>)
          else layer_entries deleted check es
                 (if \<not> check \<or> \<not> tb_test deleted (sc_id e) then snd (bh_push candidate_less h e) else h)
                 (ctx\<lparr>sx_visited := v, sx_candidates := mh_push candidate_less (sx_candidates ctx) e\<rparr>))"

fun layer_expand :: "hnsw_backend \<Rightarrow> vector_store \<Rightarrow> tombstone_set \<Rightarrow> bool \<Rightarrow> query_view \<Rightarrow> internal_id list
    \<Rightarrow> scored_id bounded_heap \<Rightarrow> search_context \<Rightarrow> (scored_id bounded_heap \<times> search_context) option" where
  "layer_expand b s deleted check q [] h ctx = Some (h, ctx)"
| "layer_expand b s deleted check q (n # ns) h ctx =
     (case vs_visit (sx_visited ctx) n of
        None \<Rightarrow> None
      | Some (fresh, v) \<Rightarrow>
          if \<not> fresh then layer_expand b s deleted check q ns h (ctx\<lparr>sx_visited := v\<rparr>)
          else (case hb_distance b s (ctx\<lparr>sx_visited := v\<rparr>) q n of
                  None \<Rightarrow> None
                | Some (d, ctx1) \<Rightarrow>
                    (case beam_admits h (mk_scored d n) of
                       None \<Rightarrow> None
                     | Some False \<Rightarrow> layer_expand b s deleted check q ns h ctx1
                     | Some True \<Rightarrow>
                         layer_expand b s deleted check q ns
                           (if \<not> check \<or> \<not> tb_test deleted n then snd (bh_push candidate_less h (mk_scored d n)) else h)
                           (ctx1\<lparr>sx_candidates := mh_push candidate_less (sx_candidates ctx1) (mk_scored d n)\<rparr>))))"

text \<open>The prefetch hints only evaluate row addresses.\<close>

definition prefetch_ok :: "hnsw_backend \<Rightarrow> vector_store \<Rightarrow> visited_set \<Rightarrow> internal_id list \<Rightarrow> bool" where
  "prefetch_ok b s v links \<longleftrightarrow>
     (hb_prefetch b \<longrightarrow> (\<forall>i\<in>set links. \<not> vs_visited v i \<longrightarrow> st_row_ptr s i \<noteq> None))"

partial_function (option) layer_loop :: "hnsw_backend \<Rightarrow> vector_store \<Rightarrow> tombstone_set \<Rightarrow> bool \<Rightarrow> query_view \<Rightarrow> nat
    \<Rightarrow> scored_id bounded_heap \<Rightarrow> search_context \<Rightarrow> (scored_id bounded_heap \<times> search_context) option" where
  "layer_loop b s deleted check q level h ctx =
     (case mh_top (sx_candidates ctx) of
        None \<Rightarrow> Some (h, ctx)
      | Some nearest \<Rightarrow>
          (case beam_done h nearest of
             None \<Rightarrow> None
           | Some done \<Rightarrow>
               if done then Some (h, ctx)
               else (case graph_links (hb_graph b) (sc_id nearest) level of
                       None \<Rightarrow> None
                     | Some links \<Rightarrow>
                         if \<not> prefetch_ok b s (sx_visited ctx) links then None
                         else (case layer_expand b s deleted check q links h
                                 (ctx\<lparr>sx_candidates := mh_pop candidate_less (sx_candidates ctx)\<rparr>) of
                                 None \<Rightarrow> None
                               | Some (h1, ctx1) \<Rightarrow> layer_loop b s deleted check q level h1 ctx1))))"

definition search_layer :: "hnsw_backend \<Rightarrow> vector_store \<Rightarrow> tombstone_set \<Rightarrow> query_view \<Rightarrow> scored_id list \<Rightarrow> nat \<Rightarrow> nat \<Rightarrow> bool
    \<Rightarrow> search_context \<Rightarrow> (scored_id bounded_heap \<times> search_context) option" where
  "search_layer b s deleted q entry_points ef level filter_deleted ctx =
     (if \<not> (1 \<le> ef \<and> ef \<le> length (sx_results ctx)) then None
      else (let ctx1 = ctx\<lparr>sx_visited := vs_reset (sx_visited ctx), sx_candidates := []\<rparr>;
                check = (filter_deleted \<and> tb_any deleted)
            in case layer_entries deleted check entry_points (bh_make (take ef (sx_results ctx))) ctx1 of
                 None \<Rightarrow> None
               | Some (h, ctx2) \<Rightarrow> layer_loop b s deleted check q level h ctx2))"

text \<open>The heap lives in the first cells of \<open>context.results\<close>; \<open>sort_ascending\<close> sorts it there.\<close>

definition sorted_results :: "scored_id bounded_heap \<Rightarrow> search_context \<Rightarrow> nat \<times> search_context" where
  "sorted_results h ctx =
     (case bh_sort_ascending candidate_less h of
        (n, h1) \<Rightarrow> (n, ctx\<lparr>sx_results := bh_data h1 @ drop (length (bh_data h1)) (sx_results ctx)\<rparr>))"

definition search_with :: "hnsw_backend \<Rightarrow> vector_store \<Rightarrow> tombstone_set \<Rightarrow> search_context \<Rightarrow> query_view \<Rightarrow> search_knobs
    \<Rightarrow> neighbor list \<Rightarrow> (nat \<times> neighbor list \<times> search_context) option" where
  "search_with b s deleted ctx q knobs out =
     (if \<not> (1 \<le> kn_k knobs \<and> kn_k knobs \<le> length out) then None
      else (let entry = read_entry (hb_graph b)
            in if \<not> entry_valid entry then Some (0, out, ctx)
               else (let ef = max (if kn_ef knobs \<noteq> 0 then kn_ef knobs else unat (hp_ef_search (hb_params b))) (kn_k knobs);
                         ctx1 = sx_prepare ctx (node_count (hb_graph b)) ef
                     in case hb_distance b s ctx1 q (he_id entry) of
                          None \<Rightarrow> None
                        | Some (d, ctx2) \<Rightarrow>
                            (case descend b s q 0 (he_level entry) (mk_scored d (he_id entry)) ctx2 of
                               None \<Rightarrow> None
                             | Some (current, ctx3) \<Rightarrow>
                                 (case search_layer b s deleted q [current] ef 0 True ctx3 of
                                    None \<Rightarrow> None
                                  | Some (h, ctx4) \<Rightarrow>
                                      (case sorted_results h ctx4 of
                                         (found, ctx5) \<Rightarrow>
                                           (let n = min found (kn_k knobs)
                                            in Some (n, map (\<lambda>i. mk_scored (sc_distance (sx_results ctx5 ! i))
                                                              (word_of_nat (sc_id (sx_results ctx5 ! i)))) [0..<n]
                                                        @ drop n out, ctx5))))))))"

text \<open>\<open>HnswBackend::search\<close> runs \<open>search_with\<close> on a pooled context.\<close>

definition hnsw_search :: "hnsw_backend \<Rightarrow> vector_store \<Rightarrow> tombstone_set \<Rightarrow> search_context \<Rightarrow> query_view \<Rightarrow> search_knobs
    \<Rightarrow> neighbor list \<Rightarrow> (nat \<times> neighbor list) option" where
  "hnsw_search b s deleted ctx q knobs out =
     map_option (\<lambda>(n, out1, _). (n, out1)) (search_with b s deleted ctx q knobs out)"


subsection \<open>Distances of nodes\<close>

definition hb_dist :: "hnsw_backend \<Rightarrow> vector_store \<Rightarrow> query_view \<Rightarrow> internal_id \<Rightarrow> f32" where
  "hb_dist b s q i =
     query_distance (hb_kernels b) (hb_mode b) q (case st_row_ptr s i of None \<Rightarrow> [] | Some r \<Rightarrow> r) (hb_dim b)"

definition hb_sc :: "hnsw_backend \<Rightarrow> vector_store \<Rightarrow> query_view \<Rightarrow> internal_id \<Rightarrow> scored_id" where
  "hb_sc b s q i = mk_scored (hb_dist b s q i) i"

lemma hb_sc_id [simp]: "sc_id (hb_sc b s q i) = i"
  by (simp add: hb_sc_def)

lemma inj_hb_sc: "inj_on (hb_sc b s q) A"
  by (rule inj_onI) (auto simp: hb_sc_def)

definition graph_ok :: "hnsw_graph \<Rightarrow> bool" where
  "graph_ok g \<longleftrightarrow> hg_inv g \<and> links_wf (hg_levels g) (link_map g)"

definition on_level :: "hnsw_graph \<Rightarrow> nat \<Rightarrow> internal_id \<Rightarrow> bool" where
  "on_level g l i \<longleftrightarrow> i < node_count g \<and> l \<le> hg_levels g ! i"

definition query_ok :: "hnsw_backend \<Rightarrow> vector_store \<Rightarrow> query_view \<Rightarrow> bool" where
  "query_ok b s q \<longleftrightarrow>
     graph_ok (hb_graph b) \<and> node_count (hb_graph b) \<le> st_size s \<and>
     (\<forall>i < node_count (hb_graph b). \<not> f32_is_nan (hb_dist b s q i))"

lemma on_level_less: "on_level g l i \<Longrightarrow> i < node_count g"
  by (simp add: on_level_def)

lemma on_level_mono: "on_level g l i \<Longrightarrow> k \<le> l \<Longrightarrow> on_level g k i"
  by (simp add: on_level_def)

lemma graph_links_ok:
  assumes "graph_ok g" "on_level g l i"
  shows "graph_links g i l = Some (hg_lists g i l)" "distinct (hg_lists g i l)" "i \<notin> set (hg_lists g i l)"
    "\<And>x. x \<in> set (hg_lists g i l) \<Longrightarrow> on_level g l x"
proof -
  have inv: "hg_inv g" and wf: "links_wf (hg_levels g) (link_map g)" using assms(1) by (simp_all add: graph_ok_def)
  have v: "valid_list g i l" using assms(2) by (simp add: on_level_def valid_list_def node_count_def)
  show gl: "graph_links g i l = Some (hg_lists g i l)" by (rule graph_links_eq [OF inv v])
  have "link_map g (i, l) = Some (hg_lists g i l)" using gl by (simp add: link_map_def)
  then show "distinct (hg_lists g i l)" "i \<notin> set (hg_lists g i l)"
    "\<And>x. x \<in> set (hg_lists g i l) \<Longrightarrow> on_level g l x"
    using wf unfolding links_wf_def on_level_def node_count_def by blast+
qed

lemma hb_distance_ok:
  assumes "query_ok b s q" "i < node_count (hb_graph b)"
  shows "hb_distance b s ctx q i =
    Some (hb_dist b s q i, ctx\<lparr>sx_distance_computations := sx_distance_computations ctx + 1\<rparr>)"
proof -
  have "i < st_size s" using assms by (simp add: query_ok_def)
  then obtain r where "st_row_ptr s i = Some r" by (simp add: st_row_ptr_def)
  then show ?thesis by (simp add: hb_distance_def hb_dist_def)
qed

lemma hb_sc_ok:
  assumes "query_ok b s q" "i < node_count (hb_graph b)"
  shows "cand_ok (hb_sc b s q i)"
  using assms by (simp add: query_ok_def cand_ok_def hb_sc_def)

lemma hb_sc_less:
  assumes "query_ok b s q" "i < node_count (hb_graph b)" "j < node_count (hb_graph b)"
  shows "candidate_less (hb_sc b s q i) (hb_sc b s q j) \<longleftrightarrow> cand_key (hb_sc b s q i) < cand_key (hb_sc b s q j)"
  using hb_sc_ok [OF assms(1,2)] hb_sc_ok [OF assms(1,3)] by (rule candidate_less_key)

subsection \<open>Greedy descent ends in a local minimum\<close>

definition counted :: "search_context \<Rightarrow> search_context \<Rightarrow> bool" where
  "counted ctx ctx' \<longleftrightarrow> (\<exists>k. ctx' = ctx\<lparr>sx_distance_computations := k\<rparr>)"

lemma counted_refl [simp]: "counted ctx ctx"
  unfolding counted_def by (rule exI [of _ "sx_distance_computations ctx"]) simp

lemma counted_step: "counted (ctx\<lparr>sx_distance_computations := k\<rparr>) ctx' \<Longrightarrow> counted ctx ctx'"
  by (auto simp: counted_def)

lemma counted_trans: "counted c1 c2 \<Longrightarrow> counted c2 c3 \<Longrightarrow> counted c1 c3"
  by (auto simp: counted_def)

lemma countedD:
  assumes "counted ctx ctx'"
  shows "sx_visited ctx' = sx_visited ctx" "sx_candidates ctx' = sx_candidates ctx" "sx_results ctx' = sx_results ctx"
  using assms by (auto simp: counted_def)

lemma greedy_scan_ok:
  assumes q: "query_ok b s q" and ns: "\<forall>n\<in>set ns. n < node_count (hb_graph b)" and i: "i < node_count (hb_graph b)"
  shows "\<exists>j c ctx'. greedy_scan b s q ns (hb_sc b s q i) changed ctx = Some (hb_sc b s q j, c, ctx') \<and> counted ctx ctx' \<and>
    (j = i \<or> j \<in> set ns) \<and> cand_key (hb_sc b s q j) \<le> cand_key (hb_sc b s q i) \<and>
    (c \<longleftrightarrow> changed \<or> cand_key (hb_sc b s q j) < cand_key (hb_sc b s q i)) \<and>
    (\<forall>n\<in>set ns. cand_key (hb_sc b s q j) \<le> cand_key (hb_sc b s q n))"
  using ns i
proof (induction ns arbitrary: i changed ctx)
  case Nil
  then show ?case by simp
next
  case (Cons n ns)
  let ?ctx = "ctx\<lparr>sx_distance_computations := sx_distance_computations ctx + 1\<rparr>"
  let ?sc = "hb_sc b s q"
  have n: "n < node_count (hb_graph b)" and ns: "\<forall>x\<in>set ns. x < node_count (hb_graph b)" using Cons.prems(1) by simp_all
  have d: "hb_distance b s ctx q n = Some (hb_dist b s q n, ?ctx)" by (rule hb_distance_ok [OF q n])
  have sc: "mk_scored (hb_dist b s q n) n = ?sc n" by (simp add: hb_sc_def)
  note less = hb_sc_less [OF q n Cons.prems(2)]
  show ?case
  proof (cases "candidate_less (?sc n) (?sc i)")
    case True
    obtain j c ctx' where j: "greedy_scan b s q ns (?sc n) True ?ctx = Some (?sc j, c, ctx')" "counted ?ctx ctx'"
      "j = n \<or> j \<in> set ns" "cand_key (?sc j) \<le> cand_key (?sc n)" "c" "\<forall>n\<in>set ns. cand_key (?sc j) \<le> cand_key (?sc n)"
      using Cons.IH [OF ns n, of True ?ctx] by auto
    have "greedy_scan b s q (n # ns) (?sc i) changed ctx = Some (?sc j, c, ctx')"
      using True j(1) by (simp add: d sc)
    moreover have "cand_key (?sc j) < cand_key (?sc i)" using j(4) True less by simp
    ultimately show ?thesis using j counted_step [OF j(2)] by (intro exI [of _ j] exI [of _ c] exI [of _ ctx']) auto
  next
    case False
    obtain j c ctx' where j: "greedy_scan b s q ns (?sc i) changed ?ctx = Some (?sc j, c, ctx')" "counted ?ctx ctx'"
      "j = i \<or> j \<in> set ns" "cand_key (?sc j) \<le> cand_key (?sc i)" "c \<longleftrightarrow> changed \<or> cand_key (?sc j) < cand_key (?sc i)"
      "\<forall>n\<in>set ns. cand_key (?sc j) \<le> cand_key (?sc n)"
      using Cons.IH [OF ns Cons.prems(2), of changed ?ctx] by blast
    have "greedy_scan b s q (n # ns) (?sc i) changed ctx = Some (?sc j, c, ctx')"
      using False j(1) by (simp add: d sc)
    moreover have "cand_key (?sc j) \<le> cand_key (?sc n)" using j(4) False less by simp
    ultimately show ?thesis using j counted_step [OF j(2)] by (intro exI [of _ j] exI [of _ c] exI [of _ ctx']) auto
  qed
qed

text \<open>A set of nodes that no link of the level leaves.\<close>

definition links_closed :: "hnsw_graph \<Rightarrow> nat \<Rightarrow> nat set \<Rightarrow> bool" where
  "links_closed g l R \<longleftrightarrow> (\<forall>i\<in>R. on_level g l i \<longrightarrow> set (hg_lists g i l) \<subseteq> R)"

lemma greedy_search_ok:
  assumes q: "query_ok b s q" and i: "on_level (hb_graph b) l i"
  shows "\<exists>j ctx'. greedy_search b s q l (hb_sc b s q i) ctx = Some (hb_sc b s q j, ctx') \<and> counted ctx ctx' \<and>
    on_level (hb_graph b) l j \<and> cand_key (hb_sc b s q j) \<le> cand_key (hb_sc b s q i) \<and>
    (\<forall>n\<in>set (hg_lists (hb_graph b) j l). cand_key (hb_sc b s q j) \<le> cand_key (hb_sc b s q n)) \<and>
    (\<forall>R. i \<in> R \<longrightarrow> links_closed (hb_graph b) l R \<longrightarrow> j \<in> R)"
  using i
proof (induction "card {j. j < node_count (hb_graph b) \<and> cand_key (hb_sc b s q j) < cand_key (hb_sc b s q i)}"
    arbitrary: i ctx rule: less_induct)
  case less
  let ?g = "hb_graph b" and ?sc = "hb_sc b s q"
  let ?below = "\<lambda>i. {j. j < node_count ?g \<and> cand_key (?sc j) < cand_key (?sc i)}"
  have g: "graph_ok ?g" using q by (simp add: query_ok_def)
  note links = graph_links_ok [OF g less.prems]
  have i: "i < node_count ?g" using on_level_less [OF less.prems] .
  have ns: "\<forall>n\<in>set (hg_lists ?g i l). n < node_count ?g" using links(4) on_level_less by blast
  obtain j c ctx1 where j: "greedy_scan b s q (hg_lists ?g i l) (?sc i) False ctx = Some (?sc j, c, ctx1)" "counted ctx ctx1"
    "j = i \<or> j \<in> set (hg_lists ?g i l)" "cand_key (?sc j) \<le> cand_key (?sc i)" "c \<longleftrightarrow> cand_key (?sc j) < cand_key (?sc i)"
    "\<forall>n\<in>set (hg_lists ?g i l). cand_key (?sc j) \<le> cand_key (?sc n)"
    using greedy_scan_ok [OF q ns i, of False ctx] by auto
  have step: "greedy_search b s q l (?sc i) ctx = (if c then greedy_search b s q l (?sc j) ctx1 else Some (?sc j, ctx1))"
    by (subst greedy_search.simps) (simp add: links(1) j(1))
  have jl: "on_level ?g l j" using j(3) links(4) less.prems by blast
  show ?case
  proof (cases c)
    case False
    then have "cand_key (?sc j) = cand_key (?sc i)" using j(4,5) by auto
    then have "j = i" by (simp add: cand_key_def)
    then show ?thesis using step False j jl by (intro exI [of _ j] exI [of _ ctx1]) simp
  next
    case True
    have "?below j \<subset> ?below i" using j(4,5) True on_level_less [OF jl] by (auto dest: less_le_trans)
    then have "card (?below j) < card (?below i)" by (intro psubset_card_mono) auto
    from less.hyps [OF this jl, of ctx1] obtain k ctx2 where
      k: "greedy_search b s q l (?sc j) ctx1 = Some (?sc k, ctx2)" "counted ctx1 ctx2" "on_level ?g l k"
      "cand_key (?sc k) \<le> cand_key (?sc j)" "\<forall>n\<in>set (hg_lists ?g k l). cand_key (?sc k) \<le> cand_key (?sc n)"
      "\<forall>R. j \<in> R \<longrightarrow> links_closed ?g l R \<longrightarrow> k \<in> R" by blast
    have "\<forall>R. i \<in> R \<longrightarrow> links_closed ?g l R \<longrightarrow> k \<in> R" using k(6) j(3) less.prems unfolding links_closed_def by blast
    then show ?thesis
      using step True counted_trans [OF j(2) k(2)] j(4) k(1,3-5) by (intro exI [of _ k] exI [of _ ctx2]) simp
  qed
qed

lemma descend_ok:
  assumes q: "query_ok b s q" and i: "on_level (hb_graph b) l i"
  shows "\<exists>j ctx'. descend b s q low l (hb_sc b s q i) ctx = Some (hb_sc b s q j, ctx') \<and> counted ctx ctx' \<and>
    on_level (hb_graph b) (min l low) j \<and> cand_key (hb_sc b s q j) \<le> cand_key (hb_sc b s q i) \<and>
    (\<forall>R. i \<in> R \<longrightarrow> (\<forall>k. links_closed (hb_graph b) k R) \<longrightarrow> j \<in> R)"
  using i
proof (induction l arbitrary: i ctx)
  case 0
  then show ?case by (intro exI [of _ i] exI [of _ ctx]) simp
next
  case (Suc l)
  show ?case
  proof (cases "Suc l > low")
    case False
    then show ?thesis using Suc.prems by (intro exI [of _ i] exI [of _ ctx]) simp
  next
    case True
    obtain j ctx1 where j: "greedy_search b s q (Suc l) (hb_sc b s q i) ctx = Some (hb_sc b s q j, ctx1)" "counted ctx ctx1"
      "on_level (hb_graph b) (Suc l) j" "cand_key (hb_sc b s q j) \<le> cand_key (hb_sc b s q i)"
      "\<forall>R. i \<in> R \<longrightarrow> links_closed (hb_graph b) (Suc l) R \<longrightarrow> j \<in> R"
      using greedy_search_ok [OF q Suc.prems] by blast
    obtain k ctx2 where k: "descend b s q low l (hb_sc b s q j) ctx1 = Some (hb_sc b s q k, ctx2)" "counted ctx1 ctx2"
      "on_level (hb_graph b) (min l low) k" "cand_key (hb_sc b s q k) \<le> cand_key (hb_sc b s q j)"
      "\<forall>R. j \<in> R \<longrightarrow> (\<forall>k. links_closed (hb_graph b) k R) \<longrightarrow> k \<in> R"
      using Suc.IH [of j ctx1] on_level_mono [OF j(3), of l] by auto
    have "min (Suc l) low = min l low" using True by auto
    then show ?thesis
      using True j k counted_trans [OF j(2) k(2)] by (intro exI [of _ k] exI [of _ ctx2]) simp
  qed
qed


subsection \<open>The invariant of the beam search\<close>

definition beats :: "scored_id bounded_heap \<Rightarrow> scored_id \<Rightarrow> bool" where
  "beats h c \<longleftrightarrow> bh_full h \<and> \<not> candidate_less c (bh_data h ! 0)"

definition visited_is :: "visited_set \<Rightarrow> nat \<Rightarrow> nat set \<Rightarrow> bool" where
  "visited_is v n V \<longleftrightarrow> vs_inv v \<and> n \<le> vs_capacity v \<and> (\<forall>i. vs_visited v i \<longleftrightarrow> i \<in> V)"

text \<open>
  \<open>V\<close> is the set of visited nodes, \<open>Y\<close> those already expanded. The results are the best \<open>ef\<close> of
  the visited live nodes; a visited node that is not expanded is a candidate or no better than the
  worst result.
\<close>

definition beam_inv :: "hnsw_backend \<Rightarrow> vector_store \<Rightarrow> query_view \<Rightarrow> (nat \<Rightarrow> bool) \<Rightarrow> nat \<Rightarrow> nat \<Rightarrow> nat set \<Rightarrow> nat set
    \<Rightarrow> scored_id bounded_heap \<Rightarrow> scored_id list \<Rightarrow> bool" where
  "beam_inv b s q live level ef V Y h C \<longleftrightarrow>
     (\<forall>i\<in>V. on_level (hb_graph b) level i) \<and> mh_wf candidate_less cand_ok C \<and> set C \<subseteq> hb_sc b s q ` V \<and>
     bh_wf candidate_less cand_ok h \<and> length (bh_data h) = ef \<and>
     keeps_best candidate_less ef (image_mset (hb_sc b s q) (mset_set {i\<in>V. live i})) (mset (bh_elems h)) \<and>
     (\<forall>i\<in>V - Y. hb_sc b s q i \<in> set C \<or> beats h (hb_sc b s q i))"

lemma beam_invD:
  assumes "beam_inv b s q live level ef V Y h C"
  shows "\<And>i. i \<in> V \<Longrightarrow> on_level (hb_graph b) level i" "mh_wf candidate_less cand_ok C" "set C \<subseteq> hb_sc b s q ` V"
    "bh_wf candidate_less cand_ok h" "length (bh_data h) = ef"
    "keeps_best candidate_less ef (image_mset (hb_sc b s q) (mset_set {i\<in>V. live i})) (mset (bh_elems h))"
    "\<And>i. i \<in> V \<Longrightarrow> i \<notin> Y \<Longrightarrow> hb_sc b s q i \<in> set C \<or> beats h (hb_sc b s q i)" "finite V"
proof -
  show on: "on_level (hb_graph b) level i" if "i \<in> V" for i using assms that by (simp add: beam_inv_def)
  then have "V \<subseteq> {..<node_count (hb_graph b)}" using on_level_less by blast
  then show "finite V" using finite_subset by blast
qed (use assms in \<open>simp_all add: beam_inv_def\<close>)

lemma full_top:
  assumes "bh_full h" "1 \<le> length (bh_data h)"
  shows "bh_top h = Some (bh_data h ! 0)" "0 < bh_size h"
  using assms by (auto simp: bh_full_def bh_top_def)

lemma beam_admits_eq: "1 \<le> length (bh_data h) \<Longrightarrow> beam_admits h c = Some (\<not> beats h c)"
  using full_top [of h] by (auto simp: beam_admits_def beats_def)

lemma beam_done_eq: "1 \<le> length (bh_data h) \<Longrightarrow> beam_done h c = Some (bh_full h \<and> candidate_less (bh_data h ! 0) c)"
  using full_top [of h] by (auto simp: beam_done_def)

text \<open>The worst result only improves.\<close>

lemma bh_push_beats:
  assumes wf: "bh_wf candidate_less cand_ok h" and ok: "cand_ok c" "cand_ok d" and ne: "1 \<le> length (bh_data h)"
    and b: "beats h d"
  shows "beats (snd (bh_push candidate_less h c)) d"
proof (cases "candidate_less c (bh_data h ! 0)")
  case False
  then have "bh_push candidate_less h c = (False, h)"
    using b by (intro cand.bh_push_reject) (auto simp: beats_def bh_full_def)
  then show ?thesis using b by simp
next
  case True
  have full: "bh_full h" and nl: "\<not> candidate_less d (bh_data h ! 0)" using b by (simp_all add: beats_def)
  have sz: "bh_size h = length (bh_data h)" "0 < bh_size h" using full ne by (auto simp: bh_full_def)
  obtain r h' where p: "bh_push candidate_less h c = (r, h')" by fastforce
  have rp: "bh_wf candidate_less cand_ok h'" "length (bh_data h') = length (bh_data h)" "bh_size h' = bh_size h"
    "add_mset (bh_data h ! 0) (mset (bh_elems h')) = add_mset c (mset (bh_elems h))"
    using cand.bh_push_replace [OF wf ok(1) _ _ True p] sz by auto
  have t: "bh_data h ! 0 \<in> set (bh_elems h)" "cand_ok (bh_data h ! 0)"
    using wf sz by (auto simp: bh_elems_def bh_wf_def nth_mem)
  have "bh_data h' ! 0 \<in> set (bh_elems h')" using sz rp by (simp add: bh_elems_def)
  then have "bh_data h' ! 0 \<in># add_mset c (mset (bh_elems h))" using rp(4) by (metis insert_iff set_mset_add_mset_insert set_mset_mset)
  then have "bh_data h' ! 0 = c \<or> bh_data h' ! 0 \<in> set (bh_elems h)" by simp
  moreover have "cand_ok (bh_data h' ! 0)" using \<open>bh_data h' ! 0 \<in> set (bh_elems h')\<close> rp(1) by (simp add: bh_wf_def)
  ultimately have "cand_key (bh_data h' ! 0) \<le> cand_key (bh_data h ! 0)"
    using True cand.bh_top_worst(2) [OF wf, of "bh_data h' ! 0"] t(2) ok(1) by (auto simp: candidate_less_key)
  then have "\<not> candidate_less d (bh_data h' ! 0)"
    using nl ok(2) t(2) \<open>cand_ok (bh_data h' ! 0)\<close> by (simp add: candidate_less_key)
  then show ?thesis using rp sz p by (simp add: beats_def bh_full_def)
qed

lemma beam_push:
  assumes q: "query_ok b s q" and inv: "beam_inv b s q live level ef V Y h C" and ef: "1 \<le> ef"
    and i: "i \<notin> V" "on_level (hb_graph b) level i"
  shows "beam_inv b s q live level ef (insert i V) Y (if live i then snd (bh_push candidate_less h (hb_sc b s q i)) else h)
    (mh_push candidate_less C (hb_sc b s q i))"
proof -
  let ?sc = "hb_sc b s q"
  note d = beam_invD [OF inv]
  have ok: "cand_ok (?sc j)" if "j \<in> insert i V" for j
    using that d(1) i(2) hb_sc_ok [OF q] on_level_less by blast
  note mp = cand.mh_push_ok [OF d(2) ok [OF insertI1]]
  define h' where "h' = (if live i then snd (bh_push candidate_less h (?sc i)) else h)"
  have seti: "{j \<in> insert i V. live j} = (if live i then insert i {j\<in>V. live j} else {j\<in>V. live j})" by auto
  have heap: "bh_wf candidate_less cand_ok h' \<and> length (bh_data h') = ef \<and>
    keeps_best candidate_less ef (image_mset ?sc (mset_set {j \<in> insert i V. live j})) (mset (bh_elems h'))"
  proof (cases "live i")
    case False
    then show ?thesis unfolding h'_def seti using d(4-6) by simp
  next
    case True
    obtain r h1 where p: "bh_push candidate_less h (?sc i) = (r, h1)" by fastforce
    have "\<forall>x\<in>#image_mset ?sc (mset_set {j\<in>V. live j}). cand_ok x" using ok d(8) by auto
    from cand.bh_push_best [OF d(4) ok [OF insertI1] this _ p] d(5,6)
    show ?thesis unfolding h'_def seti using True i(1) d(8) by (simp add: p)
  qed
  have "?sc j \<in> set (mh_push candidate_less C (?sc i)) \<or> beats h' (?sc j)" if j: "j \<in> insert i V - Y" for j
  proof (cases "j = i \<or> ?sc j \<in> set C")
    case True
    then have "?sc j \<in># mset (mh_push candidate_less C (?sc i))" using mp by auto
    then show ?thesis by simp
  next
    case False
    then have "beats h (?sc j)" using d(7) j by blast
    then have "beats h' (?sc j)"
      using bh_push_beats [OF d(4) ok [OF insertI1] ok] j ef d(5) by (auto simp: h'_def)
    then show ?thesis ..
  qed
  moreover have "set (mh_push candidate_less C (?sc i)) = insert (?sc i) (set C)"
    using mp by (metis set_mset_add_mset_insert set_mset_mset)
  ultimately show ?thesis
    using mp heap d(1,3) i(2) unfolding beam_inv_def h'_def [symmetric] by auto
qed

lemma beam_reject:
  assumes q: "query_ok b s q" and inv: "beam_inv b s q live level ef V Y h C" and ef: "1 \<le> ef"
    and i: "i \<notin> V" "on_level (hb_graph b) level i" and r: "beats h (hb_sc b s q i)"
  shows "beam_inv b s q live level ef (insert i V) Y h C"
proof -
  let ?sc = "hb_sc b s q"
  note d = beam_invD [OF inv]
  have ok: "cand_ok (?sc j)" if "j \<in> insert i V" for j
    using that d(1) i(2) hb_sc_ok [OF q] on_level_less by blast
  have seti: "{j \<in> insert i V. live j} = (if live i then insert i {j\<in>V. live j} else {j\<in>V. live j})" by auto
  have p: "bh_push candidate_less h (?sc i) = (False, h)"
    using r by (intro cand.bh_push_reject) (auto simp: beats_def bh_full_def)
  have okm: "\<forall>x\<in>#image_mset ?sc (mset_set {j\<in>V. live j}). cand_ok x" using ok d(8) by auto
  have "keeps_best candidate_less ef (image_mset ?sc (mset_set {j \<in> insert i V. live j})) (mset (bh_elems h))"
    using cand.bh_push_best [OF d(4) ok [OF insertI1] okm _ p] d(5,6,8) i(1) unfolding seti by simp
  then show ?thesis using d(1-5,7) i(2) r unfolding beam_inv_def by auto
qed


lemma visit_ok:
  assumes "visited_is v n V" "i < n"
  shows "\<exists>v'. vs_visit v i = Some (i \<notin> V, v') \<and> visited_is v' n (insert i V)"
proof -
  have v: "vs_inv v" "i < vs_capacity v" and V: "\<And>j. vs_visited v j \<longleftrightarrow> j \<in> V" using assms by (auto simp: visited_is_def)
  obtain v' where v': "vs_visit v i = Some (\<not> vs_visited v i, v')" "vs_inv v'" "vs_capacity v' = vs_capacity v"
    "\<forall>j. vs_visited v' j \<longleftrightarrow> j = i \<or> vs_visited v j"
    using visited.visit_law [OF v] by blast
  then have "visited_is v' n (insert i V)" using assms(1) V by (auto simp: visited_is_def)
  then show ?thesis using v'(1) V by auto
qed

lemma layer_entries_ok:
  assumes q: "query_ok b s q" and ef: "1 \<le> ef" and es: "\<forall>i\<in>set es. on_level (hb_graph b) level i"
    and vis: "visited_is (sx_visited ctx) (node_count (hb_graph b)) V"
    and inv: "beam_inv b s q (\<lambda>i. \<not> check \<or> \<not> tb_test deleted i) level ef V Y h (sx_candidates ctx)"
  shows "\<exists>h' ctx'. layer_entries deleted check (map (hb_sc b s q) es) h ctx = Some (h', ctx') \<and>
    visited_is (sx_visited ctx') (node_count (hb_graph b)) (V \<union> set es) \<and>
    beam_inv b s q (\<lambda>i. \<not> check \<or> \<not> tb_test deleted i) level ef (V \<union> set es) Y h' (sx_candidates ctx') \<and>
    sx_results ctx' = sx_results ctx"
  using es vis inv
proof (induction es arbitrary: V h ctx)
  case Nil
  then show ?case by simp
next
  case (Cons i es)
  let ?sc = "hb_sc b s q" and ?live = "\<lambda>i. \<not> check \<or> \<not> tb_test deleted i"
  have i: "on_level (hb_graph b) level i" and es: "\<forall>i\<in>set es. on_level (hb_graph b) level i" using Cons.prems(1) by simp_all
  obtain v where v: "vs_visit (sx_visited ctx) i = Some (i \<notin> V, v)" "visited_is v (node_count (hb_graph b)) (insert i V)"
    using visit_ok [OF Cons.prems(2) on_level_less [OF i]] by blast
  show ?case
  proof (cases "i \<in> V")
    case True
    then have "visited_is (sx_visited (ctx\<lparr>sx_visited := v\<rparr>)) (node_count (hb_graph b)) V" using v(2) by (simp add: insert_absorb)
    moreover have "beam_inv b s q ?live level ef V Y h (sx_candidates (ctx\<lparr>sx_visited := v\<rparr>))" using Cons.prems(3) by simp
    moreover have "V \<union> set (i # es) = V \<union> set es" using True by auto
    ultimately show ?thesis using Cons.IH [OF es, of "ctx\<lparr>sx_visited := v\<rparr>" V h] True v(1) by simp
  next
    case False
    define h1 where "h1 = (if ?live i then snd (bh_push candidate_less h (?sc i)) else h)"
    define c1 where "c1 = ctx\<lparr>sx_visited := v, sx_candidates := mh_push candidate_less (sx_candidates ctx) (?sc i)\<rparr>"
    have "beam_inv b s q ?live level ef (insert i V) Y h1 (sx_candidates c1)"
      using beam_push [OF q Cons.prems(3) ef False i] by (simp add: h1_def c1_def)
    moreover have "visited_is (sx_visited c1) (node_count (hb_graph b)) (insert i V)" using v(2) by (simp add: c1_def)
    moreover have "sx_results c1 = sx_results ctx" by (simp add: c1_def)
    moreover have "layer_entries deleted check (map ?sc (i # es)) h ctx = layer_entries deleted check (map ?sc es) h1 c1"
      using False v(1) by (simp add: h1_def c1_def)
    ultimately show ?thesis using Cons.IH [OF es, of c1 "insert i V" h1] by (simp only: list.set Un_insert_left Un_insert_right)
  qed
qed

lemma layer_expand_ok:
  assumes q: "query_ok b s q" and ef: "1 \<le> ef" and ns: "\<forall>i\<in>set ns. on_level (hb_graph b) level i"
    and vis: "visited_is (sx_visited ctx) (node_count (hb_graph b)) V"
    and inv: "beam_inv b s q (\<lambda>i. \<not> check \<or> \<not> tb_test deleted i) level ef V Y h (sx_candidates ctx)"
  shows "\<exists>h' ctx'. layer_expand b s deleted check q ns h ctx = Some (h', ctx') \<and>
    visited_is (sx_visited ctx') (node_count (hb_graph b)) (V \<union> set ns) \<and>
    beam_inv b s q (\<lambda>i. \<not> check \<or> \<not> tb_test deleted i) level ef (V \<union> set ns) Y h' (sx_candidates ctx') \<and>
    sx_results ctx' = sx_results ctx \<and>
    length (sx_candidates ctx') + card V \<le> length (sx_candidates ctx) + card (V \<union> set ns)"
  using ns vis inv
proof (induction ns arbitrary: V h ctx)
  case Nil
  then show ?case by simp
next
  case (Cons i ns)
  let ?sc = "hb_sc b s q" and ?live = "\<lambda>i. \<not> check \<or> \<not> tb_test deleted i" and ?n = "node_count (hb_graph b)"
  have i: "on_level (hb_graph b) level i" and ns: "\<forall>i\<in>set ns. on_level (hb_graph b) level i" using Cons.prems(1) by simp_all
  obtain v where v: "vs_visit (sx_visited ctx) i = Some (i \<notin> V, v)" "visited_is v ?n (insert i V)"
    using visit_ok [OF Cons.prems(2) on_level_less [OF i]] by blast
  have fin: "finite V" by (rule beam_invD(8) [OF Cons.prems(3)])
  show ?case
  proof (cases "i \<in> V")
    case True
    then have "visited_is (sx_visited (ctx\<lparr>sx_visited := v\<rparr>)) ?n V" using v(2) by (simp add: insert_absorb)
    moreover have "beam_inv b s q ?live level ef V Y h (sx_candidates (ctx\<lparr>sx_visited := v\<rparr>))" using Cons.prems(3) by simp
    moreover have "V \<union> set (i # ns) = V \<union> set ns" using True by auto
    ultimately show ?thesis using Cons.IH [OF ns, of "ctx\<lparr>sx_visited := v\<rparr>" V h] True v(1) by simp
  next
    case False
    define c0 where "c0 = ctx\<lparr>sx_visited := v, sx_distance_computations := sx_distance_computations ctx + 1\<rparr>"
    have d: "hb_distance b s (ctx\<lparr>sx_visited := v\<rparr>) q i = Some (hb_dist b s q i, c0)"
      using hb_distance_ok [OF q on_level_less [OF i]] by (simp add: c0_def)
    have sc: "mk_scored (hb_dist b s q i) i = ?sc i" by (simp add: hb_sc_def)
    have adm: "beam_admits h (?sc i) = Some (\<not> beats h (?sc i))"
      using beam_admits_eq beam_invD(5) [OF Cons.prems(3)] ef by simp
    define h1 where "h1 = (if \<not> beats h (?sc i) \<and> ?live i then snd (bh_push candidate_less h (?sc i)) else h)"
    define c1 where "c1 = (if beats h (?sc i) then c0
      else c0\<lparr>sx_candidates := mh_push candidate_less (sx_candidates ctx) (?sc i)\<rparr>)"
    have step: "layer_expand b s deleted check q (i # ns) h ctx = layer_expand b s deleted check q ns h1 c1"
      using False v(1) d adm by (cases "beats h (?sc i)") (simp_all add: sc h1_def c1_def c0_def)
    have bi: "beam_inv b s q ?live level ef (insert i V) Y h1 (sx_candidates c1)"
    proof (cases "beats h (?sc i)")
      case True
      then show ?thesis using beam_reject [OF q Cons.prems(3) ef False i True] by (simp add: h1_def c1_def c0_def)
    next
      case nb: False
      then show ?thesis using beam_push [OF q Cons.prems(3) ef False i] by (simp add: h1_def c1_def c0_def)
    qed
    have vi: "visited_is (sx_visited c1) ?n (insert i V)" "sx_results c1 = sx_results ctx" using v(2) by (simp_all add: c1_def c0_def)
    have len: "length (sx_candidates c1) \<le> Suc (length (sx_candidates ctx))" 
      using sift_up_perm [of "length (sx_candidates ctx)" "Suc (length (sx_candidates ctx))" "sx_candidates ctx @ [?sc i]"] by (simp add: c1_def c0_def mh_push_def)
    have un: "V \<union> set (i # ns) = insert i V \<union> set ns" by auto
    obtain h' ctx' where r: "layer_expand b s deleted check q ns h1 c1 = Some (h', ctx')"
      "visited_is (sx_visited ctx') ?n (insert i V \<union> set ns)"
      "beam_inv b s q ?live level ef (insert i V \<union> set ns) Y h' (sx_candidates ctx')" "sx_results ctx' = sx_results c1"
      "length (sx_candidates ctx') + card (insert i V) \<le> length (sx_candidates c1) + card (insert i V \<union> set ns)"
      using Cons.IH [OF ns vi(1) bi] by blast
    have "card (insert i V) = Suc (card V)" using False fin by simp
    then have "length (sx_candidates ctx') + card V \<le> length (sx_candidates ctx) + card (insert i V \<union> set ns)"
      using r(5) len by linarith
    then show ?thesis unfolding un step using r vi(2) by (intro exI [of _ h'] exI [of _ ctx']) simp
  qed
qed


subsection \<open>The beam search\<close>

text \<open>
  What a finished beam search has computed: the best \<open>ef\<close> live nodes of a set \<open>V\<close> of nodes that
  contains the entry points and the neighbours of each of its members that is better than the worst
  result (of every member when the results did not fill up).
\<close>

definition beam_result :: "hnsw_backend \<Rightarrow> vector_store \<Rightarrow> query_view \<Rightarrow> (nat \<Rightarrow> bool) \<Rightarrow> nat \<Rightarrow> nat \<Rightarrow> nat set
    \<Rightarrow> scored_id bounded_heap \<Rightarrow> bool" where
  "beam_result b s q live level ef V h \<longleftrightarrow>
     (\<forall>i\<in>V. on_level (hb_graph b) level i) \<and> bh_wf candidate_less cand_ok h \<and> length (bh_data h) = ef \<and>
     keeps_best candidate_less ef (image_mset (hb_sc b s q) (mset_set {i\<in>V. live i})) (mset (bh_elems h)) \<and>
     (\<forall>i\<in>V. set (hg_lists (hb_graph b) i level) \<subseteq> V \<or> beats h (hb_sc b s q i))"

lemma beam_finish:
  assumes inv: "beam_inv b s q live level ef V X h C" and X: "\<forall>i\<in>X. set (hg_lists (hb_graph b) i level) \<subseteq> V"
    and C: "\<forall>c\<in>set C. beats h c"
  shows "beam_result b s q live level ef V h"
proof -
  note d = beam_invD [OF inv]
  have "set (hg_lists (hb_graph b) i level) \<subseteq> V \<or> beats h (hb_sc b s q i)" if "i \<in> V" for i
    using X C d(7) [OF that] by (cases "i \<in> X") auto
  then show ?thesis using d(1,4-6) by (simp add: beam_result_def)
qed

lemma beam_pop:
  assumes inv: "beam_inv b s q live level ef V X h C" and C: "C \<noteq> []" "C ! 0 = hb_sc b s q x"
  shows "beam_inv b s q live level ef V (insert x X) h (mh_pop candidate_less C)"
    "length (mh_pop candidate_less C) = length C - 1"
proof -
  note d = beam_invD [OF inv]
  note p = cand.mh_pop_ok [OF d(2) C(1)]
  then have m: "add_mset (hb_sc b s q x) (mset (mh_pop candidate_less C)) = mset C" using C(2) by simp
  have st: "insert (hb_sc b s q x) (set (mh_pop candidate_less C)) = set C" using arg_cong [OF m, of set_mset] by simp
  have "hb_sc b s q i \<in> set (mh_pop candidate_less C) \<or> beats h (hb_sc b s q i)" if "i \<in> V - insert x X" for i
  proof -
    have "hb_sc b s q i \<noteq> hb_sc b s q x" using that inj_hb_sc [of b s q UNIV] by (auto simp: inj_on_def)
    then show ?thesis using that d(7) st by blast
  qed
  moreover have "set (mh_pop candidate_less C) \<subseteq> hb_sc b s q ` V" using st d(3) by blast
  ultimately show "beam_inv b s q live level ef V (insert x X) h (mh_pop candidate_less C)"
    using p d(1,4-6) unfolding beam_inv_def by blast
  show "length (mh_pop candidate_less C) = length C - 1" using arg_cong [OF m, of size] by simp
qed

lemma layer_loop_ok:
  assumes q: "query_ok b s q" and ef: "1 \<le> ef"
    and R: "links_closed (hb_graph b) level R"
    and vis: "visited_is (sx_visited ctx) (node_count (hb_graph b)) V" and VR: "V \<subseteq> R"
    and inv: "beam_inv b s q (\<lambda>i. \<not> check \<or> \<not> tb_test deleted i) level ef V X h (sx_candidates ctx)"
    and X: "\<forall>i\<in>X. set (hg_lists (hb_graph b) i level) \<subseteq> V"
  shows "\<exists>h' ctx' V'. layer_loop b s deleted check q level h ctx = Some (h', ctx') \<and> V \<subseteq> V' \<and> V' \<subseteq> R \<and>
    beam_result b s q (\<lambda>i. \<not> check \<or> \<not> tb_test deleted i) level ef V' h' \<and>
    visited_is (sx_visited ctx') (node_count (hb_graph b)) V' \<and> sx_results ctx' = sx_results ctx"
  using vis VR inv X
proof (induction "2 * (node_count (hb_graph b) - card V) + length (sx_candidates ctx)" arbitrary: V X h ctx rule: less_induct)
  case less
  let ?g = "hb_graph b" and ?sc = "hb_sc b s q" and ?n = "node_count (hb_graph b)" and ?C = "sx_candidates ctx"
    and ?live = "\<lambda>i. \<not> check \<or> \<not> tb_test deleted i"
  note d = beam_invD [OF less.prems(3)]
  have g: "graph_ok ?g" using q by (simp add: query_ok_def)
  have len: "1 \<le> length (bh_data h)" using d(5) ef by simp
  have cardle: "card W \<le> ?n" if "\<forall>i\<in>W. on_level ?g level i" for W
    using card_mono [of "{..<?n}" W] that on_level_less by auto
  have stop: ?case if "layer_loop b s deleted check q level h ctx = Some (h, ctx)" "\<forall>c\<in>set ?C. beats h c"
    using that(1) beam_finish [OF less.prems(3,4) that(2)] less.prems(1,2) by (intro exI [of _ h] exI [of _ ctx] exI [of _ V]) simp
  show ?case
  proof (cases ?C)
    case Nil
    then show ?thesis by (intro stop) (subst layer_loop.simps, simp_all add: mh_top_def)
  next
    case (Cons c cs)
    obtain x where x: "x \<in> V" "c = ?sc x" using d(3) Cons by auto
    have dn: "beam_done h c = Some (bh_full h \<and> candidate_less (bh_data h ! 0) c)" by (rule beam_done_eq [OF len])
    show ?thesis
    proof (cases "bh_full h \<and> candidate_less (bh_data h ! 0) c")
      case True
      have okt: "cand_ok (bh_data h ! 0)" using True len d(4)
        by (cases "bh_data h") (auto simp: bh_wf_def bh_elems_def bh_full_def)
      have "beats h e" if e: "e \<in> set ?C" for e
      proof -
        have "\<not> candidate_less e c" using cand.mh_top_best [OF d(2) e] Cons by simp
        moreover have "cand_ok e" "cand_ok c" using d(2) e Cons by (auto simp: mh_wf_def)
        ultimately show ?thesis using True okt by (auto simp: beats_def candidate_less_key)
      qed
      moreover have "layer_loop b s deleted check q level h ctx = Some (h, ctx)"
        using True dn Cons by (subst layer_loop.simps) (simp add: mh_top_def)
      ultimately show ?thesis by (intro stop) simp_all
    next
      case False
      define c1 where "c1 = ctx\<lparr>sx_candidates := mh_pop candidate_less ?C\<rparr>"
      have on: "on_level ?g level x" by (rule d(1) [OF x(1)])
      note links = graph_links_ok [OF g on]
      have ns: "\<forall>i\<in>set (hg_lists ?g x level). on_level ?g level i" using links(4) by blast
      have C0: "?C \<noteq> []" "?C ! 0 = ?sc x" using Cons x(2) by simp_all
      note pop = beam_pop [OF less.prems(3) C0]
      have b1: "beam_inv b s q ?live level ef V (insert x X) h (sx_candidates c1)" using pop(1) by (simp add: c1_def)
      have v1: "visited_is (sx_visited c1) ?n V" using less.prems(1) by (simp add: c1_def)
      obtain h2 c2 where e: "layer_expand b s deleted check q (hg_lists ?g x level) h c1 = Some (h2, c2)"
        "visited_is (sx_visited c2) ?n (V \<union> set (hg_lists ?g x level))"
        "beam_inv b s q ?live level ef (V \<union> set (hg_lists ?g x level)) (insert x X) h2 (sx_candidates c2)"
        "sx_results c2 = sx_results c1"
        "length (sx_candidates c2) + card V \<le> length (sx_candidates c1) + card (V \<union> set (hg_lists ?g x level))"
        using layer_expand_ok [OF q ef ns v1 b1] by blast
      have pf: "prefetch_ok b s (sx_visited ctx) (hg_lists ?g x level)"
        using ns on_level_less q unfolding prefetch_ok_def query_ok_def st_row_ptr_def by fastforce
      have step: "layer_loop b s deleted check q level h ctx = layer_loop b s deleted check q level h2 c2"
        using False dn Cons links(1) pf e(1) x(2)
        by (subst layer_loop.simps) (auto simp: mh_top_def c1_def)
      let ?V2 = "V \<union> set (hg_lists ?g x level)"
      have "card ?V2 \<le> ?n" using d(1) ns by (intro cardle) auto
      moreover have "card V \<le> card ?V2" using d(8) by (intro card_mono) auto
      moreover have "Suc (length (sx_candidates c1)) = length ?C" using pop(2) C0(1) by (simp add: c1_def)
      ultimately have "2 * (?n - card ?V2) + length (sx_candidates c2) < 2 * (?n - card V) + length ?C"
        using e(5) by linarith
      moreover have "?V2 \<subseteq> R" using R less.prems(2) x(1) on unfolding links_closed_def by blast
      moreover have "\<forall>i\<in>insert x X. set (hg_lists ?g i level) \<subseteq> ?V2" using less.prems(4) by auto
      ultimately obtain h' ctx' V' where "layer_loop b s deleted check q level h2 c2 = Some (h', ctx')" "?V2 \<subseteq> V'" "V' \<subseteq> R"
        "beam_result b s q ?live level ef V' h'" "visited_is (sx_visited ctx') ?n V'" "sx_results ctx' = sx_results c2"
        using less.hyps [of ?V2 c2 "insert x X" h2] e(2,3) by blast
      then show ?thesis using step e(4) by (intro exI [of _ h'] exI [of _ ctx'] exI [of _ V']) (simp add: c1_def)
    qed
  qed
qed

lemma beam_inv_start:
  assumes "ef \<le> length rs"
  shows "beam_inv b s q live level ef {} {} (bh_make (take ef rs)) []"
  using assms by (simp add: beam_inv_def mh_wf_def bh_wf_def bh_make_def bh_elems_def heap_ord_def)

lemma search_layer_ok:
  assumes q: "query_ok b s q" and ef: "1 \<le> ef" "ef \<le> length (sx_results ctx)"
    and v: "vs_inv (sx_visited ctx)" "node_count (hb_graph b) \<le> vs_capacity (sx_visited ctx)"
    and es: "\<forall>i\<in>set es. on_level (hb_graph b) level i" "set es \<subseteq> R"
    and R: "links_closed (hb_graph b) level R"
  shows "\<exists>h ctx' V. search_layer b s deleted q (map (hb_sc b s q) es) ef level filter_deleted ctx = Some (h, ctx') \<and>
    set es \<subseteq> V \<and> V \<subseteq> R \<and> beam_result b s q (\<lambda>i. \<not> (filter_deleted \<and> tb_any deleted) \<or> \<not> tb_test deleted i) level ef V h \<and>
    vs_inv (sx_visited ctx') \<and> node_count (hb_graph b) \<le> vs_capacity (sx_visited ctx') \<and> sx_results ctx' = sx_results ctx"
proof -
  let ?n = "node_count (hb_graph b)" and ?check = "filter_deleted \<and> tb_any deleted"
  define c1 where "c1 = ctx\<lparr>sx_visited := vs_reset (sx_visited ctx), sx_candidates := []\<rparr>"
  have v1: "visited_is (sx_visited c1) ?n {}" using visited.reset_law [OF v(1)] v(2) by (simp add: visited_is_def c1_def)
  have b1: "beam_inv b s q (\<lambda>i. \<not> ?check \<or> \<not> tb_test deleted i) level ef {} {} (bh_make (take ef (sx_results ctx))) (sx_candidates c1)"
    using beam_inv_start [OF ef(2)] by (simp add: c1_def)
  obtain h2 c2 where e: "layer_entries deleted ?check (map (hb_sc b s q) es) (bh_make (take ef (sx_results ctx))) c1 = Some (h2, c2)"
    "visited_is (sx_visited c2) ?n (set es)"
    "beam_inv b s q (\<lambda>i. \<not> ?check \<or> \<not> tb_test deleted i) level ef (set es) {} h2 (sx_candidates c2)"
    "sx_results c2 = sx_results c1"
    using layer_entries_ok [OF q ef(1) es(1) v1 b1] by auto
  obtain h ctx' V where l: "layer_loop b s deleted ?check q level h2 c2 = Some (h, ctx')" "set es \<subseteq> V" "V \<subseteq> R"
    "beam_result b s q (\<lambda>i. \<not> ?check \<or> \<not> tb_test deleted i) level ef V h" "visited_is (sx_visited ctx') ?n V"
    "sx_results ctx' = sx_results c2"
    using layer_loop_ok [OF q ef(1) R e(2) es(2) e(3)] by blast
  have "search_layer b s deleted q (map (hb_sc b s q) es) ef level filter_deleted ctx = Some (h, ctx')"
    using ef e(1) l(1) by (simp add: search_layer_def c1_def)
  moreover have "sx_results ctx' = sx_results ctx" using l(6) e(4) by (simp add: c1_def)
  ultimately show ?thesis using l(2-5) by (intro exI [of _ h] exI [of _ ctx'] exI [of _ V]) (simp add: visited_is_def)
qed


subsection \<open>The query path\<close>

definition to_neighbor :: "scored_id \<Rightarrow> neighbor" where
  "to_neighbor c = mk_scored (sc_distance c) (word_of_nat (sc_id c))"

definition best_live :: "hnsw_backend \<Rightarrow> vector_store \<Rightarrow> query_view \<Rightarrow> tombstone_set \<Rightarrow> nat \<Rightarrow> nat set \<Rightarrow> scored_id list" where
  "best_live b s q deleted k V =
     take k (sort_key cand_key (map (hb_sc b s q) (sorted_list_of_set {i\<in>V. \<not> tb_test deleted i})))"

lemma beam_sorted:
  assumes q: "query_ok b s q" and r: "beam_result b s q live level ef V h" and sr: "sorted_results h ctx = (n, ctx')"
  shows "take n (sx_results ctx') = take ef (sort_key cand_key (map (hb_sc b s q) (sorted_list_of_set {i\<in>V. live i})))"
    "n \<le> ef" "length (sx_results ctx) \<le> length (sx_results ctx')" "n \<le> length (sx_results ctx')"
    "sx_visited ctx' = sx_visited ctx"
proof -
  let ?cs = "map (hb_sc b s q) (sorted_list_of_set {i\<in>V. live i})"
  have V: "\<forall>i\<in>V. on_level (hb_graph b) level i" and wf: "bh_wf candidate_less cand_ok h" and len: "length (bh_data h) = ef"
    and kb: "keeps_best candidate_less ef (image_mset (hb_sc b s q) (mset_set {i\<in>V. live i})) (mset (bh_elems h))"
    using r by (simp_all add: beam_result_def)
  have "V \<subseteq> {..<node_count (hb_graph b)}" using V on_level_less by blast
  then have "finite V" using finite_subset by blast
  then have fin: "finite {i\<in>V. live i}" by simp
  obtain m h1 where p: "bh_sort_ascending candidate_less h = (m, h1)" by fastforce
  note st = cand.bh_sort_ascending_ok [OF wf p]
  have c: "n = m" "ctx' = ctx\<lparr>sx_results := bh_data h1 @ drop (length (bh_data h1)) (sx_results ctx)\<rparr>"
    using sr p by (simp_all add: sorted_results_def)
  have h1: "length (bh_data h1) = ef" using st(4) len by simp
  have m: "m \<le> ef" using st(1) wf len by (simp add: bh_wf_def)
  then show "n \<le> ef" "length (sx_results ctx) \<le> length (sx_results ctx')" "n \<le> length (sx_results ctx')"
    "sx_visited ctx' = sx_visited ctx" using c h1 by simp_all
  have tk: "take n (sx_results ctx') = take m (bh_data h1)" using c h1 m by simp
  have ms: "mset ?cs = image_mset (hb_sc b s q) (mset_set {i\<in>V. live i})"
    using fin by (simp add: sorted_list_of_mset_set [symmetric] mset_sorted_list_of_multiset del: sorted_list_of_mset_set)
  have "take m (bh_data h1) = take ef (sort_key cand_key ?cs)"
  proof (rule keeps_best_sorted_prefix)
    show "keeps_best candidate_less ef (mset ?cs) (mset (take m (bh_data h1)))" using kb st(3) unfolding ms by simp
    show "sorted_wrt (\<lambda>a b. \<not> candidate_less b a) (take m (bh_data h1))" by (rule st(2))
    show "\<forall>c\<in>set ?cs. cand_ok c" using fin V hb_sc_ok [OF q] on_level_less by auto
    show "inj_on cand_key (set ?cs)" by (auto simp: inj_on_def cand_key_def hb_sc_def)
  qed
  then show "take n (sx_results ctx') = take ef (sort_key cand_key ?cs)" using tk by simp
qed

lemma search_with_ok:
  assumes q: "query_ok b s q" and k: "1 \<le> kn_k knobs" "kn_k knobs \<le> length out"
    and e: "entry_valid (read_entry (hb_graph b))" "on_level (hb_graph b) (he_level (read_entry (hb_graph b))) (he_id (read_entry (hb_graph b)))"
    and ctx: "vs_inv (sx_visited ctx)" and del: "tb_inv deleted"
    and ef: "ef = max (if kn_ef knobs \<noteq> 0 then kn_ef knobs else unat (hp_ef_search (hb_params b))) (kn_k knobs)"
  shows "\<exists>j h V ctx'. on_level (hb_graph b) 0 j \<and> j \<in> V \<and>
    cand_key (hb_sc b s q j) \<le> cand_key (hb_sc b s q (he_id (read_entry (hb_graph b)))) \<and>
    beam_result b s q (\<lambda>i. \<not> tb_test deleted i) 0 ef V h \<and>
    search_with b s deleted ctx q knobs out =
      Some (length (best_live b s q deleted (kn_k knobs) V),
        map to_neighbor (best_live b s q deleted (kn_k knobs) V) @ drop (length (best_live b s q deleted (kn_k knobs) V)) out, ctx')"
proof -
  let ?g = "hb_graph b" and ?e = "he_id (read_entry (hb_graph b))" and ?k = "kn_k knobs"
  define c1 where "c1 = sx_prepare ctx (node_count ?g) ef"
  have c1: "vs_inv (sx_visited c1)" "node_count ?g \<le> vs_capacity (sx_visited c1)" "ef \<le> length (sx_results c1)"
    unfolding c1_def by (rule sx_prepare_ok [OF ctx])+
  define c2 where "c2 = c1\<lparr>sx_distance_computations := sx_distance_computations c1 + 1\<rparr>"
  have dist: "hb_distance b s c1 q ?e = Some (hb_dist b s q ?e, c2)"
    using hb_distance_ok [OF q on_level_less [OF e(2)]] by (simp add: c2_def)
  obtain j c3 where j: "descend b s q 0 (he_level (read_entry ?g)) (hb_sc b s q ?e) c2 = Some (hb_sc b s q j, c3)"
    "counted c2 c3" "on_level ?g 0 j" "cand_key (hb_sc b s q j) \<le> cand_key (hb_sc b s q ?e)"
    using descend_ok [OF q e(2), of 0 c2] by auto
  have c3: "vs_inv (sx_visited c3)" "node_count ?g \<le> vs_capacity (sx_visited c3)" "ef \<le> length (sx_results c3)"
    using c1 countedD [OF j(2)] by (simp_all add: c2_def)
  have ef1: "1 \<le> ef" using k(1) ef by simp
  have live: "(\<lambda>i. \<not> (True \<and> tb_any deleted) \<or> \<not> tb_test deleted i) = (\<lambda>i. \<not> tb_test deleted i)"
    using tb_any_iff [OF del] by (auto simp: tb_rows_def)
  obtain h c4 V where l: "search_layer b s deleted q (map (hb_sc b s q) [j]) ef 0 True c3 = Some (h, c4)" "set [j] \<subseteq> V"
    "beam_result b s q (\<lambda>i. \<not> tb_test deleted i) 0 ef V h" "sx_results c4 = sx_results c3"
    using search_layer_ok [OF q ef1 c3(3) c3(1,2), of "[j]" 0 UNIV deleted True] j(3) unfolding live by (auto simp: links_closed_def)
  obtain n c5 where sr: "sorted_results h c4 = (n, c5)" by fastforce
  note bs = beam_sorted [OF q l(3) sr]
  let ?best = "best_live b s q deleted ?k V"
  have kef: "?k \<le> ef" using ef by simp
  have tk: "take (min n ?k) (sx_results c5) = ?best"
    using arg_cong [OF bs(1), of "take ?k"] kef by (simp add: best_live_def min.commute min.absorb1)
  have lenb: "length ?best = min n ?k" using arg_cong [OF tk, of length] bs(4) by simp
  have out: "map (\<lambda>i. mk_scored (sc_distance (sx_results c5 ! i)) (word_of_nat (sc_id (sx_results c5 ! i)))) [0..<min n ?k] =
      map to_neighbor ?best"
    using lenb by (intro nth_equalityI) (simp_all add: tk [symmetric] to_neighbor_def)
  have "search_with b s deleted ctx q knobs out = Some (length ?best, map to_neighbor ?best @ drop (length ?best) out, c5)"
    unfolding search_with_def Let_def ef [symmetric] c1_def [symmetric]
    using k e(1) dist j(1) l(1) sr out by (simp add: hb_sc_def [symmetric] lenb)
  then show ?thesis using j(3,4) l(2,3) by (intro exI [of _ j] exI [of _ h] exI [of _ V] exI [of _ c5]) simp
qed


subsection \<open>When the beam covers the graph\<close>

definition level_edges :: "hnsw_graph \<Rightarrow> nat \<Rightarrow> (nat \<times> nat) set" where
  "level_edges g l = {(i, j). on_level g l i \<and> j \<in> set (hg_lists g i l)}"

lemma beam_covers:
  assumes r: "beam_result b s q live 0 ef V h" and j: "j \<in> V" and n: "node_count (hb_graph b) \<le> ef"
    and reach: "\<forall>i < node_count (hb_graph b). (j, i) \<in> (level_edges (hb_graph b) 0)\<^sup>*"
  shows "{i\<in>V. live i} = {i. i < node_count (hb_graph b) \<and> live i}"
proof -
  let ?g = "hb_graph b" and ?n = "node_count (hb_graph b)" and ?L = "{i\<in>V. live i}"
  have V: "\<forall>i\<in>V. on_level ?g 0 i" and kb: "keeps_best candidate_less ef (image_mset (hb_sc b s q) (mset_set ?L)) (mset (bh_elems h))"
    and cl: "\<forall>i\<in>V. set (hg_lists ?g i 0) \<subseteq> V \<or> beats h (hb_sc b s q i)" and len: "length (bh_data h) = ef"
    and wf: "bh_wf candidate_less cand_ok h"
    using r by (simp_all add: beam_result_def)
  have sub: "V \<subseteq> {..<?n}" using V on_level_less by blast
  then have finV: "finite V" using finite_subset by blast
  have "V = {..<?n}"
  proof (cases "bh_full h")
    case True
    have "size (mset (bh_elems h)) = ef" using True wf len by (simp add: bh_full_def bh_elems_def)
    then have "min ef (card ?L) = ef" using kb finV by (simp add: keeps_best_def)
    then have "ef \<le> card ?L" by (metis min.cobounded2)
    moreover have "card ?L \<le> card V" using finV by (intro card_mono) auto
    ultimately show ?thesis using n sub by (intro card_subset_eq) (auto intro: antisym card_mono [of "{..<?n}", simplified])
  next
    case False
    then have closed: "set (hg_lists ?g i 0) \<subseteq> V" if "i \<in> V" for i using cl that by (auto simp: beats_def)
    have "i \<in> V" if "(j, i) \<in> (level_edges ?g 0)\<^sup>*" for i
      using that
    proof (induction rule: rtrancl_induct)
      case base
      then show ?case by (rule j)
    next
      case (step y z)
      then show ?case using closed by (auto simp: level_edges_def)
    qed
    then show ?thesis using reach sub by auto
  qed
  then show ?thesis by auto
qed


subsection \<open>Validated rows\<close>

context kernel_laws
begin

lemma hb_dist_row:
  assumes "hb_kernels b = table" "hb_dim b = st_dim s" "st_inv s" "i < st_size s"
  shows "hb_dist b s q i = query_distance table (hb_mode b) q (st_row s i) (st_dim s)"
proof -
  obtain r where r: "st_row_ptr s i = Some r" using assms(4) by (simp add: st_row_ptr_def)
  have "query_distance table (hb_mode b) q r (st_dim s) = query_distance table (hb_mode b) q (st_row s i) (st_dim s)"
    by (rule query_distance_local) (simp add: st_row_def r)
  then show ?thesis using r assms(1,2) by (simp add: hb_dist_def)
qed

lemma hb_query_ok:
  assumes "hb_kernels b = table" "hb_dim b = st_dim s" "st_inv s" "graph_ok (hb_graph b)" "node_count (hb_graph b) \<le> st_size s"
    "components_ok (qv_data q) (st_dim s)" "f32_is_finite (qv_inv_norm q)"
    "\<forall>i < st_size s. components_ok (st_row s i) (st_dim s)"
  shows "query_ok b s q"
  using assms by (auto simp: query_ok_def hb_dist_row query_distance_not_nan)

end

lemma validated_components: "status_ok (validate_vector v (st_dim s)) \<Longrightarrow> st_inv s \<Longrightarrow> components_ok v (st_dim s)"
  using st_invD(2) [of s] by (auto simp: validate_vector_ok components_ok_def all_set_conv_all_nth)

lemma set_entry_simps [simp]:
  "hg_levels (set_entry g e) = hg_levels g" "hg_m (set_entry g e) = hg_m g" "hg_max_level (set_entry g e) = hg_max_level g"
  "node_count (set_entry g e) = node_count g" "hg_inv (set_entry g e) = hg_inv g" "link_map (set_entry g e) = link_map g"
  "graph_ok (set_entry g e) = graph_ok g" "on_level (set_entry g e) l i = on_level g l i" "hg_lists (set_entry g e) i l = hg_lists g i l"
  "link_capacity (set_entry g e) l = link_capacity g l"
proof -
  have l: "list_ptr (set_entry g e) i l = list_ptr g i l" "view_ids (set_entry g e) a = view_ids g a" for i l a
    by (simp add: list_ptr_def set_entry_def) (cases a; simp add: set_entry_def view_ids_def read_word_def)
  have r: "gmem (set_entry g e) l = gmem g l" "gbase (set_entry g e) i l = gbase g i l" "valid_list (set_entry g e) i l = valid_list g i l"
    "layout_ok (set_entry g e) = layout_ok g" for i l
    by (simp_all add: set_entry_def gmem_def gbase_def valid_list_def layout_ok_def arena_ok_def params_ok_def)
  show m: "link_map (set_entry g e) = link_map g" 
    by (intro ext) (auto simp: link_map_def graph_links_def l(1) intro!: option.map_cong l(2))
  show "hg_lists (set_entry g e) i l = hg_lists g i l" by (simp add: hg_lists_def r)
  show c: "link_capacity (set_entry g e) l = link_capacity g l" for l by (simp add: set_entry_def link_capacity_def)
  show lv: "hg_levels (set_entry g e) = hg_levels g" "hg_m (set_entry g e) = hg_m g" "hg_max_level (set_entry g e) = hg_max_level g"
    by (simp_all add: set_entry_def)
  show inv: "hg_inv (set_entry g e) = hg_inv g"
    unfolding hg_inv_def r c by (simp add: free_zero_def r) (simp add: set_entry_def)
  show "node_count (set_entry g e) = node_count g" "on_level (set_entry g e) l i = on_level g l i"
    by (simp_all add: node_count_def on_level_def lv)
  show "graph_ok (set_entry g e) = graph_ok g" by (simp add: graph_ok_def inv m lv)
qed


subsection \<open>A small backend\<close>

definition sample_store :: vector_store where
  "sample_store =
     snd (st_append (\<lambda>n. Some (replicate n f32_one)) (snd (st_append (\<lambda>n. Some (replicate n f32_one))
       (projr (st_create \<lparr>so_dim = 1, so_rows_per_chunk = 2, so_max_rows = 2\<rparr>)) [f32_one])) [f32_zero])"

lemma sample_append:
  assumes "st_inv s" "st_dim s = 1" "st_size s < st_max_rows s"
  shows "st_inv (snd (st_append (\<lambda>n. Some (replicate n f32_one)) s [x]))"
    "st_rows (snd (st_append (\<lambda>n. Some (replicate n f32_one)) s [x])) = st_rows s @ [[x]]"
    "st_dim (snd (st_append (\<lambda>n. Some (replicate n f32_one)) s [x])) = 1"
    "st_max_rows (snd (st_append (\<lambda>n. Some (replicate n f32_one)) s [x])) = st_max_rows s"
proof -
  obtain res s' where ap: "st_append (\<lambda>n. Some (replicate n f32_one)) s [x] = (res, s')" by fastforce
  have "res \<noteq> Thrown" using ap assms by (auto simp: st_append_def st_add_chunk_def split: option.splits if_splits)
  then have "st_inv s' \<and> st_rows s' = st_rows s @ [[x]] \<and> st_dim s' = 1 \<and> st_max_rows s' = st_max_rows s"
    using st_append_ok [OF assms(1) _ _ assms(3) ap] assms(2) by (auto simp: alloc_fits_def)
  then show "st_inv (snd (st_append (\<lambda>n. Some (replicate n f32_one)) s [x]))"
    "st_rows (snd (st_append (\<lambda>n. Some (replicate n f32_one)) s [x])) = st_rows s @ [[x]]"
    "st_dim (snd (st_append (\<lambda>n. Some (replicate n f32_one)) s [x])) = 1"
    "st_max_rows (snd (st_append (\<lambda>n. Some (replicate n f32_one)) s [x])) = st_max_rows s"
    by (simp_all add: ap)
qed

lemma sample_store_facts:
  "st_inv sample_store" "st_rows sample_store = [[f32_one], [f32_zero]]" "st_dim sample_store = 1" "st_size sample_store = 2"
  "\<forall>i < st_size sample_store. status_ok (validate_vector (st_row sample_store i) (st_dim sample_store))"
proof -
  have "has_single_bit 2" using has_single_bit_of_power [of 1] by simp
  then obtain s0 where c: "st_create \<lparr>so_dim = 1, so_rows_per_chunk = 2, so_max_rows = 2\<rparr> = Inr s0"
    by (simp add: st_create_def kMaxDim_def kMaxVectorsPerCollection_def kInvalidInternalId_def
        checked_mul3_def checked_mul_size_def)
  note c0 = st_create_ok [OF c]
  have s0: "st_inv s0" "st_dim s0 = 1" "st_size s0 < st_max_rows s0" using c0 by simp_all
  note a = sample_append [OF s0, of f32_one]
  define s1 where "s1 = snd (st_append (\<lambda>n. Some (replicate n f32_one)) s0 [f32_one])"
  have "st_size s1 = 1" using arg_cong [OF a(2), of length] c0 by (simp add: s1_def)
  then have s1: "st_inv s1" "st_dim s1 = 1" "st_size s1 < st_max_rows s1" using a c0(4) by (simp_all add: s1_def)
  note z = sample_append [OF s1, of f32_zero]
  have e: "sample_store = snd (st_append (\<lambda>n. Some (replicate n f32_one)) s1 [f32_zero])"
    unfolding sample_store_def c s1_def by simp
  show r: "st_inv sample_store" "st_rows sample_store = [[f32_one], [f32_zero]]" "st_dim sample_store = 1"
    using z a c0(2) by (simp_all add: e s1_def)
  show sz: "st_size sample_store = 2" using arg_cong [OF r(2), of length] by simp
  have ok: "component_ok f32_one" "component_ok f32_zero"
    by (simp_all add: component_ok_def kMaxAbsComponent_def f32_eval)
  have "st_row sample_store 0 = [f32_one]" "st_row sample_store 1 = [f32_zero]"
    using nth_st_rows [of 0 sample_store] nth_st_rows [of 1 sample_store] r(2) sz by simp_all
  then show "\<forall>i < st_size sample_store. status_ok (validate_vector (st_row sample_store i) (st_dim sample_store))"
    using sz r(3) ok by (auto simp: validate_vector_ok less_2_cases_iff)
qed

definition sample_linked :: hnsw_graph where
  "sample_linked =
     set_entry (the (set_links (the (set_links sample_graph 0 0 [1])) 1 0 [0])) \<lparr>he_id = 0, he_level = 1\<rparr>"

lemma sample_linked_facts:
  "graph_ok sample_linked" "hg_levels sample_linked = [1, 0]" "hg_lists sample_linked 0 0 = [1]" "hg_lists sample_linked 1 0 = [0]"
  "read_entry sample_linked = \<lparr>he_id = 0, he_level = 1\<rparr>"
proof -
  note g = sample_graph_facts
  have cap: "link_capacity sample_graph 0 = 4"
    using g(1,5) params_okD(2) [of sample_graph] by (simp add: link_capacity_def hg_inv_def)
  have wf: "links_wf (hg_levels sample_graph) (link_map sample_graph)" unfolding links_wf_def g(6) by (auto split: if_splits)
  obtain g1 where g1: "set_links sample_graph 0 0 [1] = Some g1" "hg_inv g1" "hg_levels g1 = hg_levels sample_graph"
    "link_capacity g1 = link_capacity sample_graph" "link_map g1 = (link_map sample_graph)((0, 0) \<mapsto> [1])"
    "links_wf (hg_levels g1) (link_map g1)"
    by (rule glinks.put_wf [OF g(1) wf, of 0 0 "[1]"]) (use g cap in simp_all)
  obtain g2 where g2: "set_links g1 1 0 [0] = Some g2" "hg_inv g2" "hg_levels g2 = hg_levels g1"
    "link_map g2 = (link_map g1)((1, 0) \<mapsto> [0])" "links_wf (hg_levels g2) (link_map g2)"
    by (rule glinks.put_wf [OF g1(2,6), of 1 0 "[0]"]) (use g1 g cap in simp_all)
  have e: "sample_linked = set_entry g2 \<lparr>he_id = 0, he_level = 1\<rparr>" unfolding sample_linked_def g1(1) option.sel g2(1) ..
  show "graph_ok sample_linked" "hg_levels sample_linked = [1, 0]"
    using g2(2,3,5) g1(3) g(4) by (simp_all add: e graph_ok_def)
  have "valid_list g2 0 0" "valid_list g2 1 0" using g2(3) g1(3) g(4) by (simp_all add: valid_list_def)
  then show "hg_lists sample_linked 0 0 = [1]" "hg_lists sample_linked 1 0 = [0]"
    using link_map_eq [OF g2(2), of 0 0] link_map_eq [OF g2(2), of 1 0] g2(4) g1(5) by (simp_all add: e)
  show "read_entry sample_linked = \<lparr>he_id = 0, he_level = 1\<rparr>" unfolding e by (rule entry_round_trip) simp_all
qed

definition sample_backend :: hnsw_backend where
  "sample_backend =
     make_backend sample_store L2 False scalar_kernel_table default_hnsw_params default_build_options sample_linked"

definition sample_query :: query_view where
  "sample_query = \<lparr>qv_data = [f32_zero], qv_inv_norm = f32_one\<rparr>"

lemma sample_backend_facts:
  "hb_kernels sample_backend = scalar_kernel_table" "hb_dim sample_backend = st_dim sample_store"
  "hb_graph sample_backend = sample_linked" "node_count sample_linked = 2"
  "on_level sample_linked 1 0" "on_level sample_linked 0 0" "on_level sample_linked 0 1" "entry_valid (read_entry sample_linked)"
  "status_ok (validate_vector (qv_data sample_query) (st_dim sample_store))" "f32_is_finite (qv_inv_norm sample_query)"
proof -
  have ok: "component_ok f32_zero" by (simp add: component_ok_def kMaxAbsComponent_def f32_eval)
  show "hb_kernels sample_backend = scalar_kernel_table" "hb_dim sample_backend = st_dim sample_store"
    "hb_graph sample_backend = sample_linked" "node_count sample_linked = 2"
    "on_level sample_linked 1 0" "on_level sample_linked 0 0" "on_level sample_linked 0 1" "entry_valid (read_entry sample_linked)"
    "status_ok (validate_vector (qv_data sample_query) (st_dim sample_store))" "f32_is_finite (qv_inv_norm sample_query)"
    using ok sample_linked_facts sample_store_facts
    by (simp_all add: sample_backend_def make_backend_def node_count_def on_level_def entry_valid_def kInvalidInternalId_def
      sample_query_def validate_vector_ok f32_constants_finite)
qed

lemma sample_query_ok: "query_ok sample_backend sample_store sample_query"
  by (rule scalar.hb_query_ok)
    (use sample_backend_facts sample_store_facts sample_linked_facts(1) validated_components [of _ sample_store] in \<open>simp_all add: sample_query_def\<close>)


lemma best_live_ids:
  fixes b s q deleted k
  assumes V: "V \<subseteq> {..<N}"
  defines "best \<equiv> best_live b s q deleted k V"
  shows "\<And>c. c \<in> set best \<Longrightarrow> c = hb_sc b s q (sc_id c)" "set (map sc_id best) \<subseteq> {i\<in>V. \<not> tb_test deleted i}" "distinct (map sc_id best)"
    "sorted_wrt (<) (map (\<lambda>i. cand_key (hb_sc b s q i)) (map sc_id best))"
    "length best = min k (card {i\<in>V. \<not> tb_test deleted i})"
    "\<And>i j. i \<in> V \<Longrightarrow> \<not> tb_test deleted i \<Longrightarrow> i \<notin> set (map sc_id best) \<Longrightarrow> j \<in> set (map sc_id best) \<Longrightarrow>
       cand_key (hb_sc b s q j) < cand_key (hb_sc b s q i)"
proof -
  let ?L = "{i\<in>V. \<not> tb_test deleted i}"
  let ?cs = "map (hb_sc b s q) (sorted_list_of_set ?L)"
  have fin: "finite ?L" using V finite_subset by fastforce
  have sub: "set best \<subseteq> hb_sc b s q ` ?L"
    using set_take_subset [of k "sort_key cand_key ?cs"] fin by (auto simp: best_def best_live_def)
  then show own: "c = hb_sc b s q (sc_id c)" if "c \<in> set best" for c using that by auto
  show "set (map sc_id best) \<subseteq> ?L" using sub by auto
  have dk: "distinct (map cand_key (sort_key cand_key ?cs))"
    using fin by (auto simp: distinct_map inj_on_def cand_key_def hb_sc_def)
  then have di: "distinct (map cand_key best)" by (simp add: best_def best_live_def take_map [symmetric] distinct_take)
  then show "distinct (map sc_id best)" using own by (auto simp: distinct_map inj_on_def) (metis own)
  have "sorted (map cand_key best)" by (simp add: best_def best_live_def take_map [symmetric] sorted_wrt_take)
  then have "sorted_wrt (<) (map cand_key best)" using di by (simp add: strict_sorted_iff)
  moreover have "map (\<lambda>i. cand_key (hb_sc b s q i)) (map sc_id best) = map cand_key best"
    using sub by (auto simp: subset_iff image_iff)
  ultimately show "sorted_wrt (<) (map (\<lambda>i. cand_key (hb_sc b s q i)) (map sc_id best))" by (simp only:)
  show "length best = min k (card ?L)" using fin by (simp add: best_def best_live_def min.commute)
  have srt: "sorted_wrt (<) (map cand_key (best @ drop k (sort_key cand_key ?cs)))"
    using dk by (simp add: best_def best_live_def strict_sorted_iff del: map_append)
  fix i j
  assume i: "i \<in> V" "\<not> tb_test deleted i" "i \<notin> set (map sc_id best)" and j: "j \<in> set (map sc_id best)"
  have "hb_sc b s q i \<in> set (best @ drop k (sort_key cand_key ?cs))"
    using i(1,2) fin by (simp add: best_def best_live_def del: set_append)
  moreover have "hb_sc b s q i \<notin> set best" using i(3) by force
  ultimately have "hb_sc b s q i \<in> set (drop k (sort_key cand_key ?cs))" by simp
  moreover have "hb_sc b s q j \<in> set best" using j own by auto
  ultimately show "cand_key (hb_sc b s q j) < cand_key (hb_sc b s q i)" using srt by (simp add: sorted_wrt_append)
qed

text \<open>The answer is the front of the retained results in ascending order.\<close>

lemma best_live_retained:
  assumes q: "query_ok b s q" and r: "beam_result b s q (\<lambda>i. \<not> tb_test deleted i) level ef V h" and k: "k \<le> ef"
  shows "best_live b s q deleted k V = take k (sort_key cand_key (bh_elems h))"
proof -
  let ?L = "{i\<in>V. \<not> tb_test deleted i}"
  let ?cs = "map (hb_sc b s q) (sorted_list_of_set ?L)"
  have V: "\<forall>i\<in>V. on_level (hb_graph b) level i"
    and kb: "keeps_best candidate_less ef (image_mset (hb_sc b s q) (mset_set ?L)) (mset (bh_elems h))"
    using r by (simp_all add: beam_result_def)
  have "V \<subseteq> {..<node_count (hb_graph b)}" using V on_level_less by blast
  then have "finite V" using finite_subset by blast
  then have fin: "finite ?L" by simp
  have ms: "mset ?cs = image_mset (hb_sc b s q) (mset_set ?L)"
    using fin by (simp add: sorted_list_of_mset_set [symmetric] mset_sorted_list_of_multiset del: sorted_list_of_mset_set)
  have ok: "\<forall>c\<in>set ?cs. cand_ok c" using fin V hb_sc_ok [OF q] on_level_less by auto
  have sub: "set (bh_elems h) \<subseteq> set ?cs"
    using kb set_mset_mono [of "mset (bh_elems h)" "mset ?cs"] unfolding ms [symmetric] by (simp add: keeps_best_def)
  then have hk: "\<forall>c\<in>set (bh_elems h). cand_ok c" using ok by blast
  have "sort_key cand_key (bh_elems h) = take ef (sort_key cand_key ?cs)"
  proof (rule keeps_best_sorted_prefix)
    show "keeps_best candidate_less ef (mset ?cs) (mset (sort_key cand_key (bh_elems h)))" using kb unfolding ms by simp
    have "sorted_wrt (\<lambda>a b. cand_key a \<le> cand_key b) (sort_key cand_key (bh_elems h))"
      using sorted_sort_key [of cand_key "bh_elems h"] by (simp add: sorted_wrt_map)
    then show "sorted_wrt (\<lambda>a b. \<not> candidate_less b a) (sort_key cand_key (bh_elems h))"
      by (rule sorted_wrt_mono_rel [rotated]) (use hk in \<open>simp add: candidate_less_key not_less\<close>)
    show "\<forall>c\<in>set ?cs. cand_ok c" by (rule ok)
    show "inj_on cand_key (set ?cs)" by (auto simp: inj_on_def cand_key_def hb_sc_def)
  qed
  then show ?thesis using k by (simp add: best_live_def min.absorb1)
qed

subsection \<open>Properties of the query path\<close>

text \<open>
  C29. On a well-formed graph over validated rows, an HNSW query never fails an assertion and always
  ends (greedy descent and beam search both terminate), and what it returns is correct: at most
  \<open>k\<close> results, strictly ascending in (distance, id) with distinct ids, each a live row with its true
  distance. They are exactly the \<open>k\<close> best live nodes of the visited set: every other live visited node
  ranks after every result, and the results are the front of the \<open>ef\<close> retained ones in ascending
  order. The visited set contains a node at least as close as the entry point and the level-0
  neighbours of every visited node better than the worst of the \<open>ef\<close> retained results.
\<close>

theorem hnsw_search_sound:
  assumes "hb_kernels b = scalar_kernel_table" "hb_dim b = st_dim s" "st_inv s" "graph_ok (hb_graph b)"
    and "node_count (hb_graph b) \<le> st_size s" "\<forall>i < st_size s. status_ok (validate_vector (st_row s i) (st_dim s))"
    and "status_ok (validate_vector (qv_data q) (st_dim s))" "f32_is_finite (qv_inv_norm q)"
    and "entry_valid (read_entry (hb_graph b))" "on_level (hb_graph b) (he_level (read_entry (hb_graph b))) (he_id (read_entry (hb_graph b)))"
    and "1 \<le> kn_k knobs" "kn_k knobs \<le> length out" "vs_inv (sx_visited ctx)" "tb_inv deleted"
  shows "\<exists>n out' V h j ids. hnsw_search b s deleted ctx q knobs out = Some (n, out') \<and> n \<le> kn_k knobs \<and> length out' = length out \<and>
    take n out' = map (\<lambda>i. mk_scored (query_distance scalar_kernel_table (hb_mode b) q (st_row s i) (st_dim s)) (word_of_nat i)) ids \<and>
    distinct ids \<and> set ids \<subseteq> V \<and> (\<forall>i\<in>set ids. \<not> tb_test deleted i) \<and>
    sorted_wrt (<) (map (\<lambda>i. cand_key (hb_sc b s q i)) ids) \<and> n = min (kn_k knobs) (card {i\<in>V. \<not> tb_test deleted i}) \<and>
    (\<forall>i\<in>V. \<not> tb_test deleted i \<longrightarrow> i \<notin> set ids \<longrightarrow> (\<forall>j\<in>set ids. cand_key (hb_sc b s q j) < cand_key (hb_sc b s q i))) \<and>
    ids = map sc_id (take (kn_k knobs) (sort_key cand_key (bh_elems h))) \<and>
    j \<in> V \<and> cand_key (hb_sc b s q j) \<le> cand_key (hb_sc b s q (he_id (read_entry (hb_graph b)))) \<and>
    beam_result b s q (\<lambda>i. \<not> tb_test deleted i) 0
      (max (if kn_ef knobs \<noteq> 0 then kn_ef knobs else unat (hp_ef_search (hb_params b))) (kn_k knobs)) V h"
proof -
  have q: "query_ok b s q"
    by (rule scalar.hb_query_ok) (use assms validated_components [of _ s] in simp_all)
  define ef where "ef = max (if kn_ef knobs \<noteq> 0 then kn_ef knobs else unat (hp_ef_search (hb_params b))) (kn_k knobs)"
  obtain j h V ctx' where r: "on_level (hb_graph b) 0 j" "j \<in> V"
    "cand_key (hb_sc b s q j) \<le> cand_key (hb_sc b s q (he_id (read_entry (hb_graph b))))"
    "beam_result b s q (\<lambda>i. \<not> tb_test deleted i) 0 ef V h"
    "search_with b s deleted ctx q knobs out =
      Some (length (best_live b s q deleted (kn_k knobs) V),
        map to_neighbor (best_live b s q deleted (kn_k knobs) V) @ drop (length (best_live b s q deleted (kn_k knobs) V)) out, ctx')"
    using search_with_ok [OF q assms(11,12,9,10,13,14) ef_def] by blast
  have V: "V \<subseteq> {..<node_count (hb_graph b)}" using r(4) on_level_less by (auto simp: beam_result_def)
  have kef: "kn_k knobs \<le> ef" by (simp add: ef_def)
  note best = best_live_ids [OF V, where b = b and s = s and q = q and deleted = deleted and k = "kn_k knobs"]
  define ids where "ids = map sc_id (best_live b s q deleted (kn_k knobs) V)"
  have len: "length (best_live b s q deleted (kn_k knobs) V) \<le> length out" using best(5) assms(12) by simp
  have nb: "map to_neighbor (best_live b s q deleted (kn_k knobs) V) =
      map (\<lambda>i. mk_scored (query_distance scalar_kernel_table (hb_mode b) q (st_row s i) (st_dim s)) (word_of_nat i)) ids"
    unfolding ids_def map_map
  proof (rule map_cong [OF refl])
    fix c assume c: "c \<in> set (best_live b s q deleted (kn_k knobs) V)"
    have "sc_id c < st_size s" using c best(2) V assms(5) by fastforce
    then have "sc_distance c = query_distance scalar_kernel_table (hb_mode b) q (st_row s (sc_id c)) (st_dim s)"
      using arg_cong [OF best(1) [OF c], of sc_distance] scalar.hb_dist_row [OF assms(1-3)] by (simp add: hb_sc_def)
    then show "to_neighbor c = ((\<lambda>i. mk_scored (query_distance scalar_kernel_table (hb_mode b) q (st_row s i) (st_dim s)) (word_of_nat i)) \<circ> sc_id) c"
      by (simp add: to_neighbor_def)
  qed
  define out' where "out' = map (\<lambda>i. mk_scored (query_distance scalar_kernel_table (hb_mode b) q (st_row s i) (st_dim s)) (word_of_nat i)) ids
        @ drop (length ids) out"
  have n: "length ids = length (best_live b s q deleted (kn_k knobs) V)" by (simp add: ids_def)
  have res: "hnsw_search b s deleted ctx q knobs out = Some (length ids, out')"
    unfolding hnsw_search_def r(5) nb n [symmetric] out'_def by simp
  have dim: "length ids \<le> kn_k knobs" "length out' = length out" using best(5) len n by (simp_all add: out'_def)
  have tk: "take (length ids) out' =
      map (\<lambda>i. mk_scored (query_distance scalar_kernel_table (hb_mode b) q (st_row s i) (st_dim s)) (word_of_nat i)) ids"
    by (simp add: out'_def)
  have live: "set ids \<subseteq> V" "\<forall>i\<in>set ids. \<not> tb_test deleted i" using best(2) unfolding ids_def [symmetric] by blast+
  have others: "\<forall>i\<in>V. \<not> tb_test deleted i \<longrightarrow> i \<notin> set ids \<longrightarrow>
      (\<forall>j\<in>set ids. cand_key (hb_sc b s q j) < cand_key (hb_sc b s q i))"
    using best(6) unfolding ids_def [symmetric] by blast
  have front: "ids = map sc_id (take (kn_k knobs) (sort_key cand_key (bh_elems h)))"
    unfolding ids_def by (simp only: best_live_retained [OF q r(4) kef])
  show ?thesis
    by (rule exI [of _ "length ids"], rule exI [of _ out'], rule exI [of _ V], rule exI [of _ h], rule exI [of _ j], rule exI [of _ ids])
      (intro conjI res dim tk live best(3,4) [folded ids_def] best(5) [folded n] others front r(2,3) r(4) [unfolded ef_def])
qed

theorem hnsw_search_sound_witness:
  "\<exists>n out'. hnsw_search sample_backend sample_store tb_empty new_search_context sample_query \<lparr>kn_k = 1, kn_ef = 0\<rparr> [mk_scored f32_zero 0] =
     Some (n, out') \<and> n \<le> 1 \<and> length out' = 1"
proof -
  note f = sample_backend_facts and st = sample_store_facts
  let ?k = "\<lparr>kn_k = 1, kn_ef = 0\<rparr>" and ?out = "[mk_scored f32_zero 0] :: neighbor list"
  have g: "graph_ok (hb_graph sample_backend)" "node_count (hb_graph sample_backend) \<le> st_size sample_store"
    "entry_valid (read_entry (hb_graph sample_backend))"
    "on_level (hb_graph sample_backend) (he_level (read_entry (hb_graph sample_backend))) (he_id (read_entry (hb_graph sample_backend)))"
    unfolding f(3) f(4) st(4) sample_linked_facts(5) using sample_linked_facts(1) f(5,8) sample_linked_facts(5) by simp_all
  have k: "1 \<le> kn_k ?k" "kn_k ?k \<le> length ?out" "vs_inv (sx_visited new_search_context)" "tb_inv tb_empty"
    by (simp_all add: new_search_context_def tb_empty_facts)
  obtain n out' where "hnsw_search sample_backend sample_store tb_empty new_search_context sample_query ?k ?out = Some (n, out')"
    "n \<le> kn_k ?k" "length out' = length ?out"
    using hnsw_search_sound [OF f(1,2) st(1) g(1,2) st(5) f(9,10) g(3,4) k] by blast
  then show ?thesis by simp
qed

text \<open>
  C30. When the beam is at least as wide as the graph and every node is reachable on level 0 from
  every node, an HNSW query is exact: it returns precisely the \<open>k\<close> nearest live nodes in
  (distance, id) order, as the flat index would.
\<close>

theorem hnsw_search_exact_wide_beam:
  assumes "query_ok b s q" "1 \<le> kn_k knobs" "kn_k knobs \<le> length out"
    and "entry_valid (read_entry (hb_graph b))" "on_level (hb_graph b) (he_level (read_entry (hb_graph b))) (he_id (read_entry (hb_graph b)))"
    and "vs_inv (sx_visited ctx)" "tb_inv deleted" "node_count (hb_graph b) \<le> kn_ef knobs"
    and "\<forall>i < node_count (hb_graph b). \<forall>j < node_count (hb_graph b). (i, j) \<in> (level_edges (hb_graph b) 0)\<^sup>*"
  shows "let best = take (kn_k knobs) (sort_key (\<lambda>c. (f32_val (sc_distance c), sc_id c))
           (map (hb_sc b s q) (filter (\<lambda>i. \<not> tb_test deleted i) [0..<node_count (hb_graph b)])))
         in hnsw_search b s deleted ctx q knobs out = Some (length best, map to_neighbor best @ drop (length best) out)"
proof -
  define ef where "ef = max (if kn_ef knobs \<noteq> 0 then kn_ef knobs else unat (hp_ef_search (hb_params b))) (kn_k knobs)"
  let ?n = "node_count (hb_graph b)"
  obtain j h V ctx' where r: "on_level (hb_graph b) 0 j" "j \<in> V" "beam_result b s q (\<lambda>i. \<not> tb_test deleted i) 0 ef V h"
    "search_with b s deleted ctx q knobs out =
      Some (length (best_live b s q deleted (kn_k knobs) V),
        map to_neighbor (best_live b s q deleted (kn_k knobs) V) @ drop (length (best_live b s q deleted (kn_k knobs) V)) out, ctx')"
    using search_with_ok [OF assms(1-7) ef_def] by blast
  have ef: "?n \<le> ef" using assms(8) by (auto simp: ef_def)
  have reach: "\<forall>i < ?n. (j, i) \<in> (level_edges (hb_graph b) 0)\<^sup>*" using assms(9) on_level_less [OF r(1)] by blast
  have "sorted_list_of_set {i. i < ?n \<and> \<not> tb_test deleted i} = filter (\<lambda>i. \<not> tb_test deleted i) [0..<?n]"
    by (rule sorted_list_of_set.idem_if_sorted_distinct [THEN trans [rotated]])
      (auto intro: arg_cong [of _ _ sorted_list_of_set] sorted_wrt_filter)
  then have "best_live b s q deleted (kn_k knobs) V = take (kn_k knobs) (sort_key cand_key
      (map (hb_sc b s q) (filter (\<lambda>i. \<not> tb_test deleted i) [0..<?n])))"
    unfolding best_live_def beam_covers [OF r(3,2) ef reach] by simp
  then show ?thesis unfolding Let_def hnsw_search_def r(4) by (simp add: cand_key_def [abs_def])
qed

lemma sample_connected: "\<forall>i < node_count sample_linked. \<forall>j < node_count sample_linked. (i, j) \<in> (level_edges sample_linked 0)\<^sup>*"
proof -
  have "(0, 1) \<in> level_edges sample_linked 0" "(1, 0) \<in> level_edges sample_linked 0"
    using sample_backend_facts sample_linked_facts by (simp_all add: level_edges_def)
  then show ?thesis using sample_backend_facts(4) by (auto simp: less_2_cases_iff)
qed

theorem hnsw_search_exact_wide_beam_witness:
  "\<exists>best. length best = 2 \<and>
     hnsw_search sample_backend sample_store tb_empty new_search_context sample_query \<lparr>kn_k = 2, kn_ef = 2\<rparr>
       [mk_scored f32_zero 0, mk_scored f32_zero 0] = Some (2, map to_neighbor best)"
proof -
  note f = sample_backend_facts sample_linked_facts(5)
  have c: "vs_inv (sx_visited new_search_context)" "tb_inv tb_empty" by (simp_all add: new_search_context_def tb_empty_facts)
  have t: "tb_test tb_empty i = False" for i by (simp add: tb_test_def tb_empty_def)
  let ?k = "\<lparr>kn_k = 2, kn_ef = 2\<rparr>" and ?out = "[mk_scored f32_zero 0, mk_scored f32_zero 0] :: neighbor list"
  define best where "best = take (kn_k ?k) (sort_key (\<lambda>c. (f32_val (sc_distance c), sc_id c))
    (map (hb_sc sample_backend sample_store sample_query) (filter (\<lambda>i. \<not> tb_test tb_empty i) [0..<node_count (hb_graph sample_backend)])))"
  have g: "entry_valid (read_entry (hb_graph sample_backend))"
    "on_level (hb_graph sample_backend) (he_level (read_entry (hb_graph sample_backend))) (he_id (read_entry (hb_graph sample_backend)))"
    "node_count (hb_graph sample_backend) \<le> kn_ef ?k"
    "\<forall>i < node_count (hb_graph sample_backend). \<forall>j < node_count (hb_graph sample_backend).
       (i, j) \<in> (level_edges (hb_graph sample_backend) 0)\<^sup>*"
    unfolding f(3) using f sample_connected by simp_all
  have k: "1 \<le> kn_k ?k" "kn_k ?k \<le> length ?out" by simp_all
  have "hnsw_search sample_backend sample_store tb_empty new_search_context sample_query ?k ?out =
      Some (length best, map to_neighbor best @ drop (length best) ?out)"
    using hnsw_search_exact_wide_beam [OF sample_query_ok k g(1,2) c g(3,4)] unfolding Let_def best_def [symmetric] .
  moreover have "length best = 2" by (simp add: best_def t f(3,4))
  ultimately show ?thesis by (intro exI [of _ best]) simp
qed

text \<open>
  C31. Greedy descent terminates without a visited set: from any node of a level it reaches, without
  failing an assertion, a node of that level that is no farther than the start and at least as close
  as all of its own neighbours.
\<close>

theorem greedy_search_local_minimum:
  assumes "query_ok b s q" "on_level (hb_graph b) l i"
  shows "\<exists>j ctx'. greedy_search b s q l (hb_sc b s q i) ctx = Some (hb_sc b s q j, ctx') \<and> on_level (hb_graph b) l j \<and>
    cand_key (hb_sc b s q j) \<le> cand_key (hb_sc b s q i) \<and>
    (\<forall>n\<in>set (hg_lists (hb_graph b) j l). cand_key (hb_sc b s q j) \<le> cand_key (hb_sc b s q n))"
  using greedy_search_ok [OF assms, of ctx] by blast

theorem greedy_search_local_minimum_witness:
  "\<exists>j ctx'. greedy_search sample_backend sample_store sample_query 0 (hb_sc sample_backend sample_store sample_query 0) new_search_context =
     Some (hb_sc sample_backend sample_store sample_query j, ctx') \<and> on_level sample_linked 0 j"
  using greedy_search_local_minimum [OF sample_query_ok, of 0 0 new_search_context] sample_backend_facts by auto

end
