(* ===== verification/VF_HnswInsert.thy ===== *)
theory VF_HnswInsert
  imports VF_HnswSearch
begin

text \<open>
  HNSW insertion (\<^verbatim>\<open>src/index/hnsw/hnsw_insert.cpp\<close>, \<^verbatim>\<open>hnsw_backend.cpp\<close>). One insertion at a time:
  the locks of \<open>publish\<close> and \<open>link\<close> serialise writers of one list and are not part of the state.
  \<open>None\<close> (\<open>Aborted\<close> for \<open>add\<close>) is a failed assertion. The arguments \<open>mem_...\<close> say which allocations
  succeed. The main result is that every insertion keeps the graph well formed.
\<close>

subsection \<open>Scratch memory\<close>

definition new_insert_scratch :: insert_scratch where
  "new_insert_scratch =
     \<lparr>is_context = new_search_context, is_layer_candidates = [], is_layer_selected = [], is_stats = no_stats\<rparr>"

definition pad_to :: "nat \<Rightarrow> 'a list list \<Rightarrow> 'a list list" where
  "pad_to n xss = (if length xss < n then xss @ replicate (n - length xss) [] else xss)"

definition scratch_prepare :: "insert_scratch \<Rightarrow> nat \<Rightarrow> nat \<Rightarrow> nat \<Rightarrow> insert_scratch" where
  "scratch_prepare sc nodes ef max_level =
     sc\<lparr>is_context := sx_prepare (is_context sc) nodes ef,
        is_layer_candidates := pad_to (max_level + 1) (is_layer_candidates sc),
        is_layer_selected := pad_to (max_level + 1) (is_layer_selected sc)\<rparr>"

definition pool_ensure :: "insert_scratch_pool \<Rightarrow> nat \<Rightarrow> nat \<Rightarrow> nat \<Rightarrow> nat \<Rightarrow> insert_scratch_pool option" where
  "pool_ensure p cnt nodes ef max_level =
     (if length (sp_free p) \<noteq> sp_created p then None
      else Some \<lparr>sp_free = map (\<lambda>sc. scratch_prepare sc nodes ef max_level)
                   (sp_free p @ replicate (cnt - sp_created p) new_insert_scratch),
                 sp_created = max (sp_created p) cnt\<rparr>)"

definition pool_take :: "insert_scratch_pool \<Rightarrow> (insert_scratch \<times> insert_scratch_pool) option" where
  "pool_take p = (if sp_free p = [] then None else Some (last (sp_free p), p\<lparr>sp_free := butlast (sp_free p)\<rparr>))"

definition pool_give_back :: "insert_scratch_pool \<Rightarrow> insert_scratch \<Rightarrow> insert_scratch_pool" where
  "pool_give_back p sc = p\<lparr>sp_free := sp_free p @ [sc]\<rparr>"

definition prepare_insert :: "hnsw_backend \<Rightarrow> nat \<Rightarrow> nat \<Rightarrow> hnsw_backend option" where
  "prepare_insert b nodes workers =
     map_option (\<lambda>p. b\<lparr>hb_scratch := p\<rparr>)
       (pool_ensure (hb_scratch b) workers nodes (unat (hp_ef_construction (hb_params b))) (hg_max_level (hb_graph b)))"

subsection \<open>Distances between rows\<close>

definition row_query :: "vector_store \<Rightarrow> internal_id \<Rightarrow> query_view" where
  "row_query s i = \<lparr>qv_data = (case st_row_ptr s i of None \<Rightarrow> [] | Some r \<Rightarrow> r), qv_inv_norm = f32_one\<rparr>"

definition hb_node_distance :: "hnsw_backend \<Rightarrow> vector_store \<Rightarrow> internal_id \<Rightarrow> internal_id \<Rightarrow> f32" where
  "hb_node_distance b s i j = hb_dist b s (row_query s i) j"

text \<open>Rows whose addresses an operation takes must exist.\<close>

definition rows_exist :: "vector_store \<Rightarrow> internal_id list \<Rightarrow> bool" where
  "rows_exist s ids \<longleftrightarrow> list_all (\<lambda>i. st_row_ptr s i \<noteq> None) ids"

text \<open>The number of distances \<open>select_neighbors\<close> computes.\<close>

fun good_calls :: "('i \<Rightarrow> 'i \<Rightarrow> f32) \<Rightarrow> 'i scored \<Rightarrow> 'i scored list \<Rightarrow> nat" where
  "good_calls distance c [] = 0"
| "good_calls distance c (s # ss) =
     Suc (if f32_lt (distance (sc_id c) (sc_id s)) (sc_distance c) then 0 else good_calls distance c ss)"

fun select_calls :: "nat \<Rightarrow> ('i \<Rightarrow> 'i \<Rightarrow> f32) \<Rightarrow> 'i scored list \<Rightarrow> 'i scored list \<Rightarrow> nat" where
  "select_calls m distance [] out = 0"
| "select_calls m distance (c # cs) out =
     (if length out = m then 0
      else good_calls distance c out +
        select_calls m distance cs (if good_candidate distance c out then out @ [c] else out))"

definition count_distances :: "hnsw_build_options \<Rightarrow> nat \<Rightarrow> (internal_id \<Rightarrow> internal_id \<Rightarrow> f32) \<Rightarrow> scored_id list
    \<Rightarrow> hnsw_build_stats \<Rightarrow> hnsw_build_stats" where
  "count_distances opts m distance cands st =
     (if ho_selection opts = Simple then st
      else st\<lparr>bs_distance_computations := bs_distance_computations st + select_calls m distance cands []\<rparr>)"

subsection \<open>Rewriting a full list\<close>

fun shift_in :: "scored_id list \<Rightarrow> scored_id \<Rightarrow> nat \<Rightarrow> scored_id list" where
  "shift_in xs key 0 = xs[0 := key]"
| "shift_in xs key (Suc j) =
     (if candidate_less key (xs ! j) then shift_in (xs[Suc j := xs ! j]) key j else xs[Suc j := key])"

definition insertion_sort :: "scored_id list \<Rightarrow> scored_id list" where
  "insertion_sort xs = fold (\<lambda>i ys. shift_in ys (ys ! i) i) [1..<length xs] xs"

definition write_list :: "hnsw_graph \<Rightarrow> internal_id \<Rightarrow> nat \<Rightarrow> scored_id list \<Rightarrow> hnsw_graph option" where
  "write_list g node level selection = set_links g node level (map sc_id selection)"

definition shrink_with :: "hnsw_backend \<Rightarrow> vector_store \<Rightarrow> hnsw_graph \<Rightarrow> hnsw_build_stats \<Rightarrow> internal_id \<Rightarrow> nat \<Rightarrow> internal_id \<Rightarrow> f32
    \<Rightarrow> (bool \<times> hnsw_graph \<times> hnsw_build_stats) option" where
  "shrink_with b s g st node level new_id new_distance =
     (case graph_links g node level of
        None \<Rightarrow> None
      | Some links \<Rightarrow>
          if \<not> rows_exist s (node # new_id # links) then None
          else (let cands = insertion_sort (map (\<lambda>n. mk_scored (hb_node_distance b s node n) n) links @ [mk_scored new_distance new_id]);
                    sel = select_neighbors cands (link_capacity g level) (ho_selection (hb_options b)) (ho_keep_pruned (hb_options b))
                            (hb_node_distance b s);
                    st1 = count_distances (hb_options b) (link_capacity g level) (hb_node_distance b s) cands
                            (st\<lparr>bs_distance_computations := bs_distance_computations st + length links\<rparr>)
                in map_option (\<lambda>g1. (list_ex (\<lambda>c. sc_id c = new_id) sel, g1, st1)) (write_list g node level sel)))"

subsection \<open>Finding neighbours\<close>

text \<open>The loop over the levels \<open>l, ..., 0\<close>, starting from \<open>entry_points\<close>.\<close>

fun neighbor_levels :: "hnsw_backend \<Rightarrow> vector_store \<Rightarrow> query_view \<Rightarrow> scored_id list \<Rightarrow> nat list \<Rightarrow> insert_scratch \<Rightarrow> insert_scratch option" where
  "neighbor_levels b s q entry_points [] sc = Some sc"
| "neighbor_levels b s q entry_points (l # ls) sc =
     (case search_layer b s tb_empty q entry_points (unat (hp_ef_construction (hb_params b))) l False (is_context sc) of
        None \<Rightarrow> None
      | Some (h, ctx) \<Rightarrow>
          (case sorted_results h ctx of
             (found, ctx1) \<Rightarrow>
               (let cands = take found (sx_results ctx1);
                    sel = select_neighbors cands (unat (hp_M (hb_params b))) (ho_selection (hb_options b)) (ho_keep_pruned (hb_options b))
                            (hb_node_distance b s)
                in if \<not> (rows_exist s (map sc_id cands) \<and> l < length (is_layer_candidates sc) \<and> l < length (is_layer_selected sc))
                   then None
                   else neighbor_levels b s q cands ls
                          (sc\<lparr>is_context := ctx1, is_layer_candidates := (is_layer_candidates sc)[l := cands],
                              is_layer_selected := (is_layer_selected sc)[l := sel],
                              is_stats := count_distances (hb_options b) (unat (hp_M (hb_params b))) (hb_node_distance b s) cands
                                            (is_stats sc)\<rparr>))))"

definition find_neighbors :: "hnsw_backend \<Rightarrow> vector_store \<Rightarrow> insert_scratch \<Rightarrow> internal_id \<Rightarrow> nat \<Rightarrow> graph_entry \<Rightarrow> insert_scratch option" where
  "find_neighbors b s sc i low entry =
     (if \<not> rows_exist s [i] then None
      else case hb_distance b s (is_context sc) (row_query s i) (he_id entry) of
        None \<Rightarrow> None
      | Some (d, ctx) \<Rightarrow>
          (case descend b s (row_query s i) low (he_level entry) (mk_scored d (he_id entry)) ctx of
             None \<Rightarrow> None
           | Some (current, ctx1) \<Rightarrow>
               neighbor_levels b s (row_query s i) [current] (rev [0..<Suc low]) (sc\<lparr>is_context := ctx1\<rparr>)))"

subsection \<open>Publishing\<close>

fun publish_own :: "insert_scratch \<Rightarrow> internal_id \<Rightarrow> nat list \<Rightarrow> hnsw_graph \<Rightarrow> hnsw_graph option" where
  "publish_own sc i [] g = Some g"
| "publish_own sc i (l # ls) g =
     (case write_list g i l (is_layer_selected sc ! l) of
        None \<Rightarrow> None
      | Some g1 \<Rightarrow> publish_own sc i ls g1)"

fun back_links :: "hnsw_backend \<Rightarrow> vector_store \<Rightarrow> internal_id \<Rightarrow> nat \<Rightarrow> scored_id list \<Rightarrow> nat \<Rightarrow> hnsw_graph \<Rightarrow> hnsw_build_stats
    \<Rightarrow> (nat \<times> hnsw_graph \<times> hnsw_build_stats) option" where
  "back_links b s i l [] in_links g st = Some (in_links, g, st)"
| "back_links b s i l (n # ns) in_links g st =
     (case try_append_link g (sc_id n) l i of
        None \<Rightarrow> None
      | Some (True, g1) \<Rightarrow> back_links b s i l ns (Suc in_links) g1 st
      | Some (False, g1) \<Rightarrow>
          (case shrink_with b s g1 st (sc_id n) l i (sc_distance n) of
             None \<Rightarrow> None
           | Some (kept, g2, st2) \<Rightarrow> back_links b s i l ns (if kept then Suc in_links else in_links) g2 st2))"

fun repair_orphan :: "internal_id \<Rightarrow> nat \<Rightarrow> scored_id list \<Rightarrow> hnsw_graph \<Rightarrow> (bool \<times> hnsw_graph) option" where
  "repair_orphan i l [] g = Some (False, g)"
| "repair_orphan i l (c # cs) g =
     (case try_append_link g (sc_id c) l i of
        None \<Rightarrow> None
      | Some (True, g1) \<Rightarrow> Some (True, g1)
      | Some (False, g1) \<Rightarrow> repair_orphan i l cs g1)"

definition publish_level :: "hnsw_backend \<Rightarrow> vector_store \<Rightarrow> insert_scratch \<Rightarrow> internal_id \<Rightarrow> nat \<Rightarrow> hnsw_graph \<Rightarrow> hnsw_build_stats
    \<Rightarrow> (hnsw_graph \<times> hnsw_build_stats) option" where
  "publish_level b s sc i l g st =
     (case back_links b s i l (is_layer_selected sc ! l) 0 g st of
        None \<Rightarrow> None
      | Some (in_links, g1, st1) \<Rightarrow>
          if in_links = 0 \<and> ho_repair_orphans (hb_options b)
          then map_option (\<lambda>(repaired, g2).
                 (g2, if repaired then st1\<lparr>bs_orphan_repairs := bs_orphan_repairs st1 + 1\<rparr>
                      else st1\<lparr>bs_orphans_unrepaired := bs_orphans_unrepaired st1 + 1\<rparr>))
                 (repair_orphan i l (is_layer_candidates sc ! l) g1)
          else if in_links = 0 then Some (g1, st1\<lparr>bs_orphans_unrepaired := bs_orphans_unrepaired st1 + 1\<rparr>)
          else Some (g1, st1))"

fun publish_levels :: "hnsw_backend \<Rightarrow> vector_store \<Rightarrow> insert_scratch \<Rightarrow> internal_id \<Rightarrow> nat list \<Rightarrow> hnsw_graph \<Rightarrow> hnsw_build_stats
    \<Rightarrow> (hnsw_graph \<times> hnsw_build_stats) option" where
  "publish_levels b s sc i [] g st = Some (g, st)"
| "publish_levels b s sc i (l # ls) g st =
     (case publish_level b s sc i l g st of
        None \<Rightarrow> None
      | Some (g1, st1) \<Rightarrow> publish_levels b s sc i ls g1 st1)"

definition publish :: "hnsw_backend \<Rightarrow> vector_store \<Rightarrow> insert_scratch \<Rightarrow> internal_id \<Rightarrow> nat \<Rightarrow> hnsw_graph
    \<Rightarrow> (hnsw_graph \<times> insert_scratch) option" where
  "publish b s sc i low g =
     (case publish_own sc i [0..<Suc low] g of
        None \<Rightarrow> None
      | Some g1 \<Rightarrow>
          map_option (\<lambda>(g2, st). (g2, sc\<lparr>is_stats := st\<rparr>)) (publish_levels b s sc i [0..<Suc low] g1 (is_stats sc)))"

definition record_stats :: "hnsw_backend \<Rightarrow> insert_scratch \<Rightarrow> hnsw_backend" where
  "record_stats b sc =
     b\<lparr>hb_stats :=
         \<lparr>bs_distance_computations = bs_distance_computations (hb_stats b) + (bs_distance_computations (is_stats sc) +
            sx_distance_computations (is_context sc)),
          bs_orphan_repairs = bs_orphan_repairs (hb_stats b) + bs_orphan_repairs (is_stats sc),
          bs_orphans_unrepaired = bs_orphans_unrepaired (hb_stats b) + bs_orphans_unrepaired (is_stats sc)\<rparr>\<rparr>"

subsection \<open>Insertion\<close>

definition fresh_stats :: "insert_scratch \<Rightarrow> insert_scratch" where
  "fresh_stats sc = sc\<lparr>is_stats := no_stats, is_context := (is_context sc)\<lparr>sx_distance_computations := 0\<rparr>\<rparr>"

definition reserve_node :: "bool \<Rightarrow> bool \<Rightarrow> hnsw_backend \<Rightarrow> vector_store \<Rightarrow> internal_id \<Rightarrow> status outcome \<times> hnsw_backend" where
  "reserve_node mem_l0 mem_arena b s i =
     (if \<not> (i = node_count (hb_graph b) \<and> i < st_size s) then (Aborted, b)
      else (case add_node mem_l0 mem_arena (hb_graph b) (level_for (hb_levels b) i) of (r, g) \<Rightarrow> (r, b\<lparr>hb_graph := g\<rparr>)))"

definition hnsw_add :: "bool \<Rightarrow> bool \<Rightarrow> bool \<Rightarrow> bool \<Rightarrow> hnsw_backend \<Rightarrow> vector_store \<Rightarrow> internal_id \<Rightarrow> status outcome \<times> hnsw_backend" where
  "hnsw_add mem_prepare mem_search mem_l0 mem_arena b s i =
     (if \<not> (i = node_count (hb_graph b) \<and> i + 1 = st_size s) then (Aborted, b)
      else (let level = level_for (hb_levels b) i; entry = read_entry (hb_graph b)
            in if \<not> entry_valid entry
               then (case add_node mem_l0 mem_arena (hb_graph b) level of
                       (Returned st, g) \<Rightarrow>
                         if status_ok st
                         then (Returned ok_status, b\<lparr>hb_graph := set_entry g \<lparr>he_id = i, he_level = level\<rparr>\<rparr>)
                         else (Returned st, b\<lparr>hb_graph := g\<rparr>)
                     | (Thrown, g) \<Rightarrow> (Thrown, b\<lparr>hb_graph := g\<rparr>)
                     | (Aborted, g) \<Rightarrow> (Aborted, b))
               else if \<not> mem_prepare then (Thrown, b)
               else (case prepare_insert b (node_count (hb_graph b)) 1 of
                       None \<Rightarrow> (Aborted, b)
                     | Some b1 \<Rightarrow>
                         (case pool_take (hb_scratch b1) of
                            None \<Rightarrow> (Aborted, b)
                          | Some (sc, pool) \<Rightarrow>
                              if \<not> mem_search then (Thrown, b1\<lparr>hb_scratch := pool_give_back pool (fresh_stats sc)\<rparr>)
                              else (let low = min level (he_level entry)
                                    in case find_neighbors b1 s (fresh_stats sc) i low entry of
                                         None \<Rightarrow> (Aborted, b)
                                       | Some sc1 \<Rightarrow>
                                           (let b2 = b1\<lparr>hb_scratch := pool_give_back pool sc1\<rparr>
                                            in case add_node mem_l0 mem_arena (hb_graph b) level of
                                                 (Returned st, g) \<Rightarrow>
                                                   if \<not> status_ok st then (Returned st, b2\<lparr>hb_graph := g\<rparr>)
                                                   else (case publish b1 s sc1 i low g of
                                                           None \<Rightarrow> (Aborted, b)
                                                         | Some (g1, sc2) \<Rightarrow>
                                                             (Returned ok_status,
                                                              record_stats
                                                                (b1\<lparr>hb_scratch := pool_give_back pool sc2,
                                                                    hb_graph := (if level > he_level entry
                                                                                 then set_entry g1 \<lparr>he_id = i, he_level = level\<rparr> else g1)\<rparr>)
                                                                sc2))
                                               | (Thrown, g) \<Rightarrow> (Thrown, b2\<lparr>hb_graph := g\<rparr>)
                                               | (Aborted, g) \<Rightarrow> (Aborted, b)))))))"

text \<open>\<open>link\<close> of a node reserved before; the entry point it works from is the one read under \<open>top_mutex_\<close>.\<close>

definition hnsw_link :: "bool \<Rightarrow> hnsw_backend \<Rightarrow> vector_store \<Rightarrow> internal_id \<Rightarrow> unit outcome \<times> hnsw_backend" where
  "hnsw_link mem_search b s i =
     (case node_level (hb_graph b) i of
        None \<Rightarrow> (Aborted, b)
      | Some level \<Rightarrow>
          (let entry = read_entry (hb_graph b)
           in if \<not> entry_valid entry
              then (Returned (), b\<lparr>hb_graph := set_entry (hb_graph b) \<lparr>he_id = i, he_level = level\<rparr>\<rparr>)
              else (case pool_take (hb_scratch b) of
                      None \<Rightarrow> (Aborted, b)
                    | Some (sc, pool) \<Rightarrow>
                        if \<not> mem_search then (Thrown, b\<lparr>hb_scratch := pool_give_back pool (fresh_stats sc)\<rparr>)
                        else (let low = min level (he_level entry)
                              in case find_neighbors b s (fresh_stats sc) i low entry of
                                   None \<Rightarrow> (Aborted, b)
                                 | Some sc1 \<Rightarrow>
                                     (case publish b s sc1 i low (hb_graph b) of
                                        None \<Rightarrow> (Aborted, b)
                                      | Some (g1, sc2) \<Rightarrow>
                                          (Returned (),
                                           record_stats
                                             (b\<lparr>hb_scratch := pool_give_back pool sc2,
                                                hb_graph := (if level > he_level entry
                                                             then set_entry g1 \<lparr>he_id = i, he_level = level\<rparr> else g1)\<rparr>)
                                             sc2))))))"


subsection \<open>Insertion sort\<close>

lemma shift_in_split:
  "\<exists>p r. xs = p @ r \<and> shift_in (xs @ x # ys) key (length xs) = p @ key # r @ ys \<and>
     (\<forall>c\<in>set r. candidate_less key c) \<and> (p \<noteq> [] \<longrightarrow> \<not> candidate_less key (last p))"
proof (induction xs arbitrary: x ys rule: rev_induct)
  case Nil
  then show ?case by simp
next
  case (snoc a xs)
  have n: "((xs @ [a]) @ x # ys) ! length xs = a" by (simp add: nth_append)
  show ?case
  proof (cases "candidate_less key a")
    case True
    have u: "((xs @ [a]) @ x # ys)[Suc (length xs) := a] = xs @ a # (a # ys)" by (simp add: list_update_append)
    obtain p r where pr: "xs = p @ r" "shift_in (xs @ a # (a # ys)) key (length xs) = p @ key # r @ a # ys"
      "\<forall>c\<in>set r. candidate_less key c" "p \<noteq> [] \<longrightarrow> \<not> candidate_less key (last p)"
      using snoc.IH [of a "a # ys"] by blast
    have "shift_in ((xs @ [a]) @ x # ys) key (length (xs @ [a])) = p @ key # (r @ [a]) @ ys"
      using True n u pr(2) by simp
    then show ?thesis using pr True by (intro exI [of _ p] exI [of _ "r @ [a]"]) simp
  next
    case False
    have "shift_in ((xs @ [a]) @ x # ys) key (length (xs @ [a])) = (xs @ [a]) @ key # [] @ ys"
      using False n by (simp add: list_update_append)
    then show ?thesis using False by (intro exI [of _ "xs @ [a]"] exI [of _ "[]"]) simp
  qed
qed

lemma insertion_step:
  assumes "i < length ys"
  shows "mset (shift_in ys (ys ! i) i) = mset ys" "length (shift_in ys (ys ! i) i) = length ys"
    "drop (Suc i) (shift_in ys (ys ! i) i) = drop (Suc i) ys"
    "\<forall>c\<in>set ys. cand_ok c \<Longrightarrow> sorted (map cand_key (take i ys)) \<Longrightarrow> sorted (map cand_key (take (Suc i) (shift_in ys (ys ! i) i)))"
proof -
  define xs zs where "xs = take i ys" and "zs = drop (Suc i) ys"
  have ys: "ys = xs @ ys ! i # zs" unfolding xs_def zs_def using assms by (rule id_take_nth_drop)
  have len: "length xs = i" using assms by (simp add: xs_def)
  obtain p r where pr: "xs = p @ r" "shift_in (xs @ ys ! i # zs) (ys ! i) (length xs) = p @ ys ! i # r @ zs"
    "\<forall>c\<in>set r. candidate_less (ys ! i) c" "p \<noteq> [] \<longrightarrow> \<not> candidate_less (ys ! i) (last p)"
    using shift_in_split [of xs "ys ! i" zs "ys ! i"] by blast
  have e: "shift_in ys (ys ! i) i = p @ ys ! i # r @ zs" using pr(2) unfolding ys [symmetric] len .
  have "mset ys = mset (p @ r @ ys ! i # zs)" using ys pr(1) by (metis append.assoc)
  then show "mset (shift_in ys (ys ! i) i) = mset ys" by (simp add: e)
  then show "length (shift_in ys (ys ! i) i) = length ys" by (metis size_mset)
  have lpr: "length p + length r = i" using len pr(1) by simp
  have si: "Suc i = length (p @ ys ! i # r)" using lpr by simp
  have "drop (Suc i) ((p @ ys ! i # r) @ zs) = zs" unfolding si drop_append by simp
  then show "drop (Suc i) (shift_in ys (ys ! i) i) = drop (Suc i) ys" unfolding e zs_def by simp
  show "sorted (map cand_key (take (Suc i) (shift_in ys (ys ! i) i)))"
    if ok: "\<forall>c\<in>set ys. cand_ok c" and so: "sorted (map cand_key (take i ys))"
  proof -
    have oks: "cand_ok c" if "c \<in> set (ys ! i # p @ r)" for c using ok that pr(1) assms set_take_subset [of i ys] by (auto simp: xs_def)
    have srt: "sorted (map cand_key (p @ r))" using so pr(1) by (simp add: xs_def)
    have hi: "cand_key (ys ! i) \<le> cand_key c" if "c \<in> set r" for c
      using pr(3) that oks by (auto simp: candidate_less_key)
    have lo: "cand_key c \<le> cand_key (ys ! i)" if c: "c \<in> set p" for c
    proof -
      have "p \<noteq> []" using c by auto
      then have "cand_key (last p) \<le> cand_key (ys ! i)" using pr(4) oks by (auto simp: candidate_less_key)
      moreover have "cand_key c \<le> cand_key (last p)"
        using srt c \<open>p \<noteq> []\<close> by (cases p rule: rev_cases) (auto simp: sorted_append)
      ultimately show ?thesis by simp
    qed
    have "take (Suc i) ((p @ ys ! i # r) @ zs) = p @ ys ! i # r" unfolding si take_append by simp
    then have "take (Suc i) (shift_in ys (ys ! i) i) = p @ ys ! i # r" unfolding e by simp
    then show ?thesis using srt hi lo by (auto simp: sorted_append)
  qed
qed

lemma insertion_fold:
  assumes "n \<le> length xs" "0 < n"
  defines "ys \<equiv> fold (\<lambda>i ys. shift_in ys (ys ! i) i) [1..<n] xs"
  shows "mset ys = mset xs \<and> (\<forall>c\<in>set xs. cand_ok c) \<longrightarrow> sorted (map cand_key (take n ys))" "mset ys = mset xs"
proof -
  have "mset ys = mset xs \<and> ((\<forall>c\<in>set xs. cand_ok c) \<longrightarrow> sorted (map cand_key (take n ys)))"
    unfolding ys_def using assms(2,1)
  proof (induction n rule: nat_induct_non_zero)
    case 1
    then show ?case by (cases xs) auto
  next
    case (Suc n)
    define zs where "zs = fold (\<lambda>i ys. shift_in ys (ys ! i) i) [1..<n] xs"
    have IH: "mset zs = mset xs" "(\<forall>c\<in>set xs. cand_ok c) \<longrightarrow> sorted (map cand_key (take n zs))" using Suc by (simp_all add: zs_def)
    have n: "n < length zs" using Suc.prems IH(1) by (metis Suc_le_lessD size_mset)
    have st: "set zs = set xs" using IH(1) by (metis set_mset_mset)
    have f: "fold (\<lambda>i ys. shift_in ys (ys ! i) i) [1..<Suc n] xs = shift_in zs (zs ! n) n" using Suc.hyps by (simp add: zs_def)
    show ?case unfolding f using insertion_step [OF n] IH st by simp
  qed
  then show "mset ys = mset xs \<and> (\<forall>c\<in>set xs. cand_ok c) \<longrightarrow> sorted (map cand_key (take n ys))" "mset ys = mset xs" by auto
qed

lemma insertion_sort_mset [simp]: "mset (insertion_sort xs) = mset xs"
proof (cases "xs = []")
  case False
  then show ?thesis unfolding insertion_sort_def by (intro insertion_fold(2)) simp_all
qed (simp add: insertion_sort_def)

lemma insertion_sort_sorted:
  assumes "\<forall>c\<in>set xs. cand_ok c"
  shows "sorted (map cand_key (insertion_sort xs))"
proof (cases "xs = []")
  case False
  have "length (insertion_sort xs) = length xs" using insertion_sort_mset [of xs] by (metis size_mset)
  then show ?thesis using insertion_fold(1) [of "length xs" xs] False assms insertion_sort_mset [of xs] by (simp add: insertion_sort_def)
qed (simp add: insertion_sort_def)

subsection \<open>Steps on the graph\<close>

definition step_ok :: "hnsw_graph \<Rightarrow> hnsw_graph \<Rightarrow> bool" where
  "step_ok g g' \<longleftrightarrow> graph_ok g' \<and> hg_levels g' = hg_levels g \<and> graph_frame g' = graph_frame g \<and> link_capacity g' = link_capacity g"

definition in_lists :: "hnsw_graph \<Rightarrow> nat \<Rightarrow> internal_id \<Rightarrow> nat set" where
  "in_lists g l i = {n. \<exists>xs. link_map g (n, l) = Some xs \<and> i \<in> set xs}"

lemma step_ok_refl: "graph_ok g \<Longrightarrow> step_ok g g"
  by (simp add: step_ok_def)

lemma step_ok_trans: "step_ok g g' \<Longrightarrow> step_ok g' g'' \<Longrightarrow> step_ok g g''"
  by (simp add: step_ok_def)

lemma step_okD:
  assumes "step_ok g g'"
  shows "graph_ok g'" "hg_levels g' = hg_levels g" "link_capacity g' = link_capacity g" "node_count g' = node_count g"
    "on_level g' l i = on_level g l i"
  using assms by (simp_all add: step_ok_def on_level_def node_count_def)

lemma step_dom:
  assumes "graph_ok g" "step_ok g g'"
  shows "(\<exists>xs. link_map g (n, l) = Some xs) \<longleftrightarrow> (\<exists>ys. link_map g' (n, l) = Some ys)"
proof -
  have inv: "hg_inv g" "hg_inv g'" "hg_levels g' = hg_levels g" using assms by (simp_all add: graph_ok_def step_ok_def)
  show ?thesis using glinks.dom_law [OF inv(1), of n l] glinks.dom_law [OF inv(2), of n l] inv(3) by (simp add: dom_def)
qed

lemma link_map_on_level:
  assumes "graph_ok g" "on_level g l i"
  obtains xs where "link_map g (i, l) = Some xs" "graph_links g i l = Some xs" "distinct xs" "i \<notin> set xs"
    "\<And>x. x \<in> set xs \<Longrightarrow> on_level g l x" "length xs \<le> link_capacity g l"
proof (rule that [of "hg_lists g i l"])
  note gl = graph_links_ok [OF assms]
  show lm: "link_map g (i, l) = Some (hg_lists g i l)" using gl(1) by (simp add: link_map_def)
  show "length (hg_lists g i l) \<le> link_capacity g l" using assms(1) glinks.cap_law [OF _ lm] by (simp add: graph_ok_def)
qed (use graph_links_ok [OF assms] in simp_all)

lemma put_step:
  assumes "graph_ok g" "on_level g l i" "length ids \<le> link_capacity g l" "distinct ids" "i \<notin> set ids"
    "\<And>x. x \<in> set ids \<Longrightarrow> on_level g l x"
  obtains g' where "set_links g i l ids = Some g'" "step_ok g g'" "link_map g' = (link_map g)((i, l) \<mapsto> ids)"
proof -
  have "hg_inv g" "links_wf (hg_levels g) (link_map g)" "i < length (hg_levels g)" "l \<le> hg_levels g ! i"
    "\<And>x. x \<in> set ids \<Longrightarrow> x < length (hg_levels g) \<and> l \<le> hg_levels g ! x"
    using assms(1,2,6) by (auto simp: graph_ok_def on_level_def node_count_def)
  from glinks.put_wf [OF this(1-4) assms(3-5) this(5)] that show ?thesis
    by (metis step_ok_def graph_ok_def)
qed

lemma app_step:
  assumes g: "graph_ok g" and n: "on_level g l n" and i: "on_level g l i" "n \<noteq> i" and xs: "link_map g (n, l) = Some xs" "i \<notin> set xs"
  obtains (room) g' where "length xs < link_capacity g l" "try_append_link g n l i = Some (True, g')" "step_ok g g'"
      "link_map g' = (link_map g)((n, l) \<mapsto> xs @ [i])"
    | (full) "length xs = link_capacity g l" "try_append_link g n l i = Some (False, g)"
proof (cases "length xs < link_capacity g l")
  case True
  have "hg_inv g" "links_wf (hg_levels g) (link_map g)" "i < length (hg_levels g)" "l \<le> hg_levels g ! i"
    using g i by (auto simp: graph_ok_def on_level_def node_count_def)
  from glinks.app_wf [OF this(1,2) xs(1) True xs(2) i(2) [symmetric] this(3,4)] room True show ?thesis
    by (metis step_ok_def graph_ok_def)
next
  case False
  have inv: "hg_inv g" using g by (simp add: graph_ok_def)
  have "length xs = link_capacity g l" using glinks.cap_law [OF inv xs(1)] False by simp
  then show ?thesis using full glinks.app_law [OF inv xs(1), of i] False by simp
qed

lemma rows_exist_less: "(\<And>i. i \<in> set ids \<Longrightarrow> i < st_size s) \<Longrightarrow> rows_exist s ids"
  by (auto simp: rows_exist_def list_all_iff st_row_ptr_def)

lemma write_list_eq: "write_list g node level sel = set_links g node level (map sc_id sel)"
  by (simp add: write_list_def)

definition same_orphans :: "hnsw_build_stats \<Rightarrow> hnsw_build_stats \<Rightarrow> bool" where
  "same_orphans st st' \<longleftrightarrow> bs_orphan_repairs st' = bs_orphan_repairs st \<and> bs_orphans_unrepaired st' = bs_orphans_unrepaired st"

lemma shrink_with_ok:
  assumes g: "graph_ok g" "node_count g \<le> st_size s" and n: "on_level g l n" and i: "on_level g l i" "n \<noteq> i"
    and xs: "link_map g (n, l) = Some xs" "i \<notin> set xs"
  obtains kept g' st' ys where "shrink_with b s g st n l i d = Some (kept, g', st')" "step_ok g g'" "same_orphans st st'"
    "link_map g' = (link_map g)((n, l) \<mapsto> ys)" "set ys \<subseteq> insert i (set xs)" "kept \<longleftrightarrow> i \<in> set ys"
proof -
  obtain xs' where x: "link_map g (n, l) = Some xs'" "graph_links g n l = Some xs'" "distinct xs'" "n \<notin> set xs'"
    "\<And>x. x \<in> set xs' \<Longrightarrow> on_level g l x" using link_map_on_level [OF g(1) n] by blast
  have xs': "xs' = xs" using x(1) xs(1) by simp
  note x = x [unfolded xs']
  define cands where "cands = insertion_sort (map (\<lambda>n'. mk_scored (hb_node_distance b s n n') n') xs @ [mk_scored d i])"
  define sel where "sel = select_neighbors cands (link_capacity g l) (ho_selection (hb_options b)) (ho_keep_pruned (hb_options b)) (hb_node_distance b s)"
  have "mset (map sc_id cands) = image_mset sc_id (mset cands)" by simp
  also have "\<dots> = mset (xs @ [i])" unfolding cands_def insertion_sort_mset by (simp add: multiset.map_comp comp_def)
  finally have m: "mset (map sc_id cands) = mset (xs @ [i])" .
  have dc: "distinct (map sc_id cands)" using mset_eq_imp_distinct_iff [OF m] x(3) xs(2) by simp
  have sc: "sc_id ` set cands = insert i (set xs)" using arg_cong [OF m, of set_mset] by simp
  note sel = select_neighbors_distinct [OF dc, of "link_capacity g l" "ho_selection (hb_options b)" "ho_keep_pruned (hb_options b)"
    "hb_node_distance b s", folded sel_def]
  have len: "length (map sc_id sel) \<le> link_capacity g l" unfolding sel_def length_map by (rule select_neighbors_subset [THEN conjunct2])
  have ids: "set (map sc_id sel) \<subseteq> insert i (set xs)" using sel(2) sc by auto
  have "n \<notin> set (map sc_id sel)" "\<And>y. y \<in> set (map sc_id sel) \<Longrightarrow> on_level g l y" using ids x(4,5) i by auto
  from put_step [OF g(1) n len sel(1) this] obtain g' where
    g': "set_links g n l (map sc_id sel) = Some g'" "step_ok g g'" "link_map g' = (link_map g)((n, l) \<mapsto> map sc_id sel)" by blast
  have "rows_exist s (n # i # xs)"
    using on_level_less [OF n] on_level_less [OF i(1)] on_level_less [OF x(5)] g(2) by (intro rows_exist_less) fastforce
  moreover have "list_ex (\<lambda>c. sc_id c = i) sel \<longleftrightarrow> i \<in> set (map sc_id sel)" by (auto simp: list_ex_iff)
  ultimately have "shrink_with b s g st n l i d = Some (i \<in> set (map sc_id sel), g',
      count_distances (hb_options b) (link_capacity g l) (hb_node_distance b s) cands
        (st\<lparr>bs_distance_computations := bs_distance_computations st + length xs\<rparr>))"
    using x(2) g'(1) by (simp add: shrink_with_def write_list_def cands_def [symmetric] sel_def [symmetric] Let_def)
  from that [OF this g'(2) _ g'(3) ids] show ?thesis by (simp add: same_orphans_def count_distances_def)
qed

text \<open>
  What a round of back-links to the nodes \<open>N\<close> of level \<open>l\<close> may change: lists of \<open>N\<close> on \<open>l\<close>, where the
  only new id is \<open>i\<close>.
\<close>

definition relinks :: "internal_id \<Rightarrow> nat \<Rightarrow> nat set \<Rightarrow> hnsw_graph \<Rightarrow> hnsw_graph \<Rightarrow> bool" where
  "relinks i l N g g' \<longleftrightarrow>
     (\<forall>n k. (n, k) \<notin> N \<times> {l} \<longrightarrow> link_map g' (n, k) = link_map g (n, k)) \<and>
     (\<forall>n\<in>N. \<forall>xs ys. link_map g (n, l) = Some xs \<longrightarrow> link_map g' (n, l) = Some ys \<longrightarrow> set ys \<subseteq> insert i (set xs))"

lemma relinks_refl [simp]: "relinks i l N g g"
  by (auto simp: relinks_def)

lemma relinks_one:
  assumes "link_map g (n, l) = Some xs" "link_map g' = (link_map g)((n, l) \<mapsto> ys)" "set ys \<subseteq> insert i (set xs)"
  shows "relinks i l {n} g g'"
  using assms by (auto simp: relinks_def)

lemma relinks_trans:
  assumes g: "graph_ok g" "step_ok g g'" and r: "relinks i l N g g'" "relinks i l N' g' g''"
  shows "relinks i l (N \<union> N') g g''"
  unfolding relinks_def
proof (intro conjI allI impI ballI)
  fix n k assume "(n, k) \<notin> (N \<union> N') \<times> {l}"
  then have "(n, k) \<notin> N \<times> {l}" "(n, k) \<notin> N' \<times> {l}" by auto
  then show "link_map g'' (n, k) = link_map g (n, k)" using r unfolding relinks_def by metis
next
  fix n xs ys assume n: "n \<in> N \<union> N'" "link_map g (n, l) = Some xs" "link_map g'' (n, l) = Some ys"
  obtain zs where z: "link_map g' (n, l) = Some zs" using step_dom [OF g, of n l] n(2) by auto
  have "set zs \<subseteq> insert i (set xs)"
    using r(1) n(2) z by (cases "n \<in> N") (auto simp: relinks_def)
  moreover have "set ys \<subseteq> insert i (set zs)"
    using r(2) n(3) z by (cases "n \<in> N'") (auto simp: relinks_def)
  ultimately show "set ys \<subseteq> insert i (set xs)" by blast
qed

lemma relinks_mono: "relinks i l N g g' \<Longrightarrow> N \<subseteq> N' \<Longrightarrow> graph_ok g \<Longrightarrow> relinks i l N' g g'"
  using relinks_trans [of g g i l "N'" N g'] by (simp add: step_ok_refl Un_absorb2)

lemma relinks_in_lists:
  assumes "relinks i l N g g'" "graph_ok g" "step_ok g g'"
  shows "n \<notin> N \<Longrightarrow> n \<in> in_lists g' l i \<longleftrightarrow> n \<in> in_lists g l i" "k \<noteq> l \<Longrightarrow> in_lists g' k j = in_lists g k j"
    "j \<noteq> i \<Longrightarrow> in_lists g' l j \<subseteq> in_lists g l j"
proof -
  show "n \<notin> N \<Longrightarrow> n \<in> in_lists g' l i \<longleftrightarrow> n \<in> in_lists g l i" "k \<noteq> l \<Longrightarrow> in_lists g' k j = in_lists g k j"
    using assms(1) by (simp_all add: relinks_def in_lists_def)
  show "in_lists g' l j \<subseteq> in_lists g l j" if j: "j \<noteq> i"
  proof
    fix n assume "n \<in> in_lists g' l j"
    then obtain ys where y: "link_map g' (n, l) = Some ys" "j \<in> set ys" by (auto simp: in_lists_def)
    obtain xs where x: "link_map g (n, l) = Some xs" using step_dom [OF assms(2,3), of n l] y(1) by auto
    have "set ys \<subseteq> insert i (set xs)" using assms(1) x y(1) by (cases "n \<in> N") (auto simp: relinks_def)
    then show "n \<in> in_lists g l j" using x y(2) j by (auto simp: in_lists_def)
  qed
qed

lemma in_lists_update:
  assumes "link_map g' = (link_map g)((n, l) \<mapsto> ys)"
  shows "in_lists g' l i = (if i \<in> set ys then insert n (in_lists g l i) else in_lists g l i - {n})"
  using assms by (auto simp: in_lists_def)

lemma back_links_ok:
  assumes "graph_ok g" "node_count g \<le> st_size s" "on_level g l i" "distinct (map sc_id ns)"
    "\<And>n. n \<in> sc_id ` set ns \<Longrightarrow> on_level g l n \<and> n \<noteq> i \<and> n \<notin> in_lists g l i"
  shows "\<exists>k g' st'. back_links b s i l ns m g st = Some (m + k, g', st') \<and> step_ok g g' \<and> same_orphans st st' \<and>
    relinks i l (sc_id ` set ns) g g' \<and> k = card (in_lists g' l i \<inter> sc_id ` set ns)"
  using assms
proof (induction ns arbitrary: g st m)
  case Nil
  then show ?case by (intro exI [of _ 0] exI [of _ g] exI [of _ st]) (simp add: step_ok_refl same_orphans_def)
next
  case (Cons c ns)
  let ?n = "sc_id c" and ?N = "sc_id ` set ns"
  have n: "on_level g l ?n" "?n \<noteq> i" "?n \<notin> in_lists g l i" and nN: "?n \<notin> ?N" using Cons.prems(4,5) by auto
  obtain xs where xs: "link_map g (?n, l) = Some xs" using link_map_on_level [OF Cons.prems(1) n(1)] by blast
  have ix: "i \<notin> set xs" using n(3) xs by (auto simp: in_lists_def)
  have step: "\<exists>r g1 st1 ys. back_links b s i l (c # ns) m g st = back_links b s i l ns (m + (if r then 1 else 0)) g1 st1 \<and>
      step_ok g g1 \<and> same_orphans st st1 \<and> link_map g1 = (link_map g)((?n, l) \<mapsto> ys) \<and> set ys \<subseteq> insert i (set xs) \<and> (r \<longleftrightarrow> i \<in> set ys)"
    using Cons.prems(1) n(1) Cons.prems(3) n(2) xs ix
  proof (cases rule: app_step)
    case (room g')
    then show ?thesis by (intro exI [of _ True] exI [of _ g'] exI [of _ st] exI [of _ "xs @ [i]"]) (auto simp: same_orphans_def)
  next
    case full
    obtain kept g' st' ys where "shrink_with b s g st ?n l i (sc_distance c) = Some (kept, g', st')" "step_ok g g'" "same_orphans st st'"
      "link_map g' = (link_map g)((?n, l) \<mapsto> ys)" "set ys \<subseteq> insert i (set xs)" "kept \<longleftrightarrow> i \<in> set ys"
      using shrink_with_ok [OF Cons.prems(1,2) n(1) Cons.prems(3) n(2) xs ix] by metis
    with full show ?thesis by (intro exI [of _ kept] exI [of _ g'] exI [of _ st'] exI [of _ ys]) simp
  qed
  then obtain r g1 st1 ys where g1: "back_links b s i l (c # ns) m g st = back_links b s i l ns (m + (if r then 1 else 0)) g1 st1"
    "step_ok g g1" "same_orphans st st1" "link_map g1 = (link_map g)((?n, l) \<mapsto> ys)" "set ys \<subseteq> insert i (set xs)" "r \<longleftrightarrow> i \<in> set ys"
    by blast
  note D = step_okD [OF g1(2)]
  have "n \<notin> in_lists g1 l i" if "n \<in> ?N" for n
  proof -
    have "n \<noteq> ?n" using nN that by blast
    moreover have "n \<notin> in_lists g l i" using that Cons.prems(5) [of n] by simp
    ultimately show ?thesis using in_lists_update [OF g1(4), of i] by simp
  qed
  then have "node_count g1 \<le> st_size s" "on_level g1 l i" "distinct (map sc_id ns)"
    "\<And>n. n \<in> ?N \<Longrightarrow> on_level g1 l n \<and> n \<noteq> i \<and> n \<notin> in_lists g1 l i"
    using Cons.prems(2-5) D by auto
  from Cons.IH [OF D(1) this, of "m + (if r then 1 else 0)" st1] obtain k g' st' where
    k: "back_links b s i l ns (m + (if r then 1 else 0)) g1 st1 = Some (m + (if r then 1 else 0) + k, g', st')"
    "step_ok g1 g'" "same_orphans st1 st'" "relinks i l ?N g1 g'" "k = card (in_lists g' l i \<inter> ?N)" by blast
  have in': "?n \<in> in_lists g' l i \<longleftrightarrow> r"
    using relinks_in_lists(1) [OF k(4) D(1) k(2) nN] in_lists_update [OF g1(4), of i] g1(6) n(3) by auto
  have "card (in_lists g' l i \<inter> insert ?n ?N) = (if r then 1 else 0) + k"
    using in' nN unfolding k(5) by (cases r) (simp_all add: Int_insert_right)
  moreover have "relinks i l (insert ?n ?N) g g'"
    using relinks_trans [OF Cons.prems(1) g1(2) relinks_one [OF xs g1(4,5)] k(4)] by simp
  moreover have "same_orphans st st'" using g1(3) k(3) by (simp add: same_orphans_def)
  ultimately show ?case using g1(1) k(1) step_ok_trans [OF g1(2) k(2)]
    by (intro exI [of _ "(if r then 1 else 0) + k"] exI [of _ g'] exI [of _ st']) (simp add: add.assoc)
qed

lemma repair_orphan_ok:
  assumes "graph_ok g" "on_level g l i" "in_lists g l i = {}" "\<And>n. n \<in> sc_id ` set cs \<Longrightarrow> on_level g l n \<and> n \<noteq> i"
  shows "\<exists>r g'. repair_orphan i l cs g = Some (r, g') \<and> step_ok g g' \<and> relinks i l (sc_id ` set cs) g g' \<and>
    (r \<longleftrightarrow> in_lists g' l i \<noteq> {}) \<and>
    (\<not> r \<longrightarrow> (\<forall>n\<in>sc_id ` set cs. \<forall>xs. link_map g' (n, l) = Some xs \<longrightarrow> length xs = link_capacity g' l))"
  using assms(4)
proof (induction cs)
  case Nil
  then show ?case using assms(1,3) by (intro exI [of _ False] exI [of _ g]) (simp add: step_ok_refl)
next
  case (Cons c cs)
  have n: "on_level g l (sc_id c)" "sc_id c \<noteq> i" using Cons.prems by auto
  obtain xs where xs: "link_map g (sc_id c, l) = Some xs" using link_map_on_level [OF assms(1) n(1)] by blast
  have ix: "i \<notin> set xs" using assms(3) xs by (auto simp: in_lists_def)
  show ?case using assms(1) n(1) assms(2) n(2) xs ix
  proof (cases rule: app_step)
    case (room g')
    have "relinks i l {sc_id c} g g'" using relinks_one [OF xs room(4)] by auto
    then have "relinks i l (sc_id ` set (c # cs)) g g'" using relinks_mono [OF _ _ assms(1)] by simp
    moreover have "in_lists g' l i \<noteq> {}" using in_lists_update [OF room(4), of i] by simp
    ultimately show ?thesis using room by (intro exI [of _ True] exI [of _ g']) simp
  next
    case full
    obtain r g' where g': "repair_orphan i l cs g = Some (r, g')" "step_ok g g'" "relinks i l (sc_id ` set cs) g g'"
      "r \<longleftrightarrow> in_lists g' l i \<noteq> {}"
      "\<not> r \<longrightarrow> (\<forall>n\<in>sc_id ` set cs. \<forall>xs. link_map g' (n, l) = Some xs \<longrightarrow> length xs = link_capacity g' l)"
      using Cons.IH Cons.prems by auto
    have "relinks i l (sc_id ` set (c # cs)) g g'" using relinks_mono [OF g'(3) _ assms(1)] by auto
    moreover have "\<forall>ys. link_map g' (sc_id c, l) = Some ys \<longrightarrow> length ys = link_capacity g' l" if "\<not> r"
    proof (cases "sc_id c \<in> sc_id ` set cs")
      case False
      then have "link_map g' (sc_id c, l) = Some xs" using g'(3) xs unfolding relinks_def by (metis mem_Sigma_iff)
      then show ?thesis using full(1) step_okD(3) [OF g'(2)] by simp
    qed (use g'(5) that in blast)
    ultimately show ?thesis using full g' by (intro exI [of _ r] exI [of _ g']) auto
  qed
qed

text \<open>What phase 1 leaves for level \<open>l\<close>: candidates of the level, and a selection of them.\<close>

definition layer_ready :: "hnsw_graph \<Rightarrow> nat set \<Rightarrow> internal_id \<Rightarrow> nat \<Rightarrow> scored_id list \<Rightarrow> scored_id list \<Rightarrow> bool" where
  "layer_ready g R i l cands sel \<longleftrightarrow>
     (\<forall>n\<in>sc_id ` set cands. on_level g l n \<and> n \<noteq> i \<and> n \<in> R) \<and> sel \<noteq> [] \<and> set sel \<subseteq> set cands \<and>
     distinct (map sc_id sel) \<and> length sel \<le> link_capacity g l"

lemma layer_ready_step:
  assumes "layer_ready g R i l cands sel" "step_ok g g'"
  shows "layer_ready g' R i l cands sel"
  using assms(1) step_okD(3,5) [OF assms(2)] by (simp add: layer_ready_def)

lemma publish_level_ok:
  assumes g: "graph_ok g" "node_count g \<le> st_size s" "on_level g l i" "in_lists g l i = {}"
    and rd: "layer_ready g R i l (is_layer_candidates sc ! l) (is_layer_selected sc ! l)"
  shows "\<exists>g' st'. publish_level b s sc i l g st = Some (g', st') \<and> step_ok g g' \<and>
    relinks i l (sc_id ` set (is_layer_candidates sc ! l)) g g' \<and>
    bs_orphans_unrepaired st' = bs_orphans_unrepaired st + (if in_lists g' l i = {} then 1 else 0) \<and>
    (in_lists g' l i = {} \<and> ho_repair_orphans (hb_options b) \<longrightarrow>
      (\<forall>n\<in>sc_id ` set (is_layer_candidates sc ! l). \<forall>xs. link_map g' (n, l) = Some xs \<longrightarrow> length xs = link_capacity g' l))"
proof -
  let ?cs = "is_layer_candidates sc ! l" and ?sel = "is_layer_selected sc ! l"
  have cs: "\<And>n. n \<in> sc_id ` set ?cs \<Longrightarrow> on_level g l n \<and> n \<noteq> i" and sel: "set ?sel \<subseteq> set ?cs" "distinct (map sc_id ?sel)"
    using rd unfolding layer_ready_def by blast+
  have sub: "sc_id ` set ?sel \<subseteq> sc_id ` set ?cs" using sel(1) by blast
  have "\<And>n. n \<in> sc_id ` set ?sel \<Longrightarrow> on_level g l n \<and> n \<noteq> i \<and> n \<notin> in_lists g l i" using cs sub g(4) by blast
  from back_links_ok [OF g(1-3) sel(2) this, of b 0 st] obtain k g1 st1 where
    k: "back_links b s i l ?sel 0 g st = Some (k, g1, st1)" "step_ok g g1" "same_orphans st st1"
    "relinks i l (sc_id ` set ?sel) g g1" "k = card (in_lists g1 l i \<inter> sc_id ` set ?sel)" by auto
  have "in_lists g1 l i \<subseteq> sc_id ` set ?sel" using relinks_in_lists(1) [OF k(4) g(1) k(2)] g(4) by blast
  moreover then have "finite (in_lists g1 l i)" by (rule finite_subset) simp
  ultimately have k0: "k = 0 \<longleftrightarrow> in_lists g1 l i = {}" unfolding k(5) by (simp add: Int_absorb2)
  have r1: "relinks i l (sc_id ` set ?cs) g g1" by (rule relinks_mono [OF k(4) sub g(1)])
  show ?thesis
  proof (cases "k = 0 \<and> ho_repair_orphans (hb_options b)")
    case True
    have "on_level g1 l i" "in_lists g1 l i = {}" "\<And>n. n \<in> sc_id ` set ?cs \<Longrightarrow> on_level g1 l n \<and> n \<noteq> i"
      using step_okD(5) [OF k(2)] g(3) k0 True cs by auto
    from repair_orphan_ok [OF step_okD(1) [OF k(2)] this] obtain r g' where
      g': "repair_orphan i l ?cs g1 = Some (r, g')" "step_ok g1 g'" "relinks i l (sc_id ` set ?cs) g1 g'"
      "r \<longleftrightarrow> in_lists g' l i \<noteq> {}"
      "\<not> r \<longrightarrow> (\<forall>n\<in>sc_id ` set ?cs. \<forall>xs. link_map g' (n, l) = Some xs \<longrightarrow> length xs = link_capacity g' l)" by blast
    show ?thesis
      using True k(1,3) g' step_ok_trans [OF k(2) g'(2)] relinks_trans [OF g(1) k(2) r1 g'(3)]
      by (simp add: publish_level_def same_orphans_def)
  next
    case False
    then show ?thesis using k(1-3) k0 r1 by (auto simp: publish_level_def same_orphans_def)
  qed
qed

lemma publish_own_ok:
  assumes "graph_ok g" "\<And>l. l \<in> set ls \<Longrightarrow> on_level g l i \<and> layer_ready g R i l (is_layer_candidates sc ! l) (is_layer_selected sc ! l)"
  shows "\<exists>g'. publish_own sc i ls g = Some g' \<and> step_ok g g' \<and>
    (\<forall>p. link_map g' p = (if fst p = i \<and> snd p \<in> set ls then Some (map sc_id (is_layer_selected sc ! snd p)) else link_map g p))"
  using assms
proof (induction ls arbitrary: g)
  case Nil
  then show ?case by (simp add: step_ok_refl)
next
  case (Cons l ls)
  let ?ids = "map sc_id (is_layer_selected sc ! l)"
  have "on_level g l i" "length ?ids \<le> link_capacity g l" "distinct ?ids" "i \<notin> set ?ids" "\<And>x. x \<in> set ?ids \<Longrightarrow> on_level g l x"
    using Cons.prems(2) [of l] by (auto simp: layer_ready_def)
  from put_step [OF Cons.prems(1) this] obtain g1 where
    g1: "set_links g i l ?ids = Some g1" "step_ok g g1" "link_map g1 = (link_map g)((i, l) \<mapsto> ?ids)" by blast
  have "on_level g1 l i \<and> layer_ready g1 R i l (is_layer_candidates sc ! l) (is_layer_selected sc ! l)" if "l \<in> set ls" for l
    using Cons.prems(2) [of l] that layer_ready_step [OF _ g1(2)] step_okD(5) [OF g1(2)] by simp
  from Cons.IH [OF step_okD(1) [OF g1(2)] this] obtain g' where
    g': "publish_own sc i ls g1 = Some g'" "step_ok g1 g'"
    "\<forall>p. link_map g' p = (if fst p = i \<and> snd p \<in> set ls then Some (map sc_id (is_layer_selected sc ! snd p)) else link_map g1 p)" by blast
  have "link_map g' p = (if fst p = i \<and> snd p \<in> set (l # ls) then Some (map sc_id (is_layer_selected sc ! snd p)) else link_map g p)" for p
    using g'(3) g1(3) by (cases p) auto
  then show ?case using g'(1) g1(1) step_ok_trans [OF g1(2) g'(2)] by (simp add: write_list_def)
qed

lemma publish_levels_ok:
  assumes "graph_ok g" "node_count g \<le> st_size s" "distinct ls"
    "\<And>l. l \<in> set ls \<Longrightarrow> on_level g l i \<and> in_lists g l i = {} \<and>
       layer_ready g R i l (is_layer_candidates sc ! l) (is_layer_selected sc ! l)"
  shows "\<exists>g' st'. publish_levels b s sc i ls g st = Some (g', st') \<and> step_ok g g' \<and>
    (\<forall>l j. j \<noteq> i \<longrightarrow> in_lists g' l j \<subseteq> in_lists g l j) \<and> (\<forall>l. l \<notin> set ls \<longrightarrow> in_lists g' l i = in_lists g l i) \<and>
    (\<forall>l. in_lists g' l i \<subseteq> R \<union> in_lists g l i) \<and> (\<forall>l. link_map g' (i, l) = link_map g (i, l)) \<and>
    bs_orphans_unrepaired st' = bs_orphans_unrepaired st + card {l \<in> set ls. in_lists g' l i = {}}"
  using assms
proof (induction ls arbitrary: g st)
  case Nil
  then show ?case by (simp add: step_ok_refl)
next
  case (Cons l ls)
  let ?C = "sc_id ` set (is_layer_candidates sc ! l)"
  have l: "on_level g l i" "in_lists g l i = {}" "layer_ready g R i l (is_layer_candidates sc ! l) (is_layer_selected sc ! l)"
    and lls: "l \<notin> set ls" using Cons.prems(3,4) by simp_all
  obtain g1 st1 where g1: "publish_level b s sc i l g st = Some (g1, st1)" "step_ok g g1" "relinks i l ?C g g1"
    "bs_orphans_unrepaired st1 = bs_orphans_unrepaired st + (if in_lists g1 l i = {} then 1 else 0)"
    using publish_level_ok [OF Cons.prems(1,2) l] by blast
  note D = step_okD [OF g1(2)] and R = relinks_in_lists [OF g1(3) Cons.prems(1) g1(2)]
  have C: "?C \<subseteq> R - {i}" using l(3) by (auto simp: layer_ready_def)
  have "on_level g1 k i \<and> in_lists g1 k i = {} \<and> layer_ready g1 R i k (is_layer_candidates sc ! k) (is_layer_selected sc ! k)"
    if "k \<in> set ls" for k
    using Cons.prems(4) [of k] that lls layer_ready_step [OF _ g1(2)] D(5) R(2) [of k i] by auto
  moreover have "node_count g1 \<le> st_size s" "distinct ls" using Cons.prems(2,3) D(4) by simp_all
  ultimately obtain g' st' where g': "publish_levels b s sc i ls g1 st1 = Some (g', st')" "step_ok g1 g'"
    "\<And>l j. j \<noteq> i \<Longrightarrow> in_lists g' l j \<subseteq> in_lists g1 l j" "\<And>l. l \<notin> set ls \<Longrightarrow> in_lists g' l i = in_lists g1 l i"
    "\<And>l. in_lists g' l i \<subseteq> R \<union> in_lists g1 l i" "\<And>l. link_map g' (i, l) = link_map g1 (i, l)"
    "bs_orphans_unrepaired st' = bs_orphans_unrepaired st1 + card {l \<in> set ls. in_lists g' l i = {}}"
    using Cons.IH [OF D(1), of st1] by blast
  have "{k \<in> set (l # ls). in_lists g' k i = {}} =
      (if in_lists g1 l i = {} then insert l {k \<in> set ls. in_lists g' k i = {}} else {k \<in> set ls. in_lists g' k i = {}})"
    using g'(4) [OF lls] by auto
  then have "bs_orphans_unrepaired st' = bs_orphans_unrepaired st + card {k \<in> set (l # ls). in_lists g' k i = {}}"
    using g'(7) g1(4) lls by simp
  moreover have "in_lists g' k j \<subseteq> in_lists g k j" if "j \<noteq> i" for k j
    using g'(3) [OF that, of k] R(2) [of k j] R(3) [OF that] by (cases "k = l") auto
  moreover have "in_lists g' k i = in_lists g k i" if "k \<notin> set (l # ls)" for k using g'(4) R(2) [of k i] that by simp
  moreover have "in_lists g' k i \<subseteq> R \<union> in_lists g k i" for k
    using g'(5) [of k] R(1) R(2) [of k i] C by (cases "k = l") blast+
  moreover have "link_map g' (i, k) = link_map g (i, k)" for k
    using g'(6) [of k] g1(3) C unfolding relinks_def by (cases "i \<in> ?C") auto
  ultimately show ?case using g1(1) g'(1) step_ok_trans [OF g1(2) g'(2)] by simp
qed

lemma publish_ok:
  assumes g: "graph_ok g" "node_count g \<le> st_size s" and i: "on_level g low i" "\<And>l. in_lists g l i = {}" "i \<notin> R"
    and rd: "\<And>l. l \<le> low \<Longrightarrow> layer_ready g R i l (is_layer_candidates sc ! l) (is_layer_selected sc ! l)"
  shows "\<exists>g' sc'. publish b s sc i low g = Some (g', sc') \<and> step_ok g g' \<and> is_context sc' = is_context sc \<and>
    (\<forall>l j. j \<noteq> i \<longrightarrow> j \<notin> R \<longrightarrow> in_lists g' l j \<subseteq> in_lists g l j) \<and>
    (\<forall>l. in_lists g' l i \<subseteq> R) \<and>
    (\<forall>l \<le> low. link_map g' (i, l) = Some (map sc_id (is_layer_selected sc ! l))) \<and>
    bs_orphans_unrepaired (is_stats sc') = bs_orphans_unrepaired (is_stats sc) + card {l. l \<le> low \<and> in_lists g' l i = {}}"
proof -
  let ?ls = "[0..<Suc low]"
  have ls: "\<And>l. l \<in> set ?ls \<Longrightarrow> on_level g l i \<and> layer_ready g R i l (is_layer_candidates sc ! l) (is_layer_selected sc ! l)"
    using rd on_level_mono [OF i(1)] by auto
  obtain g1 where g1: "publish_own sc i ?ls g = Some g1" "step_ok g g1"
    "\<forall>p. link_map g1 p = (if fst p = i \<and> snd p \<in> set ?ls then Some (map sc_id (is_layer_selected sc ! snd p)) else link_map g p)"
    using publish_own_ok [OF g(1) ls] by blast
  note D = step_okD [OF g1(2)]
  have own: "in_lists g1 l j \<subseteq> in_lists g l j" if "j \<notin> R" for l j
  proof
    fix n assume "n \<in> in_lists g1 l j"
    then obtain xs where x: "link_map g1 (n, l) = Some xs" "j \<in> set xs" by (auto simp: in_lists_def)
    have "\<not> (n = i \<and> l \<in> set ?ls)"
    proof
      assume nl: "n = i \<and> l \<in> set ?ls"
      then have "xs = map sc_id (is_layer_selected sc ! l)" using g1(3) x(1) by simp
      then show False using ls [of l] nl x(2) that unfolding layer_ready_def by fastforce
    qed
    then show "n \<in> in_lists g l j" using g1(3) x by (auto simp: in_lists_def)
  qed
  have e: "in_lists g1 l i = {}" for l using own [OF i(3), of l] i(2) by blast
  then have "\<And>l. l \<in> set ?ls \<Longrightarrow> on_level g1 l i \<and> in_lists g1 l i = {} \<and>
      layer_ready g1 R i l (is_layer_candidates sc ! l) (is_layer_selected sc ! l)"
    using ls layer_ready_step [OF _ g1(2)] D(5) by simp
  moreover have "node_count g1 \<le> st_size s" "distinct ?ls" using g(2) D(4) by simp_all
  ultimately obtain g' st' where g': "publish_levels b s sc i ?ls g1 (is_stats sc) = Some (g', st')" "step_ok g1 g'"
    "\<And>l j. j \<noteq> i \<Longrightarrow> in_lists g' l j \<subseteq> in_lists g1 l j" "\<And>l. in_lists g' l i \<subseteq> R \<union> in_lists g1 l i"
    "\<And>l. link_map g' (i, l) = link_map g1 (i, l)"
    "bs_orphans_unrepaired st' = bs_orphans_unrepaired (is_stats sc) + card {l \<in> set ?ls. in_lists g' l i = {}}"
    using publish_levels_ok [OF D(1), of s ?ls i R sc b "is_stats sc"] by blast
  have "publish b s sc i low g = Some (g', sc\<lparr>is_stats := st'\<rparr>)" using g1(1) g'(1) by (simp add: publish_def)
  moreover have "{l \<in> set ?ls. in_lists g' l i = {}} = {l. l \<le> low \<and> in_lists g' l i = {}}" by auto
  moreover have "in_lists g' l i \<subseteq> R" for l using g'(4) [of l] e by simp
  moreover have "in_lists g' l j \<subseteq> in_lists g l j" if "j \<noteq> i" "j \<notin> R" for l j using g'(3) [OF that(1), of l] own [OF that(2), of l] by blast
  moreover have "link_map g' (i, l) = Some (map sc_id (is_layer_selected sc ! l))" if "l \<le> low" for l
    using g'(5) [of l] g1(3) that by simp
  ultimately show ?thesis
    using step_ok_trans [OF g1(2) g'(2)] g'(6) by (intro exI [of _ g'] exI [of _ "sc\<lparr>is_stats := st'\<rparr>"]) simp
qed

subsection \<open>Phase 1 finds candidates on every level\<close>

lemma select_neighbors_nonempty:
  assumes "cs \<noteq> []" "0 < m"
  shows "select_neighbors cs m sel keep distance \<noteq> []"
proof (cases "sel = Simple")
  case False
  obtain c cs' where cs: "cs = c # cs'" using assms(1) by (cases cs) simp_all
  obtain out disc where sl: "select_loop m keep distance cs [] [] = (out, disc)" by fastforce
  then obtain r where "out = c # r" using select_loop_first [OF assms(2)] cs by blast
  then show ?thesis using False sl select_loop_spec [OF sl] by (auto simp: select_neighbors_def refill_loop_eq)
qed (use assms in \<open>simp add: select_neighbors_def\<close>)

definition context_ready :: "hnsw_backend \<Rightarrow> search_context \<Rightarrow> bool" where
  "context_ready b ctx \<longleftrightarrow>
     vs_inv (sx_visited ctx) \<and> node_count (hb_graph b) \<le> vs_capacity (sx_visited ctx) \<and>
     unat (hp_ef_construction (hb_params b)) \<le> length (sx_results ctx)"

text \<open>One beam search of phase 1: its sorted results are nodes of the level, reached from the entry points.\<close>

lemma layer_candidates_ok:
  assumes q: "query_ok b s q" and ef: "1 \<le> unat (hp_ef_construction (hb_params b))" and ctx: "context_ready b ctx"
    and es: "es \<noteq> []" "\<forall>i\<in>set es. on_level (hb_graph b) l i" "set es \<subseteq> R" and R: "links_closed (hb_graph b) l R"
  obtains h ctx' found ctx1 ids where
    "search_layer b s tb_empty q (map (hb_sc b s q) es) (unat (hp_ef_construction (hb_params b))) l False ctx = Some (h, ctx')"
    "sorted_results h ctx' = (found, ctx1)" "context_ready b ctx1" "take found (sx_results ctx1) = map (hb_sc b s q) ids"
    "ids \<noteq> []" "distinct ids" "\<forall>i\<in>set ids. on_level (hb_graph b) l i" "set ids \<subseteq> R"
proof -
  let ?ef = "unat (hp_ef_construction (hb_params b))"
  have c: "vs_inv (sx_visited ctx)" "node_count (hb_graph b) \<le> vs_capacity (sx_visited ctx)" "?ef \<le> length (sx_results ctx)"
    using ctx by (simp_all add: context_ready_def)
  obtain h ctx' V where sl: "search_layer b s tb_empty q (map (hb_sc b s q) es) ?ef l False ctx = Some (h, ctx')"
    "set es \<subseteq> V" "V \<subseteq> R" "beam_result b s q (\<lambda>i. True) l ?ef V h" "vs_inv (sx_visited ctx')"
    "node_count (hb_graph b) \<le> vs_capacity (sx_visited ctx')" "sx_results ctx' = sx_results ctx"
    using search_layer_ok [OF q ef c(3) c(1,2) es(2,3) R, of tb_empty False] by auto
  obtain found ctx1 where sr: "sorted_results h ctx' = (found, ctx1)" by fastforce
  note bs = beam_sorted [OF q sl(4) sr]
  define all where "all = sort_key cand_key (map (hb_sc b s q) (sorted_list_of_set V))"
  have V: "\<forall>i\<in>V. on_level (hb_graph b) l i" using sl(4) by (simp add: beam_result_def)
  then have "V \<subseteq> {..<node_count (hb_graph b)}" using on_level_less by blast
  then have fin: "finite V" using finite_subset by blast
  have sa: "set all = hb_sc b s q ` V" using fin by (simp add: all_def)
  have "mset (map sc_id all) = mset (sorted_list_of_set V)"
    by (simp add: all_def multiset.map_comp comp_def)
  then have da: "distinct (map sc_id all)" by (metis mset_eq_imp_distinct_iff distinct_sorted_list_of_set)
  define ids where "ids = map sc_id (take ?ef all)"
  have tk: "take found (sx_results ctx1) = take ?ef all" using bs(1) by (simp add: all_def)
  have "take ?ef all = map (hb_sc b s q) ids"
    unfolding ids_def map_map using sa set_take_subset [of ?ef all] by (intro map_idI [symmetric]) auto
  moreover have "all \<noteq> []" using sa es(1) sl(2) by (metis empty_iff image_is_empty set_empty subset_empty)
  then have "ids \<noteq> []" using ef by (simp add: ids_def)
  moreover have "distinct ids" using da by (simp add: ids_def take_map [symmetric])
  moreover have "set ids \<subseteq> V" using sa set_take_subset [of ?ef all] by (auto simp: ids_def)
  moreover have "context_ready b ctx1" using sl(5-7) bs(3,5) c(3) by (simp add: context_ready_def)
  ultimately show ?thesis using that [OF sl(1) sr, of ids] tk V sl(3) by auto
qed

definition scratch_ready :: "hnsw_backend \<Rightarrow> nat \<Rightarrow> insert_scratch \<Rightarrow> bool" where
  "scratch_ready b low sc \<longleftrightarrow>
     context_ready b (is_context sc) \<and> low < length (is_layer_candidates sc) \<and> low < length (is_layer_selected sc)"

lemma neighbor_levels_ok:
  assumes q: "query_ok b s q" and ef: "1 \<le> unat (hp_ef_construction (hb_params b))"
    and M: "1 \<le> unat (hp_M (hb_params b))" "\<And>l. unat (hp_M (hb_params b)) \<le> link_capacity (hb_graph b) l"
    and R: "\<And>l. links_closed (hb_graph b) l R" and i: "i \<notin> R"
    and sc: "scratch_ready b low sc" and ls: "sorted_wrt (>) ls" "\<forall>l\<in>set ls. l \<le> low"
    and es: "es \<noteq> []" "\<forall>l\<in>set ls. \<forall>i\<in>set es. on_level (hb_graph b) l i" "set es \<subseteq> R"
  shows "\<exists>sc'. neighbor_levels b s q (map (hb_sc b s q) es) ls sc = Some sc' \<and> scratch_ready b low sc' \<and>
    (\<forall>l\<in>set ls. layer_ready (hb_graph b) R i l (is_layer_candidates sc' ! l) (is_layer_selected sc' ! l)) \<and>
    (\<forall>l. l \<notin> set ls \<longrightarrow> is_layer_candidates sc' ! l = is_layer_candidates sc ! l \<and> is_layer_selected sc' ! l = is_layer_selected sc ! l) \<and>
    same_orphans (is_stats sc) (is_stats sc')"
  using sc ls es
proof (induction ls arbitrary: sc es)
  case Nil
  then show ?case by (simp add: same_orphans_def)
next
  case (Cons l ls)
  let ?M = "unat (hp_M (hb_params b))" and ?g = "hb_graph b"
  have ctx: "context_ready b (is_context sc)" using Cons.prems(1) by (simp add: scratch_ready_def)
  have esl: "\<forall>i\<in>set es. on_level ?g l i" using Cons.prems(5) by simp
  obtain h ctx' found ctx1 ids where c:
    "search_layer b s tb_empty q (map (hb_sc b s q) es) (unat (hp_ef_construction (hb_params b))) l False (is_context sc) = Some (h, ctx')"
    "sorted_results h ctx' = (found, ctx1)" "context_ready b ctx1" "take found (sx_results ctx1) = map (hb_sc b s q) ids"
    "ids \<noteq> []" "distinct ids" "\<forall>i\<in>set ids. on_level ?g l i" "set ids \<subseteq> R"
    using layer_candidates_ok [OF q ef ctx Cons.prems(4) esl Cons.prems(6) R [of l]] by blast
  define cands where "cands = map (hb_sc b s q) ids"
  define sel where "sel = select_neighbors cands ?M (ho_selection (hb_options b)) (ho_keep_pruned (hb_options b)) (hb_node_distance b s)"
  have ids: "map sc_id cands = ids" by (simp add: cands_def comp_def)
  have sel: "distinct (map sc_id sel)" "set sel \<subseteq> set cands" "sel \<noteq> []" "length sel \<le> link_capacity ?g l"
  proof -
    have d: "distinct (map sc_id cands)" using ids c(6) by simp
    show "distinct (map sc_id sel)" "set sel \<subseteq> set cands" unfolding sel_def by (rule select_neighbors_distinct [OF d])+
    show "sel \<noteq> []" unfolding sel_def using c(5) M(1) by (intro select_neighbors_nonempty) (simp_all add: cands_def)
    show "length sel \<le> link_capacity ?g l"
      unfolding sel_def by (rule order_trans [OF select_neighbors_subset [THEN conjunct2] M(2)])
  qed
  have idset: "sc_id ` set cands = set ids" using arg_cong [OF ids, of set] by simp
  have ready: "layer_ready ?g R i l cands sel"
    unfolding layer_ready_def idset using sel c(7,8) i by blast
  define sc1 where "sc1 = sc\<lparr>is_context := ctx1, is_layer_candidates := (is_layer_candidates sc)[l := cands],
      is_layer_selected := (is_layer_selected sc)[l := sel],
      is_stats := count_distances (hb_options b) ?M (hb_node_distance b s) cands (is_stats sc)\<rparr>"
  have ll: "l \<le> low" "l < length (is_layer_candidates sc)" "l < length (is_layer_selected sc)"
    using Cons.prems(1,3) by (auto simp: scratch_ready_def)
  have rows: "rows_exist s (map sc_id cands)"
    unfolding ids using c(7) on_level_less q by (intro rows_exist_less) (fastforce simp: query_ok_def)
  have step: "neighbor_levels b s q (map (hb_sc b s q) es) (l # ls) sc = neighbor_levels b s q cands ls sc1"
    using c(1,2) ll rows by (simp add: c(4) cands_def [symmetric] sel_def [symmetric] sc1_def Let_def)
  have r1: "scratch_ready b low sc1" using Cons.prems(1) c(3) by (simp add: sc1_def scratch_ready_def)
  have l1: "sorted_wrt (>) ls" "\<forall>l\<in>set ls. l \<le> low" "\<forall>k\<in>set ls. k < l" using Cons.prems(2,3) by simp_all
  have e1: "\<forall>l\<in>set ls. \<forall>i\<in>set ids. on_level ?g l i" using c(7) l1(3) on_level_mono by fastforce
  from Cons.IH [OF r1 l1(1,2) c(5) e1 c(8), folded cands_def] obtain sc' where
    sc': "neighbor_levels b s q cands ls sc1 = Some sc'" "scratch_ready b low sc'"
    "\<forall>l\<in>set ls. layer_ready ?g R i l (is_layer_candidates sc' ! l) (is_layer_selected sc' ! l)"
    "\<forall>l. l \<notin> set ls \<longrightarrow> is_layer_candidates sc' ! l = is_layer_candidates sc1 ! l \<and> is_layer_selected sc' ! l = is_layer_selected sc1 ! l"
    "same_orphans (is_stats sc1) (is_stats sc')" by blast
  have lls: "l \<notin> set ls" using l1(3) by blast
  have "layer_ready ?g R i l (is_layer_candidates sc' ! l) (is_layer_selected sc' ! l)"
    using sc'(4) lls ready ll by (simp add: sc1_def)
  moreover have "same_orphans (is_stats sc) (is_stats sc')"
    using sc'(5) by (simp add: sc1_def same_orphans_def count_distances_def split: if_splits)
  moreover have "\<forall>k. k \<notin> set (l # ls) \<longrightarrow>
      is_layer_candidates sc' ! k = is_layer_candidates sc ! k \<and> is_layer_selected sc' ! k = is_layer_selected sc ! k"
    using sc'(4) by (simp add: sc1_def)
  ultimately show ?case using step sc'(1-3) by simp
qed

lemma find_neighbors_ok:
  assumes q: "query_ok b s (row_query s i)" and ef: "1 \<le> unat (hp_ef_construction (hb_params b))"
    and M: "1 \<le> unat (hp_M (hb_params b))" "\<And>l. unat (hp_M (hb_params b)) \<le> link_capacity (hb_graph b) l"
    and R: "\<And>l. links_closed (hb_graph b) l R" and i: "i \<notin> R" "i < st_size s" and sc: "scratch_ready b low sc"
    and e: "on_level (hb_graph b) (he_level entry) (he_id entry)" "he_id entry \<in> R" "low \<le> he_level entry"
  shows "\<exists>sc'. find_neighbors b s sc i low entry = Some sc' \<and> scratch_ready b low sc' \<and> same_orphans (is_stats sc) (is_stats sc') \<and>
    (\<forall>l \<le> low. layer_ready (hb_graph b) R i l (is_layer_candidates sc' ! l) (is_layer_selected sc' ! l))"
proof -
  let ?q = "row_query s i"
  define ctx where "ctx = (is_context sc)\<lparr>sx_distance_computations := sx_distance_computations (is_context sc) + 1\<rparr>"
  have d: "hb_distance b s (is_context sc) ?q (he_id entry) = Some (hb_dist b s ?q (he_id entry), ctx)"
    using hb_distance_ok [OF q on_level_less [OF e(1)]] by (simp add: ctx_def)
  obtain j ctx1 where j: "descend b s ?q low (he_level entry) (hb_sc b s ?q (he_id entry)) ctx = Some (hb_sc b s ?q j, ctx1)"
    "counted ctx ctx1" "on_level (hb_graph b) low j" "j \<in> R"
    using descend_ok [OF q e(1), of low ctx] e(2,3) R by (auto simp: min_absorb2)
  have r: "scratch_ready b low (sc\<lparr>is_context := ctx1\<rparr>)"
    using sc countedD [OF j(2)] by (simp add: scratch_ready_def context_ready_def ctx_def)
  have ls: "sorted_wrt (>) (rev [0..<Suc low])" "\<forall>l\<in>set (rev [0..<Suc low]). l \<le> low"
    "\<forall>l\<in>set (rev [0..<Suc low]). \<forall>i\<in>set [j]. on_level (hb_graph b) l i"
    using on_level_mono [OF j(3)] by (auto simp: sorted_wrt_rev sorted_wrt_upt)
  obtain sc' where sc': "neighbor_levels b s ?q (map (hb_sc b s ?q) [j]) (rev [0..<Suc low]) (sc\<lparr>is_context := ctx1\<rparr>) = Some sc'"
    "scratch_ready b low sc'" "same_orphans (is_stats sc) (is_stats sc')"
    "\<forall>l\<in>set (rev [0..<Suc low]). layer_ready (hb_graph b) R i l (is_layer_candidates sc' ! l) (is_layer_selected sc' ! l)"
    using neighbor_levels_ok [OF q ef M R i(1) r ls(1,2) _ ls(3)] j(4) by auto
  have "find_neighbors b s sc i low entry = Some sc'"
    using rows_exist_less [of "[i]" s] i(2) d j(1) sc'(1) by (simp add: find_neighbors_def hb_sc_def)
  moreover have "layer_ready (hb_graph b) R i l (is_layer_candidates sc' ! l) (is_layer_selected sc' ! l)" if "l \<le> low" for l
    using sc'(4) that by (metis atLeastLessThan_iff le_imp_less_Suc set_rev set_upt zero_le)
  ultimately show ?thesis using sc'(2,3) by blast
qed

subsection \<open>The backend invariant\<close>

text \<open>
  \<open>U\<close> are the reserved nodes not linked yet. The entry point is a linked node of the highest level
  among the linked nodes; a node that is not linked is in nobody's list.
\<close>

definition entry_ok :: "hnsw_graph \<Rightarrow> nat set \<Rightarrow> bool" where
  "entry_ok g U \<longleftrightarrow>
     (if {..<node_count g} - U = {} then \<not> entry_valid (read_entry g)
      else entry_valid (read_entry g) \<and> he_id (read_entry g) < node_count g \<and> he_id (read_entry g) \<notin> U \<and>
        he_level (read_entry g) = hg_levels g ! he_id (read_entry g) \<and>
        (\<forall>j \<in> {..<node_count g} - U. hg_levels g ! j \<le> he_level (read_entry g)))"

definition pool_ok :: "hnsw_backend \<Rightarrow> bool" where
  "pool_ok b \<longleftrightarrow>
     length (sp_free (hb_scratch b)) = sp_created (hb_scratch b) \<and>
     (\<forall>sc\<in>set (sp_free (hb_scratch b)). vs_inv (sx_visited (is_context sc)))"

definition params_match :: "hnsw_backend \<Rightarrow> bool" where
  "params_match b \<longleftrightarrow>
     status_ok (hnsw_params_validate (hb_params b)) \<and> hg_m (hb_graph b) = unat (hp_M (hb_params b)) \<and>
     hg_max_level (hb_graph b) = unat (hp_max_level (hb_params b)) \<and>
     hb_levels b = make_level_generator (hp_seed (hb_params b)) (hp_M (hb_params b)) (hp_max_level (hb_params b))"

definition graph_inv :: "hnsw_graph \<Rightarrow> vector_store \<Rightarrow> nat set \<Rightarrow> bool" where
  "graph_inv g s U \<longleftrightarrow>
     graph_ok g \<and> node_count g \<le> st_size s \<and> hg_max_level g < 256 \<and> U \<subseteq> {..<node_count g} \<and>
     (\<forall>u\<in>U. \<forall>l. in_lists g l u = {}) \<and> entry_ok g U"

definition backend_inv :: "hnsw_backend \<Rightarrow> vector_store \<Rightarrow> nat set \<Rightarrow> bool" where
  "backend_inv b s U \<longleftrightarrow> graph_inv (hb_graph b) s U \<and> pool_ok b \<and> params_match b"

lemma graph_invD:
  assumes "graph_inv g s U"
  shows "graph_ok g" "node_count g \<le> st_size s" "hg_max_level g < 256" "U \<subseteq> {..<node_count g}"
    "\<And>u l. u \<in> U \<Longrightarrow> in_lists g l u = {}" "entry_ok g U" "node_count g \<le> kMaxVectorsPerCollection"
    "\<And>j. j < node_count g \<Longrightarrow> hg_levels g ! j \<le> hg_max_level g"
  using assms by (auto simp: graph_inv_def graph_ok_def hg_inv_def layout_ok_def node_count_def)

lemma graph_inv_entry:
  assumes "graph_inv g s U" "entry_valid (read_entry g)"
  shows "he_id (read_entry g) < node_count g" "he_id (read_entry g) \<notin> U" "he_level (read_entry g) = hg_levels g ! he_id (read_entry g)"
    "\<And>j. j < node_count g \<Longrightarrow> j \<notin> U \<Longrightarrow> hg_levels g ! j \<le> he_level (read_entry g)"
    "on_level g (he_level (read_entry g)) (he_id (read_entry g))"
  using graph_invD(6) [OF assms(1)] assms(2) by (auto simp: entry_ok_def on_level_def split: if_splits)

lemma in_lists_closed:
  assumes "graph_ok g" "\<And>u. u \<in> U \<Longrightarrow> in_lists g l u = {}"
  shows "links_closed g l (- U)"
  unfolding links_closed_def
proof (intro ballI impI subsetI)
  fix i x assume i: "on_level g l i" and x: "x \<in> set (hg_lists g i l)"
  have "link_map g (i, l) = Some (hg_lists g i l)" using graph_links_ok(1) [OF assms(1) i] by (simp add: link_map_def)
  then have "i \<in> in_lists g l x" using x by (auto simp: in_lists_def)
  then show "x \<in> - U" using assms(2) by blast
qed

lemma set_entry_id:
  assumes "graph_inv g s U" "i < node_count g"
  shows "read_entry (set_entry g \<lparr>he_id = i, he_level = hg_levels g ! i\<rparr>) = \<lparr>he_id = i, he_level = hg_levels g ! i\<rparr>"
    "entry_valid \<lparr>he_id = i, he_level = l\<rparr>"
proof -
  have "i < kInvalidInternalId" using graph_invD(7) [OF assms(1)] assms(2) by (simp add: kMaxVectorsPerCollection_def)
  moreover have "hg_levels g ! i < 256" using graph_invD(3,8) [OF assms(1)] assms(2) by fastforce
  ultimately show "read_entry (set_entry g \<lparr>he_id = i, he_level = hg_levels g ! i\<rparr>) = \<lparr>he_id = i, he_level = hg_levels g ! i\<rparr>"
    "entry_valid \<lparr>he_id = i, he_level = l\<rparr>"
    by (simp_all add: entry_round_trip entry_valid_def kInvalidInternalId_def)
qed

text \<open>Linking the first node.\<close>

lemma first_entry_ok:
  assumes g: "graph_inv g s U" "\<not> entry_valid (read_entry g)" and i: "i \<in> U"
  shows "graph_inv (set_entry g \<lparr>he_id = i, he_level = hg_levels g ! i\<rparr>) s (U - {i})"
proof -
  have n: "i < node_count g" using i graph_invD(4) [OF g(1)] by auto
  have "{..<node_count g} - U = {}" using graph_invD(6) [OF g(1)] g(2) by (simp add: entry_ok_def split: if_splits)
  then have "\<And>j. j < node_count g \<Longrightarrow> j \<notin> U - {i} \<Longrightarrow> j = i" by auto
  then have "entry_ok (set_entry g \<lparr>he_id = i, he_level = hg_levels g ! i\<rparr>) (U - {i})"
    using n set_entry_id [OF g(1) n] i by (auto simp: entry_ok_def)
  then show ?thesis using g(1) by (auto simp: graph_inv_def in_lists_def)
qed

text \<open>A new node, reserved and not linked.\<close>

lemma add_node_graph_inv:
  assumes g: "graph_inv g s U" and sz: "node_count g < st_size s" and ad: "add_node m1 m2 g level = (Returned st, g')" "status_ok st"
  shows "graph_inv g' s (insert (node_count g) U)" "hg_levels g' = hg_levels g @ [level]" "read_entry g' = read_entry g"
    "link_capacity g' = link_capacity g" "\<And>l j. in_lists g' l j = in_lists g l j" "graph_frame g' = graph_frame g"
proof -
  let ?n = "node_count g"
  note D = graph_invD [OF g]
  have inv: "hg_inv g" "links_wf (hg_levels g) (link_map g)" using D(1) by (simp_all add: graph_ok_def)
  have a: "hg_inv g'" "hg_levels g' = hg_levels g @ [level]" "graph_frame g' = graph_frame g"
    "link_map g' = (\<lambda>(i, l). if i = ?n then if l \<le> level then Some [] else None else link_map g (i, l))"
    using add_node_adds [OF inv(1), of level m1 m2] ad by (simp_all add: adds_node_def)
  show "hg_levels g' = hg_levels g @ [level]" "graph_frame g' = graph_frame g" using a by simp_all
  show e: "read_entry g' = read_entry g" using a(3) by (simp add: graph_frame_def read_entry_def)
  have m: "hg_m g' = hg_m g" "hg_max_level g' = hg_max_level g" using a(3) by (simp_all add: graph_frame_def)
  show "link_capacity g' = link_capacity g"
    using m params_okD(2) [of g] params_okD(2) [of g'] inv(1) a(1) by (auto simp: link_capacity_def hg_inv_def)
  have new: "link_map g (?n, l) = None" for l using glinks.dom_law [OF inv(1), of ?n l] by (auto simp: node_count_def domIff)
  show il: "in_lists g' l j = in_lists g l j" for l j using a(4) new by (auto simp: in_lists_def split: if_splits)
  have nl: "in_lists g l ?n = {}" for l using inv(2) by (auto simp: in_lists_def links_wf_def node_count_def)
  have wf: "links_wf (hg_levels g') (link_map g')"
    using inv(2) unfolding links_wf_def a(2,4) by (auto simp: nth_append split: if_splits intro: less_SucI)
  have nc: "node_count g' = Suc ?n" using a(2) by (simp add: node_count_def)
  have lv: "hg_levels g' ! j = hg_levels g ! j" if "j < ?n" for j using a(2) that by (simp add: nth_append node_count_def)
  have same: "{..<Suc ?n} - insert ?n U = {..<?n} - U" using D(4) by auto
  have "entry_ok g' (insert ?n U)"
    using D(6) unfolding entry_ok_def nc e same using lv D(4) by (auto split: if_splits)
  moreover have "\<forall>u\<in>insert ?n U. \<forall>l. in_lists g' l u = {}" using il nl D(5) by auto
  ultimately show "graph_inv g' s (insert ?n U)"
    using a(1) wf D(3,4) sz nc m(2) by (auto simp: graph_inv_def graph_ok_def)
qed

lemma publish_graph_inv:
  assumes g: "graph_inv g s U" and i: "i \<in> U" and e: "entry_valid (read_entry g)"
    and low: "low = min (hg_levels g ! i) (he_level (read_entry g))"
    and rd: "\<And>l. l \<le> low \<Longrightarrow> layer_ready g (- U) i l (is_layer_candidates sc ! l) (is_layer_selected sc ! l)"
  shows "\<exists>g1 sc'. publish b s sc i low g = Some (g1, sc') \<and> is_context sc' = is_context sc \<and> step_ok g g1 \<and>
    graph_inv (if hg_levels g ! i > he_level (read_entry g) then set_entry g1 \<lparr>he_id = i, he_level = hg_levels g ! i\<rparr> else g1) s (U - {i}) \<and>
    (\<forall>l \<le> low. link_map g1 (i, l) = Some (map sc_id (is_layer_selected sc ! l)) \<and> is_layer_selected sc ! l \<noteq> []) \<and>
    bs_orphans_unrepaired (is_stats sc') = bs_orphans_unrepaired (is_stats sc) + card {l. l \<le> low \<and> in_lists g1 l i = {}}"
proof -
  note D = graph_invD [OF g] and E = graph_inv_entry [OF g e]
  have n: "i < node_count g" using i D(4) by auto
  have ol: "on_level g low i" using n low by (simp add: on_level_def)
  obtain g1 sc' where p: "publish b s sc i low g = Some (g1, sc')" "step_ok g g1" "is_context sc' = is_context sc"
    "\<And>l j. j \<noteq> i \<Longrightarrow> j \<notin> - U \<Longrightarrow> in_lists g1 l j \<subseteq> in_lists g l j" "\<And>l. in_lists g1 l i \<subseteq> - U"
    "\<And>l. l \<le> low \<Longrightarrow> link_map g1 (i, l) = Some (map sc_id (is_layer_selected sc ! l))"
    "bs_orphans_unrepaired (is_stats sc') = bs_orphans_unrepaired (is_stats sc) + card {l. l \<le> low \<and> in_lists g1 l i = {}}"
    using publish_ok [OF D(1,2) ol D(5) [OF i] _ rd, of b] i by blast
  note S = step_okD [OF p(2)]
  have fr: "read_entry g1 = read_entry g" "hg_max_level g1 = hg_max_level g"
    using p(2) by (simp_all add: step_ok_def graph_frame_def read_entry_def)
  have un: "in_lists g1 l u = {}" if "u \<in> U - {i}" for u l using p(4) [of u l] D(5) [of u l] that by auto
  have fin: "graph_inv (if hg_levels g ! i > he_level (read_entry g) then set_entry g1 \<lparr>he_id = i, he_level = hg_levels g ! i\<rparr> else g1) s (U - {i})"
  proof (cases "hg_levels g ! i > he_level (read_entry g)")
    case True
    have "entry_ok (set_entry g1 \<lparr>he_id = i, he_level = hg_levels g ! i\<rparr>) (U - {i})"
    proof -
      have "read_entry (set_entry g1 \<lparr>he_id = i, he_level = hg_levels g ! i\<rparr>) = \<lparr>he_id = i, he_level = hg_levels g ! i\<rparr>"
        "entry_valid \<lparr>he_id = i, he_level = hg_levels g ! i\<rparr>"
        using set_entry_id(2) [OF g n] entry_round_trip [of "\<lparr>he_id = i, he_level = hg_levels g ! i\<rparr>" g1] D(3,7) D(8) [OF n] n
        by (simp_all add: kMaxVectorsPerCollection_def kInvalidInternalId_def)
      moreover have "hg_levels g ! j \<le> hg_levels g ! i" if "j < node_count g" "j \<notin> U - {i}" for j
        using E(4) [OF that(1)] that(2) True by (cases "j = i") auto
      ultimately show ?thesis using n i S(2,4) by (auto simp: entry_ok_def)
    qed
    then show ?thesis using True S(1,4) fr(2) D(2,3,4) un by (auto simp: graph_inv_def in_lists_def)
  next
    case False
    have "entry_ok g1 (U - {i})"
    proof -
      have "hg_levels g ! j \<le> he_level (read_entry g)" if "j < node_count g" "j \<notin> U - {i}" for j
        using E(4) [OF that(1)] that(2) False by (cases "j = i") auto
      then show ?thesis using e E(1-3) n i S(2,4) fr(1) by (auto simp: entry_ok_def)
    qed
    then show ?thesis using False S(1,4) fr(2) D(2,3,4) un by (auto simp: graph_inv_def)
  qed
  show ?thesis using p(1-3,6,7) fin rd by (intro exI [of _ g1] exI [of _ sc']) (auto simp: layer_ready_def)
qed

lemma params_match_facts:
  assumes "params_match b" "graph_ok (hb_graph b)"
  shows "1 \<le> unat (hp_ef_construction (hb_params b))" "1 \<le> unat (hp_M (hb_params b))"
    "unat (hp_M (hb_params b)) \<le> link_capacity (hb_graph b) l" "level_for (hb_levels b) i \<le> hg_max_level (hb_graph b)"
proof -
  have v: "kMinM \<le> hp_M (hb_params b)" "hp_M (hb_params b) \<le> kMaxM" "hp_M (hb_params b) \<le> hp_ef_construction (hb_params b)"
    using assms(1) by (auto simp: params_match_def hnsw_params_validate_ok)
  then show M: "1 \<le> unat (hp_M (hb_params b))" "1 \<le> unat (hp_ef_construction (hb_params b))"
    by (auto simp: kMinM_def word_le_nat_alt)
  have "hg_m (hb_graph b) = unat (hp_M (hb_params b))" using assms(1) by (simp add: params_match_def)
  then show "unat (hp_M (hb_params b)) \<le> link_capacity (hb_graph b) l"
    using params_okD(2) [of "hb_graph b"] assms(2) by (simp add: link_capacity_def graph_ok_def hg_inv_def)
  have lt: "unat (hp_M (hb_params b)) < 2 ^ LENGTH(32)" by (rule unsigned_less)
  have "unat (ucast (hp_M (hb_params b)) :: u64) = unat (hp_M (hb_params b))"
    using lt by (simp add: unsigned_ucast_eq take_bit_nat_eq_self)
  then have "unat (lg_m (hb_levels b)) \<le> 512" "unat (lg_max_level (hb_levels b)) = hg_max_level (hb_graph b)"
    using assms(1) v(2) by (simp_all add: params_match_def make_level_generator_def kMaxM_def word_le_nat_alt)
  then show "level_for (hb_levels b) i \<le> hg_max_level (hb_graph b)" using level_for_spec(1) [of "hb_levels b" i] by simp
qed

lemma pool_ensure_ok:
  assumes "pool_ok b"
  shows "\<exists>p. pool_ensure (hb_scratch b) cnt nodes ef max_level = Some p \<and>
    length (sp_free p) = sp_created p \<and> cnt \<le> sp_created p \<and>
    (\<forall>sc\<in>set (sp_free p). vs_inv (sx_visited (is_context sc)) \<and> nodes \<le> vs_capacity (sx_visited (is_context sc)) \<and>
      ef \<le> length (sx_results (is_context sc)) \<and> max_level < length (is_layer_candidates sc) \<and> max_level < length (is_layer_selected sc))"
proof -
  let ?all = "sp_free (hb_scratch b) @ replicate (cnt - sp_created (hb_scratch b)) new_insert_scratch"
  have l: "length (sp_free (hb_scratch b)) = sp_created (hb_scratch b)" using assms by (simp add: pool_ok_def)
  have v: "vs_inv (sx_visited (is_context sc))" if "sc \<in> set ?all" for sc
    using that assms by (auto simp: pool_ok_def new_insert_scratch_def new_search_context_def)
  have "max_level < length (pad_to (max_level + 1) xss)" for xss :: "scored_id list list" by (simp add: pad_to_def)
  then show ?thesis using l v sx_prepare_ok by (fastforce simp: pool_ensure_def scratch_prepare_def)
qed

lemma record_stats_simps [simp]:
  "hb_graph (record_stats b sc) = hb_graph b" "hb_scratch (record_stats b sc) = hb_scratch b" "hb_params (record_stats b sc) = hb_params b"
  "hb_levels (record_stats b sc) = hb_levels b" "hb_options (record_stats b sc) = hb_options b"
  "bs_orphans_unrepaired (hb_stats (record_stats b sc)) = bs_orphans_unrepaired (hb_stats b) + bs_orphans_unrepaired (is_stats sc)"
  by (simp_all add: record_stats_def)

text \<open>The query of a row sees the same distances while the graph and the scratch memory change.\<close>

lemma hb_dist_cong:
  assumes "hb_kernels b' = hb_kernels b" "hb_mode b' = hb_mode b" "hb_dim b' = hb_dim b"
  shows "hb_dist b' s q i = hb_dist b s q i"
  using assms by (simp add: hb_dist_def)

lemma in_lists_fresh:
  assumes "graph_ok g"
  shows "in_lists g l (node_count g) = {}"
  using assms by (auto simp: graph_ok_def in_lists_def links_wf_def node_count_def)

lemma find_neighbors_insert:
  assumes inv: "graph_inv (hb_graph b) s U" "params_match b" and e: "entry_valid (read_entry (hb_graph b))"
    and q: "query_ok b s (row_query s i)" and i: "i < st_size s" "i = node_count (hb_graph b) \<or> i \<in> U"
    and sc: "scratch_ready b low sc" and low: "low \<le> he_level (read_entry (hb_graph b))"
  shows "\<exists>sc'. find_neighbors b s sc i low (read_entry (hb_graph b)) = Some sc' \<and> scratch_ready b low sc' \<and>
    same_orphans (is_stats sc) (is_stats sc') \<and>
    (\<forall>l \<le> low. layer_ready (hb_graph b) (- insert i U) i l (is_layer_candidates sc' ! l) (is_layer_selected sc' ! l))"
proof -
  note D = graph_invD [OF inv(1)] and E = graph_inv_entry [OF inv(1) e] and P = params_match_facts [OF inv(2) D(1)]
  have "links_closed (hb_graph b) l (- insert i U)" for l
    using D(5) i(2) in_lists_fresh [OF D(1), of l] by (intro in_lists_closed [OF D(1)]) auto
  moreover have "he_id (read_entry (hb_graph b)) \<in> - insert i U" using E(1,2) i(2) by auto
  ultimately show ?thesis by (intro find_neighbors_ok [OF q P(1-3) _ _ i(1) sc E(5) _ low]) simp_all
qed

definition linked_below :: "hnsw_graph \<Rightarrow> nat \<Rightarrow> internal_id \<Rightarrow> bool" where
  "linked_below g low i \<longleftrightarrow> (\<forall>l \<le> low. \<exists>xs. link_map g (i, l) = Some xs \<and> xs \<noteq> [])"

lemma if_set_entry [simp]:
  "hg_levels (if c then set_entry g e else g) = hg_levels g" "link_map (if c then set_entry g e else g) = link_map g"
  "in_lists (if c then set_entry g e else g) = in_lists g" "hg_m (if c then set_entry g e else g) = hg_m g"
  "hg_max_level (if c then set_entry g e else g) = hg_max_level g"
  by (auto simp: fun_eq_iff in_lists_def)

text \<open>Reserving the next node, on every path.\<close>

lemma params_match_graph:
  assumes "params_match b" "hg_m g = hg_m (hb_graph b)" "hg_max_level g = hg_max_level (hb_graph b)"
    "hb_params b' = hb_params b" "hb_levels b' = hb_levels b" "hb_graph b' = g"
  shows "params_match b'"
  using assms by (simp add: params_match_def)

lemma add_node_not_ok:
  assumes "graph_ok g" "add_node m1 m2 g level = (res, g')" "\<And>st. res = Returned st \<Longrightarrow> \<not> status_ok st"
  shows "g' = g" "res \<noteq> Aborted"
  using add_node_adds [of g level m1 m2] assms by (cases res; auto simp: adds_node_def graph_ok_def)+

text \<open>Every outcome of \<open>add\<close>: the node is linked, or the graph and the statistics are untouched.\<close>

definition add_ok :: "hnsw_backend \<Rightarrow> vector_store \<Rightarrow> nat set \<Rightarrow> internal_id \<Rightarrow> hnsw_backend \<Rightarrow> bool" where
  "add_ok b s U i b' \<longleftrightarrow>
     backend_inv b' s U \<and> hg_levels (hb_graph b') = hg_levels (hb_graph b) @ [level_for (hb_levels b) i] \<and>
     (entry_valid (read_entry (hb_graph b)) \<longrightarrow>
        (let low = min (level_for (hb_levels b) i) (he_level (read_entry (hb_graph b)))
         in linked_below (hb_graph b') low i \<and>
           bs_orphans_unrepaired (hb_stats b') =
             bs_orphans_unrepaired (hb_stats b) + card {l. l \<le> low \<and> in_lists (hb_graph b') l i = {}}))"

definition add_failed :: "hnsw_backend \<Rightarrow> vector_store \<Rightarrow> nat set \<Rightarrow> hnsw_backend \<Rightarrow> bool" where
  "add_failed b s U b' \<longleftrightarrow> backend_inv b' s U \<and> hb_graph b' = hb_graph b \<and> hb_stats b' = hb_stats b"

definition add_result :: "hnsw_backend \<Rightarrow> vector_store \<Rightarrow> nat set \<Rightarrow> internal_id \<Rightarrow> status outcome \<times> hnsw_backend \<Rightarrow> bool" where
  "add_result b s U i r \<longleftrightarrow>
     (case r of (Returned st, b') \<Rightarrow> if status_ok st then add_ok b s U i b' else add_failed b s U b'
      | (Thrown, b') \<Rightarrow> add_failed b s U b' | (Aborted, b') \<Rightarrow> False)"

lemma hnsw_add_first:
  assumes inv: "backend_inv b s U" and i: "i = node_count (hb_graph b)" "st_size s = i + 1"
    and e: "\<not> entry_valid (read_entry (hb_graph b))"
  shows "add_result b s U i (hnsw_add mp ms m1 m2 b s i)"
proof -
  let ?g = "hb_graph b" and ?level = "level_for (hb_levels b) i"
  have gi: "graph_inv ?g s U" and po: "pool_ok b" and pm: "params_match b" using inv by (simp_all add: backend_inv_def)
  note D = graph_invD [OF gi]
  obtain r g' where an: "add_node m1 m2 ?g ?level = (r, g')" by fastforce
  show ?thesis
  proof (cases "\<exists>st. r = Returned st \<and> status_ok st")
    case True
    then obtain st where st: "r = Returned st" "status_ok st" by blast
    have sz: "node_count ?g < st_size s" and iU: "i \<notin> U" using i D(4) by auto
    note A = add_node_graph_inv [OF gi sz an [unfolded st(1)] st(2)]
    have lv: "hg_levels g' ! i = ?level" using A(2) i(1) by (simp add: node_count_def)
    have "graph_inv (set_entry g' \<lparr>he_id = i, he_level = ?level\<rparr>) s U"
      using first_entry_ok [OF A(1), of i] e A(3) lv i(1) iU by simp
    then have "add_ok b s U i (b\<lparr>hb_graph := set_entry g' \<lparr>he_id = i, he_level = ?level\<rparr>\<rparr>)"
      using po pm A(2,6) e by (auto simp: add_ok_def backend_inv_def pool_ok_def params_match_def graph_frame_def)
    then show ?thesis using an e i st by (simp add: hnsw_add_def Let_def add_result_def)
  next
    case False
    have g': "g' = ?g" "r \<noteq> Aborted" using add_node_not_ok [OF D(1) an] False by auto
    have "add_failed b s U b" using inv by (simp add: add_failed_def)
    then show ?thesis using an e i False g' by (cases r) (auto simp: hnsw_add_def Let_def add_result_def)
  qed
qed

lemma pool_lease:
  assumes "pool_take p = Some (sc, pool)" "length (sp_free p) = sp_created p"
    "\<forall>sc\<in>set (sp_free p). vs_inv (sx_visited (is_context sc))" "vs_inv (sx_visited (is_context sc'))"
  shows "length (sp_free (pool_give_back pool sc')) = sp_created (pool_give_back pool sc')"
    "\<forall>sc\<in>set (sp_free (pool_give_back pool sc')). vs_inv (sx_visited (is_context sc))" "sc \<in> set (sp_free p)"
proof -
  have t: "sp_free p \<noteq> []" "sc = last (sp_free p)" "pool = p\<lparr>sp_free := butlast (sp_free p)\<rparr>"
    using assms(1) by (simp_all add: pool_take_def split: if_splits)
  then have "0 < sp_created p" using assms(2) by (metis length_greater_0_conv)
  then show "length (sp_free (pool_give_back pool sc')) = sp_created (pool_give_back pool sc')" "sc \<in> set (sp_free p)"
    using t assms(2) by (simp_all add: pool_give_back_def)
  show "\<forall>sc\<in>set (sp_free (pool_give_back pool sc')). vs_inv (sx_visited (is_context sc))"
    using t assms(3,4) in_set_butlastD [of _ "sp_free p"] by (auto simp: pool_give_back_def)
qed

text \<open>Phase 1 of an insertion into a graph that has an entry point.\<close>

lemma hnsw_add_phase1:
  assumes inv: "backend_inv b s U" and i: "i = node_count (hb_graph b)" "st_size s = i + 1"
    and q: "query_ok b s (row_query s i)" and e: "entry_valid (read_entry (hb_graph b))"
    and low: "low = min (level_for (hb_levels b) i) (he_level (read_entry (hb_graph b)))"
  obtains b1 sc pool sc1 where
    "prepare_insert b (node_count (hb_graph b)) 1 = Some b1" "pool_take (hb_scratch b1) = Some (sc, pool)"
    "find_neighbors b1 s (fresh_stats sc) i low (read_entry (hb_graph b)) = Some sc1"
    "hb_graph b1 = hb_graph b" "hb_stats b1 = hb_stats b" "bs_orphans_unrepaired (is_stats sc1) = 0"
    "vs_inv (sx_visited (is_context (fresh_stats sc)))" "vs_inv (sx_visited (is_context sc1))"
    "\<And>l. l \<le> low \<Longrightarrow> layer_ready (hb_graph b) (- insert i U) i l (is_layer_candidates sc1 ! l) (is_layer_selected sc1 ! l)"
    "\<And>sc' g'. vs_inv (sx_visited (is_context sc')) \<Longrightarrow> graph_inv g' s U \<Longrightarrow> hg_m g' = hg_m (hb_graph b) \<Longrightarrow>
       hg_max_level g' = hg_max_level (hb_graph b) \<Longrightarrow> backend_inv (b1\<lparr>hb_scratch := pool_give_back pool sc', hb_graph := g'\<rparr>) s U"
proof -
  let ?g = "hb_graph b"
  have gi: "graph_inv ?g s U" and po: "pool_ok b" and pm: "params_match b" using inv by (simp_all add: backend_inv_def)
  note D = graph_invD [OF gi]
  obtain p where p: "pool_ensure (hb_scratch b) 1 (node_count ?g) (unat (hp_ef_construction (hb_params b))) (hg_max_level ?g) = Some p"
    "length (sp_free p) = sp_created p" "1 \<le> sp_created p"
    "\<forall>sc\<in>set (sp_free p). vs_inv (sx_visited (is_context sc)) \<and> node_count ?g \<le> vs_capacity (sx_visited (is_context sc)) \<and>
      unat (hp_ef_construction (hb_params b)) \<le> length (sx_results (is_context sc)) \<and>
      hg_max_level ?g < length (is_layer_candidates sc) \<and> hg_max_level ?g < length (is_layer_selected sc)"
    using pool_ensure_ok [OF po] by blast
  define b1 where "b1 = b\<lparr>hb_scratch := p\<rparr>"
  obtain sc pool where pt: "pool_take p = Some (sc, pool)" using p(2,3) by (cases "sp_free p") (simp_all add: pool_take_def)
  have vs: "\<forall>sc\<in>set (sp_free p). vs_inv (sx_visited (is_context sc))" using p(4) by blast
  have scp: "sc \<in> set (sp_free p)" using pt by (auto simp: pool_take_def split: if_splits)
  have lowm: "low \<le> hg_max_level ?g" using params_match_facts(4) [OF pm D(1), of i] low by simp
  have scr: "scratch_ready b1 low (fresh_stats sc)"
    using p(4) scp lowm by (auto simp: scratch_ready_def context_ready_def fresh_stats_def b1_def)
  have q1: "query_ok b1 s (row_query s i)" using q by (simp add: query_ok_def b1_def hb_dist_def)
  have pm1: "params_match b1" using pm by (simp add: params_match_def b1_def)
  obtain sc1 where sc1: "find_neighbors b1 s (fresh_stats sc) i low (read_entry ?g) = Some sc1" "scratch_ready b1 low sc1"
    "same_orphans (is_stats (fresh_stats sc)) (is_stats sc1)"
    "\<And>l. l \<le> low \<Longrightarrow> layer_ready ?g (- insert i U) i l (is_layer_candidates sc1 ! l) (is_layer_selected sc1 ! l)"
    using find_neighbors_insert [OF _ pm1 _ q1 _ _ scr, of U] gi e i low by (auto simp: b1_def)
  show ?thesis
  proof (rule that [OF _ _ sc1(1) _ _ _ _ _ sc1(4)])
    show "prepare_insert b (node_count ?g) 1 = Some b1" using p(1) by (simp add: prepare_insert_def b1_def)
    show "pool_take (hb_scratch b1) = Some (sc, pool)" "hb_graph b1 = hb_graph b" "hb_stats b1 = hb_stats b" using pt by (simp_all add: b1_def)
    show "bs_orphans_unrepaired (is_stats sc1) = 0" using sc1(3) by (simp add: same_orphans_def fresh_stats_def no_stats_def)
    show "vs_inv (sx_visited (is_context (fresh_stats sc)))" "vs_inv (sx_visited (is_context sc1))"
      using scr sc1(2) by (simp_all add: scratch_ready_def context_ready_def)
    show "backend_inv (b1\<lparr>hb_scratch := pool_give_back pool sc', hb_graph := g'\<rparr>) s U"
      if "vs_inv (sx_visited (is_context sc'))" "graph_inv g' s U" "hg_m g' = hg_m ?g" "hg_max_level g' = hg_max_level ?g" for sc' g'
      using pool_lease(1,2) [OF pt p(2) vs that(1)] that(2-4) pm by (simp add: backend_inv_def pool_ok_def params_match_def b1_def)
  qed
qed

lemma hnsw_add_outcome:
  assumes inv: "backend_inv b s U" and i: "i = node_count (hb_graph b)" "st_size s = i + 1" and q: "query_ok b s (row_query s i)"
  shows "add_result b s U i (hnsw_add mp ms m1 m2 b s i)"
proof (cases "entry_valid (read_entry (hb_graph b))")
  case False
  then show ?thesis by (rule hnsw_add_first [OF inv i])
next
  case True
  let ?g = "hb_graph b" and ?e = "read_entry (hb_graph b)" and ?level = "level_for (hb_levels b) i"
  define low where "low = min ?level (he_level ?e)"
  have gi: "graph_inv ?g s U" using inv by (simp add: backend_inv_def)
  note D = graph_invD [OF gi]
  obtain r g' where an: "add_node m1 m2 ?g ?level = (r, g')" by fastforce
  obtain b1 sc pool sc1 where p: "prepare_insert b (node_count ?g) 1 = Some b1" "pool_take (hb_scratch b1) = Some (sc, pool)"
    "find_neighbors b1 s (fresh_stats sc) i low ?e = Some sc1" "hb_graph b1 = ?g" "hb_stats b1 = hb_stats b"
    "bs_orphans_unrepaired (is_stats sc1) = 0" "vs_inv (sx_visited (is_context (fresh_stats sc)))" "vs_inv (sx_visited (is_context sc1))"
    "\<And>l. l \<le> low \<Longrightarrow> layer_ready ?g (- insert i U) i l (is_layer_candidates sc1 ! l) (is_layer_selected sc1 ! l)"
    "\<And>sc' g'. vs_inv (sx_visited (is_context sc')) \<Longrightarrow> graph_inv g' s U \<Longrightarrow> hg_m g' = hg_m ?g \<Longrightarrow>
       hg_max_level g' = hg_max_level ?g \<Longrightarrow> backend_inv (b1\<lparr>hb_scratch := pool_give_back pool sc', hb_graph := g'\<rparr>) s U"
    using hnsw_add_phase1 [OF inv i q True low_def] by blast
  have p1: "prepare_insert b (node_count ?g) (Suc 0) = Some b1" using p(1) by simp
  note run = hnsw_add_def Let_def low_def [symmetric] i(1) [symmetric] an
  have keep: "add_failed b s U (b1\<lparr>hb_scratch := pool_give_back pool sc'\<rparr>)" if "vs_inv (sx_visited (is_context sc'))" for sc'
    using p(10) [OF that gi] p(4,5) by (simp add: add_failed_def backend_inv_def pool_ok_def params_match_def)
  show ?thesis
  proof (cases "mp \<and> ms \<and> (\<exists>st. r = Returned st \<and> status_ok st)")
    case False
    have "g' = ?g \<and> r \<noteq> Aborted" if mp ms using add_node_not_ok [OF D(1) an] False that by auto
    moreover have "add_failed b s U b" using inv by (simp add: add_failed_def)
    moreover have "add_failed b s U (b1\<lparr>hb_scratch := pool_give_back pool sc1, hb_graph := ?g\<rparr>)"
      using keep [OF p(8)] p(4) by (simp add: add_failed_def backend_inv_def pool_ok_def params_match_def)
    ultimately show ?thesis
      using False keep [OF p(7)] True i(2) p(2,3) p1
      by (cases r) (auto simp: hnsw_add_def Let_def low_def [symmetric] i(1) [symmetric] an add_result_def)
  next
    case ok: True
    then obtain st where st: "r = Returned st" "status_ok st" by blast
    have sz: "node_count ?g < st_size s" and iU: "i \<notin> U" using i D(4) by auto
    note A = add_node_graph_inv [OF gi sz an [unfolded st(1)] st(2), folded i(1)]
    have lv: "hg_levels g' ! i = ?level" using A(2) i(1) by (simp add: node_count_def)
    have "on_level g' l j" if "on_level ?g l j" for l j
      using that A(2) by (simp add: on_level_def node_count_def nth_append)
    then have rd: "\<And>l. l \<le> low \<Longrightarrow> layer_ready g' (- insert i U) i l (is_layer_candidates sc1 ! l) (is_layer_selected sc1 ! l)"
      using p(9) A(4) by (simp add: layer_ready_def)
    obtain g1 sc2 where g1: "publish b1 s sc1 i low g' = Some (g1, sc2)" "is_context sc2 = is_context sc1" "step_ok g' g1"
      "graph_inv (if ?level > he_level ?e then set_entry g1 \<lparr>he_id = i, he_level = ?level\<rparr> else g1) s (insert i U - {i})"
      "\<forall>l \<le> low. link_map g1 (i, l) = Some (map sc_id (is_layer_selected sc1 ! l)) \<and> is_layer_selected sc1 ! l \<noteq> []"
      "bs_orphans_unrepaired (is_stats sc2) = bs_orphans_unrepaired (is_stats sc1) + card {l. l \<le> low \<and> in_lists g1 l i = {}}"
      using publish_graph_inv [OF A(1), of i low sc1 b1, unfolded A(3) lv] True rd low_def by blast
    define gf where "gf = (if ?level > he_level ?e then set_entry g1 \<lparr>he_id = i, he_level = ?level\<rparr> else g1)"
    define b' where "b' = record_stats (b1\<lparr>hb_scratch := pool_give_back pool sc2, hb_graph := gf\<rparr>) sc2"
    have run: "hnsw_add mp ms m1 m2 b s i = (Returned ok_status, b')"
      using ok st True i(2) p(2,3) p1 g1(1)
      by (simp add: hnsw_add_def Let_def low_def [symmetric] i(1) [symmetric] an gf_def b'_def)
    have gf: "graph_inv gf s U" "hg_m gf = hg_m ?g" "hg_max_level gf = hg_max_level ?g" "hg_levels gf = hg_levels ?g @ [?level]"
      using g1(4) iU A(2,6) g1(3) by (simp_all add: gf_def step_ok_def graph_frame_def)
    have "backend_inv b' s U"
      using p(10) [OF _ gf(1-3), of sc2] p(8) g1(2) by (simp add: b'_def backend_inv_def pool_ok_def params_match_def)
    moreover have "linked_below gf low i" using g1(5) by (simp add: linked_below_def gf_def)
    ultimately have "add_ok b s U i b'"
      using gf(4) g1(6) p(5,6) by (simp add: add_ok_def Let_def low_def [symmetric] b'_def gf_def)
    then show ?thesis using run by (simp add: add_result_def)
  qed
qed

subsection \<open>Reserve and link\<close>

definition pool_prepared :: "hnsw_backend \<Rightarrow> bool" where
  "pool_prepared b \<longleftrightarrow> sp_free (hb_scratch b) \<noteq> [] \<and> (\<forall>sc\<in>set (sp_free (hb_scratch b)). scratch_ready b (hg_max_level (hb_graph b)) sc)"

lemma prepare_insert_ok:
  assumes "backend_inv b s U" "1 \<le> workers" "node_count (hb_graph b) \<le> nodes"
  shows "\<exists>b'. prepare_insert b nodes workers = Some b' \<and> backend_inv b' s U \<and> pool_prepared b' \<and> hb_graph b' = hb_graph b \<and>
    length (sp_free (hb_scratch b')) \<ge> workers"
proof -
  have po: "pool_ok b" using assms(1) by (simp add: backend_inv_def)
  obtain p where p: "pool_ensure (hb_scratch b) workers nodes (unat (hp_ef_construction (hb_params b))) (hg_max_level (hb_graph b)) = Some p"
    "length (sp_free p) = sp_created p" "workers \<le> sp_created p"
    "\<forall>sc\<in>set (sp_free p). vs_inv (sx_visited (is_context sc)) \<and> nodes \<le> vs_capacity (sx_visited (is_context sc)) \<and>
      unat (hp_ef_construction (hb_params b)) \<le> length (sx_results (is_context sc)) \<and>
      hg_max_level (hb_graph b) < length (is_layer_candidates sc) \<and> hg_max_level (hb_graph b) < length (is_layer_selected sc)"
    using pool_ensure_ok [OF po] by blast
  have "sp_free p \<noteq> []" using p(2,3) assms(2) by (cases "sp_free p") simp_all
  then have "pool_prepared (b\<lparr>hb_scratch := p\<rparr>)"
    using p(4) assms(3) by (fastforce simp: pool_prepared_def scratch_ready_def context_ready_def)
  moreover have "backend_inv (b\<lparr>hb_scratch := p\<rparr>) s U"
    using assms(1) p(2,4) by (simp add: backend_inv_def pool_ok_def params_match_def)
  ultimately show ?thesis using p(1-3) by (simp add: prepare_insert_def)
qed

lemma publish_shape:
  assumes "publish b s sc i low g = Some (g1, sc')"
  shows "is_layer_candidates sc' = is_layer_candidates sc" "is_layer_selected sc' = is_layer_selected sc"
  using assms by (auto simp: publish_def split: option.splits)

lemma neighbor_levels_lengths:
  "neighbor_levels b s q es ls sc = Some sc' \<Longrightarrow>
    length (is_layer_candidates sc') = length (is_layer_candidates sc) \<and> length (is_layer_selected sc') = length (is_layer_selected sc)"
  by (induction ls arbitrary: es sc) (fastforce split: option.splits prod.splits if_splits simp: Let_def)+

lemma find_neighbors_lengths:
  "find_neighbors b s sc i low e = Some sc' \<Longrightarrow>
    length (is_layer_candidates sc') = length (is_layer_candidates sc) \<and> length (is_layer_selected sc') = length (is_layer_selected sc)"
  by (auto simp: find_neighbors_def simp del: upt_Suc dest!: neighbor_levels_lengths split: option.splits prod.splits if_splits)

lemma hnsw_link_outcome:
  assumes inv: "backend_inv b s U" and i: "i \<in> U" and q: "query_ok b s (row_query s i)" and pp: "pool_prepared b"
  shows "\<exists>b'. hnsw_link True b s i = (Returned (), b') \<and> backend_inv b' s (U - {i}) \<and> pool_prepared b' \<and>
    hg_levels (hb_graph b') = hg_levels (hb_graph b) \<and>
    (entry_valid (read_entry (hb_graph b)) \<longrightarrow>
      linked_below (hb_graph b') (min (hg_levels (hb_graph b) ! i) (he_level (read_entry (hb_graph b)))) i)"
proof -
  let ?g = "hb_graph b" and ?e = "read_entry (hb_graph b)" and ?level = "hg_levels (hb_graph b) ! i"
  have gi: "graph_inv ?g s U" and po: "pool_ok b" and pm: "params_match b" using inv by (simp_all add: backend_inv_def)
  note D = graph_invD [OF gi]
  have n: "i < node_count ?g" "i < st_size s" using i D(2,4) by auto
  have nl: "node_level ?g i = Some ?level" using n(1) by (simp add: node_level_def node_count_def)
  show ?thesis
  proof (cases "entry_valid ?e")
    case False
    have "hnsw_link True b s i = (Returned (), b\<lparr>hb_graph := set_entry ?g \<lparr>he_id = i, he_level = ?level\<rparr>\<rparr>)"
      using False nl by (simp add: hnsw_link_def)
    then show ?thesis using first_entry_ok [OF gi False i] po pm pp False
      by (simp add: backend_inv_def pool_ok_def params_match_def pool_prepared_def scratch_ready_def context_ready_def)
  next
    case True
    define low where "low = min ?level (he_level ?e)"
    obtain sc pool where pt: "pool_take (hb_scratch b) = Some (sc, pool)" using pp by (simp add: pool_prepared_def pool_take_def)
    have pf: "length (sp_free (hb_scratch b)) = sp_created (hb_scratch b)"
      "\<forall>sc\<in>set (sp_free (hb_scratch b)). vs_inv (sx_visited (is_context sc))" using po by (simp_all add: pool_ok_def)
    have "sc \<in> set (sp_free (hb_scratch b))" using pt by (auto simp: pool_take_def split: if_splits)
    then have srm: "scratch_ready b (hg_max_level ?g) sc" using pp by (simp add: pool_prepared_def)
    moreover have "low \<le> hg_max_level ?g" using D(8) [OF n(1)] by (simp add: low_def)
    ultimately have scr: "scratch_ready b low (fresh_stats sc)" by (simp add: scratch_ready_def context_ready_def fresh_stats_def)
    obtain sc1 where sc1: "find_neighbors b s (fresh_stats sc) i low ?e = Some sc1" "scratch_ready b low sc1"
      "\<And>l. l \<le> low \<Longrightarrow> layer_ready ?g (- insert i U) i l (is_layer_candidates sc1 ! l) (is_layer_selected sc1 ! l)"
      using find_neighbors_insert [OF gi pm True q n(2) _ scr] i by (auto simp: low_def)
    have U: "insert i U = U" using i by auto
    obtain g1 sc2 where g1: "publish b s sc1 i low ?g = Some (g1, sc2)" "is_context sc2 = is_context sc1" "step_ok ?g g1"
      "graph_inv (if ?level > he_level ?e then set_entry g1 \<lparr>he_id = i, he_level = ?level\<rparr> else g1) s (U - {i})"
      "\<forall>l \<le> low. link_map g1 (i, l) = Some (map sc_id (is_layer_selected sc1 ! l)) \<and> is_layer_selected sc1 ! l \<noteq> []"
      using publish_graph_inv [OF gi i True low_def sc1(3) [unfolded U]] by blast
    define gf where "gf = (if ?level > he_level ?e then set_entry g1 \<lparr>he_id = i, he_level = ?level\<rparr> else g1)"
    define b' where "b' = record_stats (b\<lparr>hb_scratch := pool_give_back pool sc2, hb_graph := gf\<rparr>) sc2"
    have run: "hnsw_link True b s i = (Returned (), b')"
      using nl True pt sc1(1) g1(1) by (simp add: hnsw_link_def Let_def low_def [symmetric] gf_def b'_def)
    have "vs_inv (sx_visited (is_context sc2))" using sc1(2) g1(2) by (simp add: scratch_ready_def context_ready_def)
    note pl = pool_lease(1,2) [OF pt pf this]
    have gf: "hg_m gf = hg_m ?g" "hg_max_level gf = hg_max_level ?g" "hg_levels gf = hg_levels ?g"
      using g1(3) by (simp_all add: gf_def step_ok_def graph_frame_def)
    have "backend_inv b' s (U - {i})"
      using g1(4) pl pm gf by (simp add: b'_def gf_def [symmetric] backend_inv_def pool_ok_def params_match_def)
    moreover have "scratch_ready b (hg_max_level ?g) sc2"
      using srm sc1(2) g1(2) find_neighbors_lengths [OF sc1(1)] publish_shape [OF g1(1)]
      by (simp add: scratch_ready_def context_ready_def fresh_stats_def)
    then have "pool_prepared b'"
      using pt pp gf in_set_butlastD [of _ "sp_free (hb_scratch b)"]
      by (auto simp: pool_prepared_def b'_def pool_take_def pool_give_back_def scratch_ready_def context_ready_def node_count_def split: if_splits)
    moreover have "linked_below gf low i" using g1(5) by (simp add: linked_below_def gf_def)
    ultimately show ?thesis using run gf(3) by (simp add: b'_def low_def)
  qed
qed

lemma hnsw_create_inv:
  assumes "hnsw_create s metric normalized kernels params opts = Inr b"
  shows "backend_inv b s {}" "node_count (hb_graph b) = 0" "hb_kernels b = kernels" "hb_dim b = st_dim s"
proof -
  let ?o = "\<lparr>go_m = unat (hp_M params), go_max_level = unat (hp_max_level params), go_nodes_per_chunk = ho_nodes_per_chunk opts,
    go_arena_chunk_words = ho_arena_chunk_words opts\<rparr>"
  have v: "status_ok (hnsw_params_validate params)"
    using assms by (auto simp: hnsw_create_def return_if_error_def split: if_splits)
  obtain g where g: "graph_create ?o = Inr g" "b = make_backend s metric normalized kernels params opts g"
    using assms v by (cases "graph_create ?o") (auto simp: hnsw_create_def return_if_error_def result_bind_def split: if_splits sum.splits)
  have "unat (hp_M params) \<le> 512" using v by (simp add: hnsw_params_validate_ok kMaxM_def word_le_nat_alt)
  then have m: "go_m ?o < 2 ^ 32 - 1" by simp
  note c = graph_create_ok [OF g(1) m]
  have "g = set_entry g no_entry" using c(3) by (simp add: set_entry_def)
  moreover have "read_entry (set_entry g no_entry) = no_entry"
    by (rule entry_round_trip) (simp_all add: no_entry_def kInvalidInternalId_def)
  ultimately have e: "read_entry g = no_entry" by simp
  have lm: "link_map g = Map.empty" using link_map_eq [OF c(1)] c(2) by (intro ext) (auto simp: valid_list_def)
  have "unat (hp_max_level params) \<le> 32" using v by (simp add: hnsw_params_validate_ok kMaxLevelCap_def word_le_nat_alt)
  then show "backend_inv b s {}"
    using c e lm v g(2) by (simp add: backend_inv_def graph_inv_def graph_ok_def links_wf_def node_count_def entry_ok_def entry_valid_def
      no_entry_def pool_ok_def params_match_def make_backend_def)
  show "node_count (hb_graph b) = 0" "hb_kernels b = kernels" "hb_dim b = st_dim s"
    using c(2) g(2) by (simp_all add: node_count_def make_backend_def)
qed

text \<open>With the scalar kernels and validated rows no distance is NaN.\<close>

definition rows_valid :: "hnsw_backend \<Rightarrow> vector_store \<Rightarrow> bool" where
  "rows_valid b s \<longleftrightarrow>
     hb_kernels b = scalar_kernel_table \<and> hb_dim b = st_dim s \<and> st_inv s \<and>
     (\<forall>i < st_size s. status_ok (validate_vector (st_row s i) (st_dim s)))"

lemma row_query_ok:
  assumes "rows_valid b s" "graph_ok (hb_graph b)" "node_count (hb_graph b) \<le> st_size s" "i < st_size s"
  shows "query_ok b s (row_query s i)"
proof -
  have r: "hb_kernels b = scalar_kernel_table" "hb_dim b = st_dim s" "st_inv s"
    "\<forall>i < st_size s. components_ok (st_row s i) (st_dim s)"
    using assms(1) validated_components by (auto simp: rows_valid_def)
  have "qv_data (row_query s i) ! k = st_row s i ! k" if "k < st_dim s" for k
    using that by (simp add: row_query_def st_row_def split: option.splits)
  then have "components_ok (qv_data (row_query s i)) (st_dim s)" using r(4) assms(4) by (simp add: components_ok_def)
  then show ?thesis
    by (intro scalar.hb_query_ok [OF r(1-3) assms(2,3) _ _ r(4)]) (simp_all add: row_query_def f32_constants_finite)
qed

subsection \<open>A backend with one node\<close>

definition sample_one :: hnsw_backend where
  "sample_one =
     make_backend sample_store L2 False scalar_kernel_table default_hnsw_params default_build_options
       (set_entry (snd (add_node True True
          (make_graph \<lparr>go_m = 16, go_max_level = 16, go_nodes_per_chunk = 1, go_arena_chunk_words = 512\<rparr> 1 512) 0))
          \<lparr>he_id = 0, he_level = 0\<rparr>)"

lemma sample_one_facts:
  "backend_inv sample_one sample_store {}" "node_count (hb_graph sample_one) = 1" "rows_valid sample_one sample_store"
  "level_for (hb_levels sample_one) 1 \<le> 16" "read_entry (hb_graph sample_one) = \<lparr>he_id = 0, he_level = 0\<rparr>"
proof -
  have sb: "has_single_bit 1" "has_single_bit 512" using has_single_bit_of_power [of 0] has_single_bit_of_power [of 9] by simp_all
  let ?g0 = "make_graph \<lparr>go_m = 16, go_max_level = 16, go_nodes_per_chunk = 1, go_arena_chunk_words = 512\<rparr> 1 512"
  have inv: "hg_inv ?g0" using sb by (intro make_graph_ok) simp_all
  have l0: "hg_levels ?g0 = []" "hg_m ?g0 = 16" "hg_max_level ?g0 = 16" by (simp_all add: make_graph_def)
  have "?g0 = set_entry ?g0 no_entry" by (simp add: set_entry_def make_graph_def)
  moreover have "read_entry (set_entry ?g0 no_entry) = no_entry"
    by (rule entry_round_trip) (simp_all add: no_entry_def kInvalidInternalId_def)
  ultimately have e: "read_entry ?g0 = no_entry" by simp
  have "link_map ?g0 = Map.empty" using link_map_eq [OF inv] l0(1) by (intro ext) (auto simp: valid_list_def)
  then have g0: "graph_inv ?g0 sample_store {}"
    using inv e l0 by (simp add: graph_inv_def graph_ok_def links_wf_def entry_ok_def node_count_def entry_valid_def no_entry_def)
  obtain g1 where a: "add_node True True ?g0 0 = (Returned ok_status, g1)"
    by (simp add: add_node_def make_graph_def kMaxVectorsPerCollection_def kInvalidInternalId_def Let_def)
  have ok: "status_ok ok_status" by simp
  have sz: "node_count ?g0 < st_size sample_store" using l0 sample_store_facts(4) by (simp add: node_count_def)
  note A = add_node_graph_inv [OF g0 sz a ok]
  have lv: "hg_levels g1 = [0]" using A(2) l0 by simp
  have n0: "node_count ?g0 = 0" using l0 by (simp add: node_count_def)
  have g: "hb_graph sample_one = set_entry g1 \<lparr>he_id = 0, he_level = 0\<rparr>" using a by (simp add: sample_one_def make_backend_def)
  have nv: "\<not> entry_valid (read_entry g1)" using A(3) e by (simp add: entry_valid_def no_entry_def)
  have "graph_inv (hb_graph sample_one) sample_store {}"
    using first_entry_ok [OF A(1) nv, of 0] lv n0 by (simp add: g)
  moreover have "hg_m (hb_graph sample_one) = 16" "hg_max_level (hb_graph sample_one) = 16"
    using A(6) l0 by (simp_all add: g graph_frame_def)
  moreover have "status_ok (hnsw_params_validate default_hnsw_params)"
    by (simp add: hnsw_params_validate_ok default_hnsw_params_def kMinM_def kMaxM_def kMaxEf_def kMaxLevelCap_def)
  ultimately show iv: "backend_inv sample_one sample_store {}"
    by (simp add: backend_inv_def pool_ok_def params_match_def) (simp add: sample_one_def make_backend_def default_hnsw_params_def)
  show "node_count (hb_graph sample_one) = 1" using lv by (simp add: g node_count_def)
  show "rows_valid sample_one sample_store"
    using sample_store_facts by (simp add: rows_valid_def) (simp add: sample_one_def make_backend_def)
  have "params_match sample_one" "graph_ok (hb_graph sample_one)" using iv by (simp_all add: backend_inv_def graph_inv_def)
  then show "level_for (hb_levels sample_one) 1 \<le> 16"
    using params_match_facts(4) [of sample_one 1] \<open>hg_max_level (hb_graph sample_one) = 16\<close> by simp
  show "read_entry (hb_graph sample_one) = \<lparr>he_id = 0, he_level = 0\<rparr>" unfolding g by (rule entry_round_trip) simp_all
qed

subsection \<open>Properties\<close>

text \<open>
  C32. Insertion keeps the backend well formed. Starting from a backend that satisfies its
  invariant, \<open>add\<close> of the last appended row never fails an assertion. When it reports success the
  invariant holds again (every list of distinct nodes of its level, no self links, capacities
  respected, the entry point a node of the highest level), the node has its drawn level, it has at
  least one link on every level it shares with the old entry point, and \<open>orphans_unrepaired\<close> grew by
  exactly the number of those levels on which no list points to it. When it reports an error or an
  allocation fails, whichever it was, the graph and the counters are unchanged and the invariant holds.
\<close>

theorem hnsw_add_keeps_invariant:
  assumes "backend_inv b s {}" "rows_valid b s" "st_size s = node_count (hb_graph b) + 1"
  shows "add_result b s {} (node_count (hb_graph b)) (hnsw_add mem_prepare mem_search mem_l0 mem_arena b s (node_count (hb_graph b)))"
proof (rule hnsw_add_outcome [OF assms(1) refl assms(3)])
  have "graph_ok (hb_graph b)" using assms(1) by (simp add: backend_inv_def graph_inv_def)
  then show "query_ok b s (row_query s (node_count (hb_graph b)))" using row_query_ok [OF assms(2)] assms(3) by simp
qed

theorem hnsw_add_keeps_invariant_witness:
  "backend_inv sample_one sample_store {} \<and> entry_valid (read_entry (hb_graph sample_one)) \<and>
   add_result sample_one sample_store {} 1 (hnsw_add True True True True sample_one sample_store 1)"
  using hnsw_add_keeps_invariant [of sample_one sample_store True True True True] sample_one_facts sample_store_facts(4)
  by (simp add: entry_valid_def kInvalidInternalId_def)

text \<open>
  Linking a node that was reserved before (the batch path): with scratch memory prepared, \<open>link\<close>
  returns, the invariant holds with the node no longer counted as unlinked, the scratch memory is
  ready for the next call, no level changes, and the node is linked on every level it shares with
  the old entry point.
\<close>

lemma hnsw_link_keeps_invariant:
  assumes "backend_inv b s U" "rows_valid b s" "i \<in> U" "pool_prepared b"
  shows "\<exists>b'. hnsw_link True b s i = (Returned (), b') \<and> backend_inv b' s (U - {i}) \<and> pool_prepared b' \<and>
    hg_levels (hb_graph b') = hg_levels (hb_graph b) \<and>
    (entry_valid (read_entry (hb_graph b)) \<longrightarrow>
      linked_below (hb_graph b') (min (hg_levels (hb_graph b) ! i) (he_level (read_entry (hb_graph b)))) i)"
proof (rule hnsw_link_outcome [OF assms(1,3) _ assms(4)])
  have "graph_inv (hb_graph b) s U" using assms(1) by (simp add: backend_inv_def)
  note D = graph_invD [OF this]
  show "query_ok b s (row_query s i)" using row_query_ok [OF assms(2) D(1,2), of i] D(2,4) assms(3) by auto
qed

definition sample_reserved :: hnsw_backend where
  "sample_reserved = the (prepare_insert (sample_one\<lparr>hb_graph := snd (add_node True True (hb_graph sample_one) 0)\<rparr>) 2 1)"

lemma sample_reserved_facts:
  "backend_inv sample_reserved sample_store {1}" "rows_valid sample_reserved sample_store" "pool_prepared sample_reserved"
  "read_entry (hb_graph sample_reserved) = \<lparr>he_id = 0, he_level = 0\<rparr>"
proof -
  note f = sample_one_facts
  obtain g' where a: "add_node True True (hb_graph sample_one) 0 = (Returned ok_status, g')"
    using f(2) by (simp add: add_node_def Let_def kMaxVectorsPerCollection_def kInvalidInternalId_def node_count_def)
  have gi: "graph_inv (hb_graph sample_one) sample_store {}" using f(1) by (simp add: backend_inv_def)
  have ok: "status_ok ok_status" by simp
  have sz: "node_count (hb_graph sample_one) < st_size sample_store" using f(2) sample_store_facts(4) by simp
  note A = add_node_graph_inv [OF gi sz a ok]
  define b where "b = sample_one\<lparr>hb_graph := g'\<rparr>"
  have "backend_inv b sample_store {1}"
    using f(1,2) A(1,6) by (simp add: b_def backend_inv_def pool_ok_def params_match_def graph_frame_def)
  moreover have "node_count (hb_graph b) \<le> 2" using A(2) f(2) by (simp add: b_def node_count_def)
  ultimately obtain b' where b': "prepare_insert b 2 1 = Some b'" "backend_inv b' sample_store {1}" "pool_prepared b'" "hb_graph b' = hb_graph b"
    using prepare_insert_ok by blast
  have e: "sample_reserved = b'" using b'(1) a by (simp add: sample_reserved_def b_def)
  show "backend_inv sample_reserved sample_store {1}" "pool_prepared sample_reserved" using b' e by simp_all
  have "hb_kernels b' = hb_kernels b" "hb_dim b' = hb_dim b" using b'(1) by (auto simp: prepare_insert_def)
  then show "rows_valid sample_reserved sample_store" using f(3) e by (simp add: rows_valid_def b_def)
  show "read_entry (hb_graph sample_reserved) = \<lparr>he_id = 0, he_level = 0\<rparr>" using e b'(4) A(3) f(5) by (simp add: b_def)
qed

text \<open>
  The insertion sort that shrinks a list is the standard sort by (distance, id): for candidates
  without NaN distances and with distinct ids it returns the unique sorted arrangement, and for any
  candidates, NaN included, a permutation of them.
\<close>

lemma insertion_sort_is_sort:
  "mset (insertion_sort xs) = mset xs \<and>
   ((\<forall>c\<in>set xs. cand_ok c) \<and> distinct (map sc_id xs) \<longrightarrow> insertion_sort xs = sort_key cand_key xs)"
proof (intro conjI impI)
  assume a: "(\<forall>c\<in>set xs. cand_ok c) \<and> distinct (map sc_id xs)"
  have inj: "inj_on cand_key (set xs)" using a by (auto simp: inj_on_def cand_key_def distinct_map)
  have "sorted (map cand_key (insertion_sort xs))" using a by (intro insertion_sort_sorted) simp
  then show "insertion_sort xs = sort_key cand_key xs"
    using sort_key_inj_key_eq [OF insertion_sort_mset [symmetric] inj] by simp
qed simp

end
