(* ===== verification/VF_Validator.thy ===== *)
theory VF_Validator
  imports VF_HnswInsert
begin

text \<open>
  The structural checker of \<^verbatim>\<open>src/index/hnsw/hnsw_validator.cpp\<close>. \<open>None\<close> is a read outside the graph or
  outside the \<open>seen\<close> array. The checker accepts exactly the graphs whose lists are well formed and whose
  entry point is a node of the highest level, which is what insertion keeps; \<open>reachability\<close>
  counts the nodes that no path from the entry point reaches.
\<close>

subsection \<open>check_invariants\<close>

definition where_node :: "internal_id \<Rightarrow> nat \<Rightarrow> string" where
  "where_node i level = ''node '' @ show_nat i @ '' level '' @ show_nat level @ '': ''"

fun check_neighbors :: "hnsw_graph \<Rightarrow> internal_id \<Rightarrow> nat \<Rightarrow> internal_id list \<Rightarrow> status" where
  "check_neighbors g i l [] = ok_status"
| "check_neighbors g i l (n # ns) =
     (case node_level g n of
        None \<Rightarrow> internal_error (where_node i l @ ''link to nonexistent node '' @ show_nat n)
      | Some level \<Rightarrow>
          if n = i then internal_error (where_node i l @ ''self-link'')
          else if level < l
          then internal_error (where_node i l @ ''link to node '' @ show_nat n @ '' whose level is '' @ show_nat level)
          else check_neighbors g i l ns)"

fun adjacent_find :: "nat list \<Rightarrow> nat option" where
  "adjacent_find (a # b # xs) = (if a = b then Some a else adjacent_find (b # xs))"
| "adjacent_find xs = None"

fun check_lists :: "hnsw_graph \<Rightarrow> internal_id \<Rightarrow> nat list \<Rightarrow> status option" where
  "check_lists g i [] = Some ok_status"
| "check_lists g i (l # ls) =
     (case graph_links g i l of
        None \<Rightarrow> None
      | Some links \<Rightarrow>
          if length links > link_capacity g l
          then Some (internal_error (where_node i l @ ''count '' @ show_nat (length links) @ '' exceeds capacity '' @
                 show_nat (link_capacity g l)))
          else if \<not> status_ok (check_neighbors g i l links) then Some (check_neighbors g i l links)
          else (case adjacent_find (sort links) of
                  Some d \<Rightarrow> Some (internal_error (where_node i l @ ''duplicate link to '' @ show_nat d))
                | None \<Rightarrow> check_lists g i ls))"

text \<open>The loop over the nodes; the second component is \<open>top\<close>.\<close>

fun check_nodes :: "hnsw_graph \<Rightarrow> internal_id list \<Rightarrow> nat \<Rightarrow> (status \<times> nat) option" where
  "check_nodes g [] highest = Some (ok_status, highest)"
| "check_nodes g (i # is) highest =
     (case node_level g i of
        None \<Rightarrow> None
      | Some level \<Rightarrow>
          if level > hg_max_level g
          then Some (internal_error (where_node i level @ ''level exceeds max_level''), highest)
          else (case check_lists g i [0..<Suc level] of
                  None \<Rightarrow> None
                | Some st \<Rightarrow> if \<not> status_ok st then Some (st, highest) else check_nodes g is (max highest level)))"

definition check_invariants :: "hnsw_graph \<Rightarrow> status option" where
  "check_invariants g =
     (let n = node_count g; entry = read_entry g
      in if n = 0
         then Some (if entry_valid entry then internal_error ''empty graph has an entry point'' else ok_status)
         else if \<not> entry_valid entry \<or> he_id entry \<ge> n
         then Some (internal_error ''non-empty graph has no valid entry point'')
         else if hg_levels g ! he_id entry \<noteq> he_level entry
         then Some (internal_error (''entry level '' @ show_nat (he_level entry) @ '' != level of node '' @ show_nat (he_id entry)))
         else (case check_nodes g [0..<n] 0 of
                 None \<Rightarrow> None
               | Some (st, highest) \<Rightarrow>
                   if \<not> status_ok st then Some st
                   else if he_level entry \<noteq> highest
                   then Some (internal_error (''entry level '' @ show_nat (he_level entry) @ '' != highest node level '' @
                          show_nat highest))
                   else Some ok_status))"

subsection \<open>Reachability\<close>

record hnsw_reachability =
  hr_nodes :: nat
  hr_unreachable :: "nat list"

definition unreachable_level0 :: "hnsw_reachability \<Rightarrow> nat" where
  "unreachable_level0 r = (if hr_unreachable r = [] then 0 else hr_unreachable r ! 0)"

fun bfs_expand :: "nat list \<Rightarrow> bool list \<Rightarrow> nat list \<Rightarrow> (bool list \<times> nat list) option" where
  "bfs_expand [] seen queue = Some (seen, queue)"
| "bfs_expand (n # ns) seen queue =
     (if n \<ge> length seen then None
      else if seen ! n then bfs_expand ns seen queue
      else bfs_expand ns (seen[n := True]) (queue @ [n]))"

lemma bfs_expand_measure:
  "bfs_expand ns seen queue = Some (seen', queue') \<Longrightarrow>
    length (filter Not seen') + length queue' = length (filter Not seen) + length queue"
proof (induction ns seen queue rule: bfs_expand.induct)
  case (2 n ns seen queue)
  show ?case
  proof (cases "seen ! n")
    case True
    then show ?thesis using 2 by (simp split: if_splits)
  next
    case False
    then have n: "n < length seen" using 2(3) by (simp split: if_splits)
    then have s: "seen = take n seen @ False # drop (Suc n) seen" using False id_take_nth_drop [OF n] by simp
    have "seen[n := True] = take n seen @ True # drop (Suc n) seen" using n by (simp add: upd_conv_take_nth_drop)
    then have "length (filter Not seen) = Suc (length (filter Not (seen[n := True])))"
      by (subst s) simp
    then show ?thesis using 2 False n by simp
  qed
qed simp

function bfs_loop :: "hnsw_graph \<Rightarrow> nat \<Rightarrow> nat \<Rightarrow> bool list \<Rightarrow> nat list \<Rightarrow> nat list option" where
  "bfs_loop g l head_pos seen queue =
     (if head_pos \<ge> length queue then Some queue
      else (case graph_links g (queue ! head_pos) l of
              None \<Rightarrow> None
            | Some links \<Rightarrow>
                (case bfs_expand links seen queue of
                   None \<Rightarrow> None
                 | Some (seen1, queue1) \<Rightarrow> bfs_loop g l (Suc head_pos) seen1 queue1)))"
  by pat_completeness auto
termination
  by (relation "measure (\<lambda>(g, l, h, seen, queue). length (filter Not seen) + length queue - h)")
    (auto dest: bfs_expand_measure)

declare bfs_loop.simps [simp del]

definition nodes_on_level :: "hnsw_graph \<Rightarrow> nat \<Rightarrow> nat" where
  "nodes_on_level g l = length (filter (\<lambda>level. l \<le> level) (hg_levels g))"

text \<open>The subtraction is the one of 64-bit unsigned integers.\<close>

fun reach_levels :: "hnsw_graph \<Rightarrow> internal_id \<Rightarrow> nat list \<Rightarrow> nat list \<Rightarrow> nat list option" where
  "reach_levels g entry [] unreachable = Some unreachable"
| "reach_levels g entry (l # ls) unreachable =
     (let n = node_count g
      in if entry \<ge> n then None
         else (case bfs_loop g l 0 ((replicate n False)[entry := True]) [entry] of
                 None \<Rightarrow> None
               | Some queue \<Rightarrow>
                   reach_levels g entry ls (unreachable[l := (nodes_on_level g l + 2 ^ 64 - length queue) mod 2 ^ 64])))"

definition reachability :: "hnsw_graph \<Rightarrow> hnsw_reachability option" where
  "reachability g =
     (let entry = read_entry g
      in if node_count g = 0 \<or> \<not> entry_valid entry then Some \<lparr>hr_nodes = node_count g, hr_unreachable = []\<rparr>
         else map_option (\<lambda>u. \<lparr>hr_nodes = node_count g, hr_unreachable = u\<rparr>)
                (reach_levels g (he_id entry) (rev [0..<Suc (he_level entry)]) (replicate (Suc (he_level entry)) 0)))"

definition level_histogram :: "hnsw_graph \<Rightarrow> nat list" where
  "level_histogram g = fold (\<lambda>level h. h[level := h ! level + 1]) (hg_levels g) (replicate (Suc (hg_max_level g)) 0)"

subsection \<open>What the checker accepts\<close>

lemma check_neighbors_ok:
  "status_ok (check_neighbors g i l ns) \<longleftrightarrow> (\<forall>n\<in>set ns. n \<noteq> i \<and> on_level g l n)"
  by (induction ns) (auto simp: node_level_def on_level_def node_count_def)

lemma adjacent_find_None: "sorted xs \<Longrightarrow> adjacent_find xs = None \<longleftrightarrow> distinct xs"
proof (induction xs rule: adjacent_find.induct)
  case (1 a b xs)
  have "a \<notin> set (b # xs)" if "a \<noteq> b" using 1(2) that by auto
  then show ?case using 1 by auto
qed simp_all

lemma check_lists_ok:
  assumes "hg_inv g" "\<And>l. l \<in> set ls \<Longrightarrow> on_level g l i"
  shows "\<exists>st. check_lists g i ls = Some st \<and>
    (status_ok st \<longleftrightarrow> (\<forall>l\<in>set ls. \<forall>xs. link_map g (i, l) = Some xs \<longrightarrow>
       distinct xs \<and> i \<notin> set xs \<and> (\<forall>x\<in>set xs. on_level g l x)))"
  using assms(2)
proof (induction ls)
  case (Cons l ls)
  have v: "valid_list g i l" using Cons.prems [of l] by (simp add: on_level_def valid_list_def node_count_def)
  have gl: "graph_links g i l = Some (hg_lists g i l)" by (rule graph_links_eq [OF assms(1) v])
  have lm: "link_map g (i, l) = Some (hg_lists g i l)" using gl by (simp add: link_map_def)
  have cap: "\<not> length (hg_lists g i l) > link_capacity g l" using glinks.cap_law [OF assms(1) lm] by simp
  have sd: "distinct (sort (hg_lists g i l)) \<longleftrightarrow> distinct (hg_lists g i l)" by simp
  have ad: "adjacent_find (sort (hg_lists g i l)) = None \<longleftrightarrow> distinct (hg_lists g i l)"
    using adjacent_find_None [of "sort (hg_lists g i l)"] by simp
  obtain st where st: "check_lists g i ls = Some st" "status_ok st \<longleftrightarrow> (\<forall>l\<in>set ls. \<forall>xs. link_map g (i, l) = Some xs \<longrightarrow>
       distinct xs \<and> i \<notin> set xs \<and> (\<forall>x\<in>set xs. on_level g l x))"
    using Cons by auto
  note nb = check_neighbors_ok [of g i l "hg_lists g i l"]
  show ?case
  proof (cases "status_ok (check_neighbors g i l (hg_lists g i l)) \<and> distinct (hg_lists g i l)")
    case True
    then have "check_lists g i (l # ls) = Some st" using gl cap ad st(1) by simp
    then show ?thesis using True nb lm st(2) by auto
  next
    case False
    have "\<exists>e. check_lists g i (l # ls) = Some e \<and> \<not> status_ok e"
    proof (cases "status_ok (check_neighbors g i l (hg_lists g i l))")
      case ok: True
      then obtain d where "adjacent_find (sort (hg_lists g i l)) = Some d" using False ad by auto
      then show ?thesis using gl cap ok by simp
    qed (use gl cap in simp)
    then obtain e where e: "check_lists g i (l # ls) = Some e" "\<not> status_ok e" by blast
    have "\<not> (\<forall>xs. link_map g (i, l) = Some xs \<longrightarrow> distinct xs \<and> i \<notin> set xs \<and> (\<forall>x\<in>set xs. on_level g l x))"
      using False nb lm by auto
    then show ?thesis using e by auto
  qed
qed simp

definition node_ok :: "hnsw_graph \<Rightarrow> internal_id \<Rightarrow> bool" where
  "node_ok g i \<longleftrightarrow> (\<forall>l xs. link_map g (i, l) = Some xs \<longrightarrow> distinct xs \<and> i \<notin> set xs \<and> (\<forall>x\<in>set xs. on_level g l x))"

lemma check_nodes_ok:
  assumes "hg_inv g" "\<forall>i\<in>set is. i < node_count g"
  shows "\<exists>st t. check_nodes g is highest = Some (st, t) \<and> (status_ok st \<longleftrightarrow> (\<forall>i\<in>set is. node_ok g i)) \<and>
    (status_ok st \<longrightarrow> t = Max (insert highest ((!) (hg_levels g) ` set is)))"
  using assms(2)
proof (induction "is" arbitrary: highest)
  case (Cons i "is")
  let ?lv = "hg_levels g ! i"
  have i: "i < node_count g" using Cons.prems by simp
  have nl: "node_level g i = Some ?lv" using i by (simp add: node_level_def node_count_def)
  have mx: "\<not> ?lv > hg_max_level g"
    using assms(1) i by (auto simp: hg_inv_def layout_ok_def node_count_def not_less)
  have dom: "\<And>l. l \<in> set [0..<Suc ?lv] \<longleftrightarrow> (i, l) \<in> dom (link_map g)"
    using glinks.dom_law [OF assms(1), of i] i by (auto simp: node_count_def)
  have on: "\<And>l. l \<in> set [0..<Suc ?lv] \<Longrightarrow> on_level g l i" using i by (auto simp: on_level_def)
  obtain st where st: "check_lists g i [0..<Suc ?lv] = Some st" "status_ok st \<longleftrightarrow> (\<forall>l\<in>set [0..<Suc ?lv]. \<forall>xs. link_map g (i, l) = Some xs \<longrightarrow>
       distinct xs \<and> i \<notin> set xs \<and> (\<forall>x\<in>set xs. on_level g l x))"
    using check_lists_ok [OF assms(1) on] by blast
  have sn: "status_ok st \<longleftrightarrow> node_ok g i"
    unfolding st(2) node_ok_def using dom by (metis domI)
  obtain st' t where r: "check_nodes g is (max highest ?lv) = Some (st', t)" "status_ok st' \<longleftrightarrow> (\<forall>i\<in>set is. node_ok g i)"
    "status_ok st' \<longrightarrow> t = Max (insert (max highest ?lv) ((!) (hg_levels g) ` set is))"
    using Cons.IH [of "max highest ?lv"] Cons.prems by auto
  have m: "Max (insert (max highest ?lv) ((!) (hg_levels g) ` set is)) = Max (insert highest ((!) (hg_levels g) ` set (i # is)))"
    by (cases "is = []") (simp_all add: max.assoc)
  show ?case
  proof (cases "status_ok st")
    case True
    then have "check_nodes g (i # is) highest = Some (st', t)" using nl mx st(1) r(1) by (simp del: upt_Suc)
    then show ?thesis using True sn r(2,3) m by auto
  next
    case False
    then have "check_nodes g (i # is) highest = Some (st, highest)" using nl mx st(1) by (simp del: upt_Suc)
    then show ?thesis using False sn by auto
  qed
qed simp

lemma graph_ok_nodes:
  assumes "hg_inv g"
  shows "graph_ok g \<longleftrightarrow> (\<forall>i < node_count g. node_ok g i)"
proof -
  have "link_map g (i, l) = Some xs \<Longrightarrow> i < node_count g" for i l xs
    using glinks.dom_law [OF assms, of i l] by (auto simp: node_count_def)
  then show ?thesis
    using assms unfolding graph_ok_def links_wf_def node_ok_def on_level_def node_count_def by blast
qed

lemma check_invariants_iff:
  assumes "hg_inv g"
  shows "\<exists>st. check_invariants g = Some st \<and> (status_ok st \<longleftrightarrow> graph_ok g \<and> entry_ok g {})"
proof (cases "node_count g = 0")
  case True
  then have "graph_ok g" using graph_ok_nodes [OF assms] by simp
  then show ?thesis using True by (simp add: check_invariants_def entry_ok_def)
next
  case False
  let ?e = "read_entry g" and ?n = "node_count g"
  obtain st t where c: "check_nodes g [0..<?n] 0 = Some (st, t)" "status_ok st \<longleftrightarrow> (\<forall>i\<in>set [0..<?n]. node_ok g i)"
    "status_ok st \<longrightarrow> t = Max (insert 0 ((!) (hg_levels g) ` set [0..<?n]))"
    using check_nodes_ok [OF assms, of "[0..<?n]" 0] by auto
  have gk: "status_ok st \<longleftrightarrow> graph_ok g" using c(2) graph_ok_nodes [OF assms] by auto
  have ek: "entry_ok g {} \<longleftrightarrow> entry_valid ?e \<and> he_id ?e < ?n \<and> hg_levels g ! he_id ?e = he_level ?e \<and>
      (\<forall>j < ?n. hg_levels g ! j \<le> he_level ?e)"
    using False by (auto simp: entry_ok_def)
  show ?thesis
  proof (cases "entry_valid ?e \<and> he_id ?e < ?n \<and> hg_levels g ! he_id ?e = he_level ?e")
    case True
    let ?L = "insert 0 ((!) (hg_levels g) ` set [0..<?n])"
    have "hg_levels g ! he_id ?e \<in> ?L" using True by (intro insertI2 imageI) simp
    then have "he_level ?e \<in> ?L" using True by simp
    moreover have "Max ?L = he_level ?e \<longleftrightarrow> he_level ?e \<in> ?L \<and> (\<forall>a\<in>?L. a \<le> he_level ?e)" by (rule Max_eq_iff) simp_all
    moreover have "(\<forall>a\<in>?L. a \<le> he_level ?e) \<longleftrightarrow> (\<forall>j < ?n. hg_levels g ! j \<le> he_level ?e)" by auto
    ultimately have "he_level ?e = Max ?L \<longleftrightarrow> (\<forall>j < ?n. hg_levels g ! j \<le> he_level ?e)" by metis
    then have "status_ok st \<Longrightarrow> he_level ?e = t \<longleftrightarrow> entry_ok g {}" using c(3) True ek by simp
    then show ?thesis using True False c(1) gk by (cases "status_ok st") (simp_all add: check_invariants_def Let_def not_le)
  next
    case no: False
    then show ?thesis using False ek by (auto simp: check_invariants_def Let_def)
  qed
qed

subsection \<open>What reachability counts\<close>

definition reach :: "hnsw_graph \<Rightarrow> nat \<Rightarrow> nat \<Rightarrow> nat set" where
  "reach g l e = (level_edges g l)\<^sup>* `` {e}"

definition seen_is :: "nat \<Rightarrow> bool list \<Rightarrow> nat list \<Rightarrow> bool" where
  "seen_is n seen queue \<longleftrightarrow> length seen = n \<and> distinct queue \<and> set queue = {i. i < n \<and> seen ! i}"

lemma bfs_expand_ok:
  assumes "seen_is n seen queue" "\<forall>x\<in>set ns. x < n"
  shows "\<exists>seen' r. bfs_expand ns seen queue = Some (seen', queue @ r) \<and> seen_is n seen' (queue @ r) \<and>
    set (queue @ r) = set queue \<union> set ns"
  using assms
proof (induction ns arbitrary: seen queue)
  case Nil
  then show ?case by auto
next
  case (Cons x ns)
  have x: "x < length seen" "x < n" using Cons.prems by (auto simp: seen_is_def)
  show ?case
  proof (cases "seen ! x")
    case True
    then have "x \<in> set queue" using x Cons.prems(1) by (auto simp: seen_is_def)
    then show ?thesis using Cons.IH [OF Cons.prems(1)] Cons.prems(2) True x by (auto simp: insert_absorb)
  next
    case False
    have "x \<notin> set queue" using False x Cons.prems(1) by (auto simp: seen_is_def)
    then have "seen_is n (seen[x := True]) (queue @ [x])"
      using Cons.prems(1) x by (auto simp: seen_is_def nth_list_update)
    then obtain seen' r where "bfs_expand ns (seen[x := True]) (queue @ [x]) = Some (seen', (queue @ [x]) @ r)"
      "seen_is n seen' ((queue @ [x]) @ r)" "set ((queue @ [x]) @ r) = set (queue @ [x]) \<union> set ns"
      using Cons.IH Cons.prems(2) by (metis list.set_intros(2))
    then show ?thesis using False x by (intro exI [of _ seen'] exI [of _ "x # r"]) auto
  qed
qed

definition bfs_inv :: "hnsw_graph \<Rightarrow> nat \<Rightarrow> nat \<Rightarrow> nat \<Rightarrow> bool list \<Rightarrow> nat list \<Rightarrow> bool" where
  "bfs_inv g l e h seen queue \<longleftrightarrow>
     seen_is (node_count g) seen queue \<and> e \<in> set queue \<and> set queue \<subseteq> reach g l e \<and> (\<forall>i\<in>set queue. on_level g l i) \<and>
     (\<forall>k < h. k < length queue \<longrightarrow> set (hg_lists g (queue ! k) l) \<subseteq> set queue)"

lemma bfs_step:
  assumes g: "graph_ok g" and inv: "bfs_inv g l e h seen queue" and h: "h < length queue"
  shows "\<exists>links seen' queue'. graph_links g (queue ! h) l = Some links \<and> bfs_expand links seen queue = Some (seen', queue') \<and>
    bfs_inv g l e (Suc h) seen' queue'"
proof -
  let ?i = "queue ! h" and ?ls = "hg_lists g (queue ! h) l"
  have q: "seen_is (node_count g) seen queue" "e \<in> set queue" "set queue \<subseteq> reach g l e" "\<And>i. i \<in> set queue \<Longrightarrow> on_level g l i"
    "\<And>k. k < h \<Longrightarrow> k < length queue \<Longrightarrow> set (hg_lists g (queue ! k) l) \<subseteq> set queue"
    using inv by (simp_all add: bfs_inv_def)
  have i: "on_level g l ?i" "?i \<in> reach g l e" using q(3,4) h by auto
  note gl = graph_links_ok [OF g i(1)]
  obtain seen' r where e: "bfs_expand ?ls seen queue = Some (seen', queue @ r)" "seen_is (node_count g) seen' (queue @ r)"
    "set (queue @ r) = set queue \<union> set ?ls"
    using bfs_expand_ok [OF q(1), of ?ls] gl(4) on_level_less by blast
  have "set ?ls \<subseteq> reach g l e"
  proof
    fix x assume "x \<in> set ?ls"
    then have "(?i, x) \<in> level_edges g l" using i(1) by (simp add: level_edges_def)
    then show "x \<in> reach g l e" using i(2) unfolding reach_def by (simp add: rtrancl.rtrancl_into_rtrancl)
  qed
  moreover have "set (hg_lists g ((queue @ r) ! k) l) \<subseteq> set queue \<union> set ?ls" if "k < Suc h" for k
    using that h q(5) [of k] by (auto simp: less_Suc_eq nth_append)
  ultimately have "bfs_inv g l e (Suc h) seen' (queue @ r)"
    unfolding bfs_inv_def e(3) using e(2) q(2-4) gl(4) by auto
  then show ?thesis using gl(1) e(1) by blast
qed

lemma bfs_loop_ok:
  assumes "graph_ok g" "bfs_inv g l e h seen queue"
  shows "\<exists>q. bfs_loop g l h seen queue = Some q \<and> distinct q \<and> set q = reach g l e \<and> (\<forall>i\<in>set q. on_level g l i)"
  using assms
proof (induction g l h seen queue rule: bfs_loop.induct)
  case (1 g l h seen queue)
  note g = 1(2) and inv = 1(3)
  show ?case
  proof (cases "h < length queue")
    case True
    obtain links seen' queue' where s: "graph_links g (queue ! h) l = Some links" "bfs_expand links seen queue = Some (seen', queue')"
      "bfs_inv g l e (Suc h) seen' queue'"
      using bfs_step [OF g inv True] by blast
    have "bfs_loop g l h seen queue = bfs_loop g l (Suc h) seen' queue'"
      using s True by (subst bfs_loop.simps) simp
    then show ?thesis using 1(1) [OF _ s(1,2) refl g s(3)] True by simp
  next
    case False
    have q: "e \<in> set queue" "set queue \<subseteq> reach g l e" "\<forall>i\<in>set queue. on_level g l i" "distinct queue"
      "\<And>k. k < length queue \<Longrightarrow> set (hg_lists g (queue ! k) l) \<subseteq> set queue"
    proof -
      show "distinct queue" using inv by (simp add: bfs_inv_def seen_is_def)
      show "e \<in> set queue" "set queue \<subseteq> reach g l e" "\<forall>i\<in>set queue. on_level g l i" using inv by (simp_all add: bfs_inv_def)
      show "set (hg_lists g (queue ! k) l) \<subseteq> set queue" if "k < length queue" for k
        using inv False that by (simp add: bfs_inv_def)
    qed
    have closed: "x \<in> set queue" if i: "i \<in> set queue" and ix: "(i, x) \<in> level_edges g l" for i x
    proof -
      obtain k where "k < length queue" "i = queue ! k" using i by (metis in_set_conv_nth)
      moreover have "x \<in> set (hg_lists g i l)" using ix by (simp add: level_edges_def)
      ultimately show ?thesis using q(5) [of k] by blast
    qed
    have "reach g l e \<subseteq> set queue"
    proof
      fix x assume "x \<in> reach g l e"
      then have "(e, x) \<in> (level_edges g l)\<^sup>*" by (simp add: reach_def)
      then show "x \<in> set queue" by induction (use q(1) closed in auto)
    qed
    then show ?thesis using q False by (subst bfs_loop.simps) auto
  qed
qed

lemma nodes_on_level_card: "nodes_on_level g l = card {i. on_level g l i}"
proof -
  have "{i. on_level g l i} = {i. i < length (hg_levels g) \<and> l \<le> hg_levels g ! i}" by (auto simp: on_level_def node_count_def)
  then show ?thesis by (simp add: nodes_on_level_def length_filter_conv_card)
qed

lemma reach_level:
  assumes g: "graph_ok g" and e: "on_level g l e" and n: "node_count g < 2 ^ 64"
  shows "\<exists>q. bfs_loop g l 0 ((replicate (node_count g) False)[e := True]) [e] = Some q \<and>
    (nodes_on_level g l + 2 ^ 64 - length q) mod 2 ^ 64 = card {i. on_level g l i \<and> i \<notin> reach g l e}"
proof -
  have "bfs_inv g l e 0 ((replicate (node_count g) False)[e := True]) [e]"
    using e on_level_less [OF e] by (auto simp: bfs_inv_def seen_is_def reach_def nth_list_update)
  from bfs_loop_ok [OF g this] obtain q where q: "bfs_loop g l 0 ((replicate (node_count g) False)[e := True]) [e] = Some q"
    "distinct q" "set q = reach g l e" "\<forall>i\<in>set q. on_level g l i" by blast
  let ?A = "{i. on_level g l i}"
  have sub: "?A \<subseteq> {..<node_count g}" using on_level_less by blast
  then have fin: "finite ?A" using finite_subset by blast
  have len: "length q = card (reach g l e)" using q(2,3) distinct_card by metis
  have le: "reach g l e \<subseteq> ?A" using q(3,4) by auto
  have "{i. on_level g l i \<and> i \<notin> reach g l e} = ?A - reach g l e" by auto
  then have c: "card {i. on_level g l i \<and> i \<notin> reach g l e} = card ?A - card (reach g l e)"
    using card_Diff_subset [OF finite_subset [OF le fin] le] by simp
  have "card ?A \<le> node_count g" "card (reach g l e) \<le> card ?A" using card_mono [OF _ sub] card_mono [OF fin le] by simp_all
  then have "nodes_on_level g l + 2 ^ 64 - length q = card {i. on_level g l i \<and> i \<notin> reach g l e} + 2 ^ 64"
    "card {i. on_level g l i \<and> i \<notin> reach g l e} < 2 ^ 64"
    using n unfolding nodes_on_level_card c len by simp_all
  then show ?thesis using q(1) by (intro exI [of _ q]) simp
qed

lemma reach_levels_ok:
  assumes g: "graph_ok g" "node_count g < 2 ^ 64" and ls: "\<forall>l\<in>set ls. on_level g l e \<and> l < length u" "distinct ls"
  shows "\<exists>u'. reach_levels g e ls u = Some u' \<and> length u' = length u \<and>
    (\<forall>l < length u. u' ! l = (if l \<in> set ls then card {i. on_level g l i \<and> i \<notin> reach g l e} else u ! l))"
  using ls
proof (induction ls arbitrary: u)
  case (Cons l ls)
  have l: "on_level g l e" "l < length u" "l \<notin> set ls" using Cons.prems by simp_all
  obtain q where q: "bfs_loop g l 0 ((replicate (node_count g) False)[e := True]) [e] = Some q"
    "(nodes_on_level g l + 2 ^ 64 - length q) mod 2 ^ 64 = card {i. on_level g l i \<and> i \<notin> reach g l e}"
    using reach_level [OF g(1) l(1) g(2)] by blast
  let ?u = "u[l := card {i. on_level g l i \<and> i \<notin> reach g l e}]"
  obtain u' where u': "reach_levels g e ls ?u = Some u'" "length u' = length u"
    "\<forall>k < length u. u' ! k = (if k \<in> set ls then card {i. on_level g k i \<and> i \<notin> reach g k e} else ?u ! k)"
    using Cons.IH [of ?u] Cons.prems by auto
  have "reach_levels g e (l # ls) u = Some u'" using q u'(1) on_level_less [OF l(1)] by (simp add: Let_def not_le)
  moreover have "\<forall>k < length u. u' ! k = (if k \<in> set (l # ls) then card {i. on_level g k i \<and> i \<notin> reach g k e} else u ! k)"
    using u'(3) l(2,3) by (auto simp: nth_list_update)
  ultimately show ?case using u'(2) by blast
qed simp

subsection \<open>Levels\<close>

lemma histogram_fold:
  assumes "\<forall>v\<in>set vs. v < length h"
  shows "length (fold (\<lambda>level h. h[level := h ! level + 1]) vs h) = length h \<and>
    (\<forall>l < length h. fold (\<lambda>level h. h[level := h ! level + 1]) vs h ! l = h ! l + length (filter ((=) l) vs))"
  using assms
proof (induction vs arbitrary: h)
  case (Cons v vs)
  then show ?case using Cons.IH [of "h[v := h ! v + 1]"] by (auto simp: nth_list_update)
qed simp

lemma sum_count_levels:
  fixes vs :: "nat list"
  shows "\<forall>v\<in>set vs. v < n \<Longrightarrow> (\<Sum>l<n. length (filter ((=) l) vs)) = length vs"
proof (induction vs)
  case (Cons v vs)
  have "(\<Sum>l<n. length (filter ((=) l) (v # vs))) = (\<Sum>l<n. (if l = v then 1 else 0) + length (filter ((=) l) vs))"
    by (intro sum.cong) auto
  also have "\<dots> = (\<Sum>l<n. if l = v then 1 else 0) + length vs" using Cons by (simp add: sum.distrib)
  also have "(\<Sum>l<n. if l = v then 1 else 0) = (1::nat)" using Cons.prems by (subst sum.delta) auto
  finally show ?case by simp
qed simp

lemma check_neighbors_code: "\<not> status_ok (check_neighbors g i l ns) \<Longrightarrow> code (check_neighbors g i l ns) = Internal"
  by (induction ns) (auto split: option.splits)

lemma check_lists_code: "check_lists g i ls = Some st \<Longrightarrow> \<not> status_ok st \<Longrightarrow> code st = Internal"
  by (induction ls) (auto simp: check_neighbors_code split: option.splits if_splits)

lemma check_nodes_code: "check_nodes g is t = Some (st, t') \<Longrightarrow> \<not> status_ok st \<Longrightarrow> code st = Internal"
  by (induction "is" arbitrary: t) (auto simp: check_lists_code simp del: upt_Suc split: option.splits if_splits)

lemma check_invariants_code: "check_invariants g = Some st \<Longrightarrow> \<not> status_ok st \<Longrightarrow> code st = Internal"
  by (auto simp: check_invariants_def Let_def check_nodes_code split: option.splits if_splits)

subsection \<open>Properties\<close>

text \<open>
  C34. On any graph in a valid memory layout the checker ends and accepts exactly when every list
  holds distinct nodes of its level without the node itself and the entry point is a node of the
  highest level (absent in an empty graph); everything else is reported as Internal. In particular
  it accepts every graph that insertion produces.
\<close>

theorem check_invariants_exact:
  assumes "hg_inv g"
  shows "\<exists>st. check_invariants g = Some st \<and> (status_ok st \<longleftrightarrow> links_wf (hg_levels g) (link_map g) \<and> entry_ok g {}) \<and>
    (\<not> status_ok st \<longrightarrow> code st = Internal)"
proof -
  obtain st where st: "check_invariants g = Some st" "status_ok st \<longleftrightarrow> graph_ok g \<and> entry_ok g {}"
    using check_invariants_iff [OF assms] by blast
  have "code st = Internal" if "\<not> status_ok st" using check_invariants_code [OF st(1) that] .
  then show ?thesis using st assms by (auto simp: graph_ok_def)
qed

theorem check_invariants_exact_witness:
  "\<exists>st. check_invariants sample_linked = Some st \<and> status_ok st"
proof -
  have ok: "hg_inv sample_linked" "links_wf (hg_levels sample_linked) (link_map sample_linked)"
    using sample_linked_facts(1) by (simp_all add: graph_ok_def)
  have "entry_ok sample_linked {}"
    using sample_linked_facts sample_backend_facts(4,8) by (auto simp: entry_ok_def less_2_cases_iff)
  then show ?thesis using check_invariants_exact [OF ok(1)] ok(2) by auto
qed

text \<open>
  \<open>reachability\<close> of a graph the checker accepts: the breadth-first searches end, and entry \<open>l\<close>
  of the report is exactly the number of nodes of level at least \<open>l\<close> that no path of level-\<open>l\<close> links
  from the entry point reaches (the unsigned subtraction never wraps).
\<close>

lemma reachability_counts:
  assumes "graph_inv g s {}" "0 < node_count g"
  shows "\<exists>r. reachability g = Some r \<and> hr_nodes r = node_count g \<and>
    length (hr_unreachable r) = Suc (he_level (read_entry g)) \<and>
    (\<forall>l \<le> he_level (read_entry g). hr_unreachable r ! l =
       card {i. on_level g l i \<and> (he_id (read_entry g), i) \<notin> (level_edges g l)\<^sup>*})"
proof -
  let ?e = "read_entry g"
  note D = graph_invD [OF assms(1)]
  have ev: "entry_valid ?e" using D(6) assms(2) by (auto simp: entry_ok_def split: if_splits)
  note E = graph_inv_entry [OF assms(1) ev]
  have n: "node_count g < 2 ^ 64" using D(7) by (simp add: kMaxVectorsPerCollection_def kInvalidInternalId_def)
  have ls: "\<forall>l\<in>set (rev [0..<Suc (he_level ?e)]). on_level g l (he_id ?e) \<and> l < length (replicate (Suc (he_level ?e)) (0::nat))"
    "distinct (rev [0..<Suc (he_level ?e)])"
    using on_level_mono [OF E(5)] by auto
  obtain u where u: "reach_levels g (he_id ?e) (rev [0..<Suc (he_level ?e)]) (replicate (Suc (he_level ?e)) 0) = Some u"
    "length u = Suc (he_level ?e)"
    "\<forall>l < Suc (he_level ?e). u ! l = (if l \<in> set (rev [0..<Suc (he_level ?e)])
       then card {i. on_level g l i \<and> i \<notin> reach g l (he_id ?e)} else replicate (Suc (he_level ?e)) 0 ! l)"
    using reach_levels_ok [OF D(1) n ls] by auto
  have "u ! l = card {i. on_level g l i \<and> (he_id ?e, i) \<notin> (level_edges g l)\<^sup>*}" if "l \<le> he_level ?e" for l
  proof -
    have "l \<in> set (rev [0..<Suc (he_level ?e)])" "l < Suc (he_level ?e)" using that by auto
    then show ?thesis using u(3) by (simp only: if_True reach_def Image_singleton_iff)
  qed
  moreover have "reachability g = Some \<lparr>hr_nodes = node_count g, hr_unreachable = u\<rparr>"
    using u(1) ev assms(2) by (simp add: reachability_def Let_def del: upt_Suc replicate_Suc)
  ultimately show ?thesis using u(2) by (intro exI [of _ "\<lparr>hr_nodes = node_count g, hr_unreachable = u\<rparr>"]) simp
qed

text \<open>The level histogram counts the nodes of each level; its entries add up to the node count.\<close>

lemma level_histogram_counts:
  assumes "hg_inv g"
  shows "length (level_histogram g) = Suc (hg_max_level g) \<and>
    (\<forall>l \<le> hg_max_level g. level_histogram g ! l = card {i. i < node_count g \<and> hg_levels g ! i = l}) \<and>
    sum_list (level_histogram g) = node_count g"
proof -
  have lv: "\<forall>v\<in>set (hg_levels g). v < length (replicate (Suc (hg_max_level g)) (0::nat))"
    using assms by (auto simp: hg_inv_def layout_ok_def less_Suc_eq_le)
  note h = histogram_fold [OF lv, folded level_histogram_def]
  have len: "length (level_histogram g) = Suc (hg_max_level g)" using h by simp
  have nth: "level_histogram g ! l = length (filter ((=) l) (hg_levels g))" if "l \<le> hg_max_level g" for l
    using h that by (simp del: replicate_Suc)
  have "sum_list (level_histogram g) = (\<Sum>l<Suc (hg_max_level g). length (filter ((=) l) (hg_levels g)))"
    using len nth by (simp add: sum_list_sum_nth atLeast0LessThan)
  also have "\<dots> = length (hg_levels g)" using lv by (intro sum_count_levels) simp
  finally have "sum_list (level_histogram g) = node_count g" by (simp add: node_count_def)
  then show ?thesis using len nth by (simp add: length_filter_conv_card node_count_def eq_commute)
qed

end
