(* ===== verification/VF_Bytes.thy ===== *)
theory VF_Bytes
  imports VF_Status
begin

text \<open>
  Checksums and little-endian encoding (\<^verbatim>\<open>src/storage/crc32c.cpp\<close>, \<^verbatim>\<open>binary_io.hpp\<close>, \<^verbatim>\<open>binary_io.cpp\<close>).
  The slice-by-8 CRC loop is proved equal to the bitwise definition of CRC-32C, which is injective in
  every single byte of the input. A byte sink is a record of functions; the locale \<open>sink_contract\<close>
  states what the writer relies on and \<open>memory\<close> is its interpretation on \<open>MemorySink\<close>.
\<close>

unbundle bit_operations_syntax

section \<open>CRC-32C\<close>

definition kPolynomial :: u32 where "kPolynomial = 0x82F63B78"

definition crc_bit :: "u32 \<Rightarrow> u32" where
  "crc_bit crc = (if crc AND 1 \<noteq> 0 then drop_bit 1 crc XOR kPolynomial else drop_bit 1 crc)"

text \<open>\<open>kTables[k][b]\<close>.\<close>

fun crc_table :: "nat \<Rightarrow> u32 \<Rightarrow> u32" where
  "crc_table 0 b = (crc_bit ^^ 8) b"
| "crc_table (Suc k) b = (let prev = crc_table k b in drop_bit 8 prev XOR crc_table 0 (prev AND 0xFF))"

definition byte_at :: "u8 list \<Rightarrow> nat \<Rightarrow> u32" where
  "byte_at data i = ucast (data ! i)"

definition crc_slice :: "u32 \<Rightarrow> u8 list \<Rightarrow> nat \<Rightarrow> u32" where
  "crc_slice c data i =
     (let lo = c XOR (byte_at data i OR push_bit 8 (byte_at data (i + 1)) OR push_bit 16 (byte_at data (i + 2)) OR
                 push_bit 24 (byte_at data (i + 3)))
      in crc_table 7 (lo AND 0xFF) XOR crc_table 6 (drop_bit 8 lo AND 0xFF) XOR crc_table 5 (drop_bit 16 lo AND 0xFF) XOR
         crc_table 4 (drop_bit 24 lo) XOR crc_table 3 (byte_at data (i + 4)) XOR crc_table 2 (byte_at data (i + 5)) XOR
         crc_table 1 (byte_at data (i + 6)) XOR crc_table 0 (byte_at data (i + 7)))"

function crc_slices :: "u8 list \<Rightarrow> nat \<Rightarrow> u32 \<Rightarrow> nat \<times> u32" where
  "crc_slices data i c = (if i + 8 \<le> length data then crc_slices data (i + 8) (crc_slice c data i) else (i, c))"
  by pat_completeness auto
termination
  by (relation "measure (\<lambda>(data, i, c). length data - i)") auto

declare crc_slices.simps [simp del]

fun crc_tail :: "u8 list \<Rightarrow> u32 \<Rightarrow> u32" where
  "crc_tail [] c = c"
| "crc_tail (b # bs) c = crc_tail bs (drop_bit 8 c XOR crc_table 0 ((c XOR ucast b) AND 0xFF))"

definition crc32c_extend :: "u32 \<Rightarrow> u8 list \<Rightarrow> u32" where
  "crc32c_extend crc data = (case crc_slices data 0 (NOT crc) of (i, c) \<Rightarrow> NOT (crc_tail (drop i data) c))"

definition crc32c :: "u8 list \<Rightarrow> u32" where
  "crc32c data = crc32c_extend 0 data"

subsection \<open>The bitwise definition\<close>

definition crc_shift :: "u32 \<Rightarrow> u32" where
  "crc_shift c = (crc_bit ^^ 8) c"

definition crc_byte :: "u32 \<Rightarrow> u8 \<Rightarrow> u32" where
  "crc_byte c b = crc_shift (c XOR ucast b)"

lemma crc_bit_eq: "crc_bit c = drop_bit 1 c XOR (if bit c 0 then kPolynomial else 0)"
  by (simp add: crc_bit_def and_one_eq odd_iff_mod_2_eq_one bit_0)

lemma crc_bit_xor: "crc_bit (a XOR b) = crc_bit a XOR crc_bit b"
  by (rule bit_word_eqI) (auto simp: crc_bit_eq bit_simps)

lemma crc_shift_xor: "crc_shift (a XOR b) = crc_shift a XOR crc_shift b"
proof -
  have "(crc_bit ^^ n) (a XOR b) = (crc_bit ^^ n) a XOR (crc_bit ^^ n) b" for n
    by (induction n) (simp_all add: crc_bit_xor)
  then show ?thesis by (simp add: crc_shift_def)
qed

lemma crc_bits_zero: "(\<And>i. i < n \<Longrightarrow> \<not> bit c i) \<Longrightarrow> (crc_bit ^^ n) c = drop_bit n c"
proof (induction n)
  case (Suc n)
  then have "(crc_bit ^^ Suc n) c = crc_bit (drop_bit n c)" "\<not> bit c n" by simp_all
  then show ?case using crc_bit_eq [of "drop_bit n c"] by (simp add: bit_drop_bit_eq)
qed simp

lemma crc_shift_push:
  assumes "\<And>i. bit b i \<Longrightarrow> i + n < 24"
  shows "crc_shift (push_bit (n + 8) b) = push_bit n b"
proof -
  have "crc_shift (push_bit (n + 8) b) = drop_bit 8 (push_bit (n + 8) b)"
    unfolding crc_shift_def by (rule crc_bits_zero) (simp add: bit_simps)
  also have "\<dots> = push_bit n b"
  proof (rule bit_word_eqI)
    fix i assume "i < LENGTH(32)"
    show "bit (drop_bit 8 (push_bit (n + 8) b)) i = bit (push_bit n b) i"
      using assms [of "i - n"] by (auto simp: bit_simps)
  qed
  finally show ?thesis .
qed

lemma low_byte: "c AND (0xFF :: u32) = take_bit 8 c"
  by (simp add: mask_eq_exp_minus_1 take_bit_eq_mask)

lemma bit_u32: "bit (c :: u32) n \<Longrightarrow> n < 32"
  using bit_imp_le_length [of c n] by simp

lemma bit_u8: "bit (b :: u8) n \<Longrightarrow> n < 8"
  using bit_imp_le_length [of b n] by simp

text \<open>Eight bit steps shift a byte out and fold it back in through the table.\<close>

lemma crc_shift_split: "crc_shift c = drop_bit 8 c XOR crc_shift (take_bit 8 c)"
proof -
  have c: "c = take_bit 8 c XOR push_bit (0 + 8) (drop_bit 8 c)"
    by (rule bit_word_eqI) (auto simp: bit_simps)
  have "crc_shift (push_bit (0 + 8) (drop_bit 8 c)) = push_bit 0 (drop_bit 8 c)"
    by (rule crc_shift_push) (auto simp: bit_simps dest: bit_u32)
  then show ?thesis by (subst c, subst crc_shift_xor) (simp add: xor.commute)
qed

lemma crc_table_eq: "crc_table k b = (crc_shift ^^ Suc k) b"
proof (induction k)
  case (Suc k)
  then show ?case using crc_shift_split [of "crc_table k b"] by (simp add: Let_def low_byte crc_shift_def)
qed (simp add: crc_shift_def)

lemma crc_tail_byte: "drop_bit 8 c XOR crc_table 0 ((c XOR ucast b) AND 0xFF) = crc_byte c b"
proof -
  have d: "drop_bit 8 (c XOR ucast b) = drop_bit 8 c"
    by (rule bit_word_eqI) (auto simp: bit_simps dest: bit_u8)
  have t: "crc_table 0 x = crc_shift x" for x by (simp add: crc_shift_def)
  show ?thesis unfolding t low_byte crc_byte_def crc_shift_split [of "c XOR ucast b"] d ..
qed

lemma crc_shift_byte:
  assumes "\<And>i. bit b i \<Longrightarrow> i < 8"
  shows "crc_shift (push_bit 8 b) = b" "crc_shift (push_bit 16 b) = push_bit 8 b" "crc_shift (push_bit 24 b) = push_bit 16 b"
proof -
  have b: "\<And>i. bit b i \<Longrightarrow> i + 0 < 24" "\<And>i. bit b i \<Longrightarrow> i + 8 < 24" "\<And>i. bit b i \<Longrightarrow> i + 16 < 24"
    using assms by fastforce+
  show "crc_shift (push_bit 8 b) = b" "crc_shift (push_bit 16 b) = push_bit 8 b" "crc_shift (push_bit 24 b) = push_bit 16 b"
    using crc_shift_push [OF b(1)] crc_shift_push [OF b(2)] crc_shift_push [OF b(3)] by simp_all
qed

lemma crc_tail_fold: "crc_tail bs c = fold (\<lambda>b c. crc_byte c b) bs c"
  by (induction bs c rule: crc_tail.induct) (simp_all add: crc_tail_byte del: crc_table.simps)

subsection \<open>Eight bytes at a time\<close>

lemma crc_four_bytes:
  "crc_byte (crc_byte (crc_byte (crc_byte c b0) b1) b2) b3 =
   crc_shift (crc_shift (crc_shift (crc_shift (c XOR (ucast b0 OR push_bit 8 (ucast b1) OR push_bit 16 (ucast b2) OR push_bit 24 (ucast b3))))))"
proof -
  have sh: "crc_shift (push_bit 8 (ucast b)) = ucast b" "crc_shift (push_bit 16 (ucast b)) = push_bit 8 (ucast b)"
    "crc_shift (push_bit 24 (ucast b)) = push_bit 16 (ucast b)" for b :: u8
    by (rule crc_shift_byte; auto simp: bit_simps dest: bit_u8)+
  have or: "(ucast b0 :: u32) OR push_bit 8 (ucast b1) OR push_bit 16 (ucast b2) OR push_bit 24 (ucast b3) =
      ucast b0 XOR push_bit 8 (ucast b1) XOR push_bit 16 (ucast b2) XOR push_bit 24 (ucast b3)"
  proof -
    have x: "(a :: u32) OR b = a XOR b" if "\<And>n. bit a n \<Longrightarrow> n < k" "\<And>n. bit b n \<Longrightarrow> k \<le> n" for a b k
      by (rule bit_word_eqI) (use that in \<open>auto simp: bit_simps not_less [symmetric]\<close>)
    have lo: "bit (push_bit k (ucast b :: u32)) n \<Longrightarrow> n < k + 8" and hi: "bit (push_bit k (ucast b :: u32)) n \<Longrightarrow> k \<le> n" for b :: u8 and k n
      by (auto simp: bit_simps dest!: bit_u8)
    have "push_bit 16 (ucast b2) OR push_bit 24 (ucast b3) = push_bit 16 (ucast b2) XOR push_bit 24 (ucast b3 :: u32)"
      by (rule x [of _ 24]) (use lo [of 16 b2] hi [of 24 b3] in simp_all)
    moreover have "push_bit 8 (ucast b1) OR (push_bit 16 (ucast b2) XOR push_bit 24 (ucast b3)) =
        push_bit 8 (ucast b1) XOR (push_bit 16 (ucast b2) XOR push_bit 24 (ucast b3 :: u32))"
    proof (rule x [of _ 16])
      show "n < 16" if "bit (push_bit 8 (ucast b1 :: u32)) n" for n using lo [OF that] by simp
      show "16 \<le> n" if "bit (push_bit 16 (ucast b2) XOR push_bit 24 (ucast b3 :: u32)) n" for n
        using that hi [of 16 b2 n] hi [of 24 b3 n] unfolding bit_xor_iff by linarith
    qed
    moreover have "ucast b0 OR (push_bit 8 (ucast b1) XOR (push_bit 16 (ucast b2) XOR push_bit 24 (ucast b3))) =
        ucast b0 XOR (push_bit 8 (ucast b1) XOR (push_bit 16 (ucast b2) XOR push_bit 24 (ucast b3 :: u32)))"
    proof (rule x [of _ 8])
      show "n < 8" if "bit (ucast b0 :: u32) n" for n using lo [of 0 b0 n] that by simp
      show "8 \<le> n" if "bit (push_bit 8 (ucast b1) XOR (push_bit 16 (ucast b2) XOR push_bit 24 (ucast b3 :: u32))) n" for n
        using that hi [of 8 b1 n] hi [of 16 b2 n] hi [of 24 b3 n] unfolding bit_xor_iff by linarith
    qed
    ultimately show ?thesis by simp
  qed
  show ?thesis unfolding or crc_byte_def crc_shift_xor sh by (simp only: xor.assoc)
qed

lemma word_bytes:
  "(w :: u32) = take_bit 8 w XOR push_bit 8 (take_bit 8 (drop_bit 8 w)) XOR push_bit 16 (take_bit 8 (drop_bit 16 w)) XOR push_bit 24 (drop_bit 24 w)"
proof (rule bit_word_eqI)
  fix n assume "n < LENGTH(32)"
  then show "bit w n = bit (take_bit 8 w XOR push_bit 8 (take_bit 8 (drop_bit 8 w)) XOR push_bit 16 (take_bit 8 (drop_bit 16 w)) XOR
      push_bit 24 (drop_bit 24 w)) n"
    by (auto simp: bit_simps)
qed

lemma crc_slice_bytes:
  "crc_slice c data i =
   fold (\<lambda>b c. crc_byte c b) [data ! i, data ! (i + 1), data ! (i + 2), data ! (i + 3), data ! (i + 4), data ! (i + 5), data ! (i + 6), data ! (i + 7)] c"
proof -
  define lo where "lo = c XOR (byte_at data i OR push_bit 8 (byte_at data (i + 1)) OR push_bit 16 (byte_at data (i + 2)) OR
    push_bit 24 (byte_at data (i + 3)))"
  let ?s = "\<lambda>b. crc_shift (crc_shift (crc_shift (crc_shift b)))"
  have first4: "crc_byte (crc_byte (crc_byte (crc_byte c (data ! i)) (data ! (i + 1))) (data ! (i + 2))) (data ! (i + 3)) = ?s lo"
    unfolding crc_four_bytes lo_def byte_at_def ..
  have tab: "crc_table 0 b = crc_shift b" "crc_table 1 b = crc_shift (crc_shift b)" "crc_table 2 b = crc_shift (crc_shift (crc_shift b))"
    "crc_table 3 b = ?s b" "crc_table 4 b = ?s (crc_shift b)" "crc_table 5 b = ?s (crc_shift (crc_shift b))"
    "crc_table 6 b = ?s (crc_shift (crc_shift (crc_shift b)))" "crc_table 7 b = ?s (?s b)" for b
    unfolding crc_table_eq by (simp_all add: numeral_eq_Suc)
  have sh: "crc_shift (push_bit 8 (take_bit 8 w)) = take_bit 8 w" "crc_shift (push_bit 16 (take_bit 8 w)) = push_bit 8 (take_bit 8 w)"
    "crc_shift (push_bit 24 (take_bit 8 w)) = push_bit 16 (take_bit 8 w)" for w :: u32
    by (rule crc_shift_byte; simp add: bit_simps)+
  have d: "drop_bit 24 lo = take_bit 8 (drop_bit 24 lo)"
    by (rule bit_word_eqI) (auto simp: bit_simps dest: bit_u32)
  have lo8: "?s (?s lo) = crc_table 7 (take_bit 8 lo) XOR crc_table 6 (take_bit 8 (drop_bit 8 lo)) XOR
      crc_table 5 (take_bit 8 (drop_bit 16 lo)) XOR crc_table 4 (drop_bit 24 lo)"
    by (subst word_bytes [of lo], subst d, subst (2) d) (simp only: crc_shift_xor sh tab)
  have "fold (\<lambda>b c. crc_byte c b) [data ! i, data ! (i + 1), data ! (i + 2), data ! (i + 3), data ! (i + 4), data ! (i + 5), data ! (i + 6), data ! (i + 7)] c =
      crc_byte (crc_byte (crc_byte (crc_byte (?s lo) (data ! (i + 4))) (data ! (i + 5))) (data ! (i + 6))) (data ! (i + 7))"
    by (simp only: fold_simps first4)
  also have "\<dots> = ?s (?s lo) XOR (crc_table 3 (byte_at data (i + 4)) XOR (crc_table 2 (byte_at data (i + 5)) XOR
      (crc_table 1 (byte_at data (i + 6)) XOR crc_table 0 (byte_at data (i + 7)))))"
    by (simp only: crc_byte_def crc_shift_xor tab byte_at_def xor.assoc)
  finally show ?thesis
    unfolding crc_slice_def Let_def lo_def [symmetric] low_byte lo8 by (simp only: xor.assoc)
qed

lemma crc_slices_fold:
  "i \<le> length data \<Longrightarrow> crc_slices data i c = (j, c') \<Longrightarrow>
    fold (\<lambda>b c. crc_byte c b) (drop j data) c' = fold (\<lambda>b c. crc_byte c b) (drop i data) c"
proof (induction data i c arbitrary: j c' rule: crc_slices.induct)
  case (1 data i c)
  show ?case
  proof (cases "i + 8 \<le> length data")
    case True
    have "drop i data = [data ! i, data ! (i + 1), data ! (i + 2), data ! (i + 3), data ! (i + 4), data ! (i + 5), data ! (i + 6), data ! (i + 7)] @ drop (i + 8) data"
      using True by (simp add: Cons_nth_drop_Suc numeral_eq_Suc)
    then show ?thesis
      using 1(1) [OF True, of j c'] 1(3) True crc_slice_bytes [of c data i] by (simp add: crc_slices.simps [of data i])
  next
    case False
    then show ?thesis using 1(3) by (simp add: crc_slices.simps [of data i])
  qed
qed

lemma crc32c_extend_fold: "crc32c_extend crc data = NOT (fold (\<lambda>b c. crc_byte c b) data (NOT crc))"
  using crc_slices_fold [of 0 data "NOT crc"] by (simp add: crc32c_extend_def crc_tail_fold split: prod.splits)

lemma crc32c_extend_append: "crc32c_extend crc (a @ b) = crc32c_extend (crc32c_extend crc a) b"
  by (simp add: crc32c_extend_fold)

lemma crc32c_extend_Nil [simp]: "crc32c_extend crc [] = crc"
  by (simp add: crc32c_extend_fold)

subsection \<open>Every step is injective\<close>

lemma xor_inj_right: "(a :: 'a::len word) XOR x = b XOR x \<longleftrightarrow> a = b"
  by (metis bit.xor_self xor.assoc xor.right_neutral)

lemma crc_bit_inj: "crc_bit a = crc_bit b \<longleftrightarrow> a = b"
proof
  assume e: "crc_bit a = crc_bit b"
  have top: "bit (crc_bit c) 31 = bit c 0" for c
    unfolding crc_bit_eq kPolynomial_def by (auto simp: bit_simps dest: bit_u32)
  then have "bit a 0 = bit b 0" using e by metis
  then have "drop_bit 1 a XOR (if bit b 0 then kPolynomial else 0) = drop_bit 1 b XOR (if bit b 0 then kPolynomial else 0)"
    using e by (simp only: crc_bit_eq)
  then have "drop_bit 1 a = drop_bit 1 b" by (simp only: xor_inj_right)
  then have "bit (drop_bit 1 a) n = bit (drop_bit 1 b) n" for n by simp
  then have "bit a (Suc n) = bit b (Suc n)" for n by (simp add: bit_drop_bit_eq)
  then show "a = b" using \<open>bit a 0 = bit b 0\<close> by (intro bit_eqI) (metis not0_implies_Suc)
qed simp

lemma crc_shift_inj: "crc_shift a = crc_shift b \<longleftrightarrow> a = b"
proof -
  have "(crc_bit ^^ n) a = (crc_bit ^^ n) b \<longleftrightarrow> a = b" for n
    by (induction n) (simp_all add: crc_bit_inj)
  then show ?thesis by (simp add: crc_shift_def)
qed

lemma crc_byte_inj: "crc_byte a b = crc_byte a' b \<longleftrightarrow> a = a'"
  by (simp add: crc_byte_def crc_shift_inj xor_inj_right)

lemma crc_fold_inj: "fold (\<lambda>b c. crc_byte c b) ys a = fold (\<lambda>b c. crc_byte c b) ys a' \<longleftrightarrow> a = a'"
  by (induction ys arbitrary: a a') (simp_all add: crc_byte_inj)

lemma crc_byte_inj2: "crc_byte a b = crc_byte a b' \<longleftrightarrow> b = b'"
proof -
  have "(ucast b :: u32) = ucast b' \<longleftrightarrow> b = b'"
  proof
    assume e: "(ucast b :: u32) = ucast b'"
    show "b = b'"
    proof (rule bit_word_eqI)
      fix n assume "n < LENGTH(8)"
      then show "bit b n = bit b' n" using arg_cong [OF e, of "\<lambda>w. bit w n"] by (simp add: bit_simps)
    qed
  qed simp
  then show ?thesis by (metis crc_byte_def crc_shift_inj xor_inj_right xor.commute)
qed

section \<open>Reading\<close>

record byte_reader =
  br_data :: "u8 list"
  br_pos :: nat

definition new_reader :: "u8 list \<Rightarrow> byte_reader" where
  "new_reader data = \<lparr>br_data = data, br_pos = 0\<rparr>"

definition br_remaining :: "byte_reader \<Rightarrow> nat" where
  "br_remaining r = length (br_data r) - br_pos r"

text \<open>The loop of \<open>read_le\<close>: byte \<open>i\<close> is shifted to bit \<open>8 * i\<close>.\<close>

fun le_from :: "nat \<Rightarrow> u8 list \<Rightarrow> 'a::len word \<Rightarrow> 'a word" where
  "le_from i [] v = v"
| "le_from i (b # bs) v = le_from (Suc i) bs (v OR push_bit (8 * i) (ucast b))"

definition read_le :: "nat \<Rightarrow> byte_reader \<Rightarrow> ('a::len word \<times> byte_reader) option" where
  "read_le n r =
     (if br_remaining r < n then None
      else Some (le_from 0 (take n (drop (br_pos r) (br_data r))) 0, r\<lparr>br_pos := br_pos r + n\<rparr>))"

definition read_u8 :: "byte_reader \<Rightarrow> (u8 \<times> byte_reader) option" where "read_u8 = read_le 1"
definition read_u16 :: "byte_reader \<Rightarrow> (u16 \<times> byte_reader) option" where "read_u16 = read_le 2"
definition read_u32 :: "byte_reader \<Rightarrow> (u32 \<times> byte_reader) option" where "read_u32 = read_le 4"
definition read_u64 :: "byte_reader \<Rightarrow> (u64 \<times> byte_reader) option" where "read_u64 = read_le 8"

definition read_view :: "nat \<Rightarrow> byte_reader \<Rightarrow> (u8 list \<times> byte_reader) option" where
  "read_view n r =
     (if br_remaining r < n then None
      else Some (take n (drop (br_pos r) (br_data r)), r\<lparr>br_pos := br_pos r + n\<rparr>))"

definition reader_skip :: "nat \<Rightarrow> byte_reader \<Rightarrow> byte_reader option" where
  "reader_skip n r = (if br_remaining r < n then None else Some (r\<lparr>br_pos := br_pos r + n\<rparr>))"

definition reader_seek :: "nat \<Rightarrow> byte_reader \<Rightarrow> byte_reader option" where
  "reader_seek pos r = (if pos > length (br_data r) then None else Some (r\<lparr>br_pos := pos\<rparr>))"

section \<open>Writing\<close>

record 's byte_sink =
  sk_write :: "'s \<Rightarrow> u8 list \<Rightarrow> status \<times> 's"
  sk_write_at :: "'s \<Rightarrow> nat \<Rightarrow> u8 list \<Rightarrow> status \<times> 's"

definition memory_write :: "u8 list \<Rightarrow> u8 list \<Rightarrow> status \<times> u8 list" where
  "memory_write m bs = (ok_status, m @ bs)"

definition checked_add :: "nat \<Rightarrow> nat \<Rightarrow> nat option" where
  "checked_add a b = (if a > (2 ^ 64 - 1) - b then None else Some (a + b))"

definition memory_write_at :: "u8 list \<Rightarrow> nat \<Rightarrow> u8 list \<Rightarrow> status \<times> u8 list" where
  "memory_write_at m offset bs =
     (case checked_add offset (length bs) of
        None \<Rightarrow> (io_error ''MemorySink::write_at beyond written data'', m)
      | Some e \<Rightarrow>
          if e > length m then (io_error ''MemorySink::write_at beyond written data'', m)
          else (ok_status, take offset m @ bs @ drop (offset + length bs) m))"

definition memory_sink :: "u8 list byte_sink" where
  "memory_sink = \<lparr>sk_write = memory_write, sk_write_at = memory_write_at\<rparr>"

record 's binary_writer =
  bw_sink :: 's
  bw_status :: status
  bw_position :: nat
  bw_crc :: u32

definition new_writer :: "'s \<Rightarrow> 's binary_writer" where
  "new_writer s = \<lparr>bw_sink = s, bw_status = ok_status, bw_position = 0, bw_crc = 0\<rparr>"

definition bw_bytes :: "'s byte_sink \<Rightarrow> u8 list \<Rightarrow> 's binary_writer \<Rightarrow> 's binary_writer" where
  "bw_bytes k data w =
     (if \<not> status_ok (bw_status w) \<or> data = [] then w
      else (case sk_write k (bw_sink w) data of
              (st, s) \<Rightarrow>
                if \<not> status_ok st then w\<lparr>bw_sink := s, bw_status := st\<rparr>
                else w\<lparr>bw_sink := s, bw_crc := crc32c_extend (bw_crc w) data, bw_position := bw_position w + length data\<rparr>))"

definition le_bytes :: "nat \<Rightarrow> 'a::len word \<Rightarrow> u8 list" where
  "le_bytes n v = map (\<lambda>i. ucast (drop_bit (8 * i) v AND 0xFF)) [0..<n]"

definition bw_u8 :: "'s byte_sink \<Rightarrow> u8 \<Rightarrow> 's binary_writer \<Rightarrow> 's binary_writer" where "bw_u8 k v = bw_bytes k (le_bytes 1 v)"
definition bw_u16 :: "'s byte_sink \<Rightarrow> u16 \<Rightarrow> 's binary_writer \<Rightarrow> 's binary_writer" where "bw_u16 k v = bw_bytes k (le_bytes 2 v)"
definition bw_u32 :: "'s byte_sink \<Rightarrow> u32 \<Rightarrow> 's binary_writer \<Rightarrow> 's binary_writer" where "bw_u32 k v = bw_bytes k (le_bytes 4 v)"
definition bw_u64 :: "'s byte_sink \<Rightarrow> u64 \<Rightarrow> 's binary_writer \<Rightarrow> 's binary_writer" where "bw_u64 k v = bw_bytes k (le_bytes 8 v)"

definition bw_array :: "'s byte_sink \<Rightarrow> nat \<Rightarrow> 'a::len word list \<Rightarrow> 's binary_writer \<Rightarrow> 's binary_writer" where
  "bw_array k n vs = bw_bytes k (concat (map (le_bytes n) vs))"

function bw_zeros :: "'s byte_sink \<Rightarrow> nat \<Rightarrow> 's binary_writer \<Rightarrow> 's binary_writer" where
  "bw_zeros k cnt w =
     (if cnt > 0 \<and> status_ok (bw_status w)
      then bw_zeros k (cnt - min cnt 4096) (bw_bytes k (replicate (min cnt 4096) 0) w)
      else w)"
  by pat_completeness auto
termination
  by (relation "measure (\<lambda>(k, cnt, w). cnt)") auto

declare bw_zeros.simps [simp del]

definition bw_pad_to :: "'s byte_sink \<Rightarrow> nat \<Rightarrow> 's binary_writer \<Rightarrow> 's binary_writer" where
  "bw_pad_to k alignment w =
     (let rem = bw_position w mod alignment in if rem \<noteq> 0 then bw_zeros k (alignment - rem) w else w)"

definition bw_begin_crc :: "'s binary_writer \<Rightarrow> 's binary_writer" where
  "bw_begin_crc w = w\<lparr>bw_crc := 0\<rparr>"

subsection \<open>Encoding and decoding are inverse\<close>

lemma bit_le_from:
  "bit (le_from i bs (v :: 'a::len word)) k \<longleftrightarrow>
     bit v k \<or> 8 * i \<le> k \<and> k < 8 * (i + length bs) \<and> k < LENGTH('a) \<and> bit (bs ! (k div 8 - i)) (k mod 8)"
proof (induction bs arbitrary: i v)
  case (Cons b bs)
  let ?R = "8 * Suc i \<le> k \<and> k < 8 * (Suc i + length bs) \<and> k < LENGTH('a) \<and> bit (bs ! (k div 8 - Suc i)) (k mod 8)"
  have "bit (le_from i (b # bs) v) k \<longleftrightarrow> bit v k \<or> (8 * i \<le> k \<and> k < LENGTH('a) \<and> bit b (k - 8 * i)) \<or> ?R"
    unfolding le_from.simps Cons.IH by (auto simp: bit_simps)
  also have "\<dots> \<longleftrightarrow> bit v k \<or> 8 * i \<le> k \<and> k < 8 * (i + length (b # bs)) \<and> k < LENGTH('a) \<and> bit ((b # bs) ! (k div 8 - i)) (k mod 8)"
  proof (cases "8 * i \<le> k \<and> k < 8 * i + 8")
    case True
    then have "k div 8 = i" "k mod 8 = k - 8 * i" by (auto simp: div_nat_eqI modulo_nat_def)
    then show ?thesis using True by auto
  next
    case False
    then have "\<not> bit b (k - 8 * i) \<or> k < 8 * i" using bit_u8 [of b "k - 8 * i"] by auto
    moreover have "8 * Suc i \<le> k \<Longrightarrow> k div 8 - i = Suc (k div 8 - Suc i)" by (simp add: Suc_diff_Suc less_eq_div_iff_mult_less_eq)
    ultimately show ?thesis using False by auto
  qed
  finally show ?case .
qed auto

lemma length_le_bytes [simp]: "length (le_bytes n v) = n"
  by (simp add: le_bytes_def)

lemma bit_le_bytes: "i < n \<Longrightarrow> bit (le_bytes n v ! i) j \<longleftrightarrow> j < 8 \<and> bit v (8 * i + j)"
proof -
  have m: "(0xFF :: 'a word) = mask 8" by (simp add: mask_eq_exp_minus_1)
  assume "i < n"
  then show ?thesis unfolding le_bytes_def m by (auto simp: bit_simps dest: bit_imp_le_length)
qed

lemma le_from_bytes:
  assumes "8 * n = LENGTH('a::len)"
  shows "le_from 0 (le_bytes n v) 0 = (v :: 'a word)"
proof (rule bit_word_eqI)
  fix k assume k: "k < LENGTH('a)"
  then have "k div 8 < n" using assms by (simp add: less_mult_imp_div_less mult.commute)
  then show "bit (le_from 0 (le_bytes n v) 0 :: 'a word) k = bit v k"
    using k assms by (simp add: bit_le_from bit_le_bytes)
qed

lemma le_bytes_from:
  assumes "8 * n = LENGTH('a::len)" "length bs = n"
  shows "le_bytes n (le_from 0 bs (0 :: 'a word)) = bs"
proof (rule nth_equalityI)
  fix i assume "i < length (le_bytes n (le_from 0 bs (0 :: 'a word)))"
  then have i: "i < n" by simp
  show "le_bytes n (le_from 0 bs (0 :: 'a word)) ! i = bs ! i"
  proof (rule bit_word_eqI)
    fix j assume "j < LENGTH(8)"
    then have j: "j < 8" by simp
    then have "8 * i + j < 8 * n" using i by simp
    then show "bit (le_bytes n (le_from 0 bs (0 :: 'a word)) ! i) j = bit (bs ! i) j"
      using i j assms by (simp add: bit_le_bytes bit_le_from)
  qed
qed (simp add: assms)

definition rest :: "byte_reader \<Rightarrow> u8 list" where
  "rest r = drop (br_pos r) (br_data r)"

lemma length_rest [simp]: "length (rest r) = br_remaining r"
  by (simp add: rest_def br_remaining_def)

lemma rest_new [simp]: "rest (new_reader bs) = bs"
  by (simp add: rest_def new_reader_def)

lemma rest_advance: "rest (r\<lparr>br_pos := br_pos r + n\<rparr>) = drop n (rest r)"
  by (simp add: rest_def add.commute)

text \<open>A read succeeds exactly when the unread bytes start with the encoding of the value.\<close>

lemma read_le_iff:
  assumes "8 * n = LENGTH('a::len)"
  shows "read_le n r = Some (v :: 'a word, r') \<longleftrightarrow> (\<exists>bs. rest r = le_bytes n v @ bs) \<and> r' = r\<lparr>br_pos := br_pos r + n\<rparr>"
proof -
  have e: "read_le n r = (if length (rest r) < n then None else Some (le_from 0 (take n (rest r)) 0 :: 'a word, r\<lparr>br_pos := br_pos r + n\<rparr>))"
    by (simp add: read_le_def rest_def br_remaining_def)
  show ?thesis
  proof
    assume "read_le n r = Some (v, r')"
    then have c: "n \<le> length (rest r)" "v = le_from 0 (take n (rest r)) 0" "r' = r\<lparr>br_pos := br_pos r + n\<rparr>"
      by (simp_all add: e split: if_splits del: length_rest)
    have "le_bytes n v = take n (rest r)" unfolding c(2) using c(1) by (intro le_bytes_from [OF assms]) simp
    then have "rest r = le_bytes n v @ drop n (rest r)" by simp
    then show "(\<exists>bs. rest r = le_bytes n v @ bs) \<and> r' = r\<lparr>br_pos := br_pos r + n\<rparr>" using c(3) by blast
  next
    assume "(\<exists>bs. rest r = le_bytes n v @ bs) \<and> r' = r\<lparr>br_pos := br_pos r + n\<rparr>"
    then obtain bs where "rest r = le_bytes n v @ bs" "r' = r\<lparr>br_pos := br_pos r + n\<rparr>" by blast
    then show "read_le n r = Some (v, r')" by (simp add: e le_from_bytes [OF assms] del: length_rest)
  qed
qed

lemma read_iff:
  "read_u8 r = Some (a, r') \<longleftrightarrow> (\<exists>bs. rest r = le_bytes 1 a @ bs) \<and> r' = r\<lparr>br_pos := br_pos r + 1\<rparr>"
  "read_u16 r = Some (b, r') \<longleftrightarrow> (\<exists>bs. rest r = le_bytes 2 b @ bs) \<and> r' = r\<lparr>br_pos := br_pos r + 2\<rparr>"
  "read_u32 r = Some (c, r') \<longleftrightarrow> (\<exists>bs. rest r = le_bytes 4 c @ bs) \<and> r' = r\<lparr>br_pos := br_pos r + 4\<rparr>"
  "read_u64 r = Some (d, r') \<longleftrightarrow> (\<exists>bs. rest r = le_bytes 8 d @ bs) \<and> r' = r\<lparr>br_pos := br_pos r + 8\<rparr>"
  unfolding read_u8_def read_u16_def read_u32_def read_u64_def by (subst read_le_iff; simp)+

lemma read_view_iff:
  "read_view n r = Some (v, r') \<longleftrightarrow> (\<exists>bs. rest r = v @ bs) \<and> length v = n \<and> r' = r\<lparr>br_pos := br_pos r + n\<rparr>"
proof -
  have e: "read_view n r = (if length (rest r) < n then None else Some (take n (rest r), r\<lparr>br_pos := br_pos r + n\<rparr>))"
    by (simp add: read_view_def rest_def br_remaining_def)
  show ?thesis unfolding e by (auto simp del: length_rest intro: append_take_drop_id [symmetric])
qed

subsection \<open>The contract of a sink\<close>

locale sink_contract =
  fixes k :: "'s byte_sink" and contents :: "'s \<Rightarrow> u8 list"
  assumes write_law: "sk_write k s bs = (st, s') \<Longrightarrow> status_ok st \<Longrightarrow> contents s' = contents s @ bs"
    and write_at_law: "sk_write_at k s off bs = (st, s') \<Longrightarrow> status_ok st \<Longrightarrow>
      off + length bs \<le> length (contents s) \<Longrightarrow> contents s' = take off (contents s) @ bs @ drop (off + length bs) (contents s)"
begin

definition appends :: "'s binary_writer \<Rightarrow> u8 list \<Rightarrow> 's binary_writer \<Rightarrow> bool" where
  "appends w bs w' \<longleftrightarrow>
     (status_ok (bw_status w') \<longrightarrow>
        status_ok (bw_status w) \<and> contents (bw_sink w') = contents (bw_sink w) @ bs \<and>
        bw_position w' = bw_position w + length bs \<and> bw_crc w' = crc32c_extend (bw_crc w) bs)"

lemma appends_Nil: "appends w [] w"
  by (simp add: appends_def)

lemma appends_trans: "appends w a w' \<Longrightarrow> appends w' b w'' \<Longrightarrow> appends w (a @ b) w''"
  by (auto simp: appends_def crc32c_extend_append)

lemma bytes_appends: "appends w bs (bw_bytes k bs w)"
  by (auto simp: appends_def bw_bytes_def dest: write_law split: prod.splits if_splits)

lemma zeros_appends: "appends w (replicate n 0) (bw_zeros k n w)"
proof (induction n arbitrary: w rule: less_induct)
  case (less n)
  show ?case
  proof (cases "n > 0 \<and> status_ok (bw_status w)")
    case True
    let ?w = "bw_bytes k (replicate (min n 4096) 0) w"
    have "appends ?w (replicate (n - min n 4096) 0) (bw_zeros k (n - min n 4096) ?w)" using less.IH True by simp
    then have "appends w (replicate (min n 4096) 0 @ replicate (n - min n 4096) 0) (bw_zeros k (n - min n 4096) ?w)"
      by (rule appends_trans [OF bytes_appends])
    then show ?thesis using True by (subst bw_zeros.simps) (simp add: replicate_add [symmetric])
  next
    case False
    then show ?thesis by (subst bw_zeros.simps) (auto simp: appends_def)
  qed
qed

lemma u8_appends: "appends w (le_bytes 1 v) (bw_u8 k v w)" and u16_appends: "appends w (le_bytes 2 v16) (bw_u16 k v16 w)"
  and u32_appends: "appends w (le_bytes 4 v32) (bw_u32 k v32 w)" and u64_appends: "appends w (le_bytes 8 v64) (bw_u64 k v64 w)"
  and array_appends: "appends w (concat (map (le_bytes n) vs)) (bw_array k n vs w)"
  by (simp_all add: bw_u8_def bw_u16_def bw_u32_def bw_u64_def bw_array_def bytes_appends)

lemma pad_appends: "appends w (replicate ((alignment - bw_position w mod alignment) mod alignment) 0) (bw_pad_to k alignment w)"
proof (cases "bw_position w mod alignment = 0")
  case False
  have "(alignment - bw_position w mod alignment) mod alignment = alignment - bw_position w mod alignment"
    using False by (cases "alignment = 0") simp_all
  then show ?thesis using False zeros_appends by (simp add: bw_pad_to_def)
qed (simp add: bw_pad_to_def appends_Nil)

end

interpretation memory: sink_contract memory_sink "\<lambda>m. m"
proof
  show "sk_write memory_sink s bs = (st, s') \<Longrightarrow> status_ok st \<Longrightarrow> s' = s @ bs" for s bs st s'
    by (simp add: memory_sink_def memory_write_def)
  show "s' = take off s @ bs @ drop (off + length bs) s"
    if "sk_write_at memory_sink s off bs = (st, s')" "status_ok st" "off + length bs \<le> length s" for s off bs st s'
    using that by (auto simp: memory_sink_def memory_write_at_def checked_add_def split: option.splits if_splits)
qed

text \<open>The memory sink never fails, so the writer's final contents are the bytes written.\<close>

lemma memory_bytes_ok [simp]: "status_ok (bw_status (bw_bytes memory_sink bs w)) = status_ok (bw_status w)"
  by (simp add: bw_bytes_def memory_sink_def memory_write_def)

lemma memory_bytes_sink: "status_ok (bw_status w) \<Longrightarrow> bw_sink (bw_bytes memory_sink bs w) = bw_sink w @ bs"
  using memory.bytes_appends [of w bs] by (simp add: memory.appends_def)

section \<open>Properties\<close>

text \<open>
  C35. The slice-by-8 checksum is CRC-32C: for every input it equals processing the bytes one bit at
  a time, continuing a checksum is the checksum of the concatenation, and changing any single byte
  of the input changes the result.
\<close>

theorem crc32c_correct:
  "crc32c_extend crc data = NOT (fold (\<lambda>b c. (crc_bit ^^ 8) (c XOR ucast b)) data (NOT crc)) \<and>
   crc32c (data @ suffix) = crc32c_extend (crc32c data) suffix \<and>
   (crc32c (data @ b # suffix) = crc32c (data @ b' # suffix) \<longleftrightarrow> b = b')"
proof (intro conjI)
  show "crc32c_extend crc data = NOT (fold (\<lambda>b c. (crc_bit ^^ 8) (c XOR ucast b)) data (NOT crc))"
    by (simp add: crc32c_extend_fold crc_byte_def crc_shift_def)
  show "crc32c (data @ suffix) = crc32c_extend (crc32c data) suffix" by (simp add: crc32c_def crc32c_extend_append)
  show "crc32c (data @ b # suffix) = crc32c (data @ b' # suffix) \<longleftrightarrow> b = b'"
    by (simp add: crc32c_def crc32c_extend_fold crc_fold_inj crc_byte_inj2)
qed

text \<open>
  Integers round-trip through the writer and the reader at every width, and a read beyond the
  end fails without moving the reader.
\<close>

lemma integers_round_trip:
  "(\<exists>r1 r2 r3. read_u64 (new_reader (bw_sink (bw_u32 memory_sink c (bw_u16 memory_sink b (bw_u64 memory_sink d (new_writer [])))))) = Some (d, r1) \<and>
      read_u16 r1 = Some (b, r2) \<and> read_u32 r2 = Some (c, r3) \<and> br_remaining r3 = 0 \<and> read_u8 r3 = None) \<and>
   (br_remaining r < n \<longrightarrow> read_view n r = None)"
proof -
  define bs where "bs = le_bytes 8 d @ le_bytes 2 b @ le_bytes 4 c"
  have w: "bw_sink (bw_u32 memory_sink c (bw_u16 memory_sink b (bw_u64 memory_sink d (new_writer [])))) = bs"
    by (simp add: bw_u32_def bw_u16_def bw_u64_def memory_bytes_sink new_writer_def bs_def)
  define r1 r2 r3 where "r1 = (new_reader bs)\<lparr>br_pos := 0 + 8\<rparr>" and "r2 = r1\<lparr>br_pos := br_pos r1 + 2\<rparr>" and "r3 = r2\<lparr>br_pos := br_pos r2 + 4\<rparr>"
  have p: "rest (new_reader bs) = le_bytes 8 d @ le_bytes 2 b @ le_bytes 4 c" "rest r1 = le_bytes 2 b @ le_bytes 4 c" "rest r2 = le_bytes 4 c" "rest r3 = []"
    by (simp_all add: rest_def new_reader_def r1_def r2_def r3_def bs_def)
  have "read_u64 (new_reader bs) = Some (d, r1)" "read_u16 r1 = Some (b, r2)" "read_u32 r2 = Some (c, r3)"
    unfolding read_iff p by (simp_all add: r1_def r2_def r3_def new_reader_def)
  moreover have z: "br_remaining r3 = 0" using arg_cong [OF p(4), of length] by simp
  moreover have "read_u8 r3 = None" using z by (simp add: read_u8_def read_le_def)
  ultimately show ?thesis unfolding w by (auto simp: read_view_def)
qed

end
