(* ===== verification/VF_Format.thy ===== *)
theory VF_Format
  imports VF_Bytes "HOL-Library.Monad_Syntax"
begin

text \<open>
  The fixed records of the index file (\<^verbatim>\<open>src/storage/format.hpp\<close>, \<^verbatim>\<open>format.cpp\<close>): the 64-byte header, the
  entries of the section table and the metadata section. Header and table entries round-trip; the metadata
  decoder accepts exactly the encodings of metadata with a creator string of at most 256 bytes.
\<close>

unbundle bit_operations_syntax

subsection \<open>Constants\<close>

definition kMagic :: "u8 list" where "kMagic = [0x56, 0x46, 0x49, 0x44, 0x58, 0x0D, 0x0A, 0x1A]"
definition kFormatMajor :: u16 where "kFormatMajor = 1"
definition kFormatMinor :: u16 where "kFormatMinor = 0"
definition kEndianTag :: u32 where "kEndianTag = 0x01020304"
definition kEndianTagSwapped :: u32 where "kEndianTagSwapped = 0x04030201"
definition kHeaderSize :: nat where "kHeaderSize = 64"
definition kHeaderCrcCoverage :: nat where "kHeaderCrcCoverage = 56"
definition kSectionEntrySize :: nat where "kSectionEntrySize = 32"
definition kMaxSections :: u32 where "kMaxSections = 64"
definition kSectionAlignment :: nat where "kSectionAlignment = 8"
definition kVectorAlignment :: nat where "kVectorAlignment = 4096"
definition kMaxCreatorLength :: nat where "kMaxCreatorLength = 256"
definition kEmptySlot :: u32 where "kEmptySlot = 0xFFFFFFFF"
definition kNoUpperBlock :: u64 where "kNoUpperBlock = NOT 0"
definition kFlagHasGraph :: u64 where "kFlagHasGraph = push_bit 0 1"
definition kFlagHasTombstones :: u64 where "kFlagHasTombstones = push_bit 1 1"
definition kFlagVectorsNormalized :: u64 where "kFlagVectorsNormalized = push_bit 2 1"
definition kKnownFlags :: u64 where "kKnownFlags = kFlagHasGraph OR kFlagHasTombstones OR kFlagVectorsNormalized"
definition kSectionOptional :: u32 where "kSectionOptional = push_bit 0 1"
definition kMaxKnownSectionType :: u32 where "kMaxKnownSectionType = 8"

datatype section_type = Metadata | Vectors | Labels | Tombstones | Levels | L0Links | UpperIndex | UpperLinks

fun section_code :: "section_type \<Rightarrow> u32" where
  "section_code Metadata = 1"
| "section_code Vectors = 2"
| "section_code Labels = 3"
| "section_code Tombstones = 4"
| "section_code Levels = 5"
| "section_code L0Links = 6"
| "section_code UpperIndex = 7"
| "section_code UpperLinks = 8"

fun section_to_string :: "section_type \<Rightarrow> string" where
  "section_to_string Metadata = ''METADATA''"
| "section_to_string Vectors = ''VECTORS''"
| "section_to_string Labels = ''LABELS''"
| "section_to_string Tombstones = ''TOMBSTONES''"
| "section_to_string Levels = ''LEVELS''"
| "section_to_string L0Links = ''L0_LINKS''"
| "section_to_string UpperIndex = ''UPPER_INDEX''"
| "section_to_string UpperLinks = ''UPPER_LINKS''"

subsection \<open>The header\<close>

record file_header =
  fh_format_major :: u16
  fh_format_minor :: u16
  fh_flags :: u64
  fh_file_size :: u64
  fh_section_table_offset :: u64
  fh_section_count :: u32
  fh_section_table_crc32c :: u32
  fh_header_crc32c :: u32

definition put_le :: "nat \<Rightarrow> u64 \<Rightarrow> nat \<Rightarrow> u8 list \<Rightarrow> u8 list" where
  "put_le offset v width out = fold (\<lambda>i o'. o'[offset + i := ucast (drop_bit (8 * i) v AND 0xFF)]) [0..<width] out"

definition get_le :: "u8 list \<Rightarrow> nat \<Rightarrow> nat \<Rightarrow> u64" where
  "get_le inp offset width = le_from 0 (map (\<lambda>i. inp ! (offset + i)) [0..<width]) 0"

definition encode_header :: "file_header \<Rightarrow> u8 list" where
  "encode_header h =
     (let out0 = kMagic @ replicate (kHeaderSize - length kMagic) 0;
          out = put_le 44 (ucast (fh_section_table_crc32c h)) 4
                  (put_le 40 (ucast (fh_section_count h)) 4
                  (put_le 32 (fh_section_table_offset h) 8
                  (put_le 24 (fh_file_size h) 8
                  (put_le 16 (fh_flags h) 8
                  (put_le 12 (ucast kEndianTag) 4
                  (put_le 10 (ucast (fh_format_minor h)) 2
                  (put_le 8 (ucast (fh_format_major h)) 2 out0)))))))
      in put_le 56 (ucast (crc32c (take kHeaderCrcCoverage out))) 4 out)"

definition decode_header :: "u8 list \<Rightarrow> file_header" where
  "decode_header bytes =
     \<lparr>fh_format_major = ucast (get_le bytes 8 2), fh_format_minor = ucast (get_le bytes 10 2),
      fh_flags = get_le bytes 16 8, fh_file_size = get_le bytes 24 8, fh_section_table_offset = get_le bytes 32 8,
      fh_section_count = ucast (get_le bytes 40 4), fh_section_table_crc32c = ucast (get_le bytes 44 4),
      fh_header_crc32c = ucast (get_le bytes 56 4)\<rparr>"

definition header_reserved_zero :: "u8 list \<Rightarrow> bool" where
  "header_reserved_zero bytes \<longleftrightarrow> get_le bytes 48 8 = 0 \<and> get_le bytes 60 4 = 0"

subsection \<open>The section table\<close>

record section_entry =
  se_type :: u32
  se_flags :: u32
  se_offset :: u64
  se_size :: u64
  se_crc32c :: u32

definition encode_section_entry :: "'s byte_sink \<Rightarrow> section_entry \<Rightarrow> 's binary_writer \<Rightarrow> 's binary_writer" where
  "encode_section_entry k e w =
     bw_u32 k 0 (bw_u32 k (se_crc32c e) (bw_u64 k (se_size e) (bw_u64 k (se_offset e) (bw_u32 k (se_flags e) (bw_u32 k (se_type e) w)))))"

text \<open>The entry, whether its reserved field is zero, and the reader after it.\<close>

definition decode_section_entry :: "byte_reader \<Rightarrow> (section_entry \<times> bool \<times> byte_reader) option" where
  "decode_section_entry r0 = do {
     (ty, r1) \<leftarrow> read_u32 r0;
     (fl, r2) \<leftarrow> read_u32 r1;
     (off, r3) \<leftarrow> read_u64 r2;
     (sz, r4) \<leftarrow> read_u64 r3;
     (cr, r5) \<leftarrow> read_u32 r4;
     (reserved, r6) \<leftarrow> read_u32 r5;
     Some (\<lparr>se_type = ty, se_flags = fl, se_offset = off, se_size = sz, se_crc32c = cr\<rparr>, reserved = 0, r6)
   }"

subsection \<open>Metadata\<close>

record metadata =
  md_dim :: u32
  md_metric :: u8
  md_index_type :: u8
  md_normalize :: u8
  md_node_count :: u64
  md_live_count :: u64
  md_m :: u32
  md_m0 :: u32
  md_ef_construction :: u32
  md_ef_search :: u32
  md_max_level_cap :: u8
  md_max_level :: u8
  md_entry_point :: u32
  md_seed :: u64
  md_creator :: "u8 list"
  md_created_unix_ms :: u64

definition metadata_size :: "metadata \<Rightarrow> nat" where
  "metadata_size m = 64 + 2 + length (md_creator m) + 8"

definition encode_metadata :: "'s byte_sink \<Rightarrow> metadata \<Rightarrow> 's binary_writer \<Rightarrow> 's binary_writer" where
  "encode_metadata k m w =
     bw_u64 k (md_created_unix_ms m) (bw_bytes k (md_creator m) (bw_u16 k (word_of_nat (length (md_creator m)))
     (bw_u64 k 0 (bw_u64 k (md_seed m) (bw_u32 k (md_entry_point m) (bw_u16 k 0 (bw_u8 k (md_max_level m)
     (bw_u8 k (md_max_level_cap m) (bw_u32 k (md_ef_search m) (bw_u32 k (md_ef_construction m) (bw_u32 k (md_m0 m)
     (bw_u32 k (md_m m) (bw_u64 k (md_live_count m) (bw_u64 k (md_node_count m) (bw_u8 k 0 (bw_u8 k (md_normalize m)
     (bw_u8 k (md_index_type m) (bw_u8 k (md_metric m) (bw_u32 k (md_dim m) w)))))))))))))))))))"

text \<open>The fixed part: the fields, the padding and reserved values, and the length of the creator string.\<close>

definition read_fixed :: "byte_reader \<Rightarrow> (metadata \<times> u8 \<times> u16 \<times> u64 \<times> u16 \<times> byte_reader) option" where
  "read_fixed r0 = do {
     (d, r1) \<leftarrow> read_u32 r0;
     (me, r2) \<leftarrow> read_u8 r1;
     (ix, r3) \<leftarrow> read_u8 r2;
     (no, r4) \<leftarrow> read_u8 r3;
     (pad8, r5) \<leftarrow> read_u8 r4;
     (nc, r6) \<leftarrow> read_u64 r5;
     (lc, r7) \<leftarrow> read_u64 r6;
     (m, r8) \<leftarrow> read_u32 r7;
     (m0, r9) \<leftarrow> read_u32 r8;
     (ec, r10) \<leftarrow> read_u32 r9;
     (es, r11) \<leftarrow> read_u32 r10;
     (cap, r12) \<leftarrow> read_u8 r11;
     (ml, r13) \<leftarrow> read_u8 r12;
     (pad16, r14) \<leftarrow> read_u16 r13;
     (ep, r15) \<leftarrow> read_u32 r14;
     (sd, r16) \<leftarrow> read_u64 r15;
     (reserved, r17) \<leftarrow> read_u64 r16;
     (creator_len, r18) \<leftarrow> read_u16 r17;
     Some (\<lparr>md_dim = d, md_metric = me, md_index_type = ix, md_normalize = no, md_node_count = nc, md_live_count = lc, md_m = m,
            md_m0 = m0, md_ef_construction = ec, md_ef_search = es, md_max_level_cap = cap, md_max_level = ml,
            md_entry_point = ep, md_seed = sd, md_creator = [], md_created_unix_ms = 0\<rparr>,
           pad8, pad16, reserved, creator_len, r18)
   }"

definition decode_metadata :: "u8 list \<Rightarrow> metadata result" where
  "decode_metadata bytes =
     (case read_fixed (new_reader bytes) of
        None \<Rightarrow> Inl (corrupt_data ''METADATA: truncated'')
      | Some (m, pad8, pad16, reserved, creator_len, r) \<Rightarrow>
          if pad8 \<noteq> 0 \<or> pad16 \<noteq> 0 \<or> reserved \<noteq> 0 then Inl (corrupt_data ''METADATA: non-zero padding or reserved field'')
          else if unat creator_len > kMaxCreatorLength
          then Inl (corrupt_data (''METADATA: creator string longer than '' @ show_nat kMaxCreatorLength @ '' bytes''))
          else (case read_view (unat creator_len) r of
                  None \<Rightarrow> Inl (corrupt_data ''METADATA: truncated'')
                | Some (creator, r1) \<Rightarrow>
                    (case read_u64 r1 of
                       None \<Rightarrow> Inl (corrupt_data ''METADATA: truncated'')
                     | Some (created, r2) \<Rightarrow>
                         if br_remaining r2 \<noteq> 0
                         then Inl (corrupt_data (''METADATA: '' @ show_nat (br_remaining r2) @ '' trailing bytes''))
                         else Inr (m\<lparr>md_creator := creator, md_created_unix_ms := created\<rparr>))))"

definition align_up :: "nat \<Rightarrow> nat \<Rightarrow> nat option" where
  "align_up v alignment =
     (let mask' = alignment - 1
      in if v > (2 ^ 64 - 1) - mask' then None
         else Some (unat ((word_of_nat (v + mask') :: u64) AND NOT (word_of_nat mask'))))"

subsection \<open>The header round-trips\<close>

lemma put_le_eq:
  "offset + width \<le> length out \<Longrightarrow> put_le offset v width out = take offset out @ le_bytes width v @ drop (offset + width) out"
proof (induction width)
  case (Suc width)
  let ?b = "ucast (drop_bit (8 * width) v AND 0xFF) :: u8"
  have "put_le offset v (Suc width) out = (take offset out @ le_bytes width v @ drop (offset + width) out)[offset + width := ?b]"
    using Suc by (simp add: put_le_def)
  also have "\<dots> = take offset out @ (le_bytes width v @ [?b]) @ drop (Suc (offset + width)) out"
    using Suc.prems by (simp add: list_update_append drop_update_swap Cons_nth_drop_Suc [symmetric])
  finally show ?case by (simp add: le_bytes_def)
qed (simp add: put_le_def le_bytes_def)

lemma get_le_eq: "offset + width \<le> length inp \<Longrightarrow> get_le inp offset width = le_from 0 (take width (drop offset inp)) 0"
  unfolding get_le_def by (rule arg_cong [of _ _ "\<lambda>xs. le_from 0 xs 0"]) (auto intro: nth_equalityI)

lemma le_bytes_ucast:
  assumes "8 * n \<le> LENGTH('a::len)" "LENGTH('a) \<le> LENGTH('b::len)"
  shows "le_bytes n (ucast (v :: 'a word) :: 'b word) = le_bytes n v"
proof (rule nth_equalityI)
  fix i assume "i < length (le_bytes n (ucast v :: 'b word))"
  then have i: "i < n" by simp
  show "le_bytes n (ucast v :: 'b word) ! i = le_bytes n v ! i"
  proof (rule bit_word_eqI)
    fix j assume "j < LENGTH(8)"
    then have "8 * i + j < 8 * n" using i by simp
    then show "bit (le_bytes n (ucast v :: 'b word) ! i) j = bit (le_bytes n v ! i) j"
      using i assms by (simp add: bit_le_bytes bit_simps)
  qed
qed simp

lemma le_from_ucast:
  assumes "8 * n = LENGTH('a::len)" "LENGTH('a) \<le> LENGTH('b::len)"
  shows "ucast (le_from 0 (le_bytes n v) 0 :: 'b word) = (v :: 'a word)"
proof (rule bit_word_eqI)
  fix k assume k: "k < LENGTH('a)"
  then have "k div 8 < n" using assms by (simp add: less_mult_imp_div_less mult.commute)
  then show "bit (ucast (le_from 0 (le_bytes n v) 0 :: 'b word) :: 'a word) k = bit v k"
    using k assms by (simp add: bit_le_from bit_le_bytes bit_simps)
qed

definition header_prefix :: "file_header \<Rightarrow> u8 list" where
  "header_prefix h =
     kMagic @ le_bytes 2 (fh_format_major h) @ le_bytes 2 (fh_format_minor h) @ le_bytes 4 kEndianTag @ le_bytes 8 (fh_flags h) @
     le_bytes 8 (fh_file_size h) @ le_bytes 8 (fh_section_table_offset h) @ le_bytes 4 (fh_section_count h) @
     le_bytes 4 (fh_section_table_crc32c h) @ replicate 8 0"

lemma length_magic [simp]: "length kMagic = 8"
  by (simp add: kMagic_def)

lemma length_header_prefix [simp]: "length (header_prefix h) = 56"
  by (simp add: header_prefix_def)

lemma encode_header_eq: "encode_header h = header_prefix h @ le_bytes 4 (crc32c (header_prefix h)) @ replicate 4 0"
proof -
  define out where "out = put_le 44 (ucast (fh_section_table_crc32c h)) 4
    (put_le 40 (ucast (fh_section_count h)) 4 (put_le 32 (fh_section_table_offset h) 8 (put_le 24 (fh_file_size h) 8
    (put_le 16 (fh_flags h) 8 (put_le 12 (ucast kEndianTag) 4 (put_le 10 (ucast (fh_format_minor h)) 2
    (put_le 8 (ucast (fh_format_major h)) 2 (kMagic @ replicate (kHeaderSize - length kMagic) 0))))))))"
  have out: "out = header_prefix h @ replicate 8 0"
    unfolding out_def header_prefix_def by (simp add: put_le_eq kHeaderSize_def le_bytes_ucast replicate_add [symmetric])
  show ?thesis
    unfolding encode_header_def Let_def out_def [symmetric] out by (simp add: put_le_eq kHeaderCrcCoverage_def le_bytes_ucast)
qed

lemma le_from_zeros: "le_from i (replicate n 0) 0 = 0"
proof -
  have "le_from i (replicate n 0) v = v" for v :: "'a::len word" and i by (induction n arbitrary: i) simp_all
  then show ?thesis .
qed

lemma decode_encode_header:
  "decode_header (encode_header h) = h\<lparr>fh_header_crc32c := crc32c (take kHeaderCrcCoverage (encode_header h))\<rparr>"
  "header_reserved_zero (encode_header h)" "length (encode_header h) = kHeaderSize" "take 8 (encode_header h) = kMagic"
proof -
  let ?e = "encode_header h"
  show len: "length ?e = kHeaderSize" by (simp add: encode_header_eq kHeaderSize_def)
  show "take 8 ?e = kMagic" by (simp add: encode_header_eq header_prefix_def)
  have t: "take kHeaderCrcCoverage ?e = header_prefix h" by (simp add: encode_header_eq kHeaderCrcCoverage_def)
  have g: "get_le ?e o' w = le_from 0 (take w (drop o' ?e)) 0" if "o' + w \<le> 64" for o' w
    using that len by (intro get_le_eq) (simp add: kHeaderSize_def)
  have parts: "take 2 (drop 8 ?e) = le_bytes 2 (fh_format_major h)" "take 2 (drop 10 ?e) = le_bytes 2 (fh_format_minor h)"
    "take 8 (drop 16 ?e) = le_bytes 8 (fh_flags h)" "take 8 (drop 24 ?e) = le_bytes 8 (fh_file_size h)"
    "take 8 (drop 32 ?e) = le_bytes 8 (fh_section_table_offset h)" "take 4 (drop 40 ?e) = le_bytes 4 (fh_section_count h)"
    "take 4 (drop 44 ?e) = le_bytes 4 (fh_section_table_crc32c h)" "take 8 (drop 48 ?e) = replicate 8 0"
    "take 4 (drop 56 ?e) = le_bytes 4 (crc32c (header_prefix h))" "take 4 (drop 60 ?e) = replicate 4 0"
    unfolding encode_header_eq by (simp_all add: header_prefix_def)
  show "header_reserved_zero ?e" unfolding header_reserved_zero_def by (simp add: g parts le_from_zeros)
  show "decode_header ?e = h\<lparr>fh_header_crc32c := crc32c (take kHeaderCrcCoverage ?e)\<rparr>"
    unfolding decode_header_def t by (simp add: g parts le_from_ucast le_from_bytes)
qed

subsection \<open>Table entries round-trip\<close>

definition section_entry_bytes :: "section_entry \<Rightarrow> u8 list" where
  "section_entry_bytes e =
     le_bytes 4 (se_type e) @ le_bytes 4 (se_flags e) @ le_bytes 8 (se_offset e) @ le_bytes 8 (se_size e) @ le_bytes 4 (se_crc32c e) @
     le_bytes 4 (0 :: u32)"

context sink_contract
begin

lemma section_entry_appends: "appends w (section_entry_bytes e) (encode_section_entry k e w)"
  unfolding encode_section_entry_def section_entry_bytes_def append_assoc [symmetric]
  by (intro appends_trans [OF _ u32_appends] appends_trans [OF _ u64_appends] u32_appends)

end

lemma read_rest:
  "read_u8 r = Some (a, r') \<Longrightarrow> rest r = le_bytes 1 a @ rest r'" "read_u16 r = Some (b, r') \<Longrightarrow> rest r = le_bytes 2 b @ rest r'"
  "read_u32 r = Some (c, r') \<Longrightarrow> rest r = le_bytes 4 c @ rest r'" "read_u64 r = Some (d, r') \<Longrightarrow> rest r = le_bytes 8 d @ rest r'"
  "read_view n r = Some (v, r') \<Longrightarrow> rest r = v @ rest r' \<and> length v = n"
  using rest_advance [of r 1] rest_advance [of r 2] unfolding read_iff read_view_iff by (auto simp: rest_advance)

lemma read_bytes:
  "rest r = le_bytes 1 a @ bs \<Longrightarrow> \<exists>r'. read_u8 r = Some (a, r') \<and> rest r' = bs"
  "rest r = le_bytes 2 b @ bs \<Longrightarrow> \<exists>r'. read_u16 r = Some (b, r') \<and> rest r' = bs"
  "rest r = le_bytes 4 c @ bs \<Longrightarrow> \<exists>r'. read_u32 r = Some (c, r') \<and> rest r' = bs"
  "rest r = le_bytes 8 d @ bs \<Longrightarrow> \<exists>r'. read_u64 r = Some (d, r') \<and> rest r' = bs"
  "rest r = v @ bs \<Longrightarrow> \<exists>r'. read_view (length v) r = Some (v, r') \<and> rest r' = bs"
  using rest_advance [of r 1] rest_advance [of r 2] unfolding read_iff read_view_iff by (simp_all add: rest_advance)

text \<open>Reading a value whose encoding comes next, in continuation style.\<close>

lemma read_parse:
  "rest r = le_bytes 1 a @ bs \<Longrightarrow> (\<And>r'. rest r' = bs \<Longrightarrow> P (f a r')) \<Longrightarrow> P (Option.bind (read_u8 r) (case_prod f))"
  "rest r = le_bytes 2 b @ bs \<Longrightarrow> (\<And>r'. rest r' = bs \<Longrightarrow> P (g b r')) \<Longrightarrow> P (Option.bind (read_u16 r) (case_prod g))"
  "rest r = le_bytes 4 c @ bs \<Longrightarrow> (\<And>r'. rest r' = bs \<Longrightarrow> P (h c r')) \<Longrightarrow> P (Option.bind (read_u32 r) (case_prod h))"
  "rest r = le_bytes 8 d @ bs \<Longrightarrow> (\<And>r'. rest r' = bs \<Longrightarrow> P (i d r')) \<Longrightarrow> P (Option.bind (read_u64 r) (case_prod i))"
  using read_bytes(1) [of r a bs] read_bytes(2) [of r b bs] read_bytes(3) [of r c bs] read_bytes(4) [of r d bs] by fastforce+

lemma decode_section_entry_ok:
  assumes "rest r = section_entry_bytes e @ bs"
  shows "\<exists>r'. decode_section_entry r = Some (e, True, r') \<and> rest r' = bs"
  using assms unfolding decode_section_entry_def section_entry_bytes_def append_assoc
  by (elim read_parse) simp

lemma decode_section_entry_rest:
  assumes "decode_section_entry r = Some (e, True, r')"
  shows "rest r = section_entry_bytes e @ rest r'"
  using assms by (auto simp: decode_section_entry_def section_entry_bytes_def bind_eq_Some_conv dest!: read_rest)

subsection \<open>Metadata\<close>

definition fixed_bytes :: "metadata \<Rightarrow> u8 \<Rightarrow> u16 \<Rightarrow> u64 \<Rightarrow> u16 \<Rightarrow> u8 list" where
  "fixed_bytes m pad8 pad16 reserved creator_len =
     le_bytes 4 (md_dim m) @ le_bytes 1 (md_metric m) @ le_bytes 1 (md_index_type m) @ le_bytes 1 (md_normalize m) @ le_bytes 1 pad8 @
     le_bytes 8 (md_node_count m) @ le_bytes 8 (md_live_count m) @ le_bytes 4 (md_m m) @ le_bytes 4 (md_m0 m) @
     le_bytes 4 (md_ef_construction m) @ le_bytes 4 (md_ef_search m) @ le_bytes 1 (md_max_level_cap m) @ le_bytes 1 (md_max_level m) @
     le_bytes 2 pad16 @ le_bytes 4 (md_entry_point m) @ le_bytes 8 (md_seed m) @ le_bytes 8 reserved @ le_bytes 2 creator_len"

definition metadata_bytes :: "metadata \<Rightarrow> u8 list" where
  "metadata_bytes m =
     fixed_bytes m 0 0 0 (word_of_nat (length (md_creator m))) @ md_creator m @ le_bytes 8 (md_created_unix_ms m)"

lemma length_metadata_bytes: "length (metadata_bytes m) = metadata_size m"
  by (simp add: metadata_bytes_def fixed_bytes_def metadata_size_def)

lemma read_fixed_ok:
  assumes "rest r = fixed_bytes m pad8 pad16 reserved creator_len @ bs"
  shows "\<exists>r'. read_fixed r = Some (m\<lparr>md_creator := [], md_created_unix_ms := 0\<rparr>, pad8, pad16, reserved, creator_len, r') \<and> rest r' = bs"
  using assms unfolding read_fixed_def fixed_bytes_def append_assoc
  by (elim read_parse) simp

lemma read_fixed_rest:
  assumes "read_fixed r = Some (m, pad8, pad16, reserved, creator_len, r')"
  shows "rest r = fixed_bytes m pad8 pad16 reserved creator_len @ rest r'"
  using assms by (auto simp: read_fixed_def fixed_bytes_def bind_eq_Some_conv dest!: read_rest)

context sink_contract
begin

lemma metadata_appends: "appends w (metadata_bytes m) (encode_metadata k m w)"
  unfolding encode_metadata_def metadata_bytes_def fixed_bytes_def append_assoc [symmetric]
  by (intro appends_trans [OF _ u8_appends] appends_trans [OF _ u16_appends] appends_trans [OF _ u32_appends]
      appends_trans [OF _ u64_appends] appends_trans [OF _ bytes_appends] u32_appends)

end

lemma decode_metadata_iff:
  "decode_metadata bs = Inr m \<longleftrightarrow> bs = metadata_bytes m \<and> length (md_creator m) \<le> kMaxCreatorLength"
proof
  assume "decode_metadata bs = Inr m"
  then obtain m0 cl r creator r1 created r2 where
    f: "read_fixed (new_reader bs) = Some (m0, 0, 0, 0, cl, r)" "unat cl \<le> kMaxCreatorLength" "read_view (unat cl) r = Some (creator, r1)"
    "read_u64 r1 = Some (created, r2)" "br_remaining r2 = 0" "m = m0\<lparr>md_creator := creator, md_created_unix_ms := created\<rparr>"
    by (auto simp: decode_metadata_def split: option.splits prod.splits if_splits)
  have v: "rest r = creator @ rest r1" "length creator = unat cl" using read_rest(5) [OF f(3)] by simp_all
  have "rest r2 = []" using f(5) by (simp flip: length_rest)
  then have "bs = fixed_bytes m0 0 0 0 cl @ creator @ le_bytes 8 created"
    using read_fixed_rest [OF f(1)] v(1) read_rest(4) [OF f(4)] by simp
  moreover have "word_of_nat (length creator) = cl" using v(2) by simp
  moreover have "fixed_bytes m 0 0 0 cl = fixed_bytes m0 0 0 0 cl" by (simp add: fixed_bytes_def f(6))
  ultimately show "bs = metadata_bytes m \<and> length (md_creator m) \<le> kMaxCreatorLength"
    using f(2,6) v(2) by (simp add: metadata_bytes_def)
next
  assume a: "bs = metadata_bytes m \<and> length (md_creator m) \<le> kMaxCreatorLength"
  define cl where "cl = (word_of_nat (length (md_creator m)) :: u16)"
  have len: "unat cl = length (md_creator m)" using a by (simp add: cl_def unat_of_nat kMaxCreatorLength_def take_bit_nat_eq_self)
  have "rest (new_reader bs) = fixed_bytes m 0 0 0 cl @ md_creator m @ le_bytes 8 (md_created_unix_ms m)"
    using a by (simp add: metadata_bytes_def cl_def)
  from read_fixed_ok [OF this] obtain r where
    r: "read_fixed (new_reader bs) = Some (m\<lparr>md_creator := [], md_created_unix_ms := 0\<rparr>, 0, 0, 0, cl, r)"
    "rest r = md_creator m @ le_bytes 8 (md_created_unix_ms m)" by blast
  obtain r1 where r1: "read_view (length (md_creator m)) r = Some (md_creator m, r1)" "rest r1 = le_bytes 8 (md_created_unix_ms m) @ []"
    using read_bytes(5) [OF r(2)] by auto
  obtain r2 where r2: "read_u64 r1 = Some (md_created_unix_ms m, r2)" "rest r2 = []" using read_bytes(4) [OF r1(2)] by blast
  have "br_remaining r2 = 0" using arg_cong [OF r2(2), of length] by simp
  then show "decode_metadata bs = Inr m" using r(1) r1(1) r2(1) len a by (simp add: decode_metadata_def)
qed

lemmas memory_writes = bw_u8_def bw_u16_def bw_u32_def bw_u64_def bw_array_def

lemma memory_metadata: "bw_sink (encode_metadata memory_sink m (new_writer [])) = metadata_bytes m"
proof -
  have "status_ok (bw_status (encode_metadata memory_sink m (new_writer [])))"
    by (simp add: encode_metadata_def memory_writes new_writer_def)
  then show ?thesis using memory.metadata_appends [of "new_writer []" m] by (simp add: memory.appends_def new_writer_def)
qed

lemma memory_section_entry: "bw_sink (encode_section_entry memory_sink e (new_writer [])) = section_entry_bytes e"
proof -
  have "status_ok (bw_status (encode_section_entry memory_sink e (new_writer [])))"
    by (simp add: encode_section_entry_def memory_writes new_writer_def)
  then show ?thesis using memory.section_entry_appends [of "new_writer []" e] by (simp add: memory.appends_def new_writer_def)
qed

lemma align_up_power:
  assumes "v < 2 ^ 64" "k < 64"
  shows "align_up v (2 ^ k) = (if v + (2 ^ k - 1) < 2 ^ 64 then Some ((v + (2 ^ k - 1)) div 2 ^ k * 2 ^ k) else None)"
proof -
  have k: "(2::nat) ^ k < 2 ^ 64" using assms(2) by (intro power_strict_increasing) simp_all
  have "(v > (2 ^ 64 - 1) - (2 ^ k - 1)) = (\<not> v + (2 ^ k - 1) < 2 ^ 64)" using k by linarith
  moreover have "unat ((word_of_nat n :: u64) AND NOT (word_of_nat (2 ^ k - 1))) = n div 2 ^ k * 2 ^ k" if n: "n < 2 ^ 64" for n
  proof -
    have m: "(word_of_nat (2 ^ k - 1) :: u64) = mask k" by (simp add: mask_eq_exp_minus_1 of_nat_diff)
    have "(word_of_nat n :: u64) AND NOT (mask k) = push_bit k (drop_bit k (word_of_nat n))"
      by (rule bit_word_eqI) (auto simp: bit_simps)
    moreover have "unat (push_bit k (drop_bit k (word_of_nat n :: u64))) = n div 2 ^ k * 2 ^ k"
    proof -
      have u: "unat (word_of_nat n :: u64) = n" using n by (simp add: unat_of_nat take_bit_nat_eq_self)
      have d: "unat (drop_bit k (word_of_nat n :: u64)) = n div 2 ^ k" 
        unfolding unsigned_drop_bit_eq u using n by (simp add: take_bit_nat_eq_self flip: drop_bit_eq_div)
      have "n div 2 ^ k * 2 ^ k < 2 ^ 64" using n by (metis div_times_less_eq_dividend le_less_trans)
      then have "take_bit 64 (push_bit k (n div 2 ^ k)) = n div 2 ^ k * 2 ^ k" unfolding push_bit_eq_mult by (rule take_bit_nat_eq_self)
      then show ?thesis unfolding unsigned_push_bit_eq d by simp
    qed
    ultimately show ?thesis unfolding m by simp
  qed
  ultimately show ?thesis by (simp add: align_up_def Let_def)
qed

section \<open>Properties\<close>

text \<open>
  The file header round-trips: decoding an encoded header gives back every field with the
  checksum of its first 56 bytes filled in, it is 64 bytes long, starts with the magic and has zero
  reserved fields. Table entries round-trip likewise, and an entry that decodes with a zero reserved
  field is the encoding of what was decoded.
\<close>

lemma header_round_trip:
  "decode_header (encode_header h) = h\<lparr>fh_header_crc32c := crc32c (take kHeaderCrcCoverage (encode_header h))\<rparr> \<and>
   length (encode_header h) = kHeaderSize \<and> take 8 (encode_header h) = kMagic \<and> header_reserved_zero (encode_header h) \<and>
   (\<exists>r. decode_section_entry (new_reader (bw_sink (encode_section_entry memory_sink e (new_writer [])) @ bs)) = Some (e, True, r) \<and>
      rest r = bs)"
  using decode_encode_header [of h] decode_section_entry_ok [of "new_reader (section_entry_bytes e @ bs)" e bs]
  by (simp add: memory_section_entry)

text \<open>
  C36. The metadata section is canonical: a byte string is accepted with result \<open>m\<close> if and only if it
  is exactly what \<open>encode_metadata\<close> writes for \<open>m\<close> and the creator string is at most 256 bytes long. So
  truncated input, trailing bytes and non-zero padding are all rejected, and nothing else is.
\<close>

theorem metadata_canonical:
  "decode_metadata bs = Inr m \<longleftrightarrow>
     bs = bw_sink (encode_metadata memory_sink m (new_writer [])) \<and> length (md_creator m) \<le> kMaxCreatorLength"
  by (simp add: memory_metadata decode_metadata_iff)

text \<open>
  \<open>align_up\<close> to a power of two reports overflow exactly when the least multiple at or above the
  value does not fit 64 bits, and returns that multiple otherwise.
\<close>

lemma align_up_least:
  assumes "v < 2 ^ 64" "k < 64"
  shows "case align_up v (2 ^ k) of
      None \<Rightarrow> \<not> (\<exists>a < 2 ^ 64. v \<le> a \<and> 2 ^ k dvd a)
    | Some a \<Rightarrow> a < 2 ^ 64 \<and> v \<le> a \<and> 2 ^ k dvd a \<and> (\<forall>a'. v \<le> a' \<and> 2 ^ k dvd a' \<longrightarrow> a \<le> a')"
proof -
  let ?a = "(v + (2 ^ k - 1)) div 2 ^ k * 2 ^ k"
  have le: "v \<le> ?a"
  proof -
    have "?a + (v + (2 ^ k - 1)) mod 2 ^ k = v + (2 ^ k - 1)" by (rule div_mult_mod_eq)
    moreover have "(v + (2 ^ k - 1)) mod 2 ^ k < 2 ^ k" by (rule mod_less_divisor) simp
    ultimately show ?thesis by linarith
  qed
  have least: "?a \<le> a'" if va: "v \<le> a'" and dv: "2 ^ k dvd a'" for a'
  proof -
    obtain c where c: "a' = 2 ^ k * c" using dv by auto
    have "(v + (2 ^ k - 1)) div 2 ^ k \<le> (a' + (2 ^ k - 1)) div 2 ^ k" using va by (intro div_le_mono) simp
    also have "\<dots> = c" unfolding c using div_mult_self2 [of "2 ^ k" "2 ^ k - 1" c] by (simp only: add.commute) simp
    finally show ?thesis using c by simp
  qed
  show ?thesis
  proof (cases "v + (2 ^ k - 1) < 2 ^ 64")
    case True
    then have "?a < 2 ^ 64" by (metis div_times_less_eq_dividend le_less_trans)
    then show ?thesis using True align_up_power [OF assms] le least by simp
  next
    case False
    have "\<not> (a < 2 ^ 64 \<and> v \<le> a \<and> 2 ^ k dvd a)" for a
    proof
      assume a: "a < 2 ^ 64 \<and> v \<le> a \<and> 2 ^ k dvd a"
      then obtain c where c: "a = 2 ^ k * c" by auto
      have e: "(2::nat) ^ 64 = 2 ^ k * 2 ^ (64 - k)" using assms(2) by (simp flip: power_add)
      have "2 ^ k * c < 2 ^ k * 2 ^ (64 - k)" using a c unfolding e [symmetric] by blast
      then have "c < 2 ^ (64 - k)" by (metis mult_less_cancel1)
      then have "2 ^ k * (c + 1) \<le> (2::nat) ^ 64" unfolding e by (intro mult_le_mono2) simp
      then have "a + 2 ^ k \<le> 2 ^ 64" using c by simp
      moreover have "0 < (2::nat) ^ k" by simp
      ultimately show False using False a by linarith
    qed
    then show ?thesis using False align_up_power [OF assms] by auto
  qed
qed

end
