(* ===== verification/VF_HnswIo.thy ===== *)
theory VF_HnswIo
  imports VF_Format VF_Validator
begin

text \<open>
  The graph sections of an index file (\<^verbatim>\<open>src/index/hnsw/hnsw_io.cpp\<close>). Section bytes are untrusted:
  the decoder is proved never to leave its arrays or to fail an assertion, whatever the bytes, and every
  graph it returns satisfies the full invariant of \<open>VF_HnswInsert\<close>. The argument \<open>mem\<close> says which
  allocations of \<open>add_node\<close> succeed.
\<close>

unbundle bit_operations_syntax

subsection \<open>Reading words\<close>

text \<open>\<open>None\<close> is a read past the end of the section.\<close>

definition get_u32 :: "u8 list \<Rightarrow> nat \<Rightarrow> u32 option" where
  "get_u32 bytes word =
     (let o' = word * 4
      in if o' + 3 \<ge> length bytes then None
         else Some (ucast (bytes ! o') OR push_bit 8 (ucast (bytes ! (o' + 1))) OR push_bit 16 (ucast (bytes ! (o' + 2))) OR
                push_bit 24 (ucast (bytes ! (o' + 3)))))"

definition get_u64 :: "u8 list \<Rightarrow> nat \<Rightarrow> u64 option" where
  "get_u64 bytes index =
     (let o' = index * 8
      in if o' + 7 \<ge> length bytes then None else Some (le_from 0 (map (\<lambda>i. bytes ! (o' + i)) [0..<8]) 0))"

definition corrupt :: "string \<Rightarrow> string \<Rightarrow> status" where
  "corrupt section_name what = corrupt_data (section_name @ '': '' @ what)"

subsection \<open>Writing a graph\<close>

definition list_words :: "nat list \<Rightarrow> nat \<Rightarrow> u32 list" where
  "list_words links capacity =
     fold (\<lambda>j buffer. buffer[1 + j := word_of_nat (links ! j)]) [0..<length links]
       ((replicate (capacity + 1) kEmptySlot)[0 := word_of_nat (length links)])"

definition io_write_list :: "'s byte_sink \<Rightarrow> nat list \<Rightarrow> nat \<Rightarrow> 's binary_writer \<Rightarrow> 's binary_writer" where
  "io_write_list k links capacity w = bw_array k 4 (list_words links capacity) w"

text \<open>The lists (node, level) of \<open>ps\<close>, one after another.\<close>

fun write_lists :: "'s byte_sink \<Rightarrow> hnsw_graph \<Rightarrow> (nat \<times> nat) list \<Rightarrow> 's binary_writer \<Rightarrow> 's binary_writer option" where
  "write_lists k g [] w = Some w"
| "write_lists k g ((i, l) # ps) w =
     (case graph_links g i l of
        None \<Rightarrow> None
      | Some links \<Rightarrow> write_lists k g ps (io_write_list k links (link_capacity g l) w))"

definition upper_link_words :: "hnsw_graph \<Rightarrow> nat" where
  "upper_link_words g = fold (\<lambda>level words. words + level * (1 + hg_m g)) (hg_levels g) 0"

definition write_levels :: "'s byte_sink \<Rightarrow> hnsw_graph \<Rightarrow> 's binary_writer \<Rightarrow> 's binary_writer" where
  "write_levels k g w = bw_array k 1 (map (\<lambda>level. word_of_nat level :: u8) (hg_levels g)) w"

definition write_l0_links :: "'s byte_sink \<Rightarrow> hnsw_graph \<Rightarrow> 's binary_writer \<Rightarrow> 's binary_writer option" where
  "write_l0_links k g w = write_lists k g (map (\<lambda>i. (i, 0)) [0..<node_count g]) w"

fun write_offsets :: "'s byte_sink \<Rightarrow> nat \<Rightarrow> nat list \<Rightarrow> nat \<Rightarrow> 's binary_writer \<Rightarrow> 's binary_writer" where
  "write_offsets k m [] offset w = w"
| "write_offsets k m (level # ls) offset w =
     (if level = 0 then write_offsets k m ls offset (bw_u64 k kNoUpperBlock w)
      else write_offsets k m ls (offset + level * (1 + m)) (bw_u64 k (word_of_nat offset) w))"

definition write_upper_index :: "'s byte_sink \<Rightarrow> hnsw_graph \<Rightarrow> 's binary_writer \<Rightarrow> 's binary_writer" where
  "write_upper_index k g w = write_offsets k (hg_m g) (hg_levels g) 0 w"

definition write_upper_links :: "'s byte_sink \<Rightarrow> hnsw_graph \<Rightarrow> 's binary_writer \<Rightarrow> 's binary_writer option" where
  "write_upper_links k g w =
     write_lists k g (concat (map (\<lambda>i. map (\<lambda>l. (i, l)) [1..<Suc (hg_levels g ! i)]) [0..<node_count g])) w"

subsection \<open>Decoding\<close>

fun implied_words :: "u8 list \<Rightarrow> nat \<Rightarrow> nat \<Rightarrow> nat option" where
  "implied_words [] m words = Some words"
| "implied_words (b # bs) m words =
     (case checked_mul_size (unat b) (m + 1) of
        None \<Rightarrow> None
      | Some block \<Rightarrow>
          (case checked_add words block of
             None \<Rightarrow> None
           | Some words' \<Rightarrow> implied_words bs m words'))"

record graph_sections =
  gs_levels :: "u8 list"
  gs_l0_links :: "u8 list"
  gs_upper_index :: "u8 list"
  gs_upper_links :: "u8 list"

record graph_shape =
  gh_node_count :: nat
  gh_m :: nat
  gh_max_level_cap :: nat
  gh_entry_point :: nat
  gh_entry_level :: nat

fun check_levels :: "nat \<Rightarrow> nat \<Rightarrow> u8 list \<Rightarrow> nat \<Rightarrow> nat result" where
  "check_levels cap i [] highest = Inr highest"
| "check_levels cap i (b # bs) highest =
     (if unat b > cap
      then Inl (corrupt ''LEVELS'' (''node '' @ show_nat i @ '' has level '' @ show_nat (unat b) @ '' above max_level_cap '' @ show_nat cap))
      else check_levels cap (Suc i) bs (if unat b > highest then unat b else highest))"

definition where_list :: "nat \<Rightarrow> nat \<Rightarrow> string" where
  "where_list i l = ''node '' @ show_nat i @ '' level '' @ show_nat l"

text \<open>The slots \<open>js\<close> of one list; \<open>stamp\<close> marks the ids already seen in list number \<open>number\<close>.\<close>

fun decode_slots :: "graph_sections \<Rightarrow> u8 list \<Rightarrow> string \<Rightarrow> nat \<Rightarrow> nat \<Rightarrow> nat \<Rightarrow> nat \<Rightarrow> nat \<Rightarrow> nat \<Rightarrow> nat list \<Rightarrow> nat list \<Rightarrow> nat list
    \<Rightarrow> (nat list \<times> nat list) result outcome" where
  "decode_slots s sect name n node l first cnt number [] stamp ids = Returned (Inr (stamp, ids))"
| "decode_slots s sect name n node l first cnt number (j # js) stamp ids =
     (case get_u32 sect (first + 1 + j) of
        None \<Rightarrow> Aborted
      | Some v \<Rightarrow>
          (let i = unat v
           in if j \<ge> cnt
              then if v \<noteq> kEmptySlot then Returned (Inl (corrupt name (where_list node l @ '' has a non-empty unused slot'')))
                   else decode_slots s sect name n node l first cnt number js stamp ids
              else if i \<ge> n
              then Returned (Inl (corrupt name (where_list node l @ '' links to nonexistent node '' @ show_nat i)))
              else if i = node then Returned (Inl (corrupt name (where_list node l @ '' links to itself'')))
              else if unat (gs_levels s ! i) < l
              then Returned (Inl (corrupt name (where_list node l @ '' links to node '' @ show_nat i @ '' below that level'')))
              else if stamp ! i = number
              then Returned (Inl (corrupt name (where_list node l @ '' links to node '' @ show_nat i @ '' twice'')))
              else decode_slots s sect name n node l first cnt number js (stamp[i := number]) (ids @ [i])))"

text \<open>The lists of one node on the levels \<open>ls\<close>; the state is the graph, the stamps and the list number.\<close>

fun decode_lists :: "graph_sections \<Rightarrow> graph_shape \<Rightarrow> nat \<Rightarrow> nat \<Rightarrow> nat list \<Rightarrow> hnsw_graph \<Rightarrow> nat list \<Rightarrow> nat
    \<Rightarrow> (hnsw_graph \<times> nat list \<times> nat) result outcome" where
  "decode_lists s sh i expected [] g stamp number = Returned (Inr (g, stamp, number))"
| "decode_lists s sh i expected (l # ls) g stamp number =
     (let m = gh_m sh;
          sect = (if l = 0 then gs_l0_links s else gs_upper_links s);
          name = (if l = 0 then ''L0_LINKS'' else ''UPPER_LINKS'');
          capacity = (if l = 0 then 2 * m else m);
          first = (if l = 0 then i * (2 * m + 1) else expected + (l - 1) * (m + 1))
      in case get_u32 sect first of
           None \<Rightarrow> Aborted
         | Some cv \<Rightarrow>
             if unat cv > capacity
             then Returned (Inl (corrupt name (where_list i l @ '' has '' @ show_nat (unat cv) @ '' links (capacity '' @ show_nat capacity @ '')'')))
             else (case decode_slots s sect name (gh_node_count sh) i l first (unat cv) (Suc number) [0..<capacity] stamp [] of
                     Returned (Inr (stamp1, ids)) \<Rightarrow>
                       (case set_links g i l ids of
                          None \<Rightarrow> Aborted
                        | Some g1 \<Rightarrow> decode_lists s sh i expected ls g1 stamp1 (Suc number))
                   | Returned (Inl e) \<Rightarrow> Returned (Inl e)
                   | Thrown \<Rightarrow> Thrown
                   | Aborted \<Rightarrow> Aborted))"

fun decode_nodes :: "(nat \<Rightarrow> bool \<times> bool) \<Rightarrow> graph_sections \<Rightarrow> graph_shape \<Rightarrow> nat list \<Rightarrow> nat \<Rightarrow> hnsw_graph \<Rightarrow> nat list \<Rightarrow> nat
    \<Rightarrow> hnsw_graph result outcome" where
  "decode_nodes mem s sh [] expected g stamp number = Returned (Inr g)"
| "decode_nodes mem s sh (i # is) expected g stamp number =
     (let level = unat (gs_levels s ! i)
      in case get_u64 (gs_upper_index s) i of
           None \<Rightarrow> Aborted
         | Some upper_offset \<Rightarrow>
         if (if level = 0 then upper_offset \<noteq> kNoUpperBlock else unat upper_offset \<noteq> expected)
         then Returned (Inl (corrupt ''UPPER_INDEX'' (''node '' @ show_nat i @ '' has a non-canonical offset'')))
         else (case add_node (fst (mem i)) (snd (mem i)) g level of
                 (Thrown, g1) \<Rightarrow> Thrown
               | (Aborted, g1) \<Rightarrow> Aborted
               | (Returned st, g1) \<Rightarrow>
                   if \<not> status_ok st then Returned (Inl st)
                   else (case decode_lists s sh i expected [0..<Suc level] g1 stamp number of
                           Thrown \<Rightarrow> Thrown
                         | Aborted \<Rightarrow> Aborted
                         | Returned (Inl e) \<Rightarrow> Returned (Inl e)
                         | Returned (Inr (g2, stamp2, number2)) \<Rightarrow>
                             decode_nodes mem s sh is (if level > 0 then expected + level * (gh_m sh + 1) else expected) g2 stamp2 number2)))"

definition decode_graph :: "(nat \<Rightarrow> bool \<times> bool) \<Rightarrow> graph_sections \<Rightarrow> graph_shape \<Rightarrow> hnsw_graph result outcome" where
  "decode_graph mem s sh =
     (let n = gh_node_count sh; m = gh_m sh
      in if length (gs_levels s) \<noteq> n then Returned (Inl (corrupt ''LEVELS'' ''size does not match node_count''))
         else if checked_mul3 n (2 * m + 1) 4 = None \<or> Some (length (gs_l0_links s)) \<noteq> checked_mul3 n (2 * m + 1) 4
         then Returned (Inl (corrupt ''L0_LINKS'' ''size does not match node_count and M''))
         else if checked_mul_size n 8 = None \<or> Some (length (gs_upper_index s)) \<noteq> checked_mul_size n 8
         then Returned (Inl (corrupt ''UPPER_INDEX'' ''size does not match node_count''))
         else (case check_levels (gh_max_level_cap sh) 0 (gs_levels s) 0 of
                 Inl e \<Rightarrow> Returned (Inl e)
               | Inr highest \<Rightarrow>
                   if n = 0 \<and> (gh_entry_point sh \<noteq> unat kEmptySlot \<or> gh_entry_level sh \<noteq> 0)
                   then Returned (Inl (corrupt ''METADATA'' ''empty graph must have no entry point''))
                   else if n \<noteq> 0 \<and> (gh_entry_point sh \<ge> n \<or> unat (gs_levels s ! gh_entry_point sh) \<noteq> gh_entry_level sh \<or>
                          gh_entry_level sh \<noteq> highest)
                   then Returned (Inl (corrupt ''METADATA'' ''entry point is not a node of the top level''))
                   else (case (case implied_words (gs_levels s) m 0 of None \<Rightarrow> None | Some words \<Rightarrow> checked_mul_size words 4) of
                           None \<Rightarrow> Returned (Inl (corrupt ''UPPER_LINKS'' ''size does not match LEVELS and M''))
                         | Some upper_bytes \<Rightarrow>
                             if length (gs_upper_links s) \<noteq> upper_bytes
                             then Returned (Inl (corrupt ''UPPER_LINKS'' ''size does not match LEVELS and M''))
                             else (case graph_create \<lparr>go_m = m, go_max_level = gh_max_level_cap sh, go_nodes_per_chunk = 0, go_arena_chunk_words = 0\<rparr> of
                                     Inl st \<Rightarrow> Returned (Inl (corrupt ''METADATA'' (status_message st)))
                                   | Inr g0 \<Rightarrow>
                                       (case decode_nodes mem s sh [0..<n] 0 g0 (replicate n 0) 0 of
                                          Returned (Inr g) \<Rightarrow>
                                            Returned (Inr (if n > 0 then set_entry g \<lparr>he_id = gh_entry_point sh, he_level = gh_entry_level sh\<rparr> else g))
                                        | r \<Rightarrow> r)))))"

subsection \<open>Untrusted sections\<close>

abbreviation lv :: "graph_sections \<Rightarrow> nat list" where
  "lv s \<equiv> map unat (gs_levels s)"

lemma get_u32_Some: "(w + 1) * 4 \<le> length bytes \<Longrightarrow> \<exists>v. get_u32 bytes w = Some v"
  by (simp add: get_u32_def Let_def)

lemma get_u64_Some: "(i + 1) * 8 \<le> length bytes \<Longrightarrow> \<exists>v. get_u64 bytes i = Some v"
  by (simp add: get_u64_def Let_def)

definition list_ok :: "nat list \<Rightarrow> nat \<Rightarrow> nat \<Rightarrow> nat list \<Rightarrow> bool" where
  "list_ok levels node l ids \<longleftrightarrow> distinct ids \<and> node \<notin> set ids \<and> (\<forall>x\<in>set ids. x < length levels \<and> l \<le> levels ! x)"

definition stamps :: "nat list \<Rightarrow> nat \<Rightarrow> nat set" where
  "stamps stamp number = {x. x < length stamp \<and> stamp ! x = number}"

lemma decode_slots_ok:
  assumes "\<And>j. j \<in> set js \<Longrightarrow> (first + 1 + j + 1) * 4 \<le> length sect"
    "length (gs_levels s) = n" "length stamp = n" "\<forall>x\<in>set stamp. x \<le> number" "list_ok (lv s) node l ids" "set ids = stamps stamp number"
  shows "case decode_slots s sect name n node l first cnt number js stamp ids of
      Returned (Inl e) \<Rightarrow> code e = CorruptData
    | Returned (Inr (stamp', ids')) \<Rightarrow> length stamp' = n \<and> (\<forall>x\<in>set stamp'. x \<le> number) \<and> list_ok (lv s) node l ids' \<and>
        length ids' \<le> length ids + length js
    | Thrown \<Rightarrow> False | Aborted \<Rightarrow> False"
  using assms
proof (induction js arbitrary: stamp ids)
  case (Cons j js)
  obtain v where v: "get_u32 sect (first + 1 + j) = Some v" using Cons.prems(1) [of j] get_u32_Some [of "first + 1 + j" sect] by auto
  let ?i = "unat v"
  have js: "\<And>j. j \<in> set js \<Longrightarrow> (first + 1 + j + 1) * 4 \<le> length sect" using Cons.prems(1) by simp
  show ?case
  proof (cases "j \<ge> cnt")
    case True
    then show ?thesis
      using Cons.IH [OF js Cons.prems(2-6)] v by (auto simp: corrupt_def split: outcome.splits sum.splits)
  next
    case False
    show ?thesis
    proof (cases "?i \<ge> n \<or> ?i = node \<or> unat (gs_levels s ! ?i) < l \<or> stamp ! ?i = number")
      case bad: True
      then show ?thesis using False v by (auto simp: corrupt_def Let_def)
    next
      case ok: False
      then have i: "?i < n" "?i \<noteq> node" "l \<le> unat (gs_levels s ! ?i)" "stamp ! ?i \<noteq> number" by auto
      have st: "length (stamp[?i := number]) = n" "\<forall>x\<in>set (stamp[?i := number]). x \<le> number"
        using Cons.prems(3,4) set_update_subset_insert [of stamp ?i number] by auto
      have new: "?i \<notin> set ids" using Cons.prems(6) i(4) by (simp add: stamps_def)
      have lo: "list_ok (lv s) node l (ids @ [?i])"
        using Cons.prems(2,5) i new by (auto simp: list_ok_def)
      have se: "set (ids @ [?i]) = stamps (stamp[?i := number]) number"
        using Cons.prems(3,6) i(1) by (auto simp: stamps_def nth_list_update)
      have "decode_slots s sect name n node l first cnt number (j # js) stamp ids =
          decode_slots s sect name n node l first cnt number js (stamp[?i := number]) (ids @ [?i])"
        using False v i by (simp add: Let_def)
      then show ?thesis using Cons.IH [OF js Cons.prems(2) st lo se] by (auto split: outcome.splits sum.splits)
    qed
  qed
qed simp

text \<open>What the size checks of \<open>decode\<close> establish.\<close>

definition sized :: "graph_sections \<Rightarrow> graph_shape \<Rightarrow> bool" where
  "sized s sh \<longleftrightarrow>
     length (gs_levels s) = gh_node_count sh \<and> length (gs_l0_links s) = gh_node_count sh * (2 * gh_m sh + 1) * 4 \<and>
     length (gs_upper_index s) = gh_node_count sh * 8 \<and> length (gs_upper_links s) = sum_list (lv s) * (gh_m sh + 1) * 4"

definition block_start :: "graph_sections \<Rightarrow> graph_shape \<Rightarrow> nat \<Rightarrow> nat" where
  "block_start s sh i = sum_list (take i (lv s)) * (gh_m sh + 1)"

lemma block_start_Suc: "i < length (gs_levels s) \<Longrightarrow> block_start s sh (Suc i) = block_start s sh i + unat (gs_levels s ! i) * (gh_m sh + 1)"
  by (simp add: block_start_def take_Suc_conv_app_nth add_mult_distrib)

lemma block_end:
  assumes "sized s sh" "i < gh_node_count sh"
  shows "(block_start s sh i + unat (gs_levels s ! i) * (gh_m sh + 1)) * 4 \<le> length (gs_upper_links s)"
proof -
  have i: "i < length (gs_levels s)" using assms by (simp add: sized_def)
  have "sum_list (take (Suc i) (lv s)) \<le> sum_list (lv s)"
    using sum_list_append [of "take (Suc i) (lv s)" "drop (Suc i) (lv s)"] by simp
  then have "block_start s sh (Suc i) * 4 \<le> sum_list (lv s) * (gh_m sh + 1) * 4" unfolding block_start_def by (intro mult_le_mono1)
  then show ?thesis using assms(1) block_start_Suc [OF i, of sh] by (simp add: sized_def)
qed

definition loading :: "graph_sections \<Rightarrow> graph_shape \<Rightarrow> nat \<Rightarrow> hnsw_graph \<Rightarrow> bool" where
  "loading s sh i g \<longleftrightarrow>
     hg_inv g \<and> hg_levels g = take i (lv s) \<and> links_wf (lv s) (link_map g) \<and> hg_m g = gh_m sh \<and>
     hg_max_level g = gh_max_level_cap sh \<and> hg_entry g = pack_entry no_entry"

lemma decode_lists_ok:
  assumes sz: "sized s sh" "i < gh_node_count sh" and ls: "\<forall>l\<in>set ls. l \<le> unat (gs_levels s ! i)"
    and g: "loading s sh (Suc i) g" "length stamp = gh_node_count sh" "\<forall>x\<in>set stamp. x \<le> number"
  shows "case decode_lists s sh i (block_start s sh i) ls g stamp number of
      Returned (Inl e) \<Rightarrow> code e = CorruptData
    | Returned (Inr (g', stamp', number')) \<Rightarrow> loading s sh (Suc i) g' \<and> length stamp' = gh_node_count sh \<and> (\<forall>x\<in>set stamp'. x \<le> number')
    | Thrown \<Rightarrow> False | Aborted \<Rightarrow> False"
  using ls g
proof (induction ls arbitrary: g stamp number)
  case (Cons l ls)
  let ?m = "gh_m sh" and ?n = "gh_node_count sh"
  define sect where "sect = (if l = 0 then gs_l0_links s else gs_upper_links s)"
  define name where "name = (if l = 0 then ''L0_LINKS'' else ''UPPER_LINKS'')"
  define cap where "cap = (if l = 0 then 2 * ?m else ?m)"
  define first where "first = (if l = 0 then i * (2 * ?m + 1) else block_start s sh i + (l - 1) * (?m + 1))"
  have lvl: "l \<le> unat (gs_levels s ! i)" "\<forall>l\<in>set ls. l \<le> unat (gs_levels s ! i)" using Cons.prems(1) by simp_all
  have inb: "(first + 1 + cap) * 4 \<le> length sect"
  proof (cases "l = 0")
    case True
    have "(i + 1) * (2 * ?m + 1) * 4 \<le> ?n * (2 * ?m + 1) * 4" using sz(2) by (intro mult_le_mono1) simp
    then show ?thesis using True sz(1) by (simp add: first_def cap_def sect_def sized_def)
  next
    case False
    then have "(l - 1) * (?m + 1) + (?m + 1) \<le> unat (gs_levels s ! i) * (?m + 1)"
      using lvl(1) mult_le_mono1 [of l "unat (gs_levels s ! i)" "?m + 1"] by (cases l) simp_all
    then show ?thesis using False block_end [OF sz] by (simp add: first_def cap_def sect_def)
  qed
  obtain cv where cv: "get_u32 sect first = Some cv" using get_u32_Some [of first sect] inb by auto
  have run: "decode_lists s sh i (block_start s sh i) (l # ls) g stamp number =
      (if unat cv > cap
       then Returned (Inl (corrupt name (where_list i l @ '' has '' @ show_nat (unat cv) @ '' links (capacity '' @ show_nat cap @ '')'')))
       else (case decode_slots s sect name ?n i l first (unat cv) (Suc number) [0..<cap] stamp [] of
               Returned (Inr (stamp1, ids)) \<Rightarrow>
                 (case set_links g i l ids of None \<Rightarrow> Aborted | Some g1 \<Rightarrow> decode_lists s sh i (block_start s sh i) ls g1 stamp1 (Suc number))
             | Returned (Inl e) \<Rightarrow> Returned (Inl e) | Thrown \<Rightarrow> Thrown | Aborted \<Rightarrow> Aborted))"
    using cv by (simp add: Let_def sect_def name_def cap_def first_def)
  have rd: "\<And>j. j \<in> set [0..<cap] \<Longrightarrow> (first + 1 + j + 1) * 4 \<le> length sect" using inb by auto
  have len: "length (gs_levels s) = ?n" using sz(1) by (simp add: sized_def)
  have le: "\<forall>x\<in>set stamp. x \<le> Suc number" using Cons.prems(4) by auto
  have "stamp ! x \<le> number" if "x < length stamp" for x using Cons.prems(4) that nth_mem by blast
  then have none: "set [] = stamps stamp (Suc number)" by (fastforce simp: stamps_def)
  have nil: "list_ok (lv s) i l []" by (simp add: list_ok_def)
  note slots = decode_slots_ok [where first = first and sect = sect and js = "[0..<cap]" and name = name and cnt = "unat cv", OF rd len Cons.prems(3) le nil none]
  show ?case
  proof (cases "unat cv > cap")
    case True
    then show ?thesis unfolding run by (simp add: corrupt_def)
  next
    case False
    show ?thesis
    proof (cases "\<exists>stamp1 ids. decode_slots s sect name ?n i l first (unat cv) (Suc number) [0..<cap] stamp [] = Returned (Inr (stamp1, ids))")
      case True
      then obtain stamp1 ids where d: "decode_slots s sect name ?n i l first (unat cv) (Suc number) [0..<cap] stamp [] = Returned (Inr (stamp1, ids))" by blast
      have st: "length stamp1 = ?n" "\<forall>x\<in>set stamp1. x \<le> Suc number" "list_ok (lv s) i l ids" "length ids \<le> cap" using slots d by simp_all
      have L: "hg_inv g" "hg_levels g = take (Suc i) (lv s)" "links_wf (lv s) (link_map g)" "hg_m g = ?m"
        using Cons.prems(2) by (simp_all add: loading_def)
      have "(i, l) \<in> dom (link_map g)" using glinks.dom_law [OF L(1), of i l] L(2) lvl(1) sz(2) len by simp
      moreover have "length ids \<le> link_capacity g l"
        using st(4) L(1,4) params_okD(2) [of g] by (simp add: link_capacity_def cap_def hg_inv_def split: if_splits)
      ultimately obtain g1 where g1: "set_links g i l ids = Some g1" "hg_inv g1" "hg_levels g1 = hg_levels g" "graph_frame g1 = graph_frame g"
        "link_map g1 = (link_map g)((i, l) \<mapsto> ids)" using glinks.put_law [OF L(1)] by blast
      have "links_wf (lv s) (link_map g1)" using L(3) st(3) unfolding g1(5) links_wf_def list_ok_def by (auto simp del: nth_map)
      then have "loading s sh (Suc i) g1" using Cons.prems(2) g1(2-4) by (simp add: loading_def graph_frame_def)
      from Cons.IH [OF lvl(2) this st(1,2)] show ?thesis unfolding run using False d g1(1) by simp
    next
      case bad: False
      then show ?thesis unfolding run using slots False by (auto split: outcome.splits sum.splits)
    qed
  qed
qed simp

lemma add_node_codes:
  assumes "add_node m1 m2 g level = (Returned st, g')" "\<not> status_ok st" "level \<le> hg_max_level g"
  shows "code st = ResourceExhausted"
  using assms by (auto simp: add_node_def Let_def split: if_splits)

lemma decode_nodes_ok:
  assumes sz: "sized s sh" and lvl: "\<forall>b\<in>set (gs_levels s). unat b \<le> gh_max_level_cap sh"
    and i: "i \<le> gh_node_count sh" and g: "loading s sh i g" "length stamp = gh_node_count sh" "\<forall>x\<in>set stamp. x \<le> number"
  shows "case decode_nodes mem s sh [i..<gh_node_count sh] (block_start s sh i) g stamp number of
      Returned (Inl e) \<Rightarrow> code e = CorruptData \<or> code e = ResourceExhausted
    | Returned (Inr g') \<Rightarrow> loading s sh (gh_node_count sh) g'
    | Thrown \<Rightarrow> True | Aborted \<Rightarrow> False"
  using i g
proof (induction "gh_node_count sh - i" arbitrary: i g stamp number)
  case 0
  then show ?case by simp
next
  case (Suc d)
  let ?n = "gh_node_count sh" and ?lv = "unat (gs_levels s ! i)"
  have i: "i < ?n" and len: "length (gs_levels s) = ?n" using Suc.hyps(2) sz by (simp_all add: sized_def)
  have upt: "[i..<?n] = i # [Suc i..<?n]" using i by (rule upt_conv_Cons)
  obtain off where off: "get_u64 (gs_upper_index s) i = Some off"
    using get_u64_Some [of i "gs_upper_index s"] sz i by (auto simp: sized_def)
  obtain r g1 where an: "add_node (fst (mem i)) (snd (mem i)) g ?lv = (r, g1)" by fastforce
  have L: "hg_inv g" "hg_levels g = take i (lv s)" "links_wf (lv s) (link_map g)" "hg_m g = gh_m sh" "hg_max_level g = gh_max_level_cap sh"
    "hg_entry g = pack_entry no_entry" using Suc.prems(2) by (simp_all add: loading_def)
  have ad: "adds_node g ?lv (r, g1)" using add_node_adds [OF L(1)] an by metis
  show ?case
  proof (cases "(if ?lv = 0 then off \<noteq> kNoUpperBlock else unat off \<noteq> block_start s sh i)")
    case True
    then show ?thesis unfolding upt decode_nodes.simps off option.case Let_def by (simp add: corrupt_def)
  next
    case False
    then have canon: "(if ?lv = 0 then off \<noteq> kNoUpperBlock else unat off \<noteq> block_start s sh i) = False" by simp
    note run = upt decode_nodes.simps off option.case Let_def canon if_False an prod.case
    show ?thesis
    proof (cases "\<exists>st. r = Returned st \<and> status_ok st")
      case False
      have cap: "?lv \<le> hg_max_level g" using L(5) lvl len i by simp
      have "code st = ResourceExhausted" if "r = Returned st" for st
        using add_node_codes [OF an [unfolded that] _ cap] that False by blast
      then show ?thesis unfolding run using ad False by (cases r) (auto simp: adds_node_def)
    next
      case True
      then obtain st where st: "r = Returned st" "status_ok st" by blast
      have a: "hg_inv g1" "hg_levels g1 = hg_levels g @ [?lv]" "graph_frame g1 = graph_frame g"
        "link_map g1 = (\<lambda>(j, l). if j = node_count g then if l \<le> ?lv then Some [] else None else link_map g (j, l))"
        using ad st by (simp_all add: adds_node_def)
      have "links_wf (lv s) (link_map g1)" using L(3) unfolding a(4) links_wf_def by (auto simp del: nth_map split: if_splits)
      moreover have "hg_levels g1 = take (Suc i) (lv s)" using a(2) L(2) i len by (simp add: take_Suc_conv_app_nth)
      ultimately have l1: "loading s sh (Suc i) g1" using a(1,3) L(4-6) by (simp add: loading_def graph_frame_def)
      have lall: "\<forall>l\<in>set [0..<Suc ?lv]. l \<le> ?lv" by auto
      note dl = decode_lists_ok [OF sz i lall l1 Suc.prems(3,4)]
      have nx: "(if ?lv > 0 then block_start s sh i + ?lv * (gh_m sh + 1) else block_start s sh i) = block_start s sh (Suc i)"
        using block_start_Suc [of i s sh] i len by simp
      show ?thesis
      proof (cases "\<exists>g2 stamp2 number2. decode_lists s sh i (block_start s sh i) [0..<Suc ?lv] g1 stamp number = Returned (Inr (g2, stamp2, number2))")
        case True
        then obtain g2 stamp2 number2 where d: "decode_lists s sh i (block_start s sh i) [0..<Suc ?lv] g1 stamp number = Returned (Inr (g2, stamp2, number2))" by blast
        then have "loading s sh (Suc i) g2" "length stamp2 = ?n" "\<forall>x\<in>set stamp2. x \<le> number2" using dl by simp_all
        from Suc.hyps(1) [OF _ _ this] have "case decode_nodes mem s sh [Suc i..<?n] (block_start s sh (Suc i)) g2 stamp2 number2 of
            Returned (Inl e) \<Rightarrow> code e = CorruptData \<or> code e = ResourceExhausted
          | Returned (Inr g') \<Rightarrow> loading s sh ?n g' | Thrown \<Rightarrow> True | Aborted \<Rightarrow> False"
          using Suc.hyps(2) i by simp
        then show ?thesis unfolding run st(1) using st(2) d nx by simp
      next
        case False
        then show ?thesis unfolding run st(1) using st(2) dl
          by (cases "decode_lists s sh i (block_start s sh i) [0..<Suc ?lv] g1 stamp number")
            (auto simp del: upt_Suc decode_lists.simps split: sum.splits)
      qed
    qed
  qed
qed

lemma check_levels_ok:
  "check_levels cap i bs highest = Inr t \<Longrightarrow> (\<forall>b\<in>set bs. unat b \<le> cap) \<and> t = Max (insert highest (unat ` set bs))"
  "check_levels cap i bs highest = Inl e \<Longrightarrow> code e = CorruptData"
proof (induction bs arbitrary: i highest)
  case (Cons b bs)
  {
    case 1
    have m: "(if unat b > highest then unat b else highest) = max highest (unat b)" by simp
    have "Max (insert (max highest (unat b)) (unat ` set bs)) = Max (insert highest (unat ` set (b # bs)))"
      by (cases "bs = []") (simp_all add: max.assoc)
    then show ?case using 1 Cons.IH(1) [of "Suc i" "max highest (unat b)"] m by (simp split: if_splits)
  next
    case 2
    then show ?case using Cons.IH(2) by (auto simp: corrupt_def split: if_splits)
  }
qed simp_all

lemma implied_words_Some: "implied_words bs m w = Some t \<Longrightarrow> t = w + sum_list (map unat bs) * (m + 1)"
proof (induction bs arbitrary: w)
  case (Cons b bs)
  then obtain block w' where b: "checked_mul_size (unat b) (m + 1) = Some block" "checked_add w block = Some w'" "implied_words bs m w' = Some t"
    by (auto split: option.splits)
  have "block = unat b * (m + 1)" "w' = w + block" using b(1,2) by (auto simp: checked_mul_size_Some checked_add_def split: if_splits)
  then show ?case using Cons.IH [OF b(3)] by (simp add: add_mult_distrib)
qed simp

definition loaded :: "graph_sections \<Rightarrow> graph_shape \<Rightarrow> hnsw_graph \<Rightarrow> bool" where
  "loaded s sh g \<longleftrightarrow>
     graph_ok g \<and> entry_ok g {} \<and> hg_levels g = lv s \<and> hg_m g = gh_m sh \<and> hg_max_level g = gh_max_level_cap sh \<and>
     (gh_node_count sh > 0 \<longrightarrow> read_entry g = \<lparr>he_id = gh_entry_point sh, he_level = gh_entry_level sh\<rparr>)"

text \<open>The steps of \<open>decode\<close> up to the construction of the graph.\<close>

lemma decode_graph_checked:
  assumes "decode_graph mem s sh = r"
  obtains (rejected) e where "r = Returned (Inl e)" "code e = CorruptData"
  | (build) g0 highest where "sized s sh" "\<forall>b\<in>set (gs_levels s). unat b \<le> gh_max_level_cap sh" "highest = Max (insert 0 (unat ` set (gs_levels s)))"
    "gh_node_count sh > 0 \<Longrightarrow> gh_entry_point sh < gh_node_count sh \<and> unat (gs_levels s ! gh_entry_point sh) = gh_entry_level sh \<and> gh_entry_level sh = highest"
    "graph_create \<lparr>go_m = gh_m sh, go_max_level = gh_max_level_cap sh, go_nodes_per_chunk = 0, go_arena_chunk_words = 0\<rparr> = Inr g0"
    "r = (case decode_nodes mem s sh [0..<gh_node_count sh] 0 g0 (replicate (gh_node_count sh) 0) 0 of
            Returned (Inr g) \<Rightarrow>
              Returned (Inr (if gh_node_count sh > 0 then set_entry g \<lparr>he_id = gh_entry_point sh, he_level = gh_entry_level sh\<rparr> else g))
          | r \<Rightarrow> r)"
proof -
  let ?n = "gh_node_count sh" and ?m = "gh_m sh"
  let ?o = "\<lparr>go_m = ?m, go_max_level = gh_max_level_cap sh, go_nodes_per_chunk = 0, go_arena_chunk_words = 0\<rparr>"
  let ?size = "length (gs_levels s) = ?n \<and> checked_mul3 ?n (2 * ?m + 1) 4 = Some (length (gs_l0_links s)) \<and>
    checked_mul_size ?n 8 = Some (length (gs_upper_index s))"
  note run = assms [unfolded decode_graph_def Let_def]
  show ?thesis
  proof (cases ?size)
    case False
    then have "\<exists>e. r = Returned (Inl e) \<and> code e = CorruptData" using run by (auto simp: corrupt_def split: if_splits)
    then show ?thesis using rejected by blast
  next
    case size: True
    show ?thesis
    proof (cases "check_levels (gh_max_level_cap sh) 0 (gs_levels s) 0")
      case (Inl e)
      then show ?thesis using run size rejected [of e] check_levels_ok(2) [OF Inl] by auto
    next
      case (Inr highest)
      note cl = check_levels_ok(1) [OF Inr]
      let ?up = "case implied_words (gs_levels s) ?m 0 of None \<Rightarrow> None | Some words \<Rightarrow> checked_mul_size words 4"
      show ?thesis
      proof (cases "(\<exists>g0. graph_create ?o = Inr g0) \<and> ?up = Some (length (gs_upper_links s)) \<and>
          (if ?n = 0 then gh_entry_point sh = unat kEmptySlot \<and> gh_entry_level sh = 0
           else gh_entry_point sh < ?n \<and> unat (gs_levels s ! gh_entry_point sh) = gh_entry_level sh \<and> gh_entry_level sh = highest)")
        case False
        then have "\<exists>e. r = Returned (Inl e) \<and> code e = CorruptData"
          using run size Inr by (cases ?up; cases "graph_create ?o") (auto simp: corrupt_def split: if_splits)
        then show ?thesis using rejected by blast
      next
        case True
        then obtain g0 where g0: "graph_create ?o = Inr g0" by blast
        obtain words where w: "implied_words (gs_levels s) ?m 0 = Some words" "checked_mul_size words 4 = Some (length (gs_upper_links s))"
          using True by (auto split: option.splits)
        have sz: "sized s sh"
          using size w(2) implied_words_Some [OF w(1)]
          by (auto simp: sized_def checked_mul3_def checked_mul_size_Some split: option.splits)
        show ?thesis
        proof (rule build [OF sz _ _ _ g0])
          show "\<forall>b\<in>set (gs_levels s). unat b \<le> gh_max_level_cap sh" "highest = Max (insert 0 (unat ` set (gs_levels s)))" using cl by auto
          show "gh_entry_point sh < ?n \<and> unat (gs_levels s ! gh_entry_point sh) = gh_entry_level sh \<and> gh_entry_level sh = highest" if "?n > 0"
            using True that by simp
          show "r = (case decode_nodes mem s sh [0..<?n] 0 g0 (replicate ?n 0) 0 of
              Returned (Inr g) \<Rightarrow> Returned (Inr (if ?n > 0 then set_entry g \<lparr>he_id = gh_entry_point sh, he_level = gh_entry_level sh\<rparr> else g))
            | r \<Rightarrow> r)"
            using run size Inr True g0 w by (cases "?n = 0") (auto simp: not_le)
        qed
      qed
    qed
  qed
qed

lemma decode_graph_ok:
  assumes "gh_m sh < 2 ^ 32 - 1" "gh_max_level_cap sh < 256" "gh_node_count sh \<le> kMaxVectorsPerCollection"
  shows "case decode_graph mem s sh of
      Returned (Inl e) \<Rightarrow> code e = CorruptData \<or> code e = ResourceExhausted
    | Returned (Inr g) \<Rightarrow> loaded s sh g
    | Thrown \<Rightarrow> True | Aborted \<Rightarrow> False"
  using refl [of "decode_graph mem s sh"]
proof (cases rule: decode_graph_checked)
  case (rejected e)
  then show ?thesis by simp
next
  case (build g0 highest)
  let ?n = "gh_node_count sh" and ?e = "\<lparr>he_id = gh_entry_point sh, he_level = gh_entry_level sh\<rparr>"
  have gm: "go_m \<lparr>go_m = gh_m sh, go_max_level = gh_max_level_cap sh, go_nodes_per_chunk = 0, go_arena_chunk_words = 0\<rparr> < 2 ^ 32 - 1"
    using assms(1) by simp
  note c = graph_create_ok [OF build(5) gm]
  have "link_map g0 = Map.empty" using link_map_eq [OF c(1)] c(2) by (intro ext) (auto simp: valid_list_def)
  then have l0: "loading s sh 0 g0" using c by (simp add: loading_def links_wf_def)
  have b0: "block_start s sh 0 = 0" by (simp add: block_start_def)
  have st: "length (replicate ?n (0::nat)) = ?n" "\<forall>x\<in>set (replicate ?n (0::nat)). x \<le> 0" by simp_all
  note dn = decode_nodes_ok [OF build(1,2) le0 l0 st, unfolded b0, of mem]
  show ?thesis
  proof (cases "\<exists>g. decode_nodes mem s sh [0..<?n] 0 g0 (replicate ?n 0) 0 = Returned (Inr g)")
    case False
    then show ?thesis unfolding build(6) using dn by (auto split: outcome.splits sum.splits)
  next
    case True
    then obtain g where g: "decode_nodes mem s sh [0..<?n] 0 g0 (replicate ?n 0) 0 = Returned (Inr g)" by blast
    then have L: "hg_inv g" "hg_levels g = take ?n (lv s)" "links_wf (lv s) (link_map g)" "hg_m g = gh_m sh"
      "hg_max_level g = gh_max_level_cap sh" "hg_entry g = pack_entry no_entry" using dn by (simp_all add: loading_def)
    have len: "length (gs_levels s) = ?n" using build(1) by (simp add: sized_def)
    have lvs: "hg_levels g = lv s" "node_count g = ?n" using L(2) len by (simp_all add: node_count_def)
    have ok: "graph_ok g" using L(1,3) lvs(1) by (simp add: graph_ok_def)
    show ?thesis
    proof (cases "?n = 0")
      case True
      have "g = set_entry g no_entry" using L(6) by (simp add: set_entry_def)
      moreover have "read_entry (set_entry g no_entry) = no_entry"
        by (rule entry_round_trip) (simp_all add: no_entry_def kInvalidInternalId_def)
      ultimately have "read_entry g = no_entry" by simp
      then have "entry_ok g {}" using True lvs(2) by (simp add: entry_ok_def entry_valid_def no_entry_def)
      then show ?thesis unfolding build(6) using g ok lvs(1) L(4,5) True by (simp add: loaded_def)
    next
      case False
      have ep: "gh_entry_point sh < ?n" "unat (gs_levels s ! gh_entry_point sh) = gh_entry_level sh"
        "gh_entry_level sh = Max (insert 0 (unat ` set (gs_levels s)))" using build(3,4) False by simp_all
      have "gh_entry_level sh < 256" using build(2) ep(1,2) len assms(2) nth_mem [of "gh_entry_point sh" "gs_levels s"] by fastforce
      then have re: "read_entry (set_entry g ?e) = ?e"
        using ep(1) assms(3) by (intro entry_round_trip) (simp_all add: kMaxVectorsPerCollection_def kInvalidInternalId_def)
      have "hg_levels g ! j \<le> gh_entry_level sh" if "j < ?n" for j
        unfolding ep(3) using that len lvs(1) by (intro Max_ge) auto
      moreover have "gh_entry_point sh \<noteq> kInvalidInternalId" using ep(1) assms(3) by (simp add: kMaxVectorsPerCollection_def)
      ultimately have "entry_ok (set_entry g ?e) {}" using re ep(1,2) lvs len False by (auto simp: entry_ok_def entry_valid_def)
      then show ?thesis unfolding build(6) using g ok lvs(1) L(4,5) re False by (simp add: loaded_def)
    qed
  qed
qed

subsection \<open>Properties\<close>

text \<open>
  C33. Loading the graph sections of an untrusted file is safe. For arbitrary section bytes the decoder
  never reads outside a section and never fails an assertion; it either rejects the file as corrupt,
  runs out of memory or arena space, or returns a graph whose levels are those of the LEVELS section,
  whose lists all hold distinct existing nodes of their level, and whose entry point is the one of
  the metadata and a node of the highest level.
\<close>

theorem decode_graph_safe:
  assumes "gh_m sh < 2 ^ 32 - 1" "gh_max_level_cap sh < 256" "gh_node_count sh \<le> kMaxVectorsPerCollection"
  shows "case decode_graph mem s sh of
      Returned (Inl e) \<Rightarrow> code e = CorruptData \<or> code e = ResourceExhausted
    | Returned (Inr g) \<Rightarrow> graph_ok g \<and> entry_ok g {} \<and> hg_levels g = map unat (gs_levels s) \<and> hg_m g = gh_m sh \<and>
        (gh_node_count sh > 0 \<longrightarrow> read_entry g = \<lparr>he_id = gh_entry_point sh, he_level = gh_entry_level sh\<rparr>)
    | Thrown \<Rightarrow> True | Aborted \<Rightarrow> False"
  using decode_graph_ok [OF assms, where mem = mem and s = s] by (auto simp: loaded_def split: outcome.splits sum.splits)

theorem decode_graph_safe_witness:
  "let empty = \<lparr>gs_levels = [], gs_l0_links = [], gs_upper_index = [], gs_upper_links = []\<rparr>;
       shape = \<lparr>gh_node_count = 0, gh_m = 2, gh_max_level_cap = 1, gh_entry_point = unat kEmptySlot, gh_entry_level = 0\<rparr>
   in (\<exists>g. decode_graph (\<lambda>_. (True, True)) empty shape = Returned (Inr g) \<and> graph_ok g \<and> hg_levels g = [] \<and> hg_m g = 2) \<and>
      (\<exists>e. decode_graph (\<lambda>_. (True, True)) empty (shape\<lparr>gh_node_count := 1\<rparr>) = Returned (Inl e) \<and> code e = CorruptData)"
proof -
  define e where "e = \<lparr>gs_levels = [], gs_l0_links = [], gs_upper_index = [], gs_upper_links = []\<rparr>"
  define sh where "sh = \<lparr>gh_node_count = 0, gh_m = 2, gh_max_level_cap = 1, gh_entry_point = unat kEmptySlot, gh_entry_level = 0\<rparr>"
  have sb: "has_single_bit 65536" using has_single_bit_of_power [of 16] by simp
  have "\<exists>g. graph_create \<lparr>go_m = 2, go_max_level = 1, go_nodes_per_chunk = 0, go_arena_chunk_words = 0\<rparr> = Inr g"
    unfolding graph_create_def by (simp add: Let_def sb kDefaultArenaChunkWords_def)
  then obtain g0 where g0: "graph_create \<lparr>go_m = 2, go_max_level = 1, go_nodes_per_chunk = 0, go_arena_chunk_words = 0\<rparr> = Inr g0" by blast
  have d: "decode_graph (\<lambda>_. (True, True)) e sh = Returned (Inr g0)"
    using g0 by (simp add: decode_graph_def e_def sh_def Let_def checked_mul3_def checked_mul_size_def)
  have bad: "\<exists>st. decode_graph (\<lambda>_. (True, True)) e (sh\<lparr>gh_node_count := 1\<rparr>) = Returned (Inl st) \<and> code st = CorruptData"
    by (simp add: decode_graph_def e_def sh_def Let_def corrupt_def)
  have "gh_m sh < 2 ^ 32 - 1" "gh_max_level_cap sh < 256" "gh_node_count sh \<le> kMaxVectorsPerCollection" by (simp_all add: sh_def)
  from decode_graph_safe [OF this, where mem = "\<lambda>_. (True, True)" and s = e] have "graph_ok g0 \<and> hg_levels g0 = [] \<and> hg_m g0 = 2"
    unfolding d by (simp add: e_def sh_def)
  then show ?thesis using d bad unfolding Let_def e_def [symmetric] sh_def [symmetric] by blast
qed

end
