(* ===== verification/VF_Normalize.thy ===== *)
theory VF_Normalize
  imports VF_Kernels
begin

text \<open>
  Normalised rows (\<^verbatim>\<open>normalize_inplace\<close> of \<^verbatim>\<open>src/core/vector_ops.cpp\<close>) stay within the component bound
  that \<open>validate_vector\<close> checks, so a normalised row can be stored and scored like a validated one.
  The argument is a bound on the scale: the computed squared norm is at least the largest square of
  a component, rounded down to a power of two.
\<close>

subsection \<open>Lower bounds through an operation\<close>

lemma f32_round_lower:
  assumes "2 ^ e * d \<le> n" "0 < d" "f32_is_finite (f32_round s n d)"
  shows "2 ^ e \<le> f32_units (f32_round s n d)"
proof (cases "round_sig 24 n d < 2 ^ 277")
  case True
  have "2 ^ e \<le> round_sig 24 n d"
    by (rule round_sig_lower [OF assms(1) representableI [of _ 1 e] assms(2)]) simp_all
  then show ?thesis using f32_round_finite [OF assms(2) True, of s] by simp
next
  case False
  let ?v = "round_sig 24 n d"
  have "277 < bitlen ?v" using False bitlen_le_iff [of ?v 277] by simp
  moreover have "2 ^ (bitlen ?v - 1) \<le> ?v" using calculation by (intro bitlen_pos_lower) simp
  moreover have "(2 :: nat) ^ (bitlen ?v - 1) = 2 ^ 23 * 2 ^ (bitlen ?v - 24)"
    using calculation(1) by (simp only: power_add [symmetric]) simp
  ultimately have "2 ^ 23 \<le> ?v div 2 ^ (bitlen ?v - 24)" "254 \<le> bitlen ?v - 24"
    by (simp_all add: less_eq_div_iff_mult_less_eq)
  then have "254 * 2 ^ 23 + 2 ^ 23 \<le> (bitlen ?v - 24) * 2 ^ 23 + ?v div 2 ^ (bitlen ?v - 24)" by (intro add_mono mult_le_mono1)
  then have "mag_of_units ?v = f32_inf_mag" by (simp add: mag_of_units_def Let_def)
  then show ?thesis using assms(3) by (simp add: f32_is_finite_def f32_round_mag)
qed

lemma f32_add_lower:
  assumes "f32_is_finite a" "f32_is_finite b" "\<not> f32_sign a" "\<not> f32_sign b" "f32_is_finite (f32_add a b)"
  shows "\<not> f32_sign (f32_add a b)" "2 ^ e \<le> f32_units a + f32_units b \<Longrightarrow> 2 ^ e \<le> f32_units (f32_add a b)"
proof -
  have v: "f32_val a + f32_val b = int (f32_units a + f32_units b)" using assms(3,4) by (simp add: f32_val_def)
  have s: "f32_add a b = (if f32_units a + f32_units b = 0 then f32_make False 0 else f32_round False (f32_units a + f32_units b) 1)"
    using assms(1-4) unfolding f32_add_def v Let_def by (simp add: f32_finite_not nat_int_add)
  show "\<not> f32_sign (f32_add a b)" unfolding s by (simp add: f32_round_sign)
  show "2 ^ e \<le> f32_units (f32_add a b)" if "2 ^ e \<le> f32_units a + f32_units b"
  proof -
    have "0 < f32_units a + f32_units b" by (rule less_le_trans [OF _ that]) simp
    then have "f32_add a b = f32_round False (f32_units a + f32_units b) 1" unfolding s by (simp only: neq0_conv [symmetric] simp_thms if_False)
    then show ?thesis using f32_round_lower [of e 1 "f32_units a + f32_units b" False] assms(5) that by simp
  qed
qed

lemma f32_square:
  assumes "f32_is_finite x" "f32_is_finite (f32_mul x x)"
  shows "\<not> f32_sign (f32_mul x x)" "2 ^ j \<le> f32_units x \<Longrightarrow> 149 \<le> 2 * j \<Longrightarrow> 2 ^ (2 * j - 149) \<le> f32_units (f32_mul x x)"
proof -
  have m: "f32_mul x x = f32_round False (f32_units x * f32_units x) (2 ^ 149)"
    using assms(1) by (simp add: f32_mul_def f32_finite_not Let_def)
  show "\<not> f32_sign (f32_mul x x)" by (simp add: m f32_round_sign)
  assume j: "2 ^ j \<le> f32_units x" "149 \<le> 2 * j"
  have "(2 :: nat) ^ (2 * j - 149) * 2 ^ 149 = 2 ^ j * 2 ^ j" using j(2) by (simp only: power_add [symmetric]) simp
  also have "\<dots> \<le> f32_units x * f32_units x" using j(1) by (rule mult_le_mono [OF j(1)])
  finally show "2 ^ (2 * j - 149) \<le> f32_units (f32_mul x x)"
    using f32_round_lower [of "2 * j - 149" "2 ^ 149" _ False] assms(2) unfolding m by simp
qed

subsection \<open>The squared norm dominates the components\<close>

lemma sum_dominates:
  assumes t: "\<And>i. i < dim \<Longrightarrow> f32_is_finite (t i) \<and> f32_units (t i) \<le> 2 ^ 256 \<and> \<not> f32_sign (t i)"
    and dim: "dim \<le> 65536"
  shows "n \<le> dim \<Longrightarrow> (let s = fold (\<lambda>i sum. f32_add sum (t i)) [0..<n] f32_zero in
     f32_is_finite s \<and> \<not> f32_sign s \<and> (\<forall>i<n. \<forall>e. 2 ^ e \<le> f32_units (t i) \<longrightarrow> 2 ^ e \<le> f32_units s))"
proof (induction n)
  case 0
  then show ?case by (simp add: f32_zero_def f32_sign_def f32_is_finite_def f32_mag_def)
next
  case (Suc n)
  let ?s = "fold (\<lambda>i sum. f32_add sum (t i)) [0..<n] f32_zero"
  have fin: "f32_is_finite (f32_add ?s (t n))"
    using accumulate_bound [of dim t 256 "Suc n"] t dim Suc.prems by simp
  have IH: "f32_is_finite ?s" "\<not> f32_sign ?s" "\<And>i e. i < n \<Longrightarrow> 2 ^ e \<le> f32_units (t i) \<Longrightarrow> 2 ^ e \<le> f32_units ?s"
    using Suc by (simp_all add: Let_def)
  have tn: "f32_is_finite (t n)" "\<not> f32_sign (t n)" using t Suc.prems by simp_all
  note L = f32_add_lower [OF IH(1) tn(1) IH(2) tn(2) fin]
  have "2 ^ e \<le> f32_units (f32_add ?s (t n))" if "i < Suc n" "2 ^ e \<le> f32_units (t i)" for i e
  proof (rule L(2))
    show "2 ^ e \<le> f32_units ?s + f32_units (t n)"
      using that IH(3) [of i e] by (cases "i = n") (auto intro: trans_le_add1 trans_le_add2)
  qed
  then show ?case using L(1) fin by simp
qed

lemma norm2_dominates:
  assumes "\<forall>x\<in>set v. component_ok x" "length v \<le> 65536" "i < length v" "2 ^ j \<le> f32_units (v ! i)" "149 \<le> 2 * j"
  shows "2 ^ (2 * j - 149) \<le> f32_units (scalar_norm2 v (length v))"
proof -
  let ?t = "\<lambda>i. f32_mul (v ! i) (v ! i)"
  have ok: "component_ok (v ! k)" if "k < length v" for k using assms(1) that by simp
  have t: "f32_is_finite (?t k) \<and> f32_units (?t k) \<le> 2 ^ 256 \<and> \<not> f32_sign (?t k)" if "k < length v" for k
    using component_product_bound [OF ok [OF that] ok [OF that]] f32_square(1) [of "v ! k"] ok [OF that]
    by (simp add: component_ok_iff)
  have "2 ^ (2 * j - 149) \<le> f32_units (?t i)"
    using f32_square(2) [of "v ! i" j] t [OF assms(3)] ok [OF assms(3)] assms(4,5) by (simp add: component_ok_iff)
  then show ?thesis
    using sum_dominates [of "length v" ?t "length v", OF t assms(2)] assms(3)
    by (simp add: scalar_norm2_eq_dot scalar_dot_def Let_def)
qed

subsection \<open>Normalised components\<close>

lemma normalized_component:
  assumes v: "\<forall>x\<in>set v. component_ok x" "length v \<le> 65536" and i: "i < length v"
    and n: "f32_lt f32_zero (scalar_norm2 v (length v))"
  defines "scale \<equiv> f32_of_f64 (f64_recip (f64_sqrt (f64_of_f32 (scalar_norm2 v (length v)))))"
  shows "f32_is_finite (f32_mul (v ! i) scale) \<and> f32_units (f32_mul (v ! i) scale) \<le> 2 ^ 150"
proof -
  let ?u = "f32_units (v ! i)" and ?n = "scalar_norm2 v (length v)"
  note pos = f32_pos_units [OF n]
  note sc = inverse_norm_scale_finite [OF pos, folded scale_def]
  have fin: "f32_is_finite (v ! i)" using v(1) i by (simp add: component_ok_iff)
  have "?u * f32_units scale \<le> 2 ^ 150 * 2 ^ 149"
  proof (cases "bitlen ?u \<le> 75")
    case True
    then have "?u \<le> 2 ^ 75" using bitlen_le_iff [of ?u 75] by simp
    then have "?u * f32_units scale \<le> 2 ^ 75 * 2 ^ 224" using sc(2) by (rule mult_le_mono)
    then show ?thesis by simp
  next
    case False
    define j where "j = bitlen ?u - 1"
    have j: "75 \<le> j" "2 ^ j \<le> ?u" "?u \<le> 2 ^ Suc j"
      using False bitlen_pos_lower [of ?u] bitlen_upper [of ?u] by (simp_all add: j_def)
    have "(2 :: nat) ^ j \<le> 10000000272564224 * 2 ^ 149" using j(2) v(1) [unfolded component_ok_iff, rule_format, OF nth_mem [OF i]] by (metis order_trans)
    also have "\<dots> < 2 ^ 203" by simp
    finally have j203: "j < 203" by (rule power_less_imp_less_exp [rotated]) simp
    have "(2::nat) ^ (j + 925) * 2 ^ (j + 925) = 2 ^ (2 * j - 149) * (2 ^ 925 * 2 ^ 1074)"
      using j(1) by (simp only: power_add [symmetric]) simp
    also have "\<dots> \<le> f32_units ?n * (2 ^ 925 * 2 ^ 1074)"
      using norm2_dominates [OF v i j(2)] j(1) by (intro mult_le_mono1) simp
    finally have "f32_units scale \<le> 2 ^ (1223 - (j + 925))"
      using inverse_norm_scale_le [of "j + 925" ?n] j(1) j203 by (simp add: scale_def)
    then have "?u * f32_units scale \<le> 2 ^ Suc j * 2 ^ (1223 - (j + 925))" using j(3) by (intro mult_le_mono)
    also have "\<dots> = 2 ^ 299" using j203 by (simp only: power_add [symmetric]) simp
    finally show ?thesis by simp
  qed
  then show ?thesis
    by (intro f32_mul_bound [OF fin sc(1)] representableI [of _ 1 150]) simp_all
qed

lemma normalize_inplace_ok:
  assumes "status_ok (validate_vector v dim)" "dim \<le> 65536" "normalize_inplace v scalar_kernel_table = (st, row)"
  shows "if status_ok st then status_ok (validate_vector row dim) else code st = InvalidArgument \<and> row = v"
proof (cases "inverse_norm v scalar_kernel_table")
  case (Inl e)
  then show ?thesis using assms(3) by (auto simp: normalize_inplace_def inverse_norm_def Let_def split: if_splits)
next
  case (Inr scale)
  have n: "f32_lt f32_zero (scalar_norm2 v (length v))"
    and sc: "scale = f32_of_f64 (f64_recip (f64_sqrt (f64_of_f32 (scalar_norm2 v (length v)))))"
    using Inr by (auto simp: inverse_norm_def scalar_kernel_table_def Let_def split: if_splits)
  have v: "length v = dim" "\<forall>x\<in>set v. component_ok x" using assms(1) by (simp_all add: validate_vector_ok)
  have r: "st = ok_status" "row = map (\<lambda>x. f32_mul x scale) v" using assms(3) Inr by (simp_all add: normalize_inplace_def)
  have "component_ok (f32_mul x scale)" if "x \<in> set v" for x
  proof -
    from that obtain i where "i < length v" "x = v ! i" by (auto simp: in_set_conv_nth)
    then have "f32_is_finite (f32_mul x scale) \<and> f32_units (f32_mul x scale) \<le> 2 ^ 150"
      using normalized_component [OF v(2) _ _ n, of i] v(1) assms(2) by (simp add: sc)
    then show ?thesis by (auto simp: component_ok_iff elim: order_trans)
  qed
  then show ?thesis using v r by (simp add: validate_vector_ok)
qed

text \<open>
  C15. Normalising a validated vector with the scalar kernels either fails with \<open>InvalidArgument\<close> and
  leaves it untouched, or yields a vector that passes the same validation: no component overflows or
  exceeds the component bound, whatever the magnitudes, subnormal ones included.
\<close>

theorem normalized_rows_are_valid:
  assumes "status_ok (validate_vector v dim)" "dim \<le> unat kMaxDim"
  shows "case normalize_inplace v scalar_kernel_table of
    (st, row) \<Rightarrow> if status_ok st then status_ok (validate_vector row dim) else code st = InvalidArgument \<and> row = v"
  using normalize_inplace_ok [OF assms(1)] assms(2) by (auto simp: kMaxDim_def)

theorem normalized_rows_are_valid_witness:
  "case normalize_inplace [1, kMaxAbsComponent] scalar_kernel_table of
     (st, row) \<Rightarrow> if status_ok st then status_ok (validate_vector row 2) else code st = InvalidArgument \<and> row = [1, kMaxAbsComponent]"
proof -
  have "component_ok kMaxAbsComponent" "component_ok 1"
    by (simp_all add: component_ok_def kMaxAbsComponent_def f32_eval)
  then show ?thesis by (intro normalized_rows_are_valid) (simp_all add: validate_vector_ok kMaxDim_def)
qed

end
