(* ===== verification/VF_Collection.thy ===== *)
theory VF_Collection
  imports VF_Normalize VF_Validator VF_IdMap
begin

text \<open>
  The collection (\<^verbatim>\<open>src/collection/collection.cpp\<close>, \<^verbatim>\<open>collection_state.hpp\<close>): vectors, id map,
  tombstones and an index backend kept in step. Operations take the state and return it updated;
  the locks only order them, so each public operation is one step here, except that
  \<open>add_batch\<close> is a sequence of row insertions (Level A) or of grow and link sections (Level B).
  A \<open>faults\<close> record says which allocations of an insertion succeed: a failed one throws
  \<^verbatim>\<open>std::bad_alloc\<close>. \<open>Impl::config\<close> is the copy of the state's configuration taken at construction, and
  \<^verbatim>\<open>detail::kernels()\<close> is the process-wide table every state is built with.
\<close>

subsection \<open>State\<close>

text \<open>The backend pointer: null, or one of the two implementations of \<open>IndexBackend\<close>.\<close>

datatype backend =
    NoBackend
  | FlatBackend metric bool kernel_table
  | HnswBackend hnsw_backend

record collection_state =
  cs_config :: collection_config
  cs_normalized :: bool
  cs_kernels :: kernel_table
  cs_creator :: "u8 list"
  cs_created_unix_ms :: u64
  cs_vectors :: vector_store
  cs_ids :: id_map
  cs_deleted :: tombstone_set
  cs_backend :: backend

record faults =
  fa_entry :: bool
  fa_prepare :: bool
  fa_chunk :: allocator
  fa_scratch :: bool
  fa_search :: bool
  fa_level0 :: bool
  fa_arena :: bool

definition new_state :: "collection_config \<Rightarrow> vector_store \<Rightarrow> kernel_table \<Rightarrow> collection_state" where
  "new_state cfg store table =
     \<lparr>cs_config = cfg, cs_normalized = effective_normalize cfg, cs_kernels = table, cs_creator = [], cs_created_unix_ms = 0,
      cs_vectors = store, cs_ids = im_empty, cs_deleted = tb_empty, cs_backend = NoBackend\<rparr>"

fun backend_add :: "faults \<Rightarrow> vector_store \<Rightarrow> backend \<Rightarrow> internal_id \<Rightarrow> status outcome \<times> backend" where
  "backend_add mem v NoBackend i = (Aborted, NoBackend)"
| "backend_add mem v (FlatBackend m n k) i =
     (case flat_add v i of None \<Rightarrow> Aborted | Some st \<Rightarrow> Returned st, FlatBackend m n k)"
| "backend_add mem v (HnswBackend b) i =
     (case hnsw_add (fa_scratch mem) (fa_search mem) (fa_level0 mem) (fa_arena mem) b v i of (r, b1) \<Rightarrow> (r, HnswBackend b1))"

text \<open>\<open>HnswBackend::reserve_node\<close>; the batch path casts the backend to \<open>HnswBackend\<close>.\<close>

fun backend_reserve :: "faults \<Rightarrow> vector_store \<Rightarrow> backend \<Rightarrow> internal_id \<Rightarrow> status outcome \<times> backend" where
  "backend_reserve mem v (HnswBackend b) i =
     (case reserve_node (fa_level0 mem) (fa_arena mem) b v i of (r, b1) \<Rightarrow> (r, HnswBackend b1))"
| "backend_reserve mem v b i = (Aborted, b)"

fun backend_search :: "bool \<Rightarrow> search_context \<Rightarrow> vector_store \<Rightarrow> tombstone_set \<Rightarrow> backend \<Rightarrow> query_view \<Rightarrow> search_knobs
    \<Rightarrow> neighbor list \<Rightarrow> (nat \<times> neighbor list) outcome" where
  "backend_search mem ctx v deleted NoBackend q knobs out = Aborted"
| "backend_search mem ctx v deleted (FlatBackend m n k) q knobs out =
     (case flat_search k m n v deleted q knobs out of None \<Rightarrow> Aborted | Some r \<Rightarrow> Returned r)"
| "backend_search mem ctx v deleted (HnswBackend b) q knobs out =
     (if \<not> mem then Thrown
      else case hnsw_search b v deleted ctx q knobs out of None \<Rightarrow> Aborted | Some r \<Rightarrow> Returned r)"

subsection \<open>Queries\<close>

definition prepare_query :: "collection_state \<Rightarrow> f32 list \<Rightarrow> query_view result" where
  "prepare_query s query =
     return_if_error (validate_vector query (unat (cc_dim (cs_config s))))
       (if cs_normalized s
        then (case inverse_norm query (cs_kernels s) of
                Inl e \<Rightarrow> Inl (invalid_argument (''query: '' @ status_message e))
              | Inr scale \<Rightarrow> Inr \<lparr>qv_data = query, qv_inv_norm = scale\<rparr>)
        else Inr \<lparr>qv_data = query, qv_inv_norm = f32_one\<rparr>)"

definition knobs_for :: "search_params \<Rightarrow> nat \<Rightarrow> search_knobs" where
  "knobs_for params rows =
     \<lparr>kn_k = min (unat (sp_k params)) (max rows 1),
      kn_ef = (case sp_ef_search params of None \<Rightarrow> 0 | Some ef \<Rightarrow> unat ef)\<rparr>"

text \<open>The loop that rewrites internal ids; the id is cast to 32 bits and \<open>label\<close> checks its range.\<close>

fun relabel :: "id_map \<Rightarrow> nat list \<Rightarrow> neighbor list \<Rightarrow> neighbor list option" where
  "relabel ids [] out = Some out"
| "relabel ids (i # is) out =
     (case im_label ids (unat (ucast (sc_id (out ! i)) :: u32)) of
        None \<Rightarrow> None
      | Some x \<Rightarrow> relabel ids is (out[i := (out ! i)\<lparr>sc_id := x\<rparr>]))"

definition run_query :: "bool \<Rightarrow> search_context \<Rightarrow> collection_state \<Rightarrow> query_view \<Rightarrow> search_knobs \<Rightarrow> neighbor list
    \<Rightarrow> (nat \<times> neighbor list) outcome" where
  "run_query mem ctx s q knobs out =
     (case backend_search mem ctx (cs_vectors s) (cs_deleted s) (cs_backend s) q knobs out of
        Returned (n, out1) \<Rightarrow> (case relabel (cs_ids s) [0..<n] out1 of None \<Rightarrow> Aborted | Some out2 \<Rightarrow> Returned (n, out2))
      | Thrown \<Rightarrow> Thrown
      | Aborted \<Rightarrow> Aborted)"

subsection \<open>Inserting one row\<close>

text \<open>Release a reservation and finish with \<open>res\<close>.\<close>

definition release :: "collection_state \<Rightarrow> reservation \<Rightarrow> 'a outcome \<Rightarrow> 'a outcome \<times> collection_state" where
  "release s r res = (case im_rollback (cs_ids s) r of None \<Rightarrow> (Aborted, s) | Some ids \<Rightarrow> (res, s\<lparr>cs_ids := ids\<rparr>))"

text \<open>Undo the append as well.\<close>

definition undo_append :: "collection_state \<Rightarrow> reservation \<Rightarrow> 'a outcome \<Rightarrow> 'a outcome \<times> collection_state" where
  "undo_append s r res =
     (case st_pop_back (cs_vectors s) of None \<Rightarrow> (Aborted, s) | Some v \<Rightarrow> release (s\<lparr>cs_vectors := v\<rparr>) r res)"

definition commit_row :: "collection_state \<Rightarrow> reservation \<Rightarrow> internal_id \<Rightarrow> status outcome \<times> collection_state" where
  "commit_row s r internal =
     (case im_commit (cs_ids s) r internal of
        None \<Rightarrow> (Aborted, s)
      | Some (replaced, ids) \<Rightarrow>
          if replaced \<noteq> kInvalidInternalId
          then (case tb_set (cs_deleted s) replaced of
                  None \<Rightarrow> (Aborted, s)
                | Some (_, deleted) \<Rightarrow> (Returned ok_status, s\<lparr>cs_ids := ids, cs_deleted := deleted\<rparr>))
          else (Returned ok_status, s\<lparr>cs_ids := ids\<rparr>))"

definition insert_reserved :: "faults \<Rightarrow> (vector_store \<Rightarrow> backend \<Rightarrow> internal_id \<Rightarrow> status outcome \<times> backend)
    \<Rightarrow> collection_state \<Rightarrow> reservation \<Rightarrow> f32 list \<Rightarrow> status outcome \<times> collection_state" where
  "insert_reserved mem index s r row =
     (if \<not> fa_prepare mem then release s r Thrown
      else (let s1 = s\<lparr>cs_deleted := tb_ensure_size (cs_deleted s) (st_size (cs_vectors s) + 1)\<rparr>
            in case st_append (fa_chunk mem) (cs_vectors s1) row of
                 (Thrown, v) \<Rightarrow> release (s1\<lparr>cs_vectors := v\<rparr>) r Thrown
               | (Aborted, v) \<Rightarrow> (Aborted, s1)
               | (Returned (Inl e), v) \<Rightarrow> release (s1\<lparr>cs_vectors := v\<rparr>) r (Returned e)
               | (Returned (Inr internal), v) \<Rightarrow>
                   (case index v (cs_backend s1) internal of
                      (Thrown, b) \<Rightarrow> undo_append (s1\<lparr>cs_vectors := v, cs_backend := b\<rparr>) r Thrown
                    | (Aborted, b) \<Rightarrow> (Aborted, s1)
                    | (Returned st, b) \<Rightarrow>
                        if \<not> status_ok st then undo_append (s1\<lparr>cs_vectors := v, cs_backend := b\<rparr>) r (Returned st)
                        else commit_row (s1\<lparr>cs_vectors := v, cs_backend := b\<rparr>) r internal)))"

text \<open>\<open>reserve\<close> and the rest of an insertion; \<open>fa_entry\<close> is the allocation of the map entry.\<close>

definition insert_row :: "faults \<Rightarrow> (faults \<Rightarrow> vector_store \<Rightarrow> backend \<Rightarrow> internal_id \<Rightarrow> status outcome \<times> backend)
    \<Rightarrow> collection_state \<Rightarrow> external_id \<Rightarrow> bool \<Rightarrow> f32 list \<Rightarrow> status outcome \<times> reservation option \<times> collection_state" where
  "insert_row mem index s x upsert row =
     (if \<not> fa_entry mem then (Thrown, None, s)
      else case im_reserve (cs_ids s) x upsert of
        (Inl e, ids) \<Rightarrow> (Returned e, None, s\<lparr>cs_ids := ids\<rparr>)
      | (Inr r, ids) \<Rightarrow>
          (case insert_reserved mem (index mem) (s\<lparr>cs_ids := ids\<rparr>) r row of (res, s1) \<Rightarrow> (res, Some r, s1)))"

definition collection_add :: "bool \<Rightarrow> faults \<Rightarrow> collection_state \<Rightarrow> external_id \<Rightarrow> f32 list \<Rightarrow> insert_options
    \<Rightarrow> status outcome \<times> collection_state" where
  "collection_add mem_copy mem s x vector opts =
     (if \<not> status_ok (validate_vector vector (unat (cc_dim (cs_config s))))
      then (Returned (validate_vector vector (unat (cc_dim (cs_config s)))), s)
      else if effective_normalize (cs_config s) \<and> \<not> mem_copy then (Thrown, s)
      else (case (if effective_normalize (cs_config s) then normalize_inplace vector (cs_kernels s) else (ok_status, vector)) of
              (st, row) \<Rightarrow>
                if \<not> status_ok st then (Returned st, s)
                else (case insert_row mem backend_add s x (io_upsert opts) row of (res, _, s1) \<Rightarrow> (res, s1))))"

definition collection_remove :: "collection_state \<Rightarrow> external_id \<Rightarrow> status outcome \<times> collection_state" where
  "collection_remove s x =
     (case im_erase (cs_ids s) x of
        (Inl e, ids) \<Rightarrow> (Returned e, s\<lparr>cs_ids := ids\<rparr>)
      | (Inr internal, ids) \<Rightarrow>
          (case tb_set (cs_deleted s) internal of
             None \<Rightarrow> (Aborted, s)
           | Some (_, deleted) \<Rightarrow> (Returned ok_status, s\<lparr>cs_ids := ids, cs_deleted := deleted\<rparr>)))"

subsection \<open>Creation\<close>

text \<open>The process-wide kernel selection is an input: its status and the table it chose.\<close>

record kernel_selection =
  ks_status :: status
  ks_table :: kernel_table

definition attach_backend :: "collection_state \<Rightarrow> status \<times> collection_state" where
  "attach_backend s =
     (case cc_index (cs_config s) of
        Flat \<Rightarrow> (ok_status, s\<lparr>cs_backend := FlatBackend (cc_metric (cs_config s)) (cs_normalized s) (cs_kernels s)\<rparr>)
      | Hnsw \<Rightarrow>
          (case hnsw_create (cs_vectors s) (cc_metric (cs_config s)) (cs_normalized s) (cs_kernels s) (cc_hnsw (cs_config s))
                  default_build_options of
             Inl e \<Rightarrow> (e, s)
           | Inr b \<Rightarrow> (ok_status, s\<lparr>cs_backend := HnswBackend b\<rparr>))
      | BadIndexType _ \<Rightarrow> (invalid_argument ''unknown index type'', s))"

definition store_options_for :: "collection_config \<Rightarrow> store_options" where
  "store_options_for cfg = \<lparr>so_dim = unat (cc_dim cfg), so_rows_per_chunk = 0, so_max_rows = kMaxVectorsPerCollection\<rparr>"

definition collection_create :: "kernel_selection \<Rightarrow> u8 list \<Rightarrow> u64 \<Rightarrow> collection_config \<Rightarrow> collection_state result outcome" where
  "collection_create simd creator now_ms cfg =
     (if \<not> status_ok (collection_config_validate cfg) then Returned (Inl (collection_config_validate cfg))
      else if \<not> status_ok (ks_status simd) then Returned (Inl (ks_status simd))
      else case st_create (store_options_for cfg) of
        Inl e \<Rightarrow> Returned (Inl e)
      | Inr store \<Rightarrow>
          (case attach_backend ((new_state cfg store (ks_table simd))\<lparr>cs_creator := creator, cs_created_unix_ms := now_ms\<rparr>) of
             (st, s) \<Rightarrow>
               if \<not> status_ok st then Returned (Inl st)
               else if cs_backend s = NoBackend then Aborted
               else Returned (Inr s)))"

subsection \<open>Lookups\<close>

definition collection_get :: "collection_state \<Rightarrow> external_id \<Rightarrow> f32 list result" where
  "collection_get s x =
     (case im_find (cs_ids s) x of
        None \<Rightarrow> Inl (not_found (''id '' @ show_nat (unat x) @ '' not found''))
      | Some i \<Rightarrow> Inr (st_row (cs_vectors s) i))"

definition collection_contains :: "collection_state \<Rightarrow> external_id \<Rightarrow> bool" where
  "collection_contains s x \<longleftrightarrow> im_contains (cs_ids s) x"

definition collection_size :: "collection_state \<Rightarrow> nat" where
  "collection_size s = im_size (cs_ids s)"

end
