(* ===== verification/VF_CollectionInv.thy ===== *)
theory VF_CollectionInv
  imports VF_Collection
begin

text \<open>
  The invariant of a collection and the contract of \<open>insert_reserved\<close>. What \<open>insert_reserved\<close> needs
  of the call that indexes the new row is the locale \<open>index_step\<close>: on success the backend covers the
  row, on an error or an exception it is as before (the strong guarantee of \<open>IndexBackend::add\<close>).
  The two calls the program passes, \<open>add\<close> of either backend and \<open>reserve_node\<close>, are its
  interpretations.
\<close>

subsection \<open>Invariants\<close>

definition rows_ok :: "vector_store \<Rightarrow> bool" where
  "rows_ok v \<longleftrightarrow> (\<forall>i < st_size v. status_ok (validate_vector (st_row v i) (st_dim v)))"

fun graph_of :: "backend \<Rightarrow> hnsw_graph option" where
  "graph_of (HnswBackend b) = Some (hb_graph b)"
| "graph_of b = None"

text \<open>The backend \<open>b\<close> covers the rows below \<open>n\<close> of \<open>v\<close>; the nodes in \<open>U\<close> are not linked.\<close>

definition hnsw_ok :: "collection_config \<Rightarrow> vector_store \<Rightarrow> nat \<Rightarrow> nat set \<Rightarrow> hnsw_backend \<Rightarrow> bool" where
  "hnsw_ok cfg v n U b \<longleftrightarrow>
     backend_inv b v U \<and> node_count (hb_graph b) = n \<and> hb_dim b = st_dim v \<and> hb_kernels b = scalar_kernel_table \<and>
     hb_mode b = score_mode_of (cc_metric cfg) (effective_normalize cfg) \<and> hb_params b = cc_hnsw cfg"

fun backend_ok :: "collection_config \<Rightarrow> vector_store \<Rightarrow> nat \<Rightarrow> nat set \<Rightarrow> backend \<Rightarrow> bool" where
  "backend_ok cfg v n U NoBackend = False"
| "backend_ok cfg v n U (FlatBackend m norm k) \<longleftrightarrow>
     cc_index cfg = Flat \<and> m = cc_metric cfg \<and> norm = effective_normalize cfg \<and> k = scalar_kernel_table \<and> U = {}"
| "backend_ok cfg v n U (HnswBackend b) \<longleftrightarrow> cc_index cfg = Hnsw \<and> hnsw_ok cfg v n U b"

fun is_hnsw :: "backend \<Rightarrow> bool" where
  "is_hnsw (HnswBackend b) = True"
| "is_hnsw b = False"

definition store_ok :: "collection_state \<Rightarrow> bool" where
  "store_ok s \<longleftrightarrow>
     st_inv (cs_vectors s) \<and> rows_ok (cs_vectors s) \<and> st_dim (cs_vectors s) = unat (cc_dim (cs_config s)) \<and>
     st_max_rows (cs_vectors s) = kMaxVectorsPerCollection \<and>
     im_inv (cs_ids s) \<and> length (im_labels (cs_ids s)) = st_size (cs_vectors s) \<and>
     tb_inv (cs_deleted s) \<and> st_size (cs_vectors s) \<le> 64 * length (tb_words (cs_deleted s)) \<and>
     tb_rows (cs_deleted s) = {..<st_size (cs_vectors s)} - ran (im_find (cs_ids s))"

definition setup_ok :: "collection_state \<Rightarrow> bool" where
  "setup_ok s \<longleftrightarrow>
     status_ok (collection_config_validate (cs_config s)) \<and> cs_normalized s = effective_normalize (cs_config s) \<and>
     cs_kernels s = scalar_kernel_table"

text \<open>At rest: no insertion is pending, and rows the graph could not link are tombstoned.\<close>

definition coll_inv :: "collection_state \<Rightarrow> bool" where
  "coll_inv s \<longleftrightarrow>
     setup_ok s \<and> store_ok s \<and> im_pending (cs_ids s) = {} \<and>
     (\<exists>U \<subseteq> tb_rows (cs_deleted s). backend_ok (cs_config s) (cs_vectors s) (st_size (cs_vectors s)) U (cs_backend s))"

text \<open>What a client sees: the stored row of every id.\<close>

definition coll_view :: "collection_state \<Rightarrow> external_id \<rightharpoonup> f32 list" where
  "coll_view s = (\<lambda>x. map_option (st_row (cs_vectors s)) (im_find (cs_ids s) x))"

definition same_frame :: "collection_state \<Rightarrow> collection_state \<Rightarrow> bool" where
  "same_frame s s' \<longleftrightarrow>
     cs_config s' = cs_config s \<and> cs_normalized s' = cs_normalized s \<and> cs_kernels s' = cs_kernels s \<and>
     cs_creator s' = cs_creator s \<and> cs_created_unix_ms s' = cs_created_unix_ms s"

text \<open>The same contents: rows, ids and tombstones; capacities may differ.\<close>

definition same_contents :: "collection_state \<Rightarrow> collection_state \<Rightarrow> bool" where
  "same_contents s s' \<longleftrightarrow>
     same_frame s s' \<and> store_ok s' \<and> st_rows (cs_vectors s') = st_rows (cs_vectors s) \<and> cs_ids s' = cs_ids s \<and>
     tb_rows (cs_deleted s') = tb_rows (cs_deleted s) \<and> graph_of (cs_backend s') = graph_of (cs_backend s)"

definition row_inserted :: "collection_state \<Rightarrow> external_id \<Rightarrow> f32 list \<Rightarrow> collection_state \<Rightarrow> bool" where
  "row_inserted s x row s' \<longleftrightarrow>
     same_frame s s' \<and> store_ok s' \<and> st_rows (cs_vectors s') = st_rows (cs_vectors s) @ [row] \<and>
     im_find (cs_ids s') = (im_find (cs_ids s))(x \<mapsto> st_size (cs_vectors s)) \<and>
     im_labels (cs_ids s') = im_labels (cs_ids s) @ [x] \<and> im_pending (cs_ids s') = im_pending (cs_ids s)"

text \<open>The rows that ids name, after one id is changed: no two ids name the same row.\<close>

lemma ran_im_find_upd:
  assumes "im_inv m"
  shows "ran ((im_find m)(x := v)) = (ran (im_find m) - {j. im_find m x = Some j}) \<union> {j. v = Some j}"
proof -
  have inj: "im_find m y = Some j \<Longrightarrow> im_find m x = Some j \<Longrightarrow> y = x" for y j by (rule im_find_inj [OF assms])
  have "j \<in> ran ((im_find m)(x := v)) \<longleftrightarrow> (\<exists>y. y \<noteq> x \<and> im_find m y = Some j) \<or> v = Some j" for j
    by (auto simp: ran_def)
  moreover have "(\<exists>y. y \<noteq> x \<and> im_find m y = Some j) \<longleftrightarrow> j \<in> ran (im_find m) \<and> im_find m x \<noteq> Some j" for j
    unfolding ran_def mem_Collect_eq using inj by metis
  ultimately show ?thesis by auto
qed

lemma same_frame_simps [simp]:
  "same_frame s s" "same_frame s (s'\<lparr>cs_vectors := v\<rparr>) = same_frame s s'" "same_frame s (s'\<lparr>cs_ids := i\<rparr>) = same_frame s s'"
  "same_frame s (s'\<lparr>cs_deleted := d\<rparr>) = same_frame s s'" "same_frame s (s'\<lparr>cs_backend := b\<rparr>) = same_frame s s'"
  by (simp_all add: same_frame_def)

lemma same_frame_trans: "same_frame a b \<Longrightarrow> same_frame b c \<Longrightarrow> same_frame a c"
  by (simp add: same_frame_def)

lemma setup_ok_frame: "same_frame s s' \<Longrightarrow> setup_ok s \<Longrightarrow> setup_ok s'"
  by (simp add: same_frame_def setup_ok_def)

lemma store_okD:
  assumes "store_ok s"
  shows "st_inv (cs_vectors s)" "rows_ok (cs_vectors s)" "st_dim (cs_vectors s) = unat (cc_dim (cs_config s))"
    "st_max_rows (cs_vectors s) = kMaxVectorsPerCollection" "im_inv (cs_ids s)"
    "length (im_labels (cs_ids s)) = st_size (cs_vectors s)" "tb_inv (cs_deleted s)"
    "st_size (cs_vectors s) \<le> 64 * length (tb_words (cs_deleted s))"
    "tb_rows (cs_deleted s) = {..<st_size (cs_vectors s)} - ran (im_find (cs_ids s))"
  using assms by (simp_all add: store_ok_def)

lemma st_rows_size: "st_rows v' = st_rows v \<Longrightarrow> st_size v' = st_size v"
  by (metis length_st_rows)

lemma rows_ok_iff: "rows_ok v \<longleftrightarrow> (\<forall>row\<in>set (st_rows v). status_ok (validate_vector row (st_dim v)))"
  by (auto simp: rows_ok_def st_rows_def)

lemma im_find_row:
  assumes "store_ok s" "im_find (cs_ids s) x = Some i"
  shows "i < st_size (cs_vectors s)" "im_labels (cs_ids s) ! i = x" "\<not> tb_test (cs_deleted s) i"
proof -
  show "i < st_size (cs_vectors s)" "im_labels (cs_ids s) ! i = x"
    using im_find_label [OF store_okD(5) [OF assms(1)] assms(2)] store_okD(6) [OF assms(1)] by simp_all
  have "i \<in> ran (im_find (cs_ids s))" using assms(2) by (rule ranI)
  then have "i \<notin> tb_rows (cs_deleted s)" using store_okD(9) [OF assms(1)] by simp
  then show "\<not> tb_test (cs_deleted s) i" by (simp add: tb_rows_def)
qed

lemma live_row_find:
  assumes "store_ok s" "i < st_size (cs_vectors s)" "\<not> tb_test (cs_deleted s) i"
  shows "im_find (cs_ids s) (im_labels (cs_ids s) ! i) = Some i"
proof -
  have "i \<in> ran (im_find (cs_ids s))" using assms store_okD(9) [OF assms(1)] by (auto simp: tb_rows_def)
  then obtain x where x: "im_find (cs_ids s) x = Some i" by (auto simp: ran_def)
  then show ?thesis using im_find_row(2) [OF assms(1) x] by simp
qed

lemma coll_view_row: "store_ok s \<Longrightarrow> coll_view s x = map_option (\<lambda>i. st_rows (cs_vectors s) ! i) (im_find (cs_ids s) x)"
  using im_find_row(1) [of s x] by (cases "im_find (cs_ids s) x") (simp_all add: coll_view_def)

lemma same_contents_view: "store_ok s \<Longrightarrow> same_contents s s' \<Longrightarrow> coll_view s' = coll_view s"
  by (rule ext) (simp add: coll_view_row same_contents_def)

lemma row_inserted_view:
  assumes "store_ok s" "row_inserted s x row s'"
  shows "coll_view s' = (coll_view s)(x \<mapsto> row)"
proof
  fix y
  have s': "store_ok s'" "st_rows (cs_vectors s') = st_rows (cs_vectors s) @ [row]"
    "im_find (cs_ids s') = (im_find (cs_ids s))(x \<mapsto> st_size (cs_vectors s))"
    using assms(2) by (simp_all add: row_inserted_def)
  show "coll_view s' y = ((coll_view s)(x \<mapsto> row)) y"
    using im_find_row(1) [OF assms(1), of y]
    by (cases "im_find (cs_ids s) y") (auto simp: coll_view_row [OF s'(1)] coll_view_row [OF assms(1)] s'(2,3) nth_append)
qed

subsection \<open>The contract of the indexing call\<close>

locale index_step =
  fixes index :: "vector_store \<Rightarrow> backend \<Rightarrow> internal_id \<Rightarrow> status outcome \<times> backend"
    and ok :: "vector_store \<Rightarrow> nat \<Rightarrow> nat set \<Rightarrow> backend \<Rightarrow> bool"
    and adds :: "nat \<Rightarrow> nat set \<Rightarrow> nat set"
  assumes index_result: "ok v n U b \<Longrightarrow> st_inv v \<Longrightarrow> rows_ok v \<Longrightarrow> st_size v = Suc n \<Longrightarrow> index v b n = (res, b') \<Longrightarrow>
      (case res of
         Returned st \<Rightarrow> if status_ok st then ok v (Suc n) (adds n U) b'
                       else code st = ResourceExhausted \<and> ok v n U b' \<and> graph_of b' = graph_of b
       | Thrown \<Rightarrow> ok v n U b' \<and> graph_of b' = graph_of b
       | Aborted \<Rightarrow> False)"
    and rebase: "ok v n U b \<Longrightarrow> st_dim v' = st_dim v \<Longrightarrow> n \<le> st_size v' \<Longrightarrow> ok v' n U b"
begin

definition inserts :: "nat set \<Rightarrow> collection_state \<Rightarrow> external_id \<Rightarrow> f32 list \<Rightarrow> status outcome \<times> collection_state \<Rightarrow> bool" where
  "inserts U s x row r \<longleftrightarrow>
     (case r of
        (Returned st, s') \<Rightarrow>
          if status_ok st
          then row_inserted s x row s' \<and>
            ok (cs_vectors s') (st_size (cs_vectors s')) (adds (st_size (cs_vectors s)) U) (cs_backend s')
          else code st = ResourceExhausted \<and> same_contents s s' \<and> ok (cs_vectors s') (st_size (cs_vectors s')) U (cs_backend s')
      | (Thrown, s') \<Rightarrow> same_contents s s' \<and> ok (cs_vectors s') (st_size (cs_vectors s')) U (cs_backend s')
      | (Aborted, s') \<Rightarrow> False)"

end

subsection \<open>The insertion\<close>

lemma release_reserved:
  assumes "im_reserve (cs_ids s) x upsert = (Inr r, ids)" "im_inv (cs_ids s)" "cs_ids t = ids"
  shows "release t r res = (res, t\<lparr>cs_ids := cs_ids s\<rparr>)"
  using im_rollback_reserve [OF assms(1,2)] assms(3) by (simp add: release_def)

lemma same_contents_kept:
  assumes "store_ok s" "st_inv v" "st_rows v = st_rows (cs_vectors s)" "st_dim v = st_dim (cs_vectors s)"
    "st_max_rows v = st_max_rows (cs_vectors s)" "graph_of b = graph_of (cs_backend s)"
    "tb_rows d = tb_rows (cs_deleted s)" "tb_inv d" "length (tb_words (cs_deleted s)) \<le> length (tb_words d)"
    "same_frame s t" "cs_vectors t = v" "cs_ids t = cs_ids s" "cs_deleted t = d" "cs_backend t = b"
  shows "same_contents s t"
proof -
  note D = store_okD [OF assms(1)]
  have sz: "st_size v = st_size (cs_vectors s)" using assms(3) by (rule st_rows_size)
  have "store_ok t"
    unfolding store_ok_def using D assms sz rows_ok_iff [of v] rows_ok_iff [of "cs_vectors s"] by (simp add: same_frame_def)
  then show ?thesis using assms by (simp add: same_contents_def)
qed

lemma commit_row_ok:
  assumes s: "store_ok s" and r: "im_reserve (cs_ids s) x upsert = (Inr r, ids)"
    and v: "st_inv v" "st_rows v = st_rows (cs_vectors s) @ [row]" "st_dim v = st_dim (cs_vectors s)"
      "st_max_rows v = st_max_rows (cs_vectors s)" "status_ok (validate_vector row (st_dim v))"
    and t: "same_frame s t" "cs_vectors t = v" "cs_ids t = ids" "cs_backend t = b"
      "cs_deleted t = tb_ensure_size (cs_deleted s) (st_size (cs_vectors s) + 1)"
  shows "\<exists>s'. commit_row t r (st_size (cs_vectors s)) = (Returned ok_status, s') \<and> row_inserted s x row s' \<and>
    cs_vectors s' = v \<and> cs_backend s' = b"
proof -
  let ?n = "st_size (cs_vectors s)" and ?d = "tb_ensure_size (cs_deleted s) (st_size (cs_vectors s) + 1)"
  note D = store_okD [OF s]
  have sz: "st_size v = Suc ?n" using v(2) length_st_rows [of v] by simp
  have n: "?n < kInvalidInternalId" using st_invD(7) [OF v(1)] sz v(4) D(4) by (simp add: kMaxVectorsPerCollection_def)
  obtain ids2 where c: "im_commit ids r ?n = Some (rv_previous r, ids2)"
    using im_commit_reserve [OF r D(6) [symmetric]] by auto
  note k = im_commit_ok [OF c im_reserve_inv [OF r D(5)] n]
  note rr = im_reserve_ok [OF r]
  have find2: "im_find ids2 = (im_find (cs_ids s))(x \<mapsto> ?n)" using k(2) rr(2,3) by simp
  have pend2: "im_pending ids2 = im_pending (cs_ids s)" using k(4) rr(2,4,5) by auto
  have prev: "im_find (cs_ids s) x = (if rv_previous r = kInvalidInternalId then None else Some (rv_previous r))"
    by (rule im_reserve_previous [OF r D(5)])
  have notran: "?n \<notin> ran (im_find (cs_ids s))" using im_find_row(1) [OF s] by (force simp: ran_def)
  note inj = ran_im_find_upd [OF D(5), of x "Some ?n"]
  have words: "Suc ?n \<le> 64 * length (tb_words ?d)"
    using tb_ensure_size_rows(2) [where t = "cs_deleted s" and n = "?n + 1" and i = ?n] by (simp add: div_less_iff_less_mult)
  have store: "store_ok s'" if "cs_config s' = cs_config s" "cs_vectors s' = v" "cs_ids s' = ids2" "tb_inv (cs_deleted s')"
    "length (tb_words (cs_deleted s')) = length (tb_words ?d)"
    "tb_rows (cs_deleted s') = tb_rows (cs_deleted s) \<union> {j. im_find (cs_ids s) x = Some j}" for s'
  proof -
    have "rows_ok v" using D(2) v(2,3,5) by (simp add: rows_ok_iff)
    moreover have "tb_rows (cs_deleted s') = {..<st_size v} - ran (im_find ids2)"
      unfolding that(6) D(9) find2 inj sz using im_find_row(1) [OF s, of x] notran by (auto simp: less_Suc_eq)
    ultimately show ?thesis
      unfolding store_ok_def using that v D k(1,3) rr(6) sz words by simp
  qed
  show ?thesis
  proof (cases "rv_previous r = kInvalidInternalId")
    case True
    let ?s = "t\<lparr>cs_ids := ids2\<rparr>"
    have "store_ok ?s"
      by (rule store) (use t prev True tb_ensure_size_rows(1,4) D(7) in \<open>simp_all add: same_frame_def\<close>)
    then have "row_inserted s x row ?s" using t(1,2) v(2) find2 pend2 k(3) rr(2,6) by (simp add: row_inserted_def)
    then show ?thesis using c t True by (simp add: commit_row_def)
  next
    case False
    let ?p = "rv_previous r"
    have p: "im_find (cs_ids s) x = Some ?p" using prev False by simp
    have "?p < ?n + 1" using im_find_row(1) [OF s p] by simp
    then have "?p div 64 < length (tb_words ?d)" by (rule tb_ensure_size_rows(2))
    from tb_set_rows [OF this] obtain d where d: "tb_set ?d ?p = Some (\<not> tb_test ?d ?p, d)" "tb_rows d = insert ?p (tb_rows ?d)"
      "length (tb_words d) = length (tb_words ?d)" "tb_inv ?d \<longrightarrow> tb_inv d" by blast
    let ?s = "t\<lparr>cs_ids := ids2, cs_deleted := d\<rparr>"
    have "store_ok ?s"
      by (rule store) (use t p d tb_ensure_size_rows(1,4) [of "cs_deleted s" "?n + 1"] D(7) in \<open>simp_all add: same_frame_def\<close>)
    then have "row_inserted s x row ?s" using t(1,2) v(2) find2 pend2 k(3) rr(2,6) by (simp add: row_inserted_def)
    then show ?thesis using c d(1) t False by (simp add: commit_row_def)
  qed
qed

context index_step
begin

lemma insert_reserved_inserts:
  assumes s: "store_ok s" and b: "ok (cs_vectors s) (st_size (cs_vectors s)) U (cs_backend s)"
    and r: "im_reserve (cs_ids s) x upsert = (Inr r, ids)" and m: "alloc_fits (fa_chunk mem)"
    and row: "status_ok (validate_vector row (st_dim (cs_vectors s)))"
  shows "inserts U s x row (insert_reserved mem index (s\<lparr>cs_ids := ids\<rparr>) r row)"
proof -
  let ?v = "cs_vectors s" and ?n = "st_size (cs_vectors s)" and ?d = "tb_ensure_size (cs_deleted s) (st_size (cs_vectors s) + 1)"
  note D = store_okD [OF s]
  note rel = release_reserved [OF r D(5)]
  note T = tb_ensure_size_rows [where t = "cs_deleted s" and n = "?n + 1"]
  have kept: "same_contents s t \<and> ok (cs_vectors t) (st_size (cs_vectors t)) U (cs_backend t)"
    if "st_inv v" "st_rows v = st_rows ?v" "st_dim v = st_dim ?v" "st_max_rows v = st_max_rows ?v"
      "graph_of b' = graph_of (cs_backend s)" "ok v' ?n U b'" "st_dim v' = st_dim ?v"
      "d = cs_deleted s \<or> d = ?d" "same_frame s t" "cs_vectors t = v" "cs_ids t = cs_ids s" "cs_deleted t = d" "cs_backend t = b'"
    for v v' b' d t
  proof
    show "same_contents s t"
      by (rule same_contents_kept [OF s that(1-5) _ _ _ that(9-13)]) (use that(8) T(1,3) T(4) [OF D(7)] D(7) in auto)
    show "ok (cs_vectors t) (st_size (cs_vectors t)) U (cs_backend t)"
      using rebase [OF that(6), of v] st_rows_size [OF that(2)] that(3,7,10,13) by simp
  qed
  have len: "length row = st_dim ?v" using row by (simp add: validate_vector_ok)
  let ?s1 = "s\<lparr>cs_ids := ids, cs_deleted := ?d\<rparr>"
  obtain a v where a: "st_append (fa_chunk mem) ?v row = (a, v)" by fastforce
  show ?thesis
  proof (cases "fa_prepare mem")
    case False
    have "same_contents s s \<and> ok ?v ?n U (cs_backend s)"
      by (rule kept [of ?v "cs_backend s" ?v "cs_deleted s"]) (use D b in auto)
    then show ?thesis using False by (simp add: insert_reserved_def inserts_def rel)
  next
    case pr: True
    show ?thesis
    proof (cases "?n < st_max_rows ?v")
      case False
      then obtain e where e: "a = Returned (Inl e)" "v = ?v" "code e = ResourceExhausted"
        using st_append_errors(2) [OF len, of "fa_chunk mem"] a by auto
      have "same_contents s (s\<lparr>cs_deleted := ?d\<rparr>) \<and> ok ?v ?n U (cs_backend s)"
        using kept [of ?v "cs_backend s" ?v ?d "s\<lparr>cs_deleted := ?d\<rparr>"] D b by simp
      moreover have "\<not> status_ok e" using e(3) by (simp add: status_ok_def)
      ultimately show ?thesis
        using e a pr by (simp add: insert_reserved_def inserts_def Let_def rel)
    next
      case True
      from st_append_ok [OF D(1) m len this a]
      consider "a = Thrown" "v = ?v" | "a = Returned (Inr ?n)" "st_inv v" "st_rows v = st_rows ?v @ [row]" "st_dim v = st_dim ?v"
        "st_max_rows v = st_max_rows ?v" "st_mapped_rows v = st_mapped_rows ?v" by blast
      then show ?thesis
      proof cases
        case 1
        have "same_contents s (s\<lparr>cs_deleted := ?d\<rparr>) \<and> ok ?v ?n U (cs_backend s)"
          using kept [of ?v "cs_backend s" ?v ?d "s\<lparr>cs_deleted := ?d\<rparr>"] D b by simp
        then show ?thesis using 1 a pr by (simp add: insert_reserved_def inserts_def Let_def rel)
      next
        case 2
        have sz: "st_size v = Suc ?n" using 2(3) length_st_rows [of v] by simp
        have "rows_ok v" using D(2) 2(3,4) row by (simp add: rows_ok_iff)
        obtain res b' where i: "index v (cs_backend s) ?n = (res, b')" by fastforce
        note ir = index_result [OF rebase [OF b 2(4)] 2(2) \<open>rows_ok v\<close> sz i]
        obtain w where w: "st_pop_back v = Some w"
          using st_invD(8) [OF D(1)] sz 2(6) by (simp add: st_pop_back_def)
        note W = st_pop_back_ok [OF 2(2) w]
        let ?t = "?s1\<lparr>cs_vectors := v, cs_backend := b'\<rparr>"
        have undo: "undo_append ?t r res' = (res', s\<lparr>cs_deleted := ?d, cs_vectors := w, cs_backend := b'\<rparr>)" for res' :: "status outcome"
          using w by (simp add: undo_append_def rel)
        have k2: "same_contents s (s\<lparr>cs_deleted := ?d, cs_vectors := w, cs_backend := b'\<rparr>) \<and> ok w (st_size w) U b'"
          if "graph_of b' = graph_of (cs_backend s)" "ok v ?n U b'"
          using kept [of w b' v ?d "s\<lparr>cs_deleted := ?d, cs_vectors := w, cs_backend := b'\<rparr>"] that W 2 by simp
        have run: "insert_reserved mem index (s\<lparr>cs_ids := ids\<rparr>) r row =
            (case (res, b') of (Thrown, b) \<Rightarrow> undo_append ?t r Thrown | (Aborted, b) \<Rightarrow> (Aborted, ?s1)
             | (Returned st, b) \<Rightarrow> if \<not> status_ok st then undo_append ?t r (Returned st) else commit_row ?t r ?n)"
          using pr a 2(1) i by (simp add: insert_reserved_def Let_def split: outcome.splits)
        show ?thesis
        proof (cases "\<exists>st. res = Returned st \<and> status_ok st")
          case True
          then obtain st where st: "res = Returned st" "status_ok st" by blast
          then have okb: "ok v (Suc ?n) (adds ?n U) b'" using ir sz by simp
          obtain s' where "commit_row ?t r ?n = (Returned ok_status, s')" "row_inserted s x row s'" "cs_vectors s' = v" "cs_backend s' = b'"
            using commit_row_ok [OF s r 2(2-5), of ?t b'] row 2(4) by auto
          then show ?thesis using run st okb sz by (simp add: inserts_def)
        next
          case False
          then show ?thesis using run undo k2 ir sz by (cases res) (auto simp: inserts_def)
        qed
      qed
    qed
  qed
qed

end

subsection \<open>Reserving and inserting\<close>

lemma dom_im_map: "im_inv m \<Longrightarrow> im_pending m = {} \<Longrightarrow> dom (im_map m) = dom (im_find m)"
  using im_invD(4) [of m] by (force simp: im_pending_def entry_ok_def im_find_def split: option.splits)

context index_step
begin

text \<open>Every outcome of inserting a valid row, with the exact reason of each error.\<close>

definition row_result :: "nat set \<Rightarrow> collection_state \<Rightarrow> external_id \<Rightarrow> bool \<Rightarrow> f32 list
    \<Rightarrow> status outcome \<times> reservation option \<times> collection_state \<Rightarrow> bool" where
  "row_result U s x upsert row r \<longleftrightarrow>
     (case r of
        (Returned st, rv, s') \<Rightarrow>
          if status_ok st
          then x \<noteq> kInvalidExternalId \<and> (x \<in> dom (im_find (cs_ids s)) \<longrightarrow> upsert) \<and>
            rv = Some \<lparr>rv_external = x, rv_previous = (case im_find (cs_ids s) x of None \<Rightarrow> kInvalidInternalId | Some j \<Rightarrow> j)\<rparr> \<and>
            row_inserted s x row s' \<and> ok (cs_vectors s') (st_size (cs_vectors s')) (adds (st_size (cs_vectors s)) U) (cs_backend s')
          else same_contents s s' \<and> ok (cs_vectors s') (st_size (cs_vectors s')) U (cs_backend s') \<and>
            (if x = kInvalidExternalId then code st = InvalidArgument
             else if x \<in> dom (im_find (cs_ids s)) \<and> \<not> upsert then code st = AlreadyExists
             else code st = ResourceExhausted)
      | (Thrown, rv, s') \<Rightarrow> same_contents s s' \<and> ok (cs_vectors s') (st_size (cs_vectors s')) U (cs_backend s')
      | (Aborted, rv, s') \<Rightarrow> False)"

lemma insert_row_result:
  assumes s: "store_ok s" "im_pending (cs_ids s) = {}" and b: "ok (cs_vectors s) (st_size (cs_vectors s)) U (cs_backend s)"
    and m: "alloc_fits (fa_chunk mem)" and row: "status_ok (validate_vector row (st_dim (cs_vectors s)))" and idx: "idx mem = index"
  shows "row_result U s x upsert row (insert_row mem idx s x upsert row)"
proof -
  have same: "same_contents s s" using s(1) by (simp add: same_contents_def)
  note D = store_okD [OF s(1)]
  have dm: "dom (im_map (cs_ids s)) = dom (im_find (cs_ids s))" by (rule dom_im_map [OF D(5) s(2)])
  obtain r ids where r: "im_reserve (cs_ids s) x upsert = (r, ids)" by fastforce
  show ?thesis
  proof (cases "fa_entry mem")
    case False
    then show ?thesis using same b by (simp add: insert_row_def row_result_def)
  next
    case True
    show ?thesis
    proof (cases r)
      case (Inl e)
      with im_reserve_error [of "cs_ids s" x upsert e ids] r s(2) dm
      have "ids = cs_ids s" "\<not> status_ok e" "if x = kInvalidExternalId then code e = InvalidArgument
          else code e = AlreadyExists \<and> x \<in> dom (im_find (cs_ids s)) \<and> \<not> upsert" by (auto split: if_splits)
      then show ?thesis using True r Inl same b by (auto simp: insert_row_def row_result_def split: if_splits)
    next
      case (Inr rv)
      note rr = r [unfolded Inr]
      obtain res s' where i: "insert_reserved mem index (s\<lparr>cs_ids := ids\<rparr>) rv row = (res, s')" by fastforce
      have ins: "inserts U s x row (res, s')" using insert_reserved_inserts [OF s(1) b rr m row] unfolding i .
      have run: "insert_row mem idx s x upsert row = (res, Some rv, s')" using True rr i idx by (simp add: insert_row_def)
      have prev: "rv = \<lparr>rv_external = x, rv_previous = (case im_find (cs_ids s) x of None \<Rightarrow> kInvalidInternalId | Some j \<Rightarrow> j)\<rparr>"
        using im_reserve_ok(2) [OF rr] im_reserve_previous [OF rr D(5)] by (cases rv) auto
      have up: "x \<noteq> kInvalidExternalId" "x \<in> dom (im_find (cs_ids s)) \<longrightarrow> upsert"
        using rr dm by (auto simp: im_reserve_def split: if_splits option.splits)
      show ?thesis using ins prev up unfolding run inserts_def row_result_def by (cases res) (auto split: if_splits)
    qed
  qed
qed

end

subsection \<open>Indexing with either backend\<close>

definition same_setup :: "hnsw_backend \<Rightarrow> hnsw_backend \<Rightarrow> bool" where
  "same_setup b b' \<longleftrightarrow>
     hb_dim b' = hb_dim b \<and> hb_kernels b' = hb_kernels b \<and> hb_mode b' = hb_mode b \<and> hb_params b' = hb_params b"

lemma prepare_insert_setup: "prepare_insert b n w = Some b' \<Longrightarrow> same_setup b b'"
  by (auto simp: prepare_insert_def same_setup_def)

lemma hnsw_add_setup: "hnsw_add mp ms m1 m2 b v i = (res, b') \<Longrightarrow> same_setup b b'"
  by (auto simp: hnsw_add_def Let_def record_stats_def same_setup_def dest!: prepare_insert_setup split: if_splits option.splits outcome.splits prod.splits)

lemma hnsw_link_setup: "hnsw_link m b v i = (res, b') \<Longrightarrow> same_setup b b'"
  by (auto simp: hnsw_link_def Let_def record_stats_def same_setup_def split: if_splits option.splits outcome.splits prod.splits)

lemma reserve_node_setup: "reserve_node m1 m2 b v i = (res, b') \<Longrightarrow> same_setup b b'"
  by (auto simp: reserve_node_def same_setup_def split: if_splits prod.splits)

lemma add_node_error:
  assumes "add_node m1 m2 g level = (Returned st, g')" "\<not> status_ok st" "level \<le> hg_max_level g"
  shows "code st = ResourceExhausted"
  using assms by (auto simp: add_node_def Let_def split: if_splits)

lemma hnsw_add_error:
  assumes "hnsw_add mp ms m1 m2 b v i = (Returned st, b')" "\<not> status_ok st" "level_for (hb_levels b) i \<le> hg_max_level (hb_graph b)"
  shows "code st = ResourceExhausted"
proof -
  obtain r g where a: "add_node m1 m2 (hb_graph b) (level_for (hb_levels b) i) = (r, g)" by fastforce
  have "r = Returned st" using assms(1,2) a
    by (auto simp: hnsw_add_def Let_def split: if_splits option.splits outcome.splits prod.splits)
  then show ?thesis using add_node_error [of m1 m2 "hb_graph b" _ st g] a assms(2,3) by simp
qed

lemma backend_inv_rebase: "backend_inv b v U \<Longrightarrow> node_count (hb_graph b) \<le> st_size v' \<Longrightarrow> backend_inv b v' U"
  by (simp add: backend_inv_def graph_inv_def)

lemma hnsw_ok_rebase: "hnsw_ok cfg v n U b \<Longrightarrow> st_dim v' = st_dim v \<Longrightarrow> n \<le> st_size v' \<Longrightarrow> hnsw_ok cfg v' n U b"
  using backend_inv_rebase [of b v U v'] by (simp add: hnsw_ok_def)

lemma backend_ok_rebase: "backend_ok cfg v n U b \<Longrightarrow> st_dim v' = st_dim v \<Longrightarrow> n \<le> st_size v' \<Longrightarrow> backend_ok cfg v' n U b"
  using hnsw_ok_rebase by (cases b) auto

lemma hnsw_ok_rows_valid: "hnsw_ok cfg v n U b \<Longrightarrow> st_inv v \<Longrightarrow> rows_ok v \<Longrightarrow> rows_valid b v"
  by (simp add: hnsw_ok_def rows_valid_def rows_ok_def)

lemma hnsw_ok_query:
  assumes "hnsw_ok cfg v n U b" "st_inv v" "rows_ok v" "i < st_size v"
  shows "query_ok b v (row_query v i)"
proof -
  have g: "graph_inv (hb_graph b) v U" using assms(1) by (simp add: hnsw_ok_def backend_inv_def)
  show ?thesis by (rule row_query_ok [OF hnsw_ok_rows_valid [OF assms(1-3)] graph_invD(1,2) [OF g] assms(4)])
qed

lemma hnsw_ok_step: "hnsw_ok cfg v n U b \<Longrightarrow> same_setup b b' \<Longrightarrow> backend_inv b' v U' \<Longrightarrow> node_count (hb_graph b') = n' \<Longrightarrow> hnsw_ok cfg v n' U' b'"
  by (simp add: hnsw_ok_def same_setup_def)

lemma hnsw_ok_level:
  assumes "hnsw_ok cfg v n U b"
  shows "level_for (hb_levels b) i \<le> hg_max_level (hb_graph b)"
proof -
  have "params_match b" "graph_ok (hb_graph b)" using assms by (simp_all add: hnsw_ok_def backend_inv_def graph_inv_def)
  then show ?thesis by (rule params_match_facts(4))
qed

lemma hnsw_add_step:
  assumes b: "hnsw_ok cfg v n U b" "st_inv v" "rows_ok v" "st_size v = Suc n" and r: "hnsw_add mp ms m1 m2 b v n = (res, b')"
  shows "case res of
      Returned st \<Rightarrow> if status_ok st then hnsw_ok cfg v (Suc n) U b'
                    else code st = ResourceExhausted \<and> hnsw_ok cfg v n U b' \<and> hb_graph b' = hb_graph b
    | Thrown \<Rightarrow> hnsw_ok cfg v n U b' \<and> hb_graph b' = hb_graph b
    | Aborted \<Rightarrow> False"
proof -
  have inv: "backend_inv b v U" and n: "n = node_count (hb_graph b)" using b(1) by (simp_all add: hnsw_ok_def)
  have "n < st_size v" using b(4) by simp
  note out = hnsw_add_outcome [OF inv n, of mp ms m1 m2, unfolded r add_result_def, OF _ hnsw_ok_query [OF b(1-3) this]]
  note su = hnsw_add_setup [OF r]
  have failed: "hnsw_ok cfg v n U b' \<and> hb_graph b' = hb_graph b" if "add_failed b v U b'"
    using that hnsw_ok_step [OF b(1) su] n by (simp add: add_failed_def)
  have ok: "hnsw_ok cfg v (Suc n) U b'" if "add_ok b v U n b'"
    using that hnsw_ok_step [OF b(1) su] n by (simp add: add_ok_def node_count_def)
  show ?thesis
    using out b(4) failed ok hnsw_add_error [of mp ms m1 m2 b v n _ b', OF _ _ hnsw_ok_level [OF b(1)]] r
    by (cases res) (auto split: if_splits)
qed

lemma reserve_node_step:
  assumes b: "hnsw_ok cfg v n U b" "st_size v = Suc n" and r: "reserve_node m1 m2 b v n = (res, b')"
  shows "case res of
      Returned st \<Rightarrow> if status_ok st then hnsw_ok cfg v (Suc n) (insert n U) b' \<and> hb_scratch b' = hb_scratch b
                    else code st = ResourceExhausted \<and> b' = b
    | Thrown \<Rightarrow> b' = b
    | Aborted \<Rightarrow> False"
proof -
  have inv: "backend_inv b v U" and n: "node_count (hb_graph b) = n" using b(1) by (simp_all add: hnsw_ok_def)
  have gi: "graph_inv (hb_graph b) v U" using inv by (simp add: backend_inv_def)
  obtain r' g where a: "add_node m1 m2 (hb_graph b) (level_for (hb_levels b) n) = (r', g)" by fastforce
  have e: "res = r'" "b' = b\<lparr>hb_graph := g\<rparr>" using r a n b(2) by (simp_all add: reserve_node_def)
  show ?thesis
  proof (cases "\<exists>st. r' = Returned st \<and> status_ok st")
    case True
    then obtain st where st: "r' = Returned st" "status_ok st" by blast
    note A = add_node_graph_inv [OF gi _ a [unfolded st(1)] st(2)]
    have "backend_inv b' v (insert n U)"
      using inv A(1,6) b(2) n e(2) by (simp add: backend_inv_def pool_ok_def params_match_def graph_frame_def)
    then have "hnsw_ok cfg v (Suc n) (insert n U) b'"
      by (rule hnsw_ok_step [OF b(1) reserve_node_setup [OF r]]) (use A(2) b(2) n e in \<open>simp add: node_count_def\<close>)
    then show ?thesis using st e by simp
  next
    case False
    then have "g = hb_graph b" "r' \<noteq> Aborted" using add_node_not_ok [OF graph_invD(1) [OF gi] a] by auto
    moreover have "code st = ResourceExhausted" if "r' = Returned st" for st
      using add_node_error [OF a [unfolded that] _ hnsw_ok_level [OF b(1)]] False that by simp
    ultimately show ?thesis using e False by (cases r') auto
  qed
qed

text \<open>Growing a batch: scratch memory is prepared for up to \<open>room\<close> nodes beforehand.\<close>

definition pool_room :: "nat \<Rightarrow> hnsw_backend \<Rightarrow> bool" where
  "pool_room room b \<longleftrightarrow>
     sp_free (hb_scratch b) \<noteq> [] \<and>
     (\<forall>sc\<in>set (sp_free (hb_scratch b)). scratch_ready b (hg_max_level (hb_graph b)) sc \<and> room \<le> vs_capacity (sx_visited (is_context sc)))"

definition grow_ok :: "collection_config \<Rightarrow> nat \<Rightarrow> vector_store \<Rightarrow> nat \<Rightarrow> nat set \<Rightarrow> backend \<Rightarrow> bool" where
  "grow_ok cfg room v n U b \<longleftrightarrow>
     (\<exists>h. b = HnswBackend h \<and> cc_index cfg = Hnsw \<and> hnsw_ok cfg v n U h \<and> (n \<le> room \<longrightarrow> pool_room room h))"

lemma reserve_node_room:
  assumes "reserve_node m1 m2 b v n = (Returned st, b')" "status_ok st" "pool_room room b" "backend_inv b v U" "Suc n \<le> room"
  shows "pool_room room b'"
proof -
  obtain g where a: "add_node m1 m2 (hb_graph b) (level_for (hb_levels b) n) = (Returned st, g)" "b' = b\<lparr>hb_graph := g\<rparr>"
    "n = node_count (hb_graph b)" "n < st_size v"
    using assms(1) by (auto simp: reserve_node_def split: if_splits prod.splits)
  have "graph_inv (hb_graph b) v U" using assms(4) by (simp add: backend_inv_def)
  note A = add_node_graph_inv [OF this _ a(1) assms(2)]
  have "hg_max_level g = hg_max_level (hb_graph b)" "node_count g = Suc n"
    using A(2,6) a(3,4) by (simp_all add: graph_frame_def node_count_def)
  then show ?thesis using assms(3,5) a(2) by (auto simp: pool_room_def scratch_ready_def context_ready_def)
qed

interpretation adding: index_step "backend_add mem" "backend_ok cfg" "\<lambda>n U. U" for mem cfg
proof
  fix v v' :: vector_store and n U b res b'
  show "backend_ok cfg v n U b \<Longrightarrow> st_dim v' = st_dim v \<Longrightarrow> n \<le> st_size v' \<Longrightarrow> backend_ok cfg v' n U b"
    by (rule backend_ok_rebase)
  assume a: "backend_ok cfg v n U b" "st_inv v" "rows_ok v" "st_size v = Suc n" "backend_add mem v b n = (res, b')"
  show "case res of
      Returned st \<Rightarrow> if status_ok st then backend_ok cfg v (Suc n) U b'
                    else code st = ResourceExhausted \<and> backend_ok cfg v n U b' \<and> graph_of b' = graph_of b
    | Thrown \<Rightarrow> backend_ok cfg v n U b' \<and> graph_of b' = graph_of b | Aborted \<Rightarrow> False"
  proof (cases b)
    case (HnswBackend h)
    obtain h' where h: "hnsw_add (fa_scratch mem) (fa_search mem) (fa_level0 mem) (fa_arena mem) h v n = (res, h')" "b' = HnswBackend h'"
      using a(5) HnswBackend by (auto split: prod.splits)
    have "hnsw_ok cfg v n U h" using a(1) HnswBackend by simp
    from hnsw_add_step [OF this a(2-4) h(1)] show ?thesis using a(1) HnswBackend h(2) by (cases res) auto
  qed (use a in \<open>auto simp: flat_add_def\<close>)
qed

interpretation growing: index_step "backend_reserve mem" "grow_ok cfg room" insert for mem cfg room
proof
  fix v v' :: vector_store and n U b res b'
  show "grow_ok cfg room v n U b \<Longrightarrow> st_dim v' = st_dim v \<Longrightarrow> n \<le> st_size v' \<Longrightarrow> grow_ok cfg room v' n U b"
    using hnsw_ok_rebase [of cfg v n U _ v'] by (auto simp: grow_ok_def)
  assume a: "grow_ok cfg room v n U b" "st_inv v" "rows_ok v" "st_size v = Suc n" "backend_reserve mem v b n = (res, b')"
  obtain h where b: "b = HnswBackend h" "cc_index cfg = Hnsw" "hnsw_ok cfg v n U h" "n \<le> room \<longrightarrow> pool_room room h"
    using a(1) by (auto simp: grow_ok_def)
  obtain h' where h: "reserve_node (fa_level0 mem) (fa_arena mem) h v n = (res, h')" "b' = HnswBackend h'"
    using a(5) b(1) by (auto split: prod.splits)
  have iv: "backend_inv h v U" using b(3) by (simp add: hnsw_ok_def)
  note st = reserve_node_step [OF b(3) a(4) h(1)]
  have "pool_room room h'" if "res = Returned st" "status_ok st" "Suc n \<le> room" for st
    using reserve_node_room [OF h(1) [unfolded that(1)] that(2) _ iv that(3)] b(4) that(3) by simp
  then show "case res of
      Returned st \<Rightarrow> if status_ok st then grow_ok cfg room v (Suc n) (insert n U) b'
                    else code st = ResourceExhausted \<and> grow_ok cfg room v n U b' \<and> graph_of b' = graph_of b
    | Thrown \<Rightarrow> grow_ok cfg room v n U b' \<and> graph_of b' = graph_of b | Aborted \<Rightarrow> False"
    using st a(1) b h(2) by (cases res) (auto simp: grow_ok_def)
qed

end
