(* ===== verification/VF_CollectionOps.thy ===== *)
theory VF_CollectionOps
  imports VF_CollectionInv
begin

text \<open>
  Single-row operations of a collection refine operations on a map from external ids to rows:
  \<open>create\<close> gives the empty map, \<open>add\<close> updates one entry or nothing, \<open>remove\<close> deletes one entry, and
  \<open>get\<close>, \<open>contains\<close> and \<open>size\<close> read the map. Failed and throwing calls leave the map unchanged.
\<close>

lemma coll_invE:
  assumes "coll_inv s"
  obtains U where "setup_ok s" "store_ok s" "im_pending (cs_ids s) = {}" "U \<subseteq> tb_rows (cs_deleted s)"
    "backend_ok (cs_config s) (cs_vectors s) (st_size (cs_vectors s)) U (cs_backend s)"
  using assms by (auto simp: coll_inv_def)

lemma coll_invI:
  assumes "setup_ok s" "store_ok s" "im_pending (cs_ids s) = {}" "U \<subseteq> tb_rows (cs_deleted s)"
    "backend_ok (cs_config s) (cs_vectors s) (st_size (cs_vectors s)) U (cs_backend s)"
  shows "coll_inv s"
  using assms by (auto simp: coll_inv_def)

lemma same_contents_inv:
  assumes "coll_inv s" "same_contents s s'" "backend_ok (cs_config s) (cs_vectors s') (st_size (cs_vectors s')) U (cs_backend s')"
    "U \<subseteq> tb_rows (cs_deleted s)"
  shows "coll_inv s'"
proof (rule coll_invI)
  have f: "same_frame s s'" "store_ok s'" "cs_ids s' = cs_ids s" "tb_rows (cs_deleted s') = tb_rows (cs_deleted s)"
    using assms(2) by (simp_all add: same_contents_def)
  show "setup_ok s'" using assms(1) setup_ok_frame [OF f(1)] by (simp add: coll_inv_def)
  show "store_ok s'" "im_pending (cs_ids s') = {}" "U \<subseteq> tb_rows (cs_deleted s')" using f assms by (simp_all add: coll_inv_def)
  show "backend_ok (cs_config s') (cs_vectors s') (st_size (cs_vectors s')) U (cs_backend s')"
    using assms(3) f(1) by (simp add: same_frame_def)
qed

lemma row_inserted_tombstones:
  assumes "store_ok s" "row_inserted s x row s'"
  shows "tb_rows (cs_deleted s') = tb_rows (cs_deleted s) \<union> {j. im_find (cs_ids s) x = Some j}"
proof -
  have s': "store_ok s'" "st_rows (cs_vectors s') = st_rows (cs_vectors s) @ [row]"
    "im_find (cs_ids s') = (im_find (cs_ids s))(x \<mapsto> st_size (cs_vectors s))"
    using assms(2) by (simp_all add: row_inserted_def)
  have sz: "st_size (cs_vectors s') = Suc (st_size (cs_vectors s))" using s'(2) length_st_rows [of "cs_vectors s'"] by simp
  have lt: "im_find (cs_ids s) y = Some j \<Longrightarrow> j < st_size (cs_vectors s)" for y j by (rule im_find_row(1) [OF assms(1)])
  then have "st_size (cs_vectors s) \<notin> ran (im_find (cs_ids s))" by (force simp: ran_def)
  then show ?thesis
    unfolding store_okD(9) [OF s'(1)] store_okD(9) [OF assms(1)] s'(3) ran_im_find_upd [OF store_okD(5) [OF assms(1)]] sz
    using lt [of x] by (auto simp: less_Suc_eq)
qed

lemma row_inserted_inv:
  assumes "coll_inv s" "row_inserted s x row s'" "backend_ok (cs_config s) (cs_vectors s') (st_size (cs_vectors s')) U (cs_backend s')"
    "U \<subseteq> tb_rows (cs_deleted s)"
  shows "coll_inv s'"
proof (rule coll_invI)
  have s: "store_ok s" "im_pending (cs_ids s) = {}" "setup_ok s" using assms(1) by (simp_all add: coll_inv_def)
  have f: "same_frame s s'" "store_ok s'" "im_pending (cs_ids s') = im_pending (cs_ids s)"
    using assms(2) by (simp_all add: row_inserted_def)
  show "setup_ok s'" "store_ok s'" "im_pending (cs_ids s') = {}" using s f setup_ok_frame [OF f(1)] by simp_all
  show "U \<subseteq> tb_rows (cs_deleted s')" using assms(4) row_inserted_tombstones [OF s(1) assms(2)] by blast
  show "backend_ok (cs_config s') (cs_vectors s') (st_size (cs_vectors s')) U (cs_backend s')"
    using assms(3) f(1) by (simp add: same_frame_def)
qed

text \<open>Inserting into a collection at rest: the map gains the row, or nothing changes.\<close>

definition insert_outcome :: "collection_state \<Rightarrow> external_id \<Rightarrow> bool \<Rightarrow> f32 list \<Rightarrow> status outcome \<Rightarrow> collection_state \<Rightarrow> bool" where
  "insert_outcome s x upsert row res s' \<longleftrightarrow>
     coll_inv s' \<and>
     (case res of
        Returned st \<Rightarrow>
          if status_ok st
          then x \<noteq> kInvalidExternalId \<and> (x \<in> dom (coll_view s) \<longrightarrow> upsert) \<and> row_inserted s x row s'
          else same_contents s s' \<and>
            (if x = kInvalidExternalId then code st = InvalidArgument
             else if x \<in> dom (coll_view s) \<and> \<not> upsert then code st = AlreadyExists
             else code st = ResourceExhausted)
      | Thrown \<Rightarrow> same_contents s s'
      | Aborted \<Rightarrow> False)"

lemma dom_coll_view: "dom (coll_view s) = dom (im_find (cs_ids s))"
  by (auto simp: coll_view_def)

lemma insert_row_outcome:
  assumes inv: "coll_inv s" and m: "alloc_fits (fa_chunk mem)"
    and row: "status_ok (validate_vector row (unat (cc_dim (cs_config s))))"
    and r: "insert_row mem backend_add s x upsert row = (res, rv, s')"
  shows "insert_outcome s x upsert row res s'"
proof -
  obtain U where U: "setup_ok s" "store_ok s" "im_pending (cs_ids s) = {}" "U \<subseteq> tb_rows (cs_deleted s)"
    "backend_ok (cs_config s) (cs_vectors s) (st_size (cs_vectors s)) U (cs_backend s)"
    using inv by (rule coll_invE)
  have row': "status_ok (validate_vector row (st_dim (cs_vectors s)))" using row store_okD(3) [OF U(2)] by simp
  note R = adding.insert_row_result [where idx = backend_add, OF U(2,3,5) m row' refl, of x upsert, unfolded r adding.row_result_def]
  show ?thesis
  proof (cases res)
    case (Returned st)
    show ?thesis
    proof (cases "status_ok st")
      case True
      with R Returned have "row_inserted s x row s'"
        "backend_ok (cs_config s) (cs_vectors s') (st_size (cs_vectors s')) U (cs_backend s')" by simp_all
      from row_inserted_inv [OF inv this U(4)] show ?thesis
        using R Returned True by (simp add: insert_outcome_def dom_coll_view)
    next
      case False
      with R Returned have "same_contents s s'"
        "backend_ok (cs_config s) (cs_vectors s') (st_size (cs_vectors s')) U (cs_backend s')" by simp_all
      from same_contents_inv [OF inv this U(4)] show ?thesis
        using R Returned False by (simp add: insert_outcome_def dom_coll_view)
    qed
  next
    case Thrown
    with R have "same_contents s s'"
      "backend_ok (cs_config s) (cs_vectors s') (st_size (cs_vectors s')) U (cs_backend s')" by simp_all
    from same_contents_inv [OF inv this U(4)] show ?thesis using R Thrown by (simp add: insert_outcome_def)
  next
    case Aborted
    then show ?thesis using R by simp
  qed
qed

subsection \<open>Add\<close>

text \<open>The row that \<open>add\<close> stores.\<close>

definition stored_row :: "collection_state \<Rightarrow> f32 list \<Rightarrow> f32 list" where
  "stored_row s v = (if effective_normalize (cs_config s) then snd (normalize_inplace v (cs_kernels s)) else v)"

lemma setup_dim: "setup_ok s \<Longrightarrow> unat (cc_dim (cs_config s)) \<le> 65536"
  by (simp add: setup_ok_def collection_config_validate_ok kMaxDim_def word_le_nat_alt)

lemma stored_row_valid:
  assumes "setup_ok s" "status_ok (validate_vector v (unat (cc_dim (cs_config s))))"
    "effective_normalize (cs_config s) \<longrightarrow> status_ok (fst (normalize_inplace v (cs_kernels s)))"
  shows "status_ok (validate_vector (stored_row s v) (unat (cc_dim (cs_config s))))"
proof (cases "effective_normalize (cs_config s)")
  case True
  obtain st row where n: "normalize_inplace v scalar_kernel_table = (st, row)" by fastforce
  have "cs_kernels s = scalar_kernel_table" using assms(1) by (simp add: setup_ok_def)
  then show ?thesis using normalize_inplace_ok [OF assms(2) setup_dim [OF assms(1)] n] n True assms(3) by (simp add: stored_row_def)
qed (use assms in \<open>simp add: stored_row_def\<close>)

text \<open>\<open>add\<close> is input checking followed by the insertion of the stored row.\<close>

definition add_accepts :: "collection_state \<Rightarrow> f32 list \<Rightarrow> status" where
  "add_accepts s v =
     (if \<not> status_ok (validate_vector v (unat (cc_dim (cs_config s)))) then validate_vector v (unat (cc_dim (cs_config s)))
      else if effective_normalize (cs_config s) then fst (normalize_inplace v (cs_kernels s)) else ok_status)"

lemma collection_add_cases:
  assumes "collection_add mc mem s x v opts = (res, s')" "setup_ok s"
  shows "(res = Returned (add_accepts s v) \<and> \<not> status_ok (add_accepts s v) \<and> s' = s) \<or>
    (res = Thrown \<and> s' = s \<and> \<not> mc) \<or>
    (status_ok (add_accepts s v) \<and> status_ok (validate_vector (stored_row s v) (unat (cc_dim (cs_config s)))) \<and>
      (\<exists>rv. insert_row mem backend_add s x (io_upsert opts) (stored_row s v) = (res, rv, s')))"
proof (cases "status_ok (validate_vector v (unat (cc_dim (cs_config s))))")
  case True
  obtain st row where n: "(if effective_normalize (cs_config s) then normalize_inplace v (cs_kernels s) else (ok_status, v)) = (st, row)"
    by fastforce
  have acc: "add_accepts s v = st" "stored_row s v = row"
    using n True by (auto simp: add_accepts_def stored_row_def split: if_splits)
  show ?thesis
  proof (cases "status_ok st")
    case ok: True
    have "status_ok (validate_vector (stored_row s v) (unat (cc_dim (cs_config s))))"
      by (rule stored_row_valid [OF assms(2) True]) (use n ok in auto)
    then show ?thesis using assms(1) True n ok acc
      by (auto simp: collection_add_def split: if_splits prod.splits)
  next
    case False
    then show ?thesis using assms(1) True n acc by (auto simp: collection_add_def split: if_splits)
  qed
qed (use assms(1) in \<open>auto simp: collection_add_def add_accepts_def\<close>)

lemma collection_add_outcome:
  assumes inv: "coll_inv s" and m: "alloc_fits (fa_chunk mem)" and r: "collection_add mc mem s x v opts = (res, s')"
  shows "if status_ok (add_accepts s v)
    then insert_outcome s x (io_upsert opts) (stored_row s v) res s' \<or> res = Thrown \<and> s' = s
    else s' = s \<and> (res = Returned (add_accepts s v) \<or> res = Thrown)"
proof -
  have su: "setup_ok s" using inv by (simp add: coll_inv_def)
  show ?thesis
    using collection_add_cases [OF r su] insert_row_outcome [OF inv m] by (auto split: if_splits)
qed

lemma insert_outcome_view:
  assumes "insert_outcome s x upsert row res s'" "store_ok s"
  shows "coll_inv s' \<and> coll_view s' = (case res of Returned st \<Rightarrow> if status_ok st then (coll_view s)(x \<mapsto> row) else coll_view s | _ \<Rightarrow> coll_view s)"
  using assms same_contents_view [of s s'] row_inserted_view [of s x row s']
  by (cases res) (auto simp: insert_outcome_def split: if_splits)

lemma collection_get_view: "collection_get s x = (case coll_view s x of None \<Rightarrow> Inl (not_found (''id '' @ show_nat (unat x) @ '' not found'')) | Some row \<Rightarrow> Inr row)"
  by (simp add: collection_get_def coll_view_def split: option.splits)

lemma collection_size_view: "store_ok s \<Longrightarrow> collection_size s = card (dom (coll_view s))"
  using im_invD(2) [of "cs_ids s"] by (simp add: collection_size_def im_size_def dom_coll_view store_ok_def)

lemma coll_inv_store: "coll_inv s \<Longrightarrow> store_ok s"
  by (simp add: coll_inv_def)

lemma validate_vector_codes:
  "length v \<noteq> dim \<Longrightarrow> code (validate_vector v dim) = DimensionMismatch"
  "length v = dim \<Longrightarrow> \<not> status_ok (validate_vector v dim) \<Longrightarrow> code (validate_vector v dim) = InvalidArgument"
  by (auto simp: validate_vector_def invalid_component_status_def Let_def split: if_splits)

lemma inverse_norm_code: "inverse_norm v k = Inl e \<Longrightarrow> code e = InvalidArgument"
  by (auto simp: inverse_norm_def Let_def split: if_splits)

subsection \<open>Remove\<close>

lemma collection_remove_outcome:
  assumes inv: "coll_inv s" and r: "collection_remove s x = (res, s')"
  shows "\<exists>st. res = Returned st \<and> coll_inv s' \<and>
    (if x \<in> dom (coll_view s)
     then status_ok st \<and> coll_view s' = (coll_view s)(x := None) \<and> cs_vectors s' = cs_vectors s \<and> cs_backend s' = cs_backend s
     else code st = NotFound \<and> s' = s)"
proof -
  obtain U where U: "setup_ok s" "store_ok s" "im_pending (cs_ids s) = {}" "U \<subseteq> tb_rows (cs_deleted s)"
    "backend_ok (cs_config s) (cs_vectors s) (st_size (cs_vectors s)) U (cs_backend s)"
    using inv by (rule coll_invE)
  note D = store_okD [OF U(2)]
  obtain e ids where e: "im_erase (cs_ids s) x = (e, ids)" by fastforce
  show ?thesis
  proof (cases e)
    case (Inl st)
    from im_erase_error [OF e [unfolded Inl]] U(3) have "ids = cs_ids s" "code st = NotFound" "im_find (cs_ids s) x = None" by auto
    then show ?thesis using r e Inl inv by (auto simp: collection_remove_def dom_coll_view)
  next
    case (Inr i)
    note E = im_erase_ok [OF e [unfolded Inr] D(5)]
    note F = im_find_row [OF U(2) E(2)]
    have "i div 64 < length (tb_words (cs_deleted s))" using F(1) D(8) by (simp add: div_less_iff_less_mult)
    from tb_set_rows [OF this] obtain d where d: "tb_set (cs_deleted s) i = Some (\<not> tb_test (cs_deleted s) i, d)"
      "tb_rows d = insert i (tb_rows (cs_deleted s))" "length (tb_words d) = length (tb_words (cs_deleted s))" "tb_inv d"
      using D(7) by blast
    have s': "s' = s\<lparr>cs_ids := ids, cs_deleted := d\<rparr>" "res = Returned ok_status"
      using r e Inr d(1) by (simp_all add: collection_remove_def)
    have "ran (im_find ids) = ran (im_find (cs_ids s)) - {i}"
      unfolding E(3) ran_im_find_upd [OF D(5)] using E(2) by simp
    then have "tb_rows d = {..<st_size (cs_vectors s)} - ran (im_find ids)" using d(2) D(9) F(1) by auto
    then have st: "store_ok s'" using D d(3,4) E(1,4) unfolding store_ok_def s'(1) by simp
    have "coll_inv s'"
      by (rule coll_invI [OF _ st, of U]) (use U s'(1) E(5) d(2) in \<open>auto simp: setup_ok_def\<close>)
    moreover have "coll_view s' = (coll_view s)(x := None)" by (rule ext) (simp add: coll_view_def s'(1) E(3))
    moreover have "x \<in> dom (coll_view s)" using E(2) by (auto simp: dom_coll_view)
    ultimately show ?thesis using s' by simp
  qed
qed

subsection \<open>Create\<close>

lemma st_create_default:
  assumes "1 \<le> dim" "dim \<le> 65536"
  shows "\<exists>v. st_create \<lparr>so_dim = dim, so_rows_per_chunk = 0, so_max_rows = kMaxVectorsPerCollection\<rparr> = Inr v"
proof -
  have "default_rows_per_chunk dim \<le> 2 ^ 16" using assms(1) by (simp add: default_rows_per_chunk_def Let_def kMaxDefaultRowsPerChunk_def)
  then have "default_rows_per_chunk dim * dim \<le> 2 ^ 16 * 65536" using assms(2) by (intro mult_le_mono) simp_all
  then have "checked_mul_size (default_rows_per_chunk dim) dim = Some (default_rows_per_chunk dim * dim)"
    "checked_mul_size (default_rows_per_chunk dim * dim) 4 = Some (default_rows_per_chunk dim * dim * 4)"
    by (simp_all add: checked_mul_size_Some mult.commute [of dim])
  then have "checked_mul3 (default_rows_per_chunk dim) dim 4 = Some (default_rows_per_chunk dim * dim * 4)"
    by (simp add: checked_mul3_def)
  then show ?thesis using assms default_rows_per_chunk_single
    by (simp add: st_create_def Let_def kMaxDim_def kMaxVectorsPerCollection_def kInvalidInternalId_def)
qed

lemma hnsw_create_default:
  assumes "status_ok (hnsw_params_validate p)"
  shows "\<exists>b. hnsw_create v metric norm k p default_build_options = Inr b"
proof -
  note V = assms [unfolded hnsw_params_validate_ok]
  have m: "2 \<le> unat (hp_M p)" "unat (hp_M p) \<le> 512" "1 \<le> unat (hp_max_level p)" "unat (hp_max_level p) \<le> 32"
    using V by (auto simp: kMinM_def kMaxM_def kMaxLevelCap_def word_le_nat_alt unat_gt_0 Suc_le_eq)
  have "unat (hp_max_level p) * ((1 + unat (hp_M p)) mod 2 ^ 32) \<le> 32 * 513" using m by (intro mult_le_mono) simp_all
  moreover have "has_single_bit kDefaultArenaChunkWords"
    using has_single_bit_of_power [of 16] by (simp add: kDefaultArenaChunkWords_def)
  ultimately show ?thesis using m assms
    by (simp add: hnsw_create_def return_if_error_def graph_create_def default_build_options_def Let_def kDefaultArenaChunkWords_def)
qed

lemma collection_create_outcome:
  assumes "ks_table simd = scalar_kernel_table"
  shows "(\<exists>s. collection_create simd creator now cfg = Returned (Inr s) \<and> coll_inv s \<and> coll_view s = Map.empty \<and>
       cs_config s = cfg \<and> cs_creator s = creator \<and> cs_created_unix_ms s = now \<and> st_rows (cs_vectors s) = [] \<and>
       status_ok (collection_config_validate cfg) \<and> status_ok (ks_status simd)) \<or>
    (\<exists>st. collection_create simd creator now cfg = Returned (Inl st) \<and> \<not> status_ok st \<and>
       st = (if status_ok (collection_config_validate cfg) then ks_status simd else collection_config_validate cfg))"
proof (cases "status_ok (collection_config_validate cfg) \<and> status_ok (ks_status simd)")
  case False
  then show ?thesis by (auto simp: collection_create_def)
next
  case True
  then have v: "status_ok (collection_config_validate cfg)" by simp
  note V = v [unfolded collection_config_validate_ok]
  have dim: "1 \<le> unat (cc_dim cfg)" "unat (cc_dim cfg) \<le> 65536"
    using V by (auto simp: kMaxDim_def word_le_nat_alt unat_gt_0 Suc_le_eq)
  obtain store where c: "st_create (store_options_for cfg) = Inr store"
    using st_create_default [OF dim] by (auto simp: store_options_for_def)
  note C = st_create_ok [OF c]
  let ?s0 = "(new_state cfg store (ks_table simd))\<lparr>cs_creator := creator, cs_created_unix_ms := now\<rparr>"
  have fields: "cs_config ?s0 = cfg" "cs_normalized ?s0 = effective_normalize cfg" "cs_kernels ?s0 = scalar_kernel_table"
    "cs_vectors ?s0 = store" "cs_ids ?s0 = im_empty" "cs_deleted ?s0 = tb_empty"
    by (simp_all add: new_state_def assms)
  have st: "store_ok s" if "cs_config s = cfg" "cs_vectors s = store" "cs_ids s = im_empty" "cs_deleted s = tb_empty" for s
    unfolding store_ok_def that using C by (simp add: rows_ok_def store_options_for_def) (simp add: im_empty_def)
  have fin: ?thesis if s: "attach_backend ?s0 = (ok_status, s)" "s = ?s0\<lparr>cs_backend := b\<rparr>" "backend_ok cfg store 0 {} b" for s b
  proof -
    have "coll_inv s"
      by (rule coll_invI [of s "{}"]) (use st [of s] s fields v C(6) in \<open>auto simp: setup_ok_def im_pending_def im_empty_def\<close>)
    moreover have "coll_view s = Map.empty" using s(2) fields by (simp add: coll_view_def)
    moreover have "cs_backend s \<noteq> NoBackend" using s(2,3) by (cases b) auto
    ultimately show ?thesis using True c s(1,2) C(2) fields
      by (simp add: collection_create_def)
  qed
  show ?thesis
  proof (cases "cc_index cfg")
    case Flat
    then show ?thesis
      by (intro fin [of _ "FlatBackend (cc_metric cfg) (effective_normalize cfg) scalar_kernel_table"])
        (simp_all add: attach_backend_def fields)
  next
    case Hnsw
    have "status_ok (hnsw_params_validate (cc_hnsw cfg))" using V Hnsw by simp
    then obtain b where b: "hnsw_create store (cc_metric cfg) (effective_normalize cfg) scalar_kernel_table (cc_hnsw cfg)
        default_build_options = Inr b" using hnsw_create_default by blast
    note H = hnsw_create_inv [OF b]
    have "hnsw_ok cfg store 0 {} b"
      using H b by (auto simp: hnsw_ok_def hnsw_create_def make_backend_def result_bind_Inr)
    then show ?thesis
      by (intro fin [of _ "HnswBackend b"]) (use Hnsw b in \<open>simp_all add: attach_backend_def fields\<close>)
  next
    case (BadIndexType x)
    then show ?thesis using V by simp
  qed
qed

subsection \<open>Reservations\<close>

lemma store_ok_reserved:
  assumes "coll_inv s" "st_reserve alloc (cs_vectors s) n = (res, v)" "alloc_fits alloc"
  shows "coll_inv (s\<lparr>cs_vectors := v, cs_deleted := tb_ensure_size (cs_deleted s) m\<rparr>) \<and>
    same_contents s (s\<lparr>cs_vectors := v, cs_deleted := tb_ensure_size (cs_deleted s) m\<rparr>)"
proof -
  obtain U where U: "setup_ok s" "store_ok s" "im_pending (cs_ids s) = {}" "U \<subseteq> tb_rows (cs_deleted s)"
    "backend_ok (cs_config s) (cs_vectors s) (st_size (cs_vectors s)) U (cs_backend s)"
    using assms(1) by (rule coll_invE)
  note D = store_okD [OF U(2)]
  note R = st_reserve_ok [OF D(1) assms(3,2)]
  let ?s = "s\<lparr>cs_vectors := v, cs_deleted := tb_ensure_size (cs_deleted s) m\<rparr>"
  have sc: "same_contents s ?s"
    by (rule same_contents_kept [OF U(2), of v "cs_backend s" "tb_ensure_size (cs_deleted s) m"])
      (use R D(7) tb_ensure_size_rows(1,3,4) [where t = "cs_deleted s" and n = m] in auto)
  have sz: "st_size v = st_size (cs_vectors s)" using R by (intro st_rows_size) simp
  have "backend_ok (cs_config s) v (st_size v) U (cs_backend s)"
    using backend_ok_rebase [OF U(5), of v] R sz by simp
  then show ?thesis using same_contents_inv [OF assms(1) sc _ U(4)] sc by simp
qed

subsection \<open>Properties\<close>

text \<open>
  C14. A created collection is empty and satisfies the invariant, and creation fails exactly for an
  invalid configuration or a failed kernel selection, with that status: no later step of \<open>create\<close>
  (store, graph, backend) can fail for a valid configuration.
\<close>

theorem collection_create_total:
  assumes "ks_table simd = scalar_kernel_table"
  shows "case collection_create simd creator now cfg of
      Returned (Inr s) \<Rightarrow> status_ok (collection_config_validate cfg) \<and> status_ok (ks_status simd) \<and>
        coll_inv s \<and> coll_view s = Map.empty \<and> cs_config s = cfg
    | Returned (Inl st) \<Rightarrow>
        st = (if status_ok (collection_config_validate cfg) then ks_status simd else collection_config_validate cfg) \<and> \<not> status_ok st
    | _ \<Rightarrow> False"
  using collection_create_outcome [OF assms, of creator now cfg] by auto

definition sample_config :: "index_type \<Rightarrow> collection_config" where
  "sample_config t = \<lparr>cc_dim = 1, cc_metric = L2, cc_normalize = False, cc_index = t, cc_hnsw = default_hnsw_params,
     cc_concurrency = Concurrent\<rparr>"

definition scalar_selection :: kernel_selection where
  "scalar_selection = \<lparr>ks_status = ok_status, ks_table = scalar_kernel_table\<rparr>"

lemma sample_config_valid: "status_ok (collection_config_validate (sample_config Flat))" "status_ok (collection_config_validate (sample_config Hnsw))"
  by (simp_all add: sample_config_def collection_config_validate_ok kMaxDim_def hnsw_params_validate_ok default_hnsw_params_def
      kMinM_def kMaxM_def kMaxEf_def kMaxLevelCap_def)

theorem collection_create_total_witness:
  "\<exists>s. collection_create scalar_selection [] 0 (sample_config Hnsw) = Returned (Inr s) \<and> coll_inv s \<and> coll_view s = Map.empty"
  using collection_create_total [of scalar_selection, where creator = "[]" and now = 0 and cfg = "sample_config Hnsw"] sample_config_valid(2)
  by (auto simp: scalar_selection_def split: outcome.splits sum.splits)

definition sample_empty :: "index_type \<Rightarrow> collection_state" where
  "sample_empty t = (case collection_create scalar_selection [] 0 (sample_config t) of Returned (Inr s) \<Rightarrow> s)"

lemma sample_empty_facts:
  assumes "t = Flat \<or> t = Hnsw"
  shows "coll_inv (sample_empty t)" "coll_view (sample_empty t) = Map.empty" "cs_config (sample_empty t) = sample_config t"
    "st_rows (cs_vectors (sample_empty t)) = []"
  using collection_create_outcome [of scalar_selection "[]" 0 "sample_config t"] assms sample_config_valid
  by (auto simp: scalar_selection_def sample_empty_def)

definition all_memory :: faults where
  "all_memory = \<lparr>fa_entry = True, fa_prepare = True, fa_chunk = \<lambda>n. Some (replicate n f32_zero), fa_scratch = True, fa_search = True,
     fa_level0 = True, fa_arena = True\<rparr>"

lemma all_memory_fits: "alloc_fits (fa_chunk all_memory)"
  by (simp add: alloc_fits_def all_memory_def)

text \<open>
  C2. \<open>add\<close> refines a map update with the strong guarantee. Whatever the allocations do, it never
  aborts and keeps the invariant; when it returns OK the id maps to the (normalised) vector, \<open>get\<close>
  returns exactly it and every other id is as before; when it returns an error or throws, the map, the
  stored rows and the graph are unchanged.
\<close>

theorem collection_add_refines:
  assumes "coll_inv s" "alloc_fits (fa_chunk mem)"
  shows "case collection_add mem_copy mem s x v opts of (res, s') \<Rightarrow>
    coll_inv s' \<and>
    (case res of
       Returned st \<Rightarrow>
         if status_ok st
         then coll_view s' = (coll_view s)(x \<mapsto> stored_row s v) \<and> collection_get s' x = Inr (stored_row s v)
         else coll_view s' = coll_view s \<and> st_rows (cs_vectors s') = st_rows (cs_vectors s) \<and>
           graph_of (cs_backend s') = graph_of (cs_backend s)
     | Thrown \<Rightarrow> coll_view s' = coll_view s \<and> st_rows (cs_vectors s') = st_rows (cs_vectors s) \<and>
           graph_of (cs_backend s') = graph_of (cs_backend s)
     | Aborted \<Rightarrow> False)"
proof -
  obtain res s' where r: "collection_add mem_copy mem s x v opts = (res, s')" by fastforce
  have st: "store_ok s" using assms(1) by (rule coll_inv_store)
  note o1 = collection_add_outcome [OF assms r]
  show ?thesis
  proof (cases "status_ok (add_accepts s v) \<and> insert_outcome s x (io_upsert opts) (stored_row s v) res s'")
    case True
    then have io: "insert_outcome s x (io_upsert opts) (stored_row s v) res s'" by simp
    note V = insert_outcome_view [OF io st]
    show ?thesis unfolding r prod.case using V io
      by (cases res) (auto simp: insert_outcome_def same_contents_def collection_get_view split: if_splits)
  next
    case False
    then have "s' = s" "res = Returned (add_accepts s v) \<and> \<not> status_ok (add_accepts s v) \<or> res = Thrown"
      using o1 by (auto split: if_splits)
    then show ?thesis unfolding r prod.case using assms(1) by auto
  qed
qed

theorem collection_add_refines_witness:
  "case collection_add True all_memory (sample_empty Hnsw) 7 [f32_one] \<lparr>io_upsert = False\<rparr> of (res, s') \<Rightarrow>
    coll_inv s' \<and> res \<noteq> Aborted"
  using collection_add_refines [OF sample_empty_facts(1) all_memory_fits, where mem_copy = True and x = 7 and v = "[f32_one]" and opts = "\<lparr>io_upsert = False\<rparr>" and t1 = Hnsw]
  by (auto split: prod.splits)

text \<open>When a collection can take no further row: the row limit is reached, or the next node of the graph
  opens a chunk of upper-level words beyond the last one.\<close>

definition arena_full :: "hnsw_graph \<Rightarrow> nat \<Rightarrow> bool" where
  "arena_full g level \<longleftrightarrow>
     level > 0 \<and> hg_arena_used g + level * hg_stride_upper g > hg_arena_chunk_words g \<and>
     length (hg_arena_chunks g) \<ge> 2 ^ (32 - hg_arena_shift g)"

definition collection_full :: "collection_state \<Rightarrow> bool" where
  "collection_full s \<longleftrightarrow>
     st_size (cs_vectors s) = kMaxVectorsPerCollection \<or>
     (case cs_backend s of HnswBackend b \<Rightarrow> arena_full (hb_graph b) (level_for (hb_levels b) (node_count (hb_graph b))) | _ \<Rightarrow> False)"

lemma add_node_room:
  assumes "add_node m1 m2 g level = (Returned st, g')" "level \<le> hg_max_level g" "node_count g < kMaxVectorsPerCollection"
  shows "status_ok st \<longleftrightarrow> \<not> arena_full g level"
  using assms by (auto simp: add_node_def Let_def arena_full_def node_count_def split: if_splits)

lemma hnsw_add_room:
  assumes "hnsw_add mp ms m1 m2 b v i = (Returned st, b')" "level_for (hb_levels b) i \<le> hg_max_level (hb_graph b)"
    "node_count (hb_graph b) < kMaxVectorsPerCollection"
  shows "status_ok st \<longleftrightarrow> \<not> arena_full (hb_graph b) (level_for (hb_levels b) i)"
proof -
  obtain r g where a: "add_node m1 m2 (hb_graph b) (level_for (hb_levels b) i) = (r, g)" by fastforce
  have "\<exists>st'. r = Returned st' \<and> status_ok st' = status_ok st" using assms(1) a
    by (auto simp: hnsw_add_def Let_def split: if_splits option.splits outcome.splits prod.splits)
  then show ?thesis using add_node_room [OF _ assms(2,3)] a by blast
qed

lemma undo_append_returned: "undo_append s r res = (Returned st, s') \<Longrightarrow> res = Returned st"
  by (auto simp: undo_append_def release_def split: option.splits)

lemma commit_row_returned: "commit_row s r i = (Returned st, s') \<Longrightarrow> status_ok st"
  by (auto simp: commit_row_def split: option.splits prod.splits if_splits)

text \<open>Past the checks on the id, an insertion succeeds exactly when there is room.\<close>

lemma insert_reserved_room:
  assumes inv: "coll_inv s" and m: "alloc_fits (fa_chunk mem)" and row: "length row = st_dim (cs_vectors s)"
    and r: "insert_reserved mem (backend_add mem) (s\<lparr>cs_ids := ids\<rparr>) r row = (Returned st, s')"
  shows "status_ok st \<longleftrightarrow> \<not> collection_full s"
proof -
  obtain U where U: "setup_ok s" "store_ok s" "im_pending (cs_ids s) = {}" "U \<subseteq> tb_rows (cs_deleted s)"
    "backend_ok (cs_config s) (cs_vectors s) (st_size (cs_vectors s)) U (cs_backend s)"
    using inv by (rule coll_invE)
  let ?v = "cs_vectors s" and ?n = "st_size (cs_vectors s)"
  note D = store_okD [OF U(2)]
  have mx: "st_max_rows ?v = kMaxVectorsPerCollection" "?n \<le> kMaxVectorsPerCollection"
    using D st_invD(6,7) [OF D(1)] by (simp_all add: store_ok_def)
  obtain a v where a: "st_append (fa_chunk mem) ?v row = (a, v)" by fastforce
  show ?thesis
  proof (cases "?n < st_max_rows ?v")
    case False
    then obtain e where e: "a = Returned (Inl e)" "code e = ResourceExhausted"
      using st_append_errors(2) [OF row, of "fa_chunk mem"] a by auto
    have "st = e" using r a e(1) by (auto simp: insert_reserved_def Let_def release_def split: if_splits option.splits)
    then show ?thesis using e(2) False mx by (simp add: status_ok_def collection_full_def)
  next
    case True
    from st_append_ok [OF D(1) m row this a]
    consider "a = Thrown" | "a = Returned (Inr ?n)" by blast
    then show ?thesis
    proof cases
      case 1
      then show ?thesis using r a by (auto simp: insert_reserved_def Let_def release_def split: if_splits option.splits)
    next
      case 2
      obtain res b' where i: "backend_add mem v (cs_backend s) ?n = (res, b')" by fastforce
      have res: "\<exists>st'. res = Returned st' \<and> status_ok st' = status_ok st"
        using r a 2 i by (cases res)
          (auto simp: insert_reserved_def Let_def release_def split: if_splits option.splits dest!: undo_append_returned commit_row_returned)
      show ?thesis
      proof (cases "cs_backend s")
        case NoBackend
        then show ?thesis using U(5) by simp
      next
        case (FlatBackend mt nm k)
        then show ?thesis using i res mx True by (auto simp: collection_full_def flat_add_def split: option.splits if_splits)
      next
        case (HnswBackend b)
        have h: "hnsw_ok (cs_config s) ?v ?n U b" using U(5) HnswBackend by simp
        have n: "node_count (hb_graph b) = ?n" using h by (simp add: hnsw_ok_def)
        obtain st' b1 where "hnsw_add (fa_scratch mem) (fa_search mem) (fa_level0 mem) (fa_arena mem) b v ?n = (Returned st', b1)"
          "status_ok st' = status_ok st" using i HnswBackend res by (auto split: prod.splits)
        then show ?thesis using hnsw_add_room [OF _ hnsw_ok_level [OF h]] n mx True HnswBackend by (auto simp: collection_full_def)
      qed
    qed
  qed
qed

text \<open>
  C13. The documented errors of \<open>add\<close>, each exactly when its condition holds, in this order: a wrong
  length is \<open>DimensionMismatch\<close>; a component out of bounds, a vector that cannot be normalised or the
  reserved id is \<open>InvalidArgument\<close>; a present id without upsert is \<open>AlreadyExists\<close>; a collection at its row
  limit, or whose graph has no room for the upper levels of the next node, is \<open>ResourceExhausted\<close>; every
  other \<open>add\<close> that returns is a success.
\<close>

theorem collection_add_errors:
  assumes "coll_inv s" "alloc_fits (fa_chunk mem)" "collection_add mem_copy mem s x v opts = (Returned st, s')"
  defines "dim \<equiv> unat (cc_dim (cs_config s))"
  shows "if length v \<noteq> dim then code st = DimensionMismatch
    else if (\<exists>c\<in>set v. \<not> component_ok c) \<or> (effective_normalize (cs_config s) \<and> \<not> has_value (inverse_norm v scalar_kernel_table)) \<or>
      x = kInvalidExternalId then code st = InvalidArgument
    else if x \<in> dom (coll_view s) \<and> \<not> io_upsert opts then code st = AlreadyExists
    else code st = (if collection_full s then ResourceExhausted else Ok)"
proof -
  have su: "setup_ok s" using assms(1) by (simp add: coll_inv_def)
  then have k: "cs_kernels s = scalar_kernel_table" by (simp add: setup_ok_def)
  have acc: "if length v \<noteq> dim then code (add_accepts s v) = DimensionMismatch
    else if (\<exists>c\<in>set v. \<not> component_ok c) \<or> (effective_normalize (cs_config s) \<and> \<not> has_value (inverse_norm v scalar_kernel_table))
    then code (add_accepts s v) = InvalidArgument else code (add_accepts s v) = Ok"
  proof (cases "status_ok (validate_vector v dim)")
    case True
    then show ?thesis using inverse_norm_code [of v scalar_kernel_table]
      by (auto simp: add_accepts_def dim_def [symmetric] k normalize_inplace_def has_value_def ok_status_def validate_vector_ok split: sum.splits)
  next
    case False
    then have "add_accepts s v = validate_vector v dim" by (simp add: add_accepts_def dim_def)
    moreover have "length v = dim \<Longrightarrow> \<exists>c\<in>set v. \<not> component_ok c" using False by (simp add: validate_vector_ok)
    ultimately show ?thesis using validate_vector_codes [of v dim] False by auto
  qed
  have rest: "code st = (if collection_full s then ResourceExhausted else Ok)"
    if io: "insert_outcome s x (io_upsert opts) (stored_row s v) (Returned st) s'" and ac: "status_ok (add_accepts s v)"
      and x: "x \<noteq> kInvalidExternalId" "x \<in> dom (coll_view s) \<longrightarrow> io_upsert opts"
  proof -
    obtain rv where ir: "insert_row mem backend_add s x (io_upsert opts) (stored_row s v) = (Returned st, rv, s')"
      and row: "status_ok (validate_vector (stored_row s v) (unat (cc_dim (cs_config s))))"
      using collection_add_cases [OF assms(3) su] ac by auto
    have len: "length (stored_row s v) = st_dim (cs_vectors s)"
      using row store_okD(3) [OF coll_inv_store [OF assms(1)]] by (simp add: validate_vector_ok)
    obtain o1 ids where o1: "im_reserve (cs_ids s) x (io_upsert opts) = (o1, ids)" by fastforce
    show ?thesis
    proof (cases o1)
      case (Inl e)
      then have "st = e" using ir o1 by (auto simp: insert_row_def split: if_splits)
      then show ?thesis using im_reserve_error [of "cs_ids s" x "io_upsert opts" e ids] o1 Inl io x
        by (auto simp: insert_outcome_def split: if_splits)
    next
      case (Inr r)
      then have "insert_reserved mem (backend_add mem) (s\<lparr>cs_ids := ids\<rparr>) r (stored_row s v) = (Returned st, s')"
        using ir o1 by (auto simp: insert_row_def split: if_splits prod.splits)
      from insert_reserved_room [OF assms(1,2) len this] show ?thesis
        using io x by (auto simp: insert_outcome_def status_ok_def split: if_splits)
    qed
  qed
  show ?thesis
  proof (cases "status_ok (add_accepts s v)")
    case True
    then have io: "insert_outcome s x (io_upsert opts) (stored_row s v) (Returned st) s'"
      using collection_add_outcome [OF assms(1-3)] by simp
    have codes: "x = kInvalidExternalId \<Longrightarrow> code st = InvalidArgument"
      "x \<noteq> kInvalidExternalId \<Longrightarrow> x \<in> dom (coll_view s) \<and> \<not> io_upsert opts \<Longrightarrow> code st = AlreadyExists"
      using io by (auto simp: insert_outcome_def status_ok_def split: if_splits)
    have f: "(length v \<noteq> dim) = False" "(\<exists>c\<in>set v. \<not> component_ok c) = False"
      "(effective_normalize (cs_config s) \<and> \<not> has_value (inverse_norm v scalar_kernel_table)) = False"
      using acc True by (auto simp: status_ok_def split: if_splits)
    have "if x = kInvalidExternalId then code st = InvalidArgument
      else if x \<in> dom (coll_view s) \<and> \<not> io_upsert opts then code st = AlreadyExists
      else code st = (if collection_full s then ResourceExhausted else Ok)"
      using codes rest [OF io True] by metis
    then show ?thesis unfolding f simp_thms if_False .
  next
    case False
    then have "st = add_accepts s v" using collection_add_outcome [OF assms(1-3)] by simp
    then show ?thesis using acc False by (auto simp: status_ok_def split: if_splits)
  qed
qed

theorem collection_add_errors_witness:
  "(\<exists>st. fst (collection_add True all_memory (sample_empty Flat) 7 [] \<lparr>io_upsert = False\<rparr>) = Returned st \<and> code st = DimensionMismatch)"
proof -
  obtain st s' where r: "collection_add True all_memory (sample_empty Flat) 7 [] \<lparr>io_upsert = False\<rparr> = (Returned st, s')"
    by (simp add: collection_add_def sample_empty_facts sample_config_def validate_vector_def)
  then show ?thesis using collection_add_errors [OF sample_empty_facts(1) all_memory_fits r]
    by (simp add: sample_empty_facts sample_config_def)
qed

text \<open>
  C4. \<open>remove\<close> refines deletion from the map: it returns OK exactly for a present id, which is then
  absent (its row tombstoned, nothing moved), and \<open>NotFound\<close> with no change otherwise; it never aborts.
\<close>

theorem collection_remove_refines:
  assumes "coll_inv s"
  shows "\<exists>st s'. collection_remove s x = (Returned st, s') \<and> coll_inv s' \<and> coll_view s' = (coll_view s)(x := None) \<and>
    collection_size s' = collection_size s - (if x \<in> dom (coll_view s) then 1 else 0) \<and>
    code st = (if x \<in> dom (coll_view s) then Ok else NotFound) \<and> cs_vectors s' = cs_vectors s \<and> cs_backend s' = cs_backend s"
proof -
  obtain res s' where r: "collection_remove s x = (res, s')" by fastforce
  obtain st where st: "res = Returned st" "coll_inv s'"
    "if x \<in> dom (coll_view s)
     then status_ok st \<and> coll_view s' = (coll_view s)(x := None) \<and> cs_vectors s' = cs_vectors s \<and> cs_backend s' = cs_backend s
     else code st = NotFound \<and> s' = s" using collection_remove_outcome [OF assms r] by blast
  have sz: "collection_size s = card (dom (coll_view s))" "collection_size s' = card (dom (coll_view s'))"
    using collection_size_view coll_inv_store assms st(2) by blast+
  have fin: "finite (dom (coll_view s))" using assms by (simp add: dom_coll_view finite_im_find coll_inv_def store_ok_def)
  show ?thesis
  proof (cases "x \<in> dom (coll_view s)")
    case True
    then show ?thesis using r st sz fin by (auto simp: status_ok_def)
  next
    case False
    then have "(coll_view s)(x := None) = coll_view s" by auto
    then show ?thesis using r st False by simp
  qed
qed

theorem collection_remove_refines_witness:
  "\<exists>st s'. collection_remove (sample_empty Flat) 7 = (Returned st, s') \<and> coll_inv s' \<and> code st = NotFound"
  using collection_remove_refines [OF sample_empty_facts(1), of Flat 7] by (auto simp: sample_empty_facts)

end
