(* ===== verification/VF_Compact.thy ===== *)
theory VF_Compact
  imports VF_CollectionOps
begin

text \<open>
  Compaction (\<open>Collection::compact\<close> of \<^verbatim>\<open>src/collection/collection.cpp\<close>): the live rows are re-inserted in
  their order into a fresh state, which then replaces the old one. \<open>mems\<close> gives the allocations of each
  insertion, \<open>mem_state\<close> and \<open>mem_reserve\<close> those of the fresh state and of the up-front reservations.
\<close>

record compact_stats =
  ct_rows_before :: nat
  ct_removed_rows :: nat
  ct_rows_after :: nat

fun compact_rows :: "(nat \<Rightarrow> faults) \<Rightarrow> collection_state \<Rightarrow> internal_id list \<Rightarrow> collection_state \<Rightarrow> status outcome \<times> collection_state" where
  "compact_rows mems old [] rebuilt = (Returned ok_status, rebuilt)"
| "compact_rows mems old (r # rs) rebuilt =
     (if tb_test (cs_deleted old) r then compact_rows mems old rs rebuilt
      else case im_label (cs_ids old) r of
        None \<Rightarrow> (Aborted, rebuilt)
      | Some x \<Rightarrow>
          (case insert_row (mems r) backend_add rebuilt x False (st_row (cs_vectors old) r) of
             (Returned st, _, s1) \<Rightarrow> if status_ok st then compact_rows mems old rs s1 else (Returned st, s1)
           | (Thrown, _, s1) \<Rightarrow> (Thrown, s1)
           | (Aborted, _, s1) \<Rightarrow> (Aborted, s1)))"

definition compact_state :: "collection_state \<Rightarrow> vector_store \<Rightarrow> collection_state" where
  "compact_state old store =
     (new_state (cs_config old) store (cs_kernels old))\<lparr>cs_creator := cs_creator old, cs_created_unix_ms := cs_created_unix_ms old\<rparr>"

definition collection_compact :: "bool \<Rightarrow> allocator \<Rightarrow> bool \<Rightarrow> (nat \<Rightarrow> faults) \<Rightarrow> collection_state
    \<Rightarrow> compact_stats result outcome \<times> collection_state" where
  "collection_compact mem_state alloc mem_reserve mems old =
     (let n = st_size (cs_vectors old);
          stats = \<lparr>ct_rows_before = n, ct_removed_rows = tb_count (cs_deleted old), ct_rows_after = n\<rparr>
      in if tb_count (cs_deleted old) = 0 then (Returned (Inr stats), old)
         else case st_create (store_options_for (cs_config old)) of
           Inl e \<Rightarrow> (Returned (Inl e), old)
         | Inr store \<Rightarrow>
             if \<not> mem_state then (Thrown, old)
             else (case attach_backend (compact_state old store) of
                (st, s1) \<Rightarrow>
                  if \<not> status_ok st then (Returned (Inl st), old)
                  else (case st_reserve alloc (cs_vectors s1) (im_size (cs_ids old)) of
                     (Thrown, v) \<Rightarrow> (Thrown, old)
                   | (Aborted, v) \<Rightarrow> (Aborted, old)
                   | (Returned st2, v) \<Rightarrow>
                       if \<not> status_ok st2 then (Returned (Inl st2), old)
                       else if \<not> mem_reserve then (Thrown, old)
                       else (case compact_rows mems old [0..<n]
                                    (s1\<lparr>cs_vectors := v, cs_deleted := tb_ensure_size (cs_deleted s1) (im_size (cs_ids old))\<rparr>) of
                          (Thrown, s2) \<Rightarrow> (Thrown, old)
                        | (Aborted, s2) \<Rightarrow> (Aborted, old)
                        | (Returned st3, s2) \<Rightarrow>
                            if \<not> status_ok st3 then (Returned (Inl st3), old)
                            else (Returned (Inr (stats\<lparr>ct_rows_after := st_size (cs_vectors s2)\<rparr>)), s2)))))"

subsection \<open>The live rows\<close>

text \<open>The ids and rows that survive, in their order.\<close>

definition live_rows :: "collection_state \<Rightarrow> (external_id \<times> f32 list) list" where
  "live_rows s = map (\<lambda>i. (im_labels (cs_ids s) ! i, st_row (cs_vectors s) i))
     (filter (\<lambda>i. \<not> tb_test (cs_deleted s) i) [0..<st_size (cs_vectors s)])"

lemma live_row_ids:
  assumes "store_ok s"
  shows "distinct (map fst (live_rows s))" "map_of (live_rows s) = coll_view s"
proof -
  let ?is = "filter (\<lambda>i. \<not> tb_test (cs_deleted s) i) [0..<st_size (cs_vectors s)]"
  have inj: "inj_on (\<lambda>i. im_labels (cs_ids s) ! i) (set ?is)"
  proof (rule inj_onI)
    fix i j assume a: "i \<in> set ?is" "j \<in> set ?is" "im_labels (cs_ids s) ! i = im_labels (cs_ids s) ! j"
    have "im_find (cs_ids s) (im_labels (cs_ids s) ! i) = Some i" "im_find (cs_ids s) (im_labels (cs_ids s) ! j) = Some j"
      using live_row_find [OF assms, of i] live_row_find [OF assms, of j] a(1,2) by simp_all
    then show "i = j" using a(3) by (metis option.inject)
  qed
  have m: "map fst (live_rows s) = map (\<lambda>i. im_labels (cs_ids s) ! i) ?is" by (simp add: live_rows_def comp_def)
  show d: "distinct (map fst (live_rows s))" unfolding m using inj by (simp add: distinct_map)
  show "map_of (live_rows s) = coll_view s"
  proof
    fix x
    show "map_of (live_rows s) x = coll_view s x"
    proof (cases "im_find (cs_ids s) x")
      case None
      have "x \<notin> fst ` set (live_rows s)"
      proof
        assume "x \<in> fst ` set (live_rows s)"
        then obtain i where "i < st_size (cs_vectors s)" "\<not> tb_test (cs_deleted s) i" "x = im_labels (cs_ids s) ! i"
          by (auto simp: live_rows_def)
        then show False using live_row_find [OF assms] None by auto
      qed
      then show ?thesis using None by (simp add: coll_view_def map_of_eq_None_iff [THEN iffD2])
    next
      case (Some i)
      note F = im_find_row [OF assms Some]
      have "(x, st_row (cs_vectors s) i) \<in> set (live_rows s)" using F by (auto simp: live_rows_def)
      then show ?thesis using d Some by (simp add: coll_view_def)
    qed
  qed
qed

text \<open>Inserting rows with fresh ids into an empty collection keeps them in order.\<close>

definition holds_rows :: "(external_id \<times> f32 list) list \<Rightarrow> collection_state \<Rightarrow> bool" where
  "holds_rows xs s \<longleftrightarrow> coll_inv s \<and> st_rows (cs_vectors s) = map snd xs \<and> im_labels (cs_ids s) = map fst xs \<and>
     tb_rows (cs_deleted s) = {} \<and> dom (coll_view s) = fst ` set xs"

lemma holds_rows_insert:
  assumes "holds_rows xs s" "row_inserted s x row s'" "coll_inv s'" "x \<notin> fst ` set xs"
  shows "holds_rows (xs @ [(x, row)]) s'"
proof -
  have st: "store_ok s" using assms(1) by (simp add: holds_rows_def coll_inv_def)
  have nf: "im_find (cs_ids s) x = None" using assms(1,4) by (auto simp: holds_rows_def dom_coll_view)
  then have "tb_rows (cs_deleted s') = {}" using row_inserted_tombstones [OF st assms(2)] assms(1) by (simp add: holds_rows_def)
  moreover have "dom (coll_view s') = fst ` set (xs @ [(x, row)])"
    using row_inserted_view [OF st assms(2)] assms(1) by (auto simp: holds_rows_def)
  ultimately show ?thesis using assms by (simp add: holds_rows_def row_inserted_def)
qed

definition live_part :: "collection_state \<Rightarrow> internal_id list \<Rightarrow> (external_id \<times> f32 list) list" where
  "live_part s is = map (\<lambda>i. (im_labels (cs_ids s) ! i, st_row (cs_vectors s) i)) (filter (\<lambda>i. \<not> tb_test (cs_deleted s) i) is)"

lemma upt_range: "set [0..<n] \<subseteq> {..<n}"
  by auto

lemma live_part_all: "live_part s [0..<st_size (cs_vectors s)] = live_rows s"
  by (simp add: live_part_def live_rows_def)

lemma valid_label: "im_inv m \<Longrightarrow> im_find m x = Some i \<Longrightarrow> x \<noteq> kInvalidExternalId"
  using im_invD(3) [of m] by (auto simp: im_find_def)

lemma compact_rows_outcome:
  assumes old: "coll_inv old" and m: "\<And>r. alloc_fits (fa_chunk (mems r))"
  shows "compact_rows mems old rs s = (res, s') \<Longrightarrow> holds_rows xs s \<Longrightarrow> same_frame old s \<Longrightarrow> set rs \<subseteq> {..<st_size (cs_vectors old)} \<Longrightarrow>
    distinct (map fst (xs @ live_part old rs)) \<Longrightarrow>
    (case res of Returned st \<Rightarrow> if status_ok st then holds_rows (xs @ live_part old rs) s' \<and> same_frame old s' else code st = ResourceExhausted
     | Thrown \<Rightarrow> True | Aborted \<Rightarrow> False)"
proof (induction rs arbitrary: s xs)
  case Nil
  then show ?case by (auto simp: live_part_def)
next
  case (Cons r rs)
  have st: "store_ok old" using old by (rule coll_inv_store)
  show ?case
  proof (cases "tb_test (cs_deleted old) r")
    case True
    then have eq: "live_part old (r # rs) = live_part old rs" by (simp add: live_part_def)
    show ?thesis unfolding eq by (rule Cons.IH) (use Cons.prems True eq in simp_all)
  next
    case False
    let ?x = "im_labels (cs_ids old) ! r" and ?row = "st_row (cs_vectors old) r"
    have r: "r < st_size (cs_vectors old)" using Cons.prems(4) by simp
    have lab: "im_label (cs_ids old) r = Some ?x" using r store_okD(6) [OF st] by (simp add: im_label_def)
    have x: "?x \<noteq> kInvalidExternalId" using valid_label [OF store_okD(5) [OF st] live_row_find [OF st r False]] .
    have lp: "live_part old (r # rs) = (?x, ?row) # live_part old rs" using False by (simp add: live_part_def)
    have s: "coll_inv s" "?x \<notin> fst ` set xs" "?x \<notin> dom (coll_view s)"
      using Cons.prems(2,5) lp by (auto simp: holds_rows_def image_iff)
    obtain o1 rv s1 where i: "insert_row (mems r) backend_add s ?x False ?row = (o1, rv, s1)" by (metis prod_cases3)
    have "status_ok (validate_vector ?row (unat (cc_dim (cs_config s))))"
      using store_okD(2,3) [OF st] r Cons.prems(3) by (simp add: rows_ok_def same_frame_def)
    note io = insert_row_outcome [OF s(1) m this i]
    show ?thesis
    proof (cases "\<exists>st. o1 = Returned st \<and> status_ok st")
      case True
      then obtain st1 where st1: "o1 = Returned st1" "status_ok st1" by blast
      then have ri: "row_inserted s ?x ?row s1" "coll_inv s1" using io by (simp_all add: insert_outcome_def)
      have h: "holds_rows (xs @ [(?x, ?row)]) s1" by (rule holds_rows_insert [OF Cons.prems(2) ri s(2)])
      have f: "same_frame old s1" using ri(1) Cons.prems(3) same_frame_trans by (simp add: row_inserted_def)
      have run: "compact_rows mems old rs s1 = (res, s')" using Cons.prems(1) False lab i st1 by simp
      have eq: "xs @ live_part old (r # rs) = (xs @ [(?x, ?row)]) @ live_part old rs" using lp by simp
      show ?thesis unfolding eq by (rule Cons.IH [OF run h f]) (use Cons.prems(4,5) eq in simp_all)
    next
      case nok: False
      then show ?thesis using Cons.prems(1) False lab i io x s(3)
        by (cases o1) (auto simp: insert_outcome_def split: if_splits)
    qed
  qed
qed

lemma attach_backend_empty:
  assumes "setup_ok old" "st_create (store_options_for (cs_config old)) = Inr store"
  shows "\<exists>st s. attach_backend (compact_state old store) = (st, s) \<and> status_ok st \<and> holds_rows [] s \<and> same_frame old s \<and> cs_vectors s = store \<and>
    cs_deleted s = tb_empty"
proof -
  let ?simd = "\<lparr>ks_status = ok_status, ks_table = scalar_kernel_table\<rparr>"
  have k: "cs_kernels old = scalar_kernel_table" and v: "status_ok (collection_config_validate (cs_config old))"
    and nm: "cs_normalized old = effective_normalize (cs_config old)" using assms(1) by (simp_all add: setup_ok_def)
  obtain s where s: "collection_create ?simd (cs_creator old) (cs_created_unix_ms old) (cs_config old) = Returned (Inr s)"
    "coll_inv s" "coll_view s = Map.empty" "cs_config s = cs_config old" "cs_creator s = cs_creator old"
    "cs_created_unix_ms s = cs_created_unix_ms old" "st_rows (cs_vectors s) = []"
    using collection_create_outcome [of ?simd "cs_creator old" "cs_created_unix_ms old" "cs_config old"] v by auto
  have a: "attach_backend (compact_state old store) = (fst (attach_backend (compact_state old store)), s)"
    "status_ok (fst (attach_backend (compact_state old store)))"
    using s(1) v assms(2) k by (auto simp: collection_create_def compact_state_def split: prod.splits if_splits)
  have e: "cs_vectors s = store" "cs_deleted s = tb_empty" "cs_ids s = im_empty" "cs_kernels s = scalar_kernel_table"
    "cs_normalized s = effective_normalize (cs_config old)"
    using a(1) by (auto simp: attach_backend_def compact_state_def new_state_def k split: index_type.splits sum.splits)
  have "holds_rows [] s" using s(2,3,7) e by (simp add: holds_rows_def im_empty_def)
  moreover have "same_frame old s" using s e k nm by (simp add: same_frame_def)
  ultimately show ?thesis using a e by (intro exI conjI) (assumption | rule refl)+
qed

lemma live_rows_counts:
  assumes "store_ok s"
  shows "tb_count (cs_deleted s) = st_size (cs_vectors s) - collection_size s"
    "collection_size s = length (live_rows s)" "collection_size s \<le> st_size (cs_vectors s)"
proof -
  note D = store_okD [OF assms] and L = live_row_ids [OF assms]
  have "collection_size s = card (dom (map_of (live_rows s)))" using collection_size_view [OF assms] L(2) by simp
  also have "\<dots> = card (set (map fst (live_rows s)))" by (simp add: dom_map_of_conv_image_fst)
  also have "\<dots> = length (live_rows s)" using distinct_card [OF L(1)] by simp
  finally show len: "collection_size s = length (live_rows s)" .
  have f: "length (live_rows s) = card {i. i < st_size (cs_vectors s) \<and> i \<notin> tb_rows (cs_deleted s)}"
    by (simp add: live_rows_def length_filter_conv_card tb_rows_def cong: conj_cong)
  have "card {i. i < st_size (cs_vectors s) \<and> i \<notin> tb_rows (cs_deleted s)} = card ({..<st_size (cs_vectors s)} - tb_rows (cs_deleted s))"
    by (rule arg_cong [where f = card]) auto
  also have "\<dots> = st_size (cs_vectors s) - card (tb_rows (cs_deleted s))"
    by (subst card_Diff_subset [OF finite_tb_rows]) (use D(9) in auto)
  finally have "length (live_rows s) = st_size (cs_vectors s) - card (tb_rows (cs_deleted s))" using f by simp
  moreover have "card (tb_rows (cs_deleted s)) \<le> card {..<st_size (cs_vectors s)}" by (rule card_mono) (use D(9) in auto)
  ultimately show "tb_count (cs_deleted s) = st_size (cs_vectors s) - collection_size s" "collection_size s \<le> st_size (cs_vectors s)"
    using D(7) len by (simp_all add: tb_inv_def)
qed

lemma holds_rows_view:
  assumes "holds_rows xs s" "distinct (map fst xs)"
  shows "coll_view s = map_of xs"
proof -
  have st: "store_ok s" and r: "st_rows (cs_vectors s) = map snd xs" "im_labels (cs_ids s) = map fst xs" "tb_rows (cs_deleted s) = {}"
    using assms(1) by (simp_all add: holds_rows_def coll_inv_def)
  have sz: "st_size (cs_vectors s) = length xs" using r(1) length_st_rows [of "cs_vectors s"] by simp
  have "live_rows s = map (\<lambda>i. (im_labels (cs_ids s) ! i, st_rows (cs_vectors s) ! i)) [0..<length xs]"
    using r(3) by (simp add: live_rows_def tb_rows_def sz)
  also have "\<dots> = xs" by (rule nth_equalityI) (simp_all add: r)
  finally show ?thesis using live_row_ids(2) [OF st] by simp
qed

subsection \<open>Properties\<close>

text \<open>
  C3. \<open>compact\<close> either succeeds or leaves the collection untouched. On success the collection holds
  exactly the live rows under their ids, in their original order, without tombstones; the client's
  view is unchanged and the statistics are exact. The only error it can return is \<open>ResourceExhausted\<close>,
  and it never aborts, whatever the allocations do.
\<close>

theorem collection_compact_refines:
  assumes "coll_inv s" "alloc_fits alloc" "\<forall>r. alloc_fits (fa_chunk (mems r))"
  shows "case collection_compact mem_state alloc mem_reserve mems s of (res, s') \<Rightarrow>
    coll_inv s' \<and> coll_view s' = coll_view s \<and>
    (case res of
       Returned (Inr stats) \<Rightarrow>
         st_rows (cs_vectors s') = map snd (live_rows s) \<and> im_labels (cs_ids s') = map fst (live_rows s) \<and>
         tb_rows (cs_deleted s') = {} \<and> ct_rows_before stats = st_size (cs_vectors s) \<and>
         ct_rows_after stats = collection_size s \<and> ct_removed_rows stats = st_size (cs_vectors s) - collection_size s
     | Returned (Inl st) \<Rightarrow> code st = ResourceExhausted \<and> s' = s
     | Thrown \<Rightarrow> s' = s
     | Aborted \<Rightarrow> False)"
proof -
  have su: "setup_ok s" and st: "store_ok s" using assms(1) by (simp_all add: coll_inv_def)
  note D = store_okD [OF st] and L = live_row_ids [OF st]
  have cnt: "tb_count (cs_deleted s) = st_size (cs_vectors s) - collection_size s"
    "collection_size s = length (live_rows s)" "collection_size s \<le> st_size (cs_vectors s)"
    using live_rows_counts [OF st] by simp_all
  obtain store where c: "st_create (store_options_for (cs_config s)) = Inr store"
    using st_create_default [OF _ setup_dim [OF su]] st_invD(1) [OF D(1)] D(3) by (auto simp: store_options_for_def Suc_le_eq)
  obtain st1 s1 where a: "attach_backend (compact_state s store) = (st1, s1)" "status_ok st1" "holds_rows [] s1" "same_frame s s1"
    "cs_vectors s1 = store" "cs_deleted s1 = tb_empty" using attach_backend_empty [OF su c] by blast
  obtain rr v where rv: "st_reserve alloc store (im_size (cs_ids s)) = (rr, v)" by fastforce
  let ?s2 = "s1\<lparr>cs_vectors := v, cs_deleted := tb_ensure_size (cs_deleted s1) (im_size (cs_ids s))\<rparr>"
  have i1: "coll_inv s1" using a(3) by (simp add: holds_rows_def)
  have s2: "coll_inv ?s2" "same_contents s1 ?s2"
    using store_ok_reserved [OF i1 rv [folded a(5)] assms(2), of "im_size (cs_ids s)"] by simp_all
  have h2: "holds_rows [] ?s2" "same_frame s ?s2"
    using s2 a(3,4) same_contents_view [OF coll_inv_store [OF i1] s2(2)] by (simp_all add: holds_rows_def same_contents_def)
  have rsv: "rr = Thrown \<or> (\<exists>st. rr = Returned st \<and> (status_ok st \<or> code st = ResourceExhausted))"
    using st_reserve_ok [OF _ assms(2) rv] st_create_ok(1) [OF c] by (cases rr) (auto split: if_splits)
  obtain rc s3 where cr: "compact_rows mems s [0..<st_size (cs_vectors s)] ?s2 = (rc, s3)" by fastforce
  have "distinct (map fst ([] @ live_part s [0..<st_size (cs_vectors s)]))" using L(1) by (simp add: live_part_all)
  note R = compact_rows_outcome [OF assms(1) assms(3) [rule_format] cr h2 upt_range this, unfolded live_part_all append_Nil]
  have same: ?thesis if "collection_compact mem_state alloc mem_reserve mems s = (res, s)"
    "res = Thrown \<or> (\<exists>st. res = Returned (Inl st) \<and> code st = ResourceExhausted)" for res
    using that assms(1) by auto
  show ?thesis
  proof (cases "tb_count (cs_deleted s) = 0")
    case True
    then have z: "tb_rows (cs_deleted s) = {}" using tb_any_iff [OF D(7)] by (simp add: tb_any_def)
    then have "filter (\<lambda>i. \<not> tb_test (cs_deleted s) i) [0..<st_size (cs_vectors s)] = [0..<st_size (cs_vectors s)]"
      by (auto simp: filter_id_conv tb_rows_def)
    then have "st_rows (cs_vectors s) = map snd (live_rows s)" "im_labels (cs_ids s) = map fst (live_rows s)"
      using D(6) map_nth [of "im_labels (cs_ids s)"] by (simp_all add: live_rows_def st_rows_def comp_def)
    then show ?thesis using True z assms(1) cnt by (simp add: collection_compact_def Let_def)
  next
    case False
    show ?thesis
    proof (cases "mem_state \<and> (\<exists>st. rr = Returned st \<and> status_ok st) \<and> mem_reserve \<and> (\<exists>st. rc = Returned st \<and> status_ok st)")
      case True
      then obtain st2 st3 where t: "mem_state" "rr = Returned st2" "status_ok st2" "mem_reserve" "rc = Returned st3" "status_ok st3" by blast
      have h: "holds_rows (live_rows s) s3" using R t(5,6) by simp
      then have "coll_inv s3" by (simp add: holds_rows_def)
      have view: "coll_view s3 = coll_view s"
        using holds_rows_view [OF h L(1)] L(2) by simp
      have run: "collection_compact mem_state alloc mem_reserve mems s = (Returned (Inr \<lparr>ct_rows_before = st_size (cs_vectors s),
          ct_removed_rows = tb_count (cs_deleted s), ct_rows_after = st_size (cs_vectors s3)\<rparr>), s3)"
        using False t c a rv cr by (simp add: collection_compact_def Let_def)
      have "st_size (cs_vectors s3) = collection_size s" using h cnt(2) length_st_rows [of "cs_vectors s3"] by (simp add: holds_rows_def)
      then show ?thesis unfolding run using h view \<open>coll_inv s3\<close> cnt by (simp add: holds_rows_def)
    next
      case nok: False
      show ?thesis
        by (rule same [where res = "fst (collection_compact mem_state alloc mem_reserve mems s)"])
          (use False nok c a rv cr rsv R in \<open>auto simp: collection_compact_def Let_def split: outcome.splits if_splits\<close>)
    qed
  qed
qed

definition sample_removed :: collection_state where
  "sample_removed = snd (collection_remove (snd (collection_add True all_memory (sample_empty Flat) 7 [f32_one] \<lparr>io_upsert = False\<rparr>)) 7)"

theorem collection_compact_refines_witness:
  "coll_inv sample_removed \<and>
   (case collection_compact True (fa_chunk all_memory) True (\<lambda>_. all_memory) sample_removed of (res, s') \<Rightarrow>
      coll_inv s' \<and> coll_view s' = coll_view sample_removed \<and> res \<noteq> Aborted)"
proof -
  let ?s = "snd (collection_add True all_memory (sample_empty Flat) 7 [f32_one] \<lparr>io_upsert = False\<rparr>)"
  obtain res s1 where r: "collection_add True all_memory (sample_empty Flat) 7 [f32_one] \<lparr>io_upsert = False\<rparr> = (res, s1)" by fastforce
  have "insert_outcome (sample_empty Flat) 7 False (stored_row (sample_empty Flat) [f32_one]) res s1 \<or> s1 = sample_empty Flat"
    using collection_add_outcome [OF sample_empty_facts(1) all_memory_fits r] by (auto split: if_splits)
  then have "coll_inv ?s" using r sample_empty_facts(1) [of Flat] by (auto simp: insert_outcome_def)
  then have "coll_inv sample_removed"
    using collection_remove_outcome [of ?s 7] unfolding sample_removed_def by (metis prod.collapse)
  then show ?thesis
    using collection_compact_refines [of sample_removed "fa_chunk all_memory" "\<lambda>_. all_memory" True True] all_memory_fits
    by (auto split: prod.splits)
qed

end
