(* ===== verification/VF_Counters.thy ===== *)
theory VF_Counters
  imports VF_Prelude "HOL-Library.Multiset"
begin

text \<open>
  Lemmas shared by the concurrency components: unsigned 64-bit counters that stay in range.
\<close>

lemma word_counter:
  fixes x :: u64
  shows "unat x + 1 < 2 ^ 64 \<Longrightarrow> unat (x + 1) = unat x + 1" "0 < unat x \<Longrightarrow> unat (x - 1) = unat x - 1" "x > 0 \<longleftrightarrow> unat x > 0" "x = 0 \<longleftrightarrow> unat x = 0"
  using unat_sub [of 1 x] by (simp_all add: unat_plus_simple [THEN iffD1] word_less_nat_alt word_le_nat_alt unat_eq_0 unat_word_ariths)

end
