(* ===== verification/VF_ThreadPool.thy ===== *)
theory VF_ThreadPool
  imports VF_Counters
begin

text \<open>
  \<open>ThreadPool::run_ranges\<close> (\<^verbatim>\<open>src/concurrency/thread_pool.cpp\<close>), the engine of \<open>parallel_for\<close>, as a step
  relation: the caller spawns helpers, caller and helpers draw chunks from a shared counter, and the caller
  waits for the helpers; the allocation of their shared state may fail. A relaxed load of the failure flag may miss a store. Shown: a call that returns
  has run the body exactly once on each of the ranges that partition the interval, with no call of the body outliving it;
  a call that throws rethrows an exception of the body or failed to allocate before calling it; every execution ends.
\<close>

subsection \<open>Arguments and ranges\<close>

record range_args =
  ra_begin :: u64
  ra_end :: u64
  ra_grain :: u64
  ra_chunks :: u64
  ra_helpers :: u64

definition chunk_count :: "u64 \<Rightarrow> u64 \<Rightarrow> u64" where
  "chunk_count n grain = n div grain + (if n mod grain \<noteq> 0 then 1 else 0)"

definition chunk_range :: "range_args \<Rightarrow> u64 \<Rightarrow> u64 \<times> u64" where
  "chunk_range a c = (let lo = ra_begin a + c * ra_grain a in (lo, min (ra_end a) (lo + ra_grain a)))"

text \<open>What the call does: nothing, one call of the body on the calling thread, the parallel loop, or,
  where the allocation of the shared state fails (\<open>shared_mem\<close> is false), throw \<^verbatim>\<open>std::bad_alloc\<close> before any
  call of the body.\<close>

datatype range_plan = RunNothing | RunInline u64 u64 | RunThrows | RunParallel range_args

definition run_ranges :: "bool \<Rightarrow> bool \<Rightarrow> u64 \<Rightarrow> u64 \<Rightarrow> u64 \<Rightarrow> u64 \<Rightarrow> range_plan" where
  "run_ranges shared_mem on_worker threads b e g =
     (if b \<ge> e then RunNothing
      else let grain = max g 1; chunks = chunk_count (e - b) grain
        in if chunks = 1 \<or> on_worker then RunInline b e
           else if \<not> shared_mem then RunThrows
           else RunParallel \<lparr>ra_begin = b, ra_end = e, ra_grain = grain, ra_chunks = chunks, ra_helpers = min (chunks - 1) threads\<rparr>)"

subsection \<open>State\<close>

text \<open>Where a thread stands in \<open>run_chunks\<close> (\<open>Queued\<close> and \<open>Finished\<close>: before and after the task of a helper).\<close>

datatype chunk_phase = Queued | Check | Fetch | Body u64 | Catch u64 string | Exited | Finished

text \<open>The struct \<open>Shared\<close>; the last three fields are ghosts: the chunks drawn, the calls of the body that returned and those that threw.\<close>

record range_shared =
  rs_next :: u64
  rs_failed :: bool
  rs_error :: "string option"
  rs_started :: "u64 list"
  rs_completed :: "u64 list"
  rs_threw :: "(u64 \<times> string) list"

datatype caller_phase = Spawn nat | Counted nat | Looping chunk_phase | Waiting | ReturnedOk | Threw string

record range_state =
  r_shared :: range_shared
  r_running_helpers :: u64
  r_helpers :: "chunk_phase list"
  r_caller :: caller_phase

definition range_init :: range_state where
  "range_init = \<lparr>r_shared = \<lparr>rs_next = 0, rs_failed = False, rs_error = None, rs_started = [], rs_completed = [], rs_threw = []\<rparr>,
     r_running_helpers = 0, r_helpers = [], r_caller = Spawn 0\<rparr>"

subsection \<open>Steps\<close>

definition fetch_chunk :: "range_args \<Rightarrow> range_shared \<Rightarrow> range_shared \<times> chunk_phase" where
  "fetch_chunk a s =
     (let c = rs_next s; s1 = s\<lparr>rs_next := c + 1\<rparr>
      in if c \<ge> ra_chunks a then (s1, Exited) else (s1\<lparr>rs_started := rs_started s @ [c]\<rparr>, Body c))"

definition record_error :: "string \<Rightarrow> range_shared \<Rightarrow> range_shared" where
  "record_error e s = s\<lparr>rs_error := (if rs_error s = None then Some e else rs_error s), rs_failed := True\<rparr>"

text \<open>\<open>run_chunks\<close>, one access to the shared state at a time.\<close>

inductive chunk_step :: "range_args \<Rightarrow> range_shared \<Rightarrow> chunk_phase \<Rightarrow> range_shared \<Rightarrow> chunk_phase \<Rightarrow> bool" for a where
  load_failed: "rs_failed s \<Longrightarrow> chunk_step a s Check s Exited"
| load_clear: "chunk_step a s Check s Fetch"
| fetch: "fetch_chunk a s = (s', q) \<Longrightarrow> chunk_step a s Fetch s' q"
| body_returns: "chunk_step a s (Body c) (s\<lparr>rs_completed := rs_completed s @ [c]\<rparr>) Check"
| body_throws: "chunk_step a s (Body c) (s\<lparr>rs_threw := rs_threw s @ [(c, e)]\<rparr>) (Catch c e)"
| catch: "chunk_step a s (Catch c e) (record_error e s) Exited"

inductive range_step :: "range_args \<Rightarrow> range_state \<Rightarrow> range_state \<Rightarrow> bool" for a where
  count: "r_caller s = Spawn h \<Longrightarrow> h < unat (ra_helpers a) \<Longrightarrow>
    range_step a s (s\<lparr>r_running_helpers := r_running_helpers s + 1, r_caller := Counted h\<rparr>)"
| queued: "r_caller s = Counted h \<Longrightarrow> range_step a s (s\<lparr>r_helpers := r_helpers s @ [Queued], r_caller := Spawn (h + 1)\<rparr>)"
| not_queued: "r_caller s = Counted h \<Longrightarrow> range_step a s (s\<lparr>r_running_helpers := r_running_helpers s - 1, r_caller := Looping Check\<rparr>)"
| spawned: "r_caller s = Spawn h \<Longrightarrow> h \<ge> unat (ra_helpers a) \<Longrightarrow> range_step a s (s\<lparr>r_caller := Looping Check\<rparr>)"
| caller: "r_caller s = Looping p \<Longrightarrow> chunk_step a (r_shared s) p sh q \<Longrightarrow> range_step a s (s\<lparr>r_shared := sh, r_caller := Looping q\<rparr>)"
| wait: "r_caller s = Looping Exited \<Longrightarrow> range_step a s (s\<lparr>r_caller := Waiting\<rparr>)"
| return: "r_caller s = Waiting \<Longrightarrow> r_running_helpers s = 0 \<Longrightarrow>
    range_step a s (s\<lparr>r_caller := (case rs_error (r_shared s) of None \<Rightarrow> ReturnedOk | Some e \<Rightarrow> Threw e)\<rparr>)"
| start: "i < length (r_helpers s) \<Longrightarrow> r_helpers s ! i = Queued \<Longrightarrow> range_step a s (s\<lparr>r_helpers := (r_helpers s)[i := Check]\<rparr>)"
| helper: "i < length (r_helpers s) \<Longrightarrow> chunk_step a (r_shared s) (r_helpers s ! i) sh q \<Longrightarrow>
    range_step a s (s\<lparr>r_shared := sh, r_helpers := (r_helpers s)[i := q]\<rparr>)"
| leave: "i < length (r_helpers s) \<Longrightarrow> r_helpers s ! i = Exited \<Longrightarrow>
    range_step a s (s\<lparr>r_running_helpers := r_running_helpers s - 1, r_helpers := (r_helpers s)[i := Finished]\<rparr>)"

inductive_cases chunk_stepE: "chunk_step a s p s' q"

definition caller_done :: "caller_phase \<Rightarrow> bool" where
  "caller_done c \<longleftrightarrow> c = ReturnedOk \<or> (\<exists>e. c = Threw e)"

text \<open>A whole call: the ranges on which the body completed, those on which it threw, and how the call ended.
  The parallel loop may end in any state that its steps reach with the caller done.\<close>

inductive range_call :: "range_plan \<Rightarrow> (u64 \<times> u64) list \<Rightarrow> ((u64 \<times> u64) \<times> string) list \<Rightarrow> caller_phase \<Rightarrow> bool" where
  call_nothing: "range_call RunNothing [] [] ReturnedOk"
| call_inline: "range_call (RunInline lo hi) [(lo, hi)] [] ReturnedOk"
| call_inline_throws: "range_call (RunInline lo hi) [] [((lo, hi), x)] (Threw x)"
| call_no_memory: "range_call RunThrows [] [] (Threw ''bad_alloc'')"
| call_parallel: "(range_step a)\<^sup>*\<^sup>* range_init s \<Longrightarrow> caller_done (r_caller s) \<Longrightarrow>
    range_call (RunParallel a) (map (chunk_range a) (rs_completed (r_shared s)))
      (map (\<lambda>(c, x). (chunk_range a c, x)) (rs_threw (r_shared s))) (r_caller s)"

subsection \<open>The ranges partition the interval\<close>

text \<open>Neither the end of the last chunk nor the counter of the chunks wraps around.\<close>

definition ranges_fit :: "range_args \<Rightarrow> bool" where
  "ranges_fit a \<longleftrightarrow> unat (ra_begin a) + unat (ra_chunks a) * unat (ra_grain a) < 2 ^ 64 \<and> unat (ra_chunks a) + unat (ra_helpers a) + 1 < 2 ^ 64"

lemma chunk_count_bounds:
  assumes "n > 0" "grain > 0"
  shows "(unat (chunk_count n grain) - 1) * unat grain < unat n" "unat n \<le> unat (chunk_count n grain) * unat grain" "chunk_count n grain > 0"
proof -
  let ?q = "unat n div unat grain"
  have g: "unat grain > 0" "unat n > 0" using assms by (simp_all add: word_counter)
  have q: "unat (n div grain) = ?q" "unat (n mod grain) = unat n mod unat grain" by (simp_all add: unat_div_distrib unat_mod_distrib)
  have lt: "?q * unat grain + unat n mod unat grain = unat n" by simp
  have "unat n mod unat grain \<noteq> 0 \<Longrightarrow> ?q < unat n" using g by (cases "unat grain = 1") (simp_all add: div_less_dividend)
  moreover have "unat n < 2 ^ 64" using unsigned_less [of n] by simp
  ultimately have c: "unat (chunk_count n grain) = ?q + (if unat n mod unat grain \<noteq> 0 then 1 else 0)"
    using q by (auto simp: chunk_count_def word_counter(4) intro!: word_counter(1) [of "n div grain", THEN trans])
  have m: "unat n mod unat grain < unat grain" using g by simp
  have "?q = 0 \<Longrightarrow> unat n mod unat grain \<noteq> 0" using lt g by (metis add.left_neutral mult_zero_left not_gr0)
  then show "chunk_count n grain > 0" using c unfolding word_counter(3) by (cases "?q = 0") simp_all
  show "unat n \<le> unat (chunk_count n grain) * unat grain"
  proof (cases "unat n mod unat grain = 0")
    case True
    then show ?thesis using c lt by simp
  next
    case False
    then have "unat (chunk_count n grain) * unat grain = ?q * unat grain + unat grain" using c by simp
    then show ?thesis using lt m by linarith
  qed
  show "(unat (chunk_count n grain) - 1) * unat grain < unat n"
    using c lt g by (cases "unat n mod unat grain = 0"; cases ?q) (simp_all add: algebra_simps)
qed

text \<open>The arguments of a parallel loop.\<close>

definition args_ok :: "range_args \<Rightarrow> bool" where
  "args_ok a \<longleftrightarrow> ra_begin a < ra_end a \<and> ra_grain a > 0 \<and> ra_chunks a = chunk_count (ra_end a - ra_begin a) (ra_grain a) \<and> ra_helpers a < ra_chunks a"

lemma run_ranges_args: "run_ranges sm w n b e g = RunParallel a \<Longrightarrow> args_ok a"
proof -
  assume r: "run_ranges sm w n b e g = RunParallel a"
  let ?c = "chunk_count (e - b) (max g 1)"
  have be: "b < e" using r by (auto simp: run_ranges_def not_le split: if_splits)
  have a: "a = \<lparr>ra_begin = b, ra_end = e, ra_grain = max g 1, ra_chunks = ?c, ra_helpers = min (?c - 1) n\<rparr>"
    using r by (auto simp: run_ranges_def Let_def split: if_splits)
  have g: "max g 1 > (0::u64)" by (metis max.strict_coboundedI2 word_gt_0 zero_neq_one)
  moreover have "e - b > 0" using be by (metis right_minus_eq order_less_irrefl word_gt_0)
  ultimately have "?c > 0" using chunk_count_bounds(3) by blast
  then have "?c - 1 < ?c" by (metis word_counter(2,3) word_less_nat_alt diff_less zero_less_one)
  then have "min (?c - 1) n < ?c" by (metis min.strict_coboundedI1)
  then show ?thesis using a be g by (simp add: args_ok_def)
qed

lemma args_bounds:
  assumes "args_ok a"
  shows "unat (ra_begin a) < unat (ra_end a)" "unat (ra_grain a) > 0" "unat (ra_end a) \<le> unat (ra_begin a) + unat (ra_chunks a) * unat (ra_grain a)"
    "unat (ra_begin a) + (unat (ra_chunks a) - 1) * unat (ra_grain a) < unat (ra_end a)" "unat (ra_chunks a) > 0"
proof -
  show b: "unat (ra_begin a) < unat (ra_end a)" and g: "unat (ra_grain a) > 0" using assms by (simp_all add: args_ok_def word_counter word_less_nat_alt)
  have d: "unat (ra_end a - ra_begin a) = unat (ra_end a) - unat (ra_begin a)" using b by (intro unat_sub) (simp add: word_le_nat_alt)
  then have p: "ra_end a - ra_begin a > 0" using b by (simp add: word_counter)
  note C = chunk_count_bounds [OF p, of "ra_grain a"]
  show "unat (ra_end a) \<le> unat (ra_begin a) + unat (ra_chunks a) * unat (ra_grain a)" "unat (ra_begin a) + (unat (ra_chunks a) - 1) * unat (ra_grain a) < unat (ra_end a)"
    "unat (ra_chunks a) > 0"
    using C d assms b g by (simp_all add: args_ok_def word_counter(3))
qed

lemma chunk_range_nat:
  assumes "ranges_fit a" "unat c < unat (ra_chunks a)"
  shows "unat (fst (chunk_range a c)) = unat (ra_begin a) + unat c * unat (ra_grain a)"
    "unat (snd (chunk_range a c)) = min (unat (ra_end a)) (unat (ra_begin a) + (unat c + 1) * unat (ra_grain a))"
proof -
  have "(unat c + 1) * unat (ra_grain a) \<le> unat (ra_chunks a) * unat (ra_grain a)" using assms(2) by (intro mult_right_mono) simp_all
  then have m: "unat (ra_begin a) + (unat c * unat (ra_grain a) + unat (ra_grain a)) < 2 ^ 64" using assms(1) by (simp add: ranges_fit_def)
  then have c: "unat (c * ra_grain a) = unat c * unat (ra_grain a)" by (intro unat_mult_lem [THEN iffD1]) simp
  have lo: "unat (ra_begin a + c * ra_grain a) = unat (ra_begin a) + unat c * unat (ra_grain a)"
    using m unfolding c [symmetric] by (intro unat_add_lem [THEN iffD1]) simp
  have "unat (ra_begin a + c * ra_grain a + ra_grain a) = unat (ra_begin a + c * ra_grain a) + unat (ra_grain a)"
    using m lo by (intro unat_add_lem [THEN iffD1]) simp
  then have "unat (ra_begin a + c * ra_grain a + ra_grain a) = unat (ra_begin a) + (unat c + 1) * unat (ra_grain a)" using lo by simp
  then show "unat (snd (chunk_range a c)) = min (unat (ra_end a)) (unat (ra_begin a) + (unat c + 1) * unat (ra_grain a))"
    by (simp add: chunk_range_def Let_def min_def word_le_nat_alt)
  show "unat (fst (chunk_range a c)) = unat (ra_begin a) + unat c * unat (ra_grain a)" using lo by (simp add: chunk_range_def Let_def)
qed

text \<open>Where the end of the last chunk does not fit, its range is empty or reversed and the last indices are never visited.\<close>

lemma chunk_range_wraps:
  "run_ranges True False 1 0 0xFFFFFFFFFFFFFFFF 0x8000000000000001 =
     RunParallel \<lparr>ra_begin = 0, ra_end = 0xFFFFFFFFFFFFFFFF, ra_grain = 0x8000000000000001, ra_chunks = 2, ra_helpers = 1\<rparr>"
  "chunk_range \<lparr>ra_begin = 0, ra_end = 0xFFFFFFFFFFFFFFFF, ra_grain = 0x8000000000000001, ra_chunks = 2, ra_helpers = 1\<rparr> 1 = (0x8000000000000001, 2)"
  by (simp_all add: run_ranges_def chunk_count_def chunk_range_def Let_def)

definition in_range :: "u64 \<Rightarrow> u64 \<times> u64 \<Rightarrow> bool" where
  "in_range i r \<longleftrightarrow> fst r \<le> i \<and> i < snd r"

lemma chunk_of_iff: "0 < g \<Longrightarrow> c * g \<le> x \<and> x < (c + 1) * g \<longleftrightarrow> c = x div (g :: nat)"
  using dividend_less_div_times [of g x] div_nat_eqI [of g c x] by (auto simp: mult.commute)

lemma chunk_ranges_partition:
  assumes ok: "args_ok a" and fit: "ranges_fit a"
  shows "ra_begin a \<le> i \<and> i < ra_end a \<Longrightarrow> \<exists>!c. c < ra_chunks a \<and> in_range i (chunk_range a c)"
    "c < ra_chunks a \<Longrightarrow> in_range i (chunk_range a c) \<Longrightarrow> ra_begin a \<le> i \<and> i < ra_end a"
    "c < ra_chunks a \<Longrightarrow> fst (chunk_range a c) < snd (chunk_range a c)"
proof -
  let ?b = "unat (ra_begin a)" and ?e = "unat (ra_end a)" and ?g = "unat (ra_grain a)" and ?n = "unat (ra_chunks a)"
  note B = args_bounds [OF ok]
  have r: "in_range i (chunk_range a c) \<longleftrightarrow> ?b + unat c * ?g \<le> unat i \<and> unat i < ?e \<and> unat i < ?b + (unat c + 1) * ?g" if "c < ra_chunks a" for c
    using chunk_range_nat [OF fit, of c] that by (auto simp: in_range_def word_le_nat_alt word_less_nat_alt)
  show "ra_begin a \<le> i \<and> i < ra_end a" if "c < ra_chunks a" "in_range i (chunk_range a c)"
    using r [OF that(1)] that(2) by (auto simp: word_le_nat_alt word_less_nat_alt)
  show "fst (chunk_range a c) < snd (chunk_range a c)" if c: "c < ra_chunks a"
  proof -
    have "unat c * ?g \<le> (?n - 1) * ?g" using c by (intro mult_right_mono) (simp_all add: word_less_nat_alt)
    then have "?b + unat c * ?g < ?e" using B(4) by linarith
    then show ?thesis using chunk_range_nat [OF fit, of c] c B(2) by (simp add: word_less_nat_alt)
  qed
  show "\<exists>!c. c < ra_chunks a \<and> in_range i (chunk_range a c)" if i: "ra_begin a \<le> i \<and> i < ra_end a"
  proof -
    let ?k = "(unat i - ?b) div ?g"
    have ib: "?b \<le> unat i" "unat i < ?e" using i by (simp_all add: word_le_nat_alt word_less_nat_alt)
    then have "unat i - ?b < ?n * ?g" using B(3) by simp
    then have k: "?k < ?n" by (simp add: less_mult_imp_div_less)
    moreover have "?n < 2 ^ 64" using unsigned_less [of "ra_chunks a"] by simp
    ultimately have u: "unat (of_nat ?k :: u64) = ?k" by (simp add: unsigned_of_nat take_bit_nat_eq_self)
    have iff: "c = of_nat ?k \<longleftrightarrow> in_range i (chunk_range a c)" if "c < ra_chunks a" for c
    proof -
      have "in_range i (chunk_range a c) \<longleftrightarrow> unat c * ?g \<le> unat i - ?b \<and> unat i - ?b < (unat c + 1) * ?g" using r [OF that] ib by auto
      also have "\<dots> \<longleftrightarrow> unat c = ?k" by (rule chunk_of_iff [OF B(2)])
      also have "\<dots> \<longleftrightarrow> c = of_nat ?k" using u by (metis word_unat_eq_iff)
      finally show ?thesis by blast
    qed
    have "of_nat ?k < ra_chunks a" using k u by (simp add: word_less_nat_alt)
    then show ?thesis using iff by blast
  qed
qed

subsection \<open>The invariant of the chunks\<close>

fun body_of :: "chunk_phase \<Rightarrow> u64 multiset" where
  "body_of (Body c) = {#c#}"
| "body_of _ = {#}"

abbreviation bodies :: "chunk_phase multiset \<Rightarrow> u64 multiset" where
  "bodies M \<equiv> sum_mset (image_mset body_of M)"

text \<open>\<open>M\<close> is the multiset of the phases of the threads that take part.\<close>

definition drawn :: "nat \<Rightarrow> u64 list" where
  "drawn n = map of_nat [0..<n]"

definition count_inv :: "range_args \<Rightarrow> range_shared \<Rightarrow> chunk_phase multiset \<Rightarrow> bool" where
  "count_inv a s M \<longleftrightarrow>
     rs_started s = drawn (min (unat (rs_next s)) (unat (ra_chunks a))) \<and>
     mset (rs_started s) = mset (rs_completed s) + mset (map fst (rs_threw s)) + bodies M \<and>
     unat (rs_next s) \<le> unat (ra_chunks a) + count M Exited + count M Finished \<and>
     (Exited \<in># M \<or> Finished \<in># M \<longrightarrow> unat (ra_chunks a) \<le> unat (rs_next s) \<or> rs_failed s)"

definition error_inv :: "range_shared \<Rightarrow> chunk_phase multiset \<Rightarrow> bool" where
  "error_inv s M \<longleftrightarrow>
     (rs_failed s \<longleftrightarrow> rs_error s \<noteq> None) \<and>
     (\<forall>e. rs_error s = Some e \<longrightarrow> e \<in> snd ` set (rs_threw s)) \<and>
     (\<forall>c e. Catch c e \<in># M \<longrightarrow> (c, e) \<in> set (rs_threw s)) \<and>
     (rs_threw s = [] \<or> rs_failed s \<or> (\<exists>c e. Catch c e \<in># M))"

lemma count_two_le: "p \<noteq> q \<Longrightarrow> count M p + count M q \<le> size M"
  by (induction M) auto

lemma fetch_count_inv:
  assumes inv: "count_inv a s (add_mset Fetch N)" and f: "fetch_chunk a s = (s', q)" and size: "unat (ra_chunks a) + size N + 1 < 2 ^ 64"
  shows "count_inv a s' (add_mset q N)"
proof -
  let ?n = "unat (rs_next s)"
  have "?n \<le> unat (ra_chunks a) + (count N Exited + count N Finished)" using inv by (simp add: count_inv_def)
  moreover have "count N Exited + count N Finished \<le> size N" by (rule count_two_le) simp
  ultimately have n: "unat (rs_next s + 1) = ?n + 1" using size by (intro word_counter(1)) linarith
  show ?thesis
  proof (cases "rs_next s \<ge> ra_chunks a")
    case True
    then have m: "unat (ra_chunks a) \<le> ?n" by (simp add: word_le_nat_alt)
    have s': "s' = s\<lparr>rs_next := rs_next s + 1\<rparr>" "q = Exited" using f True by (simp_all add: fetch_chunk_def Let_def)
    then show ?thesis using inv m n by (auto simp: count_inv_def min_absorb2)
  next
    case False
    then have m: "?n < unat (ra_chunks a)" by (simp add: word_le_nat_alt)
    have s': "s' = s\<lparr>rs_next := rs_next s + 1, rs_started := rs_started s @ [rs_next s]\<rparr>" "q = Body (rs_next s)" using f False by (simp_all add: fetch_chunk_def Let_def)
    have d: "drawn (?n + 1) = drawn ?n @ [rs_next s]" by (simp add: drawn_def)
    have "Exited \<in># N \<or> Finished \<in># N \<Longrightarrow> rs_failed s" using inv m by (auto simp: count_inv_def)
    then show ?thesis using inv s' n m d by (auto simp: count_inv_def min_absorb1)
  qed
qed

lemma count_step:
  assumes "chunk_step a s p s' q" "count_inv a s (add_mset p N)" "unat (ra_chunks a) + size N + 1 < 2 ^ 64"
  shows "count_inv a s' (add_mset q N)"
  using assms
proof (cases rule: chunk_step.cases)
  case fetch
  then show ?thesis using fetch_count_inv assms(2,3) by simp
qed (auto simp: count_inv_def record_error_def)

lemma error_step: "chunk_step a s p s' q \<Longrightarrow> error_inv s (add_mset p N) \<Longrightarrow> error_inv s' (add_mset q N)"
proof (induction rule: chunk_step.induct)
  case (fetch s s' q)
  then show ?case by (auto simp: fetch_chunk_def Let_def error_inv_def split: if_splits)
next
  case (body_throws s c e)
  then show ?case unfolding error_inv_def by (auto intro: image_eqI)
next
  case (catch s c e)
  then have "(c, e) \<in> set (rs_threw s)" unfolding error_inv_def by simp
  then have "e \<in> snd ` set (rs_threw s)" by force
  then show ?case using catch unfolding error_inv_def record_error_def by auto
qed (auto simp: error_inv_def)

definition chunks_inv :: "range_args \<Rightarrow> range_shared \<Rightarrow> chunk_phase multiset \<Rightarrow> bool" where
  "chunks_inv a s M \<longleftrightarrow> count_inv a s M \<and> error_inv s M"

lemma chunk_step_inv:
  "chunk_step a s p s' q \<Longrightarrow> chunks_inv a s (add_mset p N) \<Longrightarrow> unat (ra_chunks a) + size N + 1 < 2 ^ 64 \<Longrightarrow> chunks_inv a s' (add_mset q N)"
  using count_step error_step by (auto simp: chunks_inv_def)

subsection \<open>The invariant of the call\<close>

fun caller_phases :: "caller_phase \<Rightarrow> chunk_phase multiset" where
  "caller_phases (Spawn h) = {#}"
| "caller_phases (Counted h) = {#}"
| "caller_phases (Looping p) = {#p#}"
| "caller_phases Waiting = {#Exited#}"
| "caller_phases ReturnedOk = {#Exited#}"
| "caller_phases (Threw e) = {#Exited#}"

definition phases :: "range_state \<Rightarrow> chunk_phase multiset" where
  "phases s = mset (r_helpers s) + caller_phases (r_caller s)"

fun caller_inv :: "range_args \<Rightarrow> range_state \<Rightarrow> caller_phase \<Rightarrow> bool" where
  "caller_inv a s (Spawn h) \<longleftrightarrow> length (r_helpers s) = h \<and> h \<le> unat (ra_helpers a)"
| "caller_inv a s (Counted h) \<longleftrightarrow> length (r_helpers s) = h \<and> h < unat (ra_helpers a)"
| "caller_inv a s (Looping p) \<longleftrightarrow> length (r_helpers s) \<le> unat (ra_helpers a) \<and> p \<noteq> Queued \<and> p \<noteq> Finished"
| "caller_inv a s Waiting \<longleftrightarrow> length (r_helpers s) \<le> unat (ra_helpers a)"
| "caller_inv a s ReturnedOk \<longleftrightarrow> length (r_helpers s) \<le> unat (ra_helpers a) \<and> set (r_helpers s) \<subseteq> {Finished} \<and> rs_error (r_shared s) = None"
| "caller_inv a s (Threw e) \<longleftrightarrow> length (r_helpers s) \<le> unat (ra_helpers a) \<and> set (r_helpers s) \<subseteq> {Finished} \<and> rs_error (r_shared s) = Some e"

definition pending_helper :: "caller_phase \<Rightarrow> nat" where
  "pending_helper c = (case c of Counted h \<Rightarrow> 1 | _ \<Rightarrow> 0)"

definition range_inv :: "range_args \<Rightarrow> range_state \<Rightarrow> bool" where
  "range_inv a s \<longleftrightarrow> chunks_inv a (r_shared s) (phases s) \<and> caller_inv a s (r_caller s) \<and>
     unat (r_running_helpers s) + count (mset (r_helpers s)) Finished = length (r_helpers s) + pending_helper (r_caller s)"

lemma range_init_inv: "range_inv a range_init"
  by (simp add: range_inv_def range_init_def chunks_inv_def count_inv_def error_inv_def drawn_def phases_def pending_helper_def)

lemma chunk_step_phases: "chunk_step a s p s' q \<Longrightarrow> p \<noteq> Finished \<and> p \<noteq> Queued \<and> q \<noteq> Finished \<and> q \<noteq> Queued \<and> p \<noteq> Exited"
  by (auto elim!: chunk_step.cases simp: fetch_chunk_def Let_def split: if_splits)

lemma count_full: "count (mset xs) y = length xs \<longleftrightarrow> set xs \<subseteq> {y}"
proof -
  have "count (mset xs) y \<le> length xs" for xs using count_le_size [of "mset xs"] by simp
  then show ?thesis by (induction xs) (auto simp: Suc_le_eq less_Suc_eq_le, metis Suc_n_not_le_n)
qed

lemma phase_changes:
  "chunks_inv a s M \<Longrightarrow> chunks_inv a s (add_mset Queued M)" "chunks_inv a s M \<Longrightarrow> chunks_inv a s (add_mset Check M)"
  "chunks_inv a s (add_mset Queued M) \<Longrightarrow> chunks_inv a s (add_mset Check M)" "chunks_inv a s (add_mset Exited M) \<Longrightarrow> chunks_inv a s (add_mset Finished M)"
  by (auto simp: chunks_inv_def count_inv_def error_inv_def)

lemma split_helper:
  assumes "i < length hs"
  obtains N where "mset hs = add_mset (hs ! i) N" "\<And>q. mset (hs[i := q]) = add_mset q N" "size N + 1 = length hs"
proof
  show "mset hs = add_mset (hs ! i) (mset hs - {#hs ! i#})" using assms by simp
  then have "size (mset hs) = size (add_mset (hs ! i) (mset hs - {#hs ! i#}))" by argo
  then show "size (mset hs - {#hs ! i#}) + 1 = length hs" by simp
  show "mset (hs[i := q]) = add_mset q (mset hs - {#hs ! i#})" for q using assms by (simp add: mset_update)
qed

lemma caller_inv_length: "caller_inv a s c \<Longrightarrow> length (r_helpers s) \<le> unat (ra_helpers a)"
  by (cases c) auto

lemma caller_inv_helper:
  assumes "caller_inv a s c" "i < length (r_helpers s)" "r_helpers s ! i \<noteq> Finished"
  shows "caller_inv a (s\<lparr>r_shared := sh, r_running_helpers := n, r_helpers := (r_helpers s)[i := q]\<rparr>) c"
proof -
  have "\<not> set (r_helpers s) \<subseteq> {Finished}" using assms(2,3) nth_mem [OF assms(2)] by blast
  then show ?thesis using assms(1) by (cases c) auto
qed

lemma caller_inv_update [simp]:
  "caller_inv a (s\<lparr>r_caller := c'\<rparr>) c = caller_inv a s c" "caller_inv a (s\<lparr>r_running_helpers := n\<rparr>) c = caller_inv a s c"
  by (cases c; simp)+

lemma helper_move_inv:
  assumes inv: "range_inv a s" and fit: "ranges_fit a" and i: "i < length (r_helpers s)" and c: "chunk_step a (r_shared s) (r_helpers s ! i) sh q"
  shows "range_inv a (s\<lparr>r_shared := sh, r_helpers := (r_helpers s)[i := q]\<rparr>)"
proof -
  obtain N where N: "mset (r_helpers s) = add_mset (r_helpers s ! i) N" "\<And>q. mset ((r_helpers s)[i := q]) = add_mset q N" "size N + 1 = length (r_helpers s)"
    using split_helper [OF i] by metis
  have k: "caller_inv a s (r_caller s)" using inv by (simp add: range_inv_def)
  note P = chunk_step_phases [OF c]
  have "size (caller_phases (r_caller s)) \<le> 1" by (cases "r_caller s") simp_all
  then have "unat (ra_chunks a) + size (N + caller_phases (r_caller s)) + 1 < 2 ^ 64" using N(3) caller_inv_length [OF k] fit by (simp add: ranges_fit_def)
  moreover have "chunks_inv a (r_shared s) (add_mset (r_helpers s ! i) (N + caller_phases (r_caller s)))" using inv N(1) by (simp add: range_inv_def phases_def)
  ultimately have "chunks_inv a sh (add_mset q (N + caller_phases (r_caller s)))" using chunk_step_inv [OF c] by blast
  moreover have "caller_inv a (s\<lparr>r_shared := sh, r_helpers := (r_helpers s)[i := q]\<rparr>) (r_caller s)"
    using caller_inv_helper [OF k i, where sh = sh and n = "r_running_helpers s" and q = q] P by simp
  moreover have "count (mset ((r_helpers s)[i := q])) Finished = count (mset (r_helpers s)) Finished" using N(1,2) P by simp
  ultimately show ?thesis using inv N(2) by (simp add: range_inv_def phases_def)
qed

lemma leave_inv:
  assumes inv: "range_inv a s" and i: "i < length (r_helpers s)" and x: "r_helpers s ! i = Exited"
  shows "range_inv a (s\<lparr>r_running_helpers := r_running_helpers s - 1, r_helpers := (r_helpers s)[i := Finished]\<rparr>)"
proof -
  obtain N where N: "mset (r_helpers s) = add_mset Exited N" "\<And>q. mset ((r_helpers s)[i := q]) = add_mset q N" "size N + 1 = length (r_helpers s)"
    using split_helper [OF i] x by metis
  have k: "caller_inv a s (r_caller s)" using inv by (simp add: range_inv_def)
  have "count N Finished \<le> size N" by (rule count_le_size)
  then have r: "0 < unat (r_running_helpers s)" using inv N by (simp add: range_inv_def)
  have "chunks_inv a (r_shared s) (add_mset Exited (N + caller_phases (r_caller s)))" using inv N(1) by (simp add: range_inv_def phases_def)
  then have "chunks_inv a (r_shared s) (add_mset Finished (N + caller_phases (r_caller s)))" by (rule phase_changes(4))
  moreover have "caller_inv a (s\<lparr>r_running_helpers := r_running_helpers s - 1, r_helpers := (r_helpers s)[i := Finished]\<rparr>) (r_caller s)"
    using caller_inv_helper [OF k i, where sh = "r_shared s" and n = "r_running_helpers s - 1" and q = Finished] x by simp
  ultimately show ?thesis using inv N word_counter(2) [OF r] r by (simp add: range_inv_def phases_def)
qed

lemma start_inv:
  assumes inv: "range_inv a s" and i: "i < length (r_helpers s)" and x: "r_helpers s ! i = Queued"
  shows "range_inv a (s\<lparr>r_helpers := (r_helpers s)[i := Check]\<rparr>)"
proof -
  obtain N where N: "mset (r_helpers s) = add_mset Queued N" "\<And>q. mset ((r_helpers s)[i := q]) = add_mset q N"
    using split_helper [OF i] x by metis
  have k: "caller_inv a s (r_caller s)" using inv by (simp add: range_inv_def)
  have "chunks_inv a (r_shared s) (add_mset Queued (N + caller_phases (r_caller s)))" using inv N(1) by (simp add: range_inv_def phases_def)
  then have "chunks_inv a (r_shared s) (add_mset Check (N + caller_phases (r_caller s)))" by (rule phase_changes(3))
  moreover have "caller_inv a (s\<lparr>r_helpers := (r_helpers s)[i := Check]\<rparr>) (r_caller s)"
    using caller_inv_helper [OF k i, where sh = "r_shared s" and n = "r_running_helpers s" and q = Check] x by simp
  ultimately show ?thesis using inv N by (simp add: range_inv_def phases_def)
qed

lemma caller_move_inv:
  assumes inv: "range_inv a s" and fit: "ranges_fit a" and l: "r_caller s = Looping p" and c: "chunk_step a (r_shared s) p sh q"
  shows "range_inv a (s\<lparr>r_shared := sh, r_caller := Looping q\<rparr>)"
proof -
  have k: "caller_inv a s (Looping p)" using inv l by (simp add: range_inv_def)
  then have "unat (ra_chunks a) + size (mset (r_helpers s)) + 1 < 2 ^ 64" using fit by (simp add: ranges_fit_def)
  moreover have "chunks_inv a (r_shared s) (add_mset p (mset (r_helpers s)))" using inv l by (simp add: range_inv_def phases_def)
  ultimately have "chunks_inv a sh (add_mset q (mset (r_helpers s)))" using chunk_step_inv [OF c] by blast
  then show ?thesis using inv l k chunk_step_phases [OF c] by (simp add: range_inv_def phases_def pending_helper_def)
qed

lemma return_inv:
  assumes inv: "range_inv a s" and w: "r_caller s = Waiting" and r: "r_running_helpers s = 0"
  shows "range_inv a (s\<lparr>r_caller := (case rs_error (r_shared s) of None \<Rightarrow> ReturnedOk | Some e \<Rightarrow> Threw e)\<rparr>)"
proof -
  have "count (mset (r_helpers s)) Finished = length (r_helpers s)" using inv w r by (simp add: range_inv_def pending_helper_def)
  then have "set (r_helpers s) \<subseteq> {Finished}" by (simp add: count_full)
  then show ?thesis using inv w by (auto simp: range_inv_def phases_def pending_helper_def split: option.splits)
qed

lemma range_step_inv:
  assumes "range_step a s s'" "range_inv a s" "ranges_fit a"
  shows "range_inv a s'"
  using assms
proof (induction rule: range_step.induct)
  case (count s h)
  then have "unat (r_running_helpers s) + 1 < 2 ^ 64" by (simp add: range_inv_def ranges_fit_def pending_helper_def)
  then have "unat (r_running_helpers s + 1) = unat (r_running_helpers s) + 1" by (rule word_counter(1))
  then show ?case using count by (simp add: range_inv_def phases_def pending_helper_def)
next
  case (queued s h)
  then show ?case using phase_changes(1) by (simp add: range_inv_def phases_def pending_helper_def)
next
  case (not_queued s h)
  have "count (mset (r_helpers s)) Finished \<le> length (r_helpers s)" using count_le_size [of "mset (r_helpers s)"] by simp
  then have r: "0 < unat (r_running_helpers s)" using not_queued by (simp add: range_inv_def pending_helper_def)
  show ?case using not_queued word_counter(2) [OF r] r phase_changes(2) by (simp add: range_inv_def phases_def pending_helper_def)
next
  case (spawned s h)
  then show ?case using phase_changes(2) by (simp add: range_inv_def phases_def pending_helper_def)
next
  case (wait s)
  then show ?case by (simp add: range_inv_def phases_def pending_helper_def)
qed (simp_all add: caller_move_inv return_inv start_inv helper_move_inv leave_inv)

lemma range_run_inv: "(range_step a)\<^sup>*\<^sup>* range_init s \<Longrightarrow> ranges_fit a \<Longrightarrow> range_inv a s"
  by (induction rule: rtranclp_induct) (auto simp: range_init_inv intro: range_step_inv)

subsection \<open>What a finished call has done\<close>

lemma drawn_distinct: "n \<le> unat (k :: u64) \<Longrightarrow> distinct (drawn n)" "set (drawn (unat k)) = {c. c < k}"
proof -
  have k: "unat k < 2 ^ 64" using unsigned_less [of k] by simp
  have u: "unat (of_nat i :: u64) = i" if "i < unat k" for i using that k by (simp add: unsigned_of_nat take_bit_nat_eq_self)
  show "distinct (drawn n)" if "n \<le> unat k"
    unfolding drawn_def distinct_map using that by (auto intro!: inj_onI) (metis u less_le_trans)
  show "set (drawn (unat k)) = {c. c < k}"
  proof (intro set_eqI iffI)
    fix c assume "c \<in> set (drawn (unat k))"
    then show "c \<in> {c. c < k}" using u by (auto simp: drawn_def word_less_nat_alt)
  next
    fix c assume "c \<in> {c. c < k}"
    then have "unat c < unat k" "c = of_nat (unat c)" by (simp_all add: word_less_nat_alt)
    then show "c \<in> set (drawn (unat k))" unfolding drawn_def by (metis atLeastLessThan_iff image_eqI le0 set_map set_upt)
  qed
qed

lemma started_distinct:
  assumes "range_inv a s"
  shows "distinct (rs_started (r_shared s))" "set (rs_started (r_shared s)) \<subseteq> {c. c < ra_chunks a}"
proof -
  have st: "rs_started (r_shared s) = drawn (min (unat (rs_next (r_shared s))) (unat (ra_chunks a)))" using assms by (simp add: range_inv_def chunks_inv_def count_inv_def)
  then show "distinct (rs_started (r_shared s))" using drawn_distinct(1) [of _ "ra_chunks a"] by simp
  have "set (drawn (min (unat (rs_next (r_shared s))) (unat (ra_chunks a)))) \<subseteq> set (drawn (unat (ra_chunks a)))" by (auto simp: drawn_def)
  then show "set (rs_started (r_shared s)) \<subseteq> {c. c < ra_chunks a}" using st drawn_distinct(2) by simp
qed

lemma started_split:
  "range_inv a s \<Longrightarrow> mset (rs_started (r_shared s)) = mset (rs_completed (r_shared s)) + mset (map fst (rs_threw (r_shared s))) + bodies (phases s)"
  unfolding range_inv_def chunks_inv_def count_inv_def by blast

lemma done_phases:
  assumes "range_inv a s" "caller_done (r_caller s)"
  shows "set (r_helpers s) \<subseteq> {Finished}" "bodies (phases s) = {#}" "\<And>c e. Catch c e \<notin># phases s" "Exited \<in># phases s"
proof -
  show h: "set (r_helpers s) \<subseteq> {Finished}" and "Exited \<in># phases s" using assms by (auto simp: range_inv_def caller_done_def phases_def)
  have "bodies (mset hs) = {#}" if "set hs \<subseteq> {Finished}" for hs using that by (induction hs) auto
  then show "bodies (phases s) = {#}" using h assms(2) by (auto simp: phases_def caller_done_def)
  show "Catch c e \<notin># phases s" for c e using h assms(2) by (auto simp: phases_def caller_done_def)
qed

lemma returned_complete:
  assumes inv: "range_inv a s" and r: "r_caller s = ReturnedOk"
  shows "mset (rs_completed (r_shared s)) = mset (drawn (unat (ra_chunks a)))" "rs_threw (r_shared s) = []"
proof -
  note D = done_phases [OF inv]
  have dn: "caller_done (r_caller s)" using r by (simp add: caller_done_def)
  have e: "rs_error (r_shared s) = None" using inv r by (simp add: range_inv_def)
  have ei: "error_inv (r_shared s) (phases s)" and ci: "count_inv a (r_shared s) (phases s)" using inv by (simp_all add: range_inv_def chunks_inv_def)
  have nf: "\<not> rs_failed (r_shared s)" using ei e by (simp add: error_inv_def)
  show t: "rs_threw (r_shared s) = []" using ei nf D(3) [OF dn] by (auto simp: error_inv_def)
  have "unat (ra_chunks a) \<le> unat (rs_next (r_shared s))" using ci nf D(4) [OF dn] by (auto simp: count_inv_def)
  then have "rs_started (r_shared s) = drawn (unat (ra_chunks a))" using ci by (simp add: count_inv_def min_absorb2)
  moreover have "mset (rs_started (r_shared s)) = mset (rs_completed (r_shared s))" using started_split [OF inv] unfolding t D(2) [OF dn] by simp
  ultimately show "mset (rs_completed (r_shared s)) = mset (drawn (unat (ra_chunks a)))" by simp
qed

text \<open>How often the calls of the body cover an index.\<close>

definition covered :: "u64 \<Rightarrow> (u64 \<times> u64) list \<Rightarrow> nat" where
  "covered i rs = length (filter (in_range i) rs)"

lemma covered_simps [simp]: "covered i [] = 0" "covered i (r # rs) = (if in_range i r then 1 else 0) + covered i rs"
  by (simp_all add: covered_def)

lemma covered_chunks:
  assumes "args_ok a" "ranges_fit a" "distinct cs" "set cs \<subseteq> {c. c < ra_chunks a}"
  shows "covered i (map (chunk_range a) cs) \<le> (if ra_begin a \<le> i \<and> i < ra_end a then 1 else 0)"
    "set cs = {c. c < ra_chunks a} \<Longrightarrow> covered i (map (chunk_range a) cs) = (if ra_begin a \<le> i \<and> i < ra_end a then 1 else 0)"
proof -
  note P = chunk_ranges_partition(1,2) [OF assms(1,2), where i = i]
  let ?S = "{c \<in> set cs. in_range i (chunk_range a c)}"
  have n: "covered i (map (chunk_range a) cs) = card ?S"
    using distinct_card [OF distinct_filter [OF assms(3)], of "\<lambda>c. in_range i (chunk_range a c)"]
    by (simp add: covered_def filter_map comp_def)
  have none: "?S = {}" if "\<not> (ra_begin a \<le> i \<and> i < ra_end a)" using P(2) that assms(4) by auto
  have one: "\<exists>d. {c. c < ra_chunks a \<and> in_range i (chunk_range a c)} = {d}" if "ra_begin a \<le> i \<and> i < ra_end a"
    using P(1) [OF that] by auto
  have sub: "?S \<subseteq> {c. c < ra_chunks a \<and> in_range i (chunk_range a c)}" using assms(4) by auto
  have "card ?S \<le> 1" if "ra_begin a \<le> i \<and> i < ra_end a"
    using one [OF that] sub card_mono [OF _ sub] by fastforce
  then show "covered i (map (chunk_range a) cs) \<le> (if ra_begin a \<le> i \<and> i < ra_end a then 1 else 0)"
    unfolding n using none by (cases "ra_begin a \<le> i \<and> i < ra_end a") (simp_all only: if_True if_False simp_thms card.empty order.refl)
  assume "set cs = {c. c < ra_chunks a}"
  then have "card ?S = 1" if "ra_begin a \<le> i \<and> i < ra_end a" using one [OF that] by auto
  then show "covered i (map (chunk_range a) cs) = (if ra_begin a \<le> i \<and> i < ra_end a then 1 else 0)"
    unfolding n using none by (cases "ra_begin a \<le> i \<and> i < ra_end a") (simp_all only: if_True if_False simp_thms card.empty order.refl)
qed

lemma covered_mset: "mset cs = mset ds + mset es \<Longrightarrow> covered i (map f cs) = covered i (map f ds) + covered i (map f es)"
proof -
  assume "mset cs = mset ds + mset es"
  then have "mset (map f cs) = mset (map f (ds @ es))" by simp
  then have "size (filter_mset (in_range i) (mset (map f cs))) = size (filter_mset (in_range i) (mset (map f (ds @ es))))"
    by (simp only:)
  then show ?thesis by (simp only: mset_filter [symmetric] size_mset covered_def map_append filter_append length_append)
qed

lemma finished_calls:
  assumes "range_inv a s" "caller_done (r_caller s)"
  shows "mset (rs_started (r_shared s)) = mset (rs_completed (r_shared s)) + mset (map fst (rs_threw (r_shared s)))"
  using started_split [OF assms(1)] unfolding done_phases(2) [OF assms] by simp

text \<open>
  C24. \<open>parallel_for\<close> does its work exactly once, however it runs: not at all, inline, or as the parallel loop
  with any number of helpers that the pool accepted, any interleaving, and any calls of the body throwing. The
  one condition is that the end of the last chunk of a parallel loop fits into 64 bits (\<open>ranges_fit\<close>). No index
  outside the interval is ever covered, and no index by two calls of the body. If the call returned, the body threw nowhere
  and each index of the interval lies in the range of exactly one completed call. If it threw, it rethrew an exception
  of the body, or the shared state could not be allocated and the body was never called. Within the
  parallel loop no chunk is ever drawn twice, and once the caller is done every helper has
  finished and every call that was started completed or threw.
\<close>

theorem parallel_for_exactly_once:
  assumes "range_call (run_ranges sm w n b e g) completed threw r"
    and "\<forall>a. run_ranges sm w n b e g = RunParallel a \<longrightarrow> ranges_fit a"
  shows "(\<forall>i. covered i completed + covered i (map fst threw) \<le> (if b \<le> i \<and> i < e then 1 else 0)) \<and>
    (r = ReturnedOk \<longrightarrow> threw = [] \<and> (\<forall>i. covered i completed = (if b \<le> i \<and> i < e then 1 else 0))) \<and>
    (\<forall>x. r = Threw x \<longrightarrow> x \<in> snd ` set threw \<or> x = ''bad_alloc'' \<and> \<not> sm \<and> completed = [] \<and> threw = []) \<and>
    (\<forall>a s. run_ranges sm w n b e g = RunParallel a \<longrightarrow> (range_step a)\<^sup>*\<^sup>* range_init s \<longrightarrow> distinct (rs_started (r_shared s)) \<and>
      (caller_done (r_caller s) \<longrightarrow> set (r_helpers s) \<subseteq> {Finished} \<and>
        mset (rs_started (r_shared s)) = mset (rs_completed (r_shared s)) + mset (map fst (rs_threw (r_shared s)))))"
    (is "?once \<and> ?returned \<and> ?threw \<and> ?loop")
proof -
  have "?once \<and> ?returned \<and> ?threw"
    using assms(1)
  proof cases
    case call_nothing
    then have "\<not> b < e" by (auto simp: run_ranges_def Let_def not_le split: if_splits)
    then show ?thesis using call_nothing by auto
  next
    case (call_inline lo hi)
    then have "lo = b" "hi = e" by (auto simp: run_ranges_def Let_def split: if_splits)
    then show ?thesis using call_inline by (auto simp: in_range_def)
  next
    case (call_inline_throws lo hi x)
    then have "lo = b" "hi = e" by (auto simp: run_ranges_def Let_def split: if_splits)
    then show ?thesis using call_inline_throws by (auto simp: in_range_def)
  next
    case call_no_memory
    then have "\<not> sm" by (auto simp: run_ranges_def Let_def split: if_splits)
    then show ?thesis using call_no_memory by auto
  next
    case (call_parallel a s)
    have fit: "ranges_fit a" using assms(2) call_parallel(1) by blast
    have inv: "range_inv a s" by (rule range_run_inv [OF call_parallel(5) fit])
    have ok: "args_ok a" by (rule run_ranges_args [OF call_parallel(1)])
    have be: "ra_begin a = b" "ra_end a = e" using call_parallel(1) by (auto simp: run_ranges_def Let_def split: if_splits)
    note C = covered_chunks [OF ok fit, unfolded be]
    have fs: "map fst threw = map (chunk_range a) (map fst (rs_threw (r_shared s)))"
      using call_parallel(3) by (simp add: case_prod_beta)
    have once: ?once
      using C(1) [OF started_distinct [OF inv]] covered_mset [OF finished_calls [OF inv call_parallel(6)], of _ "chunk_range a"]
      unfolding fs call_parallel(2) by metis
    have ret: "threw = [] \<and> (\<forall>i. covered i completed = (if b \<le> i \<and> i < e then 1 else 0))" if r: "r = ReturnedOk"
    proof -
      note m = returned_complete [OF inv r [unfolded call_parallel(4)]]
      have d: "distinct (rs_completed (r_shared s))" using mset_eq_imp_distinct_iff [OF m(1)] drawn_distinct(1) [of _ "ra_chunks a"] by simp
      have c: "set (rs_completed (r_shared s)) = {c. c < ra_chunks a}" using mset_eq_setD [OF m(1)] drawn_distinct(2) by simp
      then show ?thesis using C(2) [OF d _ c] m(2) call_parallel(2,3) by simp
    qed
    have "x \<in> snd ` set threw" if "r = Threw x" for x
    proof -
      have "x \<in> snd ` set (rs_threw (r_shared s))" using inv that unfolding call_parallel(4) range_inv_def chunks_inv_def error_inv_def by simp
      then show ?thesis using call_parallel(3) by force
    qed
    then show ?thesis using once ret by blast
  qed
  moreover have ?loop
  proof (intro allI impI)
    fix a s assume a: "run_ranges sm w n b e g = RunParallel a" "(range_step a)\<^sup>*\<^sup>* range_init s"
    then have inv: "range_inv a s" using range_run_inv assms(2) by blast
    show "distinct (rs_started (r_shared s)) \<and> (caller_done (r_caller s) \<longrightarrow> set (r_helpers s) \<subseteq> {Finished} \<and>
        mset (rs_started (r_shared s)) = mset (rs_completed (r_shared s)) + mset (map fst (rs_threw (r_shared s))))"
      using started_distinct(1) [OF inv] done_phases(1) [OF inv] finished_calls [OF inv] by blast
  qed
  ultimately show ?thesis by blast
qed

text \<open>A call over two indices with grain one whose helper the pool refuses.\<close>

abbreviation two_chunks :: range_args where
  "two_chunks \<equiv> \<lparr>ra_begin = 0, ra_end = 2, ra_grain = 1, ra_chunks = 2, ra_helpers = 1\<rparr>"

abbreviation two_state :: "u64 \<Rightarrow> u64 list \<Rightarrow> u64 list \<Rightarrow> caller_phase \<Rightarrow> range_state" where
  "two_state nx st co c \<equiv> \<lparr>r_shared = \<lparr>rs_next = nx, rs_failed = False, rs_error = None, rs_started = st, rs_completed = co, rs_threw = []\<rparr>,
     r_running_helpers = 0, r_helpers = [], r_caller = c\<rparr>"

lemma two_fetch:
  "range_step two_chunks (two_state 0 st co (Looping Fetch)) (two_state 1 (st @ [0]) co (Looping (Body 0)))"
  "range_step two_chunks (two_state 1 st co (Looping Fetch)) (two_state 2 (st @ [1]) co (Looping (Body 1)))"
  "range_step two_chunks (two_state 2 st co (Looping Fetch)) (two_state 3 st co (Looping Exited))"
  using range_step.caller [OF _ chunk_step.fetch, of "two_state 0 st co (Looping Fetch)" two_chunks]
    range_step.caller [OF _ chunk_step.fetch, of "two_state 1 st co (Looping Fetch)" two_chunks]
    range_step.caller [OF _ chunk_step.fetch, of "two_state 2 st co (Looping Fetch)" two_chunks]
  by (auto simp: fetch_chunk_def Let_def word_le_nat_alt)

lemma two_loop:
  "range_step two_chunks (two_state nx st co (Looping Check)) (two_state nx st co (Looping Fetch))"
  "range_step two_chunks (two_state nx st co (Looping (Body c))) (two_state nx st (co @ [c]) (Looping Check))"
  using range_step.caller [OF _ chunk_step.load_clear, of "two_state nx st co (Looping Check)" two_chunks]
    range_step.caller [OF _ chunk_step.body_returns, of "two_state nx st co (Looping (Body c))" c two_chunks]
  by simp_all

lemma two_run: "(range_step two_chunks)\<^sup>*\<^sup>* range_init (two_state 3 [0, 1] [0, 1] ReturnedOk)"
proof -
  let ?c = "two_state 0 [] [] (Counted 0)\<lparr>r_running_helpers := 1\<rparr>"
  have "range_step two_chunks range_init ?c" using range_step.count [of range_init 0 two_chunks] by (simp add: range_init_def)
  moreover have "range_step two_chunks ?c (two_state 0 [] [] (Looping Check))" using range_step.not_queued [of ?c 0 two_chunks] by simp
  ultimately have a: "(range_step two_chunks)\<^sup>*\<^sup>* range_init (two_state 0 [] [] (Looping Check))" by (blast intro: converse_rtranclp_into_rtranclp)
  note b = rtranclp.rtrancl_into_rtrancl [OF rtranclp.rtrancl_into_rtrancl [OF rtranclp.rtrancl_into_rtrancl [OF a two_loop(1)] two_fetch(1)] two_loop(2)]
  note c = rtranclp.rtrancl_into_rtrancl [OF rtranclp.rtrancl_into_rtrancl [OF rtranclp.rtrancl_into_rtrancl [OF b two_loop(1)] two_fetch(2)] two_loop(2)]
  note d = rtranclp.rtrancl_into_rtrancl [OF rtranclp.rtrancl_into_rtrancl [OF c two_loop(1)] two_fetch(3)]
  have "range_step two_chunks (two_state 3 [0, 1] [0, 1] (Looping Exited)) (two_state 3 [0, 1] [0, 1] Waiting)"
    using range_step.wait [of "two_state 3 [0, 1] [0, 1] (Looping Exited)" two_chunks] by simp
  moreover have "range_step two_chunks (two_state 3 [0, 1] [0, 1] Waiting) (two_state 3 [0, 1] [0, 1] ReturnedOk)"
    using range_step.return [of "two_state 3 [0, 1] [0, 1] Waiting" two_chunks] by simp
  ultimately show ?thesis using d by (simp add: rtranclp.rtrancl_into_rtrancl)
qed

lemma two_args: "run_ranges True False 1 0 2 1 = RunParallel two_chunks" "ranges_fit two_chunks"
  by (simp_all add: run_ranges_def chunk_count_def ranges_fit_def Let_def)

lemma two_call:
  "range_call (run_ranges True False 1 0 2 1) (map (chunk_range two_chunks) [0, 1]) [] ReturnedOk"
  "\<forall>a. run_ranges True False 1 0 2 1 = RunParallel a \<longrightarrow> ranges_fit a"
  using call_parallel [OF two_run] two_args by (simp_all add: caller_done_def)

theorem parallel_for_exactly_once_witness:
  "range_call (run_ranges True False 1 0 2 1) (map (chunk_range two_chunks) [0, 1]) [] ReturnedOk \<and>
   (\<forall>i::u64. covered i (map (chunk_range two_chunks) [0, 1]) = (if 0 \<le> i \<and> i < 2 then 1 else 0))"
  using parallel_for_exactly_once [OF two_call] two_call(1) by blast

subsection \<open>Every execution ends\<close>

fun weight :: "chunk_phase \<Rightarrow> nat" where
  "weight Queued = 4" | "weight Check = 3" | "weight Fetch = 2" | "weight (Body c) = 5" | "weight (Catch c e) = 4" | "weight Exited = 1" | "weight Finished = 0"

fun caller_weight :: "range_args \<Rightarrow> caller_phase \<Rightarrow> nat" where
  "caller_weight a (Spawn h) = 6 * (unat (ra_helpers a) - h) + 7"
| "caller_weight a (Counted h) = 6 * (unat (ra_helpers a) - h) + 6"
| "caller_weight a (Looping p) = 2"
| "caller_weight a Waiting = 1"
| "caller_weight a ReturnedOk = 0"
| "caller_weight a (Threw e) = 0"

definition range_measure :: "range_args \<Rightarrow> range_state \<Rightarrow> nat" where
  "range_measure a s = 4 * (unat (ra_chunks a) - length (rs_started (r_shared s))) + sum_mset (image_mset weight (phases s)) + caller_weight a (r_caller s)"

lemma chunk_step_weight:
  assumes "chunk_step a s p s' q" "length (rs_started s) = min (unat (rs_next s)) (unat (ra_chunks a))"
  shows "4 * (unat (ra_chunks a) - length (rs_started s')) + weight q < 4 * (unat (ra_chunks a) - length (rs_started s)) + weight p"
  using assms
proof (induction rule: chunk_step.induct)
  case (fetch s s' q)
  then show ?case by (auto simp: fetch_chunk_def Let_def word_le_nat_alt min_def split: if_splits)
qed (simp_all add: record_error_def)

lemma range_step_decreases:
  assumes "range_step a s s'" "range_inv a s"
  shows "range_measure a s' < range_measure a s"
proof -
  have l: "length (rs_started (r_shared s)) = min (unat (rs_next (r_shared s))) (unat (ra_chunks a))" using assms(2) by (simp add: range_inv_def chunks_inv_def count_inv_def drawn_def)
  have W: "sum_mset (image_mset weight (mset (hs[i := q]))) + weight (hs ! i) = sum_mset (image_mset weight (mset hs)) + weight q" if i: "i < length hs" for hs i q
  proof -
    obtain N where "mset hs = add_mset (hs ! i) N" "\<And>q. mset (hs[i := q]) = add_mset q N" using split_helper [OF i] by metis
    then show ?thesis by simp
  qed
  have k: "caller_inv a s (r_caller s)" using assms(2) by (simp add: range_inv_def)
  from assms(1) show ?thesis
  proof cases
    case (queued h)
    then have "unat (ra_helpers a) - h = Suc (unat (ra_helpers a) - Suc h)" using k by (simp add: Suc_diff_Suc)
    then show ?thesis using queued by (simp add: range_measure_def phases_def)
  next
    case (caller p sh q)
    then show ?thesis using chunk_step_weight [OF caller(3) l] by (simp add: range_measure_def phases_def)
  next
    case return
    then show ?thesis by (simp add: range_measure_def phases_def split: option.splits)
  next
    case (start i)
    then show ?thesis using W [OF start(2), of Check] by (simp add: range_measure_def phases_def)
  next
    case (helper i sh q)
    then show ?thesis using W [OF helper(2), of q] chunk_step_weight [OF helper(3) l] by (simp add: range_measure_def phases_def)
  next
    case (leave i)
    then show ?thesis using W [OF leave(2), of Finished] by (simp add: range_measure_def phases_def)
  qed (simp_all add: range_measure_def phases_def)
qed

lemma chunk_step_possible: "p \<noteq> Queued \<Longrightarrow> p \<noteq> Exited \<Longrightarrow> p \<noteq> Finished \<Longrightarrow> \<exists>s' q. chunk_step a s p s' q"
  by (cases p; cases "fetch_chunk a s") (blast intro: chunk_step.intros)+

lemma range_progress:
  assumes inv: "range_inv a s" and u: "\<not> caller_done (r_caller s)"
  shows "\<exists>s'. range_step a s s'"
proof (cases "r_caller s")
  case (Spawn h)
  then show ?thesis using range_step.count range_step.spawned by (cases "h < unat (ra_helpers a)") (blast intro: leI)+
next
  case (Counted h)
  then show ?thesis using range_step.queued by blast
next
  case (Looping p)
  then have "p \<noteq> Queued" "p \<noteq> Finished" using inv by (simp_all add: range_inv_def)
  then show ?thesis using Looping range_step.caller range_step.wait chunk_step_possible by (cases "p = Exited") blast+
next
  case Waiting
  show ?thesis
  proof (cases "r_running_helpers s = 0")
    case True
    then show ?thesis using Waiting range_step.return by blast
  next
    case False
    then have "count (mset (r_helpers s)) Finished \<noteq> length (r_helpers s)" using inv Waiting by (simp add: range_inv_def pending_helper_def word_counter(4))
    then obtain i where i: "i < length (r_helpers s)" "r_helpers s ! i \<noteq> Finished" unfolding count_full by (metis in_set_conv_nth insertCI subsetI)
    then show ?thesis using range_step.start [OF i(1)] range_step.leave [OF i(1)] range_step.helper [OF i(1)] chunk_step_possible [of "r_helpers s ! i" a "r_shared s"] by blast
  qed
qed (use u in \<open>simp_all add: caller_done_def\<close>)

lemma done_stuck: "range_inv a s \<Longrightarrow> caller_done (r_caller s) \<Longrightarrow> \<not> range_step a s s'"
proof
  assume inv: "range_inv a s" and d: "caller_done (r_caller s)" and st: "range_step a s s'"
  have f: "r_helpers s ! i = Finished" if "i < length (r_helpers s)" for i using done_phases(1) [OF inv d] nth_mem [OF that] by blast
  from st show False using d f by cases (auto simp: caller_done_def dest: chunk_step_phases)
qed

text \<open>
  C25. \<open>parallel_for\<close> ends: no execution of the parallel loop takes infinitely many steps, and an execution that
  can take no further step is one in which the caller has returned or rethrown. It is enough that the pool runs the tasks
  it accepted and that every call of the body ends.
\<close>

theorem parallel_for_ends:
  assumes "run_ranges sm w n b e g = RunParallel a" "ranges_fit a"
  shows "\<not> (\<exists>f. f 0 = range_init \<and> (\<forall>k. range_step a (f k) (f (Suc k)))) \<and>
    (\<forall>s. (range_step a)\<^sup>*\<^sup>* range_init s \<longrightarrow> (caller_done (r_caller s) \<longleftrightarrow> \<not> (\<exists>s'. range_step a s s')))"
proof (intro conjI notI allI impI)
  assume "\<exists>f. f 0 = range_init \<and> (\<forall>k. range_step a (f k) (f (Suc k)))"
  then obtain f where f: "f 0 = range_init" "\<And>k. range_step a (f k) (f (Suc k))" by blast
  have "(range_step a)\<^sup>*\<^sup>* range_init (f k)" for k
  proof (induction k)
    case (Suc k)
    then show ?case using f(2) by (rule rtranclp.rtrancl_into_rtrancl)
  qed (simp add: f(1))
  then have "range_measure a (f (Suc k)) < range_measure a (f k)" for k using range_step_decreases [OF f(2)] range_run_inv assms(2) by blast
  moreover have "wf (measure (range_measure a))" by simp
  ultimately show False unfolding wf_iff_no_infinite_down_chain by fastforce
next
  fix s assume "(range_step a)\<^sup>*\<^sup>* range_init s"
  then have "range_inv a s" using assms(2) by (rule range_run_inv)
  then show "caller_done (r_caller s) \<longleftrightarrow> \<not> (\<exists>s'. range_step a s s')" using range_progress done_stuck by blast
qed

theorem parallel_for_ends_witness:
  "run_ranges True False 1 0 2 1 = RunParallel two_chunks \<and> ranges_fit two_chunks \<and> \<not> (\<exists>f. f 0 = range_init \<and> (\<forall>k. range_step two_chunks (f k) (f (Suc k))))"
  using parallel_for_ends [OF two_args] two_args by blast

end
