(* ===== verification/VF_Batch.thy ===== *)
theory VF_Batch
  imports VF_CollectionOps VF_ThreadPool
begin

text \<open>
  Batch insertion (\<open>Collection::add_batch\<close> and \<open>add_batch_concurrent\<close> of
  \<^verbatim>\<open>src/collection/collection.cpp\<close>). The exclusive lock is released between slices of a Level A batch and
  between the grow and link sections of a Level B batch; other writers wait, so the state passed on is
  the one the batch left. Where a slice or a grow section ends depends on a clock: \<open>slice_over\<close> says
  after which rows it does. The links of one section may run on a pool: the plan of \<open>run_ranges\<close> says how, the ranges are
  single rows, and they are linked one after another in any order (\<open>link_order\<close>); where the pool cannot
  allocate its shared state the exception leaves the batch between growing and linking. Inputs named
  \<open>mem\<close> say which allocations succeed (\<open>mem_copy\<close> stands for all of those of the normalised copy, its
  own \<open>parallel_for\<close> included).
\<close>

definition batch_row :: "f32 list \<Rightarrow> nat \<Rightarrow> nat \<Rightarrow> f32 list" where
  "batch_row data dim i = take dim (drop (i * dim) data)"

subsection \<open>Level A\<close>

fun insert_rows :: "(nat \<Rightarrow> faults) \<Rightarrow> external_id list \<Rightarrow> f32 list \<Rightarrow> nat \<Rightarrow> bool \<Rightarrow> nat list \<Rightarrow> nat \<Rightarrow> collection_state
    \<Rightarrow> nat result outcome \<times> collection_state" where
  "insert_rows mems ids data dim upsert [] inserted s = (Returned (Inr inserted), s)"
| "insert_rows mems ids data dim upsert (i # is) inserted s =
     (case insert_row (mems i) backend_add s (ids ! i) upsert (batch_row data dim i) of
        (Returned st, _, s1) \<Rightarrow>
          if status_ok st then insert_rows mems ids data dim upsert is (Suc inserted) s1 else (Returned (Inl st), s1)
      | (Thrown, _, s1) \<Rightarrow> (Thrown, s1)
      | (Aborted, _, s1) \<Rightarrow> (Aborted, s1))"

subsection \<open>Level B\<close>

definition kLinkRowsPerWorker :: nat where "kLinkRowsPerWorker = 64"

definition abandon_row :: "collection_state \<Rightarrow> reservation \<Rightarrow> internal_id \<Rightarrow> collection_state option" where
  "abandon_row s r internal =
     (case im_revert (cs_ids s) r internal of
        None \<Rightarrow> None
      | Some ids \<Rightarrow>
          (case tb_set (cs_deleted s) internal of
             None \<Rightarrow> None
           | Some (_, d1) \<Rightarrow>
               if rv_previous r \<noteq> kInvalidInternalId
               then (case tb_clear d1 (rv_previous r) of
                       None \<Rightarrow> None
                     | Some (_, d2) \<Rightarrow> Some (s\<lparr>cs_ids := ids, cs_deleted := d2\<rparr>))
               else Some (s\<lparr>cs_ids := ids, cs_deleted := d1\<rparr>)))"

text \<open>The grow section: at most \<open>want\<close> rows from \<open>row\<close> on; the reservations of the rows grown, and
  how the section ended.\<close>

fun grow_rows :: "(nat \<Rightarrow> faults) \<Rightarrow> (nat \<Rightarrow> bool) \<Rightarrow> external_id list \<Rightarrow> f32 list \<Rightarrow> nat \<Rightarrow> bool \<Rightarrow> nat \<Rightarrow> nat \<Rightarrow> collection_state
    \<Rightarrow> reservation list \<times> status outcome \<times> collection_state" where
  "grow_rows mems slice_over ids data dim upsert 0 row s = ([], Returned ok_status, s)"
| "grow_rows mems slice_over ids data dim upsert (Suc want) row s =
     (case insert_row (mems row) backend_reserve s (ids ! row) upsert (batch_row data dim row) of
        (Returned st, rv, s1) \<Rightarrow>
          if \<not> status_ok st then ([], Returned st, s1)
          else (case rv of
                  None \<Rightarrow> ([], Aborted, s1)
                | Some r \<Rightarrow>
                    if slice_over row then ([r], Returned ok_status, s1)
                    else (case grow_rows mems slice_over ids data dim upsert want (Suc row) s1 of
                            (rs, res, s2) \<Rightarrow> (r # rs, res, s2)))
      | (Thrown, rv, s1) \<Rightarrow> ([], Thrown, s1)
      | (Aborted, rv, s1) \<Rightarrow> ([], Aborted, s1))"

text \<open>The link section: one flag per row that failed with \<^verbatim>\<open>std::bad_alloc\<close>.\<close>

fun link_rows :: "(nat \<Rightarrow> bool) \<Rightarrow> internal_id list \<Rightarrow> collection_state \<Rightarrow> (bool list \<times> collection_state) option" where
  "link_rows link_mem [] s = Some ([], s)"
| "link_rows link_mem (i # is) s =
     (case cs_backend s of
        HnswBackend b \<Rightarrow>
          (case hnsw_link (link_mem i) b (cs_vectors s) i of
             (Returned _, b1) \<Rightarrow> map_option (\<lambda>(fs, s1). (False # fs, s1)) (link_rows link_mem is (s\<lparr>cs_backend := HnswBackend b1\<rparr>))
           | (Thrown, b1) \<Rightarrow> map_option (\<lambda>(fs, s1). (True # fs, s1)) (link_rows link_mem is (s\<lparr>cs_backend := HnswBackend b1\<rparr>))
           | (Aborted, b1) \<Rightarrow> None)
      | _ \<Rightarrow> None)"

fun abandon_rows :: "(reservation \<times> bool) list \<Rightarrow> internal_id \<Rightarrow> collection_state \<Rightarrow> collection_state option" where
  "abandon_rows [] i s = Some s"
| "abandon_rows ((r, failed) # rs) i s =
     (if failed
      then (case abandon_row s r i of None \<Rightarrow> None | Some s1 \<Rightarrow> abandon_rows rs (Suc i) s1)
      else abandon_rows rs (Suc i) s)"

text \<open>How a section of \<open>n\<close> grown rows is linked: by \<open>parallel_for\<close> over single rows where there is a pool and
  more than one row, else in a plain loop. Either way \<open>failed\<close> has one flag per row, in row order.\<close>

definition link_plan :: "bool \<Rightarrow> bool \<Rightarrow> nat \<Rightarrow> nat \<Rightarrow> range_plan" where
  "link_plan par_mem on_worker pool n =
     (if n = 0 then RunNothing
      else if 0 < pool \<and> 1 < n then run_ranges par_mem on_worker (word_of_nat pool) 0 (word_of_nat n) 1
      else RunInline 0 (word_of_nat n))"

definition link_section :: "(nat \<Rightarrow> bool) \<Rightarrow> (internal_id list \<Rightarrow> internal_id list) \<Rightarrow> range_plan \<Rightarrow> internal_id list \<Rightarrow> collection_state
    \<Rightarrow> bool list outcome \<times> collection_state" where
  "link_section link_mem link_order plan rows s =
     (if plan = RunThrows then (Thrown, s)
      else let js = (case plan of RunParallel a \<Rightarrow> link_order rows | _ \<Rightarrow> rows)
        in case link_rows link_mem js s of
             None \<Rightarrow> (Aborted, s)
           | Some (fs, s1) \<Rightarrow> (Returned (map (\<lambda>i. (i, True) \<in> set (zip js fs)) rows), s1))"

text \<open>A section that ends without an error grew at least one row, so the loop over the sections ends.\<close>

lemma grow_rows_length: "grow_rows mems slice_over ids data dim upsert want row s = (rs, res, s') \<Longrightarrow> length rs \<le> want"
  by (induction want arbitrary: row s rs) (fastforce split: prod.splits outcome.splits option.splits if_splits)+

lemma grow_rows_progress:
  assumes "grow_rows mems slice_over ids data dim upsert want row s = (rs, Returned st, s')" "status_ok st" "0 < want"
  shows "rs \<noteq> []"
  using assms by (cases want) (auto split: prod.splits outcome.splits option.splits if_splits)

text \<open>The inputs of the link sections: \<open>pool\<close> is the number of its workers (0 where there is no pool),
  \<open>par_mem\<close> and \<open>link_order\<close> are indexed by the first row of the section.\<close>

record link_env =
  le_pool :: nat
  le_on_worker :: bool
  le_par_mem :: "nat \<Rightarrow> bool"
  le_order :: "nat \<Rightarrow> internal_id list \<Rightarrow> internal_id list"

function add_sections :: "(nat \<Rightarrow> faults) \<Rightarrow> (nat \<Rightarrow> bool) \<Rightarrow> (nat \<Rightarrow> bool) \<Rightarrow> (nat \<Rightarrow> bool) \<Rightarrow> link_env \<Rightarrow> external_id list \<Rightarrow> f32 list \<Rightarrow> nat
    \<Rightarrow> bool \<Rightarrow> nat \<Rightarrow> nat \<Rightarrow> collection_state \<Rightarrow> nat result outcome \<times> collection_state" where
  "add_sections mems slice_over section_mem link_mem pool ids data dim upsert fin inserted s =
     (if length ids \<le> fin then (Returned (Inr inserted), s)
      else if \<not> section_mem fin then (Thrown, s)
      else case cs_backend s of
        HnswBackend b \<Rightarrow>
          (let workers = le_pool pool + 1; want = min (kLinkRowsPerWorker * workers) (length ids - fin); first = st_size (cs_vectors s)
           in case prepare_insert b (st_size (cs_vectors s) + want) workers of
                None \<Rightarrow> (Aborted, s)
              | Some b1 \<Rightarrow>
                  (case grow_rows mems slice_over ids data dim upsert want fin (s\<lparr>cs_backend := HnswBackend b1\<rparr>) of
                     (grown, res, s1) \<Rightarrow>
                       if res = Aborted then (Aborted, s1)
                       else (case link_section link_mem (le_order pool fin)
                                    (link_plan (le_par_mem pool fin) (le_on_worker pool) (le_pool pool) (length grown))
                                    [first..<first + length grown] s1 of
                          (Aborted, s2) \<Rightarrow> (Aborted, s2)
                        | (Thrown, s2) \<Rightarrow> (Thrown, s2)
                        | (Returned failed, s2) \<Rightarrow>
                            (case abandon_rows (zip grown failed) first s2 of
                               None \<Rightarrow> (Aborted, s2)
                             | Some s3 \<Rightarrow>
                                 (case res of
                                    Returned st \<Rightarrow>
                                      if True \<in> set failed then (Thrown, s3)
                                      else if \<not> status_ok st then (Returned (Inl st), s3)
                                      else add_sections mems slice_over section_mem link_mem pool ids data dim upsert
                                             (fin + length grown) (inserted + length (filter Not failed)) s3
                                  | _ \<Rightarrow> (Thrown, s3))))))
      | _ \<Rightarrow> (Aborted, s))"
  by pat_completeness auto
termination
proof (relation "measure (\<lambda>(mems, slice_over, section_mem, link_mem, pool, ids, data, dim, upsert, fin, inserted, s). length ids - fin)", goal_cases)
  case 2
  then show ?case by (auto dest!: grow_rows_progress [OF sym] simp: kLinkRowsPerWorker_def intro!: diff_less_mono2)
qed simp

declare add_sections.simps [simp del]

subsection \<open>Checks before the first row\<close>

text \<open>The loop that normalises the rows in place; a failed row is left as it is.\<close>

definition normalize_rows :: "kernel_table \<Rightarrow> nat \<Rightarrow> nat \<Rightarrow> f32 list \<Rightarrow> status list \<times> f32 list" where
  "normalize_rows table n dim rows =
     (let rs = map (\<lambda>i. normalize_inplace (batch_row rows dim i) table) [0..<n] in (map fst rs, concat (map snd rs)))"

fun first_failure :: "nat \<Rightarrow> status list \<Rightarrow> status option" where
  "first_failure i [] = None"
| "first_failure i (st # sts) =
     (if status_ok st then first_failure (Suc i) sts
      else Some (invalid_argument (''row '' @ show_nat i @ '': '' @ status_message st)))"

text \<open>The checks on the request itself, before any lock: duplicate and reserved ids, and the rows to insert.\<close>

definition check_ids :: "external_id list \<Rightarrow> status" where
  "check_ids ids =
     (let sorted = sort (map unat ids)
      in case adjacent_find sorted of
           Some dup \<Rightarrow> invalid_argument (''id '' @ show_nat dup @ '' appears more than once in batch'')
         | None \<Rightarrow>
             if last sorted = unat kInvalidExternalId
             then invalid_argument (''external id '' @ show_nat (unat kInvalidExternalId) @ '' is reserved'')
             else ok_status)"

definition batch_data :: "collection_state \<Rightarrow> nat \<Rightarrow> f32 list \<Rightarrow> f32 list result" where
  "batch_data s n rows =
     (if effective_normalize (cs_config s)
      then (case normalize_rows (cs_kernels s) n (unat (cc_dim (cs_config s))) rows of
              (failures, data) \<Rightarrow> (case first_failure 0 failures of Some e \<Rightarrow> Inl e | None \<Rightarrow> Inr data))
      else Inr rows)"

text \<open>The checks and reservations under the lock.\<close>

definition prepare_batch :: "allocator \<Rightarrow> bool \<Rightarrow> collection_state \<Rightarrow> external_id list \<Rightarrow> bool \<Rightarrow> status outcome \<times> collection_state" where
  "prepare_batch alloc mem_reserve s ids upsert =
     (let n = length ids; size = st_size (cs_vectors s)
      in case (if upsert then None else find (im_contains (cs_ids s)) ids) of
           Some x \<Rightarrow> (Returned (already_exists (''id '' @ show_nat (unat x) @ '' already exists'')), s)
         | None \<Rightarrow>
             if size + n > st_max_rows (cs_vectors s)
             then (Returned (resource_exhausted (''batch of '' @ show_nat n @ '' vectors exceeds collection capacity'')), s)
             else (case st_reserve alloc (cs_vectors s) (size + n) of
                     (Thrown, v) \<Rightarrow> (Thrown, s\<lparr>cs_vectors := v\<rparr>)
                   | (Aborted, v) \<Rightarrow> (Aborted, s)
                   | (Returned st, v) \<Rightarrow>
                       if \<not> status_ok st then (Returned st, s\<lparr>cs_vectors := v\<rparr>)
                       else if \<not> mem_reserve then (Thrown, s\<lparr>cs_vectors := v\<rparr>)
                       else (Returned ok_status, s\<lparr>cs_vectors := v, cs_deleted := tb_ensure_size (cs_deleted s) (st_size v + n)\<rparr>)))"

definition collection_add_batch :: "bool \<Rightarrow> bool \<Rightarrow> allocator \<Rightarrow> bool \<Rightarrow> (nat \<Rightarrow> faults) \<Rightarrow> (nat \<Rightarrow> bool) \<Rightarrow> (nat \<Rightarrow> bool) \<Rightarrow> (nat \<Rightarrow> bool) \<Rightarrow> link_env
    \<Rightarrow> collection_state \<Rightarrow> external_id list \<Rightarrow> f32 list \<Rightarrow> insert_options \<Rightarrow> nat result outcome \<times> collection_state" where
  "collection_add_batch mem_sort mem_copy alloc mem_reserve mems slice_over section_mem link_mem pool s ids rows opts =
     (let n = length ids; dim = unat (cc_dim (cs_config s)); valid = validate_batch rows n dim
      in if \<not> status_ok valid then (Returned (Inl valid), s)
         else if n = 0 then (Returned (Inr 0), s)
         else if \<not> mem_sort then (Thrown, s)
         else if \<not> status_ok (check_ids ids) then (Returned (Inl (check_ids ids)), s)
         else if effective_normalize (cs_config s) \<and> \<not> mem_copy then (Thrown, s)
         else case batch_data s n rows of
           Inl e \<Rightarrow> (Returned (Inl e), s)
         | Inr data \<Rightarrow>
             (case prepare_batch alloc mem_reserve s ids (io_upsert opts) of
                (Thrown, s1) \<Rightarrow> (Thrown, s1)
              | (Aborted, s1) \<Rightarrow> (Aborted, s1)
              | (Returned st, s1) \<Rightarrow>
                  if \<not> status_ok st then (Returned (Inl st), s1)
                  else if cc_index (cs_config s) = Hnsw \<and> cc_concurrency (cs_config s) = Concurrent
                  then add_sections mems slice_over section_mem link_mem pool ids data dim (io_upsert opts) 0 0 s1
                  else insert_rows mems ids data dim (io_upsert opts) [0..<n] 0 s1))"

subsection \<open>A run of insertions\<close>

definition grew :: "collection_state \<Rightarrow> (external_id \<times> f32 list) list \<Rightarrow> collection_state \<Rightarrow> bool" where
  "grew s ps s' \<longleftrightarrow>
     same_frame s s' \<and> store_ok s' \<and> im_pending (cs_ids s') = im_pending (cs_ids s) \<and>
     st_rows (cs_vectors s') = st_rows (cs_vectors s) @ map snd ps \<and> im_labels (cs_ids s') = im_labels (cs_ids s) @ map fst ps \<and>
     im_find (cs_ids s') = im_find (cs_ids s) ++
       map_of (zip (map fst ps) [st_size (cs_vectors s)..<st_size (cs_vectors s) + length ps])"

lemma grew_Nil: "store_ok s \<Longrightarrow> grew s [] s"
  by (simp add: grew_def)

lemma grew_size: "grew s ps s' \<Longrightarrow> st_size (cs_vectors s') = st_size (cs_vectors s) + length ps"
  using length_st_rows [of "cs_vectors s'"] length_st_rows [of "cs_vectors s"] by (simp add: grew_def)

lemma grew_Cons:
  assumes "row_inserted s x row s1" "grew s1 ps s'" "x \<notin> fst ` set ps"
  shows "grew s ((x, row) # ps) s'"
proof -
  let ?n = "st_size (cs_vectors s)"
  have sz: "st_size (cs_vectors s1) = Suc ?n" using assms(1) length_st_rows [of "cs_vectors s1"] by (simp add: row_inserted_def)
  let ?ks = "[Suc ?n..<Suc ?n + length ps]"
  have u: "[?n..<?n + length ((x, row) # ps)] = ?n # ?ks" by (simp add: upt_conv_Cons del: upt_Suc)
  have nd: "x \<notin> dom (map_of (zip (map fst ps) ?ks))" using assms(3) by (simp add: dom_map_of_zip del: upt_Suc)
  have "im_find (cs_ids s') = (im_find (cs_ids s))(x \<mapsto> ?n) ++ map_of (zip (map fst ps) ?ks)"
    using assms(1,2) sz by (simp add: grew_def row_inserted_def)
  also have "\<dots> = im_find (cs_ids s) ++ map_of (zip (map fst ((x, row) # ps)) [?n..<?n + length ((x, row) # ps)])"
    unfolding u using nd by (simp add: map_add_upd_left del: upt_Suc)
  finally show ?thesis using assms(1,2) same_frame_trans [of s s1 s'] by (simp add: grew_def row_inserted_def)
qed

lemma grew_view:
  assumes "store_ok s" "grew s ps s'" "distinct (map fst ps)"
  shows "coll_view s' = coll_view s ++ map_of ps"
proof
  fix y
  let ?n = "st_size (cs_vectors s)" and ?ks = "[st_size (cs_vectors s)..<st_size (cs_vectors s) + length ps]"
  have g: "store_ok s'" "st_rows (cs_vectors s') = st_rows (cs_vectors s) @ map snd ps"
    "im_find (cs_ids s') = im_find (cs_ids s) ++ map_of (zip (map fst ps) ?ks)" using assms(2) by (simp_all add: grew_def)
  show "coll_view s' y = (coll_view s ++ map_of ps) y"
  proof (cases "y \<in> fst ` set ps")
    case True
    then obtain j where j: "j < length ps" "y = fst (ps ! j)" by (auto simp: in_set_conv_nth)
    have "map_of (zip (map fst ps) ?ks) y = Some (?ks ! j)"
      using map_of_zip_nth [of "map fst ps" ?ks j] assms(3) j by simp
    then have "coll_view s' y = Some (snd (ps ! j))" using j by (simp add: coll_view_row [OF g(1)] g(2,3) nth_append)
    moreover have "map_of ps y = Some (snd (ps ! j))"
      using map_of_is_SomeI [OF assms(3), of y "snd (ps ! j)"] j nth_mem [OF j(1)] by simp
    ultimately show ?thesis by simp
  next
    case False
    then have N: "map_of (zip (map fst ps) ?ks) y = None" "map_of ps y = None"
      by (simp_all add: map_of_eq_None_iff [THEN iffD2] map_of_zip_is_None)
    have "im_find (cs_ids s') y = im_find (cs_ids s) y" unfolding g(3) map_add_def N by simp
    then show ?thesis using im_find_row(1) [OF assms(1), of y] N(2)
      by (cases "im_find (cs_ids s) y") (simp_all add: coll_view_row [OF g(1)] coll_view_row [OF assms(1)] g(2) map_add_def nth_append)
  qed
qed

subsection \<open>Level A runs\<close>

definition batch_pair :: "external_id list \<Rightarrow> f32 list \<Rightarrow> nat \<Rightarrow> nat \<Rightarrow> external_id \<times> f32 list" where
  "batch_pair ids data dim i = (ids ! i, batch_row data dim i)"

text \<open>What the checks establish: valid rows under distinct, usable ids.\<close>

definition batch_ok :: "collection_state \<Rightarrow> external_id list \<Rightarrow> f32 list \<Rightarrow> nat \<Rightarrow> bool \<Rightarrow> bool" where
  "batch_ok s ids data dim upsert \<longleftrightarrow>
     dim = unat (cc_dim (cs_config s)) \<and> distinct ids \<and> kInvalidExternalId \<notin> set ids \<and>
     (upsert \<or> set ids \<inter> dom (coll_view s) = {}) \<and>
     (\<forall>i < length ids. status_ok (validate_vector (batch_row data dim i) dim))"

lemma insert_rows_outcome:
  assumes m: "\<And>i. alloc_fits (fa_chunk (mems i))"
  shows "insert_rows mems ids data dim upsert js c s = (res, s') \<Longrightarrow> coll_inv s \<Longrightarrow> dim = unat (cc_dim (cs_config s)) \<Longrightarrow>
    distinct (map ((!) ids) js) \<Longrightarrow> kInvalidExternalId \<notin> set (map ((!) ids) js) \<Longrightarrow>
    upsert \<or> set (map ((!) ids) js) \<inter> dom (coll_view s) = {} \<Longrightarrow>
    (\<forall>i \<in> set js. status_ok (validate_vector (batch_row data dim i) dim)) \<Longrightarrow>
    \<exists>k \<le> length js. coll_inv s' \<and> grew s (map (batch_pair ids data dim) (take k js)) s' \<and>
      (case res of Returned (Inr c') \<Rightarrow> k = length js \<and> c' = c + length js
       | Returned (Inl st) \<Rightarrow> k < length js \<and> code st = ResourceExhausted | Thrown \<Rightarrow> True | Aborted \<Rightarrow> False)"
proof (induction js arbitrary: s c)
  case Nil
  then show ?case using grew_Nil [OF coll_inv_store] by auto
next
  case (Cons i js)
  obtain o1 rv s1 where i: "insert_row (mems i) backend_add s (ids ! i) upsert (batch_row data dim i) = (o1, rv, s1)"
    by (metis prod_cases3)
  have "status_ok (validate_vector (batch_row data dim i) (unat (cc_dim (cs_config s))))" using Cons.prems(3,7) by simp
  note io = insert_row_outcome [OF Cons.prems(2) m this i]
  show ?case
  proof (cases "\<exists>st. o1 = Returned st \<and> status_ok st")
    case True
    then obtain st where st: "o1 = Returned st" "status_ok st" by blast
    then have ri: "coll_inv s1" "row_inserted s (ids ! i) (batch_row data dim i) s1" using io by (simp_all add: insert_outcome_def)
    have cfg: "cs_config s1 = cs_config s" using ri(2) by (simp add: row_inserted_def same_frame_def)
    have v: "dom (coll_view s1) = insert (ids ! i) (dom (coll_view s))"
      using row_inserted_view [OF coll_inv_store [OF Cons.prems(2)] ri(2)] by simp
    have run: "insert_rows mems ids data dim upsert js (Suc c) s1 = (res, s')" using Cons.prems(1) i st by simp
    have fr: "ids ! i \<notin> set (map ((!) ids) js)" using Cons.prems(4) by simp
    obtain k where k: "k \<le> length js" "coll_inv s'" "grew s1 (map (batch_pair ids data dim) (take k js)) s'"
      "case res of Returned (Inr c') \<Rightarrow> k = length js \<and> c' = Suc c + length js
       | Returned (Inl st) \<Rightarrow> k < length js \<and> code st = ResourceExhausted | Thrown \<Rightarrow> True | Aborted \<Rightarrow> False"
      using Cons.IH [OF run ri(1)] Cons.prems(3-7) cfg v fr by auto
    have "ids ! i \<notin> fst ` set (map (batch_pair ids data dim) (take k js))"
      using fr set_take_subset [of k js] by (auto simp: batch_pair_def)
    from grew_Cons [OF ri(2) k(3) this] have "grew s (map (batch_pair ids data dim) (take (Suc k) (i # js))) s'"
      by (simp add: batch_pair_def)
    then show ?thesis using k(1,2,4) by (intro exI [of _ "Suc k"]) (auto split: outcome.splits sum.splits)
  next
    case False
    have inv: "coll_inv s1" and sc: "same_contents s s1" using io False by (cases o1; simp add: insert_outcome_def)+
    have g: "grew s [] s1" using sc by (simp add: grew_def same_contents_def)
    have id: "ids ! i \<noteq> kInvalidExternalId" "ids ! i \<in> dom (coll_view s) \<Longrightarrow> upsert" using Cons.prems(5,6) by auto
    have "(\<exists>st. res = Returned (Inl st) \<and> code st = ResourceExhausted) \<or> res = Thrown" "s' = s1"
      using False Cons.prems(1) i io id by (cases o1; auto simp: insert_outcome_def split: if_splits)+
    then show ?thesis using g inv by (intro exI [of _ 0]) auto
  qed
qed

end
