(* ===== verification/VF_Sections.thy ===== *)
theory VF_Sections
  imports VF_Batch
begin

text \<open>
  Level B batches: what a grow section, a link section and the abandoning of failed rows do, and the
  outcome of the whole batch. A row that could not be linked stays in the store and in the graph as a
  tombstoned node without links, and its id is back to what it mapped to before; where the pool could not start the section at all, the
  rows stay live without links (\<open>coll_stranded\<close>).
\<close>

subsection \<open>Growing\<close>

definition prev_of :: "collection_state \<Rightarrow> external_id \<Rightarrow> reservation" where
  "prev_of s x = \<lparr>rv_external = x, rv_previous = (case im_find (cs_ids s) x of None \<Rightarrow> kInvalidInternalId | Some j \<Rightarrow> j)\<rparr>"

lemma prev_of_other: "im_find (cs_ids s') x = im_find (cs_ids s) x \<Longrightarrow> prev_of s' x = prev_of s x"
  by (simp add: prev_of_def)

lemma grow_ok_mono:
  "grow_ok cfg room v n U b \<Longrightarrow> U = U' \<Longrightarrow> grow_ok cfg room v n U' b"
  by simp

lemma grow_rows_outcome:
  assumes m: "\<And>i. alloc_fits (fa_chunk (mems i))" and d: "distinct ids" "kInvalidExternalId \<notin> set ids"
    and ok: "\<forall>i < length ids. status_ok (validate_vector (batch_row data dim i) dim)"
  shows "grow_rows mems so ids data dim upsert want row s = (rs, res, s') \<Longrightarrow> store_ok s \<Longrightarrow> im_pending (cs_ids s) = {} \<Longrightarrow>
    cfg = cs_config s \<Longrightarrow> grow_ok cfg room (cs_vectors s) (st_size (cs_vectors s)) U (cs_backend s) \<Longrightarrow> dim = unat (cc_dim cfg) \<Longrightarrow>
    row + want \<le> length ids \<Longrightarrow> (\<forall>i. row \<le> i \<and> i < length ids \<longrightarrow> ids ! i \<in> dom (im_find (cs_ids s)) \<longrightarrow> upsert) \<Longrightarrow>
    grew s (map (batch_pair ids data dim) [row..<row + length rs]) s' \<and>
    rs = map (\<lambda>i. prev_of s (ids ! i)) [row..<row + length rs] \<and>
    grow_ok cfg room (cs_vectors s') (st_size (cs_vectors s')) (U \<union> {st_size (cs_vectors s)..<st_size (cs_vectors s')}) (cs_backend s') \<and>
    res \<noteq> Aborted \<and> (\<forall>st. res = Returned st \<longrightarrow> status_ok st \<or> code st = ResourceExhausted)"
proof (induction want arbitrary: row s rs U)
  case 0
  then show ?case using grew_Nil [of s] by auto
next
  case (Suc want)
  let ?x = "ids ! row" and ?r = "batch_row data dim row"
  obtain o1 rv s1 where i: "insert_row (mems row) backend_reserve s ?x upsert ?r = (o1, rv, s1)" by (metis prod_cases3)
  have row: "row < length ids" using Suc.prems(7) by simp
  have "status_ok (validate_vector ?r (st_dim (cs_vectors s)))"
    using ok row Suc.prems(4,6) store_okD(3) [OF Suc.prems(2)] by simp
  note R = growing.insert_row_result [where idx = backend_reserve, OF Suc.prems(2,3,5) m [of row] this refl, of ?x upsert, unfolded i growing.row_result_def]
  have x: "?x \<noteq> kInvalidExternalId" "?x \<in> dom (im_find (cs_ids s)) \<longrightarrow> upsert" using d(2) row nth_mem [OF row] Suc.prems(8) by (auto simp del: nth_mem)
  show ?case
  proof (cases "\<exists>st. o1 = Returned st \<and> status_ok st")
    case False
    have sc: "same_contents s s1 \<and> grow_ok cfg room (cs_vectors s1) (st_size (cs_vectors s1)) U (cs_backend s1) \<and>
        o1 \<noteq> Aborted \<and> (\<forall>st. o1 = Returned st \<longrightarrow> code st = ResourceExhausted)"
    proof (cases o1)
      case (Returned st)
      then have "\<not> status_ok st" using False by simp
      then show ?thesis using R x Returned by simp
    qed (use R in simp_all)
    have e: "(rs, res, s') = ([], o1, s1)" using Suc.prems(1) i False sc by (cases o1) auto
    have "st_size (cs_vectors s1) = st_size (cs_vectors s)" using sc by (intro st_rows_size) (simp add: same_contents_def)
    moreover have "grew s [] s1" using sc by (simp add: grew_def same_contents_def)
    ultimately show ?thesis using e sc by simp
  next
    case True
    then obtain st where st: "o1 = Returned st" "status_ok st" by blast
    have ri: "row_inserted s ?x ?r s1" and rv: "rv = Some (prev_of s ?x)"
      and g1: "grow_ok cfg room (cs_vectors s1) (st_size (cs_vectors s1)) (insert (st_size (cs_vectors s)) U) (cs_backend s1)"
      using R st by (simp_all add: prev_of_def)
    have s1: "store_ok s1" "im_pending (cs_ids s1) = {}" "cs_config s1 = cs_config s"
      "im_find (cs_ids s1) = (im_find (cs_ids s))(?x \<mapsto> st_size (cs_vectors s))"
      using ri Suc.prems(3) by (simp_all add: row_inserted_def same_frame_def)
    have sz: "st_size (cs_vectors s1) = Suc (st_size (cs_vectors s))" using ri length_st_rows [of "cs_vectors s1"] by (simp add: row_inserted_def)
    show ?thesis
    proof (cases "so row")
      case True
      have e: "rs = [prev_of s ?x]" "res = Returned ok_status" "s' = s1" using Suc.prems(1) i st rv True by auto
      have "grew s [(?x, ?r)] s1" using grew_Cons [OF ri grew_Nil [OF s1(1)]] by simp
      moreover have "U \<union> {st_size (cs_vectors s)..<Suc (st_size (cs_vectors s))} = insert (st_size (cs_vectors s)) U" by auto
      ultimately show ?thesis using e g1 sz by (simp add: batch_pair_def)
    next
      case False
      obtain rs1 where run: "grow_rows mems so ids data dim upsert want (Suc row) s1 = (rs1, res, s')" "rs = prev_of s ?x # rs1"
        using Suc.prems(1) i st rv False by (auto split: prod.splits)
      let ?ks = "[Suc row..<Suc row + length rs1]"
      have ne: "ids ! j \<noteq> ?x" if "row < j" "j < length ids" for j
        using that row nth_eq_iff_index_eq [OF d(1), of j row] by auto
      have len: "length rs1 \<le> want" using grow_rows_length [OF run(1)] .
      have other: "im_find (cs_ids s1) (ids ! j) = im_find (cs_ids s) (ids ! j)" if "row < j" "j < length ids" for j
        using ne [OF that] by (simp add: s1(4))
      have dom1: "\<forall>j. Suc row \<le> j \<and> j < length ids \<longrightarrow> ids ! j \<in> dom (im_find (cs_ids s1)) \<longrightarrow> upsert"
      proof (intro allI impI)
        fix j assume "Suc row \<le> j \<and> j < length ids" "ids ! j \<in> dom (im_find (cs_ids s1))"
        then show upsert using other [of j] Suc.prems(8) [rule_format, of j] by (auto simp: dom_def)
      qed
      note IH = Suc.IH [OF run(1) s1(1,2) _ g1 Suc.prems(6) _ dom1]
      have IH1: "grew s1 (map (batch_pair ids data dim) ?ks) s'" "rs1 = map (\<lambda>i. prev_of s1 (ids ! i)) ?ks"
        "grow_ok cfg room (cs_vectors s') (st_size (cs_vectors s'))
          (insert (st_size (cs_vectors s)) U \<union> {st_size (cs_vectors s1)..<st_size (cs_vectors s')}) (cs_backend s')"
        "res \<noteq> Aborted" "\<forall>st. res = Returned st \<longrightarrow> status_ok st \<or> code st = ResourceExhausted"
        using IH Suc.prems(4,7) s1(3) by simp_all
      have nin: "?x \<notin> fst ` set (map (batch_pair ids data dim) ?ks)"
      proof
        assume "?x \<in> fst ` set (map (batch_pair ids data dim) ?ks)"
        then obtain j where "j \<in> set ?ks" "?x = ids ! j" by (auto simp: batch_pair_def simp del: upt_Suc)
        then have "row < j" "j < length ids" using len Suc.prems(7) by auto
        from ne [OF this] show False using \<open>?x = ids ! j\<close> by simp
      qed
      have ks: "[row..<row + length rs] = row # ?ks" using run(2) by (simp add: upt_conv_Cons del: upt_Suc)
      have prevs: "map (\<lambda>i. prev_of s1 (ids ! i)) ?ks = map (\<lambda>i. prev_of s (ids ! i)) ?ks"
        by (rule map_cong [OF refl], rule prev_of_other, rule other) (use len Suc.prems(7) in auto)
      have rs: "rs = map (\<lambda>i. prev_of s (ids ! i)) [row..<row + length rs]"
        using IH1(2) [unfolded prevs] run(2) unfolding ks by (simp del: upt_Suc)
      have gr: "grew s (map (batch_pair ids data dim) [row..<row + length rs]) s'"
        unfolding ks using grew_Cons [OF ri IH1(1) nin] by (simp add: batch_pair_def del: upt_Suc)
      have "st_size (cs_vectors s) < st_size (cs_vectors s')" using grew_size [OF gr] run(2) by simp
      then have "insert (st_size (cs_vectors s)) U \<union> {st_size (cs_vectors s1)..<st_size (cs_vectors s')} =
          U \<union> {st_size (cs_vectors s)..<st_size (cs_vectors s')}" unfolding sz by auto
      then show ?thesis using gr rs IH1(3-5) by simp
    qed
  qed
qed

subsection \<open>Linking\<close>

lemma hnsw_link_no_memory:
  assumes b: "backend_inv b v U" "pool_prepared b" "i \<in> U"
  shows "hnsw_link False b v i = hnsw_link True b v i \<or>
    (\<exists>b'. hnsw_link False b v i = (Thrown, b') \<and> backend_inv b' v U \<and> pool_prepared b' \<and> hg_levels (hb_graph b') = hg_levels (hb_graph b))"
proof (cases "entry_valid (read_entry (hb_graph b))")
  case False
  then have "hnsw_link False b v i = hnsw_link True b v i" by (simp add: hnsw_link_def Let_def split: option.splits)
  then show ?thesis ..
next
  case True
  have gi: "graph_inv (hb_graph b) v U" and po: "pool_ok b" and pm: "params_match b" using b(1) by (simp_all add: backend_inv_def)
  have "i < node_count (hb_graph b)" using graph_invD(4) [OF gi] b(3) by auto
  then obtain level where nl: "node_level (hb_graph b) i = Some level" by (simp add: node_level_def node_count_def)
  obtain sc pool where pt: "pool_take (hb_scratch b) = Some (sc, pool)" using b(2) by (simp add: pool_prepared_def pool_take_def)
  have pf: "length (sp_free (hb_scratch b)) = sp_created (hb_scratch b)"
    "\<forall>sc\<in>set (sp_free (hb_scratch b)). vs_inv (sx_visited (is_context sc))" using po by (simp_all add: pool_ok_def)
  have "sc \<in> set (sp_free (hb_scratch b))" using pt by (auto simp: pool_take_def split: if_splits)
  then have sr: "scratch_ready b (hg_max_level (hb_graph b)) (fresh_stats sc)"
    using b(2) by (simp add: pool_prepared_def scratch_ready_def context_ready_def fresh_stats_def)
  then have "vs_inv (sx_visited (is_context (fresh_stats sc)))" by (simp add: scratch_ready_def context_ready_def)
  note pl = pool_lease(1,2) [OF pt pf this]
  let ?b = "b\<lparr>hb_scratch := pool_give_back pool (fresh_stats sc)\<rparr>"
  have "hnsw_link False b v i = (Thrown, ?b)" using nl True pt by (simp add: hnsw_link_def Let_def)
  moreover have "backend_inv ?b v U" using gi pl pm by (simp add: backend_inv_def pool_ok_def params_match_def)
  moreover have "pool_prepared ?b"
    using pt b(2) sr in_set_butlastD [of _ "sp_free (hb_scratch b)"]
    by (auto simp: pool_prepared_def pool_take_def pool_give_back_def scratch_ready_def context_ready_def split: if_splits)
  ultimately show ?thesis by simp
qed

lemma link_rows_outcome:
  assumes v: "st_inv v" "rows_ok v"
  shows "cs_vectors s = v \<Longrightarrow> cs_backend s = HnswBackend h \<Longrightarrow> hnsw_ok cfg v n U h \<Longrightarrow> pool_prepared h \<Longrightarrow> set js \<subseteq> U \<Longrightarrow> distinct js \<Longrightarrow>
    \<exists>fs h' U'. link_rows lm js s = Some (fs, s\<lparr>cs_backend := HnswBackend h'\<rparr>) \<and> length fs = length js \<and>
      hnsw_ok cfg v n U' h' \<and> U' \<subseteq> (U - set js) \<union> {i. (i, True) \<in> set (zip js fs)}"
proof (induction js arbitrary: s h U)
  case Nil
  then show ?case by (intro exI [of _ "[]"] exI [of _ h] exI [of _ U]) simp
next
  case (Cons i js)
  have i: "i \<in> U" "i < st_size v" and inv: "backend_inv h v U"
    using Cons.prems(3,5) graph_invD(2,4) [of "hb_graph h" v U] by (auto simp: hnsw_ok_def backend_inv_def)
  obtain h1 where h1: "hnsw_link True h v i = (Returned (), h1)" "backend_inv h1 v (U - {i})" "pool_prepared h1"
    "hg_levels (hb_graph h1) = hg_levels (hb_graph h)"
    using hnsw_link_outcome [OF inv i(1) hnsw_ok_query [OF Cons.prems(3) v i(2)] Cons.prems(4)] by blast
  have ok1: "hnsw_ok cfg v n (U - {i}) h1"
    by (rule hnsw_ok_step [OF Cons.prems(3) hnsw_link_setup [OF h1(1)] h1(2)]) (use Cons.prems(3) h1(4) in \<open>simp add: hnsw_ok_def node_count_def\<close>)
  show ?case
  proof (cases "hnsw_link (lm i) h v i = (Returned (), h1)")
    case True
    let ?s = "s\<lparr>cs_backend := HnswBackend h1\<rparr>"
    have "set js \<subseteq> U - {i}" using Cons.prems(5,6) by auto
    then obtain fs h' U' where IH: "link_rows lm js ?s = Some (fs, ?s\<lparr>cs_backend := HnswBackend h'\<rparr>)" "length fs = length js"
      "hnsw_ok cfg v n U' h'" "U' \<subseteq> (U - {i} - set js) \<union> {k. (k, True) \<in> set (zip js fs)}"
      using Cons.IH [OF _ _ ok1 h1(3), of ?s] Cons.prems(1,6) by auto
    have "link_rows lm (i # js) s = Some (False # fs, s\<lparr>cs_backend := HnswBackend h'\<rparr>)" using Cons.prems(1,2) True IH(1) by simp
    then show ?thesis using IH(2-4) by (intro exI [of _ "False # fs"] exI [of _ h'] exI [of _ U']) auto
  next
    case False
    then have "\<not> lm i" using h1(1) by (cases "lm i") simp_all
    then obtain h2 where h2: "hnsw_link (lm i) h v i = (Thrown, h2)" "backend_inv h2 v U" "pool_prepared h2"
      "hg_levels (hb_graph h2) = hg_levels (hb_graph h)"
      using hnsw_link_no_memory [OF inv Cons.prems(4) i(1)] False h1(1) by auto
    have ok2: "hnsw_ok cfg v n U h2"
      by (rule hnsw_ok_step [OF Cons.prems(3) hnsw_link_setup [OF h2(1)] h2(2)]) (use Cons.prems(3) h2(4) in \<open>simp add: hnsw_ok_def node_count_def\<close>)
    let ?s = "s\<lparr>cs_backend := HnswBackend h2\<rparr>"
    have "set js \<subseteq> U" using Cons.prems(5) by auto
    then obtain fs h' U' where IH: "link_rows lm js ?s = Some (fs, ?s\<lparr>cs_backend := HnswBackend h'\<rparr>)" "length fs = length js"
      "hnsw_ok cfg v n U' h'" "U' \<subseteq> (U - set js) \<union> {k. (k, True) \<in> set (zip js fs)}"
      using Cons.IH [OF _ _ ok2 h2(3), of ?s] Cons.prems(1,6) by auto
    have "link_rows lm (i # js) s = Some (True # fs, s\<lparr>cs_backend := HnswBackend h'\<rparr>)" using Cons.prems(1,2) h2(1) IH(1) by simp
    then show ?thesis using IH(2-4) by (intro exI [of _ "True # fs"] exI [of _ h'] exI [of _ U']) auto
  qed
qed

text \<open>A link section that runs links every row but those it flags, in whatever order it takes them.\<close>

lemma link_section_outcome:
  assumes v: "st_inv v" "rows_ok v" and s: "cs_vectors s = v" "cs_backend s = HnswBackend h" "hnsw_ok cfg v n U h" "pool_prepared h"
    and js: "set rows \<subseteq> U" "distinct rows" and lo: "mset (lo rows) = mset rows" and plan: "plan \<noteq> RunThrows"
  shows "\<exists>fs h' U'. link_section lm lo plan rows s = (Returned fs, s\<lparr>cs_backend := HnswBackend h'\<rparr>) \<and> length fs = length rows \<and>
      hnsw_ok cfg v n U' h' \<and> U' \<subseteq> (U - set rows) \<union> {i. (i, True) \<in> set (zip rows fs)}"
proof -
  define js where "js = (case plan of RunParallel a \<Rightarrow> lo rows | _ \<Rightarrow> rows)"
  have m: "mset js = mset rows" using lo by (simp add: js_def split: range_plan.splits)
  then have set: "set js = set rows" and d: "distinct js" using js(2) by (auto dest: mset_eq_setD mset_eq_imp_distinct_iff)
  obtain fs h' U' where L: "link_rows lm js s = Some (fs, s\<lparr>cs_backend := HnswBackend h'\<rparr>)" "length fs = length js"
    "hnsw_ok cfg v n U' h'" "U' \<subseteq> (U - set js) \<union> {i. (i, True) \<in> set (zip js fs)}"
    using link_rows_outcome [OF v s, of js lm] js(1) set d by auto
  let ?fs = "map (\<lambda>i. (i, True) \<in> set (zip js fs)) rows"
  have "(i, True) \<in> set (zip rows ?fs)" if i: "(i, True) \<in> set (zip js fs)" for i
  proof -
    have "i \<in> set rows" using set_zip_leftD [OF i] set by simp
    then have "(i, (i, True) \<in> set (zip js fs)) \<in> set (zip rows ?fs)" by (auto simp: zip_map2 zip_same_conv_map)
    then show ?thesis using i by simp
  qed
  then have "U' \<subseteq> (U - set rows) \<union> {i. (i, True) \<in> set (zip rows ?fs)}" using L(4) set by auto
  moreover have "link_section lm lo plan rows s = (Returned ?fs, s\<lparr>cs_backend := HnswBackend h'\<rparr>)"
    using plan L(1) by (simp add: link_section_def Let_def flip: js_def)
  ultimately show ?thesis using L(3) by (intro exI [of _ ?fs] exI [of _ h'] exI [of _ U']) simp
qed

text \<open>A section whose pool cannot start leaves its rows live but without links: the invariant holds up
  to the rows \<open>R\<close>.\<close>

definition coll_stranded :: "nat set \<Rightarrow> collection_state \<Rightarrow> bool" where
  "coll_stranded R s \<longleftrightarrow>
     setup_ok s \<and> store_ok s \<and> im_pending (cs_ids s) = {} \<and>
     (\<exists>U \<subseteq> tb_rows (cs_deleted s) \<union> R. backend_ok (cs_config s) (cs_vectors s) (st_size (cs_vectors s)) U (cs_backend s))"

lemma coll_stranded_empty: "coll_stranded {} s \<longleftrightarrow> coll_inv s"
  by (simp add: coll_stranded_def coll_inv_def)

lemma coll_stranded_mono: "coll_stranded R s \<Longrightarrow> R \<subseteq> R' \<Longrightarrow> coll_stranded R' s"
  unfolding coll_stranded_def by blast

lemma link_plan_throws: "link_plan pm ow pool n = RunThrows \<Longrightarrow> \<not> pm \<and> \<not> ow \<and> 0 < pool \<and> 1 < n"
  by (auto simp: link_plan_def run_ranges_def Let_def split: if_splits)

subsection \<open>Abandoning\<close>

lemma abandon_row_ok:
  assumes s: "store_ok s" "im_pending (cs_ids s) = {}" and f: "im_find (cs_ids s) (rv_external r) = Some i"
    and p: "rv_previous r \<noteq> kInvalidInternalId \<Longrightarrow>
      rv_previous r < st_size (cs_vectors s) \<and> im_labels (cs_ids s) ! rv_previous r = rv_external r \<and> rv_previous r \<noteq> i"
  shows "\<exists>s'. abandon_row s r i = Some s' \<and> store_ok s' \<and> im_pending (cs_ids s') = {} \<and> im_labels (cs_ids s') = im_labels (cs_ids s) \<and>
    cs_vectors s' = cs_vectors s \<and> cs_backend s' = cs_backend s \<and> same_frame s s' \<and>
    im_find (cs_ids s') = (im_find (cs_ids s))(rv_external r :=
      (if rv_previous r = kInvalidInternalId then None else Some (rv_previous r)))"
proof -
  note D = store_okD [OF s(1)] and F = im_find_row [OF s(1) f]
  let ?x = "rv_external r" and ?p = "rv_previous r"
  obtain ids where ids: "im_revert (cs_ids s) r i = Some ids" "im_inv ids" "im_labels ids = im_labels (cs_ids s)"
    "im_pending ids = im_pending (cs_ids s)"
    "im_find ids = (im_find (cs_ids s))(?x := (if ?p = kInvalidInternalId then None else Some ?p))"
    using im_revert_ok [OF f _ D(5)] s(2) p D(6) by auto
  have inr: "j div 64 < length (tb_words (cs_deleted s))" if "j < st_size (cs_vectors s)" for j
    using that D(8) by (simp add: div_less_iff_less_mult)
  obtain d1 where d1: "tb_set (cs_deleted s) i = Some (\<not> tb_test (cs_deleted s) i, d1)" "tb_rows d1 = insert i (tb_rows (cs_deleted s))"
    "length (tb_words d1) = length (tb_words (cs_deleted s))" "tb_inv d1"
    using tb_set_rows [OF inr [OF F(1)]] D(7) by blast
  have np: "im_find (cs_ids s) y = Some ?p \<Longrightarrow> ?p = kInvalidInternalId" for y
  proof (rule ccontr)
    assume a: "im_find (cs_ids s) y = Some ?p" "?p \<noteq> kInvalidInternalId"
    then have "y = ?x" using im_find_row(2) [OF s(1) a(1)] p by simp
    then show False using a f p by simp
  qed
  have store: "store_ok s'" if "cs_config s' = cs_config s" "cs_vectors s' = cs_vectors s" "cs_ids s' = ids" "tb_inv (cs_deleted s')"
    "length (tb_words (cs_deleted s')) = length (tb_words (cs_deleted s))"
    "tb_rows (cs_deleted s') = insert i (tb_rows (cs_deleted s)) - (if ?p = kInvalidInternalId then {} else {?p})" for s'
  proof -
    have "ran (im_find ids) = (ran (im_find (cs_ids s)) - {i}) \<union> (if ?p = kInvalidInternalId then {} else {?p})"
      unfolding ids(5) ran_im_find_upd [OF D(5)] using f by auto
    then have "tb_rows (cs_deleted s') = {..<st_size (cs_vectors s)} - ran (im_find ids)"
      using that(6) D(9) F(1) p by (auto split: if_splits)
    then show ?thesis unfolding store_ok_def that(1-3) using that(4,5) D ids(2,3) by simp
  qed
  show ?thesis
  proof (cases "?p = kInvalidInternalId")
    case True
    let ?s = "s\<lparr>cs_ids := ids, cs_deleted := d1\<rparr>"
    have "store_ok ?s" by (rule store) (use d1 True in simp_all)
    then show ?thesis using ids d1 True s(2) by (intro exI [of _ ?s]) (simp add: abandon_row_def)
  next
    case False
    have "?p div 64 < length (tb_words d1)" using inr p False d1(3) by simp
    then obtain d2 where d2: "tb_clear d1 ?p = Some (tb_test d1 ?p, d2)" "tb_rows d2 = tb_rows d1 - {?p}"
      "length (tb_words d2) = length (tb_words d1)" "tb_inv d2"
      using tb_clear_rows d1(4) by blast
    let ?s = "s\<lparr>cs_ids := ids, cs_deleted := d2\<rparr>"
    have "store_ok ?s" by (rule store) (use d1 d2 False in simp_all)
    then show ?thesis using ids d1 d2 False s(2) by (intro exI [of _ ?s]) (simp add: abandon_row_def)
  qed
qed

lemma abandon_rows_outcome:
  "store_ok s \<Longrightarrow> im_pending (cs_ids s) = {} \<Longrightarrow> distinct (map (rv_external \<circ> fst) rs) \<Longrightarrow>
    (\<forall>k < length rs. im_find (cs_ids s) (rv_external (fst (rs ! k))) = Some (i + k)) \<Longrightarrow>
    (\<forall>(r, f)\<in>set rs. rv_previous r \<noteq> kInvalidInternalId \<longrightarrow>
       rv_previous r < i \<and> im_labels (cs_ids s) ! rv_previous r = rv_external r) \<Longrightarrow>
    \<exists>s'. abandon_rows rs i s = Some s' \<and> store_ok s' \<and> im_pending (cs_ids s') = {} \<and> im_labels (cs_ids s') = im_labels (cs_ids s) \<and>
      cs_vectors s' = cs_vectors s \<and> cs_backend s' = cs_backend s \<and> same_frame s s' \<and>
      im_find (cs_ids s') = (\<lambda>x. case map_of (map (\<lambda>(r, f). (rv_external r, rv_previous r)) (filter snd rs)) x of
        None \<Rightarrow> im_find (cs_ids s) x | Some p \<Rightarrow> if p = kInvalidInternalId then None else Some p)"
proof (induction rs arbitrary: i s)
  case Nil
  then show ?case by simp
next
  case (Cons rf rs)
  obtain r f where rf: "rf = (r, f)" by fastforce
  have first: "im_find (cs_ids s) (rv_external r) = Some i" using Cons.prems(4) rf by fastforce
  have nin: "rv_external r \<notin> (rv_external \<circ> fst) ` set rs" using Cons.prems(3) rf by simp
  have later: "\<forall>k < length rs. im_find (cs_ids s) (rv_external (fst (rs ! k))) = Some (Suc i + k)"
  proof (intro allI impI)
    fix k assume "k < length rs"
    then show "im_find (cs_ids s) (rv_external (fst (rs ! k))) = Some (Suc i + k)"
      using Cons.prems(4) [rule_format, of "Suc k"] by simp
  qed
  have prevs: "\<forall>(r, f)\<in>set rs. rv_previous r \<noteq> kInvalidInternalId \<longrightarrow>
      rv_previous r < Suc i \<and> im_labels (cs_ids s) ! rv_previous r = rv_external r"
    using Cons.prems(5) by fastforce
  show ?case
  proof (cases f)
    case False
    have "distinct (map (rv_external \<circ> fst) rs)" using Cons.prems(3) rf by (simp add: comp_def)
    from Cons.IH [OF Cons.prems(1,2) this later prevs] show ?thesis using rf False by simp
  next
    case True
    have p: "rv_previous r < st_size (cs_vectors s) \<and> im_labels (cs_ids s) ! rv_previous r = rv_external r \<and> rv_previous r \<noteq> i"
      if "rv_previous r \<noteq> kInvalidInternalId"
      using that Cons.prems(5) rf im_find_row(1) [OF Cons.prems(1) first] by fastforce
    let ?v = "if rv_previous r = kInvalidInternalId then None else Some (rv_previous r)"
    obtain s1 where s1: "abandon_row s r i = Some s1" "store_ok s1" "im_pending (cs_ids s1) = {}" "im_labels (cs_ids s1) = im_labels (cs_ids s)"
      "cs_vectors s1 = cs_vectors s" "cs_backend s1 = cs_backend s" "same_frame s s1"
      "im_find (cs_ids s1) = (im_find (cs_ids s))(rv_external r := ?v)"
      using abandon_row_ok [OF Cons.prems(1,2) first p] by blast
    have l1: "\<forall>k < length rs. im_find (cs_ids s1) (rv_external (fst (rs ! k))) = Some (Suc i + k)"
    proof (intro allI impI)
      fix k assume k: "k < length rs"
      then have "rv_external (fst (rs ! k)) \<noteq> rv_external r" using nin nth_mem [OF k] by (metis comp_apply image_eqI)
      then show "im_find (cs_ids s1) (rv_external (fst (rs ! k))) = Some (Suc i + k)" using later k by (simp add: s1(8))
    qed
    have d1: "distinct (map (rv_external \<circ> fst) rs)" using Cons.prems(3) rf by (simp add: comp_def)
    obtain s' where s': "abandon_rows rs (Suc i) s1 = Some s'" "store_ok s'" "im_pending (cs_ids s') = {}"
      "im_labels (cs_ids s') = im_labels (cs_ids s)" "cs_vectors s' = cs_vectors s" "cs_backend s' = cs_backend s" "same_frame s1 s'"
      "im_find (cs_ids s') = (\<lambda>x. case map_of (map (\<lambda>(r, f). (rv_external r, rv_previous r)) (filter snd rs)) x of
        None \<Rightarrow> im_find (cs_ids s1) x | Some p \<Rightarrow> if p = kInvalidInternalId then None else Some p)"
      using Cons.IH [OF s1(2,3) d1 l1] prevs s1(4-6) by auto
    have "map_of (map (\<lambda>(r, f). (rv_external r, rv_previous r)) (filter snd rs)) (rv_external r) = None"
      using nin by (force simp: map_of_eq_None_iff)
    then have "im_find (cs_ids s') = (\<lambda>x. case map_of (map (\<lambda>(r, f). (rv_external r, rv_previous r)) (filter snd (rf # rs))) x of
        None \<Rightarrow> im_find (cs_ids s) x | Some p \<Rightarrow> if p = kInvalidInternalId then None else Some p)"
      unfolding s'(8) s1(8) using rf True by (auto simp: fun_eq_iff split: option.split)
    then show ?thesis using s' s1 rf True same_frame_trans [OF s1(7) s'(7)] by simp
  qed
qed

end
