(* ===== verification/VF_BatchAdd.thy ===== *)
theory VF_BatchAdd
  imports VF_Sections
begin

text \<open>
  The outcome of \<open>add_batch\<close>: one Level B section (grow, link, abandon), the loop over the sections,
  the checks before the first row, and the refinement of a batch of map updates.
\<close>

subsection \<open>One section\<close>

lemma prepare_insert_room:
  assumes "backend_inv b v U" "1 \<le> workers" "node_count (hb_graph b) \<le> nodes"
  shows "\<exists>b'. prepare_insert b nodes workers = Some b' \<and> backend_inv b' v U \<and> hb_graph b' = hb_graph b \<and> pool_room nodes b'"
proof -
  have po: "pool_ok b" using assms(1) by (simp add: backend_inv_def)
  obtain p where p: "pool_ensure (hb_scratch b) workers nodes (unat (hp_ef_construction (hb_params b))) (hg_max_level (hb_graph b)) = Some p"
    "length (sp_free p) = sp_created p" "workers \<le> sp_created p"
    "\<forall>sc\<in>set (sp_free p). vs_inv (sx_visited (is_context sc)) \<and> nodes \<le> vs_capacity (sx_visited (is_context sc)) \<and>
      unat (hp_ef_construction (hb_params b)) \<le> length (sx_results (is_context sc)) \<and>
      hg_max_level (hb_graph b) < length (is_layer_candidates sc) \<and> hg_max_level (hb_graph b) < length (is_layer_selected sc)"
    using pool_ensure_ok [OF po] by blast
  let ?b = "b\<lparr>hb_scratch := p\<rparr>"
  have "sp_free p \<noteq> []" using p(2,3) assms(2) by (cases "sp_free p") simp_all
  then have "pool_room nodes ?b" using p(4) assms(3) by (fastforce simp: pool_room_def scratch_ready_def context_ready_def)
  moreover have "prepare_insert b nodes workers = Some ?b" using p(1) by (simp add: prepare_insert_def)
  moreover obtain b' where "prepare_insert b nodes workers = Some b'" "backend_inv b' v U" "hb_graph b' = hb_graph b"
    using prepare_insert_ok [OF assms] by blast
  ultimately show ?thesis by auto
qed

lemma pool_room_prepared: "pool_room room b \<Longrightarrow> pool_prepared b"
  by (simp add: pool_room_def pool_prepared_def)

text \<open>The rows of a section that were linked.\<close>

definition kept :: "'a list \<Rightarrow> bool list \<Rightarrow> 'a list" where
  "kept xs failed = map fst (filter (Not \<circ> snd) (zip xs failed))"

lemma kept_simps [simp]:
  "kept [] fs = []" "kept (x # xs) (f # fs) = (if f then kept xs fs else x # kept xs fs)"
  by (simp_all add: kept_def)

lemma map_kept: "map h (kept xs fs) = kept (map h xs) fs"
  by (simp add: kept_def zip_map1 filter_map comp_def split_def)

lemma set_kept: "set (kept xs fs) \<subseteq> set xs"
  by (auto simp: kept_def dest: set_zip_leftD)

lemma distinct_kept: "distinct xs \<Longrightarrow> distinct (kept xs fs)"
  by (induction xs fs rule: list_induct2') (use set_kept in \<open>fastforce simp: kept_def\<close>)+

lemma kept_all: "length fs = length xs \<Longrightarrow> True \<notin> set fs \<Longrightarrow> kept xs fs = xs"
  by (induction fs xs rule: list_induct2) auto

lemma map_of_kept:
  assumes "length fs = length ps" "distinct (map fst ps)"
  shows "map_of (kept ps fs) x = (if (\<exists>p. (p, True) \<in> set (zip ps fs) \<and> fst p = x) then None else map_of ps x)"
  using assms
proof (induction fs ps rule: list_induct2)
  case (Cons f fs p ps)
  have nin: "(q, True) \<in> set (zip ps fs) \<Longrightarrow> fst q \<noteq> fst p" for q
    using Cons.prems set_zip_leftD [of q True ps fs] by (auto simp: image_iff)
  have "map_of ps (fst p) = None" using Cons.prems by (simp add: map_of_eq_None_iff)
  then show ?case using Cons.IH Cons.prems by (cases p) (auto split: if_splits dest: nin)
qed simp

text \<open>An abandoned row gives its id back; the view is that of the rows that were linked.\<close>

lemma grown_prev:
  assumes "store_ok s"
  shows "im_find (cs_ids s) x = (let p = rv_previous (prev_of s x) in if p = kInvalidInternalId then None else Some p)"
    "rv_external (prev_of s x) = x"
    "rv_previous (prev_of s x) \<noteq> kInvalidInternalId \<Longrightarrow>
      rv_previous (prev_of s x) < st_size (cs_vectors s) \<and> im_labels (cs_ids s) ! rv_previous (prev_of s x) = x"
  using im_find_row(1,2) [OF assms, of x] st_invD(6,7) [OF store_okD(1) [OF assms]]
  by (auto simp: prev_of_def kMaxVectorsPerCollection_def split: option.splits)

lemma grew_find_new:
  assumes "grew s ps s'" "distinct (map fst ps)" "k < length ps"
  shows "im_find (cs_ids s') (fst (ps ! k)) = Some (st_size (cs_vectors s) + k)"
proof -
  let ?ks = "[st_size (cs_vectors s)..<st_size (cs_vectors s) + length ps]"
  have "map_of (zip (map fst ps) ?ks) (fst (ps ! k)) = Some (?ks ! k)"
    using map_of_zip_nth [of "map fst ps" ?ks k] assms(2,3) by simp
  then show ?thesis using assms(1,3) by (simp add: grew_def)
qed

lemma grew_find_old:
  assumes "grew s ps s'" "x \<notin> fst ` set ps"
  shows "im_find (cs_ids s') x = im_find (cs_ids s) x"
proof -
  have N: "map_of (zip (map fst ps) [st_size (cs_vectors s)..<st_size (cs_vectors s) + length ps]) x = None"
    using assms(2) by (simp add: map_of_zip_is_None)
  have "im_find (cs_ids s') = im_find (cs_ids s) ++ map_of (zip (map fst ps) [st_size (cs_vectors s)..<st_size (cs_vectors s) + length ps])"
    using assms(1) by (simp add: grew_def)
  then show ?thesis unfolding map_add_def N by (simp add: N)
qed

lemma grew_find_less:
  assumes "store_ok s" "grew s ps s'" "distinct (map fst ps)" "im_find (cs_ids s') x = Some i"
  shows "if x \<in> fst ` set ps then \<exists>k < length ps. x = fst (ps ! k) \<and> i = st_size (cs_vectors s) + k else im_find (cs_ids s) x = Some i"
proof (cases "x \<in> fst ` set ps")
  case True
  then obtain k where "k < length ps" "x = fst (ps ! k)" by (auto simp: in_set_conv_nth)
  then show ?thesis using True grew_find_new [OF assms(2,3)] assms(4) by auto
qed (use grew_find_old [OF assms(2)] assms(4) in auto)

lemma abandoned_view:
  assumes s: "store_ok s" "grew s ps s1" "distinct (map fst ps)" "length fs = length ps"
    and g: "rs = map (\<lambda>p. prev_of s (fst p)) ps" and U: "U \<subseteq> tb_rows (cs_deleted s)"
    and p: "im_pending (cs_ids s) = {}" and s2: "s2 = s1\<lparr>cs_backend := b\<rparr>"
  shows "\<exists>s3. abandon_rows (zip rs fs) (st_size (cs_vectors s)) s2 = Some s3 \<and> store_ok s3 \<and> im_pending (cs_ids s3) = {} \<and>
    cs_vectors s3 = cs_vectors s1 \<and> cs_backend s3 = b \<and> same_frame s s3 \<and> coll_view s3 = coll_view s ++ map_of (kept ps fs) \<and>
    U \<union> {i. (i, True) \<in> set (zip [st_size (cs_vectors s)..<st_size (cs_vectors s) + length ps] fs)} \<subseteq> tb_rows (cs_deleted s3)"
proof -
  let ?n = "st_size (cs_vectors s)"
  let ?failed = "\<lambda>x. \<exists>p. (p, True) \<in> set (zip ps fs) \<and> fst p = x"
  have g1: "store_ok s1" "im_pending (cs_ids s1) = {}" "im_labels (cs_ids s1) = im_labels (cs_ids s) @ map fst ps" "same_frame s s1"
    "st_rows (cs_vectors s1) = st_rows (cs_vectors s) @ map snd ps" using s(2) p by (simp_all add: grew_def)
  have st2: "store_ok s2" "im_pending (cs_ids s2) = {}" using g1(1,2) s2 by (simp_all add: store_ok_def)
  have len: "length rs = length ps" using g by simp
  have ext: "map (rv_external \<circ> fst) (zip rs fs) = map fst ps"
    using g len s(4) grown_prev(2) [OF s(1)] by (intro nth_equalityI) simp_all
  then have d: "distinct (map (rv_external \<circ> fst) (zip rs fs))" using s(3) by simp
  have news: "\<forall>k < length (zip rs fs). im_find (cs_ids s2) (rv_external (fst (zip rs fs ! k))) = Some (?n + k)"
    using grew_find_new [OF s(2,3)] g s(4) grown_prev(2) [OF s(1)] s2 by simp
  have prevs: "\<forall>(r, f)\<in>set (zip rs fs). rv_previous r \<noteq> kInvalidInternalId \<longrightarrow>
      rv_previous r < ?n \<and> im_labels (cs_ids s2) ! rv_previous r = rv_external r"
    using grown_prev(2,3) [OF s(1)] g store_okD(6) [OF s(1)] g1(3) s2 by (auto dest!: set_zip_leftD simp: nth_append)
  obtain s3 where s3: "abandon_rows (zip rs fs) ?n s2 = Some s3" "store_ok s3" "im_pending (cs_ids s3) = {}"
    "cs_vectors s3 = cs_vectors s2" "cs_backend s3 = cs_backend s2" "same_frame s2 s3"
    "im_find (cs_ids s3) = (\<lambda>x. case map_of (map (\<lambda>(r, f). (rv_external r, rv_previous r)) (filter snd (zip rs fs))) x of
        None \<Rightarrow> im_find (cs_ids s2) x | Some p \<Rightarrow> if p = kInvalidInternalId then None else Some p)"
    using abandon_rows_outcome [OF st2 d news prevs] by blast
  have zip: "zip rs fs = map (\<lambda>(p, f). (prev_of s (fst p), f)) (zip ps fs)" using g by (simp add: zip_map1)
  have fp: "map_of (map (\<lambda>(r, f). (rv_external r, rv_previous r)) (filter snd (zip rs fs))) x =
      (if ?failed x then Some (rv_previous (prev_of s x)) else None)" for x
    unfolding zip using grown_prev(2) [OF s(1)] by (induction ps fs rule: list_induct2') auto
  have f3: "im_find (cs_ids s3) x = (if ?failed x then im_find (cs_ids s) x else im_find (cs_ids s1) x)" for x
    unfolding s3(7) fp using grown_prev(1) [OF s(1), of x] s2 by (simp add: Let_def)
  have v1: "coll_view s1 = coll_view s ++ map_of ps" by (rule grew_view [OF s(1-3)])
  have "coll_view s3 x = (coll_view s ++ map_of (kept ps fs)) x" for x
  proof (cases "?failed x")
    case True
    then have "map_of (kept ps fs) x = None" by (simp add: map_of_kept [OF s(4,3)])
    moreover have "coll_view s3 x = coll_view s x"
      using True f3 [of x] im_find_row(1) [OF s(1), of x] g1(5) s3(4) s2
      by (cases "im_find (cs_ids s) x") (simp_all add: coll_view_row [OF s3(2)] coll_view_row [OF s(1)] nth_append)
    ultimately show ?thesis by (simp add: map_add_def)
  next
    case False
    then have "map_of (kept ps fs) x = map_of ps x" by (simp add: map_of_kept [OF s(4,3)])
    moreover have "coll_view s3 x = coll_view s1 x" using False f3 [of x] s3(4) s2 by (simp add: coll_view_def)
    ultimately show ?thesis using v1 by (simp add: map_add_def)
  qed
  moreover have "U \<union> {i. (i, True) \<in> set (zip [?n..<?n + length ps] fs)} \<subseteq> tb_rows (cs_deleted s3)"
  proof
    fix i assume i: "i \<in> U \<union> {i. (i, True) \<in> set (zip [?n..<?n + length ps] fs)}"
    have "i < ?n + length ps" using i U store_okD(9) [OF s(1)] by (auto dest: set_zip_leftD)
    moreover have "im_find (cs_ids s3) x \<noteq> Some i" for x
    proof
      assume f: "im_find (cs_ids s3) x = Some i"
      show False
      proof (cases "i < ?n")
        case True
        then have "i \<in> U" using i by (auto dest: set_zip_leftD)
        then have "i \<notin> ran (im_find (cs_ids s))" using U store_okD(9) [OF s(1)] by auto
        then show False using f f3 [of x] True grew_find_less [OF s(1-3), of x i] by (auto simp: ran_def split: if_splits)
      next
        case False
        then have "im_find (cs_ids s) x \<noteq> Some i" using im_find_row(1) [OF s(1)] by blast
        then obtain k where k: "k < length ps" "x = fst (ps ! k)" "i = ?n + k" "\<not> ?failed x"
          using f f3 [of x] grew_find_less [OF s(1-3), of x i] by (auto split: if_splits)
        have "i \<notin> U" using False U store_okD(9) [OF s(1)] by auto
        then obtain j where "j < length ps" "[?n..<?n + length ps] ! j = i" "fs ! j" using i s(4) by (auto simp: in_set_zip)
        then have "fs ! k" using k(3) by simp
        then have "(ps ! k, True) \<in> set (zip ps fs)" using k(1) s(4) by (auto simp: in_set_zip intro!: exI [of _ k])
        then show False using k(2,4) by blast
      qed
    qed
    moreover have "st_size (cs_vectors s3) = ?n + length ps" using grew_size [OF s(2)] s3(4) s2 by simp
    ultimately show "i \<in> tb_rows (cs_deleted s3)" unfolding store_okD(9) [OF s3(2)] by (auto simp: ran_def)
  qed
  ultimately show ?thesis using s3 s2 same_frame_trans [OF _ s3(6), of s] g1(4) by (auto simp: fun_eq_iff)
qed

text \<open>A whole section keeps the invariant and adds the rows that were linked; where the links cannot even
  start, the rows grown are there and stranded.\<close>

lemma section_outcome:
  assumes inv: "coll_inv s" and b: "cs_backend s = HnswBackend b" and m: "\<And>i. alloc_fits (fa_chunk (mems i))"
    and ids: "distinct ids" "kInvalidExternalId \<notin> set ids" "upsert \<or> set (drop fin ids) \<inter> dom (coll_view s) = {}"
    and rows: "\<forall>i < length ids. status_ok (validate_vector (batch_row data dim i) dim)" and dim: "dim = unat (cc_dim (cs_config s))"
    and want: "fin + want \<le> length ids" and w: "1 \<le> workers" and lo: "\<forall>xs. mset (lo xs) = mset xs"
  shows "\<exists>b1 grown res s1. prepare_insert b (st_size (cs_vectors s) + want) workers = Some b1 \<and>
    grow_rows mems so ids data dim upsert want fin (s\<lparr>cs_backend := HnswBackend b1\<rparr>) = (grown, res, s1) \<and>
    res \<noteq> Aborted \<and> (\<forall>st. res = Returned st \<longrightarrow> status_ok st \<or> code st = ResourceExhausted) \<and> length grown \<le> want \<and>
    same_frame s s1 \<and> st_size (cs_vectors s1) = st_size (cs_vectors s) + length grown \<and>
    coll_stranded {st_size (cs_vectors s)..<st_size (cs_vectors s1)} s1 \<and>
    coll_view s1 = coll_view s ++ map_of (map (batch_pair ids data dim) [fin..<fin + length grown]) \<and>
    (plan (length grown) \<noteq> RunThrows \<longrightarrow> (\<exists>failed s2 s3.
      link_section lm lo (plan (length grown)) [st_size (cs_vectors s)..<st_size (cs_vectors s) + length grown] s1 = (Returned failed, s2) \<and>
      length failed = length grown \<and> abandon_rows (zip grown failed) (st_size (cs_vectors s)) s2 = Some s3 \<and>
      coll_inv s3 \<and> same_frame s s3 \<and> (\<exists>b3. cs_backend s3 = HnswBackend b3) \<and> st_size (cs_vectors s) \<le> st_size (cs_vectors s3) \<and>
      coll_view s3 = coll_view s ++ map_of (map (batch_pair ids data dim) (kept [fin..<fin + length grown] failed))))"
proof -
  let ?n = "st_size (cs_vectors s)" and ?cfg = "cs_config s"
  obtain U where U: "setup_ok s" "store_ok s" "im_pending (cs_ids s) = {}" "U \<subseteq> tb_rows (cs_deleted s)" "cc_index ?cfg = Hnsw"
    "hnsw_ok ?cfg (cs_vectors s) ?n U b"
    using inv b by (auto elim: coll_invE)
  obtain b1 where b1: "prepare_insert b (?n + want) workers = Some b1" "backend_inv b1 (cs_vectors s) U" "hb_graph b1 = hb_graph b"
    "pool_room (?n + want) b1"
    using prepare_insert_room [OF _ w, of b "cs_vectors s" U "?n + want"] U(6) by (auto simp: hnsw_ok_def)
  let ?s0 = "s\<lparr>cs_backend := HnswBackend b1\<rparr>"
  have ok1: "hnsw_ok ?cfg (cs_vectors s) ?n U b1"
    by (rule hnsw_ok_step [OF U(6) prepare_insert_setup [OF b1(1)] b1(2)]) (use U(6) b1(3) in \<open>simp add: hnsw_ok_def\<close>)
  have go: "grow_ok ?cfg (?n + want) (cs_vectors ?s0) (st_size (cs_vectors ?s0)) U (cs_backend ?s0)"
    using ok1 U(5) b1(4) by (simp add: grow_ok_def)
  have st0: "store_ok ?s0" "im_pending (cs_ids ?s0) = {}" using U(2,3) by (simp_all add: store_ok_def)
  obtain grown res s1 where gr: "grow_rows mems so ids data dim upsert want fin ?s0 = (grown, res, s1)" by (metis prod_cases3)
  have len: "length grown \<le> want" using grow_rows_length [OF gr] .
  have up: "\<forall>i. fin \<le> i \<and> i < length ids \<longrightarrow> ids ! i \<in> dom (im_find (cs_ids ?s0)) \<longrightarrow> upsert"
  proof (intro allI impI)
    fix i assume i: "fin \<le> i \<and> i < length ids" "ids ! i \<in> dom (im_find (cs_ids ?s0))"
    then have "ids ! i \<in> set (drop fin ids)" by (auto simp: in_set_conv_nth intro!: exI [of _ "i - fin"])
    then show upsert using ids(3) i(2) by (auto simp: dom_coll_view)
  qed
  let ?ks = "[fin..<fin + length grown]" and ?ps = "map (batch_pair ids data dim) [fin..<fin + length grown]"
  have G: "grew ?s0 ?ps s1" "grown = map (\<lambda>i. prev_of ?s0 (ids ! i)) ?ks"
    "grow_ok ?cfg (?n + want) (cs_vectors s1) (st_size (cs_vectors s1)) (U \<union> {?n..<st_size (cs_vectors s1)}) (cs_backend s1)"
    "res \<noteq> Aborted" "\<forall>st. res = Returned st \<longrightarrow> status_ok st \<or> code st = ResourceExhausted"
    using grow_rows_outcome [OF m ids(1,2) rows gr st0 _ go dim want up] by simp_all
  have sz: "st_size (cs_vectors s1) = ?n + length grown" using grew_size [OF G(1)] by simp
  obtain h1 where h1: "cs_backend s1 = HnswBackend h1" "hnsw_ok ?cfg (cs_vectors s1) (st_size (cs_vectors s1)) (U \<union> {?n..<st_size (cs_vectors s1)}) h1"
    "pool_prepared h1" using G(3) sz len pool_room_prepared by (auto simp: grow_ok_def)
  have st1: "st_inv (cs_vectors s1)" "rows_ok (cs_vectors s1)" using G(1) by (simp_all add: grew_def store_ok_def)
  have "distinct (map ((!) ids) ?ks)"
    using ids(1) len want by (auto simp: distinct_map inj_on_def nth_eq_iff_index_eq)
  then have d: "distinct (map fst ?ps)" by (simp add: batch_pair_def comp_def)
  have g2: "grown = map (\<lambda>p. prev_of ?s0 (fst p)) ?ps" by (subst G(2)) (simp add: batch_pair_def del: upt_Suc)
  have v1: "coll_view s1 = coll_view s ++ map_of ?ps" using grew_view [OF st0(1) G(1) d] by (simp add: coll_view_def)
  have f1: "same_frame s s1" using G(1) by (simp add: grew_def same_frame_def)
  have "U \<subseteq> tb_rows (cs_deleted s1) \<union> {?n..}"
  proof
    fix i assume i: "i \<in> U"
    have "im_find (cs_ids s1) x \<noteq> Some i" if "i < ?n" for x
    proof
      assume f: "im_find (cs_ids s1) x = Some i"
      show False
        using grew_find_less [OF st0(1) G(1) d f] that i U(4) store_okD(9) [OF U(2)] by (auto simp: ran_def split: if_splits)
    qed
    moreover have "i < ?n" using i U(4) store_okD(9) [OF U(2)] by auto
    moreover have "tb_rows (cs_deleted s1) = {..<st_size (cs_vectors s1)} - ran (im_find (cs_ids s1))"
      using G(1) store_okD(9) by (simp add: grew_def)
    ultimately show "i \<in> tb_rows (cs_deleted s1) \<union> {?n..}" using sz by (auto simp: ran_def)
  qed
  then have "U \<union> {?n..<st_size (cs_vectors s1)} \<subseteq> tb_rows (cs_deleted s1) \<union> {?n..<st_size (cs_vectors s1)}"
    using U(4) store_okD(9) [OF U(2)] by fastforce
  moreover have "backend_ok (cs_config s1) (cs_vectors s1) (st_size (cs_vectors s1)) (U \<union> {?n..<st_size (cs_vectors s1)}) (cs_backend s1)"
    using h1 U(5) f1 by (simp add: same_frame_def)
  ultimately have str: "coll_stranded {?n..<st_size (cs_vectors s1)} s1"
    using G(1) U(3) setup_ok_frame [OF f1 U(1)] unfolding coll_stranded_def
    by (intro conjI exI [of _ "U \<union> {?n..<st_size (cs_vectors s1)}"]) (simp_all add: grew_def)
  let ?js = "[?n..<?n + length grown]"
  have linked: "\<exists>failed s2 s3. link_section lm lo p ?js s1 = (Returned failed, s2) \<and>
      length failed = length grown \<and> abandon_rows (zip grown failed) ?n s2 = Some s3 \<and>
      coll_inv s3 \<and> same_frame s s3 \<and> (\<exists>b3. cs_backend s3 = HnswBackend b3) \<and> ?n \<le> st_size (cs_vectors s3) \<and>
      coll_view s3 = coll_view s ++ map_of (map (batch_pair ids data dim) (kept ?ks failed))" if p: "p \<noteq> RunThrows" for p
  proof -
  obtain fs h2 U' where L: "link_section lm lo p ?js s1 = (Returned fs, s1\<lparr>cs_backend := HnswBackend h2\<rparr>)" "length fs = length grown"
    "hnsw_ok ?cfg (cs_vectors s1) (st_size (cs_vectors s1)) U' h2"
    "U' \<subseteq> (U \<union> {?n..<st_size (cs_vectors s1)} - set ?js) \<union> {i. (i, True) \<in> set (zip ?js fs)}"
    using link_section_outcome [OF st1 refl h1, of ?js lo p lm] sz lo p by auto
  have U0: "U \<subseteq> tb_rows (cs_deleted ?s0)" and lf: "length fs = length ?ps" using U(4) L(2) by simp_all
  obtain s3 where s3: "abandon_rows (zip grown fs) ?n (s1\<lparr>cs_backend := HnswBackend h2\<rparr>) = Some s3" "store_ok s3" "im_pending (cs_ids s3) = {}"
    "cs_vectors s3 = cs_vectors s1" "cs_backend s3 = HnswBackend h2" "same_frame s s3" "coll_view s3 = coll_view ?s0 ++ map_of (kept ?ps fs)"
    "U \<union> {i. (i, True) \<in> set (zip ?js fs)} \<subseteq> tb_rows (cs_deleted s3)"
    using abandoned_view [OF st0(1) G(1) d lf g2 U0 st0(2) refl, where b = "HnswBackend h2"] by (auto simp: same_frame_def)
  have "U' \<subseteq> tb_rows (cs_deleted s3)" using L(4) s3(8) sz by auto
  moreover have "backend_ok (cs_config s3) (cs_vectors s3) (st_size (cs_vectors s3)) U' (cs_backend s3)"
    using L(3) U(5) s3(4-6) by (simp add: same_frame_def)
  ultimately have "coll_inv s3" using s3(2,3) setup_ok_frame [OF s3(6) U(1)] by (intro coll_invI)
  moreover have "coll_view s3 = coll_view s ++ map_of (map (batch_pair ids data dim) (kept ?ks fs))"
    using s3(7) by (simp add: map_kept coll_view_def)
  moreover have "?n \<le> st_size (cs_vectors s3)" using s3(4) sz by simp
  ultimately show ?thesis using L(1,2) s3(1,5,6) by blast
  qed
  have tail: "same_frame s s1 \<and> st_size (cs_vectors s1) = ?n + length grown \<and> coll_stranded {?n..<st_size (cs_vectors s1)} s1 \<and>
    coll_view s1 = coll_view s ++ map_of ?ps" using f1 sz str v1 by blast
  have str': "coll_stranded {?n..<?n + length grown} s1" using str sz by simp
  show ?thesis using linked [of "plan (length grown)"] tail str' b1(1) gr G(4,5) len
    by (intro exI [of _ b1] exI [of _ grown] exI [of _ res] exI [of _ s1] conjI impI) simp_all
qed

subsection \<open>The loop over the sections\<close>

text \<open>The one failure that strands rows: the pool could not allocate what it shares with its helpers.\<close>

definition pool_fails :: "link_env \<Rightarrow> 'a outcome \<Rightarrow> bool" where
  "pool_fails p res \<longleftrightarrow> res = Thrown \<and> 0 < le_pool p \<and> \<not> le_on_worker p \<and> (\<exists>i. \<not> le_par_mem p i)"

definition orders_rows :: "link_env \<Rightarrow> bool" where
  "orders_rows p \<longleftrightarrow> (\<forall>i xs. mset (le_order p i xs) = mset xs)"

lemma grow_rows_stopped:
  "grow_rows mems so ids data dim upsert want row s = (rs, Returned st, s') \<Longrightarrow> \<not> status_ok st \<Longrightarrow> length rs < want"
  by (induction want arbitrary: row s rs) (fastforce split: prod.splits outcome.splits option.splits if_splits)+

lemma map_of_append_distinct: "distinct (map fst (xs @ ys)) \<Longrightarrow> map_of (xs @ ys) = map_of xs ++ map_of ys"
  by (subst map_of_append, rule map_add_comm) (auto simp: dom_map_of_conv_image_fst)

text \<open>What a batch leaves behind: the rows \<open>js\<close> were inserted; with \<open>e\<close>, new rows may be stranded.\<close>

definition batch_added :: "bool \<Rightarrow> external_id list \<Rightarrow> f32 list \<Rightarrow> nat \<Rightarrow> collection_state \<Rightarrow> nat list \<Rightarrow> collection_state \<Rightarrow> bool" where
  "batch_added e ids data dim s js s' \<longleftrightarrow>
     (coll_inv s' \<or> e \<and> coll_stranded {st_size (cs_vectors s)..<st_size (cs_vectors s')} s') \<and> st_size (cs_vectors s) \<le> st_size (cs_vectors s') \<and>
     same_frame s s' \<and> distinct js \<and> set js \<subseteq> {..<length ids} \<and>
     coll_view s' = coll_view s ++ map_of (map (batch_pair ids data dim) js)"

text \<open>All rows with their count, a prefix with \<open>ResourceExhausted\<close>, or any of them when an allocation fails.\<close>

definition batch_result :: "nat \<Rightarrow> nat \<Rightarrow> nat \<Rightarrow> nat list \<Rightarrow> nat result outcome \<Rightarrow> bool" where
  "batch_result n fin inserted js res \<longleftrightarrow>
     (case res of
        Returned (Inr c) \<Rightarrow> js = [fin..<n] \<and> c = inserted + (n - fin)
      | Returned (Inl st) \<Rightarrow> code st = ResourceExhausted \<and> (\<exists>k. fin \<le> k \<and> k < n \<and> js = [fin..<k])
      | Thrown \<Rightarrow> set js \<subseteq> {fin..<n}
      | Aborted \<Rightarrow> False)"

lemma batch_result_append:
  assumes "batch_result n k (c + (k - fin)) js res" "fin \<le> k" "k \<le> n"
  shows "batch_result n fin c ([fin..<k] @ js) res"
proof -
  have "[fin..<k] @ [k..<m] = [fin..<m]" if "k \<le> m" for m
    using upt_add_eq_append [OF assms(2), of "m - k"] that by simp
  then show ?thesis using assms by (auto simp: batch_result_def split: outcome.splits sum.splits intro: le_trans)
qed

lemma batch_pair_keys: "map fst (map (batch_pair ids data dim) js) = map ((!) ids) js"
  by (simp add: batch_pair_def)

lemma distinct_nth_map: "distinct ids \<Longrightarrow> distinct js \<Longrightarrow> set js \<subseteq> {..<length ids} \<Longrightarrow> distinct (map ((!) ids) js)"
  unfolding distinct_map inj_on_def by (metis lessThan_iff nth_eq_iff_index_eq subsetD)

lemma batch_added_trans:
  assumes "batch_added False ids data dim s [fin..<k] s1" "batch_added e ids data dim s1 js s'" "set js \<subseteq> {k..<length ids}" "distinct ids" "k \<le> length ids"
  shows "batch_added e ids data dim s ([fin..<k] @ js) s'"
proof -
  have st: "coll_inv s' \<or> e \<and> coll_stranded {st_size (cs_vectors s)..<st_size (cs_vectors s')} s'"
    using assms(1,2) coll_stranded_mono [of _ s' "{st_size (cs_vectors s)..<st_size (cs_vectors s')}"] unfolding batch_added_def by fastforce
  have d: "distinct ([fin..<k] @ js)" "set ([fin..<k] @ js) \<subseteq> {..<length ids}" using assms(2,3,5) by (auto simp: batch_added_def)
  have "map_of (map (batch_pair ids data dim) ([fin..<k] @ js)) =
      map_of (map (batch_pair ids data dim) [fin..<k]) ++ map_of (map (batch_pair ids data dim) js)"
    unfolding map_append by (rule map_of_append_distinct)
      (use distinct_nth_map [OF assms(4) d] in \<open>simp add: batch_pair_def comp_def\<close>)
  then show ?thesis using assms(1,2) st d same_frame_trans by (auto simp: batch_added_def)
qed

lemma fresh_after:
  "u \<or> later \<inter> old = {} \<Longrightarrow> added \<inter> rest = {} \<Longrightarrow> rest \<subseteq> later \<Longrightarrow> now = old \<union> added \<Longrightarrow> u \<or> rest \<inter> now = {}"
  by blast

lemma add_sections_stop:
  assumes "length ids \<le> fin \<or> \<not> sm fin"
  shows "add_sections mems so sm lm pool ids data dim upsert fin inserted s = (if length ids \<le> fin then Returned (Inr inserted) else Thrown, s)"
  using assms by (cases "length ids \<le> fin"; subst add_sections.simps) simp_all

lemma add_sections_outcome:
  assumes m: "\<And>i. alloc_fits (fa_chunk (mems i))" and ids: "distinct ids" "kInvalidExternalId \<notin> set ids"
    and rows: "\<forall>i < length ids. status_ok (validate_vector (batch_row data dim i) dim)" and lo: "orders_rows pool"
  shows "add_sections mems so sm lm pool ids data dim upsert fin inserted s = (res, s') \<Longrightarrow> coll_inv s \<Longrightarrow> cs_backend s = HnswBackend b \<Longrightarrow>
    dim = unat (cc_dim (cs_config s)) \<Longrightarrow> upsert \<or> set (drop fin ids) \<inter> dom (coll_view s) = {} \<Longrightarrow> fin \<le> length ids \<Longrightarrow>
    \<exists>js. batch_added (pool_fails pool res) ids data dim s js s' \<and> batch_result (length ids) fin inserted js res \<and> set js \<subseteq> {fin..<length ids}"
proof (induction "length ids - fin" arbitrary: fin inserted s b rule: less_induct)
  case less
  have none: "batch_added e ids data dim s [] s" for e using less.prems(2) by (simp add: batch_added_def)
  show ?case
  proof (cases "length ids \<le> fin \<or> \<not> sm fin")
    case True
    then have e: "s' = s" "res = (if length ids \<le> fin then Returned (Inr inserted) else Thrown)"
      using less.prems(1) add_sections_stop [of ids fin sm, OF True] by (auto split: if_splits)
    then show ?thesis using none less.prems(6) by (intro exI [of _ "[]"]) (auto simp: batch_result_def)
  next
    case False
    define want where "want = min (kLinkRowsPerWorker * (le_pool pool + 1)) (length ids - fin)"
    have want: "fin + want \<le> length ids" "0 < want" using False by (auto simp: want_def kLinkRowsPerWorker_def)
    let ?plan = "link_plan (le_par_mem pool fin) (le_on_worker pool) (le_pool pool)"
    have lo': "\<forall>xs. mset (le_order pool fin xs) = mset xs" and w: "1 \<le> le_pool pool + 1" using lo by (simp_all add: orders_rows_def)
    from section_outcome [where mems = mems and so = so and lm = lm and plan = ?plan,
          OF less.prems(2,3) m ids less.prems(5) rows less.prems(4) want(1) w lo']
    obtain b1 grown r1 s1 where S1: "prepare_insert b (st_size (cs_vectors s) + want) (le_pool pool + 1) = Some b1"
      "grow_rows mems so ids data dim upsert want fin (s\<lparr>cs_backend := HnswBackend b1\<rparr>) = (grown, r1, s1)"
      "r1 \<noteq> Aborted" "\<forall>st. r1 = Returned st \<longrightarrow> status_ok st \<or> code st = ResourceExhausted" "length grown \<le> want"
      "same_frame s s1" "st_size (cs_vectors s1) = st_size (cs_vectors s) + length grown"
      "coll_stranded {st_size (cs_vectors s)..<st_size (cs_vectors s1)} s1"
      "coll_view s1 = coll_view s ++ map_of (map (batch_pair ids data dim) [fin..<fin + length grown])"
      and linked: "?plan (length grown) \<noteq> RunThrows \<longrightarrow> (\<exists>failed s2 s3.
        link_section lm (le_order pool fin) (?plan (length grown)) [st_size (cs_vectors s)..<st_size (cs_vectors s) + length grown] s1 = (Returned failed, s2) \<and>
        length failed = length grown \<and> abandon_rows (zip grown failed) (st_size (cs_vectors s)) s2 = Some s3 \<and>
        coll_inv s3 \<and> same_frame s s3 \<and> (\<exists>b3. cs_backend s3 = HnswBackend b3) \<and> st_size (cs_vectors s) \<le> st_size (cs_vectors s3) \<and>
        coll_view s3 = coll_view s ++ map_of (map (batch_pair ids data dim) (kept [fin..<fin + length grown] failed)))"
      by (elim exE conjE) (rule that; assumption)
    show ?thesis
    proof (cases "?plan (length grown) = RunThrows")
      case True
      have "add_sections mems so sm lm pool ids data dim upsert fin inserted s = (Thrown, s1)"
        using False less.prems(3) S1(1-3) True by (subst add_sections.simps, unfold Let_def, fold want_def) (simp add: link_section_def)
      then have r: "res = Thrown" "s' = s1" using less.prems(1) by simp_all
      then have "pool_fails pool res" using link_plan_throws [OF True] by (auto simp: pool_fails_def)
      moreover have "set [fin..<fin + length grown] \<subseteq> {fin..<length ids}" using S1(5) want(1) by auto
      ultimately show ?thesis using S1(6-9) r less.prems(6)
        by (intro exI [of _ "[fin..<fin + length grown]"]) (auto simp: batch_added_def batch_result_def)
    next
    case plan: False
    obtain failed s2 s3 where S2:
      "link_section lm (le_order pool fin) (?plan (length grown)) [st_size (cs_vectors s)..<st_size (cs_vectors s) + length grown] s1 = (Returned failed, s2)"
      "length failed = length grown" "abandon_rows (zip grown failed) (st_size (cs_vectors s)) s2 = Some s3"
      "coll_inv s3" "same_frame s s3" "\<exists>b3. cs_backend s3 = HnswBackend b3" "st_size (cs_vectors s) \<le> st_size (cs_vectors s3)"
      "coll_view s3 = coll_view s ++ map_of (map (batch_pair ids data dim) (kept [fin..<fin + length grown] failed))"
      using linked plan by blast
    note S = S1(1-4) S2(1-5) S1(5) S2(6,8)
    let ?ks = "[fin..<fin + length grown]"
    have run: "add_sections mems so sm lm pool ids data dim upsert fin inserted s =
        (case r1 of
           Returned st \<Rightarrow>
             if True \<in> set failed then (Thrown, s3)
             else if \<not> status_ok st then (Returned (Inl st), s3)
             else add_sections mems so sm lm pool ids data dim upsert (fin + length grown) (inserted + length (filter Not failed)) s3
         | _ \<Rightarrow> (Thrown, s3))"
      using False less.prems(3) S by (subst add_sections.simps, unfold Let_def, fold want_def) simp
    have range: "set (kept ?ks failed) \<subseteq> {fin..<length ids}" using set_kept [of ?ks failed] S(10) want(1) by fastforce
    have dk: "distinct (kept ?ks failed)" by (rule distinct_kept) simp
    have part: "batch_added e ids data dim s (kept ?ks failed) s3" for e using S(8,9,12) S2(7) dk range by (auto simp: batch_added_def)
    show ?thesis
    proof (cases "\<exists>st. r1 = Returned st \<and> True \<notin> set failed")
      case False
      then have "res = Thrown" "s' = s3" using less.prems(1) run S(3) by (cases r1; simp)+
      then show ?thesis using part range by (intro exI [of _ "kept ?ks failed"]) (simp add: batch_result_def)
    next
      case True
      then obtain st where st: "r1 = Returned st" and nf: "True \<notin> set failed" by blast
      have k: "kept ?ks failed = ?ks" using kept_all [of failed ?ks] S(6) nf by simp
      note part = part [unfolded k] and range = range [unfolded k]
      show ?thesis
      proof (cases "status_ok st")
        case False
        have "length grown < want" using grow_rows_stopped [OF S(2) [unfolded st] False] .
        then have "fin + length grown < length ids" using want(1) by simp
        moreover have "res = Returned (Inl st)" "s' = s3" "code st = ResourceExhausted" using less.prems(1) run st nf False S(4) by simp_all
        ultimately show ?thesis using part range by (intro exI [of _ ?ks]) (auto simp: batch_result_def intro!: exI [of _ "fin + length grown"])
      next
        case True
        have g: "grown \<noteq> []" by (rule grow_rows_progress [OF S(2) [unfolded st] True want(2)])
        let ?fin = "fin + length grown" and ?c = "inserted + length (filter Not failed)"
        have "filter Not failed = failed" using nf by (auto simp: filter_id_conv)
        then have c: "?c = inserted + length grown" using S(6) by simp
        have le: "?fin \<le> length ids" using S(10) want(1) by simp
        have dim: "dim = unat (cc_dim (cs_config s3))" using less.prems(4) S(9) by (simp add: same_frame_def)
        have f1: "(!) ids ` set ?ks \<inter> set (drop ?fin ids) = {}"
          using ids(1) le by (auto simp: in_set_conv_nth nth_eq_iff_index_eq)
        have f2: "set (drop ?fin ids) \<subseteq> set (drop fin ids)" by (rule set_drop_subset_set_drop) simp
        have f3: "dom (coll_view s3) = dom (coll_view s) \<union> (!) ids ` set ?ks"
          unfolding S(12) k by (auto simp: dom_map_of_conv_image_fst batch_pair_def image_image)
        have up: "upsert \<or> set (drop ?fin ids) \<inter> dom (coll_view s3) = {}" by (rule fresh_after [OF less.prems(5) f1 f2 f3])
        obtain b3 where b3: "cs_backend s3 = HnswBackend b3" using S(11) by blast
        have "add_sections mems so sm lm pool ids data dim upsert ?fin ?c s3 = (res, s')" using less.prems(1) run st nf True by simp
        note IH = less.hyps [OF _ this S(8) b3 dim up le]
        have "length ids - ?fin < length ids - fin" using g le by (cases grown) auto
        from IH [OF this] obtain js where js: "batch_added (pool_fails pool res) ids data dim s3 js s'"
          "batch_result (length ids) ?fin ?c js res" "set js \<subseteq> {?fin..<length ids}" by blast
        have "batch_added (pool_fails pool res) ids data dim s (?ks @ js) s'" by (rule batch_added_trans [OF part js(1,3) ids(1) le])
        moreover have "batch_result (length ids) fin inserted (?ks @ js) res"
          by (rule batch_result_append) (use js(2) c le in simp_all)
        ultimately show ?thesis using js(3) le by (intro exI [of _ "?ks @ js"]) auto
      qed
    qed
    qed
  qed
qed

subsection \<open>The checks before the first row\<close>

lemma sorted_last: "sorted (xs :: nat list) \<Longrightarrow> x \<in> set xs \<Longrightarrow> x \<le> last xs"
  by (induction xs) (auto dest: last_in_set)

lemma check_ids_ok: "status_ok (check_ids ids) \<Longrightarrow> distinct ids \<and> kInvalidExternalId \<notin> set ids"
proof (cases "ids = []")
  case False
  assume ok: "status_ok (check_ids ids)"
  let ?xs = "sort (map unat ids)"
  have a: "adjacent_find ?xs = None" and l: "last ?xs \<noteq> unat kInvalidExternalId"
    using ok by (auto simp: check_ids_def Let_def split: option.splits if_splits)
  have "distinct (map unat ids)" using a adjacent_find_None [of ?xs] by simp
  then have "distinct ids" by (simp add: distinct_map)
  moreover have "kInvalidExternalId \<notin> set ids"
  proof
    assume "kInvalidExternalId \<in> set ids"
    then have k: "unat kInvalidExternalId \<in> set ?xs" by simp
    have ne: "?xs \<noteq> []" using False by (metis list.map_disc_iff set_empty set_sort)
    have "last ?xs \<in> set ?xs" using ne by (rule last_in_set)
    then obtain x where x: "last ?xs = unat (x :: external_id)" by auto
    have "unat kInvalidExternalId \<le> last ?xs"
      by (rule sorted_last [OF sorted_sort k])
    moreover have "unat x \<le> unat kInvalidExternalId" by (simp add: kInvalidExternalId_def flip: word_le_nat_alt)
    ultimately show False using l x by simp
  qed
  ultimately show ?thesis by simp
qed simp

lemma batch_row_concat: "\<forall>x\<in>set xs. length x = dim \<Longrightarrow> i < length xs \<Longrightarrow> batch_row (concat xs) dim i = xs ! i"
proof (induction xs arbitrary: i)
  case (Cons x xs)
  then show ?case by (cases i) (auto simp: batch_row_def)
qed simp

lemma batch_row_valid:
  assumes "status_ok (validate_batch rows n dim)" "i < n"
  shows "status_ok (validate_vector (batch_row rows dim i) dim)"
proof -
  have r: "length rows = n * dim" "\<forall>x \<in> set rows. component_ok x" using assms(1) by (simp_all add: validate_batch_ok)
  have "Suc i * dim \<le> length rows" using r(1) assms(2) by (simp only: r(1) mult_le_mono1 Suc_leI)
  then have "length (batch_row rows dim i) = dim" by (simp add: batch_row_def)
  moreover have "\<forall>x \<in> set (batch_row rows dim i). component_ok x"
    using r(2) by (auto simp: batch_row_def dest!: in_set_takeD in_set_dropD)
  ultimately show ?thesis by (simp add: validate_vector_ok)
qed

lemma first_failure_None: "first_failure i sts = None \<longleftrightarrow> (\<forall>st\<in>set sts. status_ok st)"
  by (induction sts arbitrary: i) auto

lemma first_failure_code: "first_failure i sts = Some e \<Longrightarrow> code e = InvalidArgument"
  by (induction sts arbitrary: i) (auto split: if_splits)

lemma batch_data_result:
  assumes "setup_ok s" "status_ok (validate_batch rows n (unat (cc_dim (cs_config s))))"
  defines "dim \<equiv> unat (cc_dim (cs_config s))"
  shows "case batch_data s n rows of
      Inl e \<Rightarrow> code e = InvalidArgument
    | Inr data \<Rightarrow> \<forall>i < n. batch_row data dim i = stored_row s (batch_row rows dim i) \<and> status_ok (validate_vector (batch_row data dim i) dim)"
proof (cases "effective_normalize (cs_config s)")
  case False
  then show ?thesis using batch_row_valid [OF assms(2)] by (simp add: batch_data_def stored_row_def dim_def)
next
  case True
  let ?norm = "\<lambda>i. normalize_inplace (batch_row rows dim i) (cs_kernels s)"
  obtain failures data where n: "normalize_rows (cs_kernels s) n dim rows = (failures, data)" by fastforce
  then have f: "failures = map (fst \<circ> ?norm) [0..<n]" and d: "data = concat (map (snd \<circ> ?norm) [0..<n])"
    by (auto simp: normalize_rows_def Let_def)
  show ?thesis
  proof (cases "first_failure 0 failures")
    case None
    have ok: "status_ok (fst (?norm i))" if "i < n" for i using None that by (auto simp: first_failure_None f)
    have v: "status_ok (validate_vector (stored_row s (batch_row rows dim i)) dim)" if "i < n" for i
      using stored_row_valid [OF assms(1) batch_row_valid [OF assms(2) that]] ok [OF that] by (simp add: dim_def)
    have st: "snd (?norm i) = stored_row s (batch_row rows dim i)" for i using True by (simp add: stored_row_def)
    have "batch_row data dim i = snd (?norm i)" if "i < n" for i
      unfolding d by (subst batch_row_concat) (use v st that in \<open>auto simp: validate_vector_ok\<close>)
    then show ?thesis using True n None v st by (simp add: batch_data_def dim_def)
  qed (use True n first_failure_code in \<open>auto simp: batch_data_def dim_def\<close>)
qed

lemma prepare_batch_outcome:
  assumes inv: "coll_inv s" and al: "alloc_fits alloc" and r: "prepare_batch alloc mr s ids upsert = (res, s')"
  shows "coll_inv s' \<and> same_contents s s' \<and>
    (case res of
       Returned st \<Rightarrow>
         if status_ok st then upsert \<or> set ids \<inter> dom (coll_view s) = {}
         else if \<not> upsert \<and> set ids \<inter> dom (coll_view s) \<noteq> {} then code st = AlreadyExists else code st = ResourceExhausted
     | Thrown \<Rightarrow> True | Aborted \<Rightarrow> False)"
proof -
  have st: "store_ok s" using inv by (rule coll_inv_store)
  have same: "same_contents s s" using st by (simp add: same_contents_def)
  let ?n = "st_size (cs_vectors s) + length ids"
  have dup: "(\<exists>x. find (im_contains (cs_ids s)) ids = Some x) \<longleftrightarrow> set ids \<inter> dom (coll_view s) \<noteq> {}"
    by (auto simp: find_None_iff im_contains_def dom_coll_view simp flip: not_None_eq)
  show ?thesis
  proof (cases "\<not> upsert \<and> set ids \<inter> dom (coll_view s) \<noteq> {}")
    case True
    then obtain x where "find (im_contains (cs_ids s)) ids = Some x" using dup by blast
    then have "\<exists>st. res = Returned st \<and> code st = AlreadyExists" "s' = s" using r True by (auto simp: prepare_batch_def Let_def)
    then show ?thesis using inv same True by (auto simp only: outcome.case status_ok_def error_code.distinct if_True if_False HOL.simp_thms)
  next
    case False
    then have nd: "(if upsert then None else find (im_contains (cs_ids s)) ids) = None" using dup by (auto simp flip: not_None_eq)
    obtain o1 v where o1: "st_reserve alloc (cs_vectors s) ?n = (o1, v)" by fastforce
    note R = st_reserve_ok [OF store_okD(1) [OF st] al o1] and K = store_ok_reserved [OF inv o1 al]
    have e: "tb_ensure_size t 0 = t" for t by (simp add: tb_ensure_size_def)
    note K0 = K [of 0, unfolded e]
    have k0: "s\<lparr>cs_vectors := v, cs_deleted := cs_deleted s\<rparr> = s\<lparr>cs_vectors := v\<rparr>" by simp
    show ?thesis using r nd False same inv o1 R K [of "st_size v + length ids"] K0 [unfolded k0]
      by (auto simp: prepare_batch_def Let_def split: outcome.splits if_splits)
  qed
qed

subsection \<open>The batch\<close>

text \<open>The rows \<open>js\<close> of a batch, as \<open>add\<close> would store them.\<close>

definition stored_pairs :: "collection_state \<Rightarrow> external_id list \<Rightarrow> f32 list \<Rightarrow> nat list \<Rightarrow> (external_id \<times> f32 list) list" where
  "stored_pairs s ids rows js = map (\<lambda>i. (ids ! i, stored_row s (batch_row rows (unat (cc_dim (cs_config s))) i))) js"

lemma batch_added_stored:
  assumes "batch_added e ids data dim s js s'" "\<forall>i < length ids. batch_row data dim i = stored_row s (batch_row rows dim i)"
    "dim = unat (cc_dim (cs_config s))"
  shows "coll_view s' = coll_view s ++ map_of (stored_pairs s ids rows js)"
proof -
  have "map (batch_pair ids data dim) js = stored_pairs s ids rows js"
    unfolding stored_pairs_def using assms by (auto simp: batch_pair_def batch_added_def)
  then show ?thesis using assms(1) by (simp add: batch_added_def)
qed

lemma same_contents_added:
  assumes "store_ok s" "same_contents s s1" "batch_added e ids data dim s1 js s'"
  shows "batch_added e ids data dim s js s'"
proof -
  have "st_size (cs_vectors s1) = st_size (cs_vectors s)" using assms(2) by (intro st_rows_size) (simp add: same_contents_def)
  then show ?thesis using assms(3) same_contents_view [OF assms(1,2)] assms(2) same_frame_trans [of s s1 s']
    by (simp add: batch_added_def same_contents_def)
qed

lemma insert_rows_batch:
  assumes m: "\<And>i. alloc_fits (fa_chunk (mems i))" and inv: "coll_inv s" and dim: "dim = unat (cc_dim (cs_config s))"
    and ids: "distinct ids" "kInvalidExternalId \<notin> set ids" "upsert \<or> set ids \<inter> dom (coll_view s) = {}"
    and rows: "\<forall>i < length ids. status_ok (validate_vector (batch_row data dim i) dim)"
    and r: "insert_rows mems ids data dim upsert [0..<length ids] 0 s = (res, s')"
  shows "\<exists>js. batch_added e ids data dim s js s' \<and> batch_result (length ids) 0 0 js res"
proof -
  have n: "map ((!) ids) [0..<length ids] = ids" by (rule map_nth)
  have rows': "\<forall>i \<in> set [0..<length ids]. status_ok (validate_vector (batch_row data dim i) dim)" using rows by simp
  obtain k where k: "k \<le> length ids" "coll_inv s'" "grew s (map (batch_pair ids data dim) (take k [0..<length ids])) s'"
    "case res of Returned (Inr c') \<Rightarrow> k = length ids \<and> c' = length ids
     | Returned (Inl st) \<Rightarrow> k < length ids \<and> code st = ResourceExhausted | Thrown \<Rightarrow> True | Aborted \<Rightarrow> False"
    using insert_rows_outcome [where mems = mems, OF m r inv dim _ _ _ rows', unfolded n length_upt diff_zero add_0] ids by auto
  have t: "take k [0..<length ids] = [0..<k]" using k(1) by simp
  have d: "distinct (map fst (map (batch_pair ids data dim) [0..<k]))"
    unfolding batch_pair_keys by (rule distinct_nth_map [OF ids(1)]) (use k(1) in auto)
  have "batch_added e ids data dim s [0..<k] s'"
    using k(1,2) k(3) [unfolded t] grew_size [OF k(3)] grew_view [OF coll_inv_store [OF inv] _ d, of s'] by (auto simp: batch_added_def grew_def)
  moreover have "batch_result (length ids) 0 0 [0..<k] res"
    using k(1,4) by (auto simp: batch_result_def split: outcome.splits sum.splits)
  ultimately show ?thesis by blast
qed

lemma run_batch:
  assumes m: "\<And>i. alloc_fits (fa_chunk (mems i))" and inv: "coll_inv s" and dim: "dim = unat (cc_dim (cs_config s))"
    and ids: "distinct ids" "kInvalidExternalId \<notin> set ids" "upsert \<or> set ids \<inter> dom (coll_view s) = {}"
    and rows: "\<forall>i < length ids. status_ok (validate_vector (batch_row data dim i) dim)"
    and lo: "orders_rows pool" and r: "(if cc_index (cs_config s) = Hnsw \<and> con then add_sections mems so sm lm pool ids data dim upsert 0 0 s
      else insert_rows mems ids data dim upsert [0..<length ids] 0 s) = (res, s')"
  shows "\<exists>js. batch_added (cc_index (cs_config s) = Hnsw \<and> con \<and> pool_fails pool res) ids data dim s js s' \<and> batch_result (length ids) 0 0 js res"
proof (cases "cc_index (cs_config s) = Hnsw \<and> con")
  case True
  obtain U where "backend_ok (cs_config s) (cs_vectors s) (st_size (cs_vectors s)) U (cs_backend s)" using inv by (rule coll_invE)
  then obtain b where b: "cs_backend s = HnswBackend b" using True by (cases "cs_backend s") auto
  have "add_sections mems so sm lm pool ids data dim upsert 0 0 s = (res, s')" using r True by simp
  from add_sections_outcome [where mems = mems, OF m ids(1,2) rows lo this inv b dim] show ?thesis using ids(3) True by auto
next
  case False
  then show ?thesis using insert_rows_batch [where mems = mems, OF m inv dim ids rows] r by auto
qed

text \<open>
  C1. \<open>add_batch\<close> refines a batch of map updates, in both concurrency modes, whatever the
  allocations do and in whatever order the pool links the rows of a section. When it returns a count, the count is that of the batch and every row is stored under
  its id; when it returns an error, either nothing changed (a check failed) or a prefix of the batch was
  stored before memory or capacity ran out; when it throws, some of the rows were stored and no other
  id is affected. It never aborts, and ends. It keeps the invariant but for one failure, a defect of the
  code: where a pool links the rows of a concurrent HNSW collection and cannot allocate the state that
  \<open>parallel_for\<close> shares, the exception leaves new rows that are live under their ids and have no links
  (\<open>coll_stranded\<close>: the rest of the invariant holds).
\<close>

theorem collection_add_batch_refines:
  assumes "coll_inv s" "alloc_fits alloc" "\<forall>i. alloc_fits (fa_chunk (mems i))" "orders_rows pool"
  shows "case collection_add_batch mem_sort mem_copy alloc mem_reserve mems slice_over section_mem link_mem pool s ids rows opts of (res, s') \<Rightarrow>
    (coll_inv s' \<or>
      res = Thrown \<and> cc_index (cs_config s) = Hnsw \<and> cc_concurrency (cs_config s) = Concurrent \<and> 0 < le_pool pool \<and>
      \<not> le_on_worker pool \<and> (\<exists>i. \<not> le_par_mem pool i) \<and>
      coll_stranded {st_size (cs_vectors s)..<st_size (cs_vectors s')} s') \<and>
    (\<exists>js. distinct js \<and> set js \<subseteq> {..<length ids} \<and> coll_view s' = coll_view s ++ map_of (stored_pairs s ids rows js) \<and>
      (case res of
         Returned (Inr c) \<Rightarrow> c = length ids \<and> js = [0..<length ids] \<and> distinct ids \<and> (io_upsert opts \<or> set ids \<inter> dom (coll_view s) = {})
       | Returned (Inl st) \<Rightarrow> code st = ResourceExhausted \<and> (\<exists>k < length ids. js = [0..<k]) \<or>
           js = [] \<and> code st \<in> {DimensionMismatch, InvalidArgument, AlreadyExists}
       | Thrown \<Rightarrow> True
       | Aborted \<Rightarrow> False))"
proof -
  let ?dim = "unat (cc_dim (cs_config s))" and ?n = "length ids" and ?up = "io_upsert opts"
  let ?run = "collection_add_batch mem_sort mem_copy alloc mem_reserve mems slice_over section_mem link_mem pool s ids rows opts"
  have st: "store_ok s" and su: "setup_ok s" using assms(1) by (simp_all add: coll_inv_def)
  have none: ?thesis if "?run = (res, s1)" "coll_inv s1" "coll_view s1 = coll_view s"
    "res = Thrown \<or> (\<exists>e. res = Returned (Inl e) \<and> (code e = ResourceExhausted \<and> ids \<noteq> [] \<or> code e \<in> {DimensionMismatch, InvalidArgument, AlreadyExists}))"
    for res s1 unfolding that(1) prod.case using that(2-4) by (auto simp: stored_pairs_def intro!: exI [of _ "[]"] exI [of _ "0::nat"])
  have codes: "code (validate_batch rows ?n ?dim) \<in> {DimensionMismatch, InvalidArgument}" if "\<not> status_ok (validate_batch rows ?n ?dim)"
    using that by (auto simp: validate_batch_def invalid_component_status_def Let_def split: if_splits)
  have icode: "code (check_ids ids) = InvalidArgument" if "\<not> status_ok (check_ids ids)"
    using that by (auto simp: check_ids_def Let_def split: option.splits if_splits)
  show ?thesis
  proof (cases "status_ok (validate_batch rows ?n ?dim) \<and> ids \<noteq> [] \<and> mem_sort \<and> status_ok (check_ids ids) \<and>
      (effective_normalize (cs_config s) \<longrightarrow> mem_copy)")
    case False
    show ?thesis
    proof (cases "status_ok (validate_batch rows ?n ?dim) \<and> ids = []")
      case True
      then show ?thesis using assms(1) by (auto simp: collection_add_batch_def stored_pairs_def)
    next
      case n: False
      show ?thesis
        by (rule none [OF surjective_pairing]) (use False n codes icode assms(1) in \<open>auto simp: collection_add_batch_def Let_def\<close>)
    qed
  next
    case checked: True
    then have d: "distinct ids" "kInvalidExternalId \<notin> set ids" using check_ids_ok by auto
    have vb: "status_ok (validate_batch rows ?n ?dim)" using checked by simp
    note D = batch_data_result [OF su vb]
    show ?thesis
    proof (cases "batch_data s ?n rows")
      case (Inl e)
      show ?thesis by (rule none) (use checked Inl D assms(1) in \<open>auto simp: collection_add_batch_def Let_def\<close>)
    next
      case (Inr data)
      obtain r1 s1 where p: "prepare_batch alloc mem_reserve s ids ?up = (r1, s1)" by fastforce
      note P = prepare_batch_outcome [OF assms(1,2) p]
      have v1: "coll_view s1 = coll_view s" using P same_contents_view [OF st] by blast
      show ?thesis
      proof (cases "\<exists>stt. r1 = Returned stt \<and> status_ok stt")
        case False
        have nab: "r1 \<noteq> Aborted" using P by auto
        have c: "code e \<in> {ResourceExhausted, AlreadyExists}" if "r1 = Returned e" for e
          using P False that by (simp split: if_splits)
        have "?run = (case r1 of Returned e \<Rightarrow> Returned (Inl e) | _ \<Rightarrow> Thrown, s1)"
          using checked Inr p False nab by (cases r1) (auto simp: collection_add_batch_def Let_def)
        then show ?thesis by (rule none) (use P v1 c nab checked in \<open>auto split: outcome.splits\<close>)
      next
        case True
        then obtain stt where stt: "r1 = Returned stt" "status_ok stt" by blast
        have cfg: "cs_config s1 = cs_config s" using P by (simp add: same_contents_def same_frame_def)
        have up: "?up \<or> set ids \<inter> dom (coll_view s) = {}" using P stt by simp
        have rv: "\<forall>i < ?n. status_ok (validate_vector (batch_row data ?dim i) ?dim)"
          and rs: "\<forall>i < ?n. batch_row data ?dim i = stored_row s (batch_row rows ?dim i)" using D Inr by auto
        obtain res s' where run: "?run = (res, s')" by fastforce
        have "(if cc_index (cs_config s1) = Hnsw \<and> cc_concurrency (cs_config s) = Concurrent
            then add_sections mems slice_over section_mem link_mem pool ids data ?dim ?up 0 0 s1
            else insert_rows mems ids data ?dim ?up [0..<?n] 0 s1) = (res, s')"
          using run checked Inr p stt cfg by (auto simp: collection_add_batch_def Let_def split: if_splits)
        from run_batch [where mems = mems, OF assms(3) [rule_format] _ _ d _ rv assms(4) this]
        obtain js where js: "batch_added (cc_index (cs_config s1) = Hnsw \<and> cc_concurrency (cs_config s) = Concurrent \<and> pool_fails pool res)
            ids data ?dim s1 js s'" "batch_result ?n 0 0 js res" using P v1 up cfg by auto
        have added: "batch_added (cc_index (cs_config s1) = Hnsw \<and> cc_concurrency (cs_config s) = Concurrent \<and> pool_fails pool res) ids data ?dim s js s'" using same_contents_added [OF st _ js(1)] P by blast
        have view: "coll_view s' = coll_view s ++ map_of (stored_pairs s ids rows js)" by (rule batch_added_stored [OF added rs refl])
        show ?thesis unfolding run prod.case using added view js(2) d up
          by (intro conjI exI [of _ js]) (auto simp: batch_added_def batch_result_def pool_fails_def cfg split: outcome.splits sum.splits)
      qed
    qed
  qed
qed

abbreviation sample_pool :: link_env where
  "sample_pool \<equiv> \<lparr>le_pool = 1, le_on_worker = False, le_par_mem = (\<lambda>_. True), le_order = (\<lambda>_. rev)\<rparr>"

theorem collection_add_batch_refines_witness:
  "\<exists>res s'. collection_add_batch True True (fa_chunk all_memory) True (\<lambda>_. all_memory) (\<lambda>_. False) (\<lambda>_. True) (\<lambda>i. i \<noteq> 1) sample_pool
      (sample_empty Hnsw) [3, 5] [f32_one, f32_one] \<lparr>io_upsert = False\<rparr> = (res, s') \<and> coll_inv s' \<and> res \<noteq> Aborted"
proof -
  obtain res s' where r: "collection_add_batch True True (fa_chunk all_memory) True (\<lambda>_. all_memory) (\<lambda>_. False) (\<lambda>_. True) (\<lambda>i. i \<noteq> 1) sample_pool
      (sample_empty Hnsw) [3, 5] [f32_one, f32_one] \<lparr>io_upsert = False\<rparr> = (res, s')" by fastforce
  have "coll_inv (sample_empty Hnsw)" "\<forall>i::nat. alloc_fits (fa_chunk ((\<lambda>_. all_memory) i))" "orders_rows sample_pool"
    using sample_empty_facts(1) all_memory_fits by (auto simp: orders_rows_def)
  from collection_add_batch_refines [OF this(1) all_memory_fits this(2,3), where mem_sort = True and mem_copy = True and mem_reserve = True and
      slice_over = "\<lambda>_. False" and section_mem = "\<lambda>_. True" and link_mem = "\<lambda>i. i \<noteq> 1" and ids = "[3, 5]" and
      rows = "[f32_one, f32_one]" and opts = "\<lparr>io_upsert = False\<rparr>"]
  show ?thesis unfolding r by auto
qed

end
