(* ===== verification/VF_CollectionSearch.thy ===== *)
theory VF_CollectionSearch
  imports VF_CollectionOps
begin

text \<open>
  Queries of a collection (\<open>search\<close>, \<open>search_into\<close>, \<open>search_batch\<close> and \<open>stats\<close> of
  \<^verbatim>\<open>src/collection/collection.cpp\<close>). A query runs under a shared lock and does not change the state; its
  search context comes from the pool of the backend and is an argument here, as are the allocations
  that succeed. The chunks of a batch write disjoint parts of the output; they are taken in order.
\<close>

definition default_neighbor :: neighbor where "default_neighbor = mk_scored f32_zero 0"

definition collection_search :: "bool \<Rightarrow> bool \<Rightarrow> search_context \<Rightarrow> collection_state \<Rightarrow> f32 list \<Rightarrow> search_params
    \<Rightarrow> neighbor list result outcome" where
  "collection_search mem_out mem ctx s query params =
     (if \<not> status_ok (search_params_validate params) then Returned (Inl (search_params_validate params))
      else case prepare_query s query of
        Inl e \<Rightarrow> Returned (Inl e)
      | Inr q \<Rightarrow>
          (let knobs = knobs_for params (st_size (cs_vectors s))
           in if \<not> mem_out then Thrown
              else (case run_query mem ctx s q knobs (replicate (kn_k knobs) default_neighbor) of
                 Returned (n, out) \<Rightarrow> Returned (Inr (take n out @ replicate (n - length out) default_neighbor))
               | Thrown \<Rightarrow> Thrown
               | Aborted \<Rightarrow> Aborted)))"

definition collection_search_into :: "bool \<Rightarrow> search_context \<Rightarrow> collection_state \<Rightarrow> f32 list \<Rightarrow> search_params \<Rightarrow> neighbor list
    \<Rightarrow> (nat \<times> neighbor list) result outcome" where
  "collection_search_into mem ctx s query params out =
     (if \<not> status_ok (search_params_validate params) then Returned (Inl (search_params_validate params))
      else if length out < unat (sp_k params)
      then Returned (Inl (invalid_argument (''output span holds '' @ show_nat (length out) @ '' results but k = '' @ show_nat (unat (sp_k params)))))
      else case prepare_query s query of
        Inl e \<Rightarrow> Returned (Inl e)
      | Inr q \<Rightarrow>
          (case run_query mem ctx s q (knobs_for params (st_size (cs_vectors s))) out of
             Returned r \<Rightarrow> Returned (Inr r)
           | Thrown \<Rightarrow> Thrown
           | Aborted \<Rightarrow> Aborted))"

subsection \<open>Batches of queries\<close>

record batch_output =
  bo_ids :: "external_id list"
  bo_distances :: "f32 list"
  bo_counts :: "u32 list"

text \<open>The queries of a batch are prepared before the first one runs.\<close>

fun prepare_queries :: "collection_state \<Rightarrow> f32 list \<Rightarrow> nat \<Rightarrow> nat list \<Rightarrow> query_view list result" where
  "prepare_queries s queries dim [] = Inr []"
| "prepare_queries s queries dim (i # is) =
     (case prepare_query s (take dim (drop (i * dim) queries)) of
        Inl e \<Rightarrow> Inl (make_status (code e) (''query '' @ show_nat i @ '': '' @ status_message e))
      | Inr q \<Rightarrow> result_bind (prepare_queries s queries dim is) (\<lambda>qs. Inr (q # qs)))"

text \<open>The cells of query \<open>i\<close>: results, then padding.\<close>

fun write_cells :: "nat \<Rightarrow> nat \<Rightarrow> neighbor list \<Rightarrow> nat list \<Rightarrow> batch_output \<Rightarrow> batch_output" where
  "write_cells base cnt scratch [] out = out"
| "write_cells base cnt scratch (j # js) out =
     (let real = j < cnt
      in write_cells base cnt scratch js
           (out\<lparr>bo_ids := (bo_ids out)[base + j := if real then sc_id (scratch ! j) else kInvalidExternalId],
                bo_distances := (bo_distances out)[base + j := if real then sc_distance (scratch ! j) else f32_infinity]\<rparr>))"

text \<open>\<open>run_range\<close>: one scratch array serves all queries of the range.\<close>

fun run_range :: "(nat \<Rightarrow> bool) \<Rightarrow> (nat \<Rightarrow> search_context) \<Rightarrow> collection_state \<Rightarrow> query_view list \<Rightarrow> search_knobs \<Rightarrow> nat \<Rightarrow> nat list
    \<Rightarrow> neighbor list \<Rightarrow> batch_output \<Rightarrow> unit outcome \<times> batch_output" where
  "run_range mems ctxs s views knobs k [] scratch out = (Returned (), out)"
| "run_range mems ctxs s views knobs k (i # is) scratch out =
     (case run_query (mems i) (ctxs i) s (views ! i) knobs scratch of
        Returned (n, scratch1) \<Rightarrow>
          (let out1 = write_cells (i * k) n scratch1 [0..<k] out
           in run_range mems ctxs s views knobs k is scratch1 (out1\<lparr>bo_counts := (bo_counts out1)[i := word_of_nat n]\<rparr>))
      | Thrown \<Rightarrow> (Thrown, out)
      | Aborted \<Rightarrow> (Aborted, out))"

definition collection_search_batch :: "bool \<Rightarrow> bool \<Rightarrow> (nat \<Rightarrow> bool) \<Rightarrow> (nat \<Rightarrow> search_context) \<Rightarrow> collection_state \<Rightarrow> f32 list \<Rightarrow> nat
    \<Rightarrow> search_params \<Rightarrow> batch_output \<Rightarrow> status outcome \<times> batch_output" where
  "collection_search_batch mem_views mem_scratch mems ctxs s queries nq params out =
     (let dim = unat (cc_dim (cs_config s)); k = unat (sp_k params)
      in if \<not> status_ok (search_params_validate params) then (Returned (search_params_validate params), out)
         else if \<not> status_ok (validate_batch queries nq dim) then (Returned (validate_batch queries nq dim), out)
         else if (case checked_mul_size nq k of None \<Rightarrow> True
                  | Some slots \<Rightarrow> length (bo_ids out) < slots \<or> length (bo_distances out) < slots \<or> length (bo_counts out) < nq)
         then (Returned (invalid_argument (''output spans are too small for '' @ show_nat nq @ '' queries with k = '' @ show_nat k)), out)
         else if \<not> mem_views then (Thrown, out)
         else case prepare_queries s queries dim [0..<nq] of
           Inl e \<Rightarrow> (Returned e, out)
         | Inr views \<Rightarrow>
             (let knobs = knobs_for params (st_size (cs_vectors s))
              in if \<not> mem_scratch then (Thrown, out)
                 else (case run_range mems ctxs s views knobs k [0..<nq] (replicate (kn_k knobs) default_neighbor) out of
                    (Returned _, out1) \<Rightarrow> (Returned ok_status, out1)
                  | (Thrown, out1) \<Rightarrow> (Thrown, out1)
                  | (Aborted, out1) \<Rightarrow> (Aborted, out1))))"

text \<open>The counters of \<open>stats\<close>; its byte counts are not modelled.\<close>

record collection_stats =
  cst_live_count :: nat
  cst_deleted_count :: nat
  cst_row_count :: nat
  cst_dim :: u32
  cst_metric :: metric
  cst_index :: index_type
  cst_normalized :: bool
  cst_simd :: simd_level

definition collection_stats_of :: "collection_state \<Rightarrow> collection_stats" where
  "collection_stats_of s =
     \<lparr>cst_live_count = im_size (cs_ids s), cst_deleted_count = tb_count (cs_deleted s), cst_row_count = st_size (cs_vectors s),
      cst_dim = cc_dim (cs_config s), cst_metric = cc_metric (cs_config s), cst_index = cc_index (cs_config s),
      cst_normalized = cs_normalized s, cst_simd = kt_level (cs_kernels s)\<rparr>"

subsection \<open>Hits of a query\<close>

text \<open>The distance of a stored row, and a row as a backend reports it.\<close>

definition row_dist :: "collection_state \<Rightarrow> query_view \<Rightarrow> f32 list \<Rightarrow> f32" where
  "row_dist s q row = query_distance (cs_kernels s) (score_mode_of (cc_metric (cs_config s)) (effective_normalize (cs_config s))) q row
     (unat (cc_dim (cs_config s)))"

definition hit :: "collection_state \<Rightarrow> query_view \<Rightarrow> internal_id \<Rightarrow> neighbor" where
  "hit s q i = mk_scored (row_dist s q (st_row (cs_vectors s) i)) (word_of_nat i)"

definition live_ids :: "collection_state \<Rightarrow> internal_id list" where
  "live_ids s = filter (\<lambda>i. \<not> tb_test (cs_deleted s) i) [0..<st_size (cs_vectors s)]"

text \<open>What every backend promises of its answer, and what the exact one adds.\<close>

definition answer_ok :: "collection_state \<Rightarrow> query_view \<Rightarrow> nat \<Rightarrow> internal_id list \<Rightarrow> bool" where
  "answer_ok s q k is \<longleftrightarrow>
     distinct is \<and> set is \<subseteq> set (live_ids s) \<and> length is \<le> k \<and> sorted (map (\<lambda>i. f32_val (sc_distance (hit s q i))) is)"

definition answer_exact :: "collection_state \<Rightarrow> query_view \<Rightarrow> nat \<Rightarrow> internal_id list \<Rightarrow> bool" where
  "answer_exact s q k is \<longleftrightarrow>
     length is = min k (length (live_ids s)) \<and>
     (\<forall>i\<in>set is. \<forall>j\<in>set (live_ids s) - set is. f32_val (sc_distance (hit s q i)) \<le> f32_val (sc_distance (hit s q j)))"

lemma insort_key_map: "insort_key f (g x) (map g xs) = map g (insort_key (f \<circ> g) x xs)"
  by (induction xs) auto

lemma sort_key_map: "sort_key f (map g xs) = map g (sort_key (f \<circ> g) xs)"
  by (induction xs) (simp_all add: insort_key_map comp_def)

lemma take_best:
  fixes d :: "'a \<Rightarrow> 'b :: linorder" and key :: "'a \<Rightarrow> 'b \<times> 'c :: linorder"
  assumes "\<And>x. fst (key x) = d x" "is = take k (sort_key key xs)" "distinct xs"
  shows "distinct is" "set is \<subseteq> set xs" "length is = min k (length xs)" "sorted (map d is)"
    "i \<in> set is \<Longrightarrow> j \<in> set xs - set is \<Longrightarrow> d i \<le> d j"
proof -
  let ?ys = "sort_key key xs"
  have srt: "sorted (map key ?ys)" by simp
  have fst_mono: "map d zs = map fst (map key zs)" for zs using assms(1) by simp
  have sd: "sorted (map d ?ys)"
    unfolding fst_mono sorted_map by (rule sorted_wrt_mono_rel [OF _ srt]) (auto simp: less_eq_prod_def)
  show "distinct is" "length is = min k (length xs)" using assms by (simp_all add: min.commute)
  show "set is \<subseteq> set xs" using assms(2) set_take_subset [of k ?ys] by simp
  have split: "map d ?ys = map d is @ map d (drop k ?ys)" unfolding assms(2) by (simp flip: map_append)
  show "sorted (map d is)" using sd unfolding split sorted_append by simp
  assume "i \<in> set is" "j \<in> set xs - set is"
  moreover have "set xs = set is \<union> set (drop k ?ys)" unfolding assms(2) by (metis append_take_drop_id set_append set_sort)
  ultimately show "d i \<le> d j" using sd unfolding split sorted_append by auto
qed

lemma view_query:
  assumes "coll_inv s" "prepare_query s query = Inr q"
  shows "status_ok (validate_vector query (unat (cc_dim (cs_config s))))" "qv_data q = query" "f32_is_finite (qv_inv_norm q)"
proof -
  have su: "cs_kernels s = scalar_kernel_table" "cs_normalized s = effective_normalize (cs_config s)"
    using assms(1) by (simp_all add: coll_inv_def setup_ok_def)
  show v: "status_ok (validate_vector query (unat (cc_dim (cs_config s))))" "qv_data q = query"
    using assms(2) by (auto simp: prepare_query_def return_if_error_def split: if_splits sum.splits)
  show "f32_is_finite (qv_inv_norm q)"
    using assms(2) su by (auto simp: prepare_query_def return_if_error_def f32_constants_finite inverse_norm_def Let_def split: if_splits sum.splits)
qed

text \<open>Both backends answer a prepared query.\<close>

lemma score_setup:
  assumes "setup_ok s" "store_ok s"
  shows "hit s q i = mk_scored (query_distance scalar_kernel_table (score_mode_of (cc_metric (cs_config s)) (effective_normalize (cs_config s)))
      q (st_row (cs_vectors s) i) (st_dim (cs_vectors s))) (word_of_nat i)"
    "metric_is_valid (cc_metric (cs_config s))" "effective_normalize (cs_config s) \<or> cc_metric (cs_config s) \<noteq> Cosine"
  using assms store_okD(3) [OF assms(2)]
  by (auto simp: hit_def row_dist_def setup_ok_def collection_config_validate_ok effective_normalize_def)

lemma flat_answer:
  assumes inv: "setup_ok s" "store_ok s" and k: "1 \<le> kn_k knobs"
    and q: "status_ok (validate_vector (qv_data q) (unat (cc_dim (cs_config s))))" "f32_is_finite (qv_inv_norm q)"
  shows "\<exists>js. answer_ok s q (kn_k knobs) js \<and> answer_exact s q (kn_k knobs) js \<and>
    (\<forall>out. kn_k knobs \<le> length out \<longrightarrow>
      (\<exists>out'. flat_search scalar_kernel_table (cc_metric (cs_config s)) (effective_normalize (cs_config s)) (cs_vectors s) (cs_deleted s) q knobs out =
        Some (length js, out') \<and> length out' = length out \<and> take (length js) out' = map (hit s q) js))"
proof -
  note D = store_okD [OF inv(2)] and S = score_setup [OF inv]
  let ?mode = "score_mode_of (cc_metric (cs_config s)) (effective_normalize (cs_config s))"
  have nan: "\<forall>i < st_size (cs_vectors s). \<not> f32_is_nan (scalar.row_distance ?mode q (cs_vectors s) i)"
    unfolding scalar.row_distance_def using q D(2,3) st_invD(2) [OF D(1)]
    by (intro allI impI scalar.query_distance_not_nan)
      (auto simp: rows_ok_def validate_vector_ok components_ok_def all_set_conv_all_nth)
  have cs: "offers (scalar.row_distance ?mode q (cs_vectors s)) (cs_deleted s) (st_size (cs_vectors s)) = map (hit s q) (live_ids s)"
    by (simp add: offers_def live_ids_def scalar.row_distance_def S(1))
  define js where "js = take (kn_k knobs) (sort_key (cand_key \<circ> hit s q) (live_ids s))"
  have key: "\<And>i. fst ((cand_key \<circ> hit s q) i) = f32_val (sc_distance (hit s q i))" by (simp add: cand_key_def)
  have "distinct (live_ids s)" by (simp add: live_ids_def)
  note B = take_best [OF key js_def this]
  have len: "length js = min (kn_k knobs) (length (live_ids s))" by (rule B(3))
  have best: "take (kn_k knobs) (sort_key cand_key (map (hit s q) (live_ids s))) = map (hit s q) js"
    unfolding js_def sort_key_map by (simp add: take_map)
  have "\<exists>out'. flat_search scalar_kernel_table (cc_metric (cs_config s)) (effective_normalize (cs_config s)) (cs_vectors s) (cs_deleted s) q knobs out =
      Some (length js, out') \<and> length out' = length out \<and> take (length js) out' = map (hit s q) js" if "kn_k knobs \<le> length out" for out
    using scalar.flat_search_top_k [OF S(2,3) D(1,7) k that nan] unfolding cs best len by auto
  moreover have "answer_ok s q (kn_k knobs) js" "answer_exact s q (kn_k knobs) js"
    using B len by (auto simp: answer_ok_def answer_exact_def)
  ultimately show ?thesis by blast
qed

text \<open>The old contents of the output do not matter.\<close>

lemma hnsw_search_out:
  assumes "hnsw_search b v d ctx q knobs out = Some (n, out1)" "kn_k knobs \<le> length out2"
  shows "hnsw_search b v d ctx q knobs out2 = Some (n, take n out1 @ drop n out2)" "n \<le> kn_k knobs"
proof -
  obtain c where "search_with b v d ctx q knobs out = Some (n, out1, c)" using assms(1) by (auto simp: hnsw_search_def)
  then have "search_with b v d ctx q knobs out2 = Some (n, take n out1 @ drop n out2, c) \<and> n \<le> kn_k knobs"
    using assms(2) by (auto simp: search_with_def Let_def split: if_splits option.splits prod.splits)
  then show "hnsw_search b v d ctx q knobs out2 = Some (n, take n out1 @ drop n out2)" "n \<le> kn_k knobs" by (simp_all add: hnsw_search_def)
qed

lemma hnsw_answer:
  assumes inv: "setup_ok s" "store_ok s" and b: "hnsw_ok (cs_config s) (cs_vectors s) (st_size (cs_vectors s)) U b"
    and k: "1 \<le> kn_k knobs" and ctx: "vs_inv (sx_visited ctx)"
    and q: "status_ok (validate_vector (qv_data q) (unat (cc_dim (cs_config s))))" "f32_is_finite (qv_inv_norm q)"
  shows "\<exists>js. answer_ok s q (kn_k knobs) js \<and>
    (\<forall>out. kn_k knobs \<le> length out \<longrightarrow>
      (\<exists>out'. hnsw_search b (cs_vectors s) (cs_deleted s) ctx q knobs out = Some (length js, out') \<and>
        length out' = length out \<and> take (length js) out' = map (hit s q) js))"
proof (cases "entry_valid (read_entry (hb_graph b))")
  case False
  then show ?thesis using k by (intro exI [of _ "[]"]) (simp add: hnsw_search_def search_with_def answer_ok_def)
next
  case True
  let ?v = "cs_vectors s" and ?d = "cs_deleted s"
  note D = store_okD [OF inv(2)] and S = score_setup [OF inv]
  have B: "hb_kernels b = scalar_kernel_table" "hb_dim b = st_dim ?v" "node_count (hb_graph b) = st_size ?v"
    "hb_mode b = score_mode_of (cc_metric (cs_config s)) (effective_normalize (cs_config s))" "graph_inv (hb_graph b) ?v U"
    using b by (simp_all add: hnsw_ok_def backend_inv_def)
  note G = graph_invD(1,2) [OF B(5)] and E = graph_inv_entry [OF B(5) True]
  have qo: "query_ok b ?v q"
    by (rule scalar.hb_query_ok [OF B(1,2) D(1) G])
      (use q D(2,3) st_invD(2) [OF D(1)] in \<open>auto simp: rows_ok_def validate_vector_ok components_ok_def all_set_conv_all_nth\<close>)
  have on: "on_level (hb_graph b) (he_level (read_entry (hb_graph b))) (he_id (read_entry (hb_graph b)))"
    using E(1,3) by (simp add: on_level_def)
  let ?out0 = "replicate (kn_k knobs) default_neighbor"
  obtain V h ctx' where r: "beam_result b ?v q (\<lambda>i. \<not> tb_test ?d i) 0
      (max (if kn_ef knobs \<noteq> 0 then kn_ef knobs else unat (hp_ef_search (hb_params b))) (kn_k knobs)) V h"
    "search_with b ?v ?d ctx q knobs ?out0 =
      Some (length (best_live b ?v q ?d (kn_k knobs) V),
        map to_neighbor (best_live b ?v q ?d (kn_k knobs) V) @ drop (length (best_live b ?v q ?d (kn_k knobs) V)) ?out0, ctx')"
    using search_with_ok [OF qo k _ True on ctx D(7) refl, of ?out0] by auto
  have V: "V \<subseteq> {..<node_count (hb_graph b)}" using r(1) on_level_less by (auto simp: beam_result_def)
  note best = best_live_ids [OF V, where b = b and s = ?v and q = q and deleted = ?d and k = "kn_k knobs"]
  define js where "js = map sc_id (best_live b ?v q ?d (kn_k knobs) V)"
  have sub: "set js \<subseteq> set (live_ids s)" using best(2) V B(3) by (auto simp: live_ids_def js_def)
  have dist: "sc_distance (hit s q i) = sc_distance (hb_sc b ?v q i)" if "i \<in> set js" for i
    using that sub scalar.hb_dist_row [OF B(1,2) D(1), of i q] B(4) by (auto simp: S(1) hb_sc_def live_ids_def)
  have nb: "map to_neighbor (best_live b ?v q ?d (kn_k knobs) V) = map (hit s q) js"
    unfolding js_def map_map
  proof (rule map_cong [OF refl])
    fix c assume c: "c \<in> set (best_live b ?v q ?d (kn_k knobs) V)"
    have "sc_distance (hit s q (sc_id c)) = sc_distance c"
      using dist [of "sc_id c"] c arg_cong [OF best(1) [OF c], of sc_distance] by (simp add: js_def)
    then show "to_neighbor c = (hit s q \<circ> sc_id) c" by (simp add: to_neighbor_def hit_def)
  qed
  have "sorted (map (\<lambda>i. f32_val (sc_distance (hb_sc b ?v q i))) js)"
    unfolding sorted_map using best(4) [folded js_def] unfolding sorted_wrt_map
    by (rule sorted_wrt_mono_rel [rotated]) (auto simp: cand_key_def less_prod_def)
  also have "map (\<lambda>i. f32_val (sc_distance (hb_sc b ?v q i))) js = map (\<lambda>i. f32_val (sc_distance (hit s q i))) js" using dist by simp
  finally have ok: "answer_ok s q (kn_k knobs) js"
    using best(3,5) [folded js_def] sub by (simp add: answer_ok_def js_def)
  have res: "hnsw_search b ?v ?d ctx q knobs ?out0 = Some (length js, map (hit s q) js @ drop (length js) ?out0)"
    unfolding hnsw_search_def r(2) nb by (simp add: js_def)
  have "\<exists>out'. hnsw_search b ?v ?d ctx q knobs out = Some (length js, out') \<and> length out' = length out \<and>
      take (length js) out' = map (hit s q) js" if "kn_k knobs \<le> length out" for out
    using hnsw_search_out [OF res that] that by auto
  then show ?thesis using ok by blast
qed

subsection \<open>Relabelling\<close>

lemma relabel_upto:
  assumes "\<forall>i < n. im_label m (unat (ucast (sc_id (out ! i)) :: u32)) = Some (lab i)" "n \<le> length out"
  shows "relabel m [k..<n] (map (\<lambda>i. (out ! i)\<lparr>sc_id := lab i\<rparr>) [0..<k] @ drop k out) =
    Some (map (\<lambda>i. (out ! i)\<lparr>sc_id := lab i\<rparr>) [0..<max k n] @ drop (max k n) out)"
  using assms
proof (induction "n - k" arbitrary: k)
  case 0
  then show ?case by (simp add: max_def)
next
  case (Suc d)
  let ?f = "\<lambda>i. (out ! i)\<lparr>sc_id := lab i\<rparr>"
  have k: "k < n" "k < length out" using Suc.hyps(2) Suc.prems(2) by simp_all
  have u: "[k..<n] = k # [Suc k..<n]" using k by (simp add: upt_conv_Cons)
  have dr: "drop k out = out ! k # drop (Suc k) out" using k by (simp add: Cons_nth_drop_Suc)
  have "(map ?f [0..<k] @ drop k out)[k := ?f k] = map ?f [0..<Suc k] @ drop (Suc k) out"
    unfolding dr by (simp add: list_update_append)
  moreover have "(map ?f [0..<k] @ drop k out) ! k = out ! k" unfolding dr by (simp add: nth_append)
  moreover have "max (Suc k) n = max k n" using k by simp
  ultimately show ?case using Suc.hyps(1) [of "Suc k"] Suc.hyps(2) Suc.prems k by (simp add: u del: upt_Suc)
qed

lemma relabel_hits:
  assumes st: "store_ok s" and js: "set js \<subseteq> set (live_ids s)" and out: "take (length js) out = map (hit s q) js"
  shows "relabel (cs_ids s) [0..<length js] out =
    Some (map (\<lambda>i. mk_scored (row_dist s q (st_row (cs_vectors s) i)) (im_labels (cs_ids s) ! i)) js @ drop (length js) out)"
proof -
  have len: "length js \<le> length out" using arg_cong [OF out, of length] by simp
  have nth: "out ! k = hit s q (js ! k)" if "k < length js" for k
    using arg_cong [OF out, of "\<lambda>l. l ! k"] that by simp
  have b: "js ! k < st_size (cs_vectors s)" if "k < length js" for k using js nth_mem [OF that] by (auto simp: live_ids_def)
  have "st_size (cs_vectors s) < 2 ^ 32"
    using st_invD(6,7) [OF store_okD(1) [OF st]] by (simp add: kMaxVectorsPerCollection_def kInvalidInternalId_def)
  then have w: "unat (ucast (word_of_nat (js ! k) :: external_id) :: u32) = js ! k" if "k < length js" for k
    using b [OF that] by (simp add: unsigned_ucast_eq unsigned_of_nat take_bit_nat_eq_self)
  have "\<forall>k < length js. im_label (cs_ids s) (unat (ucast (sc_id (out ! k)) :: u32)) = Some (im_labels (cs_ids s) ! (js ! k))"
    using nth w b store_okD(6) [OF st] by (simp add: hit_def im_label_def)
  from relabel_upto [OF this len, of 0]
  have "relabel (cs_ids s) [0..<length js] out =
      Some (map (\<lambda>k. (out ! k)\<lparr>sc_id := im_labels (cs_ids s) ! (js ! k)\<rparr>) [0..<length js] @ drop (length js) out)" by simp
  also have "map (\<lambda>k. (out ! k)\<lparr>sc_id := im_labels (cs_ids s) ! (js ! k)\<rparr>) [0..<length js] =
      map (\<lambda>i. mk_scored (row_dist s q (st_row (cs_vectors s) i)) (im_labels (cs_ids s) ! i)) js"
    by (rule nth_equalityI) (simp_all add: nth hit_def)
  finally show ?thesis .
qed

subsection \<open>Answers in terms of the view\<close>

text \<open>An answer as a client sees it: external ids with the distances of their rows.\<close>

definition view_dist :: "collection_state \<Rightarrow> query_view \<Rightarrow> external_id \<Rightarrow> f32" where
  "view_dist s q x = row_dist s q (the (coll_view s x))"

definition view_answer :: "collection_state \<Rightarrow> query_view \<Rightarrow> nat \<Rightarrow> external_id list \<Rightarrow> bool" where
  "view_answer s q k xs \<longleftrightarrow>
     distinct xs \<and> set xs \<subseteq> dom (coll_view s) \<and> length xs \<le> k \<and> sorted (map (\<lambda>x. f32_val (view_dist s q x)) xs) \<and>
     (cc_index (cs_config s) = Flat \<longrightarrow>
        length xs = min k (card (dom (coll_view s))) \<and>
        (\<forall>x\<in>set xs. \<forall>y\<in>dom (coll_view s) - set xs. f32_val (view_dist s q x) \<le> f32_val (view_dist s q y)))"

lemma live_labels:
  assumes "store_ok s"
  shows "i \<in> set (live_ids s) \<Longrightarrow> coll_view s (im_labels (cs_ids s) ! i) = Some (st_row (cs_vectors s) i)"
    "inj_on ((!) (im_labels (cs_ids s))) (set (live_ids s))" "(!) (im_labels (cs_ids s)) ` set (live_ids s) = dom (coll_view s)"
proof -
  have f: "im_find (cs_ids s) (im_labels (cs_ids s) ! i) = Some i" if "i \<in> set (live_ids s)" for i
    using live_row_find [OF assms] that by (simp add: live_ids_def)
  show "i \<in> set (live_ids s) \<Longrightarrow> coll_view s (im_labels (cs_ids s) ! i) = Some (st_row (cs_vectors s) i)"
    using f by (simp add: coll_view_def)
  show "inj_on ((!) (im_labels (cs_ids s))) (set (live_ids s))" by (rule inj_onI) (metis f option.inject)
  show "(!) (im_labels (cs_ids s)) ` set (live_ids s) = dom (coll_view s)"
  proof
    show "(!) (im_labels (cs_ids s)) ` set (live_ids s) \<subseteq> dom (coll_view s)" using f by (auto simp: dom_coll_view)
    show "dom (coll_view s) \<subseteq> (!) (im_labels (cs_ids s)) ` set (live_ids s)"
    proof
      fix x assume "x \<in> dom (coll_view s)"
      then obtain i where i: "im_find (cs_ids s) x = Some i" by (auto simp: dom_coll_view)
      then show "x \<in> (!) (im_labels (cs_ids s)) ` set (live_ids s)"
        using im_find_row [OF assms i] by (auto simp: live_ids_def intro!: image_eqI [of _ _ i])
    qed
  qed
qed

lemma answer_view:
  assumes st: "store_ok s" and ok: "answer_ok s q k js" "cc_index (cs_config s) = Flat \<Longrightarrow> answer_exact s q k js"
  defines "xs \<equiv> map ((!) (im_labels (cs_ids s))) js"
  shows "view_answer s q k xs"
    "map (\<lambda>i. mk_scored (row_dist s q (st_row (cs_vectors s) i)) (im_labels (cs_ids s) ! i)) js = map (\<lambda>x. mk_scored (view_dist s q x) x) xs"
proof -
  note L = live_labels [OF st]
  have sub: "set js \<subseteq> set (live_ids s)" and d: "distinct js" using ok(1) by (auto simp: answer_ok_def)
  have vd: "view_dist s q (im_labels (cs_ids s) ! i) = sc_distance (hit s q i)" if "i \<in> set (live_ids s)" for i
    using L(1) [OF that] by (simp add: view_dist_def hit_def)
  show "map (\<lambda>i. mk_scored (row_dist s q (st_row (cs_vectors s) i)) (im_labels (cs_ids s) ! i)) js = map (\<lambda>x. mk_scored (view_dist s q x) x) xs"
    using sub vd by (auto simp: xs_def hit_def)
  have m: "map (\<lambda>x. f32_val (view_dist s q x)) xs = map (\<lambda>i. f32_val (sc_distance (hit s q i))) js"
    using sub vd by (auto simp: xs_def)
  have card: "card (dom (coll_view s)) = length (live_ids s)"
    unfolding L(3) [symmetric] card_image [OF L(2)] by (rule distinct_card) (simp add: live_ids_def)
  have ex: "length xs = min k (card (dom (coll_view s))) \<and>
      (\<forall>x\<in>set xs. \<forall>y\<in>dom (coll_view s) - set xs. f32_val (view_dist s q x) \<le> f32_val (view_dist s q y))"
    if "cc_index (cs_config s) = Flat"
  proof -
    have e: "answer_exact s q k js" using ok(2) [OF that] .
    have "f32_val (view_dist s q x) \<le> f32_val (view_dist s q y)" if xy: "x \<in> set xs" "y \<in> dom (coll_view s) - set xs" for x y
    proof -
      obtain i where i: "i \<in> set js" "x = im_labels (cs_ids s) ! i" using xy(1) by (auto simp: xs_def)
      obtain j where j: "j \<in> set (live_ids s)" "y = im_labels (cs_ids s) ! j" using xy(2) L(3) by auto
      have "j \<notin> set js" using xy(2) j(2) by (auto simp: xs_def)
      then show ?thesis using e i j sub vd [of i] vd [of j] by (auto simp: answer_exact_def)
    qed
    then show ?thesis using e card by (simp add: answer_exact_def xs_def)
  qed
  have "set xs \<subseteq> dom (coll_view s)" unfolding L(3) [symmetric] using sub by (auto simp: xs_def)
  moreover have "distinct xs" using d inj_on_subset [OF L(2) sub] by (simp add: xs_def distinct_map)
  moreover have "sorted (map (\<lambda>x. f32_val (view_dist s q x)) xs)" "length xs \<le> k" unfolding m using ok(1) by (simp_all add: answer_ok_def xs_def)
  ultimately show "view_answer s q k xs" using ex by (simp add: view_answer_def)
qed

lemma run_query_answer:
  assumes inv: "coll_inv s" and q: "prepare_query s query = Inr q" and k: "1 \<le> kn_k knobs" and ctx: "vs_inv (sx_visited ctx)"
  shows "(\<not> mem \<and> cc_index (cs_config s) = Hnsw \<and> (\<forall>out. run_query mem ctx s q knobs out = Thrown)) \<or>
    (\<exists>xs. view_answer s q (kn_k knobs) xs \<and>
      (\<forall>out. kn_k knobs \<le> length out \<longrightarrow>
        (\<exists>out'. run_query mem ctx s q knobs out = Returned (length xs, out') \<and> length out' = length out \<and>
          take (length xs) out' = map (\<lambda>x. mk_scored (view_dist s q x) x) xs)))"
proof -
  obtain U where U: "setup_ok s" "store_ok s" "backend_ok (cs_config s) (cs_vectors s) (st_size (cs_vectors s)) U (cs_backend s)"
    using inv by (auto elim: coll_invE)
  note Q = view_query [OF inv q]
  have v: "status_ok (validate_vector (qv_data q) (unat (cc_dim (cs_config s))))" using Q by simp
  have fin: ?thesis if ok: "answer_ok s q (kn_k knobs) js" "cc_index (cs_config s) = Flat \<Longrightarrow> answer_exact s q (kn_k knobs) js"
    and run: "\<forall>out. kn_k knobs \<le> length out \<longrightarrow>
      (\<exists>out'. backend_search mem ctx (cs_vectors s) (cs_deleted s) (cs_backend s) q knobs out = Returned (length js, out') \<and>
        length out' = length out \<and> take (length js) out' = map (hit s q) js)" for js
  proof -
    let ?xs = "map ((!) (im_labels (cs_ids s))) js"
    have sub: "set js \<subseteq> set (live_ids s)" using ok(1) by (simp add: answer_ok_def)
    note A = answer_view [OF U(2) ok]
    have "\<exists>out'. run_query mem ctx s q knobs out = Returned (length ?xs, out') \<and> length out' = length out \<and>
        take (length ?xs) out' = map (\<lambda>x. mk_scored (view_dist s q x) x) ?xs" if le: "kn_k knobs \<le> length out" for out
    proof -
      obtain out' where o: "backend_search mem ctx (cs_vectors s) (cs_deleted s) (cs_backend s) q knobs out = Returned (length js, out')"
        "length out' = length out" "take (length js) out' = map (hit s q) js" using run le by blast
      have "length js \<le> length out'" using arg_cong [OF o(3), of length] by simp
      then show ?thesis using o(1,2) relabel_hits [OF U(2) sub o(3)] A(2) by (auto simp: run_query_def)
    qed
    then show ?thesis using A(1) by blast
  qed
  show ?thesis
  proof (cases "cs_backend s")
    case (FlatBackend m n t)
    have b: "m = cc_metric (cs_config s)" "n = effective_normalize (cs_config s)" "t = scalar_kernel_table" using U(3) FlatBackend by simp_all
    obtain js where js: "answer_ok s q (kn_k knobs) js" "answer_exact s q (kn_k knobs) js"
      "\<forall>out. kn_k knobs \<le> length out \<longrightarrow> (\<exists>out'. flat_search t m n (cs_vectors s) (cs_deleted s) q knobs out = Some (length js, out') \<and>
        length out' = length out \<and> take (length js) out' = map (hit s q) js)"
      using flat_answer [OF U(1,2) k v Q(3)] unfolding b by blast
    show ?thesis by (rule fin [OF js(1,2)]) (use js(3) FlatBackend in fastforce)
  next
    case (HnswBackend b)
    have b: "hnsw_ok (cs_config s) (cs_vectors s) (st_size (cs_vectors s)) U b" "cc_index (cs_config s) = Hnsw" using U(3) HnswBackend by simp_all
    obtain js where js: "answer_ok s q (kn_k knobs) js"
      "\<forall>out. kn_k knobs \<le> length out \<longrightarrow> (\<exists>out'. hnsw_search b (cs_vectors s) (cs_deleted s) ctx q knobs out = Some (length js, out') \<and>
        length out' = length out \<and> take (length js) out' = map (hit s q) js)"
      using hnsw_answer [OF U(1,2) b(1) k ctx v Q(3)] by blast
    show ?thesis
    proof (cases mem)
      case True
      show ?thesis by (rule fin [OF js(1)]) (use b(2) True HnswBackend js(2) in fastforce)+
    next
      case False
      then show ?thesis using HnswBackend b(2) by (simp add: run_query_def)
    qed
  next
    case NoBackend
    then show ?thesis using U(3) by simp
  qed
qed

subsection \<open>Single queries\<close>

lemma knobs_ok:
  assumes "status_ok (search_params_validate params)"
  shows "1 \<le> kn_k (knobs_for params n)" "kn_k (knobs_for params n) \<le> unat (sp_k params)" "kn_k (knobs_for params n) = min (unat (sp_k params)) (max n 1)"
proof -
  have "1 \<le> unat (sp_k params)" using assms by (simp add: search_params_validate_ok word_le_nat_alt)
  then show "1 \<le> kn_k (knobs_for params n)" "kn_k (knobs_for params n) \<le> unat (sp_k params)"
    "kn_k (knobs_for params n) = min (unat (sp_k params)) (max n 1)" by (simp_all add: knobs_for_def)
qed

text \<open>Clamping \<open>k\<close> to the number of stored rows loses nothing.\<close>

lemma view_answer_clamped:
  assumes "store_ok s" "view_answer s q (kn_k (knobs_for params (st_size (cs_vectors s)))) xs"
  shows "view_answer s q (unat (sp_k params)) xs"
proof -
  let ?n = "st_size (cs_vectors s)"
  have "card (dom (coll_view s)) = length (live_ids s)"
    using distinct_card [of "live_ids s"] card_image [OF live_labels(2) [OF assms(1)]] live_labels(3) [OF assms(1)] by (simp add: live_ids_def)
  also have "\<dots> \<le> ?n" using length_filter_le [of _ "[0..<?n]"] by (simp add: live_ids_def)
  finally have c: "card (dom (coll_view s)) \<le> ?n" .
  have "min (min (unat (sp_k params)) (max ?n 1)) (card (dom (coll_view s))) = min (unat (sp_k params)) (card (dom (coll_view s)))"
    using c by simp
  then show ?thesis using assms(2) unfolding view_answer_def knobs_for_def by auto
qed

lemma search_answer:
  assumes inv: "coll_inv s" and p: "status_ok (search_params_validate params)" and q: "prepare_query s query = Inr q"
    and ctx: "vs_inv (sx_visited ctx)" and kn: "knobs = knobs_for params (st_size (cs_vectors s))"
  shows "(\<not> mem \<and> cc_index (cs_config s) = Hnsw \<and> (\<forall>out. run_query mem ctx s q knobs out = Thrown)) \<or>
    (\<exists>xs. view_answer s q (unat (sp_k params)) xs \<and>
      (\<forall>out. kn_k knobs \<le> length out \<longrightarrow>
        (\<exists>out'. run_query mem ctx s q knobs out = Returned (length xs, out') \<and> length out' = length out \<and>
          take (length xs) out' = map (\<lambda>x. mk_scored (view_dist s q x) x) xs)))"
  using run_query_answer [OF inv q _ ctx, of knobs mem] knobs_ok(1) [OF p] view_answer_clamped [OF coll_inv_store [OF inv]] unfolding kn by blast

lemma prepare_query_error:
  assumes "prepare_query s query = Inl e"
  shows "code e = (if length query \<noteq> unat (cc_dim (cs_config s)) then DimensionMismatch else InvalidArgument)"
proof (cases "status_ok (validate_vector query (unat (cc_dim (cs_config s))))")
  case True
  then have "length query = unat (cc_dim (cs_config s))" by (simp add: validate_vector_ok)
  then show ?thesis using assms True by (auto simp: prepare_query_def return_if_error_def split: if_splits sum.splits)
next
  case False
  then show ?thesis using assms validate_vector_codes [of query] by (auto simp: prepare_query_def return_if_error_def)
qed

text \<open>A single query returns what any run of it finds.\<close>

lemma collection_search_run:
  assumes "status_ok (search_params_validate params)" "prepare_query s query = Inr q" "knobs = knobs_for params (st_size (cs_vectors s))"
    "run_query mem ctx s q knobs (replicate (kn_k knobs) default_neighbor) = Returned (length xs, out')"
    "take (length xs) out' = map h xs"
  shows "collection_search True mem ctx s query params = Returned (Inr (map h xs))"
proof -
  have "length xs - length out' = 0" using arg_cong [OF assms(5), of length] by simp
  then show ?thesis using assms by (simp add: collection_search_def Let_def)
qed

lemma collection_search_value:
  assumes inv: "coll_inv s" and p: "status_ok (search_params_validate params)" and q: "prepare_query s query = Inr q"
    and ctx: "vs_inv (sx_visited ctx)"
  shows "(collection_search mem_out mem ctx s query params = Thrown \<and> (\<not> mem_out \<or> \<not> mem \<and> cc_index (cs_config s) = Hnsw)) \<or>
    (\<exists>xs. collection_search mem_out mem ctx s query params = Returned (Inr (map (\<lambda>x. mk_scored (view_dist s q x) x) xs)) \<and>
      view_answer s q (unat (sp_k params)) xs)"
proof (cases mem_out)
  case True
  let ?kn = "knobs_for params (st_size (cs_vectors s))"
  let ?out = "replicate (kn_k ?kn) default_neighbor"
  from search_answer [OF inv p q ctx refl, of mem] show ?thesis
  proof
    assume t: "\<not> mem \<and> cc_index (cs_config s) = Hnsw \<and> (\<forall>out. run_query mem ctx s q ?kn out = Thrown)"
    then have "collection_search mem_out mem ctx s query params = Thrown"
      using p q by (auto simp: collection_search_def Let_def)
    then show ?thesis using t by blast
  next
    assume "\<exists>xs. view_answer s q (unat (sp_k params)) xs \<and> (\<forall>out. kn_k ?kn \<le> length out \<longrightarrow>
        (\<exists>out'. run_query mem ctx s q ?kn out = Returned (length xs, out') \<and> length out' = length out \<and>
          take (length xs) out' = map (\<lambda>x. mk_scored (view_dist s q x) x) xs))"
    then obtain xs where xs: "view_answer s q (unat (sp_k params)) xs" and r: "\<forall>out. kn_k ?kn \<le> length out \<longrightarrow>
        (\<exists>out'. run_query mem ctx s q ?kn out = Returned (length xs, out') \<and> length out' = length out \<and>
          take (length xs) out' = map (\<lambda>x. mk_scored (view_dist s q x) x) xs)" by blast
    have "kn_k ?kn \<le> length ?out" by simp
    then obtain out' where "run_query mem ctx s q ?kn ?out = Returned (length xs, out')"
      "take (length xs) out' = map (\<lambda>x. mk_scored (view_dist s q x) x) xs" using r by blast
    from collection_search_run [OF p q refl this] show ?thesis using xs True by auto
  qed
qed (use p q in \<open>simp add: collection_search_def Let_def\<close>)

text \<open>
  C5. \<open>search\<close> answers from the map of the collection. It never aborts; a valid query returns distinct
  present ids with the true distances of their rows, nearest first and at most \<open>k\<close>; a flat collection
  returns exactly \<open>min k size\<close> of them and no id left out is nearer than one returned. Invalid
  parameters or queries are reported as documented, and an exception needs a failed allocation.
\<close>

theorem collection_search_correct:
  assumes "coll_inv s" "vs_inv (sx_visited ctx)"
  shows "case collection_search mem_out mem ctx s query params of
      Returned (Inr res) \<Rightarrow>
        (\<exists>q xs. prepare_query s query = Inr q \<and> res = map (\<lambda>x. mk_scored (view_dist s q x) x) xs \<and> view_answer s q (unat (sp_k params)) xs)
    | Returned (Inl st) \<Rightarrow>
        code st = (if status_ok (search_params_validate params) \<and> length query \<noteq> unat (cc_dim (cs_config s)) then DimensionMismatch else InvalidArgument) \<and>
        (status_ok (search_params_validate params) \<longrightarrow> prepare_query s query = Inl st)
    | Thrown \<Rightarrow> \<not> mem_out \<or> \<not> mem \<and> cc_index (cs_config s) = Hnsw
    | Aborted \<Rightarrow> False"
proof (cases "status_ok (search_params_validate params)")
  case False
  moreover have "code (search_params_validate params) = InvalidArgument"
    using False by (auto simp: search_params_validate_def split: option.splits if_splits)
  ultimately show ?thesis by (simp add: collection_search_def)
next
  case p: True
  show ?thesis
  proof (cases "prepare_query s query")
    case (Inl e)
    then show ?thesis using p prepare_query_error [OF Inl] by (simp add: collection_search_def)
  next
    case (Inr q)
    then show ?thesis using collection_search_value [OF assms(1) p Inr assms(2), of mem_out mem] by auto
  qed
qed

definition sample_params :: search_params where "sample_params = \<lparr>sp_k = 3, sp_ef_search = None\<rparr>"

theorem collection_search_correct_witness:
  "case collection_search True True new_search_context (sample_empty Flat) [f32_one] sample_params of
      Returned (Inr res) \<Rightarrow> res = [] | _ \<Rightarrow> False"
proof -
  let ?s = "sample_empty Flat"
  have i: "coll_inv ?s" "vs_inv (sx_visited new_search_context)" using sample_empty_facts(1) by (simp_all add: new_search_context_def)
  have p: "status_ok (search_params_validate sample_params)"
    by (simp add: search_params_validate_ok sample_params_def kMaxK_def)
  have "component_ok f32_one" by (simp add: component_ok_def kMaxAbsComponent_def f32_eval)
  moreover have "\<not> cs_normalized ?s" using i(1) sample_empty_facts(3) [of Flat]
    by (simp add: coll_inv_def setup_ok_def sample_config_def effective_normalize_def)
  ultimately have q: "prepare_query ?s [f32_one] = Inr \<lparr>qv_data = [f32_one], qv_inv_norm = f32_one\<rparr>"
    using sample_empty_facts(3) [of Flat] by (simp add: prepare_query_def return_if_error_def validate_vector_ok sample_config_def)
  have "xs = []" if "view_answer ?s r k xs" for r k xs using that sample_empty_facts(2) [of Flat] by (simp add: view_answer_def)
  then show ?thesis
    using collection_search_correct [OF i, where mem_out = True and mem = True and query = "[f32_one]" and params = sample_params] p q
    by (auto split: outcome.splits sum.splits)
qed

end
