(* ===== verification/VF_SearchBatch.thy ===== *)
theory VF_SearchBatch
  imports VF_CollectionSearch
begin

text \<open>
  A batch of queries writes, for every query, the answer of the single query followed by padding, and
  leaves the cells behind the batch alone.
\<close>

subsection \<open>Writing the cells\<close>

text \<open>The cells of one query: its results, then the reserved id at infinite distance.\<close>

definition id_cell :: "neighbor list \<Rightarrow> nat \<Rightarrow> external_id" where
  "id_cell res j = (if j < length res then sc_id (res ! j) else kInvalidExternalId)"

definition distance_cell :: "neighbor list \<Rightarrow> nat \<Rightarrow> f32" where
  "distance_cell res j = (if j < length res then sc_distance (res ! j) else f32_infinity)"

lemma write_cells_append: "write_cells base n scratch (xs @ ys) out = write_cells base n scratch ys (write_cells base n scratch xs out)"
  by (induction xs arbitrary: out) (simp_all add: Let_def)

lemma write_cells_Suc:
  assumes "take n scratch = res" "n = length res"
  shows "write_cells base n scratch [0..<Suc k] out =
    (let o1 = write_cells base n scratch [0..<k] out
     in o1\<lparr>bo_ids := (bo_ids o1)[base + k := id_cell res k], bo_distances := (bo_distances o1)[base + k := distance_cell res k]\<rparr>)"
proof -
  have r: "res ! k = scratch ! k" if "k < length res" using assms that by (metis nth_take)
  show ?thesis using assms(2) r by (simp add: write_cells_append Let_def id_cell_def distance_cell_def)
qed

lemma write_cells_shape [simp]:
  "length (bo_ids (write_cells base n scratch js out)) = length (bo_ids out)"
  "length (bo_distances (write_cells base n scratch js out)) = length (bo_distances out)"
  "bo_counts (write_cells base n scratch js out) = bo_counts out"
  by (induction js arbitrary: out) (simp_all add: Let_def)

lemma write_cells_ids:
  assumes "take n scratch = res" "n = length res"
  shows "base + k \<le> length (bo_ids out) \<Longrightarrow> bo_ids (write_cells base n scratch [0..<k] out) ! m =
    (if base \<le> m \<and> m < base + k then id_cell res (m - base) else bo_ids out ! m)"
proof (induction k)
  case (Suc k)
  then show ?case unfolding write_cells_Suc [OF assms] Let_def by (cases "m = base + k") simp_all
qed auto

lemma write_cells_distances:
  assumes "take n scratch = res" "n = length res"
  shows "base + k \<le> length (bo_distances out) \<Longrightarrow> bo_distances (write_cells base n scratch [0..<k] out) ! m =
    (if base \<le> m \<and> m < base + k then distance_cell res (m - base) else bo_distances out ! m)"
proof (induction k)
  case (Suc k)
  then show ?case unfolding write_cells_Suc [OF assms] Let_def by (cases "m = base + k") simp_all
qed auto

lemma cell_block:
  fixes k m i :: nat
  assumes "0 < k"
  shows "i * k \<le> m \<and> m < i * k + k \<longleftrightarrow> m div k = i"
proof
  assume "i * k \<le> m \<and> m < i * k + k"
  then show "m div k = i" by (intro div_nat_eqI) (simp_all add: mult.commute)
next
  assume "m div k = i"
  then show "i * k \<le> m \<and> m < i * k + k" using div_mult_mod_eq [of m k] mod_less_divisor [OF assms, of m] by auto
qed

lemma cell_offset: "m div k = i \<Longrightarrow> m - i * k = m mod k" for m k i :: nat
  by (metis minus_div_mult_eq_mod)

subsection \<open>Running the queries\<close>

text \<open>What a query finds, whatever the output held before.\<close>

definition finds :: "bool \<Rightarrow> search_context \<Rightarrow> collection_state \<Rightarrow> query_view \<Rightarrow> search_knobs \<Rightarrow> neighbor list \<Rightarrow> bool" where
  "finds mem ctx s q knobs res \<longleftrightarrow>
     (\<forall>out. kn_k knobs \<le> length out \<longrightarrow>
        (\<exists>out'. run_query mem ctx s q knobs out = Returned (length res, out') \<and> length out' = length out \<and> take (length res) out' = res))"

definition cells_written :: "nat \<Rightarrow> (nat \<Rightarrow> neighbor list) \<Rightarrow> nat set \<Rightarrow> batch_output \<Rightarrow> batch_output \<Rightarrow> bool" where
  "cells_written k found rows out out' \<longleftrightarrow>
     length (bo_ids out') = length (bo_ids out) \<and> length (bo_distances out') = length (bo_distances out) \<and>
     length (bo_counts out') = length (bo_counts out) \<and>
     (\<forall>m < length (bo_ids out). bo_ids out' ! m = (if m div k \<in> rows then id_cell (found (m div k)) (m mod k) else bo_ids out ! m)) \<and>
     (\<forall>m < length (bo_distances out). bo_distances out' ! m =
        (if m div k \<in> rows then distance_cell (found (m div k)) (m mod k) else bo_distances out ! m)) \<and>
     (\<forall>i < length (bo_counts out). bo_counts out' ! i = (if i \<in> rows then word_of_nat (length (found i)) else bo_counts out ! i))"

lemma cells_written_row:
  assumes k: "0 < k" and res: "take n scratch = found i" "n = length (found i)"
    and len: "Suc i * k \<le> length (bo_ids out)" "Suc i * k \<le> length (bo_distances out)"
    and out1: "out1 = write_cells (i * k) n scratch [0..<k] out"
  shows "cells_written k found {i} out (out1\<lparr>bo_counts := (bo_counts out1)[i := word_of_nat n]\<rparr>)"
proof -
  have l: "i * k + k \<le> length (bo_ids out)" "i * k + k \<le> length (bo_distances out)" using len by simp_all
  note W = write_cells_ids [OF res l(1), folded out1, unfolded cell_block [OF k]]
    write_cells_distances [OF res l(2), folded out1, unfolded cell_block [OF k]]
  have ids: "bo_ids out1 ! m = (if m div k = i then id_cell (found i) (m mod k) else bo_ids out ! m)" for m
    using W(1) [of m] cell_offset [of m k i] by (simp split: if_splits)
  have ds: "bo_distances out1 ! m = (if m div k = i then distance_cell (found i) (m mod k) else bo_distances out ! m)" for m
    using W(2) [of m] cell_offset [of m k i] by (simp split: if_splits)
  show ?thesis unfolding cells_written_def using ids ds res(2) by (simp add: nth_list_update out1)
qed

lemma cells_written_trans:
  assumes "cells_written k found {i} out out1" "cells_written k found rows out1 out2" "i \<notin> rows"
  shows "cells_written k found (insert i rows) out out2"
  using assms unfolding cells_written_def by (simp split: if_splits)

lemma run_range_written:
  assumes k: "0 < k"
  shows "run_range mems ctxs s views knobs k js scratch out = (Returned (), out') \<Longrightarrow> kn_k knobs \<le> length scratch \<Longrightarrow> distinct js \<Longrightarrow>
    \<forall>i\<in>set js. Suc i * k \<le> length (bo_ids out) \<and> Suc i * k \<le> length (bo_distances out) \<Longrightarrow>
    \<forall>i\<in>set js. finds (mems i) (ctxs i) s (views ! i) knobs (found i) \<Longrightarrow>
    cells_written k found (set js) out out'"
proof (induction js arbitrary: scratch out)
  case Nil
  then show ?case by (simp add: cells_written_def)
next
  case (Cons i js)
  obtain scratch1 where r: "run_query (mems i) (ctxs i) s (views ! i) knobs scratch = Returned (length (found i), scratch1)"
    "length scratch1 = length scratch" "take (length (found i)) scratch1 = found i"
    using Cons.prems(2,5) by (auto simp: finds_def)
  define out1 where "out1 = write_cells (i * k) (length (found i)) scratch1 [0..<k] out"
  let ?o = "out1\<lparr>bo_counts := (bo_counts out1)[i := word_of_nat (length (found i))]\<rparr>"
  have w: "cells_written k found {i} out ?o"
    by (rule cells_written_row [where i = i and found = found, OF k r(3) refl _ _ out1_def]) (use Cons.prems(4) in auto)
  have run: "run_range mems ctxs s views knobs k js scratch1 ?o = (Returned (), out')"
    using Cons.prems(1) r(1) by (simp add: out1_def Let_def)
  have len: "length (bo_ids ?o) = length (bo_ids out)" "length (bo_distances ?o) = length (bo_distances out)"
    using w by (simp_all add: cells_written_def)
  have bounds: "\<forall>i\<in>set js. Suc i * k \<le> length (bo_ids ?o) \<and> Suc i * k \<le> length (bo_distances ?o)"
    unfolding len using Cons.prems(4) by simp
  have "cells_written k found (set js) ?o out'"
    by (rule Cons.IH [OF run]) (use Cons.prems(2,3,5) r(2) bounds in simp_all)
  then show ?case using cells_written_trans [OF w] Cons.prems(3) by simp
qed

lemma run_range_outcome:
  assumes "\<forall>i\<in>set js. (\<forall>out. run_query (mems i) (ctxs i) s (views ! i) knobs out = Thrown) \<or> (\<exists>res. finds (mems i) (ctxs i) s (views ! i) knobs res)"
    "kn_k knobs \<le> length scratch"
  shows "fst (run_range mems ctxs s views knobs k js scratch out) = Thrown \<or>
    fst (run_range mems ctxs s views knobs k js scratch out) = Returned () \<and>
      (\<forall>i\<in>set js. \<exists>res. finds (mems i) (ctxs i) s (views ! i) knobs res)"
  using assms
proof (induction js arbitrary: scratch out)
  case (Cons i js)
  show ?case
  proof (cases "\<forall>out. run_query (mems i) (ctxs i) s (views ! i) knobs out = Thrown")
    case False
    then obtain res where f: "finds (mems i) (ctxs i) s (views ! i) knobs res" using Cons.prems(1) by auto
    then obtain scratch1 where r: "run_query (mems i) (ctxs i) s (views ! i) knobs scratch = Returned (length res, scratch1)"
      "length scratch1 = length scratch" using Cons.prems(2) by (auto simp: finds_def)
    let ?o1 = "write_cells (i * k) (length res) scratch1 [0..<k] out"
    have "run_range mems ctxs s views knobs k (i # js) scratch out =
        run_range mems ctxs s views knobs k js scratch1 (?o1\<lparr>bo_counts := (bo_counts ?o1)[i := word_of_nat (length res)]\<rparr>)"
      using r(1) by (simp add: Let_def)
    then show ?thesis using Cons.IH [of scratch1] Cons.prems r(2) f by auto
  qed simp
qed simp

lemma run_range_returns:
  assumes "\<forall>i\<in>set js. \<exists>res. finds (mems i) (ctxs i) s (views ! i) knobs res" "kn_k knobs \<le> length scratch"
  shows "fst (run_range mems ctxs s views knobs k js scratch out) = Returned ()"
  using assms
proof (induction js arbitrary: scratch out)
  case (Cons i js)
  then obtain res where "finds (mems i) (ctxs i) s (views ! i) knobs res" by auto
  then obtain scratch1 where "run_query (mems i) (ctxs i) s (views ! i) knobs scratch = Returned (length res, scratch1)"
    "length scratch1 = length scratch" using Cons.prems(2) by (auto simp: finds_def)
  then show ?case using Cons.IH [of scratch1] Cons.prems by (simp add: Let_def)
qed simp

lemma prepare_queries_result:
  "case prepare_queries s queries dim js of
     Inl e \<Rightarrow> \<exists>i\<in>set js. \<exists>e1. prepare_query s (take dim (drop (i * dim) queries)) = Inl e1 \<and> code e = code e1
   | Inr views \<Rightarrow> length views = length js \<and> (\<forall>p < length js. prepare_query s (take dim (drop (js ! p * dim) queries)) = Inr (views ! p))"
proof (induction js)
  case (Cons i js)
  then show ?case by (cases "prepare_queries s queries dim js")
    (auto simp: less_Suc_eq_0_disj nth_Cons' split: sum.splits)
qed simp

subsection \<open>The batch\<close>

definition spans_ok :: "nat \<Rightarrow> nat \<Rightarrow> batch_output \<Rightarrow> bool" where
  "spans_ok nq k out \<longleftrightarrow> nq * k < 2 ^ 64 \<and> nq * k \<le> length (bo_ids out) \<and> nq * k \<le> length (bo_distances out) \<and> nq \<le> length (bo_counts out)"

lemma spans_small:
  "(case checked_mul_size nq k of None \<Rightarrow> True
    | Some slots \<Rightarrow> length (bo_ids out) < slots \<or> length (bo_distances out) < slots \<or> length (bo_counts out) < nq) \<longleftrightarrow> \<not> spans_ok nq k out"
proof (cases "checked_mul_size nq k")
  case None
  then show ?thesis using checked_mul_size_Some [of nq k "nq * k"] by (auto simp: spans_ok_def)
next
  case (Some m)
  then show ?thesis using checked_mul_size_Some [of nq k m] by (auto simp: spans_ok_def)
qed

text \<open>The three ways a batch of queries can go.\<close>

lemma search_batch_cases:
  fixes s params queries nq out mem_views mem_scratch mems ctxs
  defines "k \<equiv> unat (sp_k params)" and "dim \<equiv> unat (cc_dim (cs_config s))" and "knobs \<equiv> knobs_for params (st_size (cs_vectors s))"
    and "run \<equiv> collection_search_batch mem_views mem_scratch mems ctxs s queries nq params out"
  obtains (error) st where "run = (Returned st, out)" "\<not> status_ok st" "code st \<in> {InvalidArgument, DimensionMismatch}"
  | (memory) "run = (Thrown, out)" "\<not> mem_views \<or> \<not> mem_scratch"
  | (queries) views r out' where "status_ok (search_params_validate params)" "spans_ok nq k out"
      "\<And>i. i < nq \<Longrightarrow> prepare_query s (take dim (drop (i * dim) queries)) = Inr (views ! i)"
      "run_range mems ctxs s views knobs k [0..<nq] (replicate (kn_k knobs) default_neighbor) out = (r, out')"
      "run = (case r of Returned _ \<Rightarrow> Returned ok_status | Thrown \<Rightarrow> Thrown | Aborted \<Rightarrow> Aborted, out')"
proof (cases "status_ok (search_params_validate params)")
  case False
  moreover have "code (search_params_validate params) = InvalidArgument"
    using False by (auto simp: search_params_validate_def split: option.splits if_splits)
  ultimately show ?thesis by (intro error [of "search_params_validate params"]) (simp_all add: run_def collection_search_batch_def Let_def)
next
  case p: True
  show ?thesis
  proof (cases "status_ok (validate_batch queries nq dim)")
    case False
    moreover have "code (validate_batch queries nq dim) \<in> {InvalidArgument, DimensionMismatch}"
      using False by (auto simp: validate_batch_def invalid_component_status_def Let_def split: if_splits)
    ultimately show ?thesis using p
      by (intro error [of "validate_batch queries nq dim"]) (simp_all add: run_def collection_search_batch_def Let_def dim_def)
  next
    case v: True
    show ?thesis
    proof (cases "spans_ok nq k out")
      case False
      then show ?thesis using p v
        by (intro error [of "invalid_argument (''output spans are too small for '' @ show_nat nq @ '' queries with k = '' @ show_nat k)"])
          (simp_all add: run_def collection_search_batch_def spans_small Let_def dim_def k_def)
    next
      case sp: True
      have run: "run = (if \<not> mem_views then (Thrown, out)
          else case prepare_queries s queries dim [0..<nq] of
            Inl e \<Rightarrow> (Returned e, out)
          | Inr views \<Rightarrow>
              if \<not> mem_scratch then (Thrown, out)
              else (case run_range mems ctxs s views knobs k [0..<nq] (replicate (kn_k knobs) default_neighbor) out of
                 (Returned _, out1) \<Rightarrow> (Returned ok_status, out1) | (Thrown, out1) \<Rightarrow> (Thrown, out1) | (Aborted, out1) \<Rightarrow> (Aborted, out1)))"
        using p v [unfolded dim_def] sp [unfolded k_def]
        unfolding run_def collection_search_batch_def spans_small Let_def dim_def k_def knobs_def by simp
      note P = prepare_queries_result [where s = s and queries = queries and dim = dim and js = "[0..<nq]"]
      show ?thesis
      proof (cases "prepare_queries s queries dim [0..<nq]")
        case (Inl e)
        then obtain i e1 where e1: "prepare_query s (take dim (drop (i * dim) queries)) = Inl e1" "code e = code e1" using P by auto
        have "code e \<in> {InvalidArgument, DimensionMismatch}" using e1(2) prepare_query_error [OF e1(1)] by simp
        then show ?thesis using Inl run by (cases mem_views) (auto intro: error memory simp: status_ok_def)
      next
        case (Inr views)
        obtain r out' where r: "run_range mems ctxs s views knobs k [0..<nq] (replicate (kn_k knobs) default_neighbor) out = (r, out')" by fastforce
        show ?thesis
        proof (cases "mem_views \<and> mem_scratch")
          case True
          show ?thesis by (rule queries [OF p sp _ r]) (use P Inr run r True in \<open>auto split: outcome.splits\<close>)
        next
          case False
          then show ?thesis using run Inr by (intro memory) auto
        qed
      qed
    qed
  qed
qed

lemma query_finds:
  assumes "coll_inv s" "status_ok (search_params_validate params)" "prepare_query s query = Inr q" "vs_inv (sx_visited ctx)"
    "knobs = knobs_for params (st_size (cs_vectors s))"
  shows "\<not> mem \<and> (\<forall>out. run_query mem ctx s q knobs out = Thrown) \<or> (\<exists>res. finds mem ctx s q knobs res)"
proof -
  let ?h = "\<lambda>x. mk_scored (view_dist s q x) x"
  have "finds mem ctx s q knobs (map ?h xs)" if "\<forall>out. kn_k knobs \<le> length out \<longrightarrow>
      (\<exists>out'. run_query mem ctx s q knobs out = Returned (length xs, out') \<and> length out' = length out \<and> take (length xs) out' = map ?h xs)" for xs
    using that by (simp add: finds_def)
  then show ?thesis using search_answer [OF assms, of mem] by blast
qed

lemma finds_search:
  assumes "status_ok (search_params_validate params)" "prepare_query s query = Inr q" "knobs = knobs_for params (st_size (cs_vectors s))"
    "finds mem ctx s q knobs res"
  shows "collection_search True mem ctx s query params = Returned (Inr res)" "length res \<le> kn_k knobs"
proof -
  have "kn_k knobs \<le> length (replicate (kn_k knobs) default_neighbor)" by simp
  then obtain out' where r: "run_query mem ctx s q knobs (replicate (kn_k knobs) default_neighbor) = Returned (length res, out')"
    "length out' = kn_k knobs" "take (length res) out' = res"
    using assms(4) unfolding finds_def by (metis length_replicate)
  show "collection_search True mem ctx s query params = Returned (Inr res)"
    using collection_search_run [OF assms(1-3) r(1), of "\<lambda>x. x"] r(3) by simp
  show "length res \<le> kn_k knobs" using arg_cong [OF r(3), of length] r(2) by simp
qed

text \<open>
  C6. \<open>search_batch\<close> is \<open>search\<close> applied to every query: when it returns OK, the cells of query \<open>i\<close> hold
  the answer of the single query \<open>i\<close>, padded with the reserved id at infinite distance, and its count
  is the number of results; cells behind the batch are untouched. When it returns an error, nothing was
  written. It never aborts.
\<close>

theorem search_batch_is_search:
  assumes "coll_inv s" "\<forall>i. vs_inv (sx_visited (ctxs i))"
  shows "case collection_search_batch mem_views mem_scratch mems ctxs s queries nq params out of (res, out') \<Rightarrow>
    (case res of
       Returned st \<Rightarrow>
         if status_ok st
         then \<exists>found. cells_written (unat (sp_k params)) found {..<nq} out out' \<and>
           (\<forall>i < nq. collection_search True (mems i) (ctxs i) s
               (take (unat (cc_dim (cs_config s))) (drop (i * unat (cc_dim (cs_config s))) queries)) params = Returned (Inr (found i)) \<and>
             length (found i) \<le> unat (sp_k params))
         else out' = out \<and> code st \<in> {InvalidArgument, DimensionMismatch}
     | Thrown \<Rightarrow> \<not> mem_views \<or> \<not> mem_scratch \<or> (\<exists>i < nq. \<not> mems i)
     | Aborted \<Rightarrow> False)"
proof (cases rule: search_batch_cases [of mem_views mem_scratch mems ctxs s queries nq params out])
  case (queries views r out')
  let ?k = "unat (sp_k params)" and ?kn = "knobs_for params (st_size (cs_vectors s))"
  have k: "0 < ?k" using queries(1) by (simp add: search_params_validate_ok word_le_nat_alt)
  have each: "\<not> mems i \<and> (\<forall>out. run_query (mems i) (ctxs i) s (views ! i) ?kn out = Thrown) \<or>
      (\<exists>res. finds (mems i) (ctxs i) s (views ! i) ?kn res)" if "i < nq" for i
    by (rule query_finds [OF assms(1) queries(1) queries(3) [OF that] assms(2) [rule_format] refl])
  have each': "\<forall>i\<in>set [0..<nq]. (\<forall>out. run_query (mems i) (ctxs i) s (views ! i) ?kn out = Thrown) \<or>
      (\<exists>res. finds (mems i) (ctxs i) s (views ! i) ?kn res)" using each by fastforce
  have O: "r = Thrown \<or> r = Returned () \<and> (\<forall>i < nq. \<exists>res. finds (mems i) (ctxs i) s (views ! i) ?kn res)"
    using run_range_outcome [OF each', of "replicate (kn_k ?kn) default_neighbor" ?k out] queries(4) by auto
  show ?thesis
  proof (cases "r = Thrown")
    case True
    have "\<exists>i < nq. \<not> mems i"
    proof (rule ccontr)
      assume "\<not> (\<exists>i < nq. \<not> mems i)"
      then have "\<forall>i\<in>set [0..<nq]. \<exists>res. finds (mems i) (ctxs i) s (views ! i) ?kn res" using each by auto
      from run_range_returns [OF this, of "replicate (kn_k ?kn) default_neighbor" ?k out] show False using True queries(4) by simp
    qed
    then show ?thesis using queries(5) True by simp
  next
    case False
    then have r: "r = Returned ()" and "\<forall>i < nq. \<exists>res. finds (mems i) (ctxs i) s (views ! i) ?kn res" using O by auto
    then obtain found where "\<forall>i. i < nq \<longrightarrow> finds (mems i) (ctxs i) s (views ! i) ?kn (found i)" unfolding choice_iff' by blast
    then have f: "\<And>i. i < nq \<Longrightarrow> finds (mems i) (ctxs i) s (views ! i) ?kn (found i)" by blast
    have b: "\<forall>i\<in>set [0..<nq]. Suc i * ?k \<le> length (bo_ids out) \<and> Suc i * ?k \<le> length (bo_distances out)"
    proof
      fix i assume "i \<in> set [0..<nq]"
      then have "Suc i * ?k \<le> nq * ?k" by (intro mult_le_mono1) simp
      then show "Suc i * ?k \<le> length (bo_ids out) \<and> Suc i * ?k \<le> length (bo_distances out)" using queries(2) unfolding spans_ok_def by linarith
    qed
    have "cells_written ?k found (set [0..<nq]) out out'"
      by (rule run_range_written [OF k queries(4) [unfolded r] _ _ b]) (use f in auto)
    moreover have "set [0..<nq] = {..<nq}" by auto
    moreover have "length (found i) \<le> ?k" if "i < nq" for i
      using finds_search(2) [OF queries(1) queries(3) [OF that] refl f [OF that]] knobs_ok(2) [OF queries(1)] le_trans by blast
    ultimately have "cells_written ?k found {..<nq} out out' \<and> (\<forall>i < nq. collection_search True (mems i) (ctxs i) s
        (take (unat (cc_dim (cs_config s))) (drop (i * unat (cc_dim (cs_config s))) queries)) params = Returned (Inr (found i)) \<and> length (found i) \<le> ?k)"
      using finds_search(1) [OF queries(1) queries(3) refl f] by simp
    then show ?thesis using queries(5) r by auto
  qed
qed auto

theorem search_batch_is_search_witness:
  "\<exists>res out'. collection_search_batch True True (\<lambda>_. True) (\<lambda>_. new_search_context) (sample_empty Hnsw) [f32_one, f32_zero] 2 sample_params
      \<lparr>bo_ids = replicate 6 7, bo_distances = replicate 6 f32_one, bo_counts = [9, 9]\<rparr> = (res, out') \<and> res \<noteq> Thrown \<and> res \<noteq> Aborted"
proof -
  let ?out = "\<lparr>bo_ids = replicate 6 7, bo_distances = replicate 6 f32_one, bo_counts = [9, 9]\<rparr>"
  obtain res out' where r: "collection_search_batch True True (\<lambda>_. True) (\<lambda>_. new_search_context) (sample_empty Hnsw) [f32_one, f32_zero] 2
      sample_params ?out = (res, out')" by fastforce
  have "coll_inv (sample_empty Hnsw)" "\<forall>i :: nat. vs_inv (sx_visited ((\<lambda>_. new_search_context) i))"
    using sample_empty_facts(1) by (simp_all add: new_search_context_def)
  from search_batch_is_search [OF this, where mem_views = True and mem_scratch = True and mems = "\<lambda>_. True" and
      queries = "[f32_one, f32_zero]" and nq = 2 and params = sample_params and out = ?out]
  show ?thesis unfolding r prod.case by auto
qed

end
