(* ===== verification/VF_Steps.thy ===== *)
theory VF_Steps
  imports VF_Bytes
begin

text \<open>
  Steps of the code that reads and writes index files: a step returns a value, rejects with a status,
  throws or aborts. A check is the combinator \<open>reject_if\<close>, a span of a file \<open>span_of\<close> (a span outside
  the file is \<open>Aborted\<close>), an allocation \<open>need\<close>, an assertion \<open>check_that\<close>; \<open>then_read\<close> continues after a
  step that may itself reject. What a step ensures of its value is the predicate \<open>reads\<close>, and the
  collection \<open>vf_reads\<close> holds one introduction rule for each combinator.
\<close>

named_theorems vf_reads \<open>introduction rules of \<open>reads\<close>\<close>

subsection \<open>Steps that validate\<close>

definition reject_if :: "bool \<Rightarrow> status \<Rightarrow> 'a result outcome \<Rightarrow> 'a result outcome" where
  "reject_if c st k = (if c then Returned (Inl st) else k)"

definition need :: "bool \<Rightarrow> 'a outcome \<Rightarrow> 'a outcome" where
  "need mem k = (if mem then k else Thrown)"

definition check_that :: "bool \<Rightarrow> 'a outcome \<Rightarrow> 'a outcome" where
  "check_that c k = (if c then k else Aborted)"

definition then_read :: "'a result outcome \<Rightarrow> ('a \<Rightarrow> 'b result outcome) \<Rightarrow> 'b result outcome" where
  "then_read r k =
     (case r of Returned (Inl e) \<Rightarrow> Returned (Inl e) | Returned (Inr x) \<Rightarrow> k x | Thrown \<Rightarrow> Thrown | Aborted \<Rightarrow> Aborted)"

definition span_of :: "u8 list \<Rightarrow> nat \<Rightarrow> nat \<Rightarrow> (u8 list \<Rightarrow> 'a outcome) \<Rightarrow> 'a outcome" where
  "span_of bytes off n k = (if off + n \<le> length bytes then k (take n (drop off bytes)) else Aborted)"

subsection \<open>What a step ensures\<close>

definition reads :: "(status \<Rightarrow> bool) \<Rightarrow> ('a \<Rightarrow> bool) \<Rightarrow> 'a result outcome \<Rightarrow> bool" where
  "reads E Q r \<longleftrightarrow> (case r of Returned (Inl e) \<Rightarrow> E e | Returned (Inr x) \<Rightarrow> Q x | Thrown \<Rightarrow> True | Aborted \<Rightarrow> False)"

lemma reads_simps [simp]:
  "reads E Q (Returned (Inl e)) = E e" "reads E Q (Returned (Inr x)) = Q x" "reads E Q Thrown" "\<not> reads E Q Aborted"
  by (simp_all add: reads_def)

lemma reads_reject [vf_reads]: "(c \<Longrightarrow> E st) \<Longrightarrow> (\<not> c \<Longrightarrow> reads E Q k) \<Longrightarrow> reads E Q (reject_if c st k)"
  by (simp add: reject_if_def)

lemma reads_need [vf_reads]: "reads E Q k \<Longrightarrow> reads E Q (need mem k)"
  by (simp add: need_def)

lemma reads_check [vf_reads]: "c \<Longrightarrow> reads E Q k \<Longrightarrow> reads E Q (check_that c k)"
  by (simp add: check_that_def)

lemma reads_span [vf_reads]: "off + n \<le> length bytes \<Longrightarrow> reads E Q (k (take n (drop off bytes))) \<Longrightarrow> reads E Q (span_of bytes off n k)"
  by (simp add: span_of_def)

lemma reads_let [vf_reads]: "(\<And>x. x = t \<Longrightarrow> reads E Q (f x)) \<Longrightarrow> reads E Q (Let t f)"
  by simp

lemma reads_then: "reads E P r \<Longrightarrow> (\<And>x. P x \<Longrightarrow> reads E Q (k x)) \<Longrightarrow> reads E Q (then_read r k)"
  by (auto simp: then_read_def split: outcome.split sum.split)

lemma reads_then2:
  "reads E (\<lambda>(a, b). P a b) r \<Longrightarrow> (\<And>a b. P a b \<Longrightarrow> reads E Q (k a b)) \<Longrightarrow> reads E Q (then_read r (\<lambda>(a, b). k a b))"
  by (erule reads_then) auto

lemma reads_then4:
  "reads E (\<lambda>(a, b, c, d). P a b c d) r \<Longrightarrow> (\<And>a b c d. P a b c d \<Longrightarrow> reads E Q (k a b c d)) \<Longrightarrow>
     reads E Q (then_read r (\<lambda>(a, b, c, d). k a b c d))"
  by (erule reads_then) auto

lemma reads_mono: "reads E P r \<Longrightarrow> (\<And>e. E e \<Longrightarrow> E' e) \<Longrightarrow> (\<And>x. P x \<Longrightarrow> Q x) \<Longrightarrow> reads E' Q r"
  by (auto simp: reads_def split: outcome.splits sum.splits)

text \<open>When a step returns a value.\<close>

lemma accepts_simps:
  "reject_if c st k = Returned (Inr x) \<longleftrightarrow> \<not> c \<and> k = Returned (Inr x)"
  "need mem r = Returned y \<longleftrightarrow> mem \<and> r = Returned y"
  "check_that c r = Returned y \<longleftrightarrow> c \<and> r = Returned y"
  "span_of bytes off n f = Returned y \<longleftrightarrow> off + n \<le> length bytes \<and> f (take n (drop off bytes)) = Returned y"
  "then_read s g = Returned (Inr z) \<longleftrightarrow> (\<exists>x. s = Returned (Inr x) \<and> g x = Returned (Inr z))"
  by (auto simp: reject_if_def need_def check_that_def span_of_def then_read_def split: outcome.splits sum.splits)

lemma reads_accepted: "reads E Q r \<Longrightarrow> r = Returned (Inr x) \<Longrightarrow> Q x"
  by simp

end
