(* ===== verification/VF_GraphRoundTrip.thy ===== *)
theory VF_GraphRoundTrip
  imports VF_HnswIo
begin

text \<open>
  Saving and loading a graph are inverse (\<^verbatim>\<open>src/index/hnsw/hnsw_io.cpp\<close>): decoding the sections that the
  encoders write gives a graph with the same levels, link lists and entry point. The upper-level
  arena of the loaded graph is filled afresh; \<open>arena_room\<close> bounds how much of a chunk is wasted, so
  that a graph of less than \<open>2\<^sup>3\<^sup>1\<close> upper-level words always fits.
\<close>

subsection \<open>Arrays of little-endian words\<close>

definition word_bytes :: "nat \<Rightarrow> 'a::len word list \<Rightarrow> u8 list" where
  "word_bytes w vs = concat (map (le_bytes w) vs)"

lemma length_word_bytes [simp]: "length (word_bytes w vs) = length vs * w"
  by (induction vs) (simp_all add: word_bytes_def)

lemma uniform_le_bytes: "uniform w (map (le_bytes w) vs)"
  by (simp add: uniform_def)

lemma word_bytes_nth: "i < length vs \<Longrightarrow> j < w \<Longrightarrow> word_bytes w vs ! (i * w + j) = le_bytes w (vs ! i) ! j"
  using uniform_nth [OF uniform_le_bytes [of w vs], of i j] by (simp add: word_bytes_def)

lemma word_bytes_slice: "i < length vs \<Longrightarrow> map (\<lambda>j. word_bytes w vs ! (i * w + j)) [0..<w] = le_bytes w (vs ! i)"
  by (rule nth_equalityI) (simp_all add: word_bytes_nth)

lemma get_u32_le_from:
  assumes "(i + 1) * 4 \<le> length bytes"
  shows "get_u32 bytes i = Some (le_from 0 (map (\<lambda>j. bytes ! (i * 4 + j)) [0..<4]) 0)"
proof -
  have "[0..<4] = [0, 1, 2, 3 :: nat]" by (simp add: upt_rec)
  then show ?thesis using assms by (simp add: get_u32_def Let_def or.assoc)
qed

lemma get_u32_word_bytes: "i < length vs \<Longrightarrow> get_u32 (word_bytes 4 vs) i = Some (vs ! i)"
  using word_bytes_slice [of i vs 4] le_from_bytes [where 'a = 32, of 4 "vs ! i"] by (subst get_u32_le_from) simp_all

lemma get_u64_word_bytes: "i < length vs \<Longrightarrow> get_u64 (word_bytes 8 vs) i = Some (vs ! i)"
  using word_bytes_slice [of i vs 8] le_from_bytes [where 'a = 64, of 8 "vs ! i"] by (simp add: get_u64_def Let_def)

subsection \<open>The sections of a graph\<close>

lemma list_words_eq:
  assumes "length ids \<le> cap"
  shows "list_words ids cap = word_of_nat (length ids) # map word_of_nat ids @ replicate (cap - length ids) kEmptySlot"
proof -
  let ?f = "\<lambda>j buffer. buffer[1 + j := word_of_nat (ids ! j)]"
  have "fold ?f [0..<k] ((replicate (cap + 1) kEmptySlot)[0 := c]) = c # map word_of_nat (take k ids) @ replicate (cap - k) kEmptySlot"
    if "k \<le> length ids" for k and c :: u32
    using that
  proof (induction k)
    case (Suc k)
    then have "cap - k = Suc (cap - Suc k)" using assms by simp
    then show ?case using Suc by (simp add: take_Suc_conv_app_nth list_update_append)
  qed simp
  from this [of "length ids"] show ?thesis by (simp add: list_words_def)
qed

definition pairs_of :: "nat list \<Rightarrow> (nat \<times> nat) list" where
  "pairs_of levels = concat (map (\<lambda>i. map (\<lambda>l. (i, l)) [1..<Suc (levels ! i)]) [0..<length levels])"

fun upper_offsets :: "nat \<Rightarrow> nat list \<Rightarrow> nat \<Rightarrow> u64 list" where
  "upper_offsets m [] offset = []"
| "upper_offsets m (level # ls) offset =
     (if level = 0 then kNoUpperBlock # upper_offsets m ls offset
      else word_of_nat offset # upper_offsets m ls (offset + level * (1 + m)))"

definition list_blocks :: "hnsw_graph \<Rightarrow> (nat \<times> nat) list \<Rightarrow> u32 list list" where
  "list_blocks g ps = map (\<lambda>(i, l). list_words (the (link_map g (i, l))) (link_capacity g l)) ps"

definition sections_of :: "hnsw_graph \<Rightarrow> graph_sections" where
  "sections_of g =
     \<lparr>gs_levels = map word_of_nat (hg_levels g),
      gs_l0_links = word_bytes 4 (concat (list_blocks g (map (\<lambda>i. (i, 0)) [0..<node_count g]))),
      gs_upper_index = word_bytes 8 (upper_offsets (hg_m g) (hg_levels g) 0),
      gs_upper_links = word_bytes 4 (concat (list_blocks g (pairs_of (hg_levels g))))\<rparr>"

definition shape_of :: "hnsw_graph \<Rightarrow> graph_shape" where
  "shape_of g =
     \<lparr>gh_node_count = node_count g, gh_m = hg_m g, gh_max_level_cap = hg_max_level g,
      gh_entry_point = (if entry_valid (read_entry g) then he_id (read_entry g) else unat kEmptySlot),
      gh_entry_level = (if entry_valid (read_entry g) then he_level (read_entry g) else 0)\<rparr>"

lemma concat_nth:
  assumes "i < length xss" "j < length (xss ! i)"
  shows "concat xss ! (sum_list (map length (take i xss)) + j) = xss ! i ! j"
proof -
  have "concat xss = concat (take i xss) @ xss ! i @ concat (drop (Suc i) xss)"
    using id_take_nth_drop [OF assms(1)] by (metis concat.simps(2) concat_append)
  then show ?thesis using assms(2) by (simp add: nth_append length_concat)
qed

lemma pairs_of_nth:
  assumes "i < length levels" "1 \<le> l" "l \<le> levels ! i"
  shows "pairs_of levels ! (sum_list (take i levels) + (l - 1)) = (i, l)"
proof -
  let ?x = "map (\<lambda>i. map (\<lambda>l. (i, l)) [1..<Suc (levels ! i)]) [0..<length levels]"
  have "map length (take i ?x) = take i levels"
    using assms(1) by (intro nth_equalityI) (simp_all del: upt_Suc)
  then show ?thesis
    using concat_nth [of i ?x "l - 1"] assms by (simp add: pairs_of_def del: upt_Suc)
qed

lemma length_pairs_of: "length (pairs_of levels) = sum_list levels"
proof -
  have "map length (map (\<lambda>i. map (\<lambda>l. (i, l)) [1..<Suc (levels ! i)]) [0..<length levels]) = levels"
    by (intro nth_equalityI) (simp_all del: upt_Suc)
  then show ?thesis unfolding pairs_of_def length_concat by simp
qed

lemma pairs_of_levels: "(i, l) \<in> set (pairs_of levels) \<Longrightarrow> i < length levels \<and> 1 \<le> l \<and> l \<le> levels ! i"
  by (auto simp: pairs_of_def)

lemma upper_offsets_nth:
  "i < length levels \<Longrightarrow> upper_offsets m levels off ! i =
     (if levels ! i = 0 then kNoUpperBlock else word_of_nat (off + sum_list (take i levels) * (1 + m)))"
proof (induction m levels off arbitrary: i rule: upper_offsets.induct)
  case (2 m level ls off)
  then show ?case by (cases i) (auto simp: algebra_simps)
qed simp

lemma length_upper_offsets [simp]: "length (upper_offsets m levels off) = length levels"
  by (induction m levels off rule: upper_offsets.induct) simp_all

text \<open>Every list block of a graph has the stride of its level.\<close>

lemma list_block_uniform:
  assumes "hg_inv g" "\<forall>(i, l)\<in>set ps. i < node_count g \<and> l \<le> hg_levels g ! i \<and> link_capacity g l = cap"
  shows "uniform (cap + 1) (list_blocks g ps)"
proof -
  have "length (list_words (the (link_map g (i, l))) (link_capacity g l)) = cap + 1" if p: "(i, l) \<in> set ps" for i l
  proof -
    obtain xs where "link_map g (i, l) = Some xs"
      using glinks.list_of_node [OF assms(1), of i l] assms(2) p by (auto simp: node_count_def)
    then show ?thesis using glinks.cap_law [OF assms(1)] assms(2) p by (auto simp: list_words_eq)
  qed
  then show ?thesis by (auto simp: uniform_def list_blocks_def)
qed

lemma link_capacity_level: "hg_inv g \<Longrightarrow> link_capacity g l = (if l = 0 then 2 * hg_m g else hg_m g)"
  using params_okD(2) [of g] by (simp add: link_capacity_def hg_inv_def layout_ok_def)

subsection \<open>Decoding one list\<close>

lemma decode_slots_exact:
  assumes "\<And>j. j < cap \<Longrightarrow> get_u32 sect (first + 1 + j) = Some (if j < length ids then word_of_nat (ids ! j) else kEmptySlot)"
    "length (gs_levels s) = n" "n \<le> kMaxVectorsPerCollection" "list_ok (lv s) node l ids" "length ids \<le> cap"
    "k \<le> cap" "length stamp = n" "\<forall>x\<in>set stamp. x \<le> number" "set (take k ids) = stamps stamp number"
  shows "\<exists>stamp'. decode_slots s sect name n node l first (length ids) number [k..<cap] stamp (take k ids) = Returned (Inr (stamp', ids)) \<and>
    length stamp' = n \<and> (\<forall>x\<in>set stamp'. x \<le> number)"
  using assms(6-9)
proof (induction "cap - k" arbitrary: k stamp)
  case 0
  then show ?case using assms(5) by simp
next
  case (Suc d)
  have k: "k < cap" "[k..<cap] = k # [Suc k..<cap]" "d = cap - Suc k" "Suc k \<le> cap" using Suc.hyps(2) upt_conv_Cons [of k cap] by auto
  show ?case
  proof (cases "k < length ids")
    case False
    then have e: "take k ids = ids" "take (Suc k) ids = ids" by simp_all
    have "decode_slots s sect name n node l first (length ids) number (k # [Suc k..<cap]) stamp ids =
        decode_slots s sect name n node l first (length ids) number [Suc k..<cap] stamp ids"
      using assms(1) [OF k(1)] False by (simp add: Let_def)
    moreover have "set (take (Suc k) ids) = stamps stamp number" using Suc.prems(4) unfolding e .
    ultimately show ?thesis using Suc.hyps(1) [OF k(3,4) Suc.prems(2,3)] unfolding k(2) e by simp
  next
    case True
    let ?x = "ids ! k"
    have "?x < length (lv s)" "l \<le> lv s ! ?x" "?x \<noteq> node" using assms(4) nth_mem [OF True] by (auto simp: list_ok_def simp del: nth_map)
    then have x: "?x < n" "?x \<noteq> node" "l \<le> unat (gs_levels s ! ?x)" using assms(2) by simp_all
    have u: "unat (word_of_nat ?x :: u32) = ?x"
      using x(1) assms(3) by (simp add: unat_of_nat take_bit_nat_eq_self kMaxVectorsPerCollection_def kInvalidInternalId_def)
    have "?x \<notin> set (take k ids)" using assms(4) True by (auto simp: list_ok_def in_set_conv_nth distinct_conv_nth)
    then have st: "stamp ! ?x \<noteq> number" using Suc.prems(4) x(1) Suc.prems(2) by (auto simp: stamps_def)
    have "decode_slots s sect name n node l first (length ids) number (k # [Suc k..<cap]) stamp (take k ids) =
        decode_slots s sect name n node l first (length ids) number [Suc k..<cap] (stamp[?x := number]) (take (Suc k) ids)"
      using assms(1) [OF k(1)] True x st u by (simp add: Let_def take_Suc_conv_app_nth)
    moreover have "length (stamp[?x := number]) = n" "\<forall>y\<in>set (stamp[?x := number]). y \<le> number"
      using Suc.prems(2,3) set_update_subset_insert [of stamp ?x number] by auto
    moreover have "set (take (Suc k) ids) = stamps (stamp[?x := number]) number"
      using Suc.prems(2,4) x(1) True by (auto simp: stamps_def nth_list_update take_Suc_conv_app_nth)
    ultimately show ?thesis using Suc.hyps(1) [OF k(3,4)] unfolding k(2) by metis
  qed
qed

definition saved :: "hnsw_graph \<Rightarrow> bool" where
  "saved g \<longleftrightarrow> graph_ok g \<and> hg_max_level g < 256 \<and> hg_m g < 2 ^ 31 \<and> node_count g \<le> kMaxVectorsPerCollection"

lemma saved_levels: "saved g \<Longrightarrow> lv (sections_of g) = hg_levels g" "saved g \<Longrightarrow> length (gs_levels (sections_of g)) = node_count g"
proof -
  assume g: "saved g"
  have "unat (word_of_nat v :: u8) = v" if "v \<in> set (hg_levels g)" for v
    using g that by (auto simp: saved_def graph_ok_def hg_inv_def layout_ok_def unat_of_nat take_bit_nat_eq_self)
  then show "lv (sections_of g) = hg_levels g" by (simp add: sections_of_def map_idI)
  show "length (gs_levels (sections_of g)) = node_count g" by (simp add: sections_of_def node_count_def)
qed

text \<open>Where a list lies in its section, as \<open>decode\<close> computes it.\<close>

definition list_first :: "graph_sections \<Rightarrow> graph_shape \<Rightarrow> nat \<Rightarrow> nat \<Rightarrow> nat" where
  "list_first s sh i l = (if l = 0 then i * (2 * gh_m sh + 1) else block_start s sh i + (l - 1) * (gh_m sh + 1))"

definition list_sect :: "graph_sections \<Rightarrow> nat \<Rightarrow> u8 list" where
  "list_sect s l = (if l = 0 then gs_l0_links s else gs_upper_links s)"

lemma saved_list_words:
  assumes g: "saved g" and v: "i < node_count g" "l \<le> hg_levels g ! i" and ids: "link_map g (i, l) = Some ids" and j: "j \<le> link_capacity g l"
  shows "get_u32 (list_sect (sections_of g) l) (list_first (sections_of g) (shape_of g) i l + j) = Some (list_words ids (link_capacity g l) ! j)"
proof -
  have inv: "hg_inv g" using g by (simp add: saved_def graph_ok_def)
  note cap = link_capacity_level [OF inv, of 0, simplified] link_capacity_level [OF inv]
  show ?thesis
  proof (cases "l = 0")
    case True
    let ?ps = "map (\<lambda>i. (i, 0)) [0..<node_count g]"
    have un: "uniform (link_capacity g 0 + 1) (list_blocks g ?ps)" by (rule list_block_uniform [OF inv]) auto
    have "list_blocks g ?ps ! i ! j = concat (list_blocks g ?ps) ! (i * (link_capacity g 0 + 1) + j)"
      using v j True by (intro uniform_nth [OF un]) (simp_all add: list_blocks_def)
    moreover have "list_blocks g ?ps ! i = list_words ids (link_capacity g 0)" using v ids True by (simp add: list_blocks_def)
    moreover have "i * (link_capacity g 0 + 1) + j < length (concat (list_blocks g ?ps))"
      using mult_le_mono1 [of "Suc i" "node_count g" "link_capacity g 0 + 1"] v j True unfolding uniform_length [OF un] by (simp add: list_blocks_def)
    ultimately show ?thesis
      using True cap(1) by (simp add: list_sect_def list_first_def sections_of_def shape_of_def get_u32_word_bytes)
  next
    case False
    let ?ps = "pairs_of (hg_levels g)" let ?k = "sum_list (take i (hg_levels g)) + (l - 1)"
    have k: "?ps ! ?k = (i, l)" using pairs_of_nth [of i "hg_levels g" l] v False by (simp add: node_count_def)
    have "sum_list (take i (hg_levels g)) + hg_levels g ! i + sum_list (drop (Suc i) (hg_levels g)) = sum_list (hg_levels g)"
      using v(1) id_take_nth_drop [of i "hg_levels g"] by (metis (no_types, lifting) add.assoc node_count_def sum_list.Cons sum_list_append)
    then have len: "?k < length ?ps" using v(2) False by (simp add: length_pairs_of)
    have un: "uniform (link_capacity g l + 1) (list_blocks g ?ps)"
    proof (rule list_block_uniform [OF inv], clarify)
      fix a b assume "(a, b) \<in> set ?ps"
      then show "a < node_count g \<and> b \<le> hg_levels g ! a \<and> link_capacity g b = link_capacity g l"
        using pairs_of_levels [of a b "hg_levels g"] cap(2) [of b] cap(2) [of l] False by (simp add: node_count_def)
    qed
    have "list_blocks g ?ps ! ?k ! j = concat (list_blocks g ?ps) ! (?k * (link_capacity g l + 1) + j)"
      using len j by (intro uniform_nth [OF un]) (simp_all add: list_blocks_def)
    moreover have "list_blocks g ?ps ! ?k = list_words ids (link_capacity g l)" using len k ids by (simp add: list_blocks_def)
    moreover have "?k * (link_capacity g l + 1) + j < length (concat (list_blocks g ?ps))"
      using mult_le_mono1 [of "Suc ?k" "length ?ps" "link_capacity g l + 1"] len j unfolding uniform_length [OF un] by (simp add: list_blocks_def)
    moreover have "list_first (sections_of g) (shape_of g) i l = ?k * (link_capacity g l + 1)"
      using False cap(2) [of l] saved_levels(1) [OF g] by (cases l) (simp_all add: list_first_def block_start_def shape_of_def algebra_simps)
    ultimately show ?thesis using False by (simp add: list_sect_def sections_of_def get_u32_word_bytes)
  qed
qed


subsection \<open>Room in the arena\<close>

text \<open>Every closed chunk of the arena is at least half full.\<close>

definition arena_room :: "hnsw_graph \<Rightarrow> bool" where
  "arena_room g \<longleftrightarrow>
     hg_arena_shift g = 16 \<and> hg_max_level g * hg_stride_upper g \<le> 2 ^ 15 \<and>
     (length (hg_arena_chunks g) - 1) * 2 ^ 15 + (if hg_arena_chunks g = [] then 0 else hg_arena_used g) \<le> sum_list (hg_levels g) * hg_stride_upper g"

lemma arena_room_add:
  assumes inv: "hg_inv g" and room: "arena_room g" and lvl: "level \<le> hg_max_level g" and n: "node_count g < kMaxVectorsPerCollection"
    and total: "(sum_list (hg_levels g) + level) * hg_stride_upper g < 2 ^ 31"
  obtains g' where "add_node True True g level = (Returned ok_status, g')" "arena_room g'" "hg_stride_upper g' = hg_stride_upper g"
proof -
  let ?c = "length (hg_arena_chunks g)" and ?w = "level * hg_stride_upper g" and ?t = "sum_list (hg_levels g) * hg_stride_upper g"
  have lay: "layout_ok g" and ar: "arena_ok g" using inv by (simp_all add: hg_inv_def layout_ok_def)
  have words: "hg_arena_chunk_words g = 2 ^ 16" using params_okD(7) [OF lay] room by (simp add: arena_room_def)
  have none: "hg_arena_chunks g = [] \<Longrightarrow> hg_arena_used g = 2 ^ 16" using ar words by (simp add: arena_ok_def)
  have w: "?w \<le> 2 ^ 15" using room le_trans [OF mult_le_mono1 [OF lvl, of "hg_stride_upper g"]] by (simp add: arena_room_def)
  have tt: "?t + ?w < 2 ^ 31" using total by (simp add: add_mult_distrib)
  have used: "2 ^ 15 \<le> hg_arena_used g" if "opens_chunk g level" using that w words by (simp add: opens_chunk_def)
  have filled: "?c * 2 ^ 15 \<le> ?t" if "opens_chunk g level"
    using used [OF that] room by (cases "hg_arena_chunks g") (simp_all add: arena_room_def)
  have fits: "?c < 2 ^ (32 - hg_arena_shift g)" if "opens_chunk g level"
    using filled [OF that] tt room by (simp add: arena_room_def)
  obtain res g' where a: "add_node True True g level = (res, g')" by fastforce
  show thesis
    using a
  proof (cases rule: add_node_cases)
    case fail
    have "\<not> (opens_chunk g level \<and> 2 ^ (32 - hg_arena_shift g) \<le> ?c)" using fits by auto
    then have "\<exists>g1. add_node True True g level = (Returned ok_status, g1)"
      using lvl n unfolding add_node_def Let_def opens_chunk_def [symmetric] node_count_def by (auto simp: not_le)
    then show ?thesis using a fail(2) by auto
  next
    case added
    obtain l0 ar us ls up where g': "g' = g\<lparr>hg_l0_chunks := l0, hg_arena_chunks := ar, hg_arena_used := us, hg_levels := ls, hg_upper := up\<rparr>"
      using added(10) by blast
    note P = add_node_params [OF g']
    have closed: "hg_arena_chunks g \<noteq> []" if "\<not> opens_chunk g level" "0 < level"
      using that none words params_okD(12) [OF lay] by (auto simp: opens_chunk_def)
    have "(length (hg_arena_chunks g') - 1) * 2 ^ 15 + (if hg_arena_chunks g' = [] then 0 else hg_arena_used g') \<le> ?t + ?w"
    proof (cases "opens_chunk g level")
      case True
      then show ?thesis using filled added(7,8) by (simp add: opens_chunk_def)
    next
      case False
      then show ?thesis using closed [OF False] room added(7,8) by (auto simp: arena_room_def split: if_splits)
    qed
    then have "arena_room g'" using room added(5) P by (simp add: arena_room_def add_mult_distrib)
    then show ?thesis using that a added(1) P(3) by blast
  qed
qed

lemma set_links_arena:
  assumes "hg_inv g" "set_links g i l ids = Some g'" "(i, l) \<in> dom (link_map g)" "length ids \<le> link_capacity g l"
  shows "arena_room g' = arena_room g" "hg_stride_upper g' = hg_stride_upper g"
proof -
  have "valid_list g i l" using assms(3) link_map_eq [OF assms(1), of i l] by (auto split: if_splits)
  from set_links_ok [OF assms(1) this assms(4)] have "same_shape g g'" using assms(2) by auto
  then show "arena_room g' = arena_room g" "hg_stride_upper g' = hg_stride_upper g"
    by (auto simp: arena_room_def same_shape_def)
qed


subsection \<open>Decoding all lists\<close>

text \<open>The graph under construction holds the lists of \<open>g\<close> that were decoded: those in \<open>D\<close>.\<close>

definition rebuilt :: "hnsw_graph \<Rightarrow> nat \<Rightarrow> (nat \<times> nat) set \<Rightarrow> hnsw_graph \<Rightarrow> bool" where
  "rebuilt g i D g' \<longleftrightarrow>
     loading (sections_of g) (shape_of g) i g' \<and> arena_room g' \<and> hg_stride_upper g' = 1 + hg_m g \<and>
     (\<forall>p\<in>D. link_map g' p = link_map g p)"

lemma decode_lists_exact:
  assumes g: "saved g" and i: "i < node_count g"
    and st: "rebuilt g (Suc i) D g'" "length stamp = node_count g" "\<forall>x\<in>set stamp. x \<le> number" and l: "l \<le> Suc (hg_levels g ! i)"
    and D: "D \<subseteq> {(j, k). j < Suc i}"
  shows "\<exists>g'' stamp' number'.
    decode_lists (sections_of g) (shape_of g) i (block_start (sections_of g) (shape_of g) i) [l..<Suc (hg_levels g ! i)] g' stamp number =
      Returned (Inr (g'', stamp', number')) \<and>
    rebuilt g (Suc i) (D \<union> {i} \<times> {l..hg_levels g ! i}) g'' \<and> length stamp' = node_count g \<and> (\<forall>x\<in>set stamp'. x \<le> number')"
  using st l D
proof (induction "Suc (hg_levels g ! i) - l" arbitrary: l D g' stamp number)
  case 0
  then have "{l..hg_levels g ! i} = {}" "[l..<Suc (hg_levels g ! i)] = []" by simp_all
  then show ?case using 0 by (simp del: upt_Suc)
next
  case (Suc d)
  let ?s = "sections_of g" and ?sh = "shape_of g" and ?top = "hg_levels g ! i" and ?cap = "link_capacity g l"
  let ?sect = "list_sect ?s l" and ?first = "list_first ?s ?sh i l" and ?name = "if l = 0 then ''L0_LINKS'' else ''UPPER_LINKS''"
  have l: "l \<le> ?top" "[l..<Suc ?top] = l # [Suc l..<Suc ?top]" using Suc.hyps(2) upt_conv_Cons [of l "Suc ?top"] by simp_all
  have inv: "hg_inv g" "links_wf (hg_levels g) (link_map g)" "node_count g \<le> kMaxVectorsPerCollection" using g by (simp_all add: saved_def graph_ok_def)
  obtain ids where ids: "link_map g (i, l) = Some ids" using glinks.list_of_node [OF inv(1)] i l(1) by (auto simp: node_count_def)
  have cap: "length ids \<le> ?cap" "?cap = (if l = 0 then 2 * gh_m ?sh else gh_m ?sh)"
    using glinks.cap_law [OF inv(1) ids] link_capacity_level [OF inv(1), of l] by (simp_all add: shape_of_def)
  have nodes: "gh_node_count ?sh = node_count g" by (simp add: shape_of_def)
  note W = saved_list_words [OF g i l(1) ids] and E = list_words_eq [OF cap(1)]
  have lo: "list_ok (lv ?s) i l ids" using inv(2) ids saved_levels(1) [OF g] by (auto simp: links_wf_def list_ok_def)
  have "?cap < 2 ^ 32" using cap(2) g by (simp add: saved_def shape_of_def)
  then have cv: "get_u32 ?sect ?first = Some (word_of_nat (length ids))" "unat (word_of_nat (length ids) :: u32) = length ids"
    using W [of 0] E cap(1) by (simp_all add: unat_of_nat take_bit_nat_eq_self)
  have slot: "get_u32 ?sect (?first + 1 + j) = Some (if j < length ids then word_of_nat (ids ! j) else kEmptySlot)" if "j < ?cap" for j
    using W [of "1 + j"] that E by (simp add: nth_append add.assoc)
  have "stamp ! x \<le> number" if "x < length stamp" for x using Suc.prems(3) that nth_mem by blast
  then have none: "set (take 0 ids) = stamps stamp (Suc number)" "\<forall>x\<in>set stamp. x \<le> Suc number" using Suc.prems(3) by (fastforce simp: stamps_def)+
  obtain stamp1 where s1: "decode_slots ?s ?sect ?name (node_count g) i l ?first (length ids) (Suc number) [0..<?cap] stamp [] = Returned (Inr (stamp1, ids))"
    "length stamp1 = node_count g" "\<forall>x\<in>set stamp1. x \<le> Suc number"
    using decode_slots_exact [where k = 0 and sect = ?sect and first = ?first and ids = ids and s = ?s and name = ?name, OF slot saved_levels(2) [OF g] inv(3) lo cap(1) le0 Suc.prems(2) none(2,1)]
    by auto
  have L: "hg_inv g'" "hg_levels g' = take (Suc i) (hg_levels g)" "hg_m g' = hg_m g"
    using Suc.prems(1) saved_levels(1) [OF g] by (simp_all add: rebuilt_def loading_def shape_of_def)
  have dom: "(i, l) \<in> dom (link_map g')" using glinks.dom_law [OF L(1), of i l] L(2) i l(1) by (simp add: node_count_def)
  have cap': "length ids \<le> link_capacity g' l" using cap link_capacity_level [OF L(1), of l] L(3) by (simp add: shape_of_def split: if_splits)
  obtain g1 where g1: "set_links g' i l ids = Some g1" "hg_inv g1" "hg_levels g1 = hg_levels g'" "graph_frame g1 = graph_frame g'"
    "link_map g1 = (link_map g')((i, l) \<mapsto> ids)" using glinks.put_law [OF L(1) dom cap'] by blast
  have "links_wf (lv ?s) (link_map g1)"
    using Suc.prems(1) lo unfolding g1(5) links_wf_def rebuilt_def loading_def list_ok_def by (auto simp del: nth_map)
  then have "rebuilt g (Suc i) (insert (i, l) D) g1"
    using Suc.prems(1) g1 ids set_links_arena [OF L(1) g1(1) dom cap'] by (auto simp: rebuilt_def loading_def graph_frame_def)
  moreover have "insert (i, l) D \<subseteq> {(j, k). j < Suc i}" using Suc.prems(5) by auto
  moreover have "insert (i, l) D \<union> {i} \<times> {Suc l..?top} = D \<union> {i} \<times> {l..?top}" using l(1) by auto
  moreover have "decode_lists ?s ?sh i (block_start ?s ?sh i) (l # [Suc l..<Suc ?top]) g' stamp number =
      decode_lists ?s ?sh i (block_start ?s ?sh i) [Suc l..<Suc ?top] g1 stamp1 (Suc number)"
    unfolding decode_lists.simps Let_def list_sect_def [symmetric] list_first_def [symmetric] cap(2) [symmetric]
    using cv s1(1) g1(1) cap(1) nodes by (simp del: upt_Suc)
  ultimately show ?case
    using Suc.hyps(1) [of "Suc l" "insert (i, l) D" g1 stamp1 "Suc number"] Suc.hyps(2) s1(2,3) l by simp
qed


lemma decode_nodes_exact:
  assumes g: "saved g" "sum_list (hg_levels g) * (hg_m g + 1) < 2 ^ 31" and i: "i \<le> node_count g"
    and st: "rebuilt g i {(j, l). j < i \<and> l \<le> hg_levels g ! j} g'" "length stamp = node_count g" "\<forall>x\<in>set stamp. x \<le> number"
  shows "\<exists>g''. decode_nodes (\<lambda>_. (True, True)) (sections_of g) (shape_of g) [i..<node_count g] (block_start (sections_of g) (shape_of g) i) g' stamp number =
      Returned (Inr g'') \<and> rebuilt g (node_count g) {(j, l). j < node_count g \<and> l \<le> hg_levels g ! j} g''"
  using i st
proof (induction "node_count g - i" arbitrary: i g' stamp number)
  case 0
  then show ?case by simp
next
  case (Suc d)
  let ?s = "sections_of g" and ?sh = "shape_of g" and ?lv = "hg_levels g ! i"
  have i: "i < node_count g" "[i..<node_count g] = i # [Suc i..<node_count g]" using Suc.hyps(2) upt_conv_Cons [of i "node_count g"] by simp_all
  have inv: "hg_inv g" "hg_m g < 2 ^ 31" "hg_max_level g < 256" using g(1) by (simp_all add: saved_def graph_ok_def)
  have len: "length (gs_levels ?s) = node_count g" "unat (gs_levels ?s ! i) = ?lv"
    using saved_levels [OF g(1)] i(1) nth_map [of i "gs_levels ?s" unat] by simp_all
  have L: "hg_inv g'" "hg_levels g' = take i (hg_levels g)" "links_wf (hg_levels g) (link_map g')" "hg_m g' = hg_m g" "hg_max_level g' = hg_max_level g"
    "hg_entry g' = pack_entry no_entry" "arena_room g'" "hg_stride_upper g' = 1 + hg_m g"
    using Suc.prems(2) saved_levels(1) [OF g(1)] by (simp_all add: rebuilt_def loading_def shape_of_def)
  have i': "i < length (hg_levels g)" using i(1) by (simp add: node_count_def)
  have le: "(sum_list (take i (hg_levels g)) + ?lv) * (1 + hg_m g) < 2 ^ 31"
  proof -
    have "sum_list (take (Suc i) (hg_levels g)) \<le> sum_list (hg_levels g)"
      using sum_list_append [of "take (Suc i) (hg_levels g)" "drop (Suc i) (hg_levels g)"] by simp
    then have "sum_list (take (Suc i) (hg_levels g)) * (hg_m g + 1) \<le> sum_list (hg_levels g) * (hg_m g + 1)" by (rule mult_le_mono1)
    then show ?thesis using g(2) i' by (simp add: take_Suc_conv_app_nth)
  qed
  have off: "get_u64 (gs_upper_index ?s) i = Some (if ?lv = 0 then kNoUpperBlock else word_of_nat (block_start ?s ?sh i))"
    using i' saved_levels(1) [OF g(1)] by (simp add: sections_of_def get_u64_word_bytes upper_offsets_nth block_start_def shape_of_def)
  have "block_start ?s ?sh i < 2 ^ 31" using le saved_levels(1) [OF g(1)] by (simp add: block_start_def shape_of_def algebra_simps)
  then have canon: "(if ?lv = 0 then (if ?lv = 0 then kNoUpperBlock else word_of_nat (block_start ?s ?sh i)) \<noteq> kNoUpperBlock
      else unat (if ?lv = 0 then kNoUpperBlock else word_of_nat (block_start ?s ?sh i) :: u64) \<noteq> block_start ?s ?sh i) = False"
    by (simp add: unat_of_nat take_bit_nat_eq_self)
  have "?lv \<le> hg_max_level g'" using inv(1) L(5) i' nth_mem [OF i'] by (simp add: hg_inv_def layout_ok_def)
  moreover have nc: "node_count g' = i" using L(2) i' by (simp add: node_count_def)
  moreover have "i < kMaxVectorsPerCollection" using i(1) g(1) by (simp add: saved_def)
  ultimately obtain g1 where g1: "add_node True True g' ?lv = (Returned ok_status, g1)" "arena_room g1" "hg_stride_upper g1 = 1 + hg_m g"
    using arena_room_add [OF L(1,7), of ?lv] L(2,8) le by auto
  have a: "hg_inv g1" "hg_levels g1 = hg_levels g' @ [?lv]" "graph_frame g1 = graph_frame g'"
    "link_map g1 = (\<lambda>(j, l). if j = i then if l \<le> ?lv then Some [] else None else link_map g' (j, l))"
    using add_node_adds [OF L(1), of ?lv True True] g1(1) nc by (simp_all add: adds_node_def)
  have "links_wf (hg_levels g) (link_map g1)" using L(3) unfolding a(4) links_wf_def by (auto split: if_splits)
  moreover have "hg_levels g1 = take (Suc i) (hg_levels g)" using a(2) L(2) i' by (simp add: take_Suc_conv_app_nth)
  ultimately have r1: "rebuilt g (Suc i) {(j, l). j < i \<and> l \<le> hg_levels g ! j} g1"
    using Suc.prems(2) a g1(2,3) saved_levels(1) [OF g(1)] by (auto simp: rebuilt_def loading_def graph_frame_def)
  have sub: "{(j, l). j < i \<and> l \<le> hg_levels g ! j} \<subseteq> {(j, k). j < Suc i}" by auto
  obtain g2 stamp2 number2 where g2: "decode_lists ?s ?sh i (block_start ?s ?sh i) [0..<Suc ?lv] g1 stamp number = Returned (Inr (g2, stamp2, number2))"
    "rebuilt g (Suc i) ({(j, l). j < i \<and> l \<le> hg_levels g ! j} \<union> {i} \<times> {0..?lv}) g2" "length stamp2 = node_count g" "\<forall>x\<in>set stamp2. x \<le> number2"
    using decode_lists_exact [OF g(1) i(1) r1 Suc.prems(3,4) le0 sub] by blast
  have "{(j, l). j < i \<and> l \<le> hg_levels g ! j} \<union> {i} \<times> {0..?lv} = {(j, l). j < Suc i \<and> l \<le> hg_levels g ! j}" by (auto simp: less_Suc_eq)
  then have r2: "rebuilt g (Suc i) {(j, l). j < Suc i \<and> l \<le> hg_levels g ! j} g2" using g2(2) by simp
  have nx: "(if ?lv > 0 then block_start ?s ?sh i + ?lv * (gh_m ?sh + 1) else block_start ?s ?sh i) = block_start ?s ?sh (Suc i)"
    using block_start_Suc [of i ?s ?sh] i len by simp
  have "decode_nodes (\<lambda>_. (True, True)) ?s ?sh (i # [Suc i..<node_count g]) (block_start ?s ?sh i) g' stamp number =
      decode_nodes (\<lambda>_. (True, True)) ?s ?sh [Suc i..<node_count g] (block_start ?s ?sh (Suc i)) g2 stamp2 number2"
    unfolding decode_nodes.simps Let_def off option.case len(2) canon if_False fst_conv snd_conv g1(1) prod.case outcome.case g2(1) sum.case nx by simp
  then show ?case using Suc.hyps(1) [OF _ _ r2 g2(3,4)] Suc.hyps(2) i by simp
qed


subsection \<open>Decoding the graph\<close>

lemma implied_words_total:
  "w + sum_list (map unat bs) * (m + 1) < 2 ^ 64 \<Longrightarrow> implied_words bs m w = Some (w + sum_list (map unat bs) * (m + 1))"
proof (induction bs arbitrary: w)
  case (Cons b bs)
  let ?b = "unat b * (m + 1)"
  have sum: "w + sum_list (map unat (b # bs)) * (m + 1) = w + ?b + sum_list (map unat bs) * (m + 1)" by (simp add: algebra_simps)
  have "checked_mul_size (unat b) (m + 1) = Some ?b" "checked_add w ?b = Some (w + ?b)"
    using Cons.prems unfolding sum by (auto simp: checked_mul_size_Some checked_add_def)
  then show ?case using Cons.IH [of "w + ?b"] Cons.prems unfolding sum by simp
qed simp

lemma check_levels_total: "\<forall>b\<in>set bs. unat b \<le> cap \<Longrightarrow> \<exists>t. check_levels cap i bs highest = Inr t"
  by (induction bs arbitrary: i highest) auto

lemma saved_sized: "saved g \<Longrightarrow> sized (sections_of g) (shape_of g)"
proof -
  assume g: "saved g"
  then have inv: "hg_inv g" by (simp add: saved_def graph_ok_def)
  have u0: "uniform (2 * hg_m g + 1) (list_blocks g (map (\<lambda>i. (i, 0)) [0..<node_count g]))"
    using link_capacity_level [OF inv, of 0] by (intro list_block_uniform [OF inv]) auto
  have u1: "uniform (hg_m g + 1) (list_blocks g (pairs_of (hg_levels g)))"
    using link_capacity_level [OF inv] pairs_of_levels [of _ _ "hg_levels g"]
    by (intro list_block_uniform [OF inv]) (fastforce simp: node_count_def)
  show ?thesis
    unfolding sized_def saved_levels(1) [OF g] saved_levels(2) [OF g]
    using uniform_length [OF u0] uniform_length [OF u1]
    by (simp add: sections_of_def shape_of_def list_blocks_def length_pairs_of node_count_def)
qed

text \<open>What the parameters of a collection guarantee of its graph.\<close>

definition storable :: "hnsw_graph \<Rightarrow> bool" where
  "storable g \<longleftrightarrow>
     graph_ok g \<and> entry_ok g {} \<and> hg_m g \<le> 512 \<and> hg_max_level g \<le> 32 \<and> node_count g \<le> kMaxVectorsPerCollection \<and>
     sum_list (hg_levels g) * (hg_m g + 1) < 2 ^ 31"

lemma fresh_graph:
  assumes "2 \<le> m" "m \<le> 512" "1 \<le> cap" "cap \<le> 32"
  obtains g0 where "graph_create \<lparr>go_m = m, go_max_level = cap, go_nodes_per_chunk = 0, go_arena_chunk_words = 0\<rparr> = Inr g0"
    "arena_room g0" "hg_stride_upper g0 = 1 + m"
proof -
  let ?o = "\<lparr>go_m = m, go_max_level = cap, go_nodes_per_chunk = 0, go_arena_chunk_words = 0\<rparr>"
  have sb: "has_single_bit (2 ^ 16)" by (rule has_single_bit_of_power)
  have w: "cap * (1 + m) \<le> 32 * 513" using assms by (intro mult_le_mono) simp_all
  then have "\<exists>npc. graph_create ?o = Inr (make_graph ?o npc (2 ^ 16))"
    using assms sb unfolding graph_create_def by (auto simp: Let_def kDefaultArenaChunkWords_def)
  then obtain npc where c: "graph_create ?o = Inr (make_graph ?o npc (2 ^ 16))" by blast
  have "arena_room (make_graph ?o npc (2 ^ 16))" using w countr_zero_power [of 16] by (simp add: arena_room_def make_graph_def)
  then show thesis using that c by (simp add: make_graph_def)
qed

lemma storable_entry:
  assumes "storable g" "node_count g > 0"
  shows "entry_valid (read_entry g)" "he_id (read_entry g) < node_count g" "he_level (read_entry g) = hg_levels g ! he_id (read_entry g)"
    "he_level (read_entry g) = Max (insert 0 (set (hg_levels g)))"
proof -
  have e: "entry_valid (read_entry g)" "he_id (read_entry g) < node_count g" "he_level (read_entry g) = hg_levels g ! he_id (read_entry g)"
    "\<forall>j < node_count g. hg_levels g ! j \<le> he_level (read_entry g)"
    using assms unfolding storable_def entry_ok_def by (auto simp: lessThan_empty_iff)
  then show "entry_valid (read_entry g)" "he_id (read_entry g) < node_count g" "he_level (read_entry g) = hg_levels g ! he_id (read_entry g)" by simp_all
  show "he_level (read_entry g) = Max (insert 0 (set (hg_levels g)))"
    using e by (intro Max_eqI [symmetric]) (auto simp: in_set_conv_nth node_count_def)
qed

lemma decode_checks_pass:
  assumes g: "storable g"
  defines "s \<equiv> sections_of g" and "sh \<equiv> shape_of g"
  shows "length (gs_levels s) = gh_node_count sh" "checked_mul3 (gh_node_count sh) (2 * gh_m sh + 1) 4 = Some (length (gs_l0_links s))"
    "checked_mul_size (gh_node_count sh) 8 = Some (length (gs_upper_index s))"
    "\<exists>highest. check_levels (gh_max_level_cap sh) 0 (gs_levels s) 0 = Inr highest \<and> (gh_node_count sh > 0 \<longrightarrow> gh_entry_level sh = highest)"
    "gh_node_count sh = 0 \<Longrightarrow> gh_entry_point sh = unat kEmptySlot \<and> gh_entry_level sh = 0"
    "gh_node_count sh > 0 \<Longrightarrow> gh_entry_point sh < gh_node_count sh \<and> unat (gs_levels s ! gh_entry_point sh) = gh_entry_level sh"
    "\<exists>words. implied_words (gs_levels s) (gh_m sh) 0 = Some words \<and> checked_mul_size words 4 = Some (length (gs_upper_links s))"
proof -
  have sv: "saved g" using g by (simp add: storable_def saved_def)
  have inv: "layout_ok g" using g by (simp add: storable_def graph_ok_def hg_inv_def)
  note sz = saved_sized [OF sv, unfolded sized_def, folded s_def sh_def] and lvs = saved_levels [OF sv, folded s_def]
  have sh: "gh_node_count sh = node_count g" "gh_m sh = hg_m g" "gh_max_level_cap sh = hg_max_level g" by (simp_all add: shape_of_def sh_def)
  have small: "node_count g < 2 ^ 32" "hg_m g \<le> 512" "sum_list (hg_levels g) * (hg_m g + 1) < 2 ^ 31"
    using g by (simp_all add: storable_def kMaxVectorsPerCollection_def kInvalidInternalId_def)
  show "length (gs_levels s) = gh_node_count sh" using sz by simp
  have "node_count g * (2 * hg_m g + 1) \<le> 2 ^ 32 * 1025" using small by (intro mult_le_mono) simp_all
  then show "checked_mul3 (gh_node_count sh) (2 * gh_m sh + 1) 4 = Some (length (gs_l0_links s))"
    using sz checked_mul_size_Some [of "node_count g" "2 * hg_m g + 1" "node_count g * (2 * hg_m g + 1)"]
      checked_mul_size_Some [of "node_count g * (2 * hg_m g + 1)" 4 "node_count g * (2 * hg_m g + 1) * 4"] unfolding sh checked_mul3_def by simp
  show "checked_mul_size (gh_node_count sh) 8 = Some (length (gs_upper_index s))"
    using sz small(1) unfolding sh by (simp add: checked_mul_size_Some)
  have setl: "unat ` set (gs_levels s) = set (hg_levels g)" using arg_cong [OF lvs(1), of set] by simp
  have "\<forall>b\<in>set (gs_levels s). unat b \<le> gh_max_level_cap sh" using inv setl unfolding sh by (auto simp: layout_ok_def)
  then obtain t where t: "check_levels (gh_max_level_cap sh) 0 (gs_levels s) 0 = Inr t" using check_levels_total by blast
  then show "\<exists>highest. check_levels (gh_max_level_cap sh) 0 (gs_levels s) 0 = Inr highest \<and> (gh_node_count sh > 0 \<longrightarrow> gh_entry_level sh = highest)"
    using check_levels_ok(1) [OF t] storable_entry [OF g] setl unfolding sh by (auto simp: sh_def shape_of_def)
  show "gh_node_count sh = 0 \<Longrightarrow> gh_entry_point sh = unat kEmptySlot \<and> gh_entry_level sh = 0"
    using g by (simp add: sh_def shape_of_def storable_def entry_ok_def)
  show "gh_entry_point sh < gh_node_count sh \<and> unat (gs_levels s ! gh_entry_point sh) = gh_entry_level sh" if "gh_node_count sh > 0"
  proof -
    note E = storable_entry [OF g that [unfolded sh]]
    have "unat (gs_levels s ! he_id (read_entry g)) = hg_levels g ! he_id (read_entry g)"
      using lvs E(2) nth_map [of "he_id (read_entry g)" "gs_levels s" unat] by simp
    then show ?thesis using E by (simp add: sh_def shape_of_def)
  qed
  have "implied_words (gs_levels s) (hg_m g) 0 = Some (sum_list (hg_levels g) * (hg_m g + 1))"
    using implied_words_total [of 0 "gs_levels s" "hg_m g"] small(3) lvs(1) by simp
  then show "\<exists>words. implied_words (gs_levels s) (gh_m sh) 0 = Some words \<and> checked_mul_size words 4 = Some (length (gs_upper_links s))"
    using sz lvs(1) small(3) unfolding sh by (simp add: checked_mul_size_Some)
qed

lemma decode_graph_exact:
  assumes g: "storable g"
  obtains g' where "decode_graph (\<lambda>_. (True, True)) (sections_of g) (shape_of g) = Returned (Inr g')" "hg_levels g' = hg_levels g"
    "link_map g' = link_map g" "node_count g > 0 \<Longrightarrow> read_entry g' = read_entry g"
proof -
  let ?s = "sections_of g" and ?sh = "shape_of g" and ?n = "node_count g" and ?m = "hg_m g"
  have sv: "saved g" using g by (simp add: storable_def saved_def)
  have inv: "hg_inv g" using g by (simp add: storable_def graph_ok_def)
  have m: "2 \<le> ?m" "?m \<le> 512" "1 \<le> hg_max_level g" "hg_max_level g \<le> 32"
    using g inv params_okD(1) [of g] by (simp_all add: storable_def hg_inv_def layout_ok_def params_ok_def)
  note sz = saved_sized [OF sv, unfolded sized_def] and lvs = saved_levels [OF sv]
  have sh: "gh_node_count ?sh = ?n" "gh_m ?sh = ?m" "gh_max_level_cap ?sh = hg_max_level g" by (simp_all add: shape_of_def)
  obtain g0 where g0: "graph_create \<lparr>go_m = ?m, go_max_level = hg_max_level g, go_nodes_per_chunk = 0, go_arena_chunk_words = 0\<rparr> = Inr g0"
    "arena_room g0" "hg_stride_upper g0 = 1 + ?m" using fresh_graph [OF m] .
  have gm: "go_m \<lparr>go_m = ?m, go_max_level = hg_max_level g, go_nodes_per_chunk = 0, go_arena_chunk_words = 0\<rparr> < 2 ^ 32 - 1" using m by simp
  note c = graph_create_ok [OF g0(1) gm]
  have "link_map g0 = Map.empty" using link_map_eq [OF c(1)] c(2) by (intro ext) (auto simp: valid_list_def)
  then have r0: "rebuilt g 0 {(j, l). j < 0 \<and> l \<le> hg_levels g ! j} g0" using c g0 sh by (simp add: rebuilt_def loading_def links_wf_def)
  have b0: "block_start ?s ?sh 0 = 0" by (simp add: block_start_def)
  obtain g2 where g2: "decode_nodes (\<lambda>_. (True, True)) ?s ?sh [0..<?n] 0 g0 (replicate ?n 0) 0 = Returned (Inr g2)"
    "rebuilt g ?n {(j, l). j < ?n \<and> l \<le> hg_levels g ! j} g2"
    using decode_nodes_exact [OF sv _ le0 r0, of "replicate ?n 0" 0] g b0 by (auto simp: storable_def)
  have L: "hg_inv g2" "hg_levels g2 = hg_levels g" "\<And>j l. j < ?n \<Longrightarrow> l \<le> hg_levels g ! j \<Longrightarrow> link_map g2 (j, l) = link_map g (j, l)"
    using g2(2) lvs(1) by (auto simp: rebuilt_def loading_def node_count_def)
  have lm: "link_map g2 = link_map g"
  proof
    fix p :: "nat \<times> nat"
    obtain j l where p: "p = (j, l)" by (cases p)
    show "link_map g2 p = link_map g p"
    proof (cases "j < ?n \<and> l \<le> hg_levels g ! j")
      case False
      then have "(j, l) \<notin> dom (link_map g2)" "(j, l) \<notin> dom (link_map g)"
        using glinks.dom_law [OF L(1), of j l] glinks.dom_law [OF inv, of j l] L(2) by (auto simp: node_count_def)
      then show ?thesis by (simp add: p domIff)
    qed (use L(3) p in simp)
  qed
  let ?e = "\<lparr>he_id = gh_entry_point ?sh, he_level = gh_entry_level ?sh\<rparr>"
  have run: "decode_graph (\<lambda>_. (True, True)) ?s ?sh = Returned (Inr (if ?n > 0 then set_entry g2 ?e else g2))"
  proof -
    note C = decode_checks_pass [OF g]
    obtain highest words where h: "check_levels (gh_max_level_cap ?sh) 0 (gs_levels ?s) 0 = Inr highest" "?n > 0 \<longrightarrow> gh_entry_level ?sh = highest"
      "implied_words (gs_levels ?s) (gh_m ?sh) 0 = Some words" "checked_mul_size words 4 = Some (length (gs_upper_links ?s))"
      using C(4,7) sh(1) by auto
    show ?thesis
      unfolding decode_graph_def Let_def C(2,3) h(1,3) sum.case option.case h(4)
      using C(1,5,6) h(2) g0(1) g2(1) sh by (cases "?n = 0") (simp_all add: not_le)
  qed
  have en: "read_entry (set_entry g2 ?e) = read_entry g" if n: "?n > 0"
  proof -
    note E = storable_entry [OF g n]
    have "hg_levels g ! he_id (read_entry g) \<le> hg_max_level g" using E(2) inv by (simp add: hg_inv_def layout_ok_def node_count_def)
    then have "he_level (read_entry g) \<le> 32" using E(3) m(4) by simp
    moreover have "he_id (read_entry g) < 2 ^ 32" using E(2) g by (simp add: storable_def kMaxVectorsPerCollection_def kInvalidInternalId_def)
    ultimately show ?thesis using E(1) by (subst entry_round_trip) (simp_all add: shape_of_def)
  qed
  show thesis using that [OF run] L(2) lm en by (simp split: if_splits)
qed

end
