(* ===== verification/VF_IndexWriter.thy ===== *)
theory VF_IndexWriter
  imports VF_Steps VF_GraphRoundTrip VF_CollectionOps
begin

text \<open>
  The canonical writer of index files (\<^verbatim>\<open>src/collection/index_writer.cpp\<close>). Sizes and positions are natural
  numbers: they count bytes of data held in memory. A failed assertion is \<open>Aborted\<close>; a sink that fails
  ends the file with its status. The last part shows what is written: the header, the sections in
  order with zero padding, and the section table.
\<close>

subsection \<open>The plan of a file\<close>

record 's planned_section =
  ps_type :: section_type
  ps_size :: nat
  ps_alignment :: nat
  ps_write :: "'s binary_writer \<Rightarrow> 's binary_writer option"

definition make_metadata :: "collection_state \<Rightarrow> hnsw_graph option \<Rightarrow> metadata" where
  "make_metadata s graph =
     (let c = cs_config s; h = cc_hnsw c;
          m = \<lparr>md_dim = cc_dim c, md_metric = u8_of_metric (cc_metric c), md_index_type = u8_of_index_type (cc_index c),
               md_normalize = (if cc_normalize c then 1 else 0), md_node_count = word_of_nat (st_size (cs_vectors s)),
               md_live_count = word_of_nat (im_size (cs_ids s)), md_m = hp_M h, md_m0 = max_links_level0 h,
               md_ef_construction = hp_ef_construction h, md_ef_search = hp_ef_search h, md_max_level_cap = hp_max_level h,
               md_max_level = 0, md_entry_point = kEmptySlot, md_seed = hp_seed h, md_creator = cs_creator s,
               md_created_unix_ms = cs_created_unix_ms s\<rparr>
      in case graph of
           None \<Rightarrow> m
         | Some g \<Rightarrow>
             if entry_valid (read_entry g)
             then m\<lparr>md_entry_point := word_of_nat (he_id (read_entry g)), md_max_level := word_of_nat (he_level (read_entry g))\<rparr>
             else m)"

text \<open>The rows, chunk by chunk.\<close>

fun write_chunks :: "'s byte_sink \<Rightarrow> vector_store \<Rightarrow> nat \<Rightarrow> nat list \<Rightarrow> 's binary_writer \<Rightarrow> 's binary_writer option" where
  "write_chunks k v dim [] w = Some w"
| "write_chunks k v dim (c # cs) w =
     (case st_chunk_data v c of
        None \<Rightarrow> None
      | Some data \<Rightarrow> write_chunks k v dim cs (bw_array k 4 (take (st_rows_in_chunk v c * dim) data) w))"

definition tombstone_words :: "nat \<Rightarrow> nat" where
  "tombstone_words n = (n + 63) div 64"

definition write_tombstones :: "'s byte_sink \<Rightarrow> tombstone_set \<Rightarrow> nat \<Rightarrow> 's binary_writer \<Rightarrow> 's binary_writer option" where
  "write_tombstones k t words w = (if words \<le> length (tb_words t) then Some (bw_array k 8 (take words (tb_words t)) w) else None)"

definition graph_plan :: "'s byte_sink \<Rightarrow> nat \<Rightarrow> hnsw_graph \<Rightarrow> 's planned_section list" where
  "graph_plan k n g =
     [\<lparr>ps_type = Levels, ps_size = n, ps_alignment = kSectionAlignment, ps_write = (\<lambda>w. Some (write_levels k g w))\<rparr>,
      \<lparr>ps_type = L0Links, ps_size = n * (link_capacity g 0 + 1) * 4, ps_alignment = kSectionAlignment, ps_write = write_l0_links k g\<rparr>,
      \<lparr>ps_type = UpperIndex, ps_size = n * 8, ps_alignment = kSectionAlignment, ps_write = (\<lambda>w. Some (write_upper_index k g w))\<rparr>,
      \<lparr>ps_type = UpperLinks, ps_size = upper_link_words g * 4, ps_alignment = kSectionAlignment, ps_write = write_upper_links k g\<rparr>]"

definition section_plan :: "'s byte_sink \<Rightarrow> collection_state \<Rightarrow> hnsw_graph option \<Rightarrow> 's planned_section list" where
  "section_plan k s graph =
     (let n = st_size (cs_vectors s); dim = unat (cc_dim (cs_config s)); meta = make_metadata s graph
      in [\<lparr>ps_type = Metadata, ps_size = metadata_size meta, ps_alignment = kSectionAlignment, ps_write = (\<lambda>w. Some (encode_metadata k meta w))\<rparr>,
          \<lparr>ps_type = Labels, ps_size = n * 8, ps_alignment = kSectionAlignment, ps_write = (\<lambda>w. Some (bw_array k 8 (im_labels (cs_ids s)) w))\<rparr>] @
         (if tb_count (cs_deleted s) \<noteq> 0
          then [\<lparr>ps_type = Tombstones, ps_size = tombstone_words n * 8, ps_alignment = kSectionAlignment,
                 ps_write = write_tombstones k (cs_deleted s) (tombstone_words n)\<rparr>] else []) @
         (case graph of None \<Rightarrow> [] | Some g \<Rightarrow> graph_plan k n g) @
         [\<lparr>ps_type = Vectors, ps_size = n * dim * 4, ps_alignment = kVectorAlignment,
           ps_write = write_chunks k (cs_vectors s) dim [0..<length (st_chunk_ptrs (cs_vectors s))]\<rparr>])"

subsection \<open>Layout and writing\<close>

fun layout :: "'s planned_section list \<Rightarrow> nat \<Rightarrow> (section_entry list \<times> nat) option" where
  "layout [] position = Some ([], position)"
| "layout (p # ps) position =
     (case align_up position (ps_alignment p) of
        None \<Rightarrow> None
      | Some off \<Rightarrow>
          (case layout ps (off + ps_size p) of
             None \<Rightarrow> None
           | Some (es, stop) \<Rightarrow>
               Some (\<lparr>se_type = section_code (ps_type p), se_flags = 0, se_offset = word_of_nat off, se_size = word_of_nat (ps_size p),
                      se_crc32c = 0\<rparr> # es, stop)))"

fun write_sections :: "'s byte_sink \<Rightarrow> 's planned_section list \<Rightarrow> section_entry list \<Rightarrow> 's binary_writer
    \<Rightarrow> section_entry list result outcome \<times> 's binary_writer" where
  "write_sections k (p # ps) (e # es) w =
     (let w1 = bw_begin_crc (bw_zeros k (unat (se_offset e) - bw_position w) w)
      in case ps_write p w1 of
           None \<Rightarrow> (Aborted, w1)
         | Some w2 \<Rightarrow>
             if \<not> status_ok (bw_status w2) then (Returned (Inl (bw_status w2)), w2)
             else if bw_position w2 \<noteq> unat (se_offset e) + unat (se_size e) then (Aborted, w2)
             else (case write_sections k ps es w2 of
                     (r, w3) \<Rightarrow> (then_read r (\<lambda>es'. Returned (Inr (e\<lparr>se_crc32c := bw_crc w2\<rparr> # es'))), w3)))"
| "write_sections k _ _ w = (Returned (Inr []), w)"

definition header_for :: "collection_state \<Rightarrow> bool \<Rightarrow> nat \<Rightarrow> nat \<Rightarrow> nat \<Rightarrow> u32 \<Rightarrow> file_header" where
  "header_for s has_graph file_size table_offset cnt table_crc =
     \<lparr>fh_format_major = kFormatMajor, fh_format_minor = kFormatMinor,
      fh_flags = (if has_graph then kFlagHasGraph else 0) OR (if tb_count (cs_deleted s) \<noteq> 0 then kFlagHasTombstones else 0) OR
        (if cs_normalized s then kFlagVectorsNormalized else 0),
      fh_file_size = word_of_nat file_size, fh_section_table_offset = word_of_nat table_offset, fh_section_count = word_of_nat cnt,
      fh_section_table_crc32c = table_crc, fh_header_crc32c = 0\<rparr>"

definition write_table :: "'s byte_sink \<Rightarrow> collection_state \<Rightarrow> bool \<Rightarrow> section_entry list \<Rightarrow> nat \<Rightarrow> 's binary_writer \<Rightarrow> status outcome \<times> 's" where
  "write_table k s has_graph es table_offset w =
     (let w1 = fold (encode_section_entry k) es (bw_begin_crc (bw_zeros k (table_offset - bw_position w) w));
          file_size = table_offset + length es * kSectionEntrySize
      in if \<not> status_ok (bw_status w1) then (Returned (bw_status w1), bw_sink w1)
         else if bw_position w1 \<noteq> file_size then (Aborted, bw_sink w1)
         else (case sk_write_at k (bw_sink w1) 0 (encode_header (header_for s has_graph file_size table_offset (length es) (bw_crc w1))) of
                 (st, sink) \<Rightarrow> (Returned st, sink)))"

definition write_index :: "'s byte_sink \<Rightarrow> bool \<Rightarrow> collection_state \<Rightarrow> 's \<Rightarrow> status outcome \<times> 's" where
  "write_index k mem s sink =
     (if length (im_labels (cs_ids s)) \<noteq> st_size (cs_vectors s) \<or> cs_backend s = NoBackend then (Aborted, sink)
      else if \<not> mem then (Thrown, sink)
      else let graph = graph_of (cs_backend s); plan = section_plan k s graph
           in case layout plan kHeaderSize of
                None \<Rightarrow> (Aborted, sink)
              | Some (entries, position) \<Rightarrow>
                  (case align_up position kSectionAlignment of
                     None \<Rightarrow> (Aborted, sink)
                   | Some table_offset \<Rightarrow>
                       (case write_sections k plan entries (bw_zeros k kHeaderSize (new_writer sink)) of
                          (Returned (Inl st), w) \<Rightarrow> (Returned st, bw_sink w)
                        | (Returned (Inr es), w) \<Rightarrow> write_table k s (graph \<noteq> None) es table_offset w
                        | (Thrown, w) \<Rightarrow> (Thrown, bw_sink w)
                        | (Aborted, w) \<Rightarrow> (Aborted, bw_sink w))))"


subsection \<open>The bytes of a file\<close>

text \<open>Sections as their type, alignment and bytes, and where they go.\<close>

type_synonym cell = "section_type \<times> nat \<times> u8 list"

definition up :: "nat \<Rightarrow> nat \<Rightarrow> nat" where
  "up v alignment = (v + (alignment - 1)) div alignment * alignment"

definition entry_for :: "section_type \<Rightarrow> nat \<Rightarrow> u8 list \<Rightarrow> section_entry" where
  "entry_for t off bytes =
     \<lparr>se_type = section_code t, se_flags = 0, se_offset = word_of_nat off, se_size = word_of_nat (length bytes), se_crc32c = crc32c bytes\<rparr>"

fun placed :: "nat \<Rightarrow> cell list \<Rightarrow> section_entry list" where
  "placed pos [] = []"
| "placed pos ((t, al, c) # cs) = entry_for t (up pos al) c # placed (up pos al + length c) cs"

fun body :: "nat \<Rightarrow> cell list \<Rightarrow> u8 list" where
  "body pos [] = []"
| "body pos ((t, al, c) # cs) = replicate (up pos al - pos) 0 @ c @ body (up pos al + length c) cs"

definition section_cells :: "collection_state \<Rightarrow> hnsw_graph option \<Rightarrow> cell list" where
  "section_cells s graph =
     [(Metadata, kSectionAlignment, metadata_bytes (make_metadata s graph)), (Labels, kSectionAlignment, word_bytes 8 (im_labels (cs_ids s)))] @
     (if tb_count (cs_deleted s) \<noteq> 0
      then [(Tombstones, kSectionAlignment, word_bytes 8 (take (tombstone_words (st_size (cs_vectors s))) (tb_words (cs_deleted s))))] else []) @
     (case graph of None \<Rightarrow> []
      | Some g \<Rightarrow> [(Levels, kSectionAlignment, gs_levels (sections_of g)), (L0Links, kSectionAlignment, gs_l0_links (sections_of g)),
                    (UpperIndex, kSectionAlignment, gs_upper_index (sections_of g)), (UpperLinks, kSectionAlignment, gs_upper_links (sections_of g))]) @
     [(Vectors, kVectorAlignment, word_bytes 4 (concat (st_rows (cs_vectors s))))]"

definition file_bytes :: "collection_state \<Rightarrow> bool \<Rightarrow> cell list \<Rightarrow> u8 list" where
  "file_bytes s has_graph cells =
     (let contents = body kHeaderSize cells; pos = kHeaderSize + length contents; off = up pos kSectionAlignment; es = placed kHeaderSize cells;
          table = concat (map section_entry_bytes es)
      in encode_header (header_for s has_graph (off + length table) off (length es) (crc32c table)) @ contents @ replicate (off - pos) 0 @ table)"

lemma up_ge: "0 < a \<Longrightarrow> v \<le> up v a"
proof -
  assume a: "0 < a"
  have "up v a + (v + (a - 1)) mod a = v + (a - 1)" unfolding up_def by (rule div_mult_mod_eq)
  moreover have "(v + (a - 1)) mod a < a" using a by (rule mod_less_divisor)
  ultimately show ?thesis by linarith
qed

lemma up_le: "up v a \<le> v + (a - 1)"
  by (simp add: up_def)

lemma up_dvd: "a dvd up v a"
  by (simp add: up_def)

definition al_ok :: "nat \<Rightarrow> bool" where
  "al_ok a \<longleftrightarrow> a = 8 \<or> a = 4096"

lemma align_up_up: "al_ok a \<Longrightarrow> v < 2 ^ 62 \<Longrightarrow> align_up v a = Some (up v a)"
  using align_up_power [of v 3] align_up_power [of v 12] by (auto simp: al_ok_def up_def)

text \<open>A bound on the position behind the cells.\<close>

definition reach :: "nat \<Rightarrow> cell list \<Rightarrow> nat" where
  "reach pos cells = pos + sum_list (map (\<lambda>(t, al, c). length c + 4096) cells)"

lemma reach_Cons: "al_ok al \<Longrightarrow> reach (up pos al + length c) cells \<le> reach pos ((t, al, c) # cells)"
  using up_le [of pos al] by (auto simp: reach_def al_ok_def)

lemma reach_ge: "pos \<le> reach pos cells"
  by (simp add: reach_def)

lemma body_reach: "\<forall>(t, al, c)\<in>set cells. al_ok al \<Longrightarrow> pos + length (body pos cells) \<le> reach pos cells"
proof (induction pos cells rule: body.induct)
  case (2 pos t al c cells)
  have a: "al_ok al" "0 < al" using 2 by (auto simp: al_ok_def)
  have "up pos al + length c + length (body (up pos al + length c) cells) \<le> reach pos ((t, al, c) # cells)"
    using "2.IH" "2.prems" reach_Cons [OF a(1), of pos c cells t] by simp
  then show ?case using up_ge [OF a(2), of pos] by simp
qed (simp add: reach_def)

subsection \<open>What is written\<close>

context sink_contract
begin

definition planned :: "'s planned_section \<Rightarrow> cell \<Rightarrow> bool" where
  "planned p cell \<longleftrightarrow>
     (case cell of (t, al, c) \<Rightarrow>
        ps_type p = t \<and> ps_alignment p = al \<and> al_ok al \<and> ps_size p = length c \<and> (\<forall>w. \<exists>w'. ps_write p w = Some w' \<and> appends w c w'))"

lemma layout_placed:
  assumes "list_all2 planned ps cells" "reach pos cells < 2 ^ 62"
  shows "\<exists>es. layout ps pos = Some (es, pos + length (body pos cells)) \<and> map (\<lambda>e. e\<lparr>se_crc32c := 0\<rparr>) es = map (\<lambda>e. e\<lparr>se_crc32c := 0\<rparr>) (placed pos cells)"
  using assms
proof (induction ps cells arbitrary: pos rule: list_all2_induct)
  case (Cons p ps cell cells)
  obtain t al c where cell: "cell = (t, al, c)" by (cases cell)
  have p: "ps_type p = t" "ps_alignment p = al" "al_ok al" "ps_size p = length c" "0 < al"
    using Cons(1) by (auto simp: planned_def cell al_ok_def)
  have le: "reach (up pos al + length c) cells < 2 ^ 62" using Cons.prems reach_Cons [OF p(3), of pos c cells t] by (simp add: cell)
  have "pos < 2 ^ 62" using Cons.prems reach_ge [of pos "cell # cells"] by simp
  then have au: "align_up pos al = Some (up pos al)" by (rule align_up_up [OF p(3)])
  obtain es where es: "layout ps (up pos al + length c) = Some (es, up pos al + length c + length (body (up pos al + length c) cells))"
    "map (\<lambda>e. e\<lparr>se_crc32c := 0\<rparr>) es = map (\<lambda>e. e\<lparr>se_crc32c := 0\<rparr>) (placed (up pos al + length c) cells)" using Cons.IH [OF le] by blast
  have "pos \<le> up pos al" using up_ge [OF p(5)] .
  then show ?case using au es p by (simp add: cell entry_for_def)
qed simp

lemma appends_ok: "appends w bs w' \<Longrightarrow> status_ok (bw_status w') \<Longrightarrow> status_ok (bw_status w) \<and> contents (bw_sink w') = contents (bw_sink w) @ bs \<and>
    bw_position w' = bw_position w + length bs \<and> bw_crc w' = crc32c_extend (bw_crc w) bs"
  by (simp add: appends_def)


text \<open>The arrays of a file.\<close>

lemma words_append: "appends w (word_bytes n vs) (bw_array k n vs w)"
  by (simp add: word_bytes_def array_appends)

lemma write_lists_append:
  assumes "hg_inv g" "\<forall>(i, l)\<in>set ps. i < node_count g \<and> l \<le> hg_levels g ! i"
  shows "\<exists>w'. write_lists k g ps w = Some w' \<and> appends w (word_bytes 4 (concat (list_blocks g ps))) w'"
  using assms(2)
proof (induction ps arbitrary: w)
  case Nil
  then show ?case by (simp add: list_blocks_def word_bytes_def appends_Nil)
next
  case (Cons p ps)
  obtain i l where p: "p = (i, l)" by (cases p)
  obtain xs where xs: "link_map g (i, l) = Some xs"
    using glinks.list_of_node [OF assms(1), of i l] Cons.prems by (auto simp: p node_count_def)
  then have gl: "graph_links g i l = Some xs" by (simp add: link_map_def)
  let ?w = "io_write_list k xs (link_capacity g l) w"
  obtain w' where w': "write_lists k g ps ?w = Some w'" "appends ?w (word_bytes 4 (concat (list_blocks g ps))) w'"
    using Cons.IH [of ?w] Cons.prems by auto
  have "appends w (word_bytes 4 (list_words xs (link_capacity g l))) ?w" by (simp add: io_write_list_def words_append)
  from appends_trans [OF this w'(2)] show ?case using w'(1) gl xs by (simp add: p list_blocks_def word_bytes_def)
qed

lemma write_offsets_append: "appends w (word_bytes 8 (upper_offsets m ls off)) (write_offsets k m ls off w)"
proof (induction m ls off arbitrary: w rule: upper_offsets.induct)
  case (1 m off)
  then show ?case by (simp add: word_bytes_def appends_Nil)
next
  case (2 m level ls off)
  show ?case
    using appends_trans [OF u64_appends 2(1)] appends_trans [OF u64_appends 2(2)] by (simp add: word_bytes_def)
qed

end

lemma take_rows: "n * d \<le> length xs \<Longrightarrow> take (n * d) xs = concat (map (\<lambda>r. take d (drop (r * d) xs)) [0..<n])"
proof (induction n)
  case (Suc n)
  have "Suc n * d = n * d + d" by simp
  then have "take (Suc n * d) xs = take (n * d) xs @ take d (drop (n * d) xs)" by (simp only: take_add)
  then show ?case using Suc by simp
qed simp

lemma chunk_rows:
  assumes "st_inv v" "c < length (st_chunk_ptrs v)"
  defines "rpc \<equiv> st_rows_per_chunk v" and "n \<equiv> st_rows_in_chunk v c"
  shows "take (n * st_dim v) (st_chunk v c) = concat (take n (drop (c * rpc) (st_rows v)))"
proof (cases "n = 0")
  case False
  then have n: "c * rpc + n \<le> st_size v" "n \<le> rpc" unfolding n_def rpc_def by (auto simp: st_rows_in_chunk_def Let_def split: if_splits)
  have row: "st_row v (c * rpc + r) = take (st_dim v) (drop (r * st_dim v) (st_chunk v c))" if "r < n" for r
    using st_row_eq [OF assms(1), of "c * rpc + r"] n that by (simp add: rpc_def)
  have len: "n * st_dim v \<le> length (st_chunk v c)"
  proof -
    obtain m where m: "n = Suc m" using False by (cases n) simp_all
    have i: "c * rpc + m < st_capacity v" using n m st_invD(9) [OF assms(1)] by simp
    have "(c * rpc + m) div rpc = c" "(c * rpc + m) mod rpc = m" using n(2) m by simp_all
    then show ?thesis using st_chunk_length [OF assms(1) i] m unfolding rpc_def by simp
  qed
  have "take n (drop (c * rpc) (st_rows v)) = map (\<lambda>r. take (st_dim v) (drop (r * st_dim v) (st_chunk v c))) [0..<n]"
    using n row by (intro nth_equalityI) simp_all
  then show ?thesis using take_rows [OF len] by simp
qed simp

context sink_contract
begin

lemma write_chunks_append:
  assumes "st_inv v" "c \<le> length (st_chunk_ptrs v)"
  shows "\<exists>w'. write_chunks k v (st_dim v) [c..<length (st_chunk_ptrs v)] w = Some w' \<and>
    appends w (word_bytes 4 (concat (drop (c * st_rows_per_chunk v) (st_rows v)))) w'"
  using assms(2)
proof (induction "length (st_chunk_ptrs v) - c" arbitrary: c w)
  case 0
  then have "st_size v \<le> c * st_rows_per_chunk v" using st_invD(9) [OF assms(1)] by (simp add: st_capacity_def)
  then show ?case using 0 by (simp add: word_bytes_def appends_Nil)
next
  case (Suc d)
  let ?rpc = "st_rows_per_chunk v" and ?n = "st_rows_in_chunk v c"
  have c: "c < length (st_chunk_ptrs v)" "[c..<length (st_chunk_ptrs v)] = c # [Suc c..<length (st_chunk_ptrs v)]"
    using Suc.hyps(2) upt_conv_Cons [of c "length (st_chunk_ptrs v)"] by auto
  have data: "st_chunk_data v c = Some (st_chunk v c)" using c(1) deref_chunk_nth [OF assms(1)] by (simp add: st_chunk_data_def)
  let ?w = "bw_array k 4 (take (?n * st_dim v) (st_chunk v c)) w"
  obtain w' where w': "write_chunks k v (st_dim v) [Suc c..<length (st_chunk_ptrs v)] ?w = Some w'"
    "appends ?w (word_bytes 4 (concat (drop (Suc c * ?rpc) (st_rows v)))) w'"
  proof -
    have "d = length (st_chunk_ptrs v) - Suc c" "Suc c \<le> length (st_chunk_ptrs v)" using Suc.hyps(2) by simp_all
    then show thesis using Suc.hyps(1) that by blast
  qed
  have "take ?n (drop (c * ?rpc) (st_rows v)) @ drop (Suc c * ?rpc) (st_rows v) = drop (c * ?rpc) (st_rows v)"
  proof (cases "c * ?rpc + ?rpc \<le> st_size v")
    case True
    moreover have "0 < ?rpc" using st_invD(3) [OF assms(1)] by simp
    ultimately have "?n = ?rpc" by (auto simp: st_rows_in_chunk_def Let_def)
    then show ?thesis using append_take_drop_id [of ?rpc "drop (c * ?rpc) (st_rows v)"] by (simp add: add.commute)
  next
    case False
    then have "?n = st_size v - c * ?rpc" by (auto simp: st_rows_in_chunk_def Let_def)
    then show ?thesis using False by (simp add: add.commute)
  qed
  then have "word_bytes 4 (take (?n * st_dim v) (st_chunk v c)) @ word_bytes 4 (concat (drop (Suc c * ?rpc) (st_rows v))) =
      word_bytes 4 (concat (drop (c * ?rpc) (st_rows v)))"
    unfolding chunk_rows [OF assms(1) c(1)] word_bytes_def map_append [symmetric] concat_append [symmetric] by simp
  then show ?case using appends_trans [OF words_append w'(2)] w'(1) unfolding c(2) by (simp add: data)
qed


text \<open>A state whose parts agree, so that every section has the size of its plan.\<close>

end

definition writable :: "collection_state \<Rightarrow> bool" where
  "writable s \<longleftrightarrow>
     st_inv (cs_vectors s) \<and> st_dim (cs_vectors s) = unat (cc_dim (cs_config s)) \<and> cs_backend s \<noteq> NoBackend \<and>
     length (im_labels (cs_ids s)) = st_size (cs_vectors s) \<and> st_size (cs_vectors s) \<le> 64 * length (tb_words (cs_deleted s)) \<and>
     (\<forall>g. graph_of (cs_backend s) = Some g \<longrightarrow> saved g \<and> node_count g = st_size (cs_vectors s))"

lemma length_rows: "st_inv v \<Longrightarrow> length (concat (st_rows v)) = st_size v * st_dim v"
proof -
  assume a: "st_inv v"
  have "map length (st_rows v) = replicate (st_size v) (st_dim v)"
    using length_st_row [OF a] by (intro nth_equalityI) simp_all
  then show ?thesis by (simp add: length_concat sum_list_replicate)
qed

lemma upper_link_words_eq: "upper_link_words g = sum_list (hg_levels g) * (hg_m g + 1)"
proof -
  have "fold (\<lambda>level words. words + level * (1 + hg_m g)) ls w = w + sum_list ls * (hg_m g + 1)" for ls w
    by (induction ls arbitrary: w) (simp_all add: algebra_simps)
  then show ?thesis by (simp add: upper_link_words_def)
qed

lemma le_bytes_byte: "le_bytes 1 (v :: u8) = [v]"
proof -
  have "(0xFF :: u8) = - 1" by simp
  then have "v AND 0xFF = v" by (simp only: bit.conj_one_right and.right_neutral)
  then show ?thesis by (simp add: le_bytes_def)
qed

lemma section_alignments: "al_ok kSectionAlignment" "al_ok kVectorAlignment"
  by (simp_all add: al_ok_def kSectionAlignment_def kVectorAlignment_def)

context sink_contract
begin

lemma graph_planned:
  assumes g: "saved g"
  shows "list_all2 planned (graph_plan k (node_count g) g)
    [(Levels, kSectionAlignment, gs_levels (sections_of g)), (L0Links, kSectionAlignment, gs_l0_links (sections_of g)),
     (UpperIndex, kSectionAlignment, gs_upper_index (sections_of g)), (UpperLinks, kSectionAlignment, gs_upper_links (sections_of g))]"
proof -
  have inv: "hg_inv g" using g by (simp add: saved_def graph_ok_def)
  have cap: "link_capacity g 0 = 2 * hg_m g" using link_capacity_level [OF inv] by simp
  note sz = saved_sized [OF g, unfolded sized_def] and lvs = saved_levels [OF g]
  have sh: "gh_node_count (shape_of g) = node_count g" "gh_m (shape_of g) = hg_m g" by (simp_all add: shape_of_def)
  have sec: "word_bytes 1 (map (\<lambda>level. word_of_nat level :: u8) (hg_levels g)) = gs_levels (sections_of g)"
    unfolding word_bytes_def sections_of_def graph_sections.simps map_map o_def le_bytes_byte by simp
  have "\<exists>w'. write_l0_links k g w = Some w' \<and> appends w (gs_l0_links (sections_of g)) w'" for w
    unfolding write_l0_links_def sections_of_def graph_sections.simps by (rule write_lists_append [OF inv]) auto
  moreover have ps: "\<forall>(i, l)\<in>set (pairs_of (hg_levels g)). i < node_count g \<and> l \<le> hg_levels g ! i"
    by (auto dest!: pairs_of_levels simp: node_count_def)
  have "write_upper_links k g = write_lists k g (pairs_of (hg_levels g))" unfolding write_upper_links_def node_count_def pairs_of_def by (rule ext) simp
  then have "\<exists>w'. write_upper_links k g w = Some w' \<and> appends w (gs_upper_links (sections_of g)) w'" for w
    using write_lists_append [OF inv ps] by (simp add: sections_of_def)
  moreover have "appends w (gs_upper_index (sections_of g)) (write_upper_index k g w)" for w
    unfolding write_upper_index_def sections_of_def graph_sections.simps by (rule write_offsets_append)
  moreover have "appends w (gs_levels (sections_of g)) (write_levels k g w)" for w
    unfolding sec [symmetric] write_levels_def by (rule words_append)
  ultimately show ?thesis
    using sz lvs by (simp add: graph_plan_def planned_def section_alignments cap sh upper_link_words_eq)
qed

lemma sections_planned:
  assumes s: "writable s"
  defines "graph \<equiv> graph_of (cs_backend s)"
  shows "list_all2 planned (section_plan k s graph) (section_cells s graph)"
proof -
  let ?v = "cs_vectors s" and ?t = "cs_deleted s"
  have v: "st_inv ?v" "st_dim ?v = unat (cc_dim (cs_config s))" "length (im_labels (cs_ids s)) = st_size ?v"
    "st_size ?v \<le> 64 * length (tb_words ?t)" using s by (simp_all add: writable_def)
  have tw: "tombstone_words (st_size ?v) \<le> length (tb_words ?t)" using v(4) by (simp add: tombstone_words_def)
  have "planned \<lparr>ps_type = Vectors, ps_size = st_size ?v * unat (cc_dim (cs_config s)) * 4, ps_alignment = kVectorAlignment,
           ps_write = write_chunks k ?v (unat (cc_dim (cs_config s))) [0..<length (st_chunk_ptrs ?v)]\<rparr>
      (Vectors, kVectorAlignment, word_bytes 4 (concat (st_rows ?v)))"
    using write_chunks_append [OF v(1), of 0] length_rows [OF v(1)] v(2) by (simp add: planned_def section_alignments)
  moreover have "list_all2 planned
      (case graph of None \<Rightarrow> [] | Some g \<Rightarrow> graph_plan k (st_size ?v) g)
      (case graph of None \<Rightarrow> []
       | Some g \<Rightarrow> [(Levels, kSectionAlignment, gs_levels (sections_of g)), (L0Links, kSectionAlignment, gs_l0_links (sections_of g)),
                    (UpperIndex, kSectionAlignment, gs_upper_index (sections_of g)), (UpperLinks, kSectionAlignment, gs_upper_links (sections_of g))])"
  proof (cases graph)
    case (Some g)
    then have "saved g" "node_count g = st_size ?v" using s by (simp_all add: writable_def graph_def)
    then show ?thesis using graph_planned [of g] Some by simp
  qed simp
  ultimately show ?thesis
    unfolding section_plan_def section_cells_def Let_def using tw v(3)
    by (intro list_all2_appendI)
      (auto simp: planned_def section_alignments length_metadata_bytes metadata_appends words_append write_tombstones_def)
qed


text \<open>Writing the sections: the assertions of the writer hold, and what it reports is what happened.\<close>

lemma write_sections_exact:
  assumes "list_all2 planned ps cells" "reach pos cells < 2 ^ 62"
    "map (\<lambda>e. e\<lparr>se_crc32c := 0\<rparr>) es = map (\<lambda>e. e\<lparr>se_crc32c := 0\<rparr>) (placed pos cells)" "status_ok (bw_status w) \<Longrightarrow> bw_position w = pos"
  shows "\<exists>r w'. write_sections k ps es w = (Returned r, w') \<and>
    (case r of Inl st \<Rightarrow> \<not> status_ok st
     | Inr es' \<Rightarrow> es' = placed pos cells \<and>
         (status_ok (bw_status w') \<longrightarrow> status_ok (bw_status w) \<and> contents (bw_sink w') = contents (bw_sink w) @ body pos cells \<and>
            bw_position w' = pos + length (body pos cells)))"
  using assms
proof (induction ps cells arbitrary: pos es w rule: list_all2_induct)
  case Nil
  then show ?case by (auto split: sum.split)
next
  case (Cons p ps cell cells)
  obtain t al c where cell: "cell = (t, al, c)" by (cases cell)
  have p: "al_ok al" "ps_size p = length c" "0 < al" "\<And>w. \<exists>w'. ps_write p w = Some w' \<and> appends w c w'"
    using Cons(1) by (auto simp: planned_def cell al_ok_def)
  let ?off = "up pos al" and ?w1 = "\<lambda>n. bw_begin_crc (bw_zeros k (n - bw_position w) w)"
  have le: "reach (?off + length c) cells < 2 ^ 62" using Cons.prems(1) reach_Cons [OF p(1), of pos c cells t] by (simp add: cell)
  obtain e es1 where es: "es = e # es1" "e\<lparr>se_crc32c := 0\<rparr> = (entry_for t ?off c)\<lparr>se_crc32c := 0\<rparr>"
    "map (\<lambda>e. e\<lparr>se_crc32c := 0\<rparr>) es1 = map (\<lambda>e. e\<lparr>se_crc32c := 0\<rparr>) (placed (?off + length c) cells)"
    using Cons.prems(2) by (auto simp: cell map_eq_Cons_conv)
  have small: "?off + length c < 2 ^ 62" using le reach_ge [of "?off + length c" cells] by simp
  then have e: "unat (se_offset e) = ?off" "unat (se_size e) = length c" "e\<lparr>se_crc32c := crc32c c\<rparr> = entry_for t ?off c"
    using es(2) by (cases e; simp add: entry_for_def unat_of_nat take_bit_nat_eq_self)+
  obtain w2 where w2: "ps_write p (?w1 ?off) = Some w2" "appends (?w1 ?off) c w2" using p(4) by blast
  have z: "appends w (replicate (?off - bw_position w) 0) (bw_zeros k (?off - bw_position w) w)" by (rule zeros_appends)
  show ?case
  proof (cases "status_ok (bw_status w2)")
    case False
    then show ?thesis using w2(1) by (simp add: es(1) e Let_def)
  next
    case True
    let ?z = "bw_zeros k (?off - bw_position w) w"
    have a: "status_ok (bw_status ?z)" "contents (bw_sink w2) = contents (bw_sink ?z) @ c" "bw_position w2 = bw_position ?z + length c" "bw_crc w2 = crc32c c"
      using appends_ok [OF w2(2) True] by (simp_all add: bw_begin_crc_def crc32c_def)
    have b: "status_ok (bw_status w)" "contents (bw_sink ?z) = contents (bw_sink w) @ replicate (?off - bw_position w) 0" "bw_position ?z = bw_position w + (?off - bw_position w)"
      using appends_ok [OF z a(1)] by simp_all
    have ok: "status_ok (bw_status w)" "contents (bw_sink w2) = contents (bw_sink w) @ replicate (?off - pos) 0 @ c"
      "bw_position w2 = ?off + length c" "bw_crc w2 = crc32c c"
      using a b Cons.prems(3) [OF b(1)] up_ge [OF p(3), of pos] by simp_all
    obtain r w3 where w3: "write_sections k ps es1 w2 = (Returned r, w3)"
      "case r of Inl st \<Rightarrow> \<not> status_ok st
       | Inr es' \<Rightarrow> es' = placed (?off + length c) cells \<and>
           (status_ok (bw_status w3) \<longrightarrow> status_ok (bw_status w2) \<and> contents (bw_sink w3) = contents (bw_sink w2) @ body (?off + length c) cells \<and>
              bw_position w3 = ?off + length c + length (body (?off + length c) cells))"
      using Cons.IH [OF le es(3), of w2] ok(3) by blast
    have "pos \<le> ?off" using up_ge [OF p(3)] .
    then show ?thesis using w3 w2(1) True ok e by (cases r) (simp_all add: es(1) e(1,2) Let_def then_read_def cell)
  qed
qed

lemma write_table_exact:
  assumes "off \<ge> length (body kHeaderSize cells) + kHeaderSize" "es = placed kHeaderSize cells"
    "status_ok (bw_status w) \<Longrightarrow>
      contents (bw_sink w) = replicate kHeaderSize 0 @ body kHeaderSize cells \<and> bw_position w = kHeaderSize + length (body kHeaderSize cells)"
  defines "table \<equiv> concat (map section_entry_bytes es)"
  shows "\<exists>st sink. write_table k s has_graph es off w = (Returned st, sink) \<and>
    (status_ok st \<longrightarrow>
       contents sink = encode_header (header_for s has_graph (off + length table) off (length es) (crc32c table)) @ body kHeaderSize cells @
         replicate (off - (kHeaderSize + length (body kHeaderSize cells))) 0 @ table)"
proof -
  let ?z = "bw_zeros k (off - bw_position w) w" and ?b = "body kHeaderSize cells"
  let ?w1 = "fold (encode_section_entry k) es (bw_begin_crc ?z)"
  have fold: "appends w0 (concat (map section_entry_bytes xs)) (fold (encode_section_entry k) xs w0)" for w0 xs
    by (induction xs arbitrary: w0) (auto simp: appends_Nil intro: appends_trans [OF section_entry_appends])
  have len: "length table = length es * kSectionEntrySize"
    unfolding table_def by (induction es) (simp_all add: section_entry_bytes_def kSectionEntrySize_def)
  show ?thesis
  proof (cases "status_ok (bw_status ?w1)")
    case False
    then show ?thesis by (simp add: write_table_def Let_def)
  next
    case True
    have b: "status_ok (bw_status ?z)" "contents (bw_sink ?w1) = contents (bw_sink ?z) @ table" "bw_position ?w1 = bw_position ?z + length table"
      "bw_crc ?w1 = crc32c table"
      using appends_ok [OF fold True] by (simp_all add: table_def bw_begin_crc_def crc32c_def)
    have z: "status_ok (bw_status w)" "contents (bw_sink ?z) = contents (bw_sink w) @ replicate (off - bw_position w) 0" "bw_position ?z = bw_position w + (off - bw_position w)"
      using appends_ok [OF zeros_appends b(1)] by simp_all
    have c: "contents (bw_sink ?w1) = replicate kHeaderSize 0 @ ?b @ replicate (off - (kHeaderSize + length ?b)) 0 @ table" "bw_position ?w1 = off + length table"
      using b z assms(1,3) by simp_all
    let ?h = "encode_header (header_for s has_graph (off + length table) off (length es) (crc32c table))"
    obtain st sink where w: "sk_write_at k (bw_sink ?w1) 0 ?h = (st, sink)" by (cases "sk_write_at k (bw_sink ?w1) 0 ?h")
    have "length ?h = kHeaderSize" using decode_encode_header(3) by simp
    then show ?thesis
      using w write_at_law [OF w] c b(4) True len by (simp add: write_table_def Let_def)
  qed
qed

lemma write_index_run:
  fixes sink :: 's
  assumes s: "writable s"
  defines "graph \<equiv> graph_of (cs_backend s)"
  assumes small: "reach kHeaderSize (section_cells s graph) < 2 ^ 62"
  defines "w \<equiv> bw_zeros k kHeaderSize (new_writer sink)" and "cells \<equiv> section_cells s graph"
  defines "pos \<equiv> kHeaderSize + length (body kHeaderSize cells)"
  obtains es r w' where "write_sections k (section_plan k s graph) es w = (Returned r, w')"
    "case r of Inl st \<Rightarrow> \<not> status_ok st
     | Inr es' \<Rightarrow> es' = placed kHeaderSize cells \<and>
         (status_ok (bw_status w') \<longrightarrow> status_ok (bw_status w) \<and> contents (bw_sink w') = contents (bw_sink w) @ body kHeaderSize cells \<and> bw_position w' = pos)"
    "write_index k True s sink =
       (case r of Inl st \<Rightarrow> (Returned st, bw_sink w') | Inr es' \<Rightarrow> write_table k s (graph \<noteq> None) es' (up pos kSectionAlignment) w')"
    "pos \<le> up pos kSectionAlignment"
proof -
  let ?plan = "section_plan k s graph"
  note pl = sections_planned [OF s, folded graph_def, folded cells_def]
  obtain es where es: "layout ?plan kHeaderSize = Some (es, pos)"
    "map (\<lambda>e. e\<lparr>se_crc32c := 0\<rparr>) es = map (\<lambda>e. e\<lparr>se_crc32c := 0\<rparr>) (placed kHeaderSize cells)"
    using layout_placed [OF pl small [folded cells_def]] by (auto simp: pos_def)
  have al: "\<forall>(t, al, c)\<in>set cells. al_ok al" using pl by (auto simp: list_all2_conv_all_nth set_conv_nth planned_def)
  have off: "align_up pos kSectionAlignment = Some (up pos kSectionAlignment)" "pos \<le> up pos kSectionAlignment"
    using align_up_up [OF section_alignments(1), of pos] body_reach [OF al, of kHeaderSize] small up_ge [of kSectionAlignment pos]
    by (simp_all add: kSectionAlignment_def pos_def cells_def)
  have "status_ok (bw_status w) \<Longrightarrow> bw_position w = kHeaderSize"
    using appends_ok [OF zeros_appends, of kHeaderSize "new_writer sink"] by (simp add: w_def new_writer_def)
  then obtain r w' where r: "write_sections k ?plan es w = (Returned r, w')"
    "case r of Inl st \<Rightarrow> \<not> status_ok st
     | Inr es' \<Rightarrow> es' = placed kHeaderSize cells \<and>
         (status_ok (bw_status w') \<longrightarrow> status_ok (bw_status w) \<and> contents (bw_sink w') = contents (bw_sink w) @ body kHeaderSize cells \<and> bw_position w' = pos)"
    using write_sections_exact [OF pl small [folded cells_def] es(2), of w] pos_def by blast
  have "length (im_labels (cs_ids s)) = st_size (cs_vectors s)" "cs_backend s \<noteq> NoBackend" using s by (simp_all add: writable_def)
  then have "write_index k True s sink =
      (case r of Inl st \<Rightarrow> (Returned st, bw_sink w') | Inr es' \<Rightarrow> write_table k s (graph \<noteq> None) es' (up pos kSectionAlignment) w')"
    using r(1) es(1) off(1) by (simp add: write_index_def Let_def graph_def [symmetric] w_def [symmetric] split: sum.split)
  then show thesis using that r off(2) by blast
qed

lemma write_index_exact:
  assumes s: "writable s" and sink: "contents sink = []"
  defines "graph \<equiv> graph_of (cs_backend s)"
  assumes small: "reach kHeaderSize (section_cells s graph) < 2 ^ 62"
  shows "\<exists>st sink'. write_index k True s sink = (Returned st, sink') \<and>
    (status_ok st \<longrightarrow> contents sink' = file_bytes s (graph \<noteq> None) (section_cells s graph))"
proof -
  let ?cells = "section_cells s graph" and ?w = "bw_zeros k kHeaderSize (new_writer sink)"
  obtain es r w' where r: "case r of Inl st \<Rightarrow> \<not> status_ok st
     | Inr es' \<Rightarrow> es' = placed kHeaderSize ?cells \<and>
         (status_ok (bw_status w') \<longrightarrow> status_ok (bw_status ?w) \<and> contents (bw_sink w') = contents (bw_sink ?w) @ body kHeaderSize ?cells \<and>
            bw_position w' = kHeaderSize + length (body kHeaderSize ?cells))"
    and run: "write_index k True s sink = (case r of Inl st \<Rightarrow> (Returned st, bw_sink w')
      | Inr es' \<Rightarrow> write_table k s (graph \<noteq> None) es' (up (kHeaderSize + length (body kHeaderSize ?cells)) kSectionAlignment) w')"
    and le: "kHeaderSize + length (body kHeaderSize ?cells) \<le> up (kHeaderSize + length (body kHeaderSize ?cells)) kSectionAlignment"
    using write_index_run [OF s small [unfolded graph_def], of sink] unfolding graph_def by metis
  have w: "status_ok (bw_status ?w) \<Longrightarrow> contents (bw_sink ?w) = replicate kHeaderSize 0"
    using appends_ok [OF zeros_appends, of kHeaderSize "new_writer sink"] sink by (simp add: new_writer_def)
  show ?thesis
  proof (cases r)
    case (Inl st)
    then show ?thesis using r run by simp
  next
    case (Inr es')
    then have e: "es' = placed kHeaderSize ?cells" and k: "status_ok (bw_status w') \<Longrightarrow>
      contents (bw_sink w') = replicate kHeaderSize 0 @ body kHeaderSize ?cells \<and> bw_position w' = kHeaderSize + length (body kHeaderSize ?cells)"
      using r w by auto
    then show ?thesis
      using write_table_exact [OF _ e k, of "up (kHeaderSize + length (body kHeaderSize ?cells)) kSectionAlignment" s "graph \<noteq> None"] run le Inr
      by (simp add: file_bytes_def Let_def add.commute)
  qed
qed

end

subsection \<open>Predicates kept by a sink\<close>

locale sink_invariant =
  fixes k :: "'s byte_sink" and P :: "'s \<Rightarrow> bool"
  assumes write_keeps: "P s \<Longrightarrow> P (snd (sk_write k s bs))"
    and write_at_keeps: "P s \<Longrightarrow> P (snd (sk_write_at k s off bs))"
begin

lemma bytes_keep: "P (bw_sink w) \<Longrightarrow> P (bw_sink (bw_bytes k bs w))"
  using write_keeps [of "bw_sink w" bs] by (auto simp: bw_bytes_def split: prod.splits)

lemma zeros_keep: "P (bw_sink w) \<Longrightarrow> P (bw_sink (bw_zeros k n w))"
proof (induction n arbitrary: w rule: less_induct)
  case (less n)
  then show ?case by (subst bw_zeros.simps) (simp add: bytes_keep)
qed

lemma array_keeps: "P (bw_sink w) \<Longrightarrow> P (bw_sink (bw_array k n vs w))"
  by (simp add: bw_array_def bytes_keep)

lemma lists_keep: "write_lists k g ps w = Some w' \<Longrightarrow> P (bw_sink w) \<Longrightarrow> P (bw_sink w')"
proof (induction ps arbitrary: w)
  case (Cons p ps)
  then show ?case by (cases p) (auto simp: io_write_list_def bytes_keep array_keeps zeros_keep bw_u32_def split: option.splits dest!: Cons.IH)
qed simp

lemma offsets_keep: "P (bw_sink w) \<Longrightarrow> P (bw_sink (write_offsets k m ls off w))"
  by (induction ls arbitrary: off w) (simp_all add: bw_u64_def bytes_keep)

lemma chunks_keep: "write_chunks k v d cs w = Some w' \<Longrightarrow> P (bw_sink w) \<Longrightarrow> P (bw_sink w')"
proof (induction cs arbitrary: w)
  case (Cons c cs)
  then show ?case by (auto simp: array_keeps split: option.splits dest!: Cons.IH)
qed simp

lemma metadata_keeps: "P (bw_sink w) \<Longrightarrow> P (bw_sink (encode_metadata k m w))"
  by (simp add: encode_metadata_def memory_writes bytes_keep)

lemma entries_keep: "P (bw_sink w) \<Longrightarrow> P (bw_sink (fold (encode_section_entry k) es w))"
  by (induction es arbitrary: w) (simp_all add: encode_section_entry_def memory_writes bytes_keep)

lemma plan_keeps: "p \<in> set (section_plan k s graph) \<Longrightarrow> ps_write p w = Some w' \<Longrightarrow> P (bw_sink w) \<Longrightarrow> P (bw_sink w')"
  by (auto simp: section_plan_def graph_plan_def Let_def write_levels_def write_l0_links_def write_upper_index_def write_upper_links_def
      write_tombstones_def metadata_keeps offsets_keep array_keeps bytes_keep dest: lists_keep chunks_keep split: option.splits if_splits)

lemma begin_crc_sink [simp]: "bw_sink (bw_begin_crc w) = bw_sink w"
  by (simp add: bw_begin_crc_def)

lemma sections_keep:
  "\<forall>p\<in>set ps. \<forall>w w'. ps_write p w = Some w' \<longrightarrow> P (bw_sink w) \<longrightarrow> P (bw_sink w') \<Longrightarrow> P (bw_sink w) \<Longrightarrow> P (bw_sink (snd (write_sections k ps es w)))"
proof (induction ps arbitrary: es w)
  case (Cons p ps)
  show ?case
  proof (cases es)
    case (Cons e es1)
    let ?w1 = "bw_begin_crc (bw_zeros k (unat (se_offset e) - bw_position w) w)"
    have w1: "P (bw_sink ?w1)" using Cons.prems(2) by (simp add: zeros_keep)
    show ?thesis
    proof (cases "ps_write p ?w1")
      case None
      then show ?thesis using w1 by (simp add: Cons Let_def)
    next
      case (Some w2)
      then have w2: "P (bw_sink w2)" using Cons.prems(1) w1 by auto
      have "P (bw_sink (snd (write_sections k ps es1 w2)))" using Cons.IH [of w2] Cons.prems(1) w2 by simp
      then show ?thesis using Some w2 by (auto simp: Cons Let_def split: prod.splits)
    qed
  qed (use Cons.prems in simp)
qed simp

lemma table_keeps: "P (bw_sink w) \<Longrightarrow> P (snd (write_table k s g es off w))"
proof -
  assume "P (bw_sink w)"
  then have w1: "P (bw_sink (fold (encode_section_entry k) es (bw_begin_crc (bw_zeros k (off - bw_position w) w))))" by (simp add: entries_keep zeros_keep)
  show ?thesis using w1 write_at_keeps [OF w1] by (auto simp: write_table_def Let_def split: prod.splits) (metis snd_conv)
qed

lemma index_keeps:
  assumes "P sink"
  shows "P (snd (write_index k mem s sink))"
proof -
  have z: "P (bw_sink (bw_zeros k kHeaderSize (new_writer sink)))" using assms by (simp add: zeros_keep new_writer_def)
  have "P (bw_sink (snd (write_sections k (section_plan k s g) es (bw_zeros k kHeaderSize (new_writer sink)))))" for es g
    by (rule sections_keep [OF _ z]) (blast intro: plan_keeps)
  then show ?thesis using assms table_keeps
    by (auto simp: write_index_def Let_def split: option.splits prod.splits outcome.splits sum.splits) (metis snd_conv)+
qed

end

subsection \<open>Sinks that do not fail\<close>

text \<open>A sink that does not fail while a predicate holds which writing keeps.\<close>

locale reliable_sink = sink_contract k contents + sink_invariant k P
  for k :: "'s byte_sink" and contents :: "'s \<Rightarrow> u8 list" and P :: "'s \<Rightarrow> bool" +
  assumes write_succeeds: "P s \<Longrightarrow> status_ok (fst (sk_write k s bs))"
    and write_at_succeeds: "P s \<Longrightarrow> off + length bs \<le> length (contents s) \<Longrightarrow> off + length bs < 2 ^ 64 \<Longrightarrow> status_ok (fst (sk_write_at k s off bs))"
begin

definition good :: "'s binary_writer \<Rightarrow> bool" where
  "good w \<longleftrightarrow> status_ok (bw_status w) \<and> P (bw_sink w)"

lemma bytes_good [intro]: "good w \<Longrightarrow> good (bw_bytes k bs w)"
  using write_succeeds [of "bw_sink w" bs] bytes_keep [of w bs] by (auto simp: good_def bw_bytes_def split: prod.splits)

lemma zeros_good: "good w \<Longrightarrow> good (bw_zeros k n w)"
proof (induction n arbitrary: w rule: less_induct)
  case (less n)
  then show ?case by (subst bw_zeros.simps) (simp add: bytes_good)
qed

lemma array_good: "good w \<Longrightarrow> good (bw_array k n vs w)"
  by (simp add: bw_array_def bytes_good)

lemma lists_good: "write_lists k g ps w = Some w' \<Longrightarrow> good w \<Longrightarrow> good w'"
proof (induction ps arbitrary: w)
  case (Cons p ps)
  then show ?case by (cases p) (auto simp: io_write_list_def array_good split: option.splits dest!: Cons.IH)
qed simp

lemma offsets_good: "good w \<Longrightarrow> good (write_offsets k m ls off w)"
  by (induction ls arbitrary: off w) (simp_all add: bw_u64_def bytes_good)

lemma chunks_good: "write_chunks k v d cs w = Some w' \<Longrightarrow> good w \<Longrightarrow> good w'"
proof (induction cs arbitrary: w)
  case (Cons c cs)
  then show ?case by (auto simp: array_good split: option.splits dest!: Cons.IH)
qed simp

lemma metadata_good: "good w \<Longrightarrow> good (encode_metadata k m w)"
  by (simp add: encode_metadata_def memory_writes bytes_good)

lemma entries_good: "good w \<Longrightarrow> good (fold (encode_section_entry k) es w)"
  by (induction es arbitrary: w) (simp_all add: encode_section_entry_def memory_writes bytes_good)

lemma plan_good: "p \<in> set (section_plan k s graph) \<Longrightarrow> ps_write p w = Some w' \<Longrightarrow> good w \<Longrightarrow> good w'"
  by (auto simp: section_plan_def graph_plan_def Let_def write_levels_def write_l0_links_def write_upper_index_def write_upper_links_def
      write_tombstones_def metadata_good offsets_good array_good dest: lists_good chunks_good split: option.splits if_splits)

lemma begin_crc_good: "good w \<Longrightarrow> good (bw_begin_crc w)"
  by (simp add: good_def bw_begin_crc_def)

lemma sections_succeed:
  "\<forall>p\<in>set ps. \<forall>w w'. ps_write p w = Some w' \<longrightarrow> good w \<longrightarrow> good w' \<Longrightarrow>
   write_sections k ps es w = (Returned r, w') \<Longrightarrow> good w \<Longrightarrow> (\<exists>es'. r = Inr es') \<and> good w'"
proof (induction ps arbitrary: es w r w')
  case (Cons p ps)
  show ?case
  proof (cases es)
    case (Cons e es1)
    let ?w1 = "bw_begin_crc (bw_zeros k (unat (se_offset e) - bw_position w) w)"
    obtain w2 where w2: "ps_write p ?w1 = Some w2" using Cons.prems(2) by (auto simp: Cons Let_def split: option.splits)
    have "good ?w1" using Cons.prems(3) by (intro begin_crc_good zeros_good)
    then have good: "good w2" using Cons.prems(1) w2 by auto
    then have ok: "status_ok (bw_status w2)" by (simp add: good_def)
    obtain r3 where r3: "write_sections k ps es1 w2 = (r3, w')"
      "Returned r = then_read r3 (\<lambda>es'. Returned (Inr (e\<lparr>se_crc32c := bw_crc w2\<rparr> # es')))"
      using Cons.prems(2) by (auto simp: Cons Let_def w2 ok split: if_splits prod.splits)
    then show ?thesis using Cons.IH [of es1 w2 _ w'] Cons.prems(1) good by (auto simp: then_read_def split: outcome.splits sum.splits)
  qed (use Cons.prems in auto)
qed auto

lemma table_succeeds:
  assumes "write_table k s has_graph es off w = (Returned st, sink)" "good w" "kHeaderSize \<le> length (contents (bw_sink w))"
  shows "status_ok st"
proof -
  let ?z = "bw_zeros k (off - bw_position w) w"
  let ?w1 = "fold (encode_section_entry k) es (bw_begin_crc ?z)"
  let ?h = "encode_header (header_for s has_graph (off + length es * kSectionEntrySize) off (length es) (bw_crc ?w1))"
  have g: "good ?z" "good ?w1" using assms(2) by (auto intro: entries_good begin_crc_good zeros_good)
  then have ok: "status_ok (bw_status ?z)" "status_ok (bw_status ?w1)" "P (bw_sink ?w1)" by (simp_all add: good_def)
  have "appends w0 (concat (map section_entry_bytes xs)) (fold (encode_section_entry k) xs w0)" for w0 xs
    by (induction xs arbitrary: w0) (auto simp: appends_Nil intro: appends_trans [OF section_entry_appends])
  from appends_ok [OF this ok(2)] have "length (contents (bw_sink ?z)) \<le> length (contents (bw_sink ?w1))" by (simp add: bw_begin_crc_def)
  moreover have "length (contents (bw_sink w)) \<le> length (contents (bw_sink ?z))" using appends_ok [OF zeros_appends ok(1)] by simp
  ultimately have "status_ok (fst (sk_write_at k (bw_sink ?w1) 0 ?h))"
    using assms(3) decode_encode_header(3) by (intro write_at_succeeds [OF ok(3)]) (simp_all add: kHeaderSize_def)
  then show ?thesis using assms(1) ok(2) by (auto simp: write_table_def Let_def split: prod.splits if_splits)
qed

lemma write_index_succeeds:
  assumes "writable s" "contents sink = []" "P sink" "reach kHeaderSize (section_cells s (graph_of (cs_backend s))) < 2 ^ 62"
  shows "\<exists>st sink'. write_index k True s sink = (Returned st, sink') \<and> status_ok st \<and>
    contents sink' = file_bytes s (graph_of (cs_backend s) \<noteq> None) (section_cells s (graph_of (cs_backend s)))"
proof -
  let ?graph = "graph_of (cs_backend s)" and ?w = "bw_zeros k kHeaderSize (new_writer sink)"
  let ?plan = "section_plan k s ?graph" and ?cells = "section_cells s ?graph"
  have g: "good ?w" using assms(3) by (intro zeros_good) (simp add: good_def new_writer_def)
  then have ok: "status_ok (bw_status ?w)" by (simp add: good_def)
  have pl: "\<forall>p\<in>set ?plan. \<forall>w w'. ps_write p w = Some w' \<longrightarrow> good w \<longrightarrow> good w'"
    using plan_good by blast
  obtain st sink' where st: "write_index k True s sink = (Returned st, sink')"
    "status_ok st \<longrightarrow> contents sink' = file_bytes s (?graph \<noteq> None) ?cells" using write_index_exact [OF assms(1,2,4)] by blast
  obtain es r w' where r: "write_sections k ?plan es ?w = (Returned r, w')"
    "case r of Inl st \<Rightarrow> \<not> status_ok st
     | Inr es' \<Rightarrow> es' = placed kHeaderSize ?cells \<and>
         (status_ok (bw_status w') \<longrightarrow> status_ok (bw_status ?w) \<and> contents (bw_sink w') = contents (bw_sink ?w) @ body kHeaderSize ?cells \<and>
            bw_position w' = kHeaderSize + length (body kHeaderSize ?cells))"
    "write_index k True s sink = (case r of Inl st \<Rightarrow> (Returned st, bw_sink w')
      | Inr es' \<Rightarrow> write_table k s (?graph \<noteq> None) es' (up (kHeaderSize + length (body kHeaderSize ?cells)) kSectionAlignment) w')"
    "kHeaderSize + length (body kHeaderSize ?cells) \<le> up (kHeaderSize + length (body kHeaderSize ?cells)) kSectionAlignment"
    by (rule write_index_run [OF assms(1,4), of sink])
  obtain es' where es': "r = Inr es'" "good w'" using sections_succeed [OF pl r(1) g] by blast
  have "contents (bw_sink ?w) = replicate kHeaderSize 0" using appends_ok [OF zeros_appends ok] assms(2) by (simp add: new_writer_def)
  then have len: "kHeaderSize \<le> length (contents (bw_sink w'))" using r(2) es' by (simp add: good_def)
  have "write_table k s (?graph \<noteq> None) es' (up (kHeaderSize + length (body kHeaderSize ?cells)) kSectionAlignment) w' = (Returned st, sink')"
    using r(3) st(1) unfolding es'(1) by (simp only: sum.case)
  then have "status_ok st" using es'(2) len by (rule table_succeeds)
  then show ?thesis using st by blast
qed

end

interpretation memory: reliable_sink memory_sink "\<lambda>m. m" "\<lambda>_. True"
  by unfold_locales (simp_all add: memory_sink_def memory_write_def memory_write_at_def checked_add_def)

end
