(* ===== verification/VF_Files.thy ===== *)
theory VF_Files
  imports VF_IndexWriter
begin

text \<open>
  Durable files: the POSIX implementation of the native file interface (\<^verbatim>\<open>src/storage/atomic_file_posix.cpp\<close>),
  the buffered output file, fault injection and \<open>write_atomic\<close> (\<^verbatim>\<open>src/storage/atomic_file.cpp\<close>). The
  environment is a world of directory entries, inodes and open descriptors; a list of events decides which
  system calls fail, are interrupted or write less than asked, and every disk state ever reached is kept in
  a history. After a crash an entry may have any value it had since the directory was last synced, and an
  inode that was not synced after its last change may hold anything.
\<close>

subsection \<open>The disk\<close>

text \<open>A path is a directory and a file name; the empty directory is the current one.\<close>

type_synonym path = "string \<times> string"

definition path_string :: "path \<Rightarrow> string" where
  "path_string p = (if fst p = [] then snd p else fst p @ ''/'' @ snd p)"

definition parent_dir :: "path \<Rightarrow> string" where
  "parent_dir p = (if fst p = [] then ''.'' else fst p)"

definition entry_key :: "path \<Rightarrow> path" where
  "entry_key p = (parent_dir p, snd p)"

record disk =
  dk_entry :: "path \<Rightarrow> nat option"
  dk_stable :: "path \<Rightarrow> nat option list"
  dk_data :: "nat \<Rightarrow> u8 list"
  dk_synced :: "nat \<Rightarrow> bool"
  dk_next :: nat

definition bind_entry :: "path \<Rightarrow> nat option \<Rightarrow> disk \<Rightarrow> disk" where
  "bind_entry k v d = d\<lparr>dk_entry := (dk_entry d)(k := v), dk_stable := (dk_stable d)(k := v # dk_stable d k)\<rparr>"

definition set_data :: "nat \<Rightarrow> u8 list \<Rightarrow> disk \<Rightarrow> disk" where
  "set_data i bs d = d\<lparr>dk_data := (dk_data d)(i := bs), dk_synced := (dk_synced d)(i := False)\<rparr>"

definition file_at :: "disk \<Rightarrow> path \<Rightarrow> u8 list option" where
  "file_at d k = map_option (dk_data d) (dk_entry d k)"

text \<open>What a crash may leave at an entry.\<close>

fun entry_values :: "disk \<Rightarrow> nat option \<Rightarrow> u8 list option set" where
  "entry_values d None = {None}"
| "entry_values d (Some i) = (if dk_synced d i then {Some (dk_data d i)} else - {None})"

definition crash_values :: "disk \<Rightarrow> path \<Rightarrow> u8 list option set" where
  "crash_values d k = (\<Union>e\<in>set (dk_stable d k). entry_values d e)"

subsection \<open>System calls\<close>

datatype event = Proceed | Fails string | Interrupted | Short nat

record world =
  wd_disk :: disk
  wd_fds :: "nat \<Rightarrow> (nat \<times> nat) option"
  wd_next_fd :: nat
  wd_events :: "event list"
  wd_history :: "disk list"
  wd_remaining :: u64
  wd_fired :: bool

definition next_event :: "world \<Rightarrow> event \<times> world" where
  "next_event w = (case wd_events w of [] \<Rightarrow> (Proceed, w) | e # es \<Rightarrow> (e, w\<lparr>wd_events := es\<rparr>))"

definition fault :: "event \<Rightarrow> string option" where
  "fault e = (case e of Fails t \<Rightarrow> Some t | Interrupted \<Rightarrow> Some ''Interrupted system call'' | _ \<Rightarrow> None)"

definition set_disk :: "disk \<Rightarrow> world \<Rightarrow> world" where
  "set_disk d w = w\<lparr>wd_disk := d, wd_history := wd_history w @ [d]\<rparr>"

text \<open>\<open>open\<close> with \<open>O_CREAT\<close> and \<open>O_TRUNC\<close>.\<close>

definition open_entry :: "path \<Rightarrow> disk \<Rightarrow> nat \<times> disk" where
  "open_entry k d =
     (case dk_entry d k of
        Some i \<Rightarrow> (i, set_data i [] d)
      | None \<Rightarrow> (dk_next d, set_data (dk_next d) [] (bind_entry k (Some (dk_next d)) (d\<lparr>dk_next := Suc (dk_next d)\<rparr>))))"

definition sys_open :: "path \<Rightarrow> world \<Rightarrow> (string + nat) \<times> world" where
  "sys_open p w =
     (case next_event w of (e, w1) \<Rightarrow>
       (case fault e of
          Some t \<Rightarrow> (Inl t, w1)
        | None \<Rightarrow>
            (case open_entry (entry_key p) (wd_disk w1) of (i, d) \<Rightarrow>
              (Inr (wd_next_fd w1), (set_disk d w1)\<lparr>wd_fds := (wd_fds w1)(wd_next_fd w1 \<mapsto> (i, 0)), wd_next_fd := Suc (wd_next_fd w1)\<rparr>))))"

text \<open>A handle is a descriptor, or invalid.\<close>

type_synonym handle = "nat option"

definition kInvalidHandle :: handle where "kInvalidHandle = None"

definition descriptor :: "world \<Rightarrow> handle \<Rightarrow> (nat \<times> nat) option" where
  "descriptor w h = (case h of None \<Rightarrow> None | Some fd \<Rightarrow> wd_fds w fd)"

text \<open>Bytes written at an offset; a gap before it reads as zeros.\<close>

definition write_bytes :: "nat \<Rightarrow> u8 list \<Rightarrow> u8 list \<Rightarrow> u8 list" where
  "write_bytes off bs data = (if bs = [] then data else take off (data @ replicate (off - length data) 0) @ bs @ drop (off + length bs) data)"

datatype write_result = Wrote nat | WriteInterrupted | WriteFailed string

definition event_count :: "event \<Rightarrow> nat \<Rightarrow> nat" where
  "event_count e n = (case e of Short m \<Rightarrow> min m n | _ \<Rightarrow> n)"

text \<open>\<open>write\<close> at the offset of the descriptor, which advances, and \<open>pwrite\<close> at a given offset.\<close>

definition sys_write :: "handle \<Rightarrow> nat option \<Rightarrow> u8 list \<Rightarrow> world \<Rightarrow> write_result \<times> world" where
  "sys_write h at bs w =
     (case next_event w of (e, w1) \<Rightarrow>
       (case e of
          Fails t \<Rightarrow> (WriteFailed t, w1)
        | Interrupted \<Rightarrow> (WriteInterrupted, w1)
        | _ \<Rightarrow>
            (case descriptor w1 h of
               None \<Rightarrow> (WriteFailed ''Bad file descriptor'', w1)
             | Some (i, off) \<Rightarrow>
                 let n = event_count e (length bs); here = (case at of None \<Rightarrow> off | Some x \<Rightarrow> x);
                     d = set_data i (write_bytes here (take n bs) (dk_data (wd_disk w1) i)) (wd_disk w1)
                 in (Wrote n, (set_disk d w1)\<lparr>wd_fds := (wd_fds w1)(the h \<mapsto> (i, if at = None then off + n else off))\<rparr>))))"

definition sys_fsync :: "handle \<Rightarrow> world \<Rightarrow> string option \<times> world" where
  "sys_fsync h w =
     (case next_event w of (e, w1) \<Rightarrow>
       (case fault e of
          Some t \<Rightarrow> (Some t, w1)
        | None \<Rightarrow>
            (case descriptor w1 h of
               None \<Rightarrow> (Some ''Bad file descriptor'', w1)
             | Some (i, off) \<Rightarrow> (None, set_disk ((wd_disk w1)\<lparr>dk_synced := (dk_synced (wd_disk w1))(i := True)\<rparr>) w1))))"

text \<open>A failed \<open>close\<close> releases the descriptor too.\<close>

definition sys_close :: "handle \<Rightarrow> world \<Rightarrow> string option \<times> world" where
  "sys_close h w =
     (case next_event w of (e, w1) \<Rightarrow>
       (case h of
          None \<Rightarrow> (Some ''Bad file descriptor'', w1)
        | Some fd \<Rightarrow> (fault e, w1\<lparr>wd_fds := (wd_fds w1)(fd := None)\<rparr>)))"

definition sys_rename :: "path \<Rightarrow> path \<Rightarrow> world \<Rightarrow> string option \<times> world" where
  "sys_rename from to w =
     (case next_event w of (e, w1) \<Rightarrow>
       (case fault e of
          Some t \<Rightarrow> (Some t, w1)
        | None \<Rightarrow>
            (case dk_entry (wd_disk w1) (entry_key from) of
               None \<Rightarrow> (Some ''No such file or directory'', w1)
             | Some i \<Rightarrow>
                 if entry_key from = entry_key to then (None, w1)
                 else (None, set_disk (bind_entry (entry_key from) None (bind_entry (entry_key to) (Some i) (wd_disk w1))) w1))))"

text \<open>\<open>fsync\<close> of a directory: its entries are now what they are.\<close>

definition sync_entries :: "string \<Rightarrow> disk \<Rightarrow> disk" where
  "sync_entries dir d = d\<lparr>dk_stable := (\<lambda>k. if fst k = dir then [dk_entry d k] else dk_stable d k)\<rparr>"

definition sys_fsync_dir :: "string \<Rightarrow> world \<Rightarrow> string option \<times> world" where
  "sys_fsync_dir dir w =
     (case next_event w of (e, w1) \<Rightarrow>
       (case fault e of Some t \<Rightarrow> (Some t, w1) | None \<Rightarrow> (None, set_disk (sync_entries dir (wd_disk w1)) w1)))"

text \<open>A call that only opens or closes something for reading.\<close>

definition sys_touch :: "world \<Rightarrow> string option \<times> world" where
  "sys_touch w = (case next_event w of (e, w1) \<Rightarrow> (fault e, w1))"

text \<open>\<^verbatim>\<open>std::filesystem::remove\<close>: whether a file was removed, and the error.\<close>

definition fs_remove :: "path \<Rightarrow> world \<Rightarrow> (bool \<times> string option) \<times> world" where
  "fs_remove p w =
     (case next_event w of (e, w1) \<Rightarrow>
       (case fault e of
          Some t \<Rightarrow> ((False, Some t), w1)
        | None \<Rightarrow>
            if dk_entry (wd_disk w1) (entry_key p) = None then ((False, None), w1)
            else ((True, None), set_disk (bind_entry (entry_key p) None (wd_disk w1)) w1)))"

subsection \<open>The native file interface\<close>

definition errno_error :: "string \<Rightarrow> string \<Rightarrow> string \<Rightarrow> status" where
  "errno_error what path t = io_error (what @ '' '' @ path @ '': '' @ t)"

definition create_truncate :: "path \<Rightarrow> world \<Rightarrow> handle result \<times> world" where
  "create_truncate p w =
     (case sys_open p w of
        (Inl t, w1) \<Rightarrow> (Inl (errno_error ''cannot create'' (path_string p) t), w1)
      | (Inr fd, w1) \<Rightarrow> (Inr (Some fd), w1))"

lemma next_event_events: "next_event w = (e, w1) \<Longrightarrow> length (wd_events w1) = length (wd_events w) - 1 \<and> (wd_events w = [] \<longrightarrow> e = Proceed)"
  by (auto simp: next_event_def split: list.splits)

lemma sys_write_progress:
  assumes "sys_write h at bs w = (r, w1)" "bs \<noteq> []"
  shows "r = WriteInterrupted \<Longrightarrow> length (wd_events w1) < length (wd_events w)"
    "r = Wrote n \<Longrightarrow> length (drop n bs) + length (wd_events w1) < length bs + length (wd_events w)"
proof -
  obtain e w0 where e: "next_event w = (e, w0)" by fastforce
  have ev: "wd_events w1 = wd_events w0"
    using assms(1) by (auto simp: sys_write_def e Let_def set_disk_def split: event.splits option.splits)
  show "length (wd_events w1) < length (wd_events w)" if "r = WriteInterrupted"
    using that assms(1) next_event_events [OF e] ev by (cases "wd_events w") (auto simp: sys_write_def e Let_def split: event.splits option.splits)
  show "length (drop n bs) + length (wd_events w1) < length bs + length (wd_events w)" if "r = Wrote n"
  proof (cases "wd_events w")
    case Nil
    then have "n = length bs" using that assms(1) next_event_events [OF e] by (auto simp: sys_write_def e Let_def event_count_def split: event.splits option.splits)
    then show ?thesis using assms(2) next_event_events [OF e] ev by (simp add: Nil)
  next
    case (Cons e' es)
    then show ?thesis using next_event_events [OF e] ev by auto
  qed
qed

function write_all :: "handle \<Rightarrow> u8 list \<Rightarrow> path \<Rightarrow> world \<Rightarrow> status \<times> world" where
  "write_all h bs p w =
     (if bs = [] then (ok_status, w)
      else case sys_write h None bs w of
             (WriteInterrupted, w1) \<Rightarrow> write_all h bs p w1
           | (WriteFailed t, w1) \<Rightarrow> (errno_error ''write failed for'' (path_string p) t, w1)
           | (Wrote n, w1) \<Rightarrow> write_all h (drop n bs) p w1)"
  by pat_completeness auto
termination
proof (relation "measure (\<lambda>(h, bs, p, w). length bs + length (wd_events w))", goal_cases)
  case 2
  then show ?case using sys_write_progress(2) [OF 2(2) [symmetric]] by simp
next
  case 3
  then show ?case using sys_write_progress(1) [OF 3(2) [symmetric]] by simp
qed simp

function write_all_at :: "handle \<Rightarrow> nat \<Rightarrow> u8 list \<Rightarrow> path \<Rightarrow> world \<Rightarrow> status \<times> world" where
  "write_all_at h off bs p w =
     (if bs = [] then (ok_status, w)
      else case sys_write h (Some off) bs w of
             (WriteInterrupted, w1) \<Rightarrow> write_all_at h off bs p w1
           | (WriteFailed t, w1) \<Rightarrow> (errno_error ''write failed for'' (path_string p) t, w1)
           | (Wrote n, w1) \<Rightarrow> write_all_at h (off + n) (drop n bs) p w1)"
  by pat_completeness auto
termination
proof (relation "measure (\<lambda>(h, off, bs, p, w). length bs + length (wd_events w))", goal_cases)
  case 2
  then show ?case using sys_write_progress(2) [OF 2(2) [symmetric]] by simp
next
  case 3
  then show ?case using sys_write_progress(1) [OF 3(2) [symmetric]] by simp
qed simp

declare write_all.simps [simp del] write_all_at.simps [simp del]

definition native_sync :: "handle \<Rightarrow> path \<Rightarrow> world \<Rightarrow> status \<times> world" where
  "native_sync h p w = (case sys_fsync h w of (Some t, w1) \<Rightarrow> (errno_error ''fsync failed for'' (path_string p) t, w1) | (None, w1) \<Rightarrow> (ok_status, w1))"

definition native_close :: "handle \<Rightarrow> path \<Rightarrow> world \<Rightarrow> status \<times> world" where
  "native_close h p w = (case sys_close h w of (Some t, w1) \<Rightarrow> (errno_error ''close failed for'' (path_string p) t, w1) | (None, w1) \<Rightarrow> (ok_status, w1))"

definition rename_replace :: "path \<Rightarrow> path \<Rightarrow> world \<Rightarrow> status \<times> world" where
  "rename_replace from to w =
     (case sys_rename from to w of
        (Some t, w1) \<Rightarrow> (errno_error (''cannot rename '' @ path_string from @ '' to'') (path_string to) t, w1)
      | (None, w1) \<Rightarrow> (ok_status, w1))"

definition sync_directory :: "string \<Rightarrow> world \<Rightarrow> status \<times> world" where
  "sync_directory dir w =
     (case sys_touch w of
        (Some t, w1) \<Rightarrow> (errno_error ''cannot open directory'' dir t, w1)
      | (None, w1) \<Rightarrow>
          (case sys_fsync_dir dir w1 of (rc, w2) \<Rightarrow>
            (case sys_touch w2 of (_, w3) \<Rightarrow>
              (case rc of Some t \<Rightarrow> (errno_error ''fsync failed for directory'' dir t, w3) | None \<Rightarrow> (ok_status, w3)))))"

subsection \<open>Fault injection\<close>

datatype fault_step = TempWritten | TempSynced | Renamed | DirectorySynced

fun fault_step_to_string :: "fault_step \<Rightarrow> string" where
  "fault_step_to_string TempWritten = ''temp-written''"
| "fault_step_to_string TempSynced = ''temp-synced''"
| "fault_step_to_string Renamed = ''renamed''"
| "fault_step_to_string DirectorySynced = ''directory-synced''"

definition kDisarmed :: u64 where "kDisarmed = NOT 0"

definition fault_arm :: "u64 \<Rightarrow> world \<Rightarrow> world" where
  "fault_arm n w = w\<lparr>wd_fired := False, wd_remaining := n\<rparr>"

definition fault_disarm :: "world \<Rightarrow> world" where
  "fault_disarm w = w\<lparr>wd_remaining := kDisarmed\<rparr>"

definition fault_fired :: "world \<Rightarrow> bool" where
  "fault_fired w = wd_fired w"

definition fault_check :: "fault_step \<Rightarrow> world \<Rightarrow> status \<times> world" where
  "fault_check step w =
     (let remaining = wd_remaining w
      in if remaining = kDisarmed then (ok_status, w)
         else let w1 = w\<lparr>wd_remaining := (if remaining = 0 then kDisarmed else remaining - 1)\<rparr>
              in if remaining = 0 then (io_error (''injected crash after step '' @ fault_step_to_string step), w1\<lparr>wd_fired := True\<rparr>)
                 else (ok_status, w1))"

subsection \<open>Output files\<close>

definition kBufferBytes :: nat where "kBufferBytes = 2 ^ 20"

record output_file =
  of_path :: path
  of_handle :: handle
  of_buffer :: "u8 list"
  of_written :: nat

type_synonym file_state = "output_file \<times> world"

text \<open>The buffer is allocated by the constructor; when that throws, the descriptor stays open.\<close>

definition out_create :: "bool \<Rightarrow> path \<Rightarrow> world \<Rightarrow> output_file result outcome \<times> world" where
  "out_create mem p w =
     (case create_truncate p w of
        (Inl st, w1) \<Rightarrow> (Returned (Inl st), w1)
      | (Inr h, w1) \<Rightarrow> if mem then (Returned (Inr \<lparr>of_path = p, of_handle = h, of_buffer = [], of_written = 0\<rparr>), w1) else (Thrown, w1))"

definition out_destroy :: "file_state \<Rightarrow> world" where
  "out_destroy s = (if of_handle (fst s) \<noteq> kInvalidHandle then snd (native_close (of_handle (fst s)) (of_path (fst s)) (snd s)) else snd s)"

definition out_flush :: "file_state \<Rightarrow> status \<times> file_state" where
  "out_flush s =
     (case s of (f, w) \<Rightarrow>
       if of_buffer f = [] then (ok_status, (f, w))
       else (case write_all (of_handle f) (of_buffer f) (of_path f) w of (st, w1) \<Rightarrow>
              if \<not> status_ok st then (st, (f, w1))
              else (ok_status, (f\<lparr>of_written := of_written f + length (of_buffer f), of_buffer := []\<rparr>, w1))))"

definition out_write :: "file_state \<Rightarrow> u8 list \<Rightarrow> status \<times> file_state" where
  "out_write s bs =
     (if of_handle (fst s) = kInvalidHandle then (io_error (''write to closed file '' @ path_string (of_path (fst s))), s)
      else if length (of_buffer (fst s)) + length bs \<le> kBufferBytes
      then (ok_status, ((fst s)\<lparr>of_buffer := of_buffer (fst s) @ bs\<rparr>, snd s))
      else (case out_flush s of (st, (f, w)) \<Rightarrow>
             if \<not> status_ok st then (st, (f, w))
             else if length bs \<ge> kBufferBytes
             then (case write_all (of_handle f) bs (of_path f) w of (st1, w1) \<Rightarrow>
                    if \<not> status_ok st1 then (st1, (f, w1)) else (ok_status, (f\<lparr>of_written := of_written f + length bs\<rparr>, w1)))
             else (ok_status, (f\<lparr>of_buffer := of_buffer f @ bs\<rparr>, w))))"

definition out_write_at :: "file_state \<Rightarrow> nat \<Rightarrow> u8 list \<Rightarrow> status \<times> file_state" where
  "out_write_at s off bs =
     (if of_handle (fst s) = kInvalidHandle then (io_error (''write to closed file '' @ path_string (of_path (fst s))), s)
      else (case out_flush s of (st, (f, w)) \<Rightarrow>
             if \<not> status_ok st then (st, (f, w))
             else if off > of_written f \<or> length bs > of_written f - off
             then (io_error (''write_at beyond written data in '' @ path_string (of_path f)), (f, w))
             else (case write_all_at (of_handle f) off bs (of_path f) w of (st1, w1) \<Rightarrow> (st1, (f, w1)))))"

definition out_sync :: "file_state \<Rightarrow> status \<times> file_state" where
  "out_sync s =
     (case out_flush s of (st, (f, w)) \<Rightarrow>
       if \<not> status_ok st then (st, (f, w)) else (case native_sync (of_handle f) (of_path f) w of (st1, w1) \<Rightarrow> (st1, (f, w1))))"

definition out_close :: "file_state \<Rightarrow> status \<times> file_state" where
  "out_close s =
     (if of_handle (fst s) = kInvalidHandle then (ok_status, s)
      else (case out_flush s of (flushed, (f, w)) \<Rightarrow>
             (case native_close (of_handle f) (of_path f) w of (closed, w1) \<Rightarrow>
               (if status_ok flushed then closed else flushed, (f\<lparr>of_handle := kInvalidHandle\<rparr>, w1)))))"

definition file_sink :: "file_state byte_sink" where
  "file_sink = \<lparr>sk_write = out_write, sk_write_at = out_write_at\<rparr>"

subsection \<open>Atomic replacement\<close>

definition temp_path :: "path \<Rightarrow> path" where
  "temp_path target = (fst target, snd target @ ''.tmp'')"

definition remove_temp :: "path \<Rightarrow> world \<Rightarrow> world" where
  "remove_temp target w = snd (fs_remove (temp_path target) w)"

text \<open>From the synced temporary file to the end.\<close>

definition publish_temp :: "path \<Rightarrow> world \<Rightarrow> status \<times> world" where
  "publish_temp target w =
     (case fault_check TempSynced w of (st1, w1) \<Rightarrow>
       if \<not> status_ok st1 then (st1, w1)
       else (case rename_replace (temp_path target) target w1 of (st2, w2) \<Rightarrow>
         if \<not> status_ok st2 then (st2, remove_temp target w2)
         else (case fault_check Renamed w2 of (st3, w3) \<Rightarrow>
           if \<not> status_ok st3 then (st3, w3)
           else (case sync_directory (parent_dir target) w3 of (st4, w4) \<Rightarrow>
             if \<not> status_ok st4 then (st4, w4) else fault_check DirectorySynced w4))))"

definition write_atomic :: "bool \<Rightarrow> path \<Rightarrow> (file_state \<Rightarrow> status outcome \<times> file_state) \<Rightarrow> world \<Rightarrow> status outcome \<times> world" where
  "write_atomic mem target write_contents w =
     (case out_create mem (temp_path target) w of
        (Thrown, w1) \<Rightarrow> (Thrown, w1)
      | (Aborted, w1) \<Rightarrow> (Aborted, w1)
      | (Returned (Inl st), w1) \<Rightarrow> (Returned st, w1)
      | (Returned (Inr out), w1) \<Rightarrow>
          (case write_contents (out, w1) of
             (Thrown, s2) \<Rightarrow> (Thrown, out_destroy s2)
           | (Aborted, s2) \<Rightarrow> (Aborted, snd s2)
           | (Returned st, s2) \<Rightarrow>
               if \<not> status_ok st then (Returned st, remove_temp target (snd (snd (out_close s2))))
               else (case fault_check TempWritten (snd s2) of (st3, w3) \<Rightarrow>
                 if \<not> status_ok st3 then (Returned st3, out_destroy (fst s2, w3))
                 else (case out_sync (fst s2, w3) of (st4, s4) \<Rightarrow>
                   if \<not> status_ok st4 then (Returned st4, remove_temp target (snd (snd (out_close s4))))
                   else (case out_close s4 of (st5, s5) \<Rightarrow>
                     if \<not> status_ok st5 then (Returned st5, remove_temp target (snd s5))
                     else (case publish_temp target (snd s5) of (st6, w6) \<Rightarrow> (Returned st6, w6)))))))"

end
