(* ===== verification/VF_FileSink.thy ===== *)
theory VF_FileSink
  imports VF_Files
begin

text \<open>
  The output file as a byte sink: the system call loops, what was written through a descriptor, and the
  interpretation of the sink contract on \<open>OutputFile\<close>. The locale \<open>sink_invariant\<close> carries a predicate of a
  sink through the whole index writer; with it a file that is being written changes its own inode only.
\<close>

subsection \<open>Disk states\<close>

definition only_inode :: "nat \<Rightarrow> disk \<Rightarrow> disk \<Rightarrow> bool" where
  "only_inode i d d' \<longleftrightarrow>
     dk_entry d' = dk_entry d \<and> dk_stable d' = dk_stable d \<and> dk_next d' = dk_next d \<and>
     (\<forall>j. j \<noteq> i \<longrightarrow> dk_data d' j = dk_data d j \<and> dk_synced d' j = dk_synced d j)"

lemma only_inode_refl [simp]: "only_inode i d d"
  by (simp add: only_inode_def)

lemma only_inode_trans: "only_inode i d0 d1 \<Longrightarrow> only_inode i d1 d2 \<Longrightarrow> only_inode i d0 d2"
  by (auto simp: only_inode_def)

lemma only_inode_data: "only_inode i d (set_data i bs d)" "only_inode i d (d\<lparr>dk_synced := (dk_synced d)(i := b)\<rparr>)"
  by (simp_all add: only_inode_def set_data_def)

lemma crash_only_inode:
  assumes "only_inode i d d'" "Some i \<notin> set (dk_stable d k)"
  shows "crash_values d' k = crash_values d k" "dk_entry d k \<in> set (dk_stable d k) \<Longrightarrow> file_at d' k = file_at d k"
proof -
  have "entry_values d' e = entry_values d e" if "e \<in> set (dk_stable d k)" for e
    using that assms by (cases "e = None") (auto simp: only_inode_def)
  then show "crash_values d' k = crash_values d k" using assms(1) by (simp add: crash_values_def only_inode_def)
  show "file_at d' k = file_at d k" if "dk_entry d k \<in> set (dk_stable d k)"
    using that assms by (cases "dk_entry d k = None") (auto simp: file_at_def only_inode_def)
qed

text \<open>No entry but its own leads to the inode of a temporary file.\<close>

definition is_temp :: "path \<Rightarrow> bool" where
  "is_temp k \<longleftrightarrow> (\<exists>n. snd k = n @ ''.tmp'')"

definition disk_ok :: "disk \<Rightarrow> bool" where
  "disk_ok d \<longleftrightarrow>
     (\<forall>k. dk_entry d k \<in> set (dk_stable d k)) \<and> (\<forall>k i. Some i \<in> set (dk_stable d k) \<longrightarrow> i < dk_next d) \<and>
     (\<forall>t k i. is_temp t \<longrightarrow> dk_entry d t = Some i \<longrightarrow> k \<noteq> t \<longrightarrow> Some i \<notin> set (dk_stable d k))"

lemma disk_okD:
  assumes "disk_ok d"
  shows "dk_entry d k \<in> set (dk_stable d k)" "Some i \<in> set (dk_stable d k) \<Longrightarrow> i < dk_next d"
    "is_temp t \<Longrightarrow> dk_entry d t = Some i \<Longrightarrow> k \<noteq> t \<Longrightarrow> Some i \<notin> set (dk_stable d k)"
  using assms unfolding disk_ok_def by blast+

lemma disk_ok_only_inode: "disk_ok d \<Longrightarrow> only_inode i d d' \<Longrightarrow> disk_ok d'"
  by (simp add: disk_ok_def only_inode_def)

lemma disk_ok_remove: "disk_ok d \<Longrightarrow> disk_ok (bind_entry k None d)"
  by (auto simp: disk_ok_def bind_entry_def)

lemma disk_ok_sync: "disk_ok d \<Longrightarrow> disk_ok (sync_entries dir d)"
proof -
  assume "disk_ok d"
  note D = disk_okD [OF this]
  have st: "set (dk_stable (sync_entries dir d) k) \<subseteq> set (dk_stable d k)" "dk_entry (sync_entries dir d) k \<in> set (dk_stable (sync_entries dir d) k)" for k
    using D(1) by (auto simp: sync_entries_def)
  have eq: "dk_entry (sync_entries dir d) = dk_entry d" "dk_next (sync_entries dir d) = dk_next d" by (simp_all add: sync_entries_def)
  show ?thesis using st(2) st(1) [THEN subsetD] D(2,3) unfolding disk_ok_def eq by blast
qed

lemma entry_values_cong: "dk_data d' = dk_data d \<Longrightarrow> dk_synced d' = dk_synced d \<Longrightarrow> entry_values d' e = entry_values d e"
  by (cases e) simp_all

lemma crash_bind_entry:
  "crash_values (bind_entry k v d) k' = (if k' = k then entry_values d v else {}) \<union> crash_values d k'"
  "file_at (bind_entry k v d) k' = (if k' = k then map_option (dk_data d) v else file_at d k')"
  using entry_values_cong [of "bind_entry k v d" d] by (auto simp: crash_values_def bind_entry_def file_at_def)

lemma crash_sync_entries:
  "crash_values (sync_entries dir d) k = (if fst k = dir then entry_values d (dk_entry d k) else crash_values d k)"
  "file_at (sync_entries dir d) k = file_at d k"
  using entry_values_cong [of "sync_entries dir d" d] by (auto simp: crash_values_def sync_entries_def file_at_def)

lemma current_crash_value: "disk_ok d \<Longrightarrow> entry_values d (dk_entry d k) \<subseteq> crash_values d k"
  using disk_okD(1) [of d k] by (auto simp: crash_values_def)

subsection \<open>What happens to the disk between two worlds\<close>

definition stays :: "(disk \<Rightarrow> bool) \<Rightarrow> world \<Rightarrow> world \<Rightarrow> bool" where
  "stays P w w' \<longleftrightarrow> (P (wd_disk w) \<longrightarrow> P (wd_disk w') \<and> (\<exists>ds. wd_history w' = wd_history w @ ds \<and> (\<forall>d\<in>set ds. P d)))"

lemma stays_same: "wd_disk w' = wd_disk w \<Longrightarrow> wd_history w' = wd_history w \<Longrightarrow> stays P w w'"
  by (simp add: stays_def)

lemma stays_refl [simp]: "stays P w w"
  by (simp add: stays_same)

lemma stays_trans: "stays P w w1 \<Longrightarrow> stays P w1 w2 \<Longrightarrow> stays P w w2"
  by (fastforce simp: stays_def)

lemma stays_set_disk: "(P (wd_disk w) \<Longrightarrow> P d) \<Longrightarrow> wd_disk w' = d \<Longrightarrow> wd_history w' = wd_history w @ [d] \<Longrightarrow> stays P w w'"
  by (simp add: stays_def)

lemma stays_weaken: "stays Q w w' \<Longrightarrow> Q (wd_disk w) \<Longrightarrow> (\<And>d. Q d \<Longrightarrow> P d) \<Longrightarrow> stays P w w'"
  unfolding stays_def by blast

lemma next_event_same:
  "next_event w = (e, w1) \<Longrightarrow> wd_disk w1 = wd_disk w \<and> wd_history w1 = wd_history w \<and> wd_fds w1 = wd_fds w \<and> wd_next_fd w1 = wd_next_fd w"
  by (auto simp: next_event_def split: list.splits)

subsection \<open>The writing loops\<close>

lemma errno_not_ok [simp]: "\<not> status_ok (errno_error what p t)"
  by (simp add: errno_error_def)

lemma write_bytes_Nil [simp]: "write_bytes off [] data = data"
  by (simp add: write_bytes_def)

lemma write_bytes_append: "write_bytes (off + length xs) ys (write_bytes off xs data) = write_bytes off (xs @ ys) data"
proof -
  have "min (length data) off + (off - length data) = off" by simp
  then show ?thesis by (cases "xs = []"; cases "ys = []") (simp_all add: write_bytes_def add.assoc add.commute [of "length ys"])
qed

lemma sys_write_effect:
  assumes "sys_write h at bs w = (r, w1)" "descriptor w h = Some (i, off)"
  defines "here \<equiv> case at of None \<Rightarrow> off | Some x \<Rightarrow> x"
  shows "\<exists>n\<le>length bs. (\<forall>m. r = Wrote m \<longrightarrow> m = n) \<and> ((\<forall>m. r \<noteq> Wrote m) \<longrightarrow> n = 0) \<and>
    wd_fds w1 = (wd_fds w)(the h \<mapsto> (i, if at = None then off + n else off)) \<and>
    dk_data (wd_disk w1) i = write_bytes here (take n bs) (dk_data (wd_disk w) i) \<and> (\<forall>d. stays (only_inode i d) w w1)"
proof -
  obtain e w0 where e: "next_event w = (e, w0)" by fastforce
  note same = next_event_same [OF e]
  have d0: "descriptor w0 h = Some (i, off)" using assms(2) same by (cases h) (simp_all add: descriptor_def)
  have fd: "(wd_fds w)(the h \<mapsto> (i, off)) = wd_fds w" using assms(2) by (auto simp: descriptor_def split: option.splits)
  show ?thesis
  proof (cases "\<exists>m. r = Wrote m")
    case True
    then obtain n where r: "r = Wrote n" by blast
    then have n: "n = event_count e (length bs)" and w1: "w1 = (set_disk (set_data i (write_bytes here (take n bs) (dk_data (wd_disk w0) i)) (wd_disk w0)) w0)
        \<lparr>wd_fds := (wd_fds w0)(the h \<mapsto> (i, if at = None then off + n else off))\<rparr>"
      using assms(1) d0 by (auto simp: sys_write_def e Let_def here_def split: event.splits)
    have "n \<le> length bs" by (auto simp: n event_count_def split: event.split)
    moreover have "stays (only_inode i d) w w1" for d
      by (rule stays_set_disk) (auto simp: w1 set_disk_def same intro: only_inode_trans only_inode_data)
    ultimately show ?thesis using r by (intro exI [of _ n]) (simp add: w1 set_disk_def set_data_def same)
  next
    case False
    then have "w1 = w0" using assms(1) d0 by (auto simp: sys_write_def e Let_def split: event.splits)
    then show ?thesis using False fd same by (intro exI [of _ 0]) (auto intro: stays_same)
  qed
qed

lemma write_all_effect:
  "write_all h bs p w = (st, w') \<Longrightarrow> descriptor w h = Some (i, off) \<Longrightarrow>
   \<exists>n\<le>length bs. (status_ok st \<longrightarrow> n = length bs) \<and> wd_fds w' = (wd_fds w)(the h \<mapsto> (i, off + n)) \<and>
     dk_data (wd_disk w') i = write_bytes off (take n bs) (dk_data (wd_disk w) i) \<and> (\<forall>d. stays (only_inode i d) w w')"
proof (induction h bs p w arbitrary: off rule: write_all.induct)
  case (1 h bs p w)
  have fd: "(wd_fds w)(the h \<mapsto> (i, off)) = wd_fds w" "h \<noteq> None" using 1(4) by (auto simp: descriptor_def split: option.splits)
  show ?case
  proof (cases "bs = []")
    case True
    then show ?thesis using 1(3) fd(1) by (intro exI [of _ 0]) (simp add: write_all.simps)
  next
    case False
    obtain r w1 where r: "sys_write h None bs w = (r, w1)" by fastforce
    obtain m where m: "m \<le> length bs" "\<And>x. r = Wrote x \<Longrightarrow> x = m" "(\<And>x. r \<noteq> Wrote x) \<Longrightarrow> m = 0" "wd_fds w1 = (wd_fds w)(the h \<mapsto> (i, off + m))"
      "dk_data (wd_disk w1) i = write_bytes off (take m bs) (dk_data (wd_disk w) i)" "\<And>d. stays (only_inode i d) w w1"
      using sys_write_effect [OF r 1(4)] by auto
    have d1: "descriptor w1 h = Some (i, off + m)" using fd(2) by (auto simp: descriptor_def m(4))
    show ?thesis
    proof (cases r)
      case (Wrote x)
      then have run: "write_all h (drop m bs) p w1 = (st, w')" using 1(3) False r m(2) by (subst (asm) write_all.simps) simp
      obtain n where n: "n \<le> length (drop m bs)" "status_ok st \<longrightarrow> n = length (drop m bs)" "wd_fds w' = (wd_fds w1)(the h \<mapsto> (i, off + m + n))"
        "dk_data (wd_disk w') i = write_bytes (off + m) (take n (drop m bs)) (dk_data (wd_disk w1) i)" "\<And>d. stays (only_inode i d) w1 w'"
        using 1(1) [OF False r [symmetric]] run d1 m(2) Wrote by blast
      have "take (m + n) bs = take m bs @ take n (drop m bs)" by (simp add: take_add)
      then have "write_bytes (off + m) (take n (drop m bs)) (write_bytes off (take m bs) data) = write_bytes off (take (m + n) bs) data" for data
        using write_bytes_append [of off "take m bs"] m(1) by simp
      moreover have "stays (only_inode i d) w w'" for d using stays_trans [OF m(6) n(5)] .
      ultimately show ?thesis using n m by (intro exI [of _ "m + n"]) (auto simp: add.assoc)
    next
      case WriteInterrupted
      then have run: "write_all h bs p w1 = (st, w')" and "m = 0" using 1(3) False r m(3) by (subst (asm) write_all.simps; simp)+
      then have w1: "wd_fds w1 = wd_fds w" "dk_data (wd_disk w1) i = dk_data (wd_disk w) i" "descriptor w1 h = Some (i, off)" using m(4,5) fd d1 by simp_all
      obtain n where n: "n \<le> length bs" "status_ok st \<longrightarrow> n = length bs" "wd_fds w' = (wd_fds w1)(the h \<mapsto> (i, off + n))"
        "dk_data (wd_disk w') i = write_bytes off (take n bs) (dk_data (wd_disk w1) i)" "\<And>d. stays (only_inode i d) w1 w'"
        using 1(2) [OF False r [symmetric] WriteInterrupted run w1(3)] by blast
      have "\<forall>d. stays (only_inode i d) w w'" using stays_trans [OF m(6) n(5)] by blast
      then show ?thesis using n(1-4) w1 by (intro exI [of _ n]) simp
    next
      case (WriteFailed t)
      then have "w' = w1" "\<not> status_ok st" "m = 0" using 1(3) False r m(3) by (auto simp: write_all.simps [of h bs p w])
      then show ?thesis using m fd(1) by (intro exI [of _ 0]) simp
    qed
  qed
qed

lemma write_all_at_effect:
  "write_all_at h off bs p w = (st, w') \<Longrightarrow> descriptor w h = Some (i, pos) \<Longrightarrow>
   \<exists>n\<le>length bs. (status_ok st \<longrightarrow> n = length bs) \<and> wd_fds w' = wd_fds w \<and>
     dk_data (wd_disk w') i = write_bytes off (take n bs) (dk_data (wd_disk w) i) \<and> (\<forall>d. stays (only_inode i d) w w')"
proof (induction h off bs p w rule: write_all_at.induct)
  case (1 h off bs p w)
  have fd: "(wd_fds w)(the h \<mapsto> (i, pos)) = wd_fds w" using 1(4) by (auto simp: descriptor_def split: option.splits)
  show ?case
  proof (cases "bs = []")
    case True
    then show ?thesis using 1(3) by (intro exI [of _ 0]) (simp add: write_all_at.simps)
  next
    case False
    obtain r w1 where r: "sys_write h (Some off) bs w = (r, w1)" by fastforce
    obtain m where m: "m \<le> length bs" "\<And>x. r = Wrote x \<Longrightarrow> x = m" "(\<And>x. r \<noteq> Wrote x) \<Longrightarrow> m = 0" "wd_fds w1 = wd_fds w"
      "dk_data (wd_disk w1) i = write_bytes off (take m bs) (dk_data (wd_disk w) i)" "\<And>d. stays (only_inode i d) w w1"
      using sys_write_effect [OF r 1(4)] fd by auto
    have d1: "descriptor w1 h = Some (i, pos)" using 1(4) m(4) by (cases h) (simp_all add: descriptor_def)
    show ?thesis
    proof (cases r)
      case (Wrote x)
      then have run: "write_all_at h (off + m) (drop m bs) p w1 = (st, w')" using 1(3) False r m(2) by (subst (asm) write_all_at.simps) simp
      obtain n where n: "n \<le> length (drop m bs)" "status_ok st \<longrightarrow> n = length (drop m bs)" "wd_fds w' = wd_fds w1"
        "dk_data (wd_disk w') i = write_bytes (off + m) (take n (drop m bs)) (dk_data (wd_disk w1) i)" "\<And>d. stays (only_inode i d) w1 w'"
        using 1(1) [OF False r [symmetric]] run d1 m(2) Wrote by blast
      have "take (m + n) bs = take m bs @ take n (drop m bs)" by (simp add: take_add)
      then have "write_bytes (off + m) (take n (drop m bs)) (write_bytes off (take m bs) data) = write_bytes off (take (m + n) bs) data" for data
        using write_bytes_append [of off "take m bs"] m(1) by simp
      moreover have "stays (only_inode i d) w w'" for d using stays_trans [OF m(6) n(5)] .
      ultimately show ?thesis using n m by (intro exI [of _ "m + n"]) auto
    next
      case WriteInterrupted
      then have run: "write_all_at h off bs p w1 = (st, w')" and "m = 0" using 1(3) False r m(3) by (subst (asm) write_all_at.simps; simp)+
      then have w1: "wd_fds w1 = wd_fds w" "dk_data (wd_disk w1) i = dk_data (wd_disk w) i" using m(4,5) by simp_all
      obtain n where n: "n \<le> length bs" "status_ok st \<longrightarrow> n = length bs" "wd_fds w' = wd_fds w1"
        "dk_data (wd_disk w') i = write_bytes off (take n bs) (dk_data (wd_disk w1) i)" "\<And>d. stays (only_inode i d) w1 w'"
        using 1(2) [OF False r [symmetric] WriteInterrupted run d1] by blast
      have "\<forall>d. stays (only_inode i d) w w'" using stays_trans [OF m(6) n(5)] by blast
      then show ?thesis using n(1-4) w1 by (intro exI [of _ n]) simp
    next
      case (WriteFailed t)
      then have "w' = w1" "\<not> status_ok st" "m = 0" using 1(3) False r m(3) by (auto simp: write_all_at.simps [of h off bs p w])
      then show ?thesis using m by auto
    qed
  qed
qed

text \<open>A handle without a descriptor writes nothing.\<close>

lemma sys_write_closed:
  assumes "sys_write h at bs w = (r, w1)" "descriptor w h = None"
  shows "\<not> (\<exists>n. r = Wrote n)" "descriptor w1 h = None"
proof -
  obtain e w0 where e: "next_event w = (e, w0)" by fastforce
  have d0: "descriptor w0 h = None" using assms(2) next_event_same [OF e] by (cases h) (simp_all add: descriptor_def)
  then have "w1 = w0 \<and> \<not> (\<exists>n. r = Wrote n)" using assms(1) by (auto simp: sys_write_def e split: event.splits)
  then show "\<not> (\<exists>n. r = Wrote n)" "descriptor w1 h = None" using d0 by simp_all
qed

lemma write_all_closed: "descriptor w h = None \<Longrightarrow> status_ok (fst (write_all h bs p w)) \<Longrightarrow> bs = [] \<and> snd (write_all h bs p w) = w"
proof (induction h bs p w rule: write_all.induct)
  case (1 h bs p w)
  obtain r w1 where r: "sys_write h None bs w = (r, w1)" by fastforce
  note closed = sys_write_closed [OF r 1(3)]
  show ?case
  proof (cases "bs = []")
    case False
    then have False
    proof (cases r)
      case WriteInterrupted
      then show ?thesis using 1(2) [OF False r [symmetric] WriteInterrupted closed(2)] 1(4) False r by (subst (asm) write_all.simps) simp
    qed (use closed 1(4) r in \<open>simp_all add: write_all.simps [of h bs p w]\<close>)
    then show ?thesis ..
  qed (simp add: write_all.simps)
qed

lemma write_all_at_closed: "descriptor w h = None \<Longrightarrow> status_ok (fst (write_all_at h off bs p w)) \<Longrightarrow> bs = [] \<and> snd (write_all_at h off bs p w) = w"
proof (induction h off bs p w rule: write_all_at.induct)
  case (1 h off bs p w)
  obtain r w1 where r: "sys_write h (Some off) bs w = (r, w1)" by fastforce
  note closed = sys_write_closed [OF r 1(3)]
  show ?case
  proof (cases "bs = []")
    case False
    then have False
    proof (cases r)
      case WriteInterrupted
      then show ?thesis using 1(2) [OF False r [symmetric] WriteInterrupted closed(2)] 1(4) False r by (subst (asm) write_all_at.simps) simp
    qed (use closed 1(4) r in \<open>simp_all add: write_all_at.simps [of h off bs p w]\<close>)
    then show ?thesis ..
  qed (simp add: write_all_at.simps)
qed

subsection \<open>The output file as a sink\<close>

text \<open>What was written through a descriptor: the bytes before its offset.\<close>

definition before :: "nat \<Rightarrow> u8 list \<Rightarrow> u8 list" where
  "before off data = take off (data @ replicate (off - length data) 0)"

lemma length_before [simp]: "length (before off data) = off"
  by (simp add: before_def)

lemma before_0 [simp]: "before 0 data = []"
  by (simp add: before_def)

lemma before_all: "before (length data) data = data"
  by (simp add: before_def)

lemma before_write: "before (off + length bs) (write_bytes off bs data) = before off data @ bs"
proof (cases "bs = []")
  case False
  then have "write_bytes off bs data = before off data @ bs @ drop (off + length bs) data" by (simp add: write_bytes_def before_def)
  then show ?thesis by (simp add: before_def)
qed simp

lemma before_write_at:
  assumes "off + length bs \<le> pos"
  shows "before pos (write_bytes off bs data) = take off (before pos data) @ bs @ drop (off + length bs) (before pos data)"
proof (cases "bs = []")
  case False
  have *: "take off (data @ replicate (off - length data) 0) = take off (before pos data)" using assms by (simp add: before_def)
  have **: "before pos (xs @ drop (length xs) data) = xs @ drop (length xs) (before pos data)" if "length xs \<le> pos" for xs
    using that by (simp add: before_def drop_take take_append)
  have "length (take off (before pos data) @ bs) = off + length bs" using assms by simp
  then show ?thesis using False ** [of "take off (before pos data) @ bs"] assms unfolding write_bytes_def * by simp
qed simp

definition handed :: "file_state \<Rightarrow> u8 list" where
  "handed s = (case descriptor (snd s) (of_handle (fst s)) of None \<Rightarrow> [] | Some (i, off) \<Rightarrow> before off (dk_data (wd_disk (snd s)) i))"

lemma handed_pair: "handed (f, w) = (case descriptor w (of_handle f) of None \<Rightarrow> [] | Some (i, off) \<Rightarrow> before off (dk_data (wd_disk w) i))"
  by (simp only: handed_def fst_conv snd_conv)

definition file_contents :: "file_state \<Rightarrow> u8 list" where
  "file_contents s = handed s @ of_buffer (fst s)"

lemma write_all_handed:
  assumes "write_all (of_handle f) bs p w = (st, w')" "status_ok st" and that: "of_handle f' = of_handle f"
  shows "handed (f', w') = handed (f, w) @ bs"
proof (cases "descriptor w (of_handle f)")
  case None
  then show ?thesis using write_all_closed [OF None, of bs p] assms that by (simp add: handed_pair)
next
  case (Some io)
  obtain i off where io: "io = (i, off)" by (cases io)
  obtain fd where fd: "of_handle f = Some fd" using Some by (cases "of_handle f") (simp_all add: descriptor_def)
  have "wd_fds w' = (wd_fds w)(fd \<mapsto> (i, off + length bs))" "dk_data (wd_disk w') i = write_bytes off bs (dk_data (wd_disk w) i)"
    using write_all_effect [OF assms(1) Some [unfolded io]] assms(2) by (auto simp: fd)
  then show ?thesis using Some that before_write [of off bs] by (simp add: handed_pair descriptor_def fd io)
qed

lemma write_all_at_handed:
  assumes "write_all_at (of_handle f) off bs p w = (st, w')" "status_ok st" "off + length bs \<le> length (handed (f, w))"
  shows "handed (f, w') = take off (handed (f, w)) @ bs @ drop (off + length bs) (handed (f, w))"
proof (cases "descriptor w (of_handle f)")
  case None
  then show ?thesis using write_all_at_closed [OF None, of off bs p] assms by (simp add: handed_pair)
next
  case (Some io)
  obtain i pos where io: "io = (i, pos)" by (cases io)
  have "wd_fds w' = wd_fds w" "dk_data (wd_disk w') i = write_bytes off bs (dk_data (wd_disk w) i)"
    using write_all_at_effect [OF assms(1) Some [unfolded io]] assms(2) by auto
  moreover from this have "descriptor w' (of_handle f) = Some (i, pos)" using Some by (cases "of_handle f") (simp_all add: descriptor_def io)
  moreover have "off + length bs \<le> pos" using assms(3) Some by (simp add: handed_pair io)
  ultimately show ?thesis using Some before_write_at [of off bs pos] by (simp add: handed_pair io)
qed

lemma flush_handed:
  assumes "out_flush s = (st, s')" "status_ok st"
  shows "handed s' = file_contents s" "of_buffer (fst s') = []" "of_handle (fst s') = of_handle (fst s)"
proof -
  obtain f w where s: "s = (f, w)" by (cases s)
  have "handed s' = file_contents s \<and> of_buffer (fst s') = [] \<and> of_handle (fst s') = of_handle (fst s)"
  proof (cases "of_buffer f = []")
    case False
    then obtain w1 st1 where w: "write_all (of_handle f) (of_buffer f) (of_path f) w = (st1, w1)" "status_ok st1"
      "s' = (f\<lparr>of_written := of_written f + length (of_buffer f), of_buffer := []\<rparr>, w1)"
      using assms by (auto simp: out_flush_def s split: prod.splits if_splits)
    then show ?thesis using write_all_handed [OF w(1,2)] by (simp add: file_contents_def s)
  qed (use assms in \<open>auto simp: out_flush_def file_contents_def s\<close>)
  then show "handed s' = file_contents s" "of_buffer (fst s') = []" "of_handle (fst s') = of_handle (fst s)" by simp_all
qed

interpretation out: sink_contract file_sink file_contents
proof
  show "file_contents s' = file_contents s @ bs" if that_w: "sk_write file_sink s bs = (st, s')" and that_ok: "status_ok st" for s bs st s'
  proof -
    obtain f w where s: "s = (f, w)" by (cases s)
    have ow: "out_write (f, w) bs = (st, s')" using that_w by (simp add: file_sink_def s)
    show ?thesis
    proof (cases "length (of_buffer f) + length bs \<le> kBufferBytes")
      case True
      then show ?thesis using ow that_ok by (auto simp: out_write_def s file_contents_def handed_pair split: if_splits)
    next
      case False
      obtain st1 f1 w1 where fl: "out_flush (f, w) = (st1, (f1, w1))" by (metis prod.exhaust)
      have ok: "status_ok st1" "of_handle f \<noteq> kInvalidHandle" using ow that_ok False fl by (auto simp: out_write_def split: if_splits)
      note F = flush_handed [OF fl ok(1), simplified]
      show ?thesis
      proof (cases "length bs \<ge> kBufferBytes")
        case True
        then obtain st2 w2 where wa: "write_all (of_handle f1) bs (of_path f1) w1 = (st2, w2)" "status_ok st2" "s' = (f1\<lparr>of_written := of_written f1 + length bs\<rparr>, w2)"
          using ow that_ok False fl ok by (auto simp: out_write_def split: prod.splits if_splits)
        then show ?thesis using write_all_handed [OF wa(1,2)] F by (simp add: file_contents_def s)
      next
        case small: False
        then have "s' = (f1\<lparr>of_buffer := of_buffer f1 @ bs\<rparr>, w1)" using ow False fl ok by (auto simp: out_write_def)
        then show ?thesis using F by (simp add: file_contents_def handed_pair s)
      qed
    qed
  qed
  show "file_contents s' = take off (file_contents s) @ bs @ drop (off + length bs) (file_contents s)"
    if a: "sk_write_at file_sink s off bs = (st, s')" "status_ok st" "off + length bs \<le> length (file_contents s)" for s off bs st s'
  proof -
    obtain f w where s: "s = (f, w)" by (cases s)
    obtain st1 f1 w1 where fl: "out_flush (f, w) = (st1, (f1, w1))" by (metis prod.exhaust)
    have ok: "status_ok st1" using a(1,2) fl by (auto simp: file_sink_def out_write_at_def s split: if_splits)
    note F = flush_handed [OF fl ok, simplified]
    obtain w2 where wa: "write_all_at (of_handle f1) off bs (of_path f1) w1 = (st, w2)" "s' = (f1, w2)"
      using a(1,2) fl ok by (auto simp: file_sink_def out_write_at_def s split: prod.splits if_splits)
    then show ?thesis using write_all_at_handed [OF wa(1) a(2)] a(3) F by (simp add: file_contents_def s)
  qed
qed

subsection \<open>The temporary file while it is written\<close>

definition writing :: "nat \<Rightarrow> nat \<Rightarrow> world \<Rightarrow> file_state \<Rightarrow> bool" where
  "writing fd i w1 s \<longleftrightarrow>
     of_handle (fst s) = Some fd \<and> wd_fds (snd s) fd = Some (i, length (dk_data (wd_disk (snd s)) i)) \<and>
     of_written (fst s) \<le> length (dk_data (wd_disk (snd s)) i) \<and> stays (only_inode i (wd_disk w1)) w1 (snd s)"

lemma write_bytes_end: "write_bytes (length data) bs data = data @ bs"
  by (simp add: write_bytes_def)

lemma length_write_bytes: "off + length bs \<le> length data \<Longrightarrow> length (write_bytes off bs data) = length data"
  by (simp add: write_bytes_def)

lemma writing_descriptor:
  assumes "writing fd i w1 (f, w)"
  shows "descriptor w (of_handle f) = Some (i, length (dk_data (wd_disk w) i))" "of_handle f = Some fd" "handed (f, w) = dk_data (wd_disk w) i"
  using assms by (simp_all add: writing_def descriptor_def handed_pair before_all)

lemma writing_same:
  "writing fd i w1 (f, w) \<Longrightarrow> of_handle f' = of_handle f \<Longrightarrow> of_written f' = of_written f \<Longrightarrow> wd_fds w' = wd_fds w \<Longrightarrow> wd_disk w' = wd_disk w \<Longrightarrow>
   wd_history w' = wd_history w \<Longrightarrow> writing fd i w1 (f', w')"
  by (simp add: writing_def stays_def)

lemma write_all_writing:
  assumes "writing fd i w1 (f, w)" "write_all (of_handle f) bs p w = (st, w')" "of_handle f' = of_handle f"
    "of_written f' \<le> of_written f + (if status_ok st then length bs else 0)"
  shows "writing fd i w1 (f', w')"
proof -
  note D = writing_descriptor [OF assms(1)]
  obtain n where n: "n \<le> length bs" "status_ok st \<longrightarrow> n = length bs" "wd_fds w' = (wd_fds w)(fd \<mapsto> (i, length (dk_data (wd_disk w) i) + n))"
    "dk_data (wd_disk w') i = dk_data (wd_disk w) i @ take n bs" "\<And>d. stays (only_inode i d) w w'"
    using write_all_effect [OF assms(2) D(1)] D(2) by (auto simp: write_bytes_end)
  have "stays (only_inode i (wd_disk w1)) w1 w'" using assms(1) n(5) stays_trans unfolding writing_def snd_conv by blast
  then show ?thesis using assms n(1-4) D(2) by (auto simp: writing_def split: if_splits)
qed

lemma flush_writing:
  assumes "writing fd i w1 s" "out_flush s = (st, s')"
  shows "writing fd i w1 s'"
proof -
  obtain f w where s: "s = (f, w)" by (cases s)
  show ?thesis
  proof (cases "of_buffer f = []")
    case False
    obtain st1 w' where w': "write_all (of_handle f) (of_buffer f) (of_path f) w = (st1, w')" by fastforce
    show ?thesis using assms write_all_writing [OF assms(1) [unfolded s] w'] w' False by (auto simp: out_flush_def s split: if_splits)
  qed (use assms in \<open>auto simp: out_flush_def s\<close>)
qed

lemma write_writing:
  assumes "writing fd i w1 s"
  shows "writing fd i w1 (snd (out_write s bs))"
proof -
  obtain f w where s: "s = (f, w)" by (cases s)
  obtain st1 f1 w2 where fl: "out_flush s = (st1, (f1, w2))" by (metis prod.exhaust)
  have w2: "writing fd i w1 (f1, w2)" by (rule flush_writing [OF assms fl])
  obtain st2 w3 where wa: "write_all (of_handle f1) bs (of_path f1) w2 = (st2, w3)" by fastforce
  note W = write_all_writing [OF w2 wa]
  have "writing fd i w1 (f1, w3)" "status_ok st2 \<Longrightarrow> writing fd i w1 (f1\<lparr>of_written := of_written f1 + length bs\<rparr>, w3)"
    using W [of f1] W [of "f1\<lparr>of_written := of_written f1 + length bs\<rparr>"] by simp_all
  moreover have "writing fd i w1 (f\<lparr>of_buffer := of_buffer f @ bs\<rparr>, w)" "writing fd i w1 (f1\<lparr>of_buffer := of_buffer f1 @ bs\<rparr>, w2)"
    using assms w2 by (simp_all add: writing_def s)
  ultimately show ?thesis using assms w2 by (simp add: out_write_def fl wa) (simp add: s)
qed

lemma write_at_writing:
  assumes "writing fd i w1 s"
  shows "writing fd i w1 (snd (out_write_at s off bs))"
proof -
  obtain st1 f w where fl: "out_flush s = (st1, (f, w))" by (metis prod.exhaust)
  have w: "writing fd i w1 (f, w)" by (rule flush_writing [OF assms fl])
  note D = writing_descriptor [OF w]
  obtain st2 w' where wa: "write_all_at (of_handle f) off bs (of_path f) w = (st2, w')" by fastforce
  have "writing fd i w1 (f, w')" if "off \<le> of_written f" "length bs \<le> of_written f - off"
  proof -
    have le: "off + length bs \<le> length (dk_data (wd_disk w) i)" using that w by (auto simp: writing_def)
    obtain n where n: "n \<le> length bs" "wd_fds w' = wd_fds w" "dk_data (wd_disk w') i = write_bytes off (take n bs) (dk_data (wd_disk w) i)"
      "\<And>d. stays (only_inode i d) w w'"
      using write_all_at_effect [OF wa D(1)] by blast
    have "stays (only_inode i (wd_disk w1)) w1 w'" using w n(4) stays_trans unfolding writing_def snd_conv by blast
    then show ?thesis using w n(1-3) le by (simp add: writing_def length_write_bytes)
  qed
  then show ?thesis using assms w by (simp add: out_write_at_def fl wa)
qed

interpretation writing: sink_invariant file_sink "writing fd i w1" for fd i w1
  by unfold_locales (simp_all add: file_sink_def write_writing write_at_writing)

lemma sync_writing:
  assumes "writing fd i w1 s" "out_sync s = (st, s')"
  shows "writing fd i w1 s'"
    "status_ok st \<Longrightarrow> dk_synced (wd_disk (snd s')) i \<and> dk_data (wd_disk (snd s')) i = file_contents s \<and> of_buffer (fst s') = []"
proof -
  obtain st1 f w where fl: "out_flush s = (st1, (f, w))" by (metis prod.exhaust)
  have w: "writing fd i w1 (f, w)" by (rule flush_writing [OF assms(1) fl])
  note D = writing_descriptor [OF w]
  obtain e w0 where e: "next_event w = (e, w0)" by fastforce
  note same = next_event_same [OF e]
  have d0: "descriptor w0 (of_handle f) = Some (i, length (dk_data (wd_disk w) i))" using D(1) same by (simp add: descriptor_def D(2))
  let ?w' = "set_disk ((wd_disk w0)\<lparr>dk_synced := (dk_synced (wd_disk w0))(i := True)\<rparr>) w0"
  have st': "stays (only_inode i (wd_disk w1)) w ?w'"
    by (rule stays_set_disk) (auto simp: set_disk_def same intro: only_inode_trans only_inode_data)
  then have "stays (only_inode i (wd_disk w1)) w1 ?w'" using w stays_trans unfolding writing_def snd_conv by blast
  then have synced: "writing fd i w1 (f, ?w')" using w same by (simp add: writing_def set_disk_def)
  have kept: "writing fd i w1 (f, w0)" by (rule writing_same [OF w]) (simp_all add: same)
  have ns: "native_sync (of_handle f) (of_path f) w =
      (case fault e of Some t \<Rightarrow> (errno_error ''fsync failed for'' (path_string (of_path f)) t, w0) | None \<Rightarrow> (ok_status, ?w'))"
    by (simp add: native_sync_def sys_fsync_def e d0 split: option.split)
  have run: "(st, s') = (if \<not> status_ok st1 then (st1, (f, w)) else case fault e of
      Some t \<Rightarrow> (errno_error ''fsync failed for'' (path_string (of_path f)) t, (f, w0)) | None \<Rightarrow> (ok_status, (f, ?w')))"
    using assms(2) by (cases "status_ok st1"; cases "fault e") (simp_all add: out_sync_def fl ns)
  show "writing fd i w1 s'" using run w synced kept by (cases "fault e") (simp_all split: if_splits)
  show "dk_synced (wd_disk (snd s')) i \<and> dk_data (wd_disk (snd s')) i = file_contents s \<and> of_buffer (fst s') = []" if "status_ok st"
  proof -
    have ok: "status_ok st1" using run that by (simp split: if_splits)
    have "s' = (f, ?w')" using run that ok by (cases "fault e") simp_all
    moreover have "file_contents s = dk_data (wd_disk w0) i" "of_buffer f = []" using flush_handed(1,2) [OF fl ok] D(3) same by simp_all
    ultimately show ?thesis by (simp add: set_disk_def)
  qed
qed

lemma native_close_same: "wd_disk (snd (native_close h p w)) = wd_disk w" "wd_history (snd (native_close h p w)) = wd_history w"
proof -
  obtain e w0 where e: "next_event w = (e, w0)" by fastforce
  have "wd_disk (snd (native_close h p w)) = wd_disk w0 \<and> wd_history (snd (native_close h p w)) = wd_history w0"
    by (cases h; cases "fault e") (simp_all add: native_close_def sys_close_def e)
  then show "wd_disk (snd (native_close h p w)) = wd_disk w" "wd_history (snd (native_close h p w)) = wd_history w" using next_event_same [OF e] by simp_all
qed

lemma close_writing:
  assumes "writing fd i w1 s"
  shows "stays (only_inode i (wd_disk w1)) w1 (snd (snd (out_close s)))"
    "of_buffer (fst s) = [] \<Longrightarrow> wd_disk (snd (snd (out_close s))) = wd_disk (snd s) \<and> wd_history (snd (snd (out_close s))) = wd_history (snd s)"
proof -
  obtain st1 f w where fl: "out_flush s = (st1, (f, w))" by (metis prod.exhaust)
  have w: "writing fd i w1 (f, w)" by (rule flush_writing [OF assms fl])
  have c: "snd (snd (out_close s)) = snd (native_close (of_handle f) (of_path f) w)" using assms by (simp add: out_close_def fl writing_def kInvalidHandle_def split: prod.split)
  show "stays (only_inode i (wd_disk w1)) w1 (snd (snd (out_close s)))"
    using w unfolding c writing_def snd_conv by (simp add: stays_def native_close_same)
  show "wd_disk (snd (snd (out_close s))) = wd_disk (snd s) \<and> wd_history (snd (snd (out_close s))) = wd_history (snd s)" if "of_buffer (fst s) = []"
    using that fl unfolding c by (cases s) (simp add: out_flush_def native_close_same)
qed

subsection \<open>When nothing fails\<close>

definition calm :: "world \<Rightarrow> bool" where
  "calm w \<longleftrightarrow> wd_events w = [] \<and> wd_remaining w = kDisarmed"

lemma calm_event [simp]: "calm w \<Longrightarrow> next_event w = (Proceed, w)"
  by (simp add: calm_def next_event_def)

lemma calm_fault [simp]: "calm w \<Longrightarrow> fault_check step w = (ok_status, w)" "fault Proceed = None"
  by (simp_all add: calm_def fault_check_def fault_def)

lemma calm_update [simp]: "calm (set_disk d w) = calm w" "calm (w\<lparr>wd_fds := f\<rparr>) = calm w" "calm (w\<lparr>wd_next_fd := n\<rparr>) = calm w"
  by (simp_all add: calm_def set_disk_def)

lemma write_all_calm:
  assumes "calm w" "descriptor w h = Some (i, off)"
  shows "\<exists>w'. write_all h bs p w = (ok_status, w') \<and> calm w'"
  using assms by (cases "bs = []") (simp_all add: write_all.simps [of _ bs] write_all.simps [of _ "[]"] sys_write_def event_count_def Let_def)

lemma write_all_at_calm:
  assumes "calm w" "descriptor w h = Some (i, pos)"
  shows "\<exists>w'. write_all_at h off bs p w = (ok_status, w') \<and> calm w'"
  using assms by (cases "bs = []") (simp_all add: write_all_at.simps [of _ _ bs] write_all_at.simps [of _ _ "[]"] sys_write_def event_count_def Let_def)

definition calm_file :: "file_state \<Rightarrow> bool" where
  "calm_file s \<longleftrightarrow> calm (snd s) \<and> (\<exists>i. descriptor (snd s) (of_handle (fst s)) = Some (i, of_written (fst s)))"

lemma calm_write_all:
  assumes "calm_file (f, w)"
  shows "\<exists>w'. write_all (of_handle f) bs p w = (ok_status, w') \<and> calm_file (f\<lparr>of_written := of_written f + length bs\<rparr>, w')"
proof -
  obtain i where i: "calm w" "descriptor w (of_handle f) = Some (i, of_written f)" using assms by (auto simp: calm_file_def)
  obtain w' where w': "write_all (of_handle f) bs p w = (ok_status, w')" "calm w'" using write_all_calm [OF i] by blast
  obtain fd where fd: "of_handle f = Some fd" using i(2) by (cases "of_handle f") (simp_all add: descriptor_def)
  have "wd_fds w' = (wd_fds w)(fd \<mapsto> (i, of_written f + length bs))" using write_all_effect [OF w'(1) i(2)] by (auto simp: fd)
  then show ?thesis using w' by (simp add: calm_file_def descriptor_def fd)
qed

lemma calm_flush:
  assumes "calm_file s"
  shows "\<exists>s'. out_flush s = (ok_status, s') \<and> calm_file s' \<and> of_written (fst s') = of_written (fst s) + length (of_buffer (fst s))"
proof -
  obtain f w where s: "s = (f, w)" by (cases s)
  obtain w' where w': "write_all (of_handle f) (of_buffer f) (of_path f) w = (ok_status, w')" "calm_file (f\<lparr>of_written := of_written f + length (of_buffer f)\<rparr>, w')"
    using calm_write_all assms unfolding s by blast
  show ?thesis
  proof (cases "of_buffer f = []")
    case False
    then show ?thesis using w' by (simp add: s out_flush_def) (simp add: calm_file_def)
  qed (use assms in \<open>simp add: s out_flush_def\<close>)
qed

lemma calm_open: "calm_file s \<Longrightarrow> of_handle (fst s) \<noteq> kInvalidHandle"
  by (auto simp: calm_file_def descriptor_def kInvalidHandle_def split: option.splits)

lemma calm_file_buffer: "calm_file (f\<lparr>of_buffer := b\<rparr>, w) = calm_file (f, w)"
  by (simp add: calm_file_def)

lemma calm_write:
  assumes "calm_file s"
  shows "\<exists>s'. out_write s bs = (ok_status, s') \<and> calm_file s'"
proof -
  obtain f w where fl: "out_flush s = (ok_status, (f, w))" "calm_file (f, w)" using calm_flush [OF assms] by auto
  obtain w' where w': "write_all (of_handle f) bs (of_path f) w = (ok_status, w')" "calm_file (f\<lparr>of_written := of_written f + length bs\<rparr>, w')"
    using calm_write_all [OF fl(2)] by blast
  show ?thesis using assms fl w' calm_open [OF assms] by (cases s) (simp add: out_write_def calm_file_buffer)
qed

lemma calm_write_at:
  assumes "calm_file s"
  shows "calm_file (snd (out_write_at s off bs))" "off + length bs \<le> length (file_contents s) \<Longrightarrow> status_ok (fst (out_write_at s off bs))"
proof -
  obtain f w where fl: "out_flush s = (ok_status, (f, w))" "calm_file (f, w)" "of_written f = of_written (fst s) + length (of_buffer (fst s))"
    using calm_flush [OF assms] by auto
  then obtain i where i: "calm w" "descriptor w (of_handle f) = Some (i, of_written f)" by (auto simp: calm_file_def)
  obtain w' where w': "write_all_at (of_handle f) off bs (of_path f) w = (ok_status, w')" "calm w'" using write_all_at_calm [OF i] by blast
  have "wd_fds w' = wd_fds w" using write_all_at_effect [OF w'(1) i(2)] by blast
  then have "calm_file (f, w')" using w'(2) i(2) by (cases "of_handle f") (simp_all add: calm_file_def descriptor_def)
  then show "calm_file (snd (out_write_at s off bs))" using assms fl w' by (simp add: out_write_at_def)
  have "length (file_contents s) = of_written (fst s) + length (of_buffer (fst s))"
    using assms by (cases s) (auto simp: calm_file_def file_contents_def handed_pair)
  then show "status_ok (fst (out_write_at s off bs))" if "off + length bs \<le> length (file_contents s)"
    using that fl w' calm_open [OF assms] by (simp add: out_write_at_def)
qed

interpretation out: reliable_sink file_sink file_contents calm_file
proof
  show "calm_file (snd (sk_write file_sink s bs))" "status_ok (fst (sk_write file_sink s bs))" if "calm_file s" for s bs
    using calm_write [OF that, of bs] by (auto simp: file_sink_def)
  show "calm_file (snd (sk_write_at file_sink s off bs))" if "calm_file s" for s off bs
    using calm_write_at(1) [OF that] by (simp add: file_sink_def)
  show "status_ok (fst (sk_write_at file_sink s off bs))" if "calm_file s" "off + length bs \<le> length (file_contents s)" for s off bs
    using calm_write_at(2) [OF that] by (simp add: file_sink_def)
qed

end
