(* ===== verification/VF_IndexReader.thy ===== *)
theory VF_IndexReader
  imports VF_Steps VF_HnswIo VF_CollectionOps "HOL-Library.Product_Lexorder"
begin

text \<open>
  The validating reader of index files (\<^verbatim>\<open>src/collection/index_reader.cpp\<close>). The file is a byte list and
  nothing is assumed of it.
\<close>

subsection \<open>Header and section table\<close>

record parsed_file =
  pf_header :: file_header
  pf_entries :: "section_entry list"
  pf_by_type :: "nat option list"

record read_options =
  ro_verify :: verify_level
  ro_mapped :: bool
  ro_concurrency :: concurrency

text \<open>The allocations of a load: the tables, the arrays, the graph, the store and the state.\<close>

record read_mem =
  rm_entries :: bool
  rm_regions :: bool
  rm_metadata :: bool
  rm_tombstones :: bool
  rm_labels :: bool
  rm_ids :: bool
  rm_graph :: "nat \<Rightarrow> bool \<times> bool"
  rm_alloc :: allocator
  rm_row :: bool
  rm_state :: bool

definition section_name :: "u32 \<Rightarrow> string" where
  "section_name c =
     (case find (\<lambda>t. section_code t = c) [Metadata, Vectors, Labels, Tombstones, Levels, L0Links, UpperIndex, UpperLinks] of
        Some t \<Rightarrow> section_to_string t
      | None \<Rightarrow> ''UNKNOWN'')"

definition section_bytes :: "u8 list \<Rightarrow> section_entry \<Rightarrow> (u8 list \<Rightarrow> 'a outcome) \<Rightarrow> 'a outcome" where
  "section_bytes file e = span_of file (unat (se_offset e)) (unat (se_size e))"

fun parse_entries :: "nat \<Rightarrow> nat list \<Rightarrow> byte_reader \<Rightarrow> section_entry list \<Rightarrow> nat option list
    \<Rightarrow> (section_entry list \<times> nat option list) result outcome" where
  "parse_entries fsize [] r es by_type = Returned (Inr (es, by_type))"
| "parse_entries fsize (i # is) r es by_type =
     (case decode_section_entry r of
        None \<Rightarrow> Returned (Inl (corrupt_data ''section table: malformed entry''))
      | Some (e, reserved_zero, r') \<Rightarrow>
          reject_if (\<not> reserved_zero) (corrupt_data ''section table: malformed entry'')
          (let stop = checked_add (unat (se_offset e)) (unat (se_size e))
           in reject_if (unat (se_offset e) < kHeaderSize \<or> stop = None \<or> the stop > fsize \<or> unat (se_offset e) mod kSectionAlignment \<noteq> 0)
                (corrupt_data (''section table: section type '' @ show_nat (unat (se_type e)) @ '' out of bounds''))
              (reject_if (se_flags e AND NOT kSectionOptional \<noteq> 0) (corrupt_data ''section table: unknown section flags'')
              (if se_type e = 0 \<or> se_type e > kMaxKnownSectionType
               then reject_if (se_flags e AND kSectionOptional = 0)
                      (unsupported_version (''index contains unknown required section type '' @ show_nat (unat (se_type e))))
                      (parse_entries fsize is r' (es @ [e]) by_type)
               else check_that (unat (se_type e) < length by_type)
                 (reject_if (by_type ! unat (se_type e) \<noteq> None) (corrupt_data (''section table: duplicate '' @ section_name (se_type e)))
                 (parse_entries fsize is r' (es @ [e]) (by_type[unat (se_type e) := Some i])))))))"

text \<open>Regions in order: none starts before the previous one ended, and gaps are zero.\<close>

fun check_regions :: "u8 list \<Rightarrow> (nat \<times> nat) list \<Rightarrow> nat \<Rightarrow> nat result outcome" where
  "check_regions file [] covered = Returned (Inr covered)"
| "check_regions file ((start, stop) # regions) covered =
     reject_if (start < covered) (corrupt_data ''section table: sections overlap'')
     (span_of file covered (start - covered) (\<lambda>gap.
        reject_if (list_ex (\<lambda>b. b \<noteq> 0) gap) (corrupt_data ''padding between sections is not zero'')
        (check_regions file regions stop)))"

definition regions_of :: "section_entry list \<Rightarrow> nat \<Rightarrow> nat \<Rightarrow> (nat \<times> nat) list" where
  "regions_of es table_off table_end =
     [(0, kHeaderSize)] @ map (\<lambda>e. (unat (se_offset e), unat (se_offset e + se_size e))) es @ [(table_off, table_end)]"

definition probe_endian :: "u8 list \<Rightarrow> u32" where
  "probe_endian head =
     (case reader_seek 12 (new_reader head) of
        None \<Rightarrow> 0
      | Some r \<Rightarrow> (case read_u32 r of None \<Rightarrow> 0 | Some (v, _) \<Rightarrow> v))"

definition parse_table :: "read_mem \<Rightarrow> u8 list \<Rightarrow> file_header \<Rightarrow> parsed_file result outcome" where
  "parse_table mem file h =
     (let n = unat (fh_section_count h); table_size = n * kSectionEntrySize; table_off = unat (fh_section_table_offset h);
          table_end = checked_add table_off table_size
      in reject_if (table_off < kHeaderSize \<or> table_end = None \<or> the table_end > length file \<or> table_off mod kSectionAlignment \<noteq> 0)
           (corrupt_data ''header: section table out of bounds'')
      (span_of file table_off table_size (\<lambda>table.
        reject_if (crc32c table \<noteq> fh_section_table_crc32c h) (corrupt_data ''section table: checksum mismatch'')
        (need (rm_entries mem)
        (then_read (parse_entries (length file) [0..<n] (new_reader table) [] (replicate (unat kMaxKnownSectionType + 1) None)) (\<lambda>(es, by_type).
          need (rm_regions mem)
          (then_read (check_regions file (sort (regions_of es table_off (the table_end))) 0) (\<lambda>covered.
            span_of file covered (length file - covered) (\<lambda>tail.
              reject_if (list_ex (\<lambda>b. b \<noteq> 0) tail) (corrupt_data ''padding after the last region is not zero'')
              (Returned (Inr \<lparr>pf_header = h, pf_entries = es, pf_by_type = by_type\<rparr>)))))))))))"

definition parse_header_and_table :: "read_mem \<Rightarrow> u8 list \<Rightarrow> parsed_file result outcome" where
  "parse_header_and_table mem file =
     reject_if (length file < kHeaderSize) (corrupt_data ''file is smaller than the 64-byte header'')
     (let head = take kHeaderSize file; h = decode_header head
      in reject_if (take (length kMagic) head \<noteq> kMagic) (corrupt_data ''not a VectorForge index (bad magic)'')
      (reject_if (probe_endian head = kEndianTagSwapped) (unsupported_version ''index file has big-endian byte order'')
      (reject_if (probe_endian head \<noteq> kEndianTag) (corrupt_data ''header: invalid endian tag'')
      (reject_if (fh_format_major h \<noteq> kFormatMajor)
         (unsupported_version (''index format major version '' @ show_nat (unat (fh_format_major h)) @ '' (supported: '' @
            show_nat (unat kFormatMajor) @ '')''))
      (reject_if (crc32c (take kHeaderCrcCoverage file) \<noteq> fh_header_crc32c h) (corrupt_data ''header: checksum mismatch'')
      (reject_if (\<not> header_reserved_zero head) (corrupt_data ''header: reserved fields are not zero'')
      (reject_if (unat (fh_file_size h) \<noteq> length file)
         (corrupt_data (''header: file_size '' @ show_nat (unat (fh_file_size h)) @ '' but the file has '' @ show_nat (length file) @
            '' bytes (truncated or extended)''))
      (reject_if (fh_flags h AND NOT kKnownFlags \<noteq> 0) (corrupt_data ''header: unknown flags'')
      (reject_if (fh_section_count h = 0 \<or> fh_section_count h > kMaxSections)
         (corrupt_data (''header: section_count '' @ show_nat (unat (fh_section_count h)) @ '' out of range''))
      (parse_table mem file h))))))))))"

definition find_section :: "parsed_file \<Rightarrow> section_type \<Rightarrow> section_entry option" where
  "find_section p t = map_option (\<lambda>i. pf_entries p ! i) (pf_by_type p ! unat (section_code t))"

definition verify_crc :: "u8 list \<Rightarrow> section_entry \<Rightarrow> unit result outcome" where
  "verify_crc file e =
     section_bytes file e (\<lambda>bytes.
       reject_if (crc32c bytes \<noteq> se_crc32c e) (corrupt_data (section_name (se_type e) @ '': checksum mismatch'')) (Returned (Inr ())))"


subsection \<open>Metadata and sizes\<close>

definition params_of :: "metadata \<Rightarrow> hnsw_params" where
  "params_of m =
     \<lparr>hp_M = md_m m, hp_ef_construction = md_ef_construction m, hp_ef_search = md_ef_search m, hp_max_level = md_max_level_cap m,
      hp_seed = md_seed m\<rparr>"

definition validate_metadata :: "metadata \<Rightarrow> file_header \<Rightarrow> status" where
  "validate_metadata m h =
     (let metric = metric_of_u8 (md_metric m); index = index_type_of_u8 (md_index_type m);
          normalized = (md_normalize m = 1 \<or> metric = Cosine); hnsw = (index = Hnsw)
      in if md_dim m < 1 \<or> md_dim m > kMaxDim then corrupt_data (''METADATA: dim '' @ show_nat (unat (md_dim m)) @ '' out of range'')
         else if \<not> metric_is_valid metric then corrupt_data (''METADATA: invalid metric '' @ show_nat (unat (md_metric m)))
         else if \<not> index_type_is_valid index then corrupt_data (''METADATA: invalid index type '' @ show_nat (unat (md_index_type m)))
         else if md_normalize m > 1 then corrupt_data ''METADATA: invalid normalize flag''
         else if unat (md_node_count m) > kMaxVectorsPerCollection
         then corrupt_data (''METADATA: node_count '' @ show_nat (unat (md_node_count m)) @ '' out of range'')
         else if md_live_count m > md_node_count m then corrupt_data ''METADATA: live_count exceeds node_count''
         else if normalized \<noteq> (fh_flags h AND kFlagVectorsNormalized \<noteq> 0)
         then corrupt_data ''header: VECTORS_NORMALIZED flag contradicts METADATA''
         else if hnsw \<noteq> (fh_flags h AND kFlagHasGraph \<noteq> 0) then corrupt_data ''header: HAS_GRAPH flag contradicts the index type''
         else if md_max_level_cap m > kMaxLevelCap \<or> md_max_level m > md_max_level_cap m
         then corrupt_data ''METADATA: max_level out of range''
         else if hnsw
         then (if \<not> status_ok (hnsw_params_validate (params_of m))
               then corrupt_data (''METADATA: '' @ status_message (hnsw_params_validate (params_of m)))
               else if md_m0 m \<noteq> 2 * md_m m then corrupt_data ''METADATA: M0 must equal 2 * M''
               else ok_status)
         else if md_entry_point m \<noteq> kEmptySlot \<or> md_max_level m \<noteq> 0 then corrupt_data ''METADATA: Flat index with a graph entry point''
         else ok_status)"

definition expect_size :: "section_entry \<Rightarrow> section_type \<Rightarrow> nat option \<Rightarrow> status" where
  "expect_size e t expected =
     (if expected = None \<or> Some (unat (se_size e)) \<noteq> expected
      then corrupt_data (section_to_string t @ '': size '' @ show_nat (unat (se_size e)) @ '' does not match METADATA'')
      else ok_status)"

text \<open>\<^verbatim>\<open>memcpy\<close> of little-endian words on a little-endian host.\<close>

definition words_of :: "nat \<Rightarrow> u8 list \<Rightarrow> 'a::len word list" where
  "words_of w bytes = map (\<lambda>i. le_from 0 (take w (drop (w * i) bytes)) 0) [0..<length bytes div w]"

definition read_u64_array :: "u8 list \<Rightarrow> u64 list" where
  "read_u64_array bytes = words_of 8 bytes"

subsection \<open>Loading a collection\<close>

fun check_graph_sections :: "parsed_file \<Rightarrow> bool \<Rightarrow> section_type list \<Rightarrow> unit result outcome" where
  "check_graph_sections p has_graph [] = Returned (Inr ())"
| "check_graph_sections p has_graph (t # ts) =
     reject_if ((find_section p t \<noteq> None) \<noteq> has_graph)
       (corrupt_data (''section table: '' @ section_to_string t @ (if has_graph then '' is missing'' else '' present without HAS_GRAPH'')))
     (check_graph_sections p has_graph ts)"

text \<open>The sections a file must have: METADATA, VECTORS, LABELS and, with its flag, TOMBSTONES.\<close>

definition required_sections :: "parsed_file \<Rightarrow> (section_entry \<times> section_entry \<times> section_entry \<times> section_entry option) result outcome" where
  "required_sections p =
     (case (find_section p Metadata, find_section p Vectors, find_section p Labels) of
        (Some meta_e, Some vectors_e, Some labels_e) \<Rightarrow>
          (let tomb_e = find_section p Tombstones; flags = fh_flags (pf_header p); has_graph = (flags AND kFlagHasGraph \<noteq> 0)
           in reject_if ((tomb_e \<noteq> None) \<noteq> (flags AND kFlagHasTombstones \<noteq> 0))
                (corrupt_data ''header: HAS_TOMBSTONES flag contradicts the section table'')
              (then_read (check_graph_sections p has_graph [Levels, L0Links, UpperIndex, UpperLinks]) (\<lambda>_.
                 reject_if (unat (se_offset vectors_e) mod kVectorAlignment \<noteq> 0) (corrupt_data ''VECTORS: offset is not page-aligned'')
                 (Returned (Inr (meta_e, vectors_e, labels_e, tomb_e))))))
      | _ \<Rightarrow> Returned (Inl (corrupt_data ''section table: METADATA, VECTORS and LABELS are required'')))"

fun verify_sections :: "u8 list \<Rightarrow> section_entry list \<Rightarrow> unit result outcome" where
  "verify_sections file [] = Returned (Inr ())"
| "verify_sections file (e # es) =
     (if se_type e \<noteq> section_code Vectors then then_read (verify_crc file e) (\<lambda>_. verify_sections file es)
      else verify_sections file es)"

definition read_tombstones :: "read_mem \<Rightarrow> u8 list \<Rightarrow> nat \<Rightarrow> section_entry option \<Rightarrow> tombstone_set result outcome" where
  "read_tombstones mem file n tomb_e =
     (case tomb_e of
        None \<Rightarrow> Returned (Inr tb_empty)
      | Some e \<Rightarrow>
          section_bytes file e (\<lambda>bytes.
            need (rm_tombstones mem)
            (case tb_restore (read_u64_array bytes) n of
               None \<Rightarrow> Returned (Inl (corrupt_data ''TOMBSTONES: bits set beyond the last row''))
             | Some t \<Rightarrow> reject_if (tb_count t = 0) (corrupt_data ''TOMBSTONES: section present but empty'') (Returned (Inr t)))))"

definition read_graph :: "read_mem \<Rightarrow> u8 list \<Rightarrow> parsed_file \<Rightarrow> metadata \<Rightarrow> hnsw_graph option result outcome" where
  "read_graph mem file p m =
     (if fh_flags (pf_header p) AND kFlagHasGraph \<noteq> 0
      then (case (find_section p Levels, find_section p L0Links, find_section p UpperIndex, find_section p UpperLinks) of
              (Some levels_e, Some l0_e, Some index_e, Some upper_e) \<Rightarrow>
                section_bytes file levels_e (\<lambda>levels. section_bytes file l0_e (\<lambda>l0. section_bytes file index_e (\<lambda>index. section_bytes file upper_e (\<lambda>upper.
                  then_read (decode_graph (rm_graph mem)
                      \<lparr>gs_levels = levels, gs_l0_links = l0, gs_upper_index = index, gs_upper_links = upper\<rparr>
                      \<lparr>gh_node_count = unat (md_node_count m), gh_m = unat (md_m m), gh_max_level_cap = unat (md_max_level_cap m),
                       gh_entry_point = unat (md_entry_point m), gh_entry_level = unat (md_max_level m)\<rparr>)
                    (\<lambda>g. Returned (Inr (Some g)))))))
            | _ \<Rightarrow> Aborted)
      else Returned (Inr None))"

fun copy_rows :: "allocator \<Rightarrow> u8 list \<Rightarrow> nat \<Rightarrow> nat list \<Rightarrow> vector_store \<Rightarrow> vector_store result outcome" where
  "copy_rows alloc bytes dim [] store = Returned (Inr store)"
| "copy_rows alloc bytes dim (r # rs) store =
     span_of bytes (r * dim * 4) (dim * 4) (\<lambda>b.
       let row = words_of 4 b
       in reject_if (find_invalid_component row \<noteq> length row)
            (corrupt_data (''VECTORS: row '' @ show_nat r @ '' has a non-finite or out-of-range component''))
          (case st_append alloc store row of
             (Returned (Inl e), store1) \<Rightarrow> Returned (Inl e)
           | (Returned (Inr _), store1) \<Rightarrow> copy_rows alloc bytes dim rs store1
           | (Thrown, store1) \<Rightarrow> Thrown
           | (Aborted, store1) \<Rightarrow> Aborted))"

text \<open>\<open>aligned\<close> is the alignment test on the address of the section, which the model does not have.\<close>

definition read_vectors :: "read_mem \<Rightarrow> bool \<Rightarrow> read_options \<Rightarrow> u8 list \<Rightarrow> nat \<Rightarrow> nat \<Rightarrow> vector_store result outcome" where
  "read_vectors mem aligned opts bytes dim n =
     (let in_place = (ro_mapped opts \<and> aligned); check_values = (\<not> in_place \<or> ro_verify opts = VerifyFull);
          store_opts = \<lparr>so_dim = dim, so_rows_per_chunk = 0, so_max_rows = kMaxVectorsPerCollection\<rparr>
      in if in_place
         then (let rows = words_of 4 bytes
               in reject_if (check_values \<and> find_invalid_component rows \<noteq> length rows)
                    (corrupt_data ''VECTORS: non-finite or out-of-range component'')
                  (st_create_mapped (rm_alloc mem) store_opts rows n))
         else (case st_create store_opts of
                 Inl e \<Rightarrow> Returned (Inl e)
               | Inr store \<Rightarrow>
                   (case st_reserve (rm_alloc mem) store n of
                      (Returned st, store1) \<Rightarrow>
                        reject_if (\<not> status_ok st) st (need (rm_row mem) (copy_rows (rm_alloc mem) bytes dim [0..<n] store1))
                    | (Thrown, _) \<Rightarrow> Thrown
                    | (Aborted, _) \<Rightarrow> Aborted)))"

definition loaded_config :: "read_options \<Rightarrow> metadata \<Rightarrow> collection_config" where
  "loaded_config opts m =
     \<lparr>cc_dim = md_dim m, cc_metric = metric_of_u8 (md_metric m), cc_normalize = (md_normalize m = 1),
      cc_index = index_type_of_u8 (md_index_type m), cc_hnsw = params_of m, cc_concurrency = ro_concurrency opts\<rparr>"

definition loaded_state :: "kernel_selection \<Rightarrow> read_options \<Rightarrow> metadata \<Rightarrow> vector_store \<Rightarrow> id_map \<Rightarrow> tombstone_set \<Rightarrow> hnsw_graph option
    \<Rightarrow> collection_state result outcome" where
  "loaded_state simd opts m store ids deleted graph =
     (let cfg = loaded_config opts m;
          s = (new_state cfg store (ks_table simd))\<lparr>cs_ids := ids, cs_deleted := deleted, cs_creator := md_creator m,
                cs_created_unix_ms := md_created_unix_ms m\<rparr>
      in case graph of
           Some g \<Rightarrow>
             (case hnsw_create_loaded store (cc_metric cfg) (cs_normalized s) (ks_table simd) (cc_hnsw cfg) g of
                Returned (Inl e) \<Rightarrow> Returned (Inl (corrupt_data (''METADATA: '' @ status_message e)))
              | Returned (Inr b) \<Rightarrow> Returned (Inr (s\<lparr>cs_backend := HnswBackend b\<rparr>))
              | Thrown \<Rightarrow> Thrown
              | Aborted \<Rightarrow> Aborted)
         | None \<Rightarrow> Returned (Inr (s\<lparr>cs_backend := FlatBackend (cc_metric cfg) (cs_normalized s) (ks_table simd)\<rparr>)))"

text \<open>Step 4 of the reader: the sizes of the sections follow from the metadata.\<close>

definition check_sizes :: "metadata \<Rightarrow> section_entry \<Rightarrow> section_entry \<Rightarrow> section_entry option \<Rightarrow> unit result outcome" where
  "check_sizes m vectors_e labels_e tomb_e =
     (let n = unat (md_node_count m);
          vst = expect_size vectors_e Vectors (checked_mul3 n (unat (md_dim m)) 4);
          lst = expect_size labels_e Labels (checked_mul_size n 8);
          tst = (case tomb_e of None \<Rightarrow> ok_status | Some e \<Rightarrow> expect_size e Tombstones (Some ((n + 63) div 64 * 8)))
      in reject_if (\<not> status_ok vst) vst (reject_if (\<not> status_ok lst) lst (reject_if (\<not> status_ok tst) tst (Returned (Inr ())))))"

definition read_ids :: "read_mem \<Rightarrow> u8 list \<Rightarrow> metadata \<Rightarrow> section_entry \<Rightarrow> section_entry option \<Rightarrow> (id_map \<times> tombstone_set) result outcome" where
  "read_ids mem file m labels_e tomb_e =
     (let n = unat (md_node_count m)
      in then_read (read_tombstones mem file n tomb_e) (\<lambda>deleted.
         reject_if (md_node_count m - word_of_nat (tb_count deleted) \<noteq> md_live_count m)
           (corrupt_data ''METADATA: live_count does not match TOMBSTONES'')
         (section_bytes file labels_e (\<lambda>bytes.
            need (rm_labels mem)
            (then_read (Returned (im_restore (read_u64_array bytes) (tb_ensure_size deleted n))) (\<lambda>ids.
               need (rm_ids mem) (Returned (Inr (ids, tb_ensure_size deleted n)))))))))"

definition read_index :: "read_mem \<Rightarrow> kernel_selection \<Rightarrow> bool \<Rightarrow> read_options \<Rightarrow> u8 list \<Rightarrow> collection_state result outcome" where
  "read_index mem simd aligned opts file =
     check_that (ro_verify opts \<noteq> VerifyAuto)
     (then_read (parse_header_and_table mem file) (\<lambda>p.
     then_read (required_sections p) (\<lambda>(meta_e, vectors_e, labels_e, tomb_e).
     then_read (if ro_verify opts \<noteq> VerifyNone then verify_sections file (pf_entries p) else Returned (Inr ())) (\<lambda>_.
     section_bytes file meta_e (\<lambda>meta_bytes.
     need (rm_metadata mem)
     (then_read (Returned (decode_metadata meta_bytes)) (\<lambda>m.
     let vst = validate_metadata m (pf_header p)
     in reject_if (\<not> status_ok vst) vst
     (then_read (check_sizes m vectors_e labels_e tomb_e) (\<lambda>_.
     section_bytes file vectors_e (\<lambda>vector_bytes.
     then_read (if ro_verify opts = VerifyFull then verify_crc file vectors_e else Returned (Inr ())) (\<lambda>_.
     then_read (read_ids mem file m labels_e tomb_e) (\<lambda>(ids, deleted).
     then_read (read_graph mem file p m) (\<lambda>graph.
     then_read (read_vectors mem aligned opts vector_bytes (unat (md_dim m)) (unat (md_node_count m))) (\<lambda>store.
     reject_if (\<not> status_ok (ks_status simd)) (ks_status simd)
     (need (rm_state mem)
     (loaded_state simd opts m store ids deleted graph))))))))))))))))"

record index_summary =
  is_header :: file_header
  is_sections :: "section_entry list"
  is_metadata :: metadata

definition summarize_index :: "read_mem \<Rightarrow> u8 list \<Rightarrow> index_summary result outcome" where
  "summarize_index mem file =
     then_read (parse_header_and_table mem file) (\<lambda>p.
       case find_section p Metadata of
         None \<Rightarrow> Returned (Inl (corrupt_data ''section table: METADATA is missing''))
       | Some meta_e \<Rightarrow>
           section_bytes file meta_e (\<lambda>bytes.
             need (rm_metadata mem)
             (then_read (Returned (decode_metadata bytes)) (\<lambda>m.
               Returned (Inr \<lparr>is_header = pf_header p, is_sections = pf_entries p, is_metadata = m\<rparr>)))))"


subsection \<open>The header and the table are within the file\<close>

definition format_error :: "status \<Rightarrow> bool" where
  "format_error st \<longleftrightarrow> code st = CorruptData \<or> code st = UnsupportedVersion"

lemma format_error_simps [simp]: "format_error (corrupt_data m)" "format_error (unsupported_version m)"
  by (simp_all add: format_error_def)

definition entries_ok :: "nat \<Rightarrow> section_entry list \<Rightarrow> nat option list \<Rightarrow> bool" where
  "entries_ok fsize es by_type \<longleftrightarrow>
     (\<forall>e\<in>set es. unat (se_offset e) + unat (se_size e) \<le> fsize \<and> unat (se_offset e) + unat (se_size e) < 2 ^ 64) \<and>
     length by_type = 9 \<and> (\<forall>t i. t < 9 \<longrightarrow> by_type ! t = Some i \<longrightarrow> i < length es \<and> unat (se_type (es ! i)) = t) \<and>
     (\<forall>j < length es. se_type (es ! j) \<noteq> 0 \<longrightarrow> unat (se_type (es ! j)) < 9 \<longrightarrow> by_type ! unat (se_type (es ! j)) = Some j)"

lemma checked_add_Some: "checked_add a b = Some c \<longleftrightarrow> c = a + b \<and> a + b < 2 ^ 64" if "b < 2 ^ 64"
  using that by (auto simp: checked_add_def)

lemma checked_add_le: "checked_add a b \<noteq> None \<and> the (checked_add a b) \<le> n \<longleftrightarrow> a + b \<le> n \<and> a + b < 2 ^ 64" if "b < 2 ^ 64"
  using that by (auto simp: checked_add_def)

lemma entries_okD:
  assumes "entries_ok fsize es by_type"
  shows "e \<in> set es \<Longrightarrow> unat (se_offset e) + unat (se_size e) \<le> fsize \<and> unat (se_offset e) + unat (se_size e) < 2 ^ 64" "length by_type = 9"
    "t < 9 \<Longrightarrow> by_type ! t = Some i \<Longrightarrow> i < length es \<and> unat (se_type (es ! i)) = t"
    "j < length es \<Longrightarrow> se_type (es ! j) \<noteq> 0 \<Longrightarrow> unat (se_type (es ! j)) < 9 \<Longrightarrow> by_type ! unat (se_type (es ! j)) = Some j"
  using assms unfolding entries_ok_def by blast+

lemma entries_okI:
  assumes "entries_ok fsize es by_type" "unat (se_offset e) + unat (se_size e) \<le> fsize" "unat (se_offset e) + unat (se_size e) < 2 ^ 64"
    "length by' = 9" "\<And>t i. t < 9 \<Longrightarrow> by' ! t = Some i \<Longrightarrow> by_type ! t = Some i \<or> i = length es \<and> unat (se_type e) = t"
    "\<And>j. j < length es \<Longrightarrow> se_type (es ! j) \<noteq> 0 \<Longrightarrow> unat (se_type (es ! j)) < 9 \<Longrightarrow> by' ! unat (se_type (es ! j)) = Some j"
    "se_type e \<noteq> 0 \<Longrightarrow> unat (se_type e) < 9 \<Longrightarrow> by' ! unat (se_type e) = Some (length es)"
  shows "entries_ok fsize (es @ [e]) by'"
proof -
  note D = entries_okD [OF assms(1)]
  have "i < length (es @ [e]) \<and> unat (se_type ((es @ [e]) ! i)) = t" if "t < 9" "by' ! t = Some i" for t i
    using assms(5) [OF that] D(3) [OF that(1), of i] by (auto simp: nth_append)
  moreover have "\<forall>x\<in>set (es @ [e]). unat (se_offset x) + unat (se_size x) \<le> fsize \<and> unat (se_offset x) + unat (se_size x) < 2 ^ 64"
    using D(1) assms(2,3) by (simp add: ball_Un)
  moreover have "by' ! unat (se_type ((es @ [e]) ! j)) = Some j"
    if "j < length (es @ [e])" "se_type ((es @ [e]) ! j) \<noteq> 0" "unat (se_type ((es @ [e]) ! j)) < 9" for j
    using that assms(6) [of j] assms(7) by (cases "j < length es") (simp_all add: nth_append less_Suc_eq)
  ultimately show ?thesis unfolding entries_ok_def using assms(4) by blast
qed

lemma entries_ok_skip:
  assumes "entries_ok fsize es by_type" "unat (se_offset e) + unat (se_size e) \<le> fsize" "unat (se_offset e) + unat (se_size e) < 2 ^ 64"
    "se_type e = 0 \<or> 9 \<le> unat (se_type e)"
  shows "entries_ok fsize (es @ [e]) by_type"
  by (rule entries_okI [OF assms(1-3)]) (use entries_okD(2,4) [OF assms(1)] assms(4) in \<open>auto simp: not_le\<close>)

lemma entries_ok_add:
  assumes "entries_ok fsize es by_type" "unat (se_offset e) + unat (se_size e) \<le> fsize" "unat (se_offset e) + unat (se_size e) < 2 ^ 64"
    "unat (se_type e) < 9" "by_type ! unat (se_type e) = None"
  shows "entries_ok fsize (es @ [e]) (by_type[unat (se_type e) := Some (length es)])"
proof (rule entries_okI [OF assms(1-3)])
  note D = entries_okD [OF assms(1)]
  fix j assume j: "j < length es" "se_type (es ! j) \<noteq> 0" "unat (se_type (es ! j)) < 9"
  have "unat (se_type (es ! j)) \<noteq> unat (se_type e)" using D(4) [OF j] assms(5) by auto
  then show "by_type[unat (se_type e) := Some (length es)] ! unat (se_type (es ! j)) = Some j" using D(4) [OF j] by simp
qed (use assms(4) entries_okD(2) [OF assms(1)] in \<open>auto simp: nth_list_update split: if_splits\<close>)

lemma parse_entries_reads:
  assumes "entries_ok fsize es by_type" "is = [length es..<length es + k]"
  shows "reads format_error (\<lambda>(es', by'). entries_ok fsize es' by' \<and> length es' = length es + k) (parse_entries fsize is r es by_type)"
  using assms
proof (induction "is" arbitrary: r es by_type k)
  case (Cons i "is")
  obtain k' where k: "k = Suc k'" using Cons.prems(2) by (cases k) auto
  then have i: "i = length es" "is = [length (es @ [e])..<length (es @ [e]) + k']" for e
    using Cons.prems(2) by (simp_all add: upt_conv_Cons del: upt_Suc)
  have len: "length by_type = 9" using Cons.prems(1) by (simp add: entries_ok_def)
  show ?case
  proof (cases "decode_section_entry r")
    case (Some x)
    obtain e rz r' where x: "x = (e, rz, r')" by (cases x)
    have sz: "unat (se_size e) < 2 ^ 64" using unsigned_less [of "se_size e"] by simp
    note IH = Cons.IH [OF _ i(2) [of e], of _ r', folded k, simplified]
    note bound = checked_add_le [OF sz, of "unat (se_offset e)" fsize]
    have "reads format_error (\<lambda>(es', by'). entries_ok fsize es' by' \<and> length es' = length es + k)
        (parse_entries fsize is r' (es @ [e]) (by_type[unat (se_type e) := Some i]))"
      if "checked_add (unat (se_offset e)) (unat (se_size e)) \<noteq> None" "the (checked_add (unat (se_offset e)) (unat (se_size e))) \<le> fsize"
        "unat (se_type e) < 9" "by_type ! unat (se_type e) = None"
      using IH [OF entries_ok_add [OF Cons.prems(1) _ _ that(3,4)]] bound that by (auto simp: i(1) k)
    moreover have "reads format_error (\<lambda>(es', by'). entries_ok fsize es' by' \<and> length es' = length es + k)
        (parse_entries fsize is r' (es @ [e]) by_type)"
      if "checked_add (unat (se_offset e)) (unat (se_size e)) \<noteq> None" "the (checked_add (unat (se_offset e)) (unat (se_size e))) \<le> fsize"
        "se_type e = 0 \<or> 9 \<le> unat (se_type e)"
      using IH [OF entries_ok_skip [OF Cons.prems(1) _ _ that(3)]] bound that by (auto simp: k)
    ultimately show ?thesis
      by (auto simp: Some x len kMaxKnownSectionType_def word_less_nat_alt not_less intro!: vf_reads)
  qed simp
next
  case Nil
  then have "k = 0" by (cases k) auto
  with Nil show ?case by simp
qed

text \<open>Regions that pass are ordered and lie within the file.\<close>

lemma check_regions_reads:
  assumes "\<forall>(a, b)\<in>set rs. a \<le> b \<and> b \<le> length file" "covered \<le> length file"
  shows "reads format_error (\<lambda>c. covered \<le> c \<and> c \<le> length file \<and> (\<forall>x\<in>set rs. covered \<le> fst x) \<and> sorted_wrt (\<lambda>x y. snd x \<le> fst y) rs)
    (check_regions file rs covered)"
  using assms
proof (induction rs arbitrary: covered)
  case (Cons x rs)
  obtain a b where x: "x = (a, b)" by (cases x)
  have ab: "a \<le> b" "b \<le> length file" using Cons.prems x by auto
  have "reads format_error (\<lambda>c. b \<le> c \<and> c \<le> length file \<and> (\<forall>x\<in>set rs. b \<le> fst x) \<and> sorted_wrt (\<lambda>x y. snd x \<le> fst y) rs)
      (check_regions file rs b)" using Cons ab by simp
  then show ?case
    unfolding x check_regions.simps using ab
    by (auto intro!: vf_reads elim!: reads_mono)
qed simp

definition table_ok :: "u8 list \<Rightarrow> parsed_file \<Rightarrow> bool" where
  "table_ok file p \<longleftrightarrow> entries_ok (length file) (pf_entries p) (pf_by_type p)"

lemma regions_read:
  assumes "entries_ok (length file) es bt" "off \<le> stop" "stop \<le> length file" "kHeaderSize \<le> length file"
  shows "reads format_error (\<lambda>c. c \<le> length file) (check_regions file (sort (regions_of es off stop)) 0)"
proof (rule reads_mono [OF check_regions_reads])
  have "unat (se_offset e + se_size e) = unat (se_offset e) + unat (se_size e)" if "e \<in> set es" for e
    using that assms(1) by (simp add: entries_ok_def unat_word_ariths)
  then show "\<forall>(a, b)\<in>set (sort (regions_of es off stop)). a \<le> b \<and> b \<le> length file"
    unfolding set_sort using assms by (auto simp: regions_of_def entries_ok_def)
qed auto

lemma parse_table_reads:
  assumes "kHeaderSize \<le> length file"
  shows "reads format_error (table_ok file) (parse_table mem file h)"
proof -
  let ?n = "unat (fh_section_count h)"
  have "?n < 2 ^ 32" using unsigned_less [of "fh_section_count h"] by simp
  then have sz: "?n * kSectionEntrySize < 2 ^ 64" by (simp add: kSectionEntrySize_def)
  have start: "entries_ok (length file) [] (replicate 9 None)" by (simp add: entries_ok_def)
  have nine: "unat kMaxKnownSectionType + 1 = 9" by (simp add: kMaxKnownSectionType_def)
  have pe: "reads format_error (\<lambda>(es', by'). entries_ok (length file) es' by')
      (parse_entries (length file) [0..<?n] r [] (replicate (unat kMaxKnownSectionType + 1) None))" for r
    unfolding nine by (rule reads_mono [OF parse_entries_reads [OF start]]) auto
  show ?thesis
    unfolding parse_table_def Let_def
  proof (intro vf_reads reads_then [OF pe], goal_cases)
    case (4 x)
    obtain es bt where x: "x = (es, bt)" by (cases x)
    from 4 show ?case
      unfolding x prod.case
      by (intro vf_reads reads_then [OF regions_read]) (auto simp: checked_add_def table_ok_def assms split: if_splits)
  qed (use sz in \<open>auto simp: checked_add_def split: if_splits\<close>)
qed

lemma parse_header_and_table_reads: "reads format_error (table_ok file) (parse_header_and_table mem file)"
  unfolding parse_header_and_table_def by (intro vf_reads parse_table_reads) simp_all

lemma section_bytes_reads:
  "table_ok file p \<Longrightarrow> e \<in> set (pf_entries p) \<Longrightarrow>
    (\<And>bytes. length bytes = unat (se_size e) \<Longrightarrow> reads E Q (k bytes)) \<Longrightarrow> reads E Q (section_bytes file e k)"
  by (auto simp: section_bytes_def table_ok_def entries_ok_def intro!: vf_reads)

lemma section_code_less: "unat (section_code t) < 9"
  by (cases t) simp_all

lemma find_section_entry: "table_ok file p \<Longrightarrow> find_section p t = Some e \<Longrightarrow> e \<in> set (pf_entries p)"
  using section_code_less [of t] by (auto simp: table_ok_def entries_ok_def find_section_def intro!: nth_mem)

lemma check_graph_sections_reads:
  "reads format_error (\<lambda>_. \<forall>t\<in>set ts. (find_section p t \<noteq> None) = has_graph) (check_graph_sections p has_graph ts)"
  by (induction ts) (auto intro!: vf_reads elim!: reads_mono)

definition sections_ok :: "parsed_file \<Rightarrow> section_entry \<Rightarrow> section_entry \<Rightarrow> section_entry \<Rightarrow> section_entry option \<Rightarrow> bool" where
  "sections_ok p meta_e vectors_e labels_e tomb_e \<longleftrightarrow>
     find_section p Metadata = Some meta_e \<and> find_section p Vectors = Some vectors_e \<and> find_section p Labels = Some labels_e \<and>
     find_section p Tombstones = tomb_e \<and> (tomb_e \<noteq> None \<longleftrightarrow> fh_flags (pf_header p) AND kFlagHasTombstones \<noteq> 0) \<and>
     (\<forall>t\<in>{Levels, L0Links, UpperIndex, UpperLinks}. (find_section p t \<noteq> None) = (fh_flags (pf_header p) AND kFlagHasGraph \<noteq> 0))"

lemma required_sections_reads:
  "reads format_error (\<lambda>(meta_e, vectors_e, labels_e, tomb_e). sections_ok p meta_e vectors_e labels_e tomb_e) (required_sections p)"
proof (cases "find_section p Metadata = None \<or> find_section p Vectors = None \<or> find_section p Labels = None")
  case True
  then show ?thesis by (auto simp: required_sections_def split: option.split)
next
  case False
  then obtain a b c where f: "find_section p Metadata = Some a" "find_section p Vectors = Some b" "find_section p Labels = Some c" by auto
  show ?thesis
    unfolding required_sections_def f prod.case option.case Let_def
    by (intro vf_reads reads_then [OF check_graph_sections_reads]) (simp_all add: sections_ok_def f)
qed

lemma verify_crc_reads: "table_ok file p \<Longrightarrow> e \<in> set (pf_entries p) \<Longrightarrow> reads format_error (\<lambda>_. True) (verify_crc file e)"
  unfolding verify_crc_def by (rule section_bytes_reads) (auto intro!: vf_reads)

lemma verify_sections_reads:
  "table_ok file p \<Longrightarrow> set es \<subseteq> set (pf_entries p) \<Longrightarrow> reads format_error (\<lambda>_. True) (verify_sections file es)"
  by (induction es) (auto intro!: reads_then [OF verify_crc_reads])

text \<open>Metadata that pass describe a valid configuration.\<close>

lemma validate_metadata_ok:
  assumes "status_ok (validate_metadata m h)"
  shows "1 \<le> md_dim m" "md_dim m \<le> kMaxDim" "metric_is_valid (metric_of_u8 (md_metric m))"
    "index_type_is_valid (index_type_of_u8 (md_index_type m))" "unat (md_node_count m) \<le> kMaxVectorsPerCollection"
    "index_type_of_u8 (md_index_type m) = Hnsw \<longleftrightarrow> fh_flags h AND kFlagHasGraph \<noteq> 0"
    "index_type_of_u8 (md_index_type m) = Hnsw \<Longrightarrow> status_ok (hnsw_params_validate (params_of m))"
    "md_max_level_cap m \<le> kMaxLevelCap" "md_live_count m \<le> md_node_count m"
  using assms unfolding validate_metadata_def Let_def by (auto split: if_splits)

lemma validate_metadata_error: "\<not> status_ok (validate_metadata m h) \<Longrightarrow> format_error (validate_metadata m h)"
  unfolding validate_metadata_def Let_def by (auto split: if_splits)

lemma validated_config:
  assumes "status_ok (validate_metadata m h)" "ro_concurrency opts \<in> {Coarse, Concurrent}"
  shows "status_ok (collection_config_validate (loaded_config opts m))"
  using validate_metadata_ok [OF assms(1)] assms(2) by (simp add: collection_config_validate_ok loaded_config_def)


subsection \<open>Labels and tombstones\<close>

lemma length_words_of [simp]: "length (words_of w bytes) = length bytes div w"
  by (simp add: words_of_def)

lemma words_of_slice:
  assumes "0 < w" "(k + n) * w \<le> length bytes"
  shows "words_of w (take (n * w) (drop (k * w) bytes)) = take n (drop k (words_of w bytes))"
proof (rule nth_equalityI)
  have len: "length (take (n * w) (drop (k * w) bytes)) = n * w" using assms(2) by (simp add: algebra_simps)
  have kn: "k + n \<le> length bytes div w" using assms by (simp add: less_eq_div_iff_mult_less_eq)
  show "length (words_of w (take (n * w) (drop (k * w) bytes))) = length (take n (drop k (words_of w bytes)))"
    using assms(1) kn by (simp add: len del: length_take length_drop) simp
  fix i assume "i < length (words_of w (take (n * w) (drop (k * w) bytes)))"
  then have i: "i < n" using assms(1) by (simp add: len del: length_take length_drop)
  then have "Suc i * w \<le> n * w" by (intro mult_le_mono1) simp
  then have "take w (drop (w * i) (take (n * w) (drop (k * w) bytes))) = take w (drop (w * (k + i)) bytes)"
    by (simp add: drop_take take_take min_absorb1 algebra_simps)
  then show "words_of w (take (n * w) (drop (k * w) bytes)) ! i = take n (drop k (words_of w bytes)) ! i"
    using i kn assms(1) by (simp add: words_of_def len del: length_take length_drop)
qed

lemma restore_loop_error: "restore_loop xs i d m n = Inl e \<Longrightarrow> format_error e"
  by (induction xs i d m n rule: restore_loop.induct) (auto split: if_splits option.splits)

lemma im_restore_error: "im_restore labels d = Inl e \<Longrightarrow> format_error e"
  using restore_loop_error [of labels 0 d Map.empty 0] by (auto simp: im_restore_def result_bind_def split: sum.splits)

lemma tb_restore_bounded: "tb_restore words n = Some t \<Longrightarrow> i \<in> tb_rows t \<Longrightarrow> i < n"
  by (simp add: tb_restore_Some)

lemma read_tombstones_reads:
  assumes "table_ok file p" "\<And>e. tomb_e = Some e \<Longrightarrow> e \<in> set (pf_entries p)"
  shows "reads format_error (\<lambda>t. tb_inv t \<and> (\<forall>i\<in>tb_rows t. i < n)) (read_tombstones mem file n tomb_e)"
proof (cases tomb_e)
  case (Some e)
  show ?thesis
    unfolding read_tombstones_def Some option.case
    by (rule section_bytes_reads [OF assms(1) assms(2) [OF Some]])
      (auto intro!: vf_reads simp: tb_restore_inv dest: tb_restore_bounded split: option.split)
qed (simp add: read_tombstones_def)

definition ids_loaded :: "nat \<Rightarrow> id_map \<Rightarrow> tombstone_set \<Rightarrow> bool" where
  "ids_loaded n ids d \<longleftrightarrow>
     im_inv ids \<and> length (im_labels ids) = n \<and> im_pending ids = {} \<and> tb_inv d \<and> n \<le> 64 * length (tb_words d) \<and>
     tb_rows d = {..<n} - ran (im_find ids)"

lemma ids_loaded_restore:
  assumes "im_restore labels (tb_ensure_size t n) = Inr ids" "length labels = n" "n \<le> kInvalidInternalId" "tb_inv t" "\<forall>i\<in>tb_rows t. i < n"
  shows "ids_loaded n ids (tb_ensure_size t n)"
proof -
  note R = im_restore_ok [OF assms(1)] and T = tb_ensure_size_rows [where t = t and n = n]
  have lab: "length labels \<le> kInvalidInternalId" using assms(2,3) by simp
  have "ran (im_find ids) = {i. i < n \<and> i \<notin> tb_rows t}"
    using R(4) [OF lab] assms(2) T(1) by (auto simp: ran_def tb_rows_def)
  moreover have "n \<le> 64 * length (tb_words (tb_ensure_size t n))" by (auto simp: tb_ensure_size_def Let_def)
  ultimately show ?thesis using R(1-3) [OF lab] T assms by (auto simp: ids_loaded_def)
qed

lemma read_ids_reads:
  assumes "table_ok file p" "\<And>e. tomb_e = Some e \<Longrightarrow> e \<in> set (pf_entries p)" "labels_e \<in> set (pf_entries p)"
    "unat (se_size labels_e) = unat (md_node_count m) * 8" "unat (md_node_count m) \<le> kMaxVectorsPerCollection"
  shows "reads format_error (\<lambda>(ids, d). ids_loaded (unat (md_node_count m)) ids d) (read_ids mem file m labels_e tomb_e)"
  unfolding read_ids_def Let_def
proof (rule reads_then [OF read_tombstones_reads [OF assms(1,2)]], assumption, intro vf_reads, goal_cases)
  case (2 t)
  show ?case
  proof (rule section_bytes_reads [OF assms(1,3)], rule vf_reads)
    fix bytes :: "u8 list" assume "length bytes = unat (se_size labels_e)"
    then have len: "length (read_u64_array bytes) = unat (md_node_count m)" using assms(4) by (simp add: read_u64_array_def)
    have kk: "unat (md_node_count m) \<le> kInvalidInternalId" using assms(5) by (simp add: kMaxVectorsPerCollection_def)
    show "reads format_error (\<lambda>(ids, d). ids_loaded (unat (md_node_count m)) ids d)
       (then_read (Returned (im_restore (read_u64_array bytes) (tb_ensure_size t (unat (md_node_count m)))))
         (\<lambda>ids. need (rm_ids mem) (Returned (Inr (ids, tb_ensure_size t (unat (md_node_count m)))))))"
      using ids_loaded_restore [OF _ len kk] im_restore_error 2
      by (cases "im_restore (read_u64_array bytes) (tb_ensure_size t (unat (md_node_count m)))")
        (auto simp: then_read_def need_def)
  qed
qed simp


subsection \<open>The graph and the vectors\<close>

definition load_error :: "kernel_selection \<Rightarrow> status \<Rightarrow> bool" where
  "load_error simd st \<longleftrightarrow> format_error st \<or> code st = ResourceExhausted \<or> st = ks_status simd"

definition graph_loaded :: "metadata \<Rightarrow> hnsw_graph \<Rightarrow> bool" where
  "graph_loaded m g \<longleftrightarrow>
     graph_ok g \<and> VF_HnswInsert.entry_ok g {} \<and> node_count g = unat (md_node_count m) \<and> hg_m g = unat (md_m m) \<and> hg_max_level g = unat (md_max_level_cap m)"

lemma decode_graph_size: "decode_graph mem s sh = Returned (Inr g) \<Longrightarrow> length (gs_levels s) = gh_node_count sh"
  by (auto simp: decode_graph_def Let_def split: if_splits)

lemma read_graph_reads:
  assumes "table_ok file p" "sections_ok p meta_e vectors_e labels_e tomb_e" "status_ok (validate_metadata m (pf_header p))"
  shows "reads (load_error simd) (\<lambda>og. case og of None \<Rightarrow> index_type_of_u8 (md_index_type m) \<noteq> Hnsw
      | Some g \<Rightarrow> index_type_of_u8 (md_index_type m) = Hnsw \<and> graph_loaded m g) (read_graph mem file p m)"
proof (cases "fh_flags (pf_header p) AND kFlagHasGraph \<noteq> 0")
  case True
  note V = validate_metadata_ok [OF assms(3)]
  have hn: "index_type_of_u8 (md_index_type m) = Hnsw" using V(6) True by blast
  have mm: "unat (md_m m) < 2 ^ 32 - 1" "unat (md_max_level_cap m) < 256"
    using V(7) [OF hn] unsigned_less [of "md_max_level_cap m"] by (simp_all add: hnsw_params_validate_ok params_of_def kMaxM_def word_le_nat_alt)
  obtain a b c d where f: "find_section p Levels = Some a" "find_section p L0Links = Some b" "find_section p UpperIndex = Some c"
    "find_section p UpperLinks = Some d" using assms(2) True by (auto simp: sections_ok_def)
  note e = f [THEN find_section_entry [OF assms(1)]]
  show ?thesis
    unfolding read_graph_def f prod.case option.case if_P [OF True]
  proof (intro section_bytes_reads [OF assms(1)] e, goal_cases)
    case (1 levels l0 index upper)
    let ?s = "\<lparr>gs_levels = levels, gs_l0_links = l0, gs_upper_index = index, gs_upper_links = upper\<rparr>"
    let ?sh = "\<lparr>gh_node_count = unat (md_node_count m), gh_m = unat (md_m m), gh_max_level_cap = unat (md_max_level_cap m),
      gh_entry_point = unat (md_entry_point m), gh_entry_level = unat (md_max_level m)\<rparr>"
    have "reads (load_error simd) (graph_loaded m) (decode_graph (rm_graph mem) ?s ?sh)"
      using decode_graph_ok [where sh = ?sh and mem = "rm_graph mem" and s = ?s] mm V(5) decode_graph_size [of "rm_graph mem" ?s ?sh]
      by (auto simp: reads_def load_error_def format_error_def graph_loaded_def loaded_def node_count_def split: outcome.splits sum.splits)
    then show ?case by (rule reads_then) (use hn in simp)
  qed
next
  case False
  then show ?thesis using validate_metadata_ok(6) [OF assms(3)] by (simp add: read_graph_def)
qed

definition file_rows :: "u8 list \<Rightarrow> nat \<Rightarrow> nat list \<Rightarrow> f32 list list" where
  "file_rows bytes dim is = map (\<lambda>i. take dim (drop (i * dim) (words_of 4 bytes))) is"

definition store_loaded :: "u8 list \<Rightarrow> nat \<Rightarrow> nat \<Rightarrow> vector_store \<Rightarrow> bool" where
  "store_loaded bytes dim n v \<longleftrightarrow>
     st_inv v \<and> st_dim v = dim \<and> st_max_rows v = kMaxVectorsPerCollection \<and> st_rows v = file_rows bytes dim [0..<n]"

lemma file_row_length: "(i + 1) * dim * 4 \<le> length bytes \<Longrightarrow> length (take dim (drop (i * dim) (words_of 4 bytes :: f32 list))) = dim"
  by (simp add: algebra_simps less_eq_div_iff_mult_less_eq)

text \<open>Rows are only rejected when a component is invalid.\<close>

definition row_error :: "u8 list \<Rightarrow> status \<Rightarrow> bool" where
  "row_error bytes e \<longleftrightarrow> format_error e \<and> \<not> (\<forall>x\<in>set (words_of 4 bytes :: f32 list). component_ok x)"

lemma row_errorI: "find_invalid_component row \<noteq> length row \<Longrightarrow> set row \<subseteq> set (words_of 4 bytes) \<Longrightarrow> row_error bytes (corrupt_data msg)"
  using find_invalid_component_all [of row] by (auto simp: row_error_def)

lemma copy_rows_reads:
  assumes "st_inv v" "alloc_fits alloc" "st_dim v = dim" "st_max_rows v = kMaxVectorsPerCollection" "n \<le> kMaxVectorsPerCollection"
    "n * dim * 4 \<le> length bytes" "st_size v \<le> n" "st_rows v = file_rows bytes dim [0..<st_size v]" "rows_ok v" "rs = [st_size v..<n]"
  shows "reads (row_error bytes) (\<lambda>v'. store_loaded bytes dim n v' \<and> rows_ok v') (copy_rows alloc bytes dim rs v)"
  using assms
proof (induction rs arbitrary: v)
  case (Cons r rs)
  let ?row = "take dim (drop (r * dim) (words_of 4 bytes)) :: f32 list"
  have "st_size v < n" using Cons.prems(10) by (cases "st_size v < n") simp_all
  then have r: "r = st_size v" "st_size v < n" "rs = [Suc (st_size v)..<n]" using Cons.prems(10) upt_conv_Cons [of "st_size v" n] by simp_all
  have "(r + 1) * (dim * 4) \<le> n * (dim * 4)" using r by (intro mult_le_mono1) simp
  then have le: "(r + 1) * dim * 4 \<le> length bytes" using Cons.prems(6) by (simp add: mult.assoc)
  have row: "words_of 4 (take (dim * 4) (drop (r * dim * 4) bytes)) = ?row"
    using words_of_slice [of 4 "r * dim" dim bytes] le by (simp add: algebra_simps)
  have step: "reads (row_error bytes) (\<lambda>v'. store_loaded bytes dim n v' \<and> rows_ok v')
     (case st_append alloc v ?row of (Returned (Inl e), v1) \<Rightarrow> Returned (Inl e)
      | (Returned (Inr _), v1) \<Rightarrow> copy_rows alloc bytes dim rs v1 | (Thrown, v1) \<Rightarrow> Thrown | (Aborted, v1) \<Rightarrow> Aborted)"
    if ok: "find_invalid_component ?row = length ?row"
  proof -
    obtain res v1 where ap: "st_append alloc v ?row = (res, v1)" by fastforce
    have "length ?row = st_dim v" "st_size v < st_max_rows v" using file_row_length [OF le] Cons.prems(3,4,5) r by simp_all
    note A = st_append_ok [OF Cons.prems(1,2) this ap]
    show ?thesis
    proof (cases "res = Thrown")
      case False
      with A have a: "res = Returned (Inr (st_size v))" "st_inv v1" "st_rows v1 = st_rows v @ [?row]" "st_dim v1 = dim"
        "st_max_rows v1 = kMaxVectorsPerCollection" using Cons.prems(3,4) by auto
      have sz: "st_size v1 = Suc (st_size v)" using arg_cong [OF a(3), of length] by simp
      have "rows_ok v1" using Cons.prems(3,9) ok file_row_length [OF le]
        by (auto simp: rows_ok_iff a(3,4) validate_vector_ok simp flip: find_invalid_component_all)
      then show ?thesis
        using Cons.IH [OF a(2) Cons.prems(2) a(4,5) Cons.prems(5,6)] a Cons.prems(8) r ap sz by (simp add: file_rows_def)
    qed (use ap in simp)
  qed
  have "r * dim * 4 + dim * 4 \<le> length bytes" using le by (simp add: algebra_simps)
  moreover have "row_error bytes (corrupt_data msg)" if "find_invalid_component ?row \<noteq> length ?row" for msg
    using that by (rule row_errorI) (auto dest!: in_set_takeD in_set_dropD)
  ultimately show ?case
    unfolding copy_rows.simps by (intro vf_reads) (use row step in auto)
next
  case Nil
  then have "st_size v = n" using upt_conv_Cons [of "st_size v" n] by (cases "st_size v < n") simp_all
  with Nil show ?case by (simp add: store_loaded_def)
qed


lemma store_loaded_size: "store_loaded bytes dim n v \<Longrightarrow> st_size v = n"
  using length_st_rows [of v] by (simp add: store_loaded_def file_rows_def)

text \<open>Rows are checked unless they are served in place and only the metadata were verified.\<close>

definition rows_checked :: "bool \<Rightarrow> read_options \<Rightarrow> bool" where
  "rows_checked aligned opts \<longleftrightarrow> \<not> (ro_mapped opts \<and> aligned) \<or> ro_verify opts = VerifyFull"

lemma read_vectors_reads:
  assumes fits: "alloc_fits (rm_alloc mem)" and dim: "1 \<le> dim" "dim \<le> 65536" and n: "n \<le> kMaxVectorsPerCollection" "length bytes = n * dim * 4"
  shows "reads (row_error bytes) (\<lambda>v. store_loaded bytes dim n v \<and> (rows_checked aligned opts \<longrightarrow> rows_ok v)) (read_vectors mem aligned opts bytes dim n)"
proof -
  let ?o = "\<lparr>so_dim = dim, so_rows_per_chunk = 0, so_max_rows = kMaxVectorsPerCollection\<rparr>"
  obtain v0 where c: "st_create ?o = Inr v0" using st_create_default [OF dim] by blast
  note C = st_create_ok [OF c]
  show ?thesis
  proof (cases "ro_mapped opts \<and> aligned")
    case True
    have len: "n * so_dim ?o \<le> length (words_of 4 bytes :: f32 list)" using n(2) by simp
    have good: "store_loaded bytes dim n v \<and> (rows_checked aligned opts \<longrightarrow> rows_ok v)"
      if "st_create_mapped (rm_alloc mem) ?o (words_of 4 bytes) n = Returned (Inr v)"
        "rows_checked aligned opts \<longrightarrow> find_invalid_component (words_of 4 bytes) = length (words_of 4 bytes :: f32 list)" for v
    proof -
      note M = st_create_mapped_ok [OF that(1) fits len]
      have "length (take dim (drop (i * dim) (words_of 4 bytes :: f32 list))) = dim" if "i < n" for i
        using mult_le_mono1 [of "i + 1" n "dim * 4"] that n(2) by (intro file_row_length) (simp add: mult.assoc)
      then have "rows_ok v" if "\<forall>x\<in>set (words_of 4 bytes). component_ok x"
        using M that unfolding rows_ok_iff by (auto simp: validate_vector_ok dest!: in_set_takeD in_set_dropD)
      then show ?thesis using M that(2) find_invalid_component_all [of "words_of 4 bytes"] by (auto simp: store_loaded_def file_rows_def)
    qed
    from st_create_mapped_returns [OF c _ fits len] n(1)
    show ?thesis
      unfolding read_vectors_def Let_def if_P [OF True] using True good
      by (intro vf_reads row_errorI) (auto simp: rows_checked_def)
  next
    case False
    obtain res v1 where r: "st_reserve (rm_alloc mem) v0 n = (res, v1)" by fastforce
    note R = st_reserve_ok [OF C(1) fits r]
    have cp: "reads (row_error bytes) (\<lambda>v. store_loaded bytes dim n v \<and> rows_ok v) (copy_rows (rm_alloc mem) bytes dim [0..<n] v1)"
    proof (rule copy_rows_reads)
      have "st_size v1 = 0" using R C(2) length_st_rows [of v1] by simp
      then show "st_rows v1 = file_rows bytes dim [0..<st_size v1]" "rows_ok v1" "[0..<n] = [st_size v1..<n]" "st_size v1 \<le> n"
        using R C by (simp_all add: file_rows_def rows_ok_def)
    qed (use R C n fits in auto)
    note cp' = reads_mono [OF cp, of "row_error bytes" "\<lambda>v. store_loaded bytes dim n v \<and> (rows_checked aligned opts \<longrightarrow> rows_ok v)"]
    show ?thesis
      unfolding read_vectors_def Let_def if_not_P [OF False] c sum.case r prod.case
      using R C(4) n(1) by (auto split: outcome.splits intro!: vf_reads cp')
  qed
qed


subsection \<open>The loaded collection\<close>

lemma loaded_backend_inv:
  assumes "graph_ok g" "VF_HnswInsert.entry_ok g {}" "node_count g = st_size v" "hg_m g = unat (hp_M params)"
    "hg_max_level g = unat (hp_max_level params)" "status_ok (hnsw_params_validate params)"
  shows "backend_inv (make_backend v metric normalized kernels params default_build_options g) v {}"
proof -
  have "unat (hp_max_level params) < 256" using unsigned_less [of "hp_max_level params"] by simp
  then show ?thesis using assms by (simp add: backend_inv_def graph_inv_def pool_ok_def params_match_def make_backend_def)
qed

lemma loaded_state_returns:
  assumes m: "status_ok (validate_metadata m h)" and conc: "ro_concurrency opts \<in> {Coarse, Concurrent}"
    and k: "ks_table simd = scalar_kernel_table" and v: "store_loaded bytes (unat (md_dim m)) (unat (md_node_count m)) v"
    and ids: "ids_loaded (unat (md_node_count m)) ids d"
    and g: "case og of None \<Rightarrow> index_type_of_u8 (md_index_type m) \<noteq> Hnsw | Some g \<Rightarrow> index_type_of_u8 (md_index_type m) = Hnsw \<and> graph_loaded m g"
  shows "\<exists>s. loaded_state simd opts m v ids d og = Returned (Inr s) \<and> (rows_ok v \<longrightarrow> coll_inv s) \<and> cs_vectors s = v \<and> cs_ids s = ids \<and>
    cs_deleted s = d \<and> cs_config s = loaded_config opts m \<and> cs_creator s = md_creator m \<and> cs_created_unix_ms s = md_created_unix_ms m \<and>
    graph_of (cs_backend s) = og"
proof -
  let ?cfg = "loaded_config opts m"
  let ?s = "(new_state ?cfg v (ks_table simd))\<lparr>cs_ids := ids, cs_deleted := d, cs_creator := md_creator m, cs_created_unix_ms := md_created_unix_ms m\<rparr>"
  note V = validate_metadata_ok [OF m] and sz = store_loaded_size [OF v]
  have dims: "st_dim v = unat (cc_dim ?cfg)" "st_max_rows v = kMaxVectorsPerCollection" "st_inv v"
    using v by (simp_all add: store_loaded_def loaded_config_def)
  have inv: "coll_inv (?s\<lparr>cs_backend := b\<rparr>)" if "rows_ok v" "backend_ok ?cfg v (st_size v) {} b" for b
    by (rule coll_invI [of _ "{}"])
      (use that dims ids sz validated_config [OF m conc] k in \<open>auto simp: setup_ok_def store_ok_def ids_loaded_def new_state_def\<close>)
  show ?thesis
  proof (cases og)
    case None
    have "backend_ok ?cfg v (st_size v) {} (FlatBackend (cc_metric ?cfg) (effective_normalize ?cfg) (ks_table simd))"
      using V(4) g None k by (cases "index_type_of_u8 (md_index_type m)") (auto simp: loaded_config_def simp del: index_type_of_u8.simps)
    from inv [OF _ this] show ?thesis by (simp add: loaded_state_def Let_def None new_state_def)
  next
    case (Some g0)
    have hn: "index_type_of_u8 (md_index_type m) = Hnsw" and gl: "graph_loaded m g0" using g Some by auto
    have b: "hnsw_create_loaded v (cc_metric ?cfg) (effective_normalize ?cfg) (ks_table simd) (cc_hnsw ?cfg) g0 =
        Returned (Inr (make_backend v (cc_metric ?cfg) (effective_normalize ?cfg) (ks_table simd) (cc_hnsw ?cfg) default_build_options g0))"
      using V(7) [OF hn] gl sz by (simp add: hnsw_create_loaded_def loaded_config_def graph_loaded_def params_of_def)
    have "backend_ok ?cfg v (st_size v) {} (HnswBackend (make_backend v (cc_metric ?cfg) (effective_normalize ?cfg) (ks_table simd) (cc_hnsw ?cfg) default_build_options g0))"
      using loaded_backend_inv [of g0 v "cc_hnsw ?cfg"] V(7) [OF hn] gl sz k hn
      by (simp add: graph_loaded_def hnsw_ok_def loaded_config_def params_of_def make_backend_def)
    from inv [OF _ this] show ?thesis using b by (simp add: loaded_state_def Let_def Some new_state_def make_backend_def)
  qed
qed

lemma check_sizes_reads:
  assumes "unat (md_node_count m) \<le> kMaxVectorsPerCollection" "md_dim m \<le> kMaxDim"
  shows "reads format_error (\<lambda>_. unat (se_size vectors_e) = unat (md_node_count m) * unat (md_dim m) * 4 \<and>
    unat (se_size labels_e) = unat (md_node_count m) * 8) (check_sizes m vectors_e labels_e tomb_e)"
  unfolding check_sizes_def Let_def
  by (intro vf_reads) (auto simp: expect_size_def checked_mul3_def checked_mul_size_def split: if_splits option.splits)

definition loaded_ok :: "bool \<Rightarrow> read_options \<Rightarrow> collection_state \<Rightarrow> bool" where
  "loaded_ok aligned opts s \<longleftrightarrow>
     (rows_ok (cs_vectors s) \<longrightarrow> coll_inv s) \<and> (rows_checked aligned opts \<longrightarrow> rows_ok (cs_vectors s))"

lemma reads_load: "reads format_error P r \<Longrightarrow> reads (load_error simd) P r"
  by (erule reads_mono) (simp_all add: load_error_def)

lemma reads_rows: "reads (row_error bytes) P r \<Longrightarrow> reads format_error P r"
  by (erule reads_mono) (simp_all add: row_error_def)

lemma decode_metadata_reads: "reads format_error (\<lambda>_. True) (Returned (decode_metadata bytes))"
  by (auto simp: decode_metadata_def reads_def split: sum.split option.split if_splits)

lemma load_error_simps [simp]: "load_error simd (corrupt_data m)" "load_error simd (ks_status simd)"
  by (simp_all add: load_error_def)

lemma read_index_reads:
  assumes "ro_verify opts \<noteq> VerifyAuto" "ro_concurrency opts \<in> {Coarse, Concurrent}" "ks_table simd = scalar_kernel_table" "alloc_fits (rm_alloc mem)"
  shows "reads (load_error simd) (loaded_ok aligned opts) (read_index mem simd aligned opts file)"
  unfolding read_index_def
proof (intro reads_check assms(1) reads_then [OF reads_load [OF parse_header_and_table_reads]]
    reads_then4 [OF reads_load [OF required_sections_reads]], goal_cases)
  case (1 p meta_e vectors_e labels_e tomb_e)
  note tab = 1(1) and so = 1(2)
  have ent: "meta_e \<in> set (pf_entries p)" "vectors_e \<in> set (pf_entries p)" "labels_e \<in> set (pf_entries p)"
    "\<And>e. tomb_e = Some e \<Longrightarrow> e \<in> set (pf_entries p)"
    using so find_section_entry [OF tab] by (auto simp: sections_ok_def)
  have vs: "reads (load_error simd) (\<lambda>_. True) (if b then verify_sections file (pf_entries p) else Returned (Inr ()))"
    "reads (load_error simd) (\<lambda>_. True) (if b then verify_crc file vectors_e else Returned (Inr ()))" for b
    using reads_load [OF verify_sections_reads [OF tab]] reads_load [OF verify_crc_reads [OF tab ent(2)]] by auto
  show ?case
  proof (intro reads_then [OF vs(1)] section_bytes_reads [OF tab ent(1)] reads_need reads_let reads_reject reads_then [OF reads_load [OF decode_metadata_reads]],
      goal_cases)
    case (2 _ _ m vst)
    then have m: "status_ok (validate_metadata m (pf_header p))" by simp
    note V = validate_metadata_ok [OF m]
    have dim: "1 \<le> unat (md_dim m)" "unat (md_dim m) \<le> 65536"
      using V(1,2) by (auto simp: kMaxDim_def word_le_nat_alt unat_gt_0 Suc_le_eq)
    show ?case
    proof (intro reads_then [OF reads_load [OF check_sizes_reads [OF V(5,2)]]] section_bytes_reads [OF tab ent(2)] reads_then [OF vs(2)]
        reads_then2 [OF reads_load [OF read_ids_reads [OF tab ent(4,3) _ V(5)]]] reads_then [OF read_graph_reads [OF tab so m]]
        reads_then [OF reads_load [OF reads_rows [OF read_vectors_reads [OF assms(4) dim V(5)]]]] vf_reads, goal_cases)
      case (5 _ bytes _ ids deleted graph store)
      then have st: "store_loaded bytes (unat (md_dim m)) (unat (md_node_count m)) store" "rows_checked aligned opts \<longrightarrow> rows_ok store" by simp_all
      show ?case
        using loaded_state_returns [OF m assms(2,3) st(1) 5(4,5)] st(2) by (auto simp: loaded_ok_def)
    qed auto
  qed (use validate_metadata_error in \<open>auto simp: load_error_def\<close>)
qed

subsection \<open>Properties\<close>

text \<open>
  C8. Loading an untrusted file is safe. For arbitrary bytes, and whatever allocation fails, the reader
  never takes a span outside the file and never fails an assertion; an error is CorruptData,
  UnsupportedVersion or ResourceExhausted, or the status of the kernel selection. A returned collection
  satisfies the invariant of collections, except that the components of rows served in place are
  only checked by a full verification.
\<close>

theorem read_index_safe:
  assumes "ro_verify opts \<noteq> VerifyAuto" "ro_concurrency opts \<in> {Coarse, Concurrent}" "ks_table simd = scalar_kernel_table" "alloc_fits (rm_alloc mem)"
  shows "case read_index mem simd aligned opts file of
      Returned (Inl e) \<Rightarrow> code e \<in> {CorruptData, UnsupportedVersion, ResourceExhausted} \<or> e = ks_status simd
    | Returned (Inr s) \<Rightarrow> (ro_mapped opts \<and> aligned \<and> ro_verify opts \<noteq> VerifyFull \<longrightarrow> rows_ok (cs_vectors s)) \<longrightarrow> coll_inv s
    | Thrown \<Rightarrow> True
    | Aborted \<Rightarrow> False"
  using read_index_reads [OF assms, of aligned "file"]
  by (auto simp: reads_def load_error_def format_error_def loaded_ok_def rows_checked_def split: outcome.splits sum.splits)

definition plentiful :: read_mem where
  "plentiful = \<lparr>rm_entries = True, rm_regions = True, rm_metadata = True, rm_tombstones = True, rm_labels = True, rm_ids = True,
     rm_graph = (\<lambda>_. (True, True)), rm_alloc = (\<lambda>n. Some (replicate n 0)), rm_row = True, rm_state = True\<rparr>"

definition full_load :: read_options where
  "full_load = \<lparr>ro_verify = VerifyFull, ro_mapped = False, ro_concurrency = Concurrent\<rparr>"


theorem read_index_safe_witness:
  "\<exists>e. read_index plentiful scalar_selection False full_load (replicate 64 0) = Returned (Inl e) \<and> code e = CorruptData"
proof -
  have r: "parse_header_and_table plentiful (replicate 64 0) = Returned (Inl (corrupt_data ''not a VectorForge index (bad magic)''))"
    by (simp add: parse_header_and_table_def reject_if_def kHeaderSize_def kMagic_def Let_def)
  have o: "ro_verify full_load \<noteq> VerifyAuto" "ro_concurrency full_load \<in> {Coarse, Concurrent}" by (simp_all add: full_load_def)
  have s: "ks_table scalar_selection = scalar_kernel_table" "alloc_fits (rm_alloc plentiful)"
    by (simp_all add: scalar_selection_def plentiful_def alloc_fits_def)
  show ?thesis
    using read_index_safe [OF o s, of False "replicate 64 0"]
    by (simp add: read_index_def r then_read_def check_that_def o(1))
qed

end
