(* ===== verification/VF_Integrity.thy ===== *)
theory VF_Integrity
  imports VF_IndexReader
begin

text \<open>
  What a full verification detects: of two files of the same length that differ in one byte, the reader
  (\<^verbatim>\<open>src/collection/index_reader.cpp\<close>) accepts at most one. Every byte of an accepted file is under a
  checksum, is the stored header checksum, or must be zero.
\<close>

subsection \<open>What acceptance means\<close>

lemma no_nonzero: "\<not> list_ex (\<lambda>b. b \<noteq> 0) xs \<Longrightarrow> i < length xs \<Longrightarrow> xs ! i = 0"
  by (auto simp: list_ex_length)

text \<open>Bytes outside every region of an accepted table are zero.\<close>

lemma check_regions_gaps:
  assumes "check_regions f rs c = Returned (Inr c')" "c \<le> i" "i < c'" "\<forall>(a, b)\<in>set rs. \<not> (a \<le> i \<and> i < b)"
  shows "f ! i = 0"
  using assms
proof (induction rs arbitrary: c)
  case (Cons x rs)
  obtain a b where x: "x = (a, b)" by (cases x)
  have r: "c \<le> a" "a \<le> length f" "\<not> list_ex (\<lambda>b. b \<noteq> 0) (take (a - c) (drop c f))" "check_regions f rs b = Returned (Inr c')"
    using Cons.prems(1) by (auto simp: x accepts_simps)
  show ?case
  proof (cases "i < a")
    case True
    then have "f ! i = take (a - c) (drop c f) ! (i - c)" "i - c < length (take (a - c) (drop c f))" using r(1,2) Cons.prems(2) by simp_all
    then show ?thesis using no_nonzero [OF r(3)] by simp
  next
    case False
    then have "b \<le> i" using Cons.prems(4) x by auto
    then show ?thesis using Cons.IH [OF r(4)] Cons.prems(3,4) by simp
  qed
qed simp

definition file_regions :: "parsed_file \<Rightarrow> (nat \<times> nat) list" where
  "file_regions p =
     (let off = unat (fh_section_table_offset (pf_header p))
      in regions_of (pf_entries p) off (off + unat (fh_section_count (pf_header p)) * kSectionEntrySize))"

definition intact :: "u8 list \<Rightarrow> parsed_file \<Rightarrow> bool" where
  "intact f p \<longleftrightarrow>
     kHeaderSize \<le> length f \<and> pf_header p = decode_header (take kHeaderSize f) \<and>
     crc32c (take kHeaderCrcCoverage f) = fh_header_crc32c (pf_header p) \<and> header_reserved_zero (take kHeaderSize f) \<and>
     (let off = unat (fh_section_table_offset (pf_header p)); n = unat (fh_section_count (pf_header p)); table = take (n * kSectionEntrySize) (drop off f)
      in off + n * kSectionEntrySize \<le> length f \<and> crc32c table = fh_section_table_crc32c (pf_header p) \<and>
         parse_entries (length f) [0..<n] (new_reader table) [] (replicate 9 None) = Returned (Inr (pf_entries p, pf_by_type p))) \<and>
     table_ok f p \<and> (\<forall>i < length f. (\<forall>(a, b)\<in>set (file_regions p). \<not> (a \<le> i \<and> i < b)) \<longrightarrow> f ! i = 0)"

lemma parse_accepts_intact:
  assumes "parse_header_and_table mem f = Returned (Inr p)"
  shows "intact f p"
proof -
  have tab: "table_ok f p" by (rule reads_accepted [OF parse_header_and_table_reads assms])
  let ?h = "decode_header (take kHeaderSize f)"
  have a: "kHeaderSize \<le> length f" "crc32c (take kHeaderCrcCoverage f) = fh_header_crc32c ?h" "header_reserved_zero (take kHeaderSize f)"
    "parse_table mem f ?h = Returned (Inr p)"
    using assms by (auto simp: parse_header_and_table_def accepts_simps Let_def)
  define off n where "off = unat (fh_section_table_offset ?h)" and "n = unat (fh_section_count ?h)"
  have nine: "unat kMaxKnownSectionType + 1 = 9" by (simp add: kMaxKnownSectionType_def)
  obtain stop es bt covered where b: "checked_add off (n * kSectionEntrySize) = Some stop" "off + n * kSectionEntrySize \<le> length f"
    "crc32c (take (n * kSectionEntrySize) (drop off f)) = fh_section_table_crc32c ?h"
    "parse_entries (length f) [0..<n] (new_reader (take (n * kSectionEntrySize) (drop off f))) [] (replicate 9 None) = Returned (Inr (es, bt))"
    "check_regions f (sort (regions_of es off stop)) 0 = Returned (Inr covered)" "covered \<le> length f"
    "\<not> list_ex (\<lambda>b. b \<noteq> 0) (take (length f - covered) (drop covered f))" "p = \<lparr>pf_header = ?h, pf_entries = es, pf_by_type = bt\<rparr>"
    using a(4) unfolding parse_table_def nine by (auto simp: accepts_simps Let_def off_def n_def)
  have stop: "stop = off + n * kSectionEntrySize" using b(1) by (auto simp: checked_add_def split: if_splits)
  have "f ! i = 0" if i: "i < length f" "\<forall>(a, b)\<in>set (regions_of es off stop). \<not> (a \<le> i \<and> i < b)" for i
  proof (cases "i < covered")
    case True
    then show ?thesis using check_regions_gaps [OF b(5), of i] i(2) by simp
  next
    case False
    then have "f ! i = take (length f - covered) (drop covered f) ! (i - covered)" "i - covered < length (take (length f - covered) (drop covered f))"
      using i(1) by simp_all
    then show ?thesis using no_nonzero [OF b(7)] by simp
  qed
  then show ?thesis using a(1-3) b tab stop by (simp add: intact_def file_regions_def off_def n_def Let_def)
qed

lemma verify_sections_accepts: "verify_sections f es = Returned (Inr u) \<Longrightarrow> e \<in> set es \<Longrightarrow> se_type e \<noteq> section_code Vectors \<Longrightarrow>
    verify_crc f e = Returned (Inr ())"
  by (induction es) (auto simp: accepts_simps split: if_splits)

lemma verify_crc_accepts: "verify_crc f e = Returned (Inr u) \<Longrightarrow>
    unat (se_offset e) + unat (se_size e) \<le> length f \<and> crc32c (take (unat (se_size e)) (drop (unat (se_offset e)) f)) = se_crc32c e"
  by (simp add: verify_crc_def section_bytes_def accepts_simps)

lemma full_load_accepts:
  assumes "read_index mem simd aligned opts f = Returned (Inr s)" "ro_verify opts = VerifyFull"
  obtains p where "intact f p"
    "\<And>e. e \<in> set (pf_entries p) \<Longrightarrow> crc32c (take (unat (se_size e)) (drop (unat (se_offset e)) f)) = se_crc32c e"
proof -
  obtain p me ve le te where a: "parse_header_and_table mem f = Returned (Inr p)" "required_sections p = Returned (Inr (me, ve, le, te))"
    "verify_sections f (pf_entries p) = Returned (Inr ())" "verify_crc f ve = Returned (Inr ())"
    using assms by (auto simp: read_index_def accepts_simps section_bytes_def Let_def)
  have i: "intact f p" by (rule parse_accepts_intact [OF a(1)])
  have "crc32c (take (unat (se_size e)) (drop (unat (se_offset e)) f)) = se_crc32c e" if e: "e \<in> set (pf_entries p)" for e
  proof (cases "se_type e = section_code Vectors")
    case False
    then show ?thesis using verify_crc_accepts [OF verify_sections_accepts [OF a(3) e]] by simp
  next
    case True
    have "find_section p Vectors = Some ve" using reads_accepted [OF required_sections_reads a(2)] by (simp add: sections_ok_def)
    moreover have "find_section p Vectors = Some e" if "j < length (pf_entries p)" "pf_entries p ! j = e" for j
      using i that True by (auto simp: intact_def table_ok_def entries_ok_def find_section_def)
    ultimately have "e = ve" using e by (metis in_set_conv_nth option.inject)
    then show ?thesis using verify_crc_accepts [OF a(4)] by simp
  qed
  then show thesis using that i by blast
qed

subsection \<open>One changed byte\<close>

lemma crc_single_byte:
  assumes "i < length xs"
  shows "crc32c (xs[i := b]) = crc32c xs \<longleftrightarrow> b = xs ! i"
proof -
  have "crc32c (take i xs @ b # drop (Suc i) xs) = crc32c (take i xs @ xs ! i # drop (Suc i) xs) \<longleftrightarrow> b = xs ! i"
    by (simp add: crc32c_def crc32c_extend_fold crc_fold_inj crc_byte_inj2)
  then show ?thesis using upd_conv_take_nth_drop [OF assms, of b] id_take_nth_drop [OF assms] by simp
qed

lemma slice_update:
  "take n (drop off (f[i := b])) = (if off \<le> i \<and> i < off + n then (take n (drop off f))[i - off := b] else take n (drop off f))"
proof (cases "off \<le> i")
  case True
  then have "take n (drop off (f[i := b])) = (take n (drop off f))[i - off := b]" by (simp add: drop_update_swap take_update_swap)
  moreover have "(take n (drop off f))[i - off := b] = take n (drop off f)" if "off + n \<le> i" using that by (simp add: list_update_beyond)
  ultimately show ?thesis using True by auto
qed (simp add: drop_update_cancel)

lemma slice_nth: "off \<le> i \<Longrightarrow> i < off + n \<Longrightarrow> i < length f \<Longrightarrow> take n (drop off f) ! (i - off) = f ! i"
  by simp

lemma field_bytes:
  fixes bs bs' :: "u8 list"
  assumes "length bs = 4" "length bs' = 4" "ucast (le_from 0 bs (0 :: u64)) = (ucast (le_from 0 bs' (0 :: u64)) :: u32)"
  shows "bs = bs'"
proof -
  have "ucast (le_from 0 xs (0 :: u64)) = (le_from 0 xs 0 :: u32)" if "length xs = 4" for xs
  proof -
    have "le_bytes 4 (le_from 0 xs 0 :: u32) = xs" by (rule le_bytes_from) (use that in simp_all)
    then show ?thesis using le_from_ucast [where 'a = 32 and 'b = 64, of 4 "le_from 0 xs 0 :: u32"] by (simp only:) simp
  qed
  then have "(le_from 0 bs 0 :: u32) = le_from 0 bs' 0" using assms by simp
  moreover have "le_bytes 4 (le_from 0 bs 0 :: u32) = bs" "le_bytes 4 (le_from 0 bs' 0 :: u32) = bs'"
    using assms(1,2) by (auto intro!: le_bytes_from)
  ultimately show ?thesis by metis
qed

lemma header_fields:
  assumes "kHeaderSize \<le> length f"
  shows "fh_header_crc32c (decode_header (take kHeaderSize f)) = ucast (le_from 0 (take 4 (drop 56 f)) (0 :: u64))"
    "header_reserved_zero (take kHeaderSize f) \<Longrightarrow> le_from 0 (take 4 (drop 60 f)) (0 :: u64) = 0"
  using assms by (simp_all add: decode_header_def header_reserved_zero_def get_le_eq kHeaderSize_def drop_take)

text \<open>A change in the header contradicts its checksum, its stored checksum or a reserved field.\<close>

lemma header_byte:
  assumes "intact f p" "intact (f[i := b]) p'" "i < kHeaderSize"
  shows "b = f ! i"
proof -
  note I = assms(1,2) [unfolded intact_def]
  have len: "kHeaderSize \<le> length f" "i < length f" using I(1) assms(3) by simp_all
  have h: "crc32c (take 56 g) = ucast (le_from 0 (take 4 (drop 56 g)) (0 :: u64))" "le_from 0 (take 4 (drop 60 g)) (0 :: u64) = 0"
    if "intact g q" for g q
    using that header_fields [of g] by (simp_all add: intact_def kHeaderCrcCoverage_def)
  note f = h [OF assms(1)] and f' = h [OF assms(2)]
  consider "i < 56" | "56 \<le> i" "i < 60" | "60 \<le> i" "i < 64" using assms(3) unfolding kHeaderSize_def by linarith
  then show ?thesis
  proof cases
    case 1
    then have "crc32c ((take 56 f)[i := b]) = crc32c (take 56 f)"
      using f(1) f'(1) slice_update [of 4 56 f i b] by (simp add: take_update_swap)
    then show ?thesis using 1 len by (simp add: crc_single_byte)
  next
    case 2
    then have "ucast (le_from 0 ((take 4 (drop 56 f))[i - 56 := b]) (0 :: u64)) = (ucast (le_from 0 (take 4 (drop 56 f)) (0 :: u64)) :: u32)"
      using f(1) f'(1) slice_update [of 4 56 f i b] by simp
    then have "(take 4 (drop 56 f))[i - 56 := b] = take 4 (drop 56 f)" using len by (intro field_bytes) (simp_all add: kHeaderSize_def)
    then have "(take 4 (drop 56 f))[i - 56 := b] ! (i - 56) = take 4 (drop 56 f) ! (i - 56)" by simp
    then show ?thesis using 2 len by (simp add: kHeaderSize_def)
  next
    case 3
    then have "le_from 0 ((take 4 (drop 60 f))[i - 60 := b]) (0 :: u64) = le_from 0 (take 4 (drop 60 f)) (0 :: u64)"
      using f(2) f'(2) slice_update [of 4 60 f i b] by simp
    then have "(take 4 (drop 60 f))[i - 60 := b] = take 4 (drop 60 f)" using len by (intro field_bytes) (simp_all add: kHeaderSize_def)
    then have "(take 4 (drop 60 f))[i - 60 := b] ! (i - 60) = take 4 (drop 60 f) ! (i - 60)" by simp
    then show ?thesis using 3 len by (simp add: kHeaderSize_def)
  qed
qed

text \<open>A change behind the header that is not in the table leaves the parsed table as it was.\<close>

lemma intact_table:
  assumes "intact f p" "pf_header p = h"
  defines "off \<equiv> unat (fh_section_table_offset h)" and "n \<equiv> unat (fh_section_count h)"
  shows "crc32c (take (n * kSectionEntrySize) (drop off f)) = fh_section_table_crc32c h"
    "parse_entries (length f) [0..<n] (new_reader (take (n * kSectionEntrySize) (drop off f))) [] (replicate 9 None) =
       Returned (Inr (pf_entries p, pf_by_type p))"
  using assms(1) unfolding intact_def Let_def assms(2) off_def n_def by blast+

lemma table_byte:
  assumes "intact f p" "intact (f[i := b]) p'" "kHeaderSize \<le> i" "i < length f"
  obtains "b = f ! i"
  | "p' = p" "\<not> (unat (fh_section_table_offset (pf_header p)) \<le> i \<and>
      i < unat (fh_section_table_offset (pf_header p)) + unat (fh_section_count (pf_header p)) * kSectionEntrySize)"
proof -
  let ?h = "decode_header (take kHeaderSize f)" let ?off = "unat (fh_section_table_offset ?h)" let ?n = "unat (fh_section_count ?h) * kSectionEntrySize"
  have h: "pf_header p = ?h" "pf_header p' = ?h" using assms(1-3) by (simp_all add: intact_def)
  note A = intact_table [OF assms(1) h(1)] and B = intact_table [OF assms(2) h(2)]
  show thesis
  proof (cases "?off \<le> i \<and> i < ?off + ?n")
    case True
    have "crc32c ((take ?n (drop ?off f))[i - ?off := b]) = crc32c (take ?n (drop ?off f))"
      using A(1) B(1) True unfolding slice_update by simp
    then have "b = take ?n (drop ?off f) ! (i - ?off)" using True assms(4) by (subst (asm) crc_single_byte) auto
    then show thesis using that(1) slice_nth [of ?off i ?n f] True assms(4) by simp
  next
    case False
    then have "take ?n (drop ?off (f[i := b])) = take ?n (drop ?off f)" by (simp only: slice_update if_False)
    then have "pf_entries p' = pf_entries p" "pf_by_type p' = pf_by_type p" using A(2) B(2) by simp_all
    then have "p' = p" using h by (cases p, cases p') simp
    then show thesis using that(2) False h by simp
  qed
qed

lemma changed_byte_rejected:
  assumes "read_index mem simd aligned opts f = Returned (Inr s)" "read_index mem' simd' aligned' opts' (f[i := b]) = Returned (Inr s')"
    "ro_verify opts = VerifyFull" "ro_verify opts' = VerifyFull" "i < length f"
  shows "b = f ! i"
proof -
  obtain p where p: "intact f p" "\<And>e. e \<in> set (pf_entries p) \<Longrightarrow> crc32c (take (unat (se_size e)) (drop (unat (se_offset e)) f)) = se_crc32c e"
    using full_load_accepts [OF assms(1,3)] by blast
  obtain p' where p': "intact (f[i := b]) p'"
    "\<And>e. e \<in> set (pf_entries p') \<Longrightarrow> crc32c (take (unat (se_size e)) (drop (unat (se_offset e)) (f[i := b]))) = se_crc32c e"
    using full_load_accepts [OF assms(2,4)] by blast
  show ?thesis
  proof (cases "i < kHeaderSize")
    case True
    then show ?thesis by (rule header_byte [OF p(1) p'(1)])
  next
    case False
    then have "kHeaderSize \<le> i" by simp
    from table_byte [OF p(1) p'(1) this assms(5)] show ?thesis
    proof cases
      case 2
      show ?thesis
      proof (cases "\<exists>e\<in>set (pf_entries p). unat (se_offset e) \<le> i \<and> i < unat (se_offset e) + unat (se_size e)")
        case True
        then obtain e where e: "e \<in> set (pf_entries p)" "unat (se_offset e) \<le> i" "i < unat (se_offset e) + unat (se_size e)" by blast
        let ?b = "take (unat (se_size e)) (drop (unat (se_offset e)) f)"
        have "crc32c (?b[i - unat (se_offset e) := b]) = crc32c ?b" using p(2) [OF e(1)] p'(2) [of e] e 2(1) by (simp add: slice_update)
        then have "b = ?b ! (i - unat (se_offset e))" using e assms(5) by (subst (asm) crc_single_byte) auto
        then show ?thesis using e assms(5) by simp
      next
        case False
        have "unat (se_offset e + se_size e) = unat (se_offset e) + unat (se_size e)" if "e \<in> set (pf_entries p)" for e
          using p(1) entries_okD(1) [of "length f" "pf_entries p" "pf_by_type p" e] that by (simp add: intact_def table_ok_def unat_word_ariths)
        then have out: "\<forall>(a, c)\<in>set (file_regions p). \<not> (a \<le> i \<and> i < c)"
          using False 2(2) \<open>kHeaderSize \<le> i\<close> by (auto simp: file_regions_def regions_of_def Let_def)
        have "g ! i = 0" if "intact g p" "length g = length f" for g
          using that out assms(5) by (simp add: intact_def Let_def)
        from this [OF p(1)] this [of "f[i := b]"] p'(1) 2(1) show ?thesis using assms(5) by simp
      qed
    qed
  qed
qed

end
