(* ===== verification/VF_Progress.thy ===== *)
theory VF_Progress
  imports VF_CollectionSearch
begin

text \<open>
  Progress: with memory available, an accepted vector is stored and found again. For a flat collection
  nothing but the row limit can stop \<open>add\<close>, and a search that asks for at least as many results as there
  are vectors returns every one of them.
\<close>

definition memory_available :: "faults \<Rightarrow> bool" where
  "memory_available mem \<longleftrightarrow> fa_entry mem \<and> fa_prepare mem \<and> alloc_fits (fa_chunk mem) \<and> (\<forall>n. fa_chunk mem n \<noteq> None)"

lemma commit_row_cases: "fst (commit_row s r i) = Aborted \<or> fst (commit_row s r i) = Returned ok_status"
  by (auto simp: commit_row_def split: option.splits if_splits)

lemma st_append_memory:
  assumes "st_inv v" "alloc_fits alloc" "\<forall>n. alloc n \<noteq> None" "length row = st_dim v" "st_size v < st_max_rows v"
  shows "\<exists>v'. st_append alloc v row = (Returned (Inr (st_size v)), v') \<and> st_size v' = Suc (st_size v)"
proof -
  obtain res v' where a: "st_append alloc v row = (res, v')" by fastforce
  have "res \<noteq> Thrown"
  proof
    assume "res = Thrown"
    then have "st_add_chunk alloc v = None" using a assms(4,5) by (auto simp: st_append_def split: option.splits if_splits)
    moreover obtain c where "alloc (st_chunk_bytes v div 4) = Some c" using assms(3) by blast
    ultimately show False by (simp add: st_add_chunk_def)
  qed
  then have "res = Returned (Inr (st_size v))" "st_rows v' = st_rows v @ [row]" using st_append_ok [OF assms(1,2,4,5) a] by auto
  then show ?thesis using a length_st_rows [of v'] by simp
qed

lemma flat_insert_row:
  assumes inv: "coll_inv s" and f: "cc_index (cs_config s) = Flat" and m: "memory_available mem"
    and row: "status_ok (validate_vector row (unat (cc_dim (cs_config s))))"
    and room: "st_size (cs_vectors s) < kMaxVectorsPerCollection" and x: "x \<noteq> kInvalidExternalId" "x \<in> dom (coll_view s) \<Longrightarrow> upsert"
    and r: "insert_row mem backend_add s x upsert row = (res, rv, s')"
  shows "res = Returned ok_status"
proof -
  have st: "store_ok s" and pe: "im_pending (cs_ids s) = {}" using inv by (simp_all add: coll_inv_def)
  note D = store_okD [OF st]
  obtain U where "backend_ok (cs_config s) (cs_vectors s) (st_size (cs_vectors s)) U (cs_backend s)" using inv by (rule coll_invE)
  then obtain a b k where be: "cs_backend s = FlatBackend a b k" using f by (cases "cs_backend s") auto
  have mem: "fa_entry mem" "fa_prepare mem" "alloc_fits (fa_chunk mem)" "\<forall>n. fa_chunk mem n \<noteq> None"
    using m by (simp_all add: memory_available_def)
  obtain ro ids where ro: "im_reserve (cs_ids s) x upsert = (ro, ids)" by fastforce
  have dm: "dom (im_map (cs_ids s)) = dom (coll_view s)" using dom_im_map [OF D(5) pe] by (simp add: dom_coll_view)
  obtain rr where rr: "ro = Inr rr"
  proof (cases ro)
    case (Inl e)
    then show ?thesis using im_reserve_error [OF ro [unfolded Inl]] x dm pe by (auto split: if_splits)
  qed blast
  obtain v where v: "st_append (fa_chunk mem) (cs_vectors s) row = (Returned (Inr (st_size (cs_vectors s))), v)" "st_size v = Suc (st_size (cs_vectors s))"
    using st_append_memory [OF D(1) mem(3,4), of row] row room D(3,4) by (auto simp: validate_vector_ok)
  have "flat_add v (st_size (cs_vectors s)) = Some ok_status" using v(2) by (simp add: flat_add_def)
  then have "res = Aborted \<or> res = Returned ok_status"
    using r mem(1,2) ro rr v(1) be commit_row_cases by (auto simp: insert_row_def insert_reserved_def Let_def split: prod.splits) (metis fst_conv)+
  moreover have "res \<noteq> Aborted" using insert_row_outcome [OF inv mem(3) row r] by (auto simp: insert_outcome_def)
  ultimately show ?thesis by blast
qed

lemma flat_add_stored:
  assumes inv: "coll_inv s" and f: "cc_index (cs_config s) = Flat" and m: "memory_available mem" and acc: "status_ok (add_accepts s v)"
    and room: "st_size (cs_vectors s) < kMaxVectorsPerCollection" and x: "x \<noteq> kInvalidExternalId" "x \<in> dom (coll_view s) \<Longrightarrow> io_upsert opts"
  shows "\<exists>s'. collection_add True mem s x v opts = (Returned ok_status, s') \<and> coll_inv s' \<and> cs_config s' = cs_config s \<and>
    cs_creator s' = cs_creator s \<and> coll_view s' = (coll_view s)(x \<mapsto> stored_row s v)"
proof -
  obtain res s' where r: "collection_add True mem s x v opts = (res, s')" by fastforce
  have su: "setup_ok s" "alloc_fits (fa_chunk mem)" using inv m by (simp_all add: coll_inv_def memory_available_def)
  obtain rv where rv: "insert_row mem backend_add s x (io_upsert opts) (stored_row s v) = (res, rv, s')"
    and row: "status_ok (validate_vector (stored_row s v) (unat (cc_dim (cs_config s))))"
    using collection_add_cases [OF r su(1)] acc by auto
  have "res = Returned ok_status" by (rule flat_insert_row [OF inv f m row room x rv])
  then have ri: "coll_inv s'" "row_inserted s x (stored_row s v) s'"
    using insert_row_outcome [OF inv su(2) row rv] by (simp_all add: insert_outcome_def)
  then show ?thesis
    using r \<open>res = Returned ok_status\<close> row_inserted_view [OF coll_inv_store [OF inv] ri(2)] by (auto simp: row_inserted_def same_frame_def)
qed

text \<open>
  C7. An accepted vector is found: with memory available and below the row limit, \<open>add\<close> to a flat
  collection returns OK, and a search of the resulting collection with any valid query whose \<open>k\<close> exceeds the number
  of vectors before the \<open>add\<close> returns, among its results, the id with the distance of exactly the stored row.
  (Nothing of the kind holds for an HNSW index: the beam may miss the node.)
\<close>

theorem added_vector_is_found:
  assumes "coll_inv s" "cc_index (cs_config s) = Flat" "memory_available mem" "status_ok (add_accepts s v)"
    "st_size (cs_vectors s) < kMaxVectorsPerCollection" "x \<noteq> kInvalidExternalId" "x \<in> dom (coll_view s) \<longrightarrow> io_upsert opts"
    "status_ok (search_params_validate params)" "prepare_query s query = Inr q" "collection_size s < unat (sp_k params)" "vs_inv (sx_visited ctx)"
  shows "\<exists>s' hits. collection_add True mem s x v opts = (Returned ok_status, s') \<and>
    collection_search True True ctx s' query params = Returned (Inr hits) \<and> mk_scored (row_dist s q (stored_row s v)) x \<in> set hits"
proof -
  obtain s' where s': "collection_add True mem s x v opts = (Returned ok_status, s')" "coll_inv s'" "cs_config s' = cs_config s"
    "coll_view s' = (coll_view s)(x \<mapsto> stored_row s v)"
    using flat_add_stored [OF assms(1-6)] assms(7) by blast
  have k: "cs_kernels s' = cs_kernels s" "cs_normalized s' = cs_normalized s"
    using assms(1) s'(2,3) by (simp_all add: coll_inv_def setup_ok_def)
  have q: "prepare_query s' query = Inr q" using assms(9) unfolding prepare_query_def s'(3) k .
  have "collection_search True True ctx s' query params \<noteq> Thrown"
    using collection_search_value [OF s'(2) assms(8) q assms(11), of True True] by auto
  then obtain xs where xs: "collection_search True True ctx s' query params = Returned (Inr (map (\<lambda>x. mk_scored (view_dist s' q x) x) xs))"
    "view_answer s' q (unat (sp_k params)) xs"
    using collection_search_value [OF s'(2) assms(8) q assms(11), of True True] by auto
  have fin: "finite (dom (coll_view s))" using assms(1) by (simp add: dom_coll_view finite_im_find coll_inv_def store_ok_def)
  have "card (dom (coll_view s')) \<le> Suc (card (dom (coll_view s)))" unfolding s'(4) by (simp add: card_insert_le_m1 card_insert_if fin)
  then have "card (dom (coll_view s')) \<le> unat (sp_k params)"
    using assms(10) collection_size_view [OF coll_inv_store [OF assms(1)]] by simp
  then have "length xs = card (dom (coll_view s'))" "distinct xs" "set xs \<subseteq> dom (coll_view s')"
    using xs(2) assms(2) s'(3) by (simp_all add: view_answer_def)
  moreover have "finite (dom (coll_view s'))" unfolding s'(4) using fin by simp
  ultimately have "set xs = dom (coll_view s')" by (metis card_subset_eq distinct_card)
  then have "x \<in> set xs" using s'(4) by simp
  moreover have "view_dist s' q x = row_dist s q (stored_row s v)" using s'(3,4) k(1) by (simp add: view_dist_def row_dist_def)
  ultimately have "mk_scored (row_dist s q (stored_row s v)) x \<in> set (map (\<lambda>x. mk_scored (view_dist s' q x) x) xs)" by force
  then show ?thesis using s'(1) xs(1) by blast
qed

theorem added_vector_is_found_witness:
  "\<exists>s' hits. collection_add True all_memory (sample_empty Flat) 7 [f32_one] \<lparr>io_upsert = False\<rparr> = (Returned ok_status, s') \<and>
    collection_search True True new_search_context s' [f32_zero] sample_params = Returned (Inr hits) \<and> hits \<noteq> []"
proof -
  let ?s = "sample_empty Flat" and ?q = "\<lparr>qv_data = [f32_zero], qv_inv_norm = f32_one\<rparr>"
  note F = sample_empty_facts [of Flat, simplified]
  have i: "coll_inv ?s" "vs_inv (sx_visited new_search_context)" using F(1) by (simp_all add: new_search_context_def)
  have p: "status_ok (search_params_validate sample_params)"
    by (simp add: search_params_validate_ok sample_params_def kMaxK_def)
  have c: "component_ok f32_one" "component_ok f32_zero" by (simp_all add: component_ok_def kMaxAbsComponent_def f32_eval)
  have nn: "\<not> effective_normalize (cs_config ?s)" using F(3) by (simp add: sample_config_def effective_normalize_def)
  have q: "prepare_query ?s [f32_zero] = Inr ?q"
    using c nn i(1) F(3) by (simp add: prepare_query_def return_if_error_def validate_vector_ok sample_config_def coll_inv_def setup_ok_def)
  have m: "memory_available all_memory" using all_memory_fits by (simp add: memory_available_def all_memory_def)
  have a: "status_ok (add_accepts ?s [f32_one])" using c nn F(3) by (simp add: add_accepts_def validate_vector_ok sample_config_def)
  have z: "st_size (cs_vectors ?s) < kMaxVectorsPerCollection"
    using F(4) length_st_rows [of "cs_vectors ?s"] by (simp add: kMaxVectorsPerCollection_def kInvalidInternalId_def)
  have "collection_size ?s = 0" using collection_size_view [OF coll_inv_store [OF i(1)]] F(2) by simp
  then have k: "collection_size ?s < unat (sp_k sample_params)" by (simp add: sample_params_def)
  have f: "cc_index (cs_config ?s) = Flat" and x: "(7 :: external_id) \<noteq> kInvalidExternalId" "(7 :: external_id) \<in> dom (coll_view ?s) \<longrightarrow> io_upsert \<lparr>io_upsert = False\<rparr>"
    using F(2,3) by (simp_all add: sample_config_def kInvalidExternalId_def)
  from added_vector_is_found [OF i(1) f m a z x p q k i(2)] show ?thesis by fastforce
qed

end
