(* ===== verification/VF_SaveLoad.thy ===== *)
theory VF_SaveLoad
  imports VF_Integrity VF_IndexWriter VF_Progress
begin

text \<open>
  Saving and loading a collection are inverse: the reader (\<^verbatim>\<open>src/collection/index_reader.cpp\<close>) accepts what
  the writer (\<^verbatim>\<open>src/collection/index_writer.cpp\<close>) writes, and the loaded collection has the rows, ids,
  tombstones, parameters and graph of the saved one.
\<close>

subsection \<open>Where the sections of a written file are\<close>

lemma length_placed [simp]: "length (placed pos cells) = length cells"
  by (induction pos cells rule: placed.induct) simp_all

definition spot :: "nat \<Rightarrow> nat \<Rightarrow> u8 list \<Rightarrow> section_type \<Rightarrow> nat \<Rightarrow> u8 list \<Rightarrow> nat \<Rightarrow> bool" where
  "spot pos stop bytes t al c off \<longleftrightarrow>
     pos \<le> off \<and> al dvd off \<and> off + length c \<le> stop \<and> take (length c) (drop (off - pos) bytes) = c"

lemma placed_spot:
  assumes "\<forall>(t, al, c)\<in>set cells. al_ok al" "i < length cells" "cells ! i = (t, al, c)"
  shows "\<exists>off. placed pos cells ! i = entry_for t off c \<and> spot pos (pos + length (body pos cells)) (body pos cells) t al c off"
  using assms
proof (induction pos cells arbitrary: i rule: placed.induct)
  case (2 pos t' al' c' cells)
  have "0 < al'" using "2.prems"(1) by (auto simp: al_ok_def)
  then have le: "pos \<le> up pos al'" by (rule up_ge)
  show ?case
  proof (cases i)
    case 0
    then show ?thesis using "2.prems"(3) le up_dvd [of al' pos] by (auto simp: spot_def)
  next
    case (Suc j)
    let ?next = "up pos al' + length c'"
    obtain off where off: "placed ?next cells ! j = entry_for t off c"
      "spot ?next (?next + length (body ?next cells)) (body ?next cells) t al c off"
      using "2.IH" [of j] "2.prems" Suc by auto
    have "off - pos = (up pos al' - pos + length c') + (off - ?next)" using off(2) le by (simp add: spot_def)
    then have "drop (off - pos) (body pos ((t', al', c') # cells)) = drop (off - ?next) (body ?next cells)"
      by (simp del: drop_drop add: drop_drop [symmetric])
    then show ?thesis using off Suc le by (auto simp: spot_def)
  qed
qed simp

text \<open>Parsing the table gives the entries that were written.\<close>

lemma parse_entries_exact:
  assumes "rest r = concat (map section_entry_bytes es) @ bs" "is = [length done..<length done + length es]"
    "\<forall>e\<in>set es. kHeaderSize \<le> unat (se_offset e) \<and> unat (se_offset e) + unat (se_size e) \<le> fsize \<and> unat (se_offset e) + unat (se_size e) < 2 ^ 64 \<and>
       unat (se_offset e) mod kSectionAlignment = 0 \<and> se_flags e = 0 \<and> 1 \<le> unat (se_type e) \<and> unat (se_type e) < 9"
    "length bt = 9" "\<forall>e\<in>set es. bt ! unat (se_type e) = None" "distinct (map se_type es)"
  shows "\<exists>bt'. parse_entries fsize is r done bt = Returned (Inr (done @ es, bt'))"
  using assms
proof (induction es arbitrary: r "is" "done" bt)
  case (Cons e es)
  obtain r' where r': "decode_section_entry r = Some (e, True, r')" "rest r' = concat (map section_entry_bytes es) @ bs"
    using decode_section_entry_ok [of r e] Cons.prems(1) by auto
  have i: "is = length done # [length (done @ [e])..<length (done @ [e]) + length es]" using Cons.prems(2) by (simp add: upt_conv_Cons del: upt_Suc)
  have sz: "unat (se_size e) < 2 ^ 64" using unsigned_less [of "se_size e"] by simp
  have e: "checked_add (unat (se_offset e)) (unat (se_size e)) = Some (unat (se_offset e) + unat (se_size e))" "unat (se_type e) < 9"
    "se_type e \<noteq> 0" "\<not> kMaxKnownSectionType < se_type e"
    using Cons.prems(3) sz by (auto simp: checked_add_Some kMaxKnownSectionType_def word_less_nat_alt)
  have "se_type e \<noteq> se_type x" if "x \<in> set es" for x using Cons.prems(6) that by (auto simp: image_iff)
  then have "unat (se_type e) \<noteq> unat (se_type x)" if "x \<in> set es" for x using that by (simp add: word_unat_eq_iff)
  then have "\<forall>x\<in>set es. (bt[unat (se_type e) := Some (length done)]) ! unat (se_type x) = None" using Cons.prems(5) by simp
  then have "\<exists>bt'. parse_entries fsize [length (done @ [e])..<length (done @ [e]) + length es] r' (done @ [e]) (bt[unat (se_type e) := Some (length done)]) =
      Returned (Inr ((done @ [e]) @ es, bt'))"
    by (intro Cons.IH [OF r'(2) refl]) (use Cons.prems(3,4,6) in auto)
  then show ?case
    using r'(1) e Cons.prems(3,4,5) unfolding i by (auto simp: reject_if_def check_that_def Let_def)
qed simp

text \<open>The regions of a written file are in order, and the gaps are zero.\<close>

definition region_of :: "section_entry \<Rightarrow> nat \<times> nat" where
  "region_of e = (unat (se_offset e), unat (se_offset e + se_size e))"

lemma region_of_entry: "off + length c < 2 ^ 62 \<Longrightarrow> region_of (entry_for t off c) = (off, off + length c)"
  by (simp add: region_of_def entry_for_def unat_word_ariths unat_of_nat take_bit_nat_eq_self)

lemma regions_ordered:
  assumes "\<forall>(t, al, c)\<in>set cells. al_ok al" "reach pos cells < 2 ^ 62" "pos + length (body pos cells) \<le> off" "off \<le> stop"
  shows "sorted_wrt (\<lambda>x y. snd x \<le> fst y) (map region_of (placed pos cells) @ [(off, stop)]) \<and>
    (\<forall>x\<in>set (map region_of (placed pos cells) @ [(off, stop)]). pos \<le> fst x \<and> fst x \<le> snd x)"
  using assms
proof (induction pos cells rule: placed.induct)
  case (2 pos t al c cells)
  let ?next = "up pos al + length c"
  have al: "al_ok al" "0 < al" using "2.prems"(1) by (auto simp: al_ok_def)
  have le: "pos \<le> up pos al" using al(2) by (rule up_ge)
  have r: "reach ?next cells < 2 ^ 62" using "2.prems"(2) reach_Cons [OF al(1), of pos c cells t] by simp
  have reg: "region_of (entry_for t (up pos al) c) = (up pos al, ?next)" using r reach_ge [of ?next cells] by (intro region_of_entry) simp
  let ?xs = "map region_of (placed ?next cells) @ [(off, stop)]"
  have IH: "sorted_wrt (\<lambda>x y. snd x \<le> fst y) ?xs \<and> (\<forall>x\<in>set ?xs. ?next \<le> fst x \<and> fst x \<le> snd x)"
    using "2.IH" [OF _ r] "2.prems" le by simp
  moreover have "map region_of (placed pos ((t, al, c) # cells)) @ [(off, stop)] = (up pos al, ?next) # ?xs" by (simp add: reg)
  moreover have "\<forall>x\<in>set ?xs. pos \<le> fst x" using IH le by (meson add_leE order_trans)
  ultimately show ?case using le by simp
qed simp

lemma sorted_regions: "sorted_wrt (\<lambda>x y. snd x \<le> fst y) xs \<Longrightarrow> \<forall>x\<in>set xs. fst x \<le> snd x \<Longrightarrow> sorted (xs :: (nat \<times> nat) list)"
  by (induction xs) (fastforce simp: less_eq_prod_def)+

lemma check_regions_exact:
  assumes "\<forall>(t, al, c)\<in>set cells. al_ok al" "reach pos cells < 2 ^ 62" "length pre = pos"
    "file = pre @ body pos cells @ replicate z 0 @ table" "off = pos + length (body pos cells) + z" "stop = length file"
  shows "check_regions file (map region_of (placed pos cells) @ [(off, stop)]) pos = Returned (Inr stop)"
  using assms
proof (induction pos cells arbitrary: pre rule: placed.induct)
  case (1 pos)
  then show ?case by (simp add: reject_if_def span_of_def list_ex_iff)
next
  case (2 pos t al c cells)
  let ?next = "up pos al + length c"
  have al: "al_ok al" "0 < al" using "2.prems"(1) by (auto simp: al_ok_def)
  have le: "pos \<le> up pos al" using al(2) by (rule up_ge)
  have r: "reach ?next cells < 2 ^ 62" using "2.prems"(2) reach_Cons [OF al(1), of pos c cells t] by simp
  have reg: "region_of (entry_for t (up pos al) c) = (up pos al, ?next)" using r reach_ge [of ?next cells] by (intro region_of_entry) simp
  have "check_regions file (map region_of (placed ?next cells) @ [(off, stop)]) ?next = Returned (Inr stop)"
    using "2.IH" [of "pre @ replicate (up pos al - pos) 0 @ c"] "2.prems" r le by simp
  moreover have "take (up pos al - pos) (drop pos file) = replicate (up pos al - pos) 0" "up pos al \<le> length file"
    using "2.prems"(3,4) le by simp_all
  ultimately show ?case using le by (simp add: reg reject_if_def span_of_def list_ex_iff)
qed

subsection \<open>Parsing a written file\<close>

definition well_made :: "cell list \<Rightarrow> bool" where
  "well_made cells \<longleftrightarrow>
     (\<forall>(t, al, c)\<in>set cells. al_ok al) \<and> distinct (map fst cells) \<and> cells \<noteq> [] \<and> length cells \<le> 64 \<and> reach kHeaderSize cells < 2 ^ 62"

lemma probe_encoded: "probe_endian (encode_header h) = kEndianTag"
proof -
  have "take 4 (drop 12 (encode_header h)) = le_bytes 4 kEndianTag" "length (encode_header h) = 64"
    unfolding encode_header_eq by (simp_all add: header_prefix_def)
  then show ?thesis
    by (simp add: probe_endian_def reader_seek_def new_reader_def read_u32_def read_le_def br_remaining_def le_from_bytes)
qed

lemma header_flags:
  "fh_flags (header_for s g a b c d) AND kFlagHasGraph \<noteq> 0 \<longleftrightarrow> g"
  "fh_flags (header_for s g a b c d) AND kFlagHasTombstones \<noteq> 0 \<longleftrightarrow> tb_count (cs_deleted s) \<noteq> 0"
  "fh_flags (header_for s g a b c d) AND kFlagVectorsNormalized \<noteq> 0 \<longleftrightarrow> cs_normalized s"
  "fh_flags (header_for s g a b c d) AND NOT kKnownFlags = 0"
  by (auto simp: header_for_def kFlagHasGraph_def kFlagHasTombstones_def kFlagVectorsNormalized_def kKnownFlags_def)

lemma section_code_inj: "section_code t = section_code u \<longleftrightarrow> t = u"
  by (cases t; cases u) simp_all

lemma section_code_pos: "1 \<le> unat (section_code t)"
  by (cases t) simp_all

lemma map_type_placed: "map se_type (placed pos cells) = map (section_code \<circ> fst) cells"
  by (induction pos cells rule: placed.induct) (simp_all add: entry_for_def)

lemma placed_entries:
  assumes "well_made cells" "e \<in> set (placed kHeaderSize cells)"
  obtains t al c off where "(t, al, c) \<in> set cells" "e = entry_for t off c" "unat (se_offset e) = off" "unat (se_size e) = length c"
    "spot kHeaderSize (kHeaderSize + length (body kHeaderSize cells)) (body kHeaderSize cells) t al c off" "off + length c < 2 ^ 62" "al_ok al"
proof -
  obtain i where i: "i < length cells" "e = placed kHeaderSize cells ! i" using assms(2) by (auto simp: in_set_conv_nth)
  obtain t al c where cell: "cells ! i = (t, al, c)" by (cases "cells ! i")
  have al: "\<forall>(t, al, c)\<in>set cells. al_ok al" using assms(1) by (simp add: well_made_def)
  obtain off where off: "e = entry_for t off c"
    "spot kHeaderSize (kHeaderSize + length (body kHeaderSize cells)) (body kHeaderSize cells) t al c off"
    using placed_spot [OF al i(1) cell, of kHeaderSize] i(2) by auto
  have "off + length c < 2 ^ 62" using off(2) body_reach [OF al, of kHeaderSize] assms(1) by (simp add: spot_def well_made_def)
  moreover have "al_ok al" using al nth_mem [OF i(1)] cell by auto
  ultimately show thesis
    using that [of t al c off] off i(1) cell nth_mem [OF i(1)] by (simp add: entry_for_def unat_of_nat take_bit_nat_eq_self)
qed

lemma parse_file:
  fixes s :: collection_state and hg :: bool
  assumes w: "well_made cells" and mem: "rm_entries mem" "rm_regions mem"
  defines "file \<equiv> file_bytes s hg cells"
  shows "\<exists>p a b c d. parse_header_and_table mem file = Returned (Inr p) \<and> pf_entries p = placed kHeaderSize cells \<and>
    fh_flags (pf_header p) = fh_flags (header_for s hg a b c d)"
proof -
  let ?b = "body kHeaderSize cells" and ?es = "placed kHeaderSize cells"
  let ?pos = "kHeaderSize + length (body kHeaderSize cells)" and ?table = "concat (map section_entry_bytes (placed kHeaderSize cells))"
  let ?off = "up (kHeaderSize + length (body kHeaderSize cells)) kSectionAlignment"
  define h where "h = header_for s hg (?off + length ?table) ?off (length cells) (crc32c ?table)"
  define h' where "h' = decode_header (encode_header h)"
  have al: "\<forall>(t, al, c)\<in>set cells. al_ok al" and small: "reach kHeaderSize cells < 2 ^ 62" "length cells \<le> 64" "cells \<noteq> []"
    using w by (simp_all add: well_made_def)
  have f: "file = encode_header h @ ?b @ replicate (?off - ?pos) 0 @ ?table" by (simp add: file_def file_bytes_def Let_def h_def)
  have len: "length (encode_header h) = kHeaderSize" by (rule decode_encode_header(3))
  have off: "?pos \<le> ?off" "?off \<le> ?pos + 7" "?off mod 8 = 0" "?pos < 2 ^ 62"
    using up_ge [of kSectionAlignment ?pos] up_le [of ?pos kSectionAlignment] up_dvd [of kSectionAlignment ?pos] body_reach [OF al, of kHeaderSize] small(1)
    by (simp_all add: kSectionAlignment_def)
  have "length (concat (map section_entry_bytes xs)) = length xs * 32" for xs by (induction xs) (simp_all add: section_entry_bytes_def)
  then have tl: "length ?table = length cells * kSectionEntrySize" by (simp add: kSectionEntrySize_def)
  have fl: "length file = ?off + length ?table" unfolding f using off(1) len by simp
  have h: "h' = h\<lparr>fh_header_crc32c := crc32c (take kHeaderCrcCoverage file)\<rparr>" "take kHeaderSize file = encode_header h"
    unfolding h'_def decode_encode_header(1) using len by (simp_all add: f kHeaderCrcCoverage_def kHeaderSize_def)
  have hf: "unat (fh_file_size h') = length file" "unat (fh_section_table_offset h') = ?off" "unat (fh_section_count h') = length cells"
    "fh_section_table_crc32c h' = crc32c ?table" "fh_flags h' = fh_flags h" "fh_format_major h' = kFormatMajor" "fh_header_crc32c h' = crc32c (take kHeaderCrcCoverage file)"
    using off small(2)
    by (simp_all add: h(1) h_def header_for_def fl tl unat_of_nat take_bit_nat_eq_self kSectionEntrySize_def del: of_nat_add of_nat_mult)
  have tab: "take (length ?table) (drop ?off file) = ?table" using off(1) len by (simp add: f)
  obtain bt where bt: "parse_entries (length file) [0..<length cells] (new_reader ?table) [] (replicate (unat kMaxKnownSectionType + 1) None) = Returned (Inr (?es, bt))"
  proof -
    have "\<forall>e\<in>set ?es. kHeaderSize \<le> unat (se_offset e) \<and> unat (se_offset e) + unat (se_size e) \<le> length file \<and> unat (se_offset e) + unat (se_size e) < 2 ^ 64 \<and>
       unat (se_offset e) mod kSectionAlignment = 0 \<and> se_flags e = 0 \<and> 1 \<le> unat (se_type e) \<and> unat (se_type e) < 9" (is "\<forall>e\<in>_. ?ok e")
    proof
      fix e assume "e \<in> set ?es"
      then obtain t al c off where e: "e = entry_for t off c" "unat (se_offset e) = off" "unat (se_size e) = length c" "off + length c < 2 ^ 62" "al_ok al"
        "spot kHeaderSize ?pos ?b t al c off" by (rule placed_entries [OF w])
      have "8 dvd off" using e(5,6) by (auto simp: al_ok_def spot_def elim: dvd_trans [rotated])
      then show "?ok e" using e(2-4,6) off fl section_code_less [of t] section_code_pos [of t] e(1) by (simp add: spot_def entry_for_def kSectionAlignment_def)
    qed
    moreover have "distinct (map se_type ?es)" using w by (simp add: map_type_placed well_made_def distinct_map comp_inj_on inj_on_def section_code_inj)
    moreover have "length (replicate (unat kMaxKnownSectionType + 1) None) = 9" by (simp add: kMaxKnownSectionType_def)
    ultimately show thesis
      using parse_entries_exact [of "new_reader ?table" ?es "[]" "[0..<length cells]" "[]" "length file" "replicate (unat kMaxKnownSectionType + 1) None"] that
      by (auto simp: kMaxKnownSectionType_def)
  qed
  have regs: "sort (regions_of ?es ?off (?off + length ?table)) = (0, kHeaderSize) # map region_of ?es @ [(?off, ?off + length ?table)]"
  proof -
    have "regions_of ?es ?off (?off + length ?table) = (0, kHeaderSize) # map region_of ?es @ [(?off, ?off + length ?table)]"
      by (simp add: regions_of_def region_of_def)
    moreover have "sorted ((0, kHeaderSize) # map region_of ?es @ [(?off, ?off + length ?table)])"
      using regions_ordered [OF al small(1) off(1), of "?off + length ?table"] by (intro sorted_regions) auto
    ultimately show ?thesis by (simp only: sorted_sort_id)
  qed
  have chk: "check_regions file (map region_of ?es @ [(?off, ?off + length ?table)]) kHeaderSize = Returned (Inr (length file))"
    using check_regions_exact [OF al small(1) len f, of ?off] off(1) fl by simp
  have add: "checked_add ?off (length ?table) = Some (length file)"
    using off tl small(2) by (subst checked_add_Some) (simp_all add: fl kSectionEntrySize_def)
  have pt: "parse_table mem file h' = Returned (Inr \<lparr>pf_header = h', pf_entries = ?es, pf_by_type = bt\<rparr>)"
    unfolding parse_table_def Let_def hf(2,3) tl [symmetric] add option.sel
    unfolding span_of_def tab hf(4) bt then_read_def outcome.case sum.case prod.case fl [symmetric] regs [folded fl]
    using off(1,3) mem chk fl by (simp add: reject_if_def need_def span_of_def kSectionAlignment_def)
  have "parse_header_and_table mem file = parse_table mem file h'"
    unfolding parse_header_and_table_def Let_def h(2) h'_def [symmetric]
    using fl off(1) decode_encode_header(2,4) [of h] hf small(2,3) header_flags(4)
    by (simp add: reject_if_def probe_encoded kEndianTag_def kEndianTagSwapped_def h_def kMaxSections_def word_less_nat_alt unat_eq_0 [symmetric])
  then show ?thesis using pt hf(5) unfolding h_def by auto
qed

subsection \<open>The sections of a written file\<close>

definition file_parsed :: "collection_state \<Rightarrow> bool \<Rightarrow> cell list \<Rightarrow> parsed_file \<Rightarrow> bool" where
  "file_parsed s hg cells p \<longleftrightarrow>
     well_made cells \<and> table_ok (file_bytes s hg cells) p \<and> pf_entries p = placed kHeaderSize cells \<and>
     (fh_flags (pf_header p) AND kFlagHasGraph \<noteq> 0 \<longleftrightarrow> hg) \<and>
     (fh_flags (pf_header p) AND kFlagHasTombstones \<noteq> 0 \<longleftrightarrow> tb_count (cs_deleted s) \<noteq> 0) \<and>
     (fh_flags (pf_header p) AND kFlagVectorsNormalized \<noteq> 0 \<longleftrightarrow> cs_normalized s)"

lemma parse_written:
  assumes "well_made cells" "rm_entries mem" "rm_regions mem"
  shows "\<exists>p. parse_header_and_table mem (file_bytes s hg cells) = Returned (Inr p) \<and> file_parsed s hg cells p"
proof -
  obtain p a b c d where p: "parse_header_and_table mem (file_bytes s hg cells) = Returned (Inr p)" "pf_entries p = placed kHeaderSize cells"
    "fh_flags (pf_header p) = fh_flags (header_for s hg a b c d)" using parse_file [OF assms] by blast
  have "table_ok (file_bytes s hg cells) p" by (rule reads_accepted [OF parse_header_and_table_reads p(1)])
  then show ?thesis using p assms(1) header_flags(1-3) [of s hg a b c d] by (simp add: file_parsed_def)
qed

text \<open>The entry and the bytes of a section.\<close>

definition holds_cell :: "u8 list \<Rightarrow> section_entry \<Rightarrow> section_type \<Rightarrow> nat \<Rightarrow> u8 list \<Rightarrow> bool" where
  "holds_cell file e t al c \<longleftrightarrow>
     se_type e = section_code t \<and> unat (se_size e) = length c \<and> al dvd unat (se_offset e) \<and> se_crc32c e = crc32c c \<and>
     unat (se_offset e) + length c \<le> length file \<and> take (length c) (drop (unat (se_offset e)) file) = c"

lemma section_bytes_cell: "holds_cell file e t al c \<Longrightarrow> section_bytes file e k = k c"
  by (simp add: holds_cell_def section_bytes_def span_of_def)

lemma placed_cell:
  assumes p: "file_parsed s hg cells p" and e: "e \<in> set (pf_entries p)"
  shows "\<exists>t al c. (t, al, c) \<in> set cells \<and> holds_cell (file_bytes s hg cells) e t al c"
proof -
  have w: "well_made cells" and e': "e \<in> set (placed kHeaderSize cells)" using p e by (simp_all add: file_parsed_def)
  obtain t al c off where o: "(t, al, c) \<in> set cells" "e = entry_for t off c" "unat (se_offset e) = off" "unat (se_size e) = length c"
    "spot kHeaderSize (kHeaderSize + length (body kHeaderSize cells)) (body kHeaderSize cells) t al c off" by (rule placed_entries [OF w e'])
  obtain hd tl where f: "file_bytes s hg cells = hd @ body kHeaderSize cells @ tl" "length hd = kHeaderSize"
    unfolding file_bytes_def Let_def using decode_encode_header(3) by blast
  have "take (length c) (drop off (file_bytes s hg cells)) = c" "off + length c \<le> length (file_bytes s hg cells)"
    using o(5) unfolding f(1) by (simp_all add: spot_def f(2))
  then show ?thesis using o by (auto simp: holds_cell_def entry_for_def spot_def)
qed

lemma find_written:
  assumes p: "file_parsed s hg cells p" and c: "(t, al, c) \<in> set cells"
  shows "\<exists>e. find_section p t = Some e \<and> e \<in> set (pf_entries p) \<and> holds_cell (file_bytes s hg cells) e t al c"
proof -
  have es: "pf_entries p = placed kHeaderSize cells" and d: "distinct (map fst cells)" and ok: "table_ok (file_bytes s hg cells) p"
    using p by (simp_all add: file_parsed_def well_made_def)
  obtain i where i: "i < length cells" "cells ! i = (t, al, c)" using c by (auto simp: in_set_conv_nth)
  let ?e = "pf_entries p ! i"
  have "map se_type (pf_entries p) ! i = section_code t" unfolding es map_type_placed using i by simp
  then have ty: "se_type ?e = section_code t" using i(1) es by simp
  note D = entries_okD [OF ok [unfolded table_ok_def]]
  have "pf_by_type p ! unat (section_code t) = Some i"
    using D(4) [of i] ty section_code_less [of t] section_code_pos [of t] i(1) es by (cases "section_code t = 0") auto
  then have f: "find_section p t = Some ?e" by (simp add: find_section_def)
  have e: "?e \<in> set (pf_entries p)" using i(1) es by simp
  obtain t' al' c' where h: "(t', al', c') \<in> set cells" "holds_cell (file_bytes s hg cells) ?e t' al' c'" using placed_cell [OF p e] by blast
  have "t' = t" using h(2) ty by (simp add: holds_cell_def section_code_inj)
  then have "(t', al', c') = (t, al, c)" using h(1) c d by (metis eq_key_imp_eq_value)
  then show ?thesis using f e h(2) by auto
qed

lemma find_missing:
  assumes p: "file_parsed s hg cells p" and t: "t \<notin> fst ` set cells"
  shows "find_section p t = None"
proof (rule ccontr)
  assume "find_section p t \<noteq> None"
  then obtain e i where e: "pf_by_type p ! unat (section_code t) = Some i" "e = pf_entries p ! i" by (auto simp: find_section_def)
  have ok: "entries_ok (length (file_bytes s hg cells)) (pf_entries p) (pf_by_type p)"
    using p unfolding file_parsed_def table_ok_def by blast
  have i: "i < length (pf_entries p)" "unat (se_type e) = unat (section_code t)" using entries_okD(3) [OF ok section_code_less e(1)] e(2) by auto
  then obtain t' al c where "(t', al, c) \<in> set cells" "holds_cell (file_bytes s hg cells) e t' al c" using placed_cell [OF p, of e] e(2) by auto
  moreover have "se_type e = section_code t" using i(2) by (simp add: word_unat_eq_iff)
  ultimately show False using t by (auto simp: holds_cell_def section_code_inj rev_image_eqI)
qed

lemma crc_written:
  assumes p: "file_parsed s hg cells p"
  shows "e \<in> set (pf_entries p) \<Longrightarrow> verify_crc (file_bytes s hg cells) e = Returned (Inr ())"
    "verify_sections (file_bytes s hg cells) (pf_entries p) = Returned (Inr ())"
proof -
  show v: "verify_crc (file_bytes s hg cells) e = Returned (Inr ())" if e: "e \<in> set (pf_entries p)" for e
  proof -
    obtain t al c where h: "holds_cell (file_bytes s hg cells) e t al c" using placed_cell [OF p e] by blast
    then show ?thesis unfolding verify_crc_def section_bytes_cell [OF h] by (simp add: holds_cell_def reject_if_def)
  qed
  have "set es \<subseteq> set (pf_entries p) \<Longrightarrow> verify_sections (file_bytes s hg cells) es = Returned (Inr ())" for es
    by (induction es) (auto simp: v then_read_def)
  then show "verify_sections (file_bytes s hg cells) (pf_entries p) = Returned (Inr ())" by simp
qed

subsection \<open>Collections that can be saved\<close>

text \<open>
  A collection at rest whose graph has no unlinked node, whose creator fits the format, and whose
  \<open>max_level\<close> is in range even when the index is Flat (\<open>CollectionConfig::validate\<close> does not ask for it
  then, the reader does).
\<close>

definition savable :: "collection_state \<Rightarrow> bool" where
  "savable s \<longleftrightarrow>
     coll_inv s \<and> length (cs_creator s) \<le> kMaxCreatorLength \<and> hp_max_level (cc_hnsw (cs_config s)) \<le> kMaxLevelCap \<and>
     (\<forall>g. graph_of (cs_backend s) = Some g \<longrightarrow> storable g)"

definition cells_of :: "collection_state \<Rightarrow> cell list" where
  "cells_of s = section_cells s (graph_of (cs_backend s))"

definition meta_of :: "collection_state \<Rightarrow> metadata" where
  "meta_of s = make_metadata s (graph_of (cs_backend s))"

definition saved_file :: "collection_state \<Rightarrow> u8 list" where
  "saved_file s = file_bytes s (graph_of (cs_backend s) \<noteq> None) (cells_of s)"

lemma savable_store:
  assumes "savable s"
  shows "store_ok s" "setup_ok s" "im_pending (cs_ids s) = {}" "st_inv (cs_vectors s)" "st_dim (cs_vectors s) = unat (cc_dim (cs_config s))"
    "length (im_labels (cs_ids s)) = st_size (cs_vectors s)" "st_size (cs_vectors s) \<le> kMaxVectorsPerCollection" "st_size (cs_vectors s) < 2 ^ 32"
    "unat (cc_dim (cs_config s)) \<le> 65536" "1 \<le> unat (cc_dim (cs_config s))"
proof -
  show s: "store_ok s" "setup_ok s" "im_pending (cs_ids s) = {}" using assms by (simp_all add: savable_def coll_inv_def)
  then show v: "st_inv (cs_vectors s)" "st_dim (cs_vectors s) = unat (cc_dim (cs_config s))" "length (im_labels (cs_ids s)) = st_size (cs_vectors s)"
    by (simp_all add: store_ok_def)
  show "st_size (cs_vectors s) \<le> kMaxVectorsPerCollection" using st_invD(6,7) [OF v(1)] by simp
  then show "st_size (cs_vectors s) < 2 ^ 32" by (simp add: kMaxVectorsPerCollection_def kInvalidInternalId_def)
  show "unat (cc_dim (cs_config s)) \<le> 65536" "1 \<le> unat (cc_dim (cs_config s))" using st_invD(1,2) [OF v(1)] v(2) by simp_all
qed

lemma savable_graph:
  assumes "savable s"
  shows "cs_backend s \<noteq> NoBackend" "cc_index (cs_config s) = Hnsw \<longleftrightarrow> graph_of (cs_backend s) \<noteq> None"
    "graph_of (cs_backend s) = Some g \<Longrightarrow> storable g \<and> saved g \<and> node_count g = st_size (cs_vectors s) \<and>
       hg_m g = unat (hp_M (cc_hnsw (cs_config s))) \<and> hg_max_level g = unat (hp_max_level (cc_hnsw (cs_config s)))"
proof -
  obtain U where U: "backend_ok (cs_config s) (cs_vectors s) (st_size (cs_vectors s)) U (cs_backend s)" using assms by (auto simp: savable_def coll_inv_def)
  then show "cs_backend s \<noteq> NoBackend" "cc_index (cs_config s) = Hnsw \<longleftrightarrow> graph_of (cs_backend s) \<noteq> None" by (cases "cs_backend s"; simp)+
  assume g: "graph_of (cs_backend s) = Some g"
  then obtain b where b: "cs_backend s = HnswBackend b" "g = hb_graph b" by (cases "cs_backend s") simp_all
  have "storable g" using assms g by (simp add: savable_def)
  then show "storable g \<and> saved g \<and> node_count g = st_size (cs_vectors s) \<and>
       hg_m g = unat (hp_M (cc_hnsw (cs_config s))) \<and> hg_max_level g = unat (hp_max_level (cc_hnsw (cs_config s)))"
    using U b by (simp add: hnsw_ok_def backend_inv_def params_match_def storable_def saved_def)
qed

lemma savable_writable: "savable s \<Longrightarrow> writable s"
  using savable_store [of s] savable_graph [of s] unfolding writable_def by (simp add: store_ok_def)

lemma cells_of_eq:
  "cells_of s =
     (Metadata, kSectionAlignment, metadata_bytes (meta_of s)) # (Labels, kSectionAlignment, word_bytes 8 (im_labels (cs_ids s))) #
     (if tb_count (cs_deleted s) \<noteq> 0
      then [(Tombstones, kSectionAlignment, word_bytes 8 (take (tombstone_words (st_size (cs_vectors s))) (tb_words (cs_deleted s))))] else []) @
     (case graph_of (cs_backend s) of None \<Rightarrow> []
      | Some g \<Rightarrow> [(Levels, kSectionAlignment, gs_levels (sections_of g)), (L0Links, kSectionAlignment, gs_l0_links (sections_of g)),
                    (UpperIndex, kSectionAlignment, gs_upper_index (sections_of g)), (UpperLinks, kSectionAlignment, gs_upper_links (sections_of g))]) @
     [(Vectors, kVectorAlignment, word_bytes 4 (concat (st_rows (cs_vectors s))))]"
  by (simp add: cells_of_def section_cells_def meta_of_def)

lemma savable_well_made:
  assumes s: "savable s"
  shows "well_made (cells_of s)"
proof -
  note S = savable_store [OF s]
  let ?n = "st_size (cs_vectors s)"
  have rows: "length (concat (st_rows (cs_vectors s))) * 4 \<le> 2 ^ 50"
  proof -
    have "?n * unat (cc_dim (cs_config s)) \<le> 2 ^ 32 * 2 ^ 16" using S(8,9) by (intro mult_le_mono) simp_all
    then show ?thesis using length_rows [OF S(4)] S(5) by simp
  qed
  have creator: "length (cs_creator s) \<le> 256" using s by (simp add: savable_def kMaxCreatorLength_def)
  have "length (metadata_bytes (meta_of s)) \<le> 400"
    using creator by (simp add: length_metadata_bytes metadata_size_def meta_of_def make_metadata_def Let_def split: option.split)
  moreover have "length (take (tombstone_words ?n) (tb_words (cs_deleted s))) \<le> 2 ^ 32" using S(8) by (simp add: tombstone_words_def)
  moreover have "length (gs_levels (sections_of g)) + length (gs_l0_links (sections_of g)) + length (gs_upper_index (sections_of g)) +
      length (gs_upper_links (sections_of g)) \<le> 2 ^ 45" if "graph_of (cs_backend s) = Some g" for g
  proof -
    have g: "storable g" "saved g" "node_count g = ?n" using savable_graph(3) [OF s that] by simp_all
    note sz = saved_sized [OF g(2), unfolded sized_def] and lvs = saved_levels [OF g(2)]
    have "?n * (2 * hg_m g + 1) \<le> 2 ^ 32 * 1025" using S(8) g(1) by (intro mult_le_mono) (simp_all add: storable_def)
    then show ?thesis using sz lvs g S(8) by (simp add: shape_of_def storable_def)
  qed
  ultimately have "reach kHeaderSize (cells_of s) < 2 ^ 62"
    using rows S(6,8) by (auto simp: cells_of_eq reach_def kHeaderSize_def split: option.split)
  then show ?thesis
    by (auto simp: well_made_def cells_of_eq section_alignments split: option.split)
qed

subsection \<open>Metadata, sizes and ids\<close>

lemma meta_of_simps [simp]:
  "md_dim (meta_of s) = cc_dim (cs_config s)" "md_metric (meta_of s) = u8_of_metric (cc_metric (cs_config s))"
  "md_index_type (meta_of s) = u8_of_index_type (cc_index (cs_config s))" "md_normalize (meta_of s) = (if cc_normalize (cs_config s) then 1 else 0)"
  "md_node_count (meta_of s) = word_of_nat (st_size (cs_vectors s))" "md_live_count (meta_of s) = word_of_nat (im_size (cs_ids s))"
  "md_m (meta_of s) = hp_M (cc_hnsw (cs_config s))" "md_m0 (meta_of s) = max_links_level0 (cc_hnsw (cs_config s))"
  "md_ef_construction (meta_of s) = hp_ef_construction (cc_hnsw (cs_config s))" "md_ef_search (meta_of s) = hp_ef_search (cc_hnsw (cs_config s))"
  "md_max_level_cap (meta_of s) = hp_max_level (cc_hnsw (cs_config s))" "md_seed (meta_of s) = hp_seed (cc_hnsw (cs_config s))"
  "md_creator (meta_of s) = cs_creator s" "md_created_unix_ms (meta_of s) = cs_created_unix_ms s"
  by (simp_all add: meta_of_def make_metadata_def Let_def split: option.split)

lemma params_of_meta: "params_of (meta_of s) = cc_hnsw (cs_config s)"
  by (simp add: params_of_def)

lemma live_count:
  assumes "store_ok s"
  shows "im_size (cs_ids s) + tb_count (cs_deleted s) = st_size (cs_vectors s)"
proof -
  let ?m = "cs_ids s" and ?n = "st_size (cs_vectors s)"
  have m: "im_inv ?m" "length (im_labels ?m) = ?n" "tb_inv (cs_deleted s)" "tb_rows (cs_deleted s) = {..<?n} - ran (im_find ?m)"
    using assms by (simp_all add: store_ok_def)
  have "inj_on (\<lambda>x. the (im_find ?m x)) (dom (im_find ?m))" using im_find_inj [OF m(1)] by (auto simp: inj_on_def)
  moreover have "(\<lambda>x. the (im_find ?m x)) ` dom (im_find ?m) = ran (im_find ?m)" by (force simp: ran_def)
  ultimately have "card (ran (im_find ?m)) = im_size ?m" using im_invD(2) [OF m(1)] card_image by (fastforce simp: im_size_def)
  moreover have sub: "ran (im_find ?m) \<subseteq> {..<?n}" using im_find_label(1) [OF m(1)] m(2) by (auto simp: ran_def)
  ultimately show ?thesis
    using m(3,4) card_Diff_subset [OF finite_subset [OF sub] sub] card_mono [OF _ sub] by (simp add: tb_inv_def)
qed

lemma node_count_meta: "savable s \<Longrightarrow> unat (md_node_count (meta_of s)) = st_size (cs_vectors s)"
  using savable_store(8) [of s] by (simp add: unat_of_nat take_bit_nat_eq_self)

lemma entry_meta:
  assumes "savable s" "graph_of (cs_backend s) = Some g"
  shows "unat (md_entry_point (meta_of s)) = gh_entry_point (shape_of g)" "unat (md_max_level (meta_of s)) = gh_entry_level (shape_of g)"
    "md_max_level (meta_of s) \<le> md_max_level_cap (meta_of s)"
proof -
  note G = savable_graph(3) [OF assms]
  let ?e = "read_entry g"
  have "unat (md_entry_point (meta_of s)) = gh_entry_point (shape_of g) \<and> unat (md_max_level (meta_of s)) = gh_entry_level (shape_of g) \<and>
      gh_entry_level (shape_of g) \<le> hg_max_level g"
  proof (cases "entry_valid ?e")
    case False
    then show ?thesis using assms(2) by (simp add: meta_of_def make_metadata_def Let_def shape_of_def)
  next
    case True
    have "node_count g > 0" using G True by (cases "node_count g = 0") (auto simp: storable_def VF_HnswInsert.entry_ok_def)
    note E = storable_entry [OF conjunct1 [OF G] this]
    have "hg_inv g" using G by (simp add: storable_def graph_ok_def)
    then have l: "he_level ?e \<le> hg_max_level g" using E(2,3) by (simp add: hg_inv_def layout_ok_def node_count_def)
    moreover have "hg_max_level g \<le> 32" "he_id ?e < 2 ^ 32"
      using G E(2) savable_store(8) [OF assms(1)] by (auto simp: storable_def)
    ultimately show ?thesis
      using assms(2) True by (simp add: meta_of_def make_metadata_def Let_def shape_of_def unat_of_nat take_bit_nat_eq_self)
  qed
  then show "unat (md_entry_point (meta_of s)) = gh_entry_point (shape_of g)" "unat (md_max_level (meta_of s)) = gh_entry_level (shape_of g)"
    "md_max_level (meta_of s) \<le> md_max_level_cap (meta_of s)" using G by (simp_all add: word_le_nat_alt)
qed

lemma flat_meta: "graph_of (cs_backend s) = None \<Longrightarrow> md_entry_point (meta_of s) = kEmptySlot \<and> md_max_level (meta_of s) = 0"
  by (simp add: meta_of_def make_metadata_def Let_def)

lemma validate_written:
  assumes s: "savable s" and p: "file_parsed s (graph_of (cs_backend s) \<noteq> None) (cells_of s) p"
  shows "validate_metadata (meta_of s) (pf_header p) = ok_status"
proof -
  let ?c = "cs_config s" and ?f = "fh_flags (pf_header p)"
  have c: "1 \<le> cc_dim ?c" "cc_dim ?c \<le> kMaxDim" "metric_is_valid (cc_metric ?c)" "index_type_is_valid (cc_index ?c)"
    "cc_index ?c = Hnsw \<Longrightarrow> status_ok (hnsw_params_validate (cc_hnsw ?c))" "cs_normalized s = effective_normalize ?c"
    using savable_store(2) [OF s] by (simp_all add: setup_ok_def collection_config_validate_ok)
  have fl: "?f AND kFlagHasGraph \<noteq> 0 \<longleftrightarrow> cc_index ?c = Hnsw" "?f AND kFlagVectorsNormalized \<noteq> 0 \<longleftrightarrow> effective_normalize ?c"
    using p savable_graph(2) [OF s] c(6) unfolding file_parsed_def by blast+
  have rt: "metric_of_u8 (u8_of_metric (cc_metric ?c)) = cc_metric ?c" using c(3) by (cases "cc_metric ?c") simp_all
  have rt': "index_type_of_u8 (u8_of_index_type (cc_index ?c)) = cc_index ?c" using c(4) by (cases "cc_index ?c") simp_all
  have lv: "md_live_count (meta_of s) \<le> md_node_count (meta_of s)"
    using live_count [OF savable_store(1) [OF s]] savable_store(8) [OF s] by (simp add: word_le_nat_alt unat_of_nat take_bit_nat_eq_self)
  have ml: "hp_max_level (cc_hnsw ?c) \<le> kMaxLevelCap" "md_max_level (meta_of s) \<le> hp_max_level (cc_hnsw ?c)"
    using s entry_meta(3) [OF s] flat_meta [of s] by (auto simp: savable_def split: option.split) (cases "graph_of (cs_backend s)"; fastforce)
  show ?thesis
    unfolding validate_metadata_def Let_def params_of_meta fl node_count_meta [OF s]
    using c(1-5) rt rt' lv ml savable_store(7) [OF s] flat_meta [of s] savable_graph(2) [OF s]
    by (auto simp: not_less [symmetric] effective_normalize_def max_links_level0_def simp del: metric_of_u8.simps index_type_of_u8.simps)
qed


lemma words_of_word_bytes:
  assumes "8 * w = LENGTH('a::len)"
  shows "words_of w (word_bytes w vs) = (vs :: 'a word list)"
proof (rule nth_equalityI)
  have w: "0 < w" using assms by (cases w) simp_all
  then show "length (words_of w (word_bytes w vs) :: 'a word list) = length vs" by simp
  fix i assume "i < length (words_of w (word_bytes w vs) :: 'a word list)"
  then have i: "i < length vs" using w by simp
  then have "Suc i * w \<le> length vs * w" by (intro mult_le_mono1) simp
  then have "i * w + w \<le> length (word_bytes w vs)" by simp
  then have "take w (drop (i * w) (word_bytes w vs)) = map (\<lambda>j. word_bytes w vs ! (i * w + j)) [0..<w]"
    by (intro nth_equalityI) (simp_all add: nth_drop del: length_word_bytes)
  then have "take w (drop (w * i) (word_bytes w vs)) = le_bytes w (vs ! i)" using word_bytes_slice [OF i] by (simp only: mult.commute)
  then show "words_of w (word_bytes w vs) ! i = vs ! i"
    using i w by (simp add: words_of_def le_from_bytes [OF assms])
qed

lemma restore_truncated:
  assumes "tb_inv t" "\<forall>i\<in>tb_rows t. i < n" "n \<le> 64 * length (tb_words t)"
  shows "\<exists>t'. tb_restore (take (tombstone_words n) (tb_words t)) n = Some t' \<and> tb_rows t' = tb_rows t \<and> tb_count t' = tb_count t"
proof -
  let ?ws = "take (tombstone_words n) (tb_words t)"
  let ?t = "\<lparr>tb_words = ?ws, tb_count = sum_list (map popcount ?ws)\<rparr>"
  have len: "length ?ws = (n + 63) div 64" using assms(3) by (simp add: tombstone_words_def)
  have "tb_test ?t i = tb_test t i" for i
  proof (cases "i < n")
    case True
    then have "i div 64 < (n + 63) div 64" by (simp add: div_less_iff_less_mult)
    moreover have "(n + 63) div 64 \<le> length (tb_words t)" using assms(3) by simp
    ultimately show ?thesis by (simp add: tb_test_bit tombstone_words_def)
  next
    case False
    then have "\<not> tb_test t i" using assms(2) by (auto simp: tb_rows_def)
    then show ?thesis by (auto simp: tb_test_bit)
  qed
  then have r: "tb_rows ?t = tb_rows t" by (simp add: tb_rows_def)
  then have "tb_restore ?ws n = Some ?t" using len assms(2) by (simp add: tb_restore_Some)
  moreover have "tb_inv ?t" by (rule tb_restore_inv) (rule calculation)
  ultimately show ?thesis using r assms(1) by (auto simp: tb_inv_def)
qed

lemma restore_labels:
  assumes m: "im_inv m" "length (im_labels m) = n" "im_pending m = {}" and d: "tb_rows d = {..<n} - ran (im_find m)"
  shows "\<exists>m'. im_restore (im_labels m) d = Inr m' \<and> im_labels m' = im_labels m \<and> im_find m' = im_find m"
proof -
  let ?L = "live_labels (im_labels m) 0 d"
  have live: "im_find m x = Some i \<longleftrightarrow> i < n \<and> im_labels m ! i = x \<and> \<not> tb_test d i" for x i
  proof
    assume f: "im_find m x = Some i"
    then show "i < n \<and> im_labels m ! i = x \<and> \<not> tb_test d i" using im_find_label [OF m(1) f] m(2) d by (auto simp: tb_rows_def ran_def)
  next
    assume i: "i < n \<and> im_labels m ! i = x \<and> \<not> tb_test d i"
    then have "i \<in> ran (im_find m)" using d by (auto simp: tb_rows_def)
    then obtain y where "im_find m y = Some i" by (auto simp: ran_def)
    then show "im_find m x = Some i" using im_find_label(2) [OF m(1)] i by auto
  qed
  have L: "(x, i) \<in> set ?L \<longleftrightarrow> im_find m x = Some i" for x i unfolding live using m(2) by (auto simp: live_labels_nth)
  have "inj_on fst (set ?L)" using L by (auto simp: inj_on_def)
  then have "distinct (map fst ?L)" by (simp add: distinct_map live_labels_def distinct_zipI2)
  moreover have "kInvalidExternalId \<notin> fst ` set ?L" using L im_invD(3) [OF m(1)] by (auto simp: im_find_Some)
  ultimately obtain m' where m': "im_restore (im_labels m) d = Inr m'" using im_restore_total by blast
  have le: "length (im_labels m) \<le> kInvalidInternalId" by (rule im_invD(5) [OF m(1)])
  note R = im_restore_ok [OF m' le]
  have "im_find m' x = im_find m x" for x
  proof -
    have "im_find m' x = Some i \<longleftrightarrow> im_find m x = Some i" for i unfolding R(4) live using m(2) by simp
    then show ?thesis by (metis not_Some_eq)
  qed
  then show ?thesis using m' R(2) by blast
qed

subsection \<open>Each step of the reader on a written file\<close>

definition parsed_of :: "collection_state \<Rightarrow> parsed_file \<Rightarrow> bool" where
  "parsed_of s p \<longleftrightarrow> file_parsed s (graph_of (cs_backend s) \<noteq> None) (cells_of s) p"

lemmas find_saved = find_written [of s "graph_of (cs_backend s) \<noteq> None" "cells_of s" for s, folded saved_file_def parsed_of_def]
lemmas missing_saved = find_missing [of s "graph_of (cs_backend s) \<noteq> None" "cells_of s" for s, folded parsed_of_def]

abbreviation vector_bytes :: "collection_state \<Rightarrow> u8 list" where
  "vector_bytes s \<equiv> word_bytes 4 (concat (st_rows (cs_vectors s)))"

abbreviation tomb_bytes :: "collection_state \<Rightarrow> u8 list" where
  "tomb_bytes s \<equiv> word_bytes 8 (take (tombstone_words (st_size (cs_vectors s))) (tb_words (cs_deleted s)))"

lemma saved_cells:
  "(Metadata, kSectionAlignment, metadata_bytes (meta_of s)) \<in> set (cells_of s)"
  "(Labels, kSectionAlignment, word_bytes 8 (im_labels (cs_ids s))) \<in> set (cells_of s)"
  "(Vectors, kVectorAlignment, vector_bytes s) \<in> set (cells_of s)"
  "tb_count (cs_deleted s) \<noteq> 0 \<Longrightarrow> (Tombstones, kSectionAlignment, tomb_bytes s) \<in> set (cells_of s)"
  "tb_count (cs_deleted s) = 0 \<Longrightarrow> Tombstones \<notin> fst ` set (cells_of s)"
  by (auto simp: cells_of_eq split: option.splits)

lemma graph_cells:
  "graph_of (cs_backend s) = Some g \<Longrightarrow> (Levels, kSectionAlignment, gs_levels (sections_of g)) \<in> set (cells_of s)"
  "graph_of (cs_backend s) = Some g \<Longrightarrow> (L0Links, kSectionAlignment, gs_l0_links (sections_of g)) \<in> set (cells_of s)"
  "graph_of (cs_backend s) = Some g \<Longrightarrow> (UpperIndex, kSectionAlignment, gs_upper_index (sections_of g)) \<in> set (cells_of s)"
  "graph_of (cs_backend s) = Some g \<Longrightarrow> (UpperLinks, kSectionAlignment, gs_upper_links (sections_of g)) \<in> set (cells_of s)"
  "graph_of (cs_backend s) = None \<Longrightarrow> t \<in> {Levels, L0Links, UpperIndex, UpperLinks} \<Longrightarrow> t \<notin> fst ` set (cells_of s)"
  by (auto simp: cells_of_eq)

lemma graph_sections_found:
  assumes p: "parsed_of s p" and t: "t \<in> {Levels, L0Links, UpperIndex, UpperLinks}"
  shows "find_section p t \<noteq> None \<longleftrightarrow> graph_of (cs_backend s) \<noteq> None"
proof (cases "graph_of (cs_backend s)")
  case None
  then show ?thesis using missing_saved [OF p graph_cells(5) [OF None t]] by simp
next
  case (Some g)
  show ?thesis using t Some graph_cells(1-4) [OF Some, THEN find_saved [OF p]] by auto
qed

definition tomb_found :: "collection_state \<Rightarrow> section_entry option \<Rightarrow> bool" where
  "tomb_found s te \<longleftrightarrow>
     (case te of None \<Rightarrow> tb_count (cs_deleted s) = 0
      | Some e \<Rightarrow> tb_count (cs_deleted s) \<noteq> 0 \<and> holds_cell (saved_file s) e Tombstones kSectionAlignment (tomb_bytes s))"

lemma required_saved:
  assumes p: "parsed_of s p"
  obtains me ve le te where "required_sections p = Returned (Inr (me, ve, le, te))"
    "holds_cell (saved_file s) me Metadata kSectionAlignment (metadata_bytes (meta_of s))" "holds_cell (saved_file s) ve Vectors kVectorAlignment (vector_bytes s)"
    "holds_cell (saved_file s) le Labels kSectionAlignment (word_bytes 8 (im_labels (cs_ids s)))" "tomb_found s te"
    "ve \<in> set (pf_entries p)" "le \<in> set (pf_entries p)" "\<And>e. te = Some e \<Longrightarrow> e \<in> set (pf_entries p)"
proof -
  obtain me le ve where f: "find_section p Metadata = Some me" "find_section p Labels = Some le" "find_section p Vectors = Some ve"
    "holds_cell (saved_file s) me Metadata kSectionAlignment (metadata_bytes (meta_of s))" "holds_cell (saved_file s) ve Vectors kVectorAlignment (vector_bytes s)"
    "holds_cell (saved_file s) le Labels kSectionAlignment (word_bytes 8 (im_labels (cs_ids s)))" "ve \<in> set (pf_entries p)" "le \<in> set (pf_entries p)"
    using saved_cells(1-3) [THEN find_saved [OF p]] by blast
  have fl: "fh_flags (pf_header p) AND kFlagHasGraph \<noteq> 0 \<longleftrightarrow> graph_of (cs_backend s) \<noteq> None"
    "fh_flags (pf_header p) AND kFlagHasTombstones \<noteq> 0 \<longleftrightarrow> tb_count (cs_deleted s) \<noteq> 0"
    using p unfolding parsed_of_def file_parsed_def by blast+
  have te: "tomb_found s (find_section p Tombstones)" "\<And>e. find_section p Tombstones = Some e \<Longrightarrow> e \<in> set (pf_entries p)"
    "find_section p Tombstones \<noteq> None \<longleftrightarrow> tb_count (cs_deleted s) \<noteq> 0"
    using find_saved [OF p saved_cells(4)] missing_saved [OF p saved_cells(5)]
    by (cases "tb_count (cs_deleted s) = 0"; auto simp: tomb_found_def)+
  have cg: "check_graph_sections p (graph_of (cs_backend s) \<noteq> None) ts = Returned (Inr ())" if "set ts \<subseteq> {Levels, L0Links, UpperIndex, UpperLinks}" for ts
    using that graph_sections_found [OF p] by (induction ts) (simp_all add: reject_if_def)
  have "check_graph_sections p (graph_of (cs_backend s) \<noteq> None) [Levels, L0Links, UpperIndex, UpperLinks] = Returned (Inr ())" by (rule cg) simp
  moreover have "unat (se_offset ve) mod kVectorAlignment = 0" using f(5) by (simp add: holds_cell_def)
  ultimately have "required_sections p = Returned (Inr (me, ve, le, find_section p Tombstones))"
    unfolding required_sections_def f(1-3) prod.case option.case Let_def fl
    using te(3) by (simp add: reject_if_def then_read_def)
  then show thesis using that f te by blast
qed

lemma sizes_saved:
  assumes s: "savable s" and v: "holds_cell (saved_file s) ve Vectors kVectorAlignment (vector_bytes s)"
    and l: "holds_cell (saved_file s) le Labels kSectionAlignment (word_bytes 8 (im_labels (cs_ids s)))" and t: "tomb_found s te"
  shows "check_sizes (meta_of s) ve le te = Returned (Inr ())"
proof -
  note S = savable_store [OF s]
  let ?n = "st_size (cs_vectors s)" and ?d = "unat (cc_dim (cs_config s))"
  have sz: "unat (se_size ve) = ?n * ?d * 4" "unat (se_size le) = ?n * 8"
    using v l length_rows [OF S(4)] S(5,6) by (simp_all add: holds_cell_def)
  have "?n * ?d \<le> 2 ^ 32 * 2 ^ 16" using S(8,9) by (intro mult_le_mono) simp_all
  then have "checked_mul3 ?n ?d 4 = Some (?n * ?d * 4)" "checked_mul_size ?n 8 = Some (?n * 8)"
    using S(8) checked_mul_size_Some [of ?n ?d "?n * ?d"] checked_mul_size_Some [of "?n * ?d" 4 "?n * ?d * 4"] checked_mul_size_Some [of ?n 8 "?n * 8"]
    by (simp_all add: checked_mul3_def)
  moreover have "unat (se_size e) = (?n + 63) div 64 * 8" if "te = Some e" for e
  proof -
    have "?n \<le> 64 * length (tb_words (cs_deleted s))" using S(1) by (simp add: store_ok_def)
    then show ?thesis using t that by (simp add: tomb_found_def holds_cell_def tombstone_words_def)
  qed
  ultimately show ?thesis
    using sz unfolding check_sizes_def Let_def node_count_meta [OF s] by (auto simp: expect_size_def reject_if_def split: option.split)
qed

lemma ids_saved:
  assumes s: "savable s" and l: "holds_cell (saved_file s) le Labels kSectionAlignment (word_bytes 8 (im_labels (cs_ids s)))" and t: "tomb_found s te"
    and mem: "rm_tombstones mem" "rm_labels mem" "rm_ids mem"
  shows "\<exists>ids d. read_ids mem (saved_file s) (meta_of s) le te = Returned (Inr (ids, d)) \<and>
    im_labels ids = im_labels (cs_ids s) \<and> im_find ids = im_find (cs_ids s) \<and> tb_rows d = tb_rows (cs_deleted s)"
proof -
  note S = savable_store [OF s]
  let ?n = "st_size (cs_vectors s)" and ?t = "cs_deleted s" and ?m = "cs_ids s"
  have st: "im_inv ?m" "tb_inv ?t" "?n \<le> 64 * length (tb_words ?t)" "tb_rows ?t = {..<?n} - ran (im_find ?m)" using S(1) by (simp_all add: store_ok_def)
  obtain t' where t': "read_tombstones mem (saved_file s) ?n te = Returned (Inr t')" "tb_rows t' = tb_rows ?t" "tb_count t' = tb_count ?t"
  proof (cases te)
    case None
    then have "tb_count ?t = 0" using t by (simp add: tomb_found_def)
    then have "tb_rows ?t = {}" using st(2) finite_tb_rows [of ?t] by (simp add: tb_inv_def)
    then show thesis using that [of tb_empty] None \<open>tb_count ?t = 0\<close> by (simp add: read_tombstones_def tb_empty_def [symmetric]) (simp add: tb_empty_def)
  next
    case (Some e)
    have h: "holds_cell (saved_file s) e Tombstones kSectionAlignment (tomb_bytes s)" "tb_count ?t \<noteq> 0" using t Some by (simp_all add: tomb_found_def)
    obtain t' where r: "tb_restore (take (tombstone_words ?n) (tb_words ?t)) ?n = Some t'" "tb_rows t' = tb_rows ?t" "tb_count t' = tb_count ?t"
      using restore_truncated [OF st(2) _ st(3)] st(4) by blast
    then show thesis
      using that [of t'] h(2) mem(1) Some
      by (simp add: read_tombstones_def section_bytes_cell [OF h(1)] read_u64_array_def words_of_word_bytes need_def reject_if_def)
  qed
  have "tb_rows (tb_ensure_size t' ?n) = {..<?n} - ran (im_find ?m)" using tb_ensure_size_rows(1) [of t' ?n] t'(2) st(4) by simp
  then obtain ids where ids: "im_restore (im_labels ?m) (tb_ensure_size t' ?n) = Inr ids" "im_labels ids = im_labels ?m" "im_find ids = im_find ?m"
    using restore_labels [OF st(1) S(6,3)] by blast
  have "md_node_count (meta_of s) - word_of_nat (tb_count ?t) = md_live_count (meta_of s)"
    using live_count [OF S(1)] by (simp add: of_nat_add [symmetric] del: of_nat_add flip: of_nat_diff) (metis add_diff_cancel_right' of_nat_add)
  then have "read_ids mem (saved_file s) (meta_of s) le te = Returned (Inr (ids, tb_ensure_size t' ?n))"
    unfolding read_ids_def Let_def node_count_meta [OF s] t'(1) section_bytes_cell [OF l] read_u64_array_def
    using mem(2,3) ids(1) t'(3) by (simp add: then_read_def reject_if_def need_def words_of_word_bytes)
  then show ?thesis using ids tb_ensure_size_rows(1) [of t' ?n] t'(2) by blast
qed

lemma graph_saved:
  assumes s: "savable s" and p: "parsed_of s p" and mem: "rm_graph mem = (\<lambda>_. (True, True))"
  shows "\<exists>og. read_graph mem (saved_file s) p (meta_of s) = Returned (Inr og) \<and>
    (case graph_of (cs_backend s) of None \<Rightarrow> og = None
     | Some g \<Rightarrow> \<exists>g'. og = Some g' \<and> hg_levels g' = hg_levels g \<and> link_map g' = link_map g \<and> (node_count g > 0 \<longrightarrow> read_entry g' = read_entry g))"
proof (cases "graph_of (cs_backend s)")
  case None
  then have "\<not> (fh_flags (pf_header p) AND kFlagHasGraph \<noteq> 0)" using p unfolding parsed_of_def file_parsed_def by blast
  then show ?thesis using None by (simp add: read_graph_def)
next
  case (Some g)
  have fl: "fh_flags (pf_header p) AND kFlagHasGraph \<noteq> 0" using p Some unfolding parsed_of_def file_parsed_def by blast
  obtain a b c d where f: "find_section p Levels = Some a" "find_section p L0Links = Some b" "find_section p UpperIndex = Some c" "find_section p UpperLinks = Some d"
    and h: "holds_cell (saved_file s) a Levels kSectionAlignment (gs_levels (sections_of g))"
      "holds_cell (saved_file s) b L0Links kSectionAlignment (gs_l0_links (sections_of g))"
      "holds_cell (saved_file s) c UpperIndex kSectionAlignment (gs_upper_index (sections_of g))"
      "holds_cell (saved_file s) d UpperLinks kSectionAlignment (gs_upper_links (sections_of g))"
    using graph_cells(1-4) [OF Some, THEN find_saved [OF p]] by blast
  note G = savable_graph(3) [OF s Some]
  have shape: "\<lparr>gh_node_count = unat (md_node_count (meta_of s)), gh_m = unat (md_m (meta_of s)), gh_max_level_cap = unat (md_max_level_cap (meta_of s)),
      gh_entry_point = unat (md_entry_point (meta_of s)), gh_entry_level = unat (md_max_level (meta_of s))\<rparr> = shape_of g"
    unfolding entry_meta(1,2) [OF s Some] node_count_meta [OF s] using G by (simp add: shape_of_def)
  obtain g' where g': "decode_graph (\<lambda>_. (True, True)) (sections_of g) (shape_of g) = Returned (Inr g')" "hg_levels g' = hg_levels g"
    "link_map g' = link_map g" "node_count g > 0 \<Longrightarrow> read_entry g' = read_entry g"
    using decode_graph_exact [OF conjunct1 [OF G]] by blast
  have rec: "\<lparr>gs_levels = gs_levels (sections_of g), gs_l0_links = gs_l0_links (sections_of g), gs_upper_index = gs_upper_index (sections_of g),
      gs_upper_links = gs_upper_links (sections_of g)\<rparr> = sections_of g" by simp
  have "read_graph mem (saved_file s) p (meta_of s) = Returned (Inr (Some g'))"
    unfolding read_graph_def if_P [OF fl] f prod.case option.case h [THEN section_bytes_cell] shape mem rec g'(1) by (simp add: then_read_def)
  then show ?thesis using g' Some by simp
qed

text \<open>With memory for every chunk, the stores are built without an exception.\<close>

definition alloc_total :: "allocator \<Rightarrow> bool" where
  "alloc_total alloc \<longleftrightarrow> (\<forall>n. alloc n \<noteq> None)"

lemma add_chunk_total: "alloc_total alloc \<Longrightarrow> st_add_chunk alloc v \<noteq> None"
  by (auto simp: alloc_total_def st_add_chunk_def split: option.split)

lemma append_total: "alloc_total alloc \<Longrightarrow> st_append alloc v row = (res, v') \<Longrightarrow> res \<noteq> Thrown"
  using add_chunk_total [of alloc v] by (auto simp: st_append_def split: if_splits option.splits)

lemma copy_rows_total: "alloc_total alloc \<Longrightarrow> copy_rows alloc bytes dim rs v \<noteq> Thrown"
  by (induction rs arbitrary: v)
    (auto simp: span_of_def reject_if_def Let_def dest: append_total split: prod.splits outcome.splits sum.splits)

lemma mapped_tail_total: "alloc_total alloc \<Longrightarrow> mapped_tail alloc rows r n v \<noteq> Thrown"
  by (induction alloc rows r n v rule: mapped_tail.induct) (auto dest: append_total split: prod.splits outcome.splits sum.splits)

lemma reserve_loop_total: "alloc_total alloc \<Longrightarrow> fst (reserve_loop alloc fuel v rows)"
  by (induction alloc fuel v rows rule: reserve_loop.induct) (auto dest: add_chunk_total split: option.split)

lemma reserve_total: "alloc_total alloc \<Longrightarrow> st_reserve alloc v rows = (res, v') \<Longrightarrow> res \<noteq> Thrown"
  using reserve_loop_total [of alloc rows v rows] by (auto simp: st_reserve_def split: prod.splits if_splits)

lemma read_vectors_total: "alloc_total (rm_alloc mem) \<Longrightarrow> rm_row mem \<Longrightarrow> read_vectors mem aligned opts bytes dim n \<noteq> Thrown"
  using copy_rows_total [of "rm_alloc mem"] mapped_tail_total [of "rm_alloc mem"]
  by (auto simp: read_vectors_def Let_def reject_if_def need_def st_create_mapped_def dest: reserve_total split: sum.splits prod.splits outcome.splits if_splits)

lemma file_rows_saved:
  assumes s: "savable s"
  shows "file_rows (vector_bytes s) (unat (cc_dim (cs_config s))) [0..<st_size (cs_vectors s)] = st_rows (cs_vectors s)"
proof -
  note S = savable_store [OF s]
  let ?rows = "st_rows (cs_vectors s)" and ?d = "unat (cc_dim (cs_config s))"
  have u: "uniform ?d ?rows" using length_st_row [OF S(4)] S(5) by (auto simp: uniform_def st_rows_def)
  have "take ?d (drop (i * ?d) (concat ?rows)) = ?rows ! i" if i: "i < st_size (cs_vectors s)" for i
  proof (rule nth_equalityI)
    have "Suc i * ?d \<le> st_size (cs_vectors s) * ?d" using i by (intro mult_le_mono1) simp
    then have le: "i * ?d + ?d \<le> length (concat ?rows)" using length_rows [OF S(4)] S(5) by simp
    then show "length (take ?d (drop (i * ?d) (concat ?rows))) = length (?rows ! i)" using i length_st_row [OF S(4) i] S(5) by simp
    fix j assume "j < length (take ?d (drop (i * ?d) (concat ?rows)))"
    then show "take ?d (drop (i * ?d) (concat ?rows)) ! j = ?rows ! i ! j" using uniform_nth [OF u, of i j] i le by (simp add: nth_drop)
  qed
  then show ?thesis by (intro nth_equalityI) (simp_all add: file_rows_def words_of_word_bytes)
qed

lemma vectors_saved:
  assumes s: "savable s" and mem: "alloc_fits (rm_alloc mem)" "alloc_total (rm_alloc mem)" "rm_row mem"
  shows "\<exists>v. read_vectors mem aligned opts (vector_bytes s) (unat (cc_dim (cs_config s))) (st_size (cs_vectors s)) = Returned (Inr v) \<and>
    store_loaded (vector_bytes s) (unat (cc_dim (cs_config s))) (st_size (cs_vectors s)) v \<and> st_rows v = st_rows (cs_vectors s) \<and> rows_ok v"
proof -
  note S = savable_store [OF s]
  let ?d = "unat (cc_dim (cs_config s))" and ?n = "st_size (cs_vectors s)"
  have ro: "rows_ok (cs_vectors s)" using S(1) by (simp add: store_ok_def)
  have "\<forall>x\<in>set (concat (st_rows (cs_vectors s))). component_ok x"
    using ro S(5) by (auto simp: rows_ok_iff validate_vector_ok)
  then have noerr: "\<not> row_error (vector_bytes s) e" for e by (simp add: row_error_def words_of_word_bytes)
  have len: "length (vector_bytes s) = ?n * ?d * 4" using length_rows [OF S(4)] S(5) by simp
  have "reads (row_error (vector_bytes s)) (\<lambda>v. store_loaded (vector_bytes s) ?d ?n v \<and> (rows_checked aligned opts \<longrightarrow> rows_ok v))
      (read_vectors mem aligned opts (vector_bytes s) ?d ?n)"
    by (rule read_vectors_reads [OF mem(1) S(10,9,7) len])
  then obtain v where v: "read_vectors mem aligned opts (vector_bytes s) ?d ?n = Returned (Inr v)" "store_loaded (vector_bytes s) ?d ?n v"
    using noerr read_vectors_total [OF mem(2,3)] by (auto simp: reads_def split: outcome.splits sum.splits)
  then have r: "st_rows v = st_rows (cs_vectors s)" "st_dim v = st_dim (cs_vectors s)" using file_rows_saved [OF s] S(5) by (simp_all add: store_loaded_def)
  then have "rows_ok v" using ro by (simp add: rows_ok_iff)
  then show ?thesis using v r by blast
qed

subsection \<open>Loading what was saved\<close>

text \<open>The loaded collection \<open>s'\<close> is the saved one, up to the concurrency mode, which the loader chooses.\<close>

definition reloaded :: "read_options \<Rightarrow> collection_state \<Rightarrow> collection_state \<Rightarrow> bool" where
  "reloaded opts s s' \<longleftrightarrow>
     coll_view s' = coll_view s \<and> im_labels (cs_ids s') = im_labels (cs_ids s) \<and> st_rows (cs_vectors s') = st_rows (cs_vectors s) \<and>
     tb_rows (cs_deleted s') = tb_rows (cs_deleted s) \<and> cs_config s' = (cs_config s)\<lparr>cc_concurrency := ro_concurrency opts\<rparr> \<and>
     cs_creator s' = cs_creator s \<and> cs_created_unix_ms s' = cs_created_unix_ms s \<and>
     (case graph_of (cs_backend s) of None \<Rightarrow> graph_of (cs_backend s') = None
      | Some g \<Rightarrow> \<exists>g'. graph_of (cs_backend s') = Some g' \<and> hg_levels g' = hg_levels g \<and> link_map g' = link_map g \<and>
          (node_count g > 0 \<longrightarrow> read_entry g' = read_entry g))"

definition enough :: "read_mem \<Rightarrow> bool" where
  "enough mem \<longleftrightarrow>
     rm_entries mem \<and> rm_regions mem \<and> rm_metadata mem \<and> rm_tombstones mem \<and> rm_labels mem \<and> rm_ids mem \<and> rm_graph mem = (\<lambda>_. (True, True)) \<and>
     alloc_fits (rm_alloc mem) \<and> alloc_total (rm_alloc mem) \<and> rm_row mem \<and> rm_state mem"

lemma enough_plentiful: "enough plentiful"
  by (simp add: enough_def plentiful_def alloc_fits_def alloc_total_def)

lemma loaded_config_saved:
  assumes s: "savable s"
  shows "loaded_config opts (meta_of s) = (cs_config s)\<lparr>cc_concurrency := ro_concurrency opts\<rparr>"
proof -
  let ?c = "cs_config s"
  have "metric_is_valid (cc_metric ?c)" "index_type_is_valid (cc_index ?c)"
    using savable_store(2) [OF s] by (simp_all add: setup_ok_def collection_config_validate_ok)
  then have "metric_of_u8 (u8_of_metric (cc_metric ?c)) = cc_metric ?c \<and> index_type_of_u8 (u8_of_index_type (cc_index ?c)) = cc_index ?c"
    by (cases "cc_metric ?c"; cases "cc_index ?c") simp_all
  then show ?thesis by (simp add: loaded_config_def params_of_meta del: metric_of_u8.simps index_type_of_u8.simps)
qed

lemma same_rows_view:
  assumes "st_rows v' = st_rows (cs_vectors s)" "store_ok s" "im_find ids = im_find (cs_ids s)" "cs_vectors s' = v'" "cs_ids s' = ids"
  shows "coll_view s' = coll_view s"
proof -
  have sz: "st_size v' = st_size (cs_vectors s)" using arg_cong [OF assms(1), of length] by simp
  have "st_row v' i = st_row (cs_vectors s) i" if "i < st_size (cs_vectors s)" for i
    using arg_cong [OF assms(1), of "\<lambda>xs. xs ! i"] that sz by simp
  moreover have "im_find (cs_ids s) x = Some i \<Longrightarrow> i < st_size (cs_vectors s)" for x i
    using assms(2) im_find_label(1) by (fastforce simp: store_ok_def)
  ultimately have "map_option (st_row v') (im_find (cs_ids s) x) = map_option (st_row (cs_vectors s)) (im_find (cs_ids s) x)" for x
    by (cases "im_find (cs_ids s) x") simp_all
  then show ?thesis unfolding coll_view_def assms(3-5) by blast
qed

lemma load_saved:
  assumes s: "savable s" and mem: "enough mem" and opts: "ro_verify opts \<noteq> VerifyAuto" "ro_concurrency opts \<in> {Coarse, Concurrent}"
  shows "\<exists>s'. read_index mem scalar_selection aligned opts (saved_file s) = Returned (Inr s') \<and> coll_inv s' \<and> reloaded opts s s'"
proof -
  have M: "rm_entries mem" "rm_regions mem" "rm_metadata mem" "rm_tombstones mem" "rm_labels mem" "rm_ids mem" "rm_graph mem = (\<lambda>_. (True, True))"
    "alloc_fits (rm_alloc mem)" "alloc_total (rm_alloc mem)" "rm_row mem" "rm_state mem" using mem by (simp_all add: enough_def)
  note S = savable_store [OF s]
  let ?f = "saved_file s" and ?m = "meta_of s" and ?n = "st_size (cs_vectors s)" and ?d = "unat (cc_dim (cs_config s))"
  obtain p where p: "parse_header_and_table mem ?f = Returned (Inr p)" "parsed_of s p"
    using parse_written [OF savable_well_made [OF s] M(1,2)] unfolding parsed_of_def saved_file_def by blast
  obtain me ve le te where r: "required_sections p = Returned (Inr (me, ve, le, te))"
    "holds_cell ?f me Metadata kSectionAlignment (metadata_bytes ?m)" "holds_cell ?f ve Vectors kVectorAlignment (vector_bytes s)"
    "holds_cell ?f le Labels kSectionAlignment (word_bytes 8 (im_labels (cs_ids s)))" "tomb_found s te"
    "ve \<in> set (pf_entries p)" "le \<in> set (pf_entries p)" "\<And>e. te = Some e \<Longrightarrow> e \<in> set (pf_entries p)"
    using required_saved [OF p(2)] by metis
  have tab: "table_ok ?f p" by (rule reads_accepted [OF parse_header_and_table_reads p(1)])
  have so: "sections_ok p me ve le te" using reads_accepted [OF required_sections_reads r(1)] by simp
  have val: "validate_metadata ?m (pf_header p) = ok_status" using validate_written [OF s] p(2) by (simp add: parsed_of_def)
  then have vok: "status_ok (validate_metadata ?m (pf_header p))" by simp
  have crc: "verify_sections ?f (pf_entries p) = Returned (Inr ())" "verify_crc ?f ve = Returned (Inr ())"
    using crc_written p(2) r(6) unfolding parsed_of_def saved_file_def by blast+
  have dec: "decode_metadata (metadata_bytes ?m) = Inr ?m" using s by (simp add: decode_metadata_iff savable_def)
  obtain ids d where ids: "read_ids mem ?f ?m le te = Returned (Inr (ids, d))" "im_labels ids = im_labels (cs_ids s)" "im_find ids = im_find (cs_ids s)"
    "tb_rows d = tb_rows (cs_deleted s)" using ids_saved [OF s r(4,5) M(4-6)] by blast
  have le: "unat (se_size le) = unat (md_node_count ?m) * 8" using r(4) S(6) node_count_meta [OF s] by (simp add: holds_cell_def)
  have il: "ids_loaded (unat (md_node_count ?m)) ids d"
    using reads_accepted [OF read_ids_reads [OF tab r(8,7) le validate_metadata_ok(5) [OF vok]] ids(1)] by simp
  obtain og where og: "read_graph mem ?f p ?m = Returned (Inr og)"
    "case graph_of (cs_backend s) of None \<Rightarrow> og = None
     | Some g \<Rightarrow> \<exists>g'. og = Some g' \<and> hg_levels g' = hg_levels g \<and> link_map g' = link_map g \<and> (node_count g > 0 \<longrightarrow> read_entry g' = read_entry g)"
    using graph_saved [OF s p(2) M(7)] by blast
  note gl = reads_accepted [OF read_graph_reads [OF tab so vok] og(1)]
  obtain v where v: "read_vectors mem aligned opts (vector_bytes s) ?d ?n = Returned (Inr v)" "store_loaded (vector_bytes s) ?d ?n v"
    "st_rows v = st_rows (cs_vectors s)" "rows_ok v" using vectors_saved [OF s M(8-10)] by blast
  have ks: "ks_table scalar_selection = scalar_kernel_table" "status_ok (ks_status scalar_selection)" by (simp_all add: scalar_selection_def)
  have sl: "store_loaded (vector_bytes s) (unat (md_dim ?m)) (unat (md_node_count ?m)) v" using v(2) node_count_meta [OF s] by simp
  obtain s' where s': "loaded_state scalar_selection opts ?m v ids d og = Returned (Inr s')" "rows_ok v \<longrightarrow> coll_inv s'" "cs_vectors s' = v" "cs_ids s' = ids"
    "cs_deleted s' = d" "cs_config s' = loaded_config opts ?m" "cs_creator s' = md_creator ?m" "cs_created_unix_ms s' = md_created_unix_ms ?m"
    "graph_of (cs_backend s') = og" using loaded_state_returns [OF vok opts(2) ks(1) sl il gl] by blast
  have "read_index mem scalar_selection aligned opts ?f = Returned (Inr s')"
    unfolding read_index_def p(1) then_read_def outcome.case sum.case r(1) prod.case crc if_cancel r(2,3) [THEN section_bytes_cell] dec val
      sizes_saved [OF s r(3-5)] ids(1) og(1) Let_def meta_of_simps(1) node_count_meta [OF s] v(1) s'(1)
    using opts(1) M(3,11) ks(2) by (simp add: check_that_def need_def reject_if_def)
  moreover have "reloaded opts s s'"
    using same_rows_view [OF v(3) S(1) ids(3) s'(3,4)] s'(3-8) ids(2,4) v(3) og(2) [folded s'(9)] loaded_config_saved [OF s, of opts]
    unfolding reloaded_def by simp
  ultimately show ?thesis using s'(2) v(4) by blast
qed

subsection \<open>Properties\<close>

text \<open>
  C9. Saving and loading are inverse on every collection that the format can hold. Let a collection be
  \<open>savable\<close>: it satisfies the invariant, its creator string has at most 256 bytes, its \<open>max_level\<close> is at
  most 32 (even when the index is Flat, where \<open>create\<close> accepts more), its graph, if any, has no unlinked
  node (a batch whose link step threw may leave one) and fewer than \<open>2 ^ 31\<close> words of upper-level links.
  Writing it to memory then succeeds without a failed assertion, and the reader, when its allocations
  succeed, accepts the bytes at every verification level, copied or in place: the loaded collection
  satisfies the invariant and has the map, rows, labels, tombstones, parameters, creator and graph of the
  saved one.
\<close>

theorem save_load_round_trip:
  assumes "savable s" "ro_verify opts \<noteq> VerifyAuto" "ro_concurrency opts \<in> {Coarse, Concurrent}"
  shows "\<exists>st file s'. write_index memory_sink True s [] = (Returned st, file) \<and> status_ok st \<and>
    read_index plentiful scalar_selection aligned opts file = Returned (Inr s') \<and> coll_inv s' \<and> reloaded opts s s'"
proof -
  have "reach kHeaderSize (section_cells s (graph_of (cs_backend s))) < 2 ^ 62"
    using savable_well_made [OF assms(1)] by (simp add: well_made_def cells_of_def)
  then obtain st "file" where w: "write_index memory_sink True s [] = (Returned st, file)" "status_ok st"
    "file = file_bytes s (graph_of (cs_backend s) \<noteq> None) (section_cells s (graph_of (cs_backend s)))"
    using memory.write_index_succeeds [OF savable_writable [OF assms(1)], of "[]"] by auto
  then show ?thesis using load_saved [OF assms(1) enough_plentiful assms(2,3), of aligned] by (auto simp: saved_file_def cells_of_def)
qed

text \<open>A flat collection with one row can be saved.\<close>

lemma sample_savable:
  obtains s where "collection_add True all_memory (sample_empty Flat) 7 [f32_one] \<lparr>io_upsert = False\<rparr> = (Returned ok_status, s)" "savable s"
    "coll_view s = [7 \<mapsto> [f32_one]]"
proof -
  let ?s = "sample_empty Flat"
  note F = sample_empty_facts [of Flat, simplified]
  have f: "cc_index (cs_config ?s) = Flat" and nn: "\<not> effective_normalize (cs_config ?s)" using F(3) by (simp_all add: sample_config_def effective_normalize_def)
  have m: "memory_available all_memory" using all_memory_fits by (simp add: memory_available_def all_memory_def)
  have "component_ok f32_one" by (simp add: component_ok_def kMaxAbsComponent_def f32_eval)
  then have a: "status_ok (add_accepts ?s [f32_one])" using nn F(3) by (simp add: add_accepts_def validate_vector_ok sample_config_def)
  have z: "st_size (cs_vectors ?s) < kMaxVectorsPerCollection"
    using F(4) length_st_rows [of "cs_vectors ?s"] by (simp add: kMaxVectorsPerCollection_def kInvalidInternalId_def)
  have cr: "cs_creator ?s = []"
    using collection_create_outcome [of scalar_selection "[]" 0 "sample_config Flat"] sample_config_valid by (auto simp: scalar_selection_def sample_empty_def)
  obtain s where s: "collection_add True all_memory ?s 7 [f32_one] \<lparr>io_upsert = False\<rparr> = (Returned ok_status, s)" "coll_inv s" "cs_config s = cs_config ?s"
    "cs_creator s = cs_creator ?s" "coll_view s = (coll_view ?s)(7 \<mapsto> stored_row ?s [f32_one])"
    using flat_add_stored [OF F(1) f m a z, of 7 "\<lparr>io_upsert = False\<rparr>"] F(2) by (auto simp: kInvalidExternalId_def)
  obtain U where "backend_ok (cs_config s) (cs_vectors s) (st_size (cs_vectors s)) U (cs_backend s)" using s(2) by (rule coll_invE)
  then have "graph_of (cs_backend s) = None" using s(3) f by (cases "cs_backend s") auto
  then have "savable s" using s(2-4) cr F(3)
    by (simp add: savable_def sample_config_def default_hnsw_params_def kMaxLevelCap_def)
  moreover have "stored_row ?s [f32_one] = [f32_one]" using nn by (simp add: stored_row_def)
  ultimately show thesis using that [OF s(1)] s(5) F(2) by simp
qed

theorem save_load_round_trip_witness:
  "\<exists>s st file s'. collection_add True all_memory (sample_empty Flat) 7 [f32_one] \<lparr>io_upsert = False\<rparr> = (Returned ok_status, s) \<and>
    write_index memory_sink True s [] = (Returned st, file) \<and> status_ok st \<and>
    read_index plentiful scalar_selection True full_load file = Returned (Inr s') \<and> coll_view s' = [7 \<mapsto> [f32_one]]"
proof -
  obtain s where s: "collection_add True all_memory (sample_empty Flat) 7 [f32_one] \<lparr>io_upsert = False\<rparr> = (Returned ok_status, s)" "savable s"
    "coll_view s = [7 \<mapsto> [f32_one]]" by (rule sample_savable)
  have "ro_verify full_load \<noteq> VerifyAuto" "ro_concurrency full_load \<in> {Coarse, Concurrent}" by (simp_all add: full_load_def)
  from save_load_round_trip [OF s(2) this, of True] s(1,3) show ?thesis by (auto simp: reloaded_def)
qed

text \<open>
  C12. A full verification detects every change of a single byte: when a file loads, no file obtained from
  it by replacing one byte with another value loads, whichever byte it is, header, section table,
  section contents, checksums and padding included, and whatever the memory and the other options.
\<close>

theorem single_byte_corruption_detected:
  assumes "read_index mem simd aligned opts f = Returned (Inr s)" "ro_verify opts = VerifyFull" "i < length f" "b \<noteq> f ! i" "ro_verify opts' = VerifyFull"
  shows "read_index mem' simd' aligned' opts' (f[i := b]) \<noteq> Returned (Inr s')"
  using changed_byte_rejected [OF assms(1) _ assms(2,5,3)] assms(4) by blast

theorem single_byte_corruption_detected_witness:
  "\<exists>f s. read_index plentiful scalar_selection False full_load f = Returned (Inr s) \<and>
     (\<forall>s'. read_index plentiful scalar_selection False full_load (f[0 := 0]) \<noteq> Returned (Inr s'))"
proof -
  obtain s where s: "savable s" by (rule sample_savable)
  have o: "ro_verify full_load \<noteq> VerifyAuto" "ro_concurrency full_load \<in> {Coarse, Concurrent}" "ro_verify full_load = VerifyFull" by (simp_all add: full_load_def)
  obtain s1 where s1: "read_index plentiful scalar_selection False full_load (saved_file s) = Returned (Inr s1)"
    using load_saved [OF s enough_plentiful o(1,2), of False] by blast
  obtain h r where f: "saved_file s = encode_header h @ r" by (auto simp: saved_file_def file_bytes_def Let_def)
  have "take 8 (saved_file s) = kMagic" "0 < length (saved_file s)" using decode_encode_header(3,4) [of h] unfolding f by (simp_all add: kHeaderSize_def)
  then have b: "saved_file s ! 0 = 0x56" by (metis kMagic_def nth_Cons_0 nth_take zero_less_numeral)
  have "0 < length (saved_file s)" "(0 :: u8) \<noteq> saved_file s ! 0" using b \<open>0 < length (saved_file s)\<close> by simp_all
  from single_byte_corruption_detected [OF s1 o(3) this o(3)] s1 show ?thesis by blast
qed

end
