(* ===== verification/VF_AtomicFile.thy ===== *)
theory VF_AtomicFile
  imports VF_FileSink VF_SaveLoad
begin

text \<open>
  Crash safety of \<open>write_atomic\<close> (\<^verbatim>\<open>src/storage/atomic_file.cpp\<close>) and of \<open>Collection::save\<close>. The locale
  \<open>contents_writer\<close> is what \<open>write_atomic\<close> relies on in its callback. Whatever fails, and whenever the
  machine stops, the target is what it was before or has all the new bytes, and no other file but the
  temporary one is touched; after success the new bytes survive every crash.
\<close>

subsection \<open>Replacing a file\<close>

definition replacing :: "path \<Rightarrow> u8 list \<Rightarrow> disk \<Rightarrow> disk \<Rightarrow> bool" where
  "replacing target bytes d0 d \<longleftrightarrow>
     disk_ok d \<and>
     (\<forall>k. k \<noteq> entry_key (temp_path target) \<longrightarrow>
        crash_values d k \<subseteq> crash_values d0 k \<union> (if k = entry_key target then {Some bytes} else {}) \<and>
        (file_at d k = file_at d0 k \<or> k = entry_key target \<and> file_at d k = Some bytes))"

lemma replacingI:
  "disk_ok d \<Longrightarrow> (\<And>k. k \<noteq> entry_key (temp_path target) \<Longrightarrow> crash_values d k \<subseteq> crash_values d0 k \<union> (if k = entry_key target then {Some bytes} else {})) \<Longrightarrow>
   (\<And>k. k \<noteq> entry_key (temp_path target) \<Longrightarrow> file_at d k = file_at d0 k \<or> k = entry_key target \<and> file_at d k = Some bytes) \<Longrightarrow> replacing target bytes d0 d"
  unfolding replacing_def by blast

lemma replacingD:
  assumes "replacing target bytes d0 d"
  shows "disk_ok d" "k \<noteq> entry_key (temp_path target) \<Longrightarrow> crash_values d k \<subseteq> crash_values d0 k \<union> (if k = entry_key target then {Some bytes} else {})"
    "k \<noteq> entry_key (temp_path target) \<Longrightarrow> file_at d k = file_at d0 k \<or> k = entry_key target \<and> file_at d k = Some bytes"
  using assms unfolding replacing_def by blast+

lemma replacing_refl: "disk_ok d \<Longrightarrow> replacing target bytes d d"
  by (simp add: replacing_def)

lemma temp_key: "entry_key (temp_path target) = (parent_dir target, snd target @ ''.tmp'')" "is_temp (entry_key (temp_path target))"
  "entry_key (temp_path target) \<noteq> entry_key target"
  by (auto simp: entry_key_def temp_path_def parent_dir_def is_temp_def)

lemma replacing_only_inode:
  assumes "replacing target bytes d0 d" "dk_entry d (entry_key (temp_path target)) = Some i" "only_inode i d d'"
  shows "replacing target bytes d0 d'"
proof -
  have ok: "disk_ok d" using assms(1) by (simp add: replacing_def)
  have "crash_values d' k = crash_values d k \<and> file_at d' k = file_at d k" if "k \<noteq> entry_key (temp_path target)" for k
    using crash_only_inode [OF assms(3), of k] disk_okD(1,3) [OF ok] that assms(2) temp_key(2) by blast
  then show ?thesis using assms(1) disk_ok_only_inode [OF ok assms(3)] by (simp add: replacing_def)
qed

lemma replacing_remove: "replacing target bytes d0 d \<Longrightarrow> replacing target bytes d0 (bind_entry (entry_key (temp_path target)) None d)"
  unfolding replacing_def by (simp add: disk_ok_remove crash_bind_entry)

lemma replacing_sync:
  assumes "replacing target bytes d0 d"
  shows "replacing target bytes d0 (sync_entries dir d)"
proof (rule replacingI)
  note R = replacingD [OF assms]
  fix k assume k: "k \<noteq> entry_key (temp_path target)"
  show "crash_values (sync_entries dir d) k \<subseteq> crash_values d0 k \<union> (if k = entry_key target then {Some bytes} else {})"
    by (rule order_trans [OF _ R(2) [OF k]]) (simp add: crash_sync_entries current_crash_value [OF R(1)])
  show "file_at (sync_entries dir d) k = file_at d0 k \<or> k = entry_key target \<and> file_at (sync_entries dir d) k = Some bytes"
    using R(3) [OF k] by (simp add: crash_sync_entries)
qed (simp add: disk_ok_sync replacingD(1) [OF assms])

lemma disk_okI:
  "(\<And>k. dk_entry d k \<in> set (dk_stable d k)) \<Longrightarrow> (\<And>k i. Some i \<in> set (dk_stable d k) \<Longrightarrow> i < dk_next d) \<Longrightarrow>
   (\<And>t k i. is_temp t \<Longrightarrow> dk_entry d t = Some i \<Longrightarrow> k \<noteq> t \<Longrightarrow> Some i \<notin> set (dk_stable d k)) \<Longrightarrow> disk_ok d"
  unfolding disk_ok_def by blast

lemma disk_ok_bind_entry:
  assumes ok: "disk_ok d" and i: "i < dk_next d" "\<And>t. t \<noteq> k \<Longrightarrow> dk_entry d t \<noteq> Some i" "\<And>k'. is_temp k \<Longrightarrow> k' \<noteq> k \<Longrightarrow> Some i \<notin> set (dk_stable d k')"
  shows "disk_ok (bind_entry k (Some i) d)"
proof (rule disk_okI)
  note D = disk_okD [OF ok]
  fix k' j t
  show "dk_entry (bind_entry k (Some i) d) k' \<in> set (dk_stable (bind_entry k (Some i) d) k')" using D(1) [of k'] by (simp add: bind_entry_def)
  show "j < dk_next (bind_entry k (Some i) d)" if "Some j \<in> set (dk_stable (bind_entry k (Some i) d) k')"
    using that D(2) [of j k'] i(1) by (auto simp: bind_entry_def split: if_splits)
  show "Some j \<notin> set (dk_stable (bind_entry k (Some i) d) k')" if "is_temp t" "dk_entry (bind_entry k (Some i) d) t = Some j" "k' \<noteq> t"
    using that D(3) [of t j k'] i(2) [of t] i(3) by (auto simp: bind_entry_def split: if_splits)
qed

lemma bind_entry_swap: "k \<noteq> k' \<Longrightarrow> bind_entry k v (bind_entry k' v' d) = bind_entry k' v' (bind_entry k v d)"
  by (simp add: bind_entry_def fun_upd_twist)

lemma replacing_rename:
  assumes r: "replacing target bytes d0 d" and i: "dk_entry d (entry_key (temp_path target)) = Some i" "dk_synced d i" "dk_data d i = bytes"
    and n: "\<not> is_temp target"
  shows "replacing target bytes d0 (bind_entry (entry_key (temp_path target)) None (bind_entry (entry_key target) (Some i) d))"
proof -
  let ?T = "entry_key (temp_path target)" and ?K = "entry_key target"
  have ok: "disk_ok d" using r by (simp add: replacing_def)
  have nt: "\<not> is_temp ?K" using n by (simp add: is_temp_def entry_key_def)
  have "dk_entry d t \<noteq> Some i" if "t \<noteq> ?T" for t using disk_okD(1) [OF ok, of t] disk_okD(3) [OF ok temp_key(2) i(1) that] by auto
  then have "dk_entry (bind_entry ?T None d) t \<noteq> Some i" for t by (simp add: bind_entry_def)
  moreover have "i < dk_next (bind_entry ?T None d)" using disk_okD(1) [OF ok, of ?T] disk_okD(2) [OF ok, of i ?T] i(1) by (simp add: bind_entry_def)
  ultimately have "disk_ok (bind_entry ?K (Some i) (bind_entry ?T None d))" using nt by (intro disk_ok_bind_entry disk_ok_remove [OF ok]) simp_all
  then have "disk_ok (bind_entry ?T None (bind_entry ?K (Some i) d))" using bind_entry_swap [OF temp_key(3)] by metis
  then show ?thesis
  proof (rule replacingI)
    fix k assume k: "k \<noteq> ?T"
    show "crash_values (bind_entry ?T None (bind_entry ?K (Some i) d)) k \<subseteq> crash_values d0 k \<union> (if k = ?K then {Some bytes} else {})"
      using replacingD(2) [OF r k] i(2,3) k by (simp add: crash_bind_entry)
    show "file_at (bind_entry ?T None (bind_entry ?K (Some i) d)) k = file_at d0 k \<or> k = ?K \<and> file_at (bind_entry ?T None (bind_entry ?K (Some i) d)) k = Some bytes"
      using replacingD(3) [OF r k] i(3) k by (auto simp: crash_bind_entry)
  qed
qed

lemma replacing_open:
  assumes "disk_ok d0" "open_entry (entry_key (temp_path target)) d0 = (i, d1)"
  shows "replacing target bytes d0 d1" "dk_entry d1 (entry_key (temp_path target)) = Some i" "dk_data d1 i = []"
proof -
  let ?T = "entry_key (temp_path target)"
  have "replacing target bytes d0 d1 \<and> dk_entry d1 ?T = Some i \<and> dk_data d1 i = []"
  proof (cases "dk_entry d0 ?T")
    case (Some j)
    then have d1: "d1 = set_data i [] d0" "dk_entry d0 ?T = Some i" using assms(2) by (auto simp: open_entry_def)
    then show ?thesis using replacing_only_inode [OF replacing_refl [OF assms(1)] d1(2) only_inode_data(1), of bytes "[]"] by (simp add: set_data_def)
  next
    case None
    let ?d = "bind_entry ?T (Some (dk_next d0)) (d0\<lparr>dk_next := Suc (dk_next d0)\<rparr>)"
    have d1: "i = dk_next d0" "d1 = set_data i [] ?d" using assms(2) None by (auto simp: open_entry_def)
    note D = disk_okD [OF assms(1)]
    have fresh: "Some (dk_next d0) \<notin> set (dk_stable d0 k)" for k using D(2) by blast
    have "dk_entry d0 t \<noteq> Some (dk_next d0)" for t using D(1) [of t] fresh [of t] by auto
    moreover have "disk_ok (d0\<lparr>dk_next := Suc (dk_next d0)\<rparr>)" using D(1,2,3) by (intro disk_okI) (auto intro: less_SucI)
    ultimately have "disk_ok ?d" using fresh by (intro disk_ok_bind_entry) simp_all
    moreover have "crash_values ?d k = crash_values d0 k \<and> file_at ?d k = file_at d0 k" if "k \<noteq> ?T" for k
    proof -
      have "crash_values (d0\<lparr>dk_next := Suc (dk_next d0)\<rparr>) k = crash_values d0 k" "file_at (d0\<lparr>dk_next := Suc (dk_next d0)\<rparr>) k = file_at d0 k"
        using entry_values_cong [of "d0\<lparr>dk_next := Suc (dk_next d0)\<rparr>" d0] by (simp_all add: crash_values_def file_at_def)
      then show ?thesis using that by (simp add: crash_bind_entry)
    qed
    ultimately have "replacing target bytes d0 ?d" by (intro replacingI) simp_all
    moreover have "dk_entry ?d ?T = Some (dk_next d0)" by (simp add: bind_entry_def)
    ultimately show ?thesis using replacing_only_inode [OF _ _ only_inode_data(1)] unfolding d1 by (simp add: set_data_def)
  qed
  then show "replacing target bytes d0 d1" "dk_entry d1 ?T = Some i" "dk_data d1 i = []" by simp_all
qed

subsection \<open>The steps\<close>

lemma fault_check_same:
  "fault_check step w = (st, w') \<Longrightarrow> wd_disk w' = wd_disk w \<and> wd_history w' = wd_history w \<and> wd_fds w' = wd_fds w"
  by (auto simp: fault_check_def Let_def split: if_splits)

lemma remove_temp_replacing: "stays (replacing target bytes d0) w (remove_temp target w)"
proof -
  obtain e w0 where e: "next_event w = (e, w0)" by fastforce
  note same = next_event_same [OF e]
  let ?T = "entry_key (temp_path target)"
  have "remove_temp target w = w0 \<or> remove_temp target w = set_disk (bind_entry ?T None (wd_disk w0)) w0"
    by (cases "fault e") (simp_all add: remove_temp_def fs_remove_def e)
  then show ?thesis
  proof
    assume "remove_temp target w = set_disk (bind_entry ?T None (wd_disk w0)) w0"
    then show ?thesis using same by (intro stays_set_disk [of _ _ "bind_entry ?T None (wd_disk w0)"]) (simp_all add: set_disk_def replacing_remove)
  qed (simp add: stays_same same)
qed

lemma sync_directory_effect:
  assumes "sync_directory dir w = (st, w')"
  shows "stays (replacing target bytes d0) w w'" "status_ok st \<Longrightarrow> wd_disk w' = sync_entries dir (wd_disk w)"
proof -
  obtain e1 w1 e2 w2 e3 w3 where e: "next_event w = (e1, w1)" "next_event w1 = (e2, w2)" by (metis prod.exhaust)
  note same = next_event_same [OF e(1)] next_event_same [OF e(2)]
  have "stays (replacing target bytes d0) w w' \<and> (status_ok st \<longrightarrow> wd_disk w' = sync_entries dir (wd_disk w))"
  proof (cases "fault e1 = None \<and> fault e2 = None")
    case True
    let ?w = "set_disk (sync_entries dir (wd_disk w2)) w2"
    obtain e3 w3 where e3: "next_event ?w = (e3, w3)" by fastforce
    have "w' = w3" using assms True by (simp add: sync_directory_def sys_touch_def sys_fsync_dir_def e e3)
    moreover have "stays (replacing target bytes d0) w w3"
      using next_event_same [OF e3] same by (intro stays_set_disk [of _ _ "sync_entries dir (wd_disk w2)"]) (simp_all add: set_disk_def replacing_sync)
    ultimately show ?thesis using next_event_same [OF e3] same by (simp add: set_disk_def)
  next
    case False
    then have "\<not> status_ok st \<and> wd_disk w' = wd_disk w \<and> wd_history w' = wd_history w"
    proof (cases "fault e1")
      case None
      obtain e3 w3 where e3: "next_event w2 = (e3, w3)" by fastforce
      then show ?thesis using assms None False same next_event_same [OF e3] by (auto simp: sync_directory_def sys_touch_def sys_fsync_dir_def e)
    qed (use assms same in \<open>auto simp: sync_directory_def sys_touch_def e\<close>)
    then show ?thesis by (simp add: stays_same)
  qed
  then show "stays (replacing target bytes d0) w w'" "status_ok st \<Longrightarrow> wd_disk w' = sync_entries dir (wd_disk w)" by simp_all
qed

lemma rename_effect:
  assumes "rename_replace (temp_path target) target w = (st, w')"
  shows "status_ok st \<Longrightarrow> \<exists>i. dk_entry (wd_disk w) (entry_key (temp_path target)) = Some i \<and>
      wd_disk w' = bind_entry (entry_key (temp_path target)) None (bind_entry (entry_key target) (Some i) (wd_disk w)) \<and> wd_history w' = wd_history w @ [wd_disk w']"
    "\<not> status_ok st \<Longrightarrow> wd_disk w' = wd_disk w \<and> wd_history w' = wd_history w"
proof -
  obtain e w0 where e: "next_event w = (e, w0)" by fastforce
  note same = next_event_same [OF e]
  show "\<exists>i. dk_entry (wd_disk w) (entry_key (temp_path target)) = Some i \<and>
      wd_disk w' = bind_entry (entry_key (temp_path target)) None (bind_entry (entry_key target) (Some i) (wd_disk w)) \<and> wd_history w' = wd_history w @ [wd_disk w']" if "status_ok st"
    using assms that same temp_key(3) [of target]
    by (cases "fault e"; cases "dk_entry (wd_disk w0) (entry_key (temp_path target))") (auto simp: rename_replace_def sys_rename_def e set_disk_def)
  show "wd_disk w' = wd_disk w \<and> wd_history w' = wd_history w" if "\<not> status_ok st"
    using assms that same temp_key(3) [of target]
    by (cases "fault e"; cases "dk_entry (wd_disk w0) (entry_key (temp_path target))") (auto simp: rename_replace_def sys_rename_def e set_disk_def)
qed

definition published :: "path \<Rightarrow> u8 list \<Rightarrow> disk \<Rightarrow> bool" where
  "published target bytes d \<longleftrightarrow> crash_values d (entry_key target) = {Some bytes} \<and> file_at d (entry_key target) = Some bytes"

lemma publish_safe:
  assumes p: "publish_temp target w = (st, w')" and r: "replacing target bytes d0 (wd_disk w)"
    and i: "dk_entry (wd_disk w) (entry_key (temp_path target)) = Some i" "dk_synced (wd_disk w) i" "dk_data (wd_disk w) i = bytes"
    and n: "\<not> is_temp target"
  shows "stays (replacing target bytes d0) w w'" "status_ok st \<Longrightarrow> published target bytes (wd_disk w')"
proof -
  let ?R = "replacing target bytes d0" and ?T = "entry_key (temp_path target)" and ?K = "entry_key target"
  obtain st1 w1 where c1: "fault_check TempSynced w = (st1, w1)" by fastforce
  obtain st2 w2 where c2: "rename_replace (temp_path target) target w1 = (st2, w2)" by fastforce
  obtain st3 w3 where c3: "fault_check Renamed w2 = (st3, w3)" by fastforce
  obtain st4 w4 where c4: "sync_directory (parent_dir target) w3 = (st4, w4)" by fastforce
  obtain st5 w5 where c5: "fault_check DirectorySynced w4 = (st5, w5)" by fastforce
  note S = fault_check_same [OF c1] fault_check_same [OF c3] fault_check_same [OF c5]
  have s1: "stays ?R w w1" "stays ?R w2 w3" "stays ?R w4 w5" using S by (simp_all add: stays_same)
  have s2: "stays ?R w1 w2"
  proof (cases "status_ok st2")
    case True
    obtain j where j: "dk_entry (wd_disk w1) ?T = Some j" "wd_disk w2 = bind_entry ?T None (bind_entry ?K (Some j) (wd_disk w1))" "wd_history w2 = wd_history w1 @ [wd_disk w2]"
      using rename_effect(1) [OF c2 True] by blast
    then have "j = i" "?R (wd_disk w2)" using i S replacing_rename [OF r i n] by simp_all
    then show ?thesis using j(3) by (intro stays_set_disk) simp_all
  qed (use rename_effect(2) [OF c2] in \<open>simp add: stays_same\<close>)
  have s4: "stays ?R w3 w4" by (rule sync_directory_effect(1) [OF c4])
  have t: "stays ?R w w2" "stays ?R w w3" "stays ?R w w4" "stays ?R w w5" "stays ?R w (remove_temp target w2)"
  proof -
    show w2: "stays ?R w w2" by (rule stays_trans [OF s1(1) s2])
    show w3: "stays ?R w w3" by (rule stays_trans [OF w2 s1(2)])
    show w4: "stays ?R w w4" by (rule stays_trans [OF w3 s4])
    show "stays ?R w w5" by (rule stays_trans [OF w4 s1(3)])
    show "stays ?R w (remove_temp target w2)" by (rule stays_trans [OF w2 remove_temp_replacing])
  qed
  show "stays ?R w w'" using p s1(1) t by (simp add: publish_temp_def c1 c2 c3 c4 c5 split: if_splits)
  show "published target bytes (wd_disk w')" if "status_ok st"
  proof -
    have ok: "status_ok st2" "status_ok st4" "w' = w5" using p that by (auto simp: publish_temp_def c1 c2 c3 c4 c5 split: if_splits)
    have d: "wd_disk w' = sync_entries (parent_dir target) (bind_entry ?T None (bind_entry ?K (Some i) (wd_disk w)))"
      using rename_effect(1) [OF c2 ok(1)] sync_directory_effect(2) [OF c4 ok(2)] S i(1) ok(3) by auto
    have "dk_entry (bind_entry ?T None (bind_entry ?K (Some i) (wd_disk w))) ?K = Some i" using temp_key(3) [of target] by (simp add: bind_entry_def)
    moreover have "fst ?K = parent_dir target" by (simp add: entry_key_def)
    moreover have "file_at (bind_entry ?T None (bind_entry ?K (Some i) (wd_disk w))) ?K = Some bytes" using temp_key(3) [of target] i(3) by (simp add: crash_bind_entry)
    ultimately show ?thesis using i(2,3) unfolding published_def d crash_sync_entries by (simp add: bind_entry_def)
  qed
qed

lemma create_effect:
  assumes "out_create mem p w = (r, w1)"
  shows "(\<exists>st. r = Returned (Inl st) \<and> \<not> status_ok st) \<and> wd_disk w1 = wd_disk w \<and> wd_history w1 = wd_history w \<or>
    (\<exists>fd i. open_entry (entry_key p) (wd_disk w) = (i, wd_disk w1) \<and> wd_history w1 = wd_history w @ [wd_disk w1] \<and> wd_fds w1 fd = Some (i, 0) \<and>
       (r = Thrown \<or> r = Returned (Inr \<lparr>of_path = p, of_handle = Some fd, of_buffer = [], of_written = 0\<rparr>)))"
proof -
  obtain e w0 where e: "next_event w = (e, w0)" by fastforce
  note same = next_event_same [OF e]
  obtain i d where o: "open_entry (entry_key p) (wd_disk w) = (i, d)" by fastforce
  show ?thesis
  proof (cases "fault e")
    case (Some t)
    then show ?thesis using assms same by (auto simp: out_create_def create_truncate_def sys_open_def e)
  next
    case None
    have c: "create_truncate p w = (Inr (Some (wd_next_fd w0)), (set_disk d w0)\<lparr>wd_fds := (wd_fds w0)(wd_next_fd w0 \<mapsto> (i, 0)), wd_next_fd := Suc (wd_next_fd w0)\<rparr>)"
      using o same by (simp add: create_truncate_def sys_open_def e None)
    show ?thesis using assms same o
      by (intro disjI2 exI [of _ "wd_next_fd w0"] exI [of _ i]) (auto simp: out_create_def c set_disk_def split: if_splits)
  qed
qed

subsection \<open>The whole replacement\<close>

locale contents_writer =
  fixes write_contents :: "file_state \<Rightarrow> status outcome \<times> file_state" and bytes :: "u8 list"
  assumes contents_keep: "sink_invariant file_sink P \<Longrightarrow> P s \<Longrightarrow> P (snd (write_contents s))"
    and contents_written: "write_contents s = (Returned st, s') \<Longrightarrow> status_ok st \<Longrightarrow> file_contents s = [] \<Longrightarrow> file_contents s' = bytes"
begin

lemma written_safe:
  assumes w1: "replacing target bytes d0 (wd_disk w1)" "dk_entry (wd_disk w1) (entry_key (temp_path target)) = Some i"
    and wr: "writing fd i w1 s" and c: "file_contents s = bytes" and n: "\<not> is_temp target"
    and run: "fault_check TempWritten (snd s) = (st3, w3)" "status_ok st3" "out_sync (fst s, w3) = (st4, s4)" "status_ok st4"
      "out_close s4 = (st5, s5)" "status_ok st5" "publish_temp target (snd s5) = (st6, w6)"
  shows "stays (replacing target bytes d0) w1 w6" "status_ok st6 \<Longrightarrow> published target bytes (wd_disk w6)"
proof -
  let ?R = "replacing target bytes d0"
  have w3: "writing fd i w1 (fst s, w3)"
    using writing_same [of fd i w1 "fst s" "snd s" "fst s" w3] wr fault_check_same [OF run(1)] by simp
  have "file_contents (fst s, w3) = bytes"
    using c fault_check_same [OF run(1)] by (cases s; cases "of_handle (fst s)") (auto simp: file_contents_def handed_pair descriptor_def split: option.splits)
  then have s4: "writing fd i w1 s4" "dk_synced (wd_disk (snd s4)) i" "dk_data (wd_disk (snd s4)) i = bytes" "of_buffer (fst s4) = []"
    using sync_writing [OF w3 run(3)] run(4) by simp_all
  have s5: "stays (only_inode i (wd_disk w1)) w1 (snd s5)" "wd_disk (snd s5) = wd_disk (snd s4)"
    using close_writing [OF s4(1)] s4(4) run(5) by simp_all
  have only: "?R d \<and> dk_entry d (entry_key (temp_path target)) = Some i" if "only_inode i (wd_disk w1) d" for d
    using replacing_only_inode [OF w1 that] that w1(2) by (simp add: only_inode_def)
  have "only_inode i (wd_disk w1) (wd_disk (snd s5))" using s5(1) by (simp add: stays_def)
  note P = publish_safe [OF run(7), of bytes d0 i] only [OF this] s4(2,3) s5(2) n
  have "stays ?R w1 (snd s5)" by (rule stays_weaken [OF s5(1)]) (use only in auto)
  then show "stays ?R w1 w6" using P by (auto intro: stays_trans)
  show "published target bytes (wd_disk w6)" if "status_ok st6" using P that by auto
qed

lemma opened_safe:
  assumes o: "open_entry (entry_key (temp_path target)) (wd_disk w) = (i, wd_disk w1)" "wd_history w1 = wd_history w @ [wd_disk w1]" "wd_fds w1 fd = Some (i, 0)"
    and ok: "disk_ok (wd_disk w)" and n: "\<not> is_temp target"
    and out: "out = \<lparr>of_path = temp_path target, of_handle = Some fd, of_buffer = [], of_written = 0\<rparr>"
    and c: "out_create mem (temp_path target) w = (Returned (Inr out), w1)" and run: "write_atomic mem target write_contents w = (r, w')"
  shows "stays (replacing target bytes (wd_disk w)) w1 w'" "r = Returned st \<Longrightarrow> status_ok st \<Longrightarrow> published target bytes (wd_disk w')"
proof -
  let ?R = "replacing target bytes (wd_disk w)"
  note O = replacing_open(1) [OF ok o(1), of bytes] replacing_open(2,3) [OF ok o(1)]
  have "stays ?R w1 w' \<and> (\<forall>st. r = Returned st \<longrightarrow> status_ok st \<longrightarrow> published target bytes (wd_disk w'))"
  proof -
    have w1: "writing fd i w1 (out, w1)" "file_contents (out, w1) = []" using o(3) O(3) by (simp_all add: writing_def out file_contents_def handed_pair descriptor_def)
    obtain r2 f2 w2 where wc: "write_contents (out, w1) = (r2, (f2, w2))" by (metis prod.exhaust)
    have s2: "writing fd i w1 (f2, w2)" using contents_keep [OF writing.sink_invariant_axioms w1(1)] by (simp add: wc)
    have only: "stays ?R w1 x" if "stays (only_inode i (wd_disk w1)) w1 x" for x
      by (rule stays_weaken [OF that]) (use replacing_only_inode [OF O(1,2)] in auto)
    have closed: "stays ?R w1 x" "stays ?R w1 (remove_temp target x)" if "writing fd i w1 s" "x = snd (snd (out_close s)) \<or> x = snd s \<or> x = out_destroy s" for s x
    proof -
      have "wd_disk (out_destroy s) = wd_disk (snd s)" "wd_history (out_destroy s) = wd_history (snd s)" by (simp_all add: out_destroy_def native_close_same)
      then have "stays (only_inode i (wd_disk w1)) w1 x" using that close_writing(1) [OF that(1)] by (auto simp: writing_def stays_def)
      then show "stays ?R w1 x" by (rule only)
      then show "stays ?R w1 (remove_temp target x)" by (rule stays_trans [OF _ remove_temp_replacing])
    qed
    show ?thesis
    proof (cases "\<exists>st2. r2 = Returned st2 \<and> status_ok st2")
      case False
      then have r': "r2 = Thrown \<and> r = Thrown \<and> w' = out_destroy (f2, w2) \<or> r2 = Aborted \<and> r = Aborted \<and> w' = w2 \<or>
          (\<exists>st. r = Returned st \<and> \<not> status_ok st \<and> w' = remove_temp target (snd (snd (out_close (f2, w2)))))"
        using run by (cases r2) (auto simp: write_atomic_def c wc)
      then show ?thesis using closed [OF s2] by auto
    next
      case True
      then obtain st2 where st2: "r2 = Returned st2" "status_ok st2" by blast
      have bytes: "file_contents (f2, w2) = bytes" using contents_written [OF _ st2(2) w1(2)] wc st2(1) by simp
      obtain st3 w3 where c3: "fault_check TempWritten w2 = (st3, w3)" by fastforce
      obtain st4 s4 where c4: "out_sync (f2, w3) = (st4, s4)" by (metis prod.exhaust)
      obtain st5 s5 where c5: "out_close s4 = (st5, s5)" by (metis prod.exhaust)
      obtain st6 w6 where c6: "publish_temp target (snd s5) = (st6, w6)" by fastforce
      have s3: "writing fd i w1 (f2, w3)" by (rule writing_same [OF s2]) (simp_all add: fault_check_same [OF c3])
      have s4: "writing fd i w1 s4" by (rule sync_writing(1) [OF s3 c4])
      have run': "(r, w') = (if \<not> status_ok st3 then (Returned st3, out_destroy (f2, w3)) else if \<not> status_ok st4 then (Returned st4, remove_temp target (snd (snd (out_close s4))))
          else if \<not> status_ok st5 then (Returned st5, remove_temp target (snd s5)) else (Returned st6, w6))"
        using run st2 by (simp add: write_atomic_def c wc c3 c4 c5 c6 split: if_splits)
      show ?thesis
      proof (cases "status_ok st3 \<and> status_ok st4 \<and> status_ok st5")
        case True
        then show ?thesis using written_safe [OF O(1,2) s2 bytes n, unfolded snd_conv fst_conv, OF c3 _ c4 _ c5 _ c6] run' by simp
      next
        case False
        then show ?thesis using run' closed [OF s3] closed [OF s4] c5 by (auto split: if_splits)
      qed
    qed
  qed
  then show "stays ?R w1 w'" "r = Returned st \<Longrightarrow> status_ok st \<Longrightarrow> published target bytes (wd_disk w')" by simp_all
qed

lemma write_atomic_safe:
  assumes ok: "disk_ok (wd_disk w)" and n: "\<not> is_temp target" and run: "write_atomic mem target write_contents w = (r, w')"
  shows "stays (replacing target bytes (wd_disk w)) w w'" "r = Returned st \<Longrightarrow> status_ok st \<Longrightarrow> published target bytes (wd_disk w')"
proof -
  let ?R = "replacing target bytes (wd_disk w)" and ?T = "entry_key (temp_path target)"
  obtain r1 w1 where c: "out_create mem (temp_path target) w = (r1, w1)" by fastforce
  have "stays ?R w w' \<and> (\<forall>st. r = Returned st \<longrightarrow> status_ok st \<longrightarrow> published target bytes (wd_disk w'))"
  proof (cases "\<exists>st. r1 = Returned (Inl st)")
    case True
    then show ?thesis using create_effect [OF c] run by (auto simp: write_atomic_def c stays_same)
  next
    case False
    then obtain fd i where o: "open_entry ?T (wd_disk w) = (i, wd_disk w1)" "wd_history w1 = wd_history w @ [wd_disk w1]" "wd_fds w1 fd = Some (i, 0)"
      "r1 = Thrown \<or> r1 = Returned (Inr \<lparr>of_path = temp_path target, of_handle = Some fd, of_buffer = [], of_written = 0\<rparr>)"
      using create_effect [OF c] by blast
    have w1: "stays ?R w w1" using replacing_open(1) [OF ok o(1)] o(2) by (intro stays_set_disk) simp_all
    show ?thesis
    proof (cases "r1 = Thrown")
      case True
      then show ?thesis using w1 run by (simp add: write_atomic_def c)
    next
      case False
      then show ?thesis using o(4) opened_safe [OF o(1-3) ok n refl _ run] c stays_trans [OF w1] by blast
    qed
  qed
  then show "stays ?R w w'" "r = Returned st \<Longrightarrow> status_ok st \<Longrightarrow> published target bytes (wd_disk w')" by simp_all
qed

lemma sync_calm:
  assumes "calm_file s"
  shows "\<exists>s'. out_sync s = (ok_status, s') \<and> calm_file s' \<and> of_handle (fst s') \<noteq> kInvalidHandle"
proof -
  obtain f w where fl: "out_flush s = (ok_status, (f, w))" "calm_file (f, w)" using calm_flush [OF assms] by auto
  then obtain i where i: "calm w" "descriptor w (of_handle f) = Some (i, of_written f)" by (auto simp: calm_file_def)
  let ?w = "set_disk ((wd_disk w)\<lparr>dk_synced := (dk_synced (wd_disk w))(i := True)\<rparr>) w"
  have "out_sync s = (ok_status, (f, ?w))" using fl i by (simp add: out_sync_def native_sync_def sys_fsync_def)
  moreover have "descriptor ?w (of_handle f) = descriptor w (of_handle f)" by (cases "of_handle f") (simp_all add: descriptor_def set_disk_def)
  ultimately show ?thesis using i fl(2) calm_open [OF fl(2)] by (simp add: calm_file_def)
qed

lemma close_calm:
  assumes "calm_file s"
  shows "\<exists>s'. out_close s = (ok_status, s') \<and> calm (snd s')"
proof -
  obtain f w where fl: "out_flush s = (ok_status, (f, w))" "calm_file (f, w)" using calm_flush [OF assms] by auto
  obtain fd where fd: "of_handle f = Some fd" using calm_open [OF fl(2)] by (auto simp: kInvalidHandle_def)
  show ?thesis using fl fd calm_open [OF assms] by (simp add: out_close_def native_close_def sys_close_def calm_file_def)
qed

lemma publish_calm:
  assumes "calm w" "dk_entry (wd_disk w) (entry_key (temp_path target)) = Some i"
  shows "\<exists>w'. publish_temp target w = (ok_status, w') \<and> calm w'"
  using assms temp_key(3) [of target] by (simp add: publish_temp_def rename_replace_def sys_rename_def sync_directory_def sys_touch_def sys_fsync_dir_def)

lemma write_atomic_succeeds:
  assumes ok: "disk_ok (wd_disk w)" and n: "\<not> is_temp target" and w: "calm w"
    and wc: "\<And>s. calm_file s \<Longrightarrow> file_contents s = [] \<Longrightarrow> \<exists>st s'. write_contents s = (Returned st, s') \<and> status_ok st"
  shows "\<exists>w'. write_atomic True target write_contents w = (Returned ok_status, w') \<and> calm w'"
proof -
  let ?T = "entry_key (temp_path target)"
  obtain r1 w1 where c: "out_create True (temp_path target) w = (r1, w1)" by fastforce
  obtain i where cr: "r1 = Returned (Inr \<lparr>of_path = temp_path target, of_handle = Some (wd_next_fd w), of_buffer = [], of_written = 0\<rparr>)" "calm w1"
    "wd_fds w1 (wd_next_fd w) = Some (i, 0)" "open_entry ?T (wd_disk w) = (i, wd_disk w1)"
    using c w by (auto simp: out_create_def create_truncate_def sys_open_def set_disk_def [of _ w] calm_def split: prod.splits)
  define out where "out = \<lparr>of_path = temp_path target, of_handle = Some (wd_next_fd w), of_buffer = [], of_written = 0\<rparr>"
  note O = replacing_open(2,3) [OF ok cr(4)]
  have w1: "writing (wd_next_fd w) i w1 (out, w1)" "file_contents (out, w1) = []" "calm_file (out, w1)"
    using cr O(2) by (simp_all add: writing_def out_def file_contents_def handed_pair descriptor_def calm_file_def)
  obtain st2 s2 where s2: "write_contents (out, w1) = (Returned st2, s2)" "status_ok st2" using wc [OF w1(3,2)] by blast
  have k2: "writing (wd_next_fd w) i w1 s2" "calm_file s2"
    using contents_keep [OF writing.sink_invariant_axioms w1(1)] contents_keep [OF out.sink_invariant_axioms w1(3)] s2(1) by simp_all
  have f2: "fault_check TempWritten (snd s2) = (ok_status, snd s2)" using k2(2) by (simp add: calm_file_def)
  obtain s4 where s4: "out_sync s2 = (ok_status, s4)" "calm_file s4" using sync_calm [OF k2(2)] by blast
  have k4: "writing (wd_next_fd w) i w1 s4" by (rule sync_writing(1) [OF k2(1) s4(1)])
  obtain s5 where s5: "out_close s4 = (ok_status, s5)" "calm (snd s5)" using close_calm [OF s4(2)] by blast
  have "stays (only_inode i (wd_disk w1)) w1 (snd s5)" using close_writing(1) [OF k4] s5(1) by simp
  then have "dk_entry (wd_disk (snd s5)) ?T = Some i" using O(1) by (simp add: stays_def only_inode_def)
  then obtain w6 where "publish_temp target (snd s5) = (ok_status, w6)" "calm w6" using publish_calm [OF s5(2)] by blast
  then show ?thesis using c cr(1) s2 f2 s4(1) s5(1) by (simp add: write_atomic_def out_def [symmetric])
qed

end

subsection \<open>Saving a collection, and small text files\<close>

definition collection_save :: "bool \<Rightarrow> bool \<Rightarrow> collection_state \<Rightarrow> path \<Rightarrow> world \<Rightarrow> status outcome \<times> world" where
  "collection_save mem index_mem s p w = write_atomic mem p (write_index file_sink index_mem s) w"

lemma index_contents:
  assumes "savable s"
  shows "contents_writer (write_index file_sink mem s) (saved_file s)"
proof
  show "P (snd (write_index file_sink mem s x))" if "sink_invariant file_sink P" "P x" for P x
    by (rule sink_invariant.index_keeps [OF that])
  show "file_contents x' = saved_file s" if "write_index file_sink mem s x = (Returned st, x')" "status_ok st" "file_contents x = []" for x st x'
  proof -
    have "mem" using that(1) by (auto simp: write_index_def split: if_splits)
    moreover have "reach kHeaderSize (section_cells s (graph_of (cs_backend s))) < 2 ^ 62"
      using savable_well_made [OF assms] by (simp add: well_made_def cells_of_def)
    ultimately show ?thesis using out.write_index_exact [OF savable_writable [OF assms] that(3)] that(1,2) by (auto simp: saved_file_def cells_of_def)
  qed
qed

lemmas save_safe = contents_writer.write_atomic_safe [OF index_contents, folded collection_save_def]

definition string_bytes :: "string \<Rightarrow> u8 list" where
  "string_bytes t = map (\<lambda>c. word_of_nat (of_char c)) t"

definition bytes_string :: "u8 list \<Rightarrow> string" where
  "bytes_string bs = map (\<lambda>b. char_of (unat b)) bs"

definition text_contents :: "string \<Rightarrow> file_state \<Rightarrow> status outcome \<times> file_state" where
  "text_contents t s = (case out_write s (string_bytes t) of (st, s') \<Rightarrow> (Returned st, s'))"

definition write_text :: "bool \<Rightarrow> path \<Rightarrow> string \<Rightarrow> world \<Rightarrow> status outcome \<times> world" where
  "write_text mem p t w = write_atomic mem p (text_contents t) w"

interpretation lines: contents_writer "text_contents t" "string_bytes t" for t
proof
  show "P (snd (text_contents t s))" if "sink_invariant file_sink P" "P s" for P s
    using sink_invariant.write_keeps [OF that, of "string_bytes t"] by (auto simp: text_contents_def file_sink_def split: prod.splits)
  show "file_contents s' = string_bytes t" if "text_contents t s = (Returned st, s')" "status_ok st" "file_contents s = []" for s st s'
    using that out.write_law [of s "string_bytes t" st s'] by (simp add: text_contents_def file_sink_def split: prod.splits)
qed

lemmas write_text_safe = lines.write_atomic_safe [folded write_text_def]

lemma bytes_string_bytes [simp]: "bytes_string (string_bytes t) = t"
proof -
  have "char_of (unat (word_of_nat (of_char c) :: u8)) = c" for c :: char
    using nat_of_char_less_256 [of c] by (simp add: unat_of_nat take_bit_eq_mod)
  then show ?thesis by (simp add: bytes_string_def string_bytes_def comp_def)
qed

subsection \<open>Properties\<close>

text \<open>
  C11. Saving a collection replaces the file atomically, whatever system calls fail, are interrupted or
  write less than asked, whichever fault is injected and whichever allocation throws. At every moment
  during the save, after a crash the file is what it could have been before or holds the complete
  index file of the collection, and every file other than the temporary one is untouched. When the
  save succeeds, every later crash leaves the complete new file.
\<close>

theorem save_is_atomic:
  assumes "savable s" "disk_ok (wd_disk w)" "\<not> is_temp p" "collection_save mem index_mem s p w = (r, w')"
  shows "disk_ok (wd_disk w') \<and>
    (\<exists>ds. wd_history w' = wd_history w @ ds \<and>
      (\<forall>d\<in>set ds. \<forall>k. k \<noteq> entry_key (temp_path p) \<longrightarrow>
        crash_values d k \<subseteq> crash_values (wd_disk w) k \<union> (if k = entry_key p then {Some (saved_file s)} else {}) \<and>
        (file_at d k = file_at (wd_disk w) k \<or> k = entry_key p \<and> file_at d k = Some (saved_file s)))) \<and>
    (r = Returned st \<longrightarrow> status_ok st \<longrightarrow> crash_values (wd_disk w') (entry_key p) = {Some (saved_file s)} \<and> file_at (wd_disk w') (entry_key p) = Some (saved_file s))"
proof -
  note S = save_safe [OF assms]
  have "replacing p (saved_file s) (wd_disk w) (wd_disk w)" by (rule replacing_refl [OF assms(2)])
  then obtain ds where ds: "replacing p (saved_file s) (wd_disk w) (wd_disk w')" "wd_history w' = wd_history w @ ds" "\<forall>d\<in>set ds. replacing p (saved_file s) (wd_disk w) d"
    using S(1) unfolding stays_def by blast
  show ?thesis
  proof (intro conjI exI [of _ ds] ballI allI impI)
    show "disk_ok (wd_disk w')" by (rule replacingD(1) [OF ds(1)])
    fix d k assume d: "d \<in> set ds" and k: "k \<noteq> entry_key (temp_path p)"
    then have r: "replacing p (saved_file s) (wd_disk w) d" using ds(3) by blast
    show "crash_values d k \<subseteq> crash_values (wd_disk w) k \<union> (if k = entry_key p then {Some (saved_file s)} else {})"
      "file_at d k = file_at (wd_disk w) k \<or> k = entry_key p \<and> file_at d k = Some (saved_file s)"
      using replacingD(2,3) [OF r k] by simp_all
  qed (use ds(2) S(2) [of st] in \<open>auto simp: published_def\<close>)
qed

text \<open>Saving succeeds when no call fails.\<close>

lemma index_contents_succeed:
  assumes "savable s" "calm_file x" "file_contents x = []"
  shows "\<exists>st x'. write_index file_sink True s x = (Returned st, x') \<and> status_ok st"
proof -
  have "reach kHeaderSize (section_cells s (graph_of (cs_backend s))) < 2 ^ 62"
    using savable_well_made [OF assms(1)] by (simp add: well_made_def cells_of_def)
  then show ?thesis using out.write_index_succeeds [OF savable_writable [OF assms(1)] assms(3,2)] by blast
qed

lemma save_succeeds:
  assumes "savable s" "disk_ok (wd_disk w)" "\<not> is_temp p" "calm w"
  shows "\<exists>w'. collection_save True True s p w = (Returned ok_status, w') \<and> calm w'"
  unfolding collection_save_def
  by (rule contents_writer.write_atomic_succeeds [OF index_contents [OF assms(1)] assms(2-4)]) (rule index_contents_succeed [OF assms(1)])

lemma write_text_succeeds:
  assumes "disk_ok (wd_disk w)" "\<not> is_temp p" "calm w"
  shows "\<exists>w'. write_text True p t w = (Returned ok_status, w') \<and> calm w'"
proof -
  have "\<exists>st s'. text_contents t s = (Returned st, s') \<and> status_ok st" if "calm_file s" for s
    using calm_write [OF that, of "string_bytes t"] by (auto simp: text_contents_def)
  then show ?thesis unfolding write_text_def by (intro lines.write_atomic_succeeds [OF assms]) blast
qed

text \<open>A world whose system calls all succeed, with an empty disk.\<close>

definition empty_disk :: disk where
  "empty_disk = \<lparr>dk_entry = (\<lambda>_. None), dk_stable = (\<lambda>_. [None]), dk_data = (\<lambda>_. []), dk_synced = (\<lambda>_. False), dk_next = 0\<rparr>"

definition calm_world :: world where
  "calm_world = \<lparr>wd_disk = empty_disk, wd_fds = (\<lambda>_. None), wd_next_fd = 3, wd_events = [], wd_history = [], wd_remaining = kDisarmed, wd_fired = False\<rparr>"

lemma empty_disk_ok: "disk_ok empty_disk"
  by (simp add: disk_ok_def empty_disk_def)

theorem save_is_atomic_witness:
  "\<exists>s w'. savable s \<and> collection_save True True s ([], ''a.vfidx'') calm_world = (Returned ok_status, w') \<and>
     crash_values (wd_disk w') (''.'', ''a.vfidx'') = {Some (saved_file s)}"
proof -
  obtain s where s: "savable s" by (rule sample_savable)
  have w: "disk_ok (wd_disk calm_world)" "calm calm_world" "\<not> is_temp ([], ''a.vfidx'')"
    by (simp_all add: calm_world_def empty_disk_ok calm_def is_temp_def)
  obtain w' where w': "collection_save True True s ([], ''a.vfidx'') calm_world = (Returned ok_status, w')" using save_succeeds [OF s w(1,3,2)] by blast
  show ?thesis using save_is_atomic [OF s w(1,3) w', of ok_status] s w' by (auto simp: entry_key_def parent_dir_def)
qed

end
