(* ===== verification/VF_Manifest.thy ===== *)
theory VF_Manifest
  imports VF_Types VF_Status
begin

text \<open>
  The text files of a snapshot directory: the scanner for flat JSON objects
  (\<^verbatim>\<open>src/storage/flat_json.hpp\<close>), MANIFEST (\<^verbatim>\<open>src/collection/snapshot.cpp\<close>) and config.json
  (\<^verbatim>\<open>src/collection/catalog.cpp\<close>). A scanner is the unread rest of its text. Both parsers accept what
  the encoders write and give back the value; an accepted MANIFEST names exactly the file of its
  generation.
\<close>

subsection \<open>The scanner\<close>

type_synonym scanner = string

definition is_ws :: "char \<Rightarrow> bool" where
  "is_ws c \<longleftrightarrow> c = CHR '' '' \<or> c = CHR 0x0A \<or> c = CHR 0x0D \<or> c = CHR 0x09"

definition is_digit :: "char \<Rightarrow> bool" where
  "is_digit c \<longleftrightarrow> 48 \<le> (of_char c :: nat) \<and> (of_char c :: nat) \<le> 57"

definition skip_ws :: "scanner \<Rightarrow> scanner" where
  "skip_ws s = dropWhile is_ws s"

definition consume :: "char \<Rightarrow> scanner \<Rightarrow> bool \<times> scanner" where
  "consume c s = (case skip_ws s of [] \<Rightarrow> (False, []) | x # xs \<Rightarrow> if x = c then (True, xs) else (False, x # xs))"

definition scan_string :: "scanner \<Rightarrow> string option \<times> scanner" where
  "scan_string s =
     (case consume (CHR 0x22) s of
        (False, s1) \<Rightarrow> (None, s1)
      | (True, s1) \<Rightarrow>
          (let body = takeWhile (\<lambda>c. c \<noteq> CHR 0x22) s1; rest' = dropWhile (\<lambda>c. c \<noteq> CHR 0x22) s1
           in if rest' = [] then (None, s1) else if CHR 0x5C \<in> set body then (None, s1) else (Some body, tl rest')))"

text \<open>\<^verbatim>\<open>std::from_chars\<close> of an unsigned 64-bit integer: the longest run of digits, an error when it is out of range.\<close>

definition digits_value :: "string \<Rightarrow> nat" where
  "digits_value ds = foldl (\<lambda>v c. v * 10 + ((of_char c :: nat) - 48)) 0 ds"

definition from_chars :: "string \<Rightarrow> (nat \<times> string) option" where
  "from_chars s =
     (let ds = takeWhile is_digit s
      in if ds = [] \<or> digits_value ds > 2 ^ 64 - 1 then None else Some (digits_value ds, dropWhile is_digit s))"

definition scan_number :: "scanner \<Rightarrow> nat option \<times> scanner" where
  "scan_number s =
     (let s1 = skip_ws s
      in case s1 of
           [] \<Rightarrow> (None, s1)
         | c # cs \<Rightarrow> if \<not> is_digit c then (None, s1) else (case from_chars s1 of None \<Rightarrow> (None, s1) | Some (n, s2) \<Rightarrow> (Some n, s2)))"

definition scan_boolean :: "scanner \<Rightarrow> bool option \<times> scanner" where
  "scan_boolean s =
     (let s1 = skip_ws s
      in if take 4 s1 = ''true'' then (Some True, drop 4 s1) else if take 5 s1 = ''false'' then (Some False, drop 5 s1) else (None, s1))"

definition at_end :: "scanner \<Rightarrow> bool" where
  "at_end s \<longleftrightarrow> skip_ws s = []"

text \<open>No operation makes the text longer, and an accepted token makes it shorter.\<close>

lemma length_skip_ws: "length (skip_ws s) \<le> length s"
  by (simp add: skip_ws_def length_dropWhile_le)

lemma consume_shorter: "consume c s = (b, s') \<Longrightarrow> length s' + (if b then 1 else 0) \<le> length s"
  using length_skip_ws [of s] by (cases "skip_ws s") (auto simp: consume_def length_skip_ws split: if_splits)

lemma scan_string_shorter: "scan_string s = (r, s') \<Longrightarrow> length s' + (if r \<noteq> None then 1 else 0) \<le> length s"
proof -
  assume a: "scan_string s = (r, s')"
  obtain b s1 where c: "consume (CHR 0x22) s = (b, s1)" by fastforce
  show ?thesis using a consume_shorter [OF c] length_dropWhile_le [of "\<lambda>c. c \<noteq> CHR 0x22" s1]
    by (auto simp: scan_string_def c Let_def split: bool.splits if_splits)
qed

lemma scan_number_shorter: "scan_number s = (r, s') \<Longrightarrow> length s' \<le> length s"
  using length_skip_ws [of s] length_dropWhile_le [of is_digit "skip_ws s"]
  by (cases "skip_ws s") (auto simp: scan_number_def from_chars_def Let_def length_skip_ws split: if_splits option.splits)

lemma scan_boolean_shorter: "scan_boolean s = (r, s') \<Longrightarrow> length s' \<le> length s"
  using length_skip_ws [of s] by (auto simp: scan_boolean_def Let_def split: if_splits)

text \<open>Before every key but the first there is a comma.\<close>

definition next_item :: "bool \<Rightarrow> scanner \<Rightarrow> bool \<times> scanner" where
  "next_item first s = (if first then (True, s) else consume (CHR '','') s)"

lemma next_item_shorter: "next_item first s = (b, s') \<Longrightarrow> length s' \<le> length s"
  using consume_shorter [of "CHR '',''" s b s'] by (auto simp: next_item_def split: if_splits)

lemmas scan_shorter = consume_shorter scan_string_shorter scan_number_shorter scan_boolean_shorter

subsection \<open>MANIFEST\<close>

record manifest =
  mf_format :: u32
  mf_generation :: u64
  mf_file :: string
  mf_crc32c :: u32

definition kMaxManifestBytes :: nat where "kMaxManifestBytes = 4096"
definition kManifestName :: string where "kManifestName = ''MANIFEST''"

definition is_digits :: "string \<Rightarrow> bool" where
  "is_digits s \<longleftrightarrow> s \<noteq> [] \<and> list_all is_digit s"

text \<open>The length of the middle part wraps around for the name \<open>index.vfidx\<close>; \<open>substr\<close> then gives the rest.\<close>

definition parse_index_name :: "string \<Rightarrow> nat option" where
  "parse_index_name name =
     (if take 6 name \<noteq> ''index.'' \<or> length name < 6 \<or> drop (length name - 6) name \<noteq> ''.vfidx'' then None
      else let digits = take (unat (word_of_nat (length name) - 6 - 6 :: u64)) (drop 6 name)
           in if \<not> is_digits digits then None else map_option fst (from_chars digits))"

definition index_file_name :: "u64 \<Rightarrow> string" where
  "index_file_name generation =
     (let ds = show_nat (unat generation) in ''index.'' @ replicate (6 - length ds) (CHR ''0'') @ ds @ ''.vfidx'')"

definition quoted :: "string \<Rightarrow> string" where
  "quoted s = [CHR 0x22] @ s @ [CHR 0x22]"

definition encode_manifest :: "manifest \<Rightarrow> string" where
  "encode_manifest m =
     ''{'' @ quoted ''format'' @ '': '' @ show_nat (unat (mf_format m)) @ '', '' @ quoted ''generation'' @ '': '' @ show_nat (unat (mf_generation m)) @ '', '' @
     quoted ''file'' @ '': '' @ quoted (mf_file m) @ '', '' @ quoted ''crc32c'' @ '': '' @ show_nat (unat (mf_crc32c m)) @ ''}'' @ [CHR 0x0A]"

record manifest_keys =
  have_format :: bool
  have_generation :: bool
  have_file :: bool
  have_crc :: bool

definition bad_manifest :: "string \<Rightarrow> 'a result" where
  "bad_manifest what = Inl (corrupt_data (''MANIFEST: '' @ what))"

text \<open>The value of a key: the parsed fields, or an error.\<close>

definition manifest_value :: "string \<Rightarrow> manifest \<Rightarrow> manifest_keys \<Rightarrow> scanner \<Rightarrow> (manifest \<times> manifest_keys \<times> scanner) result" where
  "manifest_value key m h s =
     (let bad = bad_manifest (''unknown, duplicate or malformed key '' @ [CHR 0x27] @ key @ [CHR 0x27])
      in if key = ''format'' \<and> \<not> have_format h
         then (case scan_number s of
                 (None, _) \<Rightarrow> bad
               | (Some n, s1) \<Rightarrow>
                   if n \<noteq> 1 then Inl (unsupported_version (''MANIFEST format '' @ show_nat n)) else Inr (m, h\<lparr>have_format := True\<rparr>, s1))
         else if key = ''generation'' \<and> \<not> have_generation h
         then (case scan_number s of (None, _) \<Rightarrow> bad | (Some n, s1) \<Rightarrow> Inr (m\<lparr>mf_generation := word_of_nat n\<rparr>, h\<lparr>have_generation := True\<rparr>, s1))
         else if key = ''file'' \<and> \<not> have_file h
         then (case scan_string s of (None, _) \<Rightarrow> bad | (Some f, s1) \<Rightarrow> Inr (m\<lparr>mf_file := f\<rparr>, h\<lparr>have_file := True\<rparr>, s1))
         else if key = ''crc32c'' \<and> \<not> have_crc h
         then (case scan_number s of
                 (None, _) \<Rightarrow> bad
               | (Some n, s1) \<Rightarrow> if n \<le> 0xFFFFFFFF then Inr (m\<lparr>mf_crc32c := word_of_nat n\<rparr>, h\<lparr>have_crc := True\<rparr>, s1) else bad)
         else bad)"

lemma manifest_value_shorter: "manifest_value key m h s = Inr (m', h', s') \<Longrightarrow> length s' \<le> length s"
  by (auto simp: manifest_value_def bad_manifest_def Let_def split: if_splits prod.splits option.splits dest: scan_shorter)

function manifest_loop :: "bool \<Rightarrow> manifest \<Rightarrow> manifest_keys \<Rightarrow> scanner \<Rightarrow> (manifest \<times> manifest_keys \<times> scanner) result" where
  "manifest_loop first m h s =
     (case consume (CHR ''}'') s of
        (True, s1) \<Rightarrow> if first then bad_manifest ''empty object'' else Inr (m, h, s1)
      | (False, s1) \<Rightarrow>
          (case next_item first s1 of
             (False, _) \<Rightarrow> bad_manifest (''expected '' @ [CHR 0x27] @ '','' @ [CHR 0x27])
           | (True, s2) \<Rightarrow>
               (case scan_string s2 of
                  (None, _) \<Rightarrow> bad_manifest ''expected a key''
                | (Some key, s3) \<Rightarrow>
                    (case consume (CHR '':'') s3 of
                       (False, _) \<Rightarrow> bad_manifest ''expected a key''
                     | (True, s4) \<Rightarrow>
                         (case manifest_value key m h s4 of
                            Inl e \<Rightarrow> Inl e
                          | Inr (m', h', s5) \<Rightarrow> manifest_loop False m' h' s5)))))"
  by pat_completeness auto
termination
proof (relation "measure (\<lambda>(first, m, h, s). length s)", goal_cases)
  case 2
  note short = consume_shorter [OF 2(1) [symmetric]] next_item_shorter [OF 2(3) [symmetric]] scan_string_shorter [OF 2(5) [symmetric]]
    consume_shorter [OF 2(7) [symmetric]]
  show ?case using short 2(2,4,6,8) manifest_value_shorter [OF 2(9) [folded 2(10,11)]] by simp
qed simp

declare manifest_loop.simps [simp del]

definition decode_manifest :: "string \<Rightarrow> manifest result" where
  "decode_manifest text =
     (case consume (CHR ''{'') text of
        (False, _) \<Rightarrow> bad_manifest ''expected an object''
      | (True, s) \<Rightarrow>
          result_bind (manifest_loop True \<lparr>mf_format = 1, mf_generation = 0, mf_file = [], mf_crc32c = 0\<rparr>
              \<lparr>have_format = False, have_generation = False, have_file = False, have_crc = False\<rparr> s) (\<lambda>(m, h, s1).
            if \<not> at_end s1 then bad_manifest ''trailing characters''
            else if \<not> have_format h \<or> \<not> have_generation h \<or> \<not> have_file h \<or> \<not> have_crc h then bad_manifest ''missing keys''
            else if parse_index_name (mf_file m) \<noteq> Some (unat (mf_generation m)) \<or> mf_file m \<noteq> index_file_name (mf_generation m)
            then bad_manifest ''file name does not match the generation''
            else Inr m))"

subsection \<open>config.json\<close>

definition kMaxConfigBytes :: nat where "kMaxConfigBytes = 4096"

definition encode_config :: "collection_config \<Rightarrow> string" where
  "encode_config c =
     (let nl = [CHR 0x0A]; h = cc_hnsw c
      in ''{'' @ nl @ ''  '' @ quoted ''format'' @ '': 1,'' @ nl @
         ''  '' @ quoted ''dim'' @ '': '' @ show_nat (unat (cc_dim c)) @ '','' @ nl @
         ''  '' @ quoted ''metric'' @ '': '' @ quoted (metric_to_string (cc_metric c)) @ '','' @ nl @
         ''  '' @ quoted ''normalize'' @ '': '' @ (if cc_normalize c then ''true'' else ''false'') @ '','' @ nl @
         ''  '' @ quoted ''index'' @ '': '' @ quoted (index_type_to_string (cc_index c)) @ '','' @ nl @
         ''  '' @ quoted ''M'' @ '': '' @ show_nat (unat (hp_M h)) @ '','' @ nl @
         ''  '' @ quoted ''ef_construction'' @ '': '' @ show_nat (unat (hp_ef_construction h)) @ '','' @ nl @
         ''  '' @ quoted ''ef_search'' @ '': '' @ show_nat (unat (hp_ef_search h)) @ '','' @ nl @
         ''  '' @ quoted ''max_level'' @ '': '' @ show_nat (unat (hp_max_level h)) @ '','' @ nl @
         ''  '' @ quoted ''seed'' @ '': '' @ show_nat (unat (hp_seed h)) @ nl @ ''}'' @ nl)"

definition default_config :: collection_config where
  "default_config = \<lparr>cc_dim = 0, cc_metric = L2, cc_normalize = False, cc_index = Hnsw, cc_hnsw = default_hnsw_params, cc_concurrency = Concurrent\<rparr>"

text \<open>A number up to a limit; the config with the value, or nothing when it is malformed.\<close>

definition limited :: "nat \<Rightarrow> (nat \<Rightarrow> collection_config) \<Rightarrow> scanner \<Rightarrow> (collection_config \<times> scanner) option" where
  "limited limit f s = (case scan_number s of (Some n, s1) \<Rightarrow> if n \<le> limit then Some (f n, s1) else None | (None, _) \<Rightarrow> None)"

definition config_value :: "string \<Rightarrow> collection_config \<Rightarrow> scanner \<Rightarrow> (collection_config \<times> scanner) option" where
  "config_value key c s =
     (let h = cc_hnsw c
      in if key = ''format'' then (case scan_number s of (Some n, s1) \<Rightarrow> if n = 1 then Some (c, s1) else None | (None, _) \<Rightarrow> None)
         else if key = ''dim'' then limited (unat kMaxDim) (\<lambda>n. c\<lparr>cc_dim := word_of_nat n\<rparr>) s
         else if key = ''metric''
         then (case scan_string s of
                 (None, _) \<Rightarrow> None
               | (Some t, s1) \<Rightarrow> (case parse_metric t of Inl _ \<Rightarrow> None | Inr m \<Rightarrow> Some (c\<lparr>cc_metric := m\<rparr>, s1)))
         else if key = ''normalize'' then (case scan_boolean s of (None, _) \<Rightarrow> None | (Some b, s1) \<Rightarrow> Some (c\<lparr>cc_normalize := b\<rparr>, s1))
         else if key = ''index''
         then (case scan_string s of
                 (None, _) \<Rightarrow> None
               | (Some t, s1) \<Rightarrow> (case parse_index_type t of Inl _ \<Rightarrow> None | Inr i \<Rightarrow> Some (c\<lparr>cc_index := i\<rparr>, s1)))
         else if key = ''M'' then limited (unat kMaxM) (\<lambda>n. c\<lparr>cc_hnsw := h\<lparr>hp_M := word_of_nat n\<rparr>\<rparr>) s
         else if key = ''ef_construction'' then limited (unat kMaxEf) (\<lambda>n. c\<lparr>cc_hnsw := h\<lparr>hp_ef_construction := word_of_nat n\<rparr>\<rparr>) s
         else if key = ''ef_search'' then limited (unat kMaxEf) (\<lambda>n. c\<lparr>cc_hnsw := h\<lparr>hp_ef_search := word_of_nat n\<rparr>\<rparr>) s
         else if key = ''max_level'' then limited (unat kMaxLevelCap) (\<lambda>n. c\<lparr>cc_hnsw := h\<lparr>hp_max_level := word_of_nat n\<rparr>\<rparr>) s
         else if key = ''seed''
         then (case scan_number s of (Some n, s1) \<Rightarrow> Some (c\<lparr>cc_hnsw := h\<lparr>hp_seed := word_of_nat n\<rparr>\<rparr>, s1) | (None, _) \<Rightarrow> None)
         else None)"

lemma config_value_shorter: "config_value key c s = Some (c', s') \<Longrightarrow> length s' \<le> length s"
  by (auto simp: config_value_def limited_def Let_def split: if_splits prod.splits option.splits sum.splits dest: scan_shorter)

definition bad_config :: "string \<Rightarrow> 'a result" where
  "bad_config what = Inl (corrupt_data (''config.json: '' @ what))"

function config_loop :: "bool \<Rightarrow> string set \<Rightarrow> collection_config \<Rightarrow> scanner \<Rightarrow> (collection_config \<times> string set \<times> scanner) result" where
  "config_loop first seen c s =
     (case consume (CHR ''}'') s of
        (True, s1) \<Rightarrow> Inr (c, seen, s1)
      | (False, s1) \<Rightarrow>
          (case next_item first s1 of
             (False, _) \<Rightarrow> bad_config (''expected '' @ [CHR 0x27] @ '','' @ [CHR 0x27])
           | (True, s2) \<Rightarrow>
               (case scan_string s2 of
                  (None, _) \<Rightarrow> bad_config ''expected a new key''
                | (Some key, s3) \<Rightarrow>
                    (case consume (CHR '':'') s3 of
                       (False, _) \<Rightarrow> bad_config ''expected a new key''
                     | (True, s4) \<Rightarrow>
                         if key \<in> seen then bad_config ''expected a new key''
                         else (case config_value key c s4 of
                                 None \<Rightarrow> bad_config (''unknown or malformed key '' @ [CHR 0x27] @ key @ [CHR 0x27])
                               | Some (c', s5) \<Rightarrow> config_loop False (insert key seen) c' s5)))))"
  by pat_completeness auto
termination
proof (relation "measure (\<lambda>(first, seen, c, s). length s)", goal_cases)
  case 2
  note short = consume_shorter [OF 2(1) [symmetric]] next_item_shorter [OF 2(3) [symmetric]] scan_string_shorter [OF 2(5) [symmetric]]
    consume_shorter [OF 2(7) [symmetric]]
  show ?case using short 2(2,4,6,8) config_value_shorter [OF 2(10) [folded 2(11)]] by simp
qed simp

declare config_loop.simps [simp del]

definition decode_config :: "string \<Rightarrow> collection_config result" where
  "decode_config text =
     (case consume (CHR ''{'') text of
        (False, _) \<Rightarrow> bad_config ''expected an object''
      | (True, s) \<Rightarrow>
          result_bind (config_loop True {} default_config s) (\<lambda>(c, seen, s1).
            if \<not> at_end s1 then bad_config ''trailing characters''
            else if card seen \<noteq> 10 then bad_config ''missing keys''
            else let st = collection_config_validate c in if \<not> status_ok st then bad_config (status_message st) else Inr c))"

subsection \<open>What the encoders write is read back\<close>

lemma digit_char: "d < 10 \<Longrightarrow> is_digit (char_of (48 + d)) \<and> (of_char (char_of (48 + d) :: char) :: nat) = 48 + d"
  by (simp add: is_digit_def)

lemma digits_value_snoc: "digits_value (ds @ [c]) = digits_value ds * 10 + ((of_char c :: nat) - 48)"
  by (simp add: digits_value_def)

lemma show_nat_digits: "list_all is_digit (show_nat n)" "digits_value (show_nat n) = n"
proof (induction n rule: show_nat.induct)
  case (1 n)
  case 1
  show ?case
  proof (cases "n < 10")
    case True
    then show ?thesis using digit_char [of n] by (subst show_nat.simps) simp
  next
    case False
    then show ?thesis using "1.IH"(1) digit_char [of "n mod 10"] by (subst show_nat.simps) simp
  qed
next
  case (1 n)
  case 2
  show ?case
  proof (cases "n < 10")
    case True
    then show ?thesis using digit_char [of n] by (subst show_nat.simps) (simp add: digits_value_def)
  next
    case False
    then show ?thesis using "1.IH"(2) digit_char [of "n mod 10"] by (subst show_nat.simps) (simp add: digits_value_snoc)
  qed
qed

lemma from_chars_show:
  assumes "n < 2 ^ 64" "s = [] \<or> \<not> is_digit (hd s)"
  shows "from_chars (show_nat n @ s) = Some (n, s)"
proof -
  have "takeWhile is_digit s = []" "dropWhile is_digit s = s" using assms(2) by (cases s; simp)+
  then have "takeWhile is_digit (show_nat n @ s) = show_nat n" "dropWhile is_digit (show_nat n @ s) = s"
    using show_nat_digits(1) [of n] by (simp_all add: takeWhile_append dropWhile_append list_all_iff)
  then show ?thesis using assms(1) show_nat_digits(2) [of n] by (simp add: from_chars_def)
qed

lemma digit_not_ws: "is_digit c \<Longrightarrow> \<not> is_ws c"
  by (auto simp: is_digit_def is_ws_def)

lemma scan_number_show:
  assumes "n < 2 ^ 64" "s = [] \<or> \<not> is_digit (hd s)"
  shows "scan_number (show_nat n @ s) = (Some n, s)"
proof -
  obtain c cs where c: "show_nat n = c # cs" "is_digit c" using show_nat_digits(1) [of n] show_nat_nonempty [of n] by (cases "show_nat n") auto
  then show ?thesis using from_chars_show [OF assms] digit_not_ws [OF c(2)] by (simp add: scan_number_def skip_ws_def)
qed

lemma skip_space [simp]:
  "is_ws x \<Longrightarrow> consume c (x # s) = consume c s" "is_ws x \<Longrightarrow> scan_string (x # s) = scan_string s" "is_ws x \<Longrightarrow> scan_number (x # s) = scan_number s"
  "is_ws x \<Longrightarrow> scan_boolean (x # s) = scan_boolean s"
  by (simp_all add: consume_def scan_string_def scan_number_def scan_boolean_def skip_ws_def)

lemma consume_char [simp]: "\<not> is_ws x \<Longrightarrow> consume c (x # s) = (x = c, if x = c then s else x # s)"
  by (simp add: consume_def skip_ws_def)

definition plain :: "string \<Rightarrow> bool" where
  "plain s \<longleftrightarrow> CHR 0x22 \<notin> set s \<and> CHR 0x5C \<notin> set s"

lemma scan_quoted:
  assumes "plain body"
  shows "scan_string (quoted body @ s) = (Some body, s)"
proof -
  have "takeWhile (\<lambda>c. c \<noteq> CHR 0x22) (body @ CHR 0x22 # s) = body" "dropWhile (\<lambda>c. c \<noteq> CHR 0x22) (body @ CHR 0x22 # s) = CHR 0x22 # s"
    using assms by (auto simp: takeWhile_append dropWhile_append plain_def)
  then show ?thesis using assms by (simp add: scan_string_def is_ws_def quoted_def plain_def)
qed

lemma skip_spaces: "list_all is_ws ws \<Longrightarrow> consume c (ws @ s) = consume c s" "list_all is_ws ws \<Longrightarrow> scan_string (ws @ s) = scan_string s"
  by (induction ws) simp_all

text \<open>The text before a key, and the scan of a key.\<close>

definition lead :: "bool \<Rightarrow> string \<Rightarrow> string" where
  "lead first ws = (if first then [] else [CHR '','']) @ ws"

lemma scan_key:
  assumes "list_all is_ws ws" "plain key"
  obtains s1 s2 where "consume (CHR ''}'') (lead first ws @ quoted key @ '':'' @ v) = (False, s1)" "next_item first s1 = (True, s2)"
    "scan_string s2 = (Some key, '':'' @ v)"
proof (cases first)
  case True
  have "consume (CHR ''}'') (lead first ws @ quoted key @ '':'' @ v) = (False, quoted key @ '':'' @ v)"
    using skip_spaces(1) [OF assms(1)] True by (simp add: lead_def quoted_def is_ws_def)
  then show thesis using that scan_quoted [OF assms(2)] True by (simp add: next_item_def)
next
  case False
  have "consume (CHR ''}'') (lead first ws @ quoted key @ '':'' @ v) = (False, lead first ws @ quoted key @ '':'' @ v)" using False by (simp add: lead_def is_ws_def)
  moreover have "next_item first (lead first ws @ quoted key @ '':'' @ v) = (True, ws @ quoted key @ '':'' @ v)" using False by (simp add: next_item_def lead_def is_ws_def)
  ultimately show thesis using that skip_spaces(2) [OF assms(1)] scan_quoted [OF assms(2)] by metis
qed

text \<open>A generation's file name is read back, and has the digits of the generation only.\<close>

lemma padded_value: "digits_value (replicate k (CHR ''0'') @ ds) = digits_value ds"
  by (induction k) (simp_all add: digits_value_def)

lemma length_show_nat: "n < 10 ^ k \<Longrightarrow> 0 < k \<Longrightarrow> length (show_nat n) \<le> k"
proof (induction k arbitrary: n)
  case (Suc k)
  show ?case
  proof (cases "n < 10")
    case False
    then have "0 < k" using Suc.prems(1) by (cases k) simp_all
    moreover have "n div 10 < 10 ^ k" using Suc.prems(1) by (simp add: div_less_iff_less_mult mult.commute)
    ultimately show ?thesis using Suc.IH [of "n div 10"] False by (subst show_nat.simps) simp
  qed (subst show_nat.simps, simp)
qed simp

lemma parse_index_file_name: "parse_index_name (index_file_name g) = Some (unat g)"
proof -
  define mid where "mid = replicate (6 - length (show_nat (unat g))) (CHR ''0'') @ show_nat (unat g)"
  have name: "index_file_name g = ''index.'' @ mid @ ''.vfidx''" by (simp add: index_file_name_def mid_def Let_def)
  have g: "unat g < 2 ^ 64" using unsigned_less [of g] by simp
  have "length (show_nat (unat g)) \<le> 20" by (rule length_show_nat) (use g in simp_all)
  then have len: "length mid \<le> 20" by (simp add: mid_def)
  have "is_digit (CHR ''0'')" by (simp add: is_digit_def)
  then have ds: "list_all is_digit mid" "mid \<noteq> []" using show_nat_digits(1) [of "unat g"] by (auto simp: mid_def list_all_iff)
  have dv: "digits_value mid = unat g" by (simp add: mid_def padded_value show_nat_digits)
  have tw: "takeWhile is_digit mid = mid" "dropWhile is_digit mid = []" using ds(1) by (simp_all add: list_all_iff)
  have fc: "from_chars mid = Some (unat g, [])" unfolding from_chars_def Let_def tw dv using ds(2) g by simp
  have "(word_of_nat (length (''index.'' @ mid @ ''.vfidx'')) - 6 - 6 :: u64) = word_of_nat (length mid)" by simp
  then have "unat (word_of_nat (length (''index.'' @ mid @ ''.vfidx'')) - 6 - 6 :: u64) = length mid"
    using len by (simp add: unat_of_nat take_bit_nat_eq_self)
  then have "take (unat (word_of_nat (length (index_file_name g)) - 6 - 6 :: u64)) (drop 6 (index_file_name g)) = mid" unfolding name by simp
  moreover have "take 6 (index_file_name g) = ''index.''" "drop (length (index_file_name g) - 6) (index_file_name g) = ''.vfidx''" "\<not> length (index_file_name g) < 6"
    unfolding name by simp_all
  ultimately show ?thesis using ds fc by (simp add: parse_index_name_def is_digits_def)
qed

lemma index_file_name_chars: "c \<in> set (index_file_name g) \<Longrightarrow> is_digit c \<or> c \<in> set ''index.vf''"
proof -
  assume c: "c \<in> set (index_file_name g)"
  have "is_digit (CHR ''0'')" by (simp add: is_digit_def)
  moreover have "c \<in> set ''index.'' \<or> c \<in> set ''.vfidx'' \<or> c = CHR ''0'' \<or> c \<in> set (show_nat (unat g))"
    using c unfolding index_file_name_def Let_def set_append set_replicate_conv_if by (auto split: if_splits)
  moreover have "is_digit c" if "c \<in> set (show_nat (unat g))" using that show_nat_digits(1) [of "unat g"] by (simp add: list_all_iff)
  moreover have "set ''index.'' \<subseteq> set ''index.vf''" "set ''.vfidx'' \<subseteq> set ''index.vf''" by simp_all
  ultimately show ?thesis by blast
qed

text \<open>One key of an object.\<close>

lemma manifest_key:
  assumes "list_all is_ws ws" "plain key" "manifest_value key m h v = Inr (m', h', s')"
  shows "manifest_loop first m h (lead first ws @ quoted key @ '':'' @ v) = manifest_loop False m' h' s'"
proof -
  obtain s1 s2 where k: "consume (CHR ''}'') (lead first ws @ quoted key @ '':'' @ v) = (False, s1)" "next_item first s1 = (True, s2)"
    "scan_string s2 = (Some key, '':'' @ v)" by (rule scan_key [OF assms(1,2)])
  have "consume (CHR '':'') ('':'' @ v) = (True, v)" by (simp add: is_ws_def)
  then show ?thesis using assms(3) by (subst manifest_loop.simps) (simp add: k [simplified])
qed

lemma char_facts [simp]: "is_ws (CHR '' '')" "is_ws (CHR 0x0A)" "\<not> is_ws (CHR ''}'')" "\<not> is_digit (CHR '','')" "\<not> is_digit (CHR ''}'')" "\<not> is_digit (CHR 0x0A)"
  by (simp_all add: is_ws_def is_digit_def)

lemma manifest_decodes:
  assumes "mf_format m = 1" "mf_file m = index_file_name (mf_generation m)"
  shows "decode_manifest (encode_manifest m) = Inr m"
proof -
  let ?g = "mf_generation m" and ?h0 = "\<lparr>have_format = False, have_generation = False, have_file = False, have_crc = False\<rparr>"
  let ?m0 = "\<lparr>mf_format = 1, mf_generation = 0, mf_file = [], mf_crc32c = 0\<rparr>"
  have b: "unat ?g < 2 ^ 64" "unat (mf_crc32c m) < 2 ^ 32" using unsigned_less [of ?g] unsigned_less [of "mf_crc32c m"] by simp_all
  have f: "plain (mf_file m)"
    using index_file_name_chars [of "CHR 0x22" ?g] index_file_name_chars [of "CHR 0x5C" ?g] by (auto simp: plain_def assms(2) is_digit_def)
  define t5 where "t5 = CHR ''}'' # [CHR 0x0A]"
  define t4 where "t4 = lead False '' '' @ quoted ''crc32c'' @ '':'' @ '' '' @ show_nat (unat (mf_crc32c m)) @ t5"
  define t3 where "t3 = lead False '' '' @ quoted ''file'' @ '':'' @ '' '' @ quoted (mf_file m) @ t4"
  define t2 where "t2 = lead False '' '' @ quoted ''generation'' @ '':'' @ '' '' @ show_nat (unat ?g) @ t3"
  define t1 where "t1 = lead True [] @ quoted ''format'' @ '':'' @ '' '' @ show_nat 1 @ t2"
  have enc: "encode_manifest m = ''{'' @ t1" by (simp add: encode_manifest_def t1_def t2_def t3_def t4_def t5_def lead_def assms(1))
  have hd: "\<not> is_digit (hd t2)" "\<not> is_digit (hd t3)" "\<not> is_digit (hd t5)" by (simp_all add: t2_def t3_def t5_def lead_def)
  have "manifest_loop True ?m0 ?h0 t1 = manifest_loop False ?m0 (?h0\<lparr>have_format := True\<rparr>) t2"
    unfolding t1_def by (rule manifest_key) (simp_all add: plain_def manifest_value_def scan_number_show hd)
  also have "\<dots> = manifest_loop False (?m0\<lparr>mf_generation := ?g\<rparr>) (?h0\<lparr>have_format := True, have_generation := True\<rparr>) t3"
    unfolding t2_def by (rule manifest_key) (use b in \<open>simp_all add: plain_def manifest_value_def scan_number_show hd\<close>)
  also have "\<dots> = manifest_loop False (?m0\<lparr>mf_generation := ?g, mf_file := mf_file m\<rparr>) (?h0\<lparr>have_format := True, have_generation := True, have_file := True\<rparr>) t4"
    unfolding t3_def by (rule manifest_key) (use f in \<open>simp_all add: plain_def manifest_value_def scan_quoted\<close>)
  also have "\<dots> = manifest_loop False m \<lparr>have_format = True, have_generation = True, have_file = True, have_crc = True\<rparr> t5"
    unfolding t4_def by (rule manifest_key) (use b assms in \<open>simp_all add: plain_def manifest_value_def scan_number_show hd\<close>)
  also have "\<dots> = Inr (m, \<lparr>have_format = True, have_generation = True, have_file = True, have_crc = True\<rparr>, [CHR 0x0A])"
    by (subst manifest_loop.simps) (simp add: t5_def)
  finally show ?thesis
    using assms(2) parse_index_file_name [of ?g] unfolding enc by (simp add: decode_manifest_def is_ws_def at_end_def skip_ws_def)
qed

lemma manifest_value_format: "manifest_value key m h s = Inr (m', h', s') \<Longrightarrow> mf_format m' = mf_format m"
  by (auto simp: manifest_value_def bad_manifest_def Let_def split: if_splits prod.splits option.splits)

lemma manifest_loop_format: "manifest_loop first m h s = Inr (m', h', s') \<Longrightarrow> mf_format m' = mf_format m"
proof (induction first m h s rule: manifest_loop.induct)
  case (1 first m h s)
  note loop = "1.prems" [unfolded manifest_loop.simps [of first m h s]]
  obtain b s1 where c: "consume (CHR ''}'') s = (b, s1)" by fastforce
  show ?case
  proof (cases b)
    case True
    then show ?thesis using loop c by (auto simp: bad_manifest_def split: if_splits)
  next
    case False
    then obtain s2 key s3 s4 m1 h1 s5 where n: "next_item first s1 = (True, s2)" "scan_string s2 = (Some key, s3)" "consume (CHR '':'') s3 = (True, s4)"
      "manifest_value key m h s4 = Inr (m1, h1, s5)" "manifest_loop False m1 h1 s5 = Inr (m', h', s')"
      using loop c by (auto simp: bad_manifest_def split: prod.splits bool.splits option.splits sum.splits)
    have c': "(False, s1) = consume (CHR ''}'') s" using c False by simp
    have "mf_format m' = mf_format m1"
      by (rule "1.IH" [OF c' refl n(1) [symmetric] refl n(2) [symmetric] refl n(3) [symmetric] refl n(4) refl refl n(5)])
    then show ?thesis using manifest_value_format [OF n(4)] by simp
  qed
qed

lemma decode_manifest_sound:
  assumes "decode_manifest t = Inr m"
  shows "mf_format m = 1" "mf_file m = index_file_name (mf_generation m)"
  using assms manifest_loop_format [of True "\<lparr>mf_format = 1, mf_generation = 0, mf_file = [], mf_crc32c = 0\<rparr>"]
  by (auto simp: decode_manifest_def bad_manifest_def result_bind_Inr split: prod.splits bool.splits if_splits)

text \<open>config.json\<close>

lemma config_key:
  assumes "list_all is_ws ws" "plain key" "key \<notin> seen" "config_value key c v = Some (c', s')"
  shows "config_loop first seen c (lead first ws @ quoted key @ '':'' @ v) = config_loop False (insert key seen) c' s'"
proof -
  obtain s1 s2 where k: "consume (CHR ''}'') (lead first ws @ quoted key @ '':'' @ v) = (False, s1)" "next_item first s1 = (True, s2)"
    "scan_string s2 = (Some key, '':'' @ v)" by (rule scan_key [OF assms(1,2)])
  have "consume (CHR '':'') ('':'' @ v) = (True, v)" by (simp add: is_ws_def)
  then show ?thesis using assms(3,4) by (subst config_loop.simps) (simp add: k [simplified])
qed

definition in_limits :: "hnsw_params \<Rightarrow> bool" where
  "in_limits h \<longleftrightarrow> hp_M h \<le> kMaxM \<and> hp_ef_construction h \<le> kMaxEf \<and> hp_ef_search h \<le> kMaxEf \<and> hp_max_level h \<le> kMaxLevelCap"

lemma limited_show:
  assumes "w \<le> limit" "s = [] \<or> \<not> is_digit (hd s)" "LENGTH('a::len) \<le> 64"
  shows "limited (unat (limit :: 'a word)) f (CHR '' '' # show_nat (unat w) @ s) = Some (f (unat w), s)"
proof -
  have "unat w < 2 ^ LENGTH('a)" by (rule unsigned_less)
  also have "\<dots> \<le> 2 ^ 64" using assms(3) by (intro power_increasing) simp_all
  finally show ?thesis using assms(1,2) by (simp add: limited_def scan_number_show word_le_nat_alt)
qed

text \<open>The text of config.json is the five keys of the collection followed by the five of HNSW.\<close>

definition key_space :: string where
  "key_space = [CHR 0x0A, CHR '' '', CHR '' '']"

definition number_key :: "string \<Rightarrow> nat \<Rightarrow> string \<Rightarrow> string" where
  "number_key key n t = lead False key_space @ quoted key @ '':'' @ '' '' @ show_nat n @ t"

definition config_head :: "collection_config \<Rightarrow> string \<Rightarrow> string" where
  "config_head c t =
     lead True key_space @ quoted ''format'' @ '':'' @ '' '' @ show_nat 1 @ number_key ''dim'' (unat (cc_dim c)) (
     lead False key_space @ quoted ''metric'' @ '':'' @ '' '' @ quoted (metric_to_string (cc_metric c)) @
     lead False key_space @ quoted ''normalize'' @ '':'' @ '' '' @ (if cc_normalize c then ''true'' else ''false'') @
     lead False key_space @ quoted ''index'' @ '':'' @ '' '' @ quoted (index_type_to_string (cc_index c)) @ t)"

definition config_tail :: "hnsw_params \<Rightarrow> string" where
  "config_tail h =
     number_key ''M'' (unat (hp_M h)) (number_key ''ef_construction'' (unat (hp_ef_construction h)) (number_key ''ef_search'' (unat (hp_ef_search h))
       (number_key ''max_level'' (unat (hp_max_level h)) (number_key ''seed'' (unat (hp_seed h)) [CHR 0x0A, CHR ''}'', CHR 0x0A]))))"

abbreviation head_keys :: "string set" where
  "head_keys \<equiv> {''index'', ''normalize'', ''metric'', ''dim'', ''format''}"

lemma encode_config_text: "encode_config c = ''{'' @ config_head c (config_tail (cc_hnsw c))"
proof -
  have one: "show_nat 1 = ''1''" by code_simp
  show ?thesis unfolding encode_config_def Let_def config_head_def config_tail_def number_key_def key_space_def one by (simp add: lead_def)
qed

lemma key_space_ws: "list_all is_ws key_space"
  by (simp add: key_space_def)

lemma hd_lead [simp]: "\<not> is_digit (hd (lead False ws @ t))" "\<not> is_digit (hd (number_key key n t))"
  by (simp_all add: lead_def number_key_def)

lemma config_head_read:
  assumes v: "status_ok (collection_config_validate c)"
  shows "config_loop True {} default_config (config_head c t) =
    config_loop False head_keys (c\<lparr>cc_hnsw := default_hnsw_params, cc_concurrency := Concurrent\<rparr>) t"
proof -
  note V = v [unfolded collection_config_validate_ok] and key = config_key [OF key_space_ws]
  define t4 where "t4 = lead False key_space @ quoted ''index'' @ '':'' @ '' '' @ quoted (index_type_to_string (cc_index c)) @ t"
  define t3 where "t3 = lead False key_space @ quoted ''normalize'' @ '':'' @ '' '' @ (if cc_normalize c then ''true'' else ''false'') @ t4"
  define t2 where "t2 = lead False key_space @ quoted ''metric'' @ '':'' @ '' '' @ quoted (metric_to_string (cc_metric c)) @ t3"
  define t1 where "t1 = number_key ''dim'' (unat (cc_dim c)) t2"
  have head: "config_head c t = lead True key_space @ quoted ''format'' @ '':'' @ '' '' @ show_nat 1 @ t1"
    by (simp add: config_head_def t1_def t2_def t3_def t4_def)
  have hd: "\<not> is_digit (hd t1)" "\<not> is_digit (hd t2)" by (simp_all add: t1_def t2_def)
  have mt: "plain (metric_to_string (cc_metric c))" "plain (index_type_to_string (cc_index c))"
    by (cases "cc_metric c"; simp add: plain_def) (cases "cc_index c"; simp add: plain_def)
  have "config_loop True {} default_config (config_head c t) = config_loop False {''format''} default_config t1"
    unfolding head by (rule key) (simp_all add: plain_def config_value_def scan_number_show hd)
  also have "\<dots> = config_loop False {''dim'', ''format''} (default_config\<lparr>cc_dim := cc_dim c\<rparr>) t2"
    unfolding t1_def number_key_def by (rule key) (use V in \<open>simp_all add: plain_def config_value_def limited_show hd\<close>)
  also have "\<dots> = config_loop False {''metric'', ''dim'', ''format''} (default_config\<lparr>cc_dim := cc_dim c, cc_metric := cc_metric c\<rparr>) t3"
    unfolding t2_def by (rule key) (use V mt in \<open>simp_all add: plain_def config_value_def scan_quoted parse_metric_to_string\<close>)
  also have "\<dots> = config_loop False {''normalize'', ''metric'', ''dim'', ''format''}
      (default_config\<lparr>cc_dim := cc_dim c, cc_metric := cc_metric c, cc_normalize := cc_normalize c\<rparr>) t4"
    unfolding t3_def by (rule key) (simp_all add: plain_def config_value_def scan_boolean_def skip_ws_def is_ws_def)
  also have "\<dots> = config_loop False head_keys (c\<lparr>cc_hnsw := default_hnsw_params, cc_concurrency := Concurrent\<rparr>) t"
    unfolding t4_def by (rule key) (use V mt in \<open>simp_all add: plain_def config_value_def scan_quoted parse_index_type_to_string default_config_def\<close>)
  finally show ?thesis .
qed

lemma config_decodes:
  assumes v: "status_ok (collection_config_validate c)" and l: "in_limits (cc_hnsw c)"
  shows "decode_config (encode_config c) = Inr (c\<lparr>cc_concurrency := Concurrent\<rparr>)"
proof -
  let ?h = "cc_hnsw c" and ?c = "\<lambda>h. c\<lparr>cc_hnsw := h, cc_concurrency := Concurrent\<rparr>"
  let ?keys = "{''seed'', ''max_level'', ''ef_search'', ''ef_construction'', ''M''} \<union> head_keys"
  have seed: "unat (hp_seed ?h) < 2 ^ 64" using unsigned_less [of "hp_seed ?h"] by simp
  note L = l [unfolded in_limits_def] and key = config_key [OF key_space_ws]
  define t10 where "t10 = [CHR 0x0A, CHR ''}'', CHR 0x0A]"
  define t9 where "t9 = number_key ''seed'' (unat (hp_seed ?h)) t10"
  define t8 where "t8 = number_key ''max_level'' (unat (hp_max_level ?h)) t9"
  define t7 where "t7 = number_key ''ef_search'' (unat (hp_ef_search ?h)) t8"
  define t6 where "t6 = number_key ''ef_construction'' (unat (hp_ef_construction ?h)) t7"
  have tail: "config_tail ?h = number_key ''M'' (unat (hp_M ?h)) t6" by (simp add: config_tail_def t6_def t7_def t8_def t9_def t10_def)
  have hd: "\<not> is_digit (hd t6)" "\<not> is_digit (hd t7)" "\<not> is_digit (hd t8)" "\<not> is_digit (hd t9)" "\<not> is_digit (hd t10)"
    by (simp_all add: t6_def t7_def t8_def t9_def t10_def)
  have "config_loop False head_keys (?c default_hnsw_params) (config_tail ?h) =
      config_loop False (insert ''M'' head_keys) (?c (default_hnsw_params\<lparr>hp_M := hp_M ?h\<rparr>)) t6"
    unfolding tail number_key_def by (rule key) (use L in \<open>simp_all add: plain_def config_value_def limited_show hd\<close>)
  also have "\<dots> = config_loop False ({''ef_construction'', ''M''} \<union> head_keys)
      (?c (default_hnsw_params\<lparr>hp_M := hp_M ?h, hp_ef_construction := hp_ef_construction ?h\<rparr>)) t7"
    unfolding t6_def number_key_def Un_insert_left Un_empty_left by (rule key) (use L in \<open>simp_all add: plain_def config_value_def limited_show hd\<close>)
  also have "\<dots> = config_loop False ({''ef_search'', ''ef_construction'', ''M''} \<union> head_keys)
      (?c (default_hnsw_params\<lparr>hp_M := hp_M ?h, hp_ef_construction := hp_ef_construction ?h, hp_ef_search := hp_ef_search ?h\<rparr>)) t8"
    unfolding t7_def number_key_def Un_insert_left Un_empty_left by (rule key) (use L in \<open>simp_all add: plain_def config_value_def limited_show hd\<close>)
  also have "\<dots> = config_loop False ({''max_level'', ''ef_search'', ''ef_construction'', ''M''} \<union> head_keys)
      (?c (?h\<lparr>hp_seed := hp_seed default_hnsw_params\<rparr>)) t9"
    unfolding t8_def number_key_def Un_insert_left Un_empty_left by (rule key) (use L in \<open>simp_all add: plain_def config_value_def limited_show hd default_hnsw_params_def\<close>)
  also have "\<dots> = config_loop False ?keys (?c ?h) t10"
    unfolding t9_def number_key_def Un_insert_left Un_empty_left by (rule key) (use seed in \<open>simp_all add: plain_def config_value_def scan_number_show hd\<close>)
  also have "\<dots> = Inr (?c ?h, ?keys, [CHR 0x0A])" by (subst config_loop.simps) (simp add: t10_def)
  finally have "config_loop True {} default_config (config_head c (config_tail ?h)) = Inr (?c ?h, ?keys, [CHR 0x0A])" using config_head_read [OF v] by simp
  moreover have "status_ok (collection_config_validate (?c ?h))" using v by (simp add: collection_config_validate_ok)
  moreover have "card ?keys = 10" by simp
  ultimately show ?thesis unfolding encode_config_text by (simp add: decode_config_def is_ws_def at_end_def skip_ws_def Let_def del: card.insert)
qed

text \<open>The parser's limit on \<open>M\<close> holds whatever the index type.\<close>

lemma config_large_M:
  assumes v: "status_ok (collection_config_validate c)" and l: "kMaxM < hp_M (cc_hnsw c)"
  shows "decode_config (encode_config c) = bad_config (''unknown or malformed key '' @ [CHR 0x27] @ ''M'' @ [CHR 0x27])"
proof -
  define t where "t = number_key ''ef_construction'' (unat (hp_ef_construction (cc_hnsw c))) (number_key ''ef_search'' (unat (hp_ef_search (cc_hnsw c)))
    (number_key ''max_level'' (unat (hp_max_level (cc_hnsw c))) (number_key ''seed'' (unat (hp_seed (cc_hnsw c))) [CHR 0x0A, CHR ''}'', CHR 0x0A])))"
  have t: "config_tail (cc_hnsw c) = lead False key_space @ quoted ''M'' @ '':'' @ '' '' @ show_nat (unat (hp_M (cc_hnsw c))) @ t" "\<not> is_digit (hd t)"
    by (simp_all add: config_tail_def t_def number_key_def [of "''M''"])
  have n: "unat (hp_M (cc_hnsw c)) < 2 ^ 32" "unat kMaxM < unat (hp_M (cc_hnsw c))"
    using unsigned_less [of "hp_M (cc_hnsw c)"] l by (simp_all add: word_less_nat_alt)
  have bad: "config_value ''M'' cfg ('' '' @ show_nat (unat (hp_M (cc_hnsw c))) @ t) = None" for cfg
    using n t(2) by (simp add: config_value_def limited_def scan_number_show)
  obtain s1 s2 where k: "consume (CHR ''}'') (config_tail (cc_hnsw c)) = (False, s1)" "next_item False s1 = (True, s2)"
    "scan_string s2 = (Some ''M'', '':'' @ '' '' @ show_nat (unat (hp_M (cc_hnsw c))) @ t)"
    unfolding t(1) by (rule scan_key [OF key_space_ws, of "''M''"]) (simp add: plain_def)
  have "config_loop False head_keys cfg (config_tail (cc_hnsw c)) = bad_config (''unknown or malformed key '' @ [CHR 0x27] @ ''M'' @ [CHR 0x27])" for cfg
    using bad [of cfg] by (subst config_loop.simps) (simp add: k [simplified] is_ws_def)
  then show ?thesis using config_head_read [OF v]
    unfolding encode_config_text by (simp add: decode_config_def is_ws_def bad_config_def)
qed

subsection \<open>Properties\<close>

text \<open>
  C39. A manifest survives encoding and decoding exactly when its format is 1 and it names the file of its
  generation, and these are the only manifests the parser ever accepts, whatever the text: the name
  of the index file cannot lead out of the directory.
\<close>

theorem manifest_round_trip:
  "(decode_manifest (encode_manifest m) = Inr m \<longleftrightarrow> mf_format m = 1 \<and> mf_file m = index_file_name (mf_generation m)) \<and>
   (decode_manifest t = Inr m' \<longrightarrow>
      mf_format m' = 1 \<and> mf_file m' = index_file_name (mf_generation m') \<and> CHR ''/'' \<notin> set (mf_file m') \<and> parse_index_name (mf_file m') = Some (unat (mf_generation m')))"
proof -
  have "CHR ''/'' \<notin> set (index_file_name g)" for g using index_file_name_chars [of "CHR ''/''" g] by (auto simp: is_digit_def)
  then show ?thesis using manifest_decodes [of m] decode_manifest_sound [of "encode_manifest m" m] decode_manifest_sound [of t m'] parse_index_file_name by auto
qed

definition sample_manifest :: manifest where
  "sample_manifest = \<lparr>mf_format = 1, mf_generation = 42, mf_file = index_file_name 42, mf_crc32c = 0xDEADBEEF\<rparr>"

theorem manifest_round_trip_witness:
  "decode_manifest (encode_manifest sample_manifest) = Inr sample_manifest \<and> CHR ''/'' \<notin> set (mf_file sample_manifest)"
  using manifest_round_trip [of sample_manifest "encode_manifest sample_manifest" sample_manifest] by (auto simp: sample_manifest_def)

text \<open>
  The configuration written for a new collection is read back when the catalog is opened, up to the
  concurrency mode, which is not stored: for every valid configuration whose HNSW parameters are
  within their limits, which validation guarantees for an HNSW index.
\<close>

lemma config_round_trip:
  assumes "status_ok (collection_config_validate c)" "cc_index c = Hnsw \<or> in_limits (cc_hnsw c)"
  shows "decode_config (encode_config c) = Inr (c\<lparr>cc_concurrency := Concurrent\<rparr>)"
proof (rule config_decodes [OF assms(1)])
  show "in_limits (cc_hnsw c)"
    using assms by (auto simp: collection_config_validate_ok hnsw_params_validate_ok in_limits_def)
qed

text \<open>
  A Flat collection may have any HNSW parameters; with a large \<open>M\<close> its configuration is valid and is
  written, but cannot be read.
\<close>

definition flat_large_M :: collection_config where
  "flat_large_M = default_config\<lparr>cc_dim := 1, cc_index := Flat, cc_hnsw := default_hnsw_params\<lparr>hp_M := 1000\<rparr>\<rparr>"

lemma flat_config_unreadable:
  "status_ok (collection_config_validate flat_large_M) \<and> decode_config (encode_config flat_large_M) = bad_config (''unknown or malformed key '' @ [CHR 0x27] @ ''M'' @ [CHR 0x27])"
proof -
  have "status_ok (collection_config_validate flat_large_M)" by (simp add: flat_large_M_def collection_config_validate_ok default_config_def kMaxDim_def)
  then show ?thesis using config_large_M [of flat_large_M] by (simp add: flat_large_M_def kMaxM_def)
qed

end
