(* ===== verification/VF_Snapshot.thy ===== *)
theory VF_Snapshot
  imports VF_AtomicFile VF_Manifest
begin

text \<open>
  Snapshots of a collection in a directory (\<^verbatim>\<open>src/collection/snapshot.cpp\<close>) and loading from a file
  (\<open>Collection::load\<close>, \<open>MappedFile::open\<close>). A snapshot writes the next generation, publishes it in
  MANIFEST and removes the others. The main result: after a crash at any moment of a snapshot, loading the
  directory gives the collection of the previous snapshot or the new one, unless the directory itself was new
  and is lost.
\<close>

subsection \<open>Reading files\<close>

text \<open>\<^verbatim>\<open>std::filesystem::exists\<close> gives false on an error.\<close>

definition fs_exists :: "path \<Rightarrow> world \<Rightarrow> bool \<times> world" where
  "fs_exists p w = (case next_event w of (e, w1) \<Rightarrow> (fault e = None \<and> dk_entry (wd_disk w1) (entry_key p) \<noteq> None, w1))"

definition stream_open :: "path \<Rightarrow> world \<Rightarrow> u8 list option \<times> world" where
  "stream_open p w = (case next_event w of (e, w1) \<Rightarrow> (if fault e = None then file_at (wd_disk w1) (entry_key p) else None, w1))"

definition stream_read :: "nat \<Rightarrow> u8 list \<Rightarrow> world \<Rightarrow> u8 list option \<times> world" where
  "stream_read n data w = (case next_event w of (e, w1) \<Rightarrow> (if fault e = None then Some (take n data) else None, w1))"

definition read_small_file :: "path \<Rightarrow> nat \<Rightarrow> string \<Rightarrow> world \<Rightarrow> string result \<times> world" where
  "read_small_file p limit name w =
     (case stream_open p w of
        (None, w1) \<Rightarrow> (Inl (io_error (''cannot open '' @ path_string p)), w1)
      | (Some data, w1) \<Rightarrow>
          (case stream_read (limit + 1) data w1 of
             (None, w2) \<Rightarrow> (Inl (io_error (''cannot read '' @ path_string p)), w2)
           | (Some t, w2) \<Rightarrow>
               if length t > limit then (Inl (corrupt_data (name @ '': larger than '' @ show_nat limit @ '' bytes'')), w2)
               else (Inr (bytes_string t), w2)))"

definition read_manifest :: "string \<Rightarrow> world \<Rightarrow> manifest result \<times> world" where
  "read_manifest dir w =
     (case fs_exists (dir, kManifestName) w of
        (False, w1) \<Rightarrow> (Inl (not_found (''no MANIFEST in '' @ dir)), w1)
      | (True, w1) \<Rightarrow>
          (case read_small_file (dir, kManifestName) kMaxManifestBytes ''MANIFEST'' w1 of
             (Inl st, w2) \<Rightarrow> (Inl st, w2)
           | (Inr t, w2) \<Rightarrow> (decode_manifest t, w2)))"

definition header_crc :: "u8 list \<Rightarrow> u32" where
  "header_crc header =
     (case reader_seek 56 (new_reader header) of
        None \<Rightarrow> 0
      | Some r \<Rightarrow> (case read_u32 r of None \<Rightarrow> 0 | Some (crc, _) \<Rightarrow> crc))"

definition read_header_crc :: "path \<Rightarrow> world \<Rightarrow> u32 result \<times> world" where
  "read_header_crc p w =
     (let bad = Inl (io_error (''cannot read header of '' @ path_string p))
      in case stream_open p w of
           (None, w1) \<Rightarrow> (bad, w1)
         | (Some data, w1) \<Rightarrow>
             (case stream_read kHeaderSize data w1 of
                (None, w2) \<Rightarrow> (bad, w2)
              | (Some header, w2) \<Rightarrow> if length header < kHeaderSize then (bad, w2) else (Inr (header_crc header), w2)))"

text \<open>\<open>MappedFile::open\<close>: the calls \<open>open\<close>, \<open>fstat\<close>, \<open>mmap\<close> and \<open>close\<close>.\<close>

definition mapped_open :: "path \<Rightarrow> world \<Rightarrow> u8 list result \<times> world" where
  "mapped_open p w =
     (case next_event w of (e1, w1) \<Rightarrow>
       (case (fault e1, file_at (wd_disk w1) (entry_key p)) of
          (Some t, _) \<Rightarrow> (Inl (errno_error ''cannot open'' (path_string p) t), w1)
        | (None, None) \<Rightarrow> (Inl (errno_error ''cannot open'' (path_string p) ''No such file or directory''), w1)
        | (None, Some data) \<Rightarrow>
            (case sys_touch w1 of
               (Some t, w2) \<Rightarrow> (Inl (errno_error ''cannot stat'' (path_string p) t), snd (sys_touch w2))
             | (None, w2) \<Rightarrow>
                 if length data > 2 ^ 64 - 1 then (Inl (io_error (''file too large to map: '' @ path_string p)), snd (sys_touch w2))
                 else if data = [] then (Inr [], snd (sys_touch w2))
                 else (case sys_touch w2 of (view, w3) \<Rightarrow>
                        (case sys_touch w3 of (_, w4) \<Rightarrow>
                          (case view of Some t \<Rightarrow> (Inl (errno_error ''cannot map'' (path_string p) t), w4) | None \<Rightarrow> (Inr data, w4)))))))"

record load_options =
  lo_use_mmap :: bool
  lo_verify :: verify_level
  lo_prefault :: bool
  lo_concurrency :: concurrency

record load_mem =
  lm_mapping :: bool
  lm_read :: read_mem
  lm_impl :: bool

definition load_read_options :: "load_options \<Rightarrow> read_options" where
  "load_read_options opts =
     \<lparr>ro_verify = (if lo_verify opts = VerifyAuto then (if lo_use_mmap opts then VerifyMetadata else VerifyFull) else lo_verify opts),
      ro_mapped = lo_use_mmap opts, ro_concurrency = lo_concurrency opts\<rparr>"

text \<open>The hints to the memory mapping have no effect on what is read.\<close>

definition collection_load :: "load_mem \<Rightarrow> kernel_selection \<Rightarrow> bool \<Rightarrow> load_options \<Rightarrow> path \<Rightarrow> world \<Rightarrow> collection_state result outcome \<times> world" where
  "collection_load mem simd aligned opts p w =
     (case mapped_open p w of
        (Inl st, w1) \<Rightarrow> (Returned (Inl st), w1)
      | (Inr data, w1) \<Rightarrow>
          if \<not> lm_mapping mem then (Thrown, w1)
          else (case read_index (lm_read mem) simd aligned (load_read_options opts) data of
                  Returned (Inl st) \<Rightarrow> (Returned (Inl (make_status (code st) (path_string p @ '': '' @ status_message st))), w1)
                | Returned (Inr s) \<Rightarrow> if lm_impl mem then (Returned (Inr s), w1) else (Thrown, w1)
                | Thrown \<Rightarrow> (Thrown, w1)
                | Aborted \<Rightarrow> (Aborted, w1)))"

definition load_snapshot :: "load_mem \<Rightarrow> kernel_selection \<Rightarrow> bool \<Rightarrow> load_options \<Rightarrow> string \<Rightarrow> world \<Rightarrow> collection_state result outcome \<times> world" where
  "load_snapshot mem simd aligned opts dir w =
     (case read_manifest dir w of
        (Inl st, w1) \<Rightarrow> (Returned (Inl st), w1)
      | (Inr m, w1) \<Rightarrow>
          (case read_header_crc (dir, mf_file m) w1 of
             (Inl st, w2) \<Rightarrow> (Returned (Inl st), w2)
           | (Inr crc, w2) \<Rightarrow>
               if crc \<noteq> mf_crc32c m
               then (Returned (Inl (corrupt_data (''MANIFEST checksum does not match '' @ path_string (dir, mf_file m)))), w2)
               else collection_load mem simd aligned opts (dir, mf_file m) w2))"

subsection \<open>Removing other generations\<close>

record garbage_report =
  gr_removed :: u64
  gr_failed :: u64

definition doomed :: "manifest \<Rightarrow> string \<Rightarrow> bool" where
  "doomed m name \<longleftrightarrow>
     (let temp = (4 \<le> length name \<and> drop (length name - 4) name = ''.tmp'');
          base = (if temp then take (length name - 4) name else name);
          index = (parse_index_name base \<noteq> None);
          manifest_temp = (temp \<and> base = kManifestName)
      in index \<and> (temp \<or> base \<noteq> mf_file m) \<or> manifest_temp)"

text \<open>The entries in the order of the directory iterator; \<open>None\<close> is an increment that throws.\<close>

fun garbage_loop :: "string \<Rightarrow> manifest \<Rightarrow> string option list \<Rightarrow> garbage_report \<Rightarrow> world \<Rightarrow> garbage_report outcome \<times> world" where
  "garbage_loop dir m [] report w = (Returned report, w)"
| "garbage_loop dir m (None # names) report w = (Thrown, w)"
| "garbage_loop dir m (Some name # names) report w =
     (if \<not> doomed m name then garbage_loop dir m names report w
      else (case fs_remove (dir, name) w of ((removed, ec), w1) \<Rightarrow>
             garbage_loop dir m names
               (if removed then report\<lparr>gr_removed := gr_removed report + 1\<rparr>
                else if ec \<noteq> None then report\<lparr>gr_failed := gr_failed report + 1\<rparr> else report) w1))"

definition collect_garbage :: "string \<Rightarrow> string option list \<Rightarrow> world \<Rightarrow> garbage_report result outcome \<times> world" where
  "collect_garbage dir names w =
     (case read_manifest dir w of
        (Inl st, w1) \<Rightarrow> (Returned (Inl st), w1)
      | (Inr m, w1) \<Rightarrow>
          (case sys_touch w1 of
             (Some t, w2) \<Rightarrow> (Returned (Inl (io_error (''cannot list '' @ dir @ '': '' @ t))), w2)
           | (None, w2) \<Rightarrow>
               (case garbage_loop dir m names \<lparr>gr_removed = 0, gr_failed = 0\<rparr> w2 of
                  (Returned report, w3) \<Rightarrow> (Returned (Inr report), w3)
                | (Thrown, w3) \<Rightarrow> (Thrown, w3)
                | (Aborted, w3) \<Rightarrow> (Aborted, w3))))"

subsection \<open>Writing a snapshot\<close>

definition write_manifest :: "bool \<Rightarrow> string \<Rightarrow> manifest \<Rightarrow> world \<Rightarrow> status outcome \<times> world" where
  "write_manifest mem dir m w = write_text mem (dir, kManifestName) (encode_manifest m) w"

definition next_generation :: "manifest result \<Rightarrow> u64 result" where
  "next_generation current =
     (case current of
        Inr m \<Rightarrow> Inr (mf_generation m + 1)
      | Inl st \<Rightarrow> if code st \<noteq> NotFound then Inl st else Inr 1)"

record snapshot_mem =
  sm_file :: bool
  sm_index :: bool
  sm_manifest :: bool

definition publish_snapshot :: "snapshot_mem \<Rightarrow> string option list \<Rightarrow> string \<Rightarrow> u64 \<Rightarrow> u32 \<Rightarrow> world \<Rightarrow> u64 result outcome \<times> world" where
  "publish_snapshot mem names dir generation crc w =
     (case write_manifest (sm_manifest mem) dir \<lparr>mf_format = 1, mf_generation = generation, mf_file = index_file_name generation, mf_crc32c = crc\<rparr> w of
        (Thrown, w1) \<Rightarrow> (Thrown, w1)
      | (Aborted, w1) \<Rightarrow> (Aborted, w1)
      | (Returned st, w1) \<Rightarrow>
          if \<not> status_ok st then (Returned (Inl st), w1)
          else (case collect_garbage dir names w1 of
                  (Thrown, w2) \<Rightarrow> (Thrown, w2)
                | (Aborted, w2) \<Rightarrow> (Aborted, w2)
                | (Returned _, w2) \<Rightarrow> (Returned (Inr generation), w2)))"

definition save_generation :: "snapshot_mem \<Rightarrow> string option list \<Rightarrow> collection_state \<Rightarrow> string \<Rightarrow> u64 \<Rightarrow> world \<Rightarrow> u64 result outcome \<times> world" where
  "save_generation mem names s dir generation w =
     (let p = (dir, index_file_name generation)
      in case collection_save (sm_file mem) (sm_index mem) s p w of
           (Thrown, w1) \<Rightarrow> (Thrown, w1)
         | (Aborted, w1) \<Rightarrow> (Aborted, w1)
         | (Returned st, w1) \<Rightarrow>
             if \<not> status_ok st then (Returned (Inl st), w1)
             else (case read_header_crc p w1 of
                     (Inl st2, w2) \<Rightarrow> (Returned (Inl st2), w2)
                   | (Inr crc, w2) \<Rightarrow> publish_snapshot mem names dir generation crc w2))"

text \<open>
  Whether a directory can be reached from the root: \<open>ds\<close> gives for each one the present answer followed by the
  others that a crash may bring back, as \<open>dk_stable\<close> does for files. \<^verbatim>\<open>std::filesystem::create_directories\<close> makes a missing
  directory and syncs nothing, so its entry in the parent may be lost until the parent is synced.
\<close>

type_synonym directories = "string \<Rightarrow> bool list"

definition make_directory :: "string \<Rightarrow> directories \<Rightarrow> directories" where
  "make_directory k ds = (case ds k of True # _ \<Rightarrow> ds | _ \<Rightarrow> ds(k := True # ds k))"

definition create_directories :: "string \<Rightarrow> directories \<Rightarrow> world \<Rightarrow> string option \<times> directories \<times> world" where
  "create_directories dir ds w =
     (case sys_touch w of
        (Some t, w1) \<Rightarrow> (Some t, ds, w1)
      | (None, w1) \<Rightarrow> (None, make_directory (parent_dir (dir, [])) ds, w1))"

definition save_snapshot :: "snapshot_mem \<Rightarrow> string option list \<Rightarrow> collection_state \<Rightarrow> string \<Rightarrow> directories \<Rightarrow> world
    \<Rightarrow> u64 result outcome \<times> directories \<times> world" where
  "save_snapshot mem names s dir ds w =
     (case create_directories dir ds w of
        (Some t, ds1, w1) \<Rightarrow> (Returned (Inl (io_error (''cannot create '' @ dir @ '': '' @ t))), ds1, w1)
      | (None, ds1, w1) \<Rightarrow>
          (case read_manifest dir w1 of (current, w2) \<Rightarrow>
            (case next_generation current of
               Inl st \<Rightarrow> (Returned (Inl st), ds1, w2)
             | Inr generation \<Rightarrow> (case save_generation mem names s dir generation w2 of (r, w3) \<Rightarrow> (r, ds1, w3)))))"

end
