(* ===== verification/VF_SnapshotSafe.thy ===== *)
theory VF_SnapshotSafe
  imports VF_Snapshot
begin

text \<open>
  Crash safety of snapshots: MANIFEST always names a complete generation, and loading after a crash gives
  the previous collection or the new one, unless a directory that was not durable is lost as a whole.
\<close>

subsection \<open>Names\<close>

lemma index_file_name_inj: "index_file_name g = index_file_name g' \<longleftrightarrow> g = g'"
  using parse_index_file_name [of g] parse_index_file_name [of g'] by (metis option.inject unsigned_word_eqI)

lemma index_name_not_temp: "\<not> is_temp (dir, index_file_name g)"
proof
  assume "is_temp (dir, index_file_name g)"
  then obtain n where "index_file_name g = n @ ''.tmp''" by (auto simp: is_temp_def)
  then have "last (index_file_name g) = CHR ''p''" by simp
  moreover have "last (index_file_name g) = CHR ''x''" by (simp add: index_file_name_def Let_def)
  ultimately show False by simp
qed

lemma manifest_not_temp: "\<not> is_temp (dir, kManifestName)"
proof
  assume "is_temp (dir, kManifestName)"
  then obtain n where "kManifestName = n @ ''.tmp''" by (auto simp: is_temp_def)
  then have "last kManifestName = last (n @ ''.tmp'')" by simp
  then show False by (simp add: kManifestName_def)
qed

lemma entry_key_inj: "entry_key (dir, a) = entry_key (dir, b) \<longleftrightarrow> a = b"
  by (auto simp: entry_key_def parent_dir_def)

lemma temp_entry_key: "entry_key (temp_path (dir, a)) = entry_key (dir, a @ ''.tmp'')"
  by (simp add: temp_path_def)

lemma manifest_not_index: "kManifestName \<noteq> index_file_name g"
proof
  assume "kManifestName = index_file_name g"
  then have "parse_index_name kManifestName = Some (unat g)" by (metis parse_index_file_name)
  then show False by (simp add: parse_index_name_def kManifestName_def)
qed

lemma temp_names: "a @ ''.tmp'' \<noteq> index_file_name g" "a @ ''.tmp'' \<noteq> kManifestName"
  using index_name_not_temp [of "[]" g] manifest_not_temp [of "[]"] unfolding is_temp_def by (metis snd_conv)+

lemma doomed_spares:
  assumes "doomed m name" "mf_file m = index_file_name g"
  shows "name \<noteq> kManifestName" "name \<noteq> index_file_name g"
proof -
  let ?temp = "4 \<le> length name \<and> drop (length name - 4) name = ''.tmp''"
  have cut: "name = take (length name - 4) name @ ''.tmp''" if ?temp using that append_take_drop_id [of "length name - 4" name] by metis
  show "name \<noteq> kManifestName"
  proof
    assume n: "name = kManifestName"
    have "parse_index_name kManifestName = None" by (simp add: parse_index_name_def kManifestName_def)
    then have ?temp using assms(1) n by (auto simp: doomed_def Let_def split: if_splits)
    then show False using cut n temp_names(2) by metis
  qed
  show "name \<noteq> index_file_name g"
  proof
    assume n: "name = index_file_name g"
    then have ?temp using assms by (auto simp: doomed_def Let_def split: if_splits)
    then show False using cut n temp_names(1) by metis
  qed
qed

subsection \<open>Reading changes nothing\<close>

definition same_disk :: "world \<Rightarrow> world \<Rightarrow> bool" where
  "same_disk w w' \<longleftrightarrow> wd_disk w' = wd_disk w \<and> wd_history w' = wd_history w"

lemma same_disk_trans: "same_disk w w1 \<Longrightarrow> same_disk w1 w2 \<Longrightarrow> same_disk w w2"
  by (simp add: same_disk_def)

lemma same_disk_stays: "same_disk w w' \<Longrightarrow> stays P w w'"
  by (simp add: same_disk_def stays_same)

lemma event_same_disk: "next_event w = (e, w1) \<Longrightarrow> same_disk w w1"
  using next_event_same by (simp add: same_disk_def)

lemma read_calls_same:
  "fs_exists p w = (b, w1) \<Longrightarrow> same_disk w w1" "stream_open p w = (x, w1) \<Longrightarrow> same_disk w w1" "stream_read n data w = (x, w1) \<Longrightarrow> same_disk w w1"
  "sys_touch w = (y, w1) \<Longrightarrow> same_disk w w1"
  by (auto simp: fs_exists_def stream_open_def stream_read_def sys_touch_def dest: event_same_disk split: prod.splits)

lemma read_small_file_same: "read_small_file p limit name w = (r, w') \<Longrightarrow> same_disk w w'"
  by (auto simp: read_small_file_def split: prod.splits option.splits if_splits dest!: read_calls_same(2,3) intro: same_disk_trans)

lemma read_manifest_same: "read_manifest dir w = (r, w') \<Longrightarrow> same_disk w w'"
  by (auto simp: read_manifest_def split: prod.splits bool.splits sum.splits dest!: read_calls_same(1) read_small_file_same intro: same_disk_trans)

lemma read_header_crc_same: "read_header_crc p w = (r, w') \<Longrightarrow> same_disk w w'"
  by (auto simp: read_header_crc_def Let_def split: prod.splits option.splits if_splits dest!: read_calls_same(2,3) intro: same_disk_trans)

lemma length_string_bytes [simp]: "length (string_bytes t) = length t"
  by (simp add: string_bytes_def)

lemma stream_open_result:
  assumes "stream_open p w = (x, w1)"
  shows "x = None \<or> x = file_at (wd_disk w) (entry_key p)"
proof -
  obtain e w0 where e: "next_event w = (e, w0)" by fastforce
  then show ?thesis using assms next_event_same [OF e] by (auto simp: stream_open_def split: if_splits)
qed

lemma read_small_file_result:
  assumes "read_small_file p limit name w = (r, w')" "file_at (wd_disk w) (entry_key p) = Some (string_bytes t)" "length t \<le> limit"
  shows "r = Inr t \<or> (\<exists>m. r = Inl (io_error m))"
proof -
  obtain x w1 where o: "stream_open p w = (x, w1)" by fastforce
  have x: "x = None \<or> x = file_at (wd_disk w) (entry_key p)" by (rule stream_open_result [OF o])
  obtain y w2 where y: "stream_read (limit + 1) (string_bytes t) w1 = (y, w2)" by fastforce
  have "y = None \<or> y = Some (string_bytes t)" using y assms(3) by (auto simp: stream_read_def split: prod.splits if_splits)
  then show ?thesis using x assms y by (auto simp: read_small_file_def o)
qed

subsection \<open>Manifests on disk\<close>

definition manifest_for :: "u64 \<Rightarrow> u8 list \<Rightarrow> manifest" where
  "manifest_for g b = \<lparr>mf_format = 1, mf_generation = g, mf_file = index_file_name g, mf_crc32c = header_crc (take kHeaderSize b)\<rparr>"

definition manifest_bytes :: "u64 \<Rightarrow> u8 list \<Rightarrow> u8 list" where
  "manifest_bytes g b = string_bytes (encode_manifest (manifest_for g b))"

lemma manifest_for_facts [simp]:
  "mf_file (manifest_for g b) = index_file_name g" "mf_generation (manifest_for g b) = g" "mf_crc32c (manifest_for g b) = header_crc (take kHeaderSize b)"
  "decode_manifest (encode_manifest (manifest_for g b)) = Inr (manifest_for g b)"
  by (simp_all add: manifest_for_def manifest_decodes)

lemma manifest_short: "length (encode_manifest (manifest_for g b)) \<le> kMaxManifestBytes"
proof -
  have w: "length (show_nat (unat (x :: 'a::len word))) \<le> 20" if "LENGTH('a) \<le> 64" for x
  proof -
    have "unat x < 2 ^ LENGTH('a)" by (rule unsigned_less)
    also have "\<dots> \<le> 2 ^ 64" using that by (intro power_increasing) simp_all
    finally show ?thesis by (intro length_show_nat) simp_all
  qed
  show ?thesis using w [of g] w [of "1 :: u32"] w [of "header_crc (take kHeaderSize b)"]
    by (simp add: encode_manifest_def manifest_for_def quoted_def index_file_name_def Let_def kMaxManifestBytes_def)
qed

lemma read_manifest_result:
  assumes "read_manifest dir w = (r, w')"
  shows "file_at (wd_disk w) (entry_key (dir, kManifestName)) = None \<Longrightarrow> \<exists>m. r = Inl (not_found m)"
    "file_at (wd_disk w) (entry_key (dir, kManifestName)) = Some (manifest_bytes g b) \<Longrightarrow>
     r = Inr (manifest_for g b) \<or> (\<exists>m. r = Inl (io_error m)) \<or> \<not> fst (fs_exists (dir, kManifestName) w) \<and> (\<exists>m. r = Inl (not_found m))"
proof -
  obtain e w1 where e: "next_event w = (e, w1)" by fastforce
  note same = next_event_same [OF e]
  show "\<exists>m. r = Inl (not_found m)" if "file_at (wd_disk w) (entry_key (dir, kManifestName)) = None"
    using assms that same by (auto simp: read_manifest_def fs_exists_def e file_at_def)
  show "r = Inr (manifest_for g b) \<or> (\<exists>m. r = Inl (io_error m)) \<or> \<not> fst (fs_exists (dir, kManifestName) w) \<and> (\<exists>m. r = Inl (not_found m))"
    if f: "file_at (wd_disk w) (entry_key (dir, kManifestName)) = Some (manifest_bytes g b)"
  proof (cases "fst (fs_exists (dir, kManifestName) w)")
    case True
    obtain r2 w2 where r2: "read_small_file (dir, kManifestName) kMaxManifestBytes ''MANIFEST'' w1 = (r2, w2)" by fastforce
    have ex: "fs_exists (dir, kManifestName) w = (True, w1)" using True by (simp add: fs_exists_def e)
    have "r2 = Inr (encode_manifest (manifest_for g b)) \<or> (\<exists>m. r2 = Inl (io_error m))"
      using read_small_file_result [OF r2 _ manifest_short] f same by (simp add: manifest_bytes_def)
    then show ?thesis using assms by (auto simp: read_manifest_def ex r2)
  next
    case False
    then have "fs_exists (dir, kManifestName) w = (False, w1)" by (simp add: fs_exists_def e)
    then show ?thesis using assms by (auto simp: read_manifest_def)
  qed
qed

lemma read_header_crc_result:
  assumes "read_header_crc p w = (r, w')" "file_at (wd_disk w) (entry_key p) = Some b"
  shows "r = Inr (header_crc (take kHeaderSize b)) \<or> (\<exists>m. r = Inl (io_error m))"
proof -
  obtain x w1 where o: "stream_open p w = (x, w1)" by fastforce
  obtain y w2 where y: "stream_read kHeaderSize b w1 = (y, w2)" by fastforce
  have "y = None \<or> y = Some (take kHeaderSize b)" using y by (auto simp: stream_read_def split: prod.splits if_splits)
  then show ?thesis using assms y stream_open_result [OF o] by (auto simp: read_header_crc_def o Let_def split: if_splits)
qed

subsection \<open>Durable snapshots\<close>

definition pinned :: "disk \<Rightarrow> path \<Rightarrow> u8 list option \<Rightarrow> bool" where
  "pinned d k v \<longleftrightarrow> crash_values d k \<subseteq> {v}"

text \<open>The files a crash may leave.\<close>

definition after_crash :: "disk \<Rightarrow> (path \<Rightarrow> u8 list option) \<Rightarrow> bool" where
  "after_crash d c \<longleftrightarrow> (\<forall>k. c k \<in> crash_values d k)"

lemma pinned_value: "pinned d k v \<Longrightarrow> after_crash d c \<Longrightarrow> c k = v"
  unfolding pinned_def after_crash_def by blast

lemma pinned_file_at:
  assumes "disk_ok d" "pinned d k v"
  shows "file_at d k = v"
proof -
  have sub: "entry_values d (dk_entry d k) \<subseteq> {v}" using current_crash_value [OF assms(1), of k] assms(2) by (simp add: pinned_def)
  show ?thesis
  proof (cases "dk_entry d k")
    case (Some i)
    have "dk_synced d i"
    proof (rule ccontr)
      assume "\<not> dk_synced d i"
      then have "Some [] \<in> entry_values d (dk_entry d k)" "Some [0] \<in> entry_values d (dk_entry d k)" by (simp_all add: Some)
      then show False using sub by blast
    qed
    then show ?thesis using sub by (simp add: Some file_at_def)
  qed (use sub in \<open>simp add: file_at_def\<close>)
qed

fun durable :: "string \<Rightarrow> (u64 \<times> u8 list) option \<Rightarrow> disk \<Rightarrow> bool" where
  "durable dir None d = pinned d (entry_key (dir, kManifestName)) None"
| "durable dir (Some (g, b)) d =
     (pinned d (entry_key (dir, kManifestName)) (Some (manifest_bytes g b)) \<and> pinned d (entry_key (dir, index_file_name g)) (Some b))"

text \<open>What the files of a directory hold.\<close>

fun holds :: "string \<Rightarrow> (u64 \<times> u8 list) option \<Rightarrow> (path \<Rightarrow> u8 list option) \<Rightarrow> bool" where
  "holds dir None c = (c (entry_key (dir, kManifestName)) = None)"
| "holds dir (Some (g, b)) c =
     (c (entry_key (dir, kManifestName)) = Some (manifest_bytes g b) \<and> c (entry_key (dir, index_file_name g)) = Some b)"

definition recovers :: "string \<Rightarrow> (u64 \<times> u8 list) option \<Rightarrow> u64 \<times> u8 list \<Rightarrow> disk \<Rightarrow> bool" where
  "recovers dir old new d \<longleftrightarrow> disk_ok d \<and> (\<forall>c. after_crash d c \<longrightarrow> holds dir old c \<or> holds dir (Some new) c)"

text \<open>The files a crash may leave when directories may vanish with what they hold.\<close>

definition survives :: "directories \<Rightarrow> disk \<Rightarrow> (path \<Rightarrow> u8 list option) \<Rightarrow> bool" where
  "survives ds d c \<longleftrightarrow> (\<exists>alive. (\<forall>n. alive n \<in> set (ds n)) \<and> (\<forall>k. c k \<in> (if alive (fst k) then crash_values d k else {None})))"

lemma entry_key_dir: "fst (entry_key (dir, a)) = parent_dir (dir, [])"
  by (simp add: entry_key_def parent_dir_def)

lemma survives_holds:
  assumes "survives ds d c" "disk_ok d"
  shows "(\<exists>c'. after_crash d c' \<and> (\<forall>a. c' (entry_key (dir, a)) = c (entry_key (dir, a)))) \<or>
    False \<in> set (ds (parent_dir (dir, []))) \<and> holds dir None c"
proof -
  obtain alive where al: "\<forall>n. alive n \<in> set (ds n)" "\<forall>k. c k \<in> (if alive (fst k) then crash_values d k else {None})"
    using assms(1) unfolding survives_def by blast
  let ?n = "parent_dir (dir, [])"
  show ?thesis
  proof (cases "alive ?n")
    case True
    have "\<exists>c'. \<forall>k. c' k \<in> crash_values d k \<and> (fst k = ?n \<longrightarrow> c' k = c k)"
    proof (rule choice, rule allI)
      fix k show "\<exists>x. x \<in> crash_values d k \<and> (fst k = ?n \<longrightarrow> x = c k)"
      proof (cases "fst k = ?n")
        case True
        then show ?thesis using al(2) [rule_format, of k] \<open>alive ?n\<close> by auto
      next
        case False
        have "entry_values d (dk_entry d k) \<noteq> {}" by (cases "dk_entry d k") auto
        then show ?thesis using False current_crash_value [OF assms(2), of k] by blast
      qed
    qed
    then show ?thesis unfolding after_crash_def using entry_key_dir by blast
  next
    case False
    then have "False \<in> set (ds ?n)" using al(1) by metis
    moreover have "c (entry_key (dir, kManifestName)) = None"
      using al(2) [rule_format, of "entry_key (dir, kManifestName)"] False by (simp add: entry_key_dir)
    ultimately show ?thesis by simp
  qed
qed

lemma durable_holds: "durable dir x d \<Longrightarrow> after_crash d c \<Longrightarrow> holds dir x c"
  by (cases "(dir, x, d)" rule: durable.cases) (auto intro: pinned_value)

lemma durable_recovers: "disk_ok d \<Longrightarrow> durable dir old d \<or> durable dir (Some new) d \<Longrightarrow> recovers dir old new d"
  using durable_holds unfolding recovers_def by blast

lemma pinned_replacing:
  assumes "replacing target bytes d0 d" "pinned d0 k v" "k \<noteq> entry_key (temp_path target)" "k \<noteq> entry_key target"
  shows "pinned d k v"
  using replacingD(2) [OF assms(1,3)] assms(2,4) by (auto simp: pinned_def)

text \<open>Writing another generation keeps the current one.\<close>

lemma durable_save:
  assumes "replacing (dir, index_file_name g1) b1 d0 d" "durable dir old d0" "\<forall>g b. old = Some (g, b) \<longrightarrow> g \<noteq> g1"
  shows "durable dir old d"
proof -
  have keys: "entry_key (dir, kManifestName) \<noteq> entry_key (temp_path (dir, index_file_name g1))" "entry_key (dir, kManifestName) \<noteq> entry_key (dir, index_file_name g1)"
    "entry_key (dir, index_file_name g) \<noteq> entry_key (temp_path (dir, index_file_name g1))"
    "g \<noteq> g1 \<Longrightarrow> entry_key (dir, index_file_name g) \<noteq> entry_key (dir, index_file_name g1)" for g
    unfolding temp_entry_key entry_key_inj using temp_names manifest_not_index index_file_name_inj by metis+
  show ?thesis using assms(2,3) pinned_replacing [OF assms(1)] keys by (cases "(dir, old, d0)" rule: durable.cases) auto
qed

text \<open>While MANIFEST is replaced, both generations are complete.\<close>

lemma recovers_manifest:
  assumes r: "replacing (dir, kManifestName) (manifest_bytes g1 b1) d0 d" and old: "durable dir old d0" and new: "pinned d0 (entry_key (dir, index_file_name g1)) (Some b1)"
  shows "recovers dir old (g1, b1) d" "pinned d (entry_key (dir, index_file_name g1)) (Some b1)"
proof -
  have keys: "entry_key (dir, index_file_name g) \<noteq> entry_key (temp_path (dir, kManifestName))" "entry_key (dir, index_file_name g) \<noteq> entry_key (dir, kManifestName)"
    "entry_key (dir, kManifestName) \<noteq> entry_key (temp_path (dir, kManifestName))" for g
    unfolding temp_entry_key entry_key_inj using temp_names manifest_not_index by metis+
  have pin: "pinned d0 (entry_key (dir, index_file_name g)) v \<Longrightarrow> pinned d (entry_key (dir, index_file_name g)) v" for g v
    using pinned_replacing [OF r _ keys(1,2)] .
  show n: "pinned d (entry_key (dir, index_file_name g1)) (Some b1)" by (rule pin [OF new])
  have m: "crash_values d (entry_key (dir, kManifestName)) \<subseteq> crash_values d0 (entry_key (dir, kManifestName)) \<union> {Some (manifest_bytes g1 b1)}"
    using replacingD(2) [OF r keys(3)] by simp
  have "holds dir old c \<or> holds dir (Some (g1, b1)) c" if c: "after_crash d c" for c
  proof -
    have f: "c (entry_key (dir, index_file_name g)) = v" if "pinned d0 (entry_key (dir, index_file_name g)) v" for g v
      by (rule pinned_value [OF pin [OF that] c])
    have "c (entry_key (dir, kManifestName)) \<in> crash_values d0 (entry_key (dir, kManifestName)) \<or> c (entry_key (dir, kManifestName)) = Some (manifest_bytes g1 b1)"
      using m c unfolding after_crash_def by blast
    then show ?thesis using old f [OF new] f by (cases "(dir, old, d0)" rule: durable.cases) (auto simp: pinned_def)
  qed
  then show "recovers dir old (g1, b1) d" using replacingD(1) [OF r] by (simp add: recovers_def)
qed

subsection \<open>Every step of a snapshot\<close>

definition complete :: "string \<Rightarrow> u64 \<times> u8 list \<Rightarrow> disk \<Rightarrow> bool" where
  "complete dir new d \<longleftrightarrow> disk_ok d \<and> durable dir (Some new) d"

lemma complete_recovers: "complete dir new d \<Longrightarrow> recovers dir old new d"
  by (simp add: complete_def durable_recovers)

lemma fs_remove_effect:
  assumes "fs_remove p w = (x, w1)"
  shows "same_disk w w1 \<or> wd_disk w1 = bind_entry (entry_key p) None (wd_disk w) \<and> wd_history w1 = wd_history w @ [wd_disk w1]"
proof -
  obtain e w0 where e: "next_event w = (e, w0)" by fastforce
  show ?thesis using assms next_event_same [OF e] by (cases "fault e") (auto simp: fs_remove_def e same_disk_def set_disk_def split: if_splits)
qed

lemma complete_remove:
  assumes "complete dir (g, b) d" "doomed m name" "mf_file m = index_file_name g"
  shows "complete dir (g, b) (bind_entry (entry_key (dir, name)) None d)"
proof -
  have "entry_key (dir, kManifestName) \<noteq> entry_key (dir, name)" "entry_key (dir, index_file_name g) \<noteq> entry_key (dir, name)"
    unfolding entry_key_inj using doomed_spares [OF assms(2,3)] by auto
  then show ?thesis using assms(1) by (simp add: complete_def disk_ok_remove pinned_def crash_bind_entry)
qed

lemma garbage_loop_keeps:
  "garbage_loop dir m names report w = (r, w') \<Longrightarrow> mf_file m = index_file_name g \<Longrightarrow> stays (complete dir (g, b)) w w'"
proof (induction dir m names report w rule: garbage_loop.induct)
  case (3 dir m name names report w)
  show ?case
  proof (cases "doomed m name")
    case True
    obtain removed ec w1 where x: "fs_remove (dir, name) w = ((removed, ec), w1)" by (metis prod.exhaust)
    have "stays (complete dir (g, b)) w w1"
      using fs_remove_effect [OF x] complete_remove [OF _ True "3.prems"(2)]
      by (auto intro: same_disk_stays stays_set_disk [of _ _ "wd_disk w1"])
    moreover have "stays (complete dir (g, b)) w1 w'"
      using "3.IH"(2) [OF _ x [symmetric]] True "3.prems" by (simp add: x)
    ultimately show ?thesis by (rule stays_trans)
  next
    case False
    then show ?thesis using 3 by simp
  qed
qed simp_all

lemma collect_garbage_keeps:
  assumes "collect_garbage dir names w = (r, w')" "complete dir (g, b) (wd_disk w)"
  shows "stays (complete dir (g, b)) w w'"
proof -
  have c: "disk_ok (wd_disk w)" "durable dir (Some (g, b)) (wd_disk w)" using assms(2) by (simp_all add: complete_def)
  have f: "file_at (wd_disk w) (entry_key (dir, kManifestName)) = Some (manifest_bytes g b)" by (rule pinned_file_at [OF c(1)]) (use c(2) in simp)
  obtain rm w1 where rm: "read_manifest dir w = (rm, w1)" by fastforce
  obtain t w2 where t: "sys_touch w1 = (t, w2)" by fastforce
  obtain rg w3 where rg: "garbage_loop dir (manifest_for g b) names \<lparr>gr_removed = 0, gr_failed = 0\<rparr> w2 = (rg, w3)" by fastforce
  have s: "stays (complete dir (g, b)) w w1" "stays (complete dir (g, b)) w1 w2" "stays (complete dir (g, b)) w2 w3"
    using read_manifest_same [OF rm] read_calls_same(4) [OF t] garbage_loop_keeps [OF rg] by (simp_all add: same_disk_stays)
  have "w' = w1 \<or> w' = w2 \<or> w' = w3"
    using assms(1) read_manifest_result(2) [OF rm f] rg by (cases t; cases rg) (auto simp: collect_garbage_def rm t)
  then show ?thesis using s stays_trans by blast
qed

lemma publish_snapshot_safe:
  assumes run: "publish_snapshot mem names dir g (header_crc (take kHeaderSize b)) w = (r, w')" and ok: "disk_ok (wd_disk w)"
    and old: "durable dir old (wd_disk w)" and new: "pinned (wd_disk w) (entry_key (dir, index_file_name g)) (Some b)"
  shows "stays (recovers dir old (g, b)) w w'" "r = Returned (Inr g') \<Longrightarrow> g' = g \<and> complete dir (g, b) (wd_disk w')"
proof -
  let ?p = "(dir, kManifestName)"
  obtain r1 w1 where r1: "write_text (sm_manifest mem) ?p (encode_manifest (manifest_for g b)) w = (r1, w1)" by fastforce
  note W = write_text_safe [OF ok manifest_not_temp r1, folded manifest_bytes_def]
  have s1: "stays (recovers dir old (g, b)) w w1"
    by (rule stays_weaken [OF W(1) replacing_refl [OF ok]]) (rule recovers_manifest(1) [OF _ old new])
  have r: "replacing ?p (manifest_bytes g b) (wd_disk w) (wd_disk w1)" using W(1) replacing_refl [OF ok] by (simp add: stays_def)
  have c1: "complete dir (g, b) (wd_disk w1)" if "r1 = Returned st" "status_ok st" for st
    using W(2) [OF that] recovers_manifest(2) [OF r old new] replacingD(1) [OF r] by (simp add: complete_def published_def pinned_def)
  obtain r2 w2 where r2: "collect_garbage dir names w1 = (r2, w2)" by fastforce
  have s2: "stays (recovers dir old (g, b)) w w2 \<and> complete dir (g, b) (wd_disk w2)" if "r1 = Returned st" "status_ok st" for st
  proof -
    have k: "stays (complete dir (g, b)) w1 w2" by (rule collect_garbage_keeps [OF r2 c1 [OF that]])
    have "stays (recovers dir old (g, b)) w1 w2" by (rule stays_weaken [OF k c1 [OF that]]) (rule complete_recovers)
    moreover have "complete dir (g, b) (wd_disk w2)" using k c1 [OF that] by (simp add: stays_def)
    ultimately show ?thesis using stays_trans [OF s1] by blast
  qed
  have m: "\<lparr>mf_format = 1, mf_generation = g, mf_file = index_file_name g, mf_crc32c = header_crc (take kHeaderSize b)\<rparr> = manifest_for g b" by (simp add: manifest_for_def)
  have "stays (recovers dir old (g, b)) w w' \<and> (\<forall>g'. r = Returned (Inr g') \<longrightarrow> g' = g \<and> complete dir (g, b) (wd_disk w'))"
  proof (cases r1)
    case (Returned st)
    then show ?thesis using run s1 s2 [OF Returned] by (cases r2) (auto simp: publish_snapshot_def write_manifest_def m r1 r2 split: if_splits)
  qed (use run s1 in \<open>auto simp: publish_snapshot_def write_manifest_def m r1\<close>)
  then show "stays (recovers dir old (g, b)) w w'" "r = Returned (Inr g') \<Longrightarrow> g' = g \<and> complete dir (g, b) (wd_disk w')" by simp_all
qed

lemma save_generation_safe:
  assumes run: "save_generation mem names s dir g w = (r, w')" and s: "savable s" and ok: "disk_ok (wd_disk w)"
    and old: "durable dir old (wd_disk w)" "\<forall>g0 b0. old = Some (g0, b0) \<longrightarrow> g0 \<noteq> g"
  shows "stays (recovers dir old (g, saved_file s)) w w'" "r = Returned (Inr g') \<Longrightarrow> g' = g \<and> complete dir (g, saved_file s) (wd_disk w')"
proof -
  let ?p = "(dir, index_file_name g)" and ?b = "saved_file s"
  obtain r1 w1 where r1: "collection_save (sm_file mem) (sm_index mem) s ?p w = (r1, w1)" by fastforce
  note W = save_safe [OF s ok index_name_not_temp r1]
  have "recovers dir old (g, ?b) d" if "replacing ?p ?b (wd_disk w) d" for d
    using durable_save [OF that old] replacingD(1) [OF that] by (simp add: durable_recovers)
  then have s1: "stays (recovers dir old (g, ?b)) w w1" by (rule stays_weaken [OF W(1) replacing_refl [OF ok]])
  have r: "replacing ?p ?b (wd_disk w) (wd_disk w1)" using W(1) replacing_refl [OF ok] by (simp add: stays_def)
  have d1: "disk_ok (wd_disk w1)" "durable dir old (wd_disk w1)" using replacingD(1) [OF r] durable_save [OF r old] by simp_all
  obtain r2 w2 where r2: "read_header_crc ?p w1 = (r2, w2)" by fastforce
  note same = read_header_crc_same [OF r2, unfolded same_disk_def]
  have s2: "stays (recovers dir old (g, ?b)) w w2" by (rule stays_trans [OF s1 same_disk_stays [OF read_header_crc_same [OF r2]]])
  obtain r3 w3 where r3: "publish_snapshot mem names dir g (header_crc (take kHeaderSize ?b)) w2 = (r3, w3)" by fastforce
  have p: "r2 = Inr (header_crc (take kHeaderSize ?b)) \<or> (\<exists>m. r2 = Inl (io_error m))" "stays (recovers dir old (g, ?b)) w w3"
    "r3 = Returned (Inr g') \<Longrightarrow> g' = g \<and> complete dir (g, ?b) (wd_disk w3)" if "r1 = Returned st" "status_ok st" for st g'
  proof -
    have "crash_values (wd_disk w1) (entry_key ?p) = {Some ?b}" "file_at (wd_disk w1) (entry_key ?p) = Some ?b" using W(2) [OF that] by (simp_all add: published_def)
    then show "r2 = Inr (header_crc (take kHeaderSize ?b)) \<or> (\<exists>m. r2 = Inl (io_error m))" using read_header_crc_result [OF r2] by blast
    have n: "pinned (wd_disk w2) (entry_key ?p) (Some ?b)" using W(2) [OF that] same by (simp add: published_def pinned_def)
    have o: "disk_ok (wd_disk w2)" "durable dir old (wd_disk w2)" using d1 same by simp_all
    note P = publish_snapshot_safe [OF r3 o n]
    show "stays (recovers dir old (g, ?b)) w w3" by (rule stays_trans [OF s2 P(1)])
    show "r3 = Returned (Inr g') \<Longrightarrow> g' = g \<and> complete dir (g, ?b) (wd_disk w3)" by (rule P(2))
  qed
  have "stays (recovers dir old (g, ?b)) w w' \<and> (\<forall>g'. r = Returned (Inr g') \<longrightarrow> g' = g \<and> complete dir (g, ?b) (wd_disk w'))"
  proof (cases r1)
    case (Returned st)
    then show ?thesis using run s1 s2 p [OF Returned] r3 by (cases "status_ok st") (auto simp: save_generation_def Let_def r1 r2)
  qed (use run s1 in \<open>auto simp: save_generation_def Let_def r1\<close>)
  then show "stays (recovers dir old (g, ?b)) w w'" "r = Returned (Inr g') \<Longrightarrow> g' = g \<and> complete dir (g, ?b) (wd_disk w')" by simp_all
qed

fun generation_after :: "(u64 \<times> 'a) option \<Rightarrow> u64" where
  "generation_after None = 1"
| "generation_after (Some (g, _)) = g + 1"

lemma save_snapshot_safe:
  assumes run: "save_snapshot mem names s dir ds w = (r, ds', w')" and s: "savable s" and ok: "disk_ok (wd_disk w)" and old: "durable dir old (wd_disk w)"
    and seen: "old \<noteq> None \<Longrightarrow> fst (fs_exists (dir, kManifestName) (snd (sys_touch w)))"
  defines "g \<equiv> generation_after old"
  shows "stays (recovers dir old (g, saved_file s)) w w'" "r = Returned (Inr g') \<Longrightarrow> g' = g \<and> complete dir (g, saved_file s) (wd_disk w')"
    "ds' = ds \<and> (\<forall>g'. r \<noteq> Returned (Inr g')) \<or> ds' = make_directory (parent_dir (dir, [])) ds"
proof -
  let ?R = "recovers dir old (g, saved_file s)"
  obtain t w1 where t: "sys_touch w = (t, w1)" by fastforce
  obtain rm w2 where rm: "read_manifest dir w1 = (rm, w2)" by fastforce
  have same: "same_disk w w1" "same_disk w1 w2" using read_calls_same(4) [OF t] read_manifest_same [OF rm] .
  have d2: "disk_ok (wd_disk w2)" "durable dir old (wd_disk w2)" using same ok old by (simp_all add: same_disk_def)
  have ng: "next_generation rm = Inr g \<or> (\<exists>st. next_generation rm = Inl st)"
  proof (cases old)
    case None
    then have "file_at (wd_disk w1) (entry_key (dir, kManifestName)) = None" using pinned_file_at [OF ok] old same by (simp add: same_disk_def)
    then show ?thesis using read_manifest_result(1) [OF rm] None by (auto simp: next_generation_def g_def)
  next
    case (Some gb)
    obtain g0 b0 where gb: "gb = (g0, b0)" by (cases gb)
    have "file_at (wd_disk w1) (entry_key (dir, kManifestName)) = Some (manifest_bytes g0 b0)" using pinned_file_at [OF ok] old same Some by (simp add: same_disk_def gb)
    from read_manifest_result(2) [OF rm this] have "rm = Inr (manifest_for g0 b0) \<or> (\<exists>m. rm = Inl (io_error m))" using seen t Some by auto
    then show ?thesis by (elim disjE exE) (simp_all add: next_generation_def g_def gb Some)
  qed
  have other: "\<forall>g0 b0. old = Some (g0, b0) \<longrightarrow> g0 \<noteq> g" by (auto simp: g_def)
  obtain r3 w3 where r3: "save_generation mem names s dir g w2 = (r3, w3)" by fastforce
  note S = save_generation_safe [OF r3 s d2 other]
  have s2: "stays ?R w w1" "stays ?R w w2" using same by (auto intro: same_disk_stays same_disk_trans)
  have s3: "stays ?R w w3" by (rule stays_trans [OF s2(2) S(1)])
  have "stays ?R w w' \<and> (\<forall>g'. r = Returned (Inr g') \<longrightarrow> g' = g \<and> complete dir (g, saved_file s) (wd_disk w'))"
    using run ng s2 s3 S(2) r3 by (cases t) (auto simp: save_snapshot_def create_directories_def t rm)
  moreover show "ds' = ds \<and> (\<forall>g'. r \<noteq> Returned (Inr g')) \<or> ds' = make_directory (parent_dir (dir, [])) ds"
    using run r3 ng by (cases t) (auto simp: save_snapshot_def create_directories_def t rm split: sum.splits)
  ultimately show "stays ?R w w'" "r = Returned (Inr g') \<Longrightarrow> g' = g \<and> complete dir (g, saved_file s) (wd_disk w')" by simp_all
qed

subsection \<open>Loading after a crash\<close>

definition plentiful_load :: load_mem where
  "plentiful_load = \<lparr>lm_mapping = True, lm_read = plentiful, lm_impl = True\<rparr>"

definition loads :: "load_options \<Rightarrow> string \<Rightarrow> world \<Rightarrow> collection_state \<Rightarrow> bool" where
  "loads opts dir w s \<longleftrightarrow>
     (\<exists>s' w'. load_snapshot plentiful_load scalar_selection True opts dir w = (Returned (Inr s'), w') \<and> coll_inv s' \<and> reloaded (load_read_options opts) s s')"

lemma quiet_event: "wd_events w = [] \<Longrightarrow> next_event w = (Proceed, w)"
  by (simp add: next_event_def)

lemma saved_file_length:
  assumes "savable s"
  shows "kHeaderSize \<le> length (saved_file s)" "length (saved_file s) < 2 ^ 64"
proof -
  let ?cells = "cells_of s" and ?pos = "kHeaderSize + length (body kHeaderSize (cells_of s))"
  let ?off = "up ?pos kSectionAlignment"
  note w = savable_well_made [OF assms, unfolded well_made_def]
  have "length (concat (map section_entry_bytes xs)) = length xs * 32" for xs by (induction xs) (simp_all add: section_entry_bytes_def)
  then have len: "length (saved_file s) = kHeaderSize + length (body kHeaderSize ?cells) + (?off - ?pos) + length ?cells * 32"
    using decode_encode_header(3) by (simp add: saved_file_def file_bytes_def Let_def)
  have "?off \<le> ?pos + 7" "?pos < 2 ^ 62" using up_le [of ?pos kSectionAlignment] body_reach [of ?cells kHeaderSize] w by (simp_all add: kSectionAlignment_def)
  moreover have "length ?cells \<le> 64" using w by simp
  ultimately show "length (saved_file s) < 2 ^ 64" unfolding len by simp
  show "kHeaderSize \<le> length (saved_file s)" unfolding len by simp
qed

lemma load_held:
  assumes "savable s" "wd_events w = []" "holds dir (Some (g, saved_file s)) (file_at (wd_disk w))" "lo_concurrency opts \<in> {Coarse, Concurrent}"
  shows "loads opts dir w s"
proof -
  note q = quiet_event [OF assms(2)] and len = saved_file_length [OF assms(1)]
  have f: "file_at (wd_disk w) (entry_key (dir, kManifestName)) = Some (manifest_bytes g (saved_file s))"
    "file_at (wd_disk w) (entry_key (dir, index_file_name g)) = Some (saved_file s)" using assms(3) by simp_all
  have ver: "ro_verify (load_read_options opts) \<noteq> VerifyAuto" "ro_concurrency (load_read_options opts) \<in> {Coarse, Concurrent}"
    using assms(4) by (simp_all add: load_read_options_def)
  have e: "dk_entry (wd_disk w) (entry_key (dir, kManifestName)) \<noteq> None" using f(1) by (auto simp: file_at_def)
  have "read_manifest dir w = (Inr (manifest_for g (saved_file s)), w)"
    using f(1) e manifest_short [of g "saved_file s"] q
    by (simp add: read_manifest_def fs_exists_def read_small_file_def stream_open_def stream_read_def fault_def manifest_bytes_def)
  moreover have "read_header_crc (dir, index_file_name g) w = (Inr (header_crc (take kHeaderSize (saved_file s))), w)"
    using f(2) q len(1) by (simp add: read_header_crc_def stream_open_def stream_read_def fault_def Let_def)
  moreover have "mapped_open (dir, index_file_name g) w = (Inr (saved_file s), w)"
    using f(2) q len by (auto simp: mapped_open_def sys_touch_def fault_def kHeaderSize_def)
  moreover obtain s' where "read_index plentiful scalar_selection True (load_read_options opts) (saved_file s) = Returned (Inr s')" "coll_inv s'" "reloaded (load_read_options opts) s s'"
    using load_saved [OF assms(1) enough_plentiful ver, of True] by blast
  ultimately show ?thesis by (simp add: loads_def load_snapshot_def collection_load_def plentiful_load_def)
qed

fun recovered :: "load_options \<Rightarrow> string \<Rightarrow> (u64 \<times> collection_state) option \<Rightarrow> world \<Rightarrow> bool" where
  "recovered opts dir None w = (\<exists>m w'. load_snapshot plentiful_load scalar_selection True opts dir w = (Returned (Inl (not_found m)), w'))"
| "recovered opts dir (Some (g, s)) w = loads opts dir w s"

definition bytes_of :: "(u64 \<times> collection_state) option \<Rightarrow> (u64 \<times> u8 list) option" where
  "bytes_of x = map_option (\<lambda>(g, s). (g, saved_file s)) x"

lemma held_recovered:
  assumes "holds dir (bytes_of x) (file_at (wd_disk w))" "wd_events w = []" "lo_concurrency opts \<in> {Coarse, Concurrent}" "\<forall>g s. x = Some (g, s) \<longrightarrow> savable s"
  shows "recovered opts dir x w"
proof (cases x)
  case None
  then have "dk_entry (wd_disk w) (entry_key (dir, kManifestName)) = None" using assms(1) by (simp add: bytes_of_def file_at_def)
  then show ?thesis using quiet_event [OF assms(2)] by (auto simp: None load_snapshot_def read_manifest_def fs_exists_def)
next
  case (Some gs)
  obtain g s where gs: "gs = (g, s)" by (cases gs)
  then show ?thesis using load_held [of s w dir g opts] assms by (simp add: Some bytes_of_def)
qed

lemma generation_after_bytes: "generation_after (bytes_of x) = generation_after x"
  by (cases x) (auto simp: bytes_of_def)

subsection \<open>When nothing fails, a snapshot succeeds\<close>

lemma garbage_loop_returns: "None \<notin> set names \<Longrightarrow> \<exists>report w'. garbage_loop dir m names rep w = (Returned report, w')"
  by (induction dir m names rep w rule: garbage_loop.induct) (auto split: prod.splits)

lemma collect_garbage_returns:
  assumes "None \<notin> set names"
  shows "\<exists>x w'. collect_garbage dir names w = (Returned x, w')"
proof -
  obtain rm w1 where rm: "read_manifest dir w = (rm, w1)" by fastforce
  obtain t w2 where t: "sys_touch w1 = (t, w2)" by fastforce
  show ?thesis using garbage_loop_returns [OF assms] by (cases rm; cases t) (auto simp: collect_garbage_def rm t split: prod.splits outcome.splits, (metis outcome.distinct prod.inject)+)
qed

lemma read_header_crc_calm:
  assumes "calm w" "file_at (wd_disk w) (entry_key p) = Some b" "kHeaderSize \<le> length b"
  shows "read_header_crc p w = (Inr (header_crc (take kHeaderSize b)), w)"
  using assms by (simp add: read_header_crc_def stream_open_def stream_read_def Let_def)

lemma read_manifest_calm:
  assumes "calm w" "disk_ok (wd_disk w)" "durable dir old (wd_disk w)"
  shows "\<exists>rm. read_manifest dir w = (rm, w) \<and> next_generation rm = Inr (generation_after old)"
proof (cases old)
  case None
  then have "file_at (wd_disk w) (entry_key (dir, kManifestName)) = None" using pinned_file_at [OF assms(2)] assms(3) by simp
  then show ?thesis using assms(1) None by (auto simp: read_manifest_def fs_exists_def file_at_def next_generation_def)
next
  case (Some gb)
  obtain g b where gb: "gb = (g, b)" by (cases gb)
  have f: "file_at (wd_disk w) (entry_key (dir, kManifestName)) = Some (manifest_bytes g b)" using pinned_file_at [OF assms(2)] assms(3) Some by (simp add: gb)
  then have "dk_entry (wd_disk w) (entry_key (dir, kManifestName)) \<noteq> None" by (auto simp: file_at_def)
  then have "read_manifest dir w = (Inr (manifest_for g b), w)"
    using f assms(1) manifest_short [of g b] by (simp add: read_manifest_def fs_exists_def read_small_file_def stream_open_def stream_read_def manifest_bytes_def)
  then show ?thesis by (simp add: next_generation_def Some gb)
qed

lemma save_snapshot_succeeds:
  assumes s: "savable s" and w: "calm w" "disk_ok (wd_disk w)" "durable dir old (wd_disk w)" and names: "None \<notin> set names"
  shows "\<exists>w'. save_snapshot \<lparr>sm_file = True, sm_index = True, sm_manifest = True\<rparr> names s dir ds w =
    (Returned (Inr (generation_after old)), make_directory (parent_dir (dir, [])) ds, w')"
proof -
  let ?g = "generation_after old"
  obtain rm where rm: "read_manifest dir w = (rm, w)" "next_generation rm = Inr ?g" using read_manifest_calm [OF w] by blast
  obtain w1 where w1: "collection_save True True s (dir, index_file_name ?g) w = (Returned ok_status, w1)" "calm w1"
    using save_succeeds [OF s w(2) index_name_not_temp w(1)] by blast
  note W = save_safe [OF s w(2) index_name_not_temp w1(1)]
  have "file_at (wd_disk w1) (entry_key (dir, index_file_name ?g)) = Some (saved_file s)" using W(2) [OF refl] by (simp add: published_def)
  then have crc: "read_header_crc (dir, index_file_name ?g) w1 = (Inr (header_crc (take kHeaderSize (saved_file s))), w1)"
    by (rule read_header_crc_calm [OF w1(2) _ saved_file_length(1) [OF s]])
  have ok: "disk_ok (wd_disk w1)" using W(1) replacing_refl [OF w(2)] replacingD(1) unfolding stays_def by blast
  obtain w2 where w2: "write_text True (dir, kManifestName) (encode_manifest (manifest_for ?g (saved_file s))) w1 = (Returned ok_status, w2)"
    using write_text_succeeds [OF ok manifest_not_temp w1(2)] by blast
  obtain x w3 where w3: "collect_garbage dir names w2 = (Returned x, w3)" using collect_garbage_returns [OF names] by blast
  show ?thesis using w(1) rm w1(1) crc w2 w3
    by (simp add: save_snapshot_def create_directories_def sys_touch_def save_generation_def publish_snapshot_def write_manifest_def manifest_for_def)
qed

subsection \<open>Properties\<close>

text \<open>Nothing syncs the parent of a directory that the snapshot had to create: even after a snapshot that
  returned, a crash may leave no snapshot at all.\<close>

lemma recovered_None: "wd_events v = [] \<Longrightarrow> file_at (wd_disk v) (entry_key (dir, kManifestName)) = None \<Longrightarrow> recovered opts dir None v"
  by (auto simp: file_at_def load_snapshot_def read_manifest_def fs_exists_def quiet_event)

lemma new_directory_may_vanish:
  assumes "disk_ok (wd_disk w')" "save_snapshot mem names s dir ds w = (Returned (Inr g), ds', w')"
    and "\<forall>n. hd (ds n) \<in> set (ds n)" "ds (parent_dir (dir, [])) = [False]"
  shows "\<exists>v. wd_events v = [] \<and> survives ds' (wd_disk w') (file_at (wd_disk v)) \<and> recovered opts dir None v"
proof -
  let ?n = "parent_dir (dir, [])"
  let ?alive = "\<lambda>n. if n = ?n then False else hd (ds n)"
  let ?e = "(wd_disk w')\<lparr>dk_entry := (\<lambda>k. if ?alive (fst k) then dk_entry (wd_disk w') k else None)\<rparr>"
  let ?u = "w'\<lparr>wd_events := [], wd_disk := ?e\<rparr>"
  have ds': "ds' = ds(?n := [True, False])"
    using assms(2,4) by (auto simp: save_snapshot_def create_directories_def make_directory_def split: prod.splits option.splits sum.splits)
  have "file_at (wd_disk w') k \<in> crash_values (wd_disk w') k" for k
    using current_crash_value [OF assms(1), of k] by (cases "dk_entry (wd_disk w') k") (auto simp: file_at_def split: if_splits)
  then have "survives ds' (wd_disk w') (file_at (wd_disk ?u))"
    unfolding survives_def ds' using assms(3) by (intro exI [of _ ?alive]) (auto simp: file_at_def)
  moreover have "recovered opts dir None ?u" by (rule recovered_None) (simp_all add: file_at_def entry_key_dir)
  ultimately show ?thesis by (intro exI [of _ ?u]) simp
qed

text \<open>
  C10. Snapshots are crash safe, for a collection the format can hold (\<open>savable\<close>: a creator of at most 256
  bytes, \<open>max_level\<close> at most 32, no unlinked node, fewer than \<open>2 ^ 31\<close> upper-level words; for the collection
  of the previous snapshot too). Start from a directory whose last snapshot, if any, is durable and whose
  MANIFEST, if any, is seen by the call of \<open>exists\<close> (false otherwise: the error is taken for a missing file). Whatever
  other system call of the next snapshot fails, whatever allocation throws, and whenever the machine stops
  during it, the directory can be loaded afterwards: it gives the collection of the previous snapshot
  (or no snapshot, when there was none) or the collection being saved, with the same map, rows, labels,
  tombstones, parameters and graph; or the directory itself is gone, which can happen only where its own
  entry was not durable when the snapshot began: the code creates a missing directory but never syncs its
  parent. When the snapshot returns a generation, it is the next one and its files survive every
  later crash that the directory survives.
\<close>

theorem snapshot_crash_safe:
  assumes "savable s" "\<forall>g0 s0. old = Some (g0, s0) \<longrightarrow> savable s0" "disk_ok (wd_disk w)" "durable dir (bytes_of old) (wd_disk w)"
    "old \<noteq> None \<longrightarrow> fst (fs_exists (dir, kManifestName) (snd (sys_touch w)))" "save_snapshot mem names s dir ds w = (r, ds', w')"
    "lo_concurrency opts \<in> {Coarse, Concurrent}"
  shows "\<exists>hs. wd_history w' = wd_history w @ hs \<and>
    (\<forall>d\<in>set hs. \<forall>v. wd_events v = [] \<longrightarrow> survives ds' d (file_at (wd_disk v)) \<longrightarrow>
       recovered opts dir old v \<or> recovered opts dir (Some (generation_after old, s)) v \<or>
       False \<in> set (ds (parent_dir (dir, []))) \<and> recovered opts dir None v) \<and>
    (r = Returned (Inr g) \<longrightarrow> g = generation_after old \<and> disk_ok (wd_disk w') \<and> durable dir (bytes_of (Some (g, s))) (wd_disk w') \<and>
       hd (ds' (parent_dir (dir, []))) \<and>
       (\<forall>v. wd_events v = [] \<longrightarrow> survives ds' (wd_disk w') (file_at (wd_disk v)) \<longrightarrow>
          recovered opts dir (Some (g, s)) v \<or> False \<in> set (ds (parent_dir (dir, []))) \<and> recovered opts dir None v))"
proof -
  let ?n = "parent_dir (dir, [])"
  have seen: "bytes_of old \<noteq> None \<Longrightarrow> fst (fs_exists (dir, kManifestName) (snd (sys_touch w)))" using assms(5) by (simp add: bytes_of_def)
  note S = save_snapshot_safe [OF assms(6,1,3,4) seen, unfolded generation_after_bytes]
  have dirs: "False \<in> set (ds' ?n) \<Longrightarrow> False \<in> set (ds ?n)"
    using S(3) by (auto simp: make_directory_def split: list.splits bool.splits if_splits)
  have "recovers dir (bytes_of old) (generation_after old, saved_file s) (wd_disk w)" using assms(3,4) by (simp add: durable_recovers)
  then obtain hs where hs: "wd_history w' = wd_history w @ hs" "\<forall>d\<in>set hs. recovers dir (bytes_of old) (generation_after old, saved_file s) d"
    using S(1) unfolding stays_def by blast
  have new: "bytes_of (Some (generation_after old, s)) = Some (generation_after old, saved_file s)" by (simp add: bytes_of_def)
  have at: "recovered opts dir x v" if "holds dir (bytes_of x) c" "\<forall>a. c (entry_key (dir, a)) = file_at (wd_disk v) (entry_key (dir, a))"
      "wd_events v = []" "\<forall>g s. x = Some (g, s) \<longrightarrow> savable s" for x v c
  proof (rule held_recovered [OF _ that(3) assms(7) that(4)])
    show "holds dir (bytes_of x) (file_at (wd_disk v))" using that(1,2) by (cases "(dir, bytes_of x, c)" rule: holds.cases) auto
  qed
  have gone: "recovered opts dir None v" if "holds dir None (file_at (wd_disk v))" "wd_events v = []" for v
    by (rule recovered_None [OF that(2)]) (use that(1) in simp)
  have during: "recovered opts dir old v \<or> recovered opts dir (Some (generation_after old, s)) v \<or> False \<in> set (ds ?n) \<and> recovered opts dir None v"
    if "d \<in> set hs" "wd_events v = []" "survives ds' d (file_at (wd_disk v))" for d v
  proof -
    have R: "recovers dir (bytes_of old) (generation_after old, saved_file s) d" using hs(2) that(1) by blast
    from survives_holds [OF that(3), of dir] R consider
      (alive) c where "after_crash d c" "\<forall>a. c (entry_key (dir, a)) = file_at (wd_disk v) (entry_key (dir, a))"
      | (lost) "False \<in> set (ds' ?n)" "holds dir None (file_at (wd_disk v))" by (auto simp: recovers_def)
    then show ?thesis
    proof cases
      case alive
      then have "holds dir (bytes_of old) c \<or> holds dir (bytes_of (Some (generation_after old, s))) c"
        using R unfolding recovers_def new by blast
      then show ?thesis using at [OF _ alive(2) that(2)] assms(1,2) by blast
    next
      case lost
      then show ?thesis using gone [OF _ that(2)] dirs by blast
    qed
  qed
  have final: "g = generation_after old \<and> disk_ok (wd_disk w') \<and> durable dir (bytes_of (Some (g, s))) (wd_disk w') \<and> hd (ds' ?n) \<and>
       (\<forall>v. wd_events v = [] \<longrightarrow> survives ds' (wd_disk w') (file_at (wd_disk v)) \<longrightarrow>
          recovered opts dir (Some (g, s)) v \<or> False \<in> set (ds ?n) \<and> recovered opts dir None v)" if r: "r = Returned (Inr g)"
  proof -
    have c: "g = generation_after old" "disk_ok (wd_disk w')" "durable dir (bytes_of (Some (g, s))) (wd_disk w')"
      using S(2) [of g] r by (simp_all add: complete_def bytes_of_def)
    have "recovered opts dir (Some (g, s)) v \<or> False \<in> set (ds ?n) \<and> recovered opts dir None v"
      if "wd_events v = []" "survives ds' (wd_disk w') (file_at (wd_disk v))" for v
    proof -
      from survives_holds [OF that(2) c(2), of dir] consider
        (alive) c where "after_crash (wd_disk w') c" "\<forall>a. c (entry_key (dir, a)) = file_at (wd_disk v) (entry_key (dir, a))"
        | (lost) "False \<in> set (ds' ?n)" "holds dir None (file_at (wd_disk v))" by blast
      then show ?thesis
      proof cases
        case (alive f)
        then show ?thesis using at [OF durable_holds [OF c(3) alive(1)] alive(2) that(1)] assms(1) by blast
      next
        case lost
        then show ?thesis using gone [OF _ that(1)] dirs by blast
      qed
    qed
    moreover have "hd (ds' ?n)" using S(3) r by (auto simp: make_directory_def split: list.splits bool.splits)
    ultimately show ?thesis using c by blast
  qed
  show ?thesis using hs(1) during final by (intro exI [of _ hs]) blast
qed

theorem snapshot_crash_safe_witness:
  "\<exists>s w'. save_snapshot \<lparr>sm_file = True, sm_index = True, sm_manifest = True\<rparr> [Some ''MANIFEST''] s ''data'' (\<lambda>_. [True]) calm_world =
       (Returned (Inr 1), (\<lambda>_. [True]), w') \<and>
     coll_view s = [7 \<mapsto> [f32_one]] \<and> durable ''data'' (bytes_of (Some (1, s))) (wd_disk w')"
proof -
  obtain s where s: "savable s" "coll_view s = [7 \<mapsto> [f32_one]]" by (rule sample_savable)
  let ?opts = "\<lparr>lo_use_mmap = True, lo_verify = VerifyAuto, lo_prefault = False, lo_concurrency = Concurrent\<rparr>"
  have w: "calm calm_world" "disk_ok (wd_disk calm_world)" "durable ''data'' (bytes_of None) (wd_disk calm_world)"
    by (simp_all add: calm_def calm_world_def empty_disk_ok bytes_of_def pinned_def crash_values_def) (simp add: empty_disk_def)
  obtain w' where w': "save_snapshot \<lparr>sm_file = True, sm_index = True, sm_manifest = True\<rparr> [Some ''MANIFEST''] s ''data'' (\<lambda>_. [True]) calm_world =
      (Returned (Inr 1), (\<lambda>_. [True]), w')"
    using save_snapshot_succeeds [OF s(1) w, of "[Some ''MANIFEST'']" "\<lambda>_. [True]"] by (auto simp: bytes_of_def make_directory_def)
  have "durable ''data'' (bytes_of (Some (1, s))) (wd_disk w')"
    using snapshot_crash_safe [OF s(1) _ w(2,3) _ w', of ?opts 1] by auto
  then show ?thesis using s(2) w' by blast
qed

end
