(* ===== verification/VF_Catalog.thy ===== *)
theory VF_Catalog
  imports VF_Manifest VF_CollectionOps
begin

text \<open>
  The catalog of named collections (\<^verbatim>\<open>src/collection/catalog.cpp\<close>): the registry, the reference counts of the
  collections it hands out, and the directories below \<^verbatim>\<open>collections/\<close>, as a step relation. A step is one access to the
  registry under its lock or one operation on a directory; \<open>create\<close> holds the lock over many of them. Calls of
  the file system may fail where the code reports or ignores it. A directory is a map from file names to contents.
\<close>

subsection \<open>Names and configuration\<close>

definition kConfigName :: string where "kConfigName = ''config.json''"
definition kDroppedMarker :: string where "kDroppedMarker = ''DROPPED''"

definition unavailable :: "string \<Rightarrow> status" where
  "unavailable m = make_status Unavailable m"

definition name_char :: "char \<Rightarrow> bool" where
  "name_char c \<longleftrightarrow>
     (let x = of_char c :: nat
      in 97 \<le> x \<and> x \<le> 122 \<or> 65 \<le> x \<and> x \<le> 90 \<or> 48 \<le> x \<and> x \<le> 57 \<or> c = CHR ''_'' \<or> c = CHR ''-'')"

definition is_valid_name :: "string \<Rightarrow> bool" where
  "is_valid_name name \<longleftrightarrow> name \<noteq> [] \<and> length name \<le> 64 \<and> list_all name_char name"

definition temp_name :: "string \<Rightarrow> string" where
  "temp_name name = ''.'' @ name @ ''.creating''"

subsection \<open>State\<close>

type_synonym files = "string \<Rightarrow> string option"

text \<open>
  A collection that was handed out: \<open>ob_refs\<close> counts the references besides the one of the registry. Its deleter
  destroys it, removes its files and then forgets the name.
\<close>

datatype stage = Live | Deleting | Unlinked | Released

record cat_object =
  ob_name :: string
  ob_config :: collection_config
  ob_refs :: nat
  ob_dropped :: bool
  ob_stage :: stage

datatype create_phase = ClearTemp | ClearFinal | MadeTemp | WroteConfig | RenamedDir

record catalog =
  ct_slots :: "string \<Rightarrow> (nat \<times> u64) option"
  ct_dropping :: "string set"
  ct_objects :: "cat_object list"
  ct_dirs :: "string \<Rightarrow> files option"
  ct_create :: "(string \<times> collection_config \<times> create_phase) option"

definition empty_catalog :: catalog where
  "empty_catalog = \<lparr>ct_slots = (\<lambda>_. None), ct_dropping = {}, ct_objects = [], ct_dirs = (\<lambda>_. None), ct_create = None\<rparr>"

definition set_file :: "string \<Rightarrow> string \<Rightarrow> string option \<Rightarrow> catalog \<Rightarrow> catalog" where
  "set_file n f v s = s\<lparr>ct_dirs := (ct_dirs s)(n := map_option (\<lambda>fs. fs(f := v)) (ct_dirs s n))\<rparr>"

definition set_object :: "nat \<Rightarrow> cat_object \<Rightarrow> catalog \<Rightarrow> catalog" where
  "set_object i b s = s\<lparr>ct_objects := (ct_objects s)[i := b]\<rparr>"

subsection \<open>Operations\<close>

text \<open>The checks of \<open>create\<close>, in order; \<open>None\<close> goes on. \<open>Collection::create\<close> always returns a value or a status.\<close>

definition create_check :: "kernel_selection \<Rightarrow> u8 list \<Rightarrow> u64 \<Rightarrow> string \<Rightarrow> collection_config \<Rightarrow> catalog \<Rightarrow> status option" where
  "create_check simd creator now name cfg s =
     (if \<not> is_valid_name name then Some (invalid_argument ''collection name must match [A-Za-z0-9_-]{1,64}'')
      else if \<not> status_ok (collection_config_validate cfg) then Some (collection_config_validate cfg)
      else if ct_slots s name \<noteq> None then Some (already_exists (''collection '' @ [CHR 0x27] @ name @ [CHR 0x27] @ '' already exists''))
      else if name \<in> ct_dropping s
        then Some (unavailable (''collection '' @ [CHR 0x27] @ name @ [CHR 0x27] @ '' was dropped and is still in use; retry later''))
      else case collection_create simd creator now cfg of Returned (Inr _) \<Rightarrow> None | Returned (Inl st) \<Rightarrow> Some st | _ \<Rightarrow> Some (internal_error ''''))"

definition make_temp :: "string \<Rightarrow> catalog \<Rightarrow> catalog" where
  "make_temp n s = s\<lparr>ct_dirs := (ct_dirs s)(temp_name n := Some (case ct_dirs s (temp_name n) of None \<Rightarrow> (\<lambda>_. None) | Some fs \<Rightarrow> fs))\<rparr>"

definition rename_dir :: "string \<Rightarrow> catalog \<Rightarrow> catalog" where
  "rename_dir n s = s\<lparr>ct_dirs := (ct_dirs s)(n := ct_dirs s (temp_name n), temp_name n := None)\<rparr>"

text \<open>The end of \<open>create\<close>: \<open>make_slot\<close>, the handle of the caller and the entry of the registry.\<close>

definition make_slot :: "string \<Rightarrow> collection_config \<Rightarrow> catalog \<Rightarrow> catalog" where
  "make_slot n cfg s = s\<lparr>ct_objects := ct_objects s @ [\<lparr>ob_name = n, ob_config = cfg, ob_refs = 1, ob_dropped = False, ob_stage = Live\<rparr>],
     ct_slots := (ct_slots s)(n \<mapsto> (length (ct_objects s), 0)), ct_create := None\<rparr>"

definition no_collection :: "string \<Rightarrow> status" where
  "no_collection name = not_found (''collection '' @ [CHR 0x27] @ name @ [CHR 0x27] @ '' not found'')"

definition add_ref :: "nat \<Rightarrow> catalog \<Rightarrow> catalog" where
  "add_ref i s = set_object i ((ct_objects s ! i)\<lparr>ob_refs := ob_refs (ct_objects s ! i) + 1\<rparr>) s"

definition catalog_get :: "string \<Rightarrow> catalog \<Rightarrow> nat result \<times> catalog" where
  "catalog_get name s = (case ct_slots s name of None \<Rightarrow> (Inl (no_collection name), s) | Some (i, _) \<Rightarrow> (Inr i, add_ref i s))"

text \<open>
  The part of \<open>drop\<close> under the lock; \<open>io\<close> says whether the marker reaches the directory and the status of writing it, which
  may be an error although it does. The slot moves to a local variable, a reference that the caller then releases.
\<close>

definition catalog_drop :: "bool \<times> status \<Rightarrow> string \<Rightarrow> catalog \<Rightarrow> status \<times> catalog" where
  "catalog_drop io name s =
     (case ct_slots s name of
        None \<Rightarrow> (no_collection name, s)
      | Some (i, _) \<Rightarrow>
          let s1 = (if fst io then set_file name kDroppedMarker (Some (''dropped'' @ [CHR 0x0A])) s else s)
          in if \<not> status_ok (snd io) then (snd io, s1)
             else (ok_status,
               (set_object i ((ct_objects s ! i)\<lparr>ob_dropped := True, ob_refs := ob_refs (ct_objects s ! i) + 1\<rparr>) s1)
                 \<lparr>ct_dropping := insert name (ct_dropping s), ct_slots := (ct_slots s)(name := None)\<rparr>))"

text \<open>
  What one disk operation of a snapshot may change in the directory: index files, temporary files and MANIFEST, which
  stays once it is there. It is a specification of \<open>save_snapshot\<close>; \<open>save_snapshot_changes\<close> in \<open>VF_CatalogOpen\<close> proves
  that the snapshots of \<open>VF_Snapshot\<close> meet it at every moment.
\<close>

definition snapshot_change :: "files \<Rightarrow> files \<Rightarrow> bool" where
  "snapshot_change fs fs' \<longleftrightarrow> fs' kConfigName = fs kConfigName \<and> fs' kDroppedMarker = fs kDroppedMarker \<and> (fs kManifestName \<noteq> None \<longrightarrow> fs' kManifestName \<noteq> None)"

definition set_stage :: "nat \<Rightarrow> stage \<Rightarrow> catalog \<Rightarrow> catalog" where
  "set_stage i g s = set_object i ((ct_objects s ! i)\<lparr>ob_stage := g\<rparr>) s"

subsection \<open>Opening\<close>

text \<open>What \<open>open\<close> decides about a directory when every call succeeds; \<open>VF_CatalogOpen\<close> has the whole handler, its
  errors and the loading included.\<close>

datatype open_action = SkipEntry | RemoveEntry | LoadGeneration | CreateFromConfig

definition open_plan :: "string \<Rightarrow> files \<Rightarrow> open_action" where
  "open_plan name fs =
     (if \<not> is_valid_name name \<or> fs kDroppedMarker \<noteq> None
      then (if (case name of c # _ \<Rightarrow> c = CHR ''.'' | [] \<Rightarrow> False) \<or> is_valid_name name then RemoveEntry else SkipEntry)
      else if fs kManifestName \<noteq> None then LoadGeneration else CreateFromConfig)"

definition open_fail :: "string \<Rightarrow> status \<Rightarrow> status" where
  "open_fail name st = make_status (code st) (''collection '' @ [CHR 0x27] @ name @ [CHR 0x27] @ '': '' @ status_message st)"

subsection \<open>Steps\<close>

inductive catalog_step :: "kernel_selection \<Rightarrow> catalog \<Rightarrow> catalog \<Rightarrow> bool" for simd where
  create_start: "ct_create s = None \<Longrightarrow> create_check simd creator now n cfg s = None \<Longrightarrow> catalog_step simd s (s\<lparr>ct_create := Some (n, cfg, ClearTemp)\<rparr>)"
| clear_file: "ct_create s = Some (n, cfg, ph) \<Longrightarrow> ph = ClearTemp \<and> d = temp_name n \<or> ph = ClearFinal \<and> d = n \<Longrightarrow> catalog_step simd s (set_file d f None s)"
| clear_dir: "ct_create s = Some (n, cfg, ph) \<Longrightarrow> ph = ClearTemp \<and> d = temp_name n \<or> ph = ClearFinal \<and> d = n \<Longrightarrow> ct_dirs s d = Some (\<lambda>_. None) \<Longrightarrow>
    catalog_step simd s (s\<lparr>ct_dirs := (ct_dirs s)(d := None)\<rparr>)"
| cleared: "ct_create s = Some (n, cfg, ClearTemp) \<Longrightarrow> catalog_step simd s (s\<lparr>ct_create := Some (n, cfg, ClearFinal)\<rparr>)"
| make_temp: "ct_create s = Some (n, cfg, ClearFinal) \<Longrightarrow> catalog_step simd s (make_temp n (s\<lparr>ct_create := Some (n, cfg, MadeTemp)\<rparr>))"
| write_config: "ct_create s = Some (n, cfg, MadeTemp) \<Longrightarrow>
    catalog_step simd s (set_file (temp_name n) kConfigName (Some (encode_config cfg)) (s\<lparr>ct_create := Some (n, cfg, WroteConfig)\<rparr>))"
| rename: "ct_create s = Some (n, cfg, WroteConfig) \<Longrightarrow> ct_dirs s n = None \<or> ct_dirs s n = Some (\<lambda>_. None) \<Longrightarrow>
    catalog_step simd s (rename_dir n (s\<lparr>ct_create := Some (n, cfg, RenamedDir)\<rparr>))"
| create_done: "ct_create s = Some (n, cfg, RenamedDir) \<Longrightarrow> catalog_step simd s (make_slot n cfg s)"
| create_fails: "ct_create s = Some (n, cfg, ph) \<Longrightarrow> ph \<noteq> ClearTemp \<Longrightarrow> catalog_step simd s (s\<lparr>ct_create := None\<rparr>)"
| get: "ct_create s = None \<Longrightarrow> catalog_get n s = (r, s') \<Longrightarrow> catalog_step simd s s'"
| drop: "ct_create s = None \<Longrightarrow> fst io \<or> \<not> status_ok (snd io) \<Longrightarrow> catalog_drop io n s = (st, s') \<Longrightarrow> catalog_step simd s s'"
| snapshot_write: "i < length (ct_objects s) \<Longrightarrow> ob_refs (ct_objects s ! i) > 0 \<Longrightarrow> ct_dirs s (ob_name (ct_objects s ! i)) = Some fs \<Longrightarrow> snapshot_change fs fs' \<Longrightarrow>
    catalog_step simd s (s\<lparr>ct_dirs := (ct_dirs s)(ob_name (ct_objects s ! i) \<mapsto> fs')\<rparr>)"
| snapshot_done: "ct_create s = None \<Longrightarrow> ct_slots s n = Some (i, g) \<Longrightarrow> catalog_step simd s (s\<lparr>ct_slots := (ct_slots s)(n \<mapsto> (i, g'))\<rparr>)"
| release: "i < length (ct_objects s) \<Longrightarrow> ob_refs (ct_objects s ! i) > 0 \<Longrightarrow>
    catalog_step simd s (set_object i ((ct_objects s ! i)\<lparr>ob_refs := ob_refs (ct_objects s ! i) - 1\<rparr>) s)"
| reclaim: "i < length (ct_objects s) \<Longrightarrow> ob_stage (ct_objects s ! i) = Live \<Longrightarrow> ob_refs (ct_objects s ! i) = 0 \<Longrightarrow> ob_dropped (ct_objects s ! i) \<Longrightarrow>
    catalog_step simd s (set_stage i Deleting s)"
| delete_file: "i < length (ct_objects s) \<Longrightarrow> ob_stage (ct_objects s ! i) = Deleting \<Longrightarrow> catalog_step simd s (set_file (ob_name (ct_objects s ! i)) f None s)"
| delete_dir: "i < length (ct_objects s) \<Longrightarrow> ob_stage (ct_objects s ! i) = Deleting \<Longrightarrow> ct_dirs s (ob_name (ct_objects s ! i)) = Some (\<lambda>_. None) \<Longrightarrow>
    catalog_step simd s (s\<lparr>ct_dirs := (ct_dirs s)(ob_name (ct_objects s ! i) := None)\<rparr>)"
| deleted: "i < length (ct_objects s) \<Longrightarrow> ob_stage (ct_objects s ! i) = Deleting \<Longrightarrow> catalog_step simd s (set_stage i Unlinked s)"
| forget: "i < length (ct_objects s) \<Longrightarrow> ob_stage (ct_objects s ! i) = Unlinked \<Longrightarrow>
    catalog_step simd s ((set_stage i Released s)\<lparr>ct_dropping := ct_dropping s - {ob_name (ct_objects s ! i)}\<rparr>)"

subsection \<open>The invariant\<close>

definition has_config :: "catalog \<Rightarrow> string \<Rightarrow> collection_config \<Rightarrow> bool" where
  "has_config s n cfg \<longleftrightarrow> (\<exists>fs. ct_dirs s n = Some fs \<and> fs kConfigName = Some (encode_config cfg))"

definition has_marker :: "catalog \<Rightarrow> string \<Rightarrow> bool" where
  "has_marker s n \<longleftrightarrow> (\<exists>fs. ct_dirs s n = Some fs \<and> fs kDroppedMarker \<noteq> None)"

definition obj_ok :: "catalog \<Rightarrow> nat \<Rightarrow> cat_object \<Rightarrow> bool" where
  "obj_ok s i b \<longleftrightarrow> is_valid_name (ob_name b) \<and> status_ok (collection_config_validate (ob_config b)) \<and>
     (\<not> ob_dropped b \<longrightarrow> ob_stage b = Live \<and> (\<exists>g. ct_slots s (ob_name b) = Some (i, g))) \<and>
     (ob_dropped b \<and> ob_stage b \<noteq> Released \<longrightarrow> ob_name b \<in> ct_dropping s) \<and>
     (ob_stage b \<noteq> Live \<longrightarrow> ob_refs b = 0) \<and>
     (ob_stage b = Live \<longrightarrow> has_config s (ob_name b) (ob_config b) \<and> (ob_dropped b \<longrightarrow> has_marker s (ob_name b)))"

definition objects_ok :: "catalog \<Rightarrow> bool" where
  "objects_ok s \<longleftrightarrow> (\<forall>i < length (ct_objects s). obj_ok s i (ct_objects s ! i))"

definition held :: "catalog \<Rightarrow> nat \<Rightarrow> string \<Rightarrow> bool" where
  "held s i n \<longleftrightarrow> i < length (ct_objects s) \<and> ob_name (ct_objects s ! i) = n \<and> ob_stage (ct_objects s ! i) \<noteq> Released"

definition names_ok :: "catalog \<Rightarrow> bool" where
  "names_ok s \<longleftrightarrow>
     (\<forall>n i g. ct_slots s n = Some (i, g) \<longrightarrow> i < length (ct_objects s) \<and> ob_name (ct_objects s ! i) = n \<and> \<not> ob_dropped (ct_objects s ! i)) \<and>
     (\<forall>n \<in> ct_dropping s. ct_slots s n = None \<and> (\<exists>i. held s i n)) \<and>
     (\<forall>i j n. held s i n \<longrightarrow> held s j n \<longrightarrow> i = j)"

fun create_ok :: "catalog \<Rightarrow> (string \<times> collection_config \<times> create_phase) option \<Rightarrow> bool" where
  "create_ok s None \<longleftrightarrow> True"
| "create_ok s (Some (n, cfg, ph)) \<longleftrightarrow> is_valid_name n \<and> status_ok (collection_config_validate cfg) \<and> ct_slots s n = None \<and> n \<notin> ct_dropping s \<and>
     (ph = MadeTemp \<longrightarrow> ct_dirs s (temp_name n) \<noteq> None) \<and> (ph = WroteConfig \<longrightarrow> has_config s (temp_name n) cfg) \<and> (ph = RenamedDir \<longrightarrow> has_config s n cfg)"

definition cat_inv :: "catalog \<Rightarrow> bool" where
  "cat_inv s \<longleftrightarrow> objects_ok s \<and> names_ok s \<and> create_ok s (ct_create s)"

lemma temp_name_invalid: "\<not> is_valid_name (temp_name n)" "temp_name n = temp_name m \<longleftrightarrow> n = m"
  by (auto simp: is_valid_name_def temp_name_def name_char_def)

lemma empty_catalog_inv: "cat_inv empty_catalog"
  by (simp add: cat_inv_def objects_ok_def names_ok_def empty_catalog_def held_def)

lemma objects_okD: "objects_ok s \<Longrightarrow> i < length (ct_objects s) \<Longrightarrow> obj_ok s i (ct_objects s ! i)"
  by (simp add: objects_ok_def)

lemma names_okD:
  assumes "names_ok s" "ct_slots s n = Some (i, g)"
  shows "i < length (ct_objects s)" "ob_name (ct_objects s ! i) = n" "\<not> ob_dropped (ct_objects s ! i)"
  using assms by (auto simp: names_ok_def)

lemma heldD: "names_ok s \<Longrightarrow> held s i n \<Longrightarrow> held s j n \<Longrightarrow> i = j"
  unfolding names_ok_def by blast

text \<open>Nobody uses the name that is being created.\<close>

lemma creating_unheld:
  assumes "cat_inv s" "ct_create s = Some (n, cfg, ph)"
  shows "\<not> held s i n" "\<not> held s i (temp_name n)"
proof -
  have ok: "objects_ok s" "is_valid_name n" "ct_slots s n = None" "n \<notin> ct_dropping s" using assms by (simp_all add: cat_inv_def)
  show "\<not> held s i n"
  proof
    assume h: "held s i n"
    then have "obj_ok s i (ct_objects s ! i)" using objects_okD [OF ok(1)] by (simp add: held_def)
    then show False using h ok(3,4) by (auto simp: obj_ok_def held_def)
  qed
  show "\<not> held s i (temp_name n)"
  proof
    assume h: "held s i (temp_name n)"
    then have "is_valid_name (temp_name n)" using objects_okD [OF ok(1), of i] by (auto simp: held_def obj_ok_def)
    then show False using temp_name_invalid by simp
  qed
qed

lemma obj_ok_dirs:
  assumes "obj_ok s i b" "ct_slots s' = ct_slots s" "ct_dropping s' = ct_dropping s" "ob_stage b = Live \<Longrightarrow> ct_dirs s' (ob_name b) = ct_dirs s (ob_name b)"
  shows "obj_ok s' i b"
  using assms by (cases "ob_stage b = Live") (auto simp: obj_ok_def has_config_def has_marker_def)

lemma names_ok_cong:
  assumes "names_ok s" "ct_slots s' = ct_slots s" "ct_dropping s' = ct_dropping s" "ct_objects s' = ct_objects s"
  shows "names_ok s'"
  using assms by (simp add: names_ok_def held_def)

lemma dir_change_inv:
  assumes inv: "objects_ok s" "names_ok s" and same: "ct_slots s' = ct_slots s" "ct_dropping s' = ct_dropping s" "ct_objects s' = ct_objects s"
    and d: "\<And>n. ct_dirs s' n \<noteq> ct_dirs s n \<Longrightarrow> \<not> (\<exists>i. held s i n \<and> ob_stage (ct_objects s ! i) = Live)"
  shows "objects_ok s' \<and> names_ok s'"
proof
  show "objects_ok s'" unfolding objects_ok_def
  proof (intro allI impI)
    fix i assume i: "i < length (ct_objects s')"
    show "obj_ok s' i (ct_objects s' ! i)" unfolding same(3)
    proof (rule obj_ok_dirs [OF objects_okD [OF inv(1)] same(1,2)])
      show "ct_dirs s' (ob_name (ct_objects s ! i)) = ct_dirs s (ob_name (ct_objects s ! i))" if "ob_stage (ct_objects s ! i) = Live"
        using d that i same(3) by (metis held_def stage.distinct(5))
    qed (use i same(3) in simp)
  qed
  show "names_ok s'" by (rule names_ok_cong [OF inv(2) same])
qed

lemma set_file_dirs: "ct_dirs (set_file d f v s) n \<noteq> ct_dirs s n \<Longrightarrow> n = d"
  by (auto simp: set_file_def split: if_splits)

lemma set_file_fields [simp]:
  "ct_slots (set_file d f v s) = ct_slots s" "ct_dropping (set_file d f v s) = ct_dropping s" "ct_objects (set_file d f v s) = ct_objects s" "ct_create (set_file d f v s) = ct_create s"
  by (simp_all add: set_file_def)

text \<open>Steps of \<open>create\<close> on the two directories it owns.\<close>

lemma creating_step:
  assumes inv: "cat_inv s" and c: "ct_create s = Some (n, cfg, ph)"
    and same: "ct_slots s' = ct_slots s" "ct_dropping s' = ct_dropping s" "ct_objects s' = ct_objects s"
    and d: "\<And>m. ct_dirs s' m \<noteq> ct_dirs s m \<Longrightarrow> m = n \<or> m = temp_name n"
    and ph: "ct_create s' = Some (n, cfg, ph')"
      "ph' = MadeTemp \<Longrightarrow> ct_dirs s' (temp_name n) \<noteq> None" "ph' = WroteConfig \<Longrightarrow> has_config s' (temp_name n) cfg" "ph' = RenamedDir \<Longrightarrow> has_config s' n cfg"
  shows "cat_inv s'"
proof -
  have "objects_ok s' \<and> names_ok s'"
  proof (rule dir_change_inv [OF _ _ same])
    show "objects_ok s" "names_ok s" using inv by (simp_all add: cat_inv_def)
    show "\<not> (\<exists>i. held s i m \<and> ob_stage (ct_objects s ! i) = Live)" if "ct_dirs s' m \<noteq> ct_dirs s m" for m
      using creating_unheld [OF inv c] d [OF that] by blast
  qed
  moreover have "create_ok s (Some (n, cfg, ph))" using inv c by (simp add: cat_inv_def)
  ultimately show ?thesis using ph same by (simp add: cat_inv_def)
qed

lemma clear_inv:
  assumes "cat_inv s" "ct_create s = Some (n, cfg, ph)" "ph = ClearTemp \<and> d = temp_name n \<or> ph = ClearFinal \<and> d = n"
  shows "cat_inv (set_file d f None s)" "cat_inv (s\<lparr>ct_dirs := (ct_dirs s)(d := None)\<rparr>)"
proof -
  show "cat_inv (set_file d f None s)"
    by (rule creating_step [OF assms(1,2), where ph' = ph]) (use assms(2,3) in \<open>auto dest: set_file_dirs\<close>)
  show "cat_inv (s\<lparr>ct_dirs := (ct_dirs s)(d := None)\<rparr>)"
    by (rule creating_step [OF assms(1,2), where ph' = ph]) (use assms(2,3) in \<open>auto split: if_splits\<close>)
qed

lemma make_temp_inv:
  assumes "cat_inv s" "ct_create s = Some (n, cfg, ClearFinal)"
  shows "cat_inv (make_temp n (s\<lparr>ct_create := Some (n, cfg, MadeTemp)\<rparr>))"
  by (rule creating_step [OF assms, where ph' = MadeTemp]) (auto simp: make_temp_def split: if_splits)

lemma write_config_inv:
  assumes inv: "cat_inv s" and c: "ct_create s = Some (n, cfg, MadeTemp)"
  shows "cat_inv (set_file (temp_name n) kConfigName (Some (encode_config cfg)) (s\<lparr>ct_create := Some (n, cfg, WroteConfig)\<rparr>))"
proof (rule creating_step [OF assms, where ph' = WroteConfig])
  have "ct_dirs s (temp_name n) \<noteq> None" using inv c by (simp add: cat_inv_def)
  then show "has_config (set_file (temp_name n) kConfigName (Some (encode_config cfg)) (s\<lparr>ct_create := Some (n, cfg, WroteConfig)\<rparr>)) (temp_name n) cfg"
    by (auto simp: has_config_def set_file_def)
qed (auto simp: set_file_def split: if_splits)

lemma rename_inv:
  assumes inv: "cat_inv s" and c: "ct_create s = Some (n, cfg, WroteConfig)"
  shows "cat_inv (rename_dir n (s\<lparr>ct_create := Some (n, cfg, RenamedDir)\<rparr>))"
proof (rule creating_step [OF assms, where ph' = RenamedDir])
  have "has_config s (temp_name n) cfg" "is_valid_name n" using inv c by (simp_all add: cat_inv_def)
  moreover from this have "n \<noteq> temp_name n" using temp_name_invalid by metis
  ultimately show "has_config (rename_dir n (s\<lparr>ct_create := Some (n, cfg, RenamedDir)\<rparr>)) n cfg" by (simp add: has_config_def rename_dir_def)
qed (auto simp: rename_dir_def split: if_splits)

lemma create_start_inv:
  assumes "cat_inv s" "create_check simd creator now n cfg s = None"
  shows "cat_inv (s\<lparr>ct_create := Some (n, cfg, ClearTemp)\<rparr>)"
proof -
  have "objects_ok (s\<lparr>ct_create := Some (n, cfg, ClearTemp)\<rparr>) \<and> names_ok (s\<lparr>ct_create := Some (n, cfg, ClearTemp)\<rparr>)"
    by (rule dir_change_inv [of s]) (use assms(1) in \<open>simp_all add: cat_inv_def\<close>)
  moreover have "is_valid_name n \<and> status_ok (collection_config_validate cfg) \<and> ct_slots s n = None \<and> n \<notin> ct_dropping s"
    using assms(2) by (cases "ct_slots s n") (auto simp: create_check_def split: if_splits)
  ultimately show ?thesis by (simp add: cat_inv_def)
qed

lemma create_end_inv: "cat_inv s \<Longrightarrow> cat_inv (s\<lparr>ct_create := None\<rparr>)"
  using dir_change_inv [of s "s\<lparr>ct_create := None\<rparr>"] by (simp add: cat_inv_def)

text \<open>The new object, with the only user of its name.\<close>

lemma make_slot_inv:
  assumes inv: "cat_inv s" and c: "ct_create s = Some (n, cfg, RenamedDir)"
  shows "cat_inv (make_slot n cfg s)"
proof -
  let ?s = "make_slot n cfg s" and ?k = "length (ct_objects s)"
  have ok: "objects_ok s" "names_ok s" and co: "is_valid_name n" "status_ok (collection_config_validate cfg)" "ct_slots s n = None" "n \<notin> ct_dropping s" "has_config s n cfg"
    using inv c by (simp_all add: cat_inv_def)
  have un: "\<not> held s i n" for i using creating_unheld(1) [OF inv c] .
  have nth: "ct_objects ?s ! i = (if i < ?k then ct_objects s ! i else \<lparr>ob_name = n, ob_config = cfg, ob_refs = 1, ob_dropped = False, ob_stage = Live\<rparr>)" if "i \<le> ?k" for i
    using that by (auto simp: make_slot_def nth_append)
  have old: "obj_ok ?s i (ct_objects s ! i)" if "i < ?k" for i
    using objects_okD [OF ok(1) that] un [of i] that co(3) by (auto simp: obj_ok_def held_def make_slot_def has_config_def has_marker_def)
  have new: "obj_ok ?s ?k \<lparr>ob_name = n, ob_config = cfg, ob_refs = 1, ob_dropped = False, ob_stage = Live\<rparr>"
    using co by (simp add: obj_ok_def make_slot_def has_config_def)
  have len: "length (ct_objects ?s) = Suc ?k" by (simp add: make_slot_def)
  have "objects_ok ?s" unfolding objects_ok_def
  proof (intro allI impI)
    fix i assume "i < length (ct_objects ?s)"
    then show "obj_ok ?s i (ct_objects ?s ! i)" using old new nth [of i] len by (auto simp: less_Suc_eq)
  qed
  moreover have h: "held ?s i m \<longleftrightarrow> held s i m \<or> i = ?k \<and> m = n" for i m using nth [of i] len by (auto simp: held_def less_Suc_eq)
  have "names_ok ?s" unfolding names_ok_def
  proof (intro conjI allI impI ballI)
    fix m i g assume sl: "ct_slots ?s m = Some (i, g)"
    have o: "ct_slots s m = Some (i, g) \<and> m \<noteq> n \<or> m = n \<and> i = ?k" using sl by (auto simp: make_slot_def split: if_splits)
    show "i < length (ct_objects ?s)" using o names_okD(1) [OF ok(2)] len by (auto intro: less_SucI)
    show "ob_name (ct_objects ?s ! i) = m" "\<not> ob_dropped (ct_objects ?s ! i)" using o names_okD [OF ok(2)] nth [of i] by fastforce+
  next
    fix m assume m: "m \<in> ct_dropping ?s"
    then have "m \<in> ct_dropping s" "m \<noteq> n" using co(4) by (auto simp: make_slot_def)
    then show "ct_slots ?s m = None" "\<exists>i. held ?s i m" using ok(2) h by (auto simp: names_ok_def make_slot_def)
  next
    fix i j m assume "held ?s i m" "held ?s j m"
    then show "i = j" using h un ok(2) unfolding names_ok_def by metis
  qed
  ultimately show ?thesis by (simp add: cat_inv_def make_slot_def)
qed

text \<open>Steps of one object that keep its name, its place in the registry and whether it is released.\<close>

lemma set_object_fields [simp]:
  "ct_slots (set_object i b s) = ct_slots s" "ct_dropping (set_object i b s) = ct_dropping s" "ct_dirs (set_object i b s) = ct_dirs s" "ct_create (set_object i b s) = ct_create s"
  "ct_objects (set_object i b s) = (ct_objects s)[i := b]"
  by (simp_all add: set_object_def)

lemma obj_ok_cong:
  "ct_slots s' = ct_slots s \<Longrightarrow> ct_dropping s' = ct_dropping s \<Longrightarrow> ct_dirs s' = ct_dirs s \<Longrightarrow> obj_ok s' i b = obj_ok s i b"
  by (simp add: obj_ok_def has_config_def has_marker_def)

lemma create_ok_cong:
  "ct_slots s' = ct_slots s \<Longrightarrow> ct_dropping s' \<subseteq> ct_dropping s \<Longrightarrow> ct_dirs s' = ct_dirs s \<Longrightarrow> create_ok s c \<Longrightarrow> create_ok s' c"
  by (cases "(s, c)" rule: create_ok.cases) (auto simp: has_config_def)

lemma object_step:
  assumes inv: "cat_inv s" and i: "i < length (ct_objects s)"
    and b: "ob_name b = ob_name (ct_objects s ! i)" "ob_dropped b = ob_dropped (ct_objects s ! i)" "ob_stage b = Released \<longleftrightarrow> ob_stage (ct_objects s ! i) = Released" "obj_ok s i b"
  shows "cat_inv (set_object i b s)"
proof -
  let ?s = "set_object i b s"
  have nth: "ct_objects ?s ! j = (if j = i then b else ct_objects s ! j)" if "j < length (ct_objects s)" for j using that by (simp add: nth_list_update)
  have held: "held ?s j m \<longleftrightarrow> held s j m" for j m using b(1,3) i by (cases "j = i") (simp_all add: held_def)
  have "objects_ok ?s" unfolding objects_ok_def using inv b(4) i obj_ok_cong [of ?s s] by (simp add: cat_inv_def objects_ok_def nth_list_update)
  moreover have "names_ok ?s"
  proof -
    have n: "names_ok s" using inv by (simp add: cat_inv_def)
    have "ob_name (ct_objects ?s ! j) = ob_name (ct_objects s ! j) \<and> ob_dropped (ct_objects ?s ! j) = ob_dropped (ct_objects s ! j)" for j
      using b(1,2) i by (cases "j = i") simp_all
    then show ?thesis using n unfolding names_ok_def held by simp
  qed
  moreover have "create_ok ?s (ct_create ?s)" using inv create_ok_cong [of ?s s] by (simp add: cat_inv_def)
  ultimately show ?thesis by (simp add: cat_inv_def)
qed

lemma refs_inv:
  assumes inv: "cat_inv s" and i: "i < length (ct_objects s)" and l: "ob_stage (ct_objects s ! i) = Live"
  shows "cat_inv (set_object i ((ct_objects s ! i)\<lparr>ob_refs := r\<rparr>) s)"
proof (rule object_step [OF inv i])
  have "obj_ok s i (ct_objects s ! i)" using inv i by (simp add: cat_inv_def objects_ok_def)
  then show "obj_ok s i ((ct_objects s ! i)\<lparr>ob_refs := r\<rparr>)" using l by (simp add: obj_ok_def)
qed simp_all

lemma used_live: "cat_inv s \<Longrightarrow> i < length (ct_objects s) \<Longrightarrow> ob_refs (ct_objects s ! i) > 0 \<Longrightarrow> ob_stage (ct_objects s ! i) = Live"
  by (auto simp: cat_inv_def objects_ok_def obj_ok_def)

lemma slot_live: "cat_inv s \<Longrightarrow> ct_slots s n = Some (i, g) \<Longrightarrow> ob_stage (ct_objects s ! i) = Live"
  using names_okD [of s n i g] objects_okD [of s i] by (auto simp: cat_inv_def obj_ok_def)

lemma stage_inv:
  assumes inv: "cat_inv s" and i: "i < length (ct_objects s)" and b: "ob_refs (ct_objects s ! i) = 0" "ob_dropped (ct_objects s ! i)" "ob_stage (ct_objects s ! i) \<noteq> Released"
    and g: "g \<noteq> Live" "g \<noteq> Released"
  shows "cat_inv (set_stage i g s)"
  unfolding set_stage_def
proof (rule object_step [OF inv i])
  have "obj_ok s i (ct_objects s ! i)" using inv i by (simp add: cat_inv_def objects_ok_def)
  then show "obj_ok s i ((ct_objects s ! i)\<lparr>ob_stage := g\<rparr>)" using b g by (simp add: obj_ok_def)
qed (use b g in simp_all)

text \<open>Directories of a collection that is in use, or whose deleter runs.\<close>

lemma create_ok_held:
  assumes inv: "cat_inv s" and h: "held s i d" and s': "ct_slots s' = ct_slots s" "ct_dropping s' = ct_dropping s" "\<And>n. n \<noteq> d \<Longrightarrow> ct_dirs s' n = ct_dirs s n"
  shows "create_ok s' (ct_create s)"
proof (cases "ct_create s")
  case (Some c)
  obtain n cfg ph where c: "c = (n, cfg, ph)" by (cases c)
  then have "n \<noteq> d" "temp_name n \<noteq> d" using creating_unheld [OF inv, of n cfg ph] Some h by auto
  then show ?thesis using inv s' Some c by (simp add: cat_inv_def has_config_def)
qed simp

lemma snapshot_write_inv:
  assumes inv: "cat_inv s" and i: "i < length (ct_objects s)" and r: "ob_refs (ct_objects s ! i) > 0"
    and d: "ct_dirs s (ob_name (ct_objects s ! i)) = Some fs" and ch: "snapshot_change fs fs'"
  shows "cat_inv (s\<lparr>ct_dirs := (ct_dirs s)(ob_name (ct_objects s ! i) \<mapsto> fs')\<rparr>)"
proof -
  let ?s = "s\<lparr>ct_dirs := (ct_dirs s)(ob_name (ct_objects s ! i) \<mapsto> fs')\<rparr>"
  have l: "ob_stage (ct_objects s ! i) = Live" by (rule used_live [OF inv i r])
  have h: "held s i (ob_name (ct_objects s ! i))" using i l by (simp add: held_def)
  have cm: "has_config ?s n c = has_config s n c" "has_marker ?s n = has_marker s n" for n c
    using d ch by (auto simp: has_config_def has_marker_def snapshot_change_def)
  have "objects_ok ?s" using inv by (simp add: cat_inv_def objects_ok_def obj_ok_def cm)
  moreover have "names_ok ?s" by (rule names_ok_cong [of s]) (use inv in \<open>simp_all add: cat_inv_def\<close>)
  moreover have "create_ok ?s (ct_create s)" by (rule create_ok_held [OF inv h]) simp_all
  ultimately show ?thesis by (simp add: cat_inv_def)
qed

lemma deleting_inv:
  assumes inv: "cat_inv s" and i: "i < length (ct_objects s)" and g: "ob_stage (ct_objects s ! i) = Deleting"
    and s': "ct_slots s' = ct_slots s" "ct_dropping s' = ct_dropping s" "ct_objects s' = ct_objects s" "ct_create s' = ct_create s"
      "\<And>n. n \<noteq> ob_name (ct_objects s ! i) \<Longrightarrow> ct_dirs s' n = ct_dirs s n"
  shows "cat_inv s'"
proof -
  have h: "held s i (ob_name (ct_objects s ! i))" using i g by (simp add: held_def)
  have n: "names_ok s" using inv by (simp add: cat_inv_def)
  have "objects_ok s' \<and> names_ok s'"
  proof (rule dir_change_inv [OF _ n s'(1-3)])
    show "objects_ok s" using inv by (simp add: cat_inv_def)
    show "\<not> (\<exists>j. held s j m \<and> ob_stage (ct_objects s ! j) = Live)" if "ct_dirs s' m \<noteq> ct_dirs s m" for m
      using heldD [OF n h] s'(5) that g by (metis stage.distinct(1))
  qed
  moreover have "create_ok s' (ct_create s)" using s' by (intro create_ok_held [OF inv h]) simp_all
  ultimately show ?thesis using s'(4) by (simp add: cat_inv_def)
qed

lemma forget_inv:
  assumes inv: "cat_inv s" and i: "i < length (ct_objects s)" and g: "ob_stage (ct_objects s ! i) = Unlinked"
  shows "cat_inv ((set_stage i Released s)\<lparr>ct_dropping := ct_dropping s - {ob_name (ct_objects s ! i)}\<rparr>)"
proof -
  let ?n = "ob_name (ct_objects s ! i)" let ?s = "(set_stage i Released s)\<lparr>ct_dropping := ct_dropping s - {?n}\<rparr>"
  have n: "names_ok s" and ob: "obj_ok s i (ct_objects s ! i)" using inv i by (simp_all add: cat_inv_def objects_ok_def)
  have hi: "held s i ?n" using i g by (simp add: held_def)
  have nth: "ct_objects ?s ! j = (if j = i then (ct_objects s ! i)\<lparr>ob_stage := Released\<rparr> else ct_objects s ! j)" if "j < length (ct_objects s)" for j
    using that by (simp add: set_stage_def nth_list_update)
  have held: "held ?s j m \<longleftrightarrow> held s j m \<and> j \<noteq> i" for j m using i by (cases "j = i") (simp_all add: held_def set_stage_def)
  have "obj_ok ?s j (ct_objects ?s ! j)" if j: "j < length (ct_objects s)" for j
  proof (cases "j = i")
    case True
    have "ob_dropped (ct_objects s ! i)" using ob g by (auto simp: obj_ok_def)
    then show ?thesis using True nth [OF j] ob g by (simp add: obj_ok_def)
  next
    case False
    have "held s j ?n \<Longrightarrow> False" using heldD [OF n hi] False by blast
    moreover have "obj_ok s j (ct_objects s ! j)" using inv j by (simp add: cat_inv_def objects_ok_def)
    ultimately show ?thesis using nth [OF j] False j by (auto simp: obj_ok_def held_def set_stage_def has_config_def has_marker_def)
  qed
  then have "objects_ok ?s" by (simp add: objects_ok_def set_stage_def)
  moreover have "names_ok ?s" unfolding names_ok_def held
  proof (intro conjI allI impI ballI)
    fix m j k assume sl: "ct_slots ?s m = Some (j, k)"
    then have "ct_slots s m = Some (j, k)" by (simp add: set_stage_def)
    then show "j < length (ct_objects ?s)" "ob_name (ct_objects ?s ! j) = m" "\<not> ob_dropped (ct_objects ?s ! j)"
      using names_okD [OF n] nth [of j] by (auto simp: set_stage_def)
  next
    fix m assume "m \<in> ct_dropping ?s"
    then have m: "m \<in> ct_dropping s" "m \<noteq> ?n" by (simp_all add: set_stage_def)
    then obtain j where "held s j m" using n unfolding names_ok_def by blast
    moreover from this m(2) have "j \<noteq> i" by (auto simp: held_def)
    ultimately show "\<exists>j. held s j m \<and> j \<noteq> i" by blast
    show "ct_slots ?s m = None" using m(1) n by (simp add: names_ok_def set_stage_def)
  qed (use heldD [OF n] in blast)
  moreover have "create_ok ?s (ct_create ?s)" using inv by (intro create_ok_cong [of ?s s]) (auto simp: cat_inv_def set_stage_def)
  ultimately show ?thesis by (simp add: cat_inv_def)
qed

lemma marker_inv:
  assumes inv: "cat_inv s" and sl: "ct_slots s n = Some (i, g)"
  shows "cat_inv (set_file n kDroppedMarker (Some t) s)" "has_marker (set_file n kDroppedMarker (Some t) s) n"
proof -
  let ?s = "set_file n kDroppedMarker (Some t) s"
  have N: "names_ok s" and i: "i < length (ct_objects s)" "ob_name (ct_objects s ! i) = n" using inv names_okD [OF _ sl] by (simp_all add: cat_inv_def)
  have l: "ob_stage (ct_objects s ! i) = Live" by (rule slot_live [OF inv sl])
  then have h: "held s i n" and hc: "has_config s n (ob_config (ct_objects s ! i))" using i objects_okD [OF _ i(1)] inv by (auto simp: held_def cat_inv_def obj_ok_def)
  show m: "has_marker ?s n" using hc by (auto simp: has_marker_def has_config_def set_file_def)
  have "kConfigName \<noteq> kDroppedMarker" by (simp add: kConfigName_def kDroppedMarker_def)
  then have c: "has_config ?s k c = has_config s k c" for k c by (auto simp: has_config_def set_file_def)
  have "has_marker s k \<Longrightarrow> has_marker ?s k" for k using m by (auto simp: has_marker_def set_file_def)
  then have "objects_ok ?s" using inv by (auto simp: cat_inv_def objects_ok_def obj_ok_def c)
  moreover have "names_ok ?s" by (rule names_ok_cong [OF N]) simp_all
  moreover have "create_ok ?s (ct_create s)" by (rule create_ok_held [OF inv h]) (auto simp: set_file_def)
  ultimately show "cat_inv ?s" by (simp add: cat_inv_def)
qed

text \<open>The object leaves the registry while its name stays reserved.\<close>

lemma unregister_inv:
  assumes inv: "cat_inv s" and sl: "ct_slots s n = Some (i, g)" and m: "has_marker s n" and c: "ct_create s = None"
  shows "cat_inv ((set_object i ((ct_objects s ! i)\<lparr>ob_dropped := True, ob_refs := r\<rparr>) s)\<lparr>ct_dropping := insert n (ct_dropping s), ct_slots := (ct_slots s)(n := None)\<rparr>)"
proof -
  let ?b = "(ct_objects s ! i)\<lparr>ob_dropped := True, ob_refs := r\<rparr>"
  let ?s = "(set_object i ?b s)\<lparr>ct_dropping := insert n (ct_dropping s), ct_slots := (ct_slots s)(n := None)\<rparr>"
  have N: "names_ok s" and i: "i < length (ct_objects s)" "ob_name (ct_objects s ! i) = n" "\<not> ob_dropped (ct_objects s ! i)"
    using inv names_okD [OF _ sl] by (simp_all add: cat_inv_def)
  have l: "ob_stage (ct_objects s ! i) = Live" by (rule slot_live [OF inv sl])
  then have hi: "held s i n" using i by (simp add: held_def)
  have nth: "ct_objects ?s ! j = (if j = i then ?b else ct_objects s ! j)" if "j < length (ct_objects s)" for j using that by (simp add: nth_list_update)
  have held: "held ?s j k \<longleftrightarrow> held s j k" for j k using i by (cases "j = i") (simp_all add: held_def)
  have "obj_ok ?s j (ct_objects ?s ! j)" if j: "j < length (ct_objects s)" for j
  proof (cases "j = i")
    case True
    then show ?thesis using nth [OF j] objects_okD [of s i] inv i l m by (simp add: cat_inv_def obj_ok_def has_config_def has_marker_def)
  next
    case False
    then have "\<not> held s j n" using heldD [OF N hi] by blast
    moreover have "obj_ok s j (ct_objects s ! j)" using inv j by (simp add: cat_inv_def objects_ok_def)
    ultimately show ?thesis using nth [OF j] False j by (auto simp: obj_ok_def held_def has_config_def has_marker_def)
  qed
  then have "objects_ok ?s" by (simp add: objects_ok_def)
  moreover have "names_ok ?s" unfolding names_ok_def held
  proof (intro conjI allI impI ballI)
    fix k j h assume "ct_slots ?s k = Some (j, h)"
    then have k: "ct_slots s k = Some (j, h)" "k \<noteq> n" by (simp_all split: if_splits)
    then have "j \<noteq> i" using names_okD(2) [OF N k(1)] i(2) by auto
    then show "j < length (ct_objects ?s)" "ob_name (ct_objects ?s ! j) = k" "\<not> ob_dropped (ct_objects ?s ! j)"
      using names_okD [OF N k(1)] nth [of j] by simp_all
  next
    fix k assume "k \<in> ct_dropping ?s"
    then have k: "k = n \<or> k \<in> ct_dropping s" by simp
    then show "\<exists>j. held s j k" using N hi unfolding names_ok_def by blast
    show "ct_slots ?s k = None" using k N by (auto simp: names_ok_def)
  qed (use heldD [OF N] in blast)
  ultimately show ?thesis using c by (simp add: cat_inv_def)
qed

lemma catalog_drop_inv:
  assumes inv: "cat_inv s" and c: "ct_create s = None" and io: "fst io \<or> \<not> status_ok (snd io)" and d: "catalog_drop io n s = (st, s')"
  shows "cat_inv s'"
proof (cases "ct_slots s n")
  case None
  then show ?thesis using d inv by (simp add: catalog_drop_def)
next
  case (Some e)
  obtain i g where e: "e = (i, g)" by (cases e)
  let ?s = "if fst io then set_file n kDroppedMarker (Some (''dropped'' @ [CHR 0x0A])) s else s"
  have inv1: "cat_inv ?s" using marker_inv(1) [OF inv Some [unfolded e]] inv by simp
  show ?thesis
  proof (cases "status_ok (snd io)")
    case True
    then have f: "fst io" using io by simp
    have "s' = (set_object i ((ct_objects s ! i)\<lparr>ob_dropped := True, ob_refs := ob_refs (ct_objects s ! i) + 1\<rparr>) ?s)
        \<lparr>ct_dropping := insert n (ct_dropping s), ct_slots := (ct_slots s)(n := None)\<rparr>"
      using d Some e True by (simp add: catalog_drop_def Let_def)
    then show ?thesis using unregister_inv [OF inv1, of n i g "ob_refs (ct_objects s ! i) + 1"] marker_inv(2) [OF inv Some [unfolded e]] Some e c f by simp
  next
    case False
    then show ?thesis using d Some e inv1 by (simp add: catalog_drop_def Let_def)
  qed
qed

lemma catalog_get_inv:
  assumes inv: "cat_inv s" and g: "catalog_get n s = (r, s')"
  shows "cat_inv s'"
proof (cases "ct_slots s n")
  case (Some e)
  obtain i k where e: "e = (i, k)" by (cases e)
  have i: "i < length (ct_objects s)" using names_okD(1) [of s n i k] inv Some e by (simp add: cat_inv_def)
  show ?thesis using refs_inv [OF inv i slot_live [OF inv]] Some e g by (auto simp: catalog_get_def add_ref_def)
qed (use assms in \<open>simp add: catalog_get_def\<close>)

lemma snapshot_done_inv:
  assumes inv: "cat_inv s" and c: "ct_create s = None" and sl: "ct_slots s n = Some (i, g)"
  shows "cat_inv (s\<lparr>ct_slots := (ct_slots s)(n \<mapsto> (i, g'))\<rparr>)"
proof -
  let ?s = "s\<lparr>ct_slots := (ct_slots s)(n \<mapsto> (i, g'))\<rparr>"
  have N: "names_ok s" using inv by (simp add: cat_inv_def)
  have "obj_ok ?s j b" if "obj_ok s j b" for j b using that sl by (auto simp: obj_ok_def has_config_def has_marker_def)
  then have "objects_ok ?s" using inv by (simp add: cat_inv_def objects_ok_def)
  moreover have "names_ok ?s" using N sl unfolding names_ok_def held_def by auto
  ultimately show ?thesis using c by (simp add: cat_inv_def)
qed

lemma catalog_step_inv: "catalog_step simd s s' \<Longrightarrow> cat_inv s \<Longrightarrow> cat_inv s'"
proof (induction rule: catalog_step.induct)
  case (create_start s creator now n cfg)
  show ?case by (rule create_start_inv [OF create_start(3,2)])
next
  case (clear_file s n cfg ph d f)
  show ?case by (rule clear_inv(1) [OF clear_file(3,1,2)])
next
  case (clear_dir s n cfg ph d)
  show ?case by (rule clear_inv(2) [OF clear_dir(4,1,2)])
next
  case (cleared s n cfg)
  show ?case by (rule creating_step [OF cleared(2,1), where ph' = ClearFinal]) simp_all
next
  case (make_temp s n cfg)
  show ?case by (rule make_temp_inv [OF make_temp(2,1)])
next
  case (write_config s n cfg)
  show ?case by (rule write_config_inv [OF write_config(2,1)])
next
  case (rename s n cfg)
  show ?case by (rule rename_inv [OF rename(3,1)])
next
  case (create_done s n cfg)
  show ?case by (rule make_slot_inv [OF create_done(2,1)])
next
  case (create_fails s n cfg ph)
  show ?case by (rule create_end_inv [OF create_fails(3)])
next
  case (get s n r s')
  show ?case by (rule catalog_get_inv [OF get(3,2)])
next
  case (drop s io n st s')
  show ?case by (rule catalog_drop_inv [OF drop(4,1,2,3)])
next
  case (snapshot_write i s fs fs')
  show ?case by (rule snapshot_write_inv [OF snapshot_write(5,1-4)])
next
  case (snapshot_done s n i g g')
  show ?case by (rule snapshot_done_inv [OF snapshot_done(3,1,2)])
next
  case (release i s)
  show ?case by (rule refs_inv [OF release(3,1) used_live [OF release(3,1,2)]])
next
  case (reclaim i s)
  show ?case by (rule stage_inv [OF reclaim(5,1,3,4)]) (use reclaim(2) in simp_all)
next
  case (delete_file i s f)
  show ?case by (rule deleting_inv [OF delete_file(3,1,2)]) (auto simp: set_file_def)
next
  case (delete_dir i s)
  show ?case by (rule deleting_inv [OF delete_dir(4,1,2)]) simp_all
next
  case (deleted i s)
  have "obj_ok s i (ct_objects s ! i)" using deleted(1,3) by (simp add: cat_inv_def objects_ok_def)
  then show ?case by (intro stage_inv [OF deleted(3,1)]) (use deleted(2) in \<open>auto simp: obj_ok_def\<close>)
next
  case (forget i s)
  show ?case by (rule forget_inv [OF forget(3,1,2)])
qed

lemma catalog_reachable: "(catalog_step simd)\<^sup>*\<^sup>* empty_catalog s \<Longrightarrow> cat_inv s"
  by (induction rule: rtranclp_induct) (auto simp: empty_catalog_inv intro: catalog_step_inv)

subsection \<open>Lifecycle\<close>

text \<open>
  C17. The life of named collections, in every interleaving of \<open>create\<close>, \<open>get\<close>, \<open>drop\<close>, \<open>snapshot\<close>, releases of handles and
  deleters, with failing file operations. At most one collection that is not yet forgotten has a name. A collection that is registered
  or still referenced has not been deleted, and its directory is there with its own config.json, so that no
  deleter and no \<open>create\<close> ever removes the files of a collection in use. A name is reserved for a dropped collection until its
  deleter is done, and \<open>create\<close> goes on only for a name that nobody has.
\<close>

theorem catalog_lifecycle_safe:
  assumes "(catalog_step simd)\<^sup>*\<^sup>* empty_catalog s"
  shows "(\<forall>i j n. held s i n \<longrightarrow> held s j n \<longrightarrow> i = j) \<and>
    (\<forall>n i g. ct_slots s n = Some (i, g) \<longrightarrow> held s i n \<and> n \<notin> ct_dropping s) \<and>
    (\<forall>i < length (ct_objects s). let b = ct_objects s ! i
       in ((\<exists>g. ct_slots s (ob_name b) = Some (i, g)) \<or> ob_refs b > 0 \<longrightarrow> ob_stage b = Live \<and> has_config s (ob_name b) (ob_config b)) \<and>
          (ob_dropped b \<and> ob_stage b \<noteq> Released \<longrightarrow> ob_name b \<in> ct_dropping s)) \<and>
    (\<forall>creator now n cfg. create_check simd creator now n cfg s = None \<longrightarrow> (\<forall>i. \<not> held s i n))"
proof -
  have inv: "cat_inv s" by (rule catalog_reachable [OF assms])
  then have N: "names_ok s" and O: "objects_ok s" by (simp_all add: cat_inv_def)
  have "held s i n \<and> n \<notin> ct_dropping s" if "ct_slots s n = Some (i, g)" for n i g
    using names_okD [OF N that] slot_live [OF inv that] N that by (auto simp: held_def names_ok_def)
  moreover have "let b = ct_objects s ! i
       in ((\<exists>g. ct_slots s (ob_name b) = Some (i, g)) \<or> ob_refs b > 0 \<longrightarrow> ob_stage b = Live \<and> has_config s (ob_name b) (ob_config b)) \<and>
          (ob_dropped b \<and> ob_stage b \<noteq> Released \<longrightarrow> ob_name b \<in> ct_dropping s)" if i: "i < length (ct_objects s)" for i
  proof -
    have "ob_stage (ct_objects s ! i) = Live" if "(\<exists>g. ct_slots s (ob_name (ct_objects s ! i)) = Some (i, g)) \<or> ob_refs (ct_objects s ! i) > 0"
      using that slot_live [OF inv] used_live [OF inv i] by blast
    then show ?thesis using objects_okD [OF O i] unfolding Let_def obj_ok_def by blast
  qed
  moreover have "\<not> held s i n" if "create_check simd creator now n cfg s = None" for creator now n cfg i
  proof -
    have "cat_inv (s\<lparr>ct_create := Some (n, cfg, ClearTemp)\<rparr>)" by (rule create_start_inv [OF inv that])
    then have "\<not> held (s\<lparr>ct_create := Some (n, cfg, ClearTemp)\<rparr>) i n" by (rule creating_unheld(1)) simp
    then show ?thesis by (simp add: held_def)
  qed
  ultimately show ?thesis using N unfolding names_ok_def by blast
qed

lemma show_u64_length: "length (show_nat (unat (x :: 'a::len word))) \<le> 20" if "LENGTH('a) \<le> 64"
proof -
  have "unat x < 2 ^ LENGTH('a)" using unsigned_less [of x] by simp
  also have "(2::nat) ^ LENGTH('a) \<le> 2 ^ 64" using that by (intro power_increasing) simp_all
  also have "(2::nat) ^ 64 < 10 ^ 20" by simp
  finally show ?thesis by (intro length_show_nat) simp_all
qed

lemma encode_config_length: "length (encode_config c) \<le> kMaxConfigBytes"
proof -
  have "length (metric_to_string (cc_metric c)) \<le> 7" "length (index_type_to_string (cc_index c)) \<le> 7" by (cases "cc_metric c"; simp) (cases "cc_index c"; simp)
  moreover have "length (show_nat (unat (cc_dim c))) \<le> 20" "length (show_nat (unat (hp_M (cc_hnsw c)))) \<le> 20" "length (show_nat (unat (hp_ef_construction (cc_hnsw c)))) \<le> 20"
    "length (show_nat (unat (hp_ef_search (cc_hnsw c)))) \<le> 20" "length (show_nat (unat (hp_max_level (cc_hnsw c)))) \<le> 20" "length (show_nat (unat (hp_seed (cc_hnsw c)))) \<le> 20"
    by (simp_all add: show_u64_length)
  ultimately show ?thesis by (simp add: encode_config_def Let_def quoted_def kMaxConfigBytes_def)
qed

subsection \<open>An execution\<close>

abbreviation catalog_state :: "(string \<Rightarrow> (nat \<times> u64) option) \<Rightarrow> string set \<Rightarrow> nat \<Rightarrow> bool \<Rightarrow> stage \<Rightarrow> files \<Rightarrow> catalog" where
  "catalog_state sl dr refs dropped g fs \<equiv> \<lparr>ct_slots = sl, ct_dropping = dr,
     ct_objects = [\<lparr>ob_name = ''c'', ob_config = sample_config Hnsw, ob_refs = refs, ob_dropped = dropped, ob_stage = g\<rparr>],
     ct_dirs = [''c'' \<mapsto> fs], ct_create = None\<rparr>"

abbreviation config_file :: files where
  "config_file \<equiv> [kConfigName \<mapsto> encode_config (sample_config Hnsw)]"

lemma create_check_sample: "create_check scalar_selection [] 0 ''c'' (sample_config Hnsw) empty_catalog = None"
proof -
  have "is_valid_name ''c''" by (simp add: is_valid_name_def name_char_def)
  moreover obtain st where "collection_create scalar_selection [] 0 (sample_config Hnsw) = Returned (Inr st)"
    using collection_create_outcome [of scalar_selection "[]" 0 "sample_config Hnsw"] sample_config_valid(2) by (auto simp: scalar_selection_def)
  ultimately show ?thesis using sample_config_valid(2) by (simp add: create_check_def empty_catalog_def)
qed

lemma created_run: "(catalog_step scalar_selection)\<^sup>*\<^sup>* empty_catalog (catalog_state [''c'' \<mapsto> (0, 0)] {} 1 False Live config_file)"
proof -
  let ?c = "\<lambda>ph s. s\<lparr>ct_create := Some (''c'', sample_config Hnsw, ph)\<rparr>"
  let ?t = "temp_name ''c''" and ?cfg = "sample_config Hnsw"
  let ?s3 = "empty_catalog\<lparr>ct_dirs := [?t \<mapsto> (\<lambda>_. None)]\<rparr>" and ?s4 = "empty_catalog\<lparr>ct_dirs := [?t \<mapsto> config_file]\<rparr>" and ?s5 = "empty_catalog\<lparr>ct_dirs := [''c'' \<mapsto> config_file]\<rparr>"
  have t: "?t \<noteq> ''c''" by (simp add: temp_name_def)
  have a: "catalog_step scalar_selection empty_catalog (?c ClearTemp empty_catalog)"
    by (rule catalog_step.create_start [OF _ create_check_sample]) (simp add: empty_catalog_def)
  have b: "catalog_step scalar_selection (?c ClearTemp empty_catalog) (?c ClearFinal empty_catalog)"
    using catalog_step.cleared [of "?c ClearTemp empty_catalog" "''c''" ?cfg scalar_selection] by simp
  have c: "catalog_step scalar_selection (?c ClearFinal empty_catalog) (?c MadeTemp ?s3)"
    using catalog_step.make_temp [of "?c ClearFinal empty_catalog" "''c''" ?cfg scalar_selection] by (simp add: make_temp_def empty_catalog_def)
  have d: "catalog_step scalar_selection (?c MadeTemp ?s3) (?c WroteConfig ?s4)"
    using catalog_step.write_config [of "?c MadeTemp ?s3" "''c''" ?cfg scalar_selection] by (simp add: set_file_def empty_catalog_def)
  have e: "catalog_step scalar_selection (?c WroteConfig ?s4) (?c RenamedDir ?s5)"
    using catalog_step.rename [of "?c WroteConfig ?s4" "''c''" ?cfg scalar_selection] t by (simp add: rename_dir_def empty_catalog_def fun_upd_twist)
  have f: "catalog_step scalar_selection (?c RenamedDir ?s5) (catalog_state [''c'' \<mapsto> (0, 0)] {} 1 False Live config_file)"
    using catalog_step.create_done [of "?c RenamedDir ?s5" "''c''" ?cfg scalar_selection] by (simp add: make_slot_def empty_catalog_def)
  show ?thesis using a b c d e f by (blast intro: converse_rtranclp_into_rtranclp)
qed

lemma marker_names [simp]: "kConfigName \<noteq> kDroppedMarker" "kDroppedMarker \<noteq> kConfigName" "kManifestName \<noteq> kDroppedMarker" "kDroppedMarker \<noteq> kManifestName" "kManifestName \<noteq> kConfigName" "kConfigName \<noteq> kManifestName"
  "''index.000001.vfidx'' \<noteq> kConfigName" "kConfigName \<noteq> ''index.000001.vfidx''" "kDroppedMarker \<noteq> ''index.000001.vfidx''" "kManifestName \<noteq> ''index.000001.vfidx''" "''index.000001.vfidx'' \<noteq> kManifestName"
  by (simp_all add: kConfigName_def kDroppedMarker_def kManifestName_def)

theorem catalog_lifecycle_safe_witness:
  "held (catalog_state [''c'' \<mapsto> (0, 0)] {} 1 False Live config_file) 0 ''c'' \<and>
   has_config (catalog_state [''c'' \<mapsto> (0, 0)] {} 1 False Live config_file) ''c'' (sample_config Hnsw)"
  using catalog_lifecycle_safe [OF created_run] by (simp add: held_def Let_def)

lemma dropped_run:
  "(catalog_step scalar_selection)\<^sup>*\<^sup>* empty_catalog
     (catalog_state Map.empty {''c''} 0 True Deleting (config_file(''index.000001.vfidx'' \<mapsto> x, kManifestName \<mapsto> m, kDroppedMarker \<mapsto> ''dropped'' @ [CHR 0x0A])))"
proof -
  let ?fs = "config_file(''index.000001.vfidx'' \<mapsto> x, kManifestName \<mapsto> m)" let ?gs = "?fs(kDroppedMarker \<mapsto> ''dropped'' @ [CHR 0x0A])"
  let ?a = "catalog_state [''c'' \<mapsto> (0, 0)] {} 1 False Live"
  have a: "catalog_step scalar_selection (?a config_file) (?a ?fs)"
    using catalog_step.snapshot_write [of 0 "?a config_file" config_file ?fs scalar_selection] by (simp add: snapshot_change_def)
  have b: "catalog_step scalar_selection (?a ?fs) (catalog_state Map.empty {''c''} 2 True Live ?gs)"
    by (rule catalog_step.drop [of _ "(True, ok_status)" "''c''" ok_status]) (simp_all add: catalog_drop_def set_file_def set_object_def)
  have c: "catalog_step scalar_selection (catalog_state Map.empty {''c''} 2 True Live ?gs) (catalog_state Map.empty {''c''} 1 True Live ?gs)"
    using catalog_step.release [of 0 "catalog_state Map.empty {''c''} 2 True Live ?gs"] by (simp add: set_object_def)
  have d: "catalog_step scalar_selection (catalog_state Map.empty {''c''} 1 True Live ?gs) (catalog_state Map.empty {''c''} 0 True Live ?gs)"
    using catalog_step.release [of 0 "catalog_state Map.empty {''c''} 1 True Live ?gs"] by (simp add: set_object_def)
  have e: "catalog_step scalar_selection (catalog_state Map.empty {''c''} 0 True Live ?gs) (catalog_state Map.empty {''c''} 0 True Deleting ?gs)"
    using catalog_step.reclaim [of 0 "catalog_state Map.empty {''c''} 0 True Live ?gs"] by (simp add: set_object_def set_stage_def)
  show ?thesis using created_run a b c d e by (meson rtranclp.rtrancl_into_rtrancl)
qed

text \<open>
  C19. Two ways in which a restart undoes \<open>drop\<close>. First, the deleter removes the files in any order: when the marker goes first and the process
  stops, the collection whose \<open>drop\<close> succeeded comes back, loaded from its MANIFEST. Second, a \<open>drop\<close> that reports an error may have
  published its marker: the collection stays registered and in use, and the next \<open>open\<close> deletes it.
\<close>

theorem drop_undone_by_restart:
  "(\<exists>s fs. (catalog_step scalar_selection)\<^sup>*\<^sup>* empty_catalog s \<and> ct_slots s ''c'' = None \<and> ''c'' \<in> ct_dropping s \<and> ct_dirs s ''c'' = Some fs \<and>
      fs ''index.000001.vfidx'' = Some x \<and> fs kManifestName = Some m \<and> open_plan ''c'' fs = LoadGeneration) \<and>
   (\<exists>s s' st i g fs. (catalog_step scalar_selection)\<^sup>*\<^sup>* empty_catalog s \<and> catalog_drop (True, io_error ''cannot sync'') ''c'' s = (st, s') \<and> \<not> status_ok st \<and>
      (catalog_step scalar_selection)\<^sup>*\<^sup>* empty_catalog s' \<and> ct_slots s' ''c'' = Some (i, g) \<and> ct_dirs s' ''c'' = Some fs \<and> open_plan ''c'' fs = RemoveEntry)"
proof (intro conjI)
  let ?gs = "config_file(''index.000001.vfidx'' \<mapsto> x, kManifestName \<mapsto> m, kDroppedMarker \<mapsto> ''dropped'' @ [CHR 0x0A])"
  have v: "is_valid_name ''c''" by (simp add: is_valid_name_def name_char_def)
  let ?hs' = "?gs(kDroppedMarker := None)"
  have "catalog_step scalar_selection (catalog_state Map.empty {''c''} 0 True Deleting ?gs) (catalog_state Map.empty {''c''} 0 True Deleting ?hs')"
    using catalog_step.delete_file [of 0 "catalog_state Map.empty {''c''} 0 True Deleting ?gs" scalar_selection kDroppedMarker] by (simp add: set_file_def)
  then have "(catalog_step scalar_selection)\<^sup>*\<^sup>* empty_catalog (catalog_state Map.empty {''c''} 0 True Deleting ?hs')"
    by (rule rtranclp.rtrancl_into_rtrancl [OF dropped_run])
  moreover have "open_plan ''c'' ?hs' = LoadGeneration" using v by (simp add: open_plan_def)
  ultimately show "\<exists>s fs. (catalog_step scalar_selection)\<^sup>*\<^sup>* empty_catalog s \<and> ct_slots s ''c'' = None \<and> ''c'' \<in> ct_dropping s \<and> ct_dirs s ''c'' = Some fs \<and>
      fs ''index.000001.vfidx'' = Some x \<and> fs kManifestName = Some m \<and> open_plan ''c'' fs = LoadGeneration"
    by (intro exI [of _ "catalog_state Map.empty {''c''} 0 True Deleting ?hs'"] exI [of _ ?hs']) simp
  let ?s = "catalog_state [''c'' \<mapsto> (0, 0)] {} 1 False Live config_file"
  let ?s' = "catalog_state [''c'' \<mapsto> (0, 0)] {} 1 False Live (config_file(kDroppedMarker \<mapsto> ''dropped'' @ [CHR 0x0A]))"
  have e: "\<not> status_ok (io_error ''cannot sync'')" by (simp add: io_error_def make_status_def status_ok_def)
  then have d: "catalog_drop (True, io_error ''cannot sync'') ''c'' ?s = (io_error ''cannot sync'', ?s')" by (simp add: catalog_drop_def set_file_def)
  have "catalog_step scalar_selection ?s ?s'" by (rule catalog_step.drop [OF _ _ d]) simp_all
  then have "(catalog_step scalar_selection)\<^sup>*\<^sup>* empty_catalog ?s'" by (rule rtranclp.rtrancl_into_rtrancl [OF created_run])
  moreover have "open_plan ''c'' (config_file(kDroppedMarker \<mapsto> ''dropped'' @ [CHR 0x0A])) = RemoveEntry" using v by (simp add: open_plan_def)
  ultimately show "\<exists>s s' st i g fs. (catalog_step scalar_selection)\<^sup>*\<^sup>* empty_catalog s \<and> catalog_drop (True, io_error ''cannot sync'') ''c'' s = (st, s') \<and> \<not> status_ok st \<and>
      (catalog_step scalar_selection)\<^sup>*\<^sup>* empty_catalog s' \<and> ct_slots s' ''c'' = Some (i, g) \<and> ct_dirs s' ''c'' = Some fs \<and> open_plan ''c'' fs = RemoveEntry"
    using created_run d e by (intro exI [of _ ?s] exI [of _ ?s']) auto
qed

end
