(* ===== verification/VF_CatalogOpen.thy ===== *)
theory VF_CatalogOpen
  imports VF_SnapshotSafe VF_Catalog
begin

text \<open>
  \<open>Catalog::open\<close> (\<^verbatim>\<open>src/collection/catalog.cpp\<close>): what it does with each entry of \<^verbatim>\<open>collections/\<close>, with the errors of every
  call, the loading of the last snapshot and the creation from \<^verbatim>\<open>config.json\<close>. Shown: the directory of a collection that
  the catalog of \<open>VF_Catalog\<close> left behind is removed, loaded or created again, as its files say; and the snapshots of
  \<open>VF_Snapshot\<close> change a directory only as the steps of the catalog allow.
\<close>

subsection \<open>One entry\<close>

text \<open>\<^verbatim>\<open>std::filesystem::remove_all\<close> of a directory of plain files, listed in some order; it stops at the first error.\<close>

fun remove_all :: "string \<Rightarrow> string list \<Rightarrow> world \<Rightarrow> world" where
  "remove_all dir [] w = snd (sys_touch w)"
| "remove_all dir (f # fs) w =
     (case fs_remove (dir, f) w of ((_, ec), w1) \<Rightarrow> if ec \<noteq> None then w1 else remove_all dir fs w1)"

text \<open>
  An entry of the listing: its name, whether it is a directory, its files in the order \<open>remove_all\<close> takes them, the
  listing \<open>collect_garbage\<close> sees, and which allocations succeed.
\<close>

record dir_entry =
  de_name :: string
  de_is_dir :: bool
  de_files :: "string list"
  de_listing :: "string option list"
  de_load :: load_mem
  de_slot :: bool

text \<open>The environment of \<open>Collection::create\<close> and \<open>Collection::load\<close>.\<close>

record open_env =
  oe_simd :: kernel_selection
  oe_creator :: "u8 list"
  oe_now :: u64
  oe_aligned :: bool
  oe_options :: load_options

definition load_last :: "open_env \<Rightarrow> dir_entry \<Rightarrow> string \<Rightarrow> manifest \<Rightarrow> world \<Rightarrow> (collection_state \<times> u64) result outcome \<times> world" where
  "load_last env e dir m w =
     (case load_snapshot (de_load e) (oe_simd env) (oe_aligned env) (oe_options env) dir w of
        (Thrown, w1) \<Rightarrow> (Thrown, w1)
      | (Aborted, w1) \<Rightarrow> (Aborted, w1)
      | (Returned (Inl st), w1) \<Rightarrow> (Returned (Inl (open_fail (de_name e) st)), w1)
      | (Returned (Inr c), w1) \<Rightarrow>
          (case collect_garbage dir (de_listing e) w1 of
             (Thrown, w2) \<Rightarrow> (Thrown, w2)
           | (Aborted, w2) \<Rightarrow> (Aborted, w2)
           | (Returned _, w2) \<Rightarrow> (Returned (Inr (c, mf_generation m)), w2)))"

definition create_empty :: "open_env \<Rightarrow> dir_entry \<Rightarrow> string \<Rightarrow> world \<Rightarrow> (collection_state \<times> u64) result outcome \<times> world" where
  "create_empty env e dir w =
     (case read_small_file (dir, kConfigName) kMaxConfigBytes (path_string (dir, kConfigName)) w of
        (Inl st, w1) \<Rightarrow> (Returned (Inl (open_fail (de_name e) st)), w1)
      | (Inr t, w1) \<Rightarrow>
          (case decode_config t of
             Inl st \<Rightarrow> (Returned (Inl (open_fail (de_name e) st)), w1)
           | Inr cfg \<Rightarrow>
               (case collection_create (oe_simd env) (oe_creator env) (oe_now env)
                       (cfg\<lparr>cc_concurrency := lo_concurrency (oe_options env)\<rparr>) of
                  Thrown \<Rightarrow> (Thrown, w1)
                | Aborted \<Rightarrow> (Aborted, w1)
                | Returned (Inl st) \<Rightarrow> (Returned (Inl (open_fail (de_name e) st)), w1)
                | Returned (Inr c) \<Rightarrow> (Returned (Inr (c, 0)), w1))))"

definition open_collection :: "open_env \<Rightarrow> dir_entry \<Rightarrow> string \<Rightarrow> world \<Rightarrow> (collection_state \<times> u64) result outcome \<times> world" where
  "open_collection env e dir w =
     (case read_manifest dir w of
        (Inr m, w1) \<Rightarrow> load_last env e dir m w1
      | (Inl st, w1) \<Rightarrow>
          if code st = NotFound then create_empty env e dir w1 else (Returned (Inl (open_fail (de_name e) st)), w1))"

text \<open>The body of the loop: the collection of the entry with its generation, or nothing.\<close>

definition open_entry :: "open_env \<Rightarrow> dir_entry \<Rightarrow> string \<Rightarrow> world \<Rightarrow> (collection_state \<times> u64) option result outcome \<times> world" where
  "open_entry env e dir w =
     (case sys_touch w of (ec, w1) \<Rightarrow>
       if ec \<noteq> None \<or> \<not> de_is_dir e then (Returned (Inr None), w1)
       else (case (if is_valid_name (de_name e) then fs_exists (dir, kDroppedMarker) w1 else (False, w1)) of (marked, w2) \<Rightarrow>
         if \<not> is_valid_name (de_name e) \<or> marked
         then (Returned (Inr None),
               if (case de_name e of c # _ \<Rightarrow> c = CHR ''.'' | [] \<Rightarrow> False) \<or> is_valid_name (de_name e)
               then remove_all dir (de_files e) w2 else w2)
         else (case open_collection env e dir w2 of
                 (Thrown, w3) \<Rightarrow> (Thrown, w3)
               | (Aborted, w3) \<Rightarrow> (Aborted, w3)
               | (Returned (Inl st), w3) \<Rightarrow> (Returned (Inl st), w3)
               | (Returned (Inr c), w3) \<Rightarrow> if de_slot e then (Returned (Inr (Some c)), w3) else (Thrown, w3))))"

subsection \<open>The whole directory\<close>

type_synonym slots = "string \<Rightarrow> (collection_state \<times> u64) option"

text \<open>\<open>None\<close> is an increment of the iterator that throws.\<close>

fun open_entries :: "open_env \<Rightarrow> string \<Rightarrow> dir_entry option list \<Rightarrow> slots \<Rightarrow> world \<Rightarrow> slots result outcome \<times> world" where
  "open_entries env base [] sl w = (Returned (Inr sl), w)"
| "open_entries env base (None # es) sl w = (Thrown, w)"
| "open_entries env base (Some e # es) sl w =
     (case open_entry env e (base @ ''/'' @ de_name e) w of
        (Thrown, w1) \<Rightarrow> (Thrown, w1)
      | (Aborted, w1) \<Rightarrow> (Aborted, w1)
      | (Returned (Inl st), w1) \<Rightarrow> (Returned (Inl st), w1)
      | (Returned (Inr None), w1) \<Rightarrow> open_entries env base es sl w1
      | (Returned (Inr (Some c)), w1) \<Rightarrow> open_entries env base es (sl(de_name e \<mapsto> c)) w1)"

definition catalog_open :: "open_env \<Rightarrow> string \<Rightarrow> dir_entry option list \<Rightarrow> world \<Rightarrow> slots result outcome \<times> world" where
  "catalog_open env base es w =
     (case sys_touch w of
        (Some t, w1) \<Rightarrow> (Returned (Inl (io_error (''cannot create '' @ base @ '': '' @ t))), w1)
      | (None, w1) \<Rightarrow>
          (case sys_touch w1 of
             (Some t, w2) \<Rightarrow> (Returned (Inl (io_error (''cannot list '' @ base @ '': '' @ t))), w2)
           | (None, w2) \<Rightarrow> open_entries env base es (\<lambda>_. None) w2))"

subsection \<open>When every call succeeds\<close>

lemma quiet_calls:
  assumes "wd_events w = []"
  shows "sys_touch w = (None, w)" "fs_exists p w = (dk_entry (wd_disk w) (entry_key p) \<noteq> None, w)"
    "stream_open p w = (file_at (wd_disk w) (entry_key p), w)" "stream_read n data w = (Some (take n data), w)"
    "fs_remove p w = (if dk_entry (wd_disk w) (entry_key p) = None then ((False, None), w)
       else ((True, None), set_disk (bind_entry (entry_key p) None (wd_disk w)) w))"
  using quiet_event [OF assms] by (simp_all add: sys_touch_def fs_exists_def stream_open_def stream_read_def fs_remove_def fault_def)




text \<open>In a quiet world the loop body does what \<open>open_plan\<close> decides.\<close>

lemma open_entry_plan:
  assumes w: "wd_events w = []" and d: "de_is_dir e" and f: "\<And>f. file_at (wd_disk w) (entry_key (dir, f)) = map_option string_bytes (fs f)"
  shows "open_plan (de_name e) fs = SkipEntry \<Longrightarrow> open_entry env e dir w = (Returned (Inr None), w)"
    "open_plan (de_name e) fs = RemoveEntry \<Longrightarrow> open_entry env e dir w = (Returned (Inr None), remove_all dir (de_files e) w)"
    "open_plan (de_name e) fs = CreateFromConfig \<Longrightarrow> open_collection env e dir w = create_empty env e dir w"
    "open_plan (de_name e) fs = LoadGeneration \<Longrightarrow> read_manifest dir w = (Inr m, w) \<Longrightarrow> open_collection env e dir w = load_last env e dir m w"
    "open_plan (de_name e) fs \<in> {CreateFromConfig, LoadGeneration} \<Longrightarrow> de_slot e \<Longrightarrow> open_collection env e dir w = (Returned (Inr c), w1) \<Longrightarrow>
      open_entry env e dir w = (Returned (Inr (Some c)), w1)"
proof -
  have x: "dk_entry (wd_disk w) (entry_key (dir, f)) = None \<longleftrightarrow> fs f = None" for f
    using f [of f] by (cases "fs f") (auto simp: file_at_def)
  note q = open_plan_def open_entry_def quiet_calls [OF w] x d
  show "open_plan (de_name e) fs = SkipEntry \<Longrightarrow> open_entry env e dir w = (Returned (Inr None), w)"
    "open_plan (de_name e) fs = RemoveEntry \<Longrightarrow> open_entry env e dir w = (Returned (Inr None), remove_all dir (de_files e) w)"
    "open_plan (de_name e) fs \<in> {CreateFromConfig, LoadGeneration} \<Longrightarrow> de_slot e \<Longrightarrow> open_collection env e dir w = (Returned (Inr c), w1) \<Longrightarrow>
      open_entry env e dir w = (Returned (Inr (Some c)), w1)"
    by (auto simp add: q simp del: not_None_eq split: if_splits)
  show "open_collection env e dir w = create_empty env e dir w" if "open_plan (de_name e) fs = CreateFromConfig"
  proof -
    have "fs kManifestName = None" using that by (simp add: open_plan_def split: if_splits)
    then have "dk_entry (wd_disk w) (entry_key (dir, kManifestName)) = None" using x [of kManifestName] by blast
    then show ?thesis by (simp add: open_collection_def read_manifest_def quiet_calls [OF w])
  qed
  show "read_manifest dir w = (Inr m, w) \<Longrightarrow> open_collection env e dir w = load_last env e dir m w" by (simp add: open_collection_def)
qed



subsection \<open>Snapshots as steps of the catalog\<close>

definition dir_files :: "string \<Rightarrow> disk \<Rightarrow> string \<Rightarrow> u8 list option" where
  "dir_files dir d f = file_at d (entry_key (dir, f))"

text \<open>The directory \<open>d\<close> after \<open>d0\<close>, as \<open>snapshot_change\<close> allows.\<close>

definition changed_by_snapshot :: "string \<Rightarrow> disk \<Rightarrow> disk \<Rightarrow> bool" where
  "changed_by_snapshot dir d0 d \<longleftrightarrow>
     snapshot_change (map_option bytes_string \<circ> dir_files dir d0) (map_option bytes_string \<circ> dir_files dir d)"

lemma changed_by_snapshotI:
  assumes "changed_by_snapshot dir d0 d" "dir_files dir d' kConfigName = dir_files dir d kConfigName"
    "dir_files dir d' kDroppedMarker = dir_files dir d kDroppedMarker"
    "dir_files dir d kManifestName \<noteq> None \<Longrightarrow> dir_files dir d' kManifestName \<noteq> None"
  shows "changed_by_snapshot dir d0 d'"
  using assms by (auto simp: changed_by_snapshot_def snapshot_change_def)

lemma fixed_names:
  assumes "f = kConfigName \<or> f = kDroppedMarker"
  shows "f \<noteq> kManifestName" "f \<noteq> index_file_name g" "f \<noteq> a @ ''.tmp''" "\<not> doomed m f"
proof -
  show "f \<noteq> kManifestName" using assms by auto
  have p: "parse_index_name f = None" using assms by (auto simp: parse_index_name_def kConfigName_def kDroppedMarker_def)
  then show "f \<noteq> index_file_name g" using parse_index_file_name [of g] by auto
  have l: "last f \<noteq> CHR ''p''" "f \<noteq> []" using assms by (auto simp: kConfigName_def kDroppedMarker_def)
  show t: "f \<noteq> a @ ''.tmp''"
  proof
    assume "f = a @ ''.tmp''"
    then have "last f = CHR ''p''" by simp
    then show False using l by simp
  qed
  have "\<not> (4 \<le> length f \<and> drop (length f - 4) f = ''.tmp'')"
    using assms by (auto simp: kConfigName_def kDroppedMarker_def)
  then show "\<not> doomed m f" using p by (auto simp: doomed_def Let_def)
qed

lemma manifest_kept: "\<not> doomed m kManifestName"
proof -
  have "parse_index_name kManifestName = None" "\<not> (4 \<le> length kManifestName \<and> drop (length kManifestName - 4) kManifestName = ''.tmp'')"
    by (simp_all add: parse_index_name_def kManifestName_def)
  then show ?thesis by (auto simp: doomed_def Let_def)
qed

lemma replacing_change:
  assumes c: "changed_by_snapshot dir d0 d" and r: "replacing (dir, n) bytes d d'" and n: "n = kManifestName \<or> n = index_file_name g"
  shows "changed_by_snapshot dir d0 d'"
proof (rule changed_by_snapshotI [OF c])
  have k: "file_at d' (entry_key (dir, f)) = file_at d (entry_key (dir, f)) \<or> f = n \<and> file_at d' (entry_key (dir, f)) = Some bytes"
    if "f \<noteq> n @ ''.tmp''" for f
    using replacingD(3) [OF r, of "entry_key (dir, f)"] that by (auto simp: temp_entry_key entry_key_inj)
  have "dir_files dir d' f = dir_files dir d f" if "f = kConfigName \<or> f = kDroppedMarker" for f
    using k [of f] fixed_names [OF that] n by (auto simp: dir_files_def)
  then show "dir_files dir d' kConfigName = dir_files dir d kConfigName" "dir_files dir d' kDroppedMarker = dir_files dir d kDroppedMarker"
    by simp_all
  show "dir_files dir d' kManifestName \<noteq> None" if "dir_files dir d kManifestName \<noteq> None"
    using k [of kManifestName] that temp_names(2) [of n] by (auto simp: dir_files_def)
qed

lemma garbage_change:
  "garbage_loop dir m names report w = (r, w') \<Longrightarrow> stays (changed_by_snapshot dir d0) w w'"
proof (induction dir m names report w rule: garbage_loop.induct)
  case (3 dir m name names report w)
  show ?case
  proof (cases "doomed m name")
    case True
    obtain removed ec w1 where x: "fs_remove (dir, name) w = ((removed, ec), w1)" by (metis prod.exhaust)
    have "changed_by_snapshot dir d0 (bind_entry (entry_key (dir, name)) None (wd_disk w))" if "changed_by_snapshot dir d0 (wd_disk w)"
    proof (rule changed_by_snapshotI [OF that])
      have "dir_files dir (bind_entry (entry_key (dir, name)) None (wd_disk w)) f = dir_files dir (wd_disk w) f" if "\<not> doomed m f" for f
        using True that by (auto simp: dir_files_def file_at_def bind_entry_def entry_key_inj)
      then show "dir_files dir (bind_entry (entry_key (dir, name)) None (wd_disk w)) kConfigName = dir_files dir (wd_disk w) kConfigName"
        "dir_files dir (bind_entry (entry_key (dir, name)) None (wd_disk w)) kDroppedMarker = dir_files dir (wd_disk w) kDroppedMarker"
        "dir_files dir (wd_disk w) kManifestName \<noteq> None \<Longrightarrow> dir_files dir (bind_entry (entry_key (dir, name)) None (wd_disk w)) kManifestName \<noteq> None"
        using fixed_names(4) manifest_kept by simp_all
    qed
    then have "stays (changed_by_snapshot dir d0) w w1"
      using fs_remove_effect [OF x] by (auto intro: same_disk_stays stays_set_disk [of _ _ "wd_disk w1"])
    moreover have "stays (changed_by_snapshot dir d0) w1 w'"
      using "3.IH"(2) [OF _ x [symmetric]] True "3.prems" by (simp add: x)
    ultimately show ?thesis by (rule stays_trans)
  next
    case False
    then show ?thesis using 3 by simp
  qed
qed simp_all

lemma collect_garbage_change:
  assumes "collect_garbage dir names w = (r, w')"
  shows "stays (changed_by_snapshot dir d0) w w'"
proof -
  obtain rm w1 where rm: "read_manifest dir w = (rm, w1)" by fastforce
  obtain t w2 where t: "sys_touch w1 = (t, w2)" by fastforce
  have s: "same_disk w w1" "same_disk w w2" using read_manifest_same [OF rm] read_calls_same(4) [OF t] by (auto intro: same_disk_trans)
  have "w' = w1 \<or> w' = w2 \<or> (\<exists>m rep rg. garbage_loop dir m names rep w2 = (rg, w'))"
    using assms by (cases rm; cases t) (auto simp: collect_garbage_def rm t split: prod.splits outcome.splits)
  then show ?thesis using s garbage_change stays_trans [OF same_disk_stays [OF s(2)]] by (auto intro: same_disk_stays)
qed

lemma publish_change:
  assumes run: "publish_snapshot mem names dir g crc w = (r, w')" and ok: "disk_ok (wd_disk w)" and c: "changed_by_snapshot dir d0 (wd_disk w)"
  shows "stays (changed_by_snapshot dir d0) w w'"
proof -
  let ?m = "\<lparr>mf_format = 1, mf_generation = g, mf_file = index_file_name g, mf_crc32c = crc\<rparr>"
  obtain r1 w1 where r1: "write_text (sm_manifest mem) (dir, kManifestName) (encode_manifest ?m) w = (r1, w1)" by fastforce
  have s1: "stays (changed_by_snapshot dir d0) w w1"
    by (rule stays_weaken [OF write_text_safe(1) [OF ok manifest_not_temp r1] replacing_refl [OF ok]])
      (rule replacing_change [OF c], assumption, simp)
  obtain r2 w2 where r2: "collect_garbage dir names w1 = (r2, w2)" by fastforce
  have s2: "stays (changed_by_snapshot dir d0) w w2" by (rule stays_trans [OF s1 collect_garbage_change [OF r2]])
  have "w' = w1 \<or> w' = w2"
    using run by (auto simp: publish_snapshot_def write_manifest_def r1 r2 split: outcome.splits if_splits)
  then show ?thesis using s1 s2 by blast
qed

lemma save_generation_change:
  assumes run: "save_generation mem names s dir g w = (r, w')" and s: "savable s" and ok: "disk_ok (wd_disk w)" and c: "changed_by_snapshot dir d0 (wd_disk w)"
  shows "stays (changed_by_snapshot dir d0) w w'"
proof -
  let ?p = "(dir, index_file_name g)"
  obtain r1 w1 where r1: "collection_save (sm_file mem) (sm_index mem) s ?p w = (r1, w1)" by fastforce
  note W = save_safe(1) [OF s ok index_name_not_temp r1]
  have s1: "stays (changed_by_snapshot dir d0) w w1"
    by (rule stays_weaken [OF W replacing_refl [OF ok]]) (rule replacing_change [OF c, where g = g], assumption, simp)
  have r: "replacing ?p (saved_file s) (wd_disk w) (wd_disk w1)" using W replacing_refl [OF ok] by (simp add: stays_def)
  obtain r2 w2 where r2: "read_header_crc ?p w1 = (r2, w2)" by fastforce
  note same = read_header_crc_same [OF r2]
  have s2: "stays (changed_by_snapshot dir d0) w w2" by (rule stays_trans [OF s1 same_disk_stays [OF same]])
  have d2: "disk_ok (wd_disk w2)" "changed_by_snapshot dir d0 (wd_disk w2)"
    using replacingD(1) [OF r] s2 c same by (simp_all add: same_disk_def stays_def)
  have s3: "stays (changed_by_snapshot dir d0) w w3" if "publish_snapshot mem names dir g crc w2 = (r3, w3)" for crc r3 w3
    by (rule stays_trans [OF s2 publish_change [OF that d2]])
  have "w' = w1 \<or> w' = w2 \<or> (\<exists>crc. publish_snapshot mem names dir g crc w2 = (r, w'))"
    using run by (auto simp: save_generation_def Let_def r1 r2 split: outcome.splits if_splits sum.splits)
  then show ?thesis using s1 s2 s3 by blast
qed

text \<open>At every moment of a snapshot in a directory nobody else writes, the directory is as a step of the catalog may leave it.\<close>

lemma save_snapshot_changes:
  assumes run: "save_snapshot mem names s dir ds w = (r, ds', w')" and s: "savable s" and ok: "disk_ok (wd_disk w)"
  shows "\<exists>hs. wd_history w' = wd_history w @ hs \<and> (\<forall>d\<in>set hs. changed_by_snapshot dir (wd_disk w) d) \<and>
    changed_by_snapshot dir (wd_disk w) (wd_disk w')"
proof -
  obtain t w1 where t: "sys_touch w = (t, w1)" by fastforce
  obtain rm w2 where rm: "read_manifest dir w1 = (rm, w2)" by fastforce
  have same: "same_disk w w1" "same_disk w w2"
    using read_calls_same(4) [OF t] read_manifest_same [OF rm] by (auto intro: same_disk_trans)
  have c: "changed_by_snapshot dir (wd_disk w) (wd_disk w)" by (simp add: changed_by_snapshot_def snapshot_change_def)
  then have d2: "disk_ok (wd_disk w2)" "changed_by_snapshot dir (wd_disk w) (wd_disk w2)" using ok same by (simp_all add: same_disk_def)
  have "w' = w1 \<or> w' = w2 \<or> (\<exists>g r3. save_generation mem names s dir g w2 = (r3, w'))"
    using run by (cases t) (auto simp: save_snapshot_def create_directories_def t rm split: sum.splits prod.splits)
  then have "stays (changed_by_snapshot dir (wd_disk w)) w w'"
    using same save_generation_change [OF _ s d2] stays_trans [OF same_disk_stays [OF same(2)]] by (auto intro: same_disk_stays)
  then show ?thesis using c unfolding stays_def by blast
qed

subsection \<open>Properties\<close>






end
