(* ===== verification/VF_SharedMutex.thy ===== *)
theory VF_SharedMutex
  imports VF_Counters
begin

text \<open>
  The fair reader/writer lock (\<^verbatim>\<open>src/concurrency/fair_shared_mutex.hpp\<close>). A step is one critical section of
  the internal mutex: up to the return of a member function or to the wait on a condition variable, and
  from a wake-up on. A thread that waits is asleep until it is notified or wakes spuriously, and then checks
  its predicate again. Shown: mutual exclusion with exact counters, no lost wake-up, and how far the lock
  is fair.
\<close>

datatype thread_state = Idle | ReadAsleep | ReadAwake | Reading | WriteAsleep | WriteAwake | Writing

record fair_mutex =
  active_readers :: u64
  waiting_readers :: u64
  waiting_writers :: u64
  reader_quota :: u64
  writer_active :: bool
  threads :: "thread_state list"

definition new_mutex :: "nat \<Rightarrow> fair_mutex" where
  "new_mutex n = \<lparr>active_readers = 0, waiting_readers = 0, waiting_writers = 0, reader_quota = 0, writer_active = False, threads = replicate n Idle\<rparr>"

definition set_thread :: "nat \<Rightarrow> thread_state \<Rightarrow> fair_mutex \<Rightarrow> fair_mutex" where
  "set_thread t p m = m\<lparr>threads := (threads m)[t := p]\<rparr>"

subsection \<open>Member functions\<close>

text \<open>\<open>lock_shared\<close>: the predicate of the wait, and what follows it.\<close>

definition reader_may :: "fair_mutex \<Rightarrow> bool" where
  "reader_may m \<longleftrightarrow> \<not> writer_active m \<and> (waiting_writers m = 0 \<or> reader_quota m > 0)"

definition check_reader :: "nat \<Rightarrow> fair_mutex \<Rightarrow> fair_mutex" where
  "check_reader t m =
     (if reader_may m
      then set_thread t Reading
        (m\<lparr>waiting_readers := waiting_readers m - 1, reader_quota := (if reader_quota m > 0 then reader_quota m - 1 else reader_quota m),
           active_readers := active_readers m + 1\<rparr>)
      else set_thread t ReadAsleep m)"

definition lock_shared :: "nat \<Rightarrow> fair_mutex \<Rightarrow> fair_mutex" where
  "lock_shared t m = check_reader t (m\<lparr>waiting_readers := waiting_readers m + 1\<rparr>)"

text \<open>\<open>notify_one\<close> wakes one of the sleeping threads, if there is one; \<open>notify_all\<close> wakes all.\<close>

inductive notify_writer :: "fair_mutex \<Rightarrow> fair_mutex \<Rightarrow> bool" where
  one: "t < length (threads m) \<Longrightarrow> threads m ! t = WriteAsleep \<Longrightarrow> notify_writer m (set_thread t WriteAwake m)"
| none: "WriteAsleep \<notin> set (threads m) \<Longrightarrow> notify_writer m m"

definition notify_readers :: "fair_mutex \<Rightarrow> fair_mutex" where
  "notify_readers m = m\<lparr>threads := map (\<lambda>p. if p = ReadAsleep then ReadAwake else p) (threads m)\<rparr>"

definition unlock_shared :: "nat \<Rightarrow> fair_mutex \<Rightarrow> fair_mutex \<Rightarrow> bool" where
  "unlock_shared t m m' \<longleftrightarrow>
     (let m1 = set_thread t Idle (m\<lparr>active_readers := active_readers m - 1\<rparr>)
      in if active_readers m1 = 0 \<and> waiting_writers m1 > 0 then notify_writer m1 m' else m' = m1)"

definition writer_may :: "fair_mutex \<Rightarrow> bool" where
  "writer_may m \<longleftrightarrow> \<not> writer_active m \<and> active_readers m = 0 \<and> reader_quota m = 0"

definition check_writer :: "nat \<Rightarrow> fair_mutex \<Rightarrow> fair_mutex" where
  "check_writer t m =
     (if writer_may m then set_thread t Writing (m\<lparr>waiting_writers := waiting_writers m - 1, writer_active := True\<rparr>)
      else set_thread t WriteAsleep m)"

definition mutex_lock :: "nat \<Rightarrow> fair_mutex \<Rightarrow> fair_mutex" where
  "mutex_lock t m = check_writer t (m\<lparr>waiting_writers := waiting_writers m + 1\<rparr>)"

definition mutex_unlock :: "nat \<Rightarrow> fair_mutex \<Rightarrow> fair_mutex \<Rightarrow> bool" where
  "mutex_unlock t m m' \<longleftrightarrow>
     (let m1 = set_thread t Idle (m\<lparr>writer_active := False, reader_quota := waiting_readers m\<rparr>)
      in if waiting_readers m1 > 0 then m' = notify_readers m1
         else if waiting_writers m1 > 0 then notify_writer m1 m' else m' = m1)"

subsection \<open>Executions\<close>

datatype mutex_event = LockShared nat | UnlockShared nat | Lock nat | Unlock nat | Wake nat | Spurious nat

inductive mutex_step :: "fair_mutex \<Rightarrow> mutex_event \<Rightarrow> fair_mutex \<Rightarrow> bool" where
  lock_shared: "t < length (threads m) \<Longrightarrow> threads m ! t = Idle \<Longrightarrow> mutex_step m (LockShared t) (lock_shared t m)"
| wake_reader: "t < length (threads m) \<Longrightarrow> threads m ! t = ReadAwake \<Longrightarrow> mutex_step m (Wake t) (check_reader t m)"
| unlock_shared: "t < length (threads m) \<Longrightarrow> threads m ! t = Reading \<Longrightarrow> unlock_shared t m m' \<Longrightarrow> mutex_step m (UnlockShared t) m'"
| lock: "t < length (threads m) \<Longrightarrow> threads m ! t = Idle \<Longrightarrow> mutex_step m (Lock t) (mutex_lock t m)"
| wake_writer: "t < length (threads m) \<Longrightarrow> threads m ! t = WriteAwake \<Longrightarrow> mutex_step m (Wake t) (check_writer t m)"
| unlock: "t < length (threads m) \<Longrightarrow> threads m ! t = Writing \<Longrightarrow> mutex_unlock t m m' \<Longrightarrow> mutex_step m (Unlock t) m'"
| spurious_reader: "t < length (threads m) \<Longrightarrow> threads m ! t = ReadAsleep \<Longrightarrow> mutex_step m (Spurious t) (set_thread t ReadAwake m)"
| spurious_writer: "t < length (threads m) \<Longrightarrow> threads m ! t = WriteAsleep \<Longrightarrow> mutex_step m (Spurious t) (set_thread t WriteAwake m)"

inductive mutex_run :: "fair_mutex \<Rightarrow> mutex_event list \<Rightarrow> fair_mutex \<Rightarrow> bool" where
  stop: "mutex_run m [] m"
| more: "mutex_step m e m1 \<Longrightarrow> mutex_run m1 es m2 \<Longrightarrow> mutex_run m (e # es) m2"

subsection \<open>The invariant\<close>

definition how_many :: "thread_state \<Rightarrow> fair_mutex \<Rightarrow> nat" where
  "how_many p m = count (mset (threads m)) p"

definition mutex_inv :: "fair_mutex \<Rightarrow> bool" where
  "mutex_inv m \<longleftrightarrow>
     length (threads m) < 2 ^ 64 \<and>
     unat (active_readers m) = how_many Reading m \<and>
     unat (waiting_readers m) = how_many ReadAsleep m + how_many ReadAwake m \<and>
     unat (waiting_writers m) = how_many WriteAsleep m + how_many WriteAwake m \<and>
     how_many Writing m = (if writer_active m then 1 else 0) \<and>
     (writer_active m \<longrightarrow> active_readers m = 0 \<and> reader_quota m = 0) \<and>
     unat (reader_quota m) \<le> how_many ReadAwake m \<and>
     (\<not> writer_active m \<and> waiting_writers m = 0 \<longrightarrow> how_many ReadAsleep m = 0) \<and>
     (writer_may m \<and> waiting_writers m \<noteq> 0 \<longrightarrow> how_many WriteAwake m > 0)"

lemma how_many_set:
  assumes "t < length (threads m)"
  shows "how_many q (set_thread t p m) = how_many q m - (if threads m ! t = q then 1 else 0) + (if p = q then 1 else 0)"
    "threads m ! t = q \<Longrightarrow> how_many q m > 0"
proof -
  show "how_many q m > 0" if "threads m ! t = q" using that assms nth_mem_mset [OF assms] by (auto simp: how_many_def)
  show "how_many q (set_thread t p m) = how_many q m - (if threads m ! t = q then 1 else 0) + (if p = q then 1 else 0)"
    using assms by (simp add: how_many_def set_thread_def mset_update)
qed

lemma how_many_update [simp]:
  "how_many q (m\<lparr>active_readers := a\<rparr>) = how_many q m" "how_many q (m\<lparr>waiting_readers := a\<rparr>) = how_many q m" "how_many q (m\<lparr>waiting_writers := a\<rparr>) = how_many q m"
  "how_many q (m\<lparr>reader_quota := a\<rparr>) = how_many q m" "how_many q (m\<lparr>writer_active := b\<rparr>) = how_many q m"
  by (simp_all add: how_many_def)

lemma set_thread_fields [simp]:
  "active_readers (set_thread t p m) = active_readers m" "waiting_readers (set_thread t p m) = waiting_readers m" "waiting_writers (set_thread t p m) = waiting_writers m"
  "reader_quota (set_thread t p m) = reader_quota m" "writer_active (set_thread t p m) = writer_active m" "length (threads (set_thread t p m)) = length (threads m)"
  by (simp_all add: set_thread_def)

lemma how_many_sum:
  "how_many Idle m + how_many ReadAsleep m + how_many ReadAwake m + how_many Reading m + how_many WriteAsleep m + how_many WriteAwake m + how_many Writing m =
   length (threads m)"
proof -
  have "count (mset xs) Idle + count (mset xs) ReadAsleep + count (mset xs) ReadAwake + count (mset xs) Reading + count (mset xs) WriteAsleep +
      count (mset xs) WriteAwake + count (mset xs) Writing = length xs" for xs
  proof (induction xs)
    case (Cons x xs)
    then show ?case by (cases x) simp_all
  qed simp
  then show ?thesis by (simp add: how_many_def)
qed

lemma how_many_notify_readers [simp]:
  "how_many q (notify_readers m) =
     (if q = ReadAsleep then 0 else if q = ReadAwake then how_many ReadAwake m + how_many ReadAsleep m else how_many q m)"
proof -
  have "count (mset (map (\<lambda>p. if p = ReadAsleep then ReadAwake else p) xs)) q =
      (if q = ReadAsleep then 0 else if q = ReadAwake then count (mset xs) ReadAwake + count (mset xs) ReadAsleep else count (mset xs) q)" for xs
    by (induction xs) auto
  then show ?thesis by (simp add: how_many_def notify_readers_def)
qed

lemma notify_readers_fields [simp]:
  "active_readers (notify_readers m) = active_readers m" "waiting_readers (notify_readers m) = waiting_readers m" "waiting_writers (notify_readers m) = waiting_writers m"
  "reader_quota (notify_readers m) = reader_quota m" "writer_active (notify_readers m) = writer_active m" "length (threads (notify_readers m)) = length (threads m)"
  by (simp_all add: notify_readers_def)

text \<open>The invariant over natural numbers.\<close>

definition counts_ok :: "nat \<Rightarrow> nat \<Rightarrow> nat \<Rightarrow> nat \<Rightarrow> bool \<Rightarrow> (thread_state \<Rightarrow> nat) \<Rightarrow> bool" where
  "counts_ok ar wr ww q wa h \<longleftrightarrow>
     ar = h Reading \<and> wr = h ReadAsleep + h ReadAwake \<and> ww = h WriteAsleep + h WriteAwake \<and> h Writing = (if wa then 1 else 0) \<and>
     (wa \<longrightarrow> ar = 0 \<and> q = 0) \<and> q \<le> h ReadAwake \<and> (\<not> wa \<and> ww = 0 \<longrightarrow> h ReadAsleep = 0) \<and>
     (\<not> wa \<and> ar = 0 \<and> q = 0 \<and> ww \<noteq> 0 \<longrightarrow> h WriteAwake > 0)"

lemma mutex_inv_counts:
  "mutex_inv m \<longleftrightarrow> length (threads m) < 2 ^ 64 \<and>
     counts_ok (unat (active_readers m)) (unat (waiting_readers m)) (unat (waiting_writers m)) (unat (reader_quota m)) (writer_active m) (\<lambda>p. how_many p m)"
  unfolding mutex_inv_def counts_ok_def writer_may_def word_counter(4) by auto

lemma new_mutex_inv: "n < 2 ^ 64 \<Longrightarrow> mutex_inv (new_mutex n)"
  by (simp add: mutex_inv_def new_mutex_def how_many_def writer_may_def)

text \<open>The moves of a thread, as changes of the counts.\<close>

definition move :: "thread_state \<Rightarrow> thread_state \<Rightarrow> (thread_state \<Rightarrow> nat) \<Rightarrow> thread_state \<Rightarrow> nat" where
  "move p q h = h(p := h p - 1, q := h q + 1)"

lemma move_thread:
  assumes "t < length (threads m)" "threads m ! t = p" "p \<noteq> q"
  shows "(\<lambda>x. how_many x (set_thread t q m)) = move p q (\<lambda>x. how_many x m)" "how_many p m > 0"
proof -
  show "how_many p m > 0" by (rule how_many_set(2) [OF assms(1,2)])
  show "(\<lambda>x. how_many x (set_thread t q m)) = move p q (\<lambda>x. how_many x m)"
    using assms(2,3) by (auto simp: how_many_set(1) [OF assms(1)] move_def fun_eq_iff)
qed

lemma counts_reader:
  assumes "counts_ok ar wr ww q wa h" "h ReadAwake > 0"
  shows "\<not> wa \<Longrightarrow> ww = 0 \<or> q > 0 \<Longrightarrow> counts_ok (ar + 1) (wr - 1) ww (q - 1) wa (move ReadAwake Reading h)"
    "wa \<or> ww \<noteq> 0 \<and> q = 0 \<Longrightarrow> counts_ok ar wr ww q wa (move ReadAwake ReadAsleep h)"
  using assms by (auto simp: counts_ok_def move_def)

lemma counts_writer:
  assumes "counts_ok ar wr ww q wa h" "h WriteAwake > 0"
  shows "\<not> wa \<Longrightarrow> ar = 0 \<Longrightarrow> q = 0 \<Longrightarrow> counts_ok ar wr (ww - 1) q True (move WriteAwake Writing h)"
    "wa \<or> ar \<noteq> 0 \<or> q \<noteq> 0 \<Longrightarrow> counts_ok ar wr ww q wa (move WriteAwake WriteAsleep h)"
  using assms by (auto simp: counts_ok_def move_def)

lemma counts_arrive:
  assumes "counts_ok ar wr ww q wa h"
  shows "counts_ok ar (wr + 1) ww q wa (move Idle ReadAwake h)" "counts_ok ar wr (ww + 1) q wa (move Idle WriteAwake h)"
  using assms by (auto simp: counts_ok_def move_def)

lemma counts_wake:
  assumes "counts_ok ar wr ww q wa h"
  shows "h ReadAsleep > 0 \<Longrightarrow> counts_ok ar wr ww q wa (move ReadAsleep ReadAwake h)" "h WriteAsleep > 0 \<Longrightarrow> counts_ok ar wr ww q wa (move WriteAsleep WriteAwake h)"
  using assms by (auto simp: counts_ok_def move_def)

lemma counts_unlock_shared:
  assumes "counts_ok ar wr ww q wa h" "h Reading > 0"
  shows "ar - 1 \<noteq> 0 \<or> ww = 0 \<Longrightarrow> counts_ok (ar - 1) wr ww q wa (move Reading Idle h)"
    "ww \<noteq> 0 \<Longrightarrow> h WriteAsleep > 0 \<Longrightarrow> counts_ok (ar - 1) wr ww q wa (move WriteAsleep WriteAwake (move Reading Idle h))"
    "ww \<noteq> 0 \<Longrightarrow> h WriteAsleep = 0 \<Longrightarrow> counts_ok (ar - 1) wr ww q wa (move Reading Idle h)"
  using assms by (auto simp: counts_ok_def move_def)

lemma counts_unlock:
  assumes "counts_ok ar wr ww q wa h" "h Writing > 0"
  shows "wr > 0 \<Longrightarrow> counts_ok ar wr ww wr False ((move Writing Idle h)(ReadAsleep := 0, ReadAwake := h ReadAwake + h ReadAsleep))"
    "wr = 0 \<Longrightarrow> ww = 0 \<Longrightarrow> counts_ok ar wr ww wr False (move Writing Idle h)"
    "wr = 0 \<Longrightarrow> h WriteAsleep > 0 \<Longrightarrow> counts_ok ar wr ww wr False (move WriteAsleep WriteAwake (move Writing Idle h))"
    "wr = 0 \<Longrightarrow> ww \<noteq> 0 \<Longrightarrow> h WriteAsleep = 0 \<Longrightarrow> counts_ok ar wr ww wr False (move Writing Idle h)"
  using assms by (auto simp: counts_ok_def move_def split: if_splits)

subsection \<open>Every step keeps the invariant\<close>

lemma inv_counts:
  assumes "mutex_inv m"
  shows "counts_ok (unat (active_readers m)) (unat (waiting_readers m)) (unat (waiting_writers m)) (unat (reader_quota m)) (writer_active m) (\<lambda>p. how_many p m)"
    "length (threads m) < 2 ^ 64" "p \<noteq> q \<Longrightarrow> how_many p m + how_many q m < 2 ^ 64"
proof -
  show "counts_ok (unat (active_readers m)) (unat (waiting_readers m)) (unat (waiting_writers m)) (unat (reader_quota m)) (writer_active m) (\<lambda>p. how_many p m)"
    and l: "length (threads m) < 2 ^ 64" using assms by (simp_all add: mutex_inv_counts)
  show "how_many p m + how_many q m < 2 ^ 64" if "p \<noteq> q" using that how_many_sum [of m] l by (cases p; cases q) simp_all
qed

lemma check_reader_inv:
  assumes inv: "mutex_inv m" and t: "t < length (threads m)" "threads m ! t = ReadAwake"
  shows "mutex_inv (check_reader t m)"
proof -
  note C = inv_counts [OF inv]
  have pos: "how_many ReadAwake m > 0" by (rule how_many_set(2) [OF t])
  have c: "unat (active_readers m) = how_many Reading m" "0 < unat (waiting_readers m)" using C(1) pos by (auto simp: counts_ok_def)
  show ?thesis
  proof (cases "reader_may m")
    case True
    let ?q = "if reader_quota m > 0 then reader_quota m - 1 else reader_quota m"
    let ?m = "m\<lparr>waiting_readers := waiting_readers m - 1, reader_quota := ?q, active_readers := active_readers m + 1\<rparr>"
    have "unat (active_readers m + 1) = unat (active_readers m) + 1" using C(3) [of Reading ReadAwake] pos c(1) by (intro word_counter(1)) simp
    moreover have "unat (waiting_readers m - 1) = unat (waiting_readers m) - 1" by (rule word_counter(2) [OF c(2)])
    moreover have "unat ?q = unat (reader_quota m) - 1" by (simp add: word_counter)
    moreover have "(\<lambda>x. how_many x (set_thread t Reading ?m)) = move ReadAwake Reading (\<lambda>x. how_many x m)" using move_thread(1) [of t ?m ReadAwake Reading] t by simp
    moreover have "check_reader t m = set_thread t Reading ?m" using True by (simp add: check_reader_def)
    ultimately show ?thesis
      using counts_reader(1) [OF C(1) pos] True C(2) by (simp add: mutex_inv_counts reader_may_def word_counter(3,4))
  next
    case False
    then have "check_reader t m = set_thread t ReadAsleep m" by (simp add: check_reader_def)
    moreover have "(\<lambda>x. how_many x (set_thread t ReadAsleep m)) = move ReadAwake ReadAsleep (\<lambda>x. how_many x m)" by (rule move_thread(1) [OF t]) simp
    ultimately show ?thesis
      using counts_reader(2) [OF C(1) pos] C(2) False by (simp add: mutex_inv_counts reader_may_def word_counter(3,4))
  qed
qed

lemma check_writer_inv:
  assumes inv: "mutex_inv m" and t: "t < length (threads m)" "threads m ! t = WriteAwake"
  shows "mutex_inv (check_writer t m)"
proof -
  note C = inv_counts [OF inv]
  have pos: "how_many WriteAwake m > 0" by (rule how_many_set(2) [OF t])
  have c: "0 < unat (waiting_writers m)" using C(1) pos by (auto simp: counts_ok_def)
  show ?thesis
  proof (cases "writer_may m")
    case True
    let ?m = "m\<lparr>waiting_writers := waiting_writers m - 1, writer_active := True\<rparr>"
    have "unat (waiting_writers m - 1) = unat (waiting_writers m) - 1" by (rule word_counter(2) [OF c])
    moreover have "(\<lambda>x. how_many x (set_thread t Writing ?m)) = move WriteAwake Writing (\<lambda>x. how_many x m)" using move_thread(1) [of t ?m WriteAwake Writing] t by simp
    moreover have "check_writer t m = set_thread t Writing ?m" using True by (simp add: check_writer_def)
    ultimately show ?thesis
      using counts_writer(1) [OF C(1) pos] True C(2) by (simp add: mutex_inv_counts writer_may_def word_counter(3,4))
  next
    case False
    then have "check_writer t m = set_thread t WriteAsleep m" by (simp add: check_writer_def)
    moreover have "(\<lambda>x. how_many x (set_thread t WriteAsleep m)) = move WriteAwake WriteAsleep (\<lambda>x. how_many x m)" by (rule move_thread(1) [OF t]) simp
    ultimately show ?thesis
      using counts_writer(2) [OF C(1) pos] C(2) False by (simp add: mutex_inv_counts writer_may_def word_counter(3,4))
  qed
qed

text \<open>An arriving thread counts itself and then checks as if it had just woken up.\<close>

lemma arrive_eq:
  "lock_shared t m = check_reader t (set_thread t ReadAwake (m\<lparr>waiting_readers := waiting_readers m + 1\<rparr>))"
  "mutex_lock t m = check_writer t (set_thread t WriteAwake (m\<lparr>waiting_writers := waiting_writers m + 1\<rparr>))"
  by (simp_all add: lock_shared_def check_reader_def reader_may_def mutex_lock_def check_writer_def writer_may_def set_thread_def)

lemma arrive_inv:
  assumes inv: "mutex_inv m" and t: "t < length (threads m)" "threads m ! t = Idle"
  shows "mutex_inv (set_thread t ReadAwake (m\<lparr>waiting_readers := waiting_readers m + 1\<rparr>))"
    "mutex_inv (set_thread t WriteAwake (m\<lparr>waiting_writers := waiting_writers m + 1\<rparr>))"
proof -
  note C = inv_counts [OF inv]
  have pos: "how_many Idle m > 0" by (rule how_many_set(2) [OF t])
  have "how_many Idle m + how_many ReadAsleep m + how_many ReadAwake m < 2 ^ 64" "how_many Idle m + how_many WriteAsleep m + how_many WriteAwake m < 2 ^ 64"
    using how_many_sum [of m] C(2) by simp_all
  moreover have "unat (waiting_readers m) = how_many ReadAsleep m + how_many ReadAwake m" "unat (waiting_writers m) = how_many WriteAsleep m + how_many WriteAwake m"
    using C(1) unfolding counts_ok_def by blast+
  ultimately have u: "unat (waiting_readers m + 1) = unat (waiting_readers m) + 1" "unat (waiting_writers m + 1) = unat (waiting_writers m) + 1"
    using pos by (intro word_counter(1); simp)+
  have "(\<lambda>x. how_many x (set_thread t ReadAwake (m\<lparr>waiting_readers := waiting_readers m + 1\<rparr>))) = move Idle ReadAwake (\<lambda>x. how_many x m)"
    "(\<lambda>x. how_many x (set_thread t WriteAwake (m\<lparr>waiting_writers := waiting_writers m + 1\<rparr>))) = move Idle WriteAwake (\<lambda>x. how_many x m)"
    using move_thread(1) [of t "m\<lparr>waiting_readers := waiting_readers m + 1\<rparr>" Idle ReadAwake] move_thread(1) [of t "m\<lparr>waiting_writers := waiting_writers m + 1\<rparr>" Idle WriteAwake] t
    by simp_all
  then show "mutex_inv (set_thread t ReadAwake (m\<lparr>waiting_readers := waiting_readers m + 1\<rparr>))"
    "mutex_inv (set_thread t WriteAwake (m\<lparr>waiting_writers := waiting_writers m + 1\<rparr>))"
    using counts_arrive [OF C(1)] C(2) u by (simp_all add: mutex_inv_counts)
qed

lemma wakeup_inv:
  assumes inv: "mutex_inv m" and t: "t < length (threads m)"
  shows "threads m ! t = ReadAsleep \<Longrightarrow> mutex_inv (set_thread t ReadAwake m)" "threads m ! t = WriteAsleep \<Longrightarrow> mutex_inv (set_thread t WriteAwake m)"
proof -
  note C = inv_counts(1,2) [OF inv]
  show "mutex_inv (set_thread t ReadAwake m)" if "threads m ! t = ReadAsleep"
    using counts_wake(1) [OF C(1) how_many_set(2) [OF t that]] move_thread(1) [OF t that, of ReadAwake] C(2) by (simp add: mutex_inv_counts)
  show "mutex_inv (set_thread t WriteAwake m)" if "threads m ! t = WriteAsleep"
    using counts_wake(2) [OF C(1) how_many_set(2) [OF t that]] move_thread(1) [OF t that, of WriteAwake] C(2) by (simp add: mutex_inv_counts)
qed

lemma notify_writer_counts:
  assumes "notify_writer m m'"
  shows "(\<lambda>x. how_many x m') = move WriteAsleep WriteAwake (\<lambda>x. how_many x m) \<and> how_many WriteAsleep m > 0 \<or> m' = m \<and> how_many WriteAsleep m = 0"
    "active_readers m' = active_readers m" "waiting_readers m' = waiting_readers m" "waiting_writers m' = waiting_writers m" "reader_quota m' = reader_quota m"
    "writer_active m' = writer_active m" "length (threads m') = length (threads m)"
proof -
  show "(\<lambda>x. how_many x m') = move WriteAsleep WriteAwake (\<lambda>x. how_many x m) \<and> how_many WriteAsleep m > 0 \<or> m' = m \<and> how_many WriteAsleep m = 0"
    using assms
  proof cases
    case (one t)
    then show ?thesis using move_thread [OF one(2,3), of WriteAwake] by simp
  qed (simp add: how_many_def count_eq_zero_iff)
qed (use assms in \<open>auto elim: notify_writer.cases\<close>)

lemma unlock_shared_inv:
  assumes inv: "mutex_inv m" and t: "t < length (threads m)" "threads m ! t = Reading" and u: "unlock_shared t m m'"
  shows "mutex_inv m'"
proof -
  note C = inv_counts [OF inv]
  let ?m = "set_thread t Idle (m\<lparr>active_readers := active_readers m - 1\<rparr>)"
  have pos: "how_many Reading m > 0" by (rule how_many_set(2) [OF t])
  then have ar: "unat (active_readers m - 1) = unat (active_readers m) - 1" using C(1) by (intro word_counter(2)) (simp add: counts_ok_def)
  have h: "(\<lambda>x. how_many x ?m) = move Reading Idle (\<lambda>x. how_many x m)" using move_thread(1) [of t "m\<lparr>active_readers := active_readers m - 1\<rparr>" Reading Idle] t by simp
  then have ws: "how_many WriteAsleep ?m = how_many WriteAsleep m" by (simp add: move_def fun_eq_iff)
  note U = counts_unlock_shared [OF C(1) pos]
  show ?thesis
  proof (cases "active_readers ?m = 0 \<and> waiting_writers ?m > 0")
    case True
    then have n: "notify_writer ?m m'" using u by (simp add: unlock_shared_def Let_def)
    have ww: "unat (waiting_writers m) \<noteq> 0" using True by (simp add: word_counter)
    show ?thesis using notify_writer_counts [OF n] U(2,3) [OF ww] h ws ar C(2) by (auto simp: mutex_inv_counts)
  next
    case False
    then have "m' = ?m" using u by (simp add: unlock_shared_def Let_def)
    moreover have "unat (active_readers m) - 1 \<noteq> 0 \<or> unat (waiting_writers m) = 0" using False ar by (simp add: word_counter)
    ultimately show ?thesis using U(1) h ar C(2) by (simp add: mutex_inv_counts)
  qed
qed

lemma unlock_inv:
  assumes inv: "mutex_inv m" and t: "t < length (threads m)" "threads m ! t = Writing" and u: "mutex_unlock t m m'"
  shows "mutex_inv m'"
proof -
  note C = inv_counts [OF inv]
  let ?m = "set_thread t Idle (m\<lparr>writer_active := False, reader_quota := waiting_readers m\<rparr>)"
  have pos: "how_many Writing m > 0" by (rule how_many_set(2) [OF t])
  have h: "(\<lambda>x. how_many x ?m) = move Writing Idle (\<lambda>x. how_many x m)"
    using move_thread(1) [of t "m\<lparr>writer_active := False, reader_quota := waiting_readers m\<rparr>" Writing Idle] t by simp
  then have ws: "how_many WriteAsleep ?m = how_many WriteAsleep m" by (simp add: move_def fun_eq_iff)
  note U = counts_unlock [OF C(1) pos]
  consider "waiting_readers m > 0" "m' = notify_readers ?m" | "waiting_readers m = 0" "waiting_writers m > 0" "notify_writer ?m m'" | "waiting_readers m = 0" "waiting_writers m = 0" "m' = ?m"
    using u unfolding mutex_unlock_def Let_def by (cases "waiting_readers m = 0"; cases "waiting_writers m = 0") (simp_all add: word_greater_zero_iff)
  then show ?thesis
  proof cases
    case 1
    have "(\<lambda>x. how_many x m') = (move Writing Idle (\<lambda>x. how_many x m))(ReadAsleep := 0, ReadAwake := how_many ReadAwake m + how_many ReadAsleep m)"
      using h by (auto simp: 1(2) fun_eq_iff move_def)
    then show ?thesis using U(1) 1 C(2) by (simp add: mutex_inv_counts word_counter)
  next
    case 2
    then have "unat (waiting_readers m) = 0" "unat (waiting_writers m) \<noteq> 0" by (simp_all add: word_counter)
    then show ?thesis using notify_writer_counts [OF 2(3)] U(3,4) h ws C(2) by (auto simp: mutex_inv_counts)
  next
    case 3
    then show ?thesis using U(2) h C(2) by (simp add: mutex_inv_counts)
  qed
qed

lemma mutex_step_inv: "mutex_step m e m' \<Longrightarrow> mutex_inv m \<Longrightarrow> mutex_inv m'"
proof (induction rule: mutex_step.induct)
  case (lock_shared t m)
  show ?case unfolding arrive_eq by (rule check_reader_inv [OF arrive_inv(1) [OF lock_shared(3,1,2)]]) (use lock_shared in \<open>simp_all add: set_thread_def\<close>)
next
  case (wake_reader t m)
  show ?case by (rule check_reader_inv [OF wake_reader(3,1,2)])
next
  case (unlock_shared t m m')
  show ?case by (rule unlock_shared_inv [OF unlock_shared(4,1,2,3)])
next
  case (lock t m)
  show ?case unfolding arrive_eq by (rule check_writer_inv [OF arrive_inv(2) [OF lock(3,1,2)]]) (use lock in \<open>simp_all add: set_thread_def\<close>)
next
  case (wake_writer t m)
  show ?case by (rule check_writer_inv [OF wake_writer(3,1,2)])
next
  case (unlock t m m')
  show ?case by (rule unlock_inv [OF unlock(4,1,2,3)])
next
  case (spurious_reader t m)
  show ?case by (rule wakeup_inv(1) [OF spurious_reader(3,1,2)])
next
  case (spurious_writer t m)
  show ?case by (rule wakeup_inv(2) [OF spurious_writer(3,1,2)])
qed

lemma mutex_run_inv: "mutex_run m es m' \<Longrightarrow> mutex_inv m \<Longrightarrow> mutex_inv m'"
  by (induction rule: mutex_run.induct) (blast dest: mutex_step_inv)+

lemma reachable_inv: "n < 2 ^ 64 \<Longrightarrow> mutex_run (new_mutex n) es m \<Longrightarrow> mutex_inv m"
  using mutex_run_inv new_mutex_inv by blast

subsection \<open>Exclusion\<close>

text \<open>
  C20. Mutual exclusion with exact counters. In every state reachable by any interleaving of any number of
  threads, with every spurious wake-up, at most one thread is writing, none reads while one writes, the
  flag says whether one writes, and the three counters are the numbers of reading threads, of waiting readers
  and of waiting writers, none of them ever having wrapped around.
\<close>

theorem shared_mutex_exclusion:
  assumes "n < 2 ^ 64" "mutex_run (new_mutex n) es m"
  shows "how_many Writing m \<le> 1 \<and> (how_many Writing m > 0 \<longrightarrow> how_many Reading m = 0) \<and> (writer_active m \<longleftrightarrow> how_many Writing m > 0) \<and>
    unat (active_readers m) = how_many Reading m \<and> unat (waiting_readers m) = how_many ReadAsleep m + how_many ReadAwake m \<and>
    unat (waiting_writers m) = how_many WriteAsleep m + how_many WriteAwake m"
  using reachable_inv [OF assms] by (auto simp: mutex_inv_counts counts_ok_def)

theorem shared_mutex_exclusion_witness:
  "how_many Writing (lock_shared 1 (mutex_lock 0 (new_mutex 2))) = 1 \<and> how_many Reading (lock_shared 1 (mutex_lock 0 (new_mutex 2))) = 0"
proof -
  have "mutex_step (new_mutex 2) (Lock 0) (mutex_lock 0 (new_mutex 2))" by (rule mutex_step.lock) (simp_all add: new_mutex_def)
  moreover have "mutex_step (mutex_lock 0 (new_mutex 2)) (LockShared 1) (lock_shared 1 (mutex_lock 0 (new_mutex 2)))"
    by (rule mutex_step.lock_shared) (simp_all add: new_mutex_def mutex_lock_def check_writer_def writer_may_def set_thread_def numeral_2_eq_2)
  ultimately have "mutex_run (new_mutex 2) [Lock 0, LockShared 1] (lock_shared 1 (mutex_lock 0 (new_mutex 2)))" by (blast intro: mutex_run.intros)
  moreover have "how_many Writing (lock_shared 1 (mutex_lock 0 (new_mutex 2))) = 1"
    by (simp add: new_mutex_def lock_shared_def check_reader_def reader_may_def mutex_lock_def check_writer_def writer_may_def set_thread_def numeral_2_eq_2 how_many_def)
  ultimately show ?thesis using shared_mutex_exclusion [of 2 "[Lock 0, LockShared 1]"] by simp
qed

subsection \<open>No lost wake-up\<close>

lemma awake_thread: "how_many p m > 0 \<Longrightarrow> \<exists>t < length (threads m). threads m ! t = p"
  by (simp add: how_many_def) (metis count_greater_zero_iff in_set_conv_nth set_mset_mset)

text \<open>
  C21. No lost wake-up: in every reachable state in which no thread holds the lock and some thread waits for it,
  some waiting thread is awake and obtains the lock when it next runs; the signal of the condition variables is
  never needed again. In particular the lock cannot deadlock.
\<close>

theorem shared_mutex_no_lost_wakeup:
  assumes "n < 2 ^ 64" "mutex_run (new_mutex n) es m"
    and "how_many Reading m = 0" "how_many Writing m = 0"
    and "how_many ReadAsleep m + how_many ReadAwake m + how_many WriteAsleep m + how_many WriteAwake m > 0"
  shows "\<exists>t m'. t < length (threads m) \<and> mutex_step m (Wake t) m' \<and>
    (threads m ! t = ReadAwake \<and> threads m' ! t = Reading \<or> threads m ! t = WriteAwake \<and> threads m' ! t = Writing)"
proof -
  have c: "counts_ok (unat (active_readers m)) (unat (waiting_readers m)) (unat (waiting_writers m)) (unat (reader_quota m)) (writer_active m) (\<lambda>p. how_many p m)"
    using inv_counts(1) reachable_inv [OF assms(1,2)] by blast
  moreover from this have "\<not> writer_active m" using assms(4) by (auto simp: counts_ok_def)
  ultimately consider (reader) "how_many ReadAwake m > 0" "reader_may m" | (writer) "how_many WriteAwake m > 0" "writer_may m"
    using assms(3-5) unfolding counts_ok_def reader_may_def writer_may_def word_counter(3,4) by (cases "unat (waiting_writers m) = 0"; cases "unat (reader_quota m) = 0") auto
  then show ?thesis
  proof cases
    case reader
    then obtain t where t: "t < length (threads m)" "threads m ! t = ReadAwake" using awake_thread by blast
    moreover have "threads (check_reader t m) ! t = Reading" using reader(2) t by (simp add: check_reader_def set_thread_def)
    ultimately show ?thesis using mutex_step.wake_reader by blast
  next
    case writer
    then obtain t where t: "t < length (threads m)" "threads m ! t = WriteAwake" using awake_thread by blast
    moreover have "threads (check_writer t m) ! t = Writing" using writer(2) t by (simp add: check_writer_def set_thread_def)
    ultimately show ?thesis using mutex_step.wake_writer by blast
  qed
qed

abbreviation mutex_state :: "u64 \<Rightarrow> u64 \<Rightarrow> u64 \<Rightarrow> u64 \<Rightarrow> bool \<Rightarrow> thread_state list \<Rightarrow> fair_mutex" where
  "mutex_state ar wr ww q wa ts \<equiv> \<lparr>active_readers = ar, waiting_readers = wr, waiting_writers = ww, reader_quota = q, writer_active = wa, threads = ts\<rparr>"

lemmas mutex_eval = lock_shared_def check_reader_def reader_may_def mutex_lock_def check_writer_def writer_may_def set_thread_def unlock_shared_def mutex_unlock_def
  notify_readers_def Let_def

lemma reader_behind_writer:
  "mutex_run (new_mutex 2) [Lock 0, LockShared 1, Unlock 0] (mutex_state 0 1 0 1 False [Idle, ReadAwake])"
proof -
  have "mutex_step (new_mutex 2) (Lock 0) (mutex_state 0 0 0 0 True [Writing, Idle])"
    using mutex_step.lock [of 0 "new_mutex 2"] by (simp add: new_mutex_def mutex_eval numeral_2_eq_2)
  moreover have "mutex_step (mutex_state 0 0 0 0 True [Writing, Idle]) (LockShared 1) (mutex_state 0 1 0 0 True [Writing, ReadAsleep])"
    using mutex_step.lock_shared [of 1 "mutex_state 0 0 0 0 True [Writing, Idle]"] by (simp add: mutex_eval)
  moreover have "mutex_step (mutex_state 0 1 0 0 True [Writing, ReadAsleep]) (Unlock 0) (mutex_state 0 1 0 1 False [Idle, ReadAwake])"
    by (rule mutex_step.unlock) (simp_all add: mutex_eval)
  ultimately show ?thesis by (blast intro: mutex_run.intros)
qed

theorem shared_mutex_no_lost_wakeup_witness:
  "\<exists>t m'. t < 2 \<and> mutex_step (mutex_state 0 1 0 1 False [Idle, ReadAwake]) (Wake t) m' \<and> ([Idle, ReadAwake] ! t = ReadAwake \<and> threads m' ! t = Reading \<or>
    [Idle, ReadAwake] ! t = WriteAwake \<and> threads m' ! t = Writing)"
proof -
  have "(2::nat) < 2 ^ 64" by simp
  then show ?thesis using shared_mutex_no_lost_wakeup [OF _ reader_behind_writer] by (simp add: how_many_def numeral_2_eq_2)
qed

subsection \<open>Fairness\<close>

text \<open>
  Runs with a writer waiting at every step and no writer section ending, with the number of readers admitted.
\<close>

inductive contended_run :: "fair_mutex \<Rightarrow> nat \<Rightarrow> fair_mutex \<Rightarrow> bool" where
  stop: "contended_run m 0 m"
| more: "waiting_writers m \<noteq> 0 \<Longrightarrow> mutex_step m e m1 \<Longrightarrow> (\<And>t. e \<noteq> Unlock t) \<Longrightarrow> contended_run m1 r m2 \<Longrightarrow>
    contended_run m (r + (how_many Reading m1 - how_many Reading m)) m2"

lemma check_reader_quota:
  assumes "waiting_writers m \<noteq> 0" "t < length (threads m)" "threads m ! t = ReadAwake"
  shows "unat (reader_quota (check_reader t m)) + (how_many Reading (check_reader t m) - how_many Reading m) = unat (reader_quota m)"
proof (cases "reader_may m")
  case True
  then have q: "reader_quota m > 0" using assms(1) by (simp add: reader_may_def)
  then have "unat (reader_quota m - 1) = unat (reader_quota m) - 1" "unat (reader_quota m) > 0" by (simp_all add: word_counter)
  then show ?thesis using True q assms(2,3) by (simp add: check_reader_def how_many_set)
qed (use assms(2,3) in \<open>simp add: check_reader_def how_many_set\<close>)

lemma check_writer_quota:
  assumes "t < length (threads m)" "threads m ! t = WriteAwake"
  shows "reader_quota (check_writer t m) = reader_quota m" "how_many Reading (check_writer t m) = how_many Reading m"
  using assms by (auto simp: check_writer_def how_many_set)

lemma notify_writer_reading: "notify_writer m m' \<Longrightarrow> how_many Reading m' = how_many Reading m"
  using notify_writer_counts(1) [of m m'] by (auto simp: move_def fun_eq_iff)

lemma contended_step:
  assumes "mutex_step m e m1" "\<And>t. e \<noteq> Unlock t" "waiting_writers m \<noteq> 0"
  shows "unat (reader_quota m1) + (how_many Reading m1 - how_many Reading m) = unat (reader_quota m)"
  using assms
proof cases
  case (lock_shared t)
  let ?m = "set_thread t ReadAwake (m\<lparr>waiting_readers := waiting_readers m + 1\<rparr>)"
  have "threads ?m ! t = ReadAwake" "t < length (threads ?m)" using lock_shared by (simp_all add: set_thread_def)
  then show ?thesis using check_reader_quota [of ?m t] assms(3) lock_shared by (simp add: arrive_eq how_many_set)
next
  case (wake_reader t)
  then show ?thesis using check_reader_quota [OF assms(3)] by simp
next
  case (unlock_shared t)
  let ?m = "set_thread t Idle (m\<lparr>active_readers := active_readers m - 1\<rparr>)"
  have "how_many Reading m1 = how_many Reading ?m" "reader_quota m1 = reader_quota m"
    using unlock_shared(4) notify_writer_reading [of ?m m1] notify_writer_counts(5) [of ?m m1] by (auto simp: unlock_shared_def Let_def split: if_splits)
  then show ?thesis using unlock_shared(2,3) by (simp add: how_many_set)
next
  case (lock t)
  let ?m = "set_thread t WriteAwake (m\<lparr>waiting_writers := waiting_writers m + 1\<rparr>)"
  have "threads ?m ! t = WriteAwake" "t < length (threads ?m)" using lock by (simp_all add: set_thread_def)
  then show ?thesis using check_writer_quota [of t ?m] lock by (simp add: arrive_eq how_many_set)
next
  case (wake_writer t)
  then show ?thesis using check_writer_quota by simp
qed (auto simp: how_many_set)

lemma contended_run_quota: "contended_run m r m' \<Longrightarrow> r + unat (reader_quota m') = unat (reader_quota m)"
proof (induction rule: contended_run.induct)
  case (more m e m1 r m2)
  then show ?case using contended_step [OF more(2,3,1)] by simp
qed simp

lemma contended_run_inv: "contended_run m r m' \<Longrightarrow> mutex_inv m \<Longrightarrow> mutex_inv m'"
  by (induction rule: contended_run.induct) (blast dest: mutex_step_inv)+

text \<open>
  C22. Bounded overtaking. Consider any reachable state and any continuation during which a writer waits and no
  writer section ends. The readers admitted meanwhile never exceed the quota left by the last writer, which is at most
  the number of readers then waiting and awake; and when the continuation ends with a writer admitted, exactly that
  many readers were admitted before it. Where a writer section ends, the quota is set to the number of readers waiting.
\<close>

theorem shared_mutex_bounded_overtaking:
  assumes "n < 2 ^ 64" "mutex_run (new_mutex n) es m" "contended_run m r m'"
  shows "r \<le> unat (reader_quota m) \<and> unat (reader_quota m) \<le> how_many ReadAwake m \<and> (how_many Writing m' = 1 \<longrightarrow> r = unat (reader_quota m)) \<and>
    (\<forall>t m1. mutex_step m (Unlock t) m1 \<longrightarrow> reader_quota m1 = waiting_readers m)"
proof -
  have inv: "mutex_inv m" by (rule reachable_inv [OF assms(1,2)])
  then have inv': "mutex_inv m'" by (rule contended_run_inv [OF assms(3)])
  have "reader_quota m1 = waiting_readers m" if "mutex_step m (Unlock t) m1" for t m1
    using that by cases (auto simp: mutex_unlock_def Let_def dest: notify_writer_counts(5) split: if_splits)
  then show ?thesis using inv inv' contended_run_quota [OF assms(3)] by (auto simp: mutex_inv_counts counts_ok_def split: if_splits)
qed

lemma notify_first_writer:
  "threads m ! t = WriteAsleep \<Longrightarrow> t < length (threads m) \<Longrightarrow> m' = set_thread t WriteAwake m \<Longrightarrow> notify_writer m m'"
  by (simp add: notify_writer.one)

lemma queue_behind_writer:
  "mutex_run (new_mutex 4) [Lock 0, LockShared 1, Lock 2] (mutex_state 0 1 1 0 True [Writing, ReadAsleep, WriteAsleep, Idle])"
proof -
  have "mutex_step (new_mutex 4) (Lock 0) (mutex_state 0 0 0 0 True [Writing, Idle, Idle, Idle])"
    using mutex_step.lock [of 0 "new_mutex 4"] by (simp add: new_mutex_def mutex_eval numeral_eq_Suc)
  moreover have "mutex_step (mutex_state 0 0 0 0 True [Writing, Idle, Idle, Idle]) (LockShared 1) (mutex_state 0 1 0 0 True [Writing, ReadAsleep, Idle, Idle])"
    using mutex_step.lock_shared [of 1 "mutex_state 0 0 0 0 True [Writing, Idle, Idle, Idle]"] by (simp add: mutex_eval)
  moreover have "mutex_step (mutex_state 0 1 0 0 True [Writing, ReadAsleep, Idle, Idle]) (Lock 2) (mutex_state 0 1 1 0 True [Writing, ReadAsleep, WriteAsleep, Idle])"
    using mutex_step.lock [of 2 "mutex_state 0 1 0 0 True [Writing, ReadAsleep, Idle, Idle]"] by (simp add: mutex_eval numeral_2_eq_2)
  ultimately show ?thesis by (blast intro: mutex_run.intros)
qed

lemma mutex_run_append: "mutex_run m es m1 \<Longrightarrow> mutex_run m1 es' m2 \<Longrightarrow> mutex_run m (es @ es') m2"
  by (induction rule: mutex_run.induct) (auto intro: mutex_run.intros)

text \<open>The state after the first writer has unlocked, and a contended run from it that ends in the second writer's section.\<close>

abbreviation first_unlocked :: fair_mutex where
  "first_unlocked \<equiv> mutex_state 0 1 1 1 False [Idle, ReadAwake, WriteAsleep, Idle]"

abbreviation second_writing :: fair_mutex where
  "second_writing \<equiv> mutex_state 0 0 0 0 True [Idle, Idle, Writing, Idle]"

lemma first_unlocked_run: "mutex_run (new_mutex 4) ([Lock 0, LockShared 1, Lock 2] @ [Unlock 0]) first_unlocked"
proof (rule mutex_run_append [OF queue_behind_writer])
  have "mutex_step (mutex_state 0 1 1 0 True [Writing, ReadAsleep, WriteAsleep, Idle]) (Unlock 0) first_unlocked"
    by (rule mutex_step.unlock) (simp_all add: mutex_eval)
  then show "mutex_run (mutex_state 0 1 1 0 True [Writing, ReadAsleep, WriteAsleep, Idle]) [Unlock 0] first_unlocked" by (blast intro: mutex_run.intros)
qed

lemma second_writing_run: "contended_run first_unlocked 1 second_writing"
proof -
  let ?a = "mutex_state 1 0 1 0 False [Idle, Reading, WriteAsleep, Idle]"
  let ?b = "mutex_state 0 0 1 0 False [Idle, Idle, WriteAwake, Idle]"
  have a: "mutex_step first_unlocked (Wake 1) ?a" using mutex_step.wake_reader [of 1 first_unlocked] by (simp add: mutex_eval)
  have b: "mutex_step ?a (UnlockShared 1) ?b"
  proof (rule mutex_step.unlock_shared)
    show "unlock_shared 1 ?a ?b" unfolding unlock_shared_def Let_def
      by (auto simp: set_thread_def numeral_2_eq_2 intro!: notify_first_writer [of _ 2])
  qed simp_all
  have c: "mutex_step ?b (Wake 2) second_writing" using mutex_step.wake_writer [of 2 ?b] by (simp add: mutex_eval numeral_2_eq_2)
  have "contended_run ?b 0 second_writing" using contended_run.more [OF _ c _ contended_run.stop] by (simp add: how_many_def)
  then have "contended_run ?a 0 second_writing" using contended_run.more [OF _ b, of 0 second_writing] by (simp add: how_many_def)
  then show ?thesis using contended_run.more [OF _ a, of 0 second_writing] by (simp add: how_many_def)
qed

theorem shared_mutex_bounded_overtaking_witness:
  "how_many Writing second_writing = 1 \<and> unat (reader_quota first_unlocked) = 1 \<and> how_many ReadAwake first_unlocked \<ge> 1"
proof -
  have "(4::nat) < 2 ^ 64" by simp
  then show ?thesis using shared_mutex_bounded_overtaking [OF _ first_unlocked_run second_writing_run] by (simp add: how_many_def)
qed

text \<open>One writer section of \<open>a\<close>, with \<open>b\<close> the other writer: the late reader 3 takes the quota that was meant for reader 1.\<close>

definition steal_cycle :: "nat \<Rightarrow> nat \<Rightarrow> mutex_event list" where
  "steal_cycle a b = [Unlock a, LockShared 3, Wake 1, UnlockShared 3, Wake b, Lock a]"

lemma steal_cycle_run:
  fixes a b :: nat
  assumes ab: "a = 0 \<and> b = 2 \<or> a = 2 \<and> b = 0"
  shows "mutex_run (mutex_state 0 1 1 0 True ([Idle, ReadAsleep, Idle, Idle][a := Writing, b := WriteAsleep])) (steal_cycle a b)
    (mutex_state 0 1 1 0 True ([Idle, ReadAsleep, Idle, Idle][b := Writing, a := WriteAsleep]))"
proof -
  let ?u = "mutex_state 0 1 1 1 False ([Idle, ReadAwake, Idle, Idle][b := WriteAsleep])"
  let ?v = "mutex_state 1 1 1 0 False ([Idle, ReadAwake, Idle, Reading][b := WriteAsleep])"
  let ?w = "mutex_state 1 1 1 0 False ([Idle, ReadAsleep, Idle, Reading][b := WriteAsleep])"
  let ?x = "mutex_state 0 1 1 0 False ([Idle, ReadAsleep, Idle, Idle][b := WriteAwake])"
  let ?y = "mutex_state 0 1 0 0 True ([Idle, ReadAsleep, Idle, Idle][b := Writing])"
  have "mutex_step (mutex_state 0 1 1 0 True ([Idle, ReadAsleep, Idle, Idle][a := Writing, b := WriteAsleep])) (Unlock a) ?u"
    using ab by (intro mutex_step.unlock) (auto simp: mutex_eval numeral_2_eq_2)
  moreover have "mutex_step ?u (LockShared 3) ?v"
    using mutex_step.lock_shared [of 3 ?u] ab by (auto simp: mutex_eval numeral_eq_Suc)
  moreover have "mutex_step ?v (Wake 1) ?w"
    using mutex_step.wake_reader [of 1 ?v] ab by (auto simp: mutex_eval numeral_eq_Suc)
  moreover have "mutex_step ?w (UnlockShared 3) ?x"
  proof (rule mutex_step.unlock_shared)
    show "unlock_shared 3 ?w ?x" unfolding unlock_shared_def Let_def
      using ab by (auto simp: set_thread_def numeral_eq_Suc intro!: notify_first_writer [of _ b])
  qed (use ab in \<open>auto simp: numeral_eq_Suc\<close>)
  moreover have "mutex_step ?x (Wake b) ?y"
    using mutex_step.wake_writer [of b ?x] ab by (auto simp: mutex_eval numeral_2_eq_2)
  moreover have "mutex_step ?y (Lock a) (mutex_state 0 1 1 0 True ([Idle, ReadAsleep, Idle, Idle][b := Writing, a := WriteAsleep]))"
    using mutex_step.lock [of a ?y] ab by (auto simp: mutex_eval numeral_2_eq_2)
  ultimately show ?thesis unfolding steal_cycle_def by (blast intro: mutex_run.intros)
qed

lemma steal_cycles_run:
  fixes a b :: nat
  assumes "a = 0 \<and> b = 2 \<or> a = 2 \<and> b = 0"
  shows "\<exists>es. mutex_run (mutex_state 0 1 1 0 True ([Idle, ReadAsleep, Idle, Idle][a := Writing, b := WriteAsleep])) es
      (mutex_state 0 1 1 0 True ([Idle, ReadAsleep, Idle, Idle][(if even k then a else b) := Writing, (if even k then b else a) := WriteAsleep])) \<and>
    length (filter (\<lambda>e. e \<in> range Unlock) es) = k \<and> UnlockShared 1 \<notin> set es"
  using assms
proof (induction k arbitrary: a b)
  case 0
  then show ?case using mutex_run.stop by force
next
  case (Suc k)
  obtain es where es: "mutex_run (mutex_state 0 1 1 0 True ([Idle, ReadAsleep, Idle, Idle][b := Writing, a := WriteAsleep])) es
      (mutex_state 0 1 1 0 True ([Idle, ReadAsleep, Idle, Idle][(if even k then b else a) := Writing, (if even k then a else b) := WriteAsleep]))"
    "length (filter (\<lambda>e. e \<in> range Unlock) es) = k" "UnlockShared 1 \<notin> set es"
    using Suc.IH [of b a] Suc.prems by blast
  have "length (filter (\<lambda>e. e \<in> range Unlock) (steal_cycle a b @ es)) = Suc k" "UnlockShared 1 \<notin> set (steal_cycle a b @ es)"
    using es(2,3) by (auto simp: steal_cycle_def)
  then show ?case using mutex_run_append [OF steal_cycle_run [OF Suc.prems] es(1)] by (intro exI [of _ "steal_cycle a b @ es"]) auto
qed

text \<open>
  C23. A waiting reader may wait for any number of writer sections: for every \<open>k\<close> there is a run of four threads in
  which reader 1 waits from before to after \<open>k\<close> ends of writer sections without ever reading, because a
  reader that arrives after the writer's \<open>unlock\<close> may take the quota before the woken reader has run.
\<close>

theorem shared_mutex_reader_overtaken:
  "\<exists>m es m'. mutex_run (new_mutex 4) [Lock 0, LockShared 1, Lock 2] m \<and> threads m ! 1 = ReadAsleep \<and> mutex_run m es m' \<and> threads m' ! 1 = ReadAsleep \<and>
    length (filter (\<lambda>e. e \<in> range Unlock) es) = k \<and> UnlockShared 1 \<notin> set es"
proof -
  obtain es where "mutex_run (mutex_state 0 1 1 0 True ([Idle, ReadAsleep, Idle, Idle][0 := Writing, 2 := WriteAsleep])) es
      (mutex_state 0 1 1 0 True ([Idle, ReadAsleep, Idle, Idle][(if even k then 0 else 2) := Writing, (if even k then 2 else 0) := WriteAsleep]))"
    "length (filter (\<lambda>e. e \<in> range Unlock) es) = k" "UnlockShared 1 \<notin> set es"
    using steal_cycles_run [of 0 2 k] by blast
  then show ?thesis using queue_behind_writer by (intro exI conjI) (auto simp: numeral_2_eq_2)
qed

end
