(* ===== verification/VF_TaskQueue.thy ===== *)
theory VF_TaskQueue
  imports VF_Counters
begin

text \<open>
  The task queue of \<open>ThreadPool\<close> (\<^verbatim>\<open>src/concurrency/thread_pool.cpp\<close>): \<open>enqueue\<close>, the loop \<open>work\<close> of a worker and
  \<open>shutdown\<close>, as steps between two accesses to the mutex; a notification follows the unlock as a step of its own. Shown: every
  accepted task runs exactly once, in the order of acceptance, before \<open>shutdown\<close> returns, and no
  wake-up is lost.
\<close>

subsection \<open>State\<close>

datatype worker = Asleep | Ready | Running nat | Gone

text \<open>
  Tasks are numbered by the caller. \<open>notifies\<close> and \<open>announce\<close> are the calls of \<open>notify_one\<close> and \<open>notify_all\<close> still
  to come; the last three fields are ghosts: the tasks accepted, taken from the queue, and finished.
\<close>

record task_pool =
  tp_queue :: "nat list"
  tp_stopping :: bool
  tp_workers :: "worker list"
  tp_notifies :: nat
  tp_announce :: bool
  tp_accepted :: "nat list"
  tp_taken :: "nat list"
  tp_finished :: "nat list"

definition new_pool :: "nat \<Rightarrow> nat \<Rightarrow> task_pool" where
  "new_pool threads hardware = \<lparr>tp_queue = [], tp_stopping = False, tp_workers = replicate (if threads = 0 then max 1 hardware else threads) Ready,
     tp_notifies = 0, tp_announce = False, tp_accepted = [], tp_taken = [], tp_finished = []\<rparr>"

subsection \<open>Operations\<close>

definition enqueue :: "nat \<Rightarrow> task_pool \<Rightarrow> bool \<times> task_pool" where
  "enqueue t p =
     (if tp_stopping p then (False, p)
      else (True, p\<lparr>tp_queue := tp_queue p @ [t], tp_notifies := tp_notifies p + 1, tp_accepted := tp_accepted p @ [t]\<rparr>))"

definition set_worker :: "nat \<Rightarrow> worker \<Rightarrow> task_pool \<Rightarrow> task_pool" where
  "set_worker i w p = p\<lparr>tp_workers := (tp_workers p)[i := w]\<rparr>"

text \<open>The critical section of \<open>work\<close>: wait, leave, or take the task at the front.\<close>

definition work :: "nat \<Rightarrow> task_pool \<Rightarrow> task_pool" where
  "work i p =
     (if \<not> (tp_stopping p \<or> tp_queue p \<noteq> []) then set_worker i Asleep p
      else case tp_queue p of [] \<Rightarrow> set_worker i Gone p
        | t # ts \<Rightarrow> set_worker i (Running t) (p\<lparr>tp_queue := ts, tp_taken := tp_taken p @ [t]\<rparr>))"

definition shutdown :: "task_pool \<Rightarrow> task_pool" where
  "shutdown p = p\<lparr>tp_stopping := True, tp_announce := True\<rparr>"

text \<open>\<open>join\<close> of every worker has returned.\<close>

definition joined :: "task_pool \<Rightarrow> bool" where
  "joined p \<longleftrightarrow> (\<forall>w \<in> set (tp_workers p). w = Gone)"

inductive pool_act :: "task_pool \<Rightarrow> task_pool \<Rightarrow> bool" where
  notify_one: "tp_notifies p > 0 \<Longrightarrow> i < length (tp_workers p) \<Longrightarrow> tp_workers p ! i = Asleep \<Longrightarrow> pool_act p (set_worker i Ready (p\<lparr>tp_notifies := tp_notifies p - 1\<rparr>))"
| notify_none: "tp_notifies p > 0 \<Longrightarrow> Asleep \<notin> set (tp_workers p) \<Longrightarrow> pool_act p (p\<lparr>tp_notifies := tp_notifies p - 1\<rparr>)"
| notify_all: "tp_announce p \<Longrightarrow> pool_act p (p\<lparr>tp_announce := False, tp_workers := map (\<lambda>w. if w = Asleep then Ready else w) (tp_workers p)\<rparr>)"
| work: "i < length (tp_workers p) \<Longrightarrow> tp_workers p ! i = Ready \<Longrightarrow> pool_act p (work i p)"
| finish: "i < length (tp_workers p) \<Longrightarrow> tp_workers p ! i = Running t \<Longrightarrow> pool_act p (set_worker i Ready (p\<lparr>tp_finished := tp_finished p @ [t]\<rparr>))"

text \<open>What happens from outside: submissions, the start of a shutdown, and spurious wake-ups.\<close>

inductive pool_event :: "task_pool \<Rightarrow> task_pool \<Rightarrow> bool" where
  act: "pool_act p p' \<Longrightarrow> pool_event p p'"
| submit: "pool_event p (snd (enqueue t p))"
| stop: "pool_event p (shutdown p)"
| spurious: "i < length (tp_workers p) \<Longrightarrow> tp_workers p ! i = Asleep \<Longrightarrow> pool_event p (set_worker i Ready p)"

subsection \<open>The invariant\<close>

fun running_of :: "worker \<Rightarrow> nat multiset" where
  "running_of (Running t) = {#t#}"
| "running_of _ = {#}"

abbreviation running_tasks :: "worker list \<Rightarrow> nat multiset" where
  "running_tasks ws \<equiv> sum_mset (image_mset running_of (mset ws))"

definition busy :: "worker \<Rightarrow> bool" where
  "busy w \<longleftrightarrow> w \<noteq> Asleep \<and> w \<noteq> Gone"

definition queue_inv :: "task_pool \<Rightarrow> bool" where
  "queue_inv p \<longleftrightarrow> tp_workers p \<noteq> [] \<and> tp_accepted p = tp_taken p @ tp_queue p \<and>
     mset (tp_taken p) = mset (tp_finished p) + running_tasks (tp_workers p)"

definition wake_inv :: "task_pool \<Rightarrow> bool" where
  "wake_inv p \<longleftrightarrow> (Gone \<in> set (tp_workers p) \<longrightarrow> tp_stopping p \<and> tp_queue p = []) \<and>
     (tp_stopping p \<and> \<not> tp_announce p \<longrightarrow> Asleep \<notin> set (tp_workers p)) \<and>
     (tp_queue p \<noteq> [] \<longrightarrow> tp_notifies p > 0 \<or> tp_announce p \<or> (\<exists>w \<in> set (tp_workers p). busy w))"

lemma running_update:
  assumes "i < length ws"
  shows "running_tasks (ws[i := w]) + running_of (ws ! i) = running_tasks ws + running_of w"
proof -
  let ?N = "mset ws - {#ws ! i#}"
  have "mset ws = add_mset (ws ! i) ?N" "mset (ws[i := w]) = add_mset w ?N" using assms by (simp_all add: mset_update)
  then have "running_tasks ws = running_of (ws ! i) + sum_mset (image_mset running_of ?N)" "running_tasks (ws[i := w]) = running_of w + sum_mset (image_mset running_of ?N)"
    by (metis image_mset_add_mset sum_mset.insert)+
  then show ?thesis by simp
qed

lemma running_notify: "running_tasks (map (\<lambda>w. if w = Asleep then Ready else w) ws) = running_tasks ws"
  by (induction ws) auto

lemma set_worker_fields [simp]:
  "tp_queue (set_worker i w p) = tp_queue p" "tp_stopping (set_worker i w p) = tp_stopping p" "tp_workers (set_worker i w p) = (tp_workers p)[i := w]"
  "tp_notifies (set_worker i w p) = tp_notifies p" "tp_announce (set_worker i w p) = tp_announce p" "tp_accepted (set_worker i w p) = tp_accepted p"
  "tp_taken (set_worker i w p) = tp_taken p" "tp_finished (set_worker i w p) = tp_finished p"
  by (simp_all add: set_worker_def)

lemma work_queue_inv:
  assumes "queue_inv p" "i < length (tp_workers p)" "tp_workers p ! i = Ready"
  shows "queue_inv (work i p)"
  using assms running_update [OF assms(2)] by (auto simp: queue_inv_def work_def split: list.splits)

lemma act_queue_inv: "pool_act p p' \<Longrightarrow> queue_inv p \<Longrightarrow> queue_inv p'"
proof (induction rule: pool_act.induct)
  case (notify_one p i)
  then show ?case using running_update [of i "tp_workers p" Ready] by (auto simp: queue_inv_def)
next
  case (notify_all p)
  then show ?case by (simp add: queue_inv_def running_notify del: mset_map)
next
  case (work i p)
  then show ?case by (intro work_queue_inv)
next
  case (finish i p t)
  then show ?case using running_update [of i "tp_workers p" Ready] by (auto simp: queue_inv_def)
qed (simp add: queue_inv_def)

lemma event_queue_inv: "pool_event p p' \<Longrightarrow> queue_inv p \<Longrightarrow> queue_inv p'"
proof (induction rule: pool_event.induct)
  case (spurious i p)
  then show ?case using running_update [of i "tp_workers p" Ready] by (auto simp: queue_inv_def)
qed (auto simp: queue_inv_def enqueue_def shutdown_def dest: act_queue_inv [unfolded queue_inv_def])

lemma awake_busy: "queue_inv p \<Longrightarrow> wake_inv p \<Longrightarrow> tp_queue p \<noteq> [] \<Longrightarrow> Asleep \<notin> set (tp_workers p) \<Longrightarrow> \<exists>w \<in> set (tp_workers p). busy w"
  by (cases "tp_workers p") (auto simp: queue_inv_def wake_inv_def busy_def)

lemma woken_wake_inv:
  assumes inv: "queue_inv p" "wake_inv p" and i: "i < length (tp_workers p)" "w = Ready \<or> (\<exists>t. w = Running t)"
    and p': "tp_workers p' = (tp_workers p)[i := w]" "tp_queue p' = tp_queue p \<or> tp_queue p' = tl (tp_queue p)" "tp_stopping p' = tp_stopping p" "tp_announce p' = tp_announce p"
  shows "wake_inv p'"
proof -
  have b: "\<exists>w \<in> set (tp_workers p'). busy w" using i p'(1) by (auto simp: busy_def intro!: bexI [of _ w] set_update_memI)
  have s: "set (tp_workers p') \<subseteq> insert w (set (tp_workers p))" using p'(1) by (simp add: set_update_subset_insert)
  have "Gone \<in> set (tp_workers p)" if "Gone \<in> set (tp_workers p')" using that s i(2) by blast
  moreover have "Asleep \<in> set (tp_workers p)" if "Asleep \<in> set (tp_workers p')" using that s i(2) by blast
  moreover have "tp_queue p' = []" if "tp_queue p = []" using that p'(2) by auto
  ultimately show ?thesis using inv(2) b unfolding wake_inv_def p'(3,4) by blast
qed

lemma idle_wake_inv:
  assumes inv: "wake_inv p" and q: "tp_queue p = []" and w: "w = Asleep \<and> \<not> tp_stopping p \<or> w = Gone \<and> tp_stopping p"
  shows "wake_inv (set_worker i w p)"
  using assms set_update_subset_insert [of "tp_workers p" i w] by (auto simp: wake_inv_def)

lemma work_wake_inv:
  assumes "queue_inv p" "wake_inv p" "i < length (tp_workers p)"
  shows "wake_inv (work i p)"
proof (cases "tp_queue p")
  case Nil
  then show ?thesis using idle_wake_inv [OF assms(2) Nil] by (auto simp: work_def)
next
  case (Cons t ts)
  then show ?thesis by (intro woken_wake_inv [OF assms(1,2,3), of "Running t"]) (simp_all add: work_def)
qed

lemma act_wake_inv: "pool_act p p' \<Longrightarrow> queue_inv p \<Longrightarrow> wake_inv p \<Longrightarrow> wake_inv p'"
proof (induction rule: pool_act.induct)
  case (notify_none p)
  have b: "tp_queue p \<noteq> [] \<Longrightarrow> \<exists>w \<in> set (tp_workers p). busy w" by (rule awake_busy [OF notify_none(3,4) _ notify_none(2)])
  show ?case using notify_none(4) b unfolding wake_inv_def by simp
next
  case (notify_all p)
  let ?p = "p\<lparr>tp_announce := False, tp_workers := map (\<lambda>w. if w = Asleep then Ready else w) (tp_workers p)\<rparr>"
  have "\<exists>w \<in> set (tp_workers ?p). busy w" if q: "tp_queue p \<noteq> []"
  proof -
    obtain w where w: "w \<in> set (tp_workers p)" using notify_all(2) by (cases "tp_workers p") (auto simp: queue_inv_def)
    moreover have "w \<noteq> Gone" using notify_all(3) q w by (auto simp: wake_inv_def)
    ultimately show ?thesis by (intro bexI [of _ "if w = Asleep then Ready else w"]) (auto simp: busy_def)
  qed
  then show ?case using notify_all(3) by (auto simp: wake_inv_def)
next
  case (notify_one p i)
  show ?case by (rule woken_wake_inv [OF notify_one(4,5,2), of Ready]) simp_all
next
  case (work i p)
  then show ?case by (intro work_wake_inv)
next
  case (finish i p t)
  show ?case by (rule woken_wake_inv [OF finish(3,4,1), of Ready]) simp_all
qed

lemma event_wake_inv: "pool_event p p' \<Longrightarrow> queue_inv p \<Longrightarrow> wake_inv p \<Longrightarrow> wake_inv p'"
proof (induction rule: pool_event.induct)
  case (act p p')
  then show ?case using act_wake_inv by blast
next
  case (spurious i p)
  show ?case by (rule woken_wake_inv [OF spurious(3,4,1), of Ready]) simp_all
qed (auto simp: wake_inv_def enqueue_def shutdown_def)

lemma pool_reachable: "pool_event\<^sup>*\<^sup>* (new_pool n hw) p \<Longrightarrow> queue_inv p \<and> wake_inv p"
proof (induction rule: rtranclp_induct)
  case base
  have "running_tasks (replicate k Ready) = {#}" for k by (induction k) auto
  then show ?case by (auto simp: new_pool_def queue_inv_def wake_inv_def)
next
  case (step p p')
  then show ?case using event_queue_inv event_wake_inv by blast
qed

text \<open>
  C26. The pool runs every accepted task exactly once and loses no wake-up. In every state reachable by any
  interleaving of submissions, shutdowns, spurious wake-ups and workers, tasks leave the queue in the order of their
  acceptance, and the tasks taken are those running and those finished. When all workers have been joined,
  every accepted task has finished. And where no worker and no pending notification can make a step, the queue is empty, no
  task is running and, after a shutdown, all workers have left.
\<close>

theorem task_queue_drains:
  assumes "pool_event\<^sup>*\<^sup>* (new_pool n hw) p"
  shows "tp_accepted p = tp_taken p @ tp_queue p \<and> mset (tp_taken p) = mset (tp_finished p) + running_tasks (tp_workers p) \<and>
    (joined p \<longrightarrow> mset (tp_finished p) = mset (tp_accepted p)) \<and>
    (\<not> (\<exists>p'. pool_act p p') \<longrightarrow> tp_queue p = [] \<and> mset (tp_finished p) = mset (tp_accepted p) \<and> (tp_stopping p \<longrightarrow> joined p))"
proof -
  have inv: "queue_inv p" "wake_inv p" using pool_reachable [OF assms] by simp_all
  have acc: "tp_accepted p = tp_taken p @ tp_queue p" "mset (tp_taken p) = mset (tp_finished p) + running_tasks (tp_workers p)" using inv(1) by (simp_all add: queue_inv_def)
  have none: "running_tasks ws = {#}" if "\<And>w. w \<in> set ws \<Longrightarrow> \<not> busy w" for ws
  proof -
    have "running_of w = {#}" if "\<not> busy w" for w using that by (cases w) (simp_all add: busy_def)
    then show ?thesis using that by simp
  qed
  have "mset (tp_finished p) = mset (tp_accepted p)" if j: "joined p"
  proof -
    have "tp_queue p = []" using inv j by (cases "tp_workers p") (auto simp: joined_def queue_inv_def wake_inv_def)
    moreover have "running_tasks (tp_workers p) = {#}" by (rule none) (use j in \<open>auto simp: joined_def busy_def\<close>)
    ultimately show ?thesis using acc by simp
  qed
  moreover have "tp_queue p = [] \<and> mset (tp_finished p) = mset (tp_accepted p) \<and> (tp_stopping p \<longrightarrow> joined p)" if st: "\<not> (\<exists>p'. pool_act p p')"
  proof -
    have b: "\<not> busy w" if "w \<in> set (tp_workers p)" for w
    proof -
      obtain i where i: "i < length (tp_workers p)" "tp_workers p ! i = w" using \<open>w \<in> set (tp_workers p)\<close> by (auto simp: in_set_conv_nth)
      then show ?thesis using st pool_act.work [OF i(1)] pool_act.finish [OF i(1)] by (cases w) (auto simp: busy_def)
    qed
    have n: "tp_notifies p = 0" "\<not> tp_announce p"
      using st pool_act.notify_one [of p] pool_act.notify_none [of p] pool_act.notify_all [of p] by (auto simp: in_set_conv_nth)
    have q: "tp_queue p = []" using inv(2) n b by (auto simp: wake_inv_def)
    have "w = Gone" if "tp_stopping p" "w \<in> set (tp_workers p)" for w using inv(2) n that b [OF that(2)] by (auto simp: wake_inv_def busy_def)
    then show ?thesis using q acc none [OF b] by (simp add: joined_def)
  qed
  ultimately show ?thesis using acc by blast
qed

text \<open>One worker takes one task, finishes it after the shutdown, and leaves.\<close>

abbreviation pool_state :: "nat list \<Rightarrow> bool \<Rightarrow> worker \<Rightarrow> nat \<Rightarrow> bool \<Rightarrow> nat list \<Rightarrow> nat list \<Rightarrow> nat list \<Rightarrow> task_pool" where
  "pool_state q st w n an ac ta fi \<equiv> \<lparr>tp_queue = q, tp_stopping = st, tp_workers = [w], tp_notifies = n, tp_announce = an, tp_accepted = ac, tp_taken = ta, tp_finished = fi\<rparr>"

lemma one_task_run: "pool_event\<^sup>*\<^sup>* (new_pool 1 0) (pool_state [] True Gone 1 True [7] [7] [7])"
proof -
  have a: "pool_event (new_pool 1 0) (pool_state [7] False Ready 1 False [7] [] [])"
    using pool_event.submit [of "new_pool 1 0" 7] by (simp add: enqueue_def new_pool_def)
  have b: "pool_event (pool_state [7] False Ready 1 False [7] [] []) (pool_state [] False (Running 7) 1 False [7] [7] [])"
    using pool_event.act [OF pool_act.work [of 0 "pool_state [7] False Ready 1 False [7] [] []"]] by (simp add: work_def set_worker_def)
  have c: "pool_event (pool_state [] False (Running 7) 1 False [7] [7] []) (pool_state [] True (Running 7) 1 True [7] [7] [])"
    using pool_event.stop [of "pool_state [] False (Running 7) 1 False [7] [7] []"] by (simp add: shutdown_def)
  have d: "pool_event (pool_state [] True (Running 7) 1 True [7] [7] []) (pool_state [] True Ready 1 True [7] [7] [7])"
    using pool_event.act [OF pool_act.finish [of 0 "pool_state [] True (Running 7) 1 True [7] [7] []" 7]] by (simp add: set_worker_def)
  have e: "pool_event (pool_state [] True Ready 1 True [7] [7] [7]) (pool_state [] True Gone 1 True [7] [7] [7])"
    using pool_event.act [OF pool_act.work [of 0 "pool_state [] True Ready 1 True [7] [7] [7]"]] by (simp add: work_def set_worker_def)
  show ?thesis using a b c d e by (blast intro: converse_rtranclp_into_rtranclp)
qed

theorem task_queue_drains_witness:
  "joined (pool_state [] True Gone 1 True [7] [7] [7]) \<and> mset (tp_finished (pool_state [] True Gone 1 True [7] [7] [7])) = {#7#}"
  using task_queue_drains [OF one_task_run] by (simp add: joined_def)

end
