(* ===== verification/Spec2Isabelle.thy ===== *)
theory Spec2Isabelle
  imports VF_Rng VF_Context VF_Select VF_IdMap VF_Flat VF_Graph VF_HnswSearch VF_HnswInsert
    VF_Validator VF_Bytes VF_Format VF_HnswIo
    VF_Compact VF_BatchAdd VF_SearchBatch VF_SnapshotSafe
    VF_CatalogOpen VF_SharedMutex VF_ThreadPool VF_TaskQueue
begin

text \<open>
  VectorForge, a vector search engine in C++20 (\<^verbatim>\<open>src/\<close> below is the directory of that name in the
  repository). A collection stores vectors of one dimension under external ids and answers nearest-neighbour queries with an exact
  (flat) or an approximate (HNSW) index; it is saved to one checksummed file, and a snapshot directory holds numbered generations
  of such files. This development translates the code into functions and step relations and proves the properties that the library
  documents.

  \<^bold>\<open>Parts and theories.\<close>

  \<^item> \<^emph>\<open>Vocabulary\<close>: \<open>VF_Prelude\<close>, \<open>VF_Status\<close> (\<^verbatim>\<open>status.hpp\<close>), \<open>VF_Types\<close> (\<^verbatim>\<open>types.hpp\<close>, \<^verbatim>\<open>config.hpp\<close>), \<open>VF_Rng\<close>
    (\<^verbatim>\<open>core/rng.hpp\<close>, \<^verbatim>\<open>level_generator.hpp\<close>). A \<open>Status\<close> is a code with its message, a \<open>Result\<close> a sum; level generation is the integer
    logarithm that the comments describe.
  \<^item> \<^emph>\<open>Floats and kernels\<close>: \<open>VF_Float\<close> (IEEE binary32 by bit pattern, rounding to nearest even), \<open>VF_Kernels\<close> and \<open>VF_Normalize\<close>
    (\<^verbatim>\<open>simd/kernels_scalar.cpp\<close>, \<^verbatim>\<open>core/validation.cpp\<close>, \<^verbatim>\<open>core/vector_ops.cpp\<close>). A kernel table is a parameter with the laws
    \<open>kernel_laws\<close>, proved for the scalar table: vectors that pass validation never score NaN, and a normalised vector is valid again.
  \<^item> \<^emph>\<open>Search state\<close>: \<open>VF_Heaps\<close>, \<open>VF_Context\<close> (\<^verbatim>\<open>search/heaps.hpp\<close>, \<^verbatim>\<open>visited_set.hpp\<close>, \<^verbatim>\<open>search_context.hpp\<close>, \<^verbatim>\<open>context_pool.hpp\<close>):
    the array heaps keep the k best in order, the epoch-stamped set survives the wrap-around of its epoch, and no two searches share a context.
  \<^item> \<^emph>\<open>Storage\<close>: \<open>VF_Tombstones\<close>, \<open>VF_IdMap\<close>, \<open>VF_VectorStore\<close>, \<open>VF_Graph\<close> (\<^verbatim>\<open>storage/\<close>, \<^verbatim>\<open>index/hnsw/hnsw_graph.cpp\<close>): each refines
    a set, a map, a list of rows, or a map from (node, level) to link lists, down to words, chunk pointers and the arena.
  \<^item> \<^emph>\<open>Indexes\<close>: \<open>VF_Flat\<close>, \<open>VF_Select\<close>, \<open>VF_HnswSearch\<close>, \<open>VF_HnswInsert\<close>, \<open>VF_Validator\<close> (\<^verbatim>\<open>index/\<close>): the flat search is exact; the
    beam search is specified by a visited set closed under the links of all good nodes and is exact with a beam as wide as a connected graph;
    insertion keeps the graph invariant on success and on every failure; the checker accepts exactly the graphs with that invariant.
  \<^item> \<^emph>\<open>Collection\<close>: \<open>VF_Collection\<close>, \<open>VF_CollectionInv\<close>, \<open>VF_CollectionOps\<close>, \<open>VF_Batch\<close>, \<open>VF_Sections\<close>, \<open>VF_BatchAdd\<close>, \<open>VF_Compact\<close>,
    \<open>VF_CollectionSearch\<close>, \<open>VF_SearchBatch\<close>, \<open>VF_Progress\<close> (\<^verbatim>\<open>collection/collection.cpp\<close>): every operation refines an operation on a map from
    ids to rows under every pattern of failed allocations, queries answer from that map, and a vector added to a flat collection is found
    again. \<open>collection_full\<close> is the exact condition under which \<open>add\<close> reports that there is no room. \<open>VF_Batch\<close> calls the thread pool of
    \<open>VF_ThreadPool\<close> to link the rows of a section (\<open>link_plan\<close>, \<open>link_section\<close>); where \<open>parallel_for\<close> itself throws, the code leaves rows
    without links (\<open>coll_stranded\<close>), and the theorem on batches says so.
  \<^item> \<^emph>\<open>File format\<close>: \<open>VF_Bytes\<close>, \<open>VF_Format\<close>, \<open>VF_Steps\<close>, \<open>VF_HnswIo\<close>, \<open>VF_GraphRoundTrip\<close>, \<open>VF_IndexReader\<close>, \<open>VF_IndexWriter\<close>, \<open>VF_Integrity\<close>,
    \<open>VF_SaveLoad\<close> (\<^verbatim>\<open>storage/format.cpp\<close>, \<^verbatim>\<open>crc32c.cpp\<close>, \<^verbatim>\<open>binary_io.cpp\<close>, \<^verbatim>\<open>collection/index_reader.cpp\<close>, \<^verbatim>\<open>index_writer.cpp\<close>): the
    reader is safe on arbitrary bytes, reader and writer are inverse on the collections that the format can hold (\<open>savable\<close>), and a full
    verification detects every single-byte change.
  \<^item> \<^emph>\<open>Durability\<close>: \<open>VF_Files\<close>, \<open>VF_FileSink\<close>, \<open>VF_AtomicFile\<close>, \<open>VF_Manifest\<close>, \<open>VF_Snapshot\<close>, \<open>VF_SnapshotSafe\<close> (\<^verbatim>\<open>storage/atomic_file*.cpp\<close>,
    \<^verbatim>\<open>storage/flat_json.hpp\<close>, \<^verbatim>\<open>collection/snapshot.cpp\<close>): a file is replaced atomically and a snapshot leaves the previous or the new
    generation loadable, at every crash point and under every failing system call but a failed look-up of the existing MANIFEST. The entry of
    the directory itself has a durability of its own (\<open>directories\<close>): the code never syncs the parent, so that a new directory may be lost as a
    whole.
  \<^item> \<^emph>\<open>Catalog\<close>: \<open>VF_Catalog\<close>, \<open>VF_CatalogOpen\<close> (\<^verbatim>\<open>collection/catalog.cpp\<close>): the registry of named collections with its reference counts, deleters and directories as a step
    relation: the files of a collection in use are never removed; \<open>open\<close> with every call it makes, which loads, creates again or removes what the steps
    left behind. That snapshots change a directory as the step \<open>snapshot_write\<close> says is proved of \<open>save_snapshot\<close> (\<open>save_snapshot_changes\<close>). Two executions show how a
    restart can undo a \<open>drop\<close>.
  \<^item> \<^emph>\<open>Concurrency\<close>: \<open>VF_Counters\<close>, \<open>VF_SharedMutex\<close>, \<open>VF_ThreadPool\<close>, \<open>VF_TaskQueue\<close> (\<^verbatim>\<open>concurrency/fair_shared_mutex.hpp\<close>,
    \<^verbatim>\<open>concurrency/thread_pool.cpp\<close>): step relations between accesses to shared state. The lock excludes, loses no wake-up and bounds
    overtaking of writers (a reader can be overtaken without bound); \<open>parallel_for\<close>, inline or in parallel, covers each index exactly once
    and ends (\<open>range_call\<close>; \<open>ranges_fit\<close> excludes an overflow of the last chunk); the pool drains its queue.

  \<^bold>\<open>How the parts fit together.\<close> The collection calls an index through the locale \<open>index_step\<close> (what \<open>insert_reserved\<close> needs of the call that
  indexes a row), interpreted for \<open>add\<close> of both backends and for \<open>reserve_node\<close>. Search and insertion use the graph through
  \<open>link_store\<close>, the heaps are generic in a \<open>weak_order\<close>, searches use \<open>visited_laws\<close>. The index writer is generic in a byte sink:
  \<open>sink_contract\<close>, \<open>sink_invariant\<close> and \<open>reliable_sink\<close>, interpreted for memory and for the buffered output file; \<open>write_atomic\<close> is generic in
  its callback through \<open>contents_writer\<close>. So the round trip of a collection through memory and its atomic save to disk rest on one proof of
  the bytes that are written.

  \<^bold>\<open>Conventions.\<close> An operation takes its state and returns it updated. An exception (\<^verbatim>\<open>std::bad_alloc\<close>) is \<open>Thrown\<close>, a failed assertion
  \<open>Aborted\<close> or \<open>None\<close>; inputs named \<open>mem\<close>, \<open>mems\<close> or \<open>faults\<close> say which allocations succeed, and the theorems hold for all of them. Integers of
  the file format, of counters and of hashes are words of their width; sizes of data held in memory are natural numbers, with the
  overflow checks of the code written out. Row numbers are natural numbers below \<open>kInvalidInternalId\<close>.

  \<^bold>\<open>Loops and bounds.\<close> Loops are total recursive functions with a measure. The rejection loop of \<open>uniform_below\<close> may not end and is a partial
  function; the search loops return an option, and the theorems show that the value is always present. The operating system is a world with a list of
  events that decide the outcome of its calls; when the list is empty every call succeeds, so that a loop that retries an
  interrupted call ends. Disk states are kept in a history, from which the contents after a crash are computed: an entry may have any value since its
  directory was last synced, a file any contents unless it was synced.

  \<^bold>\<open>Not modelled.\<close> The AVX2 kernels and their dispatch (compiler intrinsics; a kernel table is a parameter), the HTTP server, its JSON codec and
  metrics (code around third-party libraries), the command line and the Python bindings, the Windows variants of the file layer, data set files,
  synthetic data and logging, the listing operations of the catalog, the futures of the thread pool, and the lock stripes.
  Inside the collection the locks only order operations: the rows of a section of a batch are linked one at a time, on a pool in any order, which is an input, and so is
  where a slice of a batch ends, which the code decides by a clock. The queries of \<open>search_batch\<close>, which share nothing they write, are run in order.
\<close>

end
